(* ===== verification/Toe_Prelude.thy ===== *)
theory Toe_Prelude
  imports Main "HOL-Library.Word"
begin

text \<open>
  Shared vocabulary of the development: widths and configuration constants of
  \<^verbatim>\<open>toe_config.hpp.in\<close>, FIFOs, bit ranges of \<^verbatim>\<open>ap_uint\<close> values, the
  collections of rules the component proofs draw on, and the two locales that
  lift a one-call property of a component to all its runs.

  Conventions used everywhere:
  \<^item> an \<^verbatim>\<open>hls::stream<T>\<close> is the list of the items it holds, oldest first; a
    \<^verbatim>\<open>write\<close> appends, a \<^verbatim>\<open>read\<close> takes the head; \<^verbatim>\<open>full()\<close> of a stream is a
    Boolean argument of the process that asks for it, since the depth of the
    stream belongs to the place where it is declared;
  \<^item> \<^verbatim>\<open>ap_uint<w>\<close> is \<open>w word\<close>, \<^verbatim>\<open>ap_uint<1>\<close> and \<^verbatim>\<open>bool\<close> are \<open>bool\<close>. The operators
    of \<^verbatim>\<open>ap_int\<close> widen their result (a sum has one bit more, a difference is
    signed), so a comparison of unassigned sums or differences is done on
    \<open>nat\<close> or \<open>int\<close>, and a value wraps only where it is assigned;
  \<^item> a \<^verbatim>\<open>static\<close> array indexed by a session number is a total function on 16-bit
    session numbers (the array has \<open>MAX_SESSIONS\<close> cells);
  \<^item> a local variable that the code reads before it has assigned it is an
    argument of the model.
\<close>

unbundle bit_operations_syntax

named_theorems toe_defs \<open>definitions of the step functions\<close>
named_theorems toe_inv \<open>invariants kept by the step functions\<close>

subsection \<open>Widths and configuration\<close>

type_synonym sid = "16 word"
type_synonym u32 = "32 word"
type_synonym u16 = "16 word"
type_synonym win = "18 word"
type_synonym 'a fifo = "'a list"

text \<open>
  \<^verbatim>\<open>WINDOW_SCALE\<close> is on, so a window has \<^verbatim>\<open>WINDOW_BITS = 16 + WINDOW_SCALE_BITS = 18\<close>
  bits; the top-level build sets \<^verbatim>\<open>MSS\<close> to 4096 and leaves \<^verbatim>\<open>MAX_SESSIONS\<close> at 1000.
\<close>

definition MAX_SESSIONS :: nat where "MAX_SESSIONS = 1000"
definition MSS :: nat where "MSS = 4096"
definition WINDOW_SCALE_BITS :: "4 word" where "WINDOW_SCALE_BITS = 2"
definition BUFFER_SIZE :: nat where "BUFFER_SIZE = 2 ^ 18"
definition CONGESTION_WINDOW_MAX :: nat where "CONGESTION_WINDOW_MAX = BUFFER_SIZE - 2048"

subsection \<open>Bit ranges\<close>

text \<open>\<^verbatim>\<open>w(hi, lo)\<close> read and assigned; a 16-bit value with its bytes swapped; a 32-bit one.\<close>

definition range_get :: "nat \<Rightarrow> nat \<Rightarrow> 'a::len word \<Rightarrow> 'b::len word" where
  "range_get hi lo w = ucast (take_bit (hi - lo + 1) (drop_bit lo w))"

definition range_set :: "nat \<Rightarrow> nat \<Rightarrow> 'b::len word \<Rightarrow> 'a::len word \<Rightarrow> 'a word" where
  "range_set hi lo v w =
     (w AND NOT (push_bit lo (mask (hi - lo + 1))))
     OR push_bit lo (take_bit (hi - lo + 1) (ucast v))"

definition reverse16 :: "u16 \<Rightarrow> u16" where
  "reverse16 w = range_set 7 0 (range_get 15 8 w :: 8 word)
                   (range_set 15 8 (range_get 7 0 w :: 8 word) 0)"

definition reverse32 :: "u32 \<Rightarrow> u32" where
  "reverse32 w =
     range_set 7 0 (range_get 31 24 w :: 8 word)
      (range_set 15 8 (range_get 23 16 w :: 8 word)
        (range_set 23 16 (range_get 15 8 w :: 8 word)
          (range_set 31 24 (range_get 7 0 w :: 8 word) 0)))"

lemma bit_range_get:
  "bit (range_get hi lo (w :: 'a::len word) :: 'b::len word) n
     \<longleftrightarrow> n < LENGTH('b) \<and> n \<le> hi - lo \<and> n + lo < LENGTH('a) \<and> bit w (n + lo)"
  by (auto simp: range_get_def bit_simps add.commute dest: bit_imp_le_length)

lemma bit_range_set:
  "bit (range_set hi lo (v :: 'b::len word) (w :: 'a::len word)) n
     \<longleftrightarrow> n < LENGTH('a) \<and>
         (if lo \<le> n \<and> n \<le> lo + (hi - lo) then n - lo < LENGTH('b) \<and> bit v (n - lo) else bit w n)"
  by (auto simp: range_set_def bit_simps dest: bit_imp_le_length)

lemma range_get_set_same:
  fixes v :: "'b::len word" and w :: "'a::len word"
  assumes "hi < LENGTH('a)" and "lo \<le> hi" and "LENGTH('b) = hi - lo + 1"
  shows "range_get hi lo (range_set hi lo v w) = v"
  using assms by (intro bit_word_eqI) (auto simp: bit_range_get bit_range_set)

lemma range_get_set_other:
  fixes v :: "'b::len word" and w :: "'a::len word"
  assumes "hi' < lo \<or> hi < lo'" and "lo \<le> hi" and "lo' \<le> hi'"
  shows "(range_get hi' lo' (range_set hi lo v w) :: 'c::len word) = range_get hi' lo' w"
  using assms by (intro bit_word_eqI) (auto simp: bit_range_get bit_range_set)

lemma reverse16_reverse16 [simp]: "reverse16 (reverse16 w) = w"
  by (intro bit_word_eqI) (auto simp: reverse16_def bit_range_get bit_range_set)

lemma reverse32_reverse32 [simp]: "reverse32 (reverse32 w) = w"
  by (intro bit_word_eqI) (auto simp: reverse32_def bit_range_get bit_range_set)

subsection \<open>Words as numbers\<close>

named_theorems word_nat \<open>the numbers that words denote\<close>

lemma unat_bound: "unat (w :: 'a::len word) < 2 ^ LENGTH('a)"
  by (rule unsigned_less)

lemma unat_cast [word_nat]: "unat (ucast (w :: 'a::len word) :: 'b::len word) = unat w mod 2 ^ LENGTH('b)"
  by (simp add: unsigned_ucast_eq take_bit_eq_mod)

lemma unat_add_mod: "unat (a + b :: 'a::len word) = (unat a + unat b) mod 2 ^ LENGTH('a)"
proof (cases "unat a + unat b < 2 ^ LENGTH('a)")
  case False
  then have "unat a + unat b - 2 ^ LENGTH('a) < 2 ^ LENGTH('a)"
    using unat_bound[of a] unat_bound[of b] by linarith
  then show ?thesis using False by (simp add: unat_plus_if' le_mod_geq)
qed (simp add: unat_plus_if')

lemma nat_sub_mod: "b \<le> a \<Longrightarrow> a < n \<Longrightarrow> (n + a - b) mod n = (a - b :: nat)"
  by (metis Nat.add_diff_assoc diff_le_self mod_add_self1 mod_less order_le_less_trans)

lemma unat_sub_mod:
  "unat (a - b :: 'a::len word) = (2 ^ LENGTH('a) + unat a - unat b) mod 2 ^ LENGTH('a)"
proof (cases "b \<le> a")
  case True
  then show ?thesis using unat_bound[of a] by (simp add: unat_sub nat_sub_mod word_le_nat_alt)
next
  case False
  then have "2 ^ LENGTH('a) + unat a - unat b < 2 ^ LENGTH('a)"
    using unat_bound[of b] unfolding word_le_nat_alt by linarith
  then show ?thesis using False by (simp only: unat_sub_if_size word_size word_le_nat_alt mod_less)
     simp
qed

lemma unat_drop_bit_div [word_nat]: "unat (drop_bit n w) = unat w div 2 ^ n"
  by (simp only: unat_drop_bit_eq) (simp only: drop_bit_eq_div)

lemma unat_push_bit_mult:
  "unat (w :: 'a::len word) * 2 ^ n < 2 ^ LENGTH('a) \<Longrightarrow> unat (push_bit n w) = unat w * 2 ^ n"
  by (simp only: unsigned_push_bit_eq) (simp only: push_bit_eq_mult take_bit_nat_eq_self)

lemma in_set_tl [dest]: "x \<in> set (tl xs) \<Longrightarrow> x \<in> set xs"
  by (cases xs) simp_all

subsection \<open>Runs of a component\<close>

text \<open>
  A component is a step function on its state; its environment and its own call
  are the events of the run. An invariant that every permitted event keeps is kept by every
  run of permitted events.
\<close>

locale reactive =
  fixes step :: "'e \<Rightarrow> 's \<Rightarrow> 's"
    and inv :: "'s \<Rightarrow> bool"
    and permitted :: "'e \<Rightarrow> bool"
  assumes inv_step: "inv s \<Longrightarrow> permitted e \<Longrightarrow> inv (step e s)"
begin

lemma inv_run: "inv s \<Longrightarrow> \<forall>e \<in> set es. permitted e \<Longrightarrow> inv (fold step es s)"
  by (induction es arbitrary: s) (auto intro: inv_step)

end

text \<open>
  A component that, while it is called without new input, works off what it holds: every
  call that is not yet done lowers a measure, so the component is done after that many calls.
\<close>

locale terminating =
  fixes call :: "'s \<Rightarrow> 's"
    and pending :: "'s \<Rightarrow> bool"
    and rank :: "'s \<Rightarrow> nat"
    and ok :: "'s \<Rightarrow> bool"
  assumes ok_call: "ok s \<Longrightarrow> ok (call s)"
    and rank_call: "ok s \<Longrightarrow> pending s \<Longrightarrow> rank (call s) < rank s"
begin

lemma eventually_done: "ok s \<Longrightarrow> \<exists>n \<le> rank s. \<not> pending ((call ^^ n) s)"
proof (induction "rank s" arbitrary: s rule: less_induct)
  case less
  show ?case
  proof (cases "pending s")
    case False
    then have "\<not> pending ((call ^^ 0) s)" by simp
    then show ?thesis by blast
  next
    case True
    have lt: "rank (call s) < rank s" using less.prems True by (rule rank_call)
    obtain n where n: "n \<le> rank (call s)" "\<not> pending ((call ^^ n) (call s))"
      using less.hyps[OF lt ok_call[OF less.prems]] by blast
    have "\<not> pending ((call ^^ Suc n) s)" using n(2) by (simp add: funpow_swap1)
    then show ?thesis using n(1) lt by (meson Suc_leI le_trans not_less_eq_eq)
  qed
qed

end

text \<open>
  A component whose every call, while it has work, lowers the measure by exactly one: the number
  of calls until it is done is the measure.
\<close>

locale countdown =
  fixes call :: "'s \<Rightarrow> 's"
    and rank :: "'s \<Rightarrow> nat"
    and ok :: "'s \<Rightarrow> bool"
  assumes ok_step: "ok s \<Longrightarrow> ok (call s)"
    and rank_step: "ok s \<Longrightarrow> 0 < rank s \<Longrightarrow> rank s = Suc (rank (call s))"

sublocale countdown \<subseteq> terminating call "\<lambda>s. 0 < rank s" rank ok
  by unfold_locales (use ok_step rank_step in \<open>fastforce+\<close>)

context countdown
begin

lemma ok_calls: "ok s \<Longrightarrow> ok ((call ^^ n) s)"
  by (induction n) (auto simp: ok_step)

lemma rank_calls: "ok s \<Longrightarrow> n \<le> rank s \<Longrightarrow> rank ((call ^^ n) s) = rank s - n"
proof (induction n)
  case (Suc n)
  then have *: "rank ((call ^^ n) s) = rank s - n" by simp
  then have "0 < rank ((call ^^ n) s)" using Suc.prems by simp
  from rank_step[OF ok_calls[OF Suc.prems(1)] this]
  have "rank (call ((call ^^ n) s)) = rank s - Suc n" using * by linarith
  then show ?case by simp
qed simp

text \<open>The call that finishes the work is made in a state of measure one.\<close>

lemma last_call:
  assumes "ok s" and "0 < rank s"
  obtains t where "ok t" "rank t = 1" "(call ^^ rank s) s = call t" "t = (call ^^ (rank s - 1)) s"
proof
  show "ok ((call ^^ (rank s - 1)) s)" using assms(1) by (rule ok_calls)
  show "rank ((call ^^ (rank s - 1)) s) = 1" using assms by (simp add: rank_calls)
  show "(call ^^ rank s) s = call ((call ^^ (rank s - 1)) s)"
    using assms(2) by (cases "rank s") simp_all
qed simp

end

subsection \<open>Sweeping the sessions\<close>

text \<open>
  The timers visit one session per call, in the order of the numbers, and start again after
  the last. \<open>sweep_dist p i\<close> is the number of calls until session \<open>i\<close> is visited.
\<close>

definition sweep_next :: "sid \<Rightarrow> sid" where
  "sweep_next p = (if unat (p + 1) = MAX_SESSIONS then 0 else p + 1)"

definition sweep_dist :: "sid \<Rightarrow> sid \<Rightarrow> nat" where
  "sweep_dist p i = (if unat p \<le> unat i then unat i - unat p
                     else MAX_SESSIONS + unat i - unat p)"

lemma unat_sid_Suc: "unat (p :: sid) < MAX_SESSIONS \<Longrightarrow> unat (p + 1) = unat p + 1"
  by (simp add: unat_add_mod MAX_SESSIONS_def)

lemma sweep_next_lt: "unat p < MAX_SESSIONS \<Longrightarrow> unat (sweep_next p) < MAX_SESSIONS"
  by (auto simp: sweep_next_def unat_sid_Suc MAX_SESSIONS_def)

lemma sweep_dist_zero: "unat p < MAX_SESSIONS \<Longrightarrow> sweep_dist p i = 0 \<longleftrightarrow> p = i"
  by (auto simp: sweep_dist_def word_unat_eq_iff)

lemma sweep_dist_next:
  assumes "unat p < MAX_SESSIONS" and "unat i < MAX_SESSIONS"
  shows "p \<noteq> i \<Longrightarrow> Suc (sweep_dist (sweep_next p) i) = sweep_dist p i"
    and "sweep_dist (sweep_next i) i = MAX_SESSIONS - 1"
proof -
  assume "p \<noteq> i"
  then have "unat p \<noteq> unat i" by (simp add: word_unat_eq_iff)
  then show "Suc (sweep_dist (sweep_next p) i) = sweep_dist p i"
    using assms by (auto simp: sweep_dist_def sweep_next_def unat_sid_Suc)
next
  show "sweep_dist (sweep_next i) i = MAX_SESSIONS - 1"
    using assms by (auto simp: sweep_dist_def sweep_next_def unat_sid_Suc)
qed

end
