(* ===== verification/Toe_Types.thy ===== *)
theory Toe_Types
  imports Toe_Prelude
begin

text \<open>
  The data of \<^verbatim>\<open>toe/toe_internals.hpp\<close> and \<^verbatim>\<open>toe/toe.hpp\<close>: the enumerations, the structs that
  travel between the processes, and their constructors. Every struct is a record with the
  struct's fields; an overloaded constructor is one definition per overload. A field that a
  constructor leaves unset is 0 here; the receiving process does not read it (it tests
  \<^verbatim>\<open>write\<close> or \<^verbatim>\<open>init\<close> first), except where the theory of that process says otherwise.
  \<^verbatim>\<open>WINDOW_SCALE\<close>, \<^verbatim>\<open>TCP_NODELAY\<close> and \<^verbatim>\<open>FAST_RETRANSMIT\<close> are on, as in the build.
\<close>

subsection \<open>Enumerations\<close>

datatype eventType = TX | RT | ACK | SYN | SYN_ACK | FIN | RST | ACK_NODELAY

datatype sessionState =
    CLOSED | SYN_SENT | SYN_RECEIVED | ESTABLISHED | FIN_WAIT_1 | FIN_WAIT_2
  | CLOSING | TIME_WAIT | LAST_ACK

text \<open>The values of the enumerators; C++ orders an enumeration by them.\<close>

fun sessionState_val :: "sessionState \<Rightarrow> nat" where
  "sessionState_val CLOSED = 0"
| "sessionState_val SYN_SENT = 1"
| "sessionState_val SYN_RECEIVED = 2"
| "sessionState_val ESTABLISHED = 3"
| "sessionState_val FIN_WAIT_1 = 4"
| "sessionState_val FIN_WAIT_2 = 5"
| "sessionState_val CLOSING = 6"
| "sessionState_val TIME_WAIT = 7"
| "sessionState_val LAST_ACK = 8"

lemma sessionState_val_inject: "sessionState_val a = sessionState_val b \<Longrightarrow> a = b"
  by (cases a; cases b; simp)

instantiation sessionState :: linorder
begin
definition less_eq_sessionState :: "sessionState \<Rightarrow> sessionState \<Rightarrow> bool" where
  "less_eq_sessionState a b \<longleftrightarrow> sessionState_val a \<le> sessionState_val b"
definition less_sessionState :: "sessionState \<Rightarrow> sessionState \<Rightarrow> bool" where
  "less_sessionState a b \<longleftrightarrow> sessionState_val a < sessionState_val b"
instance
  by standard (auto simp: less_eq_sessionState_def less_sessionState_def
      intro: sessionState_val_inject)
end

subsection \<open>Time constants (synthesis values)\<close>

definition TIME_64us :: u32 where "TIME_64us = 11"
definition TIME_50ms :: u32 where "TIME_50ms = 7813"
definition TIME_1s :: u32 where "TIME_1s = 156251"
definition TIME_5s :: u32 where "TIME_5s = 781251"
definition TIME_10s :: u32 where "TIME_10s = 1562501"
definition TIME_15s :: u32 where "TIME_15s = 2343751"
definition TIME_30s :: u32 where "TIME_30s = 4687501"
definition TIME_60s :: u32 where "TIME_60s = 9375001"

subsection \<open>Connections\<close>

record fourTuple =
  ft_srcIp :: u32
  ft_dstIp :: u32
  ft_srcPort :: u16
  ft_dstPort :: u16

definition mk_fourTuple :: "u32 \<Rightarrow> u32 \<Rightarrow> u16 \<Rightarrow> u16 \<Rightarrow> fourTuple" where
  "mk_fourTuple sip dip sp dp =
     \<lparr>ft_srcIp = sip, ft_dstIp = dip, ft_srcPort = sp, ft_dstPort = dp\<rparr>"

text \<open>The comparison operator of the struct looks at the addresses only.\<close>

definition fourTuple_less :: "fourTuple \<Rightarrow> fourTuple \<Rightarrow> bool" where
  "fourTuple_less l r \<longleftrightarrow>
     ft_dstIp l < ft_dstIp r \<or> (ft_dstIp l = ft_dstIp r \<and> ft_srcIp l < ft_srcIp r)"

record sessionLookupQuery =
  slq_tuple :: fourTuple
  slq_allowCreation :: bool

record sessionLookupReply =
  slr_sessionID :: sid
  slr_hit :: bool

record stateQuery =
  sq_sessionID :: sid
  sq_state :: sessionState
  sq_write :: bool

definition stateQuery_rd :: "sid \<Rightarrow> stateQuery" where
  "stateQuery_rd i = \<lparr>sq_sessionID = i, sq_state = CLOSED, sq_write = False\<rparr>"

definition stateQuery_of :: "sid \<Rightarrow> sessionState \<Rightarrow> bool \<Rightarrow> stateQuery" where
  "stateQuery_of i st w = \<lparr>sq_sessionID = i, sq_state = st, sq_write = w\<rparr>"

subsection \<open>Receive side bookkeeping\<close>

record rxSarEntry =
  rse_recvd :: u32
  rse_appd :: win
  rse_win_shift :: "4 word"
  rse_head :: u32
  rse_offset :: u32
  rse_gap :: bool

record rxSarReply =
  rsr_recvd :: u32
  rsr_win_shift :: "4 word"
  rsr_windowSize :: u16
  rsr_usedLength :: win

definition rxSarReply_of :: "rxSarEntry \<Rightarrow> rxSarReply" where
  "rxSarReply_of e = \<lparr>rsr_recvd = rse_recvd e, rsr_win_shift = rse_win_shift e,
     rsr_windowSize = 0, rsr_usedLength = 0\<rparr>"

record rxSarRecvd =
  rsv_sessionID :: sid
  rsv_recvd :: u32
  rsv_win_shift :: "4 word"
  rsv_write :: bool
  rsv_init :: bool
  rsv_head :: u32
  rsv_offset :: u32
  rsv_gap :: bool

definition rxSarRecvd_rd :: "sid \<Rightarrow> rxSarRecvd" where
  "rxSarRecvd_rd i = \<lparr>rsv_sessionID = i, rsv_recvd = 0, rsv_win_shift = 0, rsv_write = False,
     rsv_init = False, rsv_head = 0, rsv_offset = 0, rsv_gap = False\<rparr>"

definition rxSarRecvd_wr :: "sid \<Rightarrow> u32 \<Rightarrow> rxSarRecvd" where
  "rxSarRecvd_wr i r = \<lparr>rsv_sessionID = i, rsv_recvd = r, rsv_win_shift = 0, rsv_write = True,
     rsv_init = False, rsv_head = 0, rsv_offset = 0, rsv_gap = False\<rparr>"

definition rxSarRecvd_gap :: "sid \<Rightarrow> u32 \<Rightarrow> u32 \<Rightarrow> u32 \<Rightarrow> bool \<Rightarrow> rxSarRecvd" where
  "rxSarRecvd_gap i r h off g = \<lparr>rsv_sessionID = i, rsv_recvd = r, rsv_win_shift = 0,
     rsv_write = True, rsv_init = False, rsv_head = h, rsv_offset = off, rsv_gap = g\<rparr>"

definition rxSarRecvd_init ::
    "sid \<Rightarrow> u32 \<Rightarrow> u32 \<Rightarrow> u32 \<Rightarrow> bool \<Rightarrow> 4 word \<Rightarrow> rxSarRecvd" where
  "rxSarRecvd_init i r h off g ws = \<lparr>rsv_sessionID = i, rsv_recvd = r, rsv_win_shift = ws,
     rsv_write = True, rsv_init = True, rsv_head = h, rsv_offset = off, rsv_gap = g\<rparr>"

record rxSarAppd =
  rsa_sessionID :: sid
  rsa_appd :: win
  rsa_write :: bool

definition rxSarAppd_rd :: "sid \<Rightarrow> rxSarAppd" where
  "rxSarAppd_rd i = \<lparr>rsa_sessionID = i, rsa_appd = 0, rsa_write = False\<rparr>"

definition rxSarAppd_wr :: "sid \<Rightarrow> win \<Rightarrow> rxSarAppd" where
  "rxSarAppd_wr i a = \<lparr>rsa_sessionID = i, rsa_appd = a, rsa_write = True\<rparr>"

subsection \<open>Transmit side bookkeeping\<close>

record txSarEntry =
  tse_ackd :: u32
  tse_not_ackd :: u32
  tse_recv_window :: u16
  tse_win_shift :: "4 word"
  tse_cong_window :: win
  tse_slowstart_threshold :: win
  tse_app :: win
  tse_count :: "2 word"
  tse_fastRetransmitted :: bool
  tse_finReady :: bool
  tse_finSent :: bool

record rxTxSarQuery =
  rtq_sessionID :: sid
  rtq_ackd :: u32
  rtq_recv_window :: u16
  rtq_cong_window :: win
  rtq_count :: "2 word"
  rtq_fastRetransmitted :: bool
  rtq_win_shift :: "4 word"
  rtq_write :: bool
  rtq_init :: bool

definition rxTxSarQuery_rd :: "sid \<Rightarrow> rxTxSarQuery" where
  "rxTxSarQuery_rd i = \<lparr>rtq_sessionID = i, rtq_ackd = 0, rtq_recv_window = 0,
     rtq_cong_window = 0, rtq_count = 0, rtq_fastRetransmitted = False, rtq_win_shift = 0,
     rtq_write = False, rtq_init = False\<rparr>"

definition rxTxSarQuery_wr ::
    "sid \<Rightarrow> u32 \<Rightarrow> u16 \<Rightarrow> win \<Rightarrow> 2 word \<Rightarrow> bool \<Rightarrow> rxTxSarQuery" where
  "rxTxSarQuery_wr i a rw cw c f = \<lparr>rtq_sessionID = i, rtq_ackd = a, rtq_recv_window = rw,
     rtq_cong_window = cw, rtq_count = c, rtq_fastRetransmitted = f, rtq_win_shift = 0,
     rtq_write = True, rtq_init = False\<rparr>"

definition rxTxSarQuery_init ::
    "sid \<Rightarrow> u32 \<Rightarrow> u16 \<Rightarrow> win \<Rightarrow> 2 word \<Rightarrow> bool \<Rightarrow> 4 word \<Rightarrow> rxTxSarQuery" where
  "rxTxSarQuery_init i a rw cw c f ws = \<lparr>rtq_sessionID = i, rtq_ackd = a, rtq_recv_window = rw,
     rtq_cong_window = cw, rtq_count = c, rtq_fastRetransmitted = f, rtq_win_shift = ws,
     rtq_write = True, rtq_init = True\<rparr>"

record txTxSarQuery =
  ttq_sessionID :: sid
  ttq_not_ackd :: u32
  ttq_write :: bool
  ttq_init :: bool
  ttq_finReady :: bool
  ttq_finSent :: bool
  ttq_isRtQuery :: bool

definition txTxSarQuery7 ::
    "sid \<Rightarrow> u32 \<Rightarrow> bool \<Rightarrow> bool \<Rightarrow> bool \<Rightarrow> bool \<Rightarrow> bool \<Rightarrow> txTxSarQuery" where
  "txTxSarQuery7 i na w ini fr fs rt = \<lparr>ttq_sessionID = i, ttq_not_ackd = na, ttq_write = w,
     ttq_init = ini, ttq_finReady = fr, ttq_finSent = fs, ttq_isRtQuery = rt\<rparr>"

definition txTxSarQuery_rd :: "sid \<Rightarrow> txTxSarQuery" where
  "txTxSarQuery_rd i = txTxSarQuery7 i 0 False False False False False"

definition txTxSarQuery3 :: "sid \<Rightarrow> u32 \<Rightarrow> bool \<Rightarrow> txTxSarQuery" where
  "txTxSarQuery3 i na w = txTxSarQuery7 i na w False False False False"

definition txTxSarQuery4 :: "sid \<Rightarrow> u32 \<Rightarrow> bool \<Rightarrow> bool \<Rightarrow> txTxSarQuery" where
  "txTxSarQuery4 i na w ini = txTxSarQuery7 i na w ini False False False"

definition txTxSarQuery6 ::
    "sid \<Rightarrow> u32 \<Rightarrow> bool \<Rightarrow> bool \<Rightarrow> bool \<Rightarrow> bool \<Rightarrow> txTxSarQuery" where
  "txTxSarQuery6 i na w ini fr fs = txTxSarQuery7 i na w ini fr fs False"

text \<open>\<^verbatim>\<open>txTxSarRtQuery\<close> carries a slow start threshold in the \<^verbatim>\<open>not_ackd\<close> field.\<close>

definition txTxSarRtQuery :: "sid \<Rightarrow> win \<Rightarrow> txTxSarQuery" where
  "txTxSarRtQuery i ssthresh = txTxSarQuery7 i (ucast ssthresh) True False False False True"

definition getThreshold :: "txTxSarQuery \<Rightarrow> win" where
  "getThreshold q = range_get 17 0 (ttq_not_ackd q)"

record txAppTxSarQuery =
  taq_sessionID :: sid
  taq_mempt :: win
  taq_write :: bool

definition txAppTxSarQuery_rd :: "sid \<Rightarrow> txAppTxSarQuery" where
  "txAppTxSarQuery_rd i = \<lparr>taq_sessionID = i, taq_mempt = 0, taq_write = False\<rparr>"

definition txAppTxSarQuery_wr :: "sid \<Rightarrow> win \<Rightarrow> txAppTxSarQuery" where
  "txAppTxSarQuery_wr i p = \<lparr>taq_sessionID = i, taq_mempt = p, taq_write = True\<rparr>"

record rxTxSarReply =
  rtr_prevAck :: u32
  rtr_nextByte :: u32
  rtr_cong_window :: win
  rtr_slowstart_threshold :: win
  rtr_count :: "2 word"
  rtr_fastRetransmitted :: bool

record txAppTxSarReply =
  tar_sessionID :: sid
  tar_ackd :: win
  tar_mempt :: win
  tar_min_window :: win

record txAppTxSarPush =
  tap_sessionID :: sid
  tap_app :: win

record txSarAckPush =
  tak_sessionID :: sid
  tak_ackd :: win
  tak_min_window :: win
  tak_init :: bool

definition txSarAckPush3 :: "sid \<Rightarrow> win \<Rightarrow> win \<Rightarrow> txSarAckPush" where
  "txSarAckPush3 i a m = \<lparr>tak_sessionID = i, tak_ackd = a, tak_min_window = m, tak_init = False\<rparr>"

definition txSarAckPush4 :: "sid \<Rightarrow> win \<Rightarrow> win \<Rightarrow> bool \<Rightarrow> txSarAckPush" where
  "txSarAckPush4 i a m b = \<lparr>tak_sessionID = i, tak_ackd = a, tak_min_window = m, tak_init = b\<rparr>"

text \<open>The constructor of \<^verbatim>\<open>txTxSarReply\<close> leaves \<^verbatim>\<open>win_shift\<close> unset; no process reads it.\<close>

record txTxSarReply =
  ttr_ackd :: u32
  ttr_not_ackd :: u32
  ttr_usableWindow :: win
  ttr_app :: win
  ttr_usedLength :: win
  ttr_finReady :: bool
  ttr_finSent :: bool

subsection \<open>Timers and events\<close>

record rxRetransmitTimerUpdate =
  rrt_sessionID :: sid
  rrt_stop :: bool

record txRetransmitTimerSet =
  trs_sessionID :: sid
  trs_type :: eventType

record event =
  ev_type :: eventType
  ev_sessionID :: sid
  ev_address :: win
  ev_length :: u16
  ev_rt_count :: "3 word"

definition event2 :: "eventType \<Rightarrow> sid \<Rightarrow> event" where
  "event2 ty i = \<lparr>ev_type = ty, ev_sessionID = i, ev_address = 0, ev_length = 0, ev_rt_count = 0\<rparr>"

definition event3 :: "eventType \<Rightarrow> sid \<Rightarrow> 3 word \<Rightarrow> event" where
  "event3 ty i c =
     \<lparr>ev_type = ty, ev_sessionID = i, ev_address = 0, ev_length = 0, ev_rt_count = c\<rparr>"

definition event4 :: "eventType \<Rightarrow> sid \<Rightarrow> win \<Rightarrow> u16 \<Rightarrow> event" where
  "event4 ty i a l =
     \<lparr>ev_type = ty, ev_sessionID = i, ev_address = a, ev_length = l, ev_rt_count = 0\<rparr>"

definition event5 :: "eventType \<Rightarrow> sid \<Rightarrow> win \<Rightarrow> u16 \<Rightarrow> 3 word \<Rightarrow> event" where
  "event5 ty i a l c =
     \<lparr>ev_type = ty, ev_sessionID = i, ev_address = a, ev_length = l, ev_rt_count = c\<rparr>"

record extendedEvent = event +
  ev_tuple :: fourTuple

definition extendedEvent1 :: "event \<Rightarrow> extendedEvent" where
  "extendedEvent1 e = event.extend e \<lparr>ev_tuple = mk_fourTuple 0 0 0 0\<rparr>"

definition extendedEvent2 :: "event \<Rightarrow> fourTuple \<Rightarrow> extendedEvent" where
  "extendedEvent2 e t = event.extend e \<lparr>ev_tuple = t\<rparr>"

text \<open>
  \<^verbatim>\<open>rstEvent\<close> is an \<^verbatim>\<open>event\<close> whose \<^verbatim>\<open>address\<close> and \<^verbatim>\<open>length\<close> hold the two halves of the number
  to acknowledge, and whose \<^verbatim>\<open>rt_count\<close> says whether the session number is valid.
\<close>

definition rstEvent1 :: "u32 \<Rightarrow> event" where
  "rstEvent1 s = event5 RST 0 (range_get 31 16 s) (range_get 15 0 s) 0"

definition rstEvent2 :: "sid \<Rightarrow> u32 \<Rightarrow> event" where
  "rstEvent2 i s = event5 RST i (range_get 31 16 s) (range_get 15 0 s) 1"

definition rstEvent3 :: "sid \<Rightarrow> u32 \<Rightarrow> bool \<Rightarrow> event" where
  "rstEvent3 i s b = event5 RST i (range_get 31 16 s) (range_get 15 0 s) (if b then 1 else 0)"

definition getAckNumb :: "('a) event_scheme \<Rightarrow> u32" where
  "getAckNumb e = range_set 15 0 (ev_length e) (range_set 31 16 (ev_address e) 0)"

definition hasSessionID :: "('a) event_scheme \<Rightarrow> bool" where
  "hasSessionID e \<longleftrightarrow> ev_rt_count e \<noteq> 0"

subsection \<open>Application interface structs\<close>

record ipTuple =
  ipt_ip_address :: u32
  ipt_ip_port :: u16

record mmCmd =
  mm_bbt :: "23 word"
  mm_type :: bool
  mm_dsa :: "6 word"
  mm_eof :: bool
  mm_drr :: bool
  mm_saddr :: u32
  mm_tag :: "4 word"
  mm_rsvd :: "4 word"

definition mmCmd_of :: "u32 \<Rightarrow> u16 \<Rightarrow> mmCmd" where
  "mmCmd_of addr len = \<lparr>mm_bbt = ucast len, mm_type = True, mm_dsa = 0, mm_eof = True,
     mm_drr = True, mm_saddr = addr, mm_tag = 0, mm_rsvd = 0\<rparr>"

text \<open>The address of a byte of a session in its buffer: session number, then the low bits of the sequence number.\<close>

definition pkgAddr :: "sid \<Rightarrow> u32 \<Rightarrow> u32" where
  "pkgAddr i seq = range_set 17 0 (range_get 17 0 seq :: win)
                     (range_set 29 18 (range_get 13 0 i :: 14 word) (range_set 31 30 (0 :: 2 word) 0))"

record mmStatus =
  ms_tag :: "4 word"
  ms_interr :: bool
  ms_decerr :: bool
  ms_slverr :: bool
  ms_okay :: bool

record openStatus =
  os_sessionID :: sid
  os_success :: "8 word"
  os_ip :: u32
  os_port :: u16

definition openStatus2 :: "sid \<Rightarrow> 8 word \<Rightarrow> openStatus" where
  "openStatus2 i ok = \<lparr>os_sessionID = i, os_success = ok, os_ip = 0, os_port = 0\<rparr>"

definition openStatus4 :: "sid \<Rightarrow> 8 word \<Rightarrow> u32 \<Rightarrow> u16 \<Rightarrow> openStatus" where
  "openStatus4 i ok ip p = \<lparr>os_sessionID = i, os_success = ok, os_ip = ip, os_port = p\<rparr>"

record appNotification =
  an_sessionID :: sid
  an_length :: u16
  an_ipAddress :: u32
  an_dstPort :: u16
  an_closed :: bool

definition appNotification4 :: "sid \<Rightarrow> u16 \<Rightarrow> u32 \<Rightarrow> u16 \<Rightarrow> appNotification" where
  "appNotification4 i len ip p = \<lparr>an_sessionID = i, an_length = len, an_ipAddress = ip,
     an_dstPort = p, an_closed = False\<rparr>"

definition appNotification_closed2 :: "sid \<Rightarrow> bool \<Rightarrow> appNotification" where
  "appNotification_closed2 i c = \<lparr>an_sessionID = i, an_length = 0, an_ipAddress = 0,
     an_dstPort = 0, an_closed = c\<rparr>"

definition appNotification_closed4 :: "sid \<Rightarrow> u32 \<Rightarrow> u16 \<Rightarrow> bool \<Rightarrow> appNotification" where
  "appNotification_closed4 i ip p c = \<lparr>an_sessionID = i, an_length = 0, an_ipAddress = ip,
     an_dstPort = p, an_closed = c\<rparr>"

definition appNotification5 :: "sid \<Rightarrow> u16 \<Rightarrow> u32 \<Rightarrow> u16 \<Rightarrow> bool \<Rightarrow> appNotification" where
  "appNotification5 i len ip p c = \<lparr>an_sessionID = i, an_length = len, an_ipAddress = ip,
     an_dstPort = p, an_closed = c\<rparr>"

record appReadRequest =
  arr_sessionID :: sid
  arr_length :: u16

record appTxMeta =
  atm_sessionID :: sid
  atm_length :: u16

record appTxRsp =
  atr_sessionID :: sid
  atr_length :: u16
  atr_remaining_space :: "30 word"
  atr_error :: "2 word"

subsection \<open>Facts on the message encodings\<close>

lemma getThreshold_txTxSarRtQuery [simp]: "getThreshold (txTxSarRtQuery i w) = w"
  by (intro bit_word_eqI)
    (auto simp: getThreshold_def txTxSarRtQuery_def txTxSarQuery7_def bit_range_get bit_simps)

lemma getAckNumb_halves [simp]:
  "getAckNumb (event5 ty i (range_get 31 16 s) (range_get 15 0 s) c) = s"
  by (intro bit_word_eqI) (auto simp: getAckNumb_def event5_def bit_range_get bit_range_set)

lemma getAckNumb_rstEvent [simp]:
  "getAckNumb (rstEvent1 s) = s" "getAckNumb (rstEvent2 i s) = s" "getAckNumb (rstEvent3 i s b) = s"
  by (simp_all add: rstEvent1_def rstEvent2_def rstEvent3_def)

lemma hasSessionID_rstEvent [simp]:
  "\<not> hasSessionID (rstEvent1 s)" "hasSessionID (rstEvent2 i s)"
  "hasSessionID (rstEvent3 i s b) \<longleftrightarrow> b"
  by (simp_all add: hasSessionID_def rstEvent1_def rstEvent2_def rstEvent3_def event5_def)

end
