(* ===== verification/State_Table.thy ===== *)
theory State_Table
  imports Toe_Types
begin

text \<open>
  \<^verbatim>\<open>toe/state_table/state_table.cpp\<close>: the table of connection states. Three clients use it: the
  application side (\<^verbatim>\<open>tx_app_if\<close>) and the receive engine read and write it under a lock per
  client, the timers close a session. The record holds the static variables (\<^verbatim>\<open>stt_...\<close>) and the
  eight streams (\<open>stf_...\<close>); \<open>state_table\<close> is one call. The blocks that the source repeats (a
  granted access of a client) are the definitions \<open>stt_txServe\<close>, \<open>stt_rxServe\<close>, \<open>stt_closeServe\<close>.

  The second half states what the component promises: an abstract table with one lock per
  client on which each call performs at most one enabled operation, the exclusion of the two
  locks, and the atomicity of a read followed by a write.
\<close>

subsection \<open>State and step\<close>

record stt_state =
  stt_table :: "sid \<Rightarrow> sessionState"
  stt_txSessionID :: sid
  stt_rxSessionID :: sid
  stt_rxSessionLocked :: bool
  stt_txSessionLocked :: bool
  stt_txAccess :: stateQuery
  stt_rxAccess :: stateQuery
  stt_txWait :: bool
  stt_rxWait :: bool
  stt_closeSessionID :: sid
  stt_closeWait :: bool
  stf_rxUpdReq :: "stateQuery fifo"
  stf_txUpdReq :: "stateQuery fifo"
  stf_txReq :: "sid fifo"
  stf_timerRelease :: "sid fifo"
  stf_rxUpdRsp :: "sessionState fifo"
  stf_txUpdRsp :: "sessionState fifo"
  stf_txRsp :: "sessionState fifo"
  stf_release :: "sid fifo"

definition stt_init :: stt_state where
  "stt_init = \<lparr>stt_table = (\<lambda>_. CLOSED), stt_txSessionID = 0, stt_rxSessionID = 0,
     stt_rxSessionLocked = False, stt_txSessionLocked = False,
     stt_txAccess = stateQuery_rd 0, stt_rxAccess = stateQuery_rd 0,
     stt_txWait = False, stt_rxWait = False, stt_closeSessionID = 0, stt_closeWait = False,
     stf_rxUpdReq = [], stf_txUpdReq = [], stf_txReq = [], stf_timerRelease = [],
     stf_rxUpdRsp = [], stf_txUpdRsp = [], stf_txRsp = [], stf_release = []\<rparr>"

text \<open>An access of the application side, of the receive engine, of the timers, once granted.\<close>

definition stt_txServe :: "stt_state \<Rightarrow> stt_state" where
  "stt_txServe s =
     (let q = stt_txAccess s; i = sq_sessionID q in
      if sq_write q then
        s\<lparr>stt_table := (stt_table s)(i := sq_state q), stt_txSessionLocked := False\<rparr>
      else
        s\<lparr>stf_txUpdRsp := stf_txUpdRsp s @ [stt_table s i],
          stt_txSessionID := i, stt_txSessionLocked := True\<rparr>)"

definition stt_rxServe :: "stt_state \<Rightarrow> stt_state" where
  "stt_rxServe s =
     (let q = stt_rxAccess s; i = sq_sessionID q in
      if sq_write q then
        s\<lparr>stf_release := (if sq_state q = CLOSED then stf_release s @ [i] else stf_release s),
          stt_table := (stt_table s)(i := sq_state q), stt_rxSessionLocked := False\<rparr>
      else
        s\<lparr>stf_rxUpdRsp := stf_rxUpdRsp s @ [stt_table s i],
          stt_rxSessionID := i, stt_rxSessionLocked := True\<rparr>)"

definition stt_closeServe :: "stt_state \<Rightarrow> stt_state" where
  "stt_closeServe s =
     (let i = stt_closeSessionID s in
      s\<lparr>stt_table := (stt_table s)(i := CLOSED), stf_release := stf_release s @ [i]\<rparr>)"

definition rxLocks :: "stt_state \<Rightarrow> sid \<Rightarrow> bool" where
  "rxLocks s i \<longleftrightarrow> i = stt_rxSessionID s \<and> stt_rxSessionLocked s"

definition txLocks :: "stt_state \<Rightarrow> sid \<Rightarrow> bool" where
  "txLocks s i \<longleftrightarrow> i = stt_txSessionID s \<and> stt_txSessionLocked s"

definition state_table :: "stt_state \<Rightarrow> stt_state" where
  "state_table s =
    (if stf_txUpdReq s \<noteq> [] \<and> \<not> stt_txWait s then
       (let s = s\<lparr>stt_txAccess := hd (stf_txUpdReq s), stf_txUpdReq := tl (stf_txUpdReq s)\<rparr> in
        if rxLocks s (sq_sessionID (stt_txAccess s)) then s\<lparr>stt_txWait := True\<rparr>
        else stt_txServe s)
     else if stf_txReq s \<noteq> [] then
       s\<lparr>stf_txReq := tl (stf_txReq s),
         stf_txRsp := stf_txRsp s @ [stt_table s (hd (stf_txReq s))]\<rparr>
     else if stf_rxUpdReq s \<noteq> [] \<and> \<not> stt_rxWait s then
       (let s = s\<lparr>stt_rxAccess := hd (stf_rxUpdReq s), stf_rxUpdReq := tl (stf_rxUpdReq s)\<rparr> in
        if txLocks s (sq_sessionID (stt_rxAccess s)) then s\<lparr>stt_rxWait := True\<rparr>
        else stt_rxServe s)
     else if stf_timerRelease s \<noteq> [] \<and> \<not> stt_closeWait s then
       (let s = s\<lparr>stt_closeSessionID := hd (stf_timerRelease s),
                  stf_timerRelease := tl (stf_timerRelease s)\<rparr> in
        if rxLocks s (stt_closeSessionID s) \<or> txLocks s (stt_closeSessionID s)
        then s\<lparr>stt_closeWait := True\<rparr>
        else stt_closeServe s)
     else if stt_txWait s then
       (if \<not> rxLocks s (sq_sessionID (stt_txAccess s))
        then (stt_txServe s)\<lparr>stt_txWait := False\<rparr> else s)
     else if stt_rxWait s then
       (if \<not> txLocks s (sq_sessionID (stt_rxAccess s))
        then (stt_rxServe s)\<lparr>stt_rxWait := False\<rparr> else s)
     else if stt_closeWait s then
       (if \<not> rxLocks s (stt_closeSessionID s) \<and> \<not> txLocks s (stt_closeSessionID s)
        then (stt_closeServe s)\<lparr>stt_closeWait := False\<rparr> else s)
     else s)"

lemmas stt_step_defs [toe_defs] =
  state_table_def stt_txServe_def stt_rxServe_def stt_closeServe_def
  rxLocks_def txLocks_def Let_def

subsection \<open>Runs\<close>

text \<open>What the clients do to the streams between two calls, and the call.\<close>

datatype stt_event =
    Stt_call
  | Stt_txUpd stateQuery
  | Stt_txPeek sid
  | Stt_rxUpd stateQuery
  | Stt_timer sid
  | Stt_popRx
  | Stt_popTx
  | Stt_popPeek
  | Stt_popRelease

fun stt_exec :: "stt_event \<Rightarrow> stt_state \<Rightarrow> stt_state" where
  "stt_exec Stt_call s = state_table s"
| "stt_exec (Stt_txUpd q) s = s\<lparr>stf_txUpdReq := stf_txUpdReq s @ [q]\<rparr>"
| "stt_exec (Stt_txPeek i) s = s\<lparr>stf_txReq := stf_txReq s @ [i]\<rparr>"
| "stt_exec (Stt_rxUpd q) s = s\<lparr>stf_rxUpdReq := stf_rxUpdReq s @ [q]\<rparr>"
| "stt_exec (Stt_timer i) s = s\<lparr>stf_timerRelease := stf_timerRelease s @ [i]\<rparr>"
| "stt_exec Stt_popRx s = s\<lparr>stf_rxUpdRsp := tl (stf_rxUpdRsp s)\<rparr>"
| "stt_exec Stt_popTx s = s\<lparr>stf_txUpdRsp := tl (stf_txUpdRsp s)\<rparr>"
| "stt_exec Stt_popPeek s = s\<lparr>stf_txRsp := tl (stf_txRsp s)\<rparr>"
| "stt_exec Stt_popRelease s = s\<lparr>stf_release := tl (stf_release s)\<rparr>"

subsection \<open>The two locks exclude each other\<close>

definition stt_inv :: "stt_state \<Rightarrow> bool" where
  "stt_inv s \<longleftrightarrow> \<not> (stt_rxSessionLocked s \<and> stt_txSessionLocked s
                   \<and> stt_rxSessionID s = stt_txSessionID s)"

text \<open>What one call does, as a case distinction: the requests it takes and how it answers.\<close>

abbreviation stt_takeTx :: "stt_state \<Rightarrow> stt_state" where
  "stt_takeTx s \<equiv> s\<lparr>stt_txAccess := hd (stf_txUpdReq s), stf_txUpdReq := tl (stf_txUpdReq s)\<rparr>"

abbreviation stt_takeRx :: "stt_state \<Rightarrow> stt_state" where
  "stt_takeRx s \<equiv> s\<lparr>stt_rxAccess := hd (stf_rxUpdReq s), stf_rxUpdReq := tl (stf_rxUpdReq s)\<rparr>"

abbreviation stt_takeClose :: "stt_state \<Rightarrow> stt_state" where
  "stt_takeClose s \<equiv>
     s\<lparr>stt_closeSessionID := hd (stf_timerRelease s), stf_timerRelease := tl (stf_timerRelease s)\<rparr>"

lemma locks_take [simp]:
  "rxLocks (stt_takeTx s) i = rxLocks s i" "rxLocks (stt_takeRx s) i = rxLocks s i"
  "rxLocks (stt_takeClose s) i = rxLocks s i" "txLocks (stt_takeTx s) i = txLocks s i"
  "txLocks (stt_takeRx s) i = txLocks s i" "txLocks (stt_takeClose s) i = txLocks s i"
  by (simp_all add: rxLocks_def txLocks_def)

lemma state_table_cases:
  obtains (idle) "state_table s = s"
      "stf_txUpdReq s = [] \<or> stt_txWait s" "stf_txReq s = []"
      "stf_rxUpdReq s = [] \<or> stt_rxWait s" "stf_timerRelease s = [] \<or> stt_closeWait s"
      "stt_txWait s \<or> stt_rxWait s \<or> stt_closeWait s \<Longrightarrow> \<exists>i. rxLocks s i \<or> txLocks s i"
  | (txHold) "stf_txUpdReq s \<noteq> []" "\<not> stt_txWait s"
      "rxLocks s (sq_sessionID (hd (stf_txUpdReq s)))"
      "state_table s = (stt_takeTx s)\<lparr>stt_txWait := True\<rparr>"
  | (txNew) "stf_txUpdReq s \<noteq> []" "\<not> stt_txWait s"
      "\<not> rxLocks s (sq_sessionID (hd (stf_txUpdReq s)))"
      "state_table s = stt_txServe (stt_takeTx s)"
  | (peek) "stf_txReq s \<noteq> []"
      "state_table s = s\<lparr>stf_txReq := tl (stf_txReq s),
         stf_txRsp := stf_txRsp s @ [stt_table s (hd (stf_txReq s))]\<rparr>"
  | (rxHold) "stf_rxUpdReq s \<noteq> []" "\<not> stt_rxWait s"
      "txLocks s (sq_sessionID (hd (stf_rxUpdReq s)))"
      "state_table s = (stt_takeRx s)\<lparr>stt_rxWait := True\<rparr>"
  | (rxNew) "stf_rxUpdReq s \<noteq> []" "\<not> stt_rxWait s"
      "\<not> txLocks s (sq_sessionID (hd (stf_rxUpdReq s)))"
      "state_table s = stt_rxServe (stt_takeRx s)"
  | (closeHold) "stf_timerRelease s \<noteq> []" "\<not> stt_closeWait s"
      "rxLocks s (hd (stf_timerRelease s)) \<or> txLocks s (hd (stf_timerRelease s))"
      "state_table s = (stt_takeClose s)\<lparr>stt_closeWait := True\<rparr>"
  | (closeNew) "stf_timerRelease s \<noteq> []" "\<not> stt_closeWait s"
      "\<not> rxLocks s (hd (stf_timerRelease s))" "\<not> txLocks s (hd (stf_timerRelease s))"
      "state_table s = stt_closeServe (stt_takeClose s)"
  | (txRetry) "stt_txWait s" "\<not> rxLocks s (sq_sessionID (stt_txAccess s))"
      "state_table s = (stt_txServe s)\<lparr>stt_txWait := False\<rparr>"
  | (rxRetry) "stt_rxWait s" "\<not> txLocks s (sq_sessionID (stt_rxAccess s))"
      "state_table s = (stt_rxServe s)\<lparr>stt_rxWait := False\<rparr>"
  | (closeRetry) "stt_closeWait s" "\<not> rxLocks s (stt_closeSessionID s)"
      "\<not> txLocks s (stt_closeSessionID s)"
      "state_table s = (stt_closeServe s)\<lparr>stt_closeWait := False\<rparr>"
proof -
  consider (a) "stf_txUpdReq s \<noteq> [] \<and> \<not> stt_txWait s"
    | (b) "\<not> (stf_txUpdReq s \<noteq> [] \<and> \<not> stt_txWait s)" "stf_txReq s \<noteq> []"
    | (c) "\<not> (stf_txUpdReq s \<noteq> [] \<and> \<not> stt_txWait s)" "stf_txReq s = []"
        "stf_rxUpdReq s \<noteq> [] \<and> \<not> stt_rxWait s"
    | (d) "\<not> (stf_txUpdReq s \<noteq> [] \<and> \<not> stt_txWait s)" "stf_txReq s = []"
        "\<not> (stf_rxUpdReq s \<noteq> [] \<and> \<not> stt_rxWait s)"
        "stf_timerRelease s \<noteq> [] \<and> \<not> stt_closeWait s"
    | (e) "\<not> (stf_txUpdReq s \<noteq> [] \<and> \<not> stt_txWait s)" "stf_txReq s = []"
        "\<not> (stf_rxUpdReq s \<noteq> [] \<and> \<not> stt_rxWait s)"
        "\<not> (stf_timerRelease s \<noteq> [] \<and> \<not> stt_closeWait s)"
    by argo
  then show thesis
  proof cases
    case a
    then show thesis
      by (cases "rxLocks s (sq_sessionID (hd (stf_txUpdReq s)))")
        (auto simp: state_table_def Let_def intro: txHold txNew)
  next
    case b
    then show thesis by (intro peek) (auto simp: state_table_def)
  next
    case c
    then show thesis
      by (cases "txLocks s (sq_sessionID (hd (stf_rxUpdReq s)))")
        (auto simp: state_table_def Let_def intro: rxHold rxNew)
  next
    case d
    then show thesis
      by (cases "rxLocks s (hd (stf_timerRelease s)) \<or> txLocks s (hd (stf_timerRelease s))")
        (auto simp: state_table_def Let_def intro: closeHold closeNew)
  next
    case e
    have *: "state_table s =
      (if stt_txWait s then (if \<not> rxLocks s (sq_sessionID (stt_txAccess s))
          then (stt_txServe s)\<lparr>stt_txWait := False\<rparr> else s)
       else if stt_rxWait s then (if \<not> txLocks s (sq_sessionID (stt_rxAccess s))
          then (stt_rxServe s)\<lparr>stt_rxWait := False\<rparr> else s)
       else if stt_closeWait s then
         (if \<not> rxLocks s (stt_closeSessionID s) \<and> \<not> txLocks s (stt_closeSessionID s)
          then (stt_closeServe s)\<lparr>stt_closeWait := False\<rparr> else s)
       else s)"
      by (simp only: state_table_def e if_False simp_thms)
    note quiet = idle[OF _ _ e(2)]
    show thesis
    proof (cases "stt_txWait s")
      case True
      then show thesis using * e txRetry quiet
        by (cases "rxLocks s (sq_sessionID (stt_txAccess s))") auto
    next
      case noTx: False
      show thesis
      proof (cases "stt_rxWait s")
        case True
        then show thesis using * noTx e rxRetry quiet
          by (cases "txLocks s (sq_sessionID (stt_rxAccess s))") auto
      next
        case noRx: False
        show thesis
        proof (cases "stt_closeWait s \<and> \<not> rxLocks s (stt_closeSessionID s)
            \<and> \<not> txLocks s (stt_closeSessionID s)")
          case True
          then show thesis using * noTx noRx by (intro closeRetry) simp_all
        next
          case False
          then have "state_table s = s" using * noTx noRx by auto
          then show thesis using False e noTx noRx by (intro quiet) blast+
        qed
      qed
    qed
  qed
qed

lemma stt_inv_init: "stt_inv stt_init"
  by (simp add: stt_inv_def stt_init_def)

lemma stt_inv_call: "stt_inv s \<Longrightarrow> stt_inv (state_table s)"
  by (rule state_table_cases[of s])
    (auto simp: stt_inv_def rxLocks_def txLocks_def stt_txServe_def stt_rxServe_def
      stt_closeServe_def Let_def)

lemma stt_inv_exec [toe_inv]: "stt_inv s \<Longrightarrow> stt_inv (stt_exec e s)"
  by (cases e) (simp_all add: stt_inv_call, simp_all add: stt_inv_def)

interpretation stt: reactive stt_exec stt_inv "\<lambda>_. True"
  by unfold_locales (rule stt_inv_exec)

text \<open>In every run of the state table the application side and the receive engine never hold
  the lock of the same session at the same time.\<close>

lemma stt_mutual_exclusion:
  "\<not> (rxLocks (fold stt_exec es stt_init) i \<and> txLocks (fold stt_exec es stt_init) i)"
  using stt.inv_run[OF stt_inv_init, of es] by (auto simp: stt_inv_def rxLocks_def txLocks_def)

subsection \<open>A read and the write that follows it are atomic\<close>

text \<open>A client holds session \<open>i\<close>, whose state is \<open>v\<close>, and has submitted no further access.\<close>

definition stt_rxHolds :: "sid \<Rightarrow> sessionState \<Rightarrow> stt_state \<Rightarrow> bool" where
  "stt_rxHolds i v s \<longleftrightarrow> stt_inv s \<and> rxLocks s i \<and> stt_table s i = v
                        \<and> stf_rxUpdReq s = [] \<and> \<not> stt_rxWait s"

definition stt_txHolds :: "sid \<Rightarrow> sessionState \<Rightarrow> stt_state \<Rightarrow> bool" where
  "stt_txHolds i v s \<longleftrightarrow> stt_inv s \<and> txLocks s i \<and> stt_table s i = v
                        \<and> stf_txUpdReq s = [] \<and> \<not> stt_txWait s"

fun stt_notRx :: "stt_event \<Rightarrow> bool" where
  "stt_notRx (Stt_rxUpd q) = False"
| "stt_notRx e = True"

fun stt_notTx :: "stt_event \<Rightarrow> bool" where
  "stt_notTx (Stt_txUpd q) = False"
| "stt_notTx e = True"

lemma stt_rxHolds_call: "stt_rxHolds i v s \<Longrightarrow> stt_rxHolds i v (state_table s)"
  by (rule state_table_cases[of s])
    (auto simp: stt_rxHolds_def stt_inv_def rxLocks_def txLocks_def stt_txServe_def
      stt_rxServe_def stt_closeServe_def Let_def)

lemma stt_txHolds_call: "stt_txHolds i v s \<Longrightarrow> stt_txHolds i v (state_table s)"
  by (rule state_table_cases[of s])
    (auto simp: stt_txHolds_def stt_inv_def rxLocks_def txLocks_def stt_txServe_def
      stt_rxServe_def stt_closeServe_def Let_def)

lemma stt_rxHolds_exec [toe_inv]:
  "stt_rxHolds i v s \<Longrightarrow> stt_notRx e \<Longrightarrow> stt_rxHolds i v (stt_exec e s)"
  by (cases e) (simp_all add: stt_rxHolds_call,
      auto simp: stt_rxHolds_def stt_inv_def rxLocks_def)

lemma stt_txHolds_exec [toe_inv]:
  "stt_txHolds i v s \<Longrightarrow> stt_notTx e \<Longrightarrow> stt_txHolds i v (stt_exec e s)"
  by (cases e) (simp_all add: stt_txHolds_call,
      auto simp: stt_txHolds_def stt_inv_def txLocks_def)

interpretation stt_rx: reactive stt_exec "stt_rxHolds i v" stt_notRx for i v
  by unfold_locales (rule stt_rxHolds_exec)

interpretation stt_tx: reactive stt_exec "stt_txHolds i v" stt_notTx for i v
  by unfold_locales (rule stt_txHolds_exec)

text \<open>Once the receive engine has read the state of a session, then whatever the application
  side, the timers and the readers of the responses do, for any number of calls, the entry keeps
  that state and stays locked until the receive engine submits its own next access.\<close>

lemma stt_rx_atomic:
  assumes "stt_inv s" and "rxLocks s i" and "stf_rxUpdReq s = []" and "\<not> stt_rxWait s"
    and "\<forall>e \<in> set es. stt_notRx e"
  shows "stt_table (fold stt_exec es s) i = stt_table s i \<and> rxLocks (fold stt_exec es s) i"
  using stt_rx.inv_run[of i "stt_table s i" s es] assms by (simp add: stt_rxHolds_def)

text \<open>The same holds for the application side against the receive engine and the timers.\<close>

lemma stt_tx_atomic:
  assumes "stt_inv s" and "txLocks s i" and "stf_txUpdReq s = []" and "\<not> stt_txWait s"
    and "\<forall>e \<in> set es. stt_notTx e"
  shows "stt_table (fold stt_exec es s) i = stt_table s i \<and> txLocks (fold stt_exec es s) i"
  using stt_tx.inv_run[of i "stt_table s i" s es] assms by (simp add: stt_txHolds_def)

text \<open>A state in which the receive engine has read session 3, and the other clients press on it.\<close>

definition stt_ex_rx :: stt_state where
  "stt_ex_rx = stt_init\<lparr>stt_rxSessionID := 3, stt_rxSessionLocked := True,
     stf_txUpdReq := [stateQuery_of 3 SYN_SENT True], stf_timerRelease := [3]\<rparr>"

definition stt_ex_tx :: stt_state where
  "stt_ex_tx = stt_init\<lparr>stt_txSessionID := 3, stt_txSessionLocked := True,
     stf_rxUpdReq := [stateQuery_of 3 ESTABLISHED True], stf_timerRelease := [3]\<rparr>"

lemma stt_rx_atomic_witness:
  "stt_table (fold stt_exec [Stt_call, Stt_call, Stt_timer 3, Stt_call] stt_ex_rx) 3
     = stt_table stt_ex_rx 3
   \<and> rxLocks (fold stt_exec [Stt_call, Stt_call, Stt_timer 3, Stt_call] stt_ex_rx) 3"
  by (rule stt_rx_atomic) (simp_all add: stt_ex_rx_def stt_init_def stt_inv_def rxLocks_def)

lemma stt_tx_atomic_witness:
  "stt_table (fold stt_exec [Stt_call, Stt_call, Stt_timer 3, Stt_call] stt_ex_tx) 3
     = stt_table stt_ex_tx 3
   \<and> txLocks (fold stt_exec [Stt_call, Stt_call, Stt_timer 3, Stt_call] stt_ex_tx) 3"
  by (rule stt_tx_atomic) (simp_all add: stt_ex_tx_def stt_init_def stt_inv_def txLocks_def)

subsection \<open>Refinement of an abstract table of locked entries\<close>

text \<open>
  The abstract component keeps the requests of each client in one queue (the latched access is
  its head), and a lock per client as an option. Its operations take the head of a queue when
  the other client does not lock the session.
\<close>

record astt =
  ast_table :: "sid \<Rightarrow> sessionState"
  ast_rxLock :: "sid option"
  ast_txLock :: "sid option"
  ast_rxQ :: "stateQuery list"
  ast_txQ :: "stateQuery list"
  ast_peekQ :: "sid list"
  ast_closeQ :: "sid list"
  ast_rxRsp :: "sessionState list"
  ast_txRsp :: "sessionState list"
  ast_peekRsp :: "sessionState list"
  ast_release :: "sid list"

inductive astt_step :: "astt \<Rightarrow> astt \<Rightarrow> bool" where
  tx_read: "ast_txQ a = q # qs \<Longrightarrow> \<not> sq_write q \<Longrightarrow> ast_rxLock a \<noteq> Some (sq_sessionID q) \<Longrightarrow>
    astt_step a (a\<lparr>ast_txQ := qs, ast_txLock := Some (sq_sessionID q),
                    ast_txRsp := ast_txRsp a @ [ast_table a (sq_sessionID q)]\<rparr>)"
| tx_write: "ast_txQ a = q # qs \<Longrightarrow> sq_write q \<Longrightarrow> ast_rxLock a \<noteq> Some (sq_sessionID q) \<Longrightarrow>
    astt_step a (a\<lparr>ast_txQ := qs, ast_txLock := None,
                    ast_table := (ast_table a)(sq_sessionID q := sq_state q)\<rparr>)"
| peek: "ast_peekQ a = i # rest \<Longrightarrow>
    astt_step a (a\<lparr>ast_peekQ := rest, ast_peekRsp := ast_peekRsp a @ [ast_table a i]\<rparr>)"
| rx_read: "ast_rxQ a = q # qs \<Longrightarrow> \<not> sq_write q \<Longrightarrow> ast_txLock a \<noteq> Some (sq_sessionID q) \<Longrightarrow>
    astt_step a (a\<lparr>ast_rxQ := qs, ast_rxLock := Some (sq_sessionID q),
                    ast_rxRsp := ast_rxRsp a @ [ast_table a (sq_sessionID q)]\<rparr>)"
| rx_write: "ast_rxQ a = q # qs \<Longrightarrow> sq_write q \<Longrightarrow> ast_txLock a \<noteq> Some (sq_sessionID q) \<Longrightarrow>
    astt_step a (a\<lparr>ast_rxQ := qs, ast_rxLock := None,
                    ast_table := (ast_table a)(sq_sessionID q := sq_state q),
                    ast_release := ast_release a @
                      (if sq_state q = CLOSED then [sq_sessionID q] else [])\<rparr>)"
| close: "ast_closeQ a = i # rest \<Longrightarrow> ast_rxLock a \<noteq> Some i \<Longrightarrow> ast_txLock a \<noteq> Some i \<Longrightarrow>
    astt_step a (a\<lparr>ast_closeQ := rest, ast_table := (ast_table a)(i := CLOSED),
                    ast_release := ast_release a @ [i]\<rparr>)"

definition stt_abs :: "stt_state \<Rightarrow> astt" where
  "stt_abs s = \<lparr>ast_table = stt_table s,
     ast_rxLock = (if stt_rxSessionLocked s then Some (stt_rxSessionID s) else None),
     ast_txLock = (if stt_txSessionLocked s then Some (stt_txSessionID s) else None),
     ast_rxQ = (if stt_rxWait s then [stt_rxAccess s] else []) @ stf_rxUpdReq s,
     ast_txQ = (if stt_txWait s then [stt_txAccess s] else []) @ stf_txUpdReq s,
     ast_peekQ = stf_txReq s,
     ast_closeQ = (if stt_closeWait s then [stt_closeSessionID s] else []) @ stf_timerRelease s,
     ast_rxRsp = stf_rxUpdRsp s, ast_txRsp = stf_txUpdRsp s, ast_peekRsp = stf_txRsp s,
     ast_release = stf_release s\<rparr>"

lemma abs_locks [simp]:
  "ast_rxLock (stt_abs s) = Some i \<longleftrightarrow> rxLocks s i" "ast_txLock (stt_abs s) = Some i \<longleftrightarrow> txLocks s i"
  by (auto simp: stt_abs_def rxLocks_def txLocks_def)

lemma abs_queues [simp]:
  "ast_rxQ (stt_abs s) = (if stt_rxWait s then [stt_rxAccess s] else []) @ stf_rxUpdReq s"
  "ast_txQ (stt_abs s) = (if stt_txWait s then [stt_txAccess s] else []) @ stf_txUpdReq s"
  "ast_peekQ (stt_abs s) = stf_txReq s"
  "ast_closeQ (stt_abs s) =
     (if stt_closeWait s then [stt_closeSessionID s] else []) @ stf_timerRelease s"
  by (simp_all add: stt_abs_def)

text \<open>Serving an access is the abstract operation on the head of the client's queue.\<close>

lemma abs_serve_write:
  "sq_write (stt_txAccess t) \<Longrightarrow> stt_abs ((stt_txServe t)\<lparr>stt_txWait := False\<rparr>) =
     (let a = stt_abs (t\<lparr>stt_txWait := False\<rparr>); q = stt_txAccess t in
      a\<lparr>ast_txLock := None, ast_table := (ast_table a)(sq_sessionID q := sq_state q)\<rparr>)"
  "sq_write (stt_rxAccess t) \<Longrightarrow> stt_abs ((stt_rxServe t)\<lparr>stt_rxWait := False\<rparr>) =
     (let a = stt_abs (t\<lparr>stt_rxWait := False\<rparr>); q = stt_rxAccess t in
      a\<lparr>ast_rxLock := None, ast_table := (ast_table a)(sq_sessionID q := sq_state q),
        ast_release := ast_release a @ (if sq_state q = CLOSED then [sq_sessionID q] else [])\<rparr>)"
  by (simp_all add: stt_abs_def stt_txServe_def stt_rxServe_def Let_def)

lemma abs_serve_read:
  "\<not> sq_write (stt_txAccess t) \<Longrightarrow> stt_abs ((stt_txServe t)\<lparr>stt_txWait := False\<rparr>) =
     (let a = stt_abs (t\<lparr>stt_txWait := False\<rparr>); i = sq_sessionID (stt_txAccess t) in
      a\<lparr>ast_txLock := Some i, ast_txRsp := ast_txRsp a @ [ast_table a i]\<rparr>)"
  "\<not> sq_write (stt_rxAccess t) \<Longrightarrow> stt_abs ((stt_rxServe t)\<lparr>stt_rxWait := False\<rparr>) =
     (let a = stt_abs (t\<lparr>stt_rxWait := False\<rparr>); i = sq_sessionID (stt_rxAccess t) in
      a\<lparr>ast_rxLock := Some i, ast_rxRsp := ast_rxRsp a @ [ast_table a i]\<rparr>)"
  by (simp_all add: stt_abs_def stt_txServe_def stt_rxServe_def Let_def)

lemma abs_serve_close:
  "stt_abs ((stt_closeServe t)\<lparr>stt_closeWait := False\<rparr>) =
     (let a = stt_abs (t\<lparr>stt_closeWait := False\<rparr>); i = stt_closeSessionID t in
      a\<lparr>ast_table := (ast_table a)(i := CLOSED), ast_release := ast_release a @ [i]\<rparr>)"
  by (simp add: stt_abs_def stt_closeServe_def Let_def)

lemma abs_txServe:
  assumes q: "ast_txQ (stt_abs s) = q # qs" and l: "\<not> rxLocks s (sq_sessionID q)"
    and t: "stt_txAccess t = q" "stt_abs (t\<lparr>stt_txWait := False\<rparr>) = (stt_abs s)\<lparr>ast_txQ := qs\<rparr>"
  shows "astt_step (stt_abs s) (stt_abs ((stt_txServe t)\<lparr>stt_txWait := False\<rparr>))"
  using astt_step.tx_read[OF q] astt_step.tx_write[OF q] l t
  by (cases "sq_write q") (simp_all del: abs_queues add: abs_serve_read abs_serve_write Let_def)

lemma abs_rxServe:
  assumes q: "ast_rxQ (stt_abs s) = q # qs" and l: "\<not> txLocks s (sq_sessionID q)"
    and t: "stt_rxAccess t = q" "stt_abs (t\<lparr>stt_rxWait := False\<rparr>) = (stt_abs s)\<lparr>ast_rxQ := qs\<rparr>"
  shows "astt_step (stt_abs s) (stt_abs ((stt_rxServe t)\<lparr>stt_rxWait := False\<rparr>))"
  using astt_step.rx_read[OF q] astt_step.rx_write[OF q] l t
  by (cases "sq_write q") (simp_all del: abs_queues add: abs_serve_read abs_serve_write Let_def)

lemma abs_closeServe:
  assumes q: "ast_closeQ (stt_abs s) = i # rest" and l: "\<not> rxLocks s i" "\<not> txLocks s i"
    and t: "stt_closeSessionID t = i"
      "stt_abs (t\<lparr>stt_closeWait := False\<rparr>) = (stt_abs s)\<lparr>ast_closeQ := rest\<rparr>"
  shows "astt_step (stt_abs s) (stt_abs ((stt_closeServe t)\<lparr>stt_closeWait := False\<rparr>))"
  using astt_step.close[OF q] l t
  by (simp del: abs_queues add: abs_serve_close Let_def)

lemma serve_unwait:
  "\<not> stt_txWait t \<Longrightarrow> (stt_txServe t)\<lparr>stt_txWait := False\<rparr> = stt_txServe t"
  "\<not> stt_rxWait t \<Longrightarrow> (stt_rxServe t)\<lparr>stt_rxWait := False\<rparr> = stt_rxServe t"
  "\<not> stt_closeWait t \<Longrightarrow> (stt_closeServe t)\<lparr>stt_closeWait := False\<rparr> = stt_closeServe t"
  by (simp_all add: stt_txServe_def stt_rxServe_def stt_closeServe_def Let_def)

lemma state_table_sim:
  "astt_step (stt_abs s) (stt_abs (state_table s)) \<or>
   stt_abs (state_table s) = stt_abs s \<and>
     ((\<exists>i. rxLocks s i \<or> txLocks s i) \<or>
      ast_rxQ (stt_abs s) = [] \<and> ast_txQ (stt_abs s) = [] \<and>
      ast_peekQ (stt_abs s) = [] \<and> ast_closeQ (stt_abs s) = [])"
proof (cases rule: state_table_cases[of s])
  case txNew
  then have "astt_step (stt_abs s) (stt_abs ((stt_txServe (stt_takeTx s))\<lparr>stt_txWait := False\<rparr>))"
    by (intro abs_txServe[where q = "hd (stf_txUpdReq s)" and qs = "tl (stf_txUpdReq s)"])
      (simp_all add: stt_abs_def)
  then show ?thesis using txNew by (simp add: serve_unwait)
next
  case rxNew
  then have "astt_step (stt_abs s) (stt_abs ((stt_rxServe (stt_takeRx s))\<lparr>stt_rxWait := False\<rparr>))"
    by (intro abs_rxServe[where q = "hd (stf_rxUpdReq s)" and qs = "tl (stf_rxUpdReq s)"])
      (simp_all add: stt_abs_def)
  then show ?thesis using rxNew by (simp add: serve_unwait)
next
  case closeNew
  then have "astt_step (stt_abs s)
      (stt_abs ((stt_closeServe (stt_takeClose s))\<lparr>stt_closeWait := False\<rparr>))"
    by (intro abs_closeServe[where i = "hd (stf_timerRelease s)"
          and rest = "tl (stf_timerRelease s)"]) (simp_all add: stt_abs_def)
  then show ?thesis using closeNew by (simp add: serve_unwait)
next
  case peek
  then show ?thesis
    using astt_step.peek[of "stt_abs s" "hd (stf_txReq s)" "tl (stf_txReq s)"]
    by (simp add: stt_abs_def cong: if_cong split del: if_split)
next
  case txRetry
  then show ?thesis
    using abs_txServe[of s "stt_txAccess s" "stf_txUpdReq s" s]
    by (simp add: stt_abs_def cong: if_cong split del: if_split)
next
  case rxRetry
  then show ?thesis
    using abs_rxServe[of s "stt_rxAccess s" "stf_rxUpdReq s" s]
    by (simp add: stt_abs_def cong: if_cong split del: if_split)
next
  case closeRetry
  then show ?thesis
    using abs_closeServe[of s "stt_closeSessionID s" "stf_timerRelease s" s]
    by (simp add: stt_abs_def cong: if_cong split del: if_split)
next
  case idle
  then show ?thesis by (cases "stt_txWait s \<or> stt_rxWait s \<or> stt_closeWait s") simp_all
next
  case txHold
  then have "stt_abs (state_table s) = stt_abs s" by (simp add: stt_abs_def cong: if_cong split del: if_split)
  then show ?thesis using txHold(3) by blast
next
  case rxHold
  then have "stt_abs (state_table s) = stt_abs s" by (simp add: stt_abs_def cong: if_cong split del: if_split)
  then show ?thesis using rxHold(3) by blast
next
  case closeHold
  then have "stt_abs (state_table s) = stt_abs s" by (simp add: stt_abs_def cong: if_cong split del: if_split)
  then show ?thesis using closeHold(3) by blast
qed

text \<open>C1. Every call of the state table either leaves the abstract table as it is (it may latch a
  request that has to wait) or performs exactly one enabled operation of it; so the table behaves
  as if the clients' accesses were executed one at a time, each client's in its order.\<close>

theorem state_table_refines:
  "stt_abs (state_table s) = stt_abs s \<or> astt_step (stt_abs s) (stt_abs (state_table s))"
  using state_table_sim[of s] by blast

text \<open>The table does not deadlock: when no session is locked and some request is pending (in
  a stream or latched), the call performs one.\<close>

lemma state_table_progress:
  assumes "\<not> stt_rxSessionLocked s" and "\<not> stt_txSessionLocked s"
    and "ast_rxQ (stt_abs s) \<noteq> [] \<or> ast_txQ (stt_abs s) \<noteq> []
       \<or> ast_peekQ (stt_abs s) \<noteq> [] \<or> ast_closeQ (stt_abs s) \<noteq> []"
  shows "astt_step (stt_abs s) (stt_abs (state_table s))"
  using state_table_sim[of s] assms by (auto simp: rxLocks_def txLocks_def)

lemma state_table_progress_witness:
  "astt_step (stt_abs (stt_init\<lparr>stt_rxWait := True\<rparr>))
     (stt_abs (state_table (stt_init\<lparr>stt_rxWait := True\<rparr>)))"
  by (rule state_table_progress) (simp_all add: stt_init_def)

text \<open>
  A session that is released through the \<^verbatim>\<open>releaseSession\<close> stream is closed from that call on,
  and nothing but a write of the application side closes a session without releasing it.
\<close>

lemma state_table_release_step:
  "stf_release (state_table s) = stf_release s \<or>
   (\<exists>i. stf_release (state_table s) = stf_release s @ [i] \<and> stt_table (state_table s) i = CLOSED)"
  by (rule state_table_cases[of s])
    (auto simp: stt_txServe_def stt_rxServe_def stt_closeServe_def Let_def)

inductive_cases astt_stepE: "astt_step a b"

lemma astt_release_closed:
  "astt_step a b \<Longrightarrow> ast_release b = ast_release a @ r \<Longrightarrow> \<forall>i \<in> set r. ast_table b i = CLOSED"
  by (erule astt_stepE) (auto split: if_splits)

end
