(* ===== verification/Sar_Tables.thy ===== *)
theory Sar_Tables
  imports Toe_Types
begin

text \<open>
  \<^verbatim>\<open>toe/rx_sar_table/rx_sar_table.cpp\<close> and \<^verbatim>\<open>toe/tx_sar_table/tx_sar_table.cpp\<close>: the segmentation
  and reassembly tables, one entry per session. Each process serves at most one request per
  call, its clients in the fixed priority of the source. The lemmas show what the replies
  mean: the advertised window against the free buffer space, the smaller of the two windows
  that is pushed to the application side, and that an entry read is the entry written.
\<close>

subsection \<open>Receive side\<close>

record rxsar_state =
  rxs_table :: "sid \<Rightarrow> rxSarEntry"
  rxf_txEngReq :: "sid fifo"
  rxf_rxAppReq :: "rxSarAppd fifo"
  rxf_rxEngReq :: "rxSarRecvd fifo"
  rxf_rxEngRsp :: "rxSarEntry fifo"
  rxf_rxAppRsp :: "rxSarAppd fifo"
  rxf_txEngRsp :: "rxSarReply fifo"

text \<open>
  The free space behind \<^verbatim>\<open>recvd\<close> (18-bit arithmetic wraps with the buffer), and the reply to the
  transmit engine, whose 16-bit window is the free space shifted by the negotiated scale.
\<close>

definition actualWindowSize :: "rxSarEntry \<Rightarrow> win" where
  "actualWindowSize e = (rse_appd e - ucast (rse_recvd e)) - 1"

definition rxSar_reply :: "rxSarEntry \<Rightarrow> rxSarReply" where
  "rxSar_reply e = (rxSarReply_of e)
     \<lparr>rsr_windowSize := ucast (drop_bit (unat (rse_win_shift e)) (actualWindowSize e))\<rparr>"

definition rxSar_write :: "rxSarRecvd \<Rightarrow> rxSarEntry \<Rightarrow> rxSarEntry" where
  "rxSar_write q e =
     (let e = e\<lparr>rse_recvd := rsv_recvd q, rse_head := rsv_head q, rse_offset := rsv_offset q,
                rse_gap := rsv_gap q\<rparr> in
      if rsv_init q then e\<lparr>rse_appd := ucast (rsv_recvd q), rse_win_shift := rsv_win_shift q\<rparr>
      else e)"

definition rx_sar_table :: "rxsar_state \<Rightarrow> rxsar_state" where
  "rx_sar_table s =
    (if rxf_txEngReq s \<noteq> [] then
       s\<lparr>rxf_txEngReq := tl (rxf_txEngReq s),
         rxf_txEngRsp := rxf_txEngRsp s @ [rxSar_reply (rxs_table s (hd (rxf_txEngReq s)))]\<rparr>
     else if rxf_rxAppReq s \<noteq> [] then
       (let q = hd (rxf_rxAppReq s); i = rsa_sessionID q;
            s = s\<lparr>rxf_rxAppReq := tl (rxf_rxAppReq s)\<rparr> in
        if rsa_write q then
          s\<lparr>rxs_table := (rxs_table s)(i := (rxs_table s i)\<lparr>rse_appd := rsa_appd q\<rparr>)\<rparr>
        else
          s\<lparr>rxf_rxAppRsp := rxf_rxAppRsp s @ [rxSarAppd_wr i (rse_appd (rxs_table s i))]\<rparr>)
     else if rxf_rxEngReq s \<noteq> [] then
       (let q = hd (rxf_rxEngReq s); i = rsv_sessionID q;
            s = s\<lparr>rxf_rxEngReq := tl (rxf_rxEngReq s)\<rparr> in
        if rsv_write q then
          s\<lparr>rxs_table := (rxs_table s)(i := rxSar_write q (rxs_table s i))\<rparr>
        else
          s\<lparr>rxf_rxEngRsp := rxf_rxEngRsp s @ [rxs_table s i]\<rparr>)
     else s)"

subsection \<open>Transmit side\<close>

record txsar_state =
  txs_table :: "sid \<Rightarrow> txSarEntry"
  txf_txEngReq :: "txTxSarQuery fifo"
  txf_appPush :: "txAppTxSarPush fifo"
  txf_rxEngReq :: "rxTxSarQuery fifo"
  txf_rxEngRsp :: "rxTxSarReply fifo"
  txf_txEngRsp :: "txTxSarReply fifo"
  txf_ackPush :: "txSarAckPush fifo"

text \<open>
  The receiver's window is written into a range of the 30-bit variable
  \<^verbatim>\<open>scaled_recv_window\<close>, whose other bits the code does not assign: they are the argument \<open>u\<close>.
  The smaller window is compared at full width and truncated to 18 bits on assignment.
\<close>

definition scaled_recv_window :: "30 word \<Rightarrow> 4 word \<Rightarrow> u16 \<Rightarrow> 30 word" where
  "scaled_recv_window u ws rw = range_set (unat ws + 15) (unat ws) rw u"

definition minWindow :: "win \<Rightarrow> 30 word \<Rightarrow> win" where
  "minWindow cong scaled = (if unat cong < unat scaled then cong else ucast scaled)"

definition INIT_CONG_WINDOW :: win where "INIT_CONG_WINDOW = 0x3908"

definition txSar_init :: "txTxSarQuery \<Rightarrow> txSarEntry \<Rightarrow> txSarEntry" where
  "txSar_init q e = e\<lparr>tse_app := ucast (ttq_not_ackd q), tse_ackd := ttq_not_ackd q - 1,
     tse_cong_window := INIT_CONG_WINDOW, tse_slowstart_threshold := 0xFFFF,
     tse_finReady := ttq_finReady q, tse_finSent := ttq_finSent q\<rparr>"

definition txSar_txWrite :: "txTxSarQuery \<Rightarrow> txSarEntry \<Rightarrow> txSarEntry" where
  "txSar_txWrite q e =
    (if \<not> ttq_isRtQuery q then
       (let e = e\<lparr>tse_not_ackd := ttq_not_ackd q\<rparr>;
            e = (if ttq_init q then txSar_init q e else e);
            e = (if ttq_finReady q then e\<lparr>tse_finReady := ttq_finReady q\<rparr> else e) in
        if ttq_finSent q then e\<lparr>tse_finSent := ttq_finSent q\<rparr> else e)
     else
       e\<lparr>tse_slowstart_threshold := getThreshold q, tse_cong_window := INIT_CONG_WINDOW\<rparr>)"

text \<open>\<^verbatim>\<open>usedLengthWithFIN\<close> is computed in the source and not used.\<close>

definition txSar_usedLength :: "txSarEntry \<Rightarrow> win" where
  "txSar_usedLength e = ucast (tse_not_ackd e) - ucast (tse_ackd e)"

definition txSar_minWindow :: "30 word \<Rightarrow> txSarEntry \<Rightarrow> win" where
  "txSar_minWindow u e =
     minWindow (tse_cong_window e) (scaled_recv_window u (tse_win_shift e) (tse_recv_window e))"

definition txSar_usableWindow :: "30 word \<Rightarrow> txSarEntry \<Rightarrow> win" where
  "txSar_usableWindow u e =
     (if txSar_minWindow u e < txSar_usedLength e
      then txSar_minWindow u e - txSar_usedLength e else 0)"

definition txSar_reply :: "30 word \<Rightarrow> txSarEntry \<Rightarrow> txTxSarReply" where
  "txSar_reply u e = \<lparr>ttr_ackd = tse_ackd e, ttr_not_ackd = tse_not_ackd e,
     ttr_usableWindow = txSar_usableWindow u e, ttr_app = tse_app e,
     ttr_usedLength = txSar_usedLength e, ttr_finReady = tse_finReady e,
     ttr_finSent = tse_finSent e\<rparr>"

definition txSar_rxReply :: "txSarEntry \<Rightarrow> rxTxSarReply" where
  "txSar_rxReply e = \<lparr>rtr_prevAck = tse_ackd e, rtr_nextByte = tse_not_ackd e,
     rtr_cong_window = tse_cong_window e, rtr_slowstart_threshold = tse_slowstart_threshold e,
     rtr_count = tse_count e, rtr_fastRetransmitted = tse_fastRetransmitted e\<rparr>"

definition txSar_rxWrite :: "rxTxSarQuery \<Rightarrow> txSarEntry \<Rightarrow> txSarEntry" where
  "txSar_rxWrite q e =
    (let e = e\<lparr>tse_ackd := rtq_ackd q, tse_recv_window := rtq_recv_window q,
               tse_cong_window := rtq_cong_window q, tse_count := rtq_count q,
               tse_fastRetransmitted := rtq_fastRetransmitted q\<rparr> in
     if rtq_init q then e\<lparr>tse_win_shift := rtq_win_shift q\<rparr> else e)"

text \<open>The acknowledgement that a write of the receive engine pushes to the application side.\<close>

definition txSar_ackPush :: "30 word \<Rightarrow> rxTxSarQuery \<Rightarrow> txSarEntry \<Rightarrow> txSarAckPush" where
  "txSar_ackPush u q e =
    (let ws = (if rtq_init q then rtq_win_shift q else tse_win_shift e) in
     txSarAckPush3 (rtq_sessionID q) (ucast (rtq_ackd q))
       (minWindow (rtq_cong_window q) (scaled_recv_window u ws (rtq_recv_window q))))"

definition tx_sar_table :: "30 word \<Rightarrow> txsar_state \<Rightarrow> txsar_state" where
  "tx_sar_table u s =
    (if txf_txEngReq s \<noteq> [] then
       (let q = hd (txf_txEngReq s); i = ttq_sessionID q;
            s = s\<lparr>txf_txEngReq := tl (txf_txEngReq s)\<rparr> in
        if ttq_write q then
          s\<lparr>txs_table := (txs_table s)(i := txSar_txWrite q (txs_table s i)),
            txf_ackPush := txf_ackPush s @
              (if \<not> ttq_isRtQuery q \<and> ttq_init q
               then [txSarAckPush4 i (ucast (ttq_not_ackd q)) INIT_CONG_WINDOW True] else [])\<rparr>
        else
          s\<lparr>txf_txEngRsp := txf_txEngRsp s @ [txSar_reply u (txs_table s i)]\<rparr>)
     else if txf_appPush s \<noteq> [] then
       (let q = hd (txf_appPush s); i = tap_sessionID q in
        s\<lparr>txf_appPush := tl (txf_appPush s),
          txs_table := (txs_table s)(i := (txs_table s i)\<lparr>tse_app := tap_app q\<rparr>)\<rparr>)
     else if txf_rxEngReq s \<noteq> [] then
       (let q = hd (txf_rxEngReq s); i = rtq_sessionID q;
            s = s\<lparr>txf_rxEngReq := tl (txf_rxEngReq s)\<rparr> in
        if rtq_write q then
          s\<lparr>txs_table := (txs_table s)(i := txSar_rxWrite q (txs_table s i)),
            txf_ackPush := txf_ackPush s @ [txSar_ackPush u q (txs_table s i)]\<rparr>
        else
          s\<lparr>txf_rxEngRsp := txf_rxEngRsp s @ [txSar_rxReply (txs_table s i)]\<rparr>)
     else s)"

subsection \<open>The advertised window\<close>

text \<open>The space between \<open>appd\<close> and \<open>recvd\<close> of the ring buffer, in bytes.\<close>

definition rx_buffered :: "rxSarEntry \<Rightarrow> nat" where
  "rx_buffered e = unat (ucast (rse_recvd e) - rse_appd e :: win)"

lemma actualWindowSize_eq: "unat (actualWindowSize e) = BUFFER_SIZE - 1 - rx_buffered e"
proof -
  let ?d = "ucast (rse_recvd e) - rse_appd e :: win"
  have "actualWindowSize e = - 1 - ?d" by (simp add: actualWindowSize_def)
  moreover have "unat (- 1 - ?d) = unat (- 1 :: win) - unat ?d"
    by (rule unat_sub) (rule word_order.extremum)
  ultimately show ?thesis by (simp add: rx_buffered_def BUFFER_SIZE_def unsigned_minus_1_eq_mask mask_eq_exp_minus_1)
qed

lemma drop_bit_win_lt:
  assumes "2 \<le> k"
  shows "unat (w :: win) div 2 ^ k < 2 ^ 16"
proof -
  have "unat w div 2 ^ k \<le> unat w div 2 ^ 2"
    using power_increasing[OF assms, of "2::nat"] by (intro div_le_mono2) simp_all
  then show ?thesis using unat_bound[of w] by simp
qed

text \<open>C3. Whatever the window scale of a session is, the window field sent to the peer is the free space
  of the 256 KB ring buffer, one byte kept free, in units of the scale, modulo 16 bits: it never promises space
  that is not there. It hides less than one unit, and so is the free space rounded down, exactly where the
  units fit into the 16 bits of the field; with the scale this stack negotiates (2 bits, or any larger one)
  they always do, with a smaller one they do not for a buffer that is nearly empty.\<close>

theorem rxSar_window_sound:
  "let field = unat (rsr_windowSize (rxSar_reply e)); scale = unat (rse_win_shift e);
       free = BUFFER_SIZE - 1 - rx_buffered e
   in field = free div 2 ^ scale mod 2 ^ 16
    \<and> field * 2 ^ scale \<le> free
    \<and> (free < field * 2 ^ scale + 2 ^ scale \<longleftrightarrow> 2 \<le> scale \<or> free < 2 ^ (16 + scale))"
proof -
  let ?k = "unat (rse_win_shift e)" and ?a = "unat (actualWindowSize e)"
  let ?f = "?a div 2 ^ ?k mod 2 ^ 16"
  have f: "unat (rsr_windowSize (rxSar_reply e)) = ?f"
    by (simp add: rxSar_reply_def word_nat)
  have le: "?f * 2 ^ ?k \<le> ?a"
    by (rule order_trans[OF mult_le_mono1[OF mod_less_eq_dividend]]) simp
  have fits: "?a div 2 ^ ?k < 2 ^ 16" if "2 \<le> ?k" by (rule drop_bit_win_lt[OF that])
  have unit: "?a < q * 2 ^ ?k + 2 ^ ?k \<longleftrightarrow> ?a div 2 ^ ?k \<le> q" for q
    using div_less_iff_less_mult[of "2 ^ ?k" ?a "Suc q"] by (simp add: less_Suc_eq_le add.commute)
  have small: "?a div 2 ^ ?k < 2 ^ 16 \<longleftrightarrow> ?a < 2 ^ (16 + ?k)"
    by (simp add: div_less_iff_less_mult power_add)
  have "q \<le> q mod 2 ^ 16 \<longleftrightarrow> q < 2 ^ 16" for q :: nat
    using mod_less_divisor[of "2 ^ 16" q] by (cases "q < 2 ^ 16") simp_all
  then have "?a div 2 ^ ?k \<le> ?f \<longleftrightarrow> ?a div 2 ^ ?k < 2 ^ 16" .
  then have "?a < ?f * 2 ^ ?k + 2 ^ ?k \<longleftrightarrow> 2 \<le> ?k \<or> ?a < 2 ^ (16 + ?k)"
    unfolding unit using fits small by blast
  then show ?thesis using f le unfolding Let_def actualWindowSize_eq[symmetric] f by blast
qed

definition rxSar_ex :: "4 word \<Rightarrow> u32 \<Rightarrow> rxSarEntry" where
  "rxSar_ex ws r = \<lparr>rse_recvd = r, rse_appd = 0, rse_win_shift = ws, rse_head = r,
     rse_offset = r, rse_gap = False\<rparr>"

text \<open>Without window scaling the 18-bit free space is cut to the 16-bit field: a buffer with
  0xFFFF unread bytes, three quarters free, is advertised as the zero window.\<close>

theorem rxSar_window_unscaled_wraps:
  "rsr_windowSize (rxSar_reply (rxSar_ex 0 0xFFFF)) = 0
   \<and> unat (actualWindowSize (rxSar_ex 0 0xFFFF)) = 3 * 2 ^ 16"
  by (simp add: rxSar_ex_def rxSar_reply_def actualWindowSize_def)

subsection \<open>The transmit windows\<close>

lemma scaled_recv_window_eq:
  assumes "ws \<le> 14"
  shows "unat (scaled_recv_window 0 ws rw) = unat rw * 2 ^ unat ws"
proof -
  have k: "unat ws \<le> 14" using assms by (simp add: word_le_nat_alt)
  have "scaled_recv_window 0 ws rw = push_bit (unat ws) (ucast rw)"
    by (intro bit_word_eqI)
      (use k in \<open>auto simp: scaled_recv_window_def bit_range_set bit_simps dest: bit_imp_le_length\<close>)
  moreover have "unat rw * 2 ^ unat ws < 2 ^ 16 * 2 ^ 14"
    using unat_bound[of rw] power_increasing[OF k, of "2::nat"]
    by (intro mult_strict_mono' mult_less_le_imp_less) simp_all
  ultimately show ?thesis using unat_bound[of rw]
    by (simp add: unat_push_bit_mult word_nat)
qed

lemma minWindow_eq: "unat (minWindow c s) = min (unat c) (unat s)"
proof (cases "unat c < unat s")
  case False
  then have "unat s < 2 ^ 18" using unat_bound[of c] by simp
  with False show ?thesis by (simp add: minWindow_def word_nat)
qed (simp add: minWindow_def)

text \<open>The window pushed to the application side is the smaller of the congestion window and the
  receiver's window scaled by its shift count (up to the 14 bits that the protocol allows), when
  the unassigned bits of the scaled register are 0.\<close>

lemma txSar_ackPush_window:
  assumes "ws \<le> 14" and "(if rtq_init q then rtq_win_shift q else tse_win_shift e) = ws"
  shows "unat (tak_min_window (txSar_ackPush 0 q e))
       = min (unat (rtq_cong_window q)) (unat (rtq_recv_window q) * 2 ^ unat ws)"
  by (simp only: txSar_ackPush_def txSarAckPush3_def Let_def minWindow_eq assms
      scaled_recv_window_eq[OF assms(1)] txSarAckPush.select_convs)

definition rtq_ex :: rxTxSarQuery where
  "rtq_ex = rxTxSarQuery_init 7 0x1234 0x200 0x3908 0 False 3"

definition txSar_ex :: txSarEntry where
  "txSar_ex = \<lparr>tse_ackd = 99, tse_not_ackd = 200, tse_recv_window = 500, tse_win_shift = 0,
     tse_cong_window = 400, tse_slowstart_threshold = 0xFFFF, tse_app = 200, tse_count = 0,
     tse_fastRetransmitted = False, tse_finReady = False, tse_finSent = False\<rparr>"

lemma txSar_ackPush_window_witness:
  "unat (tak_min_window (txSar_ackPush 0 rtq_ex txSar_ex)) = min 0x3908 (0x200 * 2 ^ 3)"
  using txSar_ackPush_window[of 3 rtq_ex txSar_ex] by (simp add: rtq_ex_def rxTxSarQuery_init_def)

text \<open>The usable window that the table computes for the transmit engine is inverted: it is 0
  exactly when the bytes in flight fit in the window, and otherwise, when there is no room, it is
  the (wrapped) negative difference.\<close>

lemma txSar_usableWindow_inverted:
  "txSar_usedLength e \<le> txSar_minWindow u e \<longleftrightarrow> txSar_usableWindow u e = 0"
  by (auto simp: txSar_usableWindow_def)

end
