(* ===== verification/Stream_Utils.thy ===== *)
theory Stream_Utils
  imports Toe_Types
begin

text \<open>
  The stream helpers of \<^verbatim>\<open>hls/axi_utils.hpp\<close> that the components are glued with. A helper is a function
  on the tuple of its streams, with its static variables in front where it has some.
\<close>

subsection \<open>Two streams into one, by priority\<close>

definition stream_merger ::
    "'a fifo \<times> 'a fifo \<times> 'a fifo \<Rightarrow> 'a fifo \<times> 'a fifo \<times> 'a fifo" where
  "stream_merger = (\<lambda>(in1, in2, out).
     if in1 \<noteq> [] then (tl in1, in2, out @ [hd in1])
     else if in2 \<noteq> [] then (in1, tl in2, out @ [hd in2])
     else (in1, in2, out))"

subsection \<open>One stream into two\<close>

definition toe_duplicate_stream ::
    "'a fifo \<times> 'a fifo \<times> 'a fifo \<Rightarrow> 'a fifo \<times> 'a fifo \<times> 'a fifo" where
  "toe_duplicate_stream = (\<lambda>(inp, out0, out1).
     if inp \<noteq> [] then (tl inp, out0 @ [hd inp], out1 @ [hd inp]) else (inp, out0, out1))"

end
