(* ===== verification/Timers.thy ===== *)
theory Timers
  imports Stream_Utils
begin

text \<open>
  The timers: \<^verbatim>\<open>toe/retransmit_timer\<close>, \<^verbatim>\<open>toe/probe_timer\<close>, \<^verbatim>\<open>toe/close_timer\<close>, and their
  composition \<^verbatim>\<open>timerWrapper\<close> of \<^verbatim>\<open>toe/toe.cpp\<close>. Each keeps a table of one entry per session and
  visits one entry per call. A request is read in one call and written to the table in a
  later one, when the sweep is not at the same entry (\<^verbatim>\<open>waitForWrite\<close>).

  The lemmas give the deadline of a running timer as the exact number of calls until it
  fires (\<open>countdown\<close>), and the bounds of the retransmission counter.
\<close>

record timer_entry =
  te_time :: u32
  te_active :: bool

definition timer_entry0 :: timer_entry where
  "timer_entry0 = \<lparr>te_time = 0, te_active = False\<rparr>"

subsection \<open>Close timer\<close>

record ct_state =
  ct_table :: "sid \<Rightarrow> timer_entry"
  ct_currSessionID :: sid
  ct_setSessionID :: sid
  ct_prevSessionID :: sid
  ct_waitForWrite :: bool
  ctf_set :: "sid fifo"
  ctf_release :: "sid fifo"

definition ct_init :: ct_state where
  "ct_init = \<lparr>ct_table = (\<lambda>_. timer_entry0), ct_currSessionID = 0, ct_setSessionID = 0,
     ct_prevSessionID = 0, ct_waitForWrite = False, ctf_set = [], ctf_release = []\<rparr>"

definition close_timer :: "ct_state \<Rightarrow> ct_state" where
  "close_timer s =
    (if ct_waitForWrite s then
       (let s = (if ct_setSessionID s \<noteq> ct_prevSessionID s
                 then s\<lparr>ct_table := (ct_table s)(ct_setSessionID s :=
                          \<lparr>te_time = TIME_60s, te_active = True\<rparr>), ct_waitForWrite := False\<rparr>
                 else s) in
        s\<lparr>ct_prevSessionID := ct_prevSessionID s - 1\<rparr>)
     else if ctf_set s \<noteq> [] then
       s\<lparr>ct_setSessionID := hd (ctf_set s), ctf_set := tl (ctf_set s), ct_waitForWrite := True\<rparr>
     else
       (let p = ct_currSessionID s; e = ct_table s p;
            s = s\<lparr>ct_prevSessionID := p\<rparr>;
            s = (if te_active e then
                   if 0 < te_time e
                   then s\<lparr>ct_table := (ct_table s)(p := e\<lparr>te_time := te_time e - 1\<rparr>)\<rparr>
                   else s\<lparr>ct_table := (ct_table s)(p := \<lparr>te_time = 0, te_active = False\<rparr>),
                          ctf_release := ctf_release s @ [p]\<rparr>
                 else s) in
        s\<lparr>ct_currSessionID := sweep_next p\<rparr>))"

subsection \<open>Probe timer\<close>

record pt_state =
  pt_table :: "sid \<Rightarrow> timer_entry"
  pt_currSessionID :: sid
  pt_updSessionID :: sid
  pt_prevSessionID :: sid
  pt_WaitForWrite :: bool
  ptf_clear :: "sid fifo"
  ptf_set :: "sid fifo"
  ptf_event :: "event fifo"

definition pt_init :: pt_state where
  "pt_init = \<lparr>pt_table = (\<lambda>_. timer_entry0), pt_currSessionID = 0, pt_updSessionID = 0,
     pt_prevSessionID = 0, pt_WaitForWrite = False, ptf_clear = [], ptf_set = [],
     ptf_event = []\<rparr>"

text \<open>The visit of session \<open>i\<close>; \<open>fast\<close> is \<^verbatim>\<open>fastResume\<close>, \<open>full\<close> the state of the event stream.\<close>

definition pt_visit :: "bool \<Rightarrow> bool \<Rightarrow> sid \<Rightarrow> pt_state \<Rightarrow> pt_state" where
  "pt_visit full fast i s =
    (let e = pt_table s i in
     if te_active e \<and> \<not> full then
       if te_time e = 0 \<or> fast
       then s\<lparr>pt_table := (pt_table s)(i := \<lparr>te_time = 0, te_active = False\<rparr>),
              ptf_event := ptf_event s @ [event2 RT i]\<rparr>
       else s\<lparr>pt_table := (pt_table s)(i := e\<lparr>te_time := te_time e - 1\<rparr>)\<rparr>
     else s)"

definition probe_timer :: "bool \<Rightarrow> pt_state \<Rightarrow> pt_state" where
  "probe_timer full s =
    (if pt_WaitForWrite s then
       (let s = (if pt_updSessionID s \<noteq> pt_prevSessionID s
                 then s\<lparr>pt_table := (pt_table s)(pt_updSessionID s :=
                          \<lparr>te_time = TIME_50ms, te_active = True\<rparr>), pt_WaitForWrite := False\<rparr>
                 else s) in
        s\<lparr>pt_prevSessionID := pt_prevSessionID s - 1\<rparr>)
     else if ptf_set s \<noteq> [] then
       s\<lparr>pt_updSessionID := hd (ptf_set s), ptf_set := tl (ptf_set s), pt_WaitForWrite := True\<rparr>
     else if ptf_clear s \<noteq> [] then
       (let i = hd (ptf_clear s) in
        (pt_visit full True i (s\<lparr>ptf_clear := tl (ptf_clear s)\<rparr>))\<lparr>pt_prevSessionID := i\<rparr>)
     else
       (let i = pt_currSessionID s in
        (pt_visit full False i (s\<lparr>pt_currSessionID := sweep_next i\<rparr>))\<lparr>pt_prevSessionID := i\<rparr>))"

subsection \<open>Retransmit timer\<close>

record rt_entry =
  rte_time :: u32
  rte_retries :: "3 word"
  rte_active :: bool
  rte_type :: eventType

definition rt_entry0 :: rt_entry where
  "rt_entry0 = \<lparr>rte_time = 0, rte_retries = 0, rte_active = False, rte_type = TX\<rparr>"

record rt_state =
  rt_table :: "sid \<Rightarrow> rt_entry"
  rt_position :: sid
  rt_waitForWrite :: bool
  rt_prevPosition :: sid
  rt_update :: rxRetransmitTimerUpdate
  rtf_clear :: "rxRetransmitTimerUpdate fifo"
  rtf_set :: "txRetransmitTimerSet fifo"
  rtf_event :: "event fifo"
  rtf_release :: "sid fifo"
  rtf_rxAppNotification :: "appNotification fifo"
  rtf_txAppNotification :: "openStatus fifo"

definition rt_init :: rt_state where
  "rt_init = \<lparr>rt_table = (\<lambda>_. rt_entry0), rt_position = 0, rt_waitForWrite = False,
     rt_prevPosition = 0, rt_update = \<lparr>rrt_sessionID = 0, rrt_stop = False\<rparr>,
     rtf_clear = [], rtf_set = [], rtf_event = [], rtf_release = [],
     rtf_rxAppNotification = [], rtf_txAppNotification = []\<rparr>"

text \<open>The interval of a new timer by the number of time-outs in a row.\<close>

definition rt_interval :: "3 word \<Rightarrow> u32" where
  "rt_interval r = (if r = 0 then TIME_1s else if r = 1 then TIME_5s else if r = 2 then TIME_10s
                    else if r = 3 then TIME_15s else TIME_30s)"

text \<open>A request of the receive engine reaches the table: restart or stop, and forget the retries.\<close>

definition rt_applyUpdate :: "rxRetransmitTimerUpdate \<Rightarrow> rt_entry \<Rightarrow> rt_entry" where
  "rt_applyUpdate u e =
    (let e = (if \<not> rrt_stop u then e\<lparr>rte_time := TIME_1s\<rparr>
              else e\<lparr>rte_time := 0, rte_active := False\<rparr>) in
     e\<lparr>rte_retries := 0\<rparr>)"

definition rt_applySet :: "eventType \<Rightarrow> rt_entry \<Rightarrow> rt_entry" where
  "rt_applySet ty e =
    (let e = e\<lparr>rte_type := ty\<rparr>;
         e = (if \<not> rte_active e then e\<lparr>rte_time := rt_interval (rte_retries e)\<rparr> else e) in
     e\<lparr>rte_active := True\<rparr>)"

text \<open>The visit of session \<open>i\<close> by the sweep (\<^verbatim>\<open>operationSwitch\<close> 0).\<close>

definition rt_visit :: "bool \<Rightarrow> sid \<Rightarrow> rt_state \<Rightarrow> rt_state" where
  "rt_visit full i s =
    (let e = rt_table s i in
     if rte_active e then
       if 0 < rte_time e then
         s\<lparr>rt_table := (rt_table s)(i := e\<lparr>rte_time := rte_time e - 1\<rparr>)\<rparr>
       else if \<not> full then
         (let e = e\<lparr>rte_time := 0, rte_active := False\<rparr> in
          if rte_retries e < 4 then
            (let e = e\<lparr>rte_retries := rte_retries e + 1\<rparr> in
             s\<lparr>rt_table := (rt_table s)(i := e),
               rtf_event := rtf_event s @ [event3 (rte_type e) i (rte_retries e)]\<rparr>)
          else
            (let s = s\<lparr>rt_table := (rt_table s)(i := e\<lparr>rte_retries := 0\<rparr>),
                       rtf_release := rtf_release s @ [i]\<rparr> in
             if rte_type e = SYN
             then s\<lparr>rtf_txAppNotification := rtf_txAppNotification s @ [openStatus2 i 0]\<rparr>
             else s\<lparr>rtf_rxAppNotification :=
                      rtf_rxAppNotification s @ [appNotification_closed2 i True]\<rparr>))
       else s
     else s)"

definition retransmit_timer :: "bool \<Rightarrow> rt_state \<Rightarrow> rt_state" where
  "retransmit_timer full s =
    (if rt_waitForWrite s \<and> rrt_sessionID (rt_update s) \<noteq> rt_prevPosition s then
       (let u = rt_update s; i = rrt_sessionID u in
        s\<lparr>rt_table := (rt_table s)(i := rt_applyUpdate u (rt_table s i)),
          rt_waitForWrite := False\<rparr>)
     else if rtf_clear s \<noteq> [] \<and> \<not> rt_waitForWrite s then
       s\<lparr>rt_update := hd (rtf_clear s), rtf_clear := tl (rtf_clear s), rt_waitForWrite := True\<rparr>
     else if rtf_set s \<noteq> [] then
       (let set = hd (rtf_set s); i = trs_sessionID set; p = rt_position s in
        s\<lparr>rtf_set := tl (rtf_set s),
          rt_position := (if int (unat i) - 3 < int (unat p) \<and> p \<le> i then p + 5 else p),
          rt_table := (rt_table s)(i := rt_applySet (trs_type set) (rt_table s i)),
          rt_prevPosition := i\<rparr>)
     else
       (let i = rt_position s; n = i + 1 in
        (rt_visit full i (s\<lparr>rt_position := (if unat n \<ge> MAX_SESSIONS then 0 else n)\<rparr>))
          \<lparr>rt_prevPosition := i\<rparr>))"

subsection \<open>The composition\<close>

record timers_state =
  tm_rt :: rt_state
  tm_pt :: pt_state
  tm_ct :: ct_state
  tmf_release :: "sid fifo"
  tmf_event :: "event fifo"

text \<open>The inner streams have depth 2, which decides \<^verbatim>\<open>full()\<close> for the two event timers.\<close>

definition timerWrapper :: "timers_state \<Rightarrow> timers_state" where
  "timerWrapper s =
    (let (e1, e2, ev) = stream_merger (rtf_event (tm_rt s), ptf_event (tm_pt s), tmf_event s);
         rt = (tm_rt s)\<lparr>rtf_event := e1\<rparr>; pt = (tm_pt s)\<lparr>ptf_event := e2\<rparr>;
         rt = retransmit_timer (2 \<le> length (rtf_event rt)) rt;
         pt = probe_timer (2 \<le> length (ptf_event pt)) pt;
         ct = close_timer (tm_ct s);
         (r1, r2, rel) = stream_merger (ctf_release ct, rtf_release rt, tmf_release s) in
     \<lparr>tm_rt = rt\<lparr>rtf_release := r2\<rparr>, tm_pt = pt, tm_ct = ct\<lparr>ctf_release := r1\<rparr>,
      tmf_release = rel, tmf_event = ev\<rparr>)"

subsection \<open>Counting in a run\<close>

text \<open>The number of events of a run that happen in a state where they are of some kind.\<close>

fun tally :: "('e \<Rightarrow> 's \<Rightarrow> 's) \<Rightarrow> ('e \<Rightarrow> 's \<Rightarrow> bool) \<Rightarrow> 'e list \<Rightarrow> 's \<Rightarrow> nat" where
  "tally exec P [] s = 0"
| "tally exec P (e # es) s = (if P e s then 1 else 0) + tally exec P es (exec e s)"

subsection \<open>The close timer's deadline\<close>

definition ct_ok :: "sid \<Rightarrow> ct_state \<Rightarrow> bool" where
  "ct_ok i s \<longleftrightarrow> \<not> ct_waitForWrite s \<and> ctf_set s = [] \<and> unat (ct_currSessionID s) < MAX_SESSIONS
              \<and> unat i < MAX_SESSIONS"

definition sweep_rank :: "timer_entry \<Rightarrow> sid \<Rightarrow> sid \<Rightarrow> nat" where
  "sweep_rank e p i =
     (if te_active e then unat (te_time e) * MAX_SESSIONS + sweep_dist p i + 1 else 0)"

definition ct_rank :: "sid \<Rightarrow> ct_state \<Rightarrow> nat" where
  "ct_rank i s = sweep_rank (ct_table s i) (ct_currSessionID s) i"

lemma unat_pred: "0 < x \<Longrightarrow> unat (x :: 'a::len word) = Suc (unat (x - 1))"
  by (metis Suc_pred' unat_gt_0 unat_minus_one word_greater_zero_iff)

lemma MAX_pos: "MAX_SESSIONS = Suc 999" by (simp add: MAX_SESSIONS_def)

text \<open>The measure over one visit: another session is visited, or this one is, or it fires.\<close>

lemma sweep_rank_other:
  "unat p < MAX_SESSIONS \<Longrightarrow> unat i < MAX_SESSIONS \<Longrightarrow> p \<noteq> i \<Longrightarrow> te_active e \<Longrightarrow>
   sweep_rank e p i = Suc (sweep_rank e (sweep_next p) i)"
  using sweep_dist_next(1)[of p i] by (simp add: sweep_rank_def)

lemma sweep_rank_visit:
  "unat i < MAX_SESSIONS \<Longrightarrow> te_active e \<Longrightarrow> 0 < te_time e \<Longrightarrow>
   sweep_rank e i i = Suc (sweep_rank (e\<lparr>te_time := te_time e - 1\<rparr>) (sweep_next i) i)"
  using sweep_dist_next(2)[of i i] unat_pred[of "te_time e"]
  by (simp add: sweep_rank_def MAX_pos sweep_dist_def)

lemma sweep_rank_one:
  "unat p < MAX_SESSIONS \<Longrightarrow> sweep_rank e p i = 1 \<longleftrightarrow> te_active e \<and> te_time e = 0 \<and> p = i"
  by (auto simp: sweep_rank_def sweep_dist_zero MAX_pos unat_eq_0)

lemma sweep_dist_lt: "unat p < MAX_SESSIONS \<Longrightarrow> unat i < MAX_SESSIONS \<Longrightarrow> sweep_dist p i < MAX_SESSIONS"
  by (auto simp: sweep_dist_def)

lemma ct_ok_call: "ct_ok i s \<Longrightarrow> ct_ok i (close_timer s)"
  by (simp add: ct_ok_def close_timer_def Let_def sweep_next_lt)

lemma ct_rank_call:
  assumes "ct_ok i s" and "0 < ct_rank i s"
  shows "ct_rank i s = Suc (ct_rank i (close_timer s))"
proof (cases "ct_currSessionID s = i")
  case True
  have "te_active (ct_table s i)" using assms(2) by (simp add: ct_rank_def sweep_rank_def split: if_splits)
  then show ?thesis
    using assms(1) True sweep_rank_visit[of i "ct_table s i"]
    by (cases "0 < te_time (ct_table s i)")
      (auto simp: ct_rank_def ct_ok_def close_timer_def Let_def sweep_rank_def sweep_dist_def
        word_greater_zero_iff)
next
  case False
  have "te_active (ct_table s i)" using assms(2) by (simp add: ct_rank_def sweep_rank_def split: if_splits)
  then show ?thesis
    using assms(1) False sweep_rank_other[of "ct_currSessionID s" i "ct_table s i"]
    by (simp add: ct_rank_def ct_ok_def close_timer_def Let_def)
qed

interpretation ct: countdown close_timer "ct_rank i" "ct_ok i" for i
  by unfold_locales (rule ct_ok_call, assumption, rule ct_rank_call, assumption+)

lemma ct_fires:
  "ct_ok i s \<Longrightarrow> ct_rank i s = 1 \<Longrightarrow> ctf_release (close_timer s) = ctf_release s @ [i]"
  using sweep_rank_one[of "ct_currSessionID s" "ct_table s i" i]
  by (simp add: ct_rank_def ct_ok_def close_timer_def Let_def)

text \<open>A run of the timer: its calls, and the requests that are put on its stream.\<close>

datatype ct_event = Ct_call | Ct_set sid

fun ct_exec :: "ct_event \<Rightarrow> ct_state \<Rightarrow> ct_state" where
  "ct_exec Ct_call s = close_timer s"
| "ct_exec (Ct_set j) s = s\<lparr>ctf_set := ctf_set s @ [j]\<rparr>"

text \<open>A call sweeps when no request is served. The others are at most three for each request.\<close>

definition ct_sweeping :: "ct_state \<Rightarrow> bool" where
  "ct_sweeping s \<longleftrightarrow> \<not> ct_waitForWrite s \<and> ctf_set s = []"

definition ct_sweeps :: "ct_event \<Rightarrow> ct_state \<Rightarrow> bool" where
  "ct_sweeps e s \<longleftrightarrow> e = Ct_call \<and> ct_sweeping s"

definition ct_load :: "ct_state \<Rightarrow> nat" where
  "ct_load s = 3 * length (ctf_set s)
     + (if ct_waitForWrite s then if ct_setSessionID s = ct_prevSessionID s then 2 else 1 else 0)"

definition is_ct_set :: "ct_event \<Rightarrow> bool" where
  "is_ct_set e \<longleftrightarrow> e \<noteq> Ct_call"

lemma sid_pred: "(x :: sid) \<noteq> x - 1" by (metis add_diff_cancel_left' diff_add_cancel diff_self_eq_0 zero_neq_one diff_zero)

lemma ct_load_event:
  "ct_load (ct_exec e s) + (if e = Ct_call then 1 else 0)
    \<le> ct_load s + (if ct_sweeps e s then 1 else 0) + (if is_ct_set e then 3 else 0)"
proof (cases e)
  case Ct_call
  then show ?thesis using sid_pred[of "ct_prevSessionID s"]
    by (cases "ctf_set s") (auto simp: ct_load_def ct_sweeps_def ct_sweeping_def is_ct_set_def close_timer_def Let_def)
qed (simp add: ct_load_def is_ct_set_def ct_sweeps_def)

lemma ct_calls_bound:
  "length (filter (\<lambda>e. e = Ct_call) es) \<le> tally ct_exec ct_sweeps es s + ct_load s + 3 * length (filter is_ct_set es)"
proof (induction es arbitrary: s)
  case (Cons e es)
  show ?case using Cons[of "ct_exec e s"] ct_load_event[of e s] by (cases e) (auto simp: is_ct_set_def)
qed simp

text \<open>Nobody sets the timer of session \<open>i\<close>.\<close>

definition ct_quiet :: "sid \<Rightarrow> ct_state \<Rightarrow> bool" where
  "ct_quiet i s \<longleftrightarrow> \<not> (ct_waitForWrite s \<and> ct_setSessionID s = i) \<and> i \<notin> set (ctf_set s)
     \<and> unat (ct_currSessionID s) < MAX_SESSIONS \<and> unat i < MAX_SESSIONS"

definition ct_due :: "sid \<Rightarrow> ct_state \<Rightarrow> nat" where
  "ct_due i s = count_list (ctf_release s) i + (if te_active (ct_table s i) then 1 else 0)"

lemma ct_rank_pos: "0 < ct_rank i s \<longleftrightarrow> te_active (ct_table s i)"
  by (simp add: ct_rank_def sweep_rank_def)

lemma ct_sweep:
  assumes "ct_quiet i s" and "ct_sweeping s"
  shows "ct_quiet i (close_timer s)" and "ct_rank i (close_timer s) = ct_rank i s - 1"
    and "ct_due i (close_timer s) = ct_due i s"
proof -
  have ok: "ct_ok i s" using assms by (simp add: ct_ok_def ct_quiet_def ct_sweeping_def)
  show "ct_quiet i (close_timer s)" using ct_ok_call[OF ok] by (simp add: ct_ok_def ct_quiet_def)
  show "ct_due i (close_timer s) = ct_due i s"
    using assms(2) by (auto simp: ct_due_def ct_sweeping_def close_timer_def Let_def)
  show "ct_rank i (close_timer s) = ct_rank i s - 1"
  proof (cases "0 < ct_rank i s")
    case False
    then have "\<not> te_active (ct_table s i)" by (simp add: ct_rank_pos)
    then have "\<not> te_active (ct_table (close_timer s) i)"
      using assms(2) by (auto simp: ct_sweeping_def close_timer_def Let_def)
    then show ?thesis using False by (simp add: ct_rank_def sweep_rank_def)
  qed (simp add: ct_rank_call[OF ok])
qed

lemma ct_serve:
  assumes "ct_quiet i s" and "\<not> ct_sweeping s"
  shows "ct_quiet i (close_timer s)" and "ct_rank i (close_timer s) = ct_rank i s"
    and "ct_due i (close_timer s) = ct_due i s"
  using assms by (cases "ctf_set s"; auto simp: ct_quiet_def ct_rank_def ct_due_def ct_sweeping_def close_timer_def Let_def)+

lemma ct_event:
  assumes "ct_quiet i s" and "e \<noteq> Ct_set i"
  shows "ct_quiet i (ct_exec e s) \<and> ct_due i (ct_exec e s) = ct_due i s
    \<and> ct_rank i (ct_exec e s) = ct_rank i s - (if ct_sweeps e s then 1 else 0)"
proof (cases e)
  case Ct_call
  then show ?thesis using assms ct_sweep[of i s] ct_serve[of i s] by (simp add: ct_sweeps_def)
next
  case (Ct_set j)
  then show ?thesis using assms by (simp add: ct_quiet_def ct_due_def ct_rank_def ct_sweeps_def)
qed

lemma ct_run:
  assumes "ct_quiet i s" and "Ct_set i \<notin> set es"
  shows "ct_rank i (fold ct_exec es s) = ct_rank i s - tally ct_exec ct_sweeps es s \<and> ct_due i (fold ct_exec es s) = ct_due i s"
  using assms
proof (induction es arbitrary: s)
  case (Cons e es)
  have "e \<noteq> Ct_set i" using Cons.prems(2) by auto
  note ev = ct_event[OF Cons.prems(1) this]
  show ?case using Cons.IH[of "ct_exec e s"] Cons.prems(2) ev by simp
qed simp

text \<open>C4. In every run in which the timer of a session is not set again, whatever other sessions are put in TIME-WAIT
  meanwhile, the session is released once, with the call that follows exactly \<^verbatim>\<open>time * MAX_SESSIONS\<close> sweeping calls
  and those until the sweep reaches it: up to then its timer is active, afterwards it is not. Each request that is
  waiting or arrives costs at most three calls that do not sweep.\<close>

theorem close_timer_deadline:
  assumes "ct_quiet i s" and "Ct_set i \<notin> set es" and "te_active (ct_table s i)"
  shows "let n = unat (te_time (ct_table s i)) * MAX_SESSIONS + sweep_dist (ct_currSessionID s) i;
      t = fold ct_exec es s; calls = length (filter (\<lambda>e. e = Ct_call) es)
    in (te_active (ct_table t i) \<longleftrightarrow> tally ct_exec ct_sweeps es s \<le> n)
     \<and> count_list (ctf_release t) i = count_list (ctf_release s) i + (if tally ct_exec ct_sweeps es s \<le> n then 0 else 1)
     \<and> tally ct_exec ct_sweeps es s \<le> calls \<and> calls \<le> tally ct_exec ct_sweeps es s + ct_load s + 3 * length (filter is_ct_set es)"
proof -
  let ?n = "unat (te_time (ct_table s i)) * MAX_SESSIONS + sweep_dist (ct_currSessionID s) i"
  have rank: "ct_rank i s = Suc ?n" using assms(3) by (simp add: ct_rank_def sweep_rank_def)
  note run = ct_run[OF assms(1,2)]
  have act: "te_active (ct_table (fold ct_exec es s) i) \<longleftrightarrow> tally ct_exec ct_sweeps es s \<le> ?n"
    using run rank by (simp flip: ct_rank_pos) linarith
  have "tally ct_exec ct_sweeps es s \<le> length (filter (\<lambda>e. e = Ct_call) es)" for s :: ct_state
    by (induction es arbitrary: s) (auto simp: ct_sweeps_def intro: le_SucI)
  then show ?thesis using act run assms(3) ct_calls_bound[of es s]
    by (cases "tally ct_exec ct_sweeps es s \<le> ?n") (simp_all add: Let_def ct_due_def)
qed

definition ct_ex :: ct_state where
  "ct_ex = ct_init\<lparr>ct_table := (\<lambda>_. timer_entry0)(5 := \<lparr>te_time = 0, te_active = True\<rparr>),
     ct_currSessionID := 4\<rparr>"

text \<open>Another session is put in TIME-WAIT before the sweep reaches session 5.\<close>

lemma close_timer_deadline_witness:
  "ctf_release (fold ct_exec [Ct_set 9, Ct_call, Ct_call, Ct_call] ct_ex) = []
   \<and> count_list (ctf_release (fold ct_exec [Ct_set 9, Ct_call, Ct_call, Ct_call, Ct_call] ct_ex)) 5 = 1"
proof -
  have q: "ct_quiet 5 ct_ex" "te_active (ct_table ct_ex 5)" by (simp_all add: ct_quiet_def ct_ex_def ct_init_def MAX_SESSIONS_def)
  have "tally ct_exec ct_sweeps [Ct_set 9, Ct_call, Ct_call, Ct_call, Ct_call] ct_ex = 2"
    by (simp add: ct_sweeps_def ct_sweeping_def ct_ex_def ct_init_def close_timer_def Let_def)
  then show ?thesis using close_timer_deadline[OF q(1) _ q(2), of "[Ct_set 9, Ct_call, Ct_call, Ct_call, Ct_call]"]
    by (simp add: ct_ex_def ct_init_def close_timer_def Let_def sweep_dist_def timer_entry0_def)
qed

text \<open>A request is in the table two calls after it is read, or three when the sweep is at its entry.\<close>

lemma close_timer_set:
  assumes "\<not> ct_waitForWrite s" and "ctf_set s = i # rest"
  obtains k where "k \<in> {2, 3}"
    "ct_table ((close_timer ^^ k) s) i = \<lparr>te_time = TIME_60s, te_active = True\<rparr>"
    "\<not> ct_waitForWrite ((close_timer ^^ k) s)" "ctf_set ((close_timer ^^ k) s) = rest"
    "ct_currSessionID ((close_timer ^^ k) s) = ct_currSessionID s"
    "ctf_release ((close_timer ^^ k) s) = ctf_release s"
proof (cases "i = ct_prevSessionID s")
  case True
  then show thesis using assms
    by (intro that[of 3]) (simp_all add: numeral_3_eq_3 close_timer_def Let_def)
next
  case False
  then show thesis using assms
    by (intro that[of 2]) (simp_all add: numeral_2_eq_2 close_timer_def Let_def)
qed

text \<open>TIME-WAIT ends: a session whose number is written to the close timer, alone, is released
  within 60 seconds and one sweep, counted in calls (3 more for the request itself).\<close>

lemma close_timer_releases:
  assumes "\<not> ct_waitForWrite s" and "ctf_set s = [i]"
    and "unat (ct_currSessionID s) < MAX_SESSIONS" and "unat i < MAX_SESSIONS"
  shows "\<exists>n \<le> 3 + unat TIME_60s * MAX_SESSIONS + MAX_SESSIONS.
           i \<in> set (ctf_release ((close_timer ^^ n) s))"
proof -
  obtain k where k: "k \<in> {2, 3}"
    "ct_table ((close_timer ^^ k) s) i = \<lparr>te_time = TIME_60s, te_active = True\<rparr>"
    "\<not> ct_waitForWrite ((close_timer ^^ k) s)" "ctf_set ((close_timer ^^ k) s) = []"
    "ct_currSessionID ((close_timer ^^ k) s) = ct_currSessionID s"
    using close_timer_set[OF assms(1,2)] by metis
  let ?t = "(close_timer ^^ k) s"
  have ok: "ct_ok i ?t" using k assms by (simp add: ct_ok_def)
  let ?n = "ct_rank i ?t"
  have pos: "0 < ?n" using k by (simp add: ct_rank_def sweep_rank_def)
  have le: "?n \<le> unat TIME_60s * MAX_SESSIONS + MAX_SESSIONS"
    using k assms sweep_dist_lt[of "ct_currSessionID s" i]
    by (simp add: ct_rank_def sweep_rank_def)
  obtain u where "ct_ok i u" "ct_rank i u = 1" "(close_timer ^^ ?n) ?t = close_timer u"
    using ct.last_call[OF ok pos] by blast
  then have "i \<in> set (ctf_release ((close_timer ^^ (?n + k)) s))"
    using ct_fires[of i u] by (simp add: funpow_add)
  moreover have "?n + k \<le> 3 + unat TIME_60s * MAX_SESSIONS + MAX_SESSIONS"
    using le k(1) by auto
  ultimately show ?thesis by blast
qed

lemma close_timer_releases_witness:
  "\<exists>n \<le> 3 + unat TIME_60s * MAX_SESSIONS + MAX_SESSIONS.
     9 \<in> set (ctf_release ((close_timer ^^ n) (ct_init\<lparr>ctf_set := [9]\<rparr>)))"
  by (rule close_timer_releases) (simp_all add: ct_init_def MAX_SESSIONS_def)

subsection \<open>The retransmit timer's deadline and its counter\<close>

definition rt_ok :: "sid \<Rightarrow> rt_state \<Rightarrow> bool" where
  "rt_ok i s \<longleftrightarrow> \<not> rt_waitForWrite s \<and> rtf_clear s = [] \<and> rtf_set s = []
              \<and> unat (rt_position s) < MAX_SESSIONS \<and> unat i < MAX_SESSIONS"

lemma rt_next:
  "unat p < MAX_SESSIONS \<Longrightarrow> (if MAX_SESSIONS \<le> unat (p + 1) then 0 else p + 1) = sweep_next p"
  by (auto simp: sweep_next_def unat_sid_Suc)

lemma rt_idle_call:
  "rt_ok i s \<Longrightarrow> retransmit_timer full s =
     (rt_visit full (rt_position s) (s\<lparr>rt_position := sweep_next (rt_position s)\<rparr>))
       \<lparr>rt_prevPosition := rt_position s\<rparr>"
  by (simp only: rt_ok_def retransmit_timer_def Let_def simp_thms if_False list.simps rt_next)

lemma rt_visit_frame [simp]:
  "rt_waitForWrite (rt_visit full p s) = rt_waitForWrite s"
  "rtf_clear (rt_visit full p s) = rtf_clear s" "rtf_set (rt_visit full p s) = rtf_set s"
  "rt_position (rt_visit full p s) = rt_position s"
  "p \<noteq> i \<Longrightarrow> rt_table (rt_visit full p s) i = rt_table s i"
  by (simp_all add: rt_visit_def Let_def)

lemma rt_ok_call: "rt_ok i s \<Longrightarrow> rt_ok i (retransmit_timer full s)"
  by (simp add: rt_idle_call, simp add: rt_ok_def sweep_next_lt)

text \<open>What an expired timer does: an event with the next retry number, or the abort of the session.\<close>

definition rt_fired :: "sid \<Rightarrow> rt_state \<Rightarrow> rt_state \<Rightarrow> bool" where
  "rt_fired i s s' \<longleftrightarrow>
    (let e = rt_table s i in
     if rte_retries e < 4 then
       rtf_event s' = rtf_event s @ [event3 (rte_type e) i (rte_retries e + 1)]
       \<and> rte_retries (rt_table s' i) = rte_retries e + 1
       \<and> rtf_release s' = rtf_release s
     else
       rtf_release s' = rtf_release s @ [i] \<and> rtf_event s' = rtf_event s
       \<and> rte_retries (rt_table s' i) = 0
       \<and> (if rte_type e = SYN
          then rtf_txAppNotification s' = rtf_txAppNotification s @ [openStatus2 i 0]
          else rtf_rxAppNotification s' =
                 rtf_rxAppNotification s @ [appNotification_closed2 i True]))"

text \<open>A run of the timer: its calls, the requests, and the events that are read. An argument says whether the event stream is full.\<close>

datatype rt_event =
    Rt_call bool
  | Rt_clear rxRetransmitTimerUpdate
  | Rt_set txRetransmitTimerSet
  | Rt_popEvent

fun rt_exec :: "rt_event \<Rightarrow> rt_state \<Rightarrow> rt_state" where
  "rt_exec (Rt_call full) s = retransmit_timer full s"
| "rt_exec (Rt_clear u) s = s\<lparr>rtf_clear := rtf_clear s @ [u]\<rparr>"
| "rt_exec (Rt_set q) s = s\<lparr>rtf_set := rtf_set s @ [q]\<rparr>"
| "rt_exec Rt_popEvent s = s\<lparr>rtf_event := tl (rtf_event s)\<rparr>"

text \<open>What a call does: it sweeps unless a request is written to the table, taken from its stream, or served.\<close>

definition rt_serving :: "rt_state \<Rightarrow> bool" where
  "rt_serving s \<longleftrightarrow> \<not> (rt_waitForWrite s \<and> rrt_sessionID (rt_update s) \<noteq> rt_prevPosition s)
     \<and> (rtf_clear s = [] \<or> rt_waitForWrite s) \<and> rtf_set s \<noteq> []"

definition rt_sweeping :: "rt_state \<Rightarrow> bool" where
  "rt_sweeping s \<longleftrightarrow> \<not> (rt_waitForWrite s \<and> rrt_sessionID (rt_update s) \<noteq> rt_prevPosition s)
     \<and> (rtf_clear s = [] \<or> rt_waitForWrite s) \<and> rtf_set s = []"

definition rt_sweeps :: "rt_event \<Rightarrow> rt_state \<Rightarrow> bool" where
  "rt_sweeps e s \<longleftrightarrow> e \<in> {Rt_call False, Rt_call True} \<and> rt_sweeping s"

text \<open>Two things disturb the sweep: a set request for a session just ahead moves it on by five entries, and it passes an expired
  timer while the event stream is full.\<close>

definition rt_skips :: "rt_event \<Rightarrow> rt_state \<Rightarrow> bool" where
  "rt_skips e s \<longleftrightarrow> e \<in> {Rt_call False, Rt_call True} \<and> rt_serving s
     \<and> (let j = trs_sessionID (hd (rtf_set s)); p = rt_position s in int (unat j) - 3 < int (unat p) \<and> p \<le> j)"

definition rt_stalls :: "sid \<Rightarrow> rt_event \<Rightarrow> rt_state \<Rightarrow> bool" where
  "rt_stalls i e s \<longleftrightarrow> e = Rt_call True \<and> rt_sweeping s \<and> rt_position s = i \<and> rte_time (rt_table s i) = 0"

text \<open>The calls until the timer of \<open>i\<close> has fired, if nothing disturbs the sweep, which may be behind the end of the table.\<close>

definition rt_dist :: "sid \<Rightarrow> sid \<Rightarrow> nat" where
  "rt_dist p i = (if unat p < MAX_SESSIONS then sweep_dist p i else Suc (unat i))"

definition rt_left :: "sid \<Rightarrow> rt_state \<Rightarrow> nat" where
  "rt_left i s = unat (rte_time (rt_table s i)) * MAX_SESSIONS + rt_dist (rt_position s) i"

text \<open>Nobody restarts or stops the timer of \<open>i\<close>; setting it again has no effect while it runs.\<close>

definition rt_spares :: "sid \<Rightarrow> rt_event \<Rightarrow> bool" where
  "rt_spares i e \<longleftrightarrow> (case e of Rt_clear u \<Rightarrow> rrt_sessionID u \<noteq> i | Rt_set q \<Rightarrow> unat (trs_sessionID q) < MAX_SESSIONS | _ \<Rightarrow> True)"

definition rt_free :: "sid \<Rightarrow> rt_state \<Rightarrow> bool" where
  "rt_free i s \<longleftrightarrow> \<not> (rt_waitForWrite s \<and> rrt_sessionID (rt_update s) = i) \<and> (\<forall>u \<in> set (rtf_clear s). rrt_sessionID u \<noteq> i)
     \<and> (\<forall>q \<in> set (rtf_set s). unat (trs_sessionID q) < MAX_SESSIONS) \<and> unat (rt_position s) < MAX_SESSIONS + 5 \<and> unat i < MAX_SESSIONS"

definition rt_succ :: "sid \<Rightarrow> sid" where
  "rt_succ p = (if unat (p + 1) \<ge> MAX_SESSIONS then 0 else p + 1)"

lemma rt_sweep_call:
  assumes "rt_sweeping s"
  shows "retransmit_timer full s = (rt_visit full (rt_position s) (s\<lparr>rt_position := rt_succ (rt_position s)\<rparr>))\<lparr>rt_prevPosition := rt_position s\<rparr>"
  using assms by (auto simp: rt_sweeping_def retransmit_timer_def Let_def rt_succ_def)

lemma rt_succ_bound: "unat (rt_succ p) < MAX_SESSIONS"
  by (simp add: rt_succ_def MAX_SESSIONS_def)

lemma rt_succ_dist:
  assumes "unat p < MAX_SESSIONS + 5" and "unat i < MAX_SESSIONS"
  shows "p \<noteq> i \<Longrightarrow> Suc (rt_dist (rt_succ p) i) = rt_dist p i" and "rt_dist (rt_succ i) i = MAX_SESSIONS - 1"
    and "rt_dist i i = 0"
proof -
  have u: "unat (p + 1) = unat p + 1" using assms(1) by (simp add: unat_add_mod MAX_SESSIONS_def)
  have n: "rt_succ q = sweep_next q" if "unat q < MAX_SESSIONS" for q
    using that unat_sid_Suc[of q] by (auto simp: rt_succ_def sweep_next_def)
  show "rt_dist (rt_succ i) i = MAX_SESSIONS - 1"
    using n[OF assms(2)] sweep_dist_next(2)[OF assms(2,2)] sweep_next_lt[OF assms(2)] by (simp add: rt_dist_def)
  show "rt_dist i i = 0" using assms(2) by (simp add: rt_dist_def sweep_dist_def)
  assume "p \<noteq> i"
  show "Suc (rt_dist (rt_succ p) i) = rt_dist p i"
  proof (cases "unat p < MAX_SESSIONS")
    case True
    then show ?thesis using n sweep_dist_next(1)[OF True assms(2) \<open>p \<noteq> i\<close>] sweep_next_lt[OF True] by (simp add: rt_dist_def)
  next
    case False
    then have "rt_succ p = 0" using u by (simp add: rt_succ_def)
    then show ?thesis using False by (simp add: rt_dist_def sweep_dist_def MAX_SESSIONS_def)
  qed
qed

text \<open>A skip costs at most a round, and saves at most five calls.\<close>

lemma rt_skip_dist:
  assumes "unat i < MAX_SESSIONS" and "unat j < MAX_SESSIONS" and "p \<le> j"
  shows "rt_dist (p + 5) i \<le> rt_dist p i + MAX_SESSIONS" and "rt_dist p i \<le> rt_dist (p + 5) i + 5" and "unat (p + 5) < MAX_SESSIONS + 5"
proof -
  have p: "unat p < MAX_SESSIONS" using assms(2,3) by (simp add: word_le_nat_alt)
  then have u: "unat (p + 5) = unat p + 5" by (simp add: unat_add_mod MAX_SESSIONS_def)
  show "rt_dist (p + 5) i \<le> rt_dist p i + MAX_SESSIONS" "rt_dist p i \<le> rt_dist (p + 5) i + 5" "unat (p + 5) < MAX_SESSIONS + 5"
    using p assms(1) by (auto simp: rt_dist_def sweep_dist_def u)
qed

subsubsection \<open>One event\<close>

definition rt_fires :: "sid \<Rightarrow> rt_event \<Rightarrow> rt_state \<Rightarrow> bool" where
  "rt_fires i e s \<longleftrightarrow> e = Rt_call False \<and> rt_sweeping s \<and> rt_position s = i \<and> rte_time (rt_table s i) = 0"

definition rt_one :: "bool \<Rightarrow> nat" where "rt_one b = (if b then 1 else 0)"

definition rt_counts :: "sid \<Rightarrow> rt_event \<Rightarrow> rt_state \<Rightarrow> rt_state \<Rightarrow> bool" where
  "rt_counts i e s t \<longleftrightarrow>
     rt_left i t + rt_one (rt_sweeps e s) \<le> rt_left i s + MAX_SESSIONS * (rt_one (rt_skips e s) + rt_one (rt_stalls i e s))
   \<and> rt_left i s \<le> rt_left i t + rt_one (rt_sweeps e s) + 5 * rt_one (rt_skips e s)"

lemma rt_left_eq: "rt_left i t = rt_left i s" if "rt_table t i = rt_table s i" "rt_position t = rt_position s"
  using that by (simp add: rt_left_def)

lemma rt_event_other:
  assumes "rt_table t i = rt_table s i" and "rt_position t = rt_position s" and "\<not> rt_sweeps e s"
  shows "rt_counts i e s t"
  unfolding rt_counts_def rt_left_eq[OF assms(1,2)] using assms(3) by (simp add: rt_one_def)

lemma rt_sweep_event:
  assumes "rt_free i s" and "rte_active (rt_table s i)" and "rt_sweeping s" and "\<not> rt_fires i (Rt_call full) s"
  defines "t \<equiv> retransmit_timer full s"
  shows "rt_free i t" and "rte_active (rt_table t i)" and "rt_counts i (Rt_call full) s t"
proof -
  let ?p = "rt_position s" and ?e = "rt_table s i"
  have t: "t = (rt_visit full ?p (s\<lparr>rt_position := rt_succ ?p\<rparr>))\<lparr>rt_prevPosition := ?p\<rparr>"
    unfolding t_def by (rule rt_sweep_call[OF assms(3)])
  have lt: "unat ?p < MAX_SESSIONS + 5" "unat i < MAX_SESSIONS" using assms(1) by (simp_all add: rt_free_def)
  have upd: "rt_update t = rt_update s" unfolding t by (simp add: rt_visit_def Let_def)
  show "rt_free i t" using assms(1) upd rt_succ_bound[of ?p] by (simp add: rt_free_def t)
  have k: "rt_sweeps (Rt_call full) s" "\<not> rt_skips (Rt_call full) s"
    using assms(3) by (auto simp: rt_sweeps_def rt_skips_def rt_serving_def rt_sweeping_def)
  consider (other) "?p \<noteq> i" | (stall) "?p = i" "rte_time ?e = 0" "full" | (visit) "?p = i" "rte_time ?e \<noteq> 0"
    using assms(3,4) by (cases full) (auto simp: rt_fires_def)
  then have "rte_active (rt_table t i) \<and> rt_counts i (Rt_call full) s t"
  proof cases
    case other
    then have "rt_table t i = ?e" by (simp add: t)
    then show ?thesis using rt_succ_dist(1)[OF lt other] k assms(2)
      by (simp add: rt_counts_def rt_left_def rt_one_def t)
  next
    case stall
    then have "rt_table t i = ?e" using assms(2) by (simp add: t rt_visit_def Let_def)
    moreover have "rt_stalls i (Rt_call full) s" using stall assms(3) by (simp add: rt_stalls_def)
    moreover have "rt_position t = rt_succ i" using stall by (simp add: t)
    ultimately show ?thesis using rt_succ_dist(2,3)[OF lt] k assms(2) stall
      by (simp add: rt_counts_def rt_left_def rt_one_def MAX_SESSIONS_def)
  next
    case visit
    then have "rt_table t i = ?e\<lparr>rte_time := rte_time ?e - 1\<rparr>" using assms(2) by (simp add: t rt_visit_def Let_def word_greater_zero_iff)
    moreover have "unat (rte_time ?e) = Suc (unat (rte_time ?e - 1))" using visit(2) unat_pred[of "rte_time ?e"] by (simp add: word_greater_zero_iff)
    moreover have "rt_position t = rt_succ i" using visit by (simp add: t)
    moreover have "\<not> rt_stalls i (Rt_call full) s" using visit by (simp add: rt_stalls_def)
    ultimately show ?thesis using rt_succ_dist(2,3)[OF lt] k assms(2) visit
      by (simp add: rt_counts_def rt_left_def rt_one_def MAX_SESSIONS_def)
  qed
  then show "rte_active (rt_table t i)" "rt_counts i (Rt_call full) s t" by simp_all
qed


lemma rt_applySet_running: "rte_active e \<Longrightarrow> rte_time (rt_applySet ty e) = rte_time e \<and> rte_active (rt_applySet ty e)"
  by (simp add: rt_applySet_def Let_def)

lemma rt_serve_event:
  fixes full :: bool
  assumes "rt_free i s" and "rte_active (rt_table s i)" and "rt_serving s"
  defines "t \<equiv> retransmit_timer full s"
  shows "rt_free i t" and "rte_active (rt_table t i)" and "rt_counts i (Rt_call full) s t"
proof -
  obtain q qs where q: "rtf_set s = q # qs" using assms(3) by (auto simp: rt_serving_def neq_Nil_conv)
  let ?p = "rt_position s" and ?j = "trs_sessionID q"
  let ?c = "int (unat ?j) - 3 < int (unat ?p) \<and> ?p \<le> ?j"
  have t: "t = s\<lparr>rtf_set := qs, rt_position := (if ?c then ?p + 5 else ?p),
      rt_table := (rt_table s)(?j := rt_applySet (trs_type q) (rt_table s ?j)), rt_prevPosition := ?j\<rparr>"
    using assms(3) q unfolding t_def by (auto simp: rt_serving_def retransmit_timer_def Let_def)
  have lt: "unat ?p < MAX_SESSIONS + 5" "unat i < MAX_SESSIONS" "unat ?j < MAX_SESSIONS" using assms(1) q by (simp_all add: rt_free_def)
  have k: "rt_skips (Rt_call full) s \<longleftrightarrow> ?c" "\<not> rt_sweeps (Rt_call full) s" "\<not> rt_stalls i (Rt_call full) s"
    using assms(3) q by (simp_all add: rt_skips_def rt_sweeps_def rt_stalls_def rt_serving_def rt_sweeping_def Let_def)
  note dist = rt_skip_dist[OF lt(2,3), of ?p]
  have pos: "unat (rt_position t) < MAX_SESSIONS + 5" using lt(1) dist(3) by (simp add: t)
  show "rt_free i t" using assms(1) q pos by (simp add: rt_free_def t)
  have e: "rte_time (rt_table t i) = rte_time (rt_table s i)" "rte_active (rt_table t i)"
    using rt_applySet_running[OF assms(2)] assms(2) by (cases "i = ?j"; simp add: t)+
  show "rte_active (rt_table t i)" by (rule e(2))
  have "rt_position t = (if ?c then ?p + 5 else ?p)" by (simp add: t)
  then show "rt_counts i (Rt_call full) s t"
  proof (cases ?c)
    case True
    then show ?thesis using dist(1,2)[OF conjunct2[OF True]] k True \<open>rt_position t = _\<close>
      by (simp add: rt_counts_def rt_left_def e(1) rt_one_def)
  next
    case False
    then have "rt_position t = ?p" using \<open>rt_position t = _\<close> by (simp only: if_False)
    then show ?thesis using False k by (simp add: rt_counts_def rt_left_def e(1) rt_one_def)
  qed
qed

lemma rt_event_step:
  assumes free: "rt_free i s" and act: "rte_active (rt_table s i)" and e: "rt_spares i e" "\<not> rt_fires i e s"
  shows "rt_free i (rt_exec e s) \<and> rte_active (rt_table (rt_exec e s) i) \<and> rt_counts i e s (rt_exec e s)"
proof -
  consider (call) full where "e = Rt_call full" | (env) "\<And>full. e \<noteq> Rt_call full" by (cases e) auto
  then show ?thesis
  proof cases
    case env
    then have f: "rt_free i (rt_exec e s)" "rt_table (rt_exec e s) = rt_table s" "rt_position (rt_exec e s) = rt_position s" "\<not> rt_sweeps e s"
      using free e(1) by (cases e; auto simp: rt_free_def rt_spares_def rt_sweeps_def)+
    then show ?thesis using act rt_event_other[of "rt_exec e s" i s e] by simp
  next
    case (call full)
    consider (upd) "rt_waitForWrite s" "rrt_sessionID (rt_update s) \<noteq> rt_prevPosition s"
      | (fetch) "\<not> rt_waitForWrite s" "rtf_clear s \<noteq> []" | (serve) "rt_serving s" | (sweep) "rt_sweeping s"
      by (auto simp: rt_serving_def rt_sweeping_def)
    then show ?thesis
    proof cases
      case upd
      then have "rt_table (rt_exec e s) i = rt_table s i" "rt_position (rt_exec e s) = rt_position s" "rt_free i (rt_exec e s)" "\<not> rt_sweeps e s"
        using free by (auto simp: call retransmit_timer_def Let_def rt_free_def rt_sweeps_def rt_sweeping_def)
      then show ?thesis using act rt_event_other[of "rt_exec e s" i s e] by simp
    next
      case fetch
      then have t: "rt_exec e s = s\<lparr>rt_update := hd (rtf_clear s), rtf_clear := tl (rtf_clear s), rt_waitForWrite := True\<rparr>"
        by (simp add: call retransmit_timer_def)
      have "\<forall>u \<in> set (tl (rtf_clear s)). rrt_sessionID u \<noteq> i" "rrt_sessionID (hd (rtf_clear s)) \<noteq> i"
        using free fetch(2) by (simp_all add: rt_free_def list.set_sel)
      then have "rt_free i (rt_exec e s)" using free by (simp add: rt_free_def t)
      moreover have "\<not> rt_sweeps e s" using fetch by (simp add: rt_sweeps_def rt_sweeping_def)
      ultimately show ?thesis using act rt_event_other[of "rt_exec e s" i s e] by (simp add: t)
    next
      case serve
      then show ?thesis using rt_serve_event[OF free act serve, of full] by (simp add: call)
    next
      case sweep
      then show ?thesis using rt_sweep_event[OF free act sweep, of full] e(2) by (simp add: call)
    qed
  qed
qed

lemma rt_event_fires:
  assumes "rt_free i s" and "rte_active (rt_table s i)" and "rt_fires i e s"
  shows "e = Rt_call False \<and> rt_left i s = 0 \<and> rt_fired i s (rt_exec e s) \<and> \<not> rte_active (rt_table (rt_exec e s) i)"
proof -
  have f: "e = Rt_call False" "rt_sweeping s" "rt_position s = i" "rte_time (rt_table s i) = 0" using assms(3) by (simp_all add: rt_fires_def)
  have "unat (rt_position s) < MAX_SESSIONS + 5" "unat i < MAX_SESSIONS" using assms(1) by (simp_all add: rt_free_def)
  from rt_succ_dist(3)[OF this] have "rt_left i s = 0" using f by (simp add: rt_left_def)
  then show ?thesis using f assms(2) by (simp add: rt_sweep_call[OF f(2)] rt_fired_def rt_visit_def Let_def)
qed

subsubsection \<open>A run\<close>

definition rt_runs :: "sid \<Rightarrow> rt_event list \<Rightarrow> rt_state \<Rightarrow> bool" where
  "rt_runs i es s \<longleftrightarrow> (\<forall>k \<le> length es. rte_active (rt_table (fold rt_exec (take k es) s) i))"

lemma rt_runs_Cons: "rt_runs i (e # es) s \<longleftrightarrow> rte_active (rt_table s i) \<and> rt_runs i es (rt_exec e s)"
proof -
  have "(\<forall>k \<le> Suc n. P k) \<longleftrightarrow> P 0 \<and> (\<forall>k \<le> n. P (Suc k))" for P n by (metis Suc_le_mono le0 not0_implies_Suc)
  then show ?thesis by (simp add: rt_runs_def)
qed

definition rt_tells :: "sid \<Rightarrow> rt_event list \<Rightarrow> rt_state \<Rightarrow> rt_state \<Rightarrow> bool" where
  "rt_tells i es s t \<longleftrightarrow>
     rt_left i t + tally rt_exec rt_sweeps es s
       \<le> rt_left i s + MAX_SESSIONS * (tally rt_exec rt_skips es s + tally rt_exec (rt_stalls i) es s)
   \<and> rt_left i s \<le> rt_left i t + tally rt_exec rt_sweeps es s + 5 * tally rt_exec rt_skips es s"

lemma rt_tells_Cons: "rt_counts i e s (rt_exec e s) \<Longrightarrow> rt_tells i es (rt_exec e s) t \<Longrightarrow> rt_tells i (e # es) s t"
  by (simp add: rt_counts_def rt_tells_def rt_one_def algebra_simps split: if_splits)

lemma rt_run:
  assumes "rt_free i s" and "rte_active (rt_table s i)" and "\<forall>e \<in> set es. rt_spares i e"
  shows "(rt_runs i es s \<and> rt_tells i es s (fold rt_exec es s))
    \<or> (\<exists>es1 es2. es = es1 @ Rt_call False # es2 \<and> rt_runs i es1 s \<and> rt_tells i es1 s (fold rt_exec es1 s)
        \<and> rt_left i (fold rt_exec es1 s) = 0 \<and> rt_fired i (fold rt_exec es1 s) (fold rt_exec (es1 @ [Rt_call False]) s)
        \<and> \<not> rte_active (rt_table (fold rt_exec (es1 @ [Rt_call False]) s) i))"
  using assms
proof (induction es arbitrary: s)
  case Nil
  then show ?case by (simp add: rt_runs_def rt_tells_def)
next
  case (Cons e es)
  let ?t = "rt_exec e s"
  show ?case
  proof (cases "rt_fires i e s")
    case True
    note fires = rt_event_fires[OF Cons.prems(1,2) this]
    then have e: "e = Rt_call False" by blast
    from fires show ?thesis unfolding e
      using Cons.prems(2) by - (rule disjI2, rule exI[of _ "[]"], rule exI[of _ es], simp add: rt_runs_def rt_tells_def)
  next
    case False
    have st: "rt_free i ?t \<and> rte_active (rt_table ?t i) \<and> rt_counts i e s ?t"
      using rt_event_step[OF Cons.prems(1,2) _ False] Cons.prems(3) by simp
    note cons = rt_tells_Cons[OF conjunct2[OF conjunct2[OF st]]]
    have "\<forall>e \<in> set es. rt_spares i e" using Cons.prems(3) by simp
    from Cons.IH[OF conjunct1[OF st] conjunct1[OF conjunct2[OF st]] this] show ?thesis
    proof
      assume "rt_runs i es ?t \<and> rt_tells i es ?t (fold rt_exec es ?t)"
      then show ?thesis using Cons.prems(2) cons by (simp add: rt_runs_Cons)
    next
      assume "\<exists>es1 es2. es = es1 @ Rt_call False # es2 \<and> rt_runs i es1 ?t \<and> rt_tells i es1 ?t (fold rt_exec es1 ?t)
        \<and> rt_left i (fold rt_exec es1 ?t) = 0 \<and> rt_fired i (fold rt_exec es1 ?t) (fold rt_exec (es1 @ [Rt_call False]) ?t)
        \<and> \<not> rte_active (rt_table (fold rt_exec (es1 @ [Rt_call False]) ?t) i)"
      then obtain es1 es2 where es: "es = es1 @ Rt_call False # es2" "rt_runs i es1 ?t" "rt_tells i es1 ?t (fold rt_exec es1 ?t)"
        "rt_left i (fold rt_exec es1 ?t) = 0" "rt_fired i (fold rt_exec es1 ?t) (fold rt_exec (es1 @ [Rt_call False]) ?t)"
        "\<not> rte_active (rt_table (fold rt_exec (es1 @ [Rt_call False]) ?t) i)" by blast
      then show ?thesis using Cons.prems(2) cons
        by - (rule disjI2, rule exI[of _ "e # es1"], rule exI[of _ es2], simp add: rt_runs_Cons)
    qed
  qed
qed

text \<open>The calls that do not sweep serve requests: two for a restart or stop, one for a set.\<close>

definition rt_load :: "rt_state \<Rightarrow> nat" where
  "rt_load s = 2 * length (rtf_clear s) + length (rtf_set s) + rt_one (rt_waitForWrite s)"

fun rt_brings :: "rt_event \<Rightarrow> nat" where
  "rt_brings (Rt_clear _) = 2"
| "rt_brings (Rt_set _) = 1"
| "rt_brings _ = 0"

definition is_rt_call :: "rt_event \<Rightarrow> bool" where
  "is_rt_call e \<longleftrightarrow> e \<in> {Rt_call False, Rt_call True}"

lemma rt_load_event:
  "rt_load (rt_exec e s) + rt_one (is_rt_call e) \<le> rt_load s + rt_one (rt_sweeps e s) + rt_brings e"
proof (cases e)
  case (Rt_call full)
  have visit: "rt_load ((rt_visit full i (s\<lparr>rt_position := n\<rparr>))\<lparr>rt_prevPosition := i\<rparr>) = rt_load s" for i n
    by (simp add: rt_load_def)
  consider (upd) "rt_waitForWrite s" "rrt_sessionID (rt_update s) \<noteq> rt_prevPosition s"
    | (fetch) "\<not> rt_waitForWrite s" "rtf_clear s \<noteq> []" | (serve) "rt_serving s" | (sweep) "rt_sweeping s"
    by (auto simp: rt_serving_def rt_sweeping_def)
  then show ?thesis
  proof cases
    case sweep
    then show ?thesis using visit by (simp add: Rt_call rt_sweep_call rt_sweeps_def rt_one_def)
  next
    case upd
    then show ?thesis by (simp add: Rt_call retransmit_timer_def rt_load_def rt_one_def Let_def)
  next
    case fetch
    then show ?thesis by (cases "rtf_clear s") (simp_all add: Rt_call retransmit_timer_def rt_load_def rt_one_def)
  next
    case serve
    then obtain q qs where "rtf_set s = q # qs" by (auto simp: rt_serving_def neq_Nil_conv)
    then show ?thesis using serve by (auto simp: Rt_call retransmit_timer_def rt_load_def rt_one_def rt_serving_def Let_def)
  qed
qed (simp_all add: rt_load_def is_rt_call_def rt_one_def)

lemma rt_calls_bound:
  "length (filter is_rt_call es) \<le> tally rt_exec rt_sweeps es s + rt_load s + sum_list (map rt_brings es)"
proof (induction es arbitrary: s)
  case (Cons e es)
  show ?case using Cons[of "rt_exec e s"] rt_load_event[of e s] by (simp add: rt_one_def split: if_splits)
qed simp

text \<open>C5. In every run in which the running timer of a session is not restarted or stopped, whatever is asked for the other sessions,
  the first thing that happens to it is that it fires: it stays active until then, and the firing call sends an event
  with the next retry number, or, at the fifth time-out in a row, releases the session and tells the application (the side that opened
  the connection if the SYN is what was lost, the receiving side otherwise). It fires after exactly its time in sweeping calls,
  \<open>rt_left\<close>, if nothing disturbs the sweep; each set request that makes the sweep skip five entries brings that forward by at most five
  calls or puts it off by at most one round, and so does each time that the sweep passes the expired timer with the event stream
  full. The calls that do not sweep are at most two for a restart or stop request and one for a set request.\<close>

theorem retransmit_timer_deadline:
  assumes "rt_free i s" and "rte_active (rt_table s i)" and "\<forall>e \<in> set es. rt_spares i e"
  shows "let n = rt_left i s; delays = (\<lambda>es. tally rt_exec rt_skips es s + tally rt_exec (rt_stalls i) es s)
    in (rt_runs i es s \<and> tally rt_exec rt_sweeps es s \<le> n + MAX_SESSIONS * delays es
      \<or> (\<exists>es1 es2. es = es1 @ Rt_call False # es2 \<and> rt_runs i es1 s
          \<and> n \<le> tally rt_exec rt_sweeps es1 s + 5 * tally rt_exec rt_skips es1 s
          \<and> tally rt_exec rt_sweeps es1 s \<le> n + MAX_SESSIONS * delays es1
          \<and> rt_fired i (fold rt_exec es1 s) (fold rt_exec (es1 @ [Rt_call False]) s)
          \<and> \<not> rte_active (rt_table (fold rt_exec (es1 @ [Rt_call False]) s) i)))
     \<and> length (filter is_rt_call es) \<le> tally rt_exec rt_sweeps es s + rt_load s + sum_list (map rt_brings es)"
proof -
  have *: "rt_tells i es s t \<Longrightarrow> rt_left i s \<le> rt_left i t + tally rt_exec rt_sweeps es s + 5 * tally rt_exec rt_skips es s
      \<and> tally rt_exec rt_sweeps es s \<le> rt_left i s + MAX_SESSIONS * (tally rt_exec rt_skips es s + tally rt_exec (rt_stalls i) es s)"
    for es t by (simp add: rt_tells_def)
  from rt_run[OF assms] show ?thesis
  proof
    assume "rt_runs i es s \<and> rt_tells i es s (fold rt_exec es s)"
    then show ?thesis using * rt_calls_bound[of es s] unfolding Let_def by blast
  next
    assume "\<exists>es1 es2. es = es1 @ Rt_call False # es2 \<and> rt_runs i es1 s \<and> rt_tells i es1 s (fold rt_exec es1 s)
        \<and> rt_left i (fold rt_exec es1 s) = 0 \<and> rt_fired i (fold rt_exec es1 s) (fold rt_exec (es1 @ [Rt_call False]) s)
        \<and> \<not> rte_active (rt_table (fold rt_exec (es1 @ [Rt_call False]) s) i)"
    then obtain es1 es2 where es: "es = es1 @ Rt_call False # es2" "rt_runs i es1 s" "rt_tells i es1 s (fold rt_exec es1 s)"
      "rt_left i (fold rt_exec es1 s) = 0" "rt_fired i (fold rt_exec es1 s) (fold rt_exec (es1 @ [Rt_call False]) s)"
      "\<not> rte_active (rt_table (fold rt_exec (es1 @ [Rt_call False]) s) i)" by blast
    then show ?thesis using *[OF es(3)] rt_calls_bound[of es s] unfolding Let_def es(4) add_0 by blast
  qed
qed

definition rt_ex :: rt_state where
  "rt_ex = rt_init\<lparr>rt_table := (\<lambda>_. rt_entry0)(5 := \<lparr>rte_time = 0, rte_retries = 4,
     rte_active = True, rte_type = SYN\<rparr>), rt_position := 4\<rparr>"

definition rt_run_ex :: "rt_event list" where
  "rt_run_ex = [Rt_clear \<lparr>rrt_sessionID = 9, rrt_stop = True\<rparr>, Rt_set \<lparr>trs_sessionID = 900, trs_type = TX\<rparr>]
     @ [Rt_call False, Rt_call False, Rt_call False, Rt_call False, Rt_call False]"

lemma retransmit_timer_deadline_witness:
  "\<exists>es1 es2. rt_run_ex = es1 @ Rt_call False # es2 \<and> rt_runs 5 es1 rt_ex
     \<and> rt_fired 5 (fold rt_exec es1 rt_ex) (fold rt_exec (es1 @ [Rt_call False]) rt_ex)"
proof -
  have free: "rt_free 5 rt_ex" "rte_active (rt_table rt_ex 5)" "\<forall>e \<in> set rt_run_ex. rt_spares 5 e"
    by (simp_all add: rt_free_def rt_ex_def rt_init_def rt_spares_def rt_run_ex_def MAX_SESSIONS_def)
  have "\<not> rte_active (rt_table (fold rt_exec rt_run_ex rt_ex) 5)"
    by (simp add: rt_run_ex_def rt_ex_def rt_init_def retransmit_timer_def rt_visit_def rt_applyUpdate_def rt_applySet_def
        rt_entry0_def Let_def MAX_SESSIONS_def)
  then have "\<not> rt_runs 5 rt_run_ex rt_ex" by (auto simp: rt_runs_def intro!: exI[of _ "length rt_run_ex"])
  then show ?thesis using retransmit_timer_deadline[OF free] unfolding Let_def by blast
qed

text \<open>The retry counter over all runs, whatever the engines ask for.\<close>

definition rt_inv :: "rt_state \<Rightarrow> bool" where
  "rt_inv s \<longleftrightarrow> (\<forall>i. rte_retries (rt_table s i) \<le> 4)
             \<and> (\<forall>e \<in> set (rtf_event s). 1 \<le> ev_rt_count e \<and> ev_rt_count e \<le> 4)"

lemma rt_inv_upd:
  "rt_inv s \<Longrightarrow> rte_retries e \<le> 4 \<Longrightarrow> rt_inv (s\<lparr>rt_table := (rt_table s)(i := e)\<rparr>)"
  by (simp add: rt_inv_def)

lemma retries_Suc: "r < 4 \<Longrightarrow> 1 \<le> r + 1 \<and> r + 1 \<le> (4 :: 3 word)"
  by (auto simp: word_le_nat_alt word_less_nat_alt unat_add_mod)

lemma rt_inv_visit: "rt_inv s \<Longrightarrow> rt_inv (rt_visit full i s)"
  using retries_Suc[of "rte_retries (rt_table s i)"]
  by (auto simp: rt_inv_def rt_visit_def Let_def event3_def)

lemma rt_inv_call: "rt_inv s \<Longrightarrow> rt_inv (retransmit_timer full s)"
proof -
  assume inv: "rt_inv s"
  have upd: "rt_inv (s\<lparr>rt_table := (rt_table s)(i := rt_applyUpdate u (rt_table s i)),
      rt_waitForWrite := w\<rparr>)" for i u w
    using inv by (simp add: rt_inv_def rt_applyUpdate_def Let_def)
  have set: "rt_inv (s\<lparr>rtf_set := q, rt_position := p,
      rt_table := (rt_table s)(i := rt_applySet ty (rt_table s i)), rt_prevPosition := i\<rparr>)" for i q p ty
    using inv by (simp add: rt_inv_def rt_applySet_def Let_def)
  have visit: "rt_inv ((rt_visit full i (s\<lparr>rt_position := n\<rparr>))\<lparr>rt_prevPosition := i\<rparr>)" for i n
    using rt_inv_visit[of "s\<lparr>rt_position := n\<rparr>" full i] inv by (simp add: rt_inv_def)
  have take: "rt_inv (s\<lparr>rt_update := u, rtf_clear := c, rt_waitForWrite := True\<rparr>)" for u c
    using inv by (simp add: rt_inv_def)
  show ?thesis
    unfolding retransmit_timer_def Let_def
    by (simp only: upd set visit take if_split simp_thms)
qed

lemma rt_inv_exec [toe_inv]: "rt_inv s \<Longrightarrow> rt_inv (rt_exec e s)"
  by (cases e) (simp_all add: rt_inv_call, auto simp: rt_inv_def)

interpretation rtr: reactive rt_exec rt_inv "\<lambda>_. True"
  by unfold_locales (rule rt_inv_exec)

text \<open>C6. Whatever the engines ask for, a session never counts more than four time-outs in a row, and
  every retransmission event carries a count between 1 and 4.\<close>

theorem retransmit_count_bounded:
  "rte_retries (rt_table (fold rt_exec es rt_init) i) \<le> 4
   \<and> list_all (\<lambda>e. 1 \<le> ev_rt_count e \<and> ev_rt_count e \<le> 4) (rtf_event (fold rt_exec es rt_init))"
proof -
  have "rt_inv rt_init" by (simp add: rt_inv_def rt_init_def rt_entry0_def)
  from rtr.inv_run[OF this, of es] show ?thesis by (simp add: rt_inv_def list_all_iff)
qed

text \<open>The intervals grow with the number of time-outs in a row.\<close>

lemma rt_interval_mono: "r \<le> r' \<Longrightarrow> rt_interval r \<le> rt_interval r'"
proof -
  assume "r \<le> r'"
  then have "unat r \<le> unat r'" by (simp add: word_le_nat_alt)
  then show ?thesis
    unfolding rt_interval_def TIME_1s_def TIME_5s_def TIME_10s_def TIME_15s_def TIME_30s_def
    by (auto simp: word_unat_eq_iff)
qed

lemma rt_idle_run: "n < MAX_SESSIONS \<Longrightarrow> rt_position ((retransmit_timer False ^^ n) rt_init) = of_nat n
   \<and> rt_ok 0 ((retransmit_timer False ^^ n) rt_init)
   \<and> (\<forall>i. \<not> rte_active (rt_table ((retransmit_timer False ^^ n) rt_init) i))"
proof (induction n)
  case 0
  then show ?case by (simp add: rt_init_def rt_ok_def rt_entry0_def MAX_SESSIONS_def)
next
  case (Suc n)
  let ?s = "(retransmit_timer False ^^ n) rt_init"
  have IH: "rt_position ?s = of_nat n" "rt_ok 0 ?s" "\<forall>i. \<not> rte_active (rt_table ?s i)"
    using Suc by simp_all
  have u: "unat (of_nat n :: sid) = n"
    using Suc.prems by (simp add: unat_of_nat MAX_SESSIONS_def)
  then have "unat (of_nat n + 1 :: sid) \<noteq> MAX_SESSIONS"
    using Suc.prems unat_sid_Suc[of "of_nat n"] by simp
  then have nxt: "sweep_next (of_nat n) = of_nat (Suc n)" by (simp add: sweep_next_def)
  have "retransmit_timer False ?s
      = ?s\<lparr>rt_position := of_nat (Suc n), rt_prevPosition := of_nat n\<rparr>"
    using IH(1,3) by (simp only: rt_idle_call[OF IH(2)] nxt rt_visit_def Let_def) simp
  then show ?case using IH rt_ok_call[OF IH(2), of False] by simp
qed

lemma rt_overrun_step:
  assumes "rt_ok 0 t" and "rt_position t = 999"
  defines "s1 \<equiv> retransmit_timer False (t\<lparr>rtf_set := [\<lparr>trs_sessionID = 999, trs_type = SYN\<rparr>]\<rparr>)"
  shows "rt_position s1 = 1004 \<and> rt_prevPosition (retransmit_timer False s1) = 1004"
proof -
  have "s1 = t\<lparr>rtf_set := [], rt_position := 1004,
       rt_table := (rt_table t)(999 := rt_applySet SYN (rt_table t 999)), rt_prevPosition := 999\<rparr>"
    using assms(1,2) unfolding s1_def by (simp add: retransmit_timer_def rt_ok_def Let_def)
  then show ?thesis using assms(1) by (simp add: retransmit_timer_def rt_ok_def Let_def)
qed

text \<open>The sweep position leaves the table: after 999 idle calls a SYN timer for session 999 makes
  the process add 5 to the position without the wrap that the idle path has, and the next idle
  call visits entry 1004 of a table of 1000.\<close>

lemma rt_position_overrun:
  "let s = ((retransmit_timer False ^^ 999) rt_init)\<lparr>rtf_set := [\<lparr>trs_sessionID = 999, trs_type = SYN\<rparr>]\<rparr>;
       s1 = retransmit_timer False s; s2 = retransmit_timer False s1
   in unat (rt_position s) < MAX_SESSIONS \<and> rt_position s1 = 1004 \<and> rt_prevPosition s2 = 1004"
proof -
  define t where "t = (retransmit_timer False ^^ 999) rt_init"
  have "rt_position t = 999" "rt_ok 0 t"
    using rt_idle_run[of 999, folded t_def] by (simp_all add: MAX_SESSIONS_def)
  then show ?thesis using rt_overrun_step[of t]
    unfolding t_def[symmetric] by (simp add: Let_def MAX_SESSIONS_def)
qed

subsection \<open>The probe timer's deadline\<close>

definition pt_ok :: "sid \<Rightarrow> pt_state \<Rightarrow> bool" where
  "pt_ok i s \<longleftrightarrow> \<not> pt_WaitForWrite s \<and> ptf_set s = [] \<and> ptf_clear s = []
              \<and> unat (pt_currSessionID s) < MAX_SESSIONS \<and> unat i < MAX_SESSIONS"

definition pt_rank :: "sid \<Rightarrow> pt_state \<Rightarrow> nat" where
  "pt_rank i s = sweep_rank (pt_table s i) (pt_currSessionID s) i"

lemma pt_idle_call:
  "pt_ok i s \<Longrightarrow> probe_timer full s =
     (pt_visit full False (pt_currSessionID s) (s\<lparr>pt_currSessionID := sweep_next (pt_currSessionID s)\<rparr>))
       \<lparr>pt_prevSessionID := pt_currSessionID s\<rparr>"
  by (simp add: pt_ok_def probe_timer_def Let_def)

lemma pt_visit_frame [simp]:
  "pt_WaitForWrite (pt_visit full fast p s) = pt_WaitForWrite s"
  "ptf_set (pt_visit full fast p s) = ptf_set s" "ptf_clear (pt_visit full fast p s) = ptf_clear s"
  "pt_currSessionID (pt_visit full fast p s) = pt_currSessionID s"
  "p \<noteq> i \<Longrightarrow> pt_table (pt_visit full fast p s) i = pt_table s i"
  by (simp_all add: pt_visit_def Let_def)

lemma pt_ok_call: "pt_ok i s \<Longrightarrow> pt_ok i (probe_timer full s)"
  by (simp add: pt_idle_call, simp add: pt_ok_def sweep_next_lt)

lemma pt_rank_call:
  assumes "pt_ok i s" and "0 < pt_rank i s"
  shows "pt_rank i s = Suc (pt_rank i (probe_timer False s))"
proof -
  have act: "te_active (pt_table s i)"
    using assms(2) by (simp add: pt_rank_def sweep_rank_def split: if_splits)
  have lt: "unat (pt_currSessionID s) < MAX_SESSIONS" "unat i < MAX_SESSIONS"
    using assms(1) by (simp_all add: pt_ok_def)
  show ?thesis
  proof (cases "pt_currSessionID s = i")
    case True
    then show ?thesis
      using act sweep_rank_visit[of i "pt_table s i"] lt
      by (cases "te_time (pt_table s i) = 0")
        (simp_all add: pt_idle_call[OF assms(1)] pt_rank_def pt_visit_def Let_def
          word_greater_zero_iff sweep_rank_def sweep_dist_def)
  next
    case False
    then show ?thesis
      using act sweep_rank_other[OF lt, of "pt_table s i"]
      by (simp add: pt_idle_call[OF assms(1)] pt_rank_def)
  qed
qed

interpretation pt: countdown "probe_timer False" "pt_rank i" "pt_ok i" for i
  by unfold_locales (rule pt_ok_call, assumption, rule pt_rank_call, assumption+)

lemma pt_fires:
  "pt_ok i s \<Longrightarrow> pt_rank i s = 1 \<Longrightarrow> ptf_event (probe_timer False s) = ptf_event s @ [event2 RT i]"
  using sweep_rank_one[of "pt_currSessionID s" "pt_table s i" i]
  by (simp add: pt_rank_def pt_idle_call pt_visit_def Let_def) (simp add: pt_ok_def)

text \<open>A running probe timer that is not touched, with room in its event stream, sends its
  retransmission event after exactly its time in sweeps, and not earlier.\<close>

theorem probe_timer_deadline:
  assumes "pt_ok i s" and "te_active (pt_table s i)"
  defines "n \<equiv> unat (te_time (pt_table s i)) * MAX_SESSIONS + sweep_dist (pt_currSessionID s) i"
  shows "(\<forall>m \<le> n. te_active (pt_table ((probe_timer False ^^ m) s) i))
       \<and> ptf_event ((probe_timer False ^^ Suc n) s) = ptf_event ((probe_timer False ^^ n) s) @ [event2 RT i]
       \<and> \<not> te_active (pt_table ((probe_timer False ^^ Suc n) s) i)"
proof (intro conjI allI impI)
  have n: "pt_rank i s = Suc n" using assms(2) by (simp add: pt_rank_def sweep_rank_def n_def)
  show "te_active (pt_table ((probe_timer False ^^ m) s) i)" if "m \<le> n" for m
    using pt.rank_calls[OF assms(1), of m] that n
    by (auto simp: pt_rank_def sweep_rank_def split: if_splits)
  obtain t where "pt_ok i t" "pt_rank i t = 1" "(probe_timer False ^^ Suc n) s = probe_timer False t"
    "t = (probe_timer False ^^ n) s"
    using pt.last_call[OF assms(1)] n by auto
  then show "ptf_event ((probe_timer False ^^ Suc n) s)
      = ptf_event ((probe_timer False ^^ n) s) @ [event2 RT i]"
    using pt_fires by simp
  show "\<not> te_active (pt_table ((probe_timer False ^^ Suc n) s) i)"
    using pt.rank_calls[OF assms(1), of "Suc n"] n
    by (simp add: pt_rank_def sweep_rank_def split: if_splits)
qed

definition pt_ex :: pt_state where
  "pt_ex = pt_init\<lparr>pt_table := (\<lambda>_. timer_entry0)(5 := \<lparr>te_time = TIME_50ms, te_active = True\<rparr>)\<rparr>"

lemma probe_timer_deadline_witness:
  "te_active (pt_table ((probe_timer False ^^ 7813005) pt_ex) 5)
   \<and> \<not> te_active (pt_table ((probe_timer False ^^ Suc 7813005) pt_ex) 5)"
  using probe_timer_deadline[of 5 pt_ex]
  by (simp add: pt_ex_def pt_init_def pt_ok_def MAX_SESSIONS_def TIME_50ms_def sweep_dist_def
      del: funpow.simps)

end
