(* ===== verification/Event_Engine.thy ===== *)
theory Event_Engine
  imports Timers
begin

text \<open>
  \<^verbatim>\<open>toe/event_engine/event_engine.cpp\<close> and \<^verbatim>\<open>toe/ack_delay/ack_delay.cpp\<close>. The event engine
  merges the events of the receive engine, of the timers and of the application; it passes an
  event of the last two on only when all that it sent before has left both the stream to
  \<^verbatim>\<open>ack_delay\<close> and the stream from there to the transmit engine, which it knows from four 8-bit
  counters. \<^verbatim>\<open>ack_delay\<close> holds back a first ACK of a session until a second one or a time-out.

  The lemmas put the two processes together with the streams between them: what the counters
  mean over all runs, what that guard guarantees, and the deadline of a delayed ACK.
\<close>

subsection \<open>Event engine\<close>

record ee_state =
  ee_writeCounter :: "8 word"
  ee_adReadCounter :: "8 word"
  ee_adWriteCounter :: "8 word"
  ee_txEngReadCounter :: "8 word"
  eef_txApp :: "event fifo"
  eef_rxEng :: "extendedEvent fifo"
  eef_timer :: "event fifo"
  eef_out :: "extendedEvent fifo"
  eef_adReadCount :: "unit fifo"
  eef_adWriteCount :: "unit fifo"
  eef_txEngReadCount :: "unit fifo"

text \<open>A write to the event stream with the counter that goes with it.\<close>

definition ee_send :: "extendedEvent \<Rightarrow> ee_state \<Rightarrow> ee_state" where
  "ee_send ev s = s\<lparr>eef_out := eef_out s @ [ev], ee_writeCounter := ee_writeCounter s + 1\<rparr>"

definition ee_quiet :: "ee_state \<Rightarrow> bool" where
  "ee_quiet s \<longleftrightarrow> ee_writeCounter s = ee_adReadCounter s \<and> ee_adWriteCounter s = ee_txEngReadCounter s"

definition ee_arbitrate :: "bool \<Rightarrow> ee_state \<Rightarrow> ee_state" where
  "ee_arbitrate full s =
    (if eef_rxEng s \<noteq> [] \<and> \<not> full then
       ee_send (hd (eef_rxEng s)) (s\<lparr>eef_rxEng := tl (eef_rxEng s)\<rparr>)
     else if ee_quiet s then
       (if eef_timer s \<noteq> [] then
          ee_send (extendedEvent1 (hd (eef_timer s))) (s\<lparr>eef_timer := tl (eef_timer s)\<rparr>)
        else if eef_txApp s \<noteq> [] then
          ee_send (extendedEvent1 (hd (eef_txApp s))) (s\<lparr>eef_txApp := tl (eef_txApp s)\<rparr>)
        else s)
     else s)"

definition ee_count :: "ee_state \<Rightarrow> ee_state" where
  "ee_count s =
    (let s = (if eef_adReadCount s \<noteq> []
              then s\<lparr>eef_adReadCount := tl (eef_adReadCount s),
                     ee_adReadCounter := ee_adReadCounter s + 1\<rparr> else s);
         s = (if eef_adWriteCount s \<noteq> []
              then s\<lparr>eef_adWriteCount := tl (eef_adWriteCount s),
                     ee_adWriteCounter := ee_adWriteCounter s + 1\<rparr> else s) in
     if eef_txEngReadCount s \<noteq> []
     then s\<lparr>eef_txEngReadCount := tl (eef_txEngReadCount s),
            ee_txEngReadCounter := ee_txEngReadCounter s + 1\<rparr> else s)"

definition event_engine :: "bool \<Rightarrow> ee_state \<Rightarrow> ee_state" where
  "event_engine full s = ee_count (ee_arbitrate full s)"

subsection \<open>ACK delay\<close>

record ad_state =
  ack_table :: "sid \<Rightarrow> 12 word"
  ad_pointer :: sid
  adf_input :: "extendedEvent fifo"
  adf_output :: "extendedEvent fifo"
  adf_readCount :: "unit fifo"
  adf_writeCount :: "unit fifo"

definition ad_write :: "extendedEvent \<Rightarrow> ad_state \<Rightarrow> ad_state" where
  "ad_write ev s = s\<lparr>adf_output := adf_output s @ [ev], adf_writeCount := adf_writeCount s @ [()]\<rparr>"

definition ack_delay :: "bool \<Rightarrow> ad_state \<Rightarrow> ad_state" where
  "ack_delay full s =
    (if adf_input s \<noteq> [] then
       (let ev = hd (adf_input s); i = ev_sessionID ev;
            s = s\<lparr>adf_input := tl (adf_input s), adf_readCount := adf_readCount s @ [()]\<rparr> in
        if ev_type ev = ACK \<and> ack_table s i = 0
        then s\<lparr>ack_table := (ack_table s)(i := ucast TIME_64us)\<rparr>
        else ad_write ev (s\<lparr>ack_table := (ack_table s)(i := 0)\<rparr>))
     else
       (let p = ad_pointer s;
            s = (if 0 < ack_table s p \<and> \<not> full then
                   (let s = (if ack_table s p = 1 then ad_write (extendedEvent1 (event2 ACK p)) s else s) in
                    s\<lparr>ack_table := (ack_table s)(p := ack_table s p - 1)\<rparr>)
                 else s) in
        s\<lparr>ad_pointer := sweep_next p\<rparr>))"

subsection \<open>The two processes with the streams between them\<close>

record evs_state =
  evs_ee :: ee_state
  evs_ad :: ad_state

text \<open>
  The steps: a call of either process on the shared streams, a new event at an input, and the
  transmit engine taking an event (it then writes its read count).
\<close>

datatype evs_event =
    Evs_engine bool
  | Evs_delay bool
  | Evs_rx extendedEvent
  | Evs_timer event
  | Evs_app event
  | Evs_txEngTake

definition evs_engine :: "bool \<Rightarrow> evs_state \<Rightarrow> evs_state" where
  "evs_engine full s =
    (let e = event_engine full ((evs_ee s)\<lparr>eef_out := adf_input (evs_ad s),
               eef_adReadCount := adf_readCount (evs_ad s),
               eef_adWriteCount := adf_writeCount (evs_ad s)\<rparr>) in
     s\<lparr>evs_ee := e, evs_ad := (evs_ad s)\<lparr>adf_input := eef_out e,
         adf_readCount := eef_adReadCount e, adf_writeCount := eef_adWriteCount e\<rparr>\<rparr>)"

fun evs_exec :: "evs_event \<Rightarrow> evs_state \<Rightarrow> evs_state" where
  "evs_exec (Evs_engine full) s = evs_engine full s"
| "evs_exec (Evs_delay full) s = s\<lparr>evs_ad := ack_delay full (evs_ad s)\<rparr>"
| "evs_exec (Evs_rx ev) s = s\<lparr>evs_ee := (evs_ee s)\<lparr>eef_rxEng := eef_rxEng (evs_ee s) @ [ev]\<rparr>\<rparr>"
| "evs_exec (Evs_timer ev) s = s\<lparr>evs_ee := (evs_ee s)\<lparr>eef_timer := eef_timer (evs_ee s) @ [ev]\<rparr>\<rparr>"
| "evs_exec (Evs_app ev) s = s\<lparr>evs_ee := (evs_ee s)\<lparr>eef_txApp := eef_txApp (evs_ee s) @ [ev]\<rparr>\<rparr>"
| "evs_exec Evs_txEngTake s =
    (if adf_output (evs_ad s) = [] then s else
     s\<lparr>evs_ad := (evs_ad s)\<lparr>adf_output := tl (adf_output (evs_ad s))\<rparr>,
       evs_ee := (evs_ee s)\<lparr>eef_txEngReadCount := eef_txEngReadCount (evs_ee s) @ [()]\<rparr>\<rparr>)"

definition evs_init :: evs_state where
  "evs_init = \<lparr>evs_ee = \<lparr>ee_writeCounter = 0, ee_adReadCounter = 0, ee_adWriteCounter = 0,
       ee_txEngReadCounter = 0, eef_txApp = [], eef_rxEng = [], eef_timer = [], eef_out = [],
       eef_adReadCount = [], eef_adWriteCount = [], eef_txEngReadCount = []\<rparr>,
     evs_ad = \<lparr>ack_table = (\<lambda>_. 0), ad_pointer = 0, adf_input = [], adf_output = [],
       adf_readCount = [], adf_writeCount = []\<rparr>\<rparr>"

subsection \<open>What the counters count\<close>

text \<open>Up to the 8 bits of the counters: what was sent is read or still on its way.\<close>

definition evs_inv :: "evs_state \<Rightarrow> bool" where
  "evs_inv s \<longleftrightarrow>
    (let e = evs_ee s; a = evs_ad s in
     ee_writeCounter e = ee_adReadCounter e
       + of_nat (length (adf_input a) + length (adf_readCount a))
     \<and> ee_adWriteCounter e + of_nat (length (adf_writeCount a)) = ee_txEngReadCounter e
       + of_nat (length (adf_output a) + length (eef_txEngReadCount e)))"

lemma of_nat_length_tl: "xs \<noteq> [] \<Longrightarrow> (of_nat (length xs) :: 8 word) = of_nat (length (tl xs)) + 1"
  by (cases xs) simp_all

lemma ee_arbitrate_frame:
  obtains (send) ev where "eef_out (ee_arbitrate full s) = eef_out s @ [ev]"
      "ee_writeCounter (ee_arbitrate full s) = ee_writeCounter s + 1"
  | (skip) "eef_out (ee_arbitrate full s) = eef_out s"
      "ee_writeCounter (ee_arbitrate full s) = ee_writeCounter s"
  by (cases "eef_rxEng s \<noteq> [] \<and> \<not> full"; cases "ee_quiet s"; cases "eef_timer s"; cases "eef_txApp s")
    (simp_all add: ee_arbitrate_def ee_send_def)

lemma ee_arbitrate_rest [simp]:
  "ee_adReadCounter (ee_arbitrate full s) = ee_adReadCounter s"
  "ee_adWriteCounter (ee_arbitrate full s) = ee_adWriteCounter s"
  "ee_txEngReadCounter (ee_arbitrate full s) = ee_txEngReadCounter s"
  "eef_adReadCount (ee_arbitrate full s) = eef_adReadCount s"
  "eef_adWriteCount (ee_arbitrate full s) = eef_adWriteCount s"
  "eef_txEngReadCount (ee_arbitrate full s) = eef_txEngReadCount s"
  by (simp_all add: ee_arbitrate_def ee_send_def)

lemma ee_count_fields:
  "eef_out (ee_count s) = eef_out s" "ee_writeCounter (ee_count s) = ee_writeCounter s"
  "ee_adReadCounter (ee_count s) + of_nat (length (eef_adReadCount (ee_count s)))
     = ee_adReadCounter s + of_nat (length (eef_adReadCount s))"
  "ee_adWriteCounter (ee_count s) + of_nat (length (eef_adWriteCount (ee_count s)))
     = ee_adWriteCounter s + of_nat (length (eef_adWriteCount s))"
  "ee_txEngReadCounter (ee_count s) + of_nat (length (eef_txEngReadCount (ee_count s)))
     = ee_txEngReadCounter s + of_nat (length (eef_txEngReadCount s))"
  by (simp_all add: ee_count_def Let_def of_nat_length_tl)

lemma evs_inv_engine: "evs_inv s \<Longrightarrow> evs_inv (evs_engine full s)"
proof -
  assume inv: "evs_inv s"
  let ?e0 = "(evs_ee s)\<lparr>eef_out := adf_input (evs_ad s), eef_adReadCount := adf_readCount (evs_ad s),
               eef_adWriteCount := adf_writeCount (evs_ad s)\<rparr>"
  let ?e1 = "ee_arbitrate full ?e0"
  have *: "ee_writeCounter ?e1 + of_nat (length (eef_out ?e0))
         = ee_writeCounter ?e0 + of_nat (length (eef_out ?e1))"
    by (rule ee_arbitrate_frame[of full ?e0]) simp_all
  show ?thesis
    using inv * ee_count_fields[of ?e1]
    unfolding evs_inv_def evs_engine_def event_engine_def Let_def
    by (simp add: algebra_simps)
qed

lemma ad_counts:
  "length (adf_input (ack_delay full a)) + length (adf_readCount (ack_delay full a))
     = length (adf_input a) + length (adf_readCount a)"
  "length (adf_output (ack_delay full a)) + length (adf_writeCount a)
     = length (adf_output a) + length (adf_writeCount (ack_delay full a))"
  by (cases "adf_input a"; simp add: ack_delay_def ad_write_def Let_def)+

lemma sum_exchange:
  fixes x :: "'a::ab_group_add"
  assumes "b' + w = b + w'" and "x + w = r + (b + t)"
  shows "x + w' = r + (b' + t)"
proof -
  have x: "x = r + (b + t) - w" using assms(2) by (simp add: eq_diff_eq)
  have b': "b' = b + w' - w" using assms(1) by (simp add: eq_diff_eq)
  show ?thesis unfolding x b' by (simp add: algebra_simps)
qed

lemma evs_inv_delay: "evs_inv s \<Longrightarrow> evs_inv (s\<lparr>evs_ad := ack_delay full (evs_ad s)\<rparr>)"
proof -
  let ?a = "evs_ad s" and ?b = "ack_delay full (evs_ad s)" and ?s = "s\<lparr>evs_ad := ack_delay full (evs_ad s)\<rparr>"
  have f: "evs_ad ?s = ?b" "evs_ee ?s = evs_ee s" by simp_all
  have "(of_nat (length (adf_output ?b)) :: 8 word) + of_nat (length (adf_writeCount ?a))
      = of_nat (length (adf_output ?a)) + of_nat (length (adf_writeCount ?b))"
    by (simp only: ad_counts flip: of_nat_add)
  from sum_exchange[OF this] show "evs_inv s \<Longrightarrow> ?thesis"
    unfolding evs_inv_def Let_def f ad_counts(1) of_nat_add[of "length (adf_output _)"] by blast
qed

lemma evs_inv_take: "evs_inv s \<Longrightarrow> evs_inv (evs_exec Evs_txEngTake s)"
  by (cases "adf_output (evs_ad s)") (simp_all add: evs_inv_def Let_def algebra_simps)

lemma evs_inv_exec [toe_inv]: "evs_inv s \<Longrightarrow> evs_inv (evs_exec e s)"
proof (cases e)
  case (Evs_engine full)
  then show "evs_inv s \<Longrightarrow> ?thesis" by (simp add: evs_inv_engine)
next
  case (Evs_delay full)
  then show "evs_inv s \<Longrightarrow> ?thesis" by (simp add: evs_inv_delay)
next
  case Evs_txEngTake
  then show "evs_inv s \<Longrightarrow> ?thesis" using evs_inv_take by blast
qed (simp_all add: evs_inv_def Let_def)

interpretation evs: reactive evs_exec evs_inv "\<lambda>_. True"
  by unfold_locales (rule evs_inv_exec)

lemma of_nat8_eq:
  assumes "(of_nat a :: 8 word) = of_nat b" and "a < 256" and "b < 256"
  shows "a = b"
proof -
  have "unat (of_nat a :: 8 word) = unat (of_nat b :: 8 word)" using assms(1) by simp
  then show ?thesis using assms(2,3) by (simp add: unat_of_nat)
qed

text \<open>Whenever the guard of the event engine lets an event of a timer or of the application
  pass, in any run in which the streams hold less than 256 items, the stream to \<^verbatim>\<open>ack_delay\<close> is
  empty, and the stream to the transmit engine holds no event whose count has been read.\<close>

lemma event_guard_streams:
  assumes "s = fold evs_exec es evs_init" and "ee_quiet (evs_ee s)"
    and "length (adf_input (evs_ad s)) + length (adf_readCount (evs_ad s)) < 256"
    and "length (adf_output (evs_ad s)) + length (eef_txEngReadCount (evs_ee s)) < 256"
    and "length (adf_writeCount (evs_ad s)) < 256"
  shows "adf_input (evs_ad s) = [] \<and> adf_readCount (evs_ad s) = []
       \<and> length (adf_output (evs_ad s)) + length (eef_txEngReadCount (evs_ee s))
         = length (adf_writeCount (evs_ad s))"
proof -
  have "evs_inv evs_init" by (simp add: evs_inv_def evs_init_def Let_def)
  from evs.inv_run[OF this, of es] have inv: "evs_inv s" using assms(1) by simp
  have "(of_nat (length (adf_input (evs_ad s)) + length (adf_readCount (evs_ad s))) :: 8 word) = of_nat 0"
    using inv assms(2) by (simp add: evs_inv_def ee_quiet_def Let_def)
  then have 1: "length (adf_input (evs_ad s)) + length (adf_readCount (evs_ad s)) = 0"
    by (rule of_nat8_eq) (use assms in simp_all)
  have "(of_nat (length (adf_output (evs_ad s)) + length (eef_txEngReadCount (evs_ee s))) :: 8 word)
      = of_nat (length (adf_writeCount (evs_ad s)))"
    using inv assms(2) unfolding evs_inv_def ee_quiet_def Let_def by (metis add_left_cancel)
  then have 2: "length (adf_output (evs_ad s)) + length (eef_txEngReadCount (evs_ee s))
      = length (adf_writeCount (evs_ad s))"
    by (rule of_nat8_eq) (use assms in simp_all)
  show ?thesis using 1 2 by simp
qed

definition evs_ex :: "evs_event list" where
  "evs_ex = [Evs_app (event2 TX 4), Evs_rx (extendedEvent1 (event2 SYN 3)), Evs_engine False,
     Evs_delay False, Evs_engine False, Evs_txEngTake, Evs_engine False]"

lemmas evs_eval = evs_ex_def evs_init_def evs_engine_def event_engine_def ee_arbitrate_def
  ee_send_def ee_count_def ee_quiet_def ack_delay_def ad_write_def Let_def event2_def
  extendedEvent1_def event.defs

lemma event_guard_streams_witness:
  "adf_input (evs_ad (fold evs_exec evs_ex evs_init)) = []
   \<and> eef_txApp (evs_ee (fold evs_exec evs_ex evs_init)) \<noteq> []"
  using event_guard_streams[OF refl, of evs_ex] by (simp add: evs_eval)

subsection \<open>A delayed ACK is sent\<close>

definition ad_ok :: "sid \<Rightarrow> ad_state \<Rightarrow> bool" where
  "ad_ok i s \<longleftrightarrow> adf_input s = [] \<and> unat (ad_pointer s) < MAX_SESSIONS \<and> unat i < MAX_SESSIONS"

definition ad_rank :: "sid \<Rightarrow> ad_state \<Rightarrow> nat" where
  "ad_rank i s = (if ack_table s i = 0 then 0
                  else (unat (ack_table s i) - 1) * MAX_SESSIONS + sweep_dist (ad_pointer s) i + 1)"

lemma ad_idle_call:
  "ad_ok i s \<Longrightarrow> ack_delay False s =
     (let p = ad_pointer s; v = ack_table s p;
          s = (if v = 1 then ad_write (extendedEvent1 (event2 ACK p)) s else s);
          s = (if v = 0 then s else s\<lparr>ack_table := (ack_table s)(p := v - 1)\<rparr>) in
      s\<lparr>ad_pointer := sweep_next p\<rparr>)"
  by (auto simp: ad_ok_def ack_delay_def Let_def ad_write_def word_greater_zero_iff)

lemma ad_ok_call: "ad_ok i s \<Longrightarrow> ad_ok i (ack_delay False s)"
  by (simp add: ad_idle_call Let_def ad_write_def) (simp add: ad_ok_def sweep_next_lt)

lemma ad_rank_call:
  assumes "ad_ok i s" and "0 < ad_rank i s"
  shows "ad_rank i s = Suc (ad_rank i (ack_delay False s))"
proof -
  let ?v = "ack_table s i"
  have v: "?v \<noteq> 0" using assms(2) by (auto simp: ad_rank_def)
  have lt: "unat (ad_pointer s) < MAX_SESSIONS" "unat i < MAX_SESSIONS"
    using assms(1) by (simp_all add: ad_ok_def)
  show ?thesis
  proof (cases "ad_pointer s = i")
    case False
    then show ?thesis using v sweep_dist_next(1)[OF lt False]
      by (simp add: ad_idle_call[OF assms(1)] ad_rank_def Let_def ad_write_def)
  next
    case True
    have p: "unat ?v = Suc (unat (?v - 1))" using v by (intro unat_pred) (simp add: word_greater_zero_iff)
    show ?thesis
    proof (cases "?v = 1")
      case one: True
      then show ?thesis using v True sweep_dist_next(2)[OF lt(2) lt(2)]
        by (simp add: ad_idle_call[OF assms(1)] ad_rank_def Let_def ad_write_def sweep_dist_def)
    next
      case False
      then obtain k where "unat ?v = Suc (Suc k)"
        using v p by (cases "unat (?v - 1)") (simp_all add: word_unat_eq_iff)
      then show ?thesis using False v True sweep_dist_next(2)[OF lt(2) lt(2)]
        by (simp add: ad_idle_call[OF assms(1)] ad_rank_def Let_def ad_write_def sweep_dist_def
            MAX_pos unat_minus_one)
    qed
  qed
qed

interpretation ad: countdown "ack_delay False" "ad_rank i" "ad_ok i" for i
  by unfold_locales (rule ad_ok_call, assumption, rule ad_rank_call, assumption+)

lemma ad_fires:
  assumes "ad_ok i s" and "ad_rank i s = 1"
  shows "adf_output (ack_delay False s) = adf_output s @ [extendedEvent1 (event2 ACK i)]"
proof -
  have "unat (ack_table s i) = 1 \<and> ad_pointer s = i"
    using assms sweep_dist_zero[of "ad_pointer s" i] unat_gt_0[of "ack_table s i"]
    by (auto simp: ad_rank_def ad_ok_def MAX_pos split: if_splits)
  moreover have "ack_table s i = 1 \<longleftrightarrow> unat (ack_table s i) = 1"
    by (simp add: word_unat_eq_iff)
  ultimately show ?thesis by (simp add: ad_idle_call[OF assms(1)] ad_write_def Let_def)
qed

text \<open>An ACK that is held back is sent by itself: with no further event and room in the output,
  after the 11 sweeps of the 64 microseconds at most.\<close>

lemma delayed_ack_sent:
  assumes "adf_input s = [ev]" and "ev_type ev = ACK" and "ack_table s (ev_sessionID ev) = 0"
    and "unat (ad_pointer s) < MAX_SESSIONS" and "unat (ev_sessionID ev) < MAX_SESSIONS"
  shows "\<exists>n \<le> unat TIME_64us * MAX_SESSIONS + 1.
           extendedEvent1 (event2 ACK (ev_sessionID ev)) \<in> set (adf_output ((ack_delay False ^^ n) s))"
proof -
  let ?i = "ev_sessionID ev" and ?t = "ack_delay False s"
  have t: "ad_ok ?i ?t" "ack_table ?t ?i = 11" "ad_pointer ?t = ad_pointer s"
    using assms by (simp_all add: ad_ok_def ack_delay_def Let_def TIME_64us_def)
  have pos: "0 < ad_rank ?i ?t" using t by (simp add: ad_rank_def)
  obtain u where "ad_ok ?i u" "ad_rank ?i u = 1" "(ack_delay False ^^ ad_rank ?i ?t) ?t = ack_delay False u"
    using ad.last_call[OF t(1) pos] by blast
  then have "extendedEvent1 (event2 ACK ?i) \<in> set (adf_output ((ack_delay False ^^ (ad_rank ?i ?t + 1)) s))"
    using ad_fires[of ?i u] by (simp add: funpow_swap1)
  moreover have "ad_rank ?i ?t + 1 \<le> unat TIME_64us * MAX_SESSIONS + 1"
    using t sweep_dist_lt[OF assms(4,5)] by (simp add: ad_rank_def TIME_64us_def MAX_SESSIONS_def)
  ultimately show ?thesis by blast
qed

lemma delayed_ack_sent_witness:
  "\<exists>n \<le> unat TIME_64us * MAX_SESSIONS + 1. extendedEvent1 (event2 ACK 3) \<in>
     set (adf_output ((ack_delay False ^^ n) ((evs_ad evs_init)\<lparr>adf_input := [extendedEvent1 (event2 ACK 3)]\<rparr>)))"
  using delayed_ack_sent[of "(evs_ad evs_init)\<lparr>adf_input := [extendedEvent1 (event2 ACK 3)]\<rparr>"
      "extendedEvent1 (event2 ACK 3)"]
  by (simp add: evs_eval MAX_SESSIONS_def del: funpow.simps)

end
