(* ===== verification/Port_Table.thy ===== *)
theory Port_Table
  imports Toe_Types
begin

text \<open>
  \<^verbatim>\<open>toe/port_table/port_table.cpp\<close>: the ports that the application listens on (0 to 32767) and
  the ports handed out to connections it opens (32768 to 65535). Four processes share the
  record: the two tables, the multiplexer that sends a check of the receive engine to the table
  that the port belongs to, and the one that collects the two tables' answers in order.

  The lemmas show that the answers come in the order of the checks, each the right table's entry,
  and that a free port is handed out at most once between two releases.
\<close>

datatype cm_fsm = READ_DST | READ_LISTENING | READ_USED

record pt_tables =
  listeningPortTable :: "15 word \<Rightarrow> bool"
  freePortTable :: "15 word \<Rightarrow> bool"
  pt_cursor :: "15 word"
  cm_fsmState :: cm_fsm
  ppf_listenReq :: "u16 fifo"
  ppf_releasePort :: "u16 fifo"
  ppf_checkReq :: "u16 fifo"
  ppf_listenRsp :: "bool fifo"
  ppf_freePort :: "u16 fifo"
  ppf_checkRsp :: "bool fifo"
  pt_listeningReq :: "15 word fifo"
  pt_usedReq :: "15 word fifo"
  pt_listeningRsp :: "bool fifo"
  pt_usedRsp :: "bool fifo"
  pt_dst :: "bool fifo"

definition ppt_init :: pt_tables where
  "ppt_init = \<lparr>listeningPortTable = (\<lambda>_. False), freePortTable = (\<lambda>_. False), pt_cursor = 0,
     cm_fsmState = READ_DST, ppf_listenReq = [], ppf_releasePort = [], ppf_checkReq = [],
     ppf_listenRsp = [], ppf_freePort = [], ppf_checkRsp = [], pt_listeningReq = [],
     pt_usedReq = [], pt_listeningRsp = [], pt_usedRsp = [], pt_dst = []\<rparr>"

definition listening_port_table :: "pt_tables \<Rightarrow> pt_tables" where
  "listening_port_table s =
    (if ppf_listenReq s \<noteq> [] then
       (let p = hd (ppf_listenReq s); i = range_get 14 0 p :: 15 word;
            s = s\<lparr>ppf_listenReq := tl (ppf_listenReq s)\<rparr> in
        if listeningPortTable s i \<and> p < 32768 then
          s\<lparr>ppf_listenRsp := ppf_listenRsp s @ [True]\<rparr>
        else if \<not> listeningPortTable s i \<and> p < 32768 then
          s\<lparr>listeningPortTable := (listeningPortTable s)(ucast p := True),
            ppf_listenRsp := ppf_listenRsp s @ [True]\<rparr>
        else s\<lparr>ppf_listenRsp := ppf_listenRsp s @ [False]\<rparr>)
     else if pt_listeningReq s \<noteq> [] then
       s\<lparr>pt_listeningReq := tl (pt_listeningReq s),
         pt_listeningRsp := pt_listeningRsp s @ [listeningPortTable s (hd (pt_listeningReq s))]\<rparr>
     else s)"

definition free_port_table :: "bool \<Rightarrow> pt_tables \<Rightarrow> pt_tables" where
  "free_port_table full s =
    (let s =
       (if ppf_releasePort s \<noteq> [] then
          (let p = hd (ppf_releasePort s); s = s\<lparr>ppf_releasePort := tl (ppf_releasePort s)\<rparr> in
           if 32768 \<le> p then s\<lparr>freePortTable := (freePortTable s)(range_get 14 0 p := False)\<rparr>
           else s)
        else if pt_usedReq s \<noteq> [] then
          s\<lparr>pt_usedReq := tl (pt_usedReq s),
            pt_usedRsp := pt_usedRsp s @ [freePortTable s (hd (pt_usedReq s))]\<rparr>
        else if \<not> freePortTable s (pt_cursor s) \<and> \<not> full then
          s\<lparr>freePortTable := (freePortTable s)(pt_cursor s := True),
            ppf_freePort := ppf_freePort s @ [set_bit 15 (ucast (pt_cursor s))]\<rparr>
        else s) in
     s\<lparr>pt_cursor := pt_cursor s + 1\<rparr>)"

text \<open>The check carries the port as it is in the packet, in network byte order.\<close>

definition check_in_multiplexer :: "pt_tables \<Rightarrow> pt_tables" where
  "check_in_multiplexer s =
    (if ppf_checkReq s \<noteq> [] then
       (let p = reverse16 (hd (ppf_checkReq s)); s = s\<lparr>ppf_checkReq := tl (ppf_checkReq s)\<rparr> in
        if p < 32768
        then s\<lparr>pt_listeningReq := pt_listeningReq s @ [ucast p], pt_dst := pt_dst s @ [True]\<rparr>
        else s\<lparr>pt_usedReq := pt_usedReq s @ [ucast p], pt_dst := pt_dst s @ [False]\<rparr>)
     else s)"

definition check_out_multiplexer :: "pt_tables \<Rightarrow> pt_tables" where
  "check_out_multiplexer s =
    (case cm_fsmState s of
       READ_DST \<Rightarrow>
         (if pt_dst s \<noteq> [] then
            s\<lparr>pt_dst := tl (pt_dst s),
              cm_fsmState := (if hd (pt_dst s) then READ_LISTENING else READ_USED)\<rparr>
          else s)
     | READ_LISTENING \<Rightarrow>
         (if pt_listeningRsp s \<noteq> [] then
            s\<lparr>ppf_checkRsp := ppf_checkRsp s @ [hd (pt_listeningRsp s)],
              pt_listeningRsp := tl (pt_listeningRsp s), cm_fsmState := READ_DST\<rparr>
          else s)
     | READ_USED \<Rightarrow>
         (if pt_usedRsp s \<noteq> [] then
            s\<lparr>ppf_checkRsp := ppf_checkRsp s @ [hd (pt_usedRsp s)],
              pt_usedRsp := tl (pt_usedRsp s), cm_fsmState := READ_DST\<rparr>
          else s))"

definition port_table :: "bool \<Rightarrow> pt_tables \<Rightarrow> pt_tables" where
  "port_table full s =
     check_out_multiplexer (check_in_multiplexer (free_port_table full (listening_port_table s)))"

subsection \<open>Runs\<close>

text \<open>The four processes may run in any order; the environment adds requests.\<close>

datatype ppt_event =
    Pt_listening
  | Pt_free bool
  | Pt_in
  | Pt_out
  | Pt_check u16
  | Pt_listen u16
  | Pt_release u16

fun ppt_exec :: "ppt_event \<Rightarrow> pt_tables \<Rightarrow> pt_tables" where
  "ppt_exec Pt_listening s = listening_port_table s"
| "ppt_exec (Pt_free full) s = free_port_table full s"
| "ppt_exec Pt_in s = check_in_multiplexer s"
| "ppt_exec Pt_out s = check_out_multiplexer s"
| "ppt_exec (Pt_check p) s = s\<lparr>ppf_checkReq := ppf_checkReq s @ [p]\<rparr>"
| "ppt_exec (Pt_listen p) s = s\<lparr>ppf_listenReq := ppf_listenReq s @ [p]\<rparr>"
| "ppt_exec (Pt_release p) s = s\<lparr>ppf_releasePort := ppf_releasePort s @ [p]\<rparr>"

lemma port_table_as_run:
  "port_table full s = fold ppt_exec [Pt_listening, Pt_free full, Pt_in, Pt_out] s"
  by (simp add: port_table_def)

subsection \<open>Free ports are handed out once\<close>

text \<open>The state of the tables with the number of times each port was released so far.\<close>

definition fp_step :: "ppt_event \<Rightarrow> pt_tables \<times> (u16 \<Rightarrow> nat) \<Rightarrow> pt_tables \<times> (u16 \<Rightarrow> nat)" where
  "fp_step e = (\<lambda>(s, n). (ppt_exec e s, case e of Pt_release p \<Rightarrow> n(p := n p + 1) | _ \<Rightarrow> n))"

definition port_no :: "15 word \<Rightarrow> u16" where
  "port_no c = set_bit 15 (ucast c)"

definition fp_inv :: "pt_tables \<times> (u16 \<Rightarrow> nat) \<Rightarrow> bool" where
  "fp_inv = (\<lambda>(s, n).
     (\<forall>p \<in> set (ppf_freePort s). 32768 \<le> p) \<and>
     (\<forall>c. count_list (ppf_freePort s) (port_no c) + count_list (ppf_releasePort s) (port_no c)
          \<le> n (port_no c) + (if freePortTable s c then 1 else 0)))"

lemma port_no_bit: "bit (port_no c) n \<longleftrightarrow> n = 15 \<or> n < 15 \<and> bit c n"
  by (auto simp: port_no_def bit_simps dest: bit_imp_le_length)

lemma port_no_inject [simp]: "port_no c = port_no d \<longleftrightarrow> c = d"
proof
  assume *: "port_no c = port_no d"
  show "c = d"
  proof (rule bit_word_eqI)
    fix n assume n: "n < LENGTH(15)"
    have "bit (port_no c) n = bit (port_no d) n" using * by simp
    then show "bit c n = bit d n" using n by (simp add: port_no_bit)
  qed
qed simp

lemma u16_ge_bit: "32768 \<le> (p :: u16) \<longleftrightarrow> bit p 15"
proof -
  have "bit p 15 \<longleftrightarrow> odd (unat p div 2 ^ 15)"
    by (metis bit_iff_odd bit_unsigned_iff unat_bound possible_bit_nat)
  moreover have "unat p div 2 ^ 15 = (if 2 ^ 15 \<le> unat p then 1 else 0)"
    using unat_bound[of p] by (auto simp: div_nat_eqI)
  ultimately show ?thesis by (simp add: word_le_nat_alt)
qed

lemma port_no_ge: "32768 \<le> port_no c"
  by (simp add: u16_ge_bit port_no_bit)

lemma port_no_range: "32768 \<le> p \<Longrightarrow> port_no (range_get 14 0 p) = p"
  by (rule bit_word_eqI) (auto simp: u16_ge_bit port_no_bit bit_range_get dest: bit_imp_le_length
      simp: less_Suc_eq_le le_eq_less_or_eq)

lemma fp_inv_release:
  assumes "fp_inv (s, n)" and "ppf_releasePort s = p # ps"
  shows "fp_inv ((if 32768 \<le> p
      then s\<lparr>ppf_releasePort := ps, freePortTable := (freePortTable s)(range_get 14 0 p := False)\<rparr>
      else s\<lparr>ppf_releasePort := ps\<rparr>), n)"
proof -
  have inv: "count_list (ppf_freePort s) (port_no c) + count_list (p # ps) (port_no c)
      \<le> n (port_no c) + (if freePortTable s c then 1 else 0)" for c
    using assms by (simp add: fp_inv_def)
  have r: "\<forall>q \<in> set (ppf_freePort s). 32768 \<le> q" using assms by (simp add: fp_inv_def)
  show ?thesis
  proof (cases "32768 \<le> p")
    case False
    then have "p \<noteq> port_no c" for c using port_no_ge by blast
    then show ?thesis using inv r False by (simp add: fp_inv_def)
  next
    case True
    let ?c = "range_get 14 0 p :: 15 word"
    have p: "port_no ?c = p" using True by (rule port_no_range)
    have "count_list (ppf_freePort s) (port_no c) + count_list ps (port_no c)
      \<le> n (port_no c) + (if ((freePortTable s)(?c := False)) c then 1 else 0)" for c
    proof (cases "c = ?c")
      case True
      then show ?thesis using inv[of ?c] p by (simp split: if_splits)
    next
      case False
      then have "p \<noteq> port_no c" using p port_no_inject[of ?c c] by auto
      then show ?thesis using inv[of c] False by simp
    qed
    then show ?thesis using r True by (simp add: fp_inv_def)
  qed
qed

lemma fp_inv_frame:
  "fp_inv (s, n) \<Longrightarrow> ppf_freePort s' = ppf_freePort s \<Longrightarrow> ppf_releasePort s' = ppf_releasePort s \<Longrightarrow>
   freePortTable s' = freePortTable s \<Longrightarrow> fp_inv (s', n)"
  by (simp add: fp_inv_def)

lemma fp_invD:
  "fp_inv (s, n) \<Longrightarrow> count_list (ppf_freePort s) (port_no c) + count_list (ppf_releasePort s) (port_no c)
     \<le> n (port_no c) + (if freePortTable s c then 1 else 0)"
  "fp_inv (s, n) \<Longrightarrow> p \<in> set (ppf_freePort s) \<Longrightarrow> 32768 \<le> p"
  unfolding fp_inv_def by blast+

lemma fp_invI:
  "(\<And>p. p \<in> set (ppf_freePort s) \<Longrightarrow> 32768 \<le> p) \<Longrightarrow>
   (\<And>c. count_list (ppf_freePort s) (port_no c) + count_list (ppf_releasePort s) (port_no c)
     \<le> n (port_no c) + (if freePortTable s c then 1 else 0)) \<Longrightarrow> fp_inv (s, n)"
  unfolding fp_inv_def by blast

lemma fp_inv_give:
  assumes "fp_inv (s, n)" and "\<not> freePortTable s c"
  shows "fp_inv (s\<lparr>freePortTable := (freePortTable s)(c := True),
             ppf_freePort := ppf_freePort s @ [port_no c]\<rparr>, n)"
proof (rule fp_invI)
  fix d
  show "count_list (ppf_freePort (s\<lparr>freePortTable := (freePortTable s)(c := True),
        ppf_freePort := ppf_freePort s @ [port_no c]\<rparr>)) (port_no d) +
      count_list (ppf_releasePort (s\<lparr>freePortTable := (freePortTable s)(c := True),
        ppf_freePort := ppf_freePort s @ [port_no c]\<rparr>)) (port_no d)
      \<le> n (port_no d) + (if freePortTable (s\<lparr>freePortTable := (freePortTable s)(c := True),
        ppf_freePort := ppf_freePort s @ [port_no c]\<rparr>) d then 1 else 0)"
    using fp_invD(1)[OF assms(1), of d] assms(2) by (cases "d = c") (simp_all split: if_splits)
qed (use fp_invD(2)[OF assms(1)] port_no_ge in auto)

lemma fp_inv_request:
  assumes "fp_inv (s, n)"
  shows "fp_inv (s\<lparr>ppf_releasePort := ppf_releasePort s @ [p]\<rparr>, n(p := n p + 1))"
proof (rule fp_invI)
  fix d
  show "count_list (ppf_freePort (s\<lparr>ppf_releasePort := ppf_releasePort s @ [p]\<rparr>)) (port_no d) +
      count_list (ppf_releasePort (s\<lparr>ppf_releasePort := ppf_releasePort s @ [p]\<rparr>)) (port_no d)
      \<le> (n(p := n p + 1)) (port_no d)
        + (if freePortTable (s\<lparr>ppf_releasePort := ppf_releasePort s @ [p]\<rparr>) d then 1 else 0)"
    using fp_invD(1)[OF assms, of d] by (cases "p = port_no d") (auto split: if_splits)
qed (use fp_invD(2)[OF assms] in auto)

lemma fp_inv_free: "fp_inv (s, n) \<Longrightarrow> fp_inv (free_port_table full s, n)"
proof -
  assume inv: "fp_inv (s, n)"
  have cur: "fp_inv (t, n) \<Longrightarrow> fp_inv (t\<lparr>pt_cursor := c\<rparr>, n)" for t c
    by (rule fp_inv_frame) simp_all
  consider (rel) p ps where "ppf_releasePort s = p # ps"
    | (used) "ppf_releasePort s = []" "pt_usedReq s \<noteq> []"
    | (give) "ppf_releasePort s = []" "pt_usedReq s = []"
    by (cases "ppf_releasePort s") auto
  then show ?thesis
  proof cases
    case rel
    show ?thesis using cur[OF fp_inv_release[OF inv rel]] rel
      by (cases "32768 \<le> p") (simp_all add: free_port_table_def Let_def)
  next
    case used
    then show ?thesis by (intro fp_inv_frame[OF inv]) (simp_all add: free_port_table_def Let_def)
  next
    case give
    then show ?thesis using cur[OF fp_inv_give[OF inv, of "pt_cursor s"]] cur[OF inv]
      by (simp add: free_port_table_def Let_def port_no_def)
  qed
qed

lemma fp_inv_step [toe_inv]: "fp_inv x \<Longrightarrow> fp_inv (fp_step e x)"
proof (cases x)
  case (Pair s n)
  assume "fp_inv x"
  then have inv: "fp_inv (s, n)" using Pair by simp
  show "fp_inv (fp_step e x)"
  proof (cases e)
    case Pt_listening
    then show ?thesis using Pair
      by (auto simp: fp_step_def intro!: fp_inv_frame[OF inv])
        (simp_all add: listening_port_table_def Let_def)
  next
    case (Pt_free full)
    then show ?thesis using Pair fp_inv_free[OF inv] by (simp add: fp_step_def)
  next
    case Pt_in
    then show ?thesis using Pair
      by (auto simp: fp_step_def intro!: fp_inv_frame[OF inv])
        (simp_all add: check_in_multiplexer_def Let_def)
  next
    case Pt_out
    then show ?thesis using Pair
      by (auto simp: fp_step_def intro!: fp_inv_frame[OF inv])
        (simp_all add: check_out_multiplexer_def split: cm_fsm.split)
  next
    case (Pt_release p)
    then show ?thesis using Pair fp_inv_request[OF inv, of p] by (simp add: fp_step_def)
  qed (use Pair inv in \<open>auto simp: fp_step_def intro!: fp_inv_frame[OF inv]\<close>)
qed

interpretation fp: reactive fp_step fp_inv "\<lambda>_. True"
  by unfold_locales (rule fp_inv_step)

lemma fp_run: "fold fp_step es (s, n) =
    (fold ppt_exec es s, \<lambda>p. n p + length (filter (\<lambda>e. e = Pt_release p) es))"
proof (induction es arbitrary: s n)
  case (Cons e es)
  then show ?case by (cases e) (auto simp: fp_step_def fun_eq_iff)
qed simp

text \<open>C7. In every run of the port table, a port handed out to the application is in the upper half of
  the port range, and it is handed out at most once more than it is released.\<close>

theorem free_port_unique:
  "list_all (\<lambda>p. 32768 \<le> p) (ppf_freePort (fold ppt_exec es ppt_init))
   \<and> count_list (ppf_freePort (fold ppt_exec es ppt_init)) p
       \<le> 1 + length (filter (\<lambda>e. e = Pt_release p) es)"
proof -
  let ?s = "fold ppt_exec es ppt_init"
  have "fp_inv (ppt_init, \<lambda>_. 0)" by (simp add: fp_inv_def ppt_init_def)
  from fp.inv_run[OF this, of es]
  have inv: "fp_inv (?s, \<lambda>p. length (filter (\<lambda>e. e = Pt_release p) es))"
    by (simp add: fp_run)
  then have r: "\<forall>p \<in> set (ppf_freePort ?s). 32768 \<le> p" by (simp add: fp_inv_def)
  have "count_list (ppf_freePort ?s) p \<le> 1 + length (filter (\<lambda>e. e = Pt_release p) es)"
  proof (cases "32768 \<le> p")
    case True
    then have p: "port_no (range_get 14 0 p) = p" by (rule port_no_range)
    have "count_list (ppf_freePort ?s) (port_no (range_get 14 0 p))
        + count_list (ppf_releasePort ?s) (port_no (range_get 14 0 p))
        \<le> length (filter (\<lambda>e. e = Pt_release (port_no (range_get 14 0 p))) es) + 1"
      using fp_invD(1)[OF inv, of "range_get 14 0 p"] by (simp split: if_splits)
    then show ?thesis unfolding p by simp
  next
    case False
    then have "p \<notin> set (ppf_freePort ?s)" using r by blast
    then show ?thesis by (simp add: count_list_0_iff[THEN iffD2])
  qed
  then show ?thesis using r by (simp add: list_all_iff)
qed

subsection \<open>Checks are answered in order\<close>

text \<open>The answer that a check deserves: the entry of the table that the port belongs to.\<close>

definition port_open :: "(15 word \<Rightarrow> bool) \<Rightarrow> (15 word \<Rightarrow> bool) \<Rightarrow> u16 \<Rightarrow> bool" where
  "port_open L F q = (let p = reverse16 q in if p < 32768 then L (ucast p) else F (ucast p))"

text \<open>
  A check is a port with the moment at which it was asked, the number of events before and with it. \<open>G c a\<close> will say that \<open>a\<close> is a
  good answer to the check \<open>c\<close>. One table has the checks \<open>A\<close> if the first of them have been answered and the others wait for it.
\<close>

type_synonym check = "nat \<times> u16"

definition listens :: "check \<Rightarrow> bool" where "listens c \<longleftrightarrow> reverse16 (snd c) < 32768"
definition check_index :: "check \<Rightarrow> 15 word" where "check_index c = ucast (reverse16 (snd c))"

definition serves :: "(check \<Rightarrow> bool \<Rightarrow> bool) \<Rightarrow> check list \<Rightarrow> bool list \<Rightarrow> 15 word list \<Rightarrow> bool" where
  "serves G A rsp req \<longleftrightarrow> (\<exists>B C. A = B @ C \<and> list_all2 G B rsp \<and> map check_index C = req)"

lemma serves_ask: "serves G A rsp req \<Longrightarrow> serves G (A @ [c]) rsp (req @ [check_index c])"
  unfolding serves_def by (metis append.assoc list.simps(8,9) map_append)

lemma serves_answer:
  assumes "serves G A rsp (i # req)" and "\<And>c. c \<in> set A \<Longrightarrow> check_index c = i \<Longrightarrow> G c a"
  shows "serves G A (rsp @ [a]) req"
proof -
  obtain B c C where "A = B @ c # C" "list_all2 G B rsp" "check_index c = i" "map check_index C = req"
    using assms(1) by (auto simp: serves_def map_eq_Cons_conv)
  then show ?thesis using assms(2)[of c] unfolding serves_def
    by (intro exI[of _ "B @ [c]"] exI[of _ C]) (simp add: list_all2_appendI)
qed

lemma serves_take: "serves G (c # A) (a # rsp) req \<Longrightarrow> G c a \<and> serves G A rsp req"
  unfolding serves_def list_all2_Cons2 by (elim exE conjE) (simp, blast)

lemma serves_mono: "serves G A rsp req \<Longrightarrow> (\<And>c a. G c a \<Longrightarrow> H c a) \<Longrightarrow> serves H A rsp req"
  unfolding serves_def using list_all2_mono by blast

text \<open>The checks \<open>A\<close> in the component: answered, on their way through the tables, and waiting at the input.\<close>

definition pt_ds :: "pt_tables \<Rightarrow> bool list" where
  "pt_ds s = (case cm_fsmState s of READ_DST \<Rightarrow> [] | READ_LISTENING \<Rightarrow> [True] | READ_USED \<Rightarrow> [False])
             @ pt_dst s"

definition pt_trace :: "(check \<Rightarrow> bool \<Rightarrow> bool) \<Rightarrow> check list \<Rightarrow> pt_tables \<Rightarrow> bool" where
  "pt_trace G A s \<longleftrightarrow> (\<exists>given way wait. A = given @ way @ wait
     \<and> list_all2 G given (ppf_checkRsp s) \<and> map listens way = pt_ds s \<and> map snd wait = ppf_checkReq s
     \<and> serves G (filter listens way) (pt_listeningRsp s) (pt_listeningReq s)
     \<and> serves G (filter (\<lambda>c. \<not> listens c) way) (pt_usedRsp s) (pt_usedReq s))"

lemma pt_trace_mono: "pt_trace G A s \<Longrightarrow> (\<And>c a. G c a \<Longrightarrow> H c a) \<Longrightarrow> pt_trace H A s"
  unfolding pt_trace_def using serves_mono[of G _ _ _ H] list_all2_mono[of G _ _ H] by (metis (no_types, lifting))

lemma pt_trace_frame:
  assumes "pt_trace G A s" and "ppf_checkRsp t = ppf_checkRsp s" and "pt_ds t = pt_ds s" and "ppf_checkReq t = ppf_checkReq s"
    and "pt_listeningRsp t = pt_listeningRsp s" and "pt_listeningReq t = pt_listeningReq s"
    and "pt_usedRsp t = pt_usedRsp s" and "pt_usedReq t = pt_usedReq s"
  shows "pt_trace G A t"
  using assms by (simp add: pt_trace_def)

text \<open>What the tables say at this moment is a good answer to every check in the component.\<close>

definition pt_now :: "(check \<Rightarrow> bool \<Rightarrow> bool) \<Rightarrow> check list \<Rightarrow> pt_tables \<Rightarrow> bool" where
  "pt_now G A s \<longleftrightarrow> (\<forall>c \<in> set A. G c (port_open (listeningPortTable s) (freePortTable s) (snd c)))"

lemma pt_nowD:
  assumes "pt_now G A s" and "c \<in> set A"
  shows "G c (if listens c then listeningPortTable s (check_index c) else freePortTable s (check_index c))"
  using assms unfolding pt_now_def port_open_def listens_def check_index_def Let_def by blast

lemma pt_trace_listening:
  assumes tr: "pt_trace G A s" and now: "pt_now G A s"
  shows "pt_trace G A (listening_port_table s)"
proof (cases "ppf_listenReq s = [] \<and> pt_listeningReq s \<noteq> []")
  case False
  then show ?thesis
    by (intro pt_trace_frame[OF tr]) (auto simp: listening_port_table_def Let_def pt_ds_def)
next
  case True
  then obtain i req where req: "ppf_listenReq s = []" "pt_listeningReq s = i # req" by (auto simp: neq_Nil_conv)
  obtain given way wait where w: "A = given @ way @ wait" "list_all2 G given (ppf_checkRsp s)" "map listens way = pt_ds s"
    "map snd wait = ppf_checkReq s" "serves G (filter listens way) (pt_listeningRsp s) (i # req)"
    "serves G (filter (\<lambda>c. \<not> listens c) way) (pt_usedRsp s) (pt_usedReq s)"
    using tr req by (auto simp: pt_trace_def)
  have "serves G (filter listens way) (pt_listeningRsp s @ [listeningPortTable s i]) req"
  proof (rule serves_answer[OF w(5)])
    fix c assume "c \<in> set (filter listens way)" "check_index c = i"
    then show "G c (listeningPortTable s i)" using pt_nowD[OF now, of c] w(1) by simp
  qed
  then show ?thesis using w req unfolding pt_trace_def
    by (intro exI[of _ given] exI[of _ way] exI[of _ wait]) (simp add: listening_port_table_def pt_ds_def)
qed

lemma pt_trace_free:
  assumes tr: "pt_trace G A s" and now: "pt_now G A s"
  shows "pt_trace G A (free_port_table full s)"
proof (cases "ppf_releasePort s = [] \<and> pt_usedReq s \<noteq> []")
  case False
  then show ?thesis
    by (intro pt_trace_frame[OF tr]) (auto simp: free_port_table_def Let_def pt_ds_def)
next
  case True
  then obtain i req where req: "ppf_releasePort s = []" "pt_usedReq s = i # req" by (auto simp: neq_Nil_conv)
  obtain given way wait where w: "A = given @ way @ wait" "list_all2 G given (ppf_checkRsp s)" "map listens way = pt_ds s"
    "map snd wait = ppf_checkReq s" "serves G (filter listens way) (pt_listeningRsp s) (pt_listeningReq s)"
    "serves G (filter (\<lambda>c. \<not> listens c) way) (pt_usedRsp s) (i # req)"
    using tr req by (auto simp: pt_trace_def)
  have "serves G (filter (\<lambda>c. \<not> listens c) way) (pt_usedRsp s @ [freePortTable s i]) req"
  proof (rule serves_answer[OF w(6)])
    fix c assume "c \<in> set (filter (\<lambda>c. \<not> listens c) way)" "check_index c = i"
    then show "G c (freePortTable s i)" using pt_nowD[OF now, of c] w(1) by simp
  qed
  then show ?thesis using w req unfolding pt_trace_def
    by (intro exI[of _ given] exI[of _ way] exI[of _ wait]) (simp add: free_port_table_def pt_ds_def)
qed

lemma pt_trace_in:
  assumes tr: "pt_trace G A s"
  shows "pt_trace G A (check_in_multiplexer s)"
proof (cases "ppf_checkReq s")
  case Nil
  then show ?thesis using tr by (simp add: check_in_multiplexer_def)
next
  case (Cons q qs)
  obtain given way c wait where w: "A = given @ way @ c # wait" "list_all2 G given (ppf_checkRsp s)" "map listens way = pt_ds s"
    "snd c = q" "map snd wait = qs" "serves G (filter listens way) (pt_listeningRsp s) (pt_listeningReq s)"
    "serves G (filter (\<lambda>c. \<not> listens c) way) (pt_usedRsp s) (pt_usedReq s)"
    using tr Cons by (auto simp: pt_trace_def map_eq_Cons_conv)
  have i: "ucast (reverse16 q) = check_index c" "reverse16 q < 32768 \<longleftrightarrow> listens c" by (simp_all add: check_index_def listens_def w(4))
  show ?thesis unfolding pt_trace_def
    by (rule exI[of _ given], rule exI[of _ "way @ [c]"], rule exI[of _ wait])
      (use w Cons serves_ask[OF w(6), of c] serves_ask[OF w(7), of c] in
        \<open>simp add: check_in_multiplexer_def Let_def i pt_ds_def\<close>)
qed

lemma pt_trace_out:
  assumes tr: "pt_trace G A s"
  shows "pt_trace G A (check_out_multiplexer s)"
proof -
  obtain given way wait where w: "A = given @ way @ wait" "list_all2 G given (ppf_checkRsp s)" "map listens way = pt_ds s"
    "map snd wait = ppf_checkReq s" "serves G (filter listens way) (pt_listeningRsp s) (pt_listeningReq s)"
    "serves G (filter (\<lambda>c. \<not> listens c) way) (pt_usedRsp s) (pt_usedReq s)"
    using tr by (auto simp: pt_trace_def)
  show ?thesis
  proof (cases "cm_fsmState s")
    case READ_DST
    then show ?thesis
      by (intro pt_trace_frame[OF tr]; cases "pt_dst s"; cases "hd (pt_dst s)"; simp add: check_out_multiplexer_def pt_ds_def)
  next
    case READ_LISTENING
    then obtain c way' where c: "way = c # way'" "listens c" "map listens way' = pt_dst s" using w(3) by (auto simp: pt_ds_def)
    show ?thesis
    proof (cases "pt_listeningRsp s")
      case (Cons a as)
      then have "G c a \<and> serves G (filter listens way') as (pt_listeningReq s)" using w(5) c by (intro serves_take) simp
      then show ?thesis using READ_LISTENING Cons c w unfolding pt_trace_def
        by (intro exI[of _ "given @ [c]"] exI[of _ way'] exI[of _ wait]) (simp add: check_out_multiplexer_def pt_ds_def list_all2_appendI)
    qed (use tr READ_LISTENING in \<open>simp add: check_out_multiplexer_def\<close>)
  next
    case READ_USED
    then obtain c way' where c: "way = c # way'" "\<not> listens c" "map listens way' = pt_dst s" using w(3) by (auto simp: pt_ds_def)
    show ?thesis
    proof (cases "pt_usedRsp s")
      case (Cons a as)
      then have "G c a \<and> serves G (filter (\<lambda>c. \<not> listens c) way') as (pt_usedReq s)" using w(6) c by (intro serves_take) simp
      then show ?thesis using READ_USED Cons c w unfolding pt_trace_def
        by (intro exI[of _ "given @ [c]"] exI[of _ way'] exI[of _ wait]) (simp add: check_out_multiplexer_def pt_ds_def list_all2_appendI)
    qed (use tr READ_USED in \<open>simp add: check_out_multiplexer_def\<close>)
  qed
qed

fun pt_new :: "nat \<Rightarrow> ppt_event \<Rightarrow> check list" where
  "pt_new k (Pt_check q) = [(k, q)]"
| "pt_new k _ = []"

lemma pt_trace_exec:
  assumes "pt_trace G A s" and "pt_now G A s"
  shows "pt_trace G (A @ pt_new k e) (ppt_exec e s)"
proof (cases e)
  case (Pt_check q)
  then obtain given way wait where "A = given @ way @ wait" "list_all2 G given (ppf_checkRsp s)" "map listens way = pt_ds s"
    "map snd wait = ppf_checkReq s" "serves G (filter listens way) (pt_listeningRsp s) (pt_listeningReq s)"
    "serves G (filter (\<lambda>c. \<not> listens c) way) (pt_usedRsp s) (pt_usedReq s)"
    using assms(1) by (auto simp: pt_trace_def)
  then show ?thesis unfolding pt_trace_def
    by (intro exI[of _ given] exI[of _ way] exI[of _ "wait @ [(k, q)]"]) (simp add: Pt_check pt_ds_def)
next
  case (Pt_listen q)
  then show ?thesis using assms(1) by (simp add: pt_trace_def pt_ds_def)
next
  case (Pt_release q)
  then show ?thesis using assms(1) by (simp add: pt_trace_def pt_ds_def)
qed (use assms in \<open>simp_all add: pt_trace_listening pt_trace_free pt_trace_in pt_trace_out\<close>)

text \<open>The checks of a run, and the good answers to them: what the tables said at some moment since the check was asked.\<close>

fun pt_asked :: "nat \<Rightarrow> ppt_event list \<Rightarrow> check list" where
  "pt_asked k [] = []"
| "pt_asked k (e # es) = pt_new (Suc k) e @ pt_asked (Suc k) es"

definition pt_checks :: "pt_tables \<Rightarrow> ppt_event list \<Rightarrow> check list" where
  "pt_checks s es = map (Pair 0) (ppf_checkReq s) @ pt_asked 0 es"

definition pt_good :: "pt_tables \<Rightarrow> ppt_event list \<Rightarrow> check \<Rightarrow> bool \<Rightarrow> bool" where
  "pt_good s es c a \<longleftrightarrow> (\<exists>m. fst c \<le> m \<and> m \<le> length es \<and>
     (let t = fold ppt_exec (take m es) s in a = port_open (listeningPortTable t) (freePortTable t) (snd c)))"

lemma pt_asked_snoc: "pt_asked k (es @ [e]) = pt_asked k es @ pt_new (Suc (k + length es)) e"
  by (induction es arbitrary: k) simp_all

lemma pt_asked_moment: "c \<in> set (pt_asked k es) \<Longrightarrow> fst c \<le> k + length es"
proof (induction es arbitrary: k)
  case (Cons e es)
  then show ?case using Cons.IH[of "Suc k"] by (cases e) auto
qed simp

lemma pt_good_now:
  "pt_now (pt_good s es) (pt_checks s es) (fold ppt_exec es s)"
  unfolding pt_now_def pt_good_def
  by (auto simp: pt_checks_def Let_def dest: pt_asked_moment intro!: exI[of _ "length es"])

lemma pt_good_snoc: "pt_good s es c a \<Longrightarrow> pt_good s (es @ [e]) c a"
  unfolding pt_good_def by (metis (no_types, lifting) le_SucI length_append_singleton take_append append_Nil2 diff_is_0_eq take0)

text \<open>The component holds no check but those waiting at its input.\<close>

definition pt_quiet :: "pt_tables \<Rightarrow> bool" where
  "pt_quiet s \<longleftrightarrow> cm_fsmState s = READ_DST \<and> pt_dst s = [] \<and> pt_listeningReq s = []
     \<and> pt_usedReq s = [] \<and> pt_listeningRsp s = [] \<and> pt_usedRsp s = []"

lemma pt_trace_run:
  assumes "pt_quiet s" and "ppf_checkRsp s = []"
  shows "pt_trace (pt_good s es) (pt_checks s es) (fold ppt_exec es s)"
proof (induction es rule: rev_induct)
  case Nil
  show ?case using assms
    by (simp add: pt_trace_def pt_quiet_def pt_ds_def serves_def pt_checks_def comp_def)
next
  case (snoc e es)
  have "pt_trace (pt_good s es) (pt_checks s es @ pt_new (Suc (length es)) e) (ppt_exec e (fold ppt_exec es s))"
    by (rule pt_trace_exec[OF snoc pt_good_now])
  then show ?case using pt_good_snoc by (auto simp: pt_checks_def pt_asked_snoc elim: pt_trace_mono)
qed

text \<open>C8. In every run of the four processes in any order, with checks, openings, releases and hand-outs of ports at any moment, the
  answers come in the order of the checks: each is, for the port in host byte order, the entry that the
  listening table had for a port below 32768, and the table of used ports for any other, at some moment between the
  check and the answer. Once the streams inside are empty, every check has been answered.\<close>

theorem port_checks_in_order:
  assumes "pt_quiet s" and "ppf_checkRsp s = []"
  shows "let t = fold ppt_exec es s; asked = pt_checks s es; given = ppf_checkRsp t in
      list_all2 (pt_good s es) (take (length given) asked) given
      \<and> (pt_quiet t \<and> ppf_checkReq t = [] \<longrightarrow> length given = length asked)"
proof -
  let ?t = "fold ppt_exec es s"
  obtain given way wait where w: "pt_checks s es = given @ way @ wait" "list_all2 (pt_good s es) given (ppf_checkRsp ?t)"
    "map listens way = pt_ds ?t" "map snd wait = ppf_checkReq ?t"
    using pt_trace_run[OF assms, of es] by (auto simp: pt_trace_def)
  have len: "length given = length (ppf_checkRsp ?t)" using w(2) by (rule list_all2_lengthD)
  have "way = [] \<and> wait = []" if "pt_quiet ?t" "ppf_checkReq ?t = []" using that w(3,4) by (simp add: pt_quiet_def pt_ds_def)
  then show ?thesis using w(1,2) by (simp add: Let_def len[symmetric])
qed

definition ppt_ex :: pt_tables where
  "ppt_ex = ppt_init\<lparr>listeningPortTable := (\<lambda>p. p = 80), ppf_checkReq := [0x5000]\<rparr>"

text \<open>Port 81 is opened between two checks of it.\<close>

lemma port_checks_in_order_witness:
  "let es = [Pt_check 0x5100, Pt_in, Pt_in, Pt_listening, Pt_listening, Pt_listen 81, Pt_check 0x5100, Pt_listening, Pt_in, Pt_listening,
      Pt_free False, Pt_out, Pt_out, Pt_out, Pt_out, Pt_out, Pt_out]; t = fold ppt_exec es ppt_ex in
    list_all2 (pt_good ppt_ex es) [(0, 0x5000), (1, 0x5100), (7, 0x5100)] [True, False, True] \<and> ppf_checkRsp t = [True, False, True]"
proof -
  let ?es = "[Pt_check 0x5100, Pt_in, Pt_in, Pt_listening, Pt_listening, Pt_listen 81, Pt_check 0x5100, Pt_listening, Pt_in, Pt_listening,
      Pt_free False, Pt_out, Pt_out, Pt_out, Pt_out, Pt_out, Pt_out]"
  have "ppf_checkRsp (fold ppt_exec ?es ppt_ex) = [True, False, True]" by code_simp
  moreover have "pt_quiet ppt_ex" "ppf_checkRsp ppt_ex = []" by (simp_all add: pt_quiet_def ppt_ex_def ppt_init_def)
  moreover have "pt_checks ppt_ex ?es = [(0, 0x5000), (1, 0x5100), (7, 0x5100)]" by (simp add: pt_checks_def ppt_ex_def)
  ultimately show ?thesis using port_checks_in_order[of ppt_ex ?es] by (simp add: Let_def del: fold.simps)
qed

subsection \<open>A free port is found\<close>

text \<open>While nothing is released or checked and there is room, a free port is handed out after at
  most as many calls as the cursor needs to reach it.\<close>

lemma free_port_found:
  assumes "\<not> freePortTable s c" and "ppf_releasePort s = []" and "pt_usedReq s = []"
  shows "\<exists>n \<le> unat (c - pt_cursor s). \<exists>p.
     ppf_freePort ((free_port_table False ^^ Suc n) s) = ppf_freePort s @ [p]"
  using assms
proof (induction "unat (c - pt_cursor s)" arbitrary: s)
  case 0
  then have "pt_cursor s = c" by (simp add: unat_eq_0)
  then show ?case using 0 by (auto simp: free_port_table_def Let_def intro!: exI[of _ 0])
next
  case (Suc n)
  show ?case
  proof (cases "freePortTable s (pt_cursor s)")
    case False
    then show ?thesis using Suc.prems by (auto simp: free_port_table_def Let_def intro!: exI[of _ 0])
  next
    case True
    let ?t = "free_port_table False s"
    have t: "?t = s\<lparr>pt_cursor := pt_cursor s + 1\<rparr>" using True Suc.prems by (simp add: free_port_table_def)
    have "c - pt_cursor s \<noteq> 0" using Suc.hyps(2) by auto
    then have "unat (c - pt_cursor s - 1) = n" using Suc.hyps(2) by (simp add: unat_minus_one)
    then have n: "n = unat (c - pt_cursor ?t)" by (simp add: t diff_diff_eq)
    obtain k p where "k \<le> unat (c - pt_cursor ?t)"
      "ppf_freePort ((free_port_table False ^^ Suc k) ?t) = ppf_freePort ?t @ [p]"
      using Suc.hyps(1)[OF n] Suc.prems by (auto simp: t)
    then have "Suc k \<le> unat (c - pt_cursor s) \<and>
        ppf_freePort ((free_port_table False ^^ Suc (Suc k)) s) = ppf_freePort s @ [p]"
      using n Suc.hyps(2) t by (simp add: funpow_swap1)
    then show ?thesis by blast
  qed
qed

end
