(* ===== verification/Rx_Fsm.thy ===== *)
theory Rx_Fsm
  imports Sar_Tables
begin

text \<open>
  The control path of \<^verbatim>\<open>toe/rx_engine/rx_engine.cpp\<close>: \<^verbatim>\<open>rxMetadataHandler\<close>, which looks up the
  session of a segment, and \<^verbatim>\<open>rxTcpFSM\<close>, the TCP state machine of the receive side.

  \<open>rxTcpFSM\<close> is one call; its switch over the control bits is the five definitions
  \<open>fsm_ack\<close>, \<open>fsm_syn\<close>, \<open>fsm_synAck\<close>, \<open>fsm_fin\<close> and \<open>fsm_other\<close>, and the ACK case is composed of
  the parts the source writes one after the other (\<open>fsm_ackCount\<close>, \<open>fsm_payloadOoo\<close> or
  \<open>fsm_payloadBypass\<close>, \<open>fsm_ackEvent\<close>, \<open>fsm_ackState\<close>). The configuration \<open>cfg\<close> holds
  \<^verbatim>\<open>RX_DDR_BYPASS\<close> and, for that variant, the two buffer counters. The argument \<open>u\<close> is the
  content of the local \<^verbatim>\<open>txSar\<close> before it is assigned: the SYN case and an RST without ACK use it.
\<close>

subsection \<open>Data\<close>

record rxEngineMetaData =
  me_seqNumb :: u32
  me_ackNumb :: u32
  me_winSize :: u16
  me_winScale :: "4 word"
  me_length :: u16
  me_ack :: bool
  me_rst :: bool
  me_syn :: bool
  me_fin :: bool
  me_dataOffset :: "4 word"

record rxFsmMetaData =
  mf_sessionID :: sid
  mf_srcIpAddress :: u32
  mf_dstIpPort :: u16
  mf_meta :: rxEngineMetaData
  mf_srcIpPort :: u16

subsection \<open>Metadata handler\<close>

datatype mh_stateType = META | LOOKUP

record mh_st =
  mh_meta :: rxEngineMetaData
  mh_state :: mh_stateType
  mh_srcIpAddress :: u32
  mh_dstIpPort :: u16
  mh_srcIpPort :: u16
  mhf_metaData :: "rxEngineMetaData fifo"
  mhf_lookupRsp :: "sessionLookupReply fifo"
  mhf_portRsp :: "bool fifo"
  mhf_tuple :: "fourTuple fifo"
  mhf_lookupReq :: "sessionLookupQuery fifo"
  mhf_event :: "extendedEvent fifo"
  mhf_drop :: "bool fifo"
  mhf_fsmMeta :: "rxFsmMetaData fifo"

text \<open>The reset that answers a segment for a closed port acknowledges the segment.\<close>

definition mh_rst :: "rxEngineMetaData \<Rightarrow> fourTuple \<Rightarrow> extendedEvent" where
  "mh_rst m t =
    (let sw = mk_fourTuple (ft_dstIp t) (ft_srcIp t) (ft_dstPort t) (ft_srcPort t) in
     extendedEvent2 (rstEvent1 (me_seqNumb m + ucast (me_length m)
                                + (if me_syn m \<or> me_fin m then 1 else 0))) sw)"

definition rxMetadataHandler :: "mh_st \<Rightarrow> mh_st" where
  "rxMetadataHandler s =
    (case mh_state s of
       META \<Rightarrow>
        (if mhf_metaData s \<noteq> [] \<and> mhf_portRsp s \<noteq> [] \<and> mhf_tuple s \<noteq> [] then
           (let m = hd (mhf_metaData s); open = hd (mhf_portRsp s); t = hd (mhf_tuple s);
                s = s\<lparr>mhf_metaData := tl (mhf_metaData s), mhf_portRsp := tl (mhf_portRsp s),
                      mhf_tuple := tl (mhf_tuple s), mh_meta := m,
                      mh_srcIpAddress := reverse32 (ft_srcIp t),
                      mh_dstIpPort := reverse16 (ft_dstPort t),
                      mh_srcIpPort := reverse16 (ft_srcPort t)\<rparr> in
            if \<not> open then
              (let s = (if \<not> me_rst m then s\<lparr>mhf_event := mhf_event s @ [mh_rst m t]\<rparr> else s) in
               if me_length m \<noteq> 0 then s\<lparr>mhf_drop := mhf_drop s @ [True]\<rparr> else s)
            else
              s\<lparr>mhf_lookupReq := mhf_lookupReq s @
                  [\<lparr>slq_tuple = t, slq_allowCreation = me_syn m \<and> \<not> me_rst m \<and> \<not> me_fin m\<rparr>],
                mh_state := LOOKUP\<rparr>)
         else s)
     | LOOKUP \<Rightarrow>
        (if mhf_lookupRsp s \<noteq> [] then
           (let lup = hd (mhf_lookupRsp s); m = mh_meta s;
                s = s\<lparr>mhf_lookupRsp := tl (mhf_lookupRsp s)\<rparr>;
                s = (if slr_hit lup
                     then s\<lparr>mhf_fsmMeta := mhf_fsmMeta s @
                             [\<lparr>mf_sessionID = slr_sessionID lup, mf_srcIpAddress = mh_srcIpAddress s,
                               mf_dstIpPort = mh_dstIpPort s, mf_meta = m,
                               mf_srcIpPort = mh_srcIpPort s\<rparr>]\<rparr>
                     else s);
                s = (if me_length m \<noteq> 0 then s\<lparr>mhf_drop := mhf_drop s @ [\<not> slr_hit lup]\<rparr> else s) in
            s\<lparr>mh_state := META\<rparr>)
         else s))"

subsection \<open>State of the FSM\<close>

datatype fsmStateType = LOAD | TRANSITION

record fsm_st =
  fsm_state :: fsmStateType
  fsm_meta :: rxFsmMetaData
  fsm_txSarRequest :: bool
  fsf_meta :: "rxFsmMetaData fifo"
  fsf_stateRsp :: "sessionState fifo"
  fsf_rxSarRsp :: "rxSarEntry fifo"
  fsf_txSarRsp :: "rxTxSarReply fifo"
  fsf_stateReq :: "stateQuery fifo"
  fsf_rxSarReq :: "rxSarRecvd fifo"
  fsf_txSarReq :: "rxTxSarQuery fifo"
  fsf_clearRetransmit :: "rxRetransmitTimerUpdate fifo"
  fsf_clearProbe :: "sid fifo"
  fsf_setClose :: "sid fifo"
  fsf_openStatus :: "openStatus fifo"
  fsf_event :: "event fifo"
  fsf_drop :: "bool fifo"
  fsf_writeCmd :: "mmCmd fifo"
  fsf_notification :: "appNotification fifo"

record fsm_cfg =
  cfg_bypass :: bool
  cfg_dataCount :: u16
  cfg_maxCount :: u16

text \<open>Writes to the output streams.\<close>

definition put_state :: "stateQuery \<Rightarrow> fsm_st \<Rightarrow> fsm_st" where
  "put_state q s = s\<lparr>fsf_stateReq := fsf_stateReq s @ [q]\<rparr>"
definition put_rxSar :: "rxSarRecvd \<Rightarrow> fsm_st \<Rightarrow> fsm_st" where
  "put_rxSar q s = s\<lparr>fsf_rxSarReq := fsf_rxSarReq s @ [q]\<rparr>"
definition put_txSar :: "rxTxSarQuery \<Rightarrow> fsm_st \<Rightarrow> fsm_st" where
  "put_txSar q s = s\<lparr>fsf_txSarReq := fsf_txSarReq s @ [q]\<rparr>"
definition put_clearRetransmit :: "sid \<Rightarrow> bool \<Rightarrow> fsm_st \<Rightarrow> fsm_st" where
  "put_clearRetransmit i b s = s\<lparr>fsf_clearRetransmit :=
     fsf_clearRetransmit s @ [\<lparr>rrt_sessionID = i, rrt_stop = b\<rparr>]\<rparr>"
definition put_clearProbe :: "sid \<Rightarrow> fsm_st \<Rightarrow> fsm_st" where
  "put_clearProbe i s = s\<lparr>fsf_clearProbe := fsf_clearProbe s @ [i]\<rparr>"
definition put_setClose :: "sid \<Rightarrow> fsm_st \<Rightarrow> fsm_st" where
  "put_setClose i s = s\<lparr>fsf_setClose := fsf_setClose s @ [i]\<rparr>"
definition put_openStatus :: "openStatus \<Rightarrow> fsm_st \<Rightarrow> fsm_st" where
  "put_openStatus q s = s\<lparr>fsf_openStatus := fsf_openStatus s @ [q]\<rparr>"
definition put_event :: "event \<Rightarrow> fsm_st \<Rightarrow> fsm_st" where
  "put_event e s = s\<lparr>fsf_event := fsf_event s @ [e]\<rparr>"
definition put_drop :: "bool \<Rightarrow> fsm_st \<Rightarrow> fsm_st" where
  "put_drop b s = s\<lparr>fsf_drop := fsf_drop s @ [b]\<rparr>"
definition put_writeCmd :: "mmCmd \<Rightarrow> fsm_st \<Rightarrow> fsm_st" where
  "put_writeCmd c s = s\<lparr>fsf_writeCmd := fsf_writeCmd s @ [c]\<rparr>"
definition put_notification :: "appNotification \<Rightarrow> fsm_st \<Rightarrow> fsm_st" where
  "put_notification n s = s\<lparr>fsf_notification := fsf_notification s @ [n]\<rparr>"

lemmas put_defs [toe_defs] = put_state_def put_rxSar_def put_txSar_def put_clearRetransmit_def
  put_clearProbe_def put_setClose_def put_openStatus_def put_event_def put_drop_def
  put_writeCmd_def put_notification_def

subsection \<open>Arithmetic of the ACK case\<close>

text \<open>Slow start, then a fixed increment; the sum of the bounds is signed in the source.\<close>

definition cong_grow :: "win \<Rightarrow> win \<Rightarrow> win" where
  "cong_grow cw ss =
    (if int (unat cw) \<le> int (unat ss) - int MSS then cw + of_nat MSS
     else if unat cw \<le> CONGESTION_WINDOW_MAX then cw + 365
     else cw)"

definition duplicate_ack :: "rxEngineMetaData \<Rightarrow> rxTxSarReply \<Rightarrow> bool" where
  "duplicate_ack m tx \<longleftrightarrow> me_ackNumb m = rtr_prevAck tx \<and> rtr_prevAck tx \<noteq> rtr_nextByte tx"

definition fsm_ackCount :: "rxEngineMetaData \<Rightarrow> rxTxSarReply \<Rightarrow> rxTxSarReply" where
  "fsm_ackCount m tx =
    (if duplicate_ack m tx then
       (if me_length m = 0 then tx\<lparr>rtr_count := rtr_count tx + 1\<rparr> else tx)
     else
       tx\<lparr>rtr_cong_window := cong_grow (rtr_cong_window tx) (rtr_slowstart_threshold tx),
          rtr_count := 0, rtr_fastRetransmitted := False\<rparr>)"

text \<open>The acknowledgement lies between the last one and the next byte, with wrap-around.\<close>

definition ack_in_window :: "u32 \<Rightarrow> u32 \<Rightarrow> u32 \<Rightarrow> bool" where
  "ack_in_window prev ack next \<longleftrightarrow>
     (prev \<le> ack \<and> ack \<le> next) \<or> ((prev \<le> ack \<or> ack \<le> next) \<and> next < prev)"

definition rx_free_space :: "rxSarEntry \<Rightarrow> win" where
  "rx_free_space rx = (rse_appd rx - range_get 17 0 (rse_head rx)) - 1"

text \<open>Sums of a sequence number and a length keep their 33rd bit until they are assigned.\<close>

definition seg_end :: "rxEngineMetaData \<Rightarrow> nat" where
  "seg_end m = unat (me_seqNumb m) + unat (me_length m)"

definition seg_next :: "rxEngineMetaData \<Rightarrow> u32" where
  "seg_next m = me_seqNumb m + ucast (me_length m)"

text \<open>\<^verbatim>\<open>(rxbuffer_max_data_count - rxbuffer_data_count) > 375\<close>, a signed difference.\<close>

definition cfg_room :: "fsm_cfg \<Rightarrow> bool" where
  "cfg_room c \<longleftrightarrow> 375 < int (unat (cfg_maxCount c)) - int (unat (cfg_dataCount c))"

definition fsm_inOrder :: "fsm_cfg \<Rightarrow> rxEngineMetaData \<Rightarrow> rxSarEntry \<Rightarrow> bool" where
  "fsm_inOrder c m rx \<longleftrightarrow>
    (if cfg_bypass c then me_seqNumb m = rse_recvd rx \<and> cfg_room c
     else \<not> rse_gap rx \<and> me_seqNumb m = rse_recvd rx \<and> unat (me_length m) < unat (rx_free_space rx))"

subsection \<open>ACK\<close>

definition fsm_payloadOoo :: "rxFsmMetaData \<Rightarrow> rxSarEntry \<Rightarrow> fsm_st \<Rightarrow> fsm_st" where
  "fsm_payloadOoo f rx s =
    (let m = mf_meta f; i = mf_sessionID f; ip = mf_srcIpAddress f; port = mf_dstIpPort f;
         free = rx_free_space rx; gap = rse_gap rx;
         cmd = put_writeCmd (mmCmd_of (pkgAddr i (me_seqNumb m)) (me_length m)) in
     if me_length m = 0 then s
     else if \<not> gap \<and> me_seqNumb m = rse_recvd rx \<and> unat (me_length m) < unat free then
       put_drop False (put_notification (appNotification4 i (me_length m) ip port) (cmd
         (put_rxSar (rxSarRecvd_gap i (seg_next m) (seg_next m) (rse_offset rx) gap) s)))
     else if \<not> gap \<and> rse_recvd rx < me_seqNumb m
          \<and> range_get 17 0 (seg_next m - rse_head rx) < free then
       put_drop False (cmd (put_notification (appNotification4 i 0 ip port)
         (put_rxSar (rxSarRecvd_gap i (rse_recvd rx) (seg_next m) (me_seqNumb m) True) s)))
     else if gap \<and> me_seqNumb m = rse_head rx \<and> unat (me_length m) < unat free then
       put_drop False (put_notification (appNotification4 i 0 ip port) (cmd
         (put_rxSar (rxSarRecvd_gap i (rse_recvd rx) (seg_next m) (rse_offset rx) gap) s)))
     else if gap \<and> me_seqNumb m = rse_recvd rx then
       (if seg_end m = unat (rse_offset rx) then
          put_drop False (put_notification
            (appNotification4 i (ucast (range_get 17 0 (rse_head rx - me_seqNumb m) :: win)) ip port)
            (cmd (put_rxSar (rxSarRecvd_gap i (rse_head rx) (rse_head rx) (rse_offset rx) False) s)))
        else if seg_end m < unat (rse_offset rx) then
          put_drop False (put_notification (appNotification4 i (me_length m) ip port) (cmd
            (put_rxSar (rxSarRecvd_gap i (seg_next m) (rse_head rx) (rse_offset rx) gap) s)))
        else s)
     else put_drop True s)"

definition fsm_payloadBypass :: "fsm_cfg \<Rightarrow> rxFsmMetaData \<Rightarrow> rxSarEntry \<Rightarrow> fsm_st \<Rightarrow> fsm_st" where
  "fsm_payloadBypass c f rx s =
    (let m = mf_meta f; i = mf_sessionID f in
     if me_length m = 0 then s
     else if me_seqNumb m = rse_recvd rx \<and> cfg_room c then
       put_drop False (put_notification
         (appNotification4 i (me_length m) (mf_srcIpAddress f) (mf_dstIpPort f))
         (put_rxSar (rxSarRecvd_gap i (seg_next m) (seg_next m) (rse_offset rx) (rse_gap rx)) s))
     else put_drop True s)"

definition fsm_ackEvent ::
    "fsm_cfg \<Rightarrow> rxFsmMetaData \<Rightarrow> rxSarEntry \<Rightarrow> rxTxSarReply \<Rightarrow> fsm_st \<Rightarrow> fsm_st" where
  "fsm_ackEvent c f rx tx s =
    (let m = mf_meta f; i = mf_sessionID f in
     if rtr_count tx = 3 \<and> \<not> rtr_fastRetransmitted tx then put_event (event2 RT i) s
     else if me_length m \<noteq> 0 then
       put_event (event2 (if fsm_inOrder c m rx then ACK else ACK_NODELAY) i) s
     else s)"

definition fsm_ackState :: "rxFsmMetaData \<Rightarrow> sessionState \<Rightarrow> rxTxSarReply \<Rightarrow> fsm_st \<Rightarrow> fsm_st" where
  "fsm_ackState f st tx s =
    (let i = mf_sessionID f in
     if me_ackNumb (mf_meta f) = rtr_nextByte tx then
       (case st of
          SYN_RECEIVED \<Rightarrow> put_state (stateQuery_of i ESTABLISHED True) s
        | CLOSING \<Rightarrow> put_setClose i (put_state (stateQuery_of i TIME_WAIT True) s)
        | LAST_ACK \<Rightarrow> put_state (stateQuery_of i CLOSED True) s
        | _ \<Rightarrow> put_state (stateQuery_of i st True) s)
     else put_state (stateQuery_of i st True) s)"

definition fsm_ack ::
    "fsm_cfg \<Rightarrow> rxFsmMetaData \<Rightarrow> sessionState \<Rightarrow> rxSarEntry \<Rightarrow> rxTxSarReply \<Rightarrow> fsm_st \<Rightarrow> fsm_st" where
  "fsm_ack c f st rx tx s =
    (let m = mf_meta f; i = mf_sessionID f;
         s = put_clearRetransmit i (me_ackNumb m = rtr_nextByte tx) s in
     if st \<in> {ESTABLISHED, SYN_RECEIVED, FIN_WAIT_1, CLOSING, LAST_ACK} then
       (let s = (if duplicate_ack m tx then s else put_clearProbe i s);
            tx' = fsm_ackCount m tx;
            s = (if ack_in_window (rtr_prevAck tx) (me_ackNumb m) (rtr_nextByte tx)
                 then put_txSar (rxTxSarQuery_wr i (me_ackNumb m) (me_winSize m)
                        (rtr_cong_window tx') (rtr_count tx')
                        (rtr_count tx' = 3 \<or> rtr_fastRetransmitted tx')) s
                 else s);
            s = (if cfg_bypass c then fsm_payloadBypass c f rx s else fsm_payloadOoo f rx s);
            s = fsm_ackEvent c f rx tx' s in
        fsm_ackState f st tx' s)
     else
       (let s = put_event (rstEvent2 i (seg_next m)) s;
            s = (if me_length m \<noteq> 0 then put_drop True s else s) in
        put_state (stateQuery_of i st True) s))"

subsection \<open>SYN, SYN-ACK, FIN-ACK and the rest\<close>

definition rx_win_shift :: "rxEngineMetaData \<Rightarrow> 4 word" where
  "rx_win_shift m = (if me_winScale m = 0 then 0 else WINDOW_SCALE_BITS)"

definition fsm_syn ::
    "rxFsmMetaData \<Rightarrow> sessionState \<Rightarrow> rxSarEntry \<Rightarrow> rxTxSarReply \<Rightarrow> fsm_st \<Rightarrow> fsm_st" where
  "fsm_syn f st rx u s =
    (let m = mf_meta f; i = mf_sessionID f in
     if st = CLOSED \<or> st = SYN_SENT then
       put_state (stateQuery_of i SYN_RECEIVED True) (put_event (event2 SYN_ACK i)
         (put_txSar (rxTxSarQuery_init i 0 (me_winSize m) (rtr_cong_window u) 0 False (me_winScale m))
           (put_rxSar (rxSarRecvd_init i (me_seqNumb m + 1) (me_seqNumb m + 1) 0 False
              (rx_win_shift m)) s)))
     else if st = SYN_RECEIVED then
       (if unat (me_seqNumb m) + 1 = unat (rse_recvd rx) then
          put_state (stateQuery_of i st True) (put_event (event3 SYN_ACK i 1) s)
        else
          put_state (stateQuery_of i CLOSED True) (put_event (rstEvent2 i (me_seqNumb m + 1)) s))
     else
       put_state (stateQuery_of i st True) (put_event (event2 ACK_NODELAY i) s))"

definition fsm_synAck ::
    "rxFsmMetaData \<Rightarrow> sessionState \<Rightarrow> rxTxSarReply \<Rightarrow> fsm_st \<Rightarrow> fsm_st" where
  "fsm_synAck f st tx s =
    (let m = mf_meta f; i = mf_sessionID f;
         s = put_clearRetransmit i (me_ackNumb m = rtr_nextByte tx) s in
     if st = SYN_SENT \<and> me_ackNumb m = rtr_nextByte tx then
       put_openStatus (openStatus4 i 1 (mf_srcIpAddress f) (mf_srcIpPort f))
        (put_state (stateQuery_of i ESTABLISHED True) (put_event (event2 ACK_NODELAY i)
         (put_txSar (rxTxSarQuery_init i (me_ackNumb m) (me_winSize m) (rtr_cong_window tx) 0 False
              (me_winScale m))
           (put_rxSar (rxSarRecvd_init i (me_seqNumb m + 1) (me_seqNumb m + 1) 0 False
              (rx_win_shift m)) s))))
     else if st = SYN_SENT then
       put_state (stateQuery_of i CLOSED True) (put_event (rstEvent2 i (seg_next m + 1)) s)
     else
       put_state (stateQuery_of i st True) (put_event (event2 ACK_NODELAY i) s))"

definition fsm_finAccept ::
    "fsm_cfg \<Rightarrow> rxFsmMetaData \<Rightarrow> sessionState \<Rightarrow> rxSarEntry \<Rightarrow> rxTxSarReply \<Rightarrow> fsm_st \<Rightarrow> fsm_st" where
  "fsm_finAccept c f st rx tx s =
    (let m = mf_meta f; i = mf_sessionID f; ip = mf_srcIpAddress f; port = mf_dstIpPort f;
         s = put_txSar (rxTxSarQuery_wr i (me_ackNumb m) (me_winSize m) (rtr_cong_window tx)
               (rtr_count tx) (rtr_fastRetransmitted tx)) s;
         s = put_rxSar (rxSarRecvd_gap i (seg_next m + 1) (seg_next m + 1) (rse_offset rx)
               (rse_gap rx)) s;
         s = put_clearProbe i s;
         s = (if me_length m \<noteq> 0 then
                (let s = (if cfg_bypass c then s
                          else put_writeCmd (mmCmd_of (pkgAddr i (me_seqNumb m)) (me_length m)) s) in
                 put_drop False (put_notification (appNotification5 i (me_length m) ip port True) s))
              else if st = ESTABLISHED then
                put_notification (appNotification_closed4 i ip port True) s
              else s) in
     if st = ESTABLISHED then
       put_state (stateQuery_of i LAST_ACK True) (put_event (event2 FIN i) s)
     else
       put_event (event2 ACK i)
        (if me_ackNumb m = rtr_nextByte tx
         then put_setClose i (put_state (stateQuery_of i TIME_WAIT True) s)
         else put_state (stateQuery_of i CLOSING True) s))"

definition fsm_fin ::
    "fsm_cfg \<Rightarrow> rxFsmMetaData \<Rightarrow> sessionState \<Rightarrow> rxSarEntry \<Rightarrow> rxTxSarReply \<Rightarrow> fsm_st \<Rightarrow> fsm_st" where
  "fsm_fin c f st rx tx s =
    (let m = mf_meta f; i = mf_sessionID f;
         s = put_clearRetransmit i (me_ackNumb m = rtr_nextByte tx) s in
     if st \<in> {ESTABLISHED, FIN_WAIT_1, FIN_WAIT_2} \<and> rse_recvd rx = me_seqNumb m then
       fsm_finAccept c f st rx tx s
     else
       (let s = put_state (stateQuery_of i st True) (put_event (event2 ACK i) s) in
        if me_length m \<noteq> 0 then put_drop True s else s))"

definition fsm_other ::
    "rxFsmMetaData \<Rightarrow> sessionState \<Rightarrow> rxSarEntry \<Rightarrow> rxTxSarReply \<Rightarrow> fsm_st \<Rightarrow> fsm_st" where
  "fsm_other f st rx tx s =
    (let m = mf_meta f; i = mf_sessionID f in
     if me_rst m then
       (if st = SYN_SENT then
          (if me_ackNumb m = rtr_nextByte tx then
             put_clearRetransmit i True (put_state (stateQuery_of i CLOSED True)
               (put_openStatus (openStatus4 i 0 (mf_srcIpAddress f) (mf_srcIpPort f)) s))
           else put_state (stateQuery_of i st True) s)
        else if me_seqNumb m = rse_recvd rx then
          put_clearRetransmit i True (put_state (stateQuery_of i CLOSED True)
            (put_notification (appNotification_closed4 i (mf_srcIpAddress f) (mf_dstIpPort f) True) s))
        else put_state (stateQuery_of i st True) s)
     else put_state (stateQuery_of i st True) s)"

subsection \<open>One call\<close>

definition fsm_load :: "fsm_st \<Rightarrow> fsm_st" where
  "fsm_load s =
    (if fsf_meta s \<noteq> [] then
       (let f = hd (fsf_meta s); i = mf_sessionID f;
            s = put_rxSar (rxSarRecvd_rd i) (put_state (stateQuery_rd i)
                  (s\<lparr>fsf_meta := tl (fsf_meta s), fsm_meta := f\<rparr>));
            s = (if me_ack (mf_meta f)
                 then (put_txSar (rxTxSarQuery_rd i) s)\<lparr>fsm_txSarRequest := True\<rparr> else s) in
        s\<lparr>fsm_state := TRANSITION\<rparr>)
     else s)"

definition fsm_ready :: "fsm_st \<Rightarrow> bool" where
  "fsm_ready s \<longleftrightarrow> fsf_stateRsp s \<noteq> [] \<and> fsf_rxSarRsp s \<noteq> []
                 \<and> \<not> (fsm_txSarRequest s \<and> fsf_txSarRsp s = [])"

text \<open>The flags ACK, SYN, FIN, RST as the switch sees them.\<close>

definition control_bits :: "rxEngineMetaData \<Rightarrow> nat" where
  "control_bits m = of_bool (me_ack m) + 2 * of_bool (me_syn m) + 4 * of_bool (me_fin m)
                  + 8 * of_bool (me_rst m)"

definition fsm_transition :: "fsm_cfg \<Rightarrow> rxTxSarReply \<Rightarrow> fsm_st \<Rightarrow> fsm_st" where
  "fsm_transition c u s =
    (let f = fsm_meta s; st = hd (fsf_stateRsp s); rx = hd (fsf_rxSarRsp s);
         tx = hd (fsf_txSarRsp s); b = control_bits (mf_meta f);
         s0 = s\<lparr>fsm_state := LOAD, fsm_txSarRequest := False,
                fsf_stateRsp := tl (fsf_stateRsp s), fsf_rxSarRsp := tl (fsf_rxSarRsp s)\<rparr>;
         s1 = s0\<lparr>fsf_txSarRsp := tl (fsf_txSarRsp s)\<rparr> in
     if b = 1 then fsm_ack c f st rx tx s1
     else if b = 2 then fsm_syn f st rx u s0
     else if b = 3 then fsm_synAck f st tx s1
     else if b = 5 then fsm_fin c f st rx tx s1
     else if fsf_txSarRsp s = [] then fsm_other f st rx u s0
     else fsm_other f st rx tx s1)"

definition rxTcpFSM :: "fsm_cfg \<Rightarrow> rxTxSarReply \<Rightarrow> fsm_st \<Rightarrow> fsm_st" where
  "rxTcpFSM c u s =
    (case fsm_state s of
       LOAD \<Rightarrow> fsm_load s
     | TRANSITION \<Rightarrow> if fsm_ready s then fsm_transition c u s else s)"

subsection \<open>Windows and counters\<close>

text \<open>The acceptance test for an acknowledgement, written with four comparisons, is membership in
  the circular interval from the last acknowledgement to the next byte, for all 32-bit values.\<close>

lemma ack_in_window_circular:
  "ack_in_window prev ack next \<longleftrightarrow> unat (ack - prev) \<le> unat (next - prev)"
proof -
  have sub: "unat (a - b) = (if b \<le> a then unat a - unat b else 2 ^ 32 + unat a - unat b)"
    for a b :: u32
    using unat_bound[of a] unat_bound[of b]
    by (auto simp: unat_sub_if_size word_size word_le_nat_alt)
  show ?thesis
    using unat_bound[of prev] unat_bound[of ack] unat_bound[of "next"]
    unfolding ack_in_window_def sub word_le_nat_alt word_less_nat_alt by auto
qed

text \<open>The congestion window grows by one MSS below the slow start threshold, by 365 bytes above it up
  to the maximum, and never wraps its 18 bits.\<close>

theorem cong_grow_exact:
  "unat (cong_grow cw ss) = unat cw +
     (if unat cw + MSS \<le> unat ss then MSS else if unat cw \<le> CONGESTION_WINDOW_MAX then 365 else 0)"
proof -
  have "int (unat cw) \<le> int (unat ss) - int MSS \<longleftrightarrow> unat cw + MSS \<le> unat ss" by linarith
  then show ?thesis
    using unat_bound[of ss] unfolding cong_grow_def
    by (simp add: unat_add_mod MSS_def CONGESTION_WINDOW_MAX_def BUFFER_SIZE_def)
qed

subsection \<open>The state table lock is given back\<close>

text \<open>The transitions of the state diagram that the FSM may take (CLOSE-WAIT is skipped).\<close>

fun tcp_edge :: "sessionState \<Rightarrow> sessionState \<Rightarrow> bool" where
  "tcp_edge CLOSED st \<longleftrightarrow> st = SYN_RECEIVED"
| "tcp_edge SYN_SENT st \<longleftrightarrow> st \<in> {SYN_RECEIVED, ESTABLISHED, CLOSED}"
| "tcp_edge SYN_RECEIVED st \<longleftrightarrow> st \<in> {ESTABLISHED, CLOSED}"
| "tcp_edge ESTABLISHED st \<longleftrightarrow> st \<in> {LAST_ACK, CLOSED}"
| "tcp_edge FIN_WAIT_1 st \<longleftrightarrow> st \<in> {CLOSING, TIME_WAIT, CLOSED}"
| "tcp_edge FIN_WAIT_2 st \<longleftrightarrow> st \<in> {CLOSING, TIME_WAIT, CLOSED}"
| "tcp_edge CLOSING st \<longleftrightarrow> st \<in> {TIME_WAIT, CLOSED}"
| "tcp_edge TIME_WAIT st \<longleftrightarrow> st = CLOSED"
| "tcp_edge LAST_ACK st \<longleftrightarrow> st = CLOSED"

definition fsm_writes :: "rxFsmMetaData \<Rightarrow> sessionState \<Rightarrow> fsm_st \<Rightarrow> fsm_st \<Rightarrow> bool" where
  "fsm_writes f st s s' \<longleftrightarrow> (\<exists>st'. (st' = st \<or> tcp_edge st st')
     \<and> fsf_stateReq s' = fsf_stateReq s @ [stateQuery_of (mf_sessionID f) st' True])"

lemma payload_stateReq [simp]:
  "fsf_stateReq (fsm_payloadOoo f rx s) = fsf_stateReq s"
  "fsf_stateReq (fsm_payloadBypass c f rx s) = fsf_stateReq s"
  "fsf_stateReq (fsm_ackEvent c f rx tx s) = fsf_stateReq s"
  by (simp_all add: fsm_payloadOoo_def fsm_payloadBypass_def fsm_ackEvent_def Let_def put_defs)

lemma put_stateReq [simp]:
  "fsf_stateReq (put_state q s) = fsf_stateReq s @ [q]"
  "fsf_stateReq (put_rxSar q1 s) = fsf_stateReq s" "fsf_stateReq (put_txSar q2 s) = fsf_stateReq s"
  "fsf_stateReq (put_clearRetransmit i b s) = fsf_stateReq s"
  "fsf_stateReq (put_clearProbe i s) = fsf_stateReq s" "fsf_stateReq (put_setClose i s) = fsf_stateReq s"
  "fsf_stateReq (put_openStatus q3 s) = fsf_stateReq s" "fsf_stateReq (put_event e s) = fsf_stateReq s"
  "fsf_stateReq (put_drop b s) = fsf_stateReq s" "fsf_stateReq (put_writeCmd q4 s) = fsf_stateReq s"
  "fsf_stateReq (put_notification q5 s) = fsf_stateReq s"
  by (simp_all add: put_defs)

lemma fsm_ackState_writes: "fsm_writes f st s (fsm_ackState f st tx s)"
  by (cases st) (auto simp: fsm_writes_def fsm_ackState_def Let_def)

lemma fsm_writes_from: "fsm_writes f st s s' \<Longrightarrow> fsf_stateReq s = fsf_stateReq t \<Longrightarrow> fsm_writes f st t s'"
  by (simp add: fsm_writes_def)

lemma fsm_ack_writes: "fsm_writes f st s (fsm_ack c f st rx tx s)"
proof (cases "st \<in> {ESTABLISHED, SYN_RECEIVED, FIN_WAIT_1, CLOSING, LAST_ACK}")
  case True
  show ?thesis
    unfolding fsm_ack_def Let_def if_P[OF True]
    by (rule fsm_writes_from[OF fsm_ackState_writes]) simp
next
  case False
  show ?thesis unfolding fsm_ack_def Let_def if_not_P[OF False] by (auto simp: fsm_writes_def)
qed

lemma fsm_syn_writes: "fsm_writes f st s (fsm_syn f st rx u s)"
  by (cases st) (auto simp: fsm_writes_def fsm_syn_def Let_def)

lemma fsm_synAck_writes: "fsm_writes f st s (fsm_synAck f st tx s)"
  by (cases st) (auto simp: fsm_writes_def fsm_synAck_def Let_def)

lemma fsm_finAccept_writes:
  "st \<in> {ESTABLISHED, FIN_WAIT_1, FIN_WAIT_2} \<Longrightarrow> fsm_writes f st s (fsm_finAccept c f st rx tx s)"
  by (cases st) (auto simp: fsm_writes_def fsm_finAccept_def Let_def)

lemma fsm_fin_writes: "fsm_writes f st s (fsm_fin c f st rx tx s)"
proof (cases "st \<in> {ESTABLISHED, FIN_WAIT_1, FIN_WAIT_2} \<and> rse_recvd rx = me_seqNumb (mf_meta f)")
  case True
  then show ?thesis unfolding fsm_fin_def Let_def if_P[OF True]
    by (intro fsm_writes_from[OF fsm_finAccept_writes]) simp_all
next
  case False
  then show ?thesis unfolding fsm_fin_def Let_def if_not_P[OF False] by (auto simp: fsm_writes_def)
qed

lemma fsm_other_writes: "fsm_writes f st s (fsm_other f st rx u s)"
  by (cases st) (auto simp: fsm_writes_def fsm_other_def Let_def)

lemmas fsm_all_writes = fsm_ack_writes fsm_syn_writes fsm_synAck_writes fsm_fin_writes fsm_other_writes

lemma fsm_unlocks:
  assumes "fsm_state s = TRANSITION" and "fsm_ready s"
  shows "fsm_writes (fsm_meta s) (hd (fsf_stateRsp s)) s (rxTcpFSM c u s)"
  using assms unfolding rxTcpFSM_def fsm_transition_def Let_def
  by (simp only: fsmStateType.case if_True if_split)
    (intro conjI impI; rule fsm_writes_from[OF fsm_all_writes(1)] fsm_writes_from[OF fsm_all_writes(2)]
      fsm_writes_from[OF fsm_all_writes(3)] fsm_writes_from[OF fsm_all_writes(4)]
      fsm_writes_from[OF fsm_all_writes(5)]; simp)

text \<open>C9. Every segment that the FSM processes ends with exactly one write to the state table for its
  session, which gives the lock back, and the state written is the old one or a successor of it
  in the TCP state diagram; the FSM is then ready for the next segment.\<close>

theorem rxTcpFSM_unlocks:
  assumes "fsm_state s = TRANSITION" and "fsm_ready s"
  shows "fsm_writes (fsm_meta s) (hd (fsf_stateRsp s)) s (rxTcpFSM c u s)"
  by (rule fsm_unlocks[OF assms])

text \<open>The diagram only leads forward in the order of the enumeration, or back to CLOSED.\<close>

lemma tcp_edge_forward: "tcp_edge st st' \<Longrightarrow> st' = CLOSED \<or> st < st'"
  by (cases st) (auto simp: less_sessionState_def)

definition meta_ex :: "u32 \<Rightarrow> u32 \<Rightarrow> u16 \<Rightarrow> bool \<Rightarrow> bool \<Rightarrow> rxEngineMetaData" where
  "meta_ex seq ackn len a sy = \<lparr>me_seqNumb = seq, me_ackNumb = ackn, me_winSize = 0x1000,
     me_winScale = 2, me_length = len, me_ack = a, me_rst = False, me_syn = sy, me_fin = False,
     me_dataOffset = 5\<rparr>"

definition fsmMeta_ex :: "rxEngineMetaData \<Rightarrow> rxFsmMetaData" where
  "fsmMeta_ex m = \<lparr>mf_sessionID = 7, mf_srcIpAddress = 0xA000001, mf_dstIpPort = 80,
     mf_meta = m, mf_srcIpPort = 4000\<rparr>"

definition tx_ex :: rxTxSarReply where
  "tx_ex = \<lparr>rtr_prevAck = 100, rtr_nextByte = 200, rtr_cong_window = 0x3908,
     rtr_slowstart_threshold = 0xFFFF, rtr_count = 0, rtr_fastRetransmitted = False\<rparr>"

definition rx_ex :: "u32 \<Rightarrow> rxSarEntry" where
  "rx_ex r = \<lparr>rse_recvd = r, rse_appd = ucast r, rse_win_shift = 2, rse_head = r,
     rse_offset = 0, rse_gap = False\<rparr>"

definition fsm_ex :: "rxEngineMetaData \<Rightarrow> sessionState \<Rightarrow> rxSarEntry \<Rightarrow> fsm_st" where
  "fsm_ex m st rx = \<lparr>fsm_state = TRANSITION, fsm_meta = fsmMeta_ex m, fsm_txSarRequest = me_ack m,
     fsf_meta = [], fsf_stateRsp = [st], fsf_rxSarRsp = [rx],
     fsf_txSarRsp = (if me_ack m then [tx_ex] else []), fsf_stateReq = [], fsf_rxSarReq = [],
     fsf_txSarReq = [], fsf_clearRetransmit = [], fsf_clearProbe = [], fsf_setClose = [],
     fsf_openStatus = [], fsf_event = [], fsf_drop = [], fsf_writeCmd = [], fsf_notification = []\<rparr>"

definition cfg_ex :: fsm_cfg where
  "cfg_ex = \<lparr>cfg_bypass = True, cfg_dataCount = 0, cfg_maxCount = 1024\<rparr>"

lemma rxTcpFSM_unlocks_witness:
  "fsm_writes (fsmMeta_ex (meta_ex 500 200 10 True False)) SYN_RECEIVED
     (fsm_ex (meta_ex 500 200 10 True False) SYN_RECEIVED (rx_ex 500))
     (rxTcpFSM cfg_ex tx_ex (fsm_ex (meta_ex 500 200 10 True False) SYN_RECEIVED (rx_ex 500)))"
  using rxTcpFSM_unlocks[of "fsm_ex (meta_ex 500 200 10 True False) SYN_RECEIVED (rx_ex 500)" cfg_ex tx_ex]
  by (simp add: fsm_ex_def fsm_ready_def)

subsection \<open>Drop decisions\<close>

text \<open>
  The dropper behind the FSM takes one decision of the FSM for every segment with payload that
  the metadata handler has let through. \<open>decides\<close> says that a call wrote exactly those.
\<close>

definition decides :: "rxFsmMetaData \<Rightarrow> fsm_st \<Rightarrow> fsm_st \<Rightarrow> bool" where
  "decides f s s' \<longleftrightarrow> (if me_length (mf_meta f) = 0 then fsf_drop s' = fsf_drop s
                      else \<exists>d. fsf_drop s' = fsf_drop s @ [d])"

lemma put_drop_frame [simp]:
  "fsf_drop (put_state q s) = fsf_drop s" "fsf_drop (put_rxSar q1 s) = fsf_drop s"
  "fsf_drop (put_txSar q2 s) = fsf_drop s" "fsf_drop (put_clearRetransmit i b s) = fsf_drop s"
  "fsf_drop (put_clearProbe i s) = fsf_drop s" "fsf_drop (put_setClose i s) = fsf_drop s"
  "fsf_drop (put_openStatus q3 s) = fsf_drop s" "fsf_drop (put_event e s) = fsf_drop s"
  "fsf_drop (put_drop d s) = fsf_drop s @ [d]" "fsf_drop (put_writeCmd q4 s) = fsf_drop s"
  "fsf_drop (put_notification q5 s) = fsf_drop s"
  by (simp_all add: put_defs)

lemma fsm_ackState_drop [simp]: "fsf_drop (fsm_ackState f st tx s) = fsf_drop s"
  by (cases st) (simp_all add: fsm_ackState_def Let_def)

lemma fsm_ackEvent_drop [simp]: "fsf_drop (fsm_ackEvent c f rx tx s) = fsf_drop s"
  by (simp add: fsm_ackEvent_def Let_def)

text \<open>The one segment that the reassembly leaves without a decision: it starts at the first missing
  byte and reaches beyond the gap, as numbers of 33 bits.\<close>

definition overlaps_gap :: "fsm_cfg \<Rightarrow> rxEngineMetaData \<Rightarrow> rxSarEntry \<Rightarrow> bool" where
  "overlaps_gap c m rx \<longleftrightarrow> \<not> cfg_bypass c \<and> rse_gap rx \<and> me_seqNumb m = rse_recvd rx
     \<and> \<not> (me_seqNumb m = rse_head rx \<and> unat (me_length m) < unat (rx_free_space rx))
     \<and> unat (rse_offset rx) < seg_end m"

lemma payloadOoo_decides:
  "cfg_bypass c \<or> \<not> overlaps_gap c (mf_meta f) rx \<Longrightarrow> \<not> cfg_bypass c \<Longrightarrow>
   decides f s (fsm_payloadOoo f rx s)"
  by (auto simp: ex_bool_eq decides_def fsm_payloadOoo_def overlaps_gap_def Let_def)

lemma payloadBypass_decides: "decides f s (fsm_payloadBypass c f rx s)"
  by (simp add: ex_bool_eq decides_def fsm_payloadBypass_def Let_def)

lemma decides_from: "decides f s s' \<Longrightarrow> fsf_drop s = fsf_drop t \<Longrightarrow> fsf_drop s'' = fsf_drop s' \<Longrightarrow> decides f t s''"
  by (simp add: decides_def split: if_splits)

lemma fsm_ack_decides:
  assumes "st \<in> {ESTABLISHED, SYN_RECEIVED, FIN_WAIT_1, CLOSING, LAST_ACK} \<longrightarrow> \<not> overlaps_gap c (mf_meta f) rx"
  shows "decides f s (fsm_ack c f st rx tx s)"
proof (cases "st \<in> {ESTABLISHED, SYN_RECEIVED, FIN_WAIT_1, CLOSING, LAST_ACK}")
  case True
  then have ov: "\<not> overlaps_gap c (mf_meta f) rx" using assms by blast
  show ?thesis
  proof (cases "cfg_bypass c")
    case bp: True
    show ?thesis unfolding fsm_ack_def Let_def if_P[OF True] if_P[OF bp]
      by (rule decides_from[OF payloadBypass_decides]) simp_all
  next
    case False
    show ?thesis unfolding fsm_ack_def Let_def if_P[OF True] if_not_P[OF False]
      by (rule decides_from[OF payloadOoo_decides]) (use ov False in simp_all)
  qed
next
  case False
  show ?thesis unfolding fsm_ack_def Let_def if_not_P[OF False] by (simp add: ex_bool_eq decides_def)
qed

lemma fsm_fin_decides: "decides f s (fsm_fin c f st rx tx s)"
  by (simp add: ex_bool_eq fsm_fin_def fsm_finAccept_def decides_def Let_def)

text \<open>C10. For an ACK or a FIN-ACK segment the FSM writes one drop decision if the segment has payload
  and none if it has not, except for a segment that overlaps the end of a gap.\<close>

theorem rxTcpFSM_decides:
  assumes "fsm_state s = TRANSITION" and "fsm_ready s"
    and "control_bits (mf_meta (fsm_meta s)) \<in> {1, 5}"
    and "\<not> overlaps_gap c (mf_meta (fsm_meta s)) (hd (fsf_rxSarRsp s))"
  shows "decides (fsm_meta s) s (rxTcpFSM c u s)"
proof -
  have "decides (fsm_meta s) s (fsm_transition c u s)"
  proof (cases "control_bits (mf_meta (fsm_meta s)) = 1")
    case True
    show ?thesis unfolding fsm_transition_def Let_def if_P[OF True]
      by (rule decides_from[OF fsm_ack_decides]) (use assms(4) in simp_all)
  next
    case False
    then have b: "control_bits (mf_meta (fsm_meta s)) = 5" using assms(3) by simp
    show ?thesis unfolding fsm_transition_def Let_def b
      by simp (rule decides_from[OF fsm_fin_decides]; simp)
  qed
  then show ?thesis using assms(1,2) by (simp add: rxTcpFSM_def)
qed

lemma rxTcpFSM_decides_witness:
  "decides (fsmMeta_ex (meta_ex 500 200 10 True False))
     (fsm_ex (meta_ex 500 200 10 True False) ESTABLISHED (rx_ex 500))
     (rxTcpFSM cfg_ex tx_ex (fsm_ex (meta_ex 500 200 10 True False) ESTABLISHED (rx_ex 500)))"
  using rxTcpFSM_decides[of "fsm_ex (meta_ex 500 200 10 True False) ESTABLISHED (rx_ex 500)" cfg_ex tx_ex]
  by (simp add: fsm_ex_def fsm_ready_def fsmMeta_ex_def meta_ex_def control_bits_def overlaps_gap_def
      cfg_ex_def)

text \<open>A segment with payload and any other flags gets no decision of the FSM at all: a SYN that
  carries data (which the metadata handler lets through to the dropper), for any connection state.\<close>

theorem rxTcpFSM_undecided:
  assumes "fsm_state s = TRANSITION" and "fsm_ready s"
    and "control_bits (mf_meta (fsm_meta s)) \<notin> {1, 5}"
  shows "fsf_drop (rxTcpFSM c u s) = fsf_drop s"
  using assms
  by (simp add: rxTcpFSM_def fsm_transition_def fsm_syn_def fsm_synAck_def fsm_other_def Let_def)

lemma rxTcpFSM_undecided_witness:
  "fsf_drop (rxTcpFSM cfg_ex tx_ex (fsm_ex (meta_ex 500 0 10 False True) CLOSED (rx_ex 0))) = []"
  using rxTcpFSM_undecided[of "fsm_ex (meta_ex 500 0 10 False True) CLOSED (rx_ex 0)" cfg_ex tx_ex]
  by (simp add: fsm_ex_def fsm_ready_def fsmMeta_ex_def meta_ex_def control_bits_def)

text \<open>A retransmitted SYN whose sequence number is the largest one is taken for another
  connection's: the comparison with \<^verbatim>\<open>recvd\<close> is made at 33 bits, so the connection in
  SYN_RECEIVED is reset instead of answered with the SYN-ACK again.\<close>

theorem syn_retransmit_wrap:
  assumes "me_seqNumb (mf_meta f) = 0xFFFFFFFF"
  shows "fsf_stateReq (fsm_syn f SYN_RECEIVED rx u s)
           = fsf_stateReq s @ [stateQuery_of (mf_sessionID f) CLOSED True]
       \<and> fsf_event (fsm_syn f SYN_RECEIVED rx u s)
           = fsf_event s @ [rstEvent2 (mf_sessionID f) 0]"
proof -
  have "unat (me_seqNumb (mf_meta f)) + 1 \<noteq> unat (rse_recvd rx)"
    using unat_bound[of "rse_recvd rx"] assms by simp
  moreover have "me_seqNumb (mf_meta f) + 1 = 0" using assms by simp
  ultimately show ?thesis by (simp add: fsm_syn_def Let_def put_defs)
qed

lemma syn_retransmit_wrap_witness:
  "fsf_stateReq (fsm_syn (fsmMeta_ex (meta_ex 0xFFFFFFFF 0 0 False True)) SYN_RECEIVED (rx_ex 0) tx_ex
     (fsm_ex (meta_ex 0xFFFFFFFF 0 0 False True) SYN_RECEIVED (rx_ex 0))) = [stateQuery_of 7 CLOSED True]"
  using syn_retransmit_wrap[of "fsmMeta_ex (meta_ex 0xFFFFFFFF 0 0 False True)" "rx_ex 0" tx_ex
      "fsm_ex (meta_ex 0xFFFFFFFF 0 0 False True) SYN_RECEIVED (rx_ex 0)"]
  by (simp add: fsmMeta_ex_def meta_ex_def fsm_ex_def)

end
