(* ===== verification/Rx_Reassembly.thy ===== *)
theory Rx_Reassembly
  imports Rx_Fsm
begin

text \<open>
  What the ACK case of \<^verbatim>\<open>rxTcpFSM\<close> does to the tables over several segments: the receive pointers
  of the reassembly with a gap (the variant without \<^verbatim>\<open>RX_DDR_BYPASS\<close>), in-order delivery in the
  variant with it, and the counting of duplicate acknowledgements. The entry after a segment is
  the one that \<^verbatim>\<open>rx_sar_table\<close> (\<open>rxSar_write\<close>) or \<^verbatim>\<open>tx_sar_table\<close> (\<open>txSar_rxWrite\<close>) makes of
  the request that the FSM sends.
\<close>

subsection \<open>Distances in the receive buffer\<close>

text \<open>Bytes from the next expected one to the head, and to the end of the gap.\<close>

definition ooo_head :: "rxSarEntry \<Rightarrow> nat" where
  "ooo_head rx = unat (rse_head rx - rse_recvd rx)"

definition ooo_gap_end :: "rxSarEntry \<Rightarrow> nat" where
  "ooo_gap_end rx = unat (rse_offset rx - rse_recvd rx)"

text \<open>
  The picture in \<^verbatim>\<open>toe_internals.hpp\<close>: unread bytes, the gap, early bytes, and all of them fit in
  the buffer; without a gap the head is the next expected byte.
\<close>

definition ooo_inv :: "rxSarEntry \<Rightarrow> bool" where
  "ooo_inv rx \<longleftrightarrow> rx_buffered rx + ooo_head rx < BUFFER_SIZE
     \<and> (if rse_gap rx then 0 < ooo_gap_end rx \<and> ooo_gap_end rx < ooo_head rx else ooo_head rx = 0)"

lemma ucast_add_win: "(ucast (a + b :: u32) :: win) = ucast a + ucast b"
  by (simp only: word_unat_eq_iff unat_cast unat_add_mod) (simp add: mod_mod_cancel mod_add_eq)

lemma range_get_low: "(range_get 17 0 (w :: u32) :: win) = ucast w"
  by (intro bit_word_eqI) (auto simp: bit_range_get bit_simps)

definition buffered :: "u32 \<Rightarrow> win \<Rightarrow> nat" where
  "buffered r a = unat (ucast r - a :: win)"

lemma rx_buffered_eq: "rx_buffered rx = buffered (rse_recvd rx) (rse_appd rx)"
  by (simp add: rx_buffered_def buffered_def)

lemma buffered_add:
  assumes "buffered r a + unat w < BUFFER_SIZE"
  shows "buffered (r + w) a = buffered r a + unat w"
proof -
  have e: "ucast (r + w) - a = (ucast r - a :: win) + ucast w" by (simp add: ucast_add_win)
  show ?thesis using assms unfolding buffered_def e
    by (simp add: unat_add_mod unat_cast BUFFER_SIZE_def mod_add_right_eq)
qed

lemma free_space_exact:
  assumes "rx_buffered rx + ooo_head rx < BUFFER_SIZE"
  shows "unat (rx_free_space rx) = BUFFER_SIZE - 1 - (rx_buffered rx + ooo_head rx)"
proof -
  let ?d = "ucast (rse_head rx) - rse_appd rx :: win"
  have "rx_free_space rx = - 1 - ?d" by (simp add: rx_free_space_def range_get_low)
  moreover have "unat (- 1 - ?d) = unat (- 1 :: win) - unat ?d"
    by (rule unat_sub) (rule word_order.extremum)
  moreover have "unat ?d = rx_buffered rx + ooo_head rx"
    using buffered_add[of "rse_recvd rx" "rse_appd rx" "rse_head rx - rse_recvd rx"] assms
    by (simp add: rx_buffered_eq ooo_head_def) (simp add: buffered_def)
  ultimately show ?thesis
    by (simp add: BUFFER_SIZE_def unsigned_minus_1_eq_mask mask_eq_exp_minus_1)
qed

text \<open>Lengths and sums below the size of the buffer do not wrap.\<close>

lemma unat_len: "unat (ucast (l :: u16) :: u32) = unat l"
  using unat_bound[of l] by (simp add: unat_cast)

lemma dist_add: "unat (w :: u32) + unat v < 2 ^ 32 \<Longrightarrow> unat (w + v) = unat w + unat v"
  by (simp add: unat_add_mod)

lemma dist_sub: "unat (v :: u32) \<le> unat w \<Longrightarrow> unat (w - v) = unat w - unat v"
  by (simp add: unat_sub word_le_nat_alt)

subsection \<open>The reassembly keeps its pointers\<close>

text \<open>What a segment with payload does to an entry: the request to the table and the application's
  notification, if the segment is accepted.\<close>

definition accepts :: "fsm_st \<Rightarrow> fsm_st \<Rightarrow> rxSarRecvd \<Rightarrow> appNotification \<Rightarrow> bool" where
  "accepts s s' q n \<longleftrightarrow> fsf_rxSarReq s' = fsf_rxSarReq s @ [q]
     \<and> fsf_notification s' = fsf_notification s @ [n] \<and> fsf_drop s' = fsf_drop s @ [False]"

definition refuses :: "fsm_st \<Rightarrow> fsm_st \<Rightarrow> bool" where
  "refuses s s' \<longleftrightarrow> fsf_rxSarReq s' = fsf_rxSarReq s \<and> fsf_notification s' = fsf_notification s
     \<and> fsf_writeCmd s' = fsf_writeCmd s"

lemma gap_request_entry:
  "rxSar_write (rxSarRecvd_gap i r h off g) rx =
     rx\<lparr>rse_recvd := r, rse_head := h, rse_offset := off, rse_gap := g\<rparr>"
  by (simp add: rxSar_write_def rxSarRecvd_gap_def)

text \<open>The four accepted cases, each on the entry alone.\<close>

lemma ooo_in_order:
  fixes len :: u16
  assumes "ooo_inv rx" and "\<not> rse_gap rx" and "unat len < unat (rx_free_space rx)"
  shows "ooo_inv (rx\<lparr>rse_recvd := rse_recvd rx + ucast len, rse_head := rse_recvd rx + ucast len\<rparr>)"
proof -
  have "rx_buffered rx + ooo_head rx < BUFFER_SIZE" "ooo_head rx = 0"
    using assms(1,2) by (simp_all add: ooo_inv_def)
  then have "buffered (rse_recvd rx) (rse_appd rx) + unat (ucast len :: u32) < BUFFER_SIZE"
    using free_space_exact[of rx] assms(3) by (simp add: rx_buffered_eq unat_len)
  from buffered_add[OF this] this show ?thesis
    using assms(2) by (simp add: ooo_inv_def ooo_head_def rx_buffered_eq)
qed

lemma ooo_open_gap:
  fixes len :: u16
  assumes "ooo_inv rx" and "\<not> rse_gap rx" and "rse_recvd rx < seq" and "len \<noteq> 0"
    and "rx_buffered rx + (unat (seq - rse_recvd rx) + unat len) < BUFFER_SIZE"
  shows "ooo_inv (rx\<lparr>rse_head := seq + ucast len, rse_offset := seq, rse_gap := True\<rparr>)"
proof -
  have "unat (seq - rse_recvd rx + ucast len) = unat (seq - rse_recvd rx) + unat len"
    using assms(5) by (subst dist_add) (simp_all add: unat_len BUFFER_SIZE_def)
  then have h: "unat (seq + ucast len - rse_recvd rx) = unat (seq - rse_recvd rx) + unat len"
    by (simp add: algebra_simps)
  have "0 < unat (seq - rse_recvd rx)" using assms(3) by (simp add: unat_gt_0)
  then show ?thesis using assms(4,5) h
    by (simp add: ooo_inv_def ooo_head_def ooo_gap_end_def rx_buffered_def unat_gt_0)
qed

lemma ooo_extend:
  fixes len :: u16
  assumes "ooo_inv rx" and "rse_gap rx" and "unat len < unat (rx_free_space rx)"
  shows "ooo_inv (rx\<lparr>rse_head := rse_head rx + ucast len\<rparr>)"
proof -
  have inv: "rx_buffered rx + ooo_head rx < BUFFER_SIZE" "0 < ooo_gap_end rx"
      "ooo_gap_end rx < ooo_head rx"
    using assms(1,2) by (simp_all add: ooo_inv_def)
  then have lt: "rx_buffered rx + (ooo_head rx + unat len) < BUFFER_SIZE"
    using free_space_exact[OF inv(1)] assms(3) by simp
  have "unat (rse_head rx - rse_recvd rx + ucast len) = ooo_head rx + unat len"
    using lt by (subst dist_add) (simp_all add: unat_len ooo_head_def BUFFER_SIZE_def)
  then have "unat (rse_head rx + ucast len - rse_recvd rx) = ooo_head rx + unat len"
    by (simp add: algebra_simps)
  then show ?thesis using inv lt assms(2)
    by (simp add: ooo_inv_def ooo_head_def ooo_gap_end_def rx_buffered_def)
qed

lemma ooo_fill:
  assumes "ooo_inv rx" and "rse_gap rx"
  shows "ooo_inv (rx\<lparr>rse_recvd := rse_head rx, rse_gap := False\<rparr>)"
proof -
  have "buffered (rse_recvd rx) (rse_appd rx) + unat (rse_head rx - rse_recvd rx) < BUFFER_SIZE"
    using assms(1) by (simp add: ooo_inv_def ooo_head_def rx_buffered_eq)
  from buffered_add[OF this] this show ?thesis
    by (simp add: ooo_inv_def ooo_head_def rx_buffered_eq)
qed

lemma ooo_advance:
  fixes len :: u16
  assumes inv: "ooo_inv rx" and g: "rse_gap rx"
    and lt: "unat (rse_recvd rx) + unat len < unat (rse_offset rx)"
  shows "ooo_inv (rx\<lparr>rse_recvd := rse_recvd rx + ucast len\<rparr>)"
proof -
  let ?r = "rse_recvd rx" and ?l = "ucast len :: u32"
  have gap: "ooo_gap_end rx = unat (rse_offset rx) - unat ?r"
    unfolding ooo_gap_end_def using lt by (intro dist_sub) simp
  have *: "rx_buffered rx + ooo_head rx < BUFFER_SIZE" "ooo_gap_end rx < ooo_head rx"
    using inv g by (simp_all add: ooo_inv_def)
  have len: "unat len < ooo_gap_end rx" using gap lt by simp
  have b: "buffered (?r + ?l) (rse_appd rx) = rx_buffered rx + unat len"
    using * len by (subst buffered_add) (simp_all add: rx_buffered_eq unat_len)
  have h: "unat (rse_head rx - (?r + ?l)) = ooo_head rx - unat len"
    using * len dist_sub[of ?l "rse_head rx - ?r"]
    by (simp add: unat_len ooo_head_def diff_diff_eq)
  have o: "unat (rse_offset rx - (?r + ?l)) = ooo_gap_end rx - unat len"
    using len dist_sub[of ?l "rse_offset rx - ?r"]
    by (simp add: unat_len ooo_gap_end_def diff_diff_eq)
  show ?thesis using * len b h o g
    by (simp add: ooo_inv_def rx_buffered_eq) (simp add: ooo_head_def ooo_gap_end_def)
qed

lemma low_word: "(ucast (range_get 17 0 (w :: u32) :: win) :: u16) = ucast w"
  by (intro bit_word_eqI) (auto simp: bit_range_get bit_simps)

lemma len_word [simp]: "(ucast (ucast (l :: u16) :: u32) :: u16) = l"
  by (intro bit_word_eqI) (simp add: bit_simps)

lemmas ooo_eval = fsm_payloadOoo_def accepts_def refuses_def Let_def put_defs gap_request_entry

lemma acceptsI:
  assumes "accepts s s' (rxSarRecvd_gap i r h off g) (appNotification4 i n ip port)"
    and "ooo_inv (rx\<lparr>rse_recvd := r, rse_head := h, rse_offset := off, rse_gap := g\<rparr>)"
    and "n = ucast (r - rse_recvd rx)"
  shows "\<exists>q n. accepts s s' q n \<and> ooo_inv (rxSar_write q rx)
           \<and> an_length n = ucast (rsv_recvd q - rse_recvd rx)"
proof (intro exI conjI)
  show "accepts s s' (rxSarRecvd_gap i r h off g) (appNotification4 i n ip port)" by (rule assms(1))
qed (use assms(2,3) in \<open>simp_all add: gap_request_entry, simp add: rxSarRecvd_gap_def appNotification4_def\<close>)

lemma payloadOoo_refuses:
  fixes f rx
  defines "m \<equiv> mf_meta f" and "free \<equiv> rx_free_space rx"
  assumes "\<not> (\<not> rse_gap rx \<and> me_seqNumb m = rse_recvd rx \<and> unat (me_length m) < unat free)"
    and "\<not> (\<not> rse_gap rx \<and> rse_recvd rx < me_seqNumb m
            \<and> range_get 17 0 (seg_next m - rse_head rx) < free)"
    and "\<not> (rse_gap rx \<and> me_seqNumb m = rse_head rx \<and> unat (me_length m) < unat free)"
    and "\<not> (rse_gap rx \<and> me_seqNumb m = rse_recvd rx \<and> seg_end m \<le> unat (rse_offset rx))"
  shows "refuses s (fsm_payloadOoo f rx s)"
  using assms(6) unfolding refuses_def fsm_payloadOoo_def Let_def m_def[symmetric] free_def[symmetric]
    if_not_P[OF assms(3)] if_not_P[OF assms(4)] if_not_P[OF assms(5)]
  by (auto simp: put_defs)

text \<open>C11. Reassembly with a gap: a segment with payload, within the window that the buffer allows, is
  either refused without a trace in the tables, the buffer and the application's notifications, or
  accepted; then the new entry keeps the picture of unread bytes, gap and early bytes within the
  buffer, and the application is told of exactly the bytes by which \<^verbatim>\<open>recvd\<close> advances, modulo the
  16 bits of the notification.\<close>

theorem reassembly_step:
  assumes inv: "ooo_inv rx" and len: "me_length (mf_meta f) \<noteq> 0"
    and win: "rse_recvd rx < me_seqNumb (mf_meta f) \<Longrightarrow>
      rx_buffered rx + (unat (me_seqNumb (mf_meta f) - rse_recvd rx) + unat (me_length (mf_meta f)))
        < BUFFER_SIZE"
  shows "refuses s (fsm_payloadOoo f rx s) \<or>
    (\<exists>q n. accepts s (fsm_payloadOoo f rx s) q n \<and> ooo_inv (rxSar_write q rx)
         \<and> an_length n = ucast (rsv_recvd q - rse_recvd rx))"
proof -
  let ?m = "mf_meta f" and ?free = "rx_free_space rx"
  let ?seq = "me_seqNumb (mf_meta f)" and ?len = "me_length (mf_meta f)"
  let ?i = "mf_sessionID f" and ?ip = "mf_srcIpAddress f" and ?port = "mf_dstIpPort f"
  consider (order) "\<not> rse_gap rx" "?seq = rse_recvd rx" "unat ?len < unat ?free"
    | (open_gap) "\<not> rse_gap rx" "rse_recvd rx < ?seq" "range_get 17 0 (seg_next ?m - rse_head rx) < ?free"
    | (extend) "rse_gap rx" "?seq = rse_head rx" "unat ?len < unat ?free"
    | (fill) "rse_gap rx" "?seq = rse_recvd rx" "\<not> (?seq = rse_head rx \<and> unat ?len < unat ?free)"
        "seg_end ?m = unat (rse_offset rx)"
    | (advance) "rse_gap rx" "?seq = rse_recvd rx" "\<not> (?seq = rse_head rx \<and> unat ?len < unat ?free)"
        "seg_end ?m < unat (rse_offset rx)"
    | (no) "refuses s (fsm_payloadOoo f rx s)"
    using payloadOoo_refuses[of rx f s] by (metis le_eq_less_or_eq)
  then show ?thesis
  proof cases
    case order
    then have "accepts s (fsm_payloadOoo f rx s)
        (rxSarRecvd_gap ?i (seg_next ?m) (seg_next ?m) (rse_offset rx) (rse_gap rx))
        (appNotification4 ?i ?len ?ip ?port)"
      using len by (auto simp: ooo_eval)
    moreover have "ooo_inv (rx\<lparr>rse_recvd := seg_next ?m, rse_head := seg_next ?m,
        rse_offset := rse_offset rx, rse_gap := rse_gap rx\<rparr>)"
      using ooo_in_order[OF inv order(1,3)] order(2) by (simp add: seg_next_def)
    ultimately show ?thesis
      by (intro disjI2, rule acceptsI) (simp_all add: seg_next_def low_word order(2))
  next
    case open_gap
    then have "?seq \<noteq> rse_recvd rx" by auto
    with open_gap have "accepts s (fsm_payloadOoo f rx s)
        (rxSarRecvd_gap ?i (rse_recvd rx) (seg_next ?m) ?seq True) (appNotification4 ?i 0 ?ip ?port)"
      using len by (auto simp: ooo_eval)
    moreover have "ooo_inv (rx\<lparr>rse_recvd := rse_recvd rx, rse_head := seg_next ?m,
        rse_offset := ?seq, rse_gap := True\<rparr>)"
      using ooo_open_gap[OF inv open_gap(1,2) len win[OF open_gap(2)]] by (simp add: seg_next_def)
    ultimately show ?thesis
      by (intro disjI2, rule acceptsI) (simp_all add: seg_next_def low_word)
  next
    case extend
    then have "accepts s (fsm_payloadOoo f rx s)
        (rxSarRecvd_gap ?i (rse_recvd rx) (seg_next ?m) (rse_offset rx) (rse_gap rx))
        (appNotification4 ?i 0 ?ip ?port)"
      using len by (auto simp: ooo_eval)
    moreover have "ooo_inv (rx\<lparr>rse_recvd := rse_recvd rx, rse_head := seg_next ?m,
        rse_offset := rse_offset rx, rse_gap := rse_gap rx\<rparr>)"
      using ooo_extend[OF inv extend(1,3)] extend(2) by (simp add: seg_next_def)
    ultimately show ?thesis
      by (intro disjI2, rule acceptsI) (simp_all add: seg_next_def low_word)
  next
    case fill
    then have "accepts s (fsm_payloadOoo f rx s)
        (rxSarRecvd_gap ?i (rse_head rx) (rse_head rx) (rse_offset rx) False)
        (appNotification4 ?i (ucast (range_get 17 0 (rse_head rx - ?seq) :: win)) ?ip ?port)"
      using len by (auto simp: ooo_eval)
    moreover have "ooo_inv (rx\<lparr>rse_recvd := rse_head rx, rse_head := rse_head rx,
        rse_offset := rse_offset rx, rse_gap := False\<rparr>)"
      using ooo_fill[OF inv fill(1)] by simp
    ultimately show ?thesis
      by (intro disjI2, rule acceptsI) (simp_all add: seg_next_def low_word fill(2))
  next
    case advance
    then have "accepts s (fsm_payloadOoo f rx s)
        (rxSarRecvd_gap ?i (seg_next ?m) (rse_head rx) (rse_offset rx) (rse_gap rx))
        (appNotification4 ?i ?len ?ip ?port)"
      using len by (auto simp: ooo_eval)
    moreover have "ooo_inv (rx\<lparr>rse_recvd := seg_next ?m, rse_head := rse_head rx,
        rse_offset := rse_offset rx, rse_gap := rse_gap rx\<rparr>)"
      using ooo_advance[OF inv advance(1), of ?len] advance(2,4)
      by (simp add: seg_next_def seg_end_def)
    ultimately show ?thesis
      by (intro disjI2, rule acceptsI) (simp_all add: seg_next_def low_word advance(2))
  qed blast
qed

definition rx_gap_ex :: rxSarEntry where
  "rx_gap_ex = \<lparr>rse_recvd = 0xFFFFFF00, rse_appd = 0x3FF00, rse_win_shift = 2,
     rse_head = 0xFFFFFFC0, rse_offset = 0xFFFFFF80, rse_gap = True\<rparr>"

lemma reassembly_step_witness:
  "refuses (fsm_ex (meta_ex 0xFFFFFF00 0 0x80 True False) ESTABLISHED rx_gap_ex)
     (fsm_payloadOoo (fsmMeta_ex (meta_ex 0xFFFFFF00 0 0x80 True False)) rx_gap_ex
       (fsm_ex (meta_ex 0xFFFFFF00 0 0x80 True False) ESTABLISHED rx_gap_ex)) \<or>
   (\<exists>q n. accepts (fsm_ex (meta_ex 0xFFFFFF00 0 0x80 True False) ESTABLISHED rx_gap_ex)
     (fsm_payloadOoo (fsmMeta_ex (meta_ex 0xFFFFFF00 0 0x80 True False)) rx_gap_ex
       (fsm_ex (meta_ex 0xFFFFFF00 0 0x80 True False) ESTABLISHED rx_gap_ex)) q n
     \<and> ooo_inv (rxSar_write q rx_gap_ex) \<and> an_length n = ucast (rsv_recvd q - rse_recvd rx_gap_ex))"
  by (rule reassembly_step)
    (simp_all add: rx_gap_ex_def ooo_inv_def ooo_head_def ooo_gap_end_def rx_buffered_def
      BUFFER_SIZE_def fsmMeta_ex_def meta_ex_def)

definition rx_wide_ex :: rxSarEntry where
  "rx_wide_ex = \<lparr>rse_recvd = 0, rse_appd = 0, rse_win_shift = 2, rse_head = 65636,
     rse_offset = 100, rse_gap = True\<rparr>"

text \<open>The notification that closes a gap carries 16 bits: when 65636 bytes become readable at once the
  application is told of 100, while \<^verbatim>\<open>recvd\<close> moves past all of them.\<close>

lemma gap_fill_truncated:
  "let m = meta_ex 0 0 100 True False; f = fsmMeta_ex m; s = fsm_ex m ESTABLISHED rx_wide_ex;
       s' = fsm_payloadOoo f rx_wide_ex s
   in ooo_inv rx_wide_ex \<and> map rsv_recvd (fsf_rxSarReq s') = [65636]
      \<and> map an_length (fsf_notification s') = [100]"
  by (simp add: Let_def fsm_payloadOoo_def put_defs rx_wide_ex_def fsmMeta_ex_def meta_ex_def fsm_ex_def
      seg_end_def rx_free_space_def range_get_low rxSarRecvd_gap_def appNotification4_def low_word
      ooo_inv_def ooo_head_def ooo_gap_end_def rx_buffered_def BUFFER_SIZE_def)

text \<open>The window test of an early segment looks at the low 18 bits only: a segment one whole
  buffer ahead of the next expected byte is accepted and written over the start of the buffer.\<close>

lemma out_of_window_accepted:
  "let m = meta_ex 0x40000 0 100 True False; f = fsmMeta_ex m; s = fsm_ex m ESTABLISHED (rx_ex 0);
       s' = fsm_payloadOoo f (rx_ex 0) s
   in ooo_inv (rx_ex 0) \<and> fsf_drop s' = [False] \<and> fsf_writeCmd s' = [mmCmd_of (pkgAddr 7 0) 100]
      \<and> map (\<lambda>q. ooo_inv (rxSar_write q (rx_ex 0))) (fsf_rxSarReq s') = [False]"
proof -
  have "(ucast (0x40000 :: u32) :: win) = 0" by (simp only: word_unat_eq_iff unat_cast) simp
  then have "pkgAddr 7 0x40000 = pkgAddr 7 0"
    unfolding pkgAddr_def range_get_low by (simp only: unsigned_0 of_nat_0 ucast_0)
  then show ?thesis
    by (simp add: Let_def fsm_payloadOoo_def put_defs rx_ex_def fsmMeta_ex_def meta_ex_def fsm_ex_def
      seg_end_def seg_next_def rx_free_space_def range_get_low gap_request_entry
      ooo_inv_def ooo_head_def ooo_gap_end_def rx_buffered_def BUFFER_SIZE_def)
qed

subsection \<open>In-order delivery without reassembly\<close>

text \<open>The entry after a segment, and the segment itself if the dropper is told to keep it.\<close>

definition fsm_quiet :: fsm_st where
  "fsm_quiet = fsm_ex (meta_ex 0 0 0 False False) CLOSED (rx_ex 0)"

definition bypass_step :: "fsm_cfg \<times> rxFsmMetaData \<Rightarrow> rxSarEntry \<Rightarrow> rxSarEntry \<times> rxEngineMetaData list" where
  "bypass_step = (\<lambda>(c, f) rx.
     let s' = fsm_payloadBypass c f rx fsm_quiet in
     (fold rxSar_write (fsf_rxSarReq s') rx, if fsf_drop s' = [False] then [mf_meta f] else []))"

fun bypass_run :: "(fsm_cfg \<times> rxFsmMetaData) list \<Rightarrow> rxSarEntry \<Rightarrow> rxSarEntry \<times> rxEngineMetaData list" where
  "bypass_run [] rx = (rx, [])"
| "bypass_run (x # xs) rx =
    (let (rx', k) = bypass_step x rx; (rx'', ks) = bypass_run xs rx' in (rx'', k @ ks))"

text \<open>Segments that follow one another without gap or overlap from byte \<open>r\<close> to byte \<open>r'\<close>.\<close>

fun contiguous :: "u32 \<Rightarrow> rxEngineMetaData list \<Rightarrow> u32 \<Rightarrow> bool" where
  "contiguous r [] r' \<longleftrightarrow> r = r'"
| "contiguous r (m # ms) r' \<longleftrightarrow> me_seqNumb m = r \<and> contiguous (seg_next m) ms r'"

lemma bypass_step_cases:
  obtains (keep) "bypass_step (c, f) rx = (rx\<lparr>rse_recvd := seg_next (mf_meta f), rse_head := seg_next (mf_meta f)\<rparr>,
      [mf_meta f])" "me_seqNumb (mf_meta f) = rse_recvd rx"
  | (lose) "bypass_step (c, f) rx = (rx, [])"
  by (cases "me_length (mf_meta f) = 0"; cases "me_seqNumb (mf_meta f) = rse_recvd rx \<and> cfg_room c")
    (simp_all add: bypass_step_def fsm_payloadBypass_def fsm_quiet_def fsm_ex_def Let_def put_defs
      gap_request_entry)

text \<open>C12. Without reassembly, for any sequence of segments and any filling of the buffer, the
  payloads that the dropper keeps are contiguous: each starts where the last one ended, the first at
  \<^verbatim>\<open>recvd\<close>, and \<^verbatim>\<open>recvd\<close> ends after the last one.\<close>

theorem bypass_in_order:
  "contiguous (rse_recvd rx) (snd (bypass_run xs rx)) (rse_recvd (fst (bypass_run xs rx)))"
proof (induction xs arbitrary: rx)
  case (Cons x xs)
  obtain c f where x: "x = (c, f)" by (cases x)
  show ?case
  proof (cases rule: bypass_step_cases[of c f rx])
    case keep
    then show ?thesis using Cons.IH[of "fst (bypass_step x rx)"] x
      by (simp add: Let_def case_prod_unfold)
  next
    case lose
    then show ?thesis using Cons.IH[of rx] x by (simp add: Let_def case_prod_unfold)
  qed
qed simp

subsection \<open>Duplicate acknowledgements\<close>

text \<open>One ACK segment on the transmit entry: the events of the FSM, and the entry after its write.\<close>

definition ack_round ::
    "fsm_cfg \<Rightarrow> rxFsmMetaData \<Rightarrow> sessionState \<Rightarrow> rxSarEntry \<Rightarrow> txSarEntry \<Rightarrow> event list \<times> txSarEntry" where
  "ack_round c f st rx e =
    (let s' = fsm_ack c f st rx (txSar_rxReply e) fsm_quiet in
     (fsf_event s', fold txSar_rxWrite (fsf_txSarReq s') e))"

fun ack_rounds ::
    "nat \<Rightarrow> fsm_cfg \<Rightarrow> rxFsmMetaData \<Rightarrow> sessionState \<Rightarrow> rxSarEntry \<Rightarrow> txSarEntry \<Rightarrow> event list \<times> txSarEntry" where
  "ack_rounds 0 c f st rx e = ([], e)"
| "ack_rounds (Suc n) c f st rx e =
    (let (ev, e') = ack_rounds n c f st rx e; (ev', e'') = ack_round c f st rx e' in (ev @ ev', e''))"

text \<open>A pure duplicate: no payload, the last acknowledged byte again while bytes are in flight.\<close>

definition pure_duplicate :: "rxEngineMetaData \<Rightarrow> txSarEntry \<Rightarrow> bool" where
  "pure_duplicate m e \<longleftrightarrow> me_length m = 0 \<and> me_ackNumb m = tse_ackd e \<and> tse_ackd e \<noteq> tse_not_ackd e"

lemma ack_round_duplicate:
  assumes d: "pure_duplicate (mf_meta f) e"
    and st: "st \<in> {ESTABLISHED, SYN_RECEIVED, FIN_WAIT_1, CLOSING, LAST_ACK}"
  shows "ack_round c f st rx e =
    ((if tse_count e + 1 = 3 \<and> \<not> tse_fastRetransmitted e then [event2 RT (mf_sessionID f)] else []),
     e\<lparr>tse_recv_window := me_winSize (mf_meta f), tse_count := tse_count e + 1,
       tse_fastRetransmitted := (tse_count e + 1 = 3 \<or> tse_fastRetransmitted e)\<rparr>)"
proof -
  have win: "ack_in_window (tse_ackd e) (tse_ackd e) (tse_not_ackd e)"
    by (simp add: ack_in_window_def) (metis linorder_le_less_linear)
  show ?thesis
    unfolding ack_round_def fsm_ack_def Let_def if_P[OF st]
    using d win
    by (simp add: pure_duplicate_def duplicate_ack_def fsm_ackCount_def txSar_rxReply_def
        fsm_payloadBypass_def fsm_payloadOoo_def fsm_ackEvent_def fsm_ackState_def put_defs Let_def
        rxTxSarQuery_wr_def txSar_rxWrite_def fsm_quiet_def fsm_ex_def)
qed

text \<open>Of any number of pure duplicate acknowledgements in a row exactly the third asks for a fast
  retransmission, although the 2-bit counter of the table wraps around at the fourth.\<close>

lemma fast_retransmit_once:
  assumes "pure_duplicate (mf_meta f) e" and "tse_count e = 0" and "\<not> tse_fastRetransmitted e"
    and "st \<in> {ESTABLISHED, SYN_RECEIVED, FIN_WAIT_1, CLOSING, LAST_ACK}"
  shows "fst (ack_rounds n c f st rx e) = (if 3 \<le> n then [event2 RT (mf_sessionID f)] else [])"
proof -
  have "fst (ack_rounds n c f st rx e) = (if 3 \<le> n then [event2 RT (mf_sessionID f)] else [])
      \<and> pure_duplicate (mf_meta f) (snd (ack_rounds n c f st rx e))
      \<and> tse_count (snd (ack_rounds n c f st rx e)) = of_nat n
      \<and> tse_fastRetransmitted (snd (ack_rounds n c f st rx e)) = (3 \<le> n)"
  proof (induction n)
    case 0
    then show ?case using assms by simp
  next
    case (Suc n)
    let ?e = "snd (ack_rounds n c f st rx e)"
    have pd: "pure_duplicate (mf_meta f) ?e" using Suc by simp
    have three: "(of_nat n = (2 :: 2 word)) = (n mod 4 = 2)"
    proof -
      have "(of_nat n = (2 :: 2 word)) = (unat (of_nat n :: 2 word) = unat (2 :: 2 word))"
        by (rule word_unat_eq_iff)
      also have "\<dots> = (n mod 4 = 2)" by (simp only: unat_of_nat) simp
      finally show ?thesis .
    qed
    have n2: "n mod 4 = 2 \<and> \<not> 3 \<le> n \<longleftrightarrow> n = 2" "n mod 4 = 2 \<or> 3 \<le> n \<longleftrightarrow> 3 \<le> Suc n" by presburger+
    show ?case using Suc n2
      by (simp add: ack_round_duplicate[OF pd assms(4)] case_prod_unfold Let_def three
          pure_duplicate_def add.commute)
  qed
  then show ?thesis by blast
qed

lemma fast_retransmit_once_witness:
  "fst (ack_rounds 9 cfg_ex (fsmMeta_ex (meta_ex 5 99 0 True False)) ESTABLISHED (rx_ex 5) txSar_ex)
     = [event2 RT 7]"
  using fast_retransmit_once[of "fsmMeta_ex (meta_ex 5 99 0 True False)" txSar_ex ESTABLISHED 9
      cfg_ex "rx_ex 5"]
  by (simp add: fsmMeta_ex_def meta_ex_def txSar_ex_def pure_duplicate_def del: ack_rounds.simps)

end
