(* ===== verification/Hash_Table.thy ===== *)
theory Hash_Table
  imports Toe_Types
begin

text \<open>
  \<^verbatim>\<open>hash_table/hash_table.cpp\<close>: the cuckoo hash table behind the session lookup, nine tables of 64
  cells each (\<^verbatim>\<open>MAX_NUMBER_OF_ENTRIES\<close> is \<^verbatim>\<open>MAX_SESSIONS\<close> = 1000, and \<^verbatim>\<open>ConstLog2(1000/8)\<close> is 6).
  The content of \<^verbatim>\<open>tabulation_table\<close>, 1152 random numbers, is the argument \<open>tab\<close> of the
  definitions: everything proved here holds for every table of numbers.

  The abstract view is a partial map from keys to values (\<open>ht_map\<close>). A lookup reads the map, a
  removal clears the key, an insertion that succeeds adds it; an insertion that gives up after
  \<^verbatim>\<open>MAX_TRIALS\<close> evictions leaves the map without one of the entries it should hold, which need not
  be the new one. The argument \<open>u\<close> is the unassigned value of a reply without a hit.
\<close>

subsection \<open>Data\<close>

type_synonym htKey = "64 word"
type_synonym htIdx = "6 word"
type_synonym tabulation = "nat \<Rightarrow> bool \<Rightarrow> nat \<Rightarrow> u16"

definition NUM_TABLES :: nat where "NUM_TABLES = 9"
definition KEY_SIZE :: nat where "KEY_SIZE = 64"
definition MAX_TRIALS :: nat where "MAX_TRIALS = 12"
definition TABLE_SIZE :: nat where "TABLE_SIZE = 2 ^ 6"

datatype lookupSource = RX | TX_APP
datatype kvOperation = KV_INSERT | KV_DELETE

record htEntry =
  hte_key :: htKey
  hte_value :: u16
  hte_valid :: bool

record htLookupReq =
  hlq_key :: htKey
  hlq_source :: lookupSource

record htLookupResp =
  hlr_key :: htKey
  hlr_value :: u16
  hlr_hit :: bool
  hlr_source :: lookupSource

record htUpdateReq =
  huq_op :: kvOperation
  huq_key :: htKey
  huq_value :: u16
  huq_source :: lookupSource

record htUpdateResp =
  hur_op :: kvOperation
  hur_key :: htKey
  hur_value :: u16
  hur_success :: bool
  hur_source :: lookupSource

type_synonym cuckoo = "nat \<Rightarrow> htIdx \<Rightarrow> htEntry"

record ht_st =
  ht_tables :: cuckoo
  ht_victimBit :: bool
  ht_failures :: u16
  ht_regFailures :: u16
  htf_lupReq :: "htLookupReq fifo"
  htf_updReq :: "htUpdateReq fifo"
  htf_lupRsp :: "htLookupResp fifo"
  htf_updRsp :: "htUpdateResp fifo"

definition htEntry_of :: "htKey \<Rightarrow> u16 \<Rightarrow> htEntry" where
  "htEntry_of k v = \<lparr>hte_key = k, hte_value = v, hte_valid = True\<rparr>"

subsection \<open>Operations\<close>

definition calculate_hashes :: "tabulation \<Rightarrow> htKey \<Rightarrow> nat \<Rightarrow> htIdx" where
  "calculate_hashes tab key i =
    fold (\<lambda>k hash. hash XOR range_get 5 0 (tab i (bit key k) k)) [0..<KEY_SIZE] 0"

text \<open>\<^verbatim>\<open>int slot = -1\<close> and the unrolled search, which keeps the last match.\<close>

definition last_slot :: "(nat \<Rightarrow> bool) \<Rightarrow> nat option" where
  "last_slot P = fold (\<lambda>i slot. if P i then Some i else slot) [0..<NUM_TABLES] None"

definition key_slot :: "tabulation \<Rightarrow> cuckoo \<Rightarrow> htKey \<Rightarrow> nat option" where
  "key_slot tab T k = last_slot (\<lambda>i. hte_valid (T i (calculate_hashes tab k i))
                                    \<and> hte_key (T i (calculate_hashes tab k i)) = k)"

definition ht_lookup :: "tabulation \<Rightarrow> u16 \<Rightarrow> cuckoo \<Rightarrow> htLookupReq \<Rightarrow> htLookupResp" where
  "ht_lookup tab u T q =
    (let r = \<lparr>hlr_key = hlq_key q, hlr_value = u, hlr_hit = False, hlr_source = hlq_source q\<rparr> in
     case key_slot tab T (hlq_key q) of
       None \<Rightarrow> r
     | Some i \<Rightarrow> r\<lparr>hlr_value := hte_value (T i (calculate_hashes tab (hlq_key q) i)), hlr_hit := True\<rparr>)"

text \<open>The nine current entries written back to their cells.\<close>

definition write_back :: "(nat \<Rightarrow> htIdx) \<Rightarrow> (nat \<Rightarrow> htEntry) \<Rightarrow> cuckoo \<Rightarrow> cuckoo" where
  "write_back h cur T = (\<lambda>i a. if i < NUM_TABLES \<and> a = h i then cur i else T i a)"

fun insertLoop :: "tabulation \<Rightarrow> nat \<Rightarrow> 8 word \<Rightarrow> bool \<Rightarrow> htEntry \<Rightarrow> cuckoo
    \<Rightarrow> bool \<times> bool \<times> cuckoo" where
  "insertLoop tab 0 vi vb e T = (False, vb, T)"
| "insertLoop tab (Suc n) vi vb e T =
    (let h = calculate_hashes tab (hte_key e); cur = (\<lambda>i. T i (h i)) in
     case last_slot (\<lambda>i. \<not> hte_valid (cur i)) of
       Some slot \<Rightarrow> (True, \<not> vb, write_back h (cur(slot := e)) T)
     | None \<Rightarrow>
        (let pos = unat (h (unat vi)) mod (NUM_TABLES - 1) + of_bool vb;
             vi' = (if vi + 1 = of_nat NUM_TABLES then 0 else vi + 1) in
         insertLoop tab n vi' (\<not> vb) (cur pos) (write_back h (cur(pos := e)) T)))"

definition ht_insert :: "tabulation \<Rightarrow> htUpdateReq \<Rightarrow> ht_st \<Rightarrow> ht_st \<times> htUpdateResp" where
  "ht_insert tab q s =
    (let s = s\<lparr>ht_regFailures := ht_failures s\<rparr>;
         (ok, vb, T) = insertLoop tab MAX_TRIALS 0 (ht_victimBit s)
                         (htEntry_of (huq_key q) (huq_value q)) (ht_tables s);
         s = s\<lparr>ht_tables := T, ht_victimBit := vb\<rparr>;
         s = (if \<not> ok then s\<lparr>ht_failures := ht_failures s + 1\<rparr> else s) in
     (s, \<lparr>hur_op = huq_op q, hur_key = huq_key q, hur_value = huq_value q, hur_success = ok,
          hur_source = huq_source q\<rparr>))"

definition ht_remove :: "tabulation \<Rightarrow> htUpdateReq \<Rightarrow> ht_st \<Rightarrow> ht_st \<times> htUpdateResp" where
  "ht_remove tab q s =
    (let k = huq_key q; h = calculate_hashes tab k; T = ht_tables s;
         hit = (\<lambda>i. hte_valid (T i (h i)) \<and> hte_key (T i (h i)) = k);
         cur = (\<lambda>i. if hit i then (T i (h i))\<lparr>hte_valid := False\<rparr> else T i (h i)) in
     (s\<lparr>ht_tables := write_back h cur T\<rparr>,
      \<lparr>hur_op = huq_op q, hur_key = k, hur_value = huq_value q,
       hur_success = list_ex hit [0..<NUM_TABLES], hur_source = huq_source q\<rparr>))"

definition ht_update :: "tabulation \<Rightarrow> htUpdateReq \<Rightarrow> ht_st \<Rightarrow> ht_st \<times> htUpdateResp" where
  "ht_update tab q s =
    (case huq_op q of KV_INSERT \<Rightarrow> ht_insert tab q s | KV_DELETE \<Rightarrow> ht_remove tab q s)"

definition hash_table :: "tabulation \<Rightarrow> u16 \<Rightarrow> ht_st \<Rightarrow> ht_st" where
  "hash_table tab u s =
    (if htf_lupReq s \<noteq> [] then
       (let q = hd (htf_lupReq s); s = s\<lparr>htf_lupReq := tl (htf_lupReq s)\<rparr> in
        s\<lparr>htf_lupRsp := htf_lupRsp s @ [ht_lookup tab u (ht_tables s) q]\<rparr>)
     else if htf_updReq s \<noteq> [] then
       (let q = hd (htf_updReq s); s = s\<lparr>htf_updReq := tl (htf_updReq s)\<rparr>;
            (s, r) = ht_update tab q s in
        s\<lparr>htf_updRsp := htf_updRsp s @ [r]\<rparr>)
     else s)"

subsection \<open>The search for a slot\<close>

lemma fold_last:
  "fold (\<lambda>i slot. if P i then Some i else slot) xs s =
     (if \<exists>i \<in> set xs. P i then Some (last (filter P xs)) else s)"
  by (induction xs arbitrary: s) (auto simp: filter_empty_conv)

lemma last_slot_None: "last_slot P = None \<longleftrightarrow> (\<forall>i < NUM_TABLES. \<not> P i)"
  by (auto simp: last_slot_def fold_last)

lemma last_slot_Some: "last_slot P = Some i \<Longrightarrow> i < NUM_TABLES \<and> P i"
proof -
  assume s: "last_slot P = Some i"
  then have ne: "filter P [0..<NUM_TABLES] \<noteq> []" and i: "i = last (filter P [0..<NUM_TABLES])"
    by (auto simp: last_slot_def fold_last filter_empty_conv split: if_splits)
  then show ?thesis using last_in_set[OF ne] by auto
qed

lemma last_slot_unique:
  assumes "i < NUM_TABLES" and "P i" and "\<And>j. j < NUM_TABLES \<Longrightarrow> P j \<Longrightarrow> j = i"
  shows "last_slot P = Some i"
proof (cases "last_slot P")
  case None
  then show ?thesis using assms(1,2) unfolding last_slot_None by blast
next
  case (Some j)
  then show ?thesis using assms(3)[of j] last_slot_Some[OF Some] by simp
qed

subsection \<open>The table as a map\<close>

definition ht_map :: "tabulation \<Rightarrow> cuckoo \<Rightarrow> htKey \<rightharpoonup> u16" where
  "ht_map tab T k = map_option (\<lambda>i. hte_value (T i (calculate_hashes tab k i))) (key_slot tab T k)"

text \<open>Every valid entry is in the cell its key hashes to, and a key is in one table only.\<close>

definition ht_wf :: "tabulation \<Rightarrow> cuckoo \<Rightarrow> bool" where
  "ht_wf tab T \<longleftrightarrow>
    (\<forall>i < NUM_TABLES. \<forall>a. hte_valid (T i a) \<longrightarrow> calculate_hashes tab (hte_key (T i a)) i = a) \<and>
    (\<forall>i < NUM_TABLES. \<forall>j < NUM_TABLES. \<forall>a b. hte_valid (T i a) \<longrightarrow> hte_valid (T j b)
        \<longrightarrow> hte_key (T i a) = hte_key (T j b) \<longrightarrow> i = j)"

lemma ht_wf_cell: "ht_wf tab T \<Longrightarrow> i < NUM_TABLES \<Longrightarrow> hte_valid (T i a)
    \<Longrightarrow> calculate_hashes tab (hte_key (T i a)) i = a"
  by (simp add: ht_wf_def)

lemma ht_wf_one: "ht_wf tab T \<Longrightarrow> i < NUM_TABLES \<Longrightarrow> j < NUM_TABLES \<Longrightarrow> hte_valid (T i a)
    \<Longrightarrow> hte_valid (T j b) \<Longrightarrow> hte_key (T i a) = hte_key (T j b) \<Longrightarrow> i = j"
  unfolding ht_wf_def by blast

lemma ht_map_Some:
  assumes "ht_wf tab T"
  shows "ht_map tab T k = Some v \<longleftrightarrow>
    (\<exists>i < NUM_TABLES. \<exists>a. hte_valid (T i a) \<and> hte_key (T i a) = k \<and> hte_value (T i a) = v)"
    (is "?l \<longleftrightarrow> ?r")
proof
  assume ?l
  then show ?r
    unfolding ht_map_def key_slot_def by (auto dest: last_slot_Some)
next
  assume ?r
  then obtain i a where i: "i < NUM_TABLES" "hte_valid (T i a)" "hte_key (T i a) = k" "hte_value (T i a) = v"
    by blast
  have a: "calculate_hashes tab k i = a" using ht_wf_cell[OF assms i(1,2)] i(3) by simp
  have "key_slot tab T k = Some i"
    unfolding key_slot_def using i a
    by (intro last_slot_unique) (auto intro: ht_wf_one[OF assms])
  then show ?l using a i by (simp add: ht_map_def)
qed

lemma ht_map_None:
  assumes "ht_wf tab T"
  shows "ht_map tab T k = None \<longleftrightarrow>
    (\<forall>i < NUM_TABLES. \<forall>a. hte_valid (T i a) \<longrightarrow> hte_key (T i a) \<noteq> k)"
  using ht_map_Some[OF assms, of k] by (metis not_None_eq)


text \<open>An entry put in the cell its key hashes to: the previous content of the cell leaves the map.\<close>

lemma write_back_one:
  "p < NUM_TABLES \<Longrightarrow> write_back h ((\<lambda>i. T i (h i))(p := e)) T = T(p := (T p)(h p := e))"
  by (auto simp: write_back_def fun_eq_iff)

lemma ht_place:
  assumes wf: "ht_wf tab T" and p: "p < NUM_TABLES" and e: "hte_valid e"
    and new: "ht_map tab T (hte_key e) = None" and h: "h = calculate_hashes tab (hte_key e)"
  defines "T' \<equiv> T(p := (T p)(h p := e))" and "old \<equiv> T p (h p)"
  shows "ht_wf tab T'"
    and "ht_map tab T' = (if hte_valid old then (ht_map tab T)(hte_key old := None) else ht_map tab T)
           (hte_key e \<mapsto> hte_value e)"
proof -
  have fresh: "hte_key (T i a) \<noteq> hte_key e" if "i < NUM_TABLES" "hte_valid (T i a)" for i a
    using new that unfolding ht_map_None[OF wf] by blast
  have T': "T' i a = (if i = p \<and> a = h p then e else T i a)" for i a by (simp add: T'_def)
  show wf': "ht_wf tab T'"
    unfolding ht_wf_def T'
    using ht_wf_cell[OF wf] ht_wf_one[OF wf] fresh e h by (auto split: if_splits) metis+
  have old_only: "i = p \<and> a = h p" if "hte_valid old" "i < NUM_TABLES" "hte_valid (T i a)"
      "hte_key (T i a) = hte_key old" for i a
  proof -
    have "i = p" using ht_wf_one[OF wf that(2) p that(3)] that(1,4) by (simp add: old_def)
    moreover have "a = calculate_hashes tab (hte_key old) i"
      using ht_wf_cell[OF wf that(2,3)] that(4) by simp
    moreover have "calculate_hashes tab (hte_key old) p = h p"
      using ht_wf_cell[OF wf p] that(1) by (simp add: old_def)
    ultimately show ?thesis by simp
  qed
  show "ht_map tab T' = (if hte_valid old then (ht_map tab T)(hte_key old := None) else ht_map tab T)
           (hte_key e \<mapsto> hte_value e)" (is "_ = ?m")
  proof
    fix k
    have "ht_map tab T' k = Some v \<longleftrightarrow> ?m k = Some v" for v
    proof (cases "k = hte_key e")
      case True
      then show ?thesis unfolding ht_map_Some[OF wf'] T' using p e fresh
        by (auto split: if_splits)
    next
      case False
      show ?thesis
      proof (cases "hte_valid old \<and> k = hte_key old")
        case True
        then show ?thesis using False old_only unfolding ht_map_Some[OF wf'] T'
          by (auto split: if_splits)
      next
        case nold: False
        have "hte_valid (T' i a) \<and> hte_key (T' i a) = k \<and> hte_value (T' i a) = v \<longleftrightarrow>
            hte_valid (T i a) \<and> hte_key (T i a) = k \<and> hte_value (T i a) = v" for i a
          using False nold by (cases "i = p \<and> a = h p") (auto simp: old_def T')
        then have "ht_map tab T' k = Some v \<longleftrightarrow> ht_map tab T k = Some v"
          unfolding ht_map_Some[OF wf'] ht_map_Some[OF wf] by simp
        then show ?thesis using False nold by auto
      qed
    qed
    then show "ht_map tab T' k = ?m k" by (metis not_None_eq)
  qed
qed


lemma insertLoop_spec:
  assumes "ht_wf tab T" and "hte_valid e" and "ht_map tab T (hte_key e) = None"
    and "insertLoop tab n vi vb e T = (ok, vb', T')"
  defines "N \<equiv> (ht_map tab T)(hte_key e \<mapsto> hte_value e)"
  shows "ht_wf tab T' \<and> (if ok then ht_map tab T' = N
           else \<exists>l \<in> dom N. ht_map tab T' = N(l := None))"
  using assms(1-4) unfolding N_def
proof (induction n arbitrary: vi vb e T)
  case 0
  then have "ok = False" "T' = T" by simp_all
  moreover have "ht_map tab T = ((ht_map tab T)(hte_key e \<mapsto> hte_value e))(hte_key e := None)"
    using 0(3) by (simp add: fun_eq_iff)
  ultimately show ?case using 0(1) by (metis (no_types, lifting) domI fun_upd_same)
next
  case (Suc n)
  let ?h = "calculate_hashes tab (hte_key e)"
  let ?N = "(ht_map tab T)(hte_key e \<mapsto> hte_value e)"
  show ?case
  proof (cases "last_slot (\<lambda>i. \<not> hte_valid (T i (?h i)))")
    case (Some p)
    then have p: "p < NUM_TABLES" "\<not> hte_valid (T p (?h p))" using last_slot_Some by blast+
    have eq: "ok" "T' = T(p := (T p)(?h p := e))"
      using Suc.prems(4) Some write_back_one[OF p(1), of ?h T e] by (simp_all add: Let_def)
    have "ht_wf tab T' \<and> ht_map tab T' = ?N"
      using ht_place[OF Suc.prems(1) p(1) Suc.prems(2,3) refl] p(2) eq(2) by presburger
    then show ?thesis using eq(1) by simp
  next
    case None
    define p where "p = unat (?h (unat vi)) mod (NUM_TABLES - 1) + of_bool vb"
    define w where "w = (if vi + 1 = of_nat NUM_TABLES then 0 else vi + 1)"
    let ?old = "T p (?h p)" and ?T = "T(p := (T p)(?h p := e))"
    have "unat (?h (unat vi)) mod (NUM_TABLES - 1) < 8" by (simp add: NUM_TABLES_def)
    moreover have "of_bool vb \<le> (1 :: nat)" by simp
    ultimately have p: "p < NUM_TABLES"
      unfolding p_def NUM_TABLES_def by linarith
    have old: "hte_valid ?old" using None p unfolding last_slot_None by blast
    have loop: "insertLoop tab n w (\<not> vb) ?old ?T = (ok, vb', T')"
      using Suc.prems(4) None write_back_one[OF p, of ?h T e] by (simp add: Let_def p_def w_def)
    note pl = ht_place[OF Suc.prems(1) p Suc.prems(2,3) refl]
    have in_old: "ht_map tab T (hte_key ?old) = Some (hte_value ?old)"
      using old p unfolding ht_map_Some[OF Suc.prems(1)] by blast
    then have ne: "hte_key ?old \<noteq> hte_key e" using Suc.prems(3) by auto
    then have none: "ht_map tab ?T (hte_key ?old) = None" using pl(2) old by simp
    have same: "(ht_map tab ?T)(hte_key ?old \<mapsto> hte_value ?old) = ?N"
      unfolding pl(2) using old in_old ne by (auto simp: fun_eq_iff)
    show ?thesis using Suc.IH[OF pl(1) old none loop] unfolding same .
  qed
qed

lemma ht_remove_map:
  fixes k :: htKey
  assumes wf: "ht_wf tab T"
  defines "h \<equiv> calculate_hashes tab k"
  defines "hit \<equiv> \<lambda>i. hte_valid (T i (h i)) \<and> hte_key (T i (h i)) = k"
  defines "T' \<equiv> write_back h (\<lambda>i. if hit i then (T i (h i))\<lparr>hte_valid := False\<rparr> else T i (h i)) T"
  shows "ht_wf tab T'" and "ht_map tab T' = (ht_map tab T)(k := None)"
    and "list_ex hit [0..<NUM_TABLES] \<longleftrightarrow> k \<in> dom (ht_map tab T)"
proof -
  have key: "hte_key (T' i a) = hte_key (T i a)" and val: "hte_value (T' i a) = hte_value (T i a)" for i a
    by (simp_all add: T'_def write_back_def)
  have cell: "a = h i" if "i < NUM_TABLES" "hte_valid (T i a)" "hte_key (T i a) = k" for i a
    using ht_wf_cell[OF wf that(1,2)] that(3) by (simp add: h_def)
  have valid: "hte_valid (T' i a) \<longleftrightarrow> hte_valid (T i a) \<and> hte_key (T i a) \<noteq> k" if "i < NUM_TABLES" for i a
    using cell[OF that] that by (auto simp: T'_def write_back_def hit_def)
  show wf': "ht_wf tab T'"
    unfolding ht_wf_def using ht_wf_cell[OF wf] ht_wf_one[OF wf] by (simp add: valid key) blast
  show "ht_map tab T' = (ht_map tab T)(k := None)"
  proof
    fix x
    have "ht_map tab T' x = Some v \<longleftrightarrow> ((ht_map tab T)(k := None)) x = Some v" for v
    proof (cases "x = k")
      case True
      then show ?thesis unfolding ht_map_Some[OF wf'] by (simp add: valid key cong: conj_cong)
    next
      case False
      then have "hte_valid (T' i a) \<and> hte_key (T' i a) = x \<longleftrightarrow> hte_valid (T i a) \<and> hte_key (T i a) = x"
        if "i < NUM_TABLES" for i a using that by (auto simp: valid key)
      then show ?thesis using False unfolding ht_map_Some[OF wf']
        by (auto simp: val ht_map_Some[OF wf])
    qed
    then show "ht_map tab T' x = ((ht_map tab T)(k := None)) x" by (metis not_None_eq)
  qed
  show "list_ex hit [0..<NUM_TABLES] \<longleftrightarrow> k \<in> dom (ht_map tab T)"
  proof
    assume "list_ex hit [0..<NUM_TABLES]"
    then obtain i where "i < NUM_TABLES" "hit i" by (auto simp: list_ex_iff)
    then have "ht_map tab T k = Some (hte_value (T i (h i)))"
      unfolding ht_map_Some[OF wf] hit_def by blast
    then show "k \<in> dom (ht_map tab T)" by blast
  next
    assume "k \<in> dom (ht_map tab T)"
    then obtain i a where "i < NUM_TABLES" "hte_valid (T i a)" "hte_key (T i a) = k"
      by (auto simp: ht_map_Some[OF wf])
    then have "i < NUM_TABLES" "hit i" using cell[of i a] by (simp_all add: hit_def)
    then show "list_ex hit [0..<NUM_TABLES]" by (auto simp: list_ex_iff)
  qed
qed

subsection \<open>The contract\<close>

text \<open>One update of a map: an insertion that fails drops some entry of the map it should have made.\<close>

definition kv_update :: "(htKey \<rightharpoonup> u16) \<Rightarrow> htUpdateReq \<Rightarrow> (htKey \<rightharpoonup> u16) \<Rightarrow> bool \<Rightarrow> bool" where
  "kv_update M q M' ok \<longleftrightarrow>
    (case huq_op q of
       KV_INSERT \<Rightarrow> (let N = M(huq_key q \<mapsto> huq_value q) in
                     if ok then M' = N else \<exists>l \<in> dom N. M' = N(l := None))
     | KV_DELETE \<Rightarrow> M' = M(huq_key q := None) \<and> (ok \<longleftrightarrow> huq_key q \<in> dom M))"

definition kv_fresh :: "(htKey \<rightharpoonup> u16) \<Rightarrow> htUpdateReq \<Rightarrow> bool" where
  "kv_fresh M q \<longleftrightarrow> huq_op q = KV_DELETE \<or> M (huq_key q) = None"

definition kv_echo :: "htUpdateReq \<Rightarrow> htUpdateResp \<Rightarrow> bool" where
  "kv_echo q r \<longleftrightarrow> hur_op r = huq_op q \<and> hur_key r = huq_key q \<and> hur_value r = huq_value q
                 \<and> hur_source r = huq_source q"

locale kv_store =
  fixes view :: "'h \<Rightarrow> htKey \<rightharpoonup> u16"
    and upd :: "htUpdateReq \<Rightarrow> 'h \<Rightarrow> 'h \<times> htUpdateResp"
    and wf :: "'h \<Rightarrow> bool"
  assumes upd_view: "wf h \<Longrightarrow> kv_fresh (view h) q
      \<Longrightarrow> wf (fst (upd q h)) \<and> kv_update (view h) q (view (fst (upd q h))) (hur_success (snd (upd q h)))"
    and upd_echo: "kv_echo q (snd (upd q h))"
begin

text \<open>A run of updates that all succeed, insertions of new keys only.\<close>

fun served :: "htUpdateReq list \<Rightarrow> 'h \<Rightarrow> 'h \<Rightarrow> bool" where
  "served [] h h' \<longleftrightarrow> h' = h"
| "served (q # qs) h h' \<longleftrightarrow> kv_fresh (view h) q \<and> hur_success (snd (upd q h))
                          \<and> served qs (fst (upd q h)) h'"

lemma kept:
  assumes "served qs h h'" and "wf h" and "k \<notin> huq_key ` set qs"
  shows "wf h' \<and> view h' k = view h k"
  using assms
proof (induction qs arbitrary: h)
  case (Cons q qs)
  then have "wf (fst (upd q h))" and "view (fst (upd q h)) k = view h k"
    using upd_view[of h q] by (auto simp: kv_update_def Let_def split: kvOperation.splits)
  then show ?case using Cons.IH[of "fst (upd q h)"] Cons.prems by simp
qed simp

end

lemma ht_update_refines:
  assumes "ht_wf tab (ht_tables s)" and "kv_fresh (ht_map tab (ht_tables s)) q"
  shows "ht_wf tab (ht_tables (fst (ht_update tab q s)))
       \<and> kv_update (ht_map tab (ht_tables s)) q (ht_map tab (ht_tables (fst (ht_update tab q s))))
           (hur_success (snd (ht_update tab q s)))"
proof (cases "huq_op q")
  case KV_INSERT
  obtain ok vb T where i: "insertLoop tab MAX_TRIALS 0 (ht_victimBit s)
      (htEntry_of (huq_key q) (huq_value q)) (ht_tables s) = (ok, vb, T)" by (metis prod_cases3)
  show ?thesis
    using insertLoop_spec[OF assms(1) _ _ i] assms(2) KV_INSERT i
    by (auto simp: kv_fresh_def htEntry_of_def ht_update_def ht_insert_def kv_update_def Let_def)
next
  case KV_DELETE
  then show ?thesis using ht_remove_map[OF assms(1), of "huq_key q"]
    by (simp add: ht_update_def ht_remove_def kv_update_def Let_def)
qed

lemma ht_update_echo: "kv_echo q (snd (ht_update tab q s))"
  by (simp add: ht_update_def ht_insert_def ht_remove_def kv_echo_def Let_def case_prod_unfold
      split: kvOperation.splits)

interpretation ht: kv_store "\<lambda>s. ht_map tab (ht_tables s)" "ht_update tab" "\<lambda>s. ht_wf tab (ht_tables s)"
  for tab
  by unfold_locales (simp_all add: ht_update_refines ht_update_echo)


subsection \<open>Properties\<close>

text \<open>C13. Every call of the hash table answers at most one request, lookups first: a lookup is answered
  from the map and changes nothing, an update of a new key or a removal is an update of the map as
  the contract describes it, and the reply repeats the request. The cells stay well placed.\<close>

theorem hash_table_refines:
  fixes u :: u16
  assumes "ht_wf tab (ht_tables s)"
    and "htf_lupReq s = [] \<Longrightarrow> htf_updReq s \<noteq> [] \<Longrightarrow> kv_fresh (ht_map tab (ht_tables s)) (hd (htf_updReq s))"
  defines "M \<equiv> ht_map tab (ht_tables s)" and "s' \<equiv> hash_table tab u s"
  shows "ht_wf tab (ht_tables s')
    \<and> (if htf_lupReq s \<noteq> [] then
         ht_map tab (ht_tables s') = M
         \<and> (\<exists>r. htf_lupRsp s' = htf_lupRsp s @ [r] \<and> hlr_key r = hlq_key (hd (htf_lupReq s))
               \<and> hlr_source r = hlq_source (hd (htf_lupReq s))
               \<and> (if hlr_hit r then Some (hlr_value r) else None) = M (hlq_key (hd (htf_lupReq s))))
       else if htf_updReq s \<noteq> [] then
         (\<exists>r. htf_updRsp s' = htf_updRsp s @ [r] \<and> kv_echo (hd (htf_updReq s)) r
            \<and> kv_update M (hd (htf_updReq s)) (ht_map tab (ht_tables s')) (hur_success r))
       else s' = s)"
proof (cases "htf_lupReq s = []")
  case False
  then show ?thesis using assms(1)
    by (auto simp: s'_def M_def hash_table_def Let_def ht_lookup_def ht_map_def split: option.splits)
next
  case True
  have frame: "ht_update tab q (s\<lparr>htf_updReq := x\<rparr>)
      = (let (t, r) = ht_update tab q s in (t\<lparr>htf_updReq := x\<rparr>, r))" for q x
    by (simp add: ht_update_def ht_insert_def ht_remove_def Let_def case_prod_unfold
        split: kvOperation.splits)
  have rsp: "htf_updRsp (fst (ht_update tab q s)) = htf_updRsp s" for q
    by (simp add: ht_update_def ht_insert_def ht_remove_def Let_def case_prod_unfold
        split: kvOperation.splits)
  show ?thesis
  proof (cases "htf_updReq s = []")
    case True
    with \<open>htf_lupReq s = []\<close> assms(1) show ?thesis by (simp add: s'_def hash_table_def)
  next
    case False
    then show ?thesis
      using True ht.upd_view[OF assms(1) assms(2)] ht.upd_echo
      by (simp add: s'_def M_def hash_table_def Let_def case_prod_unfold frame rsp)
  qed
qed

definition ht_ex :: "(htUpdateReq list) \<Rightarrow> ht_st" where
  "ht_ex qs = \<lparr>ht_tables = (\<lambda>_ _. \<lparr>hte_key = 0, hte_value = 0, hte_valid = False\<rparr>),
     ht_victimBit = False, ht_failures = 0, ht_regFailures = 0, htf_lupReq = [], htf_updReq = qs,
     htf_lupRsp = [], htf_updRsp = []\<rparr>"

lemma ht_empty [simp]: "ht_wf tab (ht_tables (ht_ex qs))" "ht_map tab (ht_tables (ht_ex qs)) = (\<lambda>_. None)"
proof -
  show "ht_wf tab (ht_tables (ht_ex qs))" by (simp add: ht_ex_def ht_wf_def)
  then show "ht_map tab (ht_tables (ht_ex qs)) = (\<lambda>_. None)"
    by (simp add: fun_eq_iff ht_map_None) (simp add: ht_ex_def)
qed

definition ins_ex :: "htKey \<Rightarrow> u16 \<Rightarrow> htUpdateReq" where
  "ins_ex k v = \<lparr>huq_op = KV_INSERT, huq_key = k, huq_value = v, huq_source = RX\<rparr>"

lemma hash_table_refines_witness:
  "\<exists>r. htf_updRsp (hash_table (\<lambda>_ _ _. 0) 0 (ht_ex [ins_ex 5 9])) = [r] \<and> kv_echo (ins_ex 5 9) r"
  using hash_table_refines[of "\<lambda>_ _ _. 0" "ht_ex [ins_ex 5 9]" 0] ht_empty[of "\<lambda>_ _ _. 0" "[ins_ex 5 9]"]
  by (auto simp: kv_fresh_def) (auto simp: ht_ex_def)

text \<open>A run of updates in which every insertion is of a new key and every update succeeds.\<close>

fun ht_served :: "tabulation \<Rightarrow> htUpdateReq list \<Rightarrow> ht_st \<Rightarrow> ht_st option" where
  "ht_served tab [] s = Some s"
| "ht_served tab (q # qs) s =
    (if kv_fresh (ht_map tab (ht_tables s)) q \<and> hur_success (snd (ht_update tab q s))
     then ht_served tab qs (fst (ht_update tab q s)) else None)"

lemma ht_served_iff: "ht_served tab qs s = Some s' \<longleftrightarrow> ht.served tab qs s s'"
  by (induction qs arbitrary: s) auto

text \<open>A session that was inserted is found by a lookup, with its number, after any sequence of
  further updates of other keys that succeed.\<close>

lemma inserted_is_found:
  assumes "ht_wf tab (ht_tables s)" and "huq_op q = KV_INSERT"
    and "ht_served tab (q # qs) s = Some s'" and "huq_key q \<notin> huq_key ` set qs"
  shows "ht_lookup tab u (ht_tables s') \<lparr>hlq_key = huq_key q, hlq_source = src\<rparr>
       = \<lparr>hlr_key = huq_key q, hlr_value = huq_value q, hlr_hit = True, hlr_source = src\<rparr>"
proof -
  let ?t = "fst (ht_update tab q s)"
  have fr: "kv_fresh (ht_map tab (ht_tables s)) q" and ok: "hur_success (snd (ht_update tab q s))"
    and run: "ht.served tab qs ?t s'"
    using assms(3) by (auto simp: ht_served_iff split: if_splits)
  have "ht_wf tab (ht_tables ?t)" "ht_map tab (ht_tables ?t) (huq_key q) = Some (huq_value q)"
    using ht.upd_view[OF assms(1) fr] ok assms(2) by (simp_all add: kv_update_def Let_def)
  then have "ht_map tab (ht_tables s') (huq_key q) = Some (huq_value q)"
    using ht.kept[OF run _ assms(4)] by simp
  then show ?thesis by (auto simp: ht_lookup_def ht_map_def)
qed

lemma hash_zero: "calculate_hashes (\<lambda>_ _ _. 0) k i = 0"
proof -
  have "fold (\<lambda>k hash. hash XOR range_get 5 0 (0 :: u16)) ks h = (h :: htIdx)" for ks h
    by (induction ks arbitrary: h) (simp_all add: range_get_def)
  then show ?thesis by (simp add: calculate_hashes_def)
qed

lemma inserted_is_found_witness:
  "\<exists>s' :: ht_st. ht_lookup (\<lambda>_ _ _. 0) 0 (ht_tables s') \<lparr>hlq_key = 5, hlq_source = TX_APP\<rparr>
       = \<lparr>hlr_key = 5, hlr_value = 9, hlr_hit = True, hlr_source = TX_APP\<rparr>"
proof -
  let ?tab = "\<lambda>_ _ _. 0 :: u16"
  have run: "\<exists>s'. ht_served ?tab [ins_ex 5 9, ins_ex 6 3] (ht_ex []) = Some s'"
    by (simp add: ht_update_def ht_insert_def ins_ex_def kv_fresh_def ht_map_def key_slot_def hash_zero
        last_slot_def MAX_TRIALS_def NUM_TABLES_def upt_rec Let_def ht_ex_def htEntry_of_def
        write_back_def eval_nat_numeral)
  then obtain s' where "ht_served ?tab [ins_ex 5 9, ins_ex 6 3] (ht_ex []) = Some s'" by blast
  from inserted_is_found[OF ht_empty(1) _ this, of 0 TX_APP]
  have "ht_lookup ?tab 0 (ht_tables s') \<lparr>hlq_key = 5, hlq_source = TX_APP\<rparr>
       = \<lparr>hlr_key = 5, hlr_value = 9, hlr_hit = True, hlr_source = TX_APP\<rparr>"
    by (simp add: ins_ex_def)
  then show ?thesis by (rule exI)
qed

text \<open>The table never holds more than 9 * 64 = 576 entries, so it cannot hold the 1000 sessions that
  the stack hands out.\<close>

lemma ht_capacity:
  "finite (dom (ht_map tab T)) \<and> card (dom (ht_map tab T)) \<le> NUM_TABLES * TABLE_SIZE
   \<and> NUM_TABLES * TABLE_SIZE < MAX_SESSIONS"
proof -
  define cell where "cell k = (the (key_slot tab T k), calculate_hashes tab k (the (key_slot tab T k)))" for k
  have slot: "\<exists>i. key_slot tab T k = Some i \<and> i < NUM_TABLES \<and> hte_key (T i (calculate_hashes tab k i)) = k"
    if "k \<in> dom (ht_map tab T)" for k
    using that last_slot_Some by (fastforce simp: ht_map_def key_slot_def)
  have inj: "inj_on cell (dom (ht_map tab T))"
    by (rule inj_onI) (metis slot cell_def option.sel prod.inject)
  have sub: "cell ` dom (ht_map tab T) \<subseteq> {..<NUM_TABLES} \<times> UNIV"
    using slot by (fastforce simp: cell_def)
  have fin: "finite ({..<NUM_TABLES} \<times> (UNIV :: htIdx set))" by simp
  have "finite (dom (ht_map tab T))" using inj sub fin by (rule inj_on_finite)
  moreover have "card (dom (ht_map tab T)) \<le> card ({..<NUM_TABLES} \<times> (UNIV :: htIdx set))"
    using inj sub fin by (rule card_inj_on_le)
  then have "card (dom (ht_map tab T)) \<le> NUM_TABLES * TABLE_SIZE"
    by (simp add: card_cartesian_product card_word TABLE_SIZE_def)
  ultimately show ?thesis by (simp add: NUM_TABLES_def TABLE_SIZE_def MAX_SESSIONS_def)
qed

end
