(* ===== verification/Session_Lookup.thy ===== *)
theory Session_Lookup
  imports Hash_Table
begin

text \<open>
  \<^verbatim>\<open>toe/session_lookup_controller/session_lookup_controller.cpp\<close>: the five processes that give a
  connection its session number and take the number back. They share the streams of
  \<open>sl_st\<close>; \<open>sl_step\<close> is one call of any of them, one answer of the hash table to the oldest update,
  or one item from the outside, so a list of events is any interleaving of the dataflow region.
  The hash table is the interface \<open>kv_store\<close>; of it the numbers only need that a reply repeats
  the request. Replies to lookups are arbitrary.
\<close>

subsection \<open>Data\<close>

datatype lookupOp = INSERT | DELETE

record threeTupleInternal =
  tt_theirIp :: u32
  tt_myPort :: u16
  tt_theirPort :: u16

record sessionLookupQueryInternal =
  sqi_tuple :: threeTupleInternal
  sqi_allowCreation :: bool
  sqi_source :: lookupSource

record rtlSessionLookupRequest =
  rlq_key :: threeTupleInternal
  rlq_source :: lookupSource

record rtlSessionUpdateRequest =
  ruq_op :: lookupOp
  ruq_key :: threeTupleInternal
  ruq_value :: u16
  ruq_source :: lookupSource

record rtlSessionLookupReply =
  rlr_key :: threeTupleInternal
  rlr_sessionID :: u16
  rlr_hit :: bool
  rlr_source :: lookupSource

record rtlSessionUpdateReply =
  rup_op :: lookupOp
  rup_key :: threeTupleInternal
  rup_sessionID :: u16
  rup_success :: bool
  rup_source :: lookupSource

record revLupInsert =
  rli_key :: u16
  rli_value :: threeTupleInternal

datatype slcFsmStateType = LUP_REQ | LUP_RSP | UPD_RSP

record sl_st =
  slc_insertTuples :: "threeTupleInternal fifo"
  slc_queryCache :: "sessionLookupQueryInternal fifo"
  slc_fsmState :: slcFsmStateType
  sid_counter :: "14 word"
  usedSessionIDs :: u16
  regSessionCount :: u16
  reverseLookupTable :: "u16 \<Rightarrow> threeTupleInternal"
  tupleValid :: "u16 \<Rightarrow> bool"
  slf_rxReq :: "sessionLookupQuery fifo"
  slf_txReq :: "fourTuple fifo"
  slf_freeList :: "14 word fifo"
  slf_finFifo :: "14 word fifo"
  slf_lookupReq :: "rtlSessionLookupRequest fifo"
  slf_lookupRsp :: "rtlSessionLookupReply fifo"
  slf_insertReq :: "rtlSessionUpdateRequest fifo"
  slf_deleteReq :: "rtlSessionUpdateRequest fifo"
  slf_updateReq :: "rtlSessionUpdateRequest fifo"
  slf_updateRsp :: "rtlSessionUpdateReply fifo"
  slf_insertRsp :: "rtlSessionUpdateReply fifo"
  slf_revInsert :: "revLupInsert fifo"
  slf_rxRsp :: "sessionLookupReply fifo"
  slf_txRsp :: "sessionLookupReply fifo"
  slf_release :: "sid fifo"
  slf_releasePort :: "u16 fifo"
  slf_revReq :: "sid fifo"
  slf_revRsp :: "fourTuple fifo"

subsection \<open>Processes\<close>

definition sessionIdManager :: "sl_st \<Rightarrow> sl_st" where
  "sessionIdManager s =
    (if slf_finFifo s \<noteq> [] then
       s\<lparr>slf_finFifo := tl (slf_finFifo s), slf_freeList := slf_freeList s @ [hd (slf_finFifo s)]\<rparr>
     else if unat (sid_counter s) < MAX_SESSIONS then
       s\<lparr>slf_freeList := slf_freeList s @ [sid_counter s], sid_counter := sid_counter s + 1\<rparr>
     else s)"

text \<open>A query goes to the table and into the cache of queries under way.\<close>

definition slc_ask :: "sessionLookupQueryInternal \<Rightarrow> sl_st \<Rightarrow> sl_st" where
  "slc_ask q s =
     s\<lparr>slf_lookupReq := slf_lookupReq s @ [\<lparr>rlq_key = sqi_tuple q, rlq_source = sqi_source q\<rparr>],
       slc_queryCache := slc_queryCache s @ [q], slc_fsmState := LUP_RSP\<rparr>"

definition slc_reply :: "lookupSource \<Rightarrow> sessionLookupReply \<Rightarrow> sl_st \<Rightarrow> sl_st" where
  "slc_reply src r s =
    (if src = RX then s\<lparr>slf_rxRsp := slf_rxRsp s @ [r]\<rparr> else s\<lparr>slf_txRsp := slf_txRsp s @ [r]\<rparr>)"

definition lookupReplyHandler :: "sl_st \<Rightarrow> sl_st" where
  "lookupReplyHandler s =
    (case slc_fsmState s of
       LUP_REQ \<Rightarrow>
        (if slf_txReq s \<noteq> [] then
           (let t = hd (slf_txReq s) in
            slc_ask \<lparr>sqi_tuple = \<lparr>tt_theirIp = ft_dstIp t, tt_myPort = ft_srcPort t, tt_theirPort = ft_dstPort t\<rparr>,
                     sqi_allowCreation = True, sqi_source = TX_APP\<rparr>
              (s\<lparr>slf_txReq := tl (slf_txReq s)\<rparr>))
         else if slf_rxReq s \<noteq> [] then
           (let q = hd (slf_rxReq s); t = slq_tuple q in
            slc_ask \<lparr>sqi_tuple = \<lparr>tt_theirIp = ft_srcIp t, tt_myPort = ft_dstPort t, tt_theirPort = ft_srcPort t\<rparr>,
                     sqi_allowCreation = slq_allowCreation q, sqi_source = RX\<rparr>
              (s\<lparr>slf_rxReq := tl (slf_rxReq s)\<rparr>))
         else s)
     | LUP_RSP \<Rightarrow>
        (if slf_lookupRsp s \<noteq> [] \<and> slc_queryCache s \<noteq> [] then
           (let r = hd (slf_lookupRsp s); q = hd (slc_queryCache s);
                s = s\<lparr>slf_lookupRsp := tl (slf_lookupRsp s), slc_queryCache := tl (slc_queryCache s)\<rparr> in
            if \<not> rlr_hit r \<and> sqi_allowCreation q \<and> slf_freeList s \<noteq> [] then
              s\<lparr>slf_freeList := tl (slf_freeList s),
                slf_insertReq := slf_insertReq s @
                  [\<lparr>ruq_op = INSERT, ruq_key = sqi_tuple q, ruq_value = ucast (hd (slf_freeList s)),
                    ruq_source = rlr_source r\<rparr>],
                slc_insertTuples := slc_insertTuples s @ [sqi_tuple q], slc_fsmState := UPD_RSP\<rparr>
            else
              (slc_reply (rlr_source r) \<lparr>slr_sessionID = rlr_sessionID r, slr_hit = rlr_hit r\<rparr> s)
                \<lparr>slc_fsmState := LUP_REQ\<rparr>)
         else s)
     | UPD_RSP \<Rightarrow>
        (if slf_insertRsp s \<noteq> [] \<and> slc_insertTuples s \<noteq> [] then
           (let r = hd (slf_insertRsp s); t = hd (slc_insertTuples s);
                s = s\<lparr>slf_insertRsp := tl (slf_insertRsp s), slc_insertTuples := tl (slc_insertTuples s)\<rparr>;
                s = slc_reply (rup_source r) \<lparr>slr_sessionID = rup_sessionID r, slr_hit = True\<rparr> s in
            s\<lparr>slf_revInsert := slf_revInsert s @ [\<lparr>rli_key = rup_sessionID r, rli_value = t\<rparr>],
              slc_fsmState := LUP_REQ\<rparr>)
         else s))"

definition updateRequestSender :: "sl_st \<Rightarrow> sl_st" where
  "updateRequestSender s =
    (if slf_insertReq s \<noteq> [] then
       s\<lparr>slf_insertReq := tl (slf_insertReq s), slf_updateReq := slf_updateReq s @ [hd (slf_insertReq s)],
         usedSessionIDs := usedSessionIDs s + 1, regSessionCount := usedSessionIDs s + 1\<rparr>
     else if slf_deleteReq s \<noteq> [] then
       s\<lparr>slf_deleteReq := tl (slf_deleteReq s), slf_updateReq := slf_updateReq s @ [hd (slf_deleteReq s)],
         slf_finFifo := slf_finFifo s @ [ucast (ruq_value (hd (slf_deleteReq s)))],
         usedSessionIDs := usedSessionIDs s - 1, regSessionCount := usedSessionIDs s - 1\<rparr>
     else s)"

definition updateReplyHandler :: "sl_st \<Rightarrow> sl_st" where
  "updateReplyHandler s =
    (if slf_updateRsp s \<noteq> [] then
       (let r = hd (slf_updateRsp s); s = s\<lparr>slf_updateRsp := tl (slf_updateRsp s)\<rparr> in
        if rup_op r = INSERT then s\<lparr>slf_insertRsp := slf_insertRsp s @ [r]\<rparr> else s)
     else s)"

definition reverseLookupTableInterface :: "u32 \<Rightarrow> sl_st \<Rightarrow> sl_st" where
  "reverseLookupTableInterface myIpAddress s =
    (if slf_revInsert s \<noteq> [] then
       (let i = hd (slf_revInsert s) in
        s\<lparr>slf_revInsert := tl (slf_revInsert s),
          reverseLookupTable := (reverseLookupTable s)(rli_key i := rli_value i),
          tupleValid := (tupleValid s)(rli_key i := True)\<rparr>)
     else if slf_release s \<noteq> [] then
       (let i = hd (slf_release s); t = reverseLookupTable s i;
            s = s\<lparr>slf_release := tl (slf_release s)\<rparr>;
            s = (if tupleValid s i
                 then s\<lparr>slf_releasePort := slf_releasePort s @ [tt_myPort t],
                        slf_deleteReq := slf_deleteReq s @
                          [\<lparr>ruq_op = DELETE, ruq_key = t, ruq_value = i, ruq_source = RX\<rparr>]\<rparr>
                 else s) in
        s\<lparr>tupleValid := (tupleValid s)(i := False)\<rparr>)
     else if slf_revReq s \<noteq> [] then
       (let t = reverseLookupTable s (hd (slf_revReq s)) in
        s\<lparr>slf_revReq := tl (slf_revReq s),
          slf_revRsp := slf_revRsp s @
            [\<lparr>ft_srcIp = myIpAddress, ft_dstIp = tt_theirIp t, ft_srcPort = tt_myPort t,
              ft_dstPort = tt_theirPort t\<rparr>]\<rparr>)
     else s)"

definition sl_init :: sl_st where
  "sl_init =
    \<lparr>slc_insertTuples = [], slc_queryCache = [], slc_fsmState = LUP_REQ, sid_counter = 0,
     usedSessionIDs = 0, regSessionCount = 0,
     reverseLookupTable = (\<lambda>_. \<lparr>tt_theirIp = 0, tt_myPort = 0, tt_theirPort = 0\<rparr>),
     tupleValid = (\<lambda>_. False), slf_rxReq = [], slf_txReq = [], slf_freeList = [], slf_finFifo = [],
     slf_lookupReq = [], slf_lookupRsp = [], slf_insertReq = [], slf_deleteReq = [],
     slf_updateReq = [], slf_updateRsp = [], slf_insertRsp = [], slf_revInsert = [], slf_rxRsp = [],
     slf_txRsp = [], slf_release = [], slf_releasePort = [], slf_revReq = [], slf_revRsp = []\<rparr>"

text \<open>One call of the whole controller, in the order of the source.\<close>

definition session_lookup_controller :: "u32 \<Rightarrow> sl_st \<Rightarrow> sl_st" where
  "session_lookup_controller ip s =
     reverseLookupTableInterface ip (updateReplyHandler (sessionIdManager
       (updateRequestSender (lookupReplyHandler s))))"


subsection \<open>The controller and the hash table\<close>

text \<open>The packed structs are the keys and requests of the table (first member in the low bits).\<close>

definition tuple_key :: "threeTupleInternal \<Rightarrow> htKey" where
  "tuple_key t = ucast (tt_theirIp t) OR push_bit 32 (ucast (tt_myPort t))
                 OR push_bit 48 (ucast (tt_theirPort t))"

definition ht_request :: "rtlSessionUpdateRequest \<Rightarrow> htUpdateReq" where
  "ht_request q = \<lparr>huq_op = (case ruq_op q of INSERT \<Rightarrow> KV_INSERT | DELETE \<Rightarrow> KV_DELETE),
     huq_key = tuple_key (ruq_key q), huq_value = ruq_value q, huq_source = ruq_source q\<rparr>"

definition rtl_reply :: "threeTupleInternal \<Rightarrow> htUpdateResp \<Rightarrow> rtlSessionUpdateReply" where
  "rtl_reply t r = \<lparr>rup_op = (case hur_op r of KV_INSERT \<Rightarrow> INSERT | KV_DELETE \<Rightarrow> DELETE),
     rup_key = t, rup_sessionID = hur_value r, rup_success = hur_success r, rup_source = hur_source r\<rparr>"

datatype sl_event =
    LookupReplyHandler | UpdateRequestSender | SessionIdManager | UpdateReplyHandler
  | ReverseLookup u32 | TableUpdate
  | PutRxReq sessionLookupQuery | PutTxReq fourTuple | PutLookupRsp rtlSessionLookupReply
  | PutRelease sid | PutRevReq sid

fun sl_step :: "(htUpdateReq \<Rightarrow> 'h \<Rightarrow> 'h \<times> htUpdateResp) \<Rightarrow> sl_event \<Rightarrow> 'h \<times> sl_st \<Rightarrow> 'h \<times> sl_st" where
  "sl_step upd LookupReplyHandler (h, s) = (h, lookupReplyHandler s)"
| "sl_step upd UpdateRequestSender (h, s) = (h, updateRequestSender s)"
| "sl_step upd SessionIdManager (h, s) = (h, sessionIdManager s)"
| "sl_step upd UpdateReplyHandler (h, s) = (h, updateReplyHandler s)"
| "sl_step upd (ReverseLookup ip) (h, s) = (h, reverseLookupTableInterface ip s)"
| "sl_step upd TableUpdate (h, s) =
    (case slf_updateReq s of
       [] \<Rightarrow> (h, s)
     | q # qs \<Rightarrow> (let (h', r) = upd (ht_request q) h in
         (h', s\<lparr>slf_updateReq := qs, slf_updateRsp := slf_updateRsp s @ [rtl_reply (ruq_key q) r]\<rparr>)))"
| "sl_step upd (PutRxReq q) (h, s) = (h, s\<lparr>slf_rxReq := slf_rxReq s @ [q]\<rparr>)"
| "sl_step upd (PutTxReq t) (h, s) = (h, s\<lparr>slf_txReq := slf_txReq s @ [t]\<rparr>)"
| "sl_step upd (PutLookupRsp r) (h, s) = (h, s\<lparr>slf_lookupRsp := slf_lookupRsp s @ [r]\<rparr>)"
| "sl_step upd (PutRelease i) (h, s) = (h, s\<lparr>slf_release := slf_release s @ [i]\<rparr>)"
| "sl_step upd (PutRevReq i) (h, s) = (h, s\<lparr>slf_revReq := slf_revReq s @ [i]\<rparr>)"

subsection \<open>Where a session number is\<close>

definition inserts :: "rtlSessionUpdateRequest list \<Rightarrow> rtlSessionUpdateRequest list" where
  "inserts = filter (\<lambda>q. ruq_op q = INSERT)"

definition insertReplies :: "rtlSessionUpdateReply list \<Rightarrow> rtlSessionUpdateReply list" where
  "insertReplies = filter (\<lambda>r. rup_op r = INSERT)"

text \<open>The numbers that are free, and those on their way into or out of use.\<close>

definition sl_moving :: "sl_st \<Rightarrow> sid list" where
  "sl_moving s = map ucast (slf_freeList s) @ map ruq_value (slf_insertReq s)
     @ map ruq_value (inserts (slf_updateReq s)) @ map rup_sessionID (insertReplies (slf_updateRsp s))
     @ map rup_sessionID (slf_insertRsp s) @ map rli_key (slf_revInsert s)
     @ map ruq_value (slf_deleteReq s) @ map ucast (slf_finFifo s)"

definition sl_count :: "sl_st \<Rightarrow> sid \<Rightarrow> nat" where
  "sl_count s i = count_list (sl_moving s) i + of_bool (tupleValid s i)"

definition sl_inv :: "sl_st \<Rightarrow> bool" where
  "sl_inv s \<longleftrightarrow> unat (sid_counter s) \<le> MAX_SESSIONS
     \<and> (\<forall>i. sl_count s i = of_bool (unat i < unat (sid_counter s)))
     \<and> (\<forall>q \<in> set (slf_insertReq s). ruq_op q = INSERT)
     \<and> (\<forall>q \<in> set (slf_deleteReq s). ruq_op q = DELETE)"

lemma inserts_simps [simp]:
  "inserts [] = []" "inserts (xs @ ys) = inserts xs @ inserts ys"
  "inserts (q # qs) = (if ruq_op q = INSERT then q # inserts qs else inserts qs)"
  by (simp_all add: inserts_def)

lemma insertReplies_simps [simp]:
  "insertReplies [] = []" "insertReplies (xs @ ys) = insertReplies xs @ insertReplies ys"
  "insertReplies (r # rs) = (if rup_op r = INSERT then r # insertReplies rs else insertReplies rs)"
  by (simp_all add: insertReplies_def)

lemma count_list_append: "count_list (xs @ ys) i = count_list xs i + count_list ys i"
  by (induction xs) auto

lemma sl_initial: "sl_inv sl_init"
  by (simp add: sl_inv_def sl_init_def sl_count_def sl_moving_def)

lemma count_moved:
  assumes "sl_inv s" and "\<And>i. sl_count s' i = sl_count s i" and "sid_counter s' = sid_counter s"
    and "set (slf_insertReq s') \<subseteq> set (slf_insertReq s)" and "set (slf_deleteReq s') \<subseteq> set (slf_deleteReq s)"
  shows "sl_inv s'"
  using assms unfolding sl_inv_def by auto

lemma sl_inv_idManager: "sl_inv s \<Longrightarrow> sl_inv (sessionIdManager s)"
proof (cases "slf_finFifo s")
  case (Cons x xs)
  assume "sl_inv s"
  then show ?thesis
    by (rule count_moved) (simp_all add: sessionIdManager_def Cons sl_count_def sl_moving_def count_list_append)
next
  case Nil
  assume inv: "sl_inv s"
  show ?thesis
  proof (cases "unat (sid_counter s) < MAX_SESSIONS")
    case False
    then show ?thesis using Nil inv by (simp add: sessionIdManager_def)
  next
    case True
    have c: "unat (sid_counter s + 1) = Suc (unat (sid_counter s))"
      using True by (simp add: unat_add_mod MAX_SESSIONS_def)
    have u: "unat (ucast (sid_counter s) :: sid) = unat (sid_counter s)"
      using True by (simp add: unat_cast MAX_SESSIONS_def)
    have "sl_count (sessionIdManager s) i = of_bool (unat i < unat (sid_counter s + 1))" for i
    proof -
      have "sl_count (sessionIdManager s) i = sl_count s i + of_bool (ucast (sid_counter s) = i)"
        using True Nil by (simp add: sessionIdManager_def sl_count_def sl_moving_def count_list_append)
      moreover have "ucast (sid_counter s) = i \<longleftrightarrow> unat i = unat (sid_counter s)"
        unfolding word_unat_eq_iff[of _ i] u by auto
      ultimately show ?thesis using inv c by (simp add: sl_inv_def of_bool_def)
    qed
    then show ?thesis using inv True Nil c by (simp add: sl_inv_def sessionIdManager_def)
  qed
qed


lemma slc_ask_frame [simp]:
  "slf_freeList (slc_ask q s) = slf_freeList s" "slf_insertReq (slc_ask q s) = slf_insertReq s"
  "slf_updateReq (slc_ask q s) = slf_updateReq s" "slf_updateRsp (slc_ask q s) = slf_updateRsp s"
  "slf_insertRsp (slc_ask q s) = slf_insertRsp s" "slf_revInsert (slc_ask q s) = slf_revInsert s"
  "slf_deleteReq (slc_ask q s) = slf_deleteReq s" "slf_finFifo (slc_ask q s) = slf_finFifo s"
  "tupleValid (slc_ask q s) = tupleValid s" "sid_counter (slc_ask q s) = sid_counter s"
  by (simp_all add: slc_ask_def)

lemma slc_reply_frame [simp]:
  "slf_freeList (slc_reply src r s) = slf_freeList s" "slf_insertReq (slc_reply src r s) = slf_insertReq s"
  "slf_updateReq (slc_reply src r s) = slf_updateReq s" "slf_updateRsp (slc_reply src r s) = slf_updateRsp s"
  "slf_insertRsp (slc_reply src r s) = slf_insertRsp s" "slf_revInsert (slc_reply src r s) = slf_revInsert s"
  "slf_deleteReq (slc_reply src r s) = slf_deleteReq s" "slf_finFifo (slc_reply src r s) = slf_finFifo s"
  "tupleValid (slc_reply src r s) = tupleValid s" "sid_counter (slc_reply src r s) = sid_counter s"
  by (simp_all add: slc_reply_def)

lemma sl_moving_bound:
  assumes "sl_inv s" and "i \<in> set (sl_moving s)"
  shows "\<not> tupleValid s i" and "unat i < MAX_SESSIONS"
proof -
  have pos: "count_list (sl_moving s) i \<noteq> 0" using assms(2) by (simp add: count_list_0_iff)
  have "sl_count s i = of_bool (unat i < unat (sid_counter s))" and "unat (sid_counter s) \<le> MAX_SESSIONS"
    using assms(1) by (simp_all add: sl_inv_def)
  then show "\<not> tupleValid s i" and "unat i < MAX_SESSIONS"
    using pos by (auto simp: sl_count_def of_bool_def split: if_splits)
qed

lemma narrow_id: "unat (i :: sid) < MAX_SESSIONS \<Longrightarrow> (ucast (ucast i :: 14 word) :: sid) = i"
  by (simp add: word_unat_eq_iff unat_cast MAX_SESSIONS_def)

lemma sl_inv_updateRequestSender: "sl_inv s \<Longrightarrow> sl_inv (updateRequestSender s)"
proof -
  assume inv: "sl_inv s"
  consider (ins) q qs where "slf_insertReq s = q # qs" | (del) q qs where "slf_insertReq s = []"
      "slf_deleteReq s = q # qs" | (idle) "slf_insertReq s = []" "slf_deleteReq s = []"
    by (metis neq_Nil_conv)
  then show ?thesis
  proof cases
    case ins
    then have "ruq_op q = INSERT" using inv by (simp add: sl_inv_def)
    with ins show ?thesis
      by (intro count_moved[OF inv])
        (auto simp: updateRequestSender_def sl_count_def sl_moving_def count_list_append)
  next
    case del
    then have "ruq_op q = DELETE" "unat (ruq_value q) < MAX_SESSIONS"
      using inv sl_moving_bound(2)[OF inv, of "ruq_value q"] by (auto simp: sl_inv_def sl_moving_def)
    with del show ?thesis
      by (intro count_moved[OF inv])
        (auto simp: updateRequestSender_def sl_count_def sl_moving_def count_list_append narrow_id)
  next
    case idle
    then show ?thesis using inv by (simp add: updateRequestSender_def)
  qed
qed

lemma sl_inv_updateReplyHandler: "sl_inv s \<Longrightarrow> sl_inv (updateReplyHandler s)"
proof (cases "slf_updateRsp s")
  case (Cons r rs)
  assume "sl_inv s"
  then show ?thesis
    by (rule count_moved) (simp_all add: updateReplyHandler_def sl_count_def sl_moving_def
        count_list_append Let_def Cons)
qed (simp add: updateReplyHandler_def)

lemma sl_inv_lookupReplyHandler: "sl_inv s \<Longrightarrow> sl_inv (lookupReplyHandler s)"
proof -
  assume inv: "sl_inv s"
  show ?thesis
  proof (cases "slc_fsmState s")
    case LUP_REQ
    then show ?thesis
      by (intro count_moved[OF inv]) (auto simp: lookupReplyHandler_def Let_def sl_count_def sl_moving_def)
  next
    case LUP_RSP
    show ?thesis
    proof (cases "slf_lookupRsp s \<noteq> [] \<and> slc_queryCache s \<noteq> [] \<and> \<not> rlr_hit (hd (slf_lookupRsp s))
        \<and> sqi_allowCreation (hd (slc_queryCache s)) \<and> slf_freeList s \<noteq> []")
      case True
      then obtain x xs where x: "slf_freeList s = x # xs" by (auto simp: neq_Nil_conv)
      have "sl_count (lookupReplyHandler s) i = sl_count s i" for i
        using True LUP_RSP x
        by (simp add: lookupReplyHandler_def Let_def sl_count_def sl_moving_def count_list_append)
      then show ?thesis using inv True LUP_RSP x by (simp add: sl_inv_def lookupReplyHandler_def Let_def)
    next
      case False
      then show ?thesis using LUP_RSP
        by (intro count_moved[OF inv]) (auto simp: lookupReplyHandler_def Let_def sl_count_def sl_moving_def)
    qed
  next
    case UPD_RSP
    then show ?thesis
      by (cases "slf_insertRsp s"; intro count_moved[OF inv])
        (auto simp: lookupReplyHandler_def Let_def sl_count_def sl_moving_def count_list_append)
  qed
qed

lemma sl_inv_reverse: "sl_inv s \<Longrightarrow> sl_inv (reverseLookupTableInterface ip s)"
proof -
  assume inv: "sl_inv s"
  consider (ins) r rs where "slf_revInsert s = r # rs"
    | (rel) i l where "slf_revInsert s = []" "slf_release s = i # l"
    | (other) "slf_revInsert s = []" "slf_release s = []" by (metis neq_Nil_conv)
  then show ?thesis
  proof cases
    case ins
    then have "\<not> tupleValid s (rli_key r)"
      using sl_moving_bound(1)[OF inv, of "rli_key r"] by (simp add: sl_moving_def)
    with ins show ?thesis
      by (intro count_moved[OF inv])
        (auto simp: reverseLookupTableInterface_def sl_count_def sl_moving_def count_list_append)
  next
    case rel
    have "sl_count (reverseLookupTableInterface ip s) j = sl_count s j" for j
      using rel by (auto simp: reverseLookupTableInterface_def sl_count_def sl_moving_def
          count_list_append Let_def)
    then show ?thesis using inv rel
      by (auto simp: sl_inv_def reverseLookupTableInterface_def Let_def)
  next
    case other
    then show ?thesis
      by (intro count_moved[OF inv])
        (auto simp: reverseLookupTableInterface_def sl_count_def sl_moving_def Let_def)
  qed
qed

lemma sl_inv_put [simp]:
  "sl_inv (s\<lparr>slf_rxReq := rx\<rparr>) = sl_inv s" "sl_inv (s\<lparr>slf_txReq := tx\<rparr>) = sl_inv s"
  "sl_inv (s\<lparr>slf_lookupRsp := lr\<rparr>) = sl_inv s" "sl_inv (s\<lparr>slf_release := rl\<rparr>) = sl_inv s"
  "sl_inv (s\<lparr>slf_revReq := rr\<rparr>) = sl_inv s"
  by (simp_all add: sl_inv_def sl_count_def sl_moving_def)

lemmas sl_inv_process = sl_inv_idManager sl_inv_updateRequestSender sl_inv_updateReplyHandler
  sl_inv_lookupReplyHandler sl_inv_reverse

text \<open>With any table that repeats the request in its reply.\<close>

context kv_store
begin

lemma sl_inv_step: "sl_inv (snd hs) \<Longrightarrow> sl_inv (snd (sl_step upd e hs))"
proof (cases e)
  case TableUpdate
  assume inv: "sl_inv (snd hs)"
  obtain h s where hs: "hs = (h, s)" by (cases hs)
  show ?thesis
  proof (cases "slf_updateReq s")
    case (Cons q qs)
    obtain h' r where r: "upd (ht_request q) h = (h', r)" by (cases "upd (ht_request q) h")
    then have "rup_op (rtl_reply (ruq_key q) r) = ruq_op q" "rup_sessionID (rtl_reply (ruq_key q) r) = ruq_value q"
      using upd_echo[of "ht_request q" h]
      by (auto simp: kv_echo_def ht_request_def rtl_reply_def split: lookupOp.splits)
    then have "sl_inv (s\<lparr>slf_updateReq := qs, slf_updateRsp := slf_updateRsp s @ [rtl_reply (ruq_key q) r]\<rparr>)"
      using inv Cons hs by (simp add: count_moved[of s] sl_count_def sl_moving_def count_list_append)
    then show ?thesis using Cons TableUpdate hs r by simp
  qed (use inv TableUpdate hs in simp)
qed (cases hs; simp add: sl_inv_process)+

end


interpretation slh: reactive "sl_step (ht_update tab)" "\<lambda>hs. sl_inv (snd hs)" "\<lambda>_. True" for tab
  by unfold_locales (rule ht.sl_inv_step)

lemma count_list_distinct: "\<forall>x. count_list xs x \<le> Suc 0 \<Longrightarrow> distinct xs"
proof (induction xs)
  case (Cons a xs)
  have "count_list xs a = 0" using Cons.prems[rule_format, of a] by simp
  moreover have "\<forall>x. count_list xs x \<le> Suc 0"
  proof
    fix x show "count_list xs x \<le> Suc 0" using Cons.prems[rule_format, of x] by (simp split: if_splits)
  qed
  ultimately show ?case using Cons.IH by (simp add: count_list_0_iff)
qed simp

text \<open>C14. In every run of the session lookup with the hash table, every session number below the counter
  is in exactly one place: free, on its way into or out of use, or in use with a valid entry of the
  reverse table. No number is given out twice, none is lost, and all are below 1000.\<close>

theorem session_ids_unique:
  "let s = snd (fold (sl_step (ht_update tab)) es (h, sl_init)) in
     distinct (sl_moving s)
     \<and> list_all (\<lambda>i. \<not> tupleValid s i) (sl_moving s)
     \<and> (\<forall>i. (i \<in> set (sl_moving s) \<or> tupleValid s i) = (unat i < unat (sid_counter s)))
     \<and> unat (sid_counter s) \<le> MAX_SESSIONS"
proof -
  define s where "s = snd (fold (sl_step (ht_update tab)) es (h, sl_init))"
  have inv: "sl_inv s"
    unfolding s_def by (rule slh.inv_run) (simp_all add: sl_initial)
  then have count: "count_list (sl_moving s) i + of_bool (tupleValid s i)
      = of_bool (unat i < unat (sid_counter s))" for i
    by (simp add: sl_inv_def sl_count_def)
  have "count_list (sl_moving s) i \<le> Suc 0" for i using count[of i] by (auto simp: of_bool_def split: if_splits)
  then have "distinct (sl_moving s)" by (simp add: count_list_distinct)
  moreover have "list_all (\<lambda>i. \<not> tupleValid s i) (sl_moving s)"
    using sl_moving_bound(1)[OF inv] by (simp add: list_all_iff)
  moreover have "(i \<in> set (sl_moving s) \<or> tupleValid s i) = (unat i < unat (sid_counter s))" for i
  proof -
    have "i \<in> set (sl_moving s) \<longleftrightarrow> count_list (sl_moving s) i \<noteq> 0" by (simp add: count_list_0_iff)
    then show ?thesis using count[of i] by (cases "tupleValid s i"; cases "unat i < unat (sid_counter s)") auto
  qed
  ultimately show ?thesis using inv unfolding s_def[symmetric] Let_def by (simp add: sl_inv_def)
qed

text \<open>The reply handler does not look at \<^verbatim>\<open>success\<close>: an insertion that the table gave up is answered
  with a hit and the new number, exactly like one that succeeded.\<close>

theorem failed_insert_is_hit:
  assumes "slc_fsmState s = UPD_RSP" and "slf_insertRsp s = r # rs" and "slc_insertTuples s = t # ts"
    and "rup_source r = RX"
  shows "slf_rxRsp (lookupReplyHandler s)
           = slf_rxRsp s @ [\<lparr>slr_sessionID = rup_sessionID r, slr_hit = True\<rparr>]
       \<and> lookupReplyHandler (s\<lparr>slf_insertRsp := r\<lparr>rup_success := b\<rparr> # rs\<rparr>) = lookupReplyHandler s"
  using assms by (simp add: lookupReplyHandler_def Let_def slc_reply_def)

definition sl_fail_ex :: sl_st where
  "sl_fail_ex = sl_init\<lparr>slc_fsmState := UPD_RSP,
     slf_insertRsp := [\<lparr>rup_op = INSERT, rup_key = \<lparr>tt_theirIp = 1, tt_myPort = 2, tt_theirPort = 3\<rparr>,
       rup_sessionID = 4, rup_success = False, rup_source = RX\<rparr>],
     slc_insertTuples := [\<lparr>tt_theirIp = 1, tt_myPort = 2, tt_theirPort = 3\<rparr>]\<rparr>"

lemma failed_insert_is_hit_witness:
  "slf_rxRsp (lookupReplyHandler sl_fail_ex) = [\<lparr>slr_sessionID = 4, slr_hit = True\<rparr>]"
  using failed_insert_is_hit[of sl_fail_ex "hd (slf_insertRsp sl_fail_ex)" "[]"
      "hd (slc_insertTuples sl_fail_ex)" "[]"]
  by (simp add: sl_fail_ex_def sl_init_def)

end
