(* ===== verification/Tx_Meta.thy ===== *)
theory Tx_Meta
  imports Toe_Types
begin

text \<open>
  The control path of \<^verbatim>\<open>toe/tx_engine/tx_engine.cpp\<close>: \<^verbatim>\<open>metaLoader\<close>, which turns an event into the
  metadata of the segments to send, and \<^verbatim>\<open>tupleSplitter\<close>, which joins them with their connection.

  \<open>metaLoader\<close> is one call; its two states are \<open>ml_load\<close> (state 0) and the cases \<open>ml_TX\<close>,
  \<open>ml_RT\<close>, \<open>ml_ACK\<close>, \<open>ml_SYN\<close>, \<open>ml_SYN_ACK\<close>, \<open>ml_FIN\<close> and \<open>ml_RST\<close> of state 1, with
  \<^verbatim>\<open>TCP_NODELAY\<close> and \<^verbatim>\<open>WINDOW_SCALE\<close> on. The argument \<open>u\<close> is the member \<^verbatim>\<open>win_shift\<close> that the
  constructor of a reset's metadata leaves unset. Console output is left out.
\<close>

subsection \<open>Data\<close>

record tx_engine_meta =
  txm_seqNumb :: u32
  txm_ackNumb :: u32
  txm_window_size :: u16
  txm_win_shift :: "4 word"
  txm_length :: u16
  txm_ack :: bool
  txm_rst :: bool
  txm_syn :: bool
  txm_fin :: bool

definition tx_engine_meta6 ::
    "4 word \<Rightarrow> u32 \<Rightarrow> u32 \<Rightarrow> bool \<Rightarrow> bool \<Rightarrow> bool \<Rightarrow> bool \<Rightarrow> tx_engine_meta" where
  "tx_engine_meta6 u sq ak a r s f = \<lparr>txm_seqNumb = sq, txm_ackNumb = ak, txm_window_size = 0,
     txm_win_shift = u, txm_length = 0, txm_ack = a, txm_rst = r, txm_syn = s, txm_fin = f\<rparr>"

record twoTuple =
  tw_srcIp :: u32
  tw_dstIp :: u32

record ml_st =
  ml_FsmState :: bool
  ml_sarLoaded :: bool
  ml_curEvent :: extendedEvent
  ml_randomValue :: u32
  ml_segmentCount :: "2 word"
  ml_rxSar :: rxSarReply
  ml_txSarReg :: txTxSarReply
  ml_meta :: tx_engine_meta
  mlf_event :: "extendedEvent fifo"
  mlf_rxSarRsp :: "rxSarReply fifo"
  mlf_txSarRsp :: "txTxSarReply fifo"
  mlf_rxSarReq :: "sid fifo"
  mlf_txSarReq :: "txTxSarQuery fifo"
  mlf_setRetransmit :: "txRetransmitTimerSet fifo"
  mlf_setProbe :: "sid fifo"
  mlf_ipMeta :: "u16 fifo"
  mlf_tcpMeta :: "tx_engine_meta fifo"
  mlf_readCmd :: "mmCmd fifo"
  mlf_revReq :: "sid fifo"
  mlf_isLookUp :: "bool fifo"
  mlf_isBypass :: "bool fifo"
  mlf_shortCut :: "fourTuple fifo"
  mlf_readCount :: "bool fifo"

subsection \<open>Outputs\<close>

definition ml_setRetransmit :: "eventType \<Rightarrow> ml_st \<Rightarrow> ml_st" where
  "ml_setRetransmit ty s = s\<lparr>mlf_setRetransmit := mlf_setRetransmit s @
     [\<lparr>trs_sessionID = ev_sessionID (ml_curEvent s), trs_type = ty\<rparr>]\<rparr>"

definition ml_query :: "txTxSarQuery \<Rightarrow> ml_st \<Rightarrow> ml_st" where
  "ml_query q s = s\<lparr>mlf_txSarReq := mlf_txSarReq s @ [q]\<rparr>"

text \<open>A segment of a session: its length for IP, its metadata, and the reverse lookup it needs.\<close>

definition ml_send :: "tx_engine_meta \<Rightarrow> ml_st \<Rightarrow> ml_st" where
  "ml_send m s = s\<lparr>mlf_ipMeta := mlf_ipMeta s @ [txm_length m], mlf_tcpMeta := mlf_tcpMeta s @ [m],
     mlf_isLookUp := mlf_isLookUp s @ [True],
     mlf_revReq := mlf_revReq s @ [ev_sessionID (ml_curEvent s)]\<rparr>"

definition ml_payload :: "bool \<Rightarrow> ml_st \<Rightarrow> ml_st" where
  "ml_payload bypass s = s\<lparr>mlf_isBypass := mlf_isBypass s @ [bypass]\<rparr>"

definition ml_read :: "mmCmd \<Rightarrow> ml_st \<Rightarrow> ml_st" where
  "ml_read c s = s\<lparr>mlf_readCmd := mlf_readCmd s @ [c]\<rparr>"

lemmas ml_out_defs = ml_setRetransmit_def ml_query_def ml_send_def ml_payload_def ml_read_def

text \<open>The replies of the two tables, read together.\<close>

definition ml_replies :: "ml_st \<Rightarrow> bool" where
  "ml_replies s \<longleftrightarrow> mlf_rxSarRsp s \<noteq> [] \<and> mlf_txSarRsp s \<noteq> []"

definition ml_readReplies :: "ml_st \<Rightarrow> ml_st" where
  "ml_readReplies s = s\<lparr>ml_rxSar := hd (mlf_rxSarRsp s), mlf_rxSarRsp := tl (mlf_rxSarRsp s),
     mlf_txSarRsp := tl (mlf_txSarRsp s)\<rparr>"

subsection \<open>State 0\<close>

definition ml_request :: "ml_st \<Rightarrow> ml_st" where
  "ml_request s =
    (let i = ev_sessionID (ml_curEvent s); both = (ml_query (txTxSarQuery_rd i) s)
           \<lparr>mlf_rxSarReq := mlf_rxSarReq s @ [i]\<rparr> in
     case ev_type (ml_curEvent s) of
       RT \<Rightarrow> both | TX \<Rightarrow> both | SYN_ACK \<Rightarrow> both | FIN \<Rightarrow> both | ACK_NODELAY \<Rightarrow> both | ACK \<Rightarrow> both
     | RST \<Rightarrow> if hasSessionID (ml_curEvent s) then ml_query (txTxSarQuery_rd i) s else s
     | SYN \<Rightarrow> if ev_rt_count (ml_curEvent s) \<noteq> 0 then ml_query (txTxSarQuery_rd i) s else s)"

definition ml_load :: "ml_st \<Rightarrow> ml_st" where
  "ml_load s =
    (let s = (if mlf_event s \<noteq> [] then
                (ml_request (s\<lparr>ml_curEvent := hd (mlf_event s), mlf_event := tl (mlf_event s),
                               mlf_readCount := mlf_readCount s @ [True], ml_sarLoaded := False\<rparr>))
                  \<lparr>ml_FsmState := True, ml_randomValue := ml_randomValue s + 1\<rparr>
              else s) in
     s\<lparr>ml_segmentCount := 0\<rparr>)"

subsection \<open>State 1\<close>

definition ml_TX :: "ml_st \<Rightarrow> ml_st" where
  "ml_TX s =
    (if ml_replies s then
       (let tx = hd (mlf_txSarRsp s); s = ml_readReplies s; ev = ml_curEvent s; i = ev_sessionID ev;
            m = (ml_meta s)\<lparr>txm_ackNumb := rsr_recvd (ml_rxSar s), txm_seqNumb := ttr_not_ackd tx,
                  txm_window_size := rsr_windowSize (ml_rxSar s), txm_ack := True, txm_rst := False,
                  txm_syn := False, txm_fin := False, txm_length := ev_length ev\<rparr>;
            s = s\<lparr>ml_meta := m\<rparr>;
            s = (if 0x7FFF < ev_length ev then s\<lparr>mlf_setProbe := mlf_setProbe s @ [i]\<rparr> else s);
            s = (ml_query (txTxSarQuery3 i (ttr_not_ackd tx + ucast (ev_length ev)) True) s)
                  \<lparr>ml_FsmState := False\<rparr> in
        if txm_length m \<noteq> 0 then ml_setRetransmit RT (ml_payload True (ml_send m s)) else s)
     else s)"

text \<open>The threshold of the first time-out: half the flight size, but not less than two segments.\<close>

definition rt_threshold :: "win \<Rightarrow> win" where
  "rt_threshold used = (if 4 * MSS < unat used then used div 2 else of_nat (2 * MSS))"

definition ml_RT :: "ml_st \<Rightarrow> ml_st" where
  "ml_RT s =
    (if ml_replies s \<or> ml_sarLoaded s then
       (let tx = (if ml_sarLoaded s then ml_txSarReg s else hd (mlf_txSarRsp s));
            first = \<not> ml_sarLoaded s;
            s = (if first then ml_readReplies s else s);
            ev = ml_curEvent s; i = ev_sessionID ev; used = ttr_usedLength tx;
            m = (ml_meta s)\<lparr>txm_ackNumb := rsr_recvd (ml_rxSar s), txm_seqNumb := ttr_ackd tx,
                  txm_window_size := rsr_windowSize (ml_rxSar s), txm_ack := True, txm_rst := False,
                  txm_syn := False, txm_fin := False,
                  txm_length := (if MSS < unat used then of_nat MSS else ucast used)\<rparr>;
            s = (if first \<and> ev_rt_count ev = 1
                 then ml_query (txTxSarRtQuery i (rt_threshold used)) s else s);
            (tx', s) = (if MSS < unat used then
                   (tx\<lparr>ttr_ackd := ttr_ackd tx + of_nat MSS, ttr_usedLength := used - of_nat MSS\<rparr>,
                    s\<lparr>ml_FsmState := ml_FsmState s \<and> ml_segmentCount s \<noteq> 3,
                      ml_segmentCount := ml_segmentCount s + 1\<rparr>)
                 else (tx, if ttr_finSent tx then s\<lparr>ml_curEvent := ev\<lparr>ev_type := FIN\<rparr>\<rparr>
                           else s\<lparr>ml_FsmState := False\<rparr>));
            s = s\<lparr>ml_meta := m\<rparr>;
            s = (if txm_length m \<noteq> 0
                 then ml_setRetransmit RT (ml_payload False (ml_send m
                        (ml_read (mmCmd_of (pkgAddr i (ttr_ackd tx)) (txm_length m)) s)))
                 else s) in
        s\<lparr>ml_sarLoaded := True, ml_txSarReg := tx'\<rparr>)
     else s)"

definition ml_ACK :: "ml_st \<Rightarrow> ml_st" where
  "ml_ACK s =
    (if ml_replies s then
       (let tx = hd (mlf_txSarRsp s); s = ml_readReplies s;
            m = (ml_meta s)\<lparr>txm_ackNumb := rsr_recvd (ml_rxSar s), txm_seqNumb := ttr_not_ackd tx,
                  txm_window_size := rsr_windowSize (ml_rxSar s), txm_length := 0, txm_ack := True,
                  txm_rst := False, txm_syn := False, txm_fin := False\<rparr> in
        ml_send m (s\<lparr>ml_meta := m, ml_FsmState := False\<rparr>))
     else s)"

text \<open>A new connection starts at a multiple of 64, less one; the query reserves the SYN's number.\<close>

definition ml_start :: "u32 \<Rightarrow> u32" where
  "ml_start r = push_bit 6 r - 1"

definition ml_fresh :: "ml_st \<Rightarrow> ml_st" where
  "ml_fresh s =
    (let r = ml_randomValue s in
     ml_query (txTxSarQuery4 (ev_sessionID (ml_curEvent s)) (ml_start r + 1) True True)
       (s\<lparr>ml_randomValue := (r * 8) XOR r\<rparr>))"

definition ml_SYN :: "ml_st \<Rightarrow> ml_st" where
  "ml_SYN s =
    (let again = ev_rt_count (ml_curEvent s) \<noteq> 0 in
     if (again \<and> mlf_txSarRsp s \<noteq> []) \<or> \<not> again then
       (let sq = (if again then ttr_ackd (hd (mlf_txSarRsp s)) else ml_start (ml_randomValue s));
            s = (if again then s\<lparr>mlf_txSarRsp := tl (mlf_txSarRsp s)\<rparr> else ml_fresh s);
            m = (ml_meta s)\<lparr>txm_seqNumb := sq, txm_ackNumb := 0, txm_window_size := 0xFFFF,
                  txm_ack := False, txm_rst := False, txm_syn := True, txm_fin := False,
                  txm_length := 8, txm_win_shift := WINDOW_SCALE_BITS\<rparr> in
        ml_setRetransmit SYN (ml_send m (s\<lparr>ml_meta := m, ml_FsmState := False\<rparr>)))
     else s)"

definition ml_SYN_ACK :: "ml_st \<Rightarrow> ml_st" where
  "ml_SYN_ACK s =
    (if ml_replies s then
       (let tx = hd (mlf_txSarRsp s); s = ml_readReplies s; again = ev_rt_count (ml_curEvent s) \<noteq> 0;
            sq = (if again then ttr_ackd tx else ml_start (ml_randomValue s));
            s = (if again then s else ml_fresh s);
            m = (ml_meta s)\<lparr>txm_ackNumb := rsr_recvd (ml_rxSar s), txm_window_size := 0xFFFF,
                  txm_length := (if rsr_win_shift (ml_rxSar s) \<noteq> 0 then 8 else 4), txm_ack := True,
                  txm_rst := False, txm_syn := True, txm_fin := False, txm_seqNumb := sq,
                  txm_win_shift := rsr_win_shift (ml_rxSar s)\<rparr> in
        ml_setRetransmit SYN_ACK (ml_send m (s\<lparr>ml_meta := m, ml_FsmState := False\<rparr>)))
     else s)"

definition ml_FIN :: "ml_st \<Rightarrow> ml_st" where
  "ml_FIN s =
    (if ml_replies s \<or> ml_sarLoaded s then
       (let tx = (if ml_sarLoaded s then ml_txSarReg s else hd (mlf_txSarRsp s));
            s = (if ml_sarLoaded s then s else ml_readReplies s);
            i = ev_sessionID (ml_curEvent s); again = ev_rt_count (ml_curEvent s) \<noteq> 0;
            m = (ml_meta s)\<lparr>txm_ackNumb := rsr_recvd (ml_rxSar s),
                  txm_window_size := rsr_windowSize (ml_rxSar s), txm_length := 0, txm_ack := True,
                  txm_rst := False, txm_syn := False, txm_fin := True,
                  txm_seqNumb := (if again then ttr_not_ackd tx - 1 else ttr_not_ackd tx)\<rparr>;
            s = (if again then s
                 else ml_query (txTxSarQuery6 i (ttr_not_ackd tx + 1) True False True True) s) in
        ml_setRetransmit RT (ml_send m (s\<lparr>ml_meta := m, ml_FsmState := False\<rparr>)))
     else s)"

definition ml_RST :: "4 word \<Rightarrow> ml_st \<Rightarrow> ml_st" where
  "ml_RST u s =
    (let ev = ml_curEvent s in
     if \<not> hasSessionID ev then
       s\<lparr>mlf_ipMeta := mlf_ipMeta s @ [0],
         mlf_tcpMeta := mlf_tcpMeta s @ [tx_engine_meta6 u 0 (getAckNumb ev) True True False False],
         mlf_isLookUp := mlf_isLookUp s @ [False], mlf_shortCut := mlf_shortCut s @ [ev_tuple ev],
         ml_FsmState := False\<rparr>
     else if mlf_txSarRsp s \<noteq> [] then
       ml_send (tx_engine_meta6 u (ttr_not_ackd (hd (mlf_txSarRsp s))) (getAckNumb ev) True True False False)
         (s\<lparr>mlf_txSarRsp := tl (mlf_txSarRsp s), ml_FsmState := False\<rparr>)
     else s)"

definition metaLoader :: "4 word \<Rightarrow> ml_st \<Rightarrow> ml_st" where
  "metaLoader u s =
    (if \<not> ml_FsmState s then ml_load s
     else case ev_type (ml_curEvent s) of
       TX \<Rightarrow> ml_TX s | RT \<Rightarrow> ml_RT s | ACK \<Rightarrow> ml_ACK s | ACK_NODELAY \<Rightarrow> ml_ACK s
     | SYN \<Rightarrow> ml_SYN s | SYN_ACK \<Rightarrow> ml_SYN_ACK s | FIN \<Rightarrow> ml_FIN s | RST \<Rightarrow> ml_RST u s)"

subsection \<open>The tuples of the segments\<close>

record ts_st =
  ts_getMeta :: bool
  ts_isLookUp :: bool
  tsf_revRsp :: "fourTuple fifo"
  tsf_shortCut :: "fourTuple fifo"
  tsf_isLookUp :: "bool fifo"
  tsf_ipTuple :: "twoTuple fifo"
  tsf_tcpTuple :: "fourTuple fifo"

definition ts_emit :: "fourTuple \<Rightarrow> ts_st \<Rightarrow> ts_st" where
  "ts_emit t s = s\<lparr>tsf_ipTuple := tsf_ipTuple s @ [\<lparr>tw_srcIp = ft_srcIp t, tw_dstIp = ft_dstIp t\<rparr>],
     tsf_tcpTuple := tsf_tcpTuple s @ [t], ts_getMeta := True\<rparr>"

definition tupleSplitter :: "ts_st \<Rightarrow> ts_st" where
  "tupleSplitter s =
    (if ts_getMeta s then
       (if tsf_isLookUp s \<noteq> [] then
          s\<lparr>ts_isLookUp := hd (tsf_isLookUp s), tsf_isLookUp := tl (tsf_isLookUp s), ts_getMeta := False\<rparr>
        else s)
     else if tsf_revRsp s \<noteq> [] \<and> ts_isLookUp s then
       ts_emit (hd (tsf_revRsp s)) (s\<lparr>tsf_revRsp := tl (tsf_revRsp s)\<rparr>)
     else if tsf_shortCut s \<noteq> [] \<and> \<not> ts_isLookUp s then
       ts_emit (hd (tsf_shortCut s)) (s\<lparr>tsf_shortCut := tl (tsf_shortCut s)\<rparr>)
     else s)"


subsection \<open>Retransmission\<close>

text \<open>Segments without payload gap or overlap from sequence number \<open>a\<close> on, none empty or above the MSS.\<close>

fun seg_chain :: "u32 \<Rightarrow> tx_engine_meta list \<Rightarrow> bool" where
  "seg_chain a [] \<longleftrightarrow> True"
| "seg_chain a (m # ms) \<longleftrightarrow> txm_seqNumb m = a \<and> 0 < unat (txm_length m) \<and> unat (txm_length m) \<le> MSS
                         \<and> seg_chain (a + ucast (txm_length m)) ms"

definition seg_bytes :: "tx_engine_meta list \<Rightarrow> nat" where
  "seg_bytes ms = sum_list (map (unat \<circ> txm_length) ms)"

lemma seg_bytes_simps [simp]:
  "seg_bytes [] = 0" "seg_bytes (m # ms) = unat (txm_length m) + seg_bytes ms"
  by (simp_all add: seg_bytes_def)

definition seg_read :: "sid \<Rightarrow> tx_engine_meta \<Rightarrow> mmCmd" where
  "seg_read i m = mmCmd_of (pkgAddr i (txm_seqNumb m)) (txm_length m)"

text \<open>The bookkeeping that an RT call works on.\<close>

definition rt_entry :: "ml_st \<Rightarrow> txTxSarReply" where
  "rt_entry s = (if ml_sarLoaded s then ml_txSarReg s else hd (mlf_txSarRsp s))"

definition rt_pending :: "ml_st \<Rightarrow> bool" where
  "rt_pending s \<longleftrightarrow> ml_FsmState s \<and> ev_type (ml_curEvent s) = RT \<and> (ml_replies s \<or> ml_sarLoaded s)"

lemma mss_word: "unat (of_nat MSS :: u16) = MSS" "unat (of_nat MSS :: win) = MSS"
  "(ucast (of_nat MSS :: u16) :: u32) = of_nat MSS"
  by (simp_all add: MSS_def)

lemma rt_call_big:
  assumes "rt_pending s" and "MSS < unat (ttr_usedLength (rt_entry s))"
  obtains m where "txm_seqNumb m = ttr_ackd (rt_entry s)" "txm_length m = of_nat MSS"
    "mlf_tcpMeta (metaLoader u s) = mlf_tcpMeta s @ [m]"
    "mlf_readCmd (metaLoader u s) = mlf_readCmd s @ [seg_read (ev_sessionID (ml_curEvent s)) m]"
    "ml_curEvent (metaLoader u s) = ml_curEvent s" "ml_sarLoaded (metaLoader u s)"
    "rt_entry (metaLoader u s) = (rt_entry s)\<lparr>ttr_ackd := ttr_ackd (rt_entry s) + of_nat MSS,
       ttr_usedLength := ttr_usedLength (rt_entry s) - of_nat MSS\<rparr>"
    "ml_FsmState (metaLoader u s) \<longleftrightarrow> ml_segmentCount s \<noteq> 3"
    "ml_segmentCount (metaLoader u s) = ml_segmentCount s + 1"
proof -
  have nz: "(of_nat MSS :: u16) \<noteq> 0" by (simp add: MSS_def)
  define m where "m = last (mlf_tcpMeta (metaLoader u s))"
  show ?thesis
    by (rule that[of m])
      (use assms nz in \<open>auto simp: m_def rt_pending_def rt_entry_def metaLoader_def ml_RT_def Let_def
        ml_out_defs ml_readReplies_def seg_read_def\<close>)
qed

lemma rt_call_last:
  assumes "rt_pending s" and "unat (ttr_usedLength (rt_entry s)) \<le> MSS"
  obtains ms where "seg_chain (ttr_ackd (rt_entry s)) ms" "seg_bytes ms = unat (ttr_usedLength (rt_entry s))"
    "mlf_tcpMeta (metaLoader u s) = mlf_tcpMeta s @ ms"
    "mlf_readCmd (metaLoader u s) = mlf_readCmd s @ map (seg_read (ev_sessionID (ml_curEvent s))) ms"
    "ml_FsmState (metaLoader u s) \<longrightarrow> ttr_finSent (rt_entry s) \<and> ev_type (ml_curEvent (metaLoader u s)) = FIN"
proof -
  let ?used = "ttr_usedLength (rt_entry s)"
  have len: "unat (ucast ?used :: u16) = unat ?used"
    using assms(2) by (simp add: unat_cast MSS_def)
  then have nz: "(ucast ?used :: u16) = 0 \<longleftrightarrow> ?used = 0"
    by (metis unat_eq_zero)
  define ms where "ms = drop (length (mlf_tcpMeta s)) (mlf_tcpMeta (metaLoader u s))"
  show ?thesis
    by (rule that[of ms]; cases "ml_sarLoaded s")
      (use assms len nz in \<open>auto simp: ms_def rt_pending_def rt_entry_def metaLoader_def ml_RT_def Let_def
        ml_out_defs ml_readReplies_def seg_read_def unat_gt_0\<close>)
qed


text \<open>The outcome of the rest of a retransmission: at most \<open>n\<close> further calls, \<open>b\<close> bytes.\<close>

definition rt_outcome :: "4 word \<Rightarrow> nat \<Rightarrow> nat \<Rightarrow> ml_st \<Rightarrow> bool" where
  "rt_outcome u n b s \<longleftrightarrow>
    (\<exists>k \<le> n. \<exists>ms. let s' = (metaLoader u ^^ k) s in
       mlf_tcpMeta s' = mlf_tcpMeta s @ ms \<and> seg_chain (ttr_ackd (rt_entry s)) ms \<and> seg_bytes ms = b
       \<and> mlf_readCmd s' = mlf_readCmd s @ map (seg_read (ev_sessionID (ml_curEvent s))) ms
       \<and> (ml_FsmState s' \<longrightarrow> ttr_finSent (rt_entry s) \<and> ev_type (ml_curEvent s') = FIN))"

lemma rt_last_outcome:
  assumes "rt_pending s" and "unat (ttr_usedLength (rt_entry s)) \<le> MSS"
  shows "rt_outcome u (Suc k) (min (unat (ttr_usedLength (rt_entry s))) (Suc k * MSS)) s"
proof -
  obtain ms where ms: "seg_chain (ttr_ackd (rt_entry s)) ms" "seg_bytes ms = unat (ttr_usedLength (rt_entry s))"
    "mlf_tcpMeta (metaLoader u s) = mlf_tcpMeta s @ ms"
    "mlf_readCmd (metaLoader u s) = mlf_readCmd s @ map (seg_read (ev_sessionID (ml_curEvent s))) ms"
    "ml_FsmState (metaLoader u s) \<longrightarrow> ttr_finSent (rt_entry s) \<and> ev_type (ml_curEvent (metaLoader u s)) = FIN"
    using rt_call_last[OF assms, of u] by metis
  show ?thesis unfolding rt_outcome_def Let_def
    by (intro exI[of _ 1] exI[of _ ms] conjI) (use ms assms(2) in simp_all)
qed

lemma rt_loop:
  "rt_pending s \<Longrightarrow> unat (ml_segmentCount s) + k = 3
   \<Longrightarrow> rt_outcome u (Suc k) (min (unat (ttr_usedLength (rt_entry s))) (Suc k * MSS)) s"
proof (induction k arbitrary: s)
  case (0 s)
  show ?case
  proof (cases "MSS < unat (ttr_usedLength (rt_entry s))")
    case True
    have c: "ml_segmentCount s = 3" using 0(2) by (simp add: word_unat_eq_iff)
    obtain m where m: "txm_seqNumb m = ttr_ackd (rt_entry s)" "txm_length m = of_nat MSS"
      "mlf_tcpMeta (metaLoader u s) = mlf_tcpMeta s @ [m]"
      "mlf_readCmd (metaLoader u s) = mlf_readCmd s @ [seg_read (ev_sessionID (ml_curEvent s)) m]"
      "ml_FsmState (metaLoader u s) \<longleftrightarrow> ml_segmentCount s \<noteq> 3"
      using rt_call_big[OF 0(1) True, of u] by metis
    show ?thesis unfolding rt_outcome_def Let_def
      by (intro exI[of _ 1] exI[of _ "[m]"] conjI) (use m c True in \<open>simp_all add: mss_word, simp add: MSS_def\<close>)
  next
    case False
    then show ?thesis using rt_last_outcome[OF 0(1), where k = 0 and u = u] by simp
  qed
next
  case (Suc k s)
  show ?case
  proof (cases "MSS < unat (ttr_usedLength (rt_entry s))")
    case True
    have c: "ml_segmentCount s \<noteq> 3" using Suc(3) by auto
    obtain m where m: "txm_seqNumb m = ttr_ackd (rt_entry s)" "txm_length m = of_nat MSS"
      "mlf_tcpMeta (metaLoader u s) = mlf_tcpMeta s @ [m]"
      "mlf_readCmd (metaLoader u s) = mlf_readCmd s @ [seg_read (ev_sessionID (ml_curEvent s)) m]"
      "ml_curEvent (metaLoader u s) = ml_curEvent s" "ml_sarLoaded (metaLoader u s)"
      "rt_entry (metaLoader u s) = (rt_entry s)\<lparr>ttr_ackd := ttr_ackd (rt_entry s) + of_nat MSS,
         ttr_usedLength := ttr_usedLength (rt_entry s) - of_nat MSS\<rparr>"
      "ml_FsmState (metaLoader u s)" "ml_segmentCount (metaLoader u s) = ml_segmentCount s + 1"
      using rt_call_big[OF Suc(2) True, of u] c by metis
    let ?t = "metaLoader u s"
    have used: "unat (ttr_usedLength (rt_entry ?t)) = unat (ttr_usedLength (rt_entry s)) - MSS"
      using True m(7) by (simp add: unat_sub word_le_nat_alt mss_word)
    have "unat (ml_segmentCount ?t) + k = 3" using Suc(3) m(9) by (simp add: unat_add_mod)
    moreover have "rt_pending ?t" using Suc(2) m by (simp add: rt_pending_def)
    ultimately have "rt_outcome u (Suc k) (min (unat (ttr_usedLength (rt_entry ?t))) (Suc k * MSS)) ?t"
      using Suc.IH by blast
    then obtain n ms where n: "n \<le> Suc k" and ms:
      "mlf_tcpMeta ((metaLoader u ^^ n) ?t) = mlf_tcpMeta ?t @ ms" "seg_chain (ttr_ackd (rt_entry ?t)) ms"
      "seg_bytes ms = min (unat (ttr_usedLength (rt_entry ?t))) (Suc k * MSS)"
      "mlf_readCmd ((metaLoader u ^^ n) ?t) = mlf_readCmd ?t @ map (seg_read (ev_sessionID (ml_curEvent ?t))) ms"
      "ml_FsmState ((metaLoader u ^^ n) ?t) \<longrightarrow> ttr_finSent (rt_entry ?t)
         \<and> ev_type (ml_curEvent ((metaLoader u ^^ n) ?t)) = FIN"
      unfolding rt_outcome_def Let_def by blast
    have "seg_chain (ttr_ackd (rt_entry s)) (m # ms)" using ms(2) m by (simp add: mss_word, simp add: MSS_def)
    moreover have "seg_bytes (m # ms) = min (unat (ttr_usedLength (rt_entry s))) (Suc (Suc k) * MSS)"
      unfolding seg_bytes_simps m(2) mss_word ms(3) used mult_Suc using True by linarith
    ultimately show ?thesis unfolding rt_outcome_def Let_def
      by (intro exI[of _ "Suc n"] exI[of _ "m # ms"] conjI)
        (use n ms m in \<open>simp_all add: funpow_Suc_right del: funpow.simps\<close>)
  next
    case False
    then show ?thesis using rt_last_outcome[OF Suc(2), where k = "Suc k" and u = u] by simp
  qed
qed


text \<open>C15. A retransmission takes at most four calls and sends the first unacknowledged bytes, up to four
  MSS: segments of at most one MSS follow one another without gap or overlap from \<^verbatim>\<open>ackd\<close> on, each
  with the command that reads its payload from the buffer. Then the loader is free again, or it goes
  on with the FIN if one was sent before.\<close>

theorem retransmission:
  assumes "ml_FsmState s" and "ev_type (ml_curEvent s) = RT" and "\<not> ml_sarLoaded s"
    and "ml_segmentCount s = 0" and "mlf_rxSarRsp s \<noteq> []" and "mlf_txSarRsp s = tx # txs"
  shows "\<exists>k \<le> 4. \<exists>ms. let s' = (metaLoader u ^^ k) s in
      mlf_tcpMeta s' = mlf_tcpMeta s @ ms \<and> seg_chain (ttr_ackd tx) ms
      \<and> seg_bytes ms = min (unat (ttr_usedLength tx)) (4 * MSS)
      \<and> mlf_readCmd s' = mlf_readCmd s
          @ map (\<lambda>m. mmCmd_of (pkgAddr (ev_sessionID (ml_curEvent s)) (txm_seqNumb m)) (txm_length m)) ms
      \<and> (if ml_FsmState s' then ttr_finSent tx \<and> ev_type (ml_curEvent s') = FIN else True)"
proof -
  have "rt_pending s" using assms by (simp add: rt_pending_def ml_replies_def)
  moreover have "rt_entry s = tx" using assms by (simp add: rt_entry_def)
  moreover have "unat (ml_segmentCount s) + 3 = 3" using assms(4) by simp
  ultimately have "rt_outcome u 4 (min (unat (ttr_usedLength tx)) (4 * MSS)) s"
    using rt_loop[of s 3 u] by simp
  then show ?thesis unfolding rt_outcome_def seg_read_def Let_def \<open>rt_entry s = tx\<close> by auto
qed

definition txReply_ex :: "win \<Rightarrow> bool \<Rightarrow> txTxSarReply" where
  "txReply_ex used fs = \<lparr>ttr_ackd = 1000, ttr_not_ackd = 1000 + ucast used + of_bool fs,
     ttr_usableWindow = 0, ttr_app = 1000 + used, ttr_usedLength = used, ttr_finReady = fs, ttr_finSent = fs\<rparr>"

definition ml_ex :: "eventType \<Rightarrow> txTxSarReply \<Rightarrow> ml_st" where
  "ml_ex ty tx = \<lparr>ml_FsmState = True, ml_sarLoaded = False, ml_curEvent = extendedEvent1 (event2 ty 7),
     ml_randomValue = 0x562301af, ml_segmentCount = 0,
     ml_rxSar = \<lparr>rsr_recvd = 0, rsr_win_shift = 0, rsr_windowSize = 0, rsr_usedLength = 0\<rparr>,
     ml_txSarReg = tx, ml_meta = tx_engine_meta6 0 0 0 False False False False, mlf_event = [],
     mlf_rxSarRsp = [\<lparr>rsr_recvd = 5, rsr_win_shift = 2, rsr_windowSize = 100, rsr_usedLength = 0\<rparr>],
     mlf_txSarRsp = [tx], mlf_rxSarReq = [], mlf_txSarReq = [], mlf_setRetransmit = [],
     mlf_setProbe = [], mlf_ipMeta = [], mlf_tcpMeta = [], mlf_readCmd = [], mlf_revReq = [],
     mlf_isLookUp = [], mlf_isBypass = [], mlf_shortCut = [], mlf_readCount = []\<rparr>"

lemma ml_ex_event: "ev_type (ml_curEvent (ml_ex ty tx)) = ty" "ev_sessionID (ml_curEvent (ml_ex ty tx)) = 7"
    "ev_rt_count (ml_curEvent (ml_ex ty tx)) = 0"
  by (simp_all add: ml_ex_def extendedEvent1_def event2_def event.defs)

lemma retransmission_witness:
  "\<exists>k \<le> 4. \<exists>ms. mlf_tcpMeta ((metaLoader 0 ^^ k) (ml_ex RT (txReply_ex 20000 False))) = ms
     \<and> seg_bytes ms = 4 * MSS"
  using retransmission[of "ml_ex RT (txReply_ex 20000 False)" "txReply_ex 20000 False" "[]" 0]
  by (simp add: ml_ex_event del: funpow.simps)
    (auto simp: ml_ex_def txReply_ex_def MSS_def Let_def simp del: funpow.simps)

text \<open>A fast retransmission of a session whose FIN is out sends a second FIN with the sequence number
  after the first one, and moves the next byte of the session past it: the event has no retry count, so
  the loader takes the FIN for a new one.\<close>

lemma fast_retransmit_second_fin:
  "let s = ml_ex RT (txReply_ex 0 True); s' = (metaLoader u ^^ 2) s in
     map (\<lambda>m. (txm_seqNumb m, txm_fin m)) (mlf_tcpMeta s') = [(1001, True)]
     \<and> mlf_txSarReq s' = [txTxSarQuery6 7 1002 True False True True]
     \<and> ttr_not_ackd (txReply_ex 0 True) = 1001 \<and> \<not> ml_FsmState s'"
proof -
  let ?s = "ml_ex RT (txReply_ex 0 True)" and ?tx = "txReply_ex 0 True"
  have tx: "ttr_usedLength ?tx = 0" "ttr_finSent ?tx" "ttr_not_ackd ?tx = 1001" by (simp_all add: txReply_ex_def)
  have ex: "ml_FsmState ?s" "\<not> ml_sarLoaded ?s" "hd (mlf_txSarRsp ?s) = ?tx" "ml_replies ?s"
    "mlf_tcpMeta ?s = []" "mlf_txSarReq ?s = []" by (simp_all add: ml_ex_def ml_replies_def)
  define t where "t = metaLoader u ?s"
  have t: "ml_FsmState t" "ml_sarLoaded t" "ml_txSarReg t = ?tx" "ev_type (ml_curEvent t) = FIN"
    "ev_sessionID (ml_curEvent t) = 7" "ev_rt_count (ml_curEvent t) = 0" "mlf_tcpMeta t = []" "mlf_txSarReq t = []"
    unfolding t_def metaLoader_def ml_RT_def Let_def using ex tx
    by (simp_all add: ml_ex_event ml_readReplies_def)
  have map: "map (\<lambda>m. (txm_seqNumb m, txm_fin m)) (mlf_tcpMeta (metaLoader u t)) = [(1001, True)]"
    and rest: "mlf_txSarReq (metaLoader u t) = [txTxSarQuery6 7 1002 True False True True]"
      "\<not> ml_FsmState (metaLoader u t)"
    using t tx(3) by (simp_all add: metaLoader_def ml_FIN_def Let_def ml_out_defs)
  have "(metaLoader u ^^ 2) ?s = metaLoader u t" by (simp only: numeral_2_eq_2 funpow.simps comp_def id_apply t_def)
  with map rest tx(3) show ?thesis by (simp only: Let_def simp_thms)
qed


subsection \<open>Every segment gets its tuple\<close>

definition ml_reset :: "4 word \<Rightarrow> rxSarReply \<Rightarrow> txTxSarReply \<Rightarrow> ml_st" where
  "ml_reset u rx tx = (ml_ex TX tx)\<lparr>ml_FsmState := False, ml_rxSar := rx,
     ml_meta := tx_engine_meta6 u 0 0 False False False False, mlf_rxSarRsp := [], mlf_txSarRsp := []\<rparr>"

datatype ml_event = MlCall "4 word" | PutEvent extendedEvent | PutRxSar rxSarReply | PutTxSar txTxSarReply

fun ml_step :: "ml_event \<Rightarrow> ml_st \<Rightarrow> ml_st" where
  "ml_step (MlCall u) s = metaLoader u s"
| "ml_step (PutEvent e) s = s\<lparr>mlf_event := mlf_event s @ [e]\<rparr>"
| "ml_step (PutRxSar r) s = s\<lparr>mlf_rxSarRsp := mlf_rxSarRsp s @ [r]\<rparr>"
| "ml_step (PutTxSar r) s = s\<lparr>mlf_txSarRsp := mlf_txSarRsp s @ [r]\<rparr>"

text \<open>The streams of a segment's parts hold the same number of items.\<close>

definition ml_aligned :: "ml_st \<Rightarrow> bool" where
  "ml_aligned s \<longleftrightarrow> mlf_ipMeta s = map txm_length (mlf_tcpMeta s)
     \<and> length (mlf_isLookUp s) = length (mlf_tcpMeta s)
     \<and> length (filter (\<lambda>b. b) (mlf_isLookUp s)) = length (mlf_revReq s)
     \<and> length (filter Not (mlf_isLookUp s)) = length (mlf_shortCut s)"

lemma ml_aligned_send [simp]: "ml_aligned (ml_send m s) = ml_aligned s"
  by (auto simp: ml_aligned_def ml_send_def)

lemma ml_aligned_frame [simp]:
  "ml_aligned (ml_query q s) = ml_aligned s" "ml_aligned (ml_read c s) = ml_aligned s"
  "ml_aligned (ml_payload b s) = ml_aligned s" "ml_aligned (ml_setRetransmit ty s) = ml_aligned s"
  "ml_aligned (ml_readReplies s) = ml_aligned s" "ml_aligned (s\<lparr>ml_meta := m\<rparr>) = ml_aligned s"
  "ml_aligned (s\<lparr>ml_FsmState := b\<rparr>) = ml_aligned s" "ml_aligned (s\<lparr>ml_curEvent := e\<rparr>) = ml_aligned s"
  "ml_aligned (s\<lparr>ml_sarLoaded := b\<rparr>) = ml_aligned s" "ml_aligned (s\<lparr>ml_txSarReg := tx\<rparr>) = ml_aligned s"
  "ml_aligned (s\<lparr>ml_segmentCount := k\<rparr>) = ml_aligned s" "ml_aligned (s\<lparr>ml_randomValue := r\<rparr>) = ml_aligned s"
  "ml_aligned (s\<lparr>mlf_setProbe := p\<rparr>) = ml_aligned s" "ml_aligned (s\<lparr>mlf_txSarRsp := x\<rparr>) = ml_aligned s"
  "ml_aligned (s\<lparr>mlf_rxSarRsp := y\<rparr>) = ml_aligned s" "ml_aligned (s\<lparr>mlf_event := ev\<rparr>) = ml_aligned s"
  "ml_aligned (s\<lparr>mlf_rxSarReq := w\<rparr>) = ml_aligned s" "ml_aligned (s\<lparr>mlf_readCount := v\<rparr>) = ml_aligned s"
  by (simp_all add: ml_aligned_def ml_query_def ml_read_def ml_payload_def ml_setRetransmit_def ml_readReplies_def)

lemma ml_aligned_case:
  "ml_aligned s \<Longrightarrow> ml_aligned (ml_TX s)" "ml_aligned s \<Longrightarrow> ml_aligned (ml_RT s)"
  "ml_aligned s \<Longrightarrow> ml_aligned (ml_ACK s)" "ml_aligned s \<Longrightarrow> ml_aligned (ml_SYN s)"
  "ml_aligned s \<Longrightarrow> ml_aligned (ml_SYN_ACK s)" "ml_aligned s \<Longrightarrow> ml_aligned (ml_FIN s)"
  by (simp_all add: ml_TX_def ml_RT_def ml_ACK_def ml_SYN_def ml_SYN_ACK_def ml_FIN_def ml_fresh_def Let_def
      split: if_splits)

lemma ml_aligned_RST: "ml_aligned s \<Longrightarrow> ml_aligned (ml_RST u s)"
proof (cases "hasSessionID (ml_curEvent s)")
  case True
  then show "ml_aligned s \<Longrightarrow> ml_aligned (ml_RST u s)" by (simp add: ml_RST_def Let_def)
next
  case False
  then show "ml_aligned s \<Longrightarrow> ml_aligned (ml_RST u s)"
    by (simp add: ml_RST_def Let_def ml_aligned_def tx_engine_meta6_def)
qed

lemma ml_aligned_load: "ml_aligned s \<Longrightarrow> ml_aligned (ml_load s)"
  by (simp add: ml_load_def ml_request_def Let_def split: eventType.splits)

interpretation ml: reactive ml_step ml_aligned "\<lambda>_. True"
proof
  fix s e assume "ml_aligned s"
  then show "ml_aligned (ml_step e s)"
    by (cases e) (simp_all add: metaLoader_def ml_aligned_case ml_aligned_RST ml_aligned_load
        split: eventType.splits)
qed

text \<open>The tuples in the order of the flags: from the reverse lookup, or given with a reset.\<close>

fun weave :: "bool list \<Rightarrow> 'a list \<Rightarrow> 'a list \<Rightarrow> 'a list" where
  "weave [] ls cs = []"
| "weave (f # fs) ls cs = (if f then hd ls # weave fs (tl ls) cs else hd cs # weave fs ls (tl cs))"

lemma length_weave [simp]: "length (weave fs ls cs) = length fs"
  by (induction fs arbitrary: ls cs) auto

lemma splitter_two_calls:
  assumes "ts_getMeta s" and "tsf_isLookUp s = f # fs"
    and "if f then tsf_revRsp s = x # xs else tsf_shortCut s = x # xs"
  shows "tupleSplitter (tupleSplitter s) = s\<lparr>ts_isLookUp := f, tsf_isLookUp := fs,
      tsf_revRsp := (if f then xs else tsf_revRsp s), tsf_shortCut := (if f then tsf_shortCut s else xs),
      tsf_ipTuple := tsf_ipTuple s @ [\<lparr>tw_srcIp = ft_srcIp x, tw_dstIp = ft_dstIp x\<rparr>],
      tsf_tcpTuple := tsf_tcpTuple s @ [x]\<rparr>"
  using assms by (cases f) (simp_all add: tupleSplitter_def ts_emit_def)

lemma splitter_run:
  assumes "ts_getMeta s" and "tsf_isLookUp s = fs"
    and "length (filter (\<lambda>b. b) fs) \<le> length (tsf_revRsp s)" and "length (filter Not fs) \<le> length (tsf_shortCut s)"
  shows "tsf_tcpTuple ((tupleSplitter ^^ (2 * length fs)) s)
       = tsf_tcpTuple s @ weave fs (tsf_revRsp s) (tsf_shortCut s)"
  using assms
proof (induction fs arbitrary: s)
  case (Cons f fs)
  define x where "x = (if f then hd (tsf_revRsp s) else hd (tsf_shortCut s))"
  define xs where "xs = (if f then tl (tsf_revRsp s) else tl (tsf_shortCut s))"
  define t where "t = tupleSplitter (tupleSplitter s)"
  have "if f then tsf_revRsp s = x # xs else tsf_shortCut s = x # xs"
    using Cons.prems(3,4) by (cases f; cases "tsf_revRsp s"; cases "tsf_shortCut s") (auto simp: x_def xs_def)
  note two = splitter_two_calls[OF Cons.prems(1,2) this, folded t_def]
  have "tsf_tcpTuple ((tupleSplitter ^^ (2 * length fs)) t)
      = tsf_tcpTuple t @ weave fs (tsf_revRsp t) (tsf_shortCut t)"
    by (rule Cons.IH) (use Cons.prems in \<open>auto simp: two xs_def\<close>)
  moreover have "(tupleSplitter ^^ (2 * length (f # fs))) s = (tupleSplitter ^^ (2 * length fs)) t"
    by (simp add: funpow_Suc_right t_def del: funpow.simps)
  ultimately show ?case by (simp add: two x_def xs_def)
qed simp

text \<open>In every run of the loader the tuple splitter, fed with its flags, the answers of the reverse
  lookup to its requests and the tuples of its resets, gives exactly one tuple for every segment, in
  the order of the segments.\<close>

lemma segments_get_tuples:
  "let m = fold ml_step es (ml_reset u rx tx);
       s = \<lparr>ts_getMeta = True, ts_isLookUp = b, tsf_revRsp = map lookup (mlf_revReq m),
             tsf_shortCut = mlf_shortCut m, tsf_isLookUp = mlf_isLookUp m, tsf_ipTuple = [], tsf_tcpTuple = []\<rparr>;
       t = (tupleSplitter ^^ (2 * length (mlf_tcpMeta m))) s
   in tsf_tcpTuple t = weave (mlf_isLookUp m) (map lookup (mlf_revReq m)) (mlf_shortCut m)
      \<and> length (tsf_tcpTuple t) = length (mlf_tcpMeta m)
      \<and> mlf_ipMeta m = map txm_length (mlf_tcpMeta m)"
proof -
  define m where "m = fold ml_step es (ml_reset u rx tx)"
  define s where "s = \<lparr>ts_getMeta = True, ts_isLookUp = b, tsf_revRsp = map lookup (mlf_revReq m),
     tsf_shortCut = mlf_shortCut m, tsf_isLookUp = mlf_isLookUp m, tsf_ipTuple = [], tsf_tcpTuple = []\<rparr>"
  have al: "ml_aligned m"
    unfolding m_def by (rule ml.inv_run) (simp_all add: ml_reset_def ml_ex_def ml_aligned_def)
  then have "tsf_tcpTuple ((tupleSplitter ^^ (2 * length (mlf_tcpMeta m))) s)
      = weave (mlf_isLookUp m) (map lookup (mlf_revReq m)) (mlf_shortCut m)"
    using splitter_run[of s "mlf_isLookUp m"] by (simp add: s_def ml_aligned_def)
  with al show ?thesis unfolding Let_def m_def[symmetric] s_def[symmetric] by (simp add: ml_aligned_def)
qed

end
