(* ===== verification/Axis_Words.thy ===== *)
theory Axis_Words
  imports Toe_Types
begin

text \<open>
  The words of the data streams, \<^verbatim>\<open>net_axis<WIDTH>\<close> of \<^verbatim>\<open>hls/axi_utils.hpp\<close>, and the conversions between
  a number of bytes and the \<^verbatim>\<open>keep\<close> bits (\<^verbatim>\<open>hls/axi_utils.cpp\<close>).

  A word is the list of its \<^verbatim>\<open>WIDTH/8\<close> lanes, lowest first, a lane being a byte of \<^verbatim>\<open>data\<close> with its
  bit of \<^verbatim>\<open>keep\<close>: the processes only move \<^verbatim>\<open>data\<close> by whole bytes, and \<^verbatim>\<open>keep\<close> with it. The number
  of lanes is the argument \<open>W\<close>, so the definitions are those of every instance of the templates.
  \<open>packet\<close> says that a list of words carries a string of bytes as a packet.
\<close>

subsection \<open>Words\<close>

type_synonym byte = "8 word"
type_synonym lane = "byte \<times> bool"

record net_axis =
  ax_lanes :: "lane list"
  ax_last :: bool

text \<open>\<^verbatim>\<open>keep[i]\<close>, and \<^verbatim>\<open>keep\<close> assigned from 64 bits.\<close>

definition keep_at :: "nat \<Rightarrow> net_axis \<Rightarrow> bool" where
  "keep_at i w = snd (ax_lanes w ! i)"

definition set_keep :: "64 word \<Rightarrow> net_axis \<Rightarrow> net_axis" where
  "set_keep k w = w\<lparr>ax_lanes := map (\<lambda>(i, b, _). (b, bit k i)) (enumerate 0 (ax_lanes w))\<rparr>"

text \<open>The upper lanes of one word followed by the lower lanes of the next.\<close>

definition alignWords :: "nat \<Rightarrow> net_axis \<Rightarrow> net_axis \<Rightarrow> lane list" where
  "alignWords off prev cur = drop off (ax_lanes prev) @ take off (ax_lanes cur)"

subsection \<open>Lengths and keep bits\<close>

definition lenToKeep :: "6 word \<Rightarrow> 64 word" where
  "lenToKeep len = [0xFFFFFFFFFFFFFFFF, 0x1, 0x3, 0x7, 0xF, 0x1F, 0x3F, 0x7F, 0xFF, 0x1FF, 0x3FF, 0x7FF, 0xFFF,
     0x1FFF, 0x3FFF, 0x7FFF, 0xFFFF, 0x1FFFF, 0x3FFFF, 0x7FFFF, 0xFFFFF, 0x1FFFFF, 0x3FFFFF,
     0x7FFFFF, 0xFFFFFF, 0x1FFFFFF, 0x3FFFFFF, 0x7FFFFFF, 0xFFFFFFF, 0x1FFFFFFF, 0x3FFFFFFF,
     0x7FFFFFFF, 0xFFFFFFFF, 0x1FFFFFFFF, 0x3FFFFFFFF, 0x7FFFFFFFF, 0xFFFFFFFFF, 0x1FFFFFFFFF,
     0x3FFFFFFFFF, 0x7FFFFFFFFF, 0xFFFFFFFFFF, 0x1FFFFFFFFFF, 0x3FFFFFFFFFF, 0x7FFFFFFFFFF,
     0xFFFFFFFFFFF, 0x1FFFFFFFFFFF, 0x3FFFFFFFFFFF, 0x7FFFFFFFFFFF, 0xFFFFFFFFFFFF,
     0x1FFFFFFFFFFFF, 0x3FFFFFFFFFFFF, 0x7FFFFFFFFFFFF, 0xFFFFFFFFFFFFF, 0x1FFFFFFFFFFFFF,
     0x3FFFFFFFFFFFFF, 0x7FFFFFFFFFFFFF, 0xFFFFFFFFFFFFFF, 0x1FFFFFFFFFFFFFF, 0x3FFFFFFFFFFFFFF,
     0x7FFFFFFFFFFFFFF, 0xFFFFFFFFFFFFFFF, 0x1FFFFFFFFFFFFFFF, 0x3FFFFFFFFFFFFFFF,
     0x7FFFFFFFFFFFFFFF] ! unat len"

definition keepToLen_cases :: "(64 word \<times> 8 word) list" where
  "keepToLen_cases = [(0x1, 0x1), (0x3, 0x2), (0x7, 0x3), (0xF, 0x4), (0x1F, 0x5), (0x3F, 0x6), (0x7F, 0x7),
     (0xFF, 0x8), (0x1FF, 0x9), (0x3FF, 0xA), (0x7FF, 0xB), (0xFFF, 0xC), (0x1FFF, 0xD),
     (0x3FFF, 0xE), (0x7FFF, 0xF), (0xFFFF, 0x10), (0x1FFFF, 0x11), (0x3FFFF, 0x12), (0x7FFFF,
     0x13), (0xFFFFF, 0x14), (0x1FFFFF, 0x15), (0x3FFFFF, 0x16), (0x7FFFFF, 0x17), (0xFFFFFF,
     0x18), (0x1FFFFFF, 0x19), (0x3FFFFFF, 0x1A), (0x7FFFFFF, 0x1B), (0xFFFFFFF, 0x1C),
     (0x1FFFFFFF, 0x1D), (0x3FFFFFFF, 0x1E), (0x7FFFFFFF, 0x1F), (0xFFFFFFFF, 0x20),
     (0x1FFFFFFFF, 0x21), (0x3FFFFFFFF, 0x22), (0x7FFFFFFFF, 0x23), (0xFFFFFFFFF, 0x24),
     (0x1FFFFFFFFF, 0x25), (0x3FFFFFFFFF, 0x26), (0x7FFFFFFFFF, 0x27), (0xFFFFFFFFFF, 0x28),
     (0x1FFFFFFFFFF, 0x29), (0x3FFFFFFFFFF, 0x2A), (0x7FFFFFFFFFF, 0x2B), (0xFFFFFFFFFFF, 0x2C),
     (0x1FFFFFFFFFFF, 0x2D), (0x3FFFFFFFFFFF, 0x2E), (0x7FFFFFFFFFFF, 0x2F), (0xFFFFFFFFFFFF,
     0x30), (0x1FFFFFFFFFFFF, 0x31), (0x3FFFFFFFFFFFF, 0x32), (0x7FFFFFFFFFFFF, 0x33),
     (0xFFFFFFFFFFFFF, 0x34), (0x1FFFFFFFFFFFFF, 0x35), (0x3FFFFFFFFFFFFF, 0x36),
     (0x7FFFFFFFFFFFFF, 0x37), (0xFFFFFFFFFFFFFF, 0x38), (0x1FFFFFFFFFFFFFF, 0x39),
     (0x3FFFFFFFFFFFFFF, 0x3A), (0x7FFFFFFFFFFFFFF, 0x3B), (0xFFFFFFFFFFFFFFF, 0x3C),
     (0x1FFFFFFFFFFFFFFF, 0x3D), (0x3FFFFFFFFFFFFFFF, 0x3E), (0x7FFFFFFFFFFFFFFF, 0x3F),
     (0xFFFFFFFFFFFFFFFF, 0x40)]"

definition keepToLen :: "64 word \<Rightarrow> 8 word" where
  "keepToLen k = (case map_of keepToLen_cases k of Some n \<Rightarrow> n | None \<Rightarrow> 0xFF)"


lemma keepToLen_table: "keepToLen_cases = map (\<lambda>n. (mask n, of_nat n)) [1..<65]"
  by (simp add: keepToLen_cases_def upt_rec mask_eq_decr_exp)

lemma lenToKeep_table: "list_all (\<lambda>i. lenToKeep (of_nat i) = (if i = 0 then mask 64 else mask i)) [0..<64]"
  by (simp add: lenToKeep_def upt_rec mask_eq_decr_exp)

lemma lenToKeep_mask: "lenToKeep l = (if l = 0 then mask 64 else mask (unat l))"
proof -
  have "unat l \<in> set [0..<64]" using unat_bound[of l] by simp
  then have "lenToKeep (of_nat (unat l)) = (if unat l = 0 then mask 64 else mask (unat l))"
    using lenToKeep_table unfolding list_all_iff by blast
  then show ?thesis by (simp add: unat_eq_zero)
qed

lemma mask_inj: "n \<le> 64 \<Longrightarrow> m \<le> 64 \<Longrightarrow> (mask n :: 64 word) = mask m \<longleftrightarrow> n = m"
proof -
  assume a: "n \<le> 64" "m \<le> 64"
  have differ: "(mask n :: 64 word) \<noteq> mask m" if "n < m" "m \<le> 64" for n m
  proof
    assume "(mask n :: 64 word) = mask m"
    then have "bit (mask n :: 64 word) n = bit (mask m :: 64 word) n" by simp
    then show False using that by (simp add: bit_simps)
  qed
  show ?thesis using differ[of n m] differ[of m n] a by (cases n m rule: linorder_cases) auto
qed

lemma keepToLen_mask:
  assumes "0 < n" and "n \<le> 64"
  shows "keepToLen (mask n) = of_nat n"
proof -
  have "map_of (map (\<lambda>n. (mask n :: 64 word, of_nat n :: 8 word)) xs) (mask n)
      = (if n \<in> set xs then Some (of_nat n) else None)" if "set xs \<subseteq> {..64}" for xs
    using that assms(2) by (induction xs) (auto simp: mask_inj)
  from this[of "[1..<65]"] show ?thesis using assms
    by (simp add: keepToLen_def keepToLen_table subset_iff)
qed

text \<open>The two tables are inverse to each other: a length of 1 to 63 bytes, and 0 for a full word of 64,
  becomes the keep bits with that many ones at the bottom, and \<^verbatim>\<open>keepToLen\<close> reads it back.\<close>

lemma keep_round_trip:
  "lenToKeep l = mask (if l = 0 then 64 else unat l) \<and>
   unat (keepToLen (lenToKeep l)) = (if l = 0 then 64 else unat l)"
proof (cases "l = 0")
  case True
  then show ?thesis using keepToLen_mask[of 64] by (simp add: lenToKeep_mask)
next
  case False
  have "0 < unat l" "unat l < 64" using False unat_bound[of l] by (auto simp: unat_gt_0)
  then show ?thesis using False keepToLen_mask[of "unat l"]
    by (simp add: lenToKeep_mask unat_cast)
qed

subsection \<open>Packets\<close>

fun packet :: "nat \<Rightarrow> net_axis list \<Rightarrow> byte list \<Rightarrow> bool" where
  "packet W [] bs \<longleftrightarrow> False"
| "packet W (w # ws) bs \<longleftrightarrow>
    (if ws = [] then ax_last w \<and> bs \<noteq> [] \<and> length bs \<le> W
        \<and> take (length bs) (ax_lanes w) = map (\<lambda>b. (b, True)) bs
        \<and> map snd (drop (length bs) (ax_lanes w)) = replicate (W - length bs) False
     else \<not> ax_last w \<and> W < length bs \<and> ax_lanes w = map (\<lambda>b. (b, True)) (take W bs)
        \<and> packet W ws (drop W bs))"

lemma packet_nonempty: "packet W ws bs \<Longrightarrow> bs \<noteq> [] \<and> ws \<noteq> []"
  by (cases ws) (auto split: if_splits)

lemma packet_single:
  "packet W [w] bs \<longleftrightarrow> ax_last w \<and> bs \<noteq> [] \<and> length bs \<le> W
     \<and> take (length bs) (ax_lanes w) = map (\<lambda>b. (b, True)) bs
     \<and> map snd (drop (length bs) (ax_lanes w)) = replicate (W - length bs) False"
  by simp

lemma packet_cons:
  "ws \<noteq> [] \<Longrightarrow> packet W (w # ws) bs \<longleftrightarrow> \<not> ax_last w \<and> W < length bs
     \<and> ax_lanes w = map (\<lambda>b. (b, True)) (take W bs) \<and> packet W ws (drop W bs)"
  by simp

declare packet.simps(2) [simp del]

lemma packet_lanes: "packet W (w # ws) bs \<Longrightarrow> length (ax_lanes w) = W"
proof (cases "ws = []")
  case True
  assume p: "packet W (w # ws) bs"
  then have le: "length bs \<le> W" and t: "length (take (length bs) (ax_lanes w)) = length bs"
    and d: "length (map snd (drop (length bs) (ax_lanes w))) = W - length bs"
    using True by (simp_all add: packet_single)
  from t have "length bs \<le> length (ax_lanes w)" by simp
  with le d show ?thesis by simp
next
  case False
  assume "packet W (w # ws) bs"
  then show ?thesis using False by (simp add: packet_cons)
qed

lemma packet_last: "packet W (w # ws) bs \<Longrightarrow> ax_last w \<longleftrightarrow> ws = []"
  by (cases "ws = []") (simp_all add: packet_single packet_cons)

lemma packet_short: "packet W (w # ws) bs \<Longrightarrow> ws = [] \<longleftrightarrow> length bs \<le> W"
  by (cases "ws = []") (simp_all add: packet_single packet_cons)


lemma packet_take:
  assumes "packet W (w # ws) bs" and "k \<le> W" and "k \<le> length bs"
  shows "take k (ax_lanes w) = map (\<lambda>b. (b, True)) (take k bs)"
proof (cases "ws = []")
  case True
  then have "take (length bs) (ax_lanes w) = map (\<lambda>b. (b, True)) bs" using assms by (simp add: packet_single)
  then have "take k (take (length bs) (ax_lanes w)) = map (\<lambda>b. (b, True)) (take k bs)" by (simp add: take_map)
  then show ?thesis using assms(3) by (simp add: min_def)
next
  case False
  then show ?thesis using assms by (simp add: packet_cons take_map min_def)
qed

lemma packet_keep:
  assumes "packet W (w # ws) bs" and "off < W"
  shows "keep_at off w \<longleftrightarrow> off < length bs"
proof (cases "off < length bs")
  case True
  have "take (Suc off) (ax_lanes w) = map (\<lambda>b. (b, True)) (take (Suc off) bs)"
    by (rule packet_take[OF assms(1)]) (use assms(2) True in simp_all)
  then have "take (Suc off) (ax_lanes w) ! off = (bs ! off, True)" using True by simp
  then show ?thesis using True by (simp add: keep_at_def)
next
  case False
  then have ws: "ws = []" using assms packet_short by fastforce
  then have d: "map snd (drop (length bs) (ax_lanes w)) = replicate (W - length bs) False" and "length bs \<le> W"
    using assms(1) by (simp_all add: packet_single)
  have "map snd (drop (length bs) (ax_lanes w)) ! (off - length bs) = False"
    unfolding d using assms(2) False by simp
  moreover have "length (ax_lanes w) = W" using assms(1) by (rule packet_lanes)
  ultimately show ?thesis using False assms(2) by (simp add: keep_at_def)
qed

subsection \<open>Cutting and realigning\<close>

lemma take_across: "off \<le> W \<Longrightarrow> take W (drop off bs) = drop off (take W bs) @ take off (drop W bs)"
proof -
  assume "off \<le> W"
  then have "take W (drop off bs) = take ((W - off) + off) (drop off bs)" by simp
  also have "\<dots> = take (W - off) (drop off bs) @ take off (drop (W - off) (drop off bs))" by (rule take_add)
  finally show ?thesis using \<open>off \<le> W\<close> by (simp add: drop_take)
qed

lemma align_full:
  assumes "packet W (prev # cur # ws) bs" and "off < W" and "W + off \<le> length bs"
  shows "alignWords off prev cur = map (\<lambda>b. (b, True)) (take W (drop off bs))"
proof -
  have prev: "ax_lanes prev = map (\<lambda>b. (b, True)) (take W bs)" and cur: "packet W (cur # ws) (drop W bs)"
    using assms(1) by (simp_all add: packet_cons)
  have "take off (ax_lanes cur) = map (\<lambda>b. (b, True)) (take off (drop W bs))"
    by (rule packet_take[OF cur]) (use assms in simp_all)
  then show ?thesis
    using assms(2) by (simp add: alignWords_def prev take_across drop_map)
qed

lemma align_end:
  assumes "packet W [prev, cur] bs" and "off < W" and "length bs \<le> W + off"
  shows "packet W [\<lparr>ax_lanes = alignWords off prev cur, ax_last = True\<rparr>] (drop off bs)"
proof -
  let ?n = "length bs - W" and ?c = "ax_lanes cur"
  have prev: "ax_lanes prev = map (\<lambda>b. (b, True)) (take W bs)" and gt: "W < length bs"
    and cur: "packet W [cur] (drop W bs)" using assms(1) by (simp_all add: packet_cons)
  have c: "take ?n ?c = map (\<lambda>b. (b, True)) (drop W bs)" "map snd (drop ?n ?c) = replicate (W - ?n) False"
    using cur by (simp_all add: packet_single)
  have off: "take off ?c = map (\<lambda>b. (b, True)) (drop W bs) @ take (off - ?n) (drop ?n ?c)"
    using c(1) assms(3) by (metis append_take_drop_id le_diff_conv add.commute take_add le_add_diff_inverse)
  have lanes: "alignWords off prev cur = map (\<lambda>b. (b, True)) (drop off bs) @ take (off - ?n) (drop ?n ?c)"
  proof -
    have "drop off bs = drop off (take W bs) @ drop W bs"
      using assms(2) gt by (metis append_take_drop_id drop_append diff_is_0_eq' drop0 length_take less_imp_le min.absorb2)
    then show ?thesis by (simp add: alignWords_def prev off drop_map)
  qed
  have "map snd (take (off - ?n) (drop ?n ?c)) = replicate (off - ?n) False"
    using arg_cong[OF c(2), of "take (off - ?n)"] assms(2) by (simp add: take_map min_def)
  moreover have "W - (length bs - off) = off - ?n" using assms gt by simp
  ultimately show ?thesis using assms gt by (simp add: packet_single lanes)
qed

lemma align_residue:
  assumes "packet W [prev] bs" and "off < length bs"
    and "off \<le> length (ax_lanes fill)" and "map snd (take off (ax_lanes fill)) = replicate off False"
  shows "packet W [\<lparr>ax_lanes = alignWords off prev fill, ax_last = True\<rparr>] (drop off bs)"
proof -
  let ?p = "ax_lanes prev"
  have p: "take (length bs) ?p = map (\<lambda>b. (b, True)) bs" "map snd (drop (length bs) ?p) = replicate (W - length bs) False"
    and le: "length bs \<le> W" using assms(1) by (simp_all add: packet_single)
  have "?p = map (\<lambda>b. (b, True)) bs @ drop (length bs) ?p" using p(1) by (metis append_take_drop_id)
  then have "drop off ?p = map (\<lambda>b. (b, True)) (drop off bs) @ drop (length bs) ?p"
    using assms(2) by (metis drop_append drop_map diff_is_0_eq' drop0 length_map less_imp_le)
  then have "alignWords off prev fill
      = map (\<lambda>b. (b, True)) (drop off bs) @ drop (length bs) ?p @ take off (ax_lanes fill)"
    by (simp add: alignWords_def)
  then show ?thesis using assms(2,4) p(2) le
    by (simp add: packet_single replicate_add[symmetric])
qed

lemma cut_first:
  assumes "packet W (w # ws) bs" and "0 < n" and "n \<le> W" and "n \<le> length bs" and "W \<le> 64"
  shows "packet W [(set_keep (mask n) w)\<lparr>ax_last := True\<rparr>] (take n bs)"
proof -
  let ?l = "ax_lanes (set_keep (mask n) w)"
  have len: "length (ax_lanes w) = W" using assms(1) by (rule packet_lanes)
  then have len': "length ?l = W" by (simp add: set_keep_def)
  have nth: "?l ! i = (fst (ax_lanes w ! i), i < n)" if "i < W" for i
    using that len assms(5) by (simp add: set_keep_def case_prod_unfold nth_enumerate_eq bit_simps)
  have t: "take n (ax_lanes w) = map (\<lambda>b. (b, True)) (take n bs)"
    by (rule packet_take[OF assms(1)]) (use assms in simp_all)
  have "take n ?l = map (\<lambda>b. (b, True)) (take n bs)"
  proof (rule nth_equalityI)
    fix i assume "i < length (take n ?l)"
    then have i: "i < n" "i < W" using len' by simp_all
    have "take n (ax_lanes w) ! i = (bs ! i, True)" unfolding t using i assms by simp
    then show "take n ?l ! i = map (\<lambda>b. (b, True)) (take n bs) ! i" using i assms nth[of i] by simp
  qed (use len' assms in simp)
  moreover have "map snd (drop n ?l) = replicate (W - n) False"
    by (rule nth_equalityI) (use len' nth in auto)
  ultimately show ?thesis using assms by (auto simp: packet_single)
qed

text \<open>
  A process that takes a word in each step: when the first word of a packet starts it (\<open>P\<close> holds until the last word) and \<open>R\<close>
  describes what words do to it, \<open>R\<close> describes what the packet does.
\<close>

lemma packet_rest_run:
  assumes "packet W ws bs" and "inp s = ws @ rest" and "P s"
    and "\<And>s w r. P s \<Longrightarrow> inp s = w # r \<Longrightarrow> inp (f s) = r \<and> R [w] s (f s) \<and> (\<not> ax_last w \<longrightarrow> P (f s))"
    and "\<And>xs ys s t u. R xs s t \<Longrightarrow> R ys t u \<Longrightarrow> ys \<noteq> [] \<Longrightarrow> R (xs @ ys) s u"
  shows "R ws s ((f ^^ length ws) s) \<and> inp ((f ^^ length ws) s) = rest \<and> ax_last (last ws)"
  using assms(1-3)
proof (induction ws arbitrary: s bs)
  case (Cons w ws)
  have step: "inp (f s) = ws @ rest" "R [w] s (f s)" "\<not> ax_last w \<longrightarrow> P (f s)" using assms(4)[of s w "ws @ rest"] Cons.prems by simp_all
  show ?case
  proof (cases "ws = []")
    case True
    then show ?thesis using step Cons.prems(1) by (simp add: packet_single)
  next
    case False
    then have "\<not> ax_last w" "packet W ws (drop W bs)" using Cons.prems(1) by (simp_all add: packet_cons)
    then show ?thesis
      using Cons.IH[of "drop W bs" "f s"] step assms(5)[of "[w]" s "f s" ws] False by (simp add: funpow_Suc_right del: funpow.simps)
  qed
qed simp

lemma packet_run:
  assumes "packet W ws bs" and "inp s = ws @ rest"
    and "\<And>w r. ws = w # r \<Longrightarrow> inp (f s) = r @ rest \<and> R [w] s (f s) \<and> (\<not> ax_last w \<longrightarrow> P (f s))"
    and "\<And>s w r. P s \<Longrightarrow> inp s = w # r \<Longrightarrow> inp (f s) = r \<and> R [w] s (f s) \<and> (\<not> ax_last w \<longrightarrow> P (f s))"
    and "\<And>xs ys s t u. R xs s t \<Longrightarrow> R ys t u \<Longrightarrow> ys \<noteq> [] \<Longrightarrow> R (xs @ ys) s u"
  shows "R ws s ((f ^^ length ws) s) \<and> inp ((f ^^ length ws) s) = rest \<and> ax_last (last ws)"
proof -
  obtain w ws' where ws: "ws = w # ws'" using packet_nonempty[OF assms(1)] by (cases ws) auto
  have step: "inp (f s) = ws' @ rest" "R [w] s (f s)" "\<not> ax_last w \<longrightarrow> P (f s)" using assms(3)[OF ws] by simp_all
  show ?thesis
  proof (cases "ws' = []")
    case True
    then show ?thesis using step assms(1) ws by (simp add: packet_single)
  next
    case False
    then have p: "\<not> ax_last w" "packet W ws' (drop W bs)" using assms(1) ws by (simp_all add: packet_cons)
    have "R ws' (f s) ((f ^^ length ws') (f s)) \<and> inp ((f ^^ length ws') (f s)) = rest \<and> ax_last (last ws')"
      by (rule packet_rest_run[where P = P and f = f and inp = inp and R = R, OF p(2) step(1) _ assms(4) assms(5)])
        (use step(3) p(1) in blast)+
    then show ?thesis using assms(5)[OF step(2) _ False] ws False by (simp add: funpow_Suc_right del: funpow.simps)
  qed
qed

end
