(* ===== verification/Mem_Split.thy ===== *)
theory Mem_Split
  imports Axis_Words
begin

text \<open>
  The ring buffers of 2^18 bytes per session. A segment that runs over the end of its buffer is
  written and read with two memory commands, and its data is cut and realigned:
  \<^verbatim>\<open>rxEngMemWrite\<close> (\<^verbatim>\<open>rx_engine.cpp\<close>) and \<^verbatim>\<open>tasi_pkg_pusher\<close> (\<^verbatim>\<open>tx_app_stream_if.cpp\<close>), which are the
  same state machine, write; \<^verbatim>\<open>txEngMemAccessBreakdown\<close> (\<^verbatim>\<open>tx_engine.cpp\<close>) and
  \<^verbatim>\<open>rxAppMemAccessBreakdown\<close> (\<^verbatim>\<open>toe.cpp\<close>) split the commands of the reads.

  The specification is \<open>ring_addr\<close>: byte \<open>k\<close> of a segment lives at the address of its session with
  the low 18 bits \<open>(offset + k) mod 2 ^ 18\<close>.
\<close>

subsection \<open>The writing process\<close>

datatype mwState = MW_IDLE | IDLE_REG | CUT_FIRST | ALIGN_SECOND | FWD_ALIGNED | MW_RESIDUE

record mw_st =
  mw_state :: mwState
  mw_cmd :: mmCmd
  mw_remaining :: win
  mw_first :: win
  mw_offset :: "8 word"
  mw_prev :: net_axis
  mwf_cmdIn :: "mmCmd fifo"
  mwf_dataIn :: "net_axis fifo"
  mwf_cmdOut :: "mmCmd fifo"
  mwf_dataOut :: "net_axis fifo"
  mwf_double :: "bool fifo"

text \<open>The segment runs over the end of the buffer; the bytes before the end.\<close>

definition cmd_wraps :: "mmCmd \<Rightarrow> bool" where
  "cmd_wraps c \<longleftrightarrow> BUFFER_SIZE < unat (range_get 17 0 (mm_saddr c) :: win) + unat (mm_bbt c)"

definition cmd_first :: "mmCmd \<Rightarrow> win" where
  "cmd_first c = ucast (of_nat BUFFER_SIZE - mm_saddr c)"

definition mw_idle :: "mw_st \<Rightarrow> mw_st" where
  "mw_idle s =
    (if mwf_cmdIn s \<noteq> [] then
       s\<lparr>mw_cmd := hd (mwf_cmdIn s), mwf_cmdIn := tl (mwf_cmdIn s), mw_state := IDLE_REG\<rparr>
     else s)"

definition mw_double :: "bool \<Rightarrow> bool \<Rightarrow> mw_st \<Rightarrow> mw_st" where
  "mw_double report b s = (if report then s\<lparr>mwf_double := mwf_double s @ [b]\<rparr> else s)"

definition mw_reg :: "nat \<Rightarrow> bool \<Rightarrow> mw_st \<Rightarrow> mw_st" where
  "mw_reg W report s =
    (let c = mw_cmd s; f = cmd_first c in
     if cmd_wraps c then
       mw_double report True (s\<lparr>mw_first := f, mw_remaining := f, mw_offset := of_nat (unat f mod W),
         mwf_cmdOut := mwf_cmdOut s @ [mmCmd_of (mm_saddr c) (ucast f)], mw_state := CUT_FIRST\<rparr>)
     else
       mw_double report False (s\<lparr>mwf_cmdOut := mwf_cmdOut s @ [c], mw_state := FWD_ALIGNED\<rparr>))"

text \<open>The command for the part at the start of the buffer.\<close>

definition mw_second :: "mw_st \<Rightarrow> mw_st" where
  "mw_second s =
    (let c = (mw_cmd s)\<lparr>mm_saddr := range_set 17 0 (0 :: win) (mm_saddr (mw_cmd s)),
                        mm_bbt := mm_bbt (mw_cmd s) - ucast (mw_first s)\<rparr> in
     s\<lparr>mw_cmd := c, mwf_cmdOut := mwf_cmdOut s @ [c]\<rparr>)"

definition mw_cut :: "nat \<Rightarrow> mw_st \<Rightarrow> mw_st" where
  "mw_cut W s =
    (if mwf_dataIn s \<noteq> [] then
       (let w = hd (mwf_dataIn s); s = s\<lparr>mw_prev := w, mwf_dataIn := tl (mwf_dataIn s)\<rparr>;
            r = unat (mw_remaining s) in
        if W < r then
          s\<lparr>mw_remaining := mw_remaining s - of_nat W, mwf_dataOut := mwf_dataOut s @ [w]\<rparr>
        else if r = W then
          (mw_second s)\<lparr>mwf_dataOut := mwf_dataOut s @ [w\<lparr>ax_last := True\<rparr>], mw_state := FWD_ALIGNED\<rparr>
        else
          (mw_second s)\<lparr>mwf_dataOut := mwf_dataOut s
              @ [(set_keep (lenToKeep (ucast (mw_remaining s))) w)\<lparr>ax_last := True\<rparr>],
            mw_state := (if ax_last w then MW_RESIDUE else ALIGN_SECOND)\<rparr>)
     else s)"

definition mw_fwd :: "mw_st \<Rightarrow> mw_st" where
  "mw_fwd s =
    (if mwf_dataIn s \<noteq> [] then
       (let w = hd (mwf_dataIn s) in
        s\<lparr>mwf_dataIn := tl (mwf_dataIn s), mwf_dataOut := mwf_dataOut s @ [w],
          mw_state := (if ax_last w then MW_IDLE else FWD_ALIGNED)\<rparr>)
     else s)"

definition mw_align :: "mw_st \<Rightarrow> mw_st" where
  "mw_align s =
    (if mwf_dataIn s \<noteq> [] then
       (let cur = hd (mwf_dataIn s); off = unat (mw_offset s); end = \<not> keep_at off cur in
        s\<lparr>mwf_dataIn := tl (mwf_dataIn s), mw_prev := cur,
          mwf_dataOut := mwf_dataOut s @ [\<lparr>ax_lanes = alignWords off (mw_prev s) cur, ax_last = end\<rparr>],
          mw_state := (if ax_last cur then (if end then MW_IDLE else MW_RESIDUE) else mw_state s)\<rparr>)
     else s)"

definition mw_residue :: "net_axis \<Rightarrow> mw_st \<Rightarrow> mw_st" where
  "mw_residue fill s =
     s\<lparr>mwf_dataOut := mwf_dataOut s
         @ [\<lparr>ax_lanes = alignWords (unat (mw_offset s)) (mw_prev s) fill, ax_last = True\<rparr>],
       mw_state := MW_IDLE\<rparr>"

definition mem_write :: "nat \<Rightarrow> bool \<Rightarrow> net_axis \<Rightarrow> mw_st \<Rightarrow> mw_st" where
  "mem_write W report fill s =
    (case mw_state s of
       MW_IDLE \<Rightarrow> mw_idle s | IDLE_REG \<Rightarrow> mw_reg W report s | CUT_FIRST \<Rightarrow> mw_cut W s
     | FWD_ALIGNED \<Rightarrow> mw_fwd s | ALIGN_SECOND \<Rightarrow> mw_align s | MW_RESIDUE \<Rightarrow> mw_residue fill s)"

text \<open>
  The receive engine fills the residue with lanes that are not kept; the application interface aligns
  it with \<open>u\<close>, the local \<^verbatim>\<open>emptyWord\<close> that is never assigned.
\<close>

definition rxEngMemWrite :: "nat \<Rightarrow> mw_st \<Rightarrow> mw_st" where
  "rxEngMemWrite W = mem_write W True \<lparr>ax_lanes = replicate W (0, False), ax_last = True\<rparr>"

definition tasi_pkg_pusher :: "nat \<Rightarrow> net_axis \<Rightarrow> mw_st \<Rightarrow> mw_st" where
  "tasi_pkg_pusher W u = mem_write W False u"

subsection \<open>The reading side\<close>

record mb_st =
  mb_state :: bool
  mb_cmd :: mmCmd
  mb_length :: win
  mbf_in :: "mmCmd fifo"
  mbf_out :: "mmCmd fifo"
  mbf_double :: "bool fifo"

definition txEngMemAccessBreakdown :: "mb_st \<Rightarrow> mb_st" where
  "txEngMemAccessBreakdown s =
    (if \<not> mb_state s then
       (if mbf_in s \<noteq> [] then
          (let c = hd (mbf_in s); s = s\<lparr>mb_cmd := c, mbf_in := tl (mbf_in s)\<rparr> in
           if cmd_wraps c then
             s\<lparr>mb_length := cmd_first c, mbf_double := mbf_double s @ [True],
               mbf_out := mbf_out s @ [mmCmd_of (mm_saddr c) (ucast (cmd_first c))], mb_state := True\<rparr>
           else s\<lparr>mbf_double := mbf_double s @ [False], mbf_out := mbf_out s @ [c]\<rparr>)
        else s)
     else
       s\<lparr>mbf_out := mbf_out s @ [mmCmd_of 0 (ucast (mm_bbt (mb_cmd s) - ucast (mb_length s)))],
         mb_state := False\<rparr>)"

record ra_st =
  ra_breakdown :: bool
  ra_cmd :: mmCmd
  ra_length :: u16
  raf_in :: "mmCmd fifo"
  raf_out :: "mmCmd fifo"
  raf_double :: "bool fifo"

definition rxAppMemAccessBreakdown :: "ra_st \<Rightarrow> ra_st" where
  "rxAppMemAccessBreakdown s =
    (if \<not> ra_breakdown s then
       (if raf_in s \<noteq> [] then
          (let c = hd (raf_in s); s = s\<lparr>ra_cmd := c, raf_in := tl (raf_in s)\<rparr>;
               split = 65536 < unat (range_get 15 0 (mm_saddr c) :: u16) + unat (mm_bbt c);
               l = ucast (65536 - mm_saddr c) :: u16;
               s = (if split
                    then s\<lparr>ra_length := l, raf_out := raf_out s @ [mmCmd_of (mm_saddr c) l], ra_breakdown := True\<rparr>
                    else s\<lparr>raf_out := raf_out s @ [c]\<rparr>) in
           s\<lparr>raf_double := raf_double s @ [split]\<rparr>)
        else s)
     else
       (let c = (ra_cmd s)\<lparr>mm_saddr := range_set 15 0 (0 :: u16) (mm_saddr (ra_cmd s))\<rparr>;
            l = ucast (mm_bbt c - ucast (ra_length s)) :: u16 in
        s\<lparr>ra_cmd := c, ra_length := l, raf_out := raf_out s @ [mmCmd_of (mm_saddr c) l],
          ra_breakdown := False\<rparr>))"

subsection \<open>Addresses\<close>

text \<open>What a command writes or reads, byte by byte, and where the bytes of a segment belong.\<close>

definition cmd_addrs :: "mmCmd \<Rightarrow> nat list" where
  "cmd_addrs c = map (\<lambda>k. unat (mm_saddr c) + k) [0..<unat (mm_bbt c)]"

definition ring_addr :: "u32 \<Rightarrow> nat \<Rightarrow> nat" where
  "ring_addr a k = (unat a div BUFFER_SIZE) * BUFFER_SIZE + (unat a + k) mod BUFFER_SIZE"

definition ring_addrs :: "mmCmd \<Rightarrow> nat list" where
  "ring_addrs c = map (ring_addr (mm_saddr c)) [0..<unat (mm_bbt c)]"

lemma low_addr: "unat (range_get 17 0 (a :: u32) :: win) = unat a mod BUFFER_SIZE"
proof -
  have "(range_get 17 0 a :: win) = ucast a"
    by (intro bit_word_eqI) (auto simp: bit_range_get bit_simps)
  then show ?thesis by (simp add: unat_cast BUFFER_SIZE_def)
qed

lemma high_addr: "unat (range_set 17 0 (0 :: win) (a :: u32)) = unat a div BUFFER_SIZE * BUFFER_SIZE"
proof -
  have "range_set 17 0 (0 :: win) a = push_bit 18 (drop_bit 18 a)"
    by (intro bit_word_eqI) (auto simp: bit_range_set bit_simps)
  also have "unat (push_bit 18 (drop_bit 18 a)) = unat a div 2 ^ 18 * 2 ^ 18"
    using unat_bound[of a] by (simp add: unat_push_bit_mult unat_drop_bit_div)
  finally show ?thesis by (simp add: BUFFER_SIZE_def)
qed

lemma cmd_wraps_nat: "cmd_wraps c \<longleftrightarrow> BUFFER_SIZE < unat (mm_saddr c) mod BUFFER_SIZE + unat (mm_bbt c)"
  by (simp add: cmd_wraps_def low_addr)

lemma ring_rest:
  assumes "a < 2 ^ 32" and "a mod B \<noteq> 0" and B: "B = 2 ^ 18"
  shows "(2 ^ 32 + B - a) mod B = B - a mod (B :: nat)"
proof -
  have q: "a div B < 2 ^ 14" using assms(1) by (simp add: B div_less_iff_less_mult less_mult_imp_div_less)
  have "2 ^ 32 + B - a = (2 ^ 14 - a div B) * B + (B - a mod B)"
  proof -
    have "2 ^ 32 + B - a = 2 ^ 32 + B - (a div B * B + a mod B)" by simp
    also have "\<dots> = (2 ^ 14 * B - a div B * B) + (B - a mod B)"
      using q mod_less_divisor[of B a] by (simp add: B)
    finally show ?thesis by (simp add: diff_mult_distrib)
  qed
  then have "(2 ^ 32 + B - a) mod B = (B - a mod B) mod B" by (simp only: mod_mult_self3)
  moreover have "B - a mod B < B" using assms(2) by (simp add: B)
  ultimately show ?thesis by simp
qed

lemma cmd_first_nat:
  assumes "cmd_wraps c" and "unat (mm_bbt c) < 2 ^ 16"
  shows "unat (cmd_first c) = BUFFER_SIZE - unat (mm_saddr c) mod BUFFER_SIZE"
    and "0 < unat (cmd_first c)" and "unat (cmd_first c) < unat (mm_bbt c)"
proof -
  have m: "unat (mm_saddr c) mod BUFFER_SIZE < BUFFER_SIZE" by (simp add: BUFFER_SIZE_def)
  have lt: "BUFFER_SIZE - unat (mm_saddr c) mod BUFFER_SIZE < unat (mm_bbt c)"
    using assms(1) m unfolding cmd_wraps_nat by linarith
  have pos: "unat (mm_saddr c) mod BUFFER_SIZE \<noteq> 0"
    using assms unfolding cmd_wraps_nat by (intro notI) (simp add: BUFFER_SIZE_def)
  have "unat (cmd_first c) = (2 ^ 32 + BUFFER_SIZE - unat (mm_saddr c)) mod 2 ^ 32 mod 2 ^ 18"
    unfolding cmd_first_def unat_cast unat_sub_mod by (simp add: BUFFER_SIZE_def)
  also have "\<dots> = (2 ^ 32 + BUFFER_SIZE - unat (mm_saddr c)) mod BUFFER_SIZE"
    by (simp add: mod_mod_cancel BUFFER_SIZE_def)
  finally show f: "unat (cmd_first c) = BUFFER_SIZE - unat (mm_saddr c) mod BUFFER_SIZE"
    using ring_rest[OF _ pos BUFFER_SIZE_def] unat_bound[of "mm_saddr c"] by simp
  show "0 < unat (cmd_first c)" using f m by linarith
  show "unat (cmd_first c) < unat (mm_bbt c)" using f lt by simp
qed


subsection \<open>The phases of a write\<close>

text \<open>At most \<open>n\<close> calls lead from one state to another.\<close>

definition mw_reaches :: "(mw_st \<Rightarrow> mw_st) \<Rightarrow> nat \<Rightarrow> mw_st \<Rightarrow> mw_st \<Rightarrow> bool" where
  "mw_reaches call n s s' \<longleftrightarrow> (\<exists>k \<le> n. (call ^^ k) s = s')"

lemma mw_reaches_refl: "mw_reaches call n s s"
  unfolding mw_reaches_def by (intro exI[of _ 0]) simp

lemma mw_reaches_step: "mw_reaches call n (call s) s' \<Longrightarrow> mw_reaches call (Suc n) s s'"
  unfolding mw_reaches_def
proof (elim exE conjE)
  fix k assume "k \<le> n" "(call ^^ k) (call s) = s'"
  then show "\<exists>k \<le> Suc n. (call ^^ k) s = s'"
    by (intro exI[of _ "Suc k"]) (simp add: funpow_Suc_right del: funpow.simps)
qed

lemma mw_reaches_one: "call s = s' \<Longrightarrow> mw_reaches call (Suc n) s s'"
  using mw_reaches_step[of call n s s'] by (simp add: mw_reaches_refl)

lemma mw_reaches_mono: "mw_reaches call n s s' \<Longrightarrow> n \<le> m \<Longrightarrow> mw_reaches call m s s'"
  unfolding mw_reaches_def using le_trans by blast

text \<open>The process is idle again, has consumed a packet and has put out what is given.\<close>

definition mw_done :: "mw_st \<Rightarrow> net_axis list \<Rightarrow> mmCmd list \<Rightarrow> net_axis list \<Rightarrow> mw_st \<Rightarrow> bool" where
  "mw_done s rest cmds out s' \<longleftrightarrow> mw_state s' = MW_IDLE \<and> mwf_dataIn s' = rest
     \<and> mwf_cmdOut s' = mwf_cmdOut s @ cmds \<and> mwf_dataOut s' = mwf_dataOut s @ out \<and> mwf_cmdIn s' = mwf_cmdIn s"

lemma fwd_phase:
  assumes "packet W ws bs" and "mw_state s = FWD_ALIGNED" and "mwf_dataIn s = ws @ rest"
  shows "\<exists>s'. mw_reaches (mem_write W report fill) (length ws) s s' \<and> mw_done s rest [] ws s'"
  using assms
proof (induction ws arbitrary: s bs)
  case (Cons w ws)
  let ?t = "mem_write W report fill s"
  have t: "?t = s\<lparr>mwf_dataIn := ws @ rest, mwf_dataOut := mwf_dataOut s @ [w],
      mw_state := (if ws = [] then MW_IDLE else FWD_ALIGNED)\<rparr>"
    using Cons.prems packet_last[OF Cons.prems(1)] by (simp add: mem_write_def mw_fwd_def)
  show ?case
  proof (cases "ws = []")
    case True
    then have "mw_done s rest [] [w] ?t" by (simp add: t mw_done_def)
    moreover have "mw_reaches (mem_write W report fill) (length [w]) s ?t"
      using mw_reaches_one[of "mem_write W report fill" s ?t 0] by simp
    ultimately show ?thesis using True by auto
  next
    case False
    then have "packet W ws (drop W bs)" using Cons.prems(1) by (simp add: packet_cons)
    from Cons.IH[OF this, of ?t] False obtain s'
      where s': "mw_reaches (mem_write W report fill) (length ws) ?t s'" "mw_done ?t rest [] ws s'"
      by (auto simp: t)
    show ?thesis
      using mw_reaches_step[OF s'(1)] s'(2) False by (intro exI[of _ s']) (simp add: mw_done_def t)
  qed
qed simp


text \<open>The lanes that fill a residue are not kept.\<close>

definition fill_ok :: "nat \<Rightarrow> net_axis \<Rightarrow> bool" where
  "fill_ok W fill \<longleftrightarrow> map snd (ax_lanes fill) = replicate W False"

lemma fill_take: "fill_ok W fill \<Longrightarrow> off \<le> W \<Longrightarrow>
    off \<le> length (ax_lanes fill) \<and> map snd (take off (ax_lanes fill)) = replicate off False"
proof -
  assume f: "fill_ok W fill" and off: "off \<le> W"
  then have "length (map snd (ax_lanes fill)) = W" by (simp add: fill_ok_def)
  moreover have "take off (map snd (ax_lanes fill)) = replicate off False"
    using f off by (simp add: fill_ok_def min_def)
  ultimately show ?thesis using off by (simp add: take_map)
qed

lemma residue_phase:
  assumes "packet W [w] bs" and "mw_state s = MW_RESIDUE" and "mw_prev s = w"
    and "unat (mw_offset s) < length bs" and "unat (mw_offset s) < W" and "fill_ok W fill"
  shows "\<exists>out. mw_done s (mwf_dataIn s) [] [out] (mem_write W report fill s)
           \<and> packet W [out] (drop (unat (mw_offset s)) bs)"
  using align_residue[OF assms(1,4)] fill_take[OF assms(6)] assms(2,3,5)
  by (simp add: mem_write_def mw_residue_def mw_done_def)

lemma align_phase:
  assumes "packet W (prev # ws) bs" and "ws \<noteq> []" and "mw_state s = ALIGN_SECOND" and "mw_prev s = prev"
    and "0 < unat (mw_offset s)" and "unat (mw_offset s) < W" and "mwf_dataIn s = ws @ rest" and "fill_ok W fill"
  shows "\<exists>s' out. mw_reaches (mem_write W report fill) (Suc (length ws)) s s' \<and> mw_done s rest [] out s'
           \<and> packet W out (drop (unat (mw_offset s)) bs)"
  using assms
proof (induction ws arbitrary: s prev bs)
  case (Cons cur ws)
  let ?off = "unat (mw_offset s)" and ?call = "mem_write W report fill"
  let ?t = "?call s"
  have prev: "W < length bs" and cur: "packet W (cur # ws) (drop W bs)"
    using Cons.prems(1) by (simp_all add: packet_cons)
  have keep: "keep_at ?off cur \<longleftrightarrow> ?off < length (drop W bs)" using packet_keep[OF cur Cons.prems(6)] .
  have last: "ax_last cur \<longleftrightarrow> ws = []" using packet_last[OF cur] .
  let ?w = "\<lparr>ax_lanes = alignWords ?off prev cur, ax_last = \<not> keep_at ?off cur\<rparr>"
  have t: "?t = s\<lparr>mwf_dataIn := ws @ rest, mw_prev := cur, mwf_dataOut := mwf_dataOut s @ [?w],
      mw_state := (if ws = [] then (if keep_at ?off cur then MW_RESIDUE else MW_IDLE) else ALIGN_SECOND)\<rparr>"
    using Cons.prems last by (simp add: mem_write_def mw_align_def Let_def)
  consider (last) "ws = []" "\<not> keep_at ?off cur" | (residue) "ws = []" "keep_at ?off cur" | (more) "ws \<noteq> []"
    by blast
  then show ?case
  proof cases
    case last
    have "packet W [?w] (drop ?off bs)"
      using align_end[of W prev cur bs ?off] Cons.prems(1,6) last keep by simp
    moreover have "mw_done s rest [] [?w] ?t" using last by (simp add: t mw_done_def)
    ultimately show ?thesis using mw_reaches_one[OF refl, of ?call "length (cur # ws)" s] by blast
  next
    case residue
    have c: "packet W [cur] (drop W bs)" using cur residue by simp
    have "\<exists>out. mw_done ?t (mwf_dataIn ?t) [] [out] (?call ?t) \<and> packet W [out] (drop ?off (drop W bs))"
      using residue_phase[OF c, of ?t fill report] residue keep Cons.prems(6,8) by (simp add: t)
    then obtain out where out: "mw_done ?t (mwf_dataIn ?t) [] [out] (?call ?t)"
      "packet W [out] (drop ?off (drop W bs))" by blast
    have "packet W [?w, out] (drop ?off bs)"
      using align_full[OF Cons.prems(1,6)] out(2) residue keep prev Cons.prems(6)
      by (simp add: packet_cons add.commute)
    moreover have "mw_done s rest [] [?w, out] (?call ?t)" using out(1) residue by (simp add: t mw_done_def)
    moreover have "mw_reaches ?call (Suc (length (cur # ws))) s (?call ?t)"
      by (simp add: mw_reaches_step mw_reaches_one)
    ultimately show ?thesis by blast
  next
    case more
    then have full: "W < length (drop W bs)" using packet_short[OF cur] by simp
    have k: "keep_at ?off cur" using keep full Cons.prems(6) by simp
    obtain s' out where s': "mw_reaches ?call (Suc (length ws)) ?t s'" "mw_done ?t rest [] out s'"
      "packet W out (drop ?off (drop W bs))"
      using Cons.IH[OF cur more, of ?t] Cons.prems more k by (auto simp: t)
    have "out \<noteq> []" using packet_nonempty[OF s'(3)] by simp
    then have "packet W (?w # out) (drop ?off bs)"
      using align_full[OF Cons.prems(1,6)] s'(3) k full prev Cons.prems(6) by (simp add: packet_cons add.commute)
    moreover have "mw_done s rest [] (?w # out) s'" using s'(2) by (simp add: t mw_done_def)
    moreover have "mw_reaches ?call (Suc (length (cur # ws))) s s'" using mw_reaches_step[OF s'(1)] by simp
    ultimately show ?thesis by blast
  qed
qed simp


definition second_cmd :: "mmCmd \<Rightarrow> win \<Rightarrow> mmCmd" where
  "second_cmd c f = c\<lparr>mm_saddr := range_set 17 0 (0 :: win) (mm_saddr c), mm_bbt := mm_bbt c - ucast f\<rparr>"

lemma cut_phase:
  assumes "packet W ws bs" and "mw_state s = CUT_FIRST" and "mwf_dataIn s = ws @ rest"
    and "0 < unat (mw_remaining s)" and "unat (mw_remaining s) < length bs"
    and "unat (mw_offset s) = unat (mw_remaining s) mod W" and "0 < W" and "W \<le> 64" and "fill_ok W fill"
  shows "\<exists>s' p1 p2. mw_reaches (mem_write W report fill) (Suc (length ws)) s s'
      \<and> mw_done s rest [second_cmd (mw_cmd s) (mw_first s)] (p1 @ p2) s'
      \<and> packet W p1 (take (unat (mw_remaining s)) bs) \<and> packet W p2 (drop (unat (mw_remaining s)) bs)"
  using assms(1-6)
proof (induction ws arbitrary: s bs)
  case (Cons w ws)
  let ?call = "mem_write W report fill" and ?r = "unat (mw_remaining s)"
  let ?t = "?call s" and ?c = "second_cmd (mw_cmd s) (mw_first s)"
  have data: "hd (mwf_dataIn s) = w" "tl (mwf_dataIn s) = ws @ rest" "mwf_dataIn s \<noteq> []"
    using Cons.prems(3) by simp_all
  have call: "?t = mw_cut W s" using Cons.prems(2) by (simp add: mem_write_def)
  consider (more) "W < ?r" | (exact) "?r = W" | (part) "?r < W" by linarith
  then show ?case
  proof cases
    case more
    have ne: "ws \<noteq> []" using packet_short[OF Cons.prems(1)] more Cons.prems(5) by simp
    have full: "ax_lanes w = map (\<lambda>b. (b, True)) (take W bs)" "\<not> ax_last w" "packet W ws (drop W bs)"
      using Cons.prems(1) ne by (simp_all add: packet_cons)
    have t: "?t = s\<lparr>mw_prev := w, mwf_dataIn := ws @ rest, mw_remaining := mw_remaining s - of_nat W,
        mwf_dataOut := mwf_dataOut s @ [w]\<rparr>"
      using more data by (simp add: call mw_cut_def Let_def)
    have r: "unat (mw_remaining s - of_nat W) = ?r - W"
    proof -
      have W: "unat (of_nat W :: win) = W" using assms(8) by (simp add: unat_of_nat)
      then show ?thesis using more by (subst unat_sub) (simp_all add: word_le_nat_alt)
    qed
    have lt: "?r - W < length bs - W" using more Cons.prems(5) by linarith
    obtain s' p1 p2 where s': "mw_reaches ?call (Suc (length ws)) ?t s'" "mw_done ?t rest [?c] (p1 @ p2) s'"
      "packet W p1 (take (?r - W) (drop W bs))" "packet W p2 (drop (?r - W) (drop W bs))"
      using Cons.IH[OF full(3), of ?t] Cons.prems more r lt by (auto simp: t le_mod_geq)
    have "packet W (w # p1) (take ?r bs)"
    proof -
      have "p1 \<noteq> []" using packet_nonempty[OF s'(3)] by simp
      moreover have "take W (take ?r bs) = take W bs" "drop W (take ?r bs) = take (?r - W) (drop W bs)"
        using more by (simp_all add: min_def drop_take)
      ultimately show ?thesis using full s'(3) more Cons.prems(5) by (simp add: packet_cons)
    qed
    moreover have "packet W p2 (drop ?r bs)" using s'(4) more by (simp add: add.commute)
    moreover have "mw_done s rest [?c] ((w # p1) @ p2) s'" using s'(2) by (simp add: mw_done_def t)
    moreover have "mw_reaches ?call (Suc (length (w # ws))) s s'" using mw_reaches_step[OF s'(1)] by simp
    ultimately show ?thesis by blast
  next
    case exact
    have ne: "ws \<noteq> []" using packet_short[OF Cons.prems(1)] exact Cons.prems(5) by simp
    have full: "ax_lanes w = map (\<lambda>b. (b, True)) (take W bs)" "packet W ws (drop W bs)"
      using Cons.prems(1) ne by (simp_all add: packet_cons)
    have t: "mw_state ?t = FWD_ALIGNED" "mwf_dataIn ?t = ws @ rest" "mwf_cmdOut ?t = mwf_cmdOut s @ [?c]"
      "mwf_dataOut ?t = mwf_dataOut s @ [w\<lparr>ax_last := True\<rparr>]" "mwf_cmdIn ?t = mwf_cmdIn s"
      using exact data by (simp_all add: call mw_cut_def mw_second_def second_cmd_def Let_def)
    obtain s' where s': "mw_reaches ?call (length ws) ?t s'" "mw_done ?t rest [] ws s'"
      using fwd_phase[OF full(2) t(1,2)] by blast
    have "packet W [w\<lparr>ax_last := True\<rparr>] (take ?r bs)"
      using full exact Cons.prems(4,5) assms(7) by (auto simp: packet_single)
    moreover have "mw_done s rest [?c] ([w\<lparr>ax_last := True\<rparr>] @ ws) s'" using s'(2) t by (simp add: mw_done_def)
    moreover have "mw_reaches ?call (Suc (length (w # ws))) s s'"
      using mw_reaches_mono[OF mw_reaches_step[OF s'(1)]] by simp
    ultimately show ?thesis using full(2) exact by (metis)
  next
    case part
    have keep: "lenToKeep (ucast (mw_remaining s)) = mask ?r"
    proof -
      have "unat (ucast (mw_remaining s) :: 6 word) = ?r" using part assms(8) by (simp add: unat_cast)
      then show ?thesis using Cons.prems(4) by (auto simp: lenToKeep_mask unat_eq_zero[symmetric])
    qed
    let ?w = "(set_keep (mask ?r) w)\<lparr>ax_last := True\<rparr>"
    have p1: "packet W [?w] (take ?r bs)"
      by (rule cut_first[OF Cons.prems(1,4) _ _ assms(8)]) (use part Cons.prems(5) in simp_all)
    have off: "unat (mw_offset s) = ?r" using Cons.prems(6) part by simp
    have t: "mw_state ?t = (if ax_last w then MW_RESIDUE else ALIGN_SECOND)" "mwf_dataIn ?t = ws @ rest"
      "mwf_cmdOut ?t = mwf_cmdOut s @ [?c]" "mwf_dataOut ?t = mwf_dataOut s @ [?w]" "mw_prev ?t = w"
      "mw_offset ?t = mw_offset s" "mwf_cmdIn ?t = mwf_cmdIn s"
      using part data keep by (simp_all add: call mw_cut_def mw_second_def second_cmd_def Let_def)
    have last: "ax_last w \<longleftrightarrow> ws = []" using packet_last[OF Cons.prems(1)] .
    show ?thesis
    proof (cases "ws = []")
      case True
      obtain out where out: "mw_done ?t (mwf_dataIn ?t) [] [out] (?call ?t)" "packet W [out] (drop ?r bs)"
        using residue_phase[of W w bs ?t fill report] Cons.prems(1,5) True last off part assms(9) t by auto
      have "mw_done s rest [?c] ([?w] @ [out]) (?call ?t)" using out(1) t True by (simp add: mw_done_def)
      moreover have "mw_reaches ?call (Suc (length (w # ws))) s (?call ?t)"
        by (simp add: mw_reaches_step mw_reaches_one)
      ultimately show ?thesis using p1 out(2) by blast
    next
      case False
      obtain s' out where s': "mw_reaches ?call (Suc (length ws)) ?t s'" "mw_done ?t rest [] out s'"
        "packet W out (drop ?r bs)"
        using align_phase[OF Cons.prems(1) False, of ?t rest fill report] False last off part Cons.prems(4) assms(9) t
        by auto
      have "mw_done s rest [?c] ([?w] @ out) s'" using s'(2) t by (simp add: mw_done_def)
      moreover have "mw_reaches ?call (Suc (length (w # ws))) s s'" using mw_reaches_step[OF s'(1)] by simp
      ultimately show ?thesis using p1 s'(3) by blast
    qed
  qed
qed simp


subsection \<open>The bytes reach their places\<close>

text \<open>What commands and the data that follows them store: pairs of address and byte.\<close>

definition stored :: "mmCmd list \<Rightarrow> byte list list \<Rightarrow> (nat \<times> byte) list" where
  "stored cmds parts = concat (map2 (\<lambda>c bs. zip (cmd_addrs c) bs) cmds parts)"

lemma addrs_low:
  "k < unat (mm_bbt c) \<Longrightarrow> unat (mm_saddr c) mod BUFFER_SIZE + k < BUFFER_SIZE
     \<Longrightarrow> ring_addr (mm_saddr c) k = unat (mm_saddr c) + k"
proof -
  assume "unat (mm_saddr c) mod BUFFER_SIZE + k < BUFFER_SIZE"
  then have "(unat (mm_saddr c) + k) mod BUFFER_SIZE = unat (mm_saddr c) mod BUFFER_SIZE + k"
    by (metis mod_add_left_eq mod_less)
  then show ?thesis unfolding ring_addr_def by simp
qed

lemma stored_whole:
  assumes "\<not> cmd_wraps c"
  shows "stored [c] [bs] = zip (ring_addrs c) bs"
proof -
  have "ring_addrs c = cmd_addrs c"
    unfolding ring_addrs_def cmd_addrs_def using assms
    by (intro map_cong refl addrs_low) (auto simp: cmd_wraps_nat)
  then show ?thesis by (simp add: stored_def)
qed

lemma stored_split:
  assumes "cmd_wraps c" and "unat (mm_bbt c) < 2 ^ 16" and "length bs = unat (mm_bbt c)"
  defines "f \<equiv> unat (cmd_first c)"
  shows "stored [mmCmd_of (mm_saddr c) (ucast (cmd_first c)), second_cmd c (cmd_first c)] [take f bs, drop f bs]
       = zip (ring_addrs c) bs"
    and "unat (mm_bbt (mmCmd_of (mm_saddr c) (ucast (cmd_first c)))) = f"
    and "unat (mm_bbt (second_cmd c (cmd_first c))) = unat (mm_bbt c) - f"
proof -
  note fn = cmd_first_nat[OF assms(1,2), folded f_def]
  have m: "unat (mm_saddr c) mod BUFFER_SIZE < BUFFER_SIZE" by (simp add: BUFFER_SIZE_def)
  show one: "unat (mm_bbt (mmCmd_of (mm_saddr c) (ucast (cmd_first c)))) = f"
    using fn(3) assms(2) by (simp add: mmCmd_of_def unat_cast f_def[symmetric])
  show two: "unat (mm_bbt (second_cmd c (cmd_first c))) = unat (mm_bbt c) - f"
  proof -
    have "unat (ucast (cmd_first c) :: 23 word) = f"
      using fn(3) assms(2) by (simp add: unat_cast f_def[symmetric])
    then show ?thesis using fn(3) by (simp add: second_cmd_def unat_sub word_le_nat_alt)
  qed
  let ?a = "unat (mm_saddr c)"
  have low: "ring_addr (mm_saddr c) k = ?a + k" if "k < f" for k
    by (rule addrs_low) (use that fn m in linarith)+
  have high: "ring_addr (mm_saddr c) (f + j) = ?a div BUFFER_SIZE * BUFFER_SIZE + j" if "j < unat (mm_bbt c) - f" for j
  proof -
    have "j < BUFFER_SIZE" using that assms(2) by (simp add: BUFFER_SIZE_def)
    moreover have "?a + (f + j) = j + Suc (?a div BUFFER_SIZE) * BUFFER_SIZE"
      using fn(1) m div_mult_mod_eq[of ?a BUFFER_SIZE] unfolding mult_Suc by linarith
    then have "(?a + (f + j)) mod BUFFER_SIZE = j mod BUFFER_SIZE" by (simp only: mod_mult_self1)
    ultimately show ?thesis unfolding ring_addr_def by simp
  qed
  have "ring_addrs c = map (ring_addr (mm_saddr c)) [0..<f] @ map (ring_addr (mm_saddr c)) [f..<unat (mm_bbt c)]"
    unfolding ring_addrs_def using fn(3) upt_add_eq_append[of 0 f "unat (mm_bbt c) - f"] by simp
  also have "map (ring_addr (mm_saddr c)) [0..<f] = cmd_addrs (mmCmd_of (mm_saddr c) (ucast (cmd_first c)))"
    unfolding cmd_addrs_def one by (simp add: low mmCmd_of_def)
  also have "map (ring_addr (mm_saddr c)) [f..<unat (mm_bbt c)] = cmd_addrs (second_cmd c (cmd_first c))"
  proof -
    have "[f..<unat (mm_bbt c)] = map (\<lambda>j. f + j) [0..<unat (mm_bbt c) - f]"
      using fn(3) map_add_upt[of f "unat (mm_bbt c) - f"] by (simp add: add.commute)
    then show ?thesis unfolding cmd_addrs_def two by (simp add: high second_cmd_def high_addr)
  qed
  finally have split: "ring_addrs c = cmd_addrs (mmCmd_of (mm_saddr c) (ucast (cmd_first c)))
      @ cmd_addrs (second_cmd c (cmd_first c))" .
  have "length (cmd_addrs (mmCmd_of (mm_saddr c) (ucast (cmd_first c)))) = f"
    by (simp add: cmd_addrs_def one)
  then show "stored [mmCmd_of (mm_saddr c) (ucast (cmd_first c)), second_cmd c (cmd_first c)] [take f bs, drop f bs]
       = zip (ring_addrs c) bs"
    unfolding stored_def split by (simp add: zip_append1)
qed

text \<open>A segment is stored: within so many calls, with these commands, packets and parts of the data.\<close>

definition segment_stored :: "(mw_st \<Rightarrow> mw_st) \<Rightarrow> nat \<Rightarrow> mw_st \<Rightarrow> nat \<Rightarrow> mmCmd \<Rightarrow> byte list \<Rightarrow> net_axis list \<Rightarrow> bool" where
  "segment_stored call W s n c bs rest \<longleftrightarrow>
    (\<exists>k \<le> n. \<exists>cmds pkts parts. let s' = (call ^^ k) s in
       mw_state s' = MW_IDLE \<and> mwf_dataIn s' = rest \<and> mwf_cmdIn s' = tl (mwf_cmdIn s)
       \<and> mwf_cmdOut s' = mwf_cmdOut s @ cmds \<and> mwf_dataOut s' = mwf_dataOut s @ concat pkts
       \<and> list_all2 (packet W) pkts parts \<and> map length parts = map (unat \<circ> mm_bbt) cmds
       \<and> stored cmds parts = zip (ring_addrs c) bs)"

lemma segment_storedI:
  assumes "mw_reaches call n s t" and "mw_state t = MW_IDLE" "mwf_dataIn t = rest" "mwf_cmdIn t = tl (mwf_cmdIn s)"
    "mwf_cmdOut t = mwf_cmdOut s @ cmds" "mwf_dataOut t = mwf_dataOut s @ concat pkts"
    "list_all2 (packet W) pkts parts" "map length parts = map (unat \<circ> mm_bbt) cmds"
    "stored cmds parts = zip (ring_addrs c) bs"
  shows "segment_stored call W s n c bs rest"
  using assms unfolding segment_stored_def mw_reaches_def Let_def by blast

theorem mem_write_ring:
  assumes "mw_state s = MW_IDLE" and "mwf_cmdIn s = c # cs" and "mwf_dataIn s = ws @ rest"
    and "packet W ws bs" and "length bs = unat (mm_bbt c)" and "unat (mm_bbt c) < 2 ^ 16"
    and "0 < W" and "W \<le> 64" and "fill_ok W fill"
  shows "segment_stored (mem_write W report fill) W s (length ws + 3) c bs rest"
proof -
  let ?call = "mem_write W report fill" and ?f = "unat (cmd_first c)"
  define t where "t = ?call (?call s)"
  have two: "mw_reaches ?call (length ws + 3) s s'" if "mw_reaches ?call (Suc (length ws)) t s'" for s'
    using mw_reaches_step[OF mw_reaches_step, of ?call "Suc (length ws)" s s'] that unfolding t_def
    by (simp add: eval_nat_numeral)
  have idle: "?call s = s\<lparr>mw_cmd := c, mwf_cmdIn := cs, mw_state := IDLE_REG\<rparr>"
    using assms by (simp add: mem_write_def mw_idle_def)
  show ?thesis
  proof (cases "cmd_wraps c")
    case False
    have t: "mw_state t = FWD_ALIGNED" "mwf_dataIn t = ws @ rest" "mwf_cmdOut t = mwf_cmdOut s @ [c]"
      "mwf_dataOut t = mwf_dataOut s" "mwf_cmdIn t = cs"
      using False assms(3) unfolding t_def idle
      by (simp_all add: mem_write_def mw_reg_def mw_double_def Let_def)
    obtain s' where s': "mw_reaches ?call (length ws) t s'" "mw_done t rest [] ws s'"
      using fwd_phase[OF assms(4) t(1,2)] by blast
    have "mw_reaches ?call (Suc (length ws)) t s'" using mw_reaches_mono[OF s'(1)] by simp
    then show ?thesis
      by (rule segment_storedI[OF two, where cmds = "[c]" and pkts = "[ws]" and parts = "[bs]"])
        (use s'(2) t assms False in \<open>simp_all add: mw_done_def stored_whole\<close>)
  next
    case True
    note f = cmd_first_nat[OF True assms(6)]
    have t: "mw_state t = CUT_FIRST" "mwf_dataIn t = ws @ rest"
      "mwf_cmdOut t = mwf_cmdOut s @ [mmCmd_of (mm_saddr c) (ucast (cmd_first c))]" "mwf_dataOut t = mwf_dataOut s"
      "mwf_cmdIn t = cs" "mw_remaining t = cmd_first c" "mw_first t = cmd_first c" "mw_cmd t = c"
      "mw_offset t = of_nat (?f mod W)"
      using True assms(3) unfolding t_def idle
      by (simp_all add: mem_write_def mw_reg_def mw_double_def Let_def)
    have "?f mod W < 2 ^ 8" using mod_less_divisor[OF assms(7), of ?f] assms(8) by simp
    then have off: "unat (mw_offset t) = ?f mod W" by (simp add: t unat_of_nat)
    obtain s' p1 p2 where s': "mw_reaches ?call (Suc (length ws)) t s'"
      "mw_done t rest [second_cmd c (cmd_first c)] (p1 @ p2) s'"
      "packet W p1 (take ?f bs)" "packet W p2 (drop ?f bs)"
      using cut_phase[OF assms(4) t(1,2) _ _ _ assms(7,8,9), of report] f(2,3) off assms(5) unfolding t(6-8)
      by metis
    show ?thesis
      by (rule segment_storedI[OF two[OF s'(1)], where pkts = "[p1, p2]" and parts = "[take ?f bs, drop ?f bs]" and
            cmds = "[mmCmd_of (mm_saddr c) (ucast (cmd_first c)), second_cmd c (cmd_first c)]"])
        (use s'(2-4) t assms f stored_split[OF True assms(6,5)] in \<open>simp_all add: mw_done_def\<close>)
  qed
qed


subsection \<open>Properties\<close>

text \<open>C16. The receive engine writes a segment of up to 65535 bytes to its ring buffer: within three calls
  more than the segment has words, the memory commands and the packets that follow them store byte
  \<open>k\<close> at address \<open>k\<close> of the ring, the packets are well formed and exactly as long as their commands
  say, whether the segment runs over the end of the buffer or not, and whatever its alignment.\<close>

theorem rxEngMemWrite_ring:
  assumes "mw_state s = MW_IDLE" and "mwf_cmdIn s = c # cs" and "mwf_dataIn s = ws @ rest"
    and "packet W ws bs" and "length bs = unat (mm_bbt c)" and "unat (mm_bbt c) < 2 ^ 16"
    and "0 < W" and "W \<le> 64"
  shows "\<exists>k \<le> length ws + 3. \<exists>cmds pkts parts. let s' = (rxEngMemWrite W ^^ k) s in
       mw_state s' = MW_IDLE \<and> mwf_dataIn s' = rest \<and> mwf_cmdIn s' = cs
       \<and> mwf_cmdOut s' = mwf_cmdOut s @ cmds \<and> mwf_dataOut s' = mwf_dataOut s @ concat pkts
       \<and> list_all2 (packet W) pkts parts \<and> map length parts = map (unat \<circ> mm_bbt) cmds
       \<and> stored cmds parts = zip (ring_addrs c) bs"
  using mem_write_ring[OF assms, of "\<lparr>ax_lanes = replicate W (0, False), ax_last = True\<rparr>" True] assms(2)
  by (simp add: segment_stored_def rxEngMemWrite_def fill_ok_def)

definition word_ex :: net_axis where
  "word_ex = \<lparr>ax_lanes = map (\<lambda>b. (b, True)) [11, 12, 13, 14, 15, 16, 17, 18], ax_last = True\<rparr>"

definition mw_ex :: mw_st where
  "mw_ex = \<lparr>mw_state = MW_IDLE, mw_cmd = mmCmd_of 0 0, mw_remaining = 0, mw_first = 0, mw_offset = 0,
     mw_prev = word_ex, mwf_cmdIn = [mmCmd_of 0x7FFFB 8], mwf_dataIn = [word_ex], mwf_cmdOut = [],
     mwf_dataOut = [], mwf_double = []\<rparr>"

lemma rxEngMemWrite_ring_witness:
  "\<exists>k \<le> 4. \<exists>cmds parts. mwf_cmdOut ((rxEngMemWrite 8 ^^ k) mw_ex) = cmds
     \<and> stored cmds parts = zip (ring_addrs (mmCmd_of 0x7FFFB 8)) [11, 12, 13, 14, 15, 16, 17, 18]"
  using rxEngMemWrite_ring[of mw_ex "mmCmd_of 0x7FFFB 8" "[]" "[word_ex]" "[]" 8 "[11, 12, 13, 14, 15, 16, 17, 18]"]
  by (simp add: mw_ex_def packet_single word_ex_def mmCmd_of_def Let_def del: funpow.simps) blast

text \<open>In \<^verbatim>\<open>tasi_pkg_pusher\<close> the residue takes its upper lanes from a word that was never assigned: if the
  bits of its \<^verbatim>\<open>keep\<close> happen to be ones, 8 bytes are sent for a command of 3.\<close>

lemma pusher_residue_garbage:
  "let s = (tasi_pkg_pusher 8 word_ex ^^ 4) mw_ex in
     map (unat \<circ> mm_bbt) (mwf_cmdOut s) = [5, 3]
     \<and> map (\<lambda>w. length (filter snd (ax_lanes w))) (mwf_dataOut s) = [5, 8]"
proof -
  define s1 where "s1 = tasi_pkg_pusher 8 word_ex mw_ex"
  define s2 where "s2 = tasi_pkg_pusher 8 word_ex s1"
  define s3 where "s3 = tasi_pkg_pusher 8 word_ex s2"
  have first: "cmd_wraps (mmCmd_of 0x7FFFB 8)" "unat (cmd_first (mmCmd_of 0x7FFFB 8)) = 5"
  proof -
    show w: "cmd_wraps (mmCmd_of 0x7FFFB 8)" by (simp add: cmd_wraps_nat mmCmd_of_def BUFFER_SIZE_def)
    show "unat (cmd_first (mmCmd_of 0x7FFFB 8)) = 5"
      using cmd_first_nat(1)[OF w] by (simp add: mmCmd_of_def BUFFER_SIZE_def)
  qed
  then have f: "cmd_first (mmCmd_of 0x7FFFB 8) = 5" by (simp add: word_unat_eq_iff)
  have s1: "s1 = mw_ex\<lparr>mw_cmd := mmCmd_of 0x7FFFB 8, mwf_cmdIn := [], mw_state := IDLE_REG\<rparr>"
    unfolding s1_def by (simp add: tasi_pkg_pusher_def mem_write_def mw_idle_def mw_ex_def)
  have s2: "s2 = s1\<lparr>mw_first := 5, mw_remaining := 5, mw_offset := 5,
      mwf_cmdOut := [mmCmd_of 0x7FFFB 5], mw_state := CUT_FIRST\<rparr>"
    unfolding s2_def s1 using first f
    by (simp add: tasi_pkg_pusher_def mem_write_def mw_reg_def mw_double_def mw_ex_def Let_def mmCmd_of_def)
  have k: "lenToKeep (ucast (5 :: win)) = mask 5" "lenToKeep 5 = mask 5" by (simp_all add: lenToKeep_mask)
  have s3: "map (unat \<circ> mm_bbt) (mwf_cmdOut s3) = [5, 3]" "mw_state s3 = MW_RESIDUE" "mw_offset s3 = 5"
    "mw_prev s3 = word_ex" "map (\<lambda>w. length (filter snd (ax_lanes w))) (mwf_dataOut s3) = [5]"
    unfolding s3_def s2 s1
    by (simp_all add: tasi_pkg_pusher_def mem_write_def mw_cut_def mw_second_def mw_ex_def word_ex_def Let_def
        k set_keep_def mmCmd_of_def bit_simps)
  have "(tasi_pkg_pusher 8 word_ex ^^ 4) mw_ex = tasi_pkg_pusher 8 word_ex s3"
    by (simp add: eval_nat_numeral s1_def s2_def s3_def)
  then show ?thesis using s3
    by (simp add: Let_def tasi_pkg_pusher_def mem_write_def mw_residue_def alignWords_def word_ex_def)
qed

text \<open>C17. The transmit engine reads a segment that runs over the end of the buffer with two commands, the
  second at address 0: together they read the segment's places exactly for the sessions whose buffer
  starts at address 0, and another session's buffer for all others.\<close>

theorem tx_read_split:
  assumes "\<not> mb_state s" and "mbf_in s = c # cs" and "cmd_wraps c" and "unat (mm_bbt c) < 2 ^ 16"
    and "mbf_out s = []"
  shows "concat (map cmd_addrs (mbf_out (txEngMemAccessBreakdown (txEngMemAccessBreakdown s)))) = ring_addrs c
     \<longleftrightarrow> unat (mm_saddr c) div BUFFER_SIZE = 0"
proof -
  let ?f = "unat (cmd_first c)" and ?b = "unat (mm_bbt c)" and ?a = "unat (mm_saddr c)"
  note f = cmd_first_nat[OF assms(3,4)]
  have len: "unat (ucast (mm_bbt c - ucast (cmd_first c)) :: u16) = ?b - ?f"
    using stored_split(3)[OF assms(3,4), of "replicate ?b 0"] assms(4) f by (simp add: second_cmd_def unat_cast)
  have out: "concat (map cmd_addrs (mbf_out (txEngMemAccessBreakdown (txEngMemAccessBreakdown s))))
      = cmd_addrs (mmCmd_of (mm_saddr c) (ucast (cmd_first c))) @ [0..<?b - ?f]"
    using assms(1-3,5) len
    by (simp add: txEngMemAccessBreakdown_def Let_def) (simp add: cmd_addrs_def mmCmd_of_def unat_cast map_idI)
  have ring: "ring_addrs c = cmd_addrs (mmCmd_of (mm_saddr c) (ucast (cmd_first c)))
      @ map (\<lambda>k. ?a div BUFFER_SIZE * BUFFER_SIZE + k) [0..<?b - ?f]"
  proof -
    have "map fst (stored [mmCmd_of (mm_saddr c) (ucast (cmd_first c)), second_cmd c (cmd_first c)]
        [take ?f (replicate ?b 0), drop ?f (replicate ?b 0)]) = map fst (zip (ring_addrs c) (replicate ?b (0 :: byte)))"
      using stored_split(1)[OF assms(3,4), of "replicate ?b 0"] by simp
    then show ?thesis
      using stored_split(2,3)[OF assms(3,4), of "replicate ?b 0"] f(3)
      by (simp add: stored_def cmd_addrs_def ring_addrs_def second_cmd_def high_addr mmCmd_of_def)
  qed
  have "[0..<?b - ?f] = map (\<lambda>k. ?a div BUFFER_SIZE * BUFFER_SIZE + k) [0..<?b - ?f]
      \<longleftrightarrow> ?a div BUFFER_SIZE = 0"
  proof
    assume e: "[0..<?b - ?f] = map (\<lambda>k. ?a div BUFFER_SIZE * BUFFER_SIZE + k) [0..<?b - ?f]"
    have "[0..<?b - ?f] ! 0 = map (\<lambda>k. ?a div BUFFER_SIZE * BUFFER_SIZE + k) [0..<?b - ?f] ! 0"
      using e by simp
    then show "?a div BUFFER_SIZE = 0" using f(3) by (simp add: BUFFER_SIZE_def)
  qed (simp add: map_idI)
  then show ?thesis unfolding out ring by simp
qed

definition mb_ex :: "mmCmd \<Rightarrow> mb_st" where
  "mb_ex c = \<lparr>mb_state = False, mb_cmd = mmCmd_of 0 0, mb_length = 0, mbf_in = [c], mbf_out = [], mbf_double = []\<rparr>"

lemma tx_read_split_witness:
  "concat (map cmd_addrs (mbf_out (txEngMemAccessBreakdown (txEngMemAccessBreakdown (mb_ex (mmCmd_of 0x7FFFB 8))))))
     \<noteq> ring_addrs (mmCmd_of 0x7FFFB 8)"
  using tx_read_split[of "mb_ex (mmCmd_of 0x7FFFB 8)" "mmCmd_of 0x7FFFB 8" "[]"]
  by (simp add: mb_ex_def cmd_wraps_nat mmCmd_of_def BUFFER_SIZE_def)


text \<open>The read commands of the application side are cut at multiples of 64 KB.\<close>

lemma low_page: "unat (range_get 15 0 (a :: u32) :: u16) = unat a mod 65536"
proof -
  have "(range_get 15 0 a :: u16) = ucast a"
    by (intro bit_word_eqI) (auto simp: bit_range_get bit_simps)
  then show ?thesis by (simp add: unat_cast)
qed

lemma high_page: "unat (range_set 15 0 (0 :: u16) (a :: u32)) = unat a div 65536 * 65536"
proof -
  have "range_set 15 0 (0 :: u16) a = push_bit 16 (drop_bit 16 a)"
    by (intro bit_word_eqI) (auto simp: bit_range_set bit_simps)
  also have "unat (push_bit 16 (drop_bit 16 a)) = unat a div 2 ^ 16 * 2 ^ 16"
    using unat_bound[of a] by (simp add: unat_push_bit_mult unat_drop_bit_div)
  finally show ?thesis by simp
qed

lemma page_rest:
  assumes "(a :: nat) < 2 ^ 32" and "a mod 65536 \<noteq> 0"
  shows "unat (ucast (65536 - (of_nat a :: u32)) :: u16) = 65536 - a mod 65536"
proof -
  have "unat (ucast (65536 - (of_nat a :: u32)) :: u16) = (2 ^ 32 + 65536 - a) mod 65536"
    unfolding unat_cast unat_sub_mod using assms(1)
    by (simp add: unat_of_nat mod_mod_cancel)
  also have "2 ^ 32 + 65536 - a = (65535 - a div 65536 + 1) * 65536 + (65536 - a mod 65536)"
  proof -
    have "a div 65536 < 65536" using assms(1) by (simp add: div_less_iff_less_mult)
    then have "(65535 - a div 65536 + 1) * 65536 + a div 65536 * 65536 = 2 ^ 32"
      unfolding add_mult_distrib[symmetric] by simp
    moreover have "a mod 65536 < 65536" by simp
    ultimately show ?thesis using div_mult_mod_eq[of a 65536] by linarith
  qed
  also have "\<dots> mod 65536 = 65536 - a mod 65536"
    using assms(2) by (simp only: mod_mult_self3) simp
  finally show ?thesis .
qed

lemma page_next:
  assumes "(a :: nat) mod 65536 + f = 65536"
  shows "a div BUFFER_SIZE * BUFFER_SIZE + (a + f) mod BUFFER_SIZE \<noteq> a div 65536 * 65536"
proof
  assume "a div BUFFER_SIZE * BUFFER_SIZE + (a + f) mod BUFFER_SIZE = a div 65536 * 65536"
  then have "(a div BUFFER_SIZE * BUFFER_SIZE + (a + f) mod BUFFER_SIZE) mod BUFFER_SIZE
      = (a div 65536 * 65536) mod BUFFER_SIZE" by simp
  moreover have "a + f = Suc (a div 65536) * 65536"
    using assms div_mult_mod_eq[of a 65536] unfolding mult_Suc by linarith
  ultimately have e: "(Suc (a div 65536) * 65536) mod BUFFER_SIZE = (a div 65536 * 65536) mod BUFFER_SIZE" by simp
  have b: "BUFFER_SIZE = 4 * 65536" by (simp add: BUFFER_SIZE_def)
  have "Suc q mod 4 \<noteq> q mod 4" for q :: nat by presburger
  then show False using e unfolding b mod_mult_mult2 by simp
qed

text \<open>The application side reads a segment of the receive buffer from the right places exactly when
  the segment does not cross a multiple of 64 KB; buffers have four times that size, so every other
  segment that crosses one is read, in its second part, from the start of the page it began in.\<close>

lemma rx_read_split:
  assumes "\<not> ra_breakdown s" and "raf_in s = c # cs" and "raf_out s = []" and "unat (mm_bbt c) < 2 ^ 16"
  shows "let cross = 65536 < unat (mm_saddr c) mod 65536 + unat (mm_bbt c);
             s' = (if cross then rxAppMemAccessBreakdown (rxAppMemAccessBreakdown s) else rxAppMemAccessBreakdown s)
         in \<not> ra_breakdown s' \<and> raf_in s' = cs \<and> raf_double s' = raf_double s @ [cross]
           \<and> (concat (map cmd_addrs (raf_out s')) = ring_addrs c \<longleftrightarrow> \<not> cross)"
proof (cases "65536 < unat (mm_saddr c) mod 65536 + unat (mm_bbt c)")
  case False
  have "unat (mm_saddr c) mod BUFFER_SIZE + unat (mm_bbt c) \<le> BUFFER_SIZE"
  proof -
    let ?m = "unat (mm_saddr c) mod BUFFER_SIZE"
    have "?m < 4 * 65536" by (simp add: BUFFER_SIZE_def)
    then have "?m div 65536 < 4" by (simp only: div_less_iff_less_mult)
    moreover have "?m mod 65536 = unat (mm_saddr c) mod 65536" by (simp add: BUFFER_SIZE_def mod_mod_cancel)
    ultimately show ?thesis using False div_mult_mod_eq[of ?m 65536] by (simp add: BUFFER_SIZE_def)
  qed
  then have "ring_addrs c = cmd_addrs c"
    unfolding ring_addrs_def cmd_addrs_def by (intro map_cong refl addrs_low) auto
  then show ?thesis using False assms by (simp add: rxAppMemAccessBreakdown_def low_page Let_def)
next
  case True
  let ?a = "unat (mm_saddr c)" and ?b = "unat (mm_bbt c)"
  define f where "f = 65536 - ?a mod 65536"
  have m: "?a mod 65536 < 65536" by simp
  have nz: "?a mod 65536 \<noteq> 0" using True assms(4) by (intro notI) simp
  have f: "0 < f" "f < ?b" "f < 65536" "?a mod 65536 + f = 65536"
    using m True nz unfolding f_def by linarith+
  have first: "unat (ucast (65536 - mm_saddr c) :: u16) = f"
    using page_rest[of ?a] nz unat_bound[of "mm_saddr c"] by (simp add: f_def)
  have len: "unat (ucast (mm_bbt c - ucast (ucast (65536 - mm_saddr c) :: u16)) :: u16) = ?b - f"
  proof -
    have "unat (ucast (ucast (65536 - mm_saddr c) :: u16) :: 23 word) = f"
      unfolding unat_cast[of "ucast (65536 - mm_saddr c) :: u16"] first using f(3) by simp
    then show ?thesis using f(2) assms(4) by (simp add: unat_cast unat_sub word_le_nat_alt)
  qed
  let ?s = "rxAppMemAccessBreakdown (rxAppMemAccessBreakdown s)"
  have out: "concat (map cmd_addrs (raf_out ?s)) = map (\<lambda>k. ?a + k) [0..<f] @ map (\<lambda>k. ?a div 65536 * 65536 + k) [0..<?b - f]"
    using assms(1-3) True len first f(2) assms(4)
    by (simp add: rxAppMemAccessBreakdown_def low_page Let_def cmd_addrs_def mmCmd_of_def high_page unat_cast)
  have "concat (map cmd_addrs (raf_out ?s)) ! f \<noteq> ring_addrs c ! f"
    unfolding out using f page_next[OF f(4)] by (simp add: nth_append ring_addrs_def ring_addr_def)
  then have "concat (map cmd_addrs (raf_out ?s)) \<noteq> ring_addrs c" by metis
  then show ?thesis using True assms by (simp add: rxAppMemAccessBreakdown_def low_page Let_def)
qed

definition ra_ex :: "mmCmd \<Rightarrow> ra_st" where
  "ra_ex c = \<lparr>ra_breakdown = False, ra_cmd = mmCmd_of 0 0, ra_length = 0, raf_in = [c], raf_out = [], raf_double = []\<rparr>"

lemma rx_read_split_witness:
  "concat (map cmd_addrs (raf_out (rxAppMemAccessBreakdown (rxAppMemAccessBreakdown (ra_ex (mmCmd_of 0xFFFB 8))))))
     \<noteq> ring_addrs (mmCmd_of 0xFFFB 8)"
  using rx_read_split[of "ra_ex (mmCmd_of 0xFFFB 8)" "mmCmd_of 0xFFFB 8" "[]"]
  by (simp add: ra_ex_def mmCmd_of_def Let_def)

end
