(* ===== verification/Tx_App.thy ===== *)
theory Tx_App
  imports Mem_Split Stream_Utils
begin

text \<open>
  The transmit side of the application interface: \<^verbatim>\<open>toe/tx_app_interface/tx_app_interface.cpp\<close>
  (\<open>txEventMerger\<close>, \<open>txAppStatusHandler\<close>, \<open>tx_app_table\<close> and their composition),
  \<^verbatim>\<open>toe/tx_app_stream_if/tx_app_stream_if.cpp\<close> (\<open>tasi_metaLoader\<close>, \<open>tx_app_stream_if\<close>) and
  \<^verbatim>\<open>toe/tx_app_if/tx_app_if.cpp\<close> (\<open>tx_app_if\<close>), with \<^verbatim>\<open>TCP_NODELAY\<close> on.

  All processes work on one record that holds their static variables and every stream between them
  and to the rest of the stack; \<open>txa_push\<close> is the state of \<open>tasi_pkg_pusher\<close> with its streams.

  The writes that \<open>tasi_metaLoader\<close> accepts never overwrite a byte that is not acknowledged, and the
  application pointer moves only behind data whose memory writes are confirmed.
\<close>

subsection \<open>State\<close>

datatype tai_states = READ_REQUEST | READ_META
datatype tash_status = READ_EV | READ_STATUS_1 | READ_STATUS_2

record txAppTableEntry =
  ate_ackd :: win
  ate_mempt :: win
  ate_min_window :: win

record txa_st =
  tai_state :: tai_states
  tasi_writeMeta :: appTxMeta
  app_table :: "sid \<Rightarrow> txAppTableEntry"
  tash_state :: tash_status
  tash_ev :: event
  tai_close :: bool
  tai_closeSessionID :: sid
  txa_push :: mw_st
  taf_meta :: "appTxMeta fifo"
  taf_data :: "net_axis fifo"
  taf_engData :: "net_axis fifo"
  taf_stateRsp :: "sessionState fifo"
  taf_sarReq :: "txAppTxSarQuery fifo"
  taf_sarRsp :: "txAppTxSarReply fifo"
  taf_ackPush :: "txSarAckPush fifo"
  taf_rsp :: "appTxRsp fifo"
  taf_stateReq :: "sid fifo"
  taf_appEvent :: "event fifo"
  taf_streamEvent :: "event fifo"
  taf_cache :: "event fifo"
  taf_event :: "event fifo"
  taf_status :: "mmStatus fifo"
  taf_appPush :: "txAppTxSarPush fifo"
  taf_openReq :: "ipTuple fifo"
  taf_closeReq :: "sid fifo"
  taf_lookupRsp :: "sessionLookupReply fifo"
  taf_portRsp :: "u16 fifo"
  taf_stateUpdRsp :: "sessionState fifo"
  taf_established :: "openStatus fifo"
  taf_rtNote :: "openStatus fifo"
  taf_openRsp :: "openStatus fifo"
  taf_lookupReq :: "fourTuple fifo"
  taf_stateUpd :: "stateQuery fifo"

subsection \<open>Accepting a write\<close>

definition NO_ERROR :: "2 word" where "NO_ERROR = 0"
definition ERROR_NOCONNCECTION :: "2 word" where "ERROR_NOCONNCECTION = 1"
definition ERROR_NOSPACE :: "2 word" where "ERROR_NOSPACE = 2"

text \<open>The free space of the buffer and of the window, both of 18 bits.\<close>

definition maxWriteLength :: "txAppTxSarReply \<Rightarrow> win" where
  "maxWriteLength r = tar_ackd r - tar_mempt r - 1"

definition usableWindow :: "txAppTxSarReply \<Rightarrow> win" where
  "usableWindow r = (let used = tar_mempt r - tar_ackd r in
     if used < tar_min_window r then tar_min_window r - used else 0)"

definition tasi_respond :: "win \<Rightarrow> 2 word \<Rightarrow> txa_st \<Rightarrow> txa_st" where
  "tasi_respond space err s = s\<lparr>taf_rsp := taf_rsp s
     @ [\<lparr>atr_sessionID = atm_sessionID (tasi_writeMeta s), atr_length = atm_length (tasi_writeMeta s),
         atr_remaining_space = ucast space, atr_error = err\<rparr>]\<rparr>"

definition tasi_push :: "mmCmd \<Rightarrow> txa_st \<Rightarrow> txa_st" where
  "tasi_push c s = s\<lparr>txa_push := (txa_push s)\<lparr>mwf_cmdIn := mwf_cmdIn (txa_push s) @ [c]\<rparr>\<rparr>"

definition tasi_accept :: "txAppTxSarReply \<Rightarrow> txa_st \<Rightarrow> txa_st" where
  "tasi_accept r s =
    (let i = atm_sessionID (tasi_writeMeta s); l = atm_length (tasi_writeMeta s);
         s = tasi_respond (maxWriteLength r) NO_ERROR (tasi_push (mmCmd_of (pkgAddr i (ucast (tar_mempt r))) l) s) in
     s\<lparr>taf_streamEvent := taf_streamEvent s @ [event4 TX i (tar_mempt r) l],
       taf_sarReq := taf_sarReq s @ [txAppTxSarQuery_wr i (tar_mempt r + ucast l)]\<rparr>)"

definition tasi_decide :: "sessionState \<Rightarrow> txAppTxSarReply \<Rightarrow> txa_st \<Rightarrow> txa_st" where
  "tasi_decide st r s =
    (let l = unat (atm_length (tasi_writeMeta s)) in
     if st \<noteq> ESTABLISHED then tasi_respond (maxWriteLength r) ERROR_NOCONNCECTION s
     else if unat (maxWriteLength r) < l \<or> unat (usableWindow r) < l
     then tasi_respond (usableWindow r) ERROR_NOSPACE s
     else tasi_accept r s)"

definition tasi_metaLoader :: "txa_st \<Rightarrow> txa_st" where
  "tasi_metaLoader s =
    (case tai_state s of
       READ_REQUEST \<Rightarrow>
         (if taf_meta s \<noteq> [] then
            (let m = hd (taf_meta s) in
             s\<lparr>tasi_writeMeta := m, taf_meta := tl (taf_meta s),
               taf_stateReq := taf_stateReq s @ [atm_sessionID m],
               taf_sarReq := taf_sarReq s @ [txAppTxSarQuery_rd (atm_sessionID m)], tai_state := READ_META\<rparr>)
          else s)
     | READ_META \<Rightarrow>
         (if taf_sarRsp s \<noteq> [] \<and> taf_stateRsp s \<noteq> [] then
            (tasi_decide (hd (taf_stateRsp s)) (hd (taf_sarRsp s))
               (s\<lparr>taf_stateRsp := tl (taf_stateRsp s), taf_sarRsp := tl (taf_sarRsp s)\<rparr>))\<lparr>tai_state := READ_REQUEST\<rparr>
          else s))"

definition tx_app_table :: "txa_st \<Rightarrow> txa_st" where
  "tx_app_table s =
    (if taf_ackPush s \<noteq> [] then
       (let p = hd (taf_ackPush s); i = tak_sessionID p; e = app_table s i;
            e = (if tak_init p
                 then e\<lparr>ate_ackd := tak_ackd p - 1, ate_mempt := tak_ackd p, ate_min_window := tak_min_window p\<rparr>
                 else e\<lparr>ate_ackd := tak_ackd p, ate_min_window := tak_min_window p\<rparr>) in
        s\<lparr>taf_ackPush := tl (taf_ackPush s), app_table := (app_table s)(i := e)\<rparr>)
     else if taf_sarReq s \<noteq> [] then
       (let q = hd (taf_sarReq s); i = taq_sessionID q; e = app_table s i;
            s = s\<lparr>taf_sarReq := tl (taf_sarReq s)\<rparr> in
        if taq_write q then s\<lparr>app_table := (app_table s)(i := e\<lparr>ate_mempt := taq_mempt q\<rparr>)\<rparr>
        else s\<lparr>taf_sarRsp := taf_sarRsp s @ [\<lparr>tar_sessionID = i, tar_ackd = ate_ackd e,
                 tar_mempt = ate_mempt e, tar_min_window = ate_min_window e\<rparr>]\<rparr>)
     else s)"

subsection \<open>Events and confirmations\<close>

definition txEventMerger :: "txa_st \<Rightarrow> txa_st" where
  "txEventMerger s =
    (if taf_appEvent s \<noteq> [] then
       s\<lparr>taf_event := taf_event s @ [hd (taf_appEvent s)], taf_appEvent := tl (taf_appEvent s)\<rparr>
     else if taf_streamEvent s \<noteq> [] then
       (let e = hd (taf_streamEvent s) in
        s\<lparr>taf_event := taf_event s @ [e], taf_streamEvent := tl (taf_streamEvent s),
          taf_cache := (if ev_type e = TX then taf_cache s @ [e] else taf_cache s)\<rparr>)
     else s)"

definition tash_push :: "txa_st \<Rightarrow> txa_st" where
  "tash_push s = s\<lparr>taf_appPush := taf_appPush s @ [\<lparr>tap_sessionID = ev_sessionID (tash_ev s),
     tap_app = ev_address (tash_ev s) + ucast (ev_length (tash_ev s))\<rparr>], tash_state := READ_EV\<rparr>"

definition txAppStatusHandler :: "txa_st \<Rightarrow> txa_st" where
  "txAppStatusHandler s =
    (case tash_state s of
       READ_EV \<Rightarrow>
         (if taf_cache s \<noteq> [] then
            (let e = hd (taf_cache s) in
             s\<lparr>tash_ev := e, taf_cache := tl (taf_cache s),
               tash_state := (if ev_type e = TX then READ_STATUS_1 else READ_EV)\<rparr>)
          else s)
     | READ_STATUS_1 \<Rightarrow>
         (if taf_status s \<noteq> [] then
            (let ok = ms_okay (hd (taf_status s)); s = s\<lparr>taf_status := tl (taf_status s)\<rparr> in
             if ok then
               (if BUFFER_SIZE < unat (ev_address (tash_ev s)) + unat (ev_length (tash_ev s))
                then s\<lparr>tash_state := READ_STATUS_2\<rparr> else tash_push s)
             else s)
          else s)
     | READ_STATUS_2 \<Rightarrow>
         (if taf_status s \<noteq> [] then
            (let ok = ms_okay (hd (taf_status s)); s = s\<lparr>taf_status := tl (taf_status s)\<rparr> in
             if ok then tash_push s else s)
          else s))"

subsection \<open>Opening and closing connections\<close>

definition tai_lookup :: "u32 \<Rightarrow> txa_st \<Rightarrow> txa_st" where
  "tai_lookup myIp s =
    (if taf_openReq s \<noteq> [] \<and> taf_portRsp s \<noteq> [] then
       (let a = hd (taf_openReq s); p = hd (taf_portRsp s) in
        s\<lparr>taf_openReq := tl (taf_openReq s), taf_portRsp := tl (taf_portRsp s),
          taf_lookupReq := taf_lookupReq s @ [mk_fourTuple myIp (reverse32 (ipt_ip_address a)) (reverse16 p)
                                                (reverse16 (ipt_ip_port a))]\<rparr>)
     else s)"

definition tai_idle :: "txa_st \<Rightarrow> txa_st" where
  "tai_idle s =
    (if taf_lookupRsp s \<noteq> [] then
       (let r = hd (taf_lookupRsp s); s = s\<lparr>taf_lookupRsp := tl (taf_lookupRsp s)\<rparr> in
        if slr_hit r
        then s\<lparr>taf_appEvent := taf_appEvent s @ [event2 SYN (slr_sessionID r)],
               taf_stateUpd := taf_stateUpd s @ [stateQuery_of (slr_sessionID r) SYN_SENT True]\<rparr>
        else s\<lparr>taf_openRsp := taf_openRsp s @ [openStatus2 0 0]\<rparr>)
     else if taf_established s \<noteq> [] then
       s\<lparr>taf_openRsp := taf_openRsp s @ [hd (taf_established s)], taf_established := tl (taf_established s)\<rparr>
     else if taf_rtNote s \<noteq> [] then
       s\<lparr>taf_openRsp := taf_openRsp s @ [hd (taf_rtNote s)], taf_rtNote := tl (taf_rtNote s)\<rparr>
     else if taf_closeReq s \<noteq> [] then
       s\<lparr>tai_closeSessionID := hd (taf_closeReq s), taf_closeReq := tl (taf_closeReq s),
         taf_stateUpd := taf_stateUpd s @ [stateQuery_rd (hd (taf_closeReq s))], tai_close := True\<rparr>
     else s)"

definition tai_closing :: "txa_st \<Rightarrow> txa_st" where
  "tai_closing s =
    (if taf_stateUpdRsp s \<noteq> [] then
       (let st = hd (taf_stateUpdRsp s); i = tai_closeSessionID s;
            s = s\<lparr>taf_stateUpdRsp := tl (taf_stateUpdRsp s), tai_close := False\<rparr> in
        if st \<in> {ESTABLISHED, FIN_WAIT_2, FIN_WAIT_1}
        then s\<lparr>taf_stateUpd := taf_stateUpd s @ [stateQuery_of i FIN_WAIT_1 True],
               taf_appEvent := taf_appEvent s @ [event2 FIN i]\<rparr>
        else s\<lparr>taf_stateUpd := taf_stateUpd s @ [stateQuery_of i st True]\<rparr>)
     else s)"

definition tx_app_if :: "u32 \<Rightarrow> txa_st \<Rightarrow> txa_st" where
  "tx_app_if myIp s =
    (let s = tai_lookup myIp s in if tai_close s then tai_closing s else tai_idle s)"

subsection \<open>The composition\<close>

definition txa_duplicate :: "txa_st \<Rightarrow> txa_st" where
  "txa_duplicate s =
    (let (d, o0, o1) = toe_duplicate_stream (taf_data s, mwf_dataIn (txa_push s), taf_engData s) in
     s\<lparr>taf_data := d, txa_push := (txa_push s)\<lparr>mwf_dataIn := o0\<rparr>, taf_engData := o1\<rparr>)"

definition tx_app_stream_if :: "nat \<Rightarrow> net_axis \<Rightarrow> txa_st \<Rightarrow> txa_st" where
  "tx_app_stream_if W u s =
    (let s = txa_duplicate (tasi_metaLoader s) in s\<lparr>txa_push := tasi_pkg_pusher W u (txa_push s)\<rparr>)"

definition tx_app_interface :: "nat \<Rightarrow> net_axis \<Rightarrow> u32 \<Rightarrow> txa_st \<Rightarrow> txa_st" where
  "tx_app_interface W u myIp s =
     tx_app_table (tx_app_if myIp (tx_app_stream_if W u (txAppStatusHandler (txEventMerger s))))"


subsection \<open>No byte is overwritten before it is acknowledged\<close>

text \<open>
  Runs of the loader with its table: the events are calls of the two processes, in any order, requests
  of the application, answers of the state table, and acknowledgements. The merger and the pusher are
  left out of the runs, so the streams \<open>taf_streamEvent\<close> and \<open>mwf_cmdIn\<close> keep all writes that were
  accepted. \<open>a i\<close> counts the bytes of session \<open>i\<close> that are acknowledged, the SYN being the first: the
  environment acknowledges \<open>n\<close> more bytes only if that many are outstanding.
\<close>

definition accepted :: "txa_st \<Rightarrow> sid \<Rightarrow> event list" where
  "accepted s i = filter (\<lambda>e. ev_sessionID e = i) (taf_streamEvent s)"

definition sent :: "txa_st \<Rightarrow> sid \<Rightarrow> nat" where
  "sent s i = Suc (sum_list (map (unat \<circ> ev_length) (accepted s i)))"

datatype txa_event =
    Tasi_loader | Tx_app_table | App_meta appTxMeta | App_state sessionState | Ack_bytes sid nat win

fun txa_step :: "(sid \<Rightarrow> win) \<Rightarrow> txa_event \<Rightarrow> (sid \<Rightarrow> nat) \<times> txa_st \<Rightarrow> (sid \<Rightarrow> nat) \<times> txa_st" where
  "txa_step b Tasi_loader (a, s) = (a, tasi_metaLoader s)"
| "txa_step b Tx_app_table (a, s) = (a, tx_app_table s)"
| "txa_step b (App_meta m) (a, s) = (a, s\<lparr>taf_meta := taf_meta s @ [m]\<rparr>)"
| "txa_step b (App_state st) (a, s) = (a, s\<lparr>taf_stateRsp := taf_stateRsp s @ [st]\<rparr>)"
| "txa_step b (Ack_bytes i n w) (a, s) =
     (if a i + n \<le> sent s i
      then (a(i := a i + n), s\<lparr>taf_ackPush := taf_ackPush s @ [txSarAckPush3 i (b i - 1 + of_nat (a i + n)) w]\<rparr>)
      else (a, s))"

text \<open>
  The specification: the writes of a session follow one another in the ring from its first byte
  \<open>b i\<close> on, each event has its command, and the bytes not yet acknowledged fit in the buffer.
\<close>

fun placed :: "win \<Rightarrow> event list \<Rightarrow> bool" where
  "placed p [] \<longleftrightarrow> True"
| "placed p (e # es) \<longleftrightarrow> ev_address e = p \<and> placed (p + ucast (ev_length e)) es"

definition event_cmd :: "event \<Rightarrow> mmCmd" where
  "event_cmd e = mmCmd_of (pkgAddr (ev_sessionID e) (ucast (ev_address e))) (ev_length e)"

definition ring_safe :: "(sid \<Rightarrow> win) \<Rightarrow> (sid \<Rightarrow> nat) \<Rightarrow> txa_st \<Rightarrow> bool" where
  "ring_safe b a s \<longleftrightarrow> mwf_cmdIn (txa_push s) = map event_cmd (taf_streamEvent s)
     \<and> (\<forall>i. placed (b i) (accepted s i) \<and> a i \<le> sent s i \<and> sent s i < a i + BUFFER_SIZE)"

text \<open>Where the next byte of a session goes, and the table once the queued writes are done.\<close>

definition end_of :: "(sid \<Rightarrow> win) \<Rightarrow> txa_st \<Rightarrow> sid \<Rightarrow> win" where
  "end_of b s i = b i - 1 + of_nat (sent s i)"

fun mempt_after :: "txAppTxSarQuery list \<Rightarrow> (sid \<Rightarrow> win) \<Rightarrow> sid \<Rightarrow> win" where
  "mempt_after [] m = m"
| "mempt_after (q # qs) m = mempt_after qs (if taq_write q then m(taq_sessionID q := taq_mempt q) else m)"

lemma mempt_after_append [simp]: "mempt_after (xs @ ys) m = mempt_after ys (mempt_after xs m)"
  by (induction xs arbitrary: m) auto

text \<open>The queued acknowledgements only move forward, from the counts \<open>t\<close> of the table to those given out.\<close>

fun acks_between :: "(sid \<Rightarrow> nat) \<Rightarrow> (sid \<times> nat) list \<Rightarrow> (sid \<Rightarrow> nat) \<Rightarrow> bool" where
  "acks_between t [] a \<longleftrightarrow> (\<forall>i. t i \<le> a i)"
| "acks_between t ((i, k) # ks) a \<longleftrightarrow> t i \<le> k \<and> acks_between (t(i := k)) ks a"

lemma acks_between_le: "acks_between t ks a \<Longrightarrow> t i \<le> a i"
proof (induction t ks a rule: acks_between.induct)
  case (2 t j k ks a)
  then show ?case by (cases "i = j") (use fun_upd_same[of t j k] in \<open>fastforce+\<close>)
qed simp

lemma acks_between_push:
  "acks_between t ks a \<Longrightarrow> acks_between t (ks @ [(i, a i + n)]) (a(i := a i + n))"
proof (induction t ks a rule: acks_between.induct)
  case (1 t a)
  then show ?case by (auto intro: le_add1 order_trans)
qed auto

definition ack_matches :: "(sid \<Rightarrow> win) \<Rightarrow> txSarAckPush \<Rightarrow> sid \<times> nat \<Rightarrow> bool" where
  "ack_matches b p x \<longleftrightarrow> tak_sessionID p = fst x \<and> tak_ackd p = b (fst x) - 1 + of_nat (snd x) \<and> \<not> tak_init p"

definition pending_ok :: "(sid \<Rightarrow> win) \<Rightarrow> (sid \<Rightarrow> nat) \<Rightarrow> txa_st \<Rightarrow> bool" where
  "pending_ok b t s \<longleftrightarrow> (case tai_state s of
     READ_REQUEST \<Rightarrow> taf_sarRsp s = [] \<and> list_all taq_write (taf_sarReq s)
   | READ_META \<Rightarrow> (let i = atm_sessionID (tasi_writeMeta s) in
       (taf_sarRsp s = [] \<and> (\<exists>qs. taf_sarReq s = qs @ [txAppTxSarQuery_rd i] \<and> list_all taq_write qs))
       \<or> (taf_sarReq s = [] \<and> (\<exists>r k. taf_sarRsp s = [r] \<and> tar_ackd r = b i - 1 + of_nat k
            \<and> tar_mempt r = end_of b s i \<and> k \<le> t i \<and> sent s i < k + BUFFER_SIZE))))"

definition txa_inv :: "(sid \<Rightarrow> win) \<Rightarrow> (sid \<Rightarrow> nat) \<times> txa_st \<Rightarrow> bool" where
  "txa_inv b = (\<lambda>(a, s). mwf_cmdIn (txa_push s) = map event_cmd (taf_streamEvent s)
     \<and> (\<forall>i. placed (b i) (accepted s i) \<and> a i \<le> sent s i)
     \<and> mempt_after (taf_sarReq s) (\<lambda>i. ate_mempt (app_table s i)) = end_of b s
     \<and> (\<exists>t ks. acks_between t ks a \<and> list_all2 (ack_matches b) (taf_ackPush s) ks
          \<and> (\<forall>i. ate_ackd (app_table s i) = b i - 1 + of_nat (t i) \<and> sent s i < t i + BUFFER_SIZE)
          \<and> pending_ok b t s))"

lemma txa_invI:
  assumes "mwf_cmdIn (txa_push s) = map event_cmd (taf_streamEvent s)"
    and "\<And>i. placed (b i) (accepted s i)" and "\<And>i. a i \<le> sent s i"
    and "mempt_after (taf_sarReq s) (\<lambda>i. ate_mempt (app_table s i)) = end_of b s"
    and "acks_between t ks a" and "list_all2 (ack_matches b) (taf_ackPush s) ks"
    and "\<And>i. ate_ackd (app_table s i) = b i - 1 + of_nat (t i)" and "\<And>i. sent s i < t i + BUFFER_SIZE"
    and "pending_ok b t s"
  shows "txa_inv b (a, s)"
  using assms unfolding txa_inv_def by blast

lemma txa_inv_safe: "txa_inv b (a, s) \<Longrightarrow> ring_safe b a s"
  unfolding txa_inv_def ring_safe_def using acks_between_le
  by (fastforce intro: order_less_le_trans)


subsection \<open>Every step keeps the invariant\<close>

lemma same_events:
  assumes "taf_streamEvent s' = taf_streamEvent s"
  shows "accepted s' = accepted s" and "sent s' = sent s" and "end_of b s' = end_of b s"
  using assms by (simp_all add: fun_eq_iff accepted_def sent_def end_of_def)

lemma pending_mono:
  assumes "pending_ok b t s" and "\<forall>i. t i \<le> t' i"
  shows "pending_ok b t' s"
  using assms le_trans unfolding pending_ok_def by (cases "tai_state s"; simp add: Let_def; blast)

lemma pending_frame:
  assumes "pending_ok b t s" and "taf_streamEvent s' = taf_streamEvent s" and "tai_state s' = tai_state s"
    and "tasi_writeMeta s' = tasi_writeMeta s" and "taf_sarReq s' = taf_sarReq s" and "taf_sarRsp s' = taf_sarRsp s"
  shows "pending_ok b t s'"
  using assms(1) unfolding pending_ok_def same_events[OF assms(2)] assms(3-6) .

text \<open>Steps that do not touch the writes, the queues or the table.\<close>

lemma txa_inv_frame:
  assumes "txa_inv b (a, s)" and "taf_streamEvent s' = taf_streamEvent s" and "tai_state s' = tai_state s"
    and "tasi_writeMeta s' = tasi_writeMeta s" and "taf_sarReq s' = taf_sarReq s" and "taf_sarRsp s' = taf_sarRsp s"
    and "txa_push s' = txa_push s" and "app_table s' = app_table s" and "taf_ackPush s' = taf_ackPush s"
  shows "txa_inv b (a, s')"
  using assms(1) pending_frame[OF _ assms(2-6)]
  unfolding txa_inv_def prod.case same_events[OF assms(2)] assms(2,5,7-9) by blast

lemma txa_inv_ack:
  assumes "txa_inv b (a, s)" and "a i + n \<le> sent s i"
  shows "txa_inv b (a(i := a i + n), s\<lparr>taf_ackPush := taf_ackPush s @ [txSarAckPush3 i (b i - 1 + of_nat (a i + n)) w]\<rparr>)"
    (is "txa_inv b (?a, ?s)")
proof -
  have ev: "taf_streamEvent ?s = taf_streamEvent s" by simp
  obtain t ks where t: "acks_between t ks a" "list_all2 (ack_matches b) (taf_ackPush s) ks"
    "\<forall>i. ate_ackd (app_table s i) = b i - 1 + of_nat (t i) \<and> sent s i < t i + BUFFER_SIZE" "pending_ok b t s"
    using assms(1) unfolding txa_inv_def by blast
  have "pending_ok b t ?s" by (rule pending_frame[OF t(4)]) simp_all
  moreover have "list_all2 (ack_matches b) (taf_ackPush ?s) (ks @ [(i, a i + n)])"
    using t(2) by (simp add: list_all2_appendI ack_matches_def txSarAckPush3_def)
  ultimately show ?thesis
    using assms acks_between_push[OF t(1), of i n] t(3)
    unfolding txa_inv_def prod.case same_events[OF ev] by auto
qed

lemma txa_inv_table:
  assumes "txa_inv b (a, s)"
  shows "txa_inv b (a, tx_app_table s)"
proof -
  let ?s = "tx_app_table s"
  have ev: "taf_streamEvent ?s = taf_streamEvent s" and fr: "txa_push ?s = txa_push s" "tai_state ?s = tai_state s"
    "tasi_writeMeta ?s = tasi_writeMeta s" by (simp_all add: tx_app_table_def Let_def)
  obtain t ks where t: "acks_between t ks a" "list_all2 (ack_matches b) (taf_ackPush s) ks"
    "\<forall>i. ate_ackd (app_table s i) = b i - 1 + of_nat (t i) \<and> sent s i < t i + BUFFER_SIZE" "pending_ok b t s"
    using assms unfolding txa_inv_def by blast
  have mem: "mempt_after (taf_sarReq s) (\<lambda>i. ate_mempt (app_table s i)) = end_of b s"
    using assms unfolding txa_inv_def by blast
  have "\<exists>t ks. mempt_after (taf_sarReq ?s) (\<lambda>i. ate_mempt (app_table ?s i)) = end_of b s
      \<and> acks_between t ks a \<and> list_all2 (ack_matches b) (taf_ackPush ?s) ks
      \<and> (\<forall>i. ate_ackd (app_table ?s i) = b i - 1 + of_nat (t i) \<and> sent s i < t i + BUFFER_SIZE)
      \<and> pending_ok b t ?s"
  proof (cases "taf_ackPush s")
    case (Cons p ps)
    then obtain j k ks' where ks: "ks = (j, k) # ks'" "ack_matches b p (j, k)" "list_all2 (ack_matches b) ps ks'"
      using t(2) by (metis list_all2_Cons1 surj_pair)
    let ?e = "(app_table s j)\<lparr>ate_ackd := tak_ackd p, ate_min_window := tak_min_window p\<rparr>"
    have s: "?s = s\<lparr>taf_ackPush := ps, app_table := (app_table s)(j := ?e)\<rparr>"
      using Cons ks(2) by (simp add: tx_app_table_def ack_matches_def Let_def)
    have le: "t j \<le> k" and btw: "acks_between (t(j := k)) ks' a" using t(1) ks(1) by simp_all
    have "pending_ok b (t(j := k)) ?s"
      by (rule pending_frame[OF pending_mono[OF t(4)]]) (use le s in auto)
    moreover have "(\<lambda>i. ate_mempt (app_table ?s i)) = (\<lambda>i. ate_mempt (app_table s i))"
      by (simp add: s fun_eq_iff)
    moreover have "sent s i < (t(j := k)) i + BUFFER_SIZE" for i
    proof -
      have "sent s i < t i + BUFFER_SIZE" using t(3) by blast
      then show ?thesis using le by (cases "i = j") auto
    qed
    moreover have "ate_ackd (app_table ?s i) = b i - 1 + of_nat ((t(j := k)) i)" for i
      using ks(2) t(3) by (simp add: s ack_matches_def)
    moreover have "taf_sarReq ?s = taf_sarReq s" "list_all2 (ack_matches b) (taf_ackPush ?s) ks'" by (simp_all add: s ks(3))
    ultimately show ?thesis using btw mem by (intro exI[of _ "t(j := k)"] exI[of _ ks'] conjI) simp_all
  next
    case Nil
    show ?thesis
    proof (cases "taf_sarReq s")
      case (Cons q qs)
      show ?thesis
      proof (cases "taq_write q")
        case True
        have s: "?s = s\<lparr>taf_sarReq := qs, app_table := (app_table s)(taq_sessionID q :=
            (app_table s (taq_sessionID q))\<lparr>ate_mempt := taq_mempt q\<rparr>)\<rparr>"
          using Nil Cons True by (simp add: tx_app_table_def Let_def)
        have "(\<lambda>i. ate_mempt (app_table ?s i)) = (\<lambda>i. ate_mempt (app_table s i))(taq_sessionID q := taq_mempt q)"
          by (simp add: s fun_eq_iff)
        then have "mempt_after (taf_sarReq ?s) (\<lambda>i. ate_mempt (app_table ?s i)) = end_of b s"
          using mem Cons True s by simp
        moreover have "pending_ok b t ?s"
          using t(4) Cons True unfolding pending_ok_def fr same_events[OF ev]
          by (auto simp: s Let_def txAppTxSarQuery_rd_def Cons_eq_append_conv split: tai_states.splits)
        moreover have "ate_ackd (app_table ?s i) = ate_ackd (app_table s i)" "taf_ackPush ?s = taf_ackPush s" for i
          by (simp_all add: s)
        ultimately show ?thesis using t(1-3) by auto
      next
        case False
        let ?i = "taq_sessionID q"
        have s: "?s = s\<lparr>taf_sarReq := qs, taf_sarRsp := taf_sarRsp s @ [\<lparr>tar_sessionID = ?i,
            tar_ackd = ate_ackd (app_table s ?i), tar_mempt = ate_mempt (app_table s ?i),
            tar_min_window = ate_min_window (app_table s ?i)\<rparr>]\<rparr>"
          using Nil Cons False by (simp add: tx_app_table_def Let_def)
        have st: "tai_state s = READ_META" "taf_sarRsp s = []" "qs = []" "?i = atm_sessionID (tasi_writeMeta s)"
          using t(4) Cons False unfolding pending_ok_def
          by (auto simp: Let_def txAppTxSarQuery_rd_def Cons_eq_append_conv split: tai_states.splits)
        have m: "ate_mempt (app_table s ?i) = end_of b s ?i" using mem Cons False st(3) by (auto dest: fun_cong[of _ _ ?i])
        have "pending_ok b t ?s"
          using st m t(3) unfolding pending_ok_def fr same_events[OF ev] by (auto simp: s Let_def intro!: exI[of _ "t ?i"])
        then show ?thesis using t(1-3) mem Cons False s by auto
      qed
    next
      case Nil2: Nil
      then have "?s = s" using Nil by (simp add: tx_app_table_def)
      then show ?thesis using t mem by auto
    qed
  qed
  then show ?thesis using assms unfolding txa_inv_def prod.case same_events[OF ev] fr ev by blast
qed


text \<open>The free space that the loader computes.\<close>

lemma free_space_nat:
  assumes "k \<le> n" and "n < k + BUFFER_SIZE"
  shows "unat (of_nat k - of_nat n - 1 :: win) = BUFFER_SIZE - 1 - (n - k)"
proof -
  have "(of_nat k - of_nat n - 1 :: win) + of_nat (n - k) + 1 = 0" using assms(1) by (simp add: of_nat_diff)
  moreover have "(of_nat (BUFFER_SIZE - 1 - (n - k)) :: win) + of_nat (n - k) + 1 = of_nat BUFFER_SIZE"
    using assms unfolding of_nat_add[symmetric] by (simp add: of_nat_diff BUFFER_SIZE_def)
  moreover have "(of_nat BUFFER_SIZE :: win) = 0" by (simp add: BUFFER_SIZE_def)
  ultimately have "(of_nat k - of_nat n - 1 :: win) = of_nat (BUFFER_SIZE - 1 - (n - k))"
    by (metis add_right_cancel)
  moreover have "BUFFER_SIZE - 1 - (n - k) < 2 ^ 18" by (simp add: BUFFER_SIZE_def)
  ultimately show ?thesis by (simp add: unat_of_nat)
qed

lemma placed_append:
  "placed p (es @ [e]) \<longleftrightarrow> placed p es \<and> ev_address e = p + of_nat (sum_list (map (unat \<circ> ev_length) es))"
  by (induction es arbitrary: p) (auto simp: add.assoc)

text \<open>A write that is accepted goes to the end of the session's data and fits.\<close>

lemma txa_inv_accept:
  assumes inv: "txa_inv b (a, s)" and meta: "tai_state s = READ_META" and r: "taf_sarRsp s = [r]"
    and fits: "unat (atm_length (tasi_writeMeta s)) \<le> unat (maxWriteLength r)"
  shows "txa_inv b (a, (tasi_accept r (s\<lparr>taf_stateRsp := xs, taf_sarRsp := []\<rparr>))\<lparr>tai_state := READ_REQUEST\<rparr>)"
proof -
  let ?i = "atm_sessionID (tasi_writeMeta s)" and ?l = "unat (atm_length (tasi_writeMeta s))"
  define s' where "s' = (tasi_accept r (s\<lparr>taf_stateRsp := xs, taf_sarRsp := []\<rparr>))\<lparr>tai_state := READ_REQUEST\<rparr>"
  let ?e = "event4 TX ?i (tar_mempt r) (atm_length (tasi_writeMeta s))"
  obtain t ks where t: "acks_between t ks a" "list_all2 (ack_matches b) (taf_ackPush s) ks"
    "\<forall>i. ate_ackd (app_table s i) = b i - 1 + of_nat (t i) \<and> sent s i < t i + BUFFER_SIZE" "pending_ok b t s"
    using inv unfolding txa_inv_def by blast
  obtain k where k: "taf_sarReq s = []" "tar_ackd r = b ?i - 1 + of_nat k" "tar_mempt r = end_of b s ?i"
    "k \<le> t ?i" "sent s ?i < k + BUFFER_SIZE"
    using t(4) meta r unfolding pending_ok_def by (auto simp: Let_def)
  have inv': "mwf_cmdIn (txa_push s) = map event_cmd (taf_streamEvent s)" "placed (b i) (accepted s i)" "a i \<le> sent s i"
    "(\<lambda>i. ate_mempt (app_table s i)) = end_of b s" for i
    using inv k(1) unfolding txa_inv_def by simp_all
  have "k \<le> sent s ?i" using k(4) acks_between_le[OF t(1), of ?i] inv'(3)[of ?i] by linarith
  then have "unat (maxWriteLength r) = BUFFER_SIZE - 1 - (sent s ?i - k)"
    using free_space_nat[OF _ k(5)] k(2,3) by (simp add: maxWriteLength_def end_of_def)
  then have room: "sent s ?i + ?l < t ?i + BUFFER_SIZE" using fits k(4,5) by linarith
  have new: "taf_streamEvent s' = taf_streamEvent s @ [?e]" "mwf_cmdIn (txa_push s') = mwf_cmdIn (txa_push s) @ [event_cmd ?e]"
    "taf_sarReq s' = [txAppTxSarQuery_wr ?i (end_of b s ?i + ucast (atm_length (tasi_writeMeta s)))]"
    "app_table s' = app_table s" "taf_ackPush s' = taf_ackPush s" "taf_sarRsp s' = []" "tai_state s' = READ_REQUEST"
    unfolding s'_def using k(1,3) by (simp_all add: tasi_accept_def tasi_respond_def tasi_push_def Let_def event_cmd_def event4_def)
  have e: "ev_sessionID ?e = ?i" "ev_length ?e = atm_length (tasi_writeMeta s)" "ev_address ?e = end_of b s ?i"
    using k(3) by (simp_all add: event4_def)
  have acc: "accepted s' i = (if i = ?i then accepted s i @ [?e] else accepted s i)" for i
    by (simp add: accepted_def new(1) e)
  have snt: "sent s' i = (if i = ?i then sent s i + ?l else sent s i)" for i
    by (simp add: sent_def acc e)
  have "end_of b s' = (end_of b s)(?i := end_of b s ?i + ucast (atm_length (tasi_writeMeta s)))"
    by (auto simp: fun_eq_iff end_of_def snt add.assoc)
  then have "mempt_after (taf_sarReq s') (\<lambda>i. ate_mempt (app_table s' i)) = end_of b s'"
    by (simp add: new inv'(4) txAppTxSarQuery_wr_def)
  moreover have "placed (b i) (accepted s' i)" for i
    using inv'(2)[of i] by (auto simp: acc placed_append e end_of_def sent_def)
  moreover have "a i \<le> sent s' i" "sent s' i < t i + BUFFER_SIZE" for i
    using inv'(3)[of i] t(3) room by (auto simp: snt)
  moreover have "pending_ok b t s'" unfolding pending_ok_def by (simp add: new txAppTxSarQuery_wr_def)
  ultimately have "txa_inv b (a, s')" using inv'(1) t(1-3) by (intro txa_invI[where t = t and ks = ks]) (simp_all add: new)
  then show ?thesis unfolding s'_def .
qed

lemma txa_inv_refuse:
  assumes "txa_inv b (a, s)" and "tai_state s = READ_META" and "taf_sarRsp s = [r]"
  shows "txa_inv b (a, (tasi_respond x y (s\<lparr>taf_stateRsp := xs, taf_sarRsp := []\<rparr>))\<lparr>tai_state := READ_REQUEST\<rparr>)"
    (is "txa_inv b (a, ?s)")
proof -
  have ev: "taf_streamEvent ?s = taf_streamEvent s" by (simp add: tasi_respond_def)
  have "pending_ok b t ?s" if "pending_ok b t s" for t
    using that assms(2,3) unfolding pending_ok_def by (auto simp: Let_def tasi_respond_def)
  then show ?thesis using assms(1) unfolding txa_inv_def prod.case same_events[OF ev] ev
    by (auto simp: tasi_respond_def)
qed

lemma txa_inv_loader:
  assumes "txa_inv b (a, s)"
  shows "txa_inv b (a, tasi_metaLoader s)"
proof (cases "tai_state s")
  case READ_REQUEST
  show ?thesis
  proof (cases "taf_meta s")
    case (Cons m ms)
    let ?s = "tasi_metaLoader s"
    have s: "?s = s\<lparr>tasi_writeMeta := m, taf_meta := ms, taf_stateReq := taf_stateReq s @ [atm_sessionID m],
        taf_sarReq := taf_sarReq s @ [txAppTxSarQuery_rd (atm_sessionID m)], tai_state := READ_META\<rparr>"
      using READ_REQUEST Cons by (simp add: tasi_metaLoader_def)
    have ev: "taf_streamEvent ?s = taf_streamEvent s" by (simp add: s)
    have "pending_ok b t ?s" if "pending_ok b t s" for t
      using that READ_REQUEST unfolding pending_ok_def by (simp add: s Let_def)
    then show ?thesis using assms unfolding txa_inv_def prod.case same_events[OF ev] ev
      by (auto simp: s txAppTxSarQuery_rd_def)
  qed (use assms READ_REQUEST in \<open>simp add: tasi_metaLoader_def\<close>)
next
  case READ_META
  show ?thesis
  proof (cases "taf_sarRsp s \<noteq> [] \<and> taf_stateRsp s \<noteq> []")
    case True
    then obtain r where r: "taf_sarRsp s = [r]"
      using assms READ_META unfolding txa_inv_def pending_ok_def by (auto simp: Let_def)
    have s: "tasi_metaLoader s = (tasi_decide (hd (taf_stateRsp s)) r
        (s\<lparr>taf_stateRsp := tl (taf_stateRsp s), taf_sarRsp := []\<rparr>))\<lparr>tai_state := READ_REQUEST\<rparr>"
      using READ_META True r by (simp add: tasi_metaLoader_def)
    show ?thesis unfolding s tasi_decide_def Let_def
      using txa_inv_accept[OF assms READ_META r] txa_inv_refuse[OF assms READ_META r] by simp
  qed (use assms READ_META in \<open>auto simp: tasi_metaLoader_def\<close>)
qed

interpretation txa: reactive "txa_step b" "txa_inv b" "\<lambda>_. True" for b
proof
  fix x :: "(sid \<Rightarrow> nat) \<times> txa_st" and e assume "txa_inv b x"
  then show "txa_inv b (txa_step b e x)"
    by (cases x; cases e) (auto intro: txa_inv_loader txa_inv_table txa_inv_ack txa_inv_frame)
qed

text \<open>The table right after a SYN was sent for each session, everything else empty.\<close>

definition txa_start :: "(sid \<Rightarrow> win) \<Rightarrow> (sid \<Rightarrow> win) \<Rightarrow> txa_st \<Rightarrow> txa_st" where
  "txa_start b mw s = s\<lparr>tai_state := READ_REQUEST, taf_sarReq := [], taf_sarRsp := [], taf_ackPush := [],
     taf_streamEvent := [], txa_push := (txa_push s)\<lparr>mwf_cmdIn := []\<rparr>,
     app_table := (\<lambda>i. \<lparr>ate_ackd = b i - 1, ate_mempt = b i, ate_min_window = mw i\<rparr>)\<rparr>"

text \<open>C18. In every run of the loader with its table, however calls, requests and acknowledgements
  interleave: the writes accepted for a session follow one another in its ring, each with the command
  and the event of its place, and the bytes not yet acknowledged never fill the buffer, so no accepted
  write overwrites one of them.\<close>

theorem tx_buffer_no_overwrite:
  "let (a, t) = fold (txa_step b) es (\<lambda>_. 0, txa_start b mw s) in
     mwf_cmdIn (txa_push t) = map event_cmd (taf_streamEvent t)
     \<and> (\<forall>i. placed (b i) (accepted t i) \<and> a i \<le> sent t i \<and> sent t i - a i < BUFFER_SIZE)"
proof -
  have "txa_inv b (\<lambda>_. 0, txa_start b mw s)"
    by (auto simp: txa_inv_def txa_start_def accepted_def sent_def end_of_def fun_eq_iff pending_ok_def BUFFER_SIZE_def
        intro!: exI[of _ "\<lambda>_. 0"] exI[of _ "[]"])
  then have "txa_inv b (fold (txa_step b) es (\<lambda>_. 0, txa_start b mw s))"
    by (rule txa.inv_run) simp
  then show ?thesis
    by (cases "fold (txa_step b) es (\<lambda>_. 0, txa_start b mw s)")
      (auto dest!: txa_inv_safe simp: ring_safe_def less_diff_conv2 add.commute)
qed


subsection \<open>The application pointer follows the confirmed data\<close>

text \<open>How many memory commands the pusher makes of the write of an event.\<close>

definition write_cmds :: "event \<Rightarrow> nat" where
  "write_cmds e = (if cmd_wraps (event_cmd e) then 2 else 1)"

lemma event_cmd_wraps:
  "cmd_wraps (event_cmd e) \<longleftrightarrow> BUFFER_SIZE < unat (ev_address e) + unat (ev_length e)"
proof -
  have "(range_get 17 0 (pkgAddr i (ucast p)) :: win) = p" for i p
    by (intro bit_word_eqI) (auto simp: pkgAddr_def bit_range_get bit_range_set bit_simps)
  moreover have "unat (ucast (l :: u16) :: 23 word) = unat l" for l
    using unat_bound[of l] by (simp add: unat_cast)
  ultimately show ?thesis by (simp add: cmd_wraps_def event_cmd_def mmCmd_of_def)
qed

definition app_push :: "event \<Rightarrow> txAppTxSarPush" where
  "app_push e = \<lparr>tap_sessionID = ev_sessionID e, tap_app = ev_address e + ucast (ev_length e)\<rparr>"

lemma tash_one_write:
  assumes "tash_state s = READ_EV" and "taf_cache s = e # es" and "ev_type e = TX"
    and "taf_status s = sts @ rest" and "length sts = write_cmds e" and "list_all ms_okay sts"
  shows "(txAppStatusHandler ^^ Suc (write_cmds e)) s
    = s\<lparr>tash_ev := e, taf_cache := es, taf_status := rest, taf_appPush := taf_appPush s @ [app_push e]\<rparr>"
proof (cases "cmd_wraps (event_cmd e)")
  case True
  then obtain x y where "sts = [x, y]" using assms(5) by (auto simp: write_cmds_def length_Suc_conv numeral_2_eq_2)
  then show ?thesis using assms True
    by (simp add: write_cmds_def event_cmd_wraps numeral_2_eq_2 txAppStatusHandler_def tash_push_def app_push_def Let_def)
next
  case False
  then obtain x where "sts = [x]" using assms(5) by (auto simp: write_cmds_def length_Suc_conv)
  then show ?thesis using assms False
    by (simp add: write_cmds_def event_cmd_wraps txAppStatusHandler_def tash_push_def app_push_def Let_def)
qed

text \<open>The status handler takes for each accepted write as many memory confirmations as the pusher
  makes commands of it, two when the write runs over the end of the buffer, and moves the application
  pointer behind the write only then: fed with the confirmations of a list of writes it ends after
  exactly the calls that read them, with the pointers pushed in the order of the writes.\<close>

lemma pushes_confirmed:
  assumes "tash_state s = READ_EV" and "taf_cache s = es" and "list_all (\<lambda>e. ev_type e = TX) es"
    and "taf_status s = sts @ rest" and "length sts = sum_list (map write_cmds es)" and "list_all ms_okay sts"
  shows "let t = (txAppStatusHandler ^^ (length es + length sts)) s in
      tash_state t = READ_EV \<and> taf_cache t = [] \<and> taf_status t = rest
      \<and> taf_appPush t = taf_appPush s @ map (\<lambda>e. \<lparr>tap_sessionID = ev_sessionID e,
          tap_app = ev_address e + ucast (ev_length e)\<rparr>) es"
  using assms
proof (induction es arbitrary: s sts)
  case (Cons e es)
  let ?n = "write_cmds e"
  define t where "t = (txAppStatusHandler ^^ Suc ?n) s"
  have t: "t = s\<lparr>tash_ev := e, taf_cache := es, taf_status := drop ?n sts @ rest,
      taf_appPush := taf_appPush s @ [app_push e]\<rparr>"
    unfolding t_def
    by (rule tash_one_write[OF Cons.prems(1,2), where sts = "take ?n sts"])
      (use Cons.prems in \<open>auto simp: list_all_iff dest: in_set_takeD\<close>)
  have "(txAppStatusHandler ^^ (length (e # es) + length sts)) s
      = (txAppStatusHandler ^^ (length es + length (drop ?n sts))) t"
  proof -
    have "length (e # es) + length sts = (length es + length (drop ?n sts)) + Suc ?n" using Cons.prems(5) by simp
    then show ?thesis by (simp only: t_def funpow_add comp_apply)
  qed
  moreover have "list_all ms_okay (drop ?n sts)" using Cons.prems(6) by (auto simp: list_all_iff dest: in_set_dropD)
  ultimately show ?case
    using Cons.IH[of t "drop ?n sts"] Cons.prems by (simp add: t app_push_def Let_def)
qed simp

definition txa_ex :: "mw_st \<Rightarrow> txa_st" where
  "txa_ex w = \<lparr>tai_state = READ_REQUEST, tasi_writeMeta = \<lparr>atm_sessionID = 0, atm_length = 0\<rparr>,
     app_table = (\<lambda>_. \<lparr>ate_ackd = 0, ate_mempt = 0, ate_min_window = 0\<rparr>), tash_state = READ_EV,
     tash_ev = event2 TX 0, tai_close = False, tai_closeSessionID = 0, txa_push = w, taf_meta = [], taf_data = [],
     taf_engData = [], taf_stateRsp = [], taf_sarReq = [], taf_sarRsp = [], taf_ackPush = [], taf_rsp = [],
     taf_stateReq = [], taf_appEvent = [], taf_streamEvent = [], taf_cache = [], taf_event = [], taf_status = [],
     taf_appPush = [], taf_openReq = [], taf_closeReq = [], taf_lookupRsp = [], taf_portRsp = [],
     taf_stateUpdRsp = [], taf_established = [], taf_rtNote = [], taf_openRsp = [], taf_lookupReq = [], taf_stateUpd = []\<rparr>"

definition okay :: mmStatus where
  "okay = \<lparr>ms_tag = 0, ms_interr = False, ms_decerr = False, ms_slverr = False, ms_okay = True\<rparr>"

lemma pushes_confirmed_witness:
  "taf_appPush ((txAppStatusHandler ^^ 3)
     ((txa_ex mw_ex)\<lparr>taf_cache := [event4 TX 7 0x3FFFB 8], taf_status := [okay, okay]\<rparr>))
   = [\<lparr>tap_sessionID = 7, tap_app = 3\<rparr>]"
  using pushes_confirmed[of "(txa_ex mw_ex)\<lparr>taf_cache := [event4 TX 7 0x3FFFB 8], taf_status := [okay, okay]\<rparr>"
      "[event4 TX 7 0x3FFFB 8]" "[okay, okay]" "[]"]
  by (simp add: txa_ex_def okay_def event4_def write_cmds_def event_cmd_wraps BUFFER_SIZE_def Let_def numeral_3_eq_3
      del: funpow.simps)

text \<open>
  Closing a session: every read of the state table, which locks the session, is followed by exactly
  one write of the same session, and a FIN is asked for exactly in the states in which the stack may
  still send one.
\<close>

lemma close_releases:
  assumes "tai_close s" and "taf_stateUpdRsp s = st # sts" and "taf_openReq s = []"
  shows "\<exists>st'. taf_stateUpd (tx_app_if ip s) = taf_stateUpd s @ [stateQuery_of (tai_closeSessionID s) st' True]
    \<and> \<not> tai_close (tx_app_if ip s)
    \<and> (if st \<in> {ESTABLISHED, FIN_WAIT_1, FIN_WAIT_2}
        then st' = FIN_WAIT_1 \<and> taf_appEvent (tx_app_if ip s) = taf_appEvent s @ [event2 FIN (tai_closeSessionID s)]
        else st' = st \<and> taf_appEvent (tx_app_if ip s) = taf_appEvent s)"
  using assms by (auto simp: tx_app_if_def tai_lookup_def tai_closing_def Let_def)

text \<open>The merger hands every event on, in the order of each source, and keeps a copy of the writes.\<close>

lemma merger_order:
  "taf_cache (txEventMerger s) @ filter (\<lambda>e. ev_type e = TX) (taf_streamEvent (txEventMerger s))
     = taf_cache s @ filter (\<lambda>e. ev_type e = TX) (taf_streamEvent s)"
  by (cases "taf_streamEvent s") (auto simp: txEventMerger_def Let_def)

end
