(* ===== verification/Rx_Stages.thy ===== *)
theory Rx_Stages
  imports Rx_Fsm Axis_Words "HOL-Library.Sublist"
begin

text \<open>
  The stages of the receive engine around its state machine (\<^verbatim>\<open>toe/rx_engine/rx_engine.cpp\<close>):
  \<^item> \<open>parse_optional_header_fields\<close> looks for the window scale among the options of a SYN, one option
    per call; \<open>merge_header_meta\<close> adds it to the metadata of the segment;
  \<^item> \<open>rxPackageDropper\<close> passes or drops a payload by the decisions of the metadata handler and the
    state machine;
  \<^item> \<open>rxAppNotificationDelayer\<close> holds a notification back until the memory has confirmed the write;
  \<^item> \<open>rxEventMerger\<close> joins the events of the two.
\<close>

subsection \<open>Options of a SYN\<close>

record po_st =
  po_parse :: bool
  po_dataOffset :: "4 word"
  po_fields :: "320 word"
  pof_dataOffset :: "4 word fifo"
  pof_fields :: "320 word fifo"
  pof_windowScale :: "4 word fifo"

definition po_result :: "4 word \<Rightarrow> po_st \<Rightarrow> po_st" where
  "po_result w s = s\<lparr>pof_windowScale := pof_windowScale s @ [w], po_parse := False\<rparr>"

definition parse_optional_header_fields :: "po_st \<Rightarrow> po_st" where
  "parse_optional_header_fields s =
    (if \<not> po_parse s then
       (if pof_dataOffset s \<noteq> [] \<and> pof_fields s \<noteq> [] then
          s\<lparr>po_dataOffset := hd (pof_dataOffset s), pof_dataOffset := tl (pof_dataOffset s),
            po_fields := hd (pof_fields s), pof_fields := tl (pof_fields s), po_parse := True\<rparr>
        else s)
     else
       (let kind = range_get 7 0 (po_fields s) :: 8 word;
            len = (if kind = 1 then 1 else range_get 15 8 (po_fields s) :: 8 word);
            s = (if kind = 0 then po_result 0 s
                 else if kind = 1 then s
                 else if kind = 3 then po_result (range_get 19 16 (po_fields s)) s
                 else if unat (po_dataOffset s) = unat len then po_result 0 s
                 else s) in
        s\<lparr>po_dataOffset := po_dataOffset s - ucast len,
          po_fields := drop_bit (8 * unat len) (po_fields s)\<rparr>))"

record hm_st =
  hm_state :: bool
  hm_meta :: rxEngineMetaData
  hmf_winScale :: "4 word fifo"
  hmf_headerMeta :: "rxEngineMetaData fifo"
  hmf_metaData :: "rxEngineMetaData fifo"

definition merge_header_meta :: "hm_st \<Rightarrow> hm_st" where
  "merge_header_meta s =
    (if \<not> hm_state s then
       (if hmf_headerMeta s \<noteq> [] then
          (let m = hd (hmf_headerMeta s); s = s\<lparr>hm_meta := m, hmf_headerMeta := tl (hmf_headerMeta s)\<rparr> in
           if me_syn m \<and> 5 < unat (me_dataOffset m) then s\<lparr>hm_state := True\<rparr>
           else s\<lparr>hm_meta := m\<lparr>me_winScale := 0\<rparr>, hmf_metaData := hmf_metaData s @ [m\<lparr>me_winScale := 0\<rparr>]\<rparr>)
        else s)
     else
       (if hmf_winScale s \<noteq> [] then
          (let m = (hm_meta s)\<lparr>me_winScale := hd (hmf_winScale s)\<rparr> in
           s\<lparr>hm_meta := m, hmf_winScale := tl (hmf_winScale s), hmf_metaData := hmf_metaData s @ [m],
             hm_state := False\<rparr>)
        else s))"

subsection \<open>Dropping payloads\<close>

datatype tpfStateType = READ_DROP1 | READ_DROP2 | PD_FWD | PD_DROP

record pd_st =
  tpf_state :: tpfStateType
  pdf_dataIn :: "net_axis fifo"
  pdf_drop1 :: "bool fifo"
  pdf_drop2 :: "bool fifo"
  pdf_dataOut :: "net_axis fifo"

definition rxPackageDropper :: "pd_st \<Rightarrow> pd_st" where
  "rxPackageDropper s =
    (case tpf_state s of
       READ_DROP1 \<Rightarrow>
         (if pdf_drop1 s \<noteq> [] then
            s\<lparr>pdf_drop1 := tl (pdf_drop1 s), tpf_state := (if hd (pdf_drop1 s) then PD_DROP else READ_DROP2)\<rparr>
          else s)
     | READ_DROP2 \<Rightarrow>
         (if pdf_drop2 s \<noteq> [] then
            s\<lparr>pdf_drop2 := tl (pdf_drop2 s), tpf_state := (if hd (pdf_drop2 s) then PD_DROP else PD_FWD)\<rparr>
          else s)
     | PD_FWD \<Rightarrow>
         (if pdf_dataIn s \<noteq> [] then
            (let w = hd (pdf_dataIn s) in
             s\<lparr>pdf_dataIn := tl (pdf_dataIn s), tpf_state := (if ax_last w then READ_DROP1 else PD_FWD),
               pdf_dataOut := pdf_dataOut s @ [w]\<rparr>)
          else s)
     | PD_DROP \<Rightarrow>
         (if pdf_dataIn s \<noteq> [] then
            s\<lparr>pdf_dataIn := tl (pdf_dataIn s),
              tpf_state := (if ax_last (hd (pdf_dataIn s)) then READ_DROP1 else PD_DROP)\<rparr>
          else s))"

subsection \<open>Delaying notifications\<close>

record nd_st =
  nd_double :: bool
  nd_fifoCount :: "5 word"
  nd_status1 :: mmStatus
  nd_status2 :: mmStatus
  nd_note :: appNotification
  nd_buffer :: "appNotification fifo"
  ndf_status :: "mmStatus fifo"
  ndf_note :: "appNotification fifo"
  ndf_out :: "appNotification fifo"
  ndf_double :: "bool fifo"

definition nd_release :: "bool \<Rightarrow> nd_st \<Rightarrow> nd_st" where
  "nd_release ok s =
    (if ok \<and> an_length (nd_note s) \<noteq> 0 then s\<lparr>ndf_out := ndf_out s @ [nd_note s]\<rparr> else s)"

definition rxAppNotificationDelayer :: "nd_st \<Rightarrow> nd_st" where
  "rxAppNotificationDelayer s =
    (if nd_double s then
       (if ndf_status s \<noteq> [] then
          (let x = hd (ndf_status s) in
           (nd_release (ms_okay (nd_status1 s) \<and> ms_okay x)
              (s\<lparr>nd_status2 := x, ndf_status := tl (ndf_status s), nd_fifoCount := nd_fifoCount s - 1\<rparr>))
             \<lparr>nd_double := False\<rparr>)
        else s)
     else if ndf_status s \<noteq> [] \<and> nd_buffer s \<noteq> [] \<and> ndf_double s \<noteq> [] then
       (let x = hd (ndf_status s); two = hd (ndf_double s);
            s = s\<lparr>nd_status1 := x, ndf_status := tl (ndf_status s), nd_note := hd (nd_buffer s),
                  nd_buffer := tl (nd_buffer s), nd_double := two, ndf_double := tl (ndf_double s)\<rparr> in
        if \<not> two then nd_release (ms_okay x) (s\<lparr>nd_fifoCount := nd_fifoCount s - 1\<rparr>) else s)
     else if ndf_note s \<noteq> [] \<and> nd_fifoCount s < 31 then
       (let n = hd (ndf_note s); s = s\<lparr>nd_note := n, ndf_note := tl (ndf_note s)\<rparr> in
        if an_closed n \<and> an_length n = 0 then s\<lparr>ndf_out := ndf_out s @ [n]\<rparr>
        else s\<lparr>nd_buffer := nd_buffer s @ [n], nd_fifoCount := nd_fifoCount s + 1\<rparr>)
     else s)"

subsection \<open>Merging events\<close>

definition rxEventMerger ::
    "extendedEvent fifo \<times> event fifo \<times> extendedEvent fifo \<Rightarrow> extendedEvent fifo \<times> event fifo \<times> extendedEvent fifo" where
  "rxEventMerger = (\<lambda>(in1, in2, out).
     if in1 \<noteq> [] then (tl in1, in2, out @ [hd in1])
     else if in2 \<noteq> [] then (in1, tl in2, out @ [extendedEvent1 (hd in2)])
     else (in1, in2, out))"

subsection \<open>The options of a SYN as a search of 40 bytes\<close>

text \<open>
  What the parser does to the 40 bytes of options, byte by byte: the kinds 0, 1 and 3 are known, any
  other option is passed over by its length, and the search is over where the length equals what is
  left of the count \<open>dataOffset\<close>, which is in words. \<open>None\<close>: an option of length 0, from which
  the parser does not get away. Behind the options there are zeros.
\<close>

definition byte_at :: "byte list \<Rightarrow> nat \<Rightarrow> 8 word" where
  "byte_at bs k = (if k < length bs then bs ! k else 0)"

function scan_options :: "4 word \<Rightarrow> byte list \<Rightarrow> 4 word option" where
  "scan_options d [] = Some 0"
| "scan_options d (kind # bs) =
    (if kind = 0 then Some 0
     else if kind = 1 then scan_options (d - 1) bs
     else if kind = 3 then Some (ucast (byte_at bs 1))
     else if unat d = unat (byte_at bs 0) then Some 0
     else if byte_at bs 0 = 0 then None
     else scan_options (d - ucast (byte_at bs 0)) (drop (unat (byte_at bs 0) - 1) bs))"
  by pat_completeness auto

termination
  by (relation "measure (\<lambda>(d, bs). length bs)") auto

definition option_bytes :: "320 word \<Rightarrow> byte list" where
  "option_bytes f = map (\<lambda>k. ucast (drop_bit (8 * k) f)) [0..<40]"

text \<open>A window scale behind any number of NOPs is found; an MSS option is passed over, unless the count of words is just 4.\<close>

lemma scan_nops: "scan_options d (replicate n 1 @ 3 # l # w # bs) = Some (ucast w)"
  by (induction n arbitrary: d) (simp_all add: byte_at_def)

lemma scan_mss: "scan_options d (2 # 4 # a # b # bs) = (if d = 4 then Some 0 else scan_options (d - 4) bs)"
  using word_unat_eq_iff[of d 4] by (simp add: byte_at_def)

text \<open>The register holds these bytes, with zeros behind them.\<close>

definition holds :: "320 word \<Rightarrow> byte list \<Rightarrow> bool" where
  "holds f bs \<longleftrightarrow> (\<forall>k. (ucast (drop_bit (8 * k) f) :: 8 word) = byte_at bs k)"

lemma holds_bytes: "holds f (option_bytes f)"
  unfolding holds_def
proof
  fix k
  show "(ucast (drop_bit (8 * k) f) :: 8 word) = byte_at (option_bytes f) k"
  proof (cases "k < 40")
    case False
    then have "drop_bit (8 * k) f = 0" using unat_bound[of f]
      by (intro bit_word_eqI) (simp add: bit_drop_bit_eq bit_imp_le_length)
    then show ?thesis using False by (simp add: byte_at_def option_bytes_def)
  qed (simp add: byte_at_def option_bytes_def)
qed

lemma holds_drop: "holds f bs \<Longrightarrow> holds (drop_bit (8 * n) f) (drop n bs)"
proof (unfold holds_def, rule allI)
  fix k
  assume "\<forall>k. (ucast (drop_bit (8 * k) f) :: 8 word) = byte_at bs k"
  then have "(ucast (drop_bit (8 * (n + k)) f) :: 8 word) = byte_at bs (n + k)" by (rule spec)
  moreover have "drop_bit (8 * k) (drop_bit (8 * n) f) = drop_bit (8 * (n + k)) f" by (simp add: add.commute)
  moreover have "byte_at (drop n bs) k = byte_at bs (n + k)" by (auto simp: byte_at_def)
  ultimately show "(ucast (drop_bit (8 * k) (drop_bit (8 * n) f)) :: 8 word) = byte_at (drop n bs) k" by simp
qed

lemma holds_head:
  assumes "holds f (kind # bs)"
  shows "(range_get 7 0 f :: 8 word) = kind" and "(range_get 15 8 f :: 8 word) = byte_at bs 0"
    and "(range_get 19 16 f :: 4 word) = ucast (byte_at bs 1)"
proof -
  have b: "(ucast (drop_bit (8 * k) f) :: 8 word) = byte_at (kind # bs) k" for k using assms by (simp add: holds_def)
  have "(range_get 7 0 f :: 8 word) = ucast (drop_bit (8 * 0) f)" by (intro bit_word_eqI) (simp add: range_get_def bit_simps)
  then show "(range_get 7 0 f :: 8 word) = kind" by (simp only: b) (simp add: byte_at_def)
  have "(range_get 15 8 f :: 8 word) = ucast (drop_bit (8 * 1) f)" by (intro bit_word_eqI) (simp add: range_get_def bit_simps)
  then show "(range_get 15 8 f :: 8 word) = byte_at bs 0" by (simp only: b) (simp add: byte_at_def)
  have "(range_get 19 16 f :: 4 word) = ucast (ucast (drop_bit (8 * 2) f) :: 8 word)"
    by (intro bit_word_eqI) (auto simp: range_get_def bit_simps)
  then show "(range_get 19 16 f :: 4 word) = ucast (byte_at bs 1)" by (simp only: b) (simp add: byte_at_def)
qed

lemma holds_empty:
  assumes "holds f []" shows "(range_get 7 0 f :: 8 word) = 0"
proof -
  have "(range_get 7 0 f :: 8 word) = ucast (drop_bit (8 * 0) f)" by (intro bit_word_eqI) (simp add: range_get_def bit_simps)
  also have "\<dots> = byte_at [] 0" using assms unfolding holds_def by blast
  finally show ?thesis by (simp add: byte_at_def)
qed

text \<open>One call passes over one option, or ends the search.\<close>

definition po_waits :: "po_st \<Rightarrow> po_st \<Rightarrow> bool" where
  "po_waits s t \<longleftrightarrow> po_parse t \<and> pof_windowScale t = pof_windowScale s \<and> pof_dataOffset t = pof_dataOffset s
     \<and> pof_fields t = pof_fields s"

definition po_answers :: "4 word \<Rightarrow> po_st \<Rightarrow> po_st \<Rightarrow> bool" where
  "po_answers w s t \<longleftrightarrow> \<not> po_parse t \<and> pof_windowScale t = pof_windowScale s @ [w] \<and> pof_dataOffset t = pof_dataOffset s
     \<and> pof_fields t = pof_fields s"

lemma po_end:
  assumes "po_parse s" and "(range_get 7 0 (po_fields s) :: 8 word) = 0"
  shows "po_answers 0 s (parse_optional_header_fields s)"
  using assms by (simp add: po_answers_def parse_optional_header_fields_def po_result_def Let_def)

lemma po_pass:
  assumes "po_parse s" and "holds (po_fields s) (kind # bs)" and "kind \<noteq> 0" and "kind \<noteq> 3"
    and "len = (if kind = 1 then 1 else byte_at bs 0)" and "kind = 1 \<or> unat (po_dataOffset s) \<noteq> unat (byte_at bs 0)"
  shows "parse_optional_header_fields s
    = s\<lparr>po_dataOffset := po_dataOffset s - ucast len, po_fields := drop_bit (8 * unat len) (po_fields s)\<rparr>"
  using assms by (auto simp: parse_optional_header_fields_def holds_head[OF assms(2)] Let_def)

lemma po_step:
  assumes "po_parse s" and "holds (po_fields s) (kind # bs)"
  defines "t \<equiv> parse_optional_header_fields s"
  obtains w where "scan_options (po_dataOffset s) (kind # bs) = Some w" and "po_answers w s t"
  | "scan_options (po_dataOffset s) (kind # bs) = None" and "t = s"
  | n where "scan_options (po_dataOffset s) (kind # bs) = scan_options (po_dataOffset t) (drop n bs)"
      and "po_waits s t" and "holds (po_fields t) (drop n bs)"
proof -
  let ?l = "byte_at bs 0" and ?d = "po_dataOffset s"
  note head = holds_head[OF assms(2)]
  consider "kind = 0" | "kind = 1" | "kind = 3" | "kind \<notin> {0, 1, 3}" "unat ?d = unat ?l" 
    | "kind \<notin> {0, 1, 3}" "unat ?d \<noteq> unat ?l" "?l = 0" | "kind \<notin> {0, 1, 3}" "unat ?d \<noteq> unat ?l" "?l \<noteq> 0" by blast
  then show thesis
  proof cases
    case 1
    then show ?thesis using that(1)[of 0] po_end[OF assms(1)] head by (simp add: t_def)
  next
    case 2
    then have t: "t = s\<lparr>po_dataOffset := ?d - ucast (1 :: 8 word), po_fields := drop_bit (8 * 1) (po_fields s)\<rparr>"
      using po_pass[OF assms(1,2), of 1] by (simp add: t_def)
    show ?thesis by (rule that(3)[of 0]) (use 2 t holds_drop[OF assms(2), of 1] assms(1) in \<open>simp_all add: po_waits_def\<close>)
  next
    case 3
    then have "po_answers (ucast (byte_at bs 1)) s t"
      using assms(1) by (simp add: t_def po_answers_def parse_optional_header_fields_def po_result_def head Let_def)
    with 3 show ?thesis using that(1) by simp
  next
    case 4
    then have "po_answers 0 s t"
      using assms(1) by (simp add: t_def po_answers_def parse_optional_header_fields_def po_result_def head Let_def)
    with 4 show ?thesis using that(1) by simp
  next
    case 5
    then have "t = s" using po_pass[OF assms(1,2), of 0] by (simp add: t_def)
    with 5 show ?thesis using that(2) by simp
  next
    case 6
    then have t: "t = s\<lparr>po_dataOffset := ?d - ucast ?l, po_fields := drop_bit (8 * unat ?l) (po_fields s)\<rparr>"
      using po_pass[OF assms(1,2), of ?l] by (simp add: t_def)
    obtain n where n: "unat ?l = Suc n" using 6(3) by (metis not0_implies_Suc unat_eq_zero)
    show ?thesis by (rule that(3)[of n])
      (use 6 t n holds_drop[OF assms(2), of "Suc n"] assms(1) in \<open>simp_all add: po_waits_def\<close>)
  qed
qed

lemma po_waits_trans: "po_waits s t \<Longrightarrow> po_waits t u \<Longrightarrow> po_waits s u"
  by (simp add: po_waits_def)

lemma po_waits_answers: "po_waits s t \<Longrightarrow> po_answers w t u \<Longrightarrow> po_answers w s u"
  by (simp add: po_waits_def po_answers_def)

definition po_settles :: "nat \<Rightarrow> 4 word option \<Rightarrow> po_st \<Rightarrow> bool" where
  "po_settles n res s \<longleftrightarrow> (case res of
      None \<Rightarrow> \<forall>k. po_waits s ((parse_optional_header_fields ^^ k) s)
    | Some w \<Rightarrow> \<exists>k \<le> n. (\<forall>j \<le> k. po_waits s ((parse_optional_header_fields ^^ j) s))
        \<and> po_answers w s ((parse_optional_header_fields ^^ Suc k) s))"

lemma po_settles_now: "po_parse s \<Longrightarrow> po_answers w s (parse_optional_header_fields s) \<Longrightarrow> po_settles n (Some w) s"
  by (auto simp: po_settles_def po_waits_def)

lemma po_settles_mono: "po_settles m res s \<Longrightarrow> m \<le> n \<Longrightarrow> po_settles n res s"
  unfolding po_settles_def by (cases res) (simp, simp only: option.case, meson order_trans)

lemma po_settles_later:
  assumes w: "po_waits s (parse_optional_header_fields s)" and s: "po_settles n res (parse_optional_header_fields s)" and p: "po_parse s"
  shows "po_settles (Suc n) res s"
proof -
  let ?P = parse_optional_header_fields
  have z: "po_waits s ((?P ^^ j) s)" if "\<forall>i \<le> k. po_waits (?P s) ((?P ^^ i) (?P s))" "j \<le> Suc k" for j k
  proof (cases j)
    case (Suc i)
    then have "po_waits (?P s) ((?P ^^ i) (?P s))" using that by simp
    then show ?thesis using po_waits_trans[OF w] by (simp add: Suc funpow_Suc_right del: funpow.simps)
  qed (use p in \<open>simp add: po_waits_def\<close>)
  show ?thesis
  proof (cases res)
    case None
    then have "\<forall>i \<le> k. po_waits (?P s) ((?P ^^ i) (?P s))" for k using s by (simp add: po_settles_def)
    then have "po_waits s ((?P ^^ k) s)" for k by (rule z[where k = k]) simp
    then show ?thesis by (simp only: po_settles_def None option.case) blast
  next
    case (Some w')
    then obtain k where k: "k \<le> n" "\<forall>i \<le> k. po_waits (?P s) ((?P ^^ i) (?P s))" "po_answers w' (?P s) ((?P ^^ Suc k) (?P s))"
      using s by (auto simp: po_settles_def)
    have "(?P ^^ Suc (Suc k)) s = (?P ^^ Suc k) (?P s)" by (simp only: funpow_Suc_right comp_apply)
    then have "po_answers w' s ((?P ^^ Suc (Suc k)) s)" using po_waits_answers[OF w k(3)] by (simp only:)
    moreover have "\<forall>j \<le> Suc k. po_waits s ((?P ^^ j) s)" using z[OF k(2)] by blast
    moreover have "Suc k \<le> Suc n" using k(1) by simp
    ultimately show ?thesis unfolding po_settles_def Some option.case by blast
  qed
qed

lemma scan_run:
  assumes "po_parse s" and "holds (po_fields s) bs"
  shows "po_settles (length bs) (scan_options (po_dataOffset s) bs) s"
  using assms
proof (induction bs arbitrary: s rule: length_induct)
  case (1 xs)
  have IH: "po_settles (length ys) (scan_options (po_dataOffset x) ys) x"
    if "length ys < length xs" "po_parse x" "holds (po_fields x) ys" for ys x using 1(1) that by blast
  show ?case
  proof (cases xs)
    case Nil
    then show ?thesis using po_settles_now[OF 1(2)] po_end[OF 1(2)] holds_empty 1(3) by simp
  next
    case (Cons kind bs)
    have h: "holds (po_fields s) (kind # bs)" using 1(3) Cons by simp
    show ?thesis using 1(2) h
    proof (cases rule: po_step)
      case (1 w)
      then show ?thesis using po_settles_now[OF "1.prems"(1)] Cons by simp
    next
      case 2
      then have "(parse_optional_header_fields ^^ k) s = s" for k by (induction k) simp_all
      then show ?thesis using 2 "1.prems"(1) Cons by (simp add: po_settles_def po_waits_def)
    next
      case (3 n)
      have "po_settles (length (drop n bs)) (scan_options (po_dataOffset s) xs) (parse_optional_header_fields s)"
        unfolding Cons 3(1) by (rule IH) (use 3 Cons in \<open>simp_all add: po_waits_def\<close>)
      from po_settles_later[OF 3(2) this "1.prems"(1)]
      show ?thesis by (rule po_settles_mono) (simp add: Cons)
    qed
  qed
qed


definition po_ex :: "4 word \<Rightarrow> 320 word \<Rightarrow> po_st" where
  "po_ex d f = \<lparr>po_parse = False, po_dataOffset = 0, po_fields = 0, pof_dataOffset = [d], pof_fields = [f], pof_windowScale = []\<rparr>"

lemma scan_ex: "scan_options 3 (option_bytes 0x0703030101) = Some 7"
  by (simp add: option_bytes_def upt_rec byte_at_def)


text \<open>An option of length 0 holds the parser up, and with it the receive engine.\<close>

lemma zero_option_stuck: "scan_options 2 (option_bytes 0x0002) = None"
  by (simp add: option_bytes_def upt_rec byte_at_def)

text \<open>
  The number of bytes of the options is compared in words of four: with 16 bytes of options the
  parser takes a leading MSS option of four bytes for all of them, and misses the window scale.
\<close>

lemma option_parser_units: "scan_options 4 (option_bytes 0x0703030100100402) = Some 0"
  by (simp add: option_bytes_def upt_rec byte_at_def)


subsection \<open>Exactly the wanted payloads pass\<close>

text \<open>A payload with its decisions: the words of a packet, dropped by the first, or else by the second.\<close>

definition whole_packet :: "net_axis list \<Rightarrow> bool" where
  "whole_packet ws \<longleftrightarrow> ws \<noteq> [] \<and> ax_last (last ws) \<and> list_all (\<lambda>w. \<not> ax_last w) (butlast ws)"

lemma whole_packet_Cons:
  "whole_packet (w # ws) \<longleftrightarrow> (if ws = [] then ax_last w else \<not> ax_last w \<and> whole_packet ws)"
  by (auto simp: whole_packet_def)

lemma pd_words:
  assumes "whole_packet ws" and "pdf_dataIn s = ws @ rest" and "tpf_state s = (if d then PD_DROP else PD_FWD)"
  shows "(rxPackageDropper ^^ length ws) s = s\<lparr>tpf_state := READ_DROP1, pdf_dataIn := rest,
      pdf_dataOut := pdf_dataOut s @ (if d then [] else ws)\<rparr>"
  using assms
proof (induction ws arbitrary: s)
  case (Cons w ws)
  let ?t = "rxPackageDropper s"
  have t: "?t = s\<lparr>pdf_dataIn := ws @ rest, tpf_state := (if ax_last w then READ_DROP1 else tpf_state s),
      pdf_dataOut := pdf_dataOut s @ (if d then [] else [w])\<rparr>"
    using Cons.prems by (cases d) (simp_all add: rxPackageDropper_def)
  show ?case
  proof (cases "ws = []")
    case True
    then show ?thesis using Cons.prems t by (simp add: whole_packet_Cons)
  next
    case False
    then have "\<not> ax_last w" "whole_packet ws" using Cons.prems(1) by (simp_all add: whole_packet_Cons)
    then show ?thesis using Cons.IH[of ?t] Cons.prems(3) t
      by (simp add: funpow_Suc_right del: funpow.simps)
  qed
qed (simp add: whole_packet_def)

type_synonym decided = "bool \<times> bool \<times> net_axis list"

definition payload :: "decided \<Rightarrow> net_axis list" where "payload = (\<lambda>(_, _, ws). ws)"
definition second :: "decided \<Rightarrow> bool" where "second = (\<lambda>(_, d2, _). d2)"

lemma payload_second [simp]: "payload (d1, d2, ws) = ws" "second (d1, d2, ws) = d2"
  by (simp_all add: payload_def second_def)

definition wanted :: "decided \<Rightarrow> bool" where
  "wanted = (\<lambda>(d1, d2, _). \<not> d1 \<and> \<not> d2)"

definition pd_calls :: "decided list \<Rightarrow> nat" where
  "pd_calls ps = sum_list (map (\<lambda>(d1, _, ws). length ws + (if d1 then 1 else 2)) ps)"

lemma pd_one:
  assumes "tpf_state s = READ_DROP1" and "pdf_drop1 s = d1 # e1" and "pdf_drop2 s = (if d1 then e2 else d2 # e2)"
    and "pdf_dataIn s = ws @ rest" and "whole_packet ws"
  shows "(rxPackageDropper ^^ (length ws + (if d1 then 1 else 2))) s = s\<lparr>pdf_drop1 := e1, pdf_drop2 := e2,
      pdf_dataIn := rest, pdf_dataOut := pdf_dataOut s @ (if d1 \<or> d2 then [] else ws)\<rparr>"
proof -
  define t where "t = (rxPackageDropper ^^ (if d1 then 1 else 2)) s"
  have t: "t = s\<lparr>pdf_drop1 := e1, pdf_drop2 := e2, tpf_state := (if d1 \<or> d2 then PD_DROP else PD_FWD)\<rparr>"
    unfolding t_def using assms(1-3) by (cases d1) (simp_all add: rxPackageDropper_def numeral_2_eq_2)
  have "(rxPackageDropper ^^ length ws) t = t\<lparr>tpf_state := READ_DROP1, pdf_dataIn := rest,
      pdf_dataOut := pdf_dataOut t @ (if d1 \<or> d2 then [] else ws)\<rparr>"
    by (rule pd_words[OF assms(5)]) (simp_all add: t assms(4))
  then show ?thesis using assms(1) by (simp add: funpow_add t_def[symmetric]) (simp add: t)
qed

text \<open>C20. Given the two streams of decisions, the second holding one only for payloads that the first lets
  pass, the dropper ends after the calls that read them and has passed on exactly the payloads that
  neither decision drops, whole and in order.\<close>

theorem dropper_exact:
  assumes "tpf_state s = READ_DROP1" and "list_all (\<lambda>(_, _, ws). whole_packet ws) ps"
    and "pdf_drop1 s = map fst ps" and "pdf_drop2 s = map second (filter (\<lambda>(d1, _). \<not> d1) ps)"
    and "pdf_dataIn s = concat (map payload ps)"
  shows "(rxPackageDropper ^^ pd_calls ps) s = s\<lparr>pdf_drop1 := [], pdf_drop2 := [], pdf_dataIn := [],
      pdf_dataOut := pdf_dataOut s @ concat (map payload (filter wanted ps))\<rparr>"
  using assms
proof (induction ps arbitrary: s)
  case (Cons p ps)
  obtain d1 d2 ws where p: "p = (d1, d2, ws)" by (cases p)
  define n where "n = length ws + (if d1 then 1 else 2)"
  define e2 where "e2 = map second (filter (\<lambda>(d1, _). \<not> d1) ps)"
  let ?t = "s\<lparr>pdf_drop1 := map fst ps, pdf_drop2 := e2, pdf_dataIn := concat (map payload ps),
      pdf_dataOut := pdf_dataOut s @ (if d1 \<or> d2 then [] else ws)\<rparr>"
  have t: "(rxPackageDropper ^^ n) s = ?t"
    unfolding n_def by (rule pd_one) (use Cons.prems in \<open>simp_all add: p e2_def\<close>)
  have "(rxPackageDropper ^^ pd_calls ps) ?t = ?t\<lparr>pdf_drop1 := [], pdf_drop2 := [], pdf_dataIn := [],
      pdf_dataOut := pdf_dataOut ?t @ concat (map payload (filter wanted ps))\<rparr>"
    by (rule Cons.IH) (use Cons.prems in \<open>simp_all add: e2_def\<close>)
  moreover have "pd_calls (p # ps) = pd_calls ps + n" by (simp add: pd_calls_def p n_def)
  ultimately show ?case using Cons.prems(1) by (simp add: funpow_add t wanted_def p)
qed (simp add: pd_calls_def)

definition word_at :: "byte \<Rightarrow> bool \<Rightarrow> net_axis" where
  "word_at b l = \<lparr>ax_lanes = [(b, True)], ax_last = l\<rparr>"

definition pd_ex :: pd_st where
  "pd_ex = \<lparr>tpf_state = READ_DROP1, pdf_dataIn = [word_at 1 True, word_at 2 False, word_at 3 True],
     pdf_drop1 = [True, False], pdf_drop2 = [False], pdf_dataOut = []\<rparr>"

lemma dropper_exact_witness:
  "pdf_dataOut ((rxPackageDropper ^^ 6) pd_ex) = [word_at 2 False, word_at 3 True]"
proof -
  let ?ps = "[(True, False, [word_at 1 True]), (False, False, [word_at 2 False, word_at 3 True])]"
  have six: "pd_calls ?ps = 6" by (simp add: pd_calls_def)
  show ?thesis using dropper_exact[of pd_ex ?ps] unfolding six
    by (simp add: pd_ex_def whole_packet_Cons word_at_def wanted_def del: funpow.simps)
qed

subsection \<open>Only confirmed data is notified\<close>

text \<open>
  The specification: each notification that waits for the memory takes the flag of its write and one
  or two confirmations, and is delivered if they are good and it announces data.
\<close>

definition waits :: "appNotification \<Rightarrow> bool" where
  "waits n \<longleftrightarrow> \<not> (an_closed n \<and> an_length n = 0)"

definition rel :: "bool \<Rightarrow> appNotification \<Rightarrow> appNotification list" where
  "rel ok n = (if ok \<and> an_length n \<noteq> 0 then [n] else [])"

fun deliver :: "appNotification list \<Rightarrow> bool list \<Rightarrow> mmStatus list \<Rightarrow> appNotification list" where
  "deliver (n # ns) (False # ds) (x # xs) = rel (ms_okay x) n @ deliver ns ds xs"
| "deliver (n # ns) (True # ds) (x # y # xs) = rel (ms_okay x \<and> ms_okay y) n @ deliver ns ds xs"
| "deliver _ _ _ = []"

text \<open>What is delivered already and what will be, given the inputs still to come.\<close>

definition nd_total :: "nd_st \<Rightarrow> appNotification list \<Rightarrow> bool list \<Rightarrow> mmStatus list \<Rightarrow> appNotification list" where
  "nd_total s ns ds xs =
    (let ns = nd_buffer s @ filter waits (ndf_note s @ ns); ds = ndf_double s @ ds; xs = ndf_status s @ xs in
     filter waits (ndf_out s) @
       (if nd_double s then (case xs of [] \<Rightarrow> []
          | y # ys \<Rightarrow> rel (ms_okay (nd_status1 s) \<and> ms_okay y) (nd_note s) @ deliver ns ds ys)
        else deliver ns ds xs))"

lemma filter_waits_rel [simp]: "filter waits (rel ok n) = rel ok n"
  by (simp add: rel_def waits_def)

lemma nd_release_out [simp]:
  "nd_release ok s = s\<lparr>ndf_out := ndf_out s @ rel ok (nd_note s)\<rparr>"
  by (simp add: nd_release_def rel_def)

lemma nd_total_call: "nd_total (rxAppNotificationDelayer s) ns ds xs = nd_total s ns ds xs"
proof (cases "nd_double s")
  case True
  then show ?thesis by (cases "ndf_status s") (simp_all add: rxAppNotificationDelayer_def nd_total_def Let_def)
next
  case single: False
  show ?thesis
  proof (cases "ndf_status s \<noteq> [] \<and> nd_buffer s \<noteq> [] \<and> ndf_double s \<noteq> []")
    case True
    then obtain x sx n sn d sd where "ndf_status s = x # sx" "nd_buffer s = n # sn" "ndf_double s = d # sd"
      by (meson neq_Nil_conv)
    then show ?thesis using single
      by (cases d; cases "sx @ xs") (simp_all add: rxAppNotificationDelayer_def nd_total_def Let_def)
  next
    case False
    then show ?thesis using single
      by (cases "ndf_note s") (auto simp: rxAppNotificationDelayer_def nd_total_def Let_def waits_def)
  qed
qed

definition nd_room :: "nd_st \<Rightarrow> bool" where
  "nd_room s \<longleftrightarrow> unat (nd_fifoCount s) = length (nd_buffer s) + of_bool (nd_double s) \<and> length (nd_buffer s) \<le> 31"

lemma nd_room_call:
  assumes "nd_room s"
  shows "nd_room (rxAppNotificationDelayer s)"
proof -
  have dec: "unat (c - 1) = unat c - 1" if "0 < unat c" for c :: "5 word"
    using that by (simp add: unat_sub word_le_nat_alt)
  have inc: "unat (c + 1) = unat c + 1" if "c < 31" for c :: "5 word"
    using that by (simp add: unat_add_mod word_less_nat_alt)
  show ?thesis using assms
    by (auto simp: nd_room_def rxAppNotificationDelayer_def Let_def dec inc word_less_nat_alt neq_Nil_conv)
qed

datatype nd_event = Nd_call | Nd_note appNotification | Nd_double bool | Nd_status mmStatus

fun nd_step :: "nd_event \<Rightarrow> nd_st \<Rightarrow> nd_st" where
  "nd_step Nd_call s = rxAppNotificationDelayer s"
| "nd_step (Nd_note n) s = s\<lparr>ndf_note := ndf_note s @ [n]\<rparr>"
| "nd_step (Nd_double d) s = s\<lparr>ndf_double := ndf_double s @ [d]\<rparr>"
| "nd_step (Nd_status x) s = s\<lparr>ndf_status := ndf_status s @ [x]\<rparr>"

definition nd_notes :: "nd_event list \<Rightarrow> appNotification list" where
  "nd_notes es = List.map_filter (\<lambda>e. case e of Nd_note n \<Rightarrow> Some n | _ \<Rightarrow> None) es"

definition nd_flags :: "nd_event list \<Rightarrow> bool list" where
  "nd_flags es = List.map_filter (\<lambda>e. case e of Nd_double n \<Rightarrow> Some n | _ \<Rightarrow> None) es"

definition nd_statuses :: "nd_event list \<Rightarrow> mmStatus list" where
  "nd_statuses es = List.map_filter (\<lambda>e. case e of Nd_status n \<Rightarrow> Some n | _ \<Rightarrow> None) es"

lemmas nd_inputs = nd_notes_def nd_flags_def nd_statuses_def List.map_filter_simps

lemma nd_total_put:
  "nd_total (s\<lparr>ndf_note := ndf_note s @ [n]\<rparr>) ns ds xs = nd_total s (n # ns) ds xs"
  "nd_total (s\<lparr>ndf_double := ndf_double s @ [d]\<rparr>) ns ds xs = nd_total s ns (d # ds) xs"
  "nd_total (s\<lparr>ndf_status := ndf_status s @ [x]\<rparr>) ns ds xs = nd_total s ns ds (x # xs)"
  by (simp_all add: nd_total_def Let_def cong: list.case_cong)

lemma nd_total_run:
  "nd_total (fold nd_step es s) [] [] [] = nd_total s (nd_notes es) (nd_flags es) (nd_statuses es)"
proof (induction es arbitrary: s)
  case (Cons e es)
  show ?case using Cons.IH[of "nd_step e s"]
    by (cases e) (simp_all add: nd_inputs nd_total_call nd_total_put)
qed (simp add: nd_inputs)

interpretation nd: reactive nd_step nd_room "\<lambda>_. True"
proof
  fix s e assume "nd_room s"
  then show "nd_room (nd_step e s)" by (cases e) (simp_all add: nd_room_call, simp_all add: nd_room_def)
qed

definition nd_start :: "nd_st \<Rightarrow> nd_st" where
  "nd_start s = s\<lparr>nd_double := False, nd_fifoCount := 0, nd_buffer := [], ndf_status := [], ndf_note := [],
     ndf_out := [], ndf_double := []\<rparr>"

text \<open>C21. In every run of the notification delayer, what the application has been told of received data is
  a beginning of the notifications whose memory writes, one or two as the flag says, are all confirmed,
  in order; the buffer of 32 places never overflows.\<close>

theorem notifications_confirmed:
  "let t = fold nd_step es (nd_start s) in
     prefix (filter waits (ndf_out t)) (deliver (filter waits (nd_notes es)) (nd_flags es) (nd_statuses es))
     \<and> length (nd_buffer t) < 32"
proof -
  have "nd_total (fold nd_step es (nd_start s)) [] [] []
      = deliver (filter waits (nd_notes es)) (nd_flags es) (nd_statuses es)"
    unfolding nd_total_run by (simp add: nd_total_def nd_start_def)
  then have "prefix (filter waits (ndf_out (fold nd_step es (nd_start s))))
      (deliver (filter waits (nd_notes es)) (nd_flags es) (nd_statuses es))"
    unfolding nd_total_def Let_def by (metis prefixI)
  moreover have "nd_room (fold nd_step es (nd_start s))"
    by (rule nd.inv_run) (simp_all add: nd_room_def nd_start_def)
  ultimately show ?thesis by (simp add: Let_def nd_room_def)
qed

text \<open>A notification that the connection is closed does not wait, and overtakes the data before it.\<close>

lemma closing_overtakes:
  assumes "an_length n \<noteq> 0"
  shows "ndf_out (fold nd_step [Nd_note n, Nd_note (appNotification_closed2 7 True), Nd_call, Nd_call] (nd_start s))
    = [appNotification_closed2 7 True]"
  using assms by (simp add: rxAppNotificationDelayer_def nd_start_def appNotification_closed2_def Let_def)

end
