(* ===== verification/Tx_Stitch.thy ===== *)
theory Tx_Stitch
  imports Axis_Words
begin

text \<open>
  The payload path of \<^verbatim>\<open>toe/tx_engine/tx_engine.cpp\<close>: \<open>read_data_stitching\<close> joins the two packets that
  the memory returns for a segment that runs over the end of its buffer, \<open>read_data_arbiter\<close> takes the
  payload of a segment from the memory or straight from the application, and \<open>remove_pseudo_header\<close>
  drops the word of the pseudo header on 64-bit streams.
\<close>

subsection \<open>Stitching\<close>

datatype rs_fsm = RS_IDLE | FIRST_PART | STITCH | ATTACH_ALIGNED | RS_RESIDUE

record rs_st =
  rs_state :: rs_fsm
  rs_prev :: net_axis
  rs_needsMerge :: bool
  rs_offset :: "8 word"
  rsf_merge :: "bool fifo"
  rsf_in :: "net_axis fifo"
  rsf_out :: "net_axis fifo"

text \<open>The \<^verbatim>\<open>keep\<close> bits of a word as a number.\<close>

definition keep_bits :: "net_axis \<Rightarrow> 64 word" where
  "keep_bits w = horner_sum of_bool 2 (map snd (ax_lanes w))"

text \<open>A word of the first packet; the code has this block in the states \<^verbatim>\<open>IDLE\<close> and \<^verbatim>\<open>FIRST_PART\<close>.\<close>

definition rs_first :: "nat \<Rightarrow> net_axis \<Rightarrow> rs_st \<Rightarrow> rs_st" where
  "rs_first W w s =
    (let s = s\<lparr>rs_offset := keepToLen (keep_bits w)\<rparr> in
     if ax_last w then
       (if rs_needsMerge s then
          (let w = w\<lparr>ax_last := False\<rparr>; s = s\<lparr>rs_prev := w\<rparr> in
           if \<not> keep_at (W - 1) w then s\<lparr>rs_state := STITCH\<rparr>
           else s\<lparr>rsf_out := rsf_out s @ [w], rs_state := ATTACH_ALIGNED\<rparr>)
        else s\<lparr>rsf_out := rsf_out s @ [w], rs_state := RS_IDLE, rs_prev := w\<rparr>)
     else s\<lparr>rsf_out := rsf_out s @ [w], rs_state := FIRST_PART, rs_prev := w\<rparr>)"

text \<open>A word of the second packet behind \<open>off\<close> bytes that wait.\<close>

definition rs_stitch :: "nat \<Rightarrow> net_axis \<Rightarrow> rs_st \<Rightarrow> rs_st" where
  "rs_stitch W w s =
    (let off = unat (rs_offset s); p = ax_lanes (rs_prev s); c = ax_lanes w;
         end = \<not> keep_at (W - off) w in
     s\<lparr>rsf_out := rsf_out s @ [\<lparr>ax_lanes = take off p @ take (W - off) c, ax_last = end\<rparr>],
       rs_prev := (rs_prev s)\<lparr>ax_lanes := drop (W - off) c @ drop off p\<rparr>,
       rs_state := (if ax_last w then (if end then RS_IDLE else RS_RESIDUE) else STITCH)\<rparr>)"

definition read_data_stitching :: "nat \<Rightarrow> rs_st \<Rightarrow> rs_st" where
  "read_data_stitching W s =
    (case rs_state s of
       RS_IDLE \<Rightarrow>
         (if rsf_merge s \<noteq> [] \<and> rsf_in s \<noteq> [] then
            rs_first W (hd (rsf_in s)) (s\<lparr>rs_needsMerge := hd (rsf_merge s), rsf_merge := tl (rsf_merge s),
              rsf_in := tl (rsf_in s)\<rparr>)
          else s)
     | FIRST_PART \<Rightarrow>
         (if rsf_in s \<noteq> [] then rs_first W (hd (rsf_in s)) (s\<lparr>rsf_in := tl (rsf_in s)\<rparr>) else s)
     | ATTACH_ALIGNED \<Rightarrow>
         (if rsf_in s \<noteq> [] then
            (let w = hd (rsf_in s) in
             s\<lparr>rsf_in := tl (rsf_in s), rsf_out := rsf_out s @ [w],
               rs_state := (if ax_last w then RS_IDLE else ATTACH_ALIGNED)\<rparr>)
          else s)
     | STITCH \<Rightarrow>
         (if rsf_in s \<noteq> [] then rs_stitch W (hd (rsf_in s)) (s\<lparr>rsf_in := tl (rsf_in s)\<rparr>) else s)
     | RS_RESIDUE \<Rightarrow>
         (let off = unat (rs_offset s) in
          s\<lparr>rsf_out := rsf_out s @ [\<lparr>ax_lanes = take off (ax_lanes (rs_prev s)) @ replicate (W - off) (0, False),
                                    ax_last = True\<rparr>],
            rs_state := RS_IDLE\<rparr>))"

subsection \<open>Memory or application\<close>

record ar_st =
  ar_state :: "2 word"
  arf_mem :: "net_axis fifo"
  arf_bypass :: "bool fifo"
  arf_app :: "net_axis fifo"
  arf_out :: "net_axis fifo"

definition read_data_arbiter :: "ar_st \<Rightarrow> ar_st" where
  "read_data_arbiter s =
    (if ar_state s = 0 then
       (if arf_bypass s \<noteq> [] then
          s\<lparr>arf_bypass := tl (arf_bypass s), ar_state := (if hd (arf_bypass s) then 2 else 1)\<rparr>
        else s)
     else if ar_state s = 1 then
       (if arf_mem s \<noteq> [] then
          (let w = hd (arf_mem s) in
           s\<lparr>arf_mem := tl (arf_mem s), arf_out := arf_out s @ [w], ar_state := (if ax_last w then 0 else 1)\<rparr>)
        else s)
     else if ar_state s = 2 then
       (if arf_app s \<noteq> [] then
          (let w = hd (arf_app s) in
           s\<lparr>arf_app := tl (arf_app s), arf_out := arf_out s @ [w], ar_state := (if ax_last w then 0 else 2)\<rparr>)
        else s)
     else s)"

record ph_st =
  ph_firstWord :: bool
  phf_in :: "net_axis fifo"
  phf_out :: "net_axis fifo"

definition remove_pseudo_header :: "nat \<Rightarrow> ph_st \<Rightarrow> ph_st" where
  "remove_pseudo_header W s =
    (if phf_in s \<noteq> [] then
       (let w = hd (phf_in s) in
        s\<lparr>phf_in := tl (phf_in s),
          phf_out := (if \<not> ph_firstWord s \<or> 64 < 8 * W then phf_out s @ [w] else phf_out s),
          ph_firstWord := ax_last w\<rparr>)
     else s)"

subsection \<open>The bytes that are kept\<close>

lemma keep_bits_last:
  assumes "packet W [w] bs" and "W \<le> 64"
  shows "keep_bits w = mask (length bs)"
proof -
  have p: "take (length bs) (ax_lanes w) = map (\<lambda>b. (b, True)) bs" "length bs \<le> W"
    "map snd (drop (length bs) (ax_lanes w)) = replicate (W - length bs) False"
    using assms(1) by (simp_all add: packet_single)
  have "ax_lanes w = map (\<lambda>b. (b, True)) bs @ drop (length bs) (ax_lanes w)"
    using p(1) by (metis append_take_drop_id)
  then have "map snd (ax_lanes w) = map snd (map (\<lambda>b. (b, True)) bs @ drop (length bs) (ax_lanes w))" by (rule arg_cong)
  also have "\<dots> = replicate (length bs) True @ replicate (W - length bs) False"
    using p(3) by (simp add: map_replicate_const comp_def)
  finally have "bit (keep_bits w) n \<longleftrightarrow> n < length bs" if "n < 64" for n
    using that p(2) by (simp add: keep_bits_def bit_horner_sum_bit_word_iff nth_append)
  then show ?thesis by (intro bit_word_eqI) (simp add: bit_simps)
qed

lemma kept_length:
  assumes "packet W [w] bs" and "W \<le> 64"
  shows "unat (keepToLen (keep_bits w)) = length bs"
proof -
  have "0 < length bs" "length bs \<le> 64" using assms by (auto simp: packet_single)
  then show ?thesis using keep_bits_last[OF assms] by (simp add: keepToLen_mask unat_of_nat)
qed

text \<open>Full words that do not end a packet.\<close>

fun fulls :: "nat \<Rightarrow> net_axis list \<Rightarrow> byte list \<Rightarrow> bool" where
  "fulls W [] bs \<longleftrightarrow> bs = []"
| "fulls W (w # ws) bs \<longleftrightarrow> \<not> ax_last w \<and> W \<le> length bs \<and> ax_lanes w = map (\<lambda>b. (b, True)) (take W bs)
     \<and> fulls W ws (drop W bs)"

lemma fulls_packet:
  assumes "fulls W as bs" and "packet W ws cs"
  shows "packet W (as @ ws) (bs @ cs)"
  using assms(1)
proof (induction as arbitrary: bs)
  case (Cons a as)
  have ne: "as @ ws \<noteq> []" "cs \<noteq> []" using packet_nonempty[OF assms(2)] by simp_all
  have "W < length bs + length cs" using Cons.prems ne(2) by (cases cs) auto
  then show ?case using Cons ne by (simp add: packet_cons)
qed (use assms(2) in simp)

lemma fulls_snoc:
  "fulls W as bs \<Longrightarrow> \<not> ax_last w \<Longrightarrow> length cs = W \<Longrightarrow> ax_lanes w = map (\<lambda>b. (b, True)) cs
    \<Longrightarrow> fulls W (as @ [w]) (bs @ cs)"
  by (induction as arbitrary: bs) auto

subsection \<open>The second packet\<close>

definition rs_done :: "rs_st \<Rightarrow> net_axis list \<Rightarrow> net_axis list \<Rightarrow> rs_st \<Rightarrow> bool" where
  "rs_done s rest out s' \<longleftrightarrow> rs_state s' = RS_IDLE \<and> rsf_in s' = rest \<and> rsf_merge s' = rsf_merge s
     \<and> rsf_out s' = rsf_out s @ out"

lemma attach_phase:
  assumes "packet W ws bs" and "rs_state s = ATTACH_ALIGNED" and "rsf_in s = ws @ rest"
  shows "rs_done s rest ws ((read_data_stitching W ^^ length ws) s)"
  using assms
proof (induction ws arbitrary: s bs)
  case (Cons w ws)
  let ?t = "read_data_stitching W s"
  have t: "?t = s\<lparr>rsf_in := ws @ rest, rsf_out := rsf_out s @ [w],
      rs_state := (if ax_last w then RS_IDLE else ATTACH_ALIGNED)\<rparr>"
    using Cons.prems by (simp add: read_data_stitching_def Let_def)
  show ?case
  proof (cases "ws = []")
    case True
    then show ?thesis using Cons.prems(1) t by (simp add: packet_single rs_done_def)
  next
    case False
    then have "\<not> ax_last w" "packet W ws (drop W bs)" using Cons.prems(1) by (simp_all add: packet_cons)
    then show ?thesis using Cons.IH[of "drop W bs" ?t] t
      by (simp add: funpow_Suc_right rs_done_def del: funpow.simps)
  qed
qed simp

lemma residue_word:
  assumes "take off p = map (\<lambda>b. (b, True)) bs @ us" and "map snd us = replicate (off - length bs) False"
    and "bs \<noteq> []" and "length bs \<le> off" and "off \<le> W" and "off \<le> length p"
  shows "packet W [\<lparr>ax_lanes = take off p @ replicate (W - off) (0, False), ax_last = True\<rparr>] bs"
proof -
  have "length us = off - length bs" using arg_cong[OF assms(2), of length] by simp
  then show ?thesis using assms by (simp add: packet_single flip: replicate_add)
qed

text \<open>One word of the second packet.\<close>

definition rs_sent :: "nat \<Rightarrow> nat \<Rightarrow> net_axis \<Rightarrow> net_axis \<Rightarrow> net_axis" where
  "rs_sent W off p w = \<lparr>ax_lanes = take off (ax_lanes p) @ take (W - off) (ax_lanes w), ax_last = \<not> keep_at (W - off) w\<rparr>"

lemma stitch_step:
  assumes "rs_state s = STITCH" and "rsf_in s = w # ws" and "t = read_data_stitching W s" and "off = unat (rs_offset s)"
  shows "rsf_in t = ws" and "rsf_out t = rsf_out s @ [rs_sent W off (rs_prev s) w]"
    and "ax_lanes (rs_prev t) = drop (W - off) (ax_lanes w) @ drop off (ax_lanes (rs_prev s))"
    and "rs_state t = (if ax_last w then (if \<not> keep_at (W - off) w then RS_IDLE else RS_RESIDUE) else STITCH)"
    and "rs_offset t = rs_offset s" and "rsf_merge t = rsf_merge s"
  using assms by (simp_all add: read_data_stitching_def rs_stitch_def rs_sent_def Let_def)

lemma residue_step:
  assumes "rs_state s = RS_RESIDUE"
  shows "read_data_stitching W s = s\<lparr>rsf_out := rsf_out s @ [\<lparr>ax_lanes = take (unat (rs_offset s)) (ax_lanes (rs_prev s))
      @ replicate (W - unat (rs_offset s)) (0, False), ax_last = True\<rparr>], rs_state := RS_IDLE\<rparr>"
  using assms by (simp add: read_data_stitching_def Let_def)

lemma stitch_end:
  assumes "packet W [w] bs" and "length bs \<le> W - off" and "off < W"
    and "take off (ax_lanes p) = map (\<lambda>b. (b, True)) cs" and "length cs = off" and "\<not> keep_at (W - off) w"
  shows "packet W [rs_sent W off p w] (cs @ bs)"
proof -
  have p: "bs \<noteq> []" "take (length bs) (ax_lanes w) = map (\<lambda>b. (b, True)) bs"
    "map snd (drop (length bs) (ax_lanes w)) = replicate (W - length bs) False"
    using assms(1) by (simp_all add: packet_single)
  have split: "ax_lanes w = map (\<lambda>b. (b, True)) bs @ drop (length bs) (ax_lanes w)"
    using p(2) by (metis append_take_drop_id)
  have "take (W - off) (ax_lanes w) = map (\<lambda>b. (b, True)) bs @ take (W - off - length bs) (drop (length bs) (ax_lanes w))"
    using assms(2) by (subst split) simp
  moreover have "map snd (take (W - off - length bs) (drop (length bs) (ax_lanes w))) = replicate (W - off - length bs) False"
    using arg_cong[OF p(3), of "take (W - off - length bs)"] by (simp add: take_map min_def)
  ultimately show ?thesis using assms p(1) by (simp add: packet_single rs_sent_def)
qed

lemma stitch_full:
  assumes "take (W - off) (ax_lanes w) = map (\<lambda>b. (b, True)) (take (W - off) bs)" and "W - off \<le> length bs"
    and "off < W" and "take off (ax_lanes p) = map (\<lambda>b. (b, True)) cs" and "length cs = off" and "keep_at (W - off) w"
  shows "fulls W [rs_sent W off p w] (cs @ take (W - off) bs)"
  using assms by (simp add: rs_sent_def min_def)

lemma rs_done_step:
  assumes "t = read_data_stitching W s" and "rsf_out t = rsf_out s @ [o1]" and "rsf_merge t = rsf_merge s"
    and "rs_done t rest out ((read_data_stitching W ^^ k) t)"
  shows "rs_done s rest (o1 # out) ((read_data_stitching W ^^ Suc k) s)"
  using assms by (simp add: funpow_Suc_right rs_done_def del: funpow.simps)

lemma stitch_last:
  assumes "packet W [w] bs" and "rs_state s = STITCH" and "rsf_in s = w # rest"
    and "unat (rs_offset s) = off" and "0 < off" and "off < W" and "length (ax_lanes (rs_prev s)) = W"
    and "take off (ax_lanes (rs_prev s)) = map (\<lambda>b. (b, True)) cs"
  shows "\<exists>k \<le> 2. \<exists>out. rs_done s rest out ((read_data_stitching W ^^ k) s) \<and> packet W out (cs @ bs)"
proof -
  define t where "t = read_data_stitching W s"
  define o1 where "o1 = rs_sent W off (rs_prev s) w"
  note step = stitch_step[OF assms(2,3) t_def assms(4)[symmetric]]
  have cs: "length cs = off" using arg_cong[OF assms(8), of length] assms(6,7) by simp
  have p: "ax_last w" "length bs \<le> W" "take (length bs) (ax_lanes w) = map (\<lambda>b. (b, True)) bs"
    "map snd (drop (length bs) (ax_lanes w)) = replicate (W - length bs) False"
    using assms(1) by (simp_all add: packet_single)
  have keep: "keep_at (W - off) w \<longleftrightarrow> W - off < length bs"
    by (rule packet_keep[OF assms(1)]) (use assms(5,6) in simp)
  show ?thesis
  proof (cases "W - off < length bs")
    case False
    then have k: "\<not> keep_at (W - off) w" and le: "length bs \<le> W - off" using keep by simp_all
    have "packet W [o1] (cs @ bs)"
      unfolding o1_def by (rule stitch_end[OF assms(1) le assms(6,8) cs k])
    moreover have "rs_done t rest [] ((read_data_stitching W ^^ 0) t)"
      using step(1,4) p(1) k by (simp add: rs_done_def)
    then have "rs_done s rest [o1] ((read_data_stitching W ^^ Suc 0) s)"
      by (rule rs_done_step[OF t_def step(2)[folded o1_def] step(6)])
    ultimately show ?thesis by (intro exI[of _ "Suc 0"] conjI exI[of _ "[o1]"]) simp_all
  next
    case True
    then have k: "keep_at (W - off) w" using keep by simp
    define o2 where "o2 = \<lparr>ax_lanes = take off (ax_lanes (rs_prev t)) @ replicate (W - off) (0, False), ax_last = True\<rparr>"
    have split: "ax_lanes w = map (\<lambda>b. (b, True)) bs @ drop (length bs) (ax_lanes w)"
      using p(3) by (metis append_take_drop_id)
    have "drop (W - off) (ax_lanes w) = map (\<lambda>b. (b, True)) (drop (W - off) bs) @ drop (length bs) (ax_lanes w)"
      using True by (subst split) (simp add: drop_map)
    moreover have len: "length (ax_lanes w) = W" using assms(1) by (rule packet_lanes)
    ultimately have "take off (ax_lanes (rs_prev t)) = map (\<lambda>b. (b, True)) (drop (W - off) bs) @ drop (length bs) (ax_lanes w)"
      using step(3) assms(6) by (metis append_eq_conv_conj diff_diff_cancel length_drop less_imp_le)
    then have "packet W [o2] (drop (W - off) bs)"
      unfolding o2_def by (rule residue_word) (use p(2,4) True assms(6,7) len step(3) in auto)
    moreover have "fulls W [o1] (cs @ take (W - off) bs)"
      unfolding o1_def using True
      by (intro stitch_full[OF _ _ assms(6,8) cs k] packet_take[OF assms(1)]) simp_all
    ultimately have "packet W ([o1] @ [o2]) ((cs @ take (W - off) bs) @ drop (W - off) bs)"
      by (rule fulls_packet[rotated])
    moreover have "rs_done t rest [o2] ((read_data_stitching W ^^ Suc 0) t)"
      using residue_step[of t W] step(1,4,5) p(1) k assms(4) by (simp add: rs_done_def o2_def)
    then have "rs_done s rest [o1, o2] ((read_data_stitching W ^^ Suc (Suc 0)) s)"
      by (rule rs_done_step[OF t_def step(2)[folded o1_def] step(6)])
    ultimately show ?thesis by (intro exI[of _ "Suc (Suc 0)"] conjI exI[of _ "[o1, o2]"]) simp_all
  qed
qed

lemma take_around: "off \<le> W \<Longrightarrow> take (W - off) bs @ drop (W - off) (take W bs) @ drop W bs = bs"
proof -
  assume "off \<le> W"
  have "take (W - off) bs = take (W - off) (take W bs)" by (simp add: min_def)
  then have "take (W - off) bs @ drop (W - off) (take W bs) = take W bs" by (metis append_take_drop_id)
  then show ?thesis by (metis append.assoc append_take_drop_id)
qed

lemma stitch_phase:
  assumes "packet W ws bs" and "rs_state s = STITCH" and "rsf_in s = ws @ rest"
    and "unat (rs_offset s) = off" and "0 < off" and "off < W" and "length (ax_lanes (rs_prev s)) = W"
    and "take off (ax_lanes (rs_prev s)) = map (\<lambda>b. (b, True)) cs"
  shows "\<exists>k \<le> Suc (length ws). \<exists>out. rs_done s rest out ((read_data_stitching W ^^ k) s) \<and> packet W out (cs @ bs)"
  using assms(1-4,7,8)
proof (induction ws arbitrary: s bs cs)
  case (Cons w ws)
  have s: "rsf_in s = w # (ws @ rest)" using Cons.prems(3) by simp
  show ?case
  proof (cases "ws = []")
    case True
    then show ?thesis
      using stitch_last[of W w bs s rest off cs] Cons.prems assms(5,6) by (simp add: numeral_2_eq_2)
  next
    case False
    define t where "t = read_data_stitching W s"
    define o1 where "o1 = rs_sent W off (rs_prev s) w"
    define ds where "ds = drop (W - off) (take W bs)"
    note step = stitch_step[OF Cons.prems(2) s t_def Cons.prems(4)[symmetric]]
    have p: "\<not> ax_last w" "W < length bs" "ax_lanes w = map (\<lambda>b. (b, True)) (take W bs)" "packet W ws (drop W bs)"
      using Cons.prems(1) False by (simp_all add: packet_cons)
    have cs: "length cs = off" using arg_cong[OF Cons.prems(6), of length] Cons.prems(5) assms(6) by simp
    have k: "keep_at (W - off) w"
      using packet_keep[OF Cons.prems(1), of "W - off"] p(2) assms(5,6) by simp
    have lanes: "take off (ax_lanes (rs_prev t)) = map (\<lambda>b. (b, True)) ds"
      using p(2) assms(6) by (simp add: step(3) p(3) drop_map ds_def)
    have "length (ax_lanes (rs_prev t)) = W" using p(2) Cons.prems(5) assms(6) by (simp add: step(3) p(3))
    then obtain n out where n: "n \<le> Suc (length ws)" "rs_done t rest out ((read_data_stitching W ^^ n) t)"
      "packet W out (ds @ drop W bs)"
      using Cons.IH[OF p(4) _ step(1) _ _ lanes] p(1) step(4,5) Cons.prems(4) by auto
    have "fulls W [o1] (cs @ take (W - off) bs)"
      unfolding o1_def using p(2,3)
      by (intro stitch_full[OF _ _ assms(6) Cons.prems(6) cs k]) (simp_all add: take_map)
    then have "packet W ([o1] @ out) ((cs @ take (W - off) bs) @ (ds @ drop W bs))"
      by (rule fulls_packet) (rule n(3))
    then have "packet W (o1 # out) (cs @ bs)" using take_around[of off W bs] assms(6) by (simp add: ds_def)
    moreover have "rs_done s rest (o1 # out) ((read_data_stitching W ^^ Suc n) s)"
      by (rule rs_done_step[OF t_def step(2)[folded o1_def] step(6) n(2)])
    ultimately show ?thesis using n(1) by (intro exI[of _ "Suc n"] conjI exI[of _ "o1 # out"]) simp_all
  qed
qed simp

subsection \<open>The first packet\<close>

definition rs_after :: "nat \<Rightarrow> bool \<Rightarrow> net_axis list \<Rightarrow> rs_st \<Rightarrow> byte list \<Rightarrow> rs_st \<Rightarrow> bool" where
  "rs_after W m rest s bs t \<longleftrightarrow> rsf_in t = rest \<and> rsf_merge t = rsf_merge s \<and>
    (\<exists>fs. rsf_out t = rsf_out s @ fs \<and>
      (if m then (rs_state t = ATTACH_ALIGNED \<and> fulls W fs bs) \<or>
         (\<exists>as cs. bs = as @ cs \<and> fulls W fs as \<and> rs_state t = STITCH \<and> cs \<noteq> [] \<and> length cs < W
            \<and> unat (rs_offset t) = length cs \<and> length (ax_lanes (rs_prev t)) = W
            \<and> take (length cs) (ax_lanes (rs_prev t)) = map (\<lambda>b. (b, True)) cs)
       else rs_state t = RS_IDLE \<and> packet W fs bs))"

lemma rs_after_alone: "\<not> m \<Longrightarrow> rsf_in t = rest \<Longrightarrow> rsf_merge t = rsf_merge s \<Longrightarrow> rsf_out t = rsf_out s @ fs
    \<Longrightarrow> rs_state t = RS_IDLE \<Longrightarrow> packet W fs bs \<Longrightarrow> rs_after W m rest s bs t"
  by (simp add: rs_after_def)

lemma rs_after_aligned: "m \<Longrightarrow> rsf_in t = rest \<Longrightarrow> rsf_merge t = rsf_merge s \<Longrightarrow> rsf_out t = rsf_out s @ fs
    \<Longrightarrow> rs_state t = ATTACH_ALIGNED \<Longrightarrow> fulls W fs bs \<Longrightarrow> rs_after W m rest s bs t"
  by (simp add: rs_after_def)

lemma rs_after_waiting: "m \<Longrightarrow> rsf_in t = rest \<Longrightarrow> rsf_merge t = rsf_merge s \<Longrightarrow> rsf_out t = rsf_out s @ fs
    \<Longrightarrow> bs = as @ cs \<Longrightarrow> fulls W fs as \<Longrightarrow> rs_state t = STITCH \<Longrightarrow> cs \<noteq> [] \<Longrightarrow> length cs < W
    \<Longrightarrow> unat (rs_offset t) = length cs \<Longrightarrow> length (ax_lanes (rs_prev t)) = W
    \<Longrightarrow> take (length cs) (ax_lanes (rs_prev t)) = map (\<lambda>b. (b, True)) cs \<Longrightarrow> rs_after W m rest s bs t"
  unfolding rs_after_def by auto

lemma rs_after_more:
  assumes "rs_after W m rest t (drop W bs) u" and "rsf_out t = rsf_out s @ [w]" and "rsf_merge t = rsf_merge s"
    and "\<not> ax_last w" and "W < length bs" and "ax_lanes w = map (\<lambda>b. (b, True)) (take W bs)"
  shows "rs_after W m rest s bs u"
proof -
  obtain fs where fs: "rsf_out u = rsf_out t @ fs" and c:
      "if m then (rs_state u = ATTACH_ALIGNED \<and> fulls W fs (drop W bs)) \<or>
         (\<exists>as cs. drop W bs = as @ cs \<and> fulls W fs as \<and> rs_state u = STITCH \<and> cs \<noteq> [] \<and> length cs < W
            \<and> unat (rs_offset u) = length cs \<and> length (ax_lanes (rs_prev u)) = W
            \<and> take (length cs) (ax_lanes (rs_prev u)) = map (\<lambda>b. (b, True)) cs)
       else rs_state u = RS_IDLE \<and> packet W fs (drop W bs)"
    using assms(1) unfolding rs_after_def by blast
  have u: "rsf_in u = rest" "rsf_merge u = rsf_merge s" "rsf_out u = rsf_out s @ (w # fs)"
    using assms(1-3) fs by (simp_all add: rs_after_def)
  consider (alone) "\<not> m" | (aligned) "m" "rs_state u = ATTACH_ALIGNED" "fulls W fs (drop W bs)"
    | (waiting) as cs where "m" "drop W bs = as @ cs" "fulls W fs as" "rs_state u = STITCH" "cs \<noteq> []" "length cs < W"
      "unat (rs_offset u) = length cs" "length (ax_lanes (rs_prev u)) = W"
      "take (length cs) (ax_lanes (rs_prev u)) = map (\<lambda>b. (b, True)) cs"
    using c by (cases m) auto
  then show ?thesis
  proof cases
    case alone
    then have "fs \<noteq> []" "packet W fs (drop W bs)" using c packet_nonempty by auto
    then have "packet W (w # fs) bs" using assms(4-6) by (simp add: packet_cons)
    then show ?thesis using alone c u by (intro rs_after_alone) simp_all
  next
    case aligned
    then show ?thesis using u assms(4-6) by (intro rs_after_aligned[OF aligned(1) u aligned(2)]) simp_all
  next
    case waiting
    have "bs = (take W bs @ as) @ cs" using waiting(2) by (metis append.assoc append_take_drop_id)
    then show ?thesis
      by (rule rs_after_waiting[OF waiting(1) u _ _ waiting(4-9)]) (use assms(4-6) waiting(3) in \<open>simp_all add: min_def\<close>)
  qed
qed

lemma first_last_word:
  assumes "packet W [w] bs" and "0 < W" and "W \<le> 64" and "rsf_in s = rest" and "m = rs_needsMerge s"
  shows "rs_after W m rest s bs (rs_first W w s)"
proof -
  define t where "t = rs_first W w s"
  have p: "ax_last w" "bs \<noteq> []" "length bs \<le> W" "take (length bs) (ax_lanes w) = map (\<lambda>b. (b, True)) bs"
    using assms(1) by (simp_all add: packet_single)
  have keep: "keep_at (W - 1) w \<longleftrightarrow> W - 1 < length bs" using packet_keep[OF assms(1), of "W - 1"] assms(2) by simp
  have t: "rsf_in t = rest" "rsf_merge t = rsf_merge s" using p(1) assms(4) by (simp_all add: t_def rs_first_def Let_def)
  have off: "unat (rs_offset t) = length bs"
    using p(1) kept_length[OF assms(1,3)] by (simp add: t_def rs_first_def Let_def)
  consider "\<not> m" | "m" "W - 1 < length bs" | "m" "\<not> W - 1 < length bs" by blast
  then have "rs_after W m rest s bs t"
  proof cases
    case 1
    then show ?thesis using p(1) assms(1,5)
      by (intro rs_after_alone[OF 1 t, of "[w]"]) (simp_all add: t_def rs_first_def Let_def)
  next
    case 2
    then have "length bs = W" using p(3) by simp
    moreover have "ax_lanes w = map (\<lambda>b. (b, True)) bs"
      using p(4) packet_lanes[OF assms(1)] calculation by simp
    ultimately show ?thesis using p(1) assms(5) 2 keep
      by (intro rs_after_aligned[OF 2(1) t, of "[w\<lparr>ax_last := False\<rparr>]"]) (simp_all add: t_def rs_first_def Let_def keep_at_def)
  next
    case 3
    then show ?thesis using p assms(5) keep packet_lanes[OF assms(1)] assms(2)
      by (intro rs_after_waiting[OF 3(1) t, of "[]" bs "[]" bs] off) (simp_all add: t_def rs_first_def Let_def keep_at_def)
  qed
  then show ?thesis by (simp add: t_def)
qed

lemma first_phase:
  assumes "packet W ws bs" and "0 < W" and "W \<le> 64" and "rs_state s = FIRST_PART" and "rsf_in s = ws @ rest"
    and "m = rs_needsMerge s"
  shows "rs_after W m rest s bs ((read_data_stitching W ^^ length ws) s)"
  using assms(1,4-6)
proof (induction ws arbitrary: s bs)
  case (Cons w ws)
  define s1 where "s1 = s\<lparr>rsf_in := ws @ rest\<rparr>"
  have step: "read_data_stitching W s = rs_first W w s1"
    using Cons.prems by (simp add: read_data_stitching_def s1_def)
  show ?case
  proof (cases "ws = []")
    case True
    then have "rs_after W m rest s1 bs (rs_first W w s1)"
      using Cons.prems assms(2,3) by (intro first_last_word) (simp_all add: s1_def)
    then show ?thesis using True step by (simp add: rs_after_def s1_def)
  next
    case False
    define t where "t = rs_first W w s1"
    have p: "\<not> ax_last w" "W < length bs" "ax_lanes w = map (\<lambda>b. (b, True)) (take W bs)" "packet W ws (drop W bs)"
      using Cons.prems(1) False by (simp_all add: packet_cons)
    have t: "rs_state t = FIRST_PART" "rsf_in t = ws @ rest" "m = rs_needsMerge t" "rsf_out t = rsf_out s @ [w]"
      "rsf_merge t = rsf_merge s" using p(1) Cons.prems(4) by (simp_all add: t_def rs_first_def Let_def s1_def)
    have "rs_after W m rest s bs ((read_data_stitching W ^^ length ws) t)"
      by (rule rs_after_more[OF Cons.IH[OF p(4) t(1-3)] t(4,5) p(1-3)])
    then show ?thesis using step by (simp add: t_def funpow_Suc_right del: funpow.simps)
  qed
qed simp

lemma idle_phase:
  assumes "packet W ws bs" and "0 < W" and "W \<le> 64" and "rs_state s = RS_IDLE" and "rsf_merge s = m # ms"
    and "rsf_in s = ws @ rest"
  shows "rs_after W m rest (s\<lparr>rsf_merge := ms\<rparr>) bs ((read_data_stitching W ^^ length ws) s)"
proof -
  obtain w ws' where ws: "ws = w # ws'" using packet_nonempty[OF assms(1)] by (cases ws) auto
  define s1 where "s1 = s\<lparr>rs_needsMerge := m, rsf_merge := ms, rsf_in := ws' @ rest\<rparr>"
  have step: "read_data_stitching W s = rs_first W w s1"
    using assms ws by (simp add: read_data_stitching_def s1_def)
  show ?thesis
  proof (cases "ws' = []")
    case True
    then have "rs_after W m rest s1 bs (rs_first W w s1)"
      using assms(1-3) ws by (intro first_last_word) (simp_all add: s1_def)
    then show ?thesis using True step ws by (simp add: rs_after_def s1_def)
  next
    case False
    define t where "t = rs_first W w s1"
    have p: "\<not> ax_last w" "W < length bs" "ax_lanes w = map (\<lambda>b. (b, True)) (take W bs)" "packet W ws' (drop W bs)"
      using assms(1) False ws by (simp_all add: packet_cons)
    have t: "rs_state t = FIRST_PART" "rsf_in t = ws' @ rest" "m = rs_needsMerge t"
      "rsf_out t = rsf_out (s\<lparr>rsf_merge := ms\<rparr>) @ [w]" "rsf_merge t = rsf_merge (s\<lparr>rsf_merge := ms\<rparr>)"
      using p(1) by (simp_all add: t_def rs_first_def Let_def s1_def)
    have "rs_after W m rest (s\<lparr>rsf_merge := ms\<rparr>) bs ((read_data_stitching W ^^ length ws') t)"
      by (rule rs_after_more[OF first_phase[OF p(4) assms(2,3) t(1-3)] t(4,5) p(1-3)])
    then show ?thesis using step ws by (simp add: t_def funpow_Suc_right del: funpow.simps)
  qed
qed

subsection \<open>One segment\<close>

lemma funpow_plus: "(f ^^ k) ((f ^^ n) s) = (f ^^ (k + n)) s"
  by (simp add: funpow_add)

text \<open>C23. A segment that the memory returned in two packets leaves \<open>read_data_stitching\<close> as one packet with the
  bytes of the two, one after the other, at whatever byte the first one ends; a segment in one packet passes
  unchanged in its bytes. The process is back in its first state with the rest of its input untouched.\<close>

theorem stitching_joins:
  assumes "0 < W" and "W \<le> 64" and "rs_state s = RS_IDLE" and "rsf_merge s = m # ms"
    and "packet W ws1 bs1" and "packet W ws2 bs2"
    and "rsf_in s = ws1 @ (if m then ws2 else []) @ rest"
  shows "\<exists>k out. rs_state ((read_data_stitching W ^^ k) s) = RS_IDLE \<and> rsf_merge ((read_data_stitching W ^^ k) s) = ms
    \<and> rsf_in ((read_data_stitching W ^^ k) s) = rest \<and> rsf_out ((read_data_stitching W ^^ k) s) = rsf_out s @ out
    \<and> packet W out (bs1 @ (if m then bs2 else []))"
proof -
  define r where "r = (if m then ws2 else []) @ rest"
  define t where "t = (read_data_stitching W ^^ length ws1) s"
  have "rs_after W m r (s\<lparr>rsf_merge := ms\<rparr>) bs1 t"
    unfolding t_def by (rule idle_phase[OF assms(5,1-4)]) (use assms(7) in \<open>simp add: r_def\<close>)
  then obtain fs where t: "rsf_in t = r" "rsf_merge t = ms" "rsf_out t = rsf_out s @ fs" and c:
    "if m then (rs_state t = ATTACH_ALIGNED \<and> fulls W fs bs1) \<or>
       (\<exists>as cs. bs1 = as @ cs \<and> fulls W fs as \<and> rs_state t = STITCH \<and> cs \<noteq> [] \<and> length cs < W
          \<and> unat (rs_offset t) = length cs \<and> length (ax_lanes (rs_prev t)) = W
          \<and> take (length cs) (ax_lanes (rs_prev t)) = map (\<lambda>b. (b, True)) cs)
     else rs_state t = RS_IDLE \<and> packet W fs bs1"
    by (auto simp: rs_after_def)
  have two: ?thesis if m "rs_done t rest out ((read_data_stitching W ^^ k) t)" "packet W (fs @ out) (bs1 @ bs2)" for k out
    using that t by (intro exI[of _ "k + length ws1"] exI[of _ "fs @ out"]) (simp add: rs_done_def t_def funpow_plus)
  consider "\<not> m" | "m" "rs_state t = ATTACH_ALIGNED" "fulls W fs bs1"
    | as cs where "m" "bs1 = as @ cs" "fulls W fs as" "rs_state t = STITCH" "cs \<noteq> []" "length cs < W"
      "unat (rs_offset t) = length cs" "length (ax_lanes (rs_prev t)) = W"
      "take (length cs) (ax_lanes (rs_prev t)) = map (\<lambda>b. (b, True)) cs"
    using c by (cases m) auto
  then show ?thesis
  proof cases
    case 1
    then show ?thesis using c t by (intro exI[of _ "length ws1"] exI[of _ fs]) (simp add: t_def r_def)
  next
    case 2
    have "rs_done t rest ws2 ((read_data_stitching W ^^ length ws2) t)"
      by (rule attach_phase[OF assms(6) 2(2)]) (use t(1) 2(1) in \<open>simp add: r_def\<close>)
    then show ?thesis by (rule two[OF 2(1)]) (rule fulls_packet[OF 2(3) assms(6)])
  next
    case 3
    obtain k out where k: "rs_done t rest out ((read_data_stitching W ^^ k) t)" "packet W out (cs @ bs2)"
      using stitch_phase[OF assms(6) 3(4) _ 3(7) _ 3(6,8,9), of rest] t(1) 3(1,5) by (auto simp: r_def)
    have "packet W (fs @ out) (bs1 @ bs2)" using fulls_packet[OF 3(3) k(2)] 3(2) by simp
    then show ?thesis by (rule two[OF 3(1) k(1)])
  qed
qed

definition rs_demo :: rs_st where
  "rs_demo = \<lparr>rs_state = RS_IDLE, rs_prev = \<lparr>ax_lanes = [], ax_last = False\<rparr>, rs_needsMerge = False, rs_offset = 0,
     rsf_merge = [True],
     rsf_in = [\<lparr>ax_lanes = [(1, True), (2, True), (3, True), (0, False)], ax_last = True\<rparr>,
               \<lparr>ax_lanes = [(4, True), (5, True), (0, False), (0, False)], ax_last = True\<rparr>],
     rsf_out = []\<rparr>"

theorem stitching_joins_witness:
  "\<exists>k out. rs_state ((read_data_stitching 4 ^^ k) rs_demo) = RS_IDLE \<and> rsf_merge ((read_data_stitching 4 ^^ k) rs_demo) = []
    \<and> rsf_in ((read_data_stitching 4 ^^ k) rs_demo) = [] \<and> rsf_out ((read_data_stitching 4 ^^ k) rs_demo) = out
    \<and> packet 4 out [1, 2, 3, 4, 5]"
  using stitching_joins[of 4 rs_demo True "[]" "[\<lparr>ax_lanes = [(1, True), (2, True), (3, True), (0, False)], ax_last = True\<rparr>]"
      "[1, 2, 3]" "[\<lparr>ax_lanes = [(4, True), (5, True), (0, False), (0, False)], ax_last = True\<rparr>]" "[4, 5]" "[]"]
  by (simp add: rs_demo_def packet_single numeral_2_eq_2)

end
