(* ===== verification/Word_Shift.thy ===== *)
theory Word_Shift
  imports Tx_Stitch
begin

text \<open>
  The shifters of \<^verbatim>\<open>hls/axi_utils.hpp\<close>: \<open>rshiftWordByOctet\<close> takes the first \<open>off\<close> bytes off a packet and
  closes the gap, \<open>lshiftWordByOctet\<close> makes room for \<open>off\<close> bytes before it. The engines use them around every
  header whose size is not a multiple of the width of the stream.
\<close>

subsection \<open>The two processes\<close>

definition no_keep :: "lane list \<Rightarrow> bool" where
  "no_keep ls \<longleftrightarrow> list_all (\<lambda>l. \<not> snd l) ls"

record rw_st =
  rw_remainder :: bool
  rw_firstWord :: bool
  rw_prev :: net_axis
  rwf_in :: "net_axis fifo"
  rwf_out :: "net_axis fifo"

definition rshiftWordByOctet :: "nat \<Rightarrow> nat \<Rightarrow> rw_st \<Rightarrow> rw_st" where
  "rshiftWordByOctet W off s =
    (if \<not> rw_remainder s then
       (if rwf_in s \<noteq> [] then
          (let w = hd (rwf_in s);
               o1 = (if off = 0 then w
                     else \<lparr>ax_lanes = alignWords off (rw_prev s) w, ax_last = no_keep (drop off (ax_lanes w))\<rparr>);
               ended = (\<not> rw_firstWord s \<and> ax_last o1) in
           s\<lparr>rwf_in := tl (rwf_in s),
             rwf_out := (if \<not> rw_firstWord s then rwf_out s @ [o1] else rwf_out s),
             rw_prev := w,
             rw_firstWord := (ax_last w \<and> off \<noteq> 0),
             rw_remainder := (ax_last w \<and> \<not> ended)\<rparr>)
        else s)
     else
       s\<lparr>rwf_out := rwf_out s @ [\<lparr>ax_lanes = drop off (ax_lanes (rw_prev s)) @ replicate off (0, False), ax_last = True\<rparr>],
         rw_remainder := False\<rparr>)"

record lw_st =
  lw_firstWord :: bool
  lw_writeRemainder :: bool
  lw_prev :: net_axis
  lwf_in :: "net_axis fifo"
  lwf_out :: "net_axis fifo"

definition lshiftWordByOctet :: "nat \<Rightarrow> nat \<Rightarrow> lw_st \<Rightarrow> lw_st" where
  "lshiftWordByOctet W off s =
    (if lw_writeRemainder s then
       s\<lparr>lwf_out := lwf_out s @ [\<lparr>ax_lanes = drop (W - off) (ax_lanes (lw_prev s)) @ replicate (W - off) (0, False),
                                 ax_last = True\<rparr>],
         lw_writeRemainder := False\<rparr>
     else if lwf_in s \<noteq> [] then
       (let w = hd (lwf_in s); s = s\<lparr>lwf_in := tl (lwf_in s)\<rparr> in
        if off = 0 then s\<lparr>lwf_out := lwf_out s @ [w]\<rparr>
        else
          (let low = (if lw_firstWord s then map (\<lambda>i. (0, i < 32)) [0..<off]
                      else drop (W - off) (ax_lanes (lw_prev s)));
               o1 = \<lparr>ax_lanes = low @ take (W - off) (ax_lanes w), ax_last = no_keep (drop (W - off) (ax_lanes w))\<rparr> in
           s\<lparr>lwf_out := lwf_out s @ [o1], lw_prev := w, lw_firstWord := ax_last w,
             lw_writeRemainder := (if ax_last w then \<not> ax_last o1 else lw_writeRemainder s)\<rparr>))
     else s)"

subsection \<open>Shifting down\<close>

lemma packet_no_keep:
  assumes "packet W (w # ws) bs" and "k < W"
  shows "no_keep (drop k (ax_lanes w)) \<longleftrightarrow> length bs \<le> k"
proof
  have len: "length (ax_lanes w) = W" using assms(1) by (rule packet_lanes)
  assume "no_keep (drop k (ax_lanes w))"
  then have "\<forall>l \<in> set (drop k (ax_lanes w)). \<not> snd l" by (simp add: no_keep_def list_all_iff)
  moreover have "drop k (ax_lanes w) ! 0 \<in> set (drop k (ax_lanes w))" using assms(2) len by (intro nth_mem) simp
  ultimately have "\<not> snd (drop k (ax_lanes w) ! 0)" by blast
  then have "\<not> keep_at k w" using assms(2) len by (simp add: keep_at_def)
  then show "length bs \<le> k" using packet_keep[OF assms] by simp
next
  assume le: "length bs \<le> k"
  have len: "length (ax_lanes w) = W" using assms(1) by (rule packet_lanes)
  have "\<not> snd (ax_lanes w ! i)" if "k \<le> i" "i < W" for i
    using packet_keep[OF assms(1) that(2)] that(1) le by (simp add: keep_at_def)
  then show "no_keep (drop k (ax_lanes w))" using len assms(2) by (simp add: no_keep_def list_all_length)
qed

definition rw_done :: "nat \<Rightarrow> rw_st \<Rightarrow> net_axis list \<Rightarrow> net_axis list \<Rightarrow> rw_st \<Rightarrow> bool" where
  "rw_done off s rest out t \<longleftrightarrow> \<not> rw_remainder t \<and> rw_firstWord t = (off \<noteq> 0) \<and> rwf_in t = rest \<and> rwf_out t = rwf_out s @ out"

lemma rw_done_step:
  assumes "t = rshiftWordByOctet W off s" and "rwf_out t = rwf_out s @ os"
    and "rw_done off t rest out ((rshiftWordByOctet W off ^^ k) t)"
  shows "rw_done off s rest (os @ out) ((rshiftWordByOctet W off ^^ Suc k) s)"
  using assms by (simp add: funpow_Suc_right rw_done_def del: funpow.simps)

lemma rw_word:
  assumes "\<not> rw_remainder s" and "rwf_in s = w # ws" and "t = rshiftWordByOctet W off s" and "0 < off"
  shows "rwf_in t = ws" and "rw_prev t = w" and "rw_firstWord t = ax_last w"
    and "rwf_out t = rwf_out s @ (if rw_firstWord s then []
           else [\<lparr>ax_lanes = alignWords off (rw_prev s) w, ax_last = no_keep (drop off (ax_lanes w))\<rparr>])"
    and "rw_remainder t = (ax_last w \<and> (rw_firstWord s \<or> \<not> no_keep (drop off (ax_lanes w))))"
  using assms by (simp_all add: rshiftWordByOctet_def Let_def)

lemma rw_rest:
  assumes "rw_remainder s" and "packet W [rw_prev s] bs" and "off < length bs" and "rwf_in s = rest"
    and "rw_firstWord s = (off \<noteq> 0)"
  shows "\<exists>out. rw_done off s rest out ((rshiftWordByOctet W off ^^ 1) s) \<and> packet W out (drop off bs)"
proof -
  let ?o = "\<lparr>ax_lanes = drop off (ax_lanes (rw_prev s)) @ replicate off (0, False), ax_last = True\<rparr>"
  let ?f = "\<lparr>ax_lanes = replicate off (0, False), ax_last = True\<rparr>"
  have "packet W [\<lparr>ax_lanes = alignWords off (rw_prev s) ?f, ax_last = True\<rparr>] (drop off bs)"
    by (rule align_residue[OF assms(2,3)]) simp_all
  then have "packet W [?o] (drop off bs)" by (simp add: alignWords_def)
  moreover have "rw_done off s rest [?o] ((rshiftWordByOctet W off ^^ 1) s)"
    using assms by (simp add: rshiftWordByOctet_def rw_done_def)
  ultimately show ?thesis by blast
qed

lemma rw_tail:
  assumes "packet W (rw_prev s # ws) bs" and "ws \<noteq> []" and "0 < off" and "off < W" and "\<not> rw_remainder s"
    and "\<not> rw_firstWord s" and "rwf_in s = ws @ rest"
  shows "\<exists>k \<le> Suc (length ws). \<exists>out. rw_done off s rest out ((rshiftWordByOctet W off ^^ k) s)
     \<and> packet W out (drop off bs)"
  using assms(1,2,5-7)
proof (induction ws arbitrary: s bs)
  case (Cons w ws)
  define t where "t = rshiftWordByOctet W off s"
  have "rwf_in s = w # (ws @ rest)" using Cons.prems(5) by simp
  note t = rw_word[OF Cons.prems(3) this t_def assms(3)]
  define o1 where "o1 = \<lparr>ax_lanes = alignWords off (rw_prev s) w, ax_last = no_keep (drop off (ax_lanes w))\<rparr>"
  have out: "rwf_out t = rwf_out s @ [o1]" using t(4) Cons.prems(4) by (simp add: o1_def)
  have gt: "W < length bs" and tl: "packet W (w # ws) (drop W bs)"
    using Cons.prems(1) by (simp_all add: packet_cons)
  have nk: "no_keep (drop off (ax_lanes w)) \<longleftrightarrow> length bs \<le> W + off"
    using packet_no_keep[OF tl assms(4)] by auto
  have glue: "packet W (o1 # out) (drop off bs)" if "W + off < length bs" "packet W out (drop off (drop W bs))" for out
  proof -
    have "out \<noteq> []" using packet_nonempty[OF that(2)] by simp
    moreover have "alignWords off (rw_prev s) w = map (\<lambda>b. (b, True)) (take W (drop off bs))"
      by (rule align_full[OF Cons.prems(1) assms(4)]) (use that(1) in simp)
    ultimately show ?thesis using that nk by (simp add: packet_cons o1_def add.commute)
  qed
  show ?case
  proof (cases "ws = []")
    case False
    then have last: "\<not> ax_last w" "W < length (drop W bs)" using tl by (simp_all add: packet_cons)
    obtain k out where k: "k \<le> Suc (length ws)" "rw_done off t rest out ((rshiftWordByOctet W off ^^ k) t)"
      "packet W out (drop off (drop W bs))"
      using Cons.IH[of t "drop W bs"] tl False t last(1) by auto
    have "packet W (o1 # out) (drop off bs)" using glue[OF _ k(3)] last(2) assms(4) by simp
    moreover have "rw_done off s rest ([o1] @ out) ((rshiftWordByOctet W off ^^ Suc k) s)"
      by (rule rw_done_step[OF t_def out k(2)])
    ultimately show ?thesis using k(1) by (intro exI[of _ "Suc k"] conjI exI[of _ "o1 # out"]) simp_all
  next
    case True
    have last: "ax_last w" using packet_last[OF tl] True by simp
    show ?thesis
    proof (cases "length bs \<le> W + off")
      case le: True
      have "packet W [\<lparr>ax_lanes = alignWords off (rw_prev s) w, ax_last = True\<rparr>] (drop off bs)"
        by (rule align_end) (use Cons.prems(1) True assms(4) le in simp_all)
      then have "packet W [o1] (drop off bs)" using nk le by (simp add: o1_def)
      moreover have "rw_done off t rest [] ((rshiftWordByOctet W off ^^ 0) t)"
        using t True last assms(3) Cons.prems(4) nk le by (simp add: rw_done_def)
      then have "rw_done off s rest ([o1] @ []) ((rshiftWordByOctet W off ^^ Suc 0) s)"
        by (rule rw_done_step[OF t_def out])
      ultimately show ?thesis by (intro exI[of _ "Suc 0"] conjI exI[of _ "[o1]"]) simp_all
    next
      case False
      then have off': "off < length (drop W bs)" by simp
      obtain out1 where r: "rw_done off t rest out1 ((rshiftWordByOctet W off ^^ 1) t)" "packet W out1 (drop off (drop W bs))"
        using rw_rest[OF _ _ off' _ _, of t W rest] t tl True last nk False assms(3) by auto
      have "packet W (o1 # out1) (drop off bs)" using glue[OF _ r(2)] False by simp
      moreover have "rw_done off s rest ([o1] @ out1) ((rshiftWordByOctet W off ^^ Suc 1) s)"
        by (rule rw_done_step[OF t_def out r(1)])
      ultimately show ?thesis by (intro exI[of _ "Suc 1"] conjI exI[of _ "o1 # out1"]) simp_all
    qed
  qed
qed simp

lemma rw_pass:
  assumes "packet W ws bs" and "\<not> rw_remainder s" and "\<not> rw_firstWord s" and "rwf_in s = ws @ rest"
  shows "rw_done 0 s rest ws ((rshiftWordByOctet W 0 ^^ length ws) s)"
  using assms
proof (induction ws arbitrary: s bs)
  case (Cons w ws)
  define t where "t = rshiftWordByOctet W 0 s"
  have t: "rwf_in t = ws @ rest" "\<not> rw_firstWord t" "\<not> rw_remainder t" "rwf_out t = rwf_out s @ [w]"
    using Cons.prems by (simp_all add: t_def rshiftWordByOctet_def Let_def)
  show ?case
  proof (cases "ws = []")
    case True
    then show ?thesis using t by (simp add: rw_done_def t_def)
  next
    case False
    then have "packet W ws (drop W bs)" using Cons.prems(1) by (simp add: packet_cons)
    then have "rw_done 0 s rest ([w] @ ws) ((rshiftWordByOctet W 0 ^^ Suc (length ws)) s)"
      by (intro rw_done_step[OF t_def t(4)] Cons.IH t)
    then show ?thesis by simp
  qed
qed simp

text \<open>The right shifter hands on a packet without its first \<open>off\<close> bytes, on a stream of any width, and is
  ready for the next packet, whose words it has not touched.\<close>

lemma rshift_drops:
  assumes "packet W ws bs" and "off < W" and "off < length bs" and "\<not> rw_remainder s"
    and "rw_firstWord s = (off \<noteq> 0)" and "rwf_in s = ws @ rest"
  shows "\<exists>k \<le> Suc (length ws). \<exists>out. packet W out (drop off bs) \<and> rw_done off s rest out ((rshiftWordByOctet W off ^^ k) s)"
proof (cases "off = 0")
  case True
  then show ?thesis using rw_pass[OF assms(1,4) _ assms(6)] assms(1,5)
    by (intro exI[of _ "length ws"] conjI exI[of _ ws]) simp_all
next
  case False
  then have off: "0 < off" by simp
  obtain w ws' where ws: "ws = w # ws'" using packet_nonempty[OF assms(1)] by (cases ws) auto
  define t where "t = rshiftWordByOctet W off s"
  have "rwf_in s = w # (ws' @ rest)" using assms(6) ws by simp
  note t = rw_word[OF assms(4) this t_def off]
  have out: "rwf_out t = rwf_out s @ []" using t(4) assms(5) False by simp
  have last: "ax_last w \<longleftrightarrow> ws' = []" using packet_last assms(1) ws by blast
  have "\<exists>k \<le> length ws. \<exists>out. rw_done off t rest out ((rshiftWordByOctet W off ^^ k) t) \<and> packet W out (drop off bs)"
  proof (cases "ws' = []")
    case True
    then show ?thesis using rw_rest[of t W bs off rest] t assms(1,3,5) ws last off
      by (intro exI[of _ 1]) simp_all
  next
    case ne: False
    then show ?thesis using rw_tail[of W t ws' bs off rest] assms(1,2) t ws off last by simp
  qed
  then obtain k out where k: "k \<le> length ws" "rw_done off t rest out ((rshiftWordByOctet W off ^^ k) t)"
    "packet W out (drop off bs)" by blast
  have "rw_done off s rest ([] @ out) ((rshiftWordByOctet W off ^^ Suc k) s)"
    by (rule rw_done_step[OF t_def out k(2)])
  then show ?thesis using k by (intro exI[of _ "Suc k"] conjI exI[of _ out]) simp_all
qed

definition rw_demo :: rw_st where
  "rw_demo = \<lparr>rw_remainder = False, rw_firstWord = True, rw_prev = \<lparr>ax_lanes = [], ax_last = False\<rparr>,
     rwf_in = [\<lparr>ax_lanes = [(1, True), (2, True)], ax_last = False\<rparr>, \<lparr>ax_lanes = [(3, True), (0, False)], ax_last = True\<rparr>],
     rwf_out = []\<rparr>"

lemma rshift_drops_witness:
  "\<exists>k \<le> 3. \<exists>out. packet 2 out [2, 3] \<and> rw_done 1 rw_demo [] out ((rshiftWordByOctet 2 1 ^^ k) rw_demo)"
  using rshift_drops[of 2 "[\<lparr>ax_lanes = [(1, True), (2, True)], ax_last = False\<rparr>, \<lparr>ax_lanes = [(3, True), (0, False)], ax_last = True\<rparr>]"
      "[1, 2, 3]" 1 rw_demo "[]"]
  by (simp add: rw_demo_def packet_single packet_cons numeral_3_eq_3)

subsection \<open>Shifting up\<close>

definition lw_done :: "lw_st \<Rightarrow> net_axis list \<Rightarrow> net_axis list \<Rightarrow> lw_st \<Rightarrow> bool" where
  "lw_done s rest out t \<longleftrightarrow> \<not> lw_writeRemainder t \<and> lw_firstWord t \<and> lwf_in t = rest \<and> lwf_out t = lwf_out s @ out"

lemma lw_done_step:
  assumes "t = lshiftWordByOctet W off s" and "lwf_out t = lwf_out s @ os"
    and "lw_done t rest out ((lshiftWordByOctet W off ^^ k) t)"
  shows "lw_done s rest (os @ out) ((lshiftWordByOctet W off ^^ Suc k) s)"
  using assms by (simp add: funpow_Suc_right lw_done_def del: funpow.simps)

text \<open>The lanes that go in front of the next word.\<close>

definition lw_carry :: "nat \<Rightarrow> nat \<Rightarrow> lw_st \<Rightarrow> lane list" where
  "lw_carry W off s = (if lw_firstWord s then map (\<lambda>i. (0, i < 32)) [0..<off] else drop (W - off) (ax_lanes (lw_prev s)))"

lemma lw_word:
  assumes "\<not> lw_writeRemainder s" and "lwf_in s = w # ws" and "t = lshiftWordByOctet W off s" and "0 < off"
    and "length (lw_carry W off s) = off"
  shows "lwf_in t = ws" and "lw_prev t = w" and "lw_firstWord t = ax_last w"
    and "lwf_out t = lwf_out s @ [\<lparr>ax_lanes = lw_carry W off s @ take (W - off) (ax_lanes w),
           ax_last = no_keep (drop (W - off) (ax_lanes w))\<rparr>]"
    and "lw_writeRemainder t = (ax_last w \<and> \<not> no_keep (drop (W - off) (ax_lanes w)))"
  using assms by (simp_all add: lshiftWordByOctet_def Let_def lw_carry_def)

lemma lw_sent:
  assumes "packet W (w # ws) bs" and "0 < off" and "off < W" and "length c = off" and "p = \<lparr>ax_lanes = c, ax_last = l\<rparr>"
  shows "\<lparr>ax_lanes = c @ take (W - off) (ax_lanes w), ax_last = no_keep (drop (W - off) (ax_lanes w))\<rparr> = rs_sent W off p w"
  using packet_no_keep[OF assms(1), of "W - off"] packet_keep[OF assms(1), of "W - off"] assms(2-5)
  by (simp add: rs_sent_def not_less)

lemma lw_rest:
  assumes "lw_writeRemainder s" and "packet W [lw_prev s] bs" and "W - off < length bs" and "0 < off" and "off < W"
    and "lwf_in s = rest" and "lw_firstWord s"
  shows "\<exists>out. lw_done s rest out ((lshiftWordByOctet W off ^^ 1) s) \<and> packet W out (drop (W - off) bs)"
proof -
  let ?p = "ax_lanes (lw_prev s)"
  let ?o = "\<lparr>ax_lanes = drop (W - off) ?p @ replicate (W - off) (0, False), ax_last = True\<rparr>"
  have p: "length bs \<le> W" "take (length bs) ?p = map (\<lambda>b. (b, True)) bs"
    "map snd (drop (length bs) ?p) = replicate (W - length bs) False" using assms(2) by (simp_all add: packet_single)
  have len: "length ?p = W" using assms(2) by (rule packet_lanes)
  have split: "?p = map (\<lambda>b. (b, True)) bs @ drop (length bs) ?p" using p(2) by (metis append_take_drop_id)
  have d: "drop (W - off) ?p = map (\<lambda>b. (b, True)) (drop (W - off) bs) @ drop (length bs) ?p"
    using assms(3) by (subst split) (simp add: drop_map)
  have "take off (drop (W - off) ?p) = map (\<lambda>b. (b, True)) (drop (W - off) bs) @ drop (length bs) ?p"
    using len assms(5) by (intro trans[OF take_all d]) simp
  then have "packet W [\<lparr>ax_lanes = take off (drop (W - off) ?p) @ replicate (W - off) (0, False), ax_last = True\<rparr>] (drop (W - off) bs)"
    by (rule residue_word) (use p assms len in auto)
  then have "packet W [?o] (drop (W - off) bs)" using len assms(5) by simp
  moreover have "lw_done s rest [?o] ((lshiftWordByOctet W off ^^ 1) s)"
    using assms by (simp add: lshiftWordByOctet_def lw_done_def)
  ultimately show ?thesis by blast
qed

lemma lw_all:
  assumes "packet W ws bs" and "0 < off" and "off < W" and "\<not> lw_writeRemainder s"
    and "lw_carry W off s = map (\<lambda>b. (b, True)) cs" and "length cs = off" and "lwf_in s = ws @ rest"
  shows "\<exists>k \<le> Suc (length ws). \<exists>out. lw_done s rest out ((lshiftWordByOctet W off ^^ k) s) \<and> packet W out (cs @ bs)"
  using assms(1,4-7)
proof (induction ws arbitrary: s bs cs)
  case (Cons w ws)
  define t where "t = lshiftWordByOctet W off s"
  define p where "p = \<lparr>ax_lanes = lw_carry W off s, ax_last = False\<rparr>"
  define o1 where "o1 = rs_sent W off p w"
  have carry: "length (lw_carry W off s) = off" "take off (ax_lanes p) = map (\<lambda>b. (b, True)) cs"
    using Cons.prems(3,4) by (simp_all add: p_def)
  have "lwf_in s = w # (ws @ rest)" using Cons.prems(5) by simp
  note t = lw_word[OF Cons.prems(2) this t_def assms(2) carry(1)]
  have out: "lwf_out t = lwf_out s @ [o1]"
    using t(4) lw_sent[OF Cons.prems(1) assms(2,3) carry(1) p_def] by (simp add: o1_def)
  have off': "W - off < W" using assms(2,3) by simp
  have keep: "keep_at (W - off) w \<longleftrightarrow> W - off < length bs" by (rule packet_keep[OF Cons.prems(1) off'])
  have nk: "no_keep (drop (W - off) (ax_lanes w)) \<longleftrightarrow> length bs \<le> W - off" by (rule packet_no_keep[OF Cons.prems(1) off'])
  have full: "fulls W [o1] (cs @ take (W - off) bs)" if "W - off < length bs"
    unfolding o1_def
    by (intro stitch_full packet_take[OF Cons.prems(1)] assms(3) carry(2) Cons.prems(4)) (use that keep in simp_all)
  show ?case
  proof (cases "ws = []")
    case True
    have last: "ax_last w" using packet_last[OF Cons.prems(1)] True by simp
    show ?thesis
    proof (cases "W - off < length bs")
      case False
      then have "packet W [o1] (cs @ bs)"
        unfolding o1_def using True keep Cons.prems(1) by (intro stitch_end assms(3) carry(2) Cons.prems(4)) simp_all
      moreover have "lw_done t rest [] ((lshiftWordByOctet W off ^^ 0) t)"
        using t True last nk False by (simp add: lw_done_def)
      then have "lw_done s rest ([o1] @ []) ((lshiftWordByOctet W off ^^ Suc 0) s)" by (rule lw_done_step[OF t_def out])
      ultimately show ?thesis by (intro exI[of _ "Suc 0"] conjI exI[of _ "[o1]"]) simp_all
    next
      case gt: True
      have "packet W [lw_prev t] bs" using t(2) Cons.prems(1) True by simp
      then obtain out1 where r: "lw_done t rest out1 ((lshiftWordByOctet W off ^^ 1) t)" "packet W out1 (drop (W - off) bs)"
        using lw_rest[OF _ _ gt assms(2,3), of t rest] t True last nk gt by auto
      have "packet W ([o1] @ out1) ((cs @ take (W - off) bs) @ drop (W - off) bs)"
        by (rule fulls_packet[OF full[OF gt] r(2)])
      moreover have "lw_done s rest ([o1] @ out1) ((lshiftWordByOctet W off ^^ Suc 1) s)"
        by (rule lw_done_step[OF t_def out r(1)])
      ultimately show ?thesis by (intro exI[of _ "Suc 1"] conjI exI[of _ "[o1] @ out1"]) simp_all
    qed
  next
    case False
    then have p': "\<not> ax_last w" "W < length bs" "ax_lanes w = map (\<lambda>b. (b, True)) (take W bs)" "packet W ws (drop W bs)"
      using Cons.prems(1) by (simp_all add: packet_cons)
    define ds where "ds = drop (W - off) (take W bs)"
    have ds: "lw_carry W off t = map (\<lambda>b. (b, True)) ds" "length ds = off"
      using t(2,3) p' assms(3) by (simp_all add: lw_carry_def drop_map ds_def)
    obtain k out' where k: "k \<le> Suc (length ws)" "lw_done t rest out' ((lshiftWordByOctet W off ^^ k) t)"
      "packet W out' (ds @ drop W bs)"
      using Cons.IH[OF p'(4) _ ds t(1)] t(5) p'(1) by auto
    have gt: "W - off < length bs" using p'(2) by simp
    have "packet W ([o1] @ out') ((cs @ take (W - off) bs) @ (ds @ drop W bs))"
      by (rule fulls_packet[OF full[OF gt] k(3)])
    then have "packet W ([o1] @ out') (cs @ bs)" using take_around[of off W bs] assms(3) by (simp add: ds_def)
    moreover have "lw_done s rest ([o1] @ out') ((lshiftWordByOctet W off ^^ Suc k) s)"
      by (rule lw_done_step[OF t_def out k(2)])
    ultimately show ?thesis using k(1) by (intro exI[of _ "Suc k"] conjI exI[of _ "[o1] @ out'"]) simp_all
  qed
qed simp

lemma lw_pass:
  assumes "packet W ws bs" and "\<not> lw_writeRemainder s" and "lw_firstWord s" and "lwf_in s = ws @ rest"
  shows "lw_done s rest ws ((lshiftWordByOctet W 0 ^^ length ws) s)"
  using assms
proof (induction ws arbitrary: s bs)
  case (Cons w ws)
  define t where "t = lshiftWordByOctet W 0 s"
  have t: "lwf_in t = ws @ rest" "lw_firstWord t" "\<not> lw_writeRemainder t" "lwf_out t = lwf_out s @ [w]"
    using Cons.prems by (simp_all add: t_def lshiftWordByOctet_def Let_def)
  show ?case
  proof (cases "ws = []")
    case True
    then show ?thesis using t by (simp add: lw_done_def t_def)
  next
    case False
    then have "packet W ws (drop W bs)" using Cons.prems(1) by (simp add: packet_cons)
    then have "lw_done s rest ([w] @ ws) ((lshiftWordByOctet W 0 ^^ Suc (length ws)) s)"
      by (intro lw_done_step[OF t_def t(4)] Cons.IH t)
    then show ?thesis by simp
  qed
qed simp

text \<open>The left shifter hands on a packet with \<open>off\<close> zero bytes put before it, for any \<open>off\<close> up to 32, on a stream
  of any width, and is ready for the next packet.\<close>

lemma lshift_prepends:
  assumes "packet W ws bs" and "off < W" and "off \<le> 32" and "\<not> lw_writeRemainder s" and "lw_firstWord s"
    and "lwf_in s = ws @ rest"
  shows "\<exists>k \<le> Suc (length ws). \<exists>out. packet W out (replicate off 0 @ bs)
    \<and> lw_done s rest out ((lshiftWordByOctet W off ^^ k) s)"
proof (cases "off = 0")
  case True
  then show ?thesis using lw_pass[OF assms(1,4-6)] assms(1)
    by (intro exI[of _ "length ws"] conjI exI[of _ ws]) simp_all
next
  case False
  have "map (\<lambda>i. (0, i < 32)) [0..<off] = map (\<lambda>b. (b, True)) (replicate off (0 :: byte))"
    using assms(3) by (intro nth_equalityI) simp_all
  then have "lw_carry W off s = map (\<lambda>b. (b, True)) (replicate off 0)" using assms(5) by (simp add: lw_carry_def)
  then show ?thesis using lw_all[OF assms(1) _ assms(2,4) _ _ assms(6), of "replicate off 0"] False by auto
qed

definition lw_demo :: lw_st where
  "lw_demo = \<lparr>lw_firstWord = True, lw_writeRemainder = False, lw_prev = \<lparr>ax_lanes = [], ax_last = False\<rparr>,
     lwf_in = [\<lparr>ax_lanes = [(1, True), (2, True)], ax_last = True\<rparr>], lwf_out = []\<rparr>"

lemma lshift_prepends_witness:
  "\<exists>k \<le> 2. \<exists>out. packet 2 out [0, 1, 2] \<and> lw_done lw_demo [] out ((lshiftWordByOctet 2 1 ^^ k) lw_demo)"
  using lshift_prepends[of 2 "[\<lparr>ax_lanes = [(1, True), (2, True)], ax_last = True\<rparr>]" "[1, 2]" 1 lw_demo "[]"]
  by (simp add: lw_demo_def packet_single numeral_2_eq_2)

end
