(* ===== verification/Packet_Header.thy ===== *)
theory Packet_Header
  imports Axis_Words
begin

text \<open>
  Packet headers: the class \<^verbatim>\<open>packetHeader\<close> of \<^verbatim>\<open>hls/packet.hpp\<close>, which collects a header from the words of a
  stream and lays one out over them, and its subclasses with the fields of the TCP pseudo headers
  (\<^verbatim>\<open>toe/toe_internals.hpp\<close>) and of the IPv4 header (\<^verbatim>\<open>ipv4/ipv4.hpp\<close>). The size of the header is the
  type of its bits; \<open>W\<close> is the number of byte lanes of the stream.
\<close>

subsection \<open>Headers over words\<close>

record (overloaded) 'h packetHeader =
  ph_ready :: bool
  ph_idx :: u16
  ph_header :: "'h word"

definition ph_clear :: "'h::len packetHeader \<Rightarrow> 'h packetHeader" where
  "ph_clear h = h\<lparr>ph_ready := False, ph_idx := 0\<rparr>"

text \<open>The \<^verbatim>\<open>data\<close> of a word as bits, and its lowest \<open>n\<close> bytes assigned.\<close>

definition data_of :: "lane list \<Rightarrow> 'h::len word" where
  "data_of ls = word_of_int (horner_sum uint (2 ^ 8) (map fst ls))"

definition put_bytes :: "nat \<Rightarrow> 'h::len word \<Rightarrow> lane list \<Rightarrow> lane list" where
  "put_bytes n x ls = map (\<lambda>(j, b, k). (if j < n then ucast (drop_bit (8 * j) x) else b, k)) (enumerate 0 ls)"

definition parseWord :: "nat \<Rightarrow> lane list \<Rightarrow> 'h::len packetHeader \<Rightarrow> 'h packetHeader" where
  "parseWord W ls h =
    (if ph_ready h then h
     else (let w = 8 * W; i = unat (ph_idx h) in
       if i * w + w < LENGTH('h) then
         h\<lparr>ph_header := range_set (i * w + w - 1) (i * w) (data_of ls :: 'h word) (ph_header h), ph_idx := ph_idx h + 1\<rparr>
       else
         h\<lparr>ph_header := range_set (LENGTH('h) - 1) (i * w) (data_of ls :: 'h word) (ph_header h), ph_ready := True,
           ph_idx := ph_idx h + 1\<rparr>))"

text \<open>The result is the number of bytes that remain, the word with the part of the header in it, and the header.\<close>

definition consumeWord :: "nat \<Rightarrow> lane list \<Rightarrow> 'h::len packetHeader \<Rightarrow> 8 word \<times> lane list \<times> 'h packetHeader" where
  "consumeWord W ls h =
    (let w = 8 * W; i = unat (ph_idx h) in
     if (i + 1) * w \<le> LENGTH('h) then
       (of_nat ((LENGTH('h) - (i + 1) * w) div 8),
        put_bytes W (range_get ((i + 1) * w - 1) (i * w) (ph_header h) :: 'h word) ls, h\<lparr>ph_idx := ph_idx h + 1\<rparr>)
     else if i * w < LENGTH('h) then
       (0, put_bytes (LENGTH('h) mod w div 8) (range_get (LENGTH('h) - 1) (i * w) (ph_header h) :: 'h word) ls,
        h\<lparr>ph_idx := ph_idx h + 1\<rparr>)
     else (0, ls, h))"

subsection \<open>Fields of the pseudo header in front of a segment\<close>

text \<open>\<^verbatim>\<open>tcpPseudoHeader\<close>, 96 bits.\<close>

definition pseudo_init :: "96 word \<Rightarrow> 96 word" where
  "pseudo_init h = range_set 79 72 (0x06 :: 8 word) (range_set 71 64 (0 :: 8 word) h)"

definition pseudo_setSrcAddr :: "u32 \<Rightarrow> 96 word \<Rightarrow> 96 word" where "pseudo_setSrcAddr a = range_set 31 0 a"
definition pseudo_setDstAddr :: "u32 \<Rightarrow> 96 word \<Rightarrow> 96 word" where "pseudo_setDstAddr a = range_set 63 32 a"
definition pseudo_setLength :: "u16 \<Rightarrow> 96 word \<Rightarrow> 96 word" where "pseudo_setLength l = range_set 95 80 (reverse16 l)"

subsection \<open>Fields of the pseudo header with the TCP header\<close>

text \<open>\<^verbatim>\<open>tcpFullPseudoHeader\<close>, 256 bits. A flag is one bit.\<close>

definition put_flag :: "nat \<Rightarrow> bool \<Rightarrow> 256 word \<Rightarrow> 256 word" where
  "put_flag n b = range_set n n (of_bool b :: 1 word)"

definition full_init :: "256 word \<Rightarrow> 256 word" where
  "full_init h = range_set 255 240 (0 :: u16) (range_set 207 205 (0 :: 3 word) (put_flag 203 False
     (range_set 195 193 (0 :: 3 word) (put_flag 192 False (range_set 79 72 (0x06 :: 8 word)
       (range_set 71 64 (0 :: 8 word) h))))))"

definition setSrcAddr :: "u32 \<Rightarrow> 256 word \<Rightarrow> 256 word" where "setSrcAddr a = range_set 31 0 a"
definition getSrcAddr :: "256 word \<Rightarrow> u32" where "getSrcAddr = range_get 31 0"
definition setDstAddr :: "u32 \<Rightarrow> 256 word \<Rightarrow> 256 word" where "setDstAddr a = range_set 63 32 a"
definition getDstAddr :: "256 word \<Rightarrow> u32" where "getDstAddr = range_get 63 32"
definition getProtocol :: "256 word \<Rightarrow> 8 word" where "getProtocol = range_get 79 72"
definition setLength :: "u16 \<Rightarrow> 256 word \<Rightarrow> 256 word" where "setLength l = range_set 95 80 (reverse16 l)"
definition getLength :: "256 word \<Rightarrow> u16" where "getLength h = reverse16 (range_get 95 80 h)"
definition setSrcPort :: "u16 \<Rightarrow> 256 word \<Rightarrow> 256 word" where "setSrcPort p = range_set 111 96 p"
definition getSrcPort :: "256 word \<Rightarrow> u16" where "getSrcPort = range_get 111 96"
definition setDstPort :: "u16 \<Rightarrow> 256 word \<Rightarrow> 256 word" where "setDstPort p = range_set 127 112 p"
definition getDstPort :: "256 word \<Rightarrow> u16" where "getDstPort = range_get 127 112"
definition setSeqNumb :: "u32 \<Rightarrow> 256 word \<Rightarrow> 256 word" where "setSeqNumb q = range_set 159 128 (reverse32 q)"
definition getSeqNumb :: "256 word \<Rightarrow> u32" where "getSeqNumb h = reverse32 (range_get 159 128 h)"
definition setAckNumb :: "u32 \<Rightarrow> 256 word \<Rightarrow> 256 word" where "setAckNumb q = range_set 191 160 (reverse32 q)"
definition full_getAckNumb :: "256 word \<Rightarrow> u32" where "full_getAckNumb h = reverse32 (range_get 191 160 h)"
definition setDataOffset :: "4 word \<Rightarrow> 256 word \<Rightarrow> 256 word" where "setDataOffset d = range_set 199 196 d"
definition getDataOffset :: "256 word \<Rightarrow> 4 word" where "getDataOffset = range_get 199 196"
definition getAckFlag :: "256 word \<Rightarrow> bool" where "getAckFlag h = bit h 204"
definition setAckFlag :: "bool \<Rightarrow> 256 word \<Rightarrow> 256 word" where "setAckFlag b = put_flag 204 b"
definition getRstFlag :: "256 word \<Rightarrow> bool" where "getRstFlag h = bit h 202"
definition setRstFlag :: "bool \<Rightarrow> 256 word \<Rightarrow> 256 word" where "setRstFlag b = put_flag 202 b"
definition getSynFlag :: "256 word \<Rightarrow> bool" where "getSynFlag h = bit h 201"
definition setSynFlag :: "bool \<Rightarrow> 256 word \<Rightarrow> 256 word" where "setSynFlag b = put_flag 201 b"
definition getFinFlag :: "256 word \<Rightarrow> bool" where "getFinFlag h = bit h 200"
definition setFinFlag :: "bool \<Rightarrow> 256 word \<Rightarrow> 256 word" where "setFinFlag b = put_flag 200 b"
definition setWindowSize :: "u16 \<Rightarrow> 256 word \<Rightarrow> 256 word" where "setWindowSize w = range_set 223 208 (reverse16 w)"
definition getWindowSize :: "256 word \<Rightarrow> u16" where "getWindowSize h = reverse16 (range_get 223 208 h)"
definition setChecksum :: "u16 \<Rightarrow> 256 word \<Rightarrow> 256 word" where "setChecksum c = range_set 239 224 c"
definition getChecksum :: "256 word \<Rightarrow> u16" where "getChecksum = range_get 239 224"

subsection \<open>Fields of the IPv4 header\<close>

text \<open>\<^verbatim>\<open>ipv4Header\<close>, 160 bits.\<close>

definition ip_init :: "160 word \<Rightarrow> 160 word" where
  "ip_init h = range_set 71 64 (0x40 :: 8 word) (range_set 7 0 (0x45 :: 8 word) h)"

definition ip_setSrcAddr :: "u32 \<Rightarrow> 160 word \<Rightarrow> 160 word" where "ip_setSrcAddr a = range_set 127 96 a"
definition ip_getSrcAddr :: "160 word \<Rightarrow> u32" where "ip_getSrcAddr = range_get 127 96"
definition ip_setDstAddr :: "u32 \<Rightarrow> 160 word \<Rightarrow> 160 word" where "ip_setDstAddr a = range_set 159 128 a"
definition ip_getDstAddr :: "160 word \<Rightarrow> u32" where "ip_getDstAddr = range_get 159 128"
definition ip_setLength :: "u16 \<Rightarrow> 160 word \<Rightarrow> 160 word" where "ip_setLength l = range_set 31 16 (reverse16 l)"
definition ip_getLength :: "160 word \<Rightarrow> u16" where "ip_getLength h = reverse16 (range_get 31 16 h)"
definition ip_setProtocol :: "8 word \<Rightarrow> 160 word \<Rightarrow> 160 word" where "ip_setProtocol p = range_set 79 72 p"
definition ip_getProtocol :: "160 word \<Rightarrow> 8 word" where "ip_getProtocol = range_get 79 72"
definition ip_getHeaderLength :: "160 word \<Rightarrow> 4 word" where "ip_getHeaderLength = range_get 3 0"

subsection \<open>Reading back a field\<close>

named_theorems header_field \<open>reading a field after another or the same is set\<close>

lemma bit_range_set_other:
  "n < lo \<or> hi < n \<Longrightarrow> lo \<le> hi \<Longrightarrow> bit (range_set hi lo (v :: 'b::len word) (h :: 'a::len word)) n = bit h n"
  by (auto simp: bit_range_set dest: bit_imp_le_length)

lemma bit_put_flag: "bit (put_flag n b h) m = (if m = n \<and> n < 256 then b else bit h m)"
  by (auto simp: put_flag_def bit_range_set bit_simps dest: bit_imp_le_length)

lemma range_get_put_flag:
  "hi < n \<or> n < lo \<Longrightarrow> lo \<le> hi \<Longrightarrow> (range_get hi lo (put_flag n b h) :: 'c::len word) = range_get hi lo h"
  by (auto simp: put_flag_def range_get_set_other)

lemmas set_fields = pseudo_setSrcAddr_def pseudo_setDstAddr_def pseudo_setLength_def setSrcAddr_def setDstAddr_def
  setLength_def setSrcPort_def setDstPort_def setSeqNumb_def setAckNumb_def setDataOffset_def setAckFlag_def
  setRstFlag_def setSynFlag_def setFinFlag_def setWindowSize_def setChecksum_def ip_setSrcAddr_def ip_setDstAddr_def
  ip_setLength_def ip_setProtocol_def

lemmas get_fields = getSrcAddr_def getDstAddr_def getProtocol_def getLength_def getSrcPort_def getDstPort_def
  getSeqNumb_def full_getAckNumb_def getDataOffset_def getAckFlag_def getRstFlag_def getSynFlag_def getFinFlag_def
  getWindowSize_def getChecksum_def ip_getSrcAddr_def ip_getDstAddr_def ip_getLength_def ip_getProtocol_def
  ip_getHeaderLength_def

lemmas read_field = range_get_set_same range_get_set_other bit_range_set_other bit_put_flag range_get_put_flag

subsection \<open>The bytes of a header\<close>

definition header_bytes :: "'h::len word \<Rightarrow> byte list" where
  "header_bytes h = map (\<lambda>i. ucast (drop_bit (8 * i) h)) [0..<LENGTH('h) div 8]"

lemma header_bytes_length [simp]: "length (header_bytes (h :: 'h::len word)) = LENGTH('h) div 8"
  by (simp add: header_bytes_def)

lemma header_bytes_nth:
  "i < LENGTH('h) div 8 \<Longrightarrow> header_bytes (h :: 'h::len word) ! i = ucast (drop_bit (8 * i) h)"
  by (simp add: header_bytes_def)

text \<open>The bytes of a header of which a field has been set.\<close>

lemma header_bytes_set:
  fixes v :: "'b::len word" and h :: "'h::len word"
  assumes "LENGTH('h) = 8 * n" and "LENGTH('b) = 8 * k" and "lo = 8 * m" and "hi + 1 = 8 * (m + k)" and "m + k \<le> n"
  shows "header_bytes (range_set hi lo v h) = take m (header_bytes h) @ header_bytes v @ drop (m + k) (header_bytes h)"
proof (rule nth_equalityI)
  have k: "0 < k" using assms(2) len_gt_0[where 'a = 'b] by (cases k) auto
  show "length (header_bytes (range_set hi lo v h)) = length (take m (header_bytes h) @ header_bytes v @ drop (m + k) (header_bytes h))"
    using assms by simp
  fix i assume "i < length (header_bytes (range_set hi lo v h))"
  then have i: "i < n" using assms(1) by simp
  have hi: "lo + (hi - lo) = hi" using assms(3,4) k by simp
  have bit: "bit (ucast (drop_bit (8 * i) (range_set hi lo v h)) :: byte) j
      = (if m \<le> i \<and> i < m + k then bit v (8 * (i - m) + j) else bit h (8 * i + j))" if j: "j < 8" for j
  proof -
    have lt: "8 * i + j < LENGTH('h)" using i j assms(1) by simp
    have le: "lo \<le> 8 * i + j \<longleftrightarrow> m \<le> i" "8 * i + j \<le> hi \<longleftrightarrow> i < m + k" using j assms(3,4) by arith+
    have "bit (ucast (drop_bit (8 * i) (range_set hi lo v h)) :: byte) j = bit (range_set hi lo v h) (8 * i + j)"
      using j by (simp add: bit_simps)
    also have "\<dots> = (if m \<le> i \<and> i < m + k then 8 * i + j - lo < LENGTH('b) \<and> bit v (8 * i + j - lo) else bit h (8 * i + j))"
      by (simp only: bit_range_set hi le lt simp_thms)
    also have "\<dots> = (if m \<le> i \<and> i < m + k then bit v (8 * (i - m) + j) else bit h (8 * i + j))"
    proof (cases "m \<le> i \<and> i < m + k")
      case True
      then have "8 * i + j - lo = 8 * (i - m) + j" "8 * (i - m) + j < LENGTH('b)" using j assms(2,3) by arith+
      then show ?thesis using True by (simp only: simp_thms if_True)
    qed (simp only: if_False)
    finally show ?thesis .
  qed
  show "header_bytes (range_set hi lo v h) ! i = (take m (header_bytes h) @ header_bytes v @ drop (m + k) (header_bytes h)) ! i"
  proof (rule bit_word_eqI)
    fix j :: nat assume "j < LENGTH(8)"
    then have j: "j < 8" by simp
    have hb: "bit (header_bytes h ! i) j = bit h (8 * i + j)" "bit (header_bytes (range_set hi lo v h) ! i) j =
        bit (ucast (drop_bit (8 * i) (range_set hi lo v h)) :: byte) j"
      using i j assms(1) by (simp_all add: header_bytes_nth bit_simps)
    have "bit (header_bytes v ! (i - m)) j = bit v (8 * (i - m) + j)" if "m \<le> i" "i < m + k"
    proof -
      have "i - m < LENGTH('b) div 8" using that assms(2) by simp
      then show ?thesis using j by (simp add: header_bytes_nth bit_simps)
    qed
    then show "bit (header_bytes (range_set hi lo v h) ! i) j
        = bit ((take m (header_bytes h) @ header_bytes v @ drop (m + k) (header_bytes h)) ! i) j"
      using hb bit[OF j] i assms(1,2,5) by (auto simp: nth_append)
  qed
qed

lemma header_bytes_inj:
  fixes h h' :: "'h::len word"
  assumes "LENGTH('h) = 8 * n" and "header_bytes h = header_bytes h'"
  shows "h = h'"
proof (intro bit_word_eqI)
  fix p assume p: "p < LENGTH('h)"
  have "header_bytes h ! (p div 8) = header_bytes h' ! (p div 8)" using assms(2) by simp
  moreover have "p div 8 < LENGTH('h) div 8" using p assms(1) by (simp add: less_mult_imp_div_less)
  ultimately have "bit (ucast (drop_bit (8 * (p div 8)) h) :: byte) (p mod 8)
      = bit (ucast (drop_bit (8 * (p div 8)) h') :: byte) (p mod 8)" by (simp add: header_bytes_nth)
  then show "bit h p = bit h' p" by (simp add: bit_simps)
qed

lemma bit_data_of:
  "bit (data_of ls :: 'h::len word) n \<longleftrightarrow> n < LENGTH('h) \<and> n div 8 < length ls \<and> bit (fst (ls ! (n div 8))) (n mod 8)"
  using bit_horner_sum_uint_exp_iff[of "map fst ls" n] by (auto simp: data_of_def bit_simps)

subsection \<open>Collecting a header\<close>

text \<open>The first \<open>i\<close> words of a packet with the bytes \<open>bs\<close> have been collected.\<close>

definition parsed :: "nat \<Rightarrow> nat \<Rightarrow> byte list \<Rightarrow> 'h::len packetHeader \<Rightarrow> bool" where
  "parsed W i bs h \<longleftrightarrow> \<not> ph_ready h \<and> unat (ph_idx h) = i
     \<and> (\<forall>p < 8 * (W * i). p < LENGTH('h) \<longrightarrow> bit (ph_header h) p = bit (bs ! (p div 8)) (p mod 8))"

text \<open>The bytes of word \<open>i\<close> that belong to the first \<open>n\<close> of the packet.\<close>

definition word_of :: "nat \<Rightarrow> nat \<Rightarrow> nat \<Rightarrow> byte list \<Rightarrow> lane list \<Rightarrow> bool" where
  "word_of W n i bs ls \<longleftrightarrow> length ls = W \<and> (\<forall>j < W. W * i + j < n \<longrightarrow> fst (ls ! j) = bs ! (W * i + j))"

lemma parsed_clear: "parsed W 0 bs (ph_clear h)"
  by (simp add: parsed_def ph_clear_def)

lemma word_of_bit:
  assumes "word_of W n i bs ls" and "8 * (W * i) \<le> p" and "p < 8 * (W * i) + 8 * W" and "p < 8 * n"
  shows "(p - 8 * (W * i)) div 8 < length ls \<and> bit (fst (ls ! ((p - 8 * (W * i)) div 8))) ((p - 8 * (W * i)) mod 8)
     = bit (bs ! (p div 8)) (p mod 8)"
proof -
  define q where "q = p - 8 * (W * i)"
  have p: "p = q + 8 * (W * i)" using assms(2) by (simp add: q_def)
  then have pq: "p div 8 = q div 8 + W * i" "p mod 8 = q mod 8" by simp_all
  have lt: "q div 8 < W" using assms(3) p by (simp add: less_mult_imp_div_less)
  have "q div 8 + W * i < n" using assms(4) pq(1) by (metis less_mult_imp_div_less mult.commute)
  then have "fst (ls ! (q div 8)) = bs ! (q div 8 + W * i)"
    using assms(1) lt by (simp add: word_of_def add.commute)
  then show ?thesis using lt assms(1) by (simp add: pq word_of_def flip: q_def)
qed

lemma idx_Suc: "unat (x :: u16) + 1 < 65536 \<Longrightarrow> unat (x + 1) = unat x + 1"
  by (simp add: unat_add_mod)

lemma parse_more:
  fixes h :: "'h::len packetHeader"
  assumes "parsed W i bs h" and "word_of W n i bs ls" and "LENGTH('h) = 8 * n" and "W * i + W < n" and "0 < W"
    and "i + 1 < 65536"
  shows "parsed W (i + 1) bs (parseWord W ls h)"
proof -
  have eq: "i * (8 * W) = 8 * (W * i)" by simp
  have lt: "8 * (W * i) + 8 * W < LENGTH('h)" using assms(3,4) by simp
  have h: "\<not> ph_ready h" "unat (ph_idx h) = i" using assms(1) by (simp_all add: parsed_def)
  then have new: "parseWord W ls h = h\<lparr>ph_header := range_set (8 * (W * i) + 8 * W - 1) (8 * (W * i)) (data_of ls :: 'h word)
      (ph_header h), ph_idx := ph_idx h + 1\<rparr>"
    using lt by (simp add: parseWord_def Let_def eq)
  have "bit (ph_header (parseWord W ls h)) p = bit (bs ! (p div 8)) (p mod 8)"
    if p: "p < 8 * (W * (i + 1))" "p < LENGTH('h)" for p
  proof (cases "p < 8 * (W * i)")
    case True
    then show ?thesis using assms(1,5) p by (simp add: new parsed_def bit_range_set)
  next
    case False
    then have r: "8 * (W * i) \<le> p" "p < 8 * (W * i) + 8 * W" "p < 8 * n" using p assms(3) by (simp_all add: algebra_simps)
    have "p - 8 * (W * i) < LENGTH('h)" using p(2) by simp
    then show ?thesis using word_of_bit[OF assms(2) r] r p by (auto simp: new bit_range_set bit_data_of)
  qed
  then show ?thesis using h assms(6) by (simp add: parsed_def new idx_Suc)
qed

lemma parse_end:
  fixes h :: "'h::len packetHeader"
  assumes "parsed W i bs h" and "word_of W n i bs ls" and "LENGTH('h) = 8 * n" and "n \<le> W * i + W" and "W * i < n"
    and "n \<le> length bs"
  shows "ph_ready (parseWord W ls h)" and "header_bytes (ph_header (parseWord W ls h)) = take n bs"
proof -
  have eq: "i * (8 * W) = 8 * (W * i)" by simp
  have ge: "\<not> 8 * (W * i) + 8 * W < LENGTH('h)" using assms(3,4) by simp
  have h: "\<not> ph_ready h" "unat (ph_idx h) = i" using assms(1) by (simp_all add: parsed_def)
  then have new: "parseWord W ls h = h\<lparr>ph_header := range_set (LENGTH('h) - 1) (8 * (W * i)) (data_of ls :: 'h word)
      (ph_header h), ph_ready := True, ph_idx := ph_idx h + 1\<rparr>"
    using ge by (simp add: parseWord_def Let_def eq)
  then show "ph_ready (parseWord W ls h)" by simp
  have b: "bit (ph_header (parseWord W ls h)) p = bit (bs ! (p div 8)) (p mod 8)" if p: "p < LENGTH('h)" for p
  proof (cases "p < 8 * (W * i)")
    case True
    then show ?thesis using assms(1) p by (simp add: new parsed_def bit_range_set)
  next
    case False
    then have r: "8 * (W * i) \<le> p" "p < 8 * (W * i) + 8 * W" "p < 8 * n" using p assms(3,4) by simp_all
    have "p - 8 * (W * i) < LENGTH('h)" using p by simp
    then show ?thesis using word_of_bit[OF assms(2) r] r p by (auto simp: new bit_range_set bit_data_of)
  qed
  show "header_bytes (ph_header (parseWord W ls h)) = take n bs"
  proof (rule nth_equalityI)
    show "length (header_bytes (ph_header (parseWord W ls h))) = length (take n bs)" using assms(3,6) by simp
    fix j assume "j < length (header_bytes (ph_header (parseWord W ls h)))"
    then have j: "j < n" using assms(3) by simp
    have "bit (ucast (drop_bit (8 * j) (ph_header (parseWord W ls h))) :: byte) k = bit (bs ! j) k" if "k < 8" for k
    proof -
      have lt: "8 * j + k < LENGTH('h)" using that j assms(3) by simp
      show ?thesis using b[OF lt] that by (simp add: bit_simps)
    qed
    then have "ucast (drop_bit (8 * j) (ph_header (parseWord W ls h))) = bs ! j" by (intro bit_word_eqI) simp
    then show "header_bytes (ph_header (parseWord W ls h)) ! j = take n bs ! j" using j assms(3) by (simp add: header_bytes_nth)
  qed
qed

lemma parse_ready: "ph_ready h \<Longrightarrow> parseWord W ls h = h"
  by (simp add: parseWord_def)

subsection \<open>Laying out a header\<close>

lemma put_bytes_length [simp]: "length (put_bytes n x ls) = length ls"
  by (simp add: put_bytes_def)

lemma put_bytes_nth:
  "j < length ls \<Longrightarrow> put_bytes n x ls ! j = (if j < n then ucast (drop_bit (8 * j) x) else fst (ls ! j), snd (ls ! j))"
  by (simp add: put_bytes_def case_prod_unfold nth_enumerate_eq)

lemma part_byte:
  fixes h :: "'h::len word"
  assumes "LENGTH('h) = 8 * n" and "m + j < n" and "8 * (m + j) + 7 \<le> hi"
  shows "(ucast (drop_bit (8 * j) (range_get hi (8 * m) h :: 'h word)) :: byte) = header_bytes h ! (m + j)"
proof -
  have "bit (ucast (drop_bit (8 * j) (range_get hi (8 * m) h :: 'h word)) :: byte) k = bit (header_bytes h ! (m + j)) k"
    if "k < 8" for k
  proof -
    have "8 * j + k + 8 * m < LENGTH('h)" "8 * j + k \<le> hi - 8 * m" using that assms by simp_all
    then show ?thesis using that assms(1,2) by (simp add: header_bytes_nth bit_simps bit_range_get algebra_simps)
  qed
  then show ?thesis by (intro bit_word_eqI) simp
qed

text \<open>A whole word of the header, and the rest of it put at the bottom of a word.\<close>

lemma consume_full:
  fixes h :: "'h::len packetHeader"
  assumes "LENGTH('h) = 8 * n" and "unat (ph_idx h) = i" and "W * i + W \<le> n" and "length ls = W" and "0 < W"
  shows "consumeWord W ls h = (of_nat (n - (W * i + W)),
     zip (take W (drop (W * i) (header_bytes (ph_header h)))) (map snd ls), h\<lparr>ph_idx := ph_idx h + 1\<rparr>)"
proof -
  have eq: "(i + 1) * (8 * W) = 8 * (W * i + W)" "i * (8 * W) = 8 * (W * i)" by (simp_all add: algebra_simps)
  have le: "8 * (W * i + W) \<le> LENGTH('h)" using assms(1,3) by simp
  have "consumeWord W ls h = (of_nat ((8 * n - 8 * (W * i + W)) div 8),
      put_bytes W (range_get (8 * (W * i + W) - 1) (8 * (W * i)) (ph_header h) :: 'h word) ls, h\<lparr>ph_idx := ph_idx h + 1\<rparr>)"
    unfolding consumeWord_def Let_def assms(2) eq using le assms(1) by simp
  moreover have "(8 * n - 8 * (W * i + W)) div 8 = n - (W * i + W)"
    by (simp flip: diff_mult_distrib2)
  moreover have "put_bytes W (range_get (8 * (W * i + W) - 1) (8 * (W * i)) (ph_header h) :: 'h word) ls
      = zip (take W (drop (W * i) (header_bytes (ph_header h)))) (map snd ls)"
  proof (rule nth_equalityI)
    fix j assume "j < length (put_bytes W (range_get (8 * (W * i + W) - 1) (8 * (W * i)) (ph_header h) :: 'h word) ls)"
    then have j: "j < W" using assms(4) by simp
    then have "W * i + j < n" "8 * (W * i + j) + 7 \<le> 8 * (W * i + W) - 1" using assms(3) by simp_all
    from part_byte[OF assms(1) this]
    show "put_bytes W (range_get (8 * (W * i + W) - 1) (8 * (W * i)) (ph_header h) :: 'h word) ls ! j
        = zip (take W (drop (W * i) (header_bytes (ph_header h)))) (map snd ls) ! j"
      using j assms by (simp add: put_bytes_nth)
  qed (use assms in simp)
  ultimately show ?thesis by simp
qed

lemma consume_rest:
  fixes h :: "'h::len packetHeader"
  assumes "LENGTH('h) = 8 * n" and "unat (ph_idx h) = i" and "n < W * i + W" and "W * i < n" and "length ls = W"
  shows "consumeWord W ls h = (0,
     zip (drop (W * i) (header_bytes (ph_header h)) @ drop (n - W * i) (map fst ls)) (map snd ls),
     h\<lparr>ph_idx := ph_idx h + 1\<rparr>)"
proof -
  have eq: "(i + 1) * (8 * W) = 8 * (W * i + W)" "i * (8 * W) = 8 * (W * i)" by (simp_all add: algebra_simps)
  have lt: "LENGTH('h) < 8 * (W * i + W)" "8 * (W * i) < LENGTH('h)" using assms(1,3,4) by simp_all
  have "n mod W = n - W * i"
    using assms(3,4) by (metis add.commute add_diff_cancel_left' le_add_diff_inverse less_imp_le mod_less mod_mult_self4 nat_add_left_cancel_less)
  then have m: "LENGTH('h) mod (8 * W) div 8 = n - W * i" by (simp add: assms(1) flip: mult_mod_right)
  have "consumeWord W ls h = (0, put_bytes (n - W * i) (range_get (8 * n - 1) (8 * (W * i)) (ph_header h) :: 'h word) ls,
      h\<lparr>ph_idx := ph_idx h + 1\<rparr>)"
    unfolding consumeWord_def Let_def assms(2) eq m using lt assms(1) by simp
  moreover have "put_bytes (n - W * i) (range_get (8 * n - 1) (8 * (W * i)) (ph_header h) :: 'h word) ls
      = zip (drop (W * i) (header_bytes (ph_header h)) @ drop (n - W * i) (map fst ls)) (map snd ls)"
  proof (rule nth_equalityI)
    show "length (put_bytes (n - W * i) (range_get (8 * n - 1) (8 * (W * i)) (ph_header h) :: 'h word) ls)
        = length (zip (drop (W * i) (header_bytes (ph_header h)) @ drop (n - W * i) (map fst ls)) (map snd ls))"
      using assms by simp
    fix j assume "j < length (put_bytes (n - W * i) (range_get (8 * n - 1) (8 * (W * i)) (ph_header h) :: 'h word) ls)"
    then have j: "j < W" using assms(5) by simp
    show "put_bytes (n - W * i) (range_get (8 * n - 1) (8 * (W * i)) (ph_header h) :: 'h word) ls ! j
        = zip (drop (W * i) (header_bytes (ph_header h)) @ drop (n - W * i) (map fst ls)) (map snd ls) ! j"
    proof (cases "j < n - W * i")
      case True
      then have "W * i + j < n" "8 * (W * i + j) + 7 \<le> 8 * n - 1" by simp_all
      from part_byte[OF assms(1) this] show ?thesis using j True assms by (simp add: put_bytes_nth nth_append)
    next
      case False
      then show ?thesis using j assms by (simp add: put_bytes_nth nth_append)
    qed
  qed
  ultimately show ?thesis by simp
qed

text \<open>Other bytes at the start of a packet.\<close>

lemma packet_replace:
  assumes "packet W (w # ws) (as @ bs)" and "length as = length cs" and "length cs \<le> W" and "cs \<noteq> []"
  shows "packet W (w\<lparr>ax_lanes := zip (cs @ drop (length cs) (map fst (ax_lanes w))) (map snd (ax_lanes w))\<rparr> # ws) (cs @ bs)"
proof -
  let ?l = "zip (cs @ drop (length cs) (map fst (ax_lanes w))) (map snd (ax_lanes w))"
  have len: "length (ax_lanes w) = W" using assms(1) by (rule packet_lanes)
  have nth: "?l ! j = (if j < length cs then cs ! j else fst (ax_lanes w ! j), snd (ax_lanes w ! j))" if "j < W" for j
    using that len assms(3) by (simp add: nth_append)
  have snd: "map snd ?l = map snd (ax_lanes w)" using len assms(3) by (simp add: map_snd_zip)
  have take: "take k ?l = map (\<lambda>b. (b, True)) (take k (cs @ bs))"
    if t: "take k (ax_lanes w) = map (\<lambda>b. (b, True)) (take k (as @ bs))" and k: "k \<le> W" "k \<le> length (as @ bs)" for k
  proof (rule nth_equalityI)
    show "length (take k ?l) = length (map (\<lambda>b. (b, True)) (take k (cs @ bs)))" using k len assms(2,3) by simp
    fix j assume "j < length (take k ?l)"
    then have j: "j < k" "j < W" using k(1) by simp_all
    have "ax_lanes w ! j = take k (ax_lanes w) ! j" using j by simp
    also have "\<dots> = map (\<lambda>b. (b, True)) (take k (as @ bs)) ! j" by (simp only: t)
    also have "\<dots> = ((as @ bs) ! j, True)" using j k by (simp del: take_append map_append)
    finally have "ax_lanes w ! j = ((as @ bs) ! j, True)" .
    then show "take k ?l ! j = map (\<lambda>b. (b, True)) (take k (cs @ bs)) ! j"
      using j k nth[OF j(2)] assms(2) by (simp add: nth_append del: take_append map_append)
  qed
  show ?thesis
  proof (cases "ws = []")
    case True
    then have p: "ax_last w" "length (as @ bs) \<le> W" "take (length (as @ bs)) (ax_lanes w) = map (\<lambda>b. (b, True)) (as @ bs)"
      "map snd (drop (length (as @ bs)) (ax_lanes w)) = replicate (W - length (as @ bs)) False"
      using assms(1) by (simp_all only: packet_single)
    have "take (length (as @ bs)) ?l = map (\<lambda>b. (b, True)) (take (length (as @ bs)) (cs @ bs))"
      by (rule take) (use p in simp_all)
    moreover have "map snd (drop (length (as @ bs)) ?l) = replicate (W - length (as @ bs)) False"
      using p(4) snd by (metis drop_map)
    ultimately show ?thesis using True p(1,2) assms(2,4) by (simp add: packet_single)
  next
    case False
    then have p: "\<not> ax_last w" "W < length (as @ bs)" "ax_lanes w = map (\<lambda>b. (b, True)) (take W (as @ bs))"
      "packet W ws (drop W (as @ bs))" using assms(1) packet_cons[OF False, of W w "as @ bs"] by blast+
    have "take W ?l = map (\<lambda>b. (b, True)) (take W (cs @ bs))"
      by (rule take) (use p in simp_all)
    moreover have "length ?l = W" using len assms(3) by simp
    moreover have "drop W (as @ bs) = drop W (cs @ bs)" using assms(2,3) by simp
    ultimately show ?thesis using False p assms(2) by (simp add: packet_cons)
  qed
qed

subsection \<open>The words of a packet\<close>

lemma take_drop_append: "take n xs @ drop n xs @ ys = xs @ ys"
  by (metis append_assoc append_take_drop_id)

lemma packet_drop: "packet W ws bs \<Longrightarrow> i < length ws \<Longrightarrow> packet W (drop i ws) (drop (W * i) bs)"
proof (induction i arbitrary: ws bs)
  case (Suc i)
  then obtain w ws' where ws: "ws = w # ws'" by (cases ws) auto
  then have "ws' \<noteq> []" using Suc.prems by auto
  then have "packet W ws' (drop W bs)" using Suc.prems(1) ws by (simp add: packet_cons)
  then show ?case using Suc.IH[of ws' "drop W bs"] Suc.prems(2) ws by (simp add: add.commute)
qed simp

lemma packet_nth:
  assumes "packet W ws bs" and "i < length ws"
  shows "word_of W (length bs) i bs (ax_lanes (ws ! i))" and "ax_last (ws ! i) \<longleftrightarrow> Suc i = length ws"
    and "Suc i = length ws \<longleftrightarrow> length bs \<le> W * i + W" and "W * i < length bs"
proof -
  have d: "packet W (ws ! i # drop (Suc i) ws) (drop (W * i) bs)"
    using packet_drop[OF assms] assms(2) by (simp add: Cons_nth_drop_Suc)
  have len: "length (ax_lanes (ws ! i)) = W" using d by (rule packet_lanes)
  have "fst (ax_lanes (ws ! i) ! j) = bs ! (W * i + j)" if j: "j < W" "W * i + j < length bs" for j
  proof -
    have "take (Suc j) (ax_lanes (ws ! i)) = map (\<lambda>b. (b, True)) (take (Suc j) (drop (W * i) bs))"
      by (rule packet_take[OF d]) (use j in simp_all)
    then have "take (Suc j) (ax_lanes (ws ! i)) ! j = map (\<lambda>b. (b, True)) (take (Suc j) (drop (W * i) bs)) ! j" by simp
    then show ?thesis using j by simp
  qed
  then show "word_of W (length bs) i bs (ax_lanes (ws ! i))" using len by (simp add: word_of_def)
  show "ax_last (ws ! i) \<longleftrightarrow> Suc i = length ws" using packet_last[OF d] assms(2) by auto
  show "Suc i = length ws \<longleftrightarrow> length bs \<le> W * i + W" using packet_short[OF d] assms(2) by auto
  show "W * i < length bs" using packet_nonempty[OF d] by simp
qed

lemma packet_longer:
  assumes "packet W ws bs" and "W * i < length bs"
  shows "i < length ws"
proof (rule ccontr)
  assume "\<not> i < length ws"
  define j where "j = length ws - 1"
  have "ws \<noteq> []" using packet_nonempty[OF assms(1)] by simp
  then have j: "j < length ws" "Suc j = length ws" "Suc j \<le> i" using \<open>\<not> i < length ws\<close> by (simp_all add: j_def)
  have "length bs \<le> W * j + W" using packet_nth(3)[OF assms(1) j(1)] j(2) by simp
  moreover have "W * Suc j \<le> W * i" using j(3) mult_le_mono2 by blast
  ultimately show False using assms(2) by simp
qed

lemma word_of_less: "word_of W m i bs ls \<Longrightarrow> n \<le> m \<Longrightarrow> word_of W n i bs ls"
  by (simp add: word_of_def)

end
