(* ===== verification/Rx_Header.thy ===== *)
theory Rx_Header
  imports Packet_Header Word_Shift Rx_Fsm
begin

text \<open>
  The header path of the receive engine (\<^verbatim>\<open>toe/rx_engine/rx_engine.cpp\<close>): \<open>toe_process_ipv4\<close> reads the IPv4 header and
  \<open>drop_optional_ip_header\<close> (\<^verbatim>\<open>ipv4/ipv4.hpp\<close>) takes it off; \<open>constructPseudoHeader\<close> and \<open>prependPseudoHeader\<close> put the
  pseudo header in its place; \<open>processPseudoHeader\<close> reads the TCP header into the metadata of the segment, and
  \<open>drop_optional_header_fields\<close> takes the options off the payload. \<open>W\<close> is the number of byte lanes.
\<close>

subsection \<open>The IPv4 header\<close>

record pseudoMeta =
  pm_their_address :: u32
  pm_our_address :: u32
  pm_length :: u16

record 'm pi_st =
  pi_header :: "160 packetHeader"
  pi_headerWordsDropped :: "4 word"
  pi_metaWritten :: bool
  pif_in :: "net_axis fifo"
  pif_dropLength :: "4 word fifo"
  pif_meta :: "'m fifo"
  pif_out :: "net_axis fifo"

definition ip_meta :: "160 word \<Rightarrow> pseudoMeta" where
  "ip_meta h = \<lparr>pm_their_address = ip_getSrcAddr h, pm_our_address = ip_getDstAddr h,
     pm_length = ip_getLength h - ucast (ip_getHeaderLength h) * 4\<rparr>"

text \<open>The body that \<^verbatim>\<open>toe_process_ipv4\<close> has in common with \<^verbatim>\<open>process_ipv4\<close> of \<^verbatim>\<open>ipv4/ipv4.cpp\<close>; they differ in the metadata
  that \<open>meta\<close> makes of a header.\<close>

definition read_ipv4_header :: "nat \<Rightarrow> (160 word \<Rightarrow> 'm) \<Rightarrow> 'm pi_st \<Rightarrow> 'm pi_st" where
  "read_ipv4_header W meta s =
    (if pif_in s \<noteq> [] then
       (let w = hd (pif_in s); h = parseWord W (ax_lanes w) (pi_header s);
            s = s\<lparr>pif_in := tl (pif_in s), pi_header := h\<rparr>;
            s = (if ph_ready h then
                   (let s = s\<lparr>pif_out := pif_out s @ [w]\<rparr> in
                    if \<not> pi_metaWritten s then
                      s\<lparr>pif_dropLength := pif_dropLength s @ [ip_getHeaderLength (ph_header h) - pi_headerWordsDropped s],
                        pif_meta := pif_meta s @ [meta (ph_header h)], pi_metaWritten := True\<rparr>
                    else s)
                 else s);
            s = s\<lparr>pi_headerWordsDropped := pi_headerWordsDropped s + of_nat (8 * W div 32)\<rparr> in
        if ax_last w then s\<lparr>pi_metaWritten := False, pi_header := ph_clear h, pi_headerWordsDropped := 0\<rparr> else s)
     else s)"

definition toe_process_ipv4 :: "nat \<Rightarrow> pseudoMeta pi_st \<Rightarrow> pseudoMeta pi_st" where
  "toe_process_ipv4 W = read_ipv4_header W ip_meta"

datatype doh_fsm = DOH_META | DOH_DROP | DOH_BODY | SHIFT | LAST | SHIFT_FIVE | LAST_FIVE

record doh_st =
  doh_state :: doh_fsm
  doh_length :: "4 word"
  doh_prev :: net_axis
  dohf_length :: "4 word fifo"
  dohf_in :: "net_axis fifo"
  dohf_out :: "net_axis fifo"

text \<open>A word made of the upper lanes of the last one and the lower lanes of the next; the upper lanes alone.\<close>

definition doh_shift :: "nat \<Rightarrow> doh_fsm \<Rightarrow> doh_st \<Rightarrow> doh_st" where
  "doh_shift k l s =
    (if dohf_in s \<noteq> [] then
       (let w = hd (dohf_in s); ended = (\<not> keep_at k w) in
        s\<lparr>dohf_in := tl (dohf_in s), dohf_out := dohf_out s @ [\<lparr>ax_lanes = alignWords k (doh_prev s) w, ax_last = ended\<rparr>],
          doh_prev := w, doh_state := (if ended then DOH_META else if ax_last w then l else doh_state s)\<rparr>)
     else s)"

definition doh_last :: "nat \<Rightarrow> doh_st \<Rightarrow> doh_st" where
  "doh_last k s = s\<lparr>dohf_out := dohf_out s @ [\<lparr>ax_lanes = drop k (ax_lanes (doh_prev s)) @ replicate k (0, False), ax_last = True\<rparr>],
     doh_state := DOH_META\<rparr>"

definition doh_meta :: "nat \<Rightarrow> doh_st \<Rightarrow> doh_st" where
  "doh_meta W s =
    (if dohf_length s \<noteq> [] \<and> dohf_in s \<noteq> [] then
       (let n = hd (dohf_length s); s = s\<lparr>doh_length := n, dohf_length := tl (dohf_length s)\<rparr>;
            w = hd (dohf_in s);
            taken = s\<lparr>doh_prev := w, dohf_in := tl (dohf_in s)\<rparr> in
        if W = 8 \<or> W = 16 then
          (if 1 < n then s\<lparr>doh_state := DOH_DROP\<rparr> else taken\<lparr>doh_state := SHIFT\<rparr>)
        else if W = 32 \<or> W = 64 then
          (if n = 5 then taken\<lparr>doh_state := (if ax_last w then LAST_FIVE else SHIFT_FIVE)\<rparr> else s)
        else s)
     else s)"

definition drop_optional_ip_header :: "nat \<Rightarrow> doh_st \<Rightarrow> doh_st" where
  "drop_optional_ip_header W s =
    (case doh_state s of
       DOH_META \<Rightarrow> doh_meta W s
     | DOH_DROP \<Rightarrow>
         (if dohf_in s \<noteq> [] then
            (let n = doh_length s - 2 in
             s\<lparr>doh_prev := hd (dohf_in s), dohf_in := tl (dohf_in s), doh_length := n,
               doh_state := (if n = 1 then SHIFT else if n = 0 then DOH_BODY else DOH_DROP)\<rparr>)
          else s)
     | DOH_BODY \<Rightarrow>
         (if dohf_in s \<noteq> [] then
            (let w = hd (dohf_in s) in
             s\<lparr>dohf_in := tl (dohf_in s), dohf_out := dohf_out s @ [w], doh_state := (if ax_last w then DOH_META else DOH_BODY)\<rparr>)
          else s)
     | SHIFT \<Rightarrow> doh_shift 4 LAST s
     | SHIFT_FIVE \<Rightarrow> doh_shift 20 LAST_FIVE s
     | LAST \<Rightarrow> doh_last 4 s
     | LAST_FIVE \<Rightarrow> doh_last 20 s)"

subsection \<open>The pseudo header\<close>

record ch_st =
  ch_HEADER :: bool
  ch_header :: "96 packetHeader"
  chf_meta :: "pseudoMeta fifo"
  chf_out :: "net_axis fifo"

definition ch_fill :: "pseudoMeta \<Rightarrow> 96 word \<Rightarrow> 96 word" where
  "ch_fill m = pseudo_setLength (pm_length m) \<circ> pseudo_setDstAddr (pm_our_address m) \<circ> pseudo_setSrcAddr (pm_their_address m)"

text \<open>\<open>u\<close> is what the word that is sent holds before it is assigned.\<close>

definition constructPseudoHeader :: "nat \<Rightarrow> lane list \<Rightarrow> ch_st \<Rightarrow> ch_st" where
  "constructPseudoHeader W u s =
    (if \<not> ch_HEADER s then
       (if chf_meta s \<noteq> [] then
          (let h = ph_clear (ch_header s) in
           s\<lparr>chf_meta := tl (chf_meta s), ch_header := h\<lparr>ph_header := ch_fill (hd (chf_meta s)) (ph_header h)\<rparr>, ch_HEADER := True\<rparr>)
        else s)
     else
       (case consumeWord W u (ch_header s) of (rem, ls, h) \<Rightarrow>
          s\<lparr>ch_header := h, chf_out := chf_out s @ [\<lparr>ax_lanes = map (\<lambda>(b, _). (b, True)) ls, ax_last = (rem = 0)\<rparr>],
            ch_HEADER := (rem \<noteq> 0)\<rparr>))"

record pp_st =
  pp_PAYLOAD :: bool
  pp_prev :: net_axis
  pp_firstPayload :: bool
  ppf_header :: "net_axis fifo"
  ppf_packet :: "net_axis fifo"
  ppf_out :: "net_axis fifo"

text \<open>The lowest \<open>n\<close> bytes of \<^verbatim>\<open>data\<close> taken from another word.\<close>

definition copy_data :: "nat \<Rightarrow> net_axis \<Rightarrow> net_axis \<Rightarrow> net_axis" where
  "copy_data n p w = w\<lparr>ax_lanes := zip (take n (map fst (ax_lanes p)) @ drop n (map fst (ax_lanes w))) (map snd (ax_lanes w))\<rparr>"

definition prependPseudoHeader :: "nat \<Rightarrow> pp_st \<Rightarrow> pp_st" where
  "prependPseudoHeader W s =
    (if \<not> pp_PAYLOAD s then
       (if ppf_header s \<noteq> [] then
          (let w = hd (ppf_header s); s = s\<lparr>ppf_header := tl (ppf_header s), pp_prev := w\<rparr> in
           if \<not> ax_last w then s\<lparr>ppf_out := ppf_out s @ [w]\<rparr>
           else s\<lparr>pp_prev := w\<lparr>ax_last := False\<rparr>, pp_firstPayload := True, pp_PAYLOAD := True\<rparr>)
        else s)
     else
       (if ppf_packet s \<noteq> [] then
          (let w = hd (ppf_packet s);
               o1 = (if pp_firstPayload s then
                       (if 8 * W = 64 then copy_data 4 (pp_prev s) w
                        else if 64 < 8 * W then copy_data 12 (pp_prev s) w else w)
                     else w) in
           s\<lparr>ppf_packet := tl (ppf_packet s), pp_firstPayload := False, ppf_out := ppf_out s @ [o1],
             pp_PAYLOAD := (\<not> ax_last w)\<rparr>)
        else s))"

subsection \<open>The TCP header\<close>

record optionalFieldsMeta =
  om_dataOffset :: "4 word"
  om_syn :: bool

record th_st =
  th_header :: "256 packetHeader"
  th_firstWord :: bool
  th_pkgValid :: bool
  th_metaWritten :: bool
  thf_in :: "net_axis fifo"
  thf_out :: "net_axis fifo"
  thf_valid :: "bool fifo"
  thf_meta :: "rxEngineMetaData fifo"
  thf_tuple :: "fourTuple fifo"
  thf_port :: "u16 fifo"
  thf_ofMeta :: "optionalFieldsMeta fifo"

text \<open>The metadata of the segment; \<^verbatim>\<open>winScale\<close> is not assigned here.\<close>

definition th_meta :: "4 word \<Rightarrow> 256 word \<Rightarrow> rxEngineMetaData" where
  "th_meta ws h = \<lparr>me_seqNumb = getSeqNumb h, me_ackNumb = full_getAckNumb h, me_winSize = getWindowSize h, me_winScale = ws,
     me_length = getLength h - ucast (getDataOffset h) * 4, me_ack = getAckFlag h, me_rst = getRstFlag h,
     me_syn = getSynFlag h, me_fin = getFinFlag h, me_dataOffset = getDataOffset h\<rparr>"

definition th_write :: "4 word \<Rightarrow> 256 word \<Rightarrow> th_st \<Rightarrow> th_st" where
  "th_write ws h s =
    (let m = th_meta ws h in
     s\<lparr>thf_meta := thf_meta s @ [m], thf_port := thf_port s @ [getDstPort h],
       thf_tuple := thf_tuple s @ [mk_fourTuple (getSrcAddr h) (getDstAddr h) (getSrcPort h) (getDstPort h)],
       thf_ofMeta := (if me_length m \<noteq> 0 \<or> 5 < getDataOffset h
                      then thf_ofMeta s @ [\<lparr>om_dataOffset = getDataOffset h - 5, om_syn = getSynFlag h\<rparr>]
                      else thf_ofMeta s)\<rparr>)"

text \<open>The word is read, with the verdict of the checksum if it is the first; it is handed on; the complete header is used.\<close>

definition th_take :: "nat \<Rightarrow> net_axis \<Rightarrow> th_st \<Rightarrow> th_st" where
  "th_take W w s = s\<lparr>thf_in := tl (thf_in s), th_header := parseWord W (ax_lanes w) (th_header s),
     th_pkgValid := (if th_firstWord s then hd (thf_valid s) else th_pkgValid s),
     thf_valid := (if th_firstWord s then tl (thf_valid s) else thf_valid s), th_firstWord := False\<rparr>"

definition th_forward :: "bool \<Rightarrow> net_axis \<Rightarrow> th_st \<Rightarrow> th_st" where
  "th_forward b w s = (if b then s\<lparr>thf_out := thf_out s @ [w]\<rparr> else s)"

definition th_wide :: "nat \<Rightarrow> 256 word \<Rightarrow> bool" where
  "th_wide W x \<longleftrightarrow> 256 < 8 * W \<and> (int (unat (getLength x)) - int (unat (getDataOffset x)) * 4 \<noteq> 0 \<or> 5 < getDataOffset x)"

definition th_ready :: "nat \<Rightarrow> 4 word \<Rightarrow> net_axis \<Rightarrow> th_st \<Rightarrow> th_st" where
  "th_ready W ws w s =
    (let x = ph_header (th_header s); s = th_forward (th_pkgValid s \<and> th_wide W x) w s in
     if \<not> th_metaWritten s then (if th_pkgValid s then th_write ws x s else s)\<lparr>th_metaWritten := True\<rparr> else s)"

definition processPseudoHeader :: "nat \<Rightarrow> 4 word \<Rightarrow> th_st \<Rightarrow> th_st" where
  "processPseudoHeader W ws s =
    (if thf_in s \<noteq> [] \<and> (\<not> th_firstWord s \<or> thf_valid s \<noteq> []) then
       (let w = hd (thf_in s); s = th_take W w s;
            s = th_forward (th_metaWritten s \<and> th_pkgValid s \<and> 8 * W \<le> 256) w s;
            s = (if ph_ready (th_header s) then th_ready W ws w s else s) in
        if ax_last w then s\<lparr>th_header := ph_clear (th_header s), th_firstWord := True, th_metaWritten := False\<rparr> else s)
     else s)"

subsection \<open>The options\<close>

record df_st =
  df_state :: "2 word"
  df_dataOffset :: "4 word"
  df_prev :: net_axis
  df_header :: "320 packetHeader"
  df_parseHeader :: bool
  df_headerWritten :: bool
  dff_meta :: "optionalFieldsMeta fifo"
  dff_in :: "net_axis fifo"
  dff_dataOffset :: "4 word fifo"
  dff_fields :: "320 word fifo"
  dff_out :: "net_axis fifo"

definition df_first :: "nat \<Rightarrow> df_st \<Rightarrow> df_st" where
  "df_first W s =
    (let m = hd (dff_meta s); w = hd (dff_in s); d = om_dataOffset m; off = 4 * unat d;
         h = parseWord W (ax_lanes w) (ph_clear (df_header s)); parse = (d \<noteq> 0 \<and> om_syn m) in
     s\<lparr>dff_meta := tl (dff_meta s), dff_in := tl (dff_in s), df_dataOffset := d, df_header := h, df_parseHeader := parse,
       dff_out := (if d = 0 then dff_out s @ [w] else dff_out s),
       dff_dataOffset := (if parse then dff_dataOffset s @ [d] else dff_dataOffset s),
       dff_fields := (if parse \<and> (ph_ready h \<or> ax_last w) then dff_fields s @ [ph_header h] else dff_fields s),
       df_prev := w, df_headerWritten := False,
       df_state := (if ax_last w then (if d \<noteq> 0 \<and> off < W \<and> keep_at off w then 2 else 0) else 1)\<rparr>)"

definition df_next :: "nat \<Rightarrow> df_st \<Rightarrow> df_st" where
  "df_next W s =
    (let w = hd (dff_in s); d = df_dataOffset s; off = 4 * unat d; h = parseWord W (ax_lanes w) (df_header s);
         fields = ((ph_ready h \<or> ax_last w) \<and> df_parseHeader s \<and> \<not> df_headerWritten s);
         skip = (8 * W div 32 \<le> unat d); d' = (if skip then d - of_nat (8 * W div 32) else d) in
     s\<lparr>dff_in := tl (dff_in s), df_header := h,
       dff_fields := (if fields then dff_fields s @ [ph_header h] else dff_fields s),
       df_headerWritten := (df_headerWritten s \<or> fields), df_dataOffset := d',
       dff_out := (if skip then dff_out s else if d = 0 then dff_out s @ [w]
                   else dff_out s @ [\<lparr>ax_lanes = alignWords off (df_prev s) w, ax_last = \<not> keep_at off w\<rparr>]),
       df_prev := w,
       df_state := (if ax_last w then (if keep_at (4 * unat d') w \<and> d' \<noteq> 0 then 2 else 0) else 1)\<rparr>)"

definition drop_optional_header_fields :: "nat \<Rightarrow> df_st \<Rightarrow> df_st" where
  "drop_optional_header_fields W s =
    (if df_state s = 0 then (if dff_meta s \<noteq> [] \<and> dff_in s \<noteq> [] then df_first W s else s)
     else if df_state s = 1 then (if dff_in s \<noteq> [] then df_next W s else s)
     else if df_state s = 2 then
       (let off = 4 * unat (df_dataOffset s) in
        s\<lparr>dff_out := dff_out s @ [\<lparr>ax_lanes = drop off (ax_lanes (df_prev s)) @ replicate off (0, False), ax_last = True\<rparr>],
          df_state := 0\<rparr>)
     else s)"

subsection \<open>The TCP header is read\<close>

lemma th_write_fields [simp]:
  "thf_in (th_write z x s) = thf_in s" "th_header (th_write z x s) = th_header s"
  "th_firstWord (th_write z x s) = th_firstWord s" "th_pkgValid (th_write z x s) = th_pkgValid s"
  "thf_valid (th_write z x s) = thf_valid s" "thf_out (th_write z x s) = thf_out s"
  "thf_meta (th_write z x s) = thf_meta s @ [th_meta z x]" "thf_port (th_write z x s) = thf_port s @ [getDstPort x]"
  "thf_tuple (th_write z x s) = thf_tuple s @ [mk_fourTuple (getSrcAddr x) (getDstAddr x) (getSrcPort x) (getDstPort x)]"
  "thf_ofMeta (th_write z x s) = thf_ofMeta s @ (if me_length (th_meta z x) \<noteq> 0 \<or> 5 < getDataOffset x
     then [\<lparr>om_dataOffset = getDataOffset x - 5, om_syn = getSynFlag x\<rparr>] else [])"
  by (simp_all add: th_write_def Let_def)

lemma th_forward_fields [simp]:
  "thf_in (th_forward b w s) = thf_in s" "th_header (th_forward b w s) = th_header s"
  "th_firstWord (th_forward b w s) = th_firstWord s" "th_pkgValid (th_forward b w s) = th_pkgValid s"
  "th_metaWritten (th_forward b w s) = th_metaWritten s" "thf_valid (th_forward b w s) = thf_valid s"
  "thf_out (th_forward b w s) = thf_out s @ (if b then [w] else [])" "thf_meta (th_forward b w s) = thf_meta s"
  "thf_port (th_forward b w s) = thf_port s" "thf_tuple (th_forward b w s) = thf_tuple s"
  "thf_ofMeta (th_forward b w s) = thf_ofMeta s"
  by (simp_all add: th_forward_def)

text \<open>Word \<open>i\<close> of a packet while the header is collected, the word that completes it, and a later word.\<close>

lemma th_collect:
  assumes "thf_in s = w # ws" and "\<not> ax_last w" and "\<not> th_metaWritten s" and "\<not> ph_ready (parseWord W (ax_lanes w) (th_header s))"
    and "th_firstWord s \<longrightarrow> thf_valid s \<noteq> []"
  shows "processPseudoHeader W z s = s\<lparr>thf_in := ws, th_header := parseWord W (ax_lanes w) (th_header s), th_firstWord := False,
     th_pkgValid := (if th_firstWord s then hd (thf_valid s) else th_pkgValid s),
     thf_valid := (if th_firstWord s then tl (thf_valid s) else thf_valid s)\<rparr>"
  using assms by (simp add: processPseudoHeader_def Let_def th_take_def th_forward_def)

lemma th_ready_step:
  assumes "thf_in s = w # ws" and "\<not> th_metaWritten s" and "ph_ready (parseWord W (ax_lanes w) (th_header s))"
    and "th_firstWord s \<longrightarrow> thf_valid s \<noteq> []" and "u = th_take W w s" and "x = ph_header (th_header u)"
    and "r = th_forward (th_pkgValid u \<and> th_wide W x) w u"
  shows "processPseudoHeader W z s = (let r = (if th_pkgValid u then th_write z x r else r)\<lparr>th_metaWritten := True\<rparr> in
     if ax_last w then r\<lparr>th_header := ph_clear (th_header r), th_firstWord := True, th_metaWritten := False\<rparr> else r)"
proof -
  have "\<not> th_metaWritten u" "ph_ready (th_header u)" using assms by (simp_all add: th_take_def)
  then show ?thesis using assms by (simp add: processPseudoHeader_def th_ready_def th_forward_def Let_def)
qed

lemma th_complete:
  assumes "thf_in s = w # ws" and "\<not> th_metaWritten s" and "h = parseWord W (ax_lanes w) (th_header s)" and "ph_ready h"
    and "th_firstWord s \<longrightarrow> thf_valid s \<noteq> []" and "v = (if th_firstWord s then hd (thf_valid s) else th_pkgValid s)"
    and "t = processPseudoHeader W z s"
  shows "thf_in t = ws" and "th_header t = (if ax_last w then ph_clear h else h)" and "th_firstWord t = ax_last w"
    and "th_metaWritten t = (\<not> ax_last w)" and "th_pkgValid t = v"
    and "thf_valid t = (if th_firstWord s then tl (thf_valid s) else thf_valid s)"
    and "thf_out t = thf_out s @ (if v \<and> th_wide W (ph_header h) then [w] else [])"
    and "thf_meta t = thf_meta s @ (if v then [th_meta z (ph_header h)] else [])"
    and "thf_port t = thf_port s @ (if v then [getDstPort (ph_header h)] else [])"
    and "thf_tuple t = thf_tuple s @ (if v then [mk_fourTuple (getSrcAddr (ph_header h)) (getDstAddr (ph_header h))
           (getSrcPort (ph_header h)) (getDstPort (ph_header h))] else [])"
    and "thf_ofMeta t = thf_ofMeta s @ (if v \<and> (me_length (th_meta z (ph_header h)) \<noteq> 0 \<or> 5 < getDataOffset (ph_header h))
           then [\<lparr>om_dataOffset = getDataOffset (ph_header h) - 5, om_syn = getSynFlag (ph_header h)\<rparr>] else [])"
proof -
  define u where "u = th_take W w s"
  define r where "r = th_forward (th_pkgValid u \<and> th_wide W (ph_header h)) w u"
  have u: "thf_in u = ws" "th_header u = h" "th_pkgValid u = v" "thf_out u = thf_out s" "thf_meta u = thf_meta s"
    "thf_valid u = (if th_firstWord s then tl (thf_valid s) else thf_valid s)"
    "\<not> th_firstWord u" "thf_port u = thf_port s" "thf_tuple u = thf_tuple s" "thf_ofMeta u = thf_ofMeta s"
    using assms by (simp_all add: u_def th_take_def)
  have t: "t = (let r = (if v then th_write z (ph_header h) r else r)\<lparr>th_metaWritten := True\<rparr> in
     if ax_last w then r\<lparr>th_header := ph_clear (th_header r), th_firstWord := True, th_metaWritten := False\<rparr> else r)"
    unfolding assms(7) using th_ready_step[OF assms(1,2) _ assms(5) u_def, of "ph_header h" r z] assms(3,4) u r_def by simp
  show "thf_in t = ws" "th_header t = (if ax_last w then ph_clear h else h)" "th_firstWord t = ax_last w"
    "th_metaWritten t = (\<not> ax_last w)" "th_pkgValid t = v"
    "thf_valid t = (if th_firstWord s then tl (thf_valid s) else thf_valid s)"
    "thf_out t = thf_out s @ (if v \<and> th_wide W (ph_header h) then [w] else [])"
    "thf_meta t = thf_meta s @ (if v then [th_meta z (ph_header h)] else [])"
    "thf_port t = thf_port s @ (if v then [getDstPort (ph_header h)] else [])"
    "thf_tuple t = thf_tuple s @ (if v then [mk_fourTuple (getSrcAddr (ph_header h)) (getDstAddr (ph_header h))
           (getSrcPort (ph_header h)) (getDstPort (ph_header h))] else [])"
    "thf_ofMeta t = thf_ofMeta s @ (if v \<and> (me_length (th_meta z (ph_header h)) \<noteq> 0 \<or> 5 < getDataOffset (ph_header h))
           then [\<lparr>om_dataOffset = getDataOffset (ph_header h) - 5, om_syn = getSynFlag (ph_header h)\<rparr>] else [])"
    using u by (simp_all add: t r_def Let_def)
qed

definition th_passes :: "nat \<Rightarrow> th_st \<Rightarrow> bool" where
  "th_passes W s \<longleftrightarrow> th_pkgValid s \<and> (W \<le> 32 \<or> th_wide W (ph_header (th_header s)))"

lemma th_later:
  assumes "thf_in s = w # ws" and "th_metaWritten s" and "ph_ready (th_header s)" and "\<not> th_firstWord s"
  shows "processPseudoHeader W z s = s\<lparr>thf_in := ws, th_header := (if ax_last w then ph_clear (th_header s) else th_header s),
     th_firstWord := ax_last w, th_metaWritten := (\<not> ax_last w),
     thf_out := thf_out s @ (if th_passes W s then [w] else [])\<rparr>"
  proof -
  define u where "u = th_take W w s"
  have u: "u = s\<lparr>thf_in := ws, th_firstWord := False\<rparr>" using assms by (simp add: u_def th_take_def parse_ready)
  then have f: "th_metaWritten u" "ph_ready (th_header u)" "th_pkgValid u = th_pkgValid s" "th_header u = th_header s"
    using assms by simp_all
  show ?thesis using assms f
    by (cases "ax_last w") (simp_all add: processPseudoHeader_def Let_def th_passes_def th_ready_def th_forward_def th_wide_def u
      flip: u_def)
qed

lemma th_rest:
  assumes "packet W ws bs" and "thf_in s = ws @ rest" and "th_metaWritten s" and "ph_ready (th_header s)" and "\<not> th_firstWord s"
    and "length zs = length ws"
  shows "\<exists>h. \<not> ph_ready h \<and> ph_idx h = 0 \<and> fold (processPseudoHeader W) zs s = s\<lparr>thf_in := rest, th_header := h,
     th_firstWord := True, th_metaWritten := False, thf_out := thf_out s @ (if th_passes W s then ws else [])\<rparr>"
  using assms
proof (induction ws arbitrary: s bs zs)
  case (Cons w ws)
  obtain z zs' where zs: "zs = z # zs'" "length zs' = length ws" using Cons.prems(6) by (cases zs) auto
  define t where "t = processPseudoHeader W z s"
  have t: "t = s\<lparr>thf_in := ws @ rest, th_header := (if ax_last w then ph_clear (th_header s) else th_header s),
     th_firstWord := ax_last w, th_metaWritten := (\<not> ax_last w), thf_out := thf_out s @ (if th_passes W s then [w] else [])\<rparr>"
    unfolding t_def by (rule th_later) (use Cons.prems in simp_all)
  show ?case
  proof (cases "ws = []")
    case True
    then have "ax_last w" using Cons.prems(1) by (simp add: packet_single)
    then show ?thesis using True zs t
      by (intro exI[of _ "ph_clear (th_header s)"]) (simp add: ph_clear_def flip: t_def)
  next
    case False
    then have p: "\<not> ax_last w" "packet W ws (drop W bs)" using Cons.prems(1) by (simp_all add: packet_cons)
    have f: "thf_in t = ws @ rest" "th_metaWritten t" "ph_ready (th_header t)" "\<not> th_firstWord t" "th_passes W t = th_passes W s"
      using t p(1) Cons.prems(4) by (simp_all add: th_passes_def)
    obtain h where "\<not> ph_ready h" "ph_idx h = 0" "fold (processPseudoHeader W) zs' t = t\<lparr>thf_in := rest, th_header := h,
     th_firstWord := True, th_metaWritten := False, thf_out := thf_out t @ (if th_passes W s then ws else [])\<rparr>"
      using Cons.IH[OF p(2) f(1-4) zs(2)] f(5) by auto
    then show ?thesis using zs t p(1) by (intro exI[of _ h]) (simp flip: t_def)
  qed
qed simp

lemma th_collect_phase:
  assumes "packet W ws bs" and "thf_in s = ws @ rest" and "th_firstWord s" and "\<not> th_metaWritten s" and "\<not> ph_ready (th_header s)"
    and "ph_idx (th_header s) = 0" and "thf_valid s = v # vs" and "0 < W" and "W * i < 32" and "32 \<le> length bs" and "length zs = i"
  shows "\<exists>h. parsed W i bs h \<and> fold (processPseudoHeader W) zs s = s\<lparr>thf_in := drop i ws @ rest, th_header := h,
     th_firstWord := (i = 0), th_pkgValid := (if i = 0 then th_pkgValid s else v), thf_valid := (if i = 0 then v # vs else vs)\<rparr>"
  using assms(9,11)
proof (induction i arbitrary: zs)
  case 0
  have "parsed W 0 bs (th_header s)" using assms(5,6) by (simp add: parsed_def)
  then show ?case using 0 assms(2,3,7) by (intro exI[of _ "th_header s"]) simp
next
  case (Suc i)
  obtain zs' z where zs: "zs = zs' @ [z]" "length zs' = i" using Suc.prems(2) by (cases zs rule: rev_cases) auto
  have lt: "W * i + W < 32" using Suc.prems(1) by simp
  obtain h where h: "parsed W i bs h" "fold (processPseudoHeader W) zs' s = s\<lparr>thf_in := drop i ws @ rest, th_header := h,
     th_firstWord := (i = 0), th_pkgValid := (if i = 0 then th_pkgValid s else v), thf_valid := (if i = 0 then v # vs else vs)\<rparr>"
    using Suc.IH[OF _ zs(2)] lt by auto
  have len: "Suc i < length ws" by (rule packet_longer[OF assms(1)]) (use lt assms(10) in simp)
  define w where "w = ws ! i"
  have d: "drop i ws = w # drop (Suc i) ws" using len by (simp add: w_def Cons_nth_drop_Suc)
  have w: "\<not> ax_last w" "word_of W 32 i bs (ax_lanes w)"
    using packet_nth(1,2)[OF assms(1), of i] len word_of_less[OF _ assms(10)] by (simp_all add: w_def)
  define h' where "h' = parseWord W (ax_lanes w) h"
  have ii: "i + 1 < 65536" using lt assms(8) by (cases W) auto
  have h': "parsed W (Suc i) bs h'"
    using parse_more[OF h(1) w(2) _ lt assms(8) ii] by (simp add: h'_def)
  define t where "t = fold (processPseudoHeader W) zs' s"
  have t: "thf_in t = w # (drop (Suc i) ws @ rest)" "\<not> th_metaWritten t" "th_header t = h" "th_firstWord t = (i = 0)"
    "thf_valid t = (if i = 0 then v # vs else vs)" "th_pkgValid t = (if i = 0 then th_pkgValid s else v)"
    using h(2) d assms(4) by (simp_all add: t_def)
  have "\<not> ph_ready h'" using h' by (simp add: parsed_def)
  then have "processPseudoHeader W z t = t\<lparr>thf_in := drop (Suc i) ws @ rest, th_header := h', th_firstWord := False,
      th_pkgValid := v, thf_valid := vs\<rparr>"
    using th_collect[OF t(1) w(1) t(2)] t by (simp add: h'_def)
  then have "fold (processPseudoHeader W) zs s = s\<lparr>thf_in := drop (Suc i) ws @ rest, th_header := h', th_firstWord := False,
      th_pkgValid := v, thf_valid := vs\<rparr>"
  proof -
    have "fold (processPseudoHeader W) zs s = processPseudoHeader W z t" using zs(1) by (simp add: t_def)
    then show ?thesis using \<open>processPseudoHeader W z t = _\<close> h(2) by (simp add: t_def)
  qed
  then show ?case using h' by (intro exI[of _ h']) simp
qed

text \<open>What a packet with the header \<open>x\<close> and the verdict \<open>v\<close> leaves behind; \<open>z\<close> is the window scale that is not assigned.\<close>

definition th_result :: "nat \<Rightarrow> net_axis list \<Rightarrow> 256 word \<Rightarrow> bool \<Rightarrow> 4 word \<Rightarrow> th_st \<Rightarrow> th_st \<Rightarrow> bool" where
  "th_result W ws x v z s t \<longleftrightarrow>
     thf_meta t = thf_meta s @ (if v then [th_meta z x] else [])
     \<and> thf_port t = thf_port s @ (if v then [getDstPort x] else [])
     \<and> thf_tuple t = thf_tuple s
         @ (if v then [mk_fourTuple (getSrcAddr x) (getDstAddr x) (getSrcPort x) (getDstPort x)] else [])
     \<and> thf_ofMeta t = thf_ofMeta s @ (if v \<and> (me_length (th_meta z x) \<noteq> 0 \<or> 5 < getDataOffset x)
         then [\<lparr>om_dataOffset = getDataOffset x - 5, om_syn = getSynFlag x\<rparr>] else [])
     \<and> thf_out t = thf_out s @ (if \<not> v then [] else if W \<le> 32 then drop (32 div W) ws else if th_wide W x then ws else [])"

definition th_idle :: "th_st \<Rightarrow> bool" where
  "th_idle s \<longleftrightarrow> th_firstWord s \<and> \<not> th_metaWritten s \<and> \<not> ph_ready (th_header s) \<and> ph_idx (th_header s) = 0"

lemma th_packet:
  assumes "W \<in> {8, 16, 32, 64}" and "packet W ws bs" and "32 \<le> length bs" and "thf_in s = ws @ rest" and "th_idle s"
    and "thf_valid s = v # vs" and "length zs = length ws" and "header_bytes (x :: 256 word) = take 32 bs"
  shows "\<exists>z. th_result W ws x v z s (fold (processPseudoHeader W) zs s)
    \<and> th_idle (fold (processPseudoHeader W) zs s) \<and> thf_in (fold (processPseudoHeader W) zs s) = rest
    \<and> thf_valid (fold (processPseudoHeader W) zs s) = vs"
proof -
  define i where "i = 31 div W"
  have i: "W * i < 32" "32 \<le> W * i + W" "0 < W" "W \<le> 32 \<Longrightarrow> 32 div W = Suc i" "32 < W \<Longrightarrow> i = 0"
    using assms(1) by (auto simp: i_def)
  have idle: "th_firstWord s" "\<not> th_metaWritten s" "\<not> ph_ready (th_header s)" "ph_idx (th_header s) = 0"
    using assms(5) by (simp_all add: th_idle_def)
  have len: "i < length ws" by (rule packet_longer[OF assms(2)]) (use i(1) assms(3) in simp)
  obtain zs1 z zs2 where zs: "zs = zs1 @ z # zs2" "length zs1 = i" "length zs2 = length ws - Suc i"
  proof
    show "zs = take i zs @ zs ! i # drop (Suc i) zs" using len assms(7) by (simp add: id_take_nth_drop)
  qed (use len assms(7) in simp_all)
  define s1 where "s1 = fold (processPseudoHeader W) zs1 s"
  obtain h where h: "parsed W i bs h" "s1 = s\<lparr>thf_in := drop i ws @ rest, th_header := h,
     th_firstWord := (i = 0), th_pkgValid := (if i = 0 then th_pkgValid s else v), thf_valid := (if i = 0 then v # vs else vs)\<rparr>"
    using th_collect_phase[OF assms(2,4) idle assms(6) i(3,1) assms(3) zs(2)] by (auto simp: s1_def)
  define w where "w = ws ! i"
  have d: "drop i ws = w # drop (Suc i) ws" using len by (simp add: w_def Cons_nth_drop_Suc)
  define h' where "h' = parseWord W (ax_lanes w) h"
  have word: "word_of W 32 i bs (ax_lanes w)"
    using word_of_less[OF packet_nth(1)[OF assms(2) len] assms(3)] by (simp add: w_def)
  have h': "ph_ready h'" "header_bytes (ph_header h') = take 32 bs"
    using parse_end[OF h(1) word _ i(2,1) assms(3)] by (simp_all add: h'_def)
  have x: "ph_header h' = x" by (rule header_bytes_inj[of 32]) (simp_all add: h'(2) assms(8))
  define s2 where "s2 = processPseudoHeader W z s1"
  have s1: "thf_in s1 = w # (drop (Suc i) ws @ rest)" "\<not> th_metaWritten s1" "th_header s1 = h"
    "th_firstWord s1 \<longrightarrow> thf_valid s1 \<noteq> []" "(if th_firstWord s1 then hd (thf_valid s1) else th_pkgValid s1) = v"
    "(if th_firstWord s1 then tl (thf_valid s1) else thf_valid s1) = vs"
    "thf_out s1 = thf_out s" "thf_meta s1 = thf_meta s" "thf_port s1 = thf_port s" "thf_tuple s1 = thf_tuple s"
    "thf_ofMeta s1 = thf_ofMeta s"
    using h(2) d idle(2) by simp_all
  have hh: "h' = parseWord W (ax_lanes w) (th_header s1)" by (simp add: h'_def s1(3))
  note s2 = th_complete[OF s1(1,2) hh h'(1) s1(4) s1(5)[symmetric] s2_def, unfolded x s1(6-11)]
  have run: "fold (processPseudoHeader W) zs s = fold (processPseudoHeader W) zs2 s2"
    using zs(1) by (simp add: s2_def s1_def)
  have last: "ax_last w \<longleftrightarrow> Suc i = length ws" using packet_nth(2)[OF assms(2) len] by (simp add: w_def)
  show ?thesis
  proof (cases "Suc i = length ws")
    case True
    have "th_result W ws x v z s s2"
    proof -
      have "ws = [w]" if "32 < W" using True d i(5)[OF that] by simp
      moreover have "\<not> th_wide W x" if "W \<le> 32" using that by (simp add: th_wide_def)
      ultimately show ?thesis using s2(7-11) True i(4) by (auto simp: th_result_def)
    qed
    moreover have "th_idle s2" using s2(2-4) last True by (simp add: th_idle_def ph_clear_def)
    moreover have "zs2 = []" using zs(3) True by simp
    ultimately show ?thesis using s2(1,6) True by (intro exI[of _ z]) (simp add: run)
  next
    case False
    define ws2 where "ws2 = drop (Suc i) ws"
    have lt: "Suc i < length ws" using False len by simp
    have p: "packet W ws2 (drop (W * Suc i) bs)" using packet_drop[OF assms(2) lt] by (simp add: ws2_def)
    have f: "thf_in s2 = ws2 @ rest" "th_metaWritten s2" "ph_ready (th_header s2)" "\<not> th_firstWord s2" "length zs2 = length ws2"
      using s2(1-4) last False h'(1) zs(3) by (simp_all add: ws2_def)
    obtain g where g: "\<not> ph_ready g" "ph_idx g = 0" "fold (processPseudoHeader W) zs2 s2 = s2\<lparr>thf_in := rest, th_header := g,
     th_firstWord := True, th_metaWritten := False, thf_out := thf_out s2 @ (if th_passes W s2 then ws2 else [])\<rparr>"
      using th_rest[OF p f] by blast
    have pass: "th_passes W s2 \<longleftrightarrow> v \<and> (W \<le> 32 \<or> th_wide W x)"
      using s2(2,5) last False x by (simp add: th_passes_def)
    have "ws = w # ws2" if "32 < W" using d i(5)[OF that] by (simp add: ws2_def)
    moreover have "\<not> th_wide W x" if "W \<le> 32" using that by (simp add: th_wide_def)
    ultimately have out: "(if v \<and> th_wide W x then [w] else []) @ (if th_passes W s2 then ws2 else [])
        = (if \<not> v then [] else if W \<le> 32 then drop (32 div W) ws else if th_wide W x then ws else [])"
      using i(4) by (auto simp: pass ws2_def)
    have "th_result W ws x v z s (fold (processPseudoHeader W) zs2 s2)"
      using s2(7-11) g(3) by (simp add: th_result_def out[symmetric])
    moreover have "th_idle (fold (processPseudoHeader W) zs2 s2)" using g by (simp add: th_idle_def)
    ultimately show ?thesis using g(3) s2(6) by (intro exI[of _ z]) (simp add: run)
  qed
qed

end
