(* ===== verification/Rx_Options.thy ===== *)
theory Rx_Options
  imports Rx_Header
begin

text \<open>
  What \<open>drop_optional_header_fields\<close> (\<^verbatim>\<open>toe/rx_engine/rx_engine.cpp\<close>) does with the options of a segment: it takes
  them off the payload, unless they fill whole words.
\<close>

subsection \<open>The words behind the options\<close>

definition df_done :: "df_st \<Rightarrow> net_axis list \<Rightarrow> net_axis list \<Rightarrow> df_st \<Rightarrow> bool" where
  "df_done s rest out t \<longleftrightarrow> df_state t = 0 \<and> dff_meta t = dff_meta s \<and> dff_in t = rest \<and> dff_out t = dff_out s @ out"

lemma df_done_step:
  assumes "t = drop_optional_header_fields W s" and "dff_out t = dff_out s @ os" and "dff_meta t = dff_meta s"
    and "df_done t rest out ((drop_optional_header_fields W ^^ k) t)"
  shows "df_done s rest (os @ out) ((drop_optional_header_fields W ^^ Suc k) s)"
  using assms by (simp add: funpow_Suc_right df_done_def del: funpow.simps)

lemma df_word:
  assumes "df_state s = 1" and "dff_in s = w # ws" and "t = drop_optional_header_fields W s" and "W = 4 * c"
    and "d = unat (df_dataOffset s)"
  shows "dff_in t = ws" and "df_prev t = w" and "dff_meta t = dff_meta s"
    and "df_dataOffset t = (if c \<le> d then df_dataOffset s - of_nat c else df_dataOffset s)"
    and "dff_out t = dff_out s @ (if c \<le> d then [] else if d = 0 then [w]
           else [\<lparr>ax_lanes = alignWords (4 * d) (df_prev s) w, ax_last = \<not> keep_at (4 * d) w\<rparr>])"
    and "df_state t = (if ax_last w then (if keep_at (4 * unat (df_dataOffset t)) w \<and> df_dataOffset t \<noteq> 0 then 2 else 0) else 1)"
  using assms by (simp_all add: drop_optional_header_fields_def df_next_def Let_def unat_eq_zero)

lemma df_rest:
  assumes "df_state s = 2" and "packet W [df_prev s] bs" and "off = 4 * unat (df_dataOffset s)" and "off < length bs" and "dff_in s = rest"
  shows "\<exists>out. df_done s rest out ((drop_optional_header_fields W ^^ 1) s) \<and> packet W out (drop off bs)"
proof -
  let ?o = "\<lparr>ax_lanes = drop off (ax_lanes (df_prev s)) @ replicate off (0, False), ax_last = True\<rparr>"
  let ?f = "\<lparr>ax_lanes = replicate off (0, False), ax_last = True\<rparr>"
  have "packet W [\<lparr>ax_lanes = alignWords off (df_prev s) ?f, ax_last = True\<rparr>] (drop off bs)"
    by (rule align_residue[OF assms(2,4)]) simp_all
  then have "packet W [?o] (drop off bs)" by (simp add: alignWords_def)
  moreover have "df_done s rest [?o] ((drop_optional_header_fields W ^^ 1) s)"
    using assms by (simp add: drop_optional_header_fields_def df_done_def Let_def)
  ultimately show ?thesis by blast
qed

lemma unat_minus_small: "c \<le> unat (d :: 4 word) \<Longrightarrow> unat (d - of_nat c) = unat d - c"
proof -
  assume le: "c \<le> unat d"
  have "unat d < 16" using unat_bound[of d] by simp
  then have "unat (of_nat c :: 4 word) = c" using le by (simp add: unat_of_nat)
  then show ?thesis using le by (simp add: unat_sub word_le_nat_alt)
qed

lemma df_tail:
  assumes "packet W (df_prev s # ws) bs" and "ws \<noteq> []" and "df_state s = 1" and "dff_in s = ws @ rest" and "W = 4 * c"
    and "0 < c" and "off = 4 * unat (df_dataOffset s)" and "off mod W \<noteq> 0" and "off < length bs"
  shows "\<exists>k \<le> Suc (length ws). \<exists>out. df_done s rest out ((drop_optional_header_fields W ^^ k) s) \<and> packet W out (drop off bs)"
  using assms(1-4,7-9)
proof (induction ws arbitrary: s bs off)
  case (Cons w ws)
  define t where "t = drop_optional_header_fields W s"
  define d where "d = unat (df_dataOffset s)"
  have "dff_in s = w # (ws @ rest)" using Cons.prems(4) by simp
  note t = df_word[OF Cons.prems(3) this t_def assms(5) d_def]
  have off: "off = 4 * d" using Cons.prems(5) by (simp add: d_def)
  have d0: "d \<noteq> 0" using Cons.prems(6) off by (cases d) simp_all
  have gt: "W < length bs" and tl: "packet W (w # ws) (drop W bs)" using Cons.prems(1) by (simp_all add: packet_cons)
  show ?case
  proof (cases "c \<le> d")
    case True
    define d' where "d' = unat (df_dataOffset t)"
    have d': "d' = d - c" using t(4) True unat_minus_small[of c "df_dataOffset s"] by (simp add: d'_def d_def)
    define off' where "off' = 4 * d'"
    have off': "off = off' + W" using True by (simp add: off'_def d' off assms(5))
    have m: "off' mod W \<noteq> 0" "off' < length (drop W bs)" using Cons.prems(6,7) off' by simp_all
    have dr: "drop off bs = drop off' (drop W bs)" by (simp add: off')
    have out: "dff_out t = dff_out s @ []" using t(5) True by simp
    have "\<exists>k \<le> Suc (length ws). \<exists>out. df_done t rest out ((drop_optional_header_fields W ^^ k) t) \<and> packet W out (drop off' (drop W bs))"
    proof (cases "ws = []")
      case False
      then have "\<not> ax_last w" using tl packet_last by blast
      then have "df_state t = 1" using t(6) by simp
      then show ?thesis using Cons.IH[of t "drop W bs" off'] tl False t(1,2) m by (simp add: off'_def d'_def)
    next
      case True
      then have last: "ax_last w" "packet W [w] (drop W bs)" using tl packet_last by blast+
      have "off' < W" using m(2) last(2) by (simp add: packet_single)
      then have "keep_at off' w" using packet_keep[OF last(2), of off'] m(2) by simp
      moreover have "df_dataOffset t \<noteq> 0" using m(1) by (auto simp: off'_def d'_def unat_eq_zero)
      ultimately have "df_state t = 2" using t(6) last(1) by (simp add: off'_def d'_def)
      then show ?thesis using df_rest[of t W "drop W bs" off' rest] t(1,2) True last(2) m(2)
        by (intro exI[of _ 1]) (simp add: off'_def d'_def)
    qed
    then obtain k out where k: "k \<le> Suc (length ws)" "df_done t rest out ((drop_optional_header_fields W ^^ k) t)"
      "packet W out (drop off' (drop W bs))" by blast
    have "df_done s rest ([] @ out) ((drop_optional_header_fields W ^^ Suc k) s)"
      by (rule df_done_step[OF t_def out t(3) k(2)])
    then show ?thesis using k dr by (intro exI[of _ "Suc k"] conjI exI[of _ out]) simp_all
  next
    case False
    then have ow: "off < W" "0 < off" using d0 by (simp_all add: off assms(5))
    define o1 where "o1 = \<lparr>ax_lanes = alignWords off (df_prev s) w, ax_last = \<not> keep_at off w\<rparr>"
    have out: "dff_out t = dff_out s @ [o1]" using t(5) False d0 by (simp add: o1_def off)
    have dt: "df_dataOffset t = df_dataOffset s" using t(4) False by simp
    have keep: "keep_at off w \<longleftrightarrow> W + off < length bs" using packet_keep[OF tl ow(1)] by auto
    have glue: "packet W (o1 # out) (drop off bs)" if "W + off < length bs" "packet W out (drop off (drop W bs))" for out
    proof -
      have "out \<noteq> []" using packet_nonempty[OF that(2)] by simp
      moreover have "alignWords off (df_prev s) w = map (\<lambda>b. (b, True)) (take W (drop off bs))"
        by (rule align_full[OF Cons.prems(1) ow(1)]) (use that(1) in simp)
      ultimately show ?thesis using that keep by (simp add: packet_cons o1_def add.commute)
    qed
    show ?thesis
    proof (cases "ws = []")
      case ne: False
      then have last: "\<not> ax_last w" "W < length (drop W bs)" using tl by (simp_all add: packet_cons)
      then have "df_state t = 1" using t(6) by simp
      moreover have "off < length (drop W bs)" using last(2) ow(1) by simp
      ultimately obtain k out where k: "k \<le> Suc (length ws)" "df_done t rest out ((drop_optional_header_fields W ^^ k) t)"
        "packet W out (drop off (drop W bs))"
        using Cons.IH[of t "drop W bs" off] tl ne t(1,2) dt Cons.prems(5,6) by auto
      have "packet W (o1 # out) (drop off bs)" using glue[OF _ k(3)] last(2) ow(1) by simp
      moreover have "df_done s rest ([o1] @ out) ((drop_optional_header_fields W ^^ Suc k) s)"
        by (rule df_done_step[OF t_def out t(3) k(2)])
      ultimately show ?thesis using k(1) by (intro exI[of _ "Suc k"] conjI exI[of _ "o1 # out"]) simp_all
    next
      case True
      have last: "ax_last w" using packet_last[OF tl] True by simp
      have nz: "df_dataOffset t \<noteq> 0" using dt d0 by (auto simp: d_def unat_eq_zero)
      have st: "df_state t = (if keep_at off w then 2 else 0)" using t(6) last nz dt off by (simp add: d_def)
      show ?thesis
      proof (cases "length bs \<le> W + off")
        case le: True
        have "packet W [\<lparr>ax_lanes = alignWords off (df_prev s) w, ax_last = True\<rparr>] (drop off bs)"
          by (rule align_end) (use Cons.prems(1) True ow le in simp_all)
        then have "packet W [o1] (drop off bs)" using keep le by (simp add: o1_def)
        moreover have "df_done t rest [] ((drop_optional_header_fields W ^^ 0) t)"
          using t(1) True st keep le by (simp add: df_done_def)
        then have "df_done s rest ([o1] @ []) ((drop_optional_header_fields W ^^ Suc 0) s)"
          by (rule df_done_step[OF t_def out t(3)])
        ultimately show ?thesis by (intro exI[of _ "Suc 0"] conjI exI[of _ "[o1]"]) simp_all
      next
        case gt: False
        have pw: "packet W [df_prev t] (drop W bs)" using tl True t(2) by simp
        have "off < length (drop W bs)" "df_state t = 2" using gt st keep by simp_all
        then obtain out1 where r: "df_done t rest out1 ((drop_optional_header_fields W ^^ 1) t)" "packet W out1 (drop off (drop W bs))"
          using df_rest[OF _ pw, of off rest] t(1) True dt Cons.prems(5) by auto
        have "packet W (o1 # out1) (drop off bs)" using glue[OF _ r(2)] gt by simp
        moreover have "df_done s rest ([o1] @ out1) ((drop_optional_header_fields W ^^ Suc 1) s)"
          by (rule df_done_step[OF t_def out t(3) r(1)])
        ultimately show ?thesis by (intro exI[of _ "Suc 1"] conjI exI[of _ "o1 # out1"]) simp_all
      qed
    qed
  qed
qed simp

lemma df_pass:
  assumes "packet W ws bs" and "df_state s = 1" and "dff_in s = ws @ rest" and "df_dataOffset s = 0" and "W = 4 * c" and "0 < c"
  shows "df_done s rest ws ((drop_optional_header_fields W ^^ length ws) s)"
  using assms(1-4)
proof (induction ws arbitrary: s bs)
  case (Cons w ws)
  define t where "t = drop_optional_header_fields W s"
  have "dff_in s = w # (ws @ rest)" "0 = unat (df_dataOffset s)" using Cons.prems by simp_all
  note t = df_word[OF Cons.prems(2) this(1) t_def assms(5) this(2)]
  have out: "dff_out t = dff_out s @ [w]" using t(5) assms(6) by simp
  have z: "df_dataOffset t = 0" using t(4) assms(6) Cons.prems(4) by simp
  show ?case
  proof (cases "ws = []")
    case True
    then have "ax_last w" using Cons.prems(1) by (simp add: packet_single)
    then have "df_state t = 0" using t(6) z by simp
    then show ?thesis using True t(1,3) out by (simp add: df_done_def t_def)
  next
    case False
    then have p: "\<not> ax_last w" "packet W ws (drop W bs)" using Cons.prems(1) by (simp_all add: packet_cons)
    then have "df_state t = 1" using t(6) by simp
    then have "df_done s rest ([w] @ ws) ((drop_optional_header_fields W ^^ Suc (length ws)) s)"
      using Cons.IH[OF p(2) _ t(1) z] by (intro df_done_step[OF t_def out t(3)]) simp
    then show ?thesis by simp
  qed
qed simp

subsection \<open>The first word\<close>

lemma df_start:
  assumes "df_state s = 0" and "dff_meta s = m # ms" and "dff_in s = w # ws" and "t = drop_optional_header_fields W s"
    and "off = 4 * unat (om_dataOffset m)"
  shows "dff_in t = ws" and "df_prev t = w" and "dff_meta t = ms" and "df_dataOffset t = om_dataOffset m"
    and "dff_out t = dff_out s @ (if om_dataOffset m = 0 then [w] else [])"
    and "df_state t = (if ax_last w then (if om_dataOffset m \<noteq> 0 \<and> off < W \<and> keep_at off w then 2 else 0) else 1)"
  using assms by (simp_all add: drop_optional_header_fields_def df_first_def Let_def)

text \<open>The options are taken off: of a packet whose first \<open>4 * d\<close> bytes are options, the rest is handed on as a packet,
  on a stream of any width, if there are none or if they do not fill whole words.\<close>

lemma options_dropped:
  assumes "4 dvd W" and "packet W ws bs" and "df_state s = 0" and "dff_meta s = m # ms" and "dff_in s = ws @ rest"
    and "off = 4 * unat (om_dataOffset m)" and "off = 0 \<or> off mod W \<noteq> 0" and "off < length bs"
  shows "\<exists>k \<le> Suc (length ws). \<exists>out. packet W out (drop off bs)
    \<and> df_done (s\<lparr>dff_meta := ms\<rparr>) rest out ((drop_optional_header_fields W ^^ k) s)"
proof -
  obtain c where c: "W = 4 * c" using assms(1) by blast
  obtain w ws' where ws: "ws = w # ws'" using packet_nonempty[OF assms(2)] by (cases ws) auto
  have "0 < W" using packet_nonempty[OF assms(2)] packet_nth(3)[OF assms(2), of 0] packet_nth(4)[OF assms(2), of "length ws - 1"]
      packet_nth(3)[OF assms(2), of "length ws - 1"] by (cases W) auto
  then have c0: "0 < c" by (simp add: c)
  define t where "t = drop_optional_header_fields W s"
  have "dff_in s = w # (ws' @ rest)" using assms(5) ws by simp
  note t = df_start[OF assms(3,4) this t_def assms(6)]
  have last: "ax_last w \<longleftrightarrow> ws' = []" using packet_last assms(2) ws by blast
  define os where "os = (if om_dataOffset m = 0 then [w] else [])"
  have "\<exists>k \<le> length ws. \<exists>out. df_done t rest out ((drop_optional_header_fields W ^^ k) t) \<and> packet W (os @ out) (drop off bs)"
  proof (cases "om_dataOffset m = 0")
    case zero: True
    then have off: "off = 0" using assms(6) by simp
    show ?thesis
    proof (cases "ws' = []")
      case True
      then show ?thesis using t last zero off assms(2) ws by (intro exI[of _ 0]) (simp add: df_done_def os_def)
    next
      case False
      then have "packet W ws' (drop W bs)" "df_state t = 1" using assms(2) ws t(6) last by (simp_all add: packet_cons)
      then have "df_done t rest ws' ((drop_optional_header_fields W ^^ length ws') t)"
        using df_pass[of W ws' "drop W bs" t rest c] t(1,4) zero c c0 by simp
      then show ?thesis using zero off assms(2) ws by (intro exI[of _ "length ws'"] conjI exI[of _ ws']) (simp_all add: os_def)
    qed
  next
    case False
    then have os: "os = []" and "off \<noteq> 0" using assms(6) by (simp_all add: os_def unat_eq_zero)
    then have m: "off mod W \<noteq> 0" using assms(7) by simp
    show ?thesis
    proof (cases "ws' = []")
      case True
      then have p: "packet W [w] bs" using assms(2) ws by simp
      then have "off < W" using assms(8) by (simp add: packet_single)
      moreover have "keep_at off w" using packet_keep[OF p calculation] assms(8) by simp
      ultimately have "df_state t = 2" using t(6) last True False by simp
      then show ?thesis using df_rest[of t W bs off rest] t(1,2,4) p assms(6,8) True ws os
        by (intro exI[of _ 1]) simp
    next
      case ne: False
      then have "df_state t = 1" using t(6) last by simp
      then show ?thesis using df_tail[of W t ws' bs rest c off] t(1,2,4) assms(2,6,8) ws ne c c0 m os by simp
    qed
  qed
  then obtain k out where k: "k \<le> length ws" "df_done t rest out ((drop_optional_header_fields W ^^ k) t)"
    "packet W (os @ out) (drop off bs)" by blast
  have "df_done (s\<lparr>dff_meta := ms\<rparr>) rest (os @ out) ((drop_optional_header_fields W ^^ Suc k) s)"
    using k(2) t(3,5) by (simp add: funpow_Suc_right df_done_def os_def flip: t_def del: funpow.simps)
  then show ?thesis using k by (intro exI[of _ "Suc k"] conjI exI[of _ "os @ out"]) simp_all
qed

definition df_demo :: "net_axis list \<Rightarrow> 4 word \<Rightarrow> df_st" where
  "df_demo ws d = \<lparr>df_state = 0, df_dataOffset = 0, df_prev = \<lparr>ax_lanes = [], ax_last = False\<rparr>,
     df_header = \<lparr>ph_ready = False, ph_idx = 0, ph_header = 0\<rparr>, df_parseHeader = False, df_headerWritten = False,
     dff_meta = [\<lparr>om_dataOffset = d, om_syn = False\<rparr>], dff_in = ws, dff_dataOffset = [], dff_fields = [], dff_out = []\<rparr>"

definition df_word_ex :: net_axis where
  "df_word_ex = \<lparr>ax_lanes = [(1, True), (2, True), (3, True), (4, True), (5, True), (0, False), (0, False), (0, False)], ax_last = True\<rparr>"

lemma df_word_ex_packet: "packet 8 [df_word_ex] [1, 2, 3, 4, 5]"
  by (simp add: df_word_ex_def packet_single numeral_3_eq_3)

lemma options_dropped_witness:
  "\<exists>k \<le> 2. \<exists>out. packet 8 out [5]
    \<and> df_done ((df_demo [df_word_ex] 1)\<lparr>dff_meta := []\<rparr>) [] out ((drop_optional_header_fields 8 ^^ k) (df_demo [df_word_ex] 1))"
  using options_dropped[of 8 "[df_word_ex]" "[1, 2, 3, 4, 5]" "df_demo [df_word_ex] 1" "\<lparr>om_dataOffset = 1, om_syn = False\<rparr>" "[]" "[]" 4]
  by (simp add: df_demo_def df_word_ex_packet numeral_2_eq_2)

subsection \<open>Options that fill a word\<close>

text \<open>If the options fill exactly one word, the first word of the payload is lost with them: the code takes the
  word that it reads when it counts the offset down for one that still holds options.\<close>

lemma options_word_lost:
  assumes "W \<in> {8, 16, 32}" and "packet W ws bs" and "df_state s = 0" and "dff_meta s = m # ms" and "dff_in s = ws @ rest"
    and "4 * unat (om_dataOffset m) = W" and "2 * W < length bs"
  shows "\<exists>k out. packet W out (drop (2 * W) bs)
    \<and> df_done (s\<lparr>dff_meta := ms\<rparr>) rest out ((drop_optional_header_fields W ^^ k) s)"
proof -
  define c where "c = W div 4"
  have c: "W = 4 * c" "0 < c" "unat (om_dataOffset m) = c" using assms(1,6) by (auto simp: c_def)
  obtain w ws1 where ws: "ws = w # ws1" using packet_nonempty[OF assms(2)] by (cases ws) auto
  have "ws1 \<noteq> []" using assms(2,7) ws by (auto simp: packet_single)
  then have p1: "\<not> ax_last w" "packet W ws1 (drop W bs)" using assms(2) ws by (simp_all add: packet_cons)
  then obtain w1 ws2 where ws1: "ws1 = w1 # ws2" using packet_nonempty by (cases ws1) blast+
  have "ws2 \<noteq> []" using p1(2) assms(7) ws1 by (auto simp: packet_single)
  then have p2: "\<not> ax_last w1" "packet W ws2 (drop W (drop W bs))" using p1(2) ws1 by (simp_all add: packet_cons)
  have nz: "om_dataOffset m \<noteq> 0" using c by auto
  define t where "t = drop_optional_header_fields W s"
  have "dff_in s = w # (ws1 @ rest)" using assms(5) ws by simp
  note t = df_start[OF assms(3,4) this t_def refl]
  define u where "u = drop_optional_header_fields W t"
  have st: "df_state t = 1" "dff_in t = w1 # (ws2 @ rest)" "unat (df_dataOffset t) = c" using t p1 ws1 c(3) by simp_all
  note u = df_word[OF st(1,2) u_def c(1) st(3)[symmetric]]
  have "df_dataOffset u = 0" using u(4) unat_minus_small[of c "df_dataOffset t"] st(3) by (simp add: unat_eq_zero[symmetric])
  moreover have "df_state u = 1" using u(6) p2(1) by simp
  ultimately have "df_done u rest ws2 ((drop_optional_header_fields W ^^ length ws2) u)"
    using df_pass[OF p2(2) _ u(1)] c by simp
  then have "df_done t rest ([] @ ws2) ((drop_optional_header_fields W ^^ Suc (length ws2)) t)"
    using u by (intro df_done_step[OF u_def]) simp_all
  then have "df_done (s\<lparr>dff_meta := ms\<rparr>) rest ws2 ((drop_optional_header_fields W ^^ Suc (Suc (length ws2))) s)"
    using t nz by (subst funpow_Suc_right) (simp add: df_done_def flip: t_def del: funpow.simps)
  moreover have "packet W ws2 (drop (2 * W) bs)" using p2(2) by (simp add: mult_2)
  ultimately show ?thesis by blast
qed

definition df_long :: "net_axis list" where
  "df_long = [\<lparr>ax_lanes = replicate 8 (1, True), ax_last = False\<rparr>, \<lparr>ax_lanes = replicate 8 (2, True), ax_last = False\<rparr>,
     \<lparr>ax_lanes = (3, True) # replicate 7 (0, False), ax_last = True\<rparr>]"

lemma df_long_packet: "packet 8 df_long (replicate 8 1 @ replicate 8 2 @ [3])"
  by (simp add: df_long_def packet_cons packet_single)

lemma options_word_lost_witness:
  "\<exists>k out. packet 8 out [3]
    \<and> df_done ((df_demo df_long 2)\<lparr>dff_meta := []\<rparr>) [] out ((drop_optional_header_fields 8 ^^ k) (df_demo df_long 2))"
  using options_word_lost[of 8 df_long "replicate 8 1 @ replicate 8 2 @ [3]" "df_demo df_long 2" "\<lparr>om_dataOffset = 2, om_syn = False\<rparr>" "[]" "[]"]
  by (simp add: df_long_packet) (simp add: df_demo_def)

text \<open>The options of a SYN go to the parser twice when the first word holds them all and the segment has a second one.\<close>

lemma fields_written_twice:
  assumes "df_state s = 0" and "dff_meta s = m # ms" and "dff_in s = w # w' # ws" and "W = 64" and "om_dataOffset m \<noteq> 0" and "om_syn m"
    and "\<not> ax_last w"
  shows "\<exists>f g. dff_fields ((drop_optional_header_fields W ^^ 2) s) = dff_fields s @ [f, g]"
proof -
  define h where "h = parseWord W (ax_lanes w) (ph_clear (df_header s))"
  define t where "t = drop_optional_header_fields W s"
  have "ph_ready h" using assms(4) by (simp add: h_def parseWord_def ph_clear_def)
  then have t: "df_state t = 1" "dff_in t = w' # ws" "df_parseHeader t" "\<not> df_headerWritten t" "df_header t = h"
    "dff_fields t = dff_fields s @ [ph_header h]"
    using assms by (simp_all add: t_def drop_optional_header_fields_def df_first_def Let_def h_def)
  have "dff_fields (drop_optional_header_fields W t) = dff_fields t @ [ph_header h]"
    using t \<open>ph_ready h\<close> by (simp add: drop_optional_header_fields_def df_next_def Let_def parse_ready)
  then show ?thesis using t(6) by (simp add: numeral_2_eq_2 t_def)
qed

end
