(* ===== verification/Tx_Header.thy ===== *)
theory Tx_Header
  imports Packet_Header Tx_Meta Tx_Stitch
begin

text \<open>
  The headers of an outgoing segment (\<^verbatim>\<open>toe/tx_engine/tx_engine.cpp\<close>): \<open>pseudoHeaderConstructionNew\<close> puts the
  pseudo header and the TCP header before the payload, with the options of a SYN behind them, and
  \<open>generate_ipv4\<close> puts the IPv4 header before the segment. Both run on streams of 8, 16, 32 or 64 lanes. A word that
  the code sends without having assigned all of it has its first contents as the argument \<open>u\<close>; the
  assignments to \<^verbatim>\<open>data\<close> under \<^verbatim>\<open>#ifndef __SYNTHESIS__\<close> are left out.
\<close>

subsection \<open>The TCP header\<close>

datatype pc_fsm = PC_META | PC_HEADER | PARTIAL_HEADER | PC_BODY | HEADER_MSS_OPTION

record pc_st =
  pc_state :: pc_fsm
  pc_header :: "256 packetHeader"
  pc_hasBody :: bool
  pc_isSYN :: bool
  pc_win_shift :: "4 word"
  pcf_meta :: "tx_engine_meta fifo"
  pcf_tuple :: "fourTuple fifo"
  pcf_in :: "net_axis fifo"
  pcf_out :: "net_axis fifo"

definition pc_dataOffset :: "tx_engine_meta \<Rightarrow> 4 word" where
  "pc_dataOffset m = (if txm_syn m then (if txm_win_shift m \<noteq> 0 then 7 else 6) else 5)"

definition pc_fill :: "tx_engine_meta \<Rightarrow> fourTuple \<Rightarrow> 256 word \<Rightarrow> 256 word" where
  "pc_fill m t =
     setChecksum 0 \<circ> setWindowSize (txm_window_size m)
     \<circ> setAckFlag (txm_ack m) \<circ> setRstFlag (txm_rst m) \<circ> setSynFlag (txm_syn m) \<circ> setFinFlag (txm_fin m)
     \<circ> setDataOffset (pc_dataOffset m) \<circ> setAckNumb (txm_ackNumb m) \<circ> setSeqNumb (txm_seqNumb m)
     \<circ> setDstPort (ft_dstPort t) \<circ> setSrcPort (ft_srcPort t) \<circ> setLength (txm_length m + 0x14)
     \<circ> setDstAddr (ft_dstIp t) \<circ> setSrcAddr (ft_srcIp t)"

text \<open>The options of a SYN: the maximum segment size, and the window scale if there is one.\<close>

definition syn_options :: "4 word \<Rightarrow> byte list" where
  "syn_options ws = [2, 4, range_get 7 0 (reverse16 (of_nat MSS)), range_get 15 8 (reverse16 (of_nat MSS))]
     @ (if ws \<noteq> 0 then [3, 3, ucast ws, 0] else [])"

definition put_options :: "nat \<Rightarrow> 4 word \<Rightarrow> lane list \<Rightarrow> lane list" where
  "put_options k ws ls =
     (let opts = map (\<lambda>b. (b, True)) (syn_options ws) in take k ls @ opts @ drop (k + length opts) ls)"

definition keep_low :: "nat \<Rightarrow> lane list \<Rightarrow> lane list" where
  "keep_low n ls = map (\<lambda>(j, b, _). (b, j < n)) (enumerate 0 ls)"

definition pc_meta :: "nat \<Rightarrow> pc_st \<Rightarrow> pc_st" where
  "pc_meta W s =
    (let m = hd (pcf_meta s); t = hd (pcf_tuple s); h = ph_clear (pc_header s);
         body = (txm_length m \<noteq> 0 \<and> \<not> txm_syn m) in
     s\<lparr>pcf_meta := tl (pcf_meta s), pcf_tuple := tl (pcf_tuple s),
       pc_header := h\<lparr>ph_header := pc_fill m t (ph_header h)\<rparr>, pc_win_shift := txm_win_shift m,
       pc_hasBody := body, pc_isSYN := txm_syn m,
       pc_state := (if 256 < 8 * W \<and> body then PARTIAL_HEADER else PC_HEADER)\<rparr>)"

definition pc_header_word :: "nat \<Rightarrow> lane list \<Rightarrow> pc_st \<Rightarrow> pc_st" where
  "pc_header_word W u s =
    (case consumeWord W u (pc_header s) of (rem, ls, h) \<Rightarrow>
      let ended = (unat rem < W); syn_word = (pc_isSYN s \<and> 8 * W \<le> 256);
          ls = keep_low 32 ls;
          ls = (if pc_isSYN s \<and> 8 * W = 512 then put_options 32 (pc_win_shift s) ls else ls) in
      s\<lparr>pc_header := h,
        pc_state := (if \<not> ended then PC_HEADER else if pc_hasBody s then PC_BODY
                     else if syn_word then HEADER_MSS_OPTION else PC_META),
        pcf_out := pcf_out s @ [\<lparr>ax_lanes = ls, ax_last = (ended \<and> \<not> pc_hasBody s \<and> \<not> syn_word)\<rparr>]\<rparr>)"

definition pseudoHeaderConstructionNew :: "nat \<Rightarrow> lane list \<Rightarrow> pc_st \<Rightarrow> pc_st" where
  "pseudoHeaderConstructionNew W u s =
    (case pc_state s of
       PC_META \<Rightarrow> (if pcf_meta s \<noteq> [] \<and> pcf_tuple s \<noteq> [] then pc_meta W s else s)
     | PC_HEADER \<Rightarrow> pc_header_word W u s
     | PARTIAL_HEADER \<Rightarrow>
         (if pcf_in s \<noteq> [] then
            (let w = hd (pcf_in s) in
             case consumeWord W (ax_lanes w) (pc_header s) of (_, ls, h) \<Rightarrow>
             s\<lparr>pcf_in := tl (pcf_in s), pc_header := h, pcf_out := pcf_out s @ [w\<lparr>ax_lanes := ls\<rparr>],
               pc_state := (if ax_last w then PC_META else PC_BODY)\<rparr>)
          else s)
     | PC_BODY \<Rightarrow>
         (if pcf_in s \<noteq> [] then
            (let w = hd (pcf_in s) in
             s\<lparr>pcf_in := tl (pcf_in s), pcf_out := pcf_out s @ [w], pc_state := (if ax_last w then PC_META else PC_BODY)\<rparr>)
          else s)
     | HEADER_MSS_OPTION \<Rightarrow>
         s\<lparr>pcf_out := pcf_out s @ [\<lparr>ax_lanes = put_options 0 (pc_win_shift s) (keep_low 0 u), ax_last = True\<rparr>],
           pc_state := PC_META\<rparr>)"

subsection \<open>The IPv4 header\<close>

datatype gi_fsm = GI_META | GI_HEADER | GI_PARTIAL_HEADER | GI_BODY

record gi_st =
  gi_state :: gi_fsm
  gi_header :: "160 packetHeader"
  gif_meta :: "u16 fifo"
  gif_tuple :: "twoTuple fifo"
  gif_in :: "net_axis fifo"
  gif_out :: "net_axis fifo"

definition gi_fill :: "u16 \<Rightarrow> twoTuple \<Rightarrow> 160 word \<Rightarrow> 160 word" where
  "gi_fill len t = ip_setProtocol 6 \<circ> ip_setSrcAddr (tw_srcIp t) \<circ> ip_setDstAddr (tw_dstIp t) \<circ> ip_setLength (len + 40)"

definition generate_ipv4 :: "nat \<Rightarrow> lane list \<Rightarrow> gi_st \<Rightarrow> gi_st" where
  "generate_ipv4 W u s =
    (case gi_state s of
       GI_META \<Rightarrow>
         (if gif_meta s \<noteq> [] \<and> gif_tuple s \<noteq> [] then
            (let h = ph_clear (gi_header s) in
             s\<lparr>gif_meta := tl (gif_meta s), gif_tuple := tl (gif_tuple s),
               gi_header := h\<lparr>ph_header := gi_fill (hd (gif_meta s)) (hd (gif_tuple s)) (ph_header h)\<rparr>,
               gi_state := (if 8 * W \<le> 160 then GI_HEADER else GI_PARTIAL_HEADER)\<rparr>)
          else s)
     | GI_HEADER \<Rightarrow>
         (case consumeWord W u (gi_header s) of (rem, ls, h) \<Rightarrow>
            s\<lparr>gi_header := h, gi_state := (if unat rem < W then GI_PARTIAL_HEADER else GI_HEADER),
              gif_out := gif_out s @ [\<lparr>ax_lanes = keep_low 32 ls, ax_last = False\<rparr>]\<rparr>)
     | GI_PARTIAL_HEADER \<Rightarrow>
         (if gif_in s \<noteq> [] then
            (let w = hd (gif_in s) in
             case consumeWord W (ax_lanes w) (gi_header s) of (_, ls, h) \<Rightarrow>
             s\<lparr>gif_in := tl (gif_in s), gi_header := h, gif_out := gif_out s @ [w\<lparr>ax_lanes := ls\<rparr>],
               gi_state := (if ax_last w then GI_META else GI_BODY)\<rparr>)
          else s)
     | GI_BODY \<Rightarrow>
         (if gif_in s \<noteq> [] then
            (let w = hd (gif_in s) in
             s\<lparr>gif_in := tl (gif_in s), gif_out := gif_out s @ [w], gi_state := (if ax_last w then GI_META else GI_BODY)\<rparr>)
          else s))"

subsection \<open>Words of a header\<close>

lemma keep_low_length [simp]: "length (keep_low n ls) = length ls"
  by (simp add: keep_low_def)

lemma keep_low_nth: "j < length ls \<Longrightarrow> keep_low n ls ! j = (fst (ls ! j), j < n)"
  by (simp add: keep_low_def case_prod_unfold nth_enumerate_eq)

lemma keep_low_zip:
  assumes "length bs \<le> n" and "length ks = length bs"
  shows "keep_low n (zip bs ks) = map (\<lambda>b. (b, True)) bs"
  using assms by (intro nth_equalityI) (simp_all add: keep_low_nth)

definition header_word :: "nat \<Rightarrow> nat \<Rightarrow> 'h::len word \<Rightarrow> bool \<Rightarrow> net_axis" where
  "header_word W i x l = \<lparr>ax_lanes = map (\<lambda>b. (b, True)) (take W (drop (W * i) (header_bytes x))), ax_last = l\<rparr>"

lemma header_words:
  "W * (i + r) \<le> length (header_bytes x)
     \<Longrightarrow> fulls W (map (\<lambda>j. header_word W j x False) [i..<i + r]) (take (W * r) (drop (W * i) (header_bytes x)))"
proof (induction r arbitrary: i)
  case (Suc r)
  have "[i..<i + Suc r] = i # [Suc i..<Suc i + r]" by (simp add: upt_conv_Cons)
  moreover have "fulls W (map (\<lambda>j. header_word W j x False) [Suc i..<Suc i + r])
      (take (W * r) (drop (W * Suc i) (header_bytes x)))"
    by (rule Suc.IH) (use Suc.prems in simp)
  moreover have "drop W (take (W * Suc r) (drop (W * i) (header_bytes x))) = take (W * r) (drop (W * Suc i) (header_bytes x))"
    by (simp add: drop_take add.commute)
  moreover have "W \<le> length (take (W * Suc r) (drop (W * i) (header_bytes x)))"
    using Suc.prems by (simp add: algebra_simps)
  ultimately show ?case by (simp add: header_word_def min_def)
qed simp

lemma unat_of_nat_small: "r < 256 \<Longrightarrow> unat (of_nat r :: 8 word) = r"
  by (simp add: unat_of_nat)

lemma consume_word:
  fixes h :: "'h::len packetHeader"
  assumes "LENGTH('h) = 8 * n" and "unat (ph_idx h) = i" and "W * i + W \<le> n" and "length u = W" and "0 < W" and "W \<le> 32"
    and "n < 256"
  shows "\<exists>rem ls. consumeWord W u h = (rem, ls, h\<lparr>ph_idx := ph_idx h + 1\<rparr>) \<and> unat rem = n - (W * i + W)
    \<and> keep_low 32 ls = ax_lanes (header_word W i (ph_header h) l)"
proof (intro exI conjI)
  show "consumeWord W u h = (of_nat (n - (W * i + W)), zip (take W (drop (W * i) (header_bytes (ph_header h)))) (map snd u),
      h\<lparr>ph_idx := ph_idx h + 1\<rparr>)"
    by (rule consume_full[OF assms(1-5)])
  show "unat (of_nat (n - (W * i + W)) :: 8 word) = n - (W * i + W)"
    by (rule unat_of_nat_small) (use assms(7) in simp)
  show "keep_low 32 (zip (take W (drop (W * i) (header_bytes (ph_header h)))) (map snd u)) = ax_lanes (header_word W i (ph_header h) l)"
    using assms by (simp add: header_word_def keep_low_zip)
qed

lemma small_idx: "unat (x :: u16) = i \<Longrightarrow> i < 32 \<Longrightarrow> unat (x + 1) = i + 1"
  by (simp add: unat_add_mod)

subsection \<open>The TCP header goes out\<close>

lemma pc_header_step:
  assumes "pc_state s = PC_HEADER" and "0 < W" and "W \<le> 32" and "unat (ph_idx (pc_header s)) = i" and "W * i + W \<le> 32"
    and "length u = W" and "e \<longleftrightarrow> 32 - (W * i + W) < W"
  shows "pseudoHeaderConstructionNew W u s = s\<lparr>pc_header := (pc_header s)\<lparr>ph_idx := ph_idx (pc_header s) + 1\<rparr>,
     pc_state := (if \<not> e then PC_HEADER else if pc_hasBody s then PC_BODY else if pc_isSYN s then HEADER_MSS_OPTION
                  else PC_META),
     pcf_out := pcf_out s @ [header_word W i (ph_header (pc_header s)) (e \<and> \<not> pc_hasBody s \<and> \<not> pc_isSYN s)]\<rparr>"
proof -
  obtain rem ls where c: "consumeWord W u (pc_header s) = (rem, ls, (pc_header s)\<lparr>ph_idx := ph_idx (pc_header s) + 1\<rparr>)"
    "unat rem = 32 - (W * i + W)" "keep_low 32 ls = ax_lanes (header_word W i (ph_header (pc_header s)) False)"
    using consume_word[of 32 "pc_header s" i W u False] assms by auto
  then show ?thesis using assms by (simp add: pseudoHeaderConstructionNew_def pc_header_word_def Let_def header_word_def)
qed

lemma pc_header_phase:
  assumes "pc_state s = PC_HEADER" and "0 < W" and "W \<le> 32" and "unat (ph_idx (pc_header s)) = i"
    and "W * (i + length us) + W \<le> 32" and "\<forall>u \<in> set us. length u = W"
  shows "\<exists>x. fold (pseudoHeaderConstructionNew W) us s
     = s\<lparr>pc_header := (pc_header s)\<lparr>ph_idx := x\<rparr>,
         pcf_out := pcf_out s @ map (\<lambda>j. header_word W j (ph_header (pc_header s)) False) [i..<i + length us]\<rparr>
     \<and> unat x = i + length us"
  using assms(1,4-6)
proof (induction us arbitrary: s i)
  case Nil
  then show ?case by (intro exI[of _ "ph_idx (pc_header s)"]) simp
next
  case (Cons u us)
  define t where "t = s\<lparr>pc_header := (pc_header s)\<lparr>ph_idx := ph_idx (pc_header s) + 1\<rparr>,
     pcf_out := pcf_out s @ [header_word W i (ph_header (pc_header s)) False]\<rparr>"
  have le: "W * i + W + W \<le> 32" using Cons.prems(3) by (simp add: algebra_simps)
  then have ii: "i < 32" using assms(2) by (cases W) auto
  have "pseudoHeaderConstructionNew W u s = t"
    using pc_header_step[of s W i u False] Cons.prems assms(2,3) le by (simp add: t_def)
  moreover have "unat (ph_idx (pc_header t)) = i + 1" using small_idx[OF Cons.prems(2) ii] by (simp add: t_def)
  then obtain x where "fold (pseudoHeaderConstructionNew W) us t
     = t\<lparr>pc_header := (pc_header t)\<lparr>ph_idx := x\<rparr>,
         pcf_out := pcf_out t @ map (\<lambda>j. header_word W j (ph_header (pc_header t)) False) [i + 1..<i + 1 + length us]\<rparr>"
     "unat x = i + 1 + length us"
    using Cons.IH[of t "i + 1"] Cons.prems by (auto simp: t_def)
  moreover have "[i..<i + length (u # us)] = i # [i + 1..<i + 1 + length us]" by (subst upt_conv_Cons) simp_all
  ultimately show ?case by (intro exI[of _ x]) (simp add: t_def del: upt_Suc)
qed

lemma pc_body_phase:
  assumes "pc_state s = PC_BODY" and "packet W ws bs" and "pcf_in s = ws @ rest" and "length us = length ws"
  shows "fold (pseudoHeaderConstructionNew W) us s = s\<lparr>pcf_in := rest, pcf_out := pcf_out s @ ws, pc_state := PC_META\<rparr>"
  using assms
proof (induction ws arbitrary: s bs us)
  case (Cons w ws)
  obtain u us' where us: "us = u # us'" "length us' = length ws" using Cons.prems(4) by (cases us) auto
  define t where "t = pseudoHeaderConstructionNew W u s"
  have t: "t = s\<lparr>pcf_in := ws @ rest, pcf_out := pcf_out s @ [w], pc_state := (if ax_last w then PC_META else PC_BODY)\<rparr>"
    using Cons.prems by (simp add: t_def pseudoHeaderConstructionNew_def Let_def)
  show ?case
  proof (cases "ws = []")
    case True
    then show ?thesis using us t Cons.prems(2) by (simp add: packet_single flip: t_def)
  next
    case False
    then have p: "\<not> ax_last w" "packet W ws (drop W bs)" using Cons.prems(2) by (simp_all add: packet_cons)
    have "fold (pseudoHeaderConstructionNew W) us' t = t\<lparr>pcf_in := rest, pcf_out := pcf_out t @ ws, pc_state := PC_META\<rparr>"
      by (rule Cons.IH[OF _ p(2) _ us(2)]) (use t p(1) in simp_all)
    then show ?thesis using us t p(1) by (simp flip: t_def)
  qed
qed simp

text \<open>What a segment is made of behind its header.\<close>

definition seg_body :: "tx_engine_meta \<Rightarrow> bool" where
  "seg_body m \<longleftrightarrow> txm_length m \<noteq> 0 \<and> \<not> txm_syn m"

definition seg_tail :: "tx_engine_meta \<Rightarrow> byte list \<Rightarrow> byte list" where
  "seg_tail m payload = (if txm_syn m then syn_options (txm_win_shift m) else if seg_body m then payload else [])"

lemma syn_options_length: "length (syn_options ws) = (if ws = 0 then 4 else 8)"
  by (simp add: syn_options_def)

text \<open>The header is laid out and its last word goes out: what follows is the body, the options or nothing.\<close>

lemma pc_meta_step:
  assumes "pc_state s = PC_META" and "pcf_meta s = m # ms" and "pcf_tuple s = t # ts"
  shows "pseudoHeaderConstructionNew W u s = s\<lparr>pcf_meta := ms, pcf_tuple := ts,
     pc_header := (pc_header s)\<lparr>ph_ready := False, ph_idx := 0, ph_header := pc_fill m t (ph_header (pc_header s))\<rparr>,
     pc_win_shift := txm_win_shift m, pc_hasBody := seg_body m, pc_isSYN := txm_syn m,
     pc_state := (if 32 < W \<and> seg_body m then PARTIAL_HEADER else PC_HEADER)\<rparr>"
  using assms by (simp add: pseudoHeaderConstructionNew_def pc_meta_def Let_def ph_clear_def seg_body_def)

lemma options_word:
  assumes "8 \<le> W" and "length u = W"
  shows "packet W [\<lparr>ax_lanes = put_options 0 ws (keep_low 0 u), ax_last = True\<rparr>] (syn_options ws)"
proof -
  have k: "map snd (keep_low 0 u) = replicate W False"
    using assms(2) by (intro nth_equalityI) (simp_all add: keep_low_nth)
  have len: "length (syn_options ws) \<le> W" "syn_options ws \<noteq> []"
    using assms(1) syn_options_length[of ws] by (auto split: if_splits)
  have "map snd (drop (length (syn_options ws)) (keep_low 0 u)) = replicate (W - length (syn_options ws)) False"
    by (simp add: k drop_map[symmetric])
  then show ?thesis using len by (simp add: packet_single put_options_def Let_def)
qed

lemma pc_narrow:
  assumes "0 < W" and "8 \<le> W" and "W * Suc n = 32" and "pc_state s = PC_HEADER" and "unat (ph_idx (pc_header s)) = 0"
    and "length us = n" and "length u = W" and "\<forall>u \<in> set us. length u = W"
  shows "\<exists>x fs. fold (pseudoHeaderConstructionNew W) (us @ [u]) s = s\<lparr>pc_header := (pc_header s)\<lparr>ph_idx := x\<rparr>,
      pc_state := (if pc_hasBody s then PC_BODY else if pc_isSYN s then HEADER_MSS_OPTION else PC_META),
      pcf_out := pcf_out s @ fs\<rparr>
    \<and> (if pc_hasBody s \<or> pc_isSYN s then fulls W fs (header_bytes (ph_header (pc_header s)))
       else packet W fs (header_bytes (ph_header (pc_header s))))"
proof -
  define hb where "hb = header_bytes (ph_header (pc_header s))"
  have len: "length hb = 32" by (simp add: hb_def)
  have W: "W \<le> 32" using assms(3) by simp
  obtain x where x: "fold (pseudoHeaderConstructionNew W) us s = s\<lparr>pc_header := (pc_header s)\<lparr>ph_idx := x\<rparr>,
      pcf_out := pcf_out s @ map (\<lambda>j. header_word W j (ph_header (pc_header s)) False) [0..<n]\<rparr>" "unat x = n"
    using pc_header_phase[of s W 0 us] assms W by auto
  define t where "t = fold (pseudoHeaderConstructionNew W) us s"
  define last where "last = (\<not> pc_hasBody s \<and> \<not> pc_isSYN s)"
  have t: "pc_state t = PC_HEADER" "unat (ph_idx (pc_header t)) = n" "ph_header (pc_header t) = ph_header (pc_header s)"
    "pc_hasBody t = pc_hasBody s" "pc_isSYN t = pc_isSYN s"
    using x assms(4) by (simp_all add: t_def)
  have le: "W * n + W \<le> 32" and e: "32 - (W * n + W) < W" using assms(1,3) by simp_all
  define fs where "fs = map (\<lambda>j. header_word W j (ph_header (pc_header s)) False) [0..<n] @ [header_word W n (ph_header (pc_header s)) last]"
  have "fold (pseudoHeaderConstructionNew W) (us @ [u]) s = pseudoHeaderConstructionNew W u t" by (simp add: t_def)
  also have "\<dots> = t\<lparr>pc_header := (pc_header t)\<lparr>ph_idx := ph_idx (pc_header t) + 1\<rparr>,
      pc_state := (if pc_hasBody s then PC_BODY else if pc_isSYN s then HEADER_MSS_OPTION else PC_META),
      pcf_out := pcf_out t @ [header_word W n (ph_header (pc_header s)) last]\<rparr>"
    using pc_header_step[OF t(1) assms(1) W t(2) le assms(7), of True] e by (simp add: t last_def)
  also have "\<dots> = s\<lparr>pc_header := (pc_header s)\<lparr>ph_idx := x + 1\<rparr>,
      pc_state := (if pc_hasBody s then PC_BODY else if pc_isSYN s then HEADER_MSS_OPTION else PC_META),
      pcf_out := pcf_out s @ fs\<rparr>" using x by (simp add: t_def fs_def)
  finally have run: "fold (pseudoHeaderConstructionNew W) (us @ [u]) s = \<dots>" .
  have fulls: "fulls W (map (\<lambda>j. header_word W j (ph_header (pc_header s)) False) [0..<n]) (take (W * n) hb)"
    using header_words[of W 0 n "ph_header (pc_header s)"] le by (simp add: hb_def)
  have rest: "length (drop (W * n) hb) = W" using len assms(3) by simp
  have "fulls W fs (take (W * n) hb @ drop (W * n) hb)" if "\<not> last"
    unfolding fs_def by (rule fulls_snoc[OF fulls]) (use that rest in \<open>simp_all add: header_word_def hb_def[symmetric]\<close>)
  moreover have "packet W fs (take (W * n) hb @ drop (W * n) hb)" if last
    unfolding fs_def
    by (rule fulls_packet[OF fulls])
       (use that rest assms(1) len in \<open>auto simp: packet_single header_word_def hb_def[symmetric]\<close>)
  ultimately show ?thesis using run by (auto simp: last_def hb_def)
qed

definition pc_done :: "nat \<Rightarrow> pc_st \<Rightarrow> tx_engine_meta list \<Rightarrow> fourTuple list \<Rightarrow> net_axis list \<Rightarrow> byte list \<Rightarrow> pc_st \<Rightarrow> bool" where
  "pc_done W s ms ts rest bs t \<longleftrightarrow> pc_state t = PC_META \<and> pcf_meta t = ms \<and> pcf_tuple t = ts \<and> pcf_in t = rest
     \<and> (\<exists>out. pcf_out t = pcf_out s @ out \<and> packet W out bs)"

lemma split_length: "length us = a + b \<Longrightarrow> \<exists>xs ys. us = xs @ ys \<and> length xs = a \<and> length ys = b"
  by (intro exI[of _ "take a us"] exI[of _ "drop a us"]) simp

lemma pc_narrow_segment:
  assumes "8 \<le> W" and "W * Suc n = 32" and "pc_state s = PC_META" and "pcf_meta s = m # ms" and "pcf_tuple s = t # ts"
    and "seg_body m \<longrightarrow> packet W ws payload" and "pcf_in s = (if seg_body m then ws else []) @ rest"
    and "length us = 1 + (Suc n + (if seg_body m then length ws else if txm_syn m then 1 else 0))"
    and "\<forall>u \<in> set us. length u = W"
  shows "pc_done W s ms ts rest (header_bytes (pc_fill m t (ph_header (pc_header s))) @ seg_tail m payload)
    (fold (pseudoHeaderConstructionNew W) us s)"
proof -
  define r where "r = (if seg_body m then length ws else if txm_syn m then 1 else 0)"
  obtain u0 us' where us: "us = u0 # us'" "length us' = Suc n + r"
    using assms(8) by (cases us) (auto simp: r_def)
  obtain us1 us3 where us': "us' = us1 @ us3" "length us1 = Suc n" "length us3 = r" using split_length[OF us(2)] by blast
  obtain vs u where vs: "us1 = vs @ [u]" "length vs = n" using us'(2) by (cases us1 rule: rev_cases) auto
  have lens: "length u = W" "\<forall>v \<in> set vs. length v = W" "\<forall>v \<in> set us3. length v = W"
    using assms(9) us us' vs by auto
  define s1 where "s1 = pseudoHeaderConstructionNew W u0 s"
  have W: "0 < W" "\<not> 32 < W" using assms(1,2) by auto
  have s1: "s1 = s\<lparr>pcf_meta := ms, pcf_tuple := ts,
     pc_header := (pc_header s)\<lparr>ph_ready := False, ph_idx := 0, ph_header := pc_fill m t (ph_header (pc_header s))\<rparr>,
     pc_win_shift := txm_win_shift m, pc_hasBody := seg_body m, pc_isSYN := txm_syn m, pc_state := PC_HEADER\<rparr>"
    using pc_meta_step[OF assms(3-5)] W(2) by (simp add: s1_def)
  define hb where "hb = header_bytes (pc_fill m t (ph_header (pc_header s)))"
  obtain x fs where fs: "fold (pseudoHeaderConstructionNew W) us1 s1 = s1\<lparr>pc_header := (pc_header s1)\<lparr>ph_idx := x\<rparr>,
      pc_state := (if seg_body m then PC_BODY else if txm_syn m then HEADER_MSS_OPTION else PC_META),
      pcf_out := pcf_out s @ fs\<rparr>"
    "if seg_body m \<or> txm_syn m then fulls W fs hb else packet W fs hb"
  proof -
    have f: "pc_state s1 = PC_HEADER" "unat (ph_idx (pc_header s1)) = 0" "pc_hasBody s1 = seg_body m" "pc_isSYN s1 = txm_syn m"
      "pcf_out s1 = pcf_out s" "header_bytes (ph_header (pc_header s1)) = hb" using s1 by (simp_all add: hb_def)
    show ?thesis using pc_narrow[OF W(1) assms(1,2) f(1,2) vs(2) lens(1,2)] that unfolding f vs(1) by blast
  qed
  define s2 where "s2 = fold (pseudoHeaderConstructionNew W) us1 s1"
  have run: "fold (pseudoHeaderConstructionNew W) us s = fold (pseudoHeaderConstructionNew W) us3 s2"
    using us us' by (simp add: s1_def s2_def)
  have s2: "pcf_meta s2 = ms" "pcf_tuple s2 = ts" "pcf_in s2 = (if seg_body m then ws else []) @ rest" "pcf_out s2 = pcf_out s @ fs"
    "pc_win_shift s2 = txm_win_shift m"
    "pc_state s2 = (if seg_body m then PC_BODY else if txm_syn m then HEADER_MSS_OPTION else PC_META)"
    using s1 fs(1) assms(7) by (simp_all add: s2_def)
  have "pc_done W s ms ts rest (hb @ seg_tail m payload) (fold (pseudoHeaderConstructionNew W) us3 s2)"
  proof (cases "seg_body m")
    case True
    then have p: "packet W ws payload" using assms(6) by simp
    have "fold (pseudoHeaderConstructionNew W) us3 s2 = s2\<lparr>pcf_in := rest, pcf_out := pcf_out s2 @ ws, pc_state := PC_META\<rparr>"
      by (rule pc_body_phase[OF _ p]) (use s2 True us'(3) r_def in simp_all)
    moreover have "packet W (fs @ ws) (hb @ payload)" by (rule fulls_packet[OF _ p]) (use fs(2) True in simp)
    ultimately show ?thesis using s2 True by (simp add: pc_done_def seg_tail_def seg_body_def)
  next
    case nobody: False
    show ?thesis
    proof (cases "txm_syn m")
      case True
      obtain u3 where u3: "us3 = [u3]" "length u3 = W"
        using us'(3) nobody True lens(3) by (cases us3) (auto simp: r_def)
      have "packet W (fs @ [\<lparr>ax_lanes = put_options 0 (txm_win_shift m) (keep_low 0 u3), ax_last = True\<rparr>])
          (hb @ syn_options (txm_win_shift m))"
        by (rule fulls_packet[OF _ options_word]) (use fs(2) True assms(1) u3(2) in simp_all)
      then show ?thesis using s2 True nobody u3
        by (simp add: pc_done_def seg_tail_def pseudoHeaderConstructionNew_def)
    next
      case False
      then show ?thesis using fs(2) s2 nobody us'(3) by (simp add: pc_done_def seg_tail_def r_def)
    qed
  qed
  then show ?thesis using run by (simp add: hb_def)
qed

subsection \<open>One word for the whole header\<close>

lemma pc_wide_segment:
  assumes "W = 64" and "pc_state s = PC_META" and "pcf_meta s = m # ms" and "pcf_tuple s = t # ts"
    and "seg_body m \<longrightarrow> packet W ws (replicate 32 0 @ payload)" and "pcf_in s = (if seg_body m then ws else []) @ rest"
    and "length us = 1 + (if seg_body m then length ws else 1)" and "\<forall>u \<in> set us. length u = W"
  shows "pc_done W s ms ts rest (header_bytes (pc_fill m t (ph_header (pc_header s))) @ seg_tail m payload)
    (fold (pseudoHeaderConstructionNew W) us s)"
proof -
  obtain u0 u us' where us: "us = u0 # u # us'" "length us' = (if seg_body m then length ws - 1 else 0)"
  proof -
    have "ws \<noteq> []" if "seg_body m" using that assms(5) packet_nonempty by blast
    then have "2 \<le> length us" using assms(7) by (auto simp: Suc_le_eq numeral_2_eq_2)
    then show ?thesis using that assms(7) by (cases us; cases "tl us") (auto split: if_splits)
  qed
  have u: "length u = 64" using assms(1,8) us by simp
  define s1 where "s1 = pseudoHeaderConstructionNew W u0 s"
  have s1: "s1 = s\<lparr>pcf_meta := ms, pcf_tuple := ts,
     pc_header := (pc_header s)\<lparr>ph_ready := False, ph_idx := 0, ph_header := pc_fill m t (ph_header (pc_header s))\<rparr>,
     pc_win_shift := txm_win_shift m, pc_hasBody := seg_body m, pc_isSYN := txm_syn m,
     pc_state := (if seg_body m then PARTIAL_HEADER else PC_HEADER)\<rparr>"
    using pc_meta_step[OF assms(2-4)] assms(1) by (simp add: s1_def)
  define hb where "hb = header_bytes (pc_fill m t (ph_header (pc_header s)))"
  have hb: "length hb = 32" by (simp add: hb_def)
  have run: "fold (pseudoHeaderConstructionNew W) us s = fold (pseudoHeaderConstructionNew W) us' (pseudoHeaderConstructionNew W u s1)"
    using us by (simp add: s1_def)
  have cons: "consumeWord W ls (pc_header s1) = (0, zip (hb @ drop 32 (map fst ls)) (map snd ls), (pc_header s1)\<lparr>ph_idx := 1\<rparr>)"
    if "length ls = 64" for ls
    using consume_rest[of 32 "pc_header s1" 0 W ls] that assms(1) s1 by (simp add: hb_def)
  have "pc_done W s ms ts rest (hb @ seg_tail m payload)
      (fold (pseudoHeaderConstructionNew W) us' (pseudoHeaderConstructionNew W u s1))"
  proof (cases "seg_body m")
    case True
    then have pk: "packet W ws (replicate 32 0 @ payload)" using assms(5) by simp
    then obtain w ws' where ws: "ws = w # ws'" using packet_nonempty by (cases ws) blast+
    have lw: "length (ax_lanes w) = 64" using pk ws assms(1) packet_lanes by blast
    define w' where "w' = w\<lparr>ax_lanes := zip (hb @ drop 32 (map fst (ax_lanes w))) (map snd (ax_lanes w))\<rparr>"
    have new: "packet W (w' # ws') (hb @ payload)"
    proof -
      have "hb \<noteq> []" using hb by auto
      then show ?thesis using packet_replace[of W w ws' "replicate 32 0" payload hb] pk ws hb assms(1) by (simp add: w'_def)
    qed
    define s2 where "s2 = pseudoHeaderConstructionNew W u s1"
    have s2: "s2 = s1\<lparr>pcf_in := ws' @ rest, pc_header := (pc_header s1)\<lparr>ph_idx := 1\<rparr>, pcf_out := pcf_out s @ [w'],
        pc_state := (if ax_last w then PC_META else PC_BODY)\<rparr>"
      using s1 True assms(6) ws cons[OF lw]
      by (simp add: s2_def pseudoHeaderConstructionNew_def[of W u] Let_def w'_def)
    then have f: "pcf_meta s2 = ms" "pcf_tuple s2 = ts" "pcf_in s2 = ws' @ rest" "pcf_out s2 = pcf_out s @ [w']"
      "pc_state s2 = (if ax_last w then PC_META else PC_BODY)" using s1 by simp_all
    have tail: "seg_tail m payload = payload" using True by (simp add: seg_tail_def seg_body_def)
    show ?thesis unfolding s2_def[symmetric] tail
    proof (cases "ws' = []")
      case True
      then have "us' = []" using us(2) ws \<open>seg_body m\<close> by simp
      moreover have "ax_last w" using pk ws True by (simp add: packet_single)
      ultimately show "pc_done W s ms ts rest (hb @ payload) (fold (pseudoHeaderConstructionNew W) us' s2)"
        using new True f by (simp add: pc_done_def)
    next
      case False
      then have "\<not> ax_last w" "packet W ws' (drop W (replicate 32 0 @ payload))" using pk ws by (simp_all add: packet_cons)
      then have "fold (pseudoHeaderConstructionNew W) us' s2 = s2\<lparr>pcf_in := rest, pcf_out := pcf_out s2 @ ws', pc_state := PC_META\<rparr>"
        by (intro pc_body_phase) (use f us(2) ws \<open>seg_body m\<close> in auto)
      then show "pc_done W s ms ts rest (hb @ payload) (fold (pseudoHeaderConstructionNew W) us' s2)"
        using new f by (simp add: pc_done_def)
    qed
  next
    case False
    define ls where "ls = keep_low 32 (zip (hb @ drop 32 (map fst u)) (map snd u))"
    define o1 where "o1 = \<lparr>ax_lanes = (if txm_syn m then put_options 32 (txm_win_shift m) ls else ls), ax_last = True\<rparr>"
    have ls: "length ls = 64" using u hb by (simp add: ls_def)
    have low: "take 32 ls = map (\<lambda>b. (b, True)) hb"
      using u hb by (intro nth_equalityI) (simp_all add: ls_def keep_low_nth nth_append)
    have high: "map snd (drop k ls) = replicate (64 - k) False" if "32 \<le> k" for k
      using that u hb by (intro nth_equalityI) (simp_all add: ls_def keep_low_nth)
    have "pseudoHeaderConstructionNew W u s1
        = s1\<lparr>pc_header := (pc_header s1)\<lparr>ph_idx := 1\<rparr>, pc_state := PC_META, pcf_out := pcf_out s @ [o1]\<rparr>"
    proof -
      have f: "pc_state s1 = PC_HEADER" "\<not> pc_hasBody s1" "pc_isSYN s1 = txm_syn m" "pc_win_shift s1 = txm_win_shift m"
        "pcf_out s1 = pcf_out s" using s1 False by simp_all
      then show ?thesis using assms(1) cons[OF u]
        by (simp add: pseudoHeaderConstructionNew_def pc_header_word_def Let_def o1_def ls_def)
    qed
    moreover have "packet W [o1] (hb @ seg_tail m payload)"
    proof (cases "txm_syn m")
      case True
      define opts where "opts = syn_options (txm_win_shift m)"
      have len: "length opts \<le> 8" "length opts \<ge> 4" by (simp_all add: opts_def syn_options_length)
      have "ax_lanes o1 = map (\<lambda>b. (b, True)) (hb @ opts) @ drop (32 + length opts) ls"
        using True low by (simp add: o1_def put_options_def Let_def opts_def)
      then show ?thesis using True hb len assms(1) high[of "32 + length opts"]
        by (auto simp: packet_single seg_tail_def o1_def opts_def)
    next
      case no: False
      then show ?thesis using low high[of 32] hb assms(1) False by (auto simp: packet_single o1_def seg_tail_def)
    qed
    moreover have "us' = []" using us(2) False by simp
    ultimately show ?thesis using s1 False assms(6) by (simp add: pc_done_def)
  qed
  then show ?thesis using run by (simp add: hb_def)
qed

lemma segment_runs:
  assumes "W \<in> {8, 16, 32, 64}" and "pc_state s = PC_META" and "pcf_meta s = m # ms" and "pcf_tuple s = t # ts"
    and "seg_body m \<longrightarrow> packet W ws (replicate (32 mod W) 0 @ payload)"
    and "pcf_in s = (if seg_body m then ws else []) @ rest"
  shows "\<exists>k. \<forall>us. length us = k \<and> (\<forall>u \<in> set us. length u = W) \<longrightarrow>
    pc_done W s ms ts rest (header_bytes (pc_fill m t (ph_header (pc_header s))) @ seg_tail m payload)
      (fold (pseudoHeaderConstructionNew W) us s)"
proof (cases "W = 64")
  case True
  then show ?thesis using pc_wide_segment[OF True assms(2-4) _ assms(6)] assms(5) by auto
next
  case False
  then have "W = 8 \<or> W = 16 \<or> W = 32" using assms(1) by auto
  then have "W * Suc (32 div W - 1) = 32" "32 mod W = 0" "8 \<le> W" by auto
  then show ?thesis using pc_narrow_segment[OF _ _ assms(2-4) _ assms(6)] assms(5) by (simp add: imp_conjL) blast
qed

text \<open>A segment leaves \<open>pseudoHeaderConstructionNew\<close> as one packet: the 32 bytes of the pseudo header and the TCP
  header with the fields of its metadata and tuple, then the options of a SYN or the payload, on streams of 64,
  128, 256 and 512 bits, whatever the unassigned parts of its words hold. The payload comes in behind
  as many bytes as the shifter before has put in.\<close>

lemma segment_laid_out:
  assumes "W \<in> {8, 16, 32, 64}" and "pc_state s = PC_META" and "pcf_meta s = m # ms" and "pcf_tuple s = t # ts"
    and "seg_body m \<longrightarrow> packet W ws (replicate (32 mod W) 0 @ payload)"
    and "pcf_in s = (if seg_body m then ws else []) @ rest"
  shows "\<exists>k. \<forall>us. length us = k \<and> (\<forall>u \<in> set us. length u = W) \<longrightarrow>
    pc_done W s ms ts rest (header_bytes (pc_fill m t (ph_header (pc_header s))) @ seg_tail m payload)
      (fold (pseudoHeaderConstructionNew W) us s)"
  using assms by (rule segment_runs)

definition demo_meta :: tx_engine_meta where
  "demo_meta = \<lparr>txm_seqNumb = 100, txm_ackNumb = 200, txm_window_size = 300, txm_win_shift = 0, txm_length = 3,
     txm_ack = True, txm_rst = False, txm_syn = False, txm_fin = False\<rparr>"

definition demo_tuple :: fourTuple where
  "demo_tuple = mk_fourTuple 0x0100000A 0x0200000A 80 8080"

definition demo_payload :: net_axis where
  "demo_payload = \<lparr>ax_lanes = [(1, True), (2, True), (3, True)] @ replicate 5 (0, False), ax_last = True\<rparr>"

definition pc_demo :: pc_st where
  "pc_demo = \<lparr>pc_state = PC_META, pc_header = \<lparr>ph_ready = False, ph_idx = 0, ph_header = full_init 0\<rparr>, pc_hasBody = False,
     pc_isSYN = False, pc_win_shift = 0, pcf_meta = [demo_meta], pcf_tuple = [demo_tuple], pcf_in = [demo_payload], pcf_out = []\<rparr>"

lemma segment_laid_out_witness:
  "\<exists>k. \<forall>us. length us = k \<and> (\<forall>u \<in> set us. length u = 8) \<longrightarrow>
    pc_done 8 pc_demo [] [] [] (header_bytes (pc_fill demo_meta demo_tuple (full_init 0)) @ [1, 2, 3])
      (fold (pseudoHeaderConstructionNew 8) us pc_demo)"
  using segment_laid_out[of 8 pc_demo demo_meta "[]" demo_tuple "[]" "[demo_payload]" "[1, 2, 3]" "[]"]
  by (simp add: pc_demo_def demo_meta_def demo_payload_def seg_body_def seg_tail_def packet_single)

subsection \<open>The IPv4 header goes out\<close>

definition gi_done :: "nat \<Rightarrow> gi_st \<Rightarrow> u16 list \<Rightarrow> twoTuple list \<Rightarrow> net_axis list \<Rightarrow> byte list \<Rightarrow> gi_st \<Rightarrow> bool" where
  "gi_done W s ms ts rest bs t \<longleftrightarrow> gi_state t = GI_META \<and> gif_meta t = ms \<and> gif_tuple t = ts \<and> gif_in t = rest
     \<and> (\<exists>out. gif_out t = gif_out s @ out \<and> packet W out bs)"

lemma gi_body_phase:
  assumes "gi_state s = GI_BODY" and "packet W ws bs" and "gif_in s = ws @ rest" and "length us = length ws"
  shows "fold (generate_ipv4 W) us s = s\<lparr>gif_in := rest, gif_out := gif_out s @ ws, gi_state := GI_META\<rparr>"
  using assms
proof (induction ws arbitrary: s bs us)
  case (Cons w ws)
  obtain u us' where us: "us = u # us'" "length us' = length ws" using Cons.prems(4) by (cases us) auto
  define t where "t = generate_ipv4 W u s"
  have t: "t = s\<lparr>gif_in := ws @ rest, gif_out := gif_out s @ [w], gi_state := (if ax_last w then GI_META else GI_BODY)\<rparr>"
    using Cons.prems by (simp add: t_def generate_ipv4_def Let_def)
  show ?case
  proof (cases "ws = []")
    case True
    then show ?thesis using us t Cons.prems(2) by (simp add: packet_single flip: t_def)
  next
    case False
    then have p: "\<not> ax_last w" "packet W ws (drop W bs)" using Cons.prems(2) by (simp_all add: packet_cons)
    have "fold (generate_ipv4 W) us' t = t\<lparr>gif_in := rest, gif_out := gif_out t @ ws, gi_state := GI_META\<rparr>"
      by (rule Cons.IH[OF _ p(2) _ us(2)]) (use t p(1) in simp_all)
    then show ?thesis using us t p(1) by (simp flip: t_def)
  qed
qed simp

text \<open>A word that holds nothing but header.\<close>

lemma gi_header_step:
  assumes "gi_state s = GI_HEADER" and "0 < W" and "W \<le> 32" and "unat (ph_idx (gi_header s)) = i" and "W * i + W \<le> 20"
    and "length u = W"
  shows "generate_ipv4 W u s = s\<lparr>gi_header := (gi_header s)\<lparr>ph_idx := ph_idx (gi_header s) + 1\<rparr>,
     gi_state := (if 20 - (W * i + W) < W then GI_PARTIAL_HEADER else GI_HEADER),
     gif_out := gif_out s @ [header_word W i (ph_header (gi_header s)) False]\<rparr>"
proof -
  obtain rem ls where c: "consumeWord W u (gi_header s) = (rem, ls, (gi_header s)\<lparr>ph_idx := ph_idx (gi_header s) + 1\<rparr>)"
    "unat rem = 20 - (W * i + W)" "keep_low 32 ls = ax_lanes (header_word W i (ph_header (gi_header s)) False)"
    using consume_word[of 20 "gi_header s" i W u False] assms by auto
  then show ?thesis using assms by (simp add: generate_ipv4_def header_word_def)
qed

text \<open>The word with the end of the header and the start of the segment, and the rest of the segment.\<close>

lemma gi_partial_phase:
  assumes "gi_state s = GI_PARTIAL_HEADER" and "unat (ph_idx (gi_header s)) = i" and "W * i < 20" and "20 < W * i + W"
    and "packet W ws (replicate (20 - W * i) 0 @ bs)" and "gif_in s = ws @ rest" and "length us = length ws"
    and "hb = header_bytes (ph_header (gi_header s))"
  shows "\<exists>out. packet W out (drop (W * i) hb @ bs)
     \<and> gi_state (fold (generate_ipv4 W) us s) = GI_META \<and> gif_meta (fold (generate_ipv4 W) us s) = gif_meta s
     \<and> gif_tuple (fold (generate_ipv4 W) us s) = gif_tuple s \<and> gif_in (fold (generate_ipv4 W) us s) = rest
     \<and> gif_out (fold (generate_ipv4 W) us s) = gif_out s @ out"
proof -
  obtain w ws' where ws: "ws = w # ws'" using packet_nonempty[OF assms(5)] by (cases ws) auto
  obtain u us' where us: "us = u # us'" "length us' = length ws'" using assms(7) ws by (cases us) auto
  have len: "length (ax_lanes w) = W" using assms(5) ws packet_lanes by blast
  have hb: "length hb = 20" "drop (W * i) hb \<noteq> []" using assms(3,8) by simp_all
  define w' where "w' = w\<lparr>ax_lanes := zip (drop (W * i) hb @ drop (20 - W * i) (map fst (ax_lanes w))) (map snd (ax_lanes w))\<rparr>"
  have new: "packet W (w' # ws') (drop (W * i) hb @ bs)"
    using packet_replace[of W w ws' "replicate (20 - W * i) 0" bs "drop (W * i) hb"] assms(3-5) ws hb by (simp add: w'_def)
  have cons: "consumeWord W (ax_lanes w) (gi_header s) = (0, zip (drop (W * i) hb @ drop (20 - W * i) (map fst (ax_lanes w)))
      (map snd (ax_lanes w)), (gi_header s)\<lparr>ph_idx := ph_idx (gi_header s) + 1\<rparr>)"
    using consume_rest[of 20 "gi_header s" i W "ax_lanes w"] assms(2-4,8) len by simp
  define t where "t = generate_ipv4 W u s"
  have t: "gif_meta t = gif_meta s" "gif_tuple t = gif_tuple s" "gif_in t = ws' @ rest" "gif_out t = gif_out s @ [w']"
    "gi_state t = (if ax_last w then GI_META else GI_BODY)"
    using assms(1,6) ws cons by (simp_all add: t_def generate_ipv4_def Let_def w'_def)
  have run: "fold (generate_ipv4 W) us s = fold (generate_ipv4 W) us' t" using us by (simp add: t_def)
  show ?thesis
  proof (cases "ws' = []")
    case True
    then have "ax_last w" "us' = []" using assms(5) ws us(2) by (simp_all add: packet_single)
    then show ?thesis unfolding run using new True t by (intro exI[of _ "[w']"]) simp
  next
    case False
    then have "\<not> ax_last w" "packet W ws' (drop W (replicate (20 - W * i) 0 @ bs))" using assms(5) ws by (simp_all add: packet_cons)
    then have "fold (generate_ipv4 W) us' t = t\<lparr>gif_in := rest, gif_out := gif_out t @ ws', gi_state := GI_META\<rparr>"
      by (intro gi_body_phase) (use t us(2) in auto)
    then show ?thesis unfolding run using new t by (intro exI[of _ "w' # ws'"]) simp
  qed
qed

text \<open>\<open>generate_ipv4\<close> puts the 20 bytes of an IPv4 header with the addresses of the tuple, protocol 6 and the total
  length in front of a segment, on streams of 64, 128, 256 and 512 bits.\<close>

lemma ip_header_laid_out:
  assumes "W \<in> {8, 16, 32, 64}" and "gi_state s = GI_META" and "gif_meta s = m # ms" and "gif_tuple s = t # ts"
    and "packet W ws (replicate (20 mod W) 0 @ bs)" and "gif_in s = ws @ rest"
  shows "\<exists>k. \<forall>us. length us = k \<and> (\<forall>u \<in> set us. length u = W) \<longrightarrow>
    gi_done W s ms ts rest (header_bytes (gi_fill m t (ph_header (gi_header s))) @ bs) (fold (generate_ipv4 W) us s)"
proof -
  define hb where "hb = header_bytes (gi_fill m t (ph_header (gi_header s)))"
  define s1 where "s1 = s\<lparr>gif_meta := ms, gif_tuple := ts,
      gi_header := (gi_header s)\<lparr>ph_ready := False, ph_idx := 0, ph_header := gi_fill m t (ph_header (gi_header s))\<rparr>,
      gi_state := (if W \<le> 20 then GI_HEADER else GI_PARTIAL_HEADER)\<rparr>"
  have s1: "generate_ipv4 W u s = s1" for u
    using assms(2-4) by (simp add: generate_ipv4_def Let_def ph_clear_def s1_def)
  have f: "gif_meta s1 = ms" "gif_tuple s1 = ts" "gif_in s1 = ws @ rest" "gif_out s1 = gif_out s"
    "header_bytes (ph_header (gi_header s1)) = hb" "unat (ph_idx (gi_header s1)) = 0"
    "gi_state s1 = (if W \<le> 20 then GI_HEADER else GI_PARTIAL_HEADER)"
    using assms(6) by (simp_all add: s1_def hb_def)
  have len_hb: "length hb = 20" by (simp add: hb_def)
  define i where "i = 20 div W"
  have i: "W * i < 20" "20 < W * i + W" "20 - W * i = 20 mod W" "W * i \<le> 20" "0 < W" using assms(1) by (auto simp: i_def)
  have head: "\<exists>x. fold (generate_ipv4 W) us s1 = s1\<lparr>gi_header := (gi_header s1)\<lparr>ph_idx := x\<rparr>, gi_state := GI_PARTIAL_HEADER,
       gif_out := gif_out s @ map (\<lambda>j. header_word W j (ph_header (gi_header s1)) False) [0..<i]\<rparr> \<and> unat x = i"
    if us: "length us = i" "\<forall>u \<in> set us. length u = W" for us
  proof -
    consider "W = 8" | "W = 16" | "20 < W" using assms(1) by auto
    then show ?thesis
    proof cases
      case 1
      then obtain u0 u1 where us: "us = [u0, u1]" "length u0 = 8" "length u1 = 8"
        using us by (auto simp: i_def length_Suc_conv numeral_2_eq_2)
      have st: "gi_state s1 = GI_HEADER" using f(7) 1 by simp
      define s2 where "s2 = generate_ipv4 W u0 s1"
      have s2: "s2 = s1\<lparr>gi_header := (gi_header s1)\<lparr>ph_idx := ph_idx (gi_header s1) + 1\<rparr>, gi_state := GI_HEADER,
          gif_out := gif_out s @ [header_word 8 0 (ph_header (gi_header s1)) False]\<rparr>"
        using gi_header_step[OF st, of 8 0 u0] f us 1 by (simp add: s2_def)
      then have st2: "gi_state s2 = GI_HEADER" and i2: "unat (ph_idx (gi_header s2)) = 1"
        using small_idx[OF f(6)] by simp_all
      have "fold (generate_ipv4 W) us s1 = generate_ipv4 W u1 s2" using us by (simp add: s2_def)
      also have "\<dots> = s2\<lparr>gi_header := (gi_header s2)\<lparr>ph_idx := ph_idx (gi_header s2) + 1\<rparr>, gi_state := GI_PARTIAL_HEADER,
          gif_out := gif_out s2 @ [header_word 8 1 (ph_header (gi_header s2)) False]\<rparr>"
        using gi_header_step[OF st2, of 8 1 u1] i2 us 1 by simp
      finally show ?thesis using s2 small_idx[OF i2] 1
        by (intro exI[of _ "ph_idx (gi_header s2) + 1"]) (simp add: i_def numeral_2_eq_2)
    next
      case 2
      then obtain u0 where us: "us = [u0]" "length u0 = 16" using us by (auto simp: i_def length_Suc_conv)
      have st: "gi_state s1 = GI_HEADER" using f(7) 2 by simp
      show ?thesis using gi_header_step[OF st, of 16 0 u0] f us 2 small_idx[OF f(6)]
        by (intro exI[of _ "ph_idx (gi_header s1) + 1"]) (simp add: i_def)
    next
      case 3
      then have "i = 0" by (simp add: i_def)
      then show ?thesis using us f 3 by (intro exI[of _ "ph_idx (gi_header s1)"]) simp
    qed
  qed
  have "gi_done W s ms ts rest (hb @ bs) (fold (generate_ipv4 W) us s)"
    if len: "length us = Suc (i + length ws)" "\<forall>u \<in> set us. length u = W" for us
  proof -
    obtain u0 us1 us2 where us: "us = u0 # us1 @ us2" "length us1 = i" "length us2 = length ws"
      using len(1) split_length by (cases us) (auto, blast)
    then have ok: "\<forall>u \<in> set us1. length u = W" using len(2) by simp
    define s2 where "s2 = fold (generate_ipv4 W) us1 s1"
    obtain x where x: "s2 = s1\<lparr>gi_header := (gi_header s1)\<lparr>ph_idx := x\<rparr>, gi_state := GI_PARTIAL_HEADER,
        gif_out := gif_out s @ map (\<lambda>j. header_word W j (ph_header (gi_header s1)) False) [0..<i]\<rparr>" "unat x = i"
      using head[OF us(2) ok] by (auto simp: s2_def)
    define fs where "fs = map (\<lambda>j. header_word W j (ph_header (gi_header s1)) False) [0..<i]"
    have g: "gi_state s2 = GI_PARTIAL_HEADER" "unat (ph_idx (gi_header s2)) = i" "gif_in s2 = ws @ rest" "gif_meta s2 = ms"
      "gif_tuple s2 = ts" "gif_out s2 = gif_out s @ fs" "hb = header_bytes (ph_header (gi_header s2))"
      using x f by (simp_all add: fs_def)
    have fulls: "fulls W fs (take (W * i) hb)"
      using header_words[of W 0 i "ph_header (gi_header s1)"] f(5) i(4) len_hb by (simp add: fs_def)
    obtain out where out: "packet W out (drop (W * i) hb @ bs)" "gi_state (fold (generate_ipv4 W) us2 s2) = GI_META"
      "gif_meta (fold (generate_ipv4 W) us2 s2) = ms" "gif_tuple (fold (generate_ipv4 W) us2 s2) = ts"
      "gif_in (fold (generate_ipv4 W) us2 s2) = rest" "gif_out (fold (generate_ipv4 W) us2 s2) = gif_out s2 @ out"
      using gi_partial_phase[OF g(1,2) i(1,2) _ g(3) us(3) g(7), of bs] assms(5) i(3) g(4,5) by auto
    have "packet W (fs @ out) (hb @ bs)" using fulls_packet[OF fulls out(1)] by (simp add: take_drop_append)
    then show ?thesis using out g(6) us by (simp add: gi_done_def s1 flip: s2_def)
  qed
  then show ?thesis unfolding hb_def by blast
qed

definition gi_word :: net_axis where
  "gi_word = \<lparr>ax_lanes = [(0, True), (0, True), (0, True), (0, True), (7, True), (0, False), (0, False), (0, False)], ax_last = True\<rparr>"

lemma gi_word_packet: "packet 8 [gi_word] (replicate 4 0 @ [7])"
  by (simp add: gi_word_def packet_single numeral_3_eq_3 eval_nat_numeral)

definition gi_demo :: gi_st where
  "gi_demo = \<lparr>gi_state = GI_META, gi_header = \<lparr>ph_ready = False, ph_idx = 0, ph_header = ip_init 0\<rparr>, gif_meta = [3],
     gif_tuple = [\<lparr>tw_srcIp = 1, tw_dstIp = 2\<rparr>],
     gif_in = [gi_word], gif_out = []\<rparr>"

lemma ip_header_laid_out_witness:
  "\<exists>k. \<forall>us. length us = k \<and> (\<forall>u \<in> set us. length u = 8) \<longrightarrow>
    gi_done 8 gi_demo [] [] [] (header_bytes (gi_fill 3 \<lparr>tw_srcIp = 1, tw_dstIp = 2\<rparr> (ip_init 0)) @ [7])
      (fold (generate_ipv4 8) us gi_demo)"
  using ip_header_laid_out[of 8 gi_demo 3 "[]" "\<lparr>tw_srcIp = 1, tw_dstIp = 2\<rparr>" "[]"
      "[gi_word]" "[7]" "[]"]
  by (simp add: gi_demo_def gi_word_packet)

end
