(* ===== verification/Header_Round_Trip.thy ===== *)
theory Header_Round_Trip
  imports Tx_Header Rx_Header
begin

text \<open>
  The headers that the transmit engine builds (\<^verbatim>\<open>toe/tx_engine/tx_engine.cpp\<close>) are those that the receive engine
  reads (\<^verbatim>\<open>toe/rx_engine/rx_engine.cpp\<close>): the fields of the pseudo header, of the TCP header and of the IPv4 header.
\<close>

subsection \<open>Fields\<close>

lemma full_fields:
  "getSeqNumb (pc_fill m t h) = txm_seqNumb m" "full_getAckNumb (pc_fill m t h) = txm_ackNumb m"
  "getWindowSize (pc_fill m t h) = txm_window_size m" "getLength (pc_fill m t h) = txm_length m + 20"
  "getDataOffset (pc_fill m t h) = pc_dataOffset m" "getAckFlag (pc_fill m t h) = txm_ack m"
  "getRstFlag (pc_fill m t h) = txm_rst m" "getSynFlag (pc_fill m t h) = txm_syn m"
  "getFinFlag (pc_fill m t h) = txm_fin m" "getSrcAddr (pc_fill m t h) = ft_srcIp t"
  "getDstAddr (pc_fill m t h) = ft_dstIp t" "getSrcPort (pc_fill m t h) = ft_srcPort t"
  "getDstPort (pc_fill m t h) = ft_dstPort t"
  by (simp_all add: pc_fill_def set_fields get_fields read_field)

text \<open>The length of the payload, without the options: a SYN has 4 or 8 bytes of them, which its length counts.\<close>

definition sent_meta :: "tx_engine_meta \<Rightarrow> 4 word \<Rightarrow> rxEngineMetaData" where
  "sent_meta m z = \<lparr>me_seqNumb = txm_seqNumb m, me_ackNumb = txm_ackNumb m, me_winSize = txm_window_size m, me_winScale = z,
     me_length = (if txm_syn m then txm_length m - of_nat (length (syn_options (txm_win_shift m))) else txm_length m),
     me_ack = txm_ack m, me_rst = txm_rst m, me_syn = txm_syn m, me_fin = txm_fin m, me_dataOffset = pc_dataOffset m\<rparr>"

lemma th_meta_fill: "th_meta z (pc_fill m t h) = sent_meta m z"
  by (simp add: th_meta_def sent_meta_def full_fields pc_dataOffset_def syn_options_length)

text \<open>C24. What the transmit engine puts into the headers of a segment the receive engine reads out of them: a segment built
  from metadata \<open>m\<close> and a tuple and laid out over words of any of the four widths gives, when its checksum
  is right, metadata with the same sequence and acknowledgement number, window, flags and payload length, and the
  same addresses and ports.\<close>

theorem tcp_header_round_trip:
  assumes "W \<in> {8, 16, 32, 64}" and "pc_state s = PC_META" and "pcf_meta s = m # ms" and "pcf_tuple s = t # ts"
    and "seg_body m \<longrightarrow> packet W ws (replicate (32 mod W) 0 @ payload)"
    and "pcf_in s = (if seg_body m then ws else []) @ rest"
    and "th_idle r" and "thf_in r = []" and "thf_valid r = [True]"
  shows "\<exists>k. \<forall>us. length us = k \<and> (\<forall>u \<in> set us. length u = W) \<longrightarrow>
    (\<exists>out. pcf_out (fold (pseudoHeaderConstructionNew W) us s) = pcf_out s @ out
      \<and> (\<forall>zs. length zs = length out \<longrightarrow>
           (\<exists>z. thf_meta (fold (processPseudoHeader W) zs (r\<lparr>thf_in := out\<rparr>)) = thf_meta r @ [sent_meta m z])
           \<and> thf_tuple (fold (processPseudoHeader W) zs (r\<lparr>thf_in := out\<rparr>)) = thf_tuple r @ [t]
           \<and> thf_port (fold (processPseudoHeader W) zs (r\<lparr>thf_in := out\<rparr>)) = thf_port r @ [ft_dstPort t]))"
proof -
  define x where "x = pc_fill m t (ph_header (pc_header s))"
  obtain k where k: "\<And>us. length us = k \<and> (\<forall>u \<in> set us. length u = W) \<Longrightarrow>
      pc_done W s ms ts rest (header_bytes x @ seg_tail m payload) (fold (pseudoHeaderConstructionNew W) us s)"
    using segment_runs[OF assms(1-6)] unfolding x_def by blast
  have read: "\<exists>z. thf_meta (fold (processPseudoHeader W) zs (r\<lparr>thf_in := out\<rparr>)) = thf_meta r @ [sent_meta m z]
      \<and> thf_tuple (fold (processPseudoHeader W) zs (r\<lparr>thf_in := out\<rparr>)) = thf_tuple r @ [t]
      \<and> thf_port (fold (processPseudoHeader W) zs (r\<lparr>thf_in := out\<rparr>)) = thf_port r @ [ft_dstPort t]"
    if out: "packet W out (header_bytes x @ seg_tail m payload)" and zs: "length zs = length out" for out zs
  proof -
    have "th_idle (r\<lparr>thf_in := out\<rparr>)" using assms(7) by (simp add: th_idle_def)
    moreover have "header_bytes x = take 32 (header_bytes x @ seg_tail m payload)" by simp
    ultimately obtain z where "th_result W out x True z (r\<lparr>thf_in := out\<rparr>) (fold (processPseudoHeader W) zs (r\<lparr>thf_in := out\<rparr>))"
      using th_packet[OF assms(1) out _ _ _ _ zs, of "r\<lparr>thf_in := out\<rparr>" "[]" True "[]" x] assms(9) by auto
    moreover have "mk_fourTuple (getSrcAddr x) (getDstAddr x) (getSrcPort x) (getDstPort x) = t"
      by (cases t) (simp add: x_def full_fields mk_fourTuple_def)
    ultimately show ?thesis by (intro exI[of _ z]) (simp add: th_result_def x_def th_meta_fill full_fields)
  qed
  show ?thesis
  proof (intro exI[of _ k] allI impI)
    fix us :: "lane list list" assume us: "length us = k \<and> (\<forall>u \<in> set us. length u = W)"
    from k[OF us] obtain out where out: "pcf_out (fold (pseudoHeaderConstructionNew W) us s) = pcf_out s @ out"
      "packet W out (header_bytes x @ seg_tail m payload)" by (auto simp: pc_done_def)
    show "\<exists>out. pcf_out (fold (pseudoHeaderConstructionNew W) us s) = pcf_out s @ out
      \<and> (\<forall>zs. length zs = length out \<longrightarrow>
           (\<exists>z. thf_meta (fold (processPseudoHeader W) zs (r\<lparr>thf_in := out\<rparr>)) = thf_meta r @ [sent_meta m z])
           \<and> thf_tuple (fold (processPseudoHeader W) zs (r\<lparr>thf_in := out\<rparr>)) = thf_tuple r @ [t]
           \<and> thf_port (fold (processPseudoHeader W) zs (r\<lparr>thf_in := out\<rparr>)) = thf_port r @ [ft_dstPort t])"
      using out(1) read[OF out(2)] by (intro exI[of _ out]) blast
  qed
qed

definition th_demo :: th_st where
  "th_demo = \<lparr>th_header = \<lparr>ph_ready = False, ph_idx = 0, ph_header = 0\<rparr>, th_firstWord = True, th_pkgValid = False,
     th_metaWritten = False, thf_in = [], thf_out = [], thf_valid = [True], thf_meta = [], thf_tuple = [], thf_port = [],
     thf_ofMeta = []\<rparr>"

theorem tcp_header_round_trip_witness:
  "\<exists>k. \<forall>us. length us = k \<and> (\<forall>u \<in> set us. length u = 8) \<longrightarrow>
    (\<exists>out. pcf_out (fold (pseudoHeaderConstructionNew 8) us pc_demo) = out
      \<and> (\<forall>zs. length zs = length out \<longrightarrow>
           (\<exists>z. thf_meta (fold (processPseudoHeader 8) zs (th_demo\<lparr>thf_in := out\<rparr>)) = [sent_meta demo_meta z])
           \<and> thf_tuple (fold (processPseudoHeader 8) zs (th_demo\<lparr>thf_in := out\<rparr>)) = [demo_tuple]
           \<and> thf_port (fold (processPseudoHeader 8) zs (th_demo\<lparr>thf_in := out\<rparr>)) = [8080]))"
  using tcp_header_round_trip[of 8 pc_demo demo_meta "[]" demo_tuple "[]" "[demo_payload]" "[1, 2, 3]" "[]" th_demo]
  by (simp add: pc_demo_def demo_meta_def demo_payload_def demo_tuple_def mk_fourTuple_def seg_body_def packet_single
      th_demo_def th_idle_def)

end
