(* ===== verification/Rx_Ip.thy ===== *)
theory Rx_Ip
  imports Rx_Header Tx_Header
begin

text \<open>
  The IPv4 header of an arriving segment is taken off and the pseudo header put in its place
  (\<^verbatim>\<open>toe/rx_engine/rx_engine.cpp\<close>, \<^verbatim>\<open>ipv4/ipv4.hpp\<close>): what the four processes make of a packet.
\<close>

subsection \<open>The IPv4 header is read\<close>

definition pi_idle :: "'m pi_st \<Rightarrow> bool" where
  "pi_idle s \<longleftrightarrow> \<not> pi_metaWritten s \<and> \<not> ph_ready (pi_header s) \<and> ph_idx (pi_header s) = 0 \<and> pi_headerWordsDropped s = 0"

lemma pi_collect:
  assumes "pif_in s = w # ws" and "\<not> ax_last w" and "\<not> ph_ready (parseWord W (ax_lanes w) (pi_header s))"
  shows "read_ipv4_header W f s = s\<lparr>pif_in := ws, pi_header := parseWord W (ax_lanes w) (pi_header s),
     pi_headerWordsDropped := pi_headerWordsDropped s + of_nat (8 * W div 32)\<rparr>"
  using assms by (simp add: read_ipv4_header_def Let_def)

lemma pi_complete:
  assumes "pif_in s = w # ws" and "\<not> pi_metaWritten s" and "h = parseWord W (ax_lanes w) (pi_header s)" and "ph_ready h"
    and "t = read_ipv4_header W f s"
  shows "pif_in t = ws" and "pi_header t = (if ax_last w then ph_clear h else h)" and "pi_metaWritten t = (\<not> ax_last w)"
    and "pi_headerWordsDropped t = (if ax_last w then 0 else pi_headerWordsDropped s + of_nat (8 * W div 32))"
    and "pif_out t = pif_out s @ [w]" and "pif_meta t = pif_meta s @ [f (ph_header h)]"
    and "pif_dropLength t = pif_dropLength s @ [ip_getHeaderLength (ph_header h) - pi_headerWordsDropped s]"
  using assms by (simp_all add: read_ipv4_header_def Let_def)

lemma pi_later:
  assumes "pif_in s = w # ws" and "pi_metaWritten s" and "ph_ready (pi_header s)"
  shows "read_ipv4_header W f s = s\<lparr>pif_in := ws, pif_out := pif_out s @ [w], pi_metaWritten := (\<not> ax_last w),
     pi_header := (if ax_last w then ph_clear (pi_header s) else pi_header s),
     pi_headerWordsDropped := (if ax_last w then 0 else pi_headerWordsDropped s + of_nat (8 * W div 32))\<rparr>"
  using assms by (simp add: read_ipv4_header_def Let_def parse_ready)

lemma pi_rest:
  assumes "packet W ws bs" and "pif_in s = ws @ rest" and "pi_metaWritten s" and "ph_ready (pi_header s)"
    and "t = (read_ipv4_header W f ^^ length ws) s"
  shows "pi_idle t \<and> pif_in t = rest \<and> pif_out t = pif_out s @ ws \<and> pif_meta t = pif_meta s \<and> pif_dropLength t = pif_dropLength s"
  using assms
proof (induction ws arbitrary: s bs)
  case (Cons w ws)
  define u where "u = read_ipv4_header W f s"
  have u: "u = s\<lparr>pif_in := ws @ rest, pif_out := pif_out s @ [w], pi_metaWritten := (\<not> ax_last w),
     pi_header := (if ax_last w then ph_clear (pi_header s) else pi_header s),
     pi_headerWordsDropped := (if ax_last w then 0 else pi_headerWordsDropped s + of_nat (8 * W div 32))\<rparr>"
    unfolding u_def by (rule pi_later) (use Cons.prems in simp_all)
  have run: "t = (read_ipv4_header W f ^^ length ws) u"
    using Cons.prems(5) by (simp add: funpow_Suc_right u_def del: funpow.simps)
  show ?case
  proof (cases "ws = []")
    case True
    then have "ax_last w" using Cons.prems(1) by (simp add: packet_single)
    then show ?thesis using True u run by (simp add: pi_idle_def ph_clear_def)
  next
    case False
    then have p: "\<not> ax_last w" "packet W ws (drop W bs)" using Cons.prems(1) by (simp_all add: packet_cons)
    have f: "pif_in u = ws @ rest" "pi_metaWritten u" "ph_ready (pi_header u)" "pif_out u = pif_out s @ [w]"
      "pif_meta u = pif_meta s" "pif_dropLength u = pif_dropLength s" using u p(1) Cons.prems(4) by simp_all
    from Cons.IH[OF p(2) f(1-3) run] show ?thesis using f(4-6) by simp
  qed
qed simp

lemma pi_collect_phase:
  assumes "packet W ws bs" and "pif_in s = ws @ rest" and "pi_idle s" and "0 < W" and "W * i < 20" and "20 \<le> length bs"
  shows "\<exists>h. parsed W i bs h \<and> (read_ipv4_header W f ^^ i) s = s\<lparr>pif_in := drop i ws @ rest, pi_header := h,
     pi_headerWordsDropped := of_nat (i * (8 * W div 32))\<rparr>"
  using assms(5)
proof (induction i)
  case 0
  have "parsed W 0 bs (pi_header s)" using assms(3) by (simp add: parsed_def pi_idle_def)
  then show ?case using assms(2,3) by (intro exI[of _ "pi_header s"]) (simp add: pi_idle_def)
next
  case (Suc i)
  have lt: "W * i + W < 20" using Suc.prems by simp
  then obtain h where h: "parsed W i bs h" "(read_ipv4_header W f ^^ i) s = s\<lparr>pif_in := drop i ws @ rest, pi_header := h,
     pi_headerWordsDropped := of_nat (i * (8 * W div 32))\<rparr>" using Suc.IH by auto
  have len: "Suc i < length ws" by (rule packet_longer[OF assms(1)]) (use lt assms(6) in simp)
  define w where "w = ws ! i"
  have d: "drop i ws = w # drop (Suc i) ws" using len by (simp add: w_def Cons_nth_drop_Suc)
  have w: "\<not> ax_last w" "word_of W 20 i bs (ax_lanes w)"
    using packet_nth(1,2)[OF assms(1), of i] len word_of_less[OF _ assms(6)] by (simp_all add: w_def)
  define h' where "h' = parseWord W (ax_lanes w) h"
  have ii: "i + 1 < 65536" using lt assms(4) by (cases W) auto
  have h': "parsed W (Suc i) bs h'"
    using parse_more[OF h(1) w(2) _ lt assms(4) ii] by (simp add: h'_def)
  define t where "t = (read_ipv4_header W f ^^ i) s"
  have t: "pif_in t = w # (drop (Suc i) ws @ rest)" "pi_header t = h" "pi_headerWordsDropped t = of_nat (i * (8 * W div 32))"
    using h(2) d by (simp_all add: t_def)
  have "\<not> ph_ready h'" using h' by (simp add: parsed_def)
  then have "read_ipv4_header W f t = t\<lparr>pif_in := drop (Suc i) ws @ rest, pi_header := h',
      pi_headerWordsDropped := of_nat (Suc i * (8 * W div 32))\<rparr>"
    using pi_collect[OF t(1) w(1), of W] t by (simp add: h'_def algebra_simps)
  moreover have "(read_ipv4_header W f ^^ Suc i) s = read_ipv4_header W f t" by (simp add: t_def)
  ultimately have "(read_ipv4_header W f ^^ Suc i) s = s\<lparr>pif_in := drop (Suc i) ws @ rest, pi_header := h',
      pi_headerWordsDropped := of_nat (Suc i * (8 * W div 32))\<rparr>" using h(2) by (simp add: t_def)
  then show ?case using h' by blast
qed

lemma pi_packet:
  assumes "W \<in> {8, 16, 32, 64}" and "packet W ws bs" and "20 \<le> length bs" and "pif_in s = ws @ rest" and "pi_idle s"
    and "header_bytes (x :: 160 word) = take 20 bs" and "t = (read_ipv4_header W f ^^ length ws) s" and "i = 19 div W"
  shows "pi_idle t \<and> pif_in t = rest \<and> pif_out t = pif_out s @ drop i ws \<and> pif_meta t = pif_meta s @ [f x]
     \<and> pif_dropLength t = pif_dropLength s @ [ip_getHeaderLength x - of_nat (i * (8 * W div 32))]"
proof -
  have i: "W * i < 20" "20 \<le> W * i + W" "0 < W" using assms(1,8) by auto
  have len: "i < length ws" by (rule packet_longer[OF assms(2)]) (use i(1) assms(3) in simp)
  obtain h where h: "parsed W i bs h" "(read_ipv4_header W f ^^ i) s = s\<lparr>pif_in := drop i ws @ rest, pi_header := h,
     pi_headerWordsDropped := of_nat (i * (8 * W div 32))\<rparr>"
    using pi_collect_phase[OF assms(2,4,5) i(3,1) assms(3)] by blast
  define s1 where "s1 = (read_ipv4_header W f ^^ i) s"
  define w where "w = ws ! i"
  have d: "drop i ws = w # drop (Suc i) ws" using len by (simp add: w_def Cons_nth_drop_Suc)
  define h' where "h' = parseWord W (ax_lanes w) h"
  have word: "word_of W 20 i bs (ax_lanes w)"
    using word_of_less[OF packet_nth(1)[OF assms(2) len] assms(3)] by (simp add: w_def)
  have h': "ph_ready h'" "header_bytes (ph_header h') = take 20 bs"
    using parse_end[OF h(1) word _ i(2,1) assms(3)] by (simp_all add: h'_def)
  have x: "ph_header h' = x" by (rule header_bytes_inj[of 20]) (simp_all add: h'(2) assms(6))
  have s1: "pif_in s1 = w # (drop (Suc i) ws @ rest)" "\<not> pi_metaWritten s1" "pi_header s1 = h"
    "pi_headerWordsDropped s1 = of_nat (i * (8 * W div 32))" "pif_out s1 = pif_out s" "pif_meta s1 = pif_meta s"
    "pif_dropLength s1 = pif_dropLength s"
    using h(2) d assms(5) by (simp_all add: s1_def pi_idle_def)
  define s2 where "s2 = read_ipv4_header W f s1"
  have hh: "h' = parseWord W (ax_lanes w) (pi_header s1)" by (simp add: h'_def s1(3))
  note s2 = pi_complete[OF s1(1,2) hh h'(1) s2_def, unfolded x s1(4-7)]
  have last: "ax_last w \<longleftrightarrow> Suc i = length ws" using packet_nth(2)[OF assms(2) len] by (simp add: w_def)
  have run: "t = (read_ipv4_header W f ^^ (length ws - Suc i)) s2"
  proof -
    have "length ws = (length ws - Suc i) + Suc i" using len by simp
    then have "t = (read_ipv4_header W f ^^ (length ws - Suc i)) ((read_ipv4_header W f ^^ Suc i) s)"
      by (metis assms(7) comp_apply funpow_add)
    then show ?thesis by (simp add: s2_def s1_def)
  qed
  show ?thesis
  proof (cases "Suc i = length ws")
    case True
    then show ?thesis using s2 last d run by (simp add: pi_idle_def ph_clear_def)
  next
    case False
    then have lt: "Suc i < length ws" using len by simp
    have p: "packet W (drop (Suc i) ws) (drop (W * Suc i) bs)" by (rule packet_drop[OF assms(2) lt])
    have f: "pif_in s2 = drop (Suc i) ws @ rest" "pi_metaWritten s2" "ph_ready (pi_header s2)"
      using s2(1-3) last False h'(1) by simp_all
    show ?thesis using pi_rest[OF p f, of t] s2(5-7) d run by simp
  qed
qed

subsection \<open>The IPv4 header is taken off\<close>

definition doh_done :: "doh_st \<Rightarrow> net_axis list \<Rightarrow> net_axis list \<Rightarrow> doh_st \<Rightarrow> bool" where
  "doh_done s rest out t \<longleftrightarrow> doh_state t = DOH_META \<and> dohf_length t = dohf_length s \<and> dohf_in t = rest \<and> dohf_out t = dohf_out s @ out"

lemma doh_done_step:
  assumes "t = drop_optional_ip_header W s" and "dohf_out t = dohf_out s @ os" and "dohf_length t = dohf_length s"
    and "doh_done t rest out ((drop_optional_ip_header W ^^ k) t)"
  shows "doh_done s rest (os @ out) ((drop_optional_ip_header W ^^ Suc k) s)"
  using assms by (simp add: funpow_Suc_right doh_done_def del: funpow.simps)

text \<open>The two shifting states, by 4 and by 20 bytes.\<close>

definition shifts :: "nat \<Rightarrow> doh_fsm \<Rightarrow> doh_fsm \<Rightarrow> bool" where
  "shifts k a b \<longleftrightarrow> k = 4 \<and> a = SHIFT \<and> b = LAST \<or> k = 20 \<and> a = SHIFT_FIVE \<and> b = LAST_FIVE"

lemma doh_word:
  assumes "shifts k a b" and "doh_state s = a" and "dohf_in s = w # ws" and "t = drop_optional_ip_header W s"
  shows "dohf_in t = ws" and "doh_prev t = w" and "dohf_length t = dohf_length s"
    and "dohf_out t = dohf_out s @ [\<lparr>ax_lanes = alignWords k (doh_prev s) w, ax_last = \<not> keep_at k w\<rparr>]"
    and "doh_state t = (if \<not> keep_at k w then DOH_META else if ax_last w then b else a)"
  using assms by (auto simp: shifts_def drop_optional_ip_header_def doh_shift_def Let_def)

lemma doh_rest:
  assumes "shifts k a b" and "doh_state s = b" and "packet W [doh_prev s] bs" and "k < length bs" and "dohf_in s = rest"
  shows "\<exists>out. doh_done s rest out ((drop_optional_ip_header W ^^ 1) s) \<and> packet W out (drop k bs)"
proof -
  let ?o = "\<lparr>ax_lanes = drop k (ax_lanes (doh_prev s)) @ replicate k (0, False), ax_last = True\<rparr>"
  let ?f = "\<lparr>ax_lanes = replicate k (0, False), ax_last = True\<rparr>"
  have "packet W [\<lparr>ax_lanes = alignWords k (doh_prev s) ?f, ax_last = True\<rparr>] (drop k bs)"
    by (rule align_residue[OF assms(3,4)]) simp_all
  then have "packet W [?o] (drop k bs)" by (simp add: alignWords_def)
  moreover have "doh_done s rest [?o] ((drop_optional_ip_header W ^^ 1) s)"
    using assms by (auto simp: shifts_def drop_optional_ip_header_def doh_last_def doh_done_def)
  ultimately show ?thesis by blast
qed

lemma doh_tail:
  assumes "packet W (doh_prev s # ws) bs" and "ws \<noteq> []" and "shifts k a b" and "k < W" and "doh_state s = a" and "dohf_in s = ws @ rest"
  shows "\<exists>n out. doh_done s rest out ((drop_optional_ip_header W ^^ n) s) \<and> packet W out (drop k bs)"
  using assms(1,2,5,6)
proof (induction ws arbitrary: s bs)
  case (Cons w ws)
  define t where "t = drop_optional_ip_header W s"
  have "dohf_in s = w # (ws @ rest)" using Cons.prems(4) by simp
  note t = doh_word[OF assms(3) Cons.prems(3) this t_def]
  define o1 where "o1 = \<lparr>ax_lanes = alignWords k (doh_prev s) w, ax_last = \<not> keep_at k w\<rparr>"
  have gt: "W < length bs" and tl: "packet W (w # ws) (drop W bs)" using Cons.prems(1) by (simp_all add: packet_cons)
  have keep: "keep_at k w \<longleftrightarrow> W + k < length bs" using packet_keep[OF tl assms(4)] by auto
  have glue: "packet W (o1 # out) (drop k bs)" if "W + k < length bs" "packet W out (drop k (drop W bs))" for out
  proof -
    have "out \<noteq> []" using packet_nonempty[OF that(2)] by simp
    moreover have "alignWords k (doh_prev s) w = map (\<lambda>b. (b, True)) (take W (drop k bs))"
      by (rule align_full[OF Cons.prems(1) assms(4)]) (use that(1) in simp)
    ultimately show ?thesis using that keep by (simp add: packet_cons o1_def add.commute)
  qed
  have more: ?case if k': "W + k < length bs" and ex: "\<exists>n out. doh_done t rest out ((drop_optional_ip_header W ^^ n) t) \<and> packet W out (drop k (drop W bs))"
  proof -
    obtain n out where n: "doh_done t rest out ((drop_optional_ip_header W ^^ n) t)" "packet W out (drop k (drop W bs))"
      using ex by blast
    have "doh_done s rest ([o1] @ out) ((drop_optional_ip_header W ^^ Suc n) s)"
      by (rule doh_done_step[OF t_def t(4)[folded o1_def] t(3) n(1)])
    moreover have "packet W ([o1] @ out) (drop k bs)" using glue[OF k' n(2)] by simp
    ultimately show ?thesis by blast
  qed
  show ?case
  proof (cases "ws = []")
    case False
    then have last: "\<not> ax_last w" "W < length (drop W bs)" using tl by (simp_all add: packet_cons)
    then have k': "W + k < length bs" using assms(4) by simp
    have "doh_state t = a" using t(5) keep k' last(1) by simp
    then have "\<exists>n out. doh_done t rest out ((drop_optional_ip_header W ^^ n) t) \<and> packet W out (drop k (drop W bs))"
      using Cons.IH[of t "drop W bs"] tl False t(1,2) by simp
    then show ?thesis by (rule more[OF k'])
  next
    case True
    have last: "ax_last w" using packet_last[OF tl] True by simp
    show ?thesis
    proof (cases "W + k < length bs")
      case k': True
      have pw: "packet W [doh_prev t] (drop W bs)" using tl True t(2) by simp
      have "doh_state t = b" using t(5) keep k' last by simp
      then obtain out where "doh_done t rest out ((drop_optional_ip_header W ^^ 1) t)" "packet W out (drop k (drop W bs))"
        using doh_rest[OF assms(3) _ pw _] k' t(1) True by fastforce
      then show ?thesis by (intro more[OF k']) blast
    next
      case k': False
      have "packet W [\<lparr>ax_lanes = alignWords k (doh_prev s) w, ax_last = True\<rparr>] (drop k bs)"
        by (rule align_end) (use Cons.prems(1) True assms(4) k' in simp_all)
      then have "packet W ([o1] @ []) (drop k bs)" using keep k' by (simp add: o1_def)
      moreover have "doh_done t rest [] ((drop_optional_ip_header W ^^ 0) t)"
        using t(1,5) True keep k' by (simp add: doh_done_def)
      then have "doh_done s rest ([o1] @ []) ((drop_optional_ip_header W ^^ Suc 0) s)"
        by (rule doh_done_step[OF t_def t(4)[folded o1_def] t(3)])
      ultimately show ?thesis by blast
    qed
  qed
qed simp

lemma doh_five:
  assumes "W \<in> {8, 16, 32, 64}" and "packet W ws bs" and "doh_state s = DOH_META" and "dohf_length s = n # ns" and "dohf_in s = ws @ rest"
    and "if W \<le> 16 then n \<le> 1 \<and> k = 4 \<and> W < length bs else n = 5 \<and> k = 20 \<and> 20 < length bs"
  shows "\<exists>c out. doh_done (s\<lparr>dohf_length := ns\<rparr>) rest out ((drop_optional_ip_header W ^^ c) s) \<and> packet W out (drop k bs)"
proof -
  obtain w ws' where ws: "ws = w # ws'" using packet_nonempty[OF assms(2)] by (cases ws) auto
  define a where "a = (if W \<le> 16 then SHIFT else SHIFT_FIVE)"
  define b where "b = (if W \<le> 16 then LAST else LAST_FIVE)"
  have sh: "shifts k a b" "k < W" using assms(1,6) by (auto simp: shifts_def a_def b_def)
  have last: "ax_last w \<longleftrightarrow> ws' = []" using packet_last assms(2) ws by blast
  have single: "16 < W" if "ws' = []" using that assms(2,6) ws by (auto simp: packet_single split: if_splits)
  define t where "t = drop_optional_ip_header W s"
  have t: "dohf_in t = ws' @ rest" "doh_prev t = w" "dohf_length t = ns" "dohf_out t = dohf_out s"
    "doh_state t = (if ws' = [] then b else a)"
    using assms(1,3-6) ws last single
    by (auto simp: t_def drop_optional_ip_header_def doh_meta_def Let_def a_def b_def not_less[symmetric])
  have "\<exists>c out. doh_done t rest out ((drop_optional_ip_header W ^^ c) t) \<and> packet W out (drop k bs)"
  proof (cases "ws' = []")
    case True
    then have "packet W [doh_prev t] bs" "k < length bs" using assms(2,6) ws t(2) single by auto
    then show ?thesis using doh_rest[OF sh(1), of t W bs rest] t(1,5) True by (intro exI[of _ 1]) simp
  next
    case False
    then show ?thesis using doh_tail[OF _ False sh, of t bs rest] assms(2) ws t(1,2,5) by simp
  qed
  then obtain c out where c: "doh_done t rest out ((drop_optional_ip_header W ^^ c) t)" "packet W out (drop k bs)" by blast
  have "doh_done (s\<lparr>dohf_length := ns\<rparr>) rest out ((drop_optional_ip_header W ^^ Suc c) s)"
    using c(1) t(3,4) by (simp add: funpow_Suc_right doh_done_def flip: t_def del: funpow.simps)
  then show ?thesis using c(2) by blast
qed

text \<open>Reader and dropper together.\<close>

lemma ip_header_off:
  assumes "W \<in> {8, 16, 32, 64}" and "packet W ws bs" and "20 < length bs \<and> (W \<le> 16 \<longrightarrow> W + W * (19 div W) < length bs)" and "header_bytes (x :: 160 word) = take 20 bs"
    and "ip_getHeaderLength x = 5" and "pi_idle s" and "pif_in s = ws @ rest" and "pif_out s = []" and "pif_dropLength s = []"
    and "doh_state r = DOH_META" and "dohf_out r = []" and "t = (read_ipv4_header W f ^^ length ws) s"
  shows "pi_idle t \<and> pif_in t = rest \<and> pif_meta t = pif_meta s @ [f x] \<and>
    (\<exists>c out. doh_done (r\<lparr>dohf_length := []\<rparr>) [] out
        ((drop_optional_ip_header W ^^ c) (r\<lparr>dohf_length := pif_dropLength t, dohf_in := pif_out t\<rparr>))
      \<and> packet W out (drop 20 bs))"
proof -
  define i where "i = 19 div W"
  have len: "i < length ws" by (rule packet_longer[OF assms(2)]) (use assms(1,3) in \<open>auto simp: i_def\<close>)
  have t: "pi_idle t" "pif_in t = rest" "pif_out t = drop i ws" "pif_meta t = pif_meta s @ [f x]"
    "pif_dropLength t = [5 - of_nat (i * (8 * W div 32))]"
    using pi_packet[OF assms(1,2) _ assms(7,6,4,12) i_def] assms(3,5,8,9) by simp_all
  define k where "k = (if W \<le> 16 then 4 else 20 :: nat)"
  have k: "W * i + k = 20" using assms(1) by (auto simp: i_def k_def)
  have p: "packet W (drop i ws) (drop (W * i) bs)" by (rule packet_drop[OF assms(2) len])
  have "if W \<le> 16 then (5 - of_nat (i * (8 * W div 32)) :: 4 word) \<le> 1 \<and> k = 4 \<and> W < length (drop (W * i) bs)
      else (5 - of_nat (i * (8 * W div 32)) :: 4 word) = 5 \<and> k = 20 \<and> 20 < length (drop (W * i) bs)"
    using assms(1,3) by (auto simp: i_def k_def)
  then obtain c out where "doh_done (r\<lparr>dohf_length := pif_dropLength t, dohf_in := pif_out t, dohf_length := []\<rparr>) [] out
      ((drop_optional_ip_header W ^^ c) (r\<lparr>dohf_length := pif_dropLength t, dohf_in := pif_out t\<rparr>))"
    "packet W out (drop k (drop (W * i) bs))"
    using doh_five[OF assms(1) p, of "r\<lparr>dohf_length := pif_dropLength t, dohf_in := pif_out t\<rparr>"
        "5 - of_nat (i * (8 * W div 32))" "[]" "[]" k] t(3,5) assms(10) by auto
  then have "doh_done (r\<lparr>dohf_length := []\<rparr>) [] out
      ((drop_optional_ip_header W ^^ c) (r\<lparr>dohf_length := pif_dropLength t, dohf_in := pif_out t\<rparr>))"
    "packet W out (drop 20 bs)" using k by (simp_all add: doh_done_def add.commute)
  then show ?thesis using t(1,2,4) by blast
qed

text \<open>An IPv4 header without options is taken off every packet that carries at least a TCP header: the reader and the dropper
  together hand on the packet without its first 20 bytes, on the four widths of the stream, and the addresses and
  the length of the segment go out beside it.\<close>

lemma ip_header_removed:
  assumes "W \<in> {8, 16, 32, 64}" and "packet W ws bs" and "40 \<le> length bs" and "header_bytes (x :: 160 word) = take 20 bs"
    and "ip_getHeaderLength x = 5" and "pi_idle s" and "pif_in s = ws @ rest" and "pif_out s = []" and "pif_dropLength s = []"
    and "doh_state r = DOH_META" and "dohf_out r = []" and "t = (toe_process_ipv4 W ^^ length ws) s"
  shows "pi_idle t \<and> pif_in t = rest \<and> pif_meta t = pif_meta s @ [ip_meta x] \<and>
    (\<exists>c out. doh_done (r\<lparr>dohf_length := []\<rparr>) [] out
        ((drop_optional_ip_header W ^^ c) (r\<lparr>dohf_length := pif_dropLength t, dohf_in := pif_out t\<rparr>))
      \<and> packet W out (drop 20 bs))"
  using ip_header_off[of W ws bs x s rest r t ip_meta] assms unfolding toe_process_ipv4_def by auto

definition ip_demo_bytes :: "byte list" where
  "ip_demo_bytes = [0x45, 0, 0, 0, 0, 0, 0, 0, 0, 0, 0, 0, 0, 0, 0, 0, 0, 0, 0, 0] @ replicate 44 0"

definition ip_demo_word :: net_axis where
  "ip_demo_word = \<lparr>ax_lanes = map (\<lambda>b. (b, True)) ip_demo_bytes, ax_last = True\<rparr>"

definition pi_demo :: "pseudoMeta pi_st" where
  "pi_demo = \<lparr>pi_header = \<lparr>ph_ready = False, ph_idx = 0, ph_header = 0\<rparr>, pi_headerWordsDropped = 0, pi_metaWritten = False,
     pif_in = [ip_demo_word], pif_dropLength = [], pif_meta = [], pif_out = []\<rparr>"

definition doh_demo :: doh_st where
  "doh_demo = \<lparr>doh_state = DOH_META, doh_length = 0, doh_prev = \<lparr>ax_lanes = [], ax_last = False\<rparr>, dohf_length = [], dohf_in = [],
     dohf_out = []\<rparr>"

lemma ip_demo_header: "header_bytes (0x45 :: 160 word) = take 20 ip_demo_bytes"
  by (simp add: header_bytes_def ip_demo_bytes_def drop_bit_eq_div upt_rec)

lemma ip_header_removed_witness:
  "pi_idle ((toe_process_ipv4 64 ^^ 1) pi_demo) \<and> pif_in ((toe_process_ipv4 64 ^^ 1) pi_demo) = []
    \<and> pif_meta ((toe_process_ipv4 64 ^^ 1) pi_demo) = [ip_meta 0x45] \<and>
    (\<exists>c out. doh_done (doh_demo\<lparr>dohf_length := []\<rparr>) [] out ((drop_optional_ip_header 64 ^^ c)
        (doh_demo\<lparr>dohf_length := pif_dropLength ((toe_process_ipv4 64 ^^ 1) pi_demo),
           dohf_in := pif_out ((toe_process_ipv4 64 ^^ 1) pi_demo)\<rparr>))
      \<and> packet 64 out (drop 20 ip_demo_bytes))"
proof -
  have "packet 64 [ip_demo_word] ip_demo_bytes" by (simp add: ip_demo_word_def packet_single ip_demo_bytes_def)
  moreover have "ip_getHeaderLength 0x45 = 5" by (simp add: ip_getHeaderLength_def range_get_def take_bit_eq_mod)
  moreover have "pi_idle pi_demo" by (simp add: pi_demo_def pi_idle_def)
  moreover have "40 \<le> length ip_demo_bytes" by (simp add: ip_demo_bytes_def)
  ultimately show ?thesis
    using ip_header_removed[where W = 64 and ws = "[ip_demo_word]" and bs = ip_demo_bytes and x = "0x45" and s = pi_demo and rest = "[]"
        and r = doh_demo] ip_demo_header
    by (simp add: pi_demo_def doh_demo_def)
qed

text \<open>A header with eight bytes of options on a 64-bit stream: three 32-bit words are left to drop, but only one is dropped, because
  the word that is cut in the middle has not been read yet.\<close>

lemma ip_options_misaligned:
  assumes "packet 8 ws bs" and "8 < length bs" and "doh_state s = DOH_META" and "dohf_length s = 3 # ns" and "dohf_in s = ws @ rest"
  shows "\<exists>c out. doh_done (s\<lparr>dohf_length := ns\<rparr>) rest out ((drop_optional_ip_header 8 ^^ c) s) \<and> packet 8 out (drop 4 bs)"
proof -
  obtain w ws' where ws: "ws = w # ws'" using packet_nonempty[OF assms(1)] by (cases ws) auto
  then have ne: "ws' \<noteq> []" using assms(1,2) by (auto simp: packet_single)
  define u where "u = drop_optional_ip_header 8 (drop_optional_ip_header 8 s)"
  have u: "doh_state u = SHIFT" "dohf_in u = ws' @ rest" "doh_prev u = w" "dohf_length u = ns" "dohf_out u = dohf_out s"
    using assms(3-5) ws by (simp_all add: u_def drop_optional_ip_header_def doh_meta_def Let_def)
  have "shifts 4 SHIFT LAST" by (simp add: shifts_def)
  then obtain c out where c: "doh_done u rest out ((drop_optional_ip_header 8 ^^ c) u)" "packet 8 out (drop 4 bs)"
    using doh_tail[of 8 u ws' bs 4 SHIFT LAST rest] assms(1) ws ne u by auto
  have "doh_done (s\<lparr>dohf_length := ns\<rparr>) rest out ((drop_optional_ip_header 8 ^^ Suc (Suc c)) s)"
    using c(1) u(4,5) by (simp add: funpow_Suc_right doh_done_def u_def del: funpow.simps)
  then show ?thesis using c(2) by blast
qed

subsection \<open>The pseudo header is put in front\<close>

text \<open>The words that \<open>constructPseudoHeader\<close> makes of the header; the last one is not full.\<close>

lemma ch_words:
  assumes "W \<in> {8, 16, 32, 64}" and "\<not> ch_HEADER s" and "chf_meta s = m # ms" and "hb = header_bytes (ch_fill m (ph_header (ch_header s)))"
    and "i = 12 div W" and "length us = Suc (Suc i)" and "\<forall>u \<in> set us. length u = W"
  shows "\<exists>w. \<not> ch_HEADER (fold (constructPseudoHeader W) us s) \<and> chf_meta (fold (constructPseudoHeader W) us s) = ms
    \<and> chf_out (fold (constructPseudoHeader W) us s) = chf_out s
         @ map (\<lambda>j. header_word W j (ch_fill m (ph_header (ch_header s))) False) [0..<i] @ [w]
    \<and> ax_last w \<and> length (ax_lanes w) = W \<and> take (12 - W * i) (map fst (ax_lanes w)) = drop (W * i) hb"
proof -
  obtain u0 us' where us: "us = u0 # us'" "length us' = Suc i" using assms(6) by (cases us) auto
  define s1 where "s1 = constructPseudoHeader W u0 s"
  have s1: "ch_HEADER s1" "chf_meta s1 = ms" "chf_out s1 = chf_out s" "ph_header (ch_header s1) = ch_fill m (ph_header (ch_header s))"
    "unat (ph_idx (ch_header s1)) = 0"
    using assms(2,3) by (simp_all add: s1_def constructPseudoHeader_def Let_def ph_clear_def)
  have hb: "length hb = 12" by (simp add: assms(4))
  have last: "\<exists>w. \<not> ch_HEADER (constructPseudoHeader W u t) \<and> chf_meta (constructPseudoHeader W u t) = chf_meta t
      \<and> chf_out (constructPseudoHeader W u t) = chf_out t @ [w] \<and> ax_last w \<and> length (ax_lanes w) = W
      \<and> take (12 - W * i) (map fst (ax_lanes w)) = drop (W * i) hb"
    if t: "ch_HEADER t" "unat (ph_idx (ch_header t)) = i" "header_bytes (ph_header (ch_header t)) = hb" "length u = W" for t u
  proof -
    have i: "12 < W * i + W" "W * i < 12" using assms(1,5) by auto
    have "consumeWord W u (ch_header t) = (0, zip (drop (W * i) hb @ drop (12 - W * i) (map fst u)) (map snd u),
        (ch_header t)\<lparr>ph_idx := ph_idx (ch_header t) + 1\<rparr>)"
      using consume_rest[of 12 "ch_header t" i W u] t i by simp
    then have f: "\<not> ch_HEADER (constructPseudoHeader W u t)" "chf_meta (constructPseudoHeader W u t) = chf_meta t"
      "chf_out (constructPseudoHeader W u t) = chf_out t @ [\<lparr>ax_lanes = map (\<lambda>(b, _). (b, True))
         (zip (drop (W * i) hb @ drop (12 - W * i) (map fst u)) (map snd u)), ax_last = True\<rparr>]"
      using t(1) by (simp_all add: constructPseudoHeader_def)
    have "map fst (map (\<lambda>(b, _). (b, True)) (zip (drop (W * i) hb @ drop (12 - W * i) (map fst u)) (map snd u)))
        = drop (W * i) hb @ drop (12 - W * i) (map fst u)"
      using t(4) hb i by (intro nth_equalityI) (simp_all add: case_prod_unfold)
    then show ?thesis using f t(4) hb i by (intro exI[of _ "last (chf_out (constructPseudoHeader W u t))"]) simp
  qed
  show ?thesis
  proof (cases "W = 8")
    case True
    then obtain u1 u2 where us': "us' = [u1, u2]" "length u1 = 8" "length u2 = 8"
      using us assms(5,7) by (auto simp: length_Suc_conv)
    define s2 where "s2 = constructPseudoHeader W u1 s1"
    obtain rem ls where c: "consumeWord 8 u1 (ch_header s1) = (rem, ls, (ch_header s1)\<lparr>ph_idx := ph_idx (ch_header s1) + 1\<rparr>)"
      "rem = 4" "ls = zip (take 8 hb) (map snd u1)"
      using consume_full[of 12 "ch_header s1" 0 8 u1] s1 us' by (auto simp: assms(4))
    have "map (\<lambda>(b, _). (b, True)) ls = map (\<lambda>b. (b, True)) (take 8 hb)"
      using hb us' c(3) by (intro nth_equalityI) simp_all
    then have s2: "ch_HEADER s2" "chf_meta s2 = ms" "chf_out s2 = chf_out s @ [header_word 8 0 (ch_fill m (ph_header (ch_header s))) False]"
      "header_bytes (ph_header (ch_header s2)) = hb" "unat (ph_idx (ch_header s2)) = 1"
      using True s1 c small_idx[OF s1(5)]
      by (simp_all add: s2_def constructPseudoHeader_def header_word_def assms(4))
    have i1: "i = 1" using True assms(5) by simp
    then show ?thesis using last[OF s2(1) _ s2(4), of u2] s2 us us' True by (auto simp: s1_def s2_def)
  next
    case False
    then have i0: "i = 0" using assms(1,5) by auto
    then obtain u1 where us': "us' = [u1]" "length u1 = W" using us assms(7) by (auto simp: length_Suc_conv)
    have h: "header_bytes (ph_header (ch_header s1)) = hb" by (simp add: assms(4) s1(4))
    have z: "unat (ph_idx (ch_header s1)) = i" using s1(5) i0 by simp
    show ?thesis using last[OF s1(1) z h us'(2)] s1(2,3) us us'(1) i0 by (auto simp: s1_def)
  qed
qed

definition pp_done :: "pp_st \<Rightarrow> net_axis list \<Rightarrow> net_axis list \<Rightarrow> pp_st \<Rightarrow> bool" where
  "pp_done s rest out t \<longleftrightarrow> \<not> pp_PAYLOAD t \<and> ppf_header t = [] \<and> ppf_packet t = rest \<and> ppf_out t = ppf_out s @ out"

lemma pp_done_steps:
  assumes "t = (prependPseudoHeader W ^^ n) s" and "ppf_out t = ppf_out s @ os" and "pp_done t rest out ((prependPseudoHeader W ^^ k) t)"
  shows "pp_done s rest (os @ out) ((prependPseudoHeader W ^^ (k + n)) s)"
  using assms by (simp add: funpow_add pp_done_def)

lemma pp_headers:
  assumes "\<not> pp_PAYLOAD s" and "ppf_header s = fs @ hs" and "\<forall>f \<in> set fs. \<not> ax_last f" and "t = (prependPseudoHeader W ^^ length fs) s"
  shows "\<not> pp_PAYLOAD t \<and> ppf_header t = hs \<and> ppf_packet t = ppf_packet s \<and> ppf_out t = ppf_out s @ fs"
  using assms
proof (induction fs arbitrary: s)
  case (Cons f fs)
  define u where "u = prependPseudoHeader W s"
  have u: "\<not> pp_PAYLOAD u" "ppf_header u = fs @ hs" "ppf_packet u = ppf_packet s" "ppf_out u = ppf_out s @ [f]"
    using Cons.prems by (simp_all add: u_def prependPseudoHeader_def Let_def)
  have "t = (prependPseudoHeader W ^^ length fs) u"
    using Cons.prems(4) by (simp add: funpow_Suc_right u_def del: funpow.simps)
  from Cons.IH[OF u(1,2) _ this] show ?case using Cons.prems(3) u by simp
qed simp

lemma pp_rest:
  assumes "packet W ws bs" and "pp_PAYLOAD s" and "\<not> pp_firstPayload s" and "ppf_packet s = ws @ rest" and "ppf_header s = []"
  shows "pp_done s rest ws ((prependPseudoHeader W ^^ length ws) s)"
  using assms
proof (induction ws arbitrary: s bs)
  case (Cons w ws)
  define u where "u = prependPseudoHeader W s"
  have u: "pp_PAYLOAD u = (\<not> ax_last w)" "\<not> pp_firstPayload u" "ppf_packet u = ws @ rest" "ppf_header u = []" "ppf_out u = ppf_out s @ [w]"
    using Cons.prems by (simp_all add: u_def prependPseudoHeader_def Let_def)
  show ?case
  proof (cases "ws = []")
    case True
    then have "ax_last w" using Cons.prems(1) by (simp add: packet_single)
    then show ?thesis using True u by (simp add: pp_done_def flip: u_def)
  next
    case False
    then have p: "packet W ws (drop W bs)" "pp_PAYLOAD u" using Cons.prems(1) u(1) by (simp_all add: packet_cons)
    have "pp_done s rest ([w] @ ws) ((prependPseudoHeader W ^^ (length ws + 1)) s)"
      by (rule pp_done_steps[OF _ u(5) Cons.IH[OF p u(2-4)]]) (simp add: u_def)
    then show ?thesis by simp
  qed
qed simp

lemma pp_payload:
  assumes "packet W ws (replicate n 0 @ bs)" and "pp_PAYLOAD s" and "pp_firstPayload s" and "ppf_packet s = ws @ rest" and "ppf_header s = []"
    and "W \<in> {8, 16, 32, 64}" and "n = (if W = 8 then 4 else 12)" and "take n (map fst (ax_lanes (pp_prev s))) = cs" and "length cs = n"
  shows "\<exists>k out. pp_done s rest out ((prependPseudoHeader W ^^ k) s) \<and> packet W out (cs @ bs)"
proof -
  obtain w ws' where ws: "ws = w # ws'" using packet_nonempty[OF assms(1)] by (cases ws) auto
  define w' where "w' = copy_data n (pp_prev s) w"
  have w': "w' = w\<lparr>ax_lanes := zip (cs @ drop (length cs) (map fst (ax_lanes w))) (map snd (ax_lanes w))\<rparr>"
    using assms(8,9) by (simp add: w'_def copy_data_def)
  have new: "packet W (w' # ws') (cs @ bs)"
    unfolding w' by (rule packet_replace[where as = "replicate n 0"]) (use assms ws in auto)
  define u where "u = prependPseudoHeader W s"
  have u: "pp_PAYLOAD u = (\<not> ax_last w)" "\<not> pp_firstPayload u" "ppf_packet u = ws' @ rest" "ppf_header u = []" "ppf_out u = ppf_out s @ [w']"
    using assms(2-7) ws by (auto simp: u_def prependPseudoHeader_def Let_def w'_def)
  have n: "\<exists>k. pp_done u rest ws' ((prependPseudoHeader W ^^ k) u)"
  proof (cases "ws' = []")
    case True
    then have "ax_last w" using assms(1) ws by (simp add: packet_single)
    then show ?thesis using True u by (intro exI[of _ 0]) (simp add: pp_done_def)
  next
    case False
    then have "packet W ws' (drop W (replicate n 0 @ bs))" "pp_PAYLOAD u" using assms(1) ws u(1) by (simp_all add: packet_cons)
    then show ?thesis using pp_rest u(2-4) by blast
  qed
  then obtain k where "pp_done u rest ws' ((prependPseudoHeader W ^^ k) u)" by blast
  then have "pp_done s rest ([w'] @ ws') ((prependPseudoHeader W ^^ (k + 1)) s)"
    by (intro pp_done_steps[OF _ u(5)]) (simp_all add: u_def)
  then show ?thesis using new by (intro exI[of _ "k + 1"] exI[of _ "w' # ws'"]) simp
qed

text \<open>The pseudo header comes before every segment: from the metadata of its IPv4 header and the segment, moved up by
  the shifter, the two processes make one packet of the 12 bytes of the header and the bytes of the segment.\<close>

lemma pseudo_header_prepended:
  assumes "W \<in> {8, 16, 32, 64}" and "\<not> ch_HEADER s" and "chf_meta s = m # ms" and "chf_out s = []"
    and "packet W ws (replicate (12 mod W) 0 @ bs)" and "\<not> pp_PAYLOAD p" and "ppf_packet p = ws @ rest"
    and "length us = Suc (Suc (12 div W))" and "\<forall>u \<in> set us. length u = W"
  shows "\<exists>k out. pp_done p rest out ((prependPseudoHeader W ^^ k) (p\<lparr>ppf_header := chf_out (fold (constructPseudoHeader W) us s)\<rparr>))
    \<and> packet W out (header_bytes (ch_fill m (ph_header (ch_header s))) @ bs)"
proof -
  define hb where "hb = header_bytes (ch_fill m (ph_header (ch_header s)))"
  define i where "i = 12 div W"
  define fs where "fs = map (\<lambda>j. header_word W j (ch_fill m (ph_header (ch_header s))) False) [0..<i]"
  have hb: "length hb = 12" by (simp add: hb_def)
  obtain w where w: "chf_out (fold (constructPseudoHeader W) us s) = fs @ [w]" "ax_last w" "length (ax_lanes w) = W"
    "take (12 - W * i) (map fst (ax_lanes w)) = drop (W * i) hb"
    using ch_words[OF assms(1-3) hb_def i_def _ assms(9)] assms(4,8) by (auto simp: fs_def i_def)
  have i: "W * i \<le> 12" "12 - W * i = (if W = 8 then 4 else 12)" "12 mod W = 12 - W * i" using assms(1) by (auto simp: i_def)
  define q where "q = p\<lparr>ppf_header := fs @ [w]\<rparr>"
  define t where "t = (prependPseudoHeader W ^^ length fs) q"
  have "\<forall>f \<in> set fs. \<not> ax_last f" by (simp add: fs_def header_word_def)
  then have t: "\<not> pp_PAYLOAD t" "ppf_header t = [w]" "ppf_packet t = ws @ rest" "ppf_out t = ppf_out q @ fs"
    using pp_headers[OF _ _ _ t_def, of "[w]"] assms(6,7) by (simp_all add: q_def)
  define u where "u = prependPseudoHeader W t"
  have u: "pp_PAYLOAD u" "pp_firstPayload u" "ppf_packet u = ws @ rest" "ppf_header u = []" "ppf_out u = ppf_out q @ fs"
    "ax_lanes (pp_prev u) = ax_lanes w"
    using t w(2) by (simp_all add: u_def prependPseudoHeader_def Let_def)
  have tk: "take (12 - W * i) (map fst (ax_lanes (pp_prev u))) = drop (W * i) hb" by (simp only: u(6) w(4))
  have len: "length (drop (W * i) hb) = 12 - W * i" by (simp only: length_drop hb)
  have pay: "\<exists>k out. pp_done u rest out ((prependPseudoHeader W ^^ k) u) \<and> packet W out (drop (W * i) hb @ bs)"
    by (rule pp_payload[OF assms(5)[unfolded i(3)] u(1-4) assms(1) i(2) tk len])
  then obtain k out where k: "pp_done u rest out ((prependPseudoHeader W ^^ k) u)" "packet W out (drop (W * i) hb @ bs)"
    by (elim exE conjE)
  have "pp_done q rest (fs @ out) ((prependPseudoHeader W ^^ (k + Suc (length fs))) q)"
    by (rule pp_done_steps[OF _ u(5) k(1)]) (simp add: u_def t_def)
  moreover have fl: "fulls W fs (take (W * i) hb)"
    using header_words[of W 0 i "ch_fill m (ph_header (ch_header s))"] i(1) by (simp add: fs_def hb_def)
  have "packet W (fs @ out) (hb @ bs)" using fulls_packet[OF fl k(2)] by (simp add: take_drop_append)
  ultimately show ?thesis unfolding w(1) hb_def[symmetric] q_def[symmetric]
    by (intro exI[of _ "k + Suc (length fs)"] exI[of _ "fs @ out"]) (simp add: pp_done_def q_def)
qed

definition ch_demo :: ch_st where
  "ch_demo = \<lparr>ch_HEADER = False, ch_header = \<lparr>ph_ready = False, ph_idx = 0, ph_header = pseudo_init 0\<rparr>,
     chf_meta = [\<lparr>pm_their_address = 1, pm_our_address = 2, pm_length = 20\<rparr>], chf_out = []\<rparr>"

definition pp_demo :: pp_st where
  "pp_demo = \<lparr>pp_PAYLOAD = False, pp_prev = \<lparr>ax_lanes = [], ax_last = False\<rparr>, pp_firstPayload = True, ppf_header = [],
     ppf_packet = [gi_word], ppf_out = []\<rparr>"

lemma pseudo_header_prepended_witness:
  "\<exists>k out. pp_done pp_demo [] out ((prependPseudoHeader 8 ^^ k) (pp_demo\<lparr>ppf_header :=
        chf_out (fold (constructPseudoHeader 8) (replicate 3 (replicate 8 (0, False))) ch_demo)\<rparr>))
    \<and> packet 8 out (header_bytes (ch_fill \<lparr>pm_their_address = 1, pm_our_address = 2, pm_length = 20\<rparr> (pseudo_init 0)) @ [7])"
  using pseudo_header_prepended[of 8 ch_demo "\<lparr>pm_their_address = 1, pm_our_address = 2, pm_length = 20\<rparr>" "[]" "[gi_word]" "[7]"
      pp_demo "[]" "replicate 3 (replicate 8 (0, False))"]
    gi_word_packet by (simp add: ch_demo_def pp_demo_def)

end
