(* ===== verification/Checksum.thy ===== *)
theory Checksum
  imports Axis_Words
begin

text \<open>
  The TCP checksum. \<open>two_complement_subchecksums\<close> (\<^verbatim>\<open>toe/two_complement_subchecksums.hpp\<close>) keeps one
  partial sum for each pair of lanes while a packet passes; \<open>finalize_ipv4_checksum\<close> and
  \<open>toe_check_ipv4_checksum\<close> (\<^verbatim>\<open>ipv4/ipv4.hpp\<close>) add the partial sums up in a tree, to fill in or to
  check the checksum of a packet; \<open>insert_checksum\<close> (\<^verbatim>\<open>toe/tx_engine/tx_engine.cpp\<close>) writes it.

  The reference is the Internet checksum of RFC 1071: the complement of the ones' complement sum of
  the 16-bit words of the packet, most significant byte first. The processes take it of every packet,
  for every width of the streams.
\<close>

subsection \<open>The partial sums\<close>

type_synonym subSums = "17 word list"

definition sub_add :: "17 word \<Rightarrow> 17 word \<Rightarrow> 17 word" where
  "sub_add s t = (let x = s + t in (x + drop_bit 16 x) AND 0xFFFF)"

definition lane_word :: "byte \<Rightarrow> byte \<Rightarrow> 17 word" where
  "lane_word b0 b1 = ucast (range_set 15 8 b0 (range_set 7 0 b1 0) :: u16)"

fun add_lanes :: "lane list \<Rightarrow> subSums \<Rightarrow> subSums" where
  "add_lanes ((b0, k0) # (b1, k1) # ls) (s # ss) =
    (if k0 \<and> k1 then sub_add s (lane_word b0 b1)
     else if k0 then sub_add s (lane_word b0 0) else s) # add_lanes ls ss"
| "add_lanes _ ss = ss"

record cs_st =
  cs_sums :: subSums
  csf_in :: "net_axis fifo"
  csf_out :: "net_axis fifo"
  csf_sums :: "subSums fifo"

definition two_complement_subchecksums :: "cs_st \<Rightarrow> cs_st" where
  "two_complement_subchecksums s =
    (if csf_in s \<noteq> [] then
       (let w = hd (csf_in s); xs = add_lanes (ax_lanes w) (cs_sums s);
            s = s\<lparr>csf_in := tl (csf_in s), csf_out := csf_out s @ [w], cs_sums := xs\<rparr> in
        if ax_last w then s\<lparr>csf_sums := csf_sums s @ [xs], cs_sums := replicate (length xs) 0\<rparr> else s)
     else s)"

subsection \<open>The sum of the sums\<close>

definition fold_half :: "nat \<Rightarrow> subSums \<Rightarrow> subSums" where
  "fold_half k xs = map2 sub_add (take k xs) (take k (drop k xs)) @ drop k xs"

definition sum_tree :: "subSums \<Rightarrow> 17 word" where
  "sum_tree xs =
    (let n = length xs;
         xs = (if 32 \<le> n then fold_half 16 xs else xs);
         xs = (if 16 \<le> n then fold_half 8 xs else xs);
         xs = (if 8 \<le> n then fold_half 4 xs else xs) in
     hd (fold_half 1 (fold_half 2 xs)))"

definition finalize_ipv4_checksum :: "subSums fifo \<times> u16 fifo \<Rightarrow> subSums fifo \<times> u16 fifo" where
  "finalize_ipv4_checksum = (\<lambda>(inp, out).
     if inp \<noteq> [] then (tl inp, out @ [range_get 15 0 (NOT (sum_tree (hd inp)))]) else (inp, out))"

definition toe_check_ipv4_checksum :: "subSums fifo \<times> bool fifo \<Rightarrow> subSums fifo \<times> bool fifo" where
  "toe_check_ipv4_checksum = (\<lambda>(inp, out).
     if inp \<noteq> [] then (tl inp, out @ [(range_get 15 0 (NOT (sum_tree (hd inp))) :: u16) = 0]) else (inp, out))"

subsection \<open>Writing the checksum\<close>

text \<open>The word that holds bit 128 of the packet gets the checksum, in network byte order; \<open>W\<close> lanes of 8 bits.\<close>

record ic_st =
  ic_state :: "2 word"
  ic_wordCount :: "3 word"
  icf_checksum :: "u16 fifo"
  icf_in :: "net_axis fifo"
  icf_out :: "net_axis fifo"

definition set_byte :: "nat \<Rightarrow> byte \<Rightarrow> net_axis \<Rightarrow> net_axis" where
  "set_byte k b w = w\<lparr>ax_lanes := (ax_lanes w)[k := (b, snd (ax_lanes w ! k))]\<rparr>"

definition put_checksum :: "nat \<Rightarrow> u16 \<Rightarrow> net_axis \<Rightarrow> net_axis" where
  "put_checksum W c w = (let k = (if 128 < 8 * W then 16 else 0); r = reverse16 c in
     set_byte (k + 1) (range_get 15 8 r) (set_byte k (range_get 7 0 r) w))"

definition insert_checksum :: "nat \<Rightarrow> ic_st \<Rightarrow> ic_st" where
  "insert_checksum W s =
    (let start = (if 128 < 8 * W then 1 else 0) in
     if ic_state s = 0 then
       (if icf_in s \<noteq> [] then
          (let n = ic_wordCount s + 1;
               s = s\<lparr>icf_in := tl (icf_in s), icf_out := icf_out s @ [hd (icf_in s)], ic_wordCount := n\<rparr> in
           if unat n = 128 div (8 * W) then s\<lparr>ic_wordCount := 0, ic_state := 1\<rparr> else s)
        else s)
     else if ic_state s = 1 then
       (if icf_checksum s \<noteq> [] \<and> icf_in s \<noteq> [] then
          (let w = put_checksum W (hd (icf_checksum s)) (hd (icf_in s)) in
           s\<lparr>icf_checksum := tl (icf_checksum s), icf_in := tl (icf_in s), icf_out := icf_out s @ [w],
             ic_state := (if ax_last w then start else 2)\<rparr>)
        else s)
     else if ic_state s = 2 then
       (if icf_in s \<noteq> [] then
          (let w = hd (icf_in s) in
           s\<lparr>icf_in := tl (icf_in s), icf_out := icf_out s @ [w], ic_state := (if ax_last w then start else 2)\<rparr>)
        else s)
     else s)"

subsection \<open>The reference\<close>

fun be_words :: "byte list \<Rightarrow> nat list" where
  "be_words (a # b # bs) = (256 * unat a + unat b) # be_words bs"
| "be_words [a] = [256 * unat a]"
| "be_words [] = []"

definition ones_add :: "nat \<Rightarrow> nat \<Rightarrow> nat" where
  "ones_add a b = (if a + b < 65536 then a + b else a + b - 65535)"

definition ones_sum :: "nat list \<Rightarrow> nat" where
  "ones_sum = foldl ones_add 0"

definition internet_checksum :: "byte list \<Rightarrow> u16" where
  "internet_checksum bs = NOT (of_nat (ones_sum (be_words bs)))"

subsection \<open>Ones' complement sums are sums modulo 65535\<close>

text \<open>The representative of a sum: 0 only for an empty sum, 65535 for its other multiples.\<close>

definition canon :: "nat \<Rightarrow> nat" where
  "canon n = (if n = 0 then 0 else (n - 1) mod 65535 + 1)"

lemma canon_le: "canon n \<le> 65535"
  using mod_less_divisor[of 65535 "n - 1"] by (simp add: canon_def Suc_leI del: mod_less_divisor)

lemma canon_small: "n \<le> 65535 \<Longrightarrow> canon n = n"
  by (simp add: canon_def)

lemma canon_add: "canon (canon a + b) = canon (a + b)"
proof (cases "a = 0")
  case False
  then have "canon (canon a + b) = ((a - 1) mod 65535 + b) mod 65535 + 1" by (simp add: canon_def)
  also have "\<dots> = (a - 1 + b) mod 65535 + 1" by (simp add: mod_add_left_eq)
  also have "\<dots> = canon (a + b)" using False by (simp add: canon_def)
  finally show ?thesis .
qed (simp add: canon_def)

lemma canon_add': "canon (b + canon a) = canon (b + a)"
  using canon_add[of a b] by (simp add: add.commute)

lemma ones_add_canon:
  assumes "a \<le> 65535" and "b \<le> 65535"
  shows "ones_add a b = canon (a + b)"
proof (cases "a + b < 65536")
  case False
  have "(a + b - 1) mod 65535 = (a + b - 65536 + 65535) mod 65535"
    using False by (intro arg_cong[of _ _ "\<lambda>x. x mod 65535"]) linarith
  also have "\<dots> = (a + b - 65536) mod 65535" by (simp only: mod_add_self2)
  also have "\<dots> = a + b - 65536" using assms by (intro mod_less) linarith
  finally have m: "(a + b - 1) mod 65535 = a + b - 65536" .
  have "a + b \<noteq> 0" using False by linarith
  then have "canon (a + b) = a + b - 65536 + 1" unfolding canon_def m by (simp only: if_False)
  then show ?thesis using False by (simp add: ones_add_def)
qed (simp add: ones_add_def canon_small)

lemma be_words_bound: "x \<in> set (be_words bs) \<Longrightarrow> x \<le> 65535"
proof (induction bs rule: be_words.induct)
  case (1 a b bs)
  then show ?case using unat_bound[of a] unat_bound[of b] by auto
next
  case (2 a)
  then show ?case using unat_bound[of a] by auto
qed simp

lemma ones_sum_canon:
  assumes "\<forall>x \<in> set xs. x \<le> 65535"
  shows "ones_sum xs = canon (sum_list xs)"
  using assms
proof (induction xs rule: rev_induct)
  case (snoc x xs)
  then have "ones_sum (xs @ [x]) = ones_add (canon (sum_list xs)) x" by (simp add: ones_sum_def)
  also have "\<dots> = canon (canon (sum_list xs) + x)" using snoc.prems canon_le by (simp add: ones_add_canon)
  finally show ?case by (simp add: canon_add)
qed (simp add: ones_sum_def canon_def)

subsection \<open>The partial sums as numbers\<close>

definition sums_ok :: "subSums \<Rightarrow> bool" where
  "sums_ok xs \<longleftrightarrow> (\<forall>x \<in> set xs. unat x \<le> 65535)"

definition total :: "subSums \<Rightarrow> nat" where
  "total xs = sum_list (map unat xs)"

lemma low16: "unat ((x :: 17 word) AND 0xFFFF) = unat x mod 65536"
proof -
  have "x AND 0xFFFF = take_bit 16 x" by (simp add: take_bit_eq_mask mask_eq_decr_exp)
  moreover have "unat (take_bit 16 x) = take_bit 16 (unat x)" by (rule unsigned_take_bit_eq)
  ultimately show ?thesis by (simp only: take_bit_eq_mod) simp
qed

lemma sub_add_nat:
  assumes "unat s \<le> 65535" and "unat t \<le> 65535"
  shows "unat (sub_add s t) = canon (unat s + unat t)"
proof -
  have x: "unat (s + t) = unat s + unat t" using assms by (simp add: unat_add_mod)
  have "unat (sub_add s t) = (unat s + unat t + (unat s + unat t) div 65536) mod 2 ^ 17 mod 65536"
    unfolding sub_add_def Let_def low16 unat_add_mod[of "s + t"] unat_drop_bit_div x by simp
  also have "\<dots> = (unat s + unat t + (unat s + unat t) div 65536) mod 65536"
    by (simp add: mod_mod_cancel)
  also have "\<dots> = ones_add (unat s) (unat t)"
  proof (cases "unat s + unat t < 65536")
    case False
    then have "(unat s + unat t) div 65536 = 1" using assms by (simp add: div_nat_eqI)
    then have "(unat s + unat t + (unat s + unat t) div 65536) mod 65536 = (unat s + unat t - 65535 + 65536) mod 65536"
      using False by (intro arg_cong[of _ _ "\<lambda>x. x mod 65536"]) linarith
    also have "\<dots> = unat s + unat t - 65535" using assms by simp
    finally show ?thesis using False by (simp add: ones_add_def)
  qed (simp add: ones_add_def)
  finally show ?thesis using assms by (simp add: ones_add_canon)
qed

lemma lane_word_nat: "unat (lane_word b0 b1) = 256 * unat b0 + unat b1"
proof -
  have "(range_set 15 8 b0 (range_set 7 0 b1 0) :: u16) = push_bit 8 (ucast b0) OR ucast b1"
    by (intro bit_word_eqI) (auto simp: bit_range_set bit_simps dest: bit_imp_le_length)
  also have "\<dots> = push_bit 8 (ucast b0) + ucast b1"
    by (rule disjunctive_add[symmetric]) (auto simp: bit_simps dest: bit_imp_le_length)
  finally have r: "(range_set 15 8 b0 (range_set 7 0 b1 0) :: u16) = push_bit 8 (ucast b0) + ucast b1" .
  have "unat b0 < 256" "unat b1 < 256" using unat_bound[of b0] unat_bound[of b1] by simp_all
  then show ?thesis
    by (simp add: lane_word_def r unat_cast unat_add_mod unat_push_bit_mult)
qed

lemma total_simps [simp]: "total [] = 0" "total (x # xs) = unat x + total xs" "total (xs @ ys) = total xs + total ys"
  by (simp_all add: total_def)

lemma sums_ok_simps [simp]:
  "sums_ok []" "sums_ok (x # xs) \<longleftrightarrow> unat x \<le> 65535 \<and> sums_ok xs" "sums_ok (xs @ ys) \<longleftrightarrow> sums_ok xs \<and> sums_ok ys"
  by (auto simp: sums_ok_def)

text \<open>A word adds the 16-bit words of its kept bytes.\<close>

lemma add_lanes_dropped:
  "\<forall>l \<in> set ls. \<not> snd l \<Longrightarrow> add_lanes ls ss = ss"
  by (induction ls ss rule: add_lanes.induct) auto

lemma add_lanes_total:
  assumes "length ls = 2 * length ss" and "sums_ok ss" and "take (length bs) ls = map (\<lambda>b. (b, True)) bs"
    and "length bs \<le> length ls" and "\<forall>l \<in> set (drop (length bs) ls). \<not> snd l"
  shows "length (add_lanes ls ss) = length ss \<and> sums_ok (add_lanes ls ss)
     \<and> canon (total (add_lanes ls ss)) = canon (total ss + sum_list (be_words bs))"
  using assms
proof (induction bs arbitrary: ls ss rule: be_words.induct)
  case (1 a b bs)
  then obtain ls' where ls: "ls = (a, True) # (b, True) # ls'"
    by (cases ls; cases "tl ls") auto
  then obtain s ss' where ss: "ss = s # ss'" using "1.prems"(1) by (cases ss) auto
  have IH: "length (add_lanes ls' ss') = length ss'" "sums_ok (add_lanes ls' ss')"
    "canon (total (add_lanes ls' ss')) = canon (total ss' + sum_list (be_words bs))"
    using "1.IH"[of ls' ss'] "1.prems" by (simp_all add: ls ss)
  have w: "unat (lane_word a b) \<le> 65535"
    using unat_bound[of a] unat_bound[of b] by (simp add: lane_word_nat)
  have s: "unat (sub_add s (lane_word a b)) = canon (unat s + (256 * unat a + unat b))"
    using sub_add_nat[OF _ w, of s] "1.prems"(2) by (simp add: ss lane_word_nat)
  have "canon (total (add_lanes ls ss)) = canon (canon (unat s + (256 * unat a + unat b)) + canon (total (add_lanes ls' ss')))"
    by (simp add: ls ss s canon_add')
  also have "\<dots> = canon (unat s + (256 * unat a + unat b) + (total ss' + sum_list (be_words bs)))"
    by (simp add: IH(3) canon_add canon_add')
  finally show ?case using IH(1,2) canon_le by (simp add: ls ss s algebra_simps)
next
  case (2 a)
  then obtain c k ls' where ls: "ls = (a, True) # (c, k) # ls'"
    by (cases ls; cases "tl ls"; cases ss) auto
  then obtain s ss' where ss: "ss = s # ss'" using "2.prems"(1) by (cases ss) auto
  have k: "\<not> k" "add_lanes ls' ss' = ss'" using "2.prems"(5) by (auto simp: ls intro: add_lanes_dropped)
  have w: "unat (lane_word a 0) \<le> 65535" using unat_bound[of a] by (simp add: lane_word_nat)
  have s: "unat (sub_add s (lane_word a 0)) = canon (unat s + 256 * unat a)"
    using sub_add_nat[OF _ w, of s] "2.prems"(2) by (simp add: ss lane_word_nat)
  show ?case using "2.prems"(2) k canon_le by (simp add: ls ss s canon_add canon_add' algebra_simps)
next
  case 3
  then show ?case by (simp add: add_lanes_dropped)
qed

text \<open>Words of full lanes split the string of bytes at an even place.\<close>

lemma be_words_append: "even (length xs) \<Longrightarrow> be_words (xs @ ys) = be_words xs @ be_words ys"
  by (induction xs rule: be_words.induct) auto

lemma add_word_total:
  assumes "packet (2 * length ss) (w # ws) bs" and "sums_ok ss"
  shows "length (add_lanes (ax_lanes w) ss) = length ss" and "sums_ok (add_lanes (ax_lanes w) ss)"
    and "canon (total (add_lanes (ax_lanes w) ss)) = canon (total ss + sum_list (be_words (take (2 * length ss) bs)))"
proof -
  let ?n = "length ss"
  let ?b = "take (2 * ?n) bs"
  have len: "length (ax_lanes w) = 2 * ?n" using assms(1) by (rule packet_lanes)
  have take: "take (length ?b) (ax_lanes w) = map (\<lambda>b. (b, True)) ?b" 
    using packet_take[OF assms(1), of "length ?b"] by (cases "length bs \<le> 2 * ?n") simp_all
  have drop: "\<forall>l \<in> set (drop (length ?b) (ax_lanes w)). \<not> snd l"
  proof (cases "ws = []")
    case True
    then have p: "length bs \<le> 2 * ?n" "map snd (drop (length bs) (ax_lanes w)) = replicate (2 * ?n - length bs) False"
      using assms(1) by (simp_all add: packet_single)
    show ?thesis
    proof
      fix l assume "l \<in> set (drop (length ?b) (ax_lanes w))"
      then have "snd l \<in> set (map snd (drop (length bs) (ax_lanes w)))" using p(1) by simp
      then show "\<not> snd l" unfolding p(2) by (auto split: if_splits)
    qed
  next
    case False
    then have "2 * ?n < length bs" using assms(1) by (simp add: packet_cons)
    then show ?thesis using len by simp
  qed
  show "length (add_lanes (ax_lanes w) ss) = length ss" "sums_ok (add_lanes (ax_lanes w) ss)"
    "canon (total (add_lanes (ax_lanes w) ss)) = canon (total ss + sum_list (be_words ?b))"
    using add_lanes_total[OF len assms(2) take _ drop] len by simp_all
qed

subsection \<open>A packet passes\<close>

lemma subchecksums_packet:
  assumes "packet (2 * length (cs_sums s)) ws bs" and "csf_in s = ws @ rest" and "sums_ok (cs_sums s)"
  shows "\<exists>xs. (two_complement_subchecksums ^^ length ws) s = s\<lparr>csf_in := rest, csf_out := csf_out s @ ws,
      csf_sums := csf_sums s @ [xs], cs_sums := replicate (length (cs_sums s)) 0\<rparr>
    \<and> length xs = length (cs_sums s) \<and> sums_ok xs
    \<and> canon (total xs) = canon (total (cs_sums s) + sum_list (be_words bs))"
  using assms
proof (induction ws arbitrary: s bs)
  case (Cons w ws)
  let ?n = "length (cs_sums s)" and ?xs = "add_lanes (ax_lanes w) (cs_sums s)"
  let ?t = "two_complement_subchecksums s"
  show ?case
  proof (cases "ws = []")
    case True
    have p: "ax_last w" "length bs \<le> 2 * ?n" using Cons.prems(1) True by (simp_all add: packet_single)
    then show ?thesis using True Cons.prems(2) add_word_total[OF Cons.prems(1,3)]
      by (intro exI[of _ ?xs]) (simp add: two_complement_subchecksums_def Let_def)
  next
    case False
    have p: "\<not> ax_last w" "2 * ?n < length bs" "ax_lanes w = map (\<lambda>b. (b, True)) (take (2 * ?n) bs)"
      "packet (2 * ?n) ws (drop (2 * ?n) bs)" using Cons.prems(1) False by (simp_all add: packet_cons)
    have l: "length ?xs = ?n \<and> sums_ok ?xs
        \<and> canon (total ?xs) = canon (total (cs_sums s) + sum_list (be_words (take (2 * ?n) bs)))"
      using add_word_total[OF Cons.prems(1,3)] by blast
    have t: "?t = s\<lparr>csf_in := ws @ rest, csf_out := csf_out s @ [w], cs_sums := ?xs\<rparr>"
      using Cons.prems(2) p(1) by (simp add: two_complement_subchecksums_def Let_def)
    have "\<exists>xs. (two_complement_subchecksums ^^ length ws) ?t = ?t\<lparr>csf_in := rest, csf_out := csf_out ?t @ ws,
        csf_sums := csf_sums ?t @ [xs], cs_sums := replicate (length (cs_sums ?t)) 0\<rparr>
      \<and> length xs = length (cs_sums ?t) \<and> sums_ok xs
      \<and> canon (total xs) = canon (total (cs_sums ?t) + sum_list (be_words (drop (2 * ?n) bs)))"
      by (rule Cons.IH) (use p(4) l in \<open>simp_all add: t\<close>)
    then obtain xs where xs: "(two_complement_subchecksums ^^ length ws) ?t = s\<lparr>csf_in := rest,
        csf_out := csf_out s @ w # ws, csf_sums := csf_sums s @ [xs], cs_sums := replicate ?n 0\<rparr>"
      "length xs = ?n" "sums_ok xs" "canon (total xs) = canon (total ?xs + sum_list (be_words (drop (2 * ?n) bs)))"
      using l by (auto simp: t)
    have "sum_list (be_words bs) = sum_list (be_words (take (2 * ?n) bs)) + sum_list (be_words (drop (2 * ?n) bs))"
      using be_words_append[of "take (2 * ?n) bs" "drop (2 * ?n) bs"] p(2) by simp
    then have "canon (total xs) = canon (total (cs_sums s) + sum_list (be_words bs))"
      using xs(4) l canon_add[of "total ?xs"] canon_add[of "total (cs_sums s) + sum_list (be_words (take (2 * ?n) bs))"]
      by (metis add.assoc)
    then show ?thesis using xs(1-3)
      by (intro exI[of _ xs]) (simp add: funpow_Suc_right del: funpow.simps)
  qed
qed simp


subsection \<open>The tree adds everything up\<close>

lemma fold_half_length: "2 * k \<le> length xs \<Longrightarrow> length (fold_half k xs) = length xs"
  by (simp add: fold_half_def)

lemma map2_sub_add:
  assumes "length xs = length ys" and "sums_ok xs" and "sums_ok ys"
  shows "sums_ok (map2 sub_add xs ys) \<and> canon (total (map2 sub_add xs ys)) = canon (total xs + total ys)"
  using assms
proof (induction xs ys rule: list_induct2)
  case (Cons x xs y ys)
  then have IH: "sums_ok (map2 sub_add xs ys)" "canon (total (map2 sub_add xs ys)) = canon (total xs + total ys)" by auto
  have s: "unat (sub_add x y) = canon (unat x + unat y)" using Cons.prems by (simp add: sub_add_nat)
  have "canon (total (map2 sub_add (x # xs) (y # ys))) = canon (unat x + unat y + canon (total (map2 sub_add xs ys)))"
    by (simp add: s canon_add canon_add')
  also have "\<dots> = canon (unat x + unat y + (total xs + total ys))" by (simp only: IH(2) canon_add')
  finally show ?case using IH(1) canon_le by (simp add: s algebra_simps)
qed (simp add: canon_def)

lemma sums_ok_take: "sums_ok xs \<Longrightarrow> sums_ok (take k xs)" and sums_ok_drop: "sums_ok xs \<Longrightarrow> sums_ok (drop k xs)"
  by (auto simp: sums_ok_def dest: in_set_takeD in_set_dropD)

lemma fold_half_total:
  assumes "2 * k \<le> length xs" and "sums_ok xs"
  shows "canon (total (take k (fold_half k xs))) = canon (total (take (2 * k) xs))"
    and "sums_ok (fold_half k xs)"
proof -
  have m: "sums_ok (map2 sub_add (take k xs) (take k (drop k xs))) \<and>
      canon (total (map2 sub_add (take k xs) (take k (drop k xs)))) = canon (total (take k xs) + total (take k (drop k xs)))"
    by (rule map2_sub_add) (use assms in \<open>auto intro: sums_ok_take sums_ok_drop\<close>)
  have "take (2 * k) xs = take k xs @ take k (drop k xs)" by (metis mult_2 take_add)
  then show "canon (total (take k (fold_half k xs))) = canon (total (take (2 * k) xs))"
    using m assms(1) by (simp add: fold_half_def)
  show "sums_ok (fold_half k xs)" using m assms(2) by (simp add: fold_half_def sums_ok_drop)
qed

text \<open>Halving from \<open>2 k\<close> sums down to one.\<close>

fun halve :: "nat \<Rightarrow> subSums \<Rightarrow> subSums" where
  "halve 0 xs = xs"
| "halve (Suc j) xs = halve j (fold_half (2 ^ j) xs)"

lemma halve_total:
  assumes "2 ^ j \<le> length xs" and "sums_ok xs"
  shows "length (halve j xs) = length xs \<and> sums_ok (halve j xs)
     \<and> canon (total (take 1 (halve j xs))) = canon (total (take (2 ^ j) xs))"
  using assms
proof (induction j arbitrary: xs)
  case (Suc j)
  have f: "length (fold_half (2 ^ j) xs) = length xs" "sums_ok (fold_half (2 ^ j) xs)"
    "canon (total (take (2 ^ j) (fold_half (2 ^ j) xs))) = canon (total (take (2 ^ Suc j) xs))"
    using Suc.prems fold_half_total[of "2 ^ j" xs] by (simp_all add: fold_half_length)
  have "2 ^ j \<le> length (fold_half (2 ^ j) xs)" using Suc.prems(1) by (simp add: f(1))
  from Suc.IH[OF this f(2)] show ?case using f by simp
qed simp

definition tree_width :: "nat \<Rightarrow> bool" where
  "tree_width n \<longleftrightarrow> n = 4 \<or> n = 8 \<or> n = 16 \<or> n = 32"

lemma sum_tree_halve:
  assumes "tree_width (length xs)"
  obtains j where "length xs = 2 ^ j" and "sum_tree xs = hd (halve j xs)"
proof -
  consider "length xs = 4" | "length xs = 8" | "length xs = 16" | "length xs = 32"
    using assms by (auto simp: tree_width_def)
  then have "\<exists>j. length xs = 2 ^ j \<and> sum_tree xs = hd (halve j xs)"
  proof cases
    case 1 then show ?thesis by (intro exI[of _ 2]) (simp add: sum_tree_def eval_nat_numeral)
  next
    case 2 then show ?thesis by (intro exI[of _ 3]) (simp add: sum_tree_def eval_nat_numeral)
  next
    case 3 then show ?thesis by (intro exI[of _ 4]) (simp add: sum_tree_def eval_nat_numeral)
  next
    case 4 then show ?thesis by (intro exI[of _ 5]) (simp add: sum_tree_def eval_nat_numeral)
  qed
  then show ?thesis using that by blast
qed

lemma sum_tree_total:
  assumes "tree_width (length xs)" and "sums_ok xs"
  shows "unat (sum_tree xs) = canon (total xs)"
proof -
  obtain j where j: "length xs = 2 ^ j" "sum_tree xs = hd (halve j xs)" using sum_tree_halve[OF assms(1)] .
  have h: "length (halve j xs) = length xs" "sums_ok (halve j xs)"
    "canon (total (take 1 (halve j xs))) = canon (total (take (2 ^ j) xs))"
    using halve_total[of j xs] j(1) assms(2) by simp_all
  obtain y ys where y: "halve j xs = y # ys" using h(1) j(1) by (cases "halve j xs") auto
  show ?thesis using h(2,3) unfolding y j by (simp add: canon_small flip: j(1))
qed

lemma complement_low: "(range_get 15 0 (NOT (x :: 17 word)) :: u16) = NOT (ucast x)"
  by (intro bit_word_eqI) (auto simp: bit_range_get bit_simps)

lemma unat_complement: "unat (NOT (x :: u16)) = 65535 - unat x"
proof -
  have "NOT x = - 1 - x" by (simp add: not_eq_complement)
  moreover have "x \<le> - 1" by simp
  ultimately show ?thesis by (simp add: unat_sub unsigned_minus_1_eq_mask mask_eq_exp_minus_1)
qed

lemma checksum_of_sums:
  assumes "tree_width (length xs)" and "sums_ok xs" and "canon (total xs) = canon (sum_list (be_words bs))"
  shows "(range_get 15 0 (NOT (sum_tree xs)) :: u16) = internet_checksum bs"
proof -
  have "unat (sum_tree xs) = ones_sum (be_words bs)"
    using sum_tree_total[OF assms(1,2)] assms(3) be_words_bound by (simp add: ones_sum_canon)
  moreover have "(ucast (sum_tree xs) :: u16) = of_nat (unat (sum_tree xs))" by (rule of_nat_unat[symmetric])
  ultimately show ?thesis by (simp only: complement_low internet_checksum_def)
qed

text \<open>C22. For streams of 64, 128, 256 and 512 bits: when a packet has passed the process of the partial
  sums, unchanged, the sums it has written make the finalizer give the Internet checksum of its bytes,
  and the process starts the next packet from zero.\<close>

theorem checksum_rfc1071:
  assumes "length (cs_sums s) = N" and "tree_width N" and "cs_sums s = replicate N 0"
    and "packet (2 * N) ws bs" and "csf_in s = ws @ rest"
  shows "\<exists>xs. (two_complement_subchecksums ^^ length ws) s = s\<lparr>csf_in := rest, csf_out := csf_out s @ ws,
      csf_sums := csf_sums s @ [xs]\<rparr>
    \<and> finalize_ipv4_checksum ([xs], out) = ([], out @ [internet_checksum bs])"
proof -
  have zero: "sums_ok (cs_sums s)" "total (cs_sums s) = 0"
    using assms(3) by (simp_all add: sums_ok_def total_def sum_list_replicate)
  obtain xs where xs: "(two_complement_subchecksums ^^ length ws) s = s\<lparr>csf_in := rest, csf_out := csf_out s @ ws,
      csf_sums := csf_sums s @ [xs], cs_sums := replicate (length (cs_sums s)) 0\<rparr>"
    "length xs = N" "sums_ok xs" "canon (total xs) = canon (sum_list (be_words bs))"
    using subchecksums_packet[of s ws bs rest] assms(1,4,5) zero by auto
  have "finalize_ipv4_checksum ([xs], out) = ([], out @ [internet_checksum bs])"
    using checksum_of_sums[of xs bs] xs(2-4) assms(2) by (simp add: finalize_ipv4_checksum_def)
  moreover have "s\<lparr>csf_in := rest, csf_out := csf_out s @ ws, csf_sums := csf_sums s @ [xs],
      cs_sums := replicate (length (cs_sums s)) 0\<rparr> = s\<lparr>csf_in := rest, csf_out := csf_out s @ ws, csf_sums := csf_sums s @ [xs]\<rparr>"
    using assms(1,3) by (cases s) simp
  ultimately show ?thesis using xs(1) by metis
qed

definition cs_ex :: "net_axis \<Rightarrow> cs_st" where
  "cs_ex w = \<lparr>cs_sums = replicate 4 0, csf_in = [w], csf_out = [], csf_sums = []\<rparr>"

definition odd_word :: net_axis where
  "odd_word = \<lparr>ax_lanes = [(0x45, True), (0x00, True), (0x12, True), (0, False), (0, False), (0, False),
     (0, False), (0, False)], ax_last = True\<rparr>"

lemma checksum_rfc1071_witness:
  "\<exists>xs. csf_sums ((two_complement_subchecksums ^^ 1) (cs_ex odd_word)) = [xs]
    \<and> finalize_ipv4_checksum ([xs], []) = ([], [internet_checksum [0x45, 0x00, 0x12]])"
  using checksum_rfc1071[of "cs_ex odd_word" 4 "[odd_word]" "[0x45, 0x00, 0x12]" "[]" "[]"]
  by (simp add: cs_ex_def odd_word_def packet_single tree_width_def numeral_eq_Suc del: funpow.simps)
    (metis cs_st.select_convs(4) cs_st.update_convs)

lemma checksummed_sum:
  assumes bs: "bs = ps @ [range_get 15 8 (internet_checksum (ps @ [0, 0] @ qs)),
       range_get 7 0 (internet_checksum (ps @ [0, 0] @ qs))] @ qs" and ev: "even (length ps)"
  shows "ones_sum (be_words bs) = 65535"
proof -
  let ?c = "internet_checksum (ps @ [0, 0] @ qs)"
  let ?S = "sum_list (be_words ps) + sum_list (be_words qs)"
  have "ones_sum (be_words (ps @ [0, 0] @ qs)) = canon ?S"
    using be_words_append[OF ev] be_words_bound by (subst ones_sum_canon) auto
  then have "?c = NOT (of_nat (canon ?S))" by (simp add: internet_checksum_def)
  then have c: "unat ?c = 65535 - canon ?S"
    using canon_le[of ?S] by (simp add: unat_complement unat_of_nat)
  have split: "256 * unat (range_get 15 8 (x :: u16) :: byte) + unat (range_get 7 0 x :: byte) = unat x" for x
  proof -
    have "(range_get 15 8 x :: byte) = ucast (drop_bit 8 x)" "(range_get 7 0 x :: byte) = ucast x"
      by (rule bit_word_eqI, auto simp: bit_range_get bit_simps add.commute)+
    then show ?thesis using unat_bound[of x] by (simp add: unat_cast unat_drop_bit_div)
  qed
  have sum: "sum_list (be_words bs) = ?S + unat ?c"
    unfolding bs using be_words_append[OF ev] split[of ?c] by simp
  have "ones_sum (be_words bs) = canon (?S + unat ?c)"
    using be_words_bound by (simp add: ones_sum_canon sum)
  also have "\<dots> = canon (canon ?S + (65535 - canon ?S))" by (simp only: c canon_add)
  also have "\<dots> = 65535" using canon_le[of ?S] by (simp add: canon_small)
  finally show ?thesis .
qed

lemma check_of_sums:
  assumes "tree_width (length xs)" and "sums_ok xs" and "canon (total xs) = canon (sum_list (be_words bs))"
  shows "toe_check_ipv4_checksum ([xs], out) = ([], out @ [ones_sum (be_words bs) = 65535])"
proof -
  have t: "unat (sum_tree xs) = ones_sum (be_words bs)"
    using sum_tree_total[of xs] assms be_words_bound by (simp add: ones_sum_canon)
  have le: "ones_sum (be_words bs) \<le> 65535"
    using be_words_bound canon_le by (simp add: ones_sum_canon)
  have "(range_get 15 0 (NOT (sum_tree xs)) :: u16) = 0 \<longleftrightarrow> (of_nat (ones_sum (be_words bs)) :: u16) = NOT 0"
    unfolding complement_low by (metis of_nat_unat bit.double_compl t)
  also have "\<dots> \<longleftrightarrow> unat (of_nat (ones_sum (be_words bs)) :: u16) = unat (NOT 0 :: u16)"
    by (simp add: word_unat_eq_iff)
  also have "\<dots> \<longleftrightarrow> ones_sum (be_words bs) = 65535"
    using le by (simp add: unat_of_nat unsigned_minus_1_eq_mask mask_eq_exp_minus_1)
  finally show ?thesis by (simp add: toe_check_ipv4_checksum_def)
qed

lemma check_sums:
  assumes "length (cs_sums s) = N" and "tree_width N" and "cs_sums s = replicate N 0"
    and "packet (2 * N) ws bs" and "csf_in s = ws"
  shows "\<exists>xs. csf_sums ((two_complement_subchecksums ^^ length ws) s) = csf_sums s @ [xs]
    \<and> toe_check_ipv4_checksum ([xs], out) = ([], out @ [ones_sum (be_words bs) = 65535])"
proof -
  have zero: "sums_ok (cs_sums s)" "total (cs_sums s) = 0"
    using assms(3) by (simp_all add: sums_ok_def total_def sum_list_replicate)
  obtain xs where xs: "(two_complement_subchecksums ^^ length ws) s = s\<lparr>csf_in := [], csf_out := csf_out s @ ws,
      csf_sums := csf_sums s @ [xs], cs_sums := replicate (length (cs_sums s)) 0\<rparr>"
    "length xs = N" "sums_ok xs" "canon (total xs) = canon (sum_list (be_words bs))"
    using subchecksums_packet[of s ws bs "[]"] assms(1,4,5) zero by auto
  then show ?thesis using check_of_sums[of xs bs out] assms(2) by auto
qed

text \<open>A packet whose checksum field, at an even place, was zero and now holds the Internet checksum of
  the rest is accepted by the check; and the check accepts no packet whose ones' complement sum is
  not 65535.\<close>

lemma checksum_accepted:
  assumes "length (cs_sums s) = N" and "tree_width N" and "cs_sums s = replicate N 0"
    and "packet (2 * N) ws bs" and "csf_in s = ws"
  shows "\<exists>xs. csf_sums ((two_complement_subchecksums ^^ length ws) s) = csf_sums s @ [xs]
    \<and> toe_check_ipv4_checksum ([xs], out) = ([], out @ [ones_sum (be_words bs) = 65535])
    \<and> (bs = ps @ [range_get 15 8 (internet_checksum (ps @ [0, 0] @ qs)),
                  range_get 7 0 (internet_checksum (ps @ [0, 0] @ qs))] @ qs \<and> even (length ps)
       \<longrightarrow> ones_sum (be_words bs) = 65535)"
  using check_sums[OF assms] checksummed_sum[of bs ps qs] by blast

definition sum_word :: net_axis where
  "sum_word = \<lparr>ax_lanes = [(0x45, True), (0x00, True), (0xBA, True), (0xFF, True), (0, False), (0, False),
     (0, False), (0, False)], ax_last = True\<rparr>"

lemma checksum_accepted_witness:
  "\<exists>xs. csf_sums ((two_complement_subchecksums ^^ 1) (cs_ex sum_word)) = [xs]
    \<and> toe_check_ipv4_checksum ([xs], []) = ([], [True])"
proof -
  let ?bs = "[0x45, 0x00, 0xBA, 0xFF] :: byte list"
  have "packet (2 * 4) [sum_word] ?bs" by (simp add: packet_single sum_word_def eval_nat_numeral)
  moreover have "ones_sum (be_words ?bs) = 65535" by (simp add: ones_sum_def ones_add_def)
  ultimately show ?thesis
    using checksum_accepted[of "cs_ex sum_word" 4 "[sum_word]" ?bs "[]" "[]" "[]"]
    by (auto simp: cs_ex_def tree_width_def simp del: funpow.simps be_words.simps)
qed

end
