(* ===== verification/Segment_Check.thy ===== *)
theory Segment_Check
  imports Header_Round_Trip Rx_Ip Checksum
begin

text \<open>
  The checksum of a segment from one end to the other: \<open>insert_checksum\<close> (\<^verbatim>\<open>toe/tx_engine/tx_engine.cpp\<close>) puts it at
  its place in the TCP header, the receiver rebuilds the pseudo header from the IPv4 header
  (\<^verbatim>\<open>toe/rx_engine/rx_engine.cpp\<close>), and the segment passes its check.
\<close>

subsection \<open>A byte of a packet is changed\<close>

lemma set_byte_first:
  assumes "packet W (w # ws) bs" and "j < W" and "j < length bs"
  shows "packet W (set_byte j b w # ws) (bs[j := b])"
proof (cases "ws = []")
  case True
  have len: "length (ax_lanes w) = W" using assms(1) by (rule packet_lanes)
  have p: "ax_last w" "bs \<noteq> []" "length bs \<le> W" "take (length bs) (ax_lanes w) = map (\<lambda>b. (b, True)) bs"
    "map snd (drop (length bs) (ax_lanes w)) = replicate (W - length bs) False"
    using assms(1) True by (simp_all add: packet_single)
  have "snd (ax_lanes w ! j)" using packet_keep[OF assms(1,2)] assms(3) by (simp add: keep_at_def)
  then have "take (length bs) (ax_lanes (set_byte j b w)) = map (\<lambda>b. (b, True)) (bs[j := b])"
    using p(4) by (simp add: set_byte_def take_update_swap map_update)
  moreover have "drop (length bs) (ax_lanes (set_byte j b w)) = drop (length bs) (ax_lanes w)"
    using assms(3) by (simp add: set_byte_def drop_update_cancel)
  ultimately show ?thesis using True p by (simp add: packet_single set_byte_def)
next
  case False
  then have p: "\<not> ax_last w" "W < length bs" "ax_lanes w = map (\<lambda>b. (b, True)) (take W bs)" "packet W ws (drop W bs)"
    using assms(1) by (simp_all add: packet_cons)
  have "ax_lanes (set_byte j b w) = map (\<lambda>b. (b, True)) (take W (bs[j := b]))"
    using p(2,3) assms(2) by (simp add: set_byte_def take_update_swap map_update)
  moreover have "drop W (bs[j := b]) = drop W bs" using assms(2) by (simp add: drop_update_cancel)
  ultimately show ?thesis using False p assms(2) by (simp add: packet_cons set_byte_def)
qed

lemma set_byte_packet:
  "packet W ws bs \<Longrightarrow> i < length ws \<Longrightarrow> j < W \<Longrightarrow> W * i + j < length bs
    \<Longrightarrow> packet W (ws[i := set_byte j b (ws ! i)]) (bs[W * i + j := b])"
proof (induction i arbitrary: ws bs)
  case 0
  then show ?case using set_byte_first by (cases ws) auto
next
  case (Suc i)
  then obtain w ws' where ws: "ws = w # ws'" by (cases ws) auto
  then have ws: "ws = w # ws'" "ws' \<noteq> []" using Suc.prems(2) by auto
  have p: "\<not> ax_last w" "W < length bs" "ax_lanes w = map (\<lambda>b. (b, True)) (take W bs)" "packet W ws' (drop W bs)"
    using Suc.prems(1) ws by (simp_all add: packet_cons)
  have "packet W (ws'[i := set_byte j b (ws' ! i)]) ((drop W bs)[W * i + j := b])"
    by (rule Suc.IH[OF p(4)]) (use Suc.prems ws in simp_all)
  moreover have "(drop W bs)[W * i + j := b] = drop W (bs[W * Suc i + j := b])"
    by (simp add: drop_update_swap algebra_simps)
  ultimately show ?case using ws p by (simp add: packet_cons take_update_cancel)
qed

lemma put_checksum_bytes:
  "put_checksum W c w = (let k = (if 128 < 8 * W then 16 else 0) in
     set_byte (k + 1) (range_get 7 0 c) (set_byte k (range_get 15 8 c) w))"
proof -
  have "(range_get 7 0 (reverse16 c) :: byte) = range_get 15 8 c" "(range_get 15 8 (reverse16 c) :: byte) = range_get 7 0 c"
    by (rule bit_word_eqI, auto simp: reverse16_def bit_range_get bit_range_set)+
  then show ?thesis by (simp add: put_checksum_def Let_def)
qed

subsection \<open>The checksum is put into the header\<close>

definition ic_start :: "nat \<Rightarrow> 2 word" where
  "ic_start W = (if 128 < 8 * W then 1 else 0)"

lemma ic_rest:
  assumes "packet W ws bs" and "ic_state s = 2" and "icf_in s = ws @ rest"
  shows "(insert_checksum W ^^ length ws) s = s\<lparr>ic_state := ic_start W, icf_in := rest, icf_out := icf_out s @ ws\<rparr>"
  using assms
proof (induction ws arbitrary: s bs)
  case (Cons w ws)
  define u where "u = insert_checksum W s"
  have u: "u = s\<lparr>ic_state := (if ax_last w then ic_start W else 2), icf_in := ws @ rest, icf_out := icf_out s @ [w]\<rparr>"
    using Cons.prems by (simp add: u_def insert_checksum_def ic_start_def Let_def)
  have run: "(insert_checksum W ^^ length (w # ws)) s = (insert_checksum W ^^ length ws) u"
    by (simp add: funpow_Suc_right u_def del: funpow.simps)
  show ?case
  proof (cases "ws = []")
    case True
    then have "ax_last w" using Cons.prems(1) by (simp add: packet_single)
    then show ?thesis using True u unfolding run by simp
  next
    case False
    then have p: "\<not> ax_last w" "packet W ws (drop W bs)" using Cons.prems(1) by (simp_all add: packet_cons)
    have "(insert_checksum W ^^ length ws) u = u\<lparr>ic_state := ic_start W, icf_in := rest, icf_out := icf_out u @ ws\<rparr>"
      by (rule Cons.IH[OF p(2)]) (use u p(1) in simp_all)
    then show ?thesis unfolding run using u p(1) by simp
  qed
qed simp

text \<open>The word with the checksum, and what follows it.\<close>

lemma ic_put:
  assumes "ic_state s = 1" and "icf_checksum s = c # cs" and "icf_in s = (w # ws) @ rest" and "packet W (w # ws) bs"
  shows "(insert_checksum W ^^ length (w # ws)) s = s\<lparr>ic_state := ic_start W, icf_checksum := cs, icf_in := rest,
     icf_out := icf_out s @ put_checksum W c w # ws\<rparr>"
proof -
  define u where "u = insert_checksum W s"
  have last: "ax_last (put_checksum W c w) = ax_last w" by (simp add: put_checksum_def set_byte_def Let_def)
  have u: "u = s\<lparr>icf_checksum := cs, icf_in := ws @ rest, icf_out := icf_out s @ [put_checksum W c w],
      ic_state := (if ax_last w then ic_start W else 2)\<rparr>"
    using assms(1-3) last by (simp add: u_def insert_checksum_def ic_start_def Let_def)
  have run: "(insert_checksum W ^^ length (w # ws)) s = (insert_checksum W ^^ length ws) u"
    by (simp add: funpow_Suc_right u_def del: funpow.simps)
  show ?thesis
  proof (cases "ws = []")
    case True
    then have "ax_last w" using assms(4) by (simp add: packet_single)
    then show ?thesis using True u unfolding run by simp
  next
    case False
    then have "\<not> ax_last w" "packet W ws (drop W bs)" using assms(4) by (simp_all add: packet_cons)
    then show ?thesis unfolding run using ic_rest[of W ws "drop W bs" u rest] u by simp
  qed
qed

text \<open>On the two narrow streams some words go by before.\<close>

lemma ic_before:
  assumes "W = 8 \<or> W = 16" and "ic_state s = 0" and "ic_wordCount s = 0" and "icf_in s = fs @ hs" and "length fs = 16 div W"
  shows "(insert_checksum W ^^ length fs) s = s\<lparr>ic_state := 1, icf_in := hs, icf_out := icf_out s @ fs\<rparr>"
proof (cases "W = 8")
  case True
  then obtain f g where fs: "fs = [f, g]" using assms(5) by (auto simp: length_Suc_conv numeral_2_eq_2)
  define u where "u = insert_checksum W s"
  have u: "u = s\<lparr>icf_in := g # hs, icf_out := icf_out s @ [f], ic_wordCount := 1\<rparr>"
    using assms(2-4) True fs by (simp add: u_def insert_checksum_def Let_def)
  have "insert_checksum W u = u\<lparr>icf_in := hs, icf_out := icf_out u @ [g], ic_wordCount := 0, ic_state := 1\<rparr>"
    using u True assms(2) by (simp add: insert_checksum_def Let_def)
  then have "(insert_checksum W ^^ length fs) s = u\<lparr>icf_in := hs, icf_out := icf_out u @ [g], ic_wordCount := 0, ic_state := 1\<rparr>"
    using fs by (simp add: numeral_2_eq_2 u_def)
  then show ?thesis using u assms(3) fs by simp
next
  case False
  then obtain f where fs: "fs = [f]" using assms(1,5) by (auto simp: length_Suc_conv)
  then show ?thesis using assms(1-4) False by (simp add: insert_checksum_def Let_def)
qed

lemma ic_packet:
  assumes "W \<in> {8, 16, 32, 64}" and "packet W ws bs" and "18 \<le> length bs" and "ic_state s = ic_start W" and "ic_wordCount s = 0"
    and "icf_checksum s = c # cs" and "icf_in s = ws @ rest"
  shows "\<exists>out. packet W out (bs[16 := range_get 15 8 c, 17 := range_get 7 0 c])
    \<and> (insert_checksum W ^^ length ws) s
      = s\<lparr>ic_state := ic_start W, icf_checksum := cs, icf_in := rest, icf_out := icf_out s @ out\<rparr>"
proof -
  define q where "q = (if 16 < W then 0 else 16 div W)"
  define k where "k = (if 128 < 8 * W then 16 else 0 :: nat)"
  have q: "W * q + k = 16" "k + 1 < W" using assms(1) by (auto simp: q_def k_def)
  have len: "q < length ws" by (rule packet_longer[OF assms(2)]) (use q assms(3) in simp)
  have d: "ws = take q ws @ ws ! q # drop (Suc q) ws" using len by (simp add: id_take_nth_drop)
  have p: "packet W (ws ! q # drop (Suc q) ws) (drop (W * q) bs)"
    using packet_drop[OF assms(2) len] len by (simp add: Cons_nth_drop_Suc)
  define s1 where "s1 = (insert_checksum W ^^ q) s"
  have s1: "s1 = s\<lparr>ic_state := 1, icf_in := (ws ! q # drop (Suc q) ws) @ rest, icf_out := icf_out s @ take q ws\<rparr>"
  proof (cases "16 < W")
    case True
    then have "q = 0" "ic_state s = 1" using assms(4) by (simp_all add: q_def ic_start_def)
    then show ?thesis using assms(7) d by (simp add: s1_def)
  next
    case False
    then have W: "W = 8 \<or> W = 16" using assms(1) by auto
    have "length (take q ws) = q" "q = 16 div W" using len False by (simp_all add: q_def)
    moreover have "icf_in s = take q ws @ (ws ! q # drop (Suc q) ws) @ rest" using assms(7) d by (metis append.assoc)
    ultimately show ?thesis
      using ic_before[OF W _ assms(5), of "take q ws" "(ws ! q # drop (Suc q) ws) @ rest"] assms(4) W
      by (auto simp: s1_def ic_start_def)
  qed
  define out where "out = ws[q := put_checksum W c (ws ! q)]"
  have out: "out = take q ws @ put_checksum W c (ws ! q) # drop (Suc q) ws" using len by (simp add: out_def upd_conv_take_nth_drop)
  have "(insert_checksum W ^^ length (ws ! q # drop (Suc q) ws)) s1
      = s1\<lparr>ic_state := ic_start W, icf_checksum := cs, icf_in := rest,
           icf_out := icf_out s1 @ put_checksum W c (ws ! q) # drop (Suc q) ws\<rparr>"
    by (rule ic_put[OF _ _ _ p]) (use s1 assms(6) in simp_all)
  moreover have "length ws = length (ws ! q # drop (Suc q) ws) + q" using len by simp
  then have "(insert_checksum W ^^ length ws) s = (insert_checksum W ^^ length (ws ! q # drop (Suc q) ws)) s1"
    unfolding s1_def by (simp only: funpow_add comp_apply)
  ultimately have run: "(insert_checksum W ^^ length ws) s
      = s\<lparr>ic_state := ic_start W, icf_checksum := cs, icf_in := rest, icf_out := icf_out s @ out\<rparr>"
    using s1 out by simp
  have "packet W (ws[q := set_byte k (range_get 15 8 c) (ws ! q)]) (bs[W * q + k := range_get 15 8 c])"
    by (rule set_byte_packet[OF assms(2) len]) (use q assms(3) in simp_all)
  then have "packet W ((ws[q := set_byte k (range_get 15 8 c) (ws ! q)])
       [q := set_byte (k + 1) (range_get 7 0 c) ((ws[q := set_byte k (range_get 15 8 c) (ws ! q)]) ! q)])
      ((bs[W * q + k := range_get 15 8 c])[W * q + (k + 1) := range_get 7 0 c])"
    by (rule set_byte_packet) (use q len assms(3) in simp_all)
  moreover have "W * q + (k + 1) = 17" using q(1) by simp
  ultimately have "packet W out (bs[16 := range_get 15 8 c, 17 := range_get 7 0 c])"
    using len q(1) by (simp add: out_def put_checksum_bytes Let_def k_def)
  then show ?thesis using run by blast
qed

subsection \<open>The pseudo headers of both ends\<close>

text \<open>The IPv4 header in front of a segment; the constants of a header object are those its constructor has set.\<close>

definition sent_ip :: "tx_engine_meta \<Rightarrow> fourTuple \<Rightarrow> 160 word \<Rightarrow> 160 word" where
  "sent_ip m t h = gi_fill (txm_length m) \<lparr>tw_srcIp = ft_srcIp t, tw_dstIp = ft_dstIp t\<rparr> (ip_init h)"

lemma sent_ip_meta:
  "ip_meta (sent_ip m t h) = \<lparr>pm_their_address = ft_srcIp t, pm_our_address = ft_dstIp t, pm_length = txm_length m + 20\<rparr>"
proof -
  have "ip_getHeaderLength (sent_ip m t h) = ip_getHeaderLength (ip_init h)"
    by (rule bit_word_eqI) (simp add: sent_ip_def gi_fill_def set_fields get_fields bit_range_get bit_range_set)
  also have "ip_getHeaderLength (ip_init h) = 5"
  proof (rule bit_word_eqI)
    fix n assume "n < LENGTH(4)"
    then have "n = 0 \<or> n = 1 \<or> n = 2 \<or> n = 3" by auto
    then show "bit (ip_getHeaderLength (ip_init h)) n \<longleftrightarrow> bit (5 :: 4 word) n"
      by (elim disjE) (simp_all add: ip_init_def get_fields set_fields bit_range_get bit_range_set)
  qed
  finally show ?thesis
    by (simp add: ip_meta_def) (simp add: sent_ip_def gi_fill_def set_fields get_fields read_field ip_init_def)
qed

lemma pseudo_bit:
  assumes "p < 96"
  shows "bit (ch_fill \<lparr>pm_their_address = ft_srcIp t, pm_our_address = ft_dstIp t, pm_length = txm_length m + 20\<rparr> (pseudo_init f)) p
    = bit (pc_fill m t (full_init h)) p"
  using assms
  by (simp add: ch_fill_def pc_fill_def pseudo_init_def full_init_def set_fields bit_range_set bit_put_flag)

lemma pseudo_agrees:
  "header_bytes (ch_fill (ip_meta (sent_ip m t g)) (pseudo_init f)) = take 12 (header_bytes (pc_fill m t (full_init h)))"
proof (rule nth_equalityI)
  fix j assume "j < length (header_bytes (ch_fill (ip_meta (sent_ip m t g)) (pseudo_init f)))"
  then have j: "j < 12" by simp
  have "bit (header_bytes (ch_fill (ip_meta (sent_ip m t g)) (pseudo_init f)) ! j) k
      = bit (header_bytes (pc_fill m t (full_init h)) ! j) k" if "k < 8" for k
    using that j pseudo_bit[of "8 * j + k" t m f h]
    by (simp add: header_bytes_nth sent_ip_meta bit_simps)
  then show "header_bytes (ch_fill (ip_meta (sent_ip m t g)) (pseudo_init f)) ! j = take 12 (header_bytes (pc_fill m t (full_init h))) ! j"
    using j by (intro bit_word_eqI) simp
qed simp

lemma checksum_zero:
  assumes "j = 28 \<or> j = 29"
  shows "header_bytes (pc_fill m t h) ! j = 0"
proof -
  have "\<not> bit (pc_fill m t h) p" if "224 \<le> p" "p < 240" for p
    using that by (simp add: pc_fill_def setChecksum_def bit_range_set)
  then show ?thesis using assms by (auto simp: header_bytes_nth bit_simps intro!: bit_word_eqI)
qed

text \<open>The bytes of a segment with its pseudo header, the checksum still zero; what is sent of it.\<close>

definition sum_bytes :: "tx_engine_meta \<Rightarrow> fourTuple \<Rightarrow> 256 word \<Rightarrow> byte list \<Rightarrow> byte list" where
  "sum_bytes m t h tail = header_bytes (pc_fill m t (full_init h)) @ tail"

definition sent_bytes :: "tx_engine_meta \<Rightarrow> fourTuple \<Rightarrow> 256 word \<Rightarrow> byte list \<Rightarrow> byte list" where
  "sent_bytes m t h tail = (let c = internet_checksum (sum_bytes m t h tail) in
     (drop 12 (sum_bytes m t h tail))[16 := range_get 15 8 c, 17 := range_get 7 0 c])"

lemma received_bytes:
  assumes "bs = sum_bytes m t h tail" and "c = internet_checksum bs"
  shows "take 12 bs @ sent_bytes m t h tail = take 28 bs @ [range_get 15 8 c, range_get 7 0 c] @ drop 30 bs"
    and "bs = take 28 bs @ [0, 0] @ drop 30 bs"
proof -
  have len: "32 \<le> length bs" by (simp add: assms(1) sum_bytes_def)
  show "take 12 bs @ sent_bytes m t h tail = take 28 bs @ [range_get 15 8 c, range_get 7 0 c] @ drop 30 bs"
    using len by (intro nth_equalityI)
      (auto simp: sent_bytes_def Let_def nth_append nth_list_update nth_Cons' assms(2) simp flip: assms(1))
  have "bs ! 28 = 0" "bs ! 29 = 0" using checksum_zero[of _ m t "full_init h"] by (simp_all add: assms(1) sum_bytes_def nth_append)
  then show "bs = take 28 bs @ [0, 0] @ drop 30 bs"
    using len by (intro nth_equalityI) (auto simp: nth_append nth_Cons' le_Suc_eq not_less dest: le_antisym)
qed

text \<open>C25. A segment passes the check of the receiver: the checksum of the pseudo header, the TCP header and the payload goes into
  the header that is sent, the receiver rebuilds the pseudo header from the addresses and the length in the IPv4
  header, and the sum over what it has then is right, on every width of the stream and for every payload.\<close>

theorem segment_accepted:
  assumes "W \<in> {8, 16, 32, 64}" and "packet W ws (drop 12 (sum_bytes m t h tail))"
    and "ic_state s = ic_start W" and "ic_wordCount s = 0" and "icf_in s = ws"
    and "icf_checksum s = [internet_checksum (sum_bytes m t h tail)]"
    and "packet W rs (header_bytes (ch_fill (ip_meta (sent_ip m t g)) (pseudo_init f)) @ sent_bytes m t h tail)"
    and "cs_sums r = replicate (W div 2) 0" and "csf_in r = rs" and "csf_sums r = []"
  shows "\<exists>out xs. icf_out ((insert_checksum W ^^ length ws) s) = icf_out s @ out \<and> packet W out (sent_bytes m t h tail)
    \<and> csf_sums ((two_complement_subchecksums ^^ length rs) r) = [xs] \<and> toe_check_ipv4_checksum ([xs], []) = ([], [True])"
proof -
  define bs where "bs = sum_bytes m t h tail"
  define c where "c = internet_checksum bs"
  have len: "32 \<le> length bs" by (simp add: bs_def sum_bytes_def)
  have len12: "18 \<le> length (drop 12 bs)" using len by simp
  obtain out where out: "packet W out ((drop 12 bs)[16 := range_get 15 8 c, 17 := range_get 7 0 c])"
    "icf_out ((insert_checksum W ^^ length ws) s) = icf_out s @ out"
    using ic_packet[OF assms(1,2) len12[unfolded bs_def] assms(3,4,6), of "[]"] assms(5) by (auto simp: bs_def c_def)
  have sent: "packet W out (sent_bytes m t h tail)"
    using out(1) by (simp add: sent_bytes_def Let_def bs_def c_def)
  have pseudo: "header_bytes (ch_fill (ip_meta (sent_ip m t g)) (pseudo_init f)) = take 12 bs"
    by (simp add: bs_def sum_bytes_def pseudo_agrees)
  have rec: "take 12 bs @ sent_bytes m t h tail = take 28 bs @ [range_get 15 8 c, range_get 7 0 c] @ drop 30 bs"
    and zero: "bs = take 28 bs @ [0, 0] @ drop 30 bs" by (rule received_bytes[OF bs_def c_def])+
  have "c = internet_checksum (take 28 bs @ [0, 0] @ drop 30 bs)" using zero c_def by simp
  then have "ones_sum (be_words (take 12 bs @ sent_bytes m t h tail)) = 65535"
    unfolding rec using len by (intro checksummed_sum[of _ "take 28 bs" "drop 30 bs"]) simp_all
  moreover have "tree_width (W div 2)" "2 * (W div 2) = W" using assms(1) by (auto simp: tree_width_def)
  ultimately obtain xs where "csf_sums ((two_complement_subchecksums ^^ length rs) r) = [xs]"
    "toe_check_ipv4_checksum ([xs], []) = ([], [True])"
    using check_sums[of r "W div 2" rs "take 12 bs @ sent_bytes m t h tail" "[]"] assms(7-10) by (auto simp: pseudo)
  then show ?thesis using out(2) sent by blast
qed

text \<open>A packet with given bytes.\<close>

function words_of_bytes :: "nat \<Rightarrow> byte list \<Rightarrow> net_axis list" where
  "words_of_bytes W bs = (if length bs \<le> W \<or> W = 0
     then [\<lparr>ax_lanes = map (\<lambda>b. (b, True)) bs @ replicate (W - length bs) (0, False), ax_last = True\<rparr>]
     else \<lparr>ax_lanes = map (\<lambda>b. (b, True)) (take W bs), ax_last = False\<rparr> # words_of_bytes W (drop W bs))"
  by pat_completeness auto
termination by (relation "measure (\<lambda>(W, bs). length bs)") auto

declare words_of_bytes.simps [simp del]

lemma words_of_bytes_packet: "W > 0 \<Longrightarrow> bs \<noteq> [] \<Longrightarrow> packet W (words_of_bytes W bs) bs"
proof (induction W bs rule: words_of_bytes.induct)
  case (1 W bs)
  show ?case
  proof (cases "length bs \<le> W")
    case True
    then show ?thesis using "1.prems" by (subst words_of_bytes.simps) (simp add: packet_single)
  next
    case False
    then have "packet W (words_of_bytes W (drop W bs)) (drop W bs)" using 1 by auto
    moreover from this have "words_of_bytes W (drop W bs) \<noteq> []" by (cases "words_of_bytes W (drop W bs)") auto
    ultimately show ?thesis using False "1.prems" by (subst words_of_bytes.simps) (simp add: packet_cons)
  qed
qed

definition ic_demo :: ic_st where
  "ic_demo = \<lparr>ic_state = 1, ic_wordCount = 0, icf_checksum = [internet_checksum (sum_bytes demo_meta demo_tuple 0 [1, 2, 3])],
     icf_in = words_of_bytes 64 (drop 12 (sum_bytes demo_meta demo_tuple 0 [1, 2, 3])), icf_out = []\<rparr>"

definition cs_demo :: cs_st where
  "cs_demo = \<lparr>cs_sums = replicate 32 0, csf_in = words_of_bytes 64 (header_bytes (ch_fill (ip_meta
     (sent_ip demo_meta demo_tuple 0)) (pseudo_init 0)) @ sent_bytes demo_meta demo_tuple 0 [1, 2, 3]), csf_out = [], csf_sums = []\<rparr>"

lemma segment_accepted_witness:
  "\<exists>out xs. icf_out ((insert_checksum 64 ^^ length (icf_in ic_demo)) ic_demo) = out
    \<and> packet 64 out (sent_bytes demo_meta demo_tuple 0 [1, 2, 3])
    \<and> csf_sums ((two_complement_subchecksums ^^ length (csf_in cs_demo)) cs_demo) = [xs]
    \<and> toe_check_ipv4_checksum ([xs], []) = ([], [True])"
proof -
  have "packet 64 (icf_in ic_demo) (drop 12 (sum_bytes demo_meta demo_tuple 0 [1, 2, 3]))"
    unfolding ic_demo_def ic_st.select_convs by (rule words_of_bytes_packet) (simp_all add: sum_bytes_def)
  moreover have "packet 64 (csf_in cs_demo) (header_bytes (ch_fill (ip_meta (sent_ip demo_meta demo_tuple 0)) (pseudo_init 0))
      @ sent_bytes demo_meta demo_tuple 0 [1, 2, 3])"
    unfolding cs_demo_def cs_st.select_convs by (rule words_of_bytes_packet) (simp_all add: sent_bytes_def sum_bytes_def Let_def)
  ultimately show ?thesis
    using segment_accepted[of 64 "icf_in ic_demo" demo_meta demo_tuple 0 "[1, 2, 3]" ic_demo "csf_in cs_demo" 0 0 cs_demo]
    by (simp add: ic_demo_def cs_demo_def ic_start_def)
qed

end
