(* ===== verification/Linked_Cells.thy ===== *)
theory Linked_Cells
  imports Toe_Prelude
begin

text \<open>
  Linked cells in a table, as the multi queue and the retransmitter of the RoCE engine
  (\<^verbatim>\<open>ib_transport_protocol/multi_queue\<close>, \<^verbatim>\<open>ib_transport_protocol/retransmitter\<close>) keep them: a cell is valid or
  not, it is the tail of its list or has a next cell. \<open>chain m h is\<close> says that the list that starts at cell \<open>h\<close> of the
  table \<open>m\<close> runs through the cells \<open>is\<close>.
\<close>

record link =
  ln_valid :: bool
  ln_isTail :: bool
  ln_next :: u16

fun chain :: "(u16 \<Rightarrow> link) \<Rightarrow> u16 \<Rightarrow> u16 list \<Rightarrow> bool" where
  "chain m h [] \<longleftrightarrow> False"
| "chain m h (i # is) \<longleftrightarrow> i = h \<and> ln_valid (m i)
     \<and> (if is = [] then ln_isTail (m i) else \<not> ln_isTail (m i) \<and> chain m (ln_next (m i)) is)"

lemma chain_cong: "\<forall>i \<in> set is. m' i = m i \<Longrightarrow> chain m' h is = chain m h is"
  by (induction "is" arbitrary: h) auto

lemma chain_head: "chain m h is \<Longrightarrow> \<exists>is'. is = h # is'"
  by (cases "is") auto

lemma chain_valid: "chain m h is \<Longrightarrow> i \<in> set is \<Longrightarrow> ln_valid (m i)"
  by (induction "is" arbitrary: h) (auto split: if_splits)

lemma chain_last: "chain m h is \<Longrightarrow> ln_isTail (m (last is))"
  by (induction "is" arbitrary: h) (auto split: if_splits)

lemma chain_append:
  assumes "chain m h is" and "distinct is" and "n \<notin> set is" and "ln_valid e" and "ln_isTail e"
    and "m' n = e" and "m' (last is) = (m (last is))\<lparr>ln_isTail := False, ln_next := n\<rparr>"
    and "\<forall>i \<in> set is. i \<noteq> last is \<longrightarrow> m' i = m i"
  shows "chain m' h (is @ [n])"
  using assms
proof (induction "is" arbitrary: h)
  case (Cons i "is")
  show ?case
  proof (cases "is = []")
    case True
    then show ?thesis using Cons.prems by auto
  next
    case False
    then have "chain m (ln_next (m i)) is" "\<not> ln_isTail (m i)" "i = h" "ln_valid (m i)" using Cons.prems(1) by auto
    moreover have "i \<noteq> last is" using Cons.prems(2) False by auto
    then have "m' i = m i" using Cons.prems(8) False by simp
    ultimately show ?thesis using Cons.IH[of "ln_next (m i)"] Cons.prems False by simp
  qed
qed simp

lemma chain_rest:
  assumes "chain m h (i # is)"
  shows "ln_isTail (m i) \<longleftrightarrow> is = []" and "is \<noteq> [] \<Longrightarrow> chain m (ln_next (m i)) is"
  using assms by (auto split: if_splits)

end
