(* ===== verification/Multi_Queue.thy ===== *)
theory Multi_Queue
  imports Linked_Cells
begin

text \<open>
  The multi queue of the RoCE engine (\<^verbatim>\<open>ib_transport_protocol/multi_queue/multi_queue.hpp\<close>): many FIFO queues, one per
  key, that share one table of linked cells. Four processes work on it: \<open>mq_freelist_handler\<close> keeps the
  free cells, \<open>mq_pointer_table\<close> the head and tail of every queue, with a lock, \<open>mq_meta_table\<close> the cells, and
  \<open>mq_process_requests\<close> pushes and pops by messages to them. The values are of any type \<open>'v\<close>; a member that a
  constructor leaves unassigned has the value of the argument \<open>u\<close>. The arrays are total functions on 16-bit
  numbers.
\<close>

subsection \<open>Messages\<close>

record 'v mqInsertReq =
  mi_key :: u16
  mi_value :: 'v

datatype mqPopOperation = POP | FRONT

record mqPopReq =
  mp_op :: mqPopOperation
  mp_key :: u16

record mqPointerEntry =
  mpe_head :: u16
  mpe_tail :: u16
  mpe_valid :: bool

record 'v mqMetaEntry =
  mqe_value :: 'v
  mqe_next :: u16
  mqe_valid :: bool
  mqe_isTail :: bool

definition mqMetaEntry_of :: "'v mqInsertReq \<Rightarrow> 'v mqMetaEntry" where
  "mqMetaEntry_of e = \<lparr>mqe_value = mi_value e, mqe_next = 0, mqe_valid = True, mqe_isTail = True\<rparr>"

definition mqMetaEntry_next :: "'v mqMetaEntry \<Rightarrow> u16 \<Rightarrow> 'v mqMetaEntry" where
  "mqMetaEntry_next u n = u\<lparr>mqe_next := n\<rparr>"

record 'v mqMetaReq =
  mmr_idx :: u16
  mmr_entry :: "'v mqMetaEntry"
  mmr_write :: bool
  mmr_append :: bool

definition mqMetaReq_read :: "'v mqMetaEntry \<Rightarrow> u16 \<Rightarrow> 'v mqMetaReq" where
  "mqMetaReq_read u i = \<lparr>mmr_idx = i, mmr_entry = u, mmr_write = False, mmr_append = False\<rparr>"

definition mqMetaReq_append :: "'v mqMetaEntry \<Rightarrow> u16 \<Rightarrow> u16 \<Rightarrow> 'v mqMetaReq" where
  "mqMetaReq_append u i n = \<lparr>mmr_idx = i, mmr_entry = mqMetaEntry_next u n, mmr_write = False, mmr_append = True\<rparr>"

definition mqMetaReq_write :: "u16 \<Rightarrow> 'v mqMetaEntry \<Rightarrow> 'v mqMetaReq" where
  "mqMetaReq_write i e = \<lparr>mmr_idx = i, mmr_entry = e, mmr_write = True, mmr_append = False\<rparr>"

record mqPointerReq =
  mpr_key :: u16
  mpr_lock :: bool

definition mqPointerReq_of :: "u16 \<Rightarrow> mqPointerReq" where
  "mqPointerReq_of k = \<lparr>mpr_key = k, mpr_lock = False\<rparr>"

record mqPointerUpdate =
  mpu_key :: u16
  mpu_entry :: mqPointerEntry

subsection \<open>The processes\<close>

datatype mq_fsm = STATE_MAIN | STATE_PUSH | STATE_PUSH_2 | STATE_POP | STATE_POP_2

text \<open>The statics of the four processes and the streams that \<open>multi_queue\<close> connects them with.\<close>

record 'v mq_st =
  mq_ptr_table :: "u16 \<Rightarrow> mqPointerEntry"
  mq_lockedKey :: u16
  mq_isLocked :: bool
  mq_wait :: bool
  mq_request :: mqPointerReq
  mq_freeListCounter :: u16
  mq_meta_tab :: "u16 \<Rightarrow> 'v mqMetaEntry"
  mq_rt_state :: mq_fsm
  mq_newMetaIdx :: u16
  mq_insert :: "'v mqInsertReq"
  mq_popRequest :: mqPopReq
  mq_meta :: "'v mqMetaEntry"
  mq_ptrMeta :: mqPointerEntry
  mqf_push :: "'v mqInsertReq fifo"
  mqf_pop_req :: "mqPopReq fifo"
  mqf_pop_rsp :: "'v fifo"
  mqf_pointerReq :: "mqPointerReq fifo"
  mqf_pointerUpd :: "mqPointerUpdate fifo"
  mqf_pointerRsp :: "mqPointerEntry fifo"
  mqf_metaReq :: "'v mqMetaReq fifo"
  mqf_metaRsp :: "'v mqMetaEntry fifo"
  mqf_freeList :: "u16 fifo"
  mqf_release :: "u16 fifo"

text \<open>The answer to a request that takes the lock, and the three branches of the table.\<close>

definition mq_grant :: "mqPointerReq \<Rightarrow> 'v mq_st \<Rightarrow> 'v mq_st" where
  "mq_grant r s = s\<lparr>mqf_pointerRsp := mqf_pointerRsp s @ [mq_ptr_table s (mpr_key r)], mq_isLocked := True, mq_lockedKey := mpr_key r\<rparr>"

definition mq_pointer_table :: "'v mq_st \<Rightarrow> 'v mq_st" where
  "mq_pointer_table s =
    (if mqf_pointerUpd s \<noteq> [] then
       (let u = hd (mqf_pointerUpd s) in
        s\<lparr>mqf_pointerUpd := tl (mqf_pointerUpd s), mq_ptr_table := (mq_ptr_table s)(mpu_key u := mpu_entry u),
          mq_isLocked := (if mq_lockedKey s = mpu_key u then False else mq_isLocked s)\<rparr>)
     else if mqf_pointerReq s \<noteq> [] \<and> \<not> mq_wait s then
       (let r = hd (mqf_pointerReq s); s = s\<lparr>mqf_pointerReq := tl (mqf_pointerReq s), mq_request := r\<rparr> in
        if mpr_lock r \<and> mq_isLocked s then s\<lparr>mq_wait := True\<rparr>
        else if mpr_lock r then mq_grant r s
        else s\<lparr>mqf_pointerRsp := mqf_pointerRsp s @ [mq_ptr_table s (mpr_key r)]\<rparr>)
     else if mq_wait s then
       (if \<not> mq_isLocked s then (mq_grant (mq_request s) s)\<lparr>mq_wait := False\<rparr> else s)
     else s)"

text \<open>\<open>N\<close> is \<^verbatim>\<open>MULTI_QUEUE_SIZE\<close>; \<open>full\<close> tells whether the stream of free cells is full.\<close>

definition mq_freelist_handler :: "nat \<Rightarrow> bool \<Rightarrow> 'v mq_st \<Rightarrow> 'v mq_st" where
  "mq_freelist_handler N full s =
    (if mqf_release s \<noteq> [] then
       s\<lparr>mqf_freeList := mqf_freeList s @ [hd (mqf_release s)], mqf_release := tl (mqf_release s)\<rparr>
     else if unat (mq_freeListCounter s) < N \<and> \<not> full then
       s\<lparr>mqf_freeList := mqf_freeList s @ [mq_freeListCounter s], mq_freeListCounter := mq_freeListCounter s + 1\<rparr>
     else s)"

definition mq_meta_apply :: "'v mqMetaReq \<Rightarrow> (u16 \<Rightarrow> 'v mqMetaEntry) \<Rightarrow> u16 \<Rightarrow> 'v mqMetaEntry" where
  "mq_meta_apply r m =
    (if mmr_write r then m(mmr_idx r := mmr_entry r)
     else if mmr_append r then m(mmr_idx r := (m (mmr_idx r))\<lparr>mqe_next := mqe_next (mmr_entry r), mqe_isTail := False\<rparr>)
     else m)"

definition mq_meta_table :: "'v mq_st \<Rightarrow> 'v mq_st" where
  "mq_meta_table s =
    (if mqf_metaReq s \<noteq> [] then
       (let r = hd (mqf_metaReq s) in
        s\<lparr>mqf_metaReq := tl (mqf_metaReq s), mq_meta_tab := mq_meta_apply r (mq_meta_tab s),
          mqf_metaRsp := (if mmr_write r \<or> mmr_append r then mqf_metaRsp s
                          else mqf_metaRsp s @ [mq_meta_tab s (mmr_idx r)])\<rparr>)
     else s)"

text \<open>A push with the pointers of its queue, and a pop with its first cell.\<close>

definition mq_do_push :: "'v mqMetaEntry \<Rightarrow> mqPointerEntry \<Rightarrow> 'v mq_st \<Rightarrow> 'v mq_st" where
  "mq_do_push u p s =
    (if \<not> mpe_valid p then
       (let p = p\<lparr>mpe_valid := True, mpe_head := mq_newMetaIdx s, mpe_tail := mq_newMetaIdx s\<rparr> in
        s\<lparr>mq_ptrMeta := p,
          mqf_metaReq := mqf_metaReq s @ [mqMetaReq_write (mq_newMetaIdx s) (mqMetaEntry_of (mq_insert s))],
          mqf_pointerUpd := mqf_pointerUpd s @ [\<lparr>mpu_key = mi_key (mq_insert s), mpu_entry = p\<rparr>],
          mq_rt_state := STATE_MAIN\<rparr>)
     else
       s\<lparr>mqf_metaReq := mqf_metaReq s @ [mqMetaReq_append u (mpe_tail p) (mq_newMetaIdx s)],
         mq_ptrMeta := p\<lparr>mpe_tail := mq_newMetaIdx s\<rparr>, mq_rt_state := STATE_PUSH_2\<rparr>)"

definition mq_do_pop :: "'v mqMetaEntry \<Rightarrow> 'v mq_st \<Rightarrow> 'v mq_st" where
  "mq_do_pop m s =
    (let s = s\<lparr>mq_meta := m, mq_rt_state := STATE_MAIN\<rparr> in
     if mqe_valid m then
       (let s = s\<lparr>mqf_pop_rsp := mqf_pop_rsp s @ [mqe_value m]\<rparr> in
        if mp_op (mq_popRequest s) = POP then
          (let p = (mq_ptrMeta s)\<lparr>mpe_valid := \<not> mqe_isTail m, mpe_head := mqe_next m\<rparr> in
           s\<lparr>mqf_release := mqf_release s @ [mpe_head (mq_ptrMeta s)], mq_ptrMeta := p,
             mqf_pointerUpd := mqf_pointerUpd s @ [\<lparr>mpu_key = mp_key (mq_popRequest s), mpu_entry = p\<rparr>]\<rparr>)
        else s)
     else s)"

definition mq_process_requests :: "'v mqMetaEntry \<Rightarrow> 'v mq_st \<Rightarrow> 'v mq_st" where
  "mq_process_requests u s =
    (case mq_rt_state s of
       STATE_MAIN \<Rightarrow>
         (if mqf_push s \<noteq> [] \<and> mqf_freeList s \<noteq> [] then
            (let i = hd (mqf_push s) in
             s\<lparr>mq_newMetaIdx := hd (mqf_freeList s), mqf_freeList := tl (mqf_freeList s), mq_insert := i, mqf_push := tl (mqf_push s),
               mqf_pointerReq := mqf_pointerReq s @ [\<lparr>mpr_key = mi_key i, mpr_lock = True\<rparr>], mq_rt_state := STATE_PUSH\<rparr>)
          else if mqf_pop_req s \<noteq> [] then
            (let r = hd (mqf_pop_req s) in
             s\<lparr>mq_popRequest := r, mqf_pop_req := tl (mqf_pop_req s),
               mqf_pointerReq := mqf_pointerReq s @ [mqPointerReq_of (mp_key r)], mq_rt_state := STATE_POP\<rparr>)
          else s)
     | STATE_PUSH \<Rightarrow>
         (if mqf_pointerRsp s \<noteq> [] then
            mq_do_push u (hd (mqf_pointerRsp s)) (s\<lparr>mqf_pointerRsp := tl (mqf_pointerRsp s)\<rparr>)
          else s)
     | STATE_PUSH_2 \<Rightarrow>
         s\<lparr>mqf_metaReq := mqf_metaReq s @ [mqMetaReq_write (mq_newMetaIdx s) (mqMetaEntry_of (mq_insert s))],
           mqf_pointerUpd := mqf_pointerUpd s @ [\<lparr>mpu_key = mi_key (mq_insert s), mpu_entry = mq_ptrMeta s\<rparr>],
           mq_rt_state := STATE_MAIN\<rparr>
     | STATE_POP \<Rightarrow>
         (if mqf_pointerRsp s \<noteq> [] then
            (let p = hd (mqf_pointerRsp s); s = s\<lparr>mqf_pointerRsp := tl (mqf_pointerRsp s), mq_ptrMeta := p\<rparr> in
             if mpe_valid p then
               s\<lparr>mqf_metaReq := mqf_metaReq s @ [mqMetaReq_read u (mpe_head p)], mq_rt_state := STATE_POP_2\<rparr>
             else s\<lparr>mq_rt_state := STATE_MAIN\<rparr>)
          else s)
     | STATE_POP_2 \<Rightarrow>
         (if mqf_metaRsp s \<noteq> [] then mq_do_pop (hd (mqf_metaRsp s)) (s\<lparr>mqf_metaRsp := tl (mqf_metaRsp s)\<rparr>)
          else s))"

text \<open>One call of \<open>multi_queue\<close> calls the four in this order.\<close>

definition multi_queue :: "nat \<Rightarrow> bool \<Rightarrow> 'v mqMetaEntry \<Rightarrow> 'v mq_st \<Rightarrow> 'v mq_st" where
  "multi_queue N full u = mq_process_requests u \<circ> mq_meta_table \<circ> mq_pointer_table \<circ> mq_freelist_handler N full"

text \<open>The statics after reset; \<open>v\<close> is a zero of the values.\<close>

definition mq_init :: "'v \<Rightarrow> 'v mq_st" where
  "mq_init v = \<lparr>mq_ptr_table = (\<lambda>_. \<lparr>mpe_head = 0, mpe_tail = 0, mpe_valid = False\<rparr>), mq_lockedKey = 0, mq_isLocked = False,
     mq_wait = False, mq_request = mqPointerReq_of 0, mq_freeListCounter = 0,
     mq_meta_tab = (\<lambda>_. \<lparr>mqe_value = v, mqe_next = 0, mqe_valid = False, mqe_isTail = False\<rparr>), mq_rt_state = STATE_MAIN,
     mq_newMetaIdx = 0, mq_insert = \<lparr>mi_key = 0, mi_value = v\<rparr>, mq_popRequest = \<lparr>mp_op = POP, mp_key = 0\<rparr>,
     mq_meta = \<lparr>mqe_value = v, mqe_next = 0, mqe_valid = False, mqe_isTail = False\<rparr>,
     mq_ptrMeta = \<lparr>mpe_head = 0, mpe_tail = 0, mpe_valid = False\<rparr>, mqf_push = [], mqf_pop_req = [], mqf_pop_rsp = [],
     mqf_pointerReq = [], mqf_pointerUpd = [], mqf_pointerRsp = [], mqf_metaReq = [], mqf_metaRsp = [], mqf_freeList = [],
     mqf_release = []\<rparr>"

subsection \<open>Queues\<close>

text \<open>The specification: a queue for every key, and the answers given.\<close>

datatype 'v qop = Enq u16 'v | Deq u16 | Peek u16

fun q_step :: "'v qop \<Rightarrow> (u16 \<Rightarrow> 'v list) \<times> 'v list \<Rightarrow> (u16 \<Rightarrow> 'v list) \<times> 'v list" where
  "q_step (Enq k v) (q, out) = (q(k := q k @ [v]), out)"
| "q_step (Deq k) (q, out) = (q(k := tl (q k)), out @ take 1 (q k))"
| "q_step (Peek k) (q, out) = (q, out @ take 1 (q k))"

definition q_run :: "'v qop list \<Rightarrow> (u16 \<Rightarrow> 'v list) \<times> 'v list" where
  "q_run ops = fold q_step ops (\<lambda>_. [], [])"

definition push_op :: "'v mqInsertReq \<Rightarrow> 'v qop" where
  "push_op r = Enq (mi_key r) (mi_value r)"

definition pop_op :: "mqPopReq \<Rightarrow> 'v qop" where
  "pop_op r = (if mp_op r = POP then Deq (mp_key r) else Peek (mp_key r))"

fun is_enq :: "'v qop \<Rightarrow> bool" where
  "is_enq (Enq k v) \<longleftrightarrow> True"
| "is_enq _ \<longleftrightarrow> False"

lemma is_enq_ops [simp]: "is_enq (push_op r)" "\<not> is_enq (pop_op p)"
  by (simp_all add: push_op_def pop_op_def)

text \<open>What can happen: a request arrives, or one of the processes is called.\<close>

datatype 'v mq_event = Ask_Push "'v mqInsertReq" | Ask_Pop mqPopReq | Free_List bool | Pointers | Metas | Process "'v mqMetaEntry"

fun mq_exec :: "nat \<Rightarrow> 'v mq_event \<Rightarrow> 'v mq_st \<Rightarrow> 'v mq_st" where
  "mq_exec N (Ask_Push r) s = s\<lparr>mqf_push := mqf_push s @ [r]\<rparr>"
| "mq_exec N (Ask_Pop r) s = s\<lparr>mqf_pop_req := mqf_pop_req s @ [r]\<rparr>"
| "mq_exec N (Free_List full) s = mq_freelist_handler N full s"
| "mq_exec N Pointers s = mq_pointer_table s"
| "mq_exec N Metas s = mq_meta_table s"
| "mq_exec N (Process u) s = mq_process_requests u s"

fun asked_push :: "'v mq_event \<Rightarrow> 'v mqInsertReq list" where
  "asked_push (Ask_Push r) = [r]"
| "asked_push _ = []"

fun asked_pop :: "'v mq_event \<Rightarrow> mqPopReq list" where
  "asked_pop (Ask_Pop r) = [r]"
| "asked_pop _ = []"

text \<open>The request that is under way and has not taken effect.\<close>

definition mq_pushing :: "'v mq_st \<Rightarrow> 'v mqInsertReq list" where
  "mq_pushing s = (if mq_rt_state s = STATE_PUSH then [mq_insert s] else [])"

definition mq_popping :: "'v mq_st \<Rightarrow> mqPopReq list" where
  "mq_popping s = (if mq_rt_state s = STATE_POP \<or> mq_rt_state s = STATE_POP_2 then [mq_popRequest s] else [])"

subsection \<open>The tables with the updates under way\<close>

definition mq_vptr :: "'v mq_st \<Rightarrow> u16 \<Rightarrow> mqPointerEntry" where
  "mq_vptr s = fold (\<lambda>u t. t(mpu_key u := mpu_entry u)) (mqf_pointerUpd s @ (if mq_rt_state s = STATE_PUSH_2
     then [\<lparr>mpu_key = mi_key (mq_insert s), mpu_entry = mq_ptrMeta s\<rparr>] else [])) (mq_ptr_table s)"

definition mq_vmeta :: "'v mq_st \<Rightarrow> u16 \<Rightarrow> 'v mqMetaEntry" where
  "mq_vmeta s = fold mq_meta_apply (mqf_metaReq s @ (if mq_rt_state s = STATE_PUSH_2
     then [mqMetaReq_write (mq_newMetaIdx s) (mqMetaEntry_of (mq_insert s))] else [])) (mq_meta_tab s)"

definition mq_link :: "'v mqMetaEntry \<Rightarrow> link" where
  "mq_link e = \<lparr>ln_valid = mqe_valid e, ln_isTail = mqe_isTail e, ln_next = mqe_next e\<rparr>"

text \<open>The cells \<open>is\<close> hold the queue \<open>vs\<close>.\<close>

definition mq_holds :: "(u16 \<Rightarrow> 'v mqMetaEntry) \<Rightarrow> mqPointerEntry \<Rightarrow> u16 list \<Rightarrow> 'v list \<Rightarrow> bool" where
  "mq_holds m p is vs \<longleftrightarrow>
    (if mpe_valid p then chain (mq_link \<circ> m) (mpe_head p) is \<and> mpe_tail p = last is \<and> map (mqe_value \<circ> m) is = vs
     else is = [] \<and> vs = [])"

text \<open>No cell is in two places.\<close>

definition mq_free :: "'v mq_st \<Rightarrow> u16 list" where
  "mq_free s = mqf_freeList s @ mqf_release s @ (if mq_rt_state s = STATE_PUSH then [mq_newMetaIdx s] else [])"

definition mq_cells :: "nat \<Rightarrow> 'v mq_st \<Rightarrow> (u16 \<Rightarrow> u16 list) \<Rightarrow> bool" where
  "mq_cells N s c \<longleftrightarrow> unat (mq_freeListCounter s) \<le> N \<and> distinct (mq_free s) \<and> (\<forall>i \<in> set (mq_free s). i < mq_freeListCounter s)
     \<and> (\<forall>k. distinct (c k) \<and> (\<forall>i \<in> set (c k). i < mq_freeListCounter s \<and> i \<notin> set (mq_free s)))
     \<and> (\<forall>k k'. k \<noteq> k' \<longrightarrow> set (c k) \<inter> set (c k') = {})"

definition is_read :: "'v mqMetaReq \<Rightarrow> bool" where
  "is_read r \<longleftrightarrow> \<not> mmr_write r \<and> \<not> mmr_append r"

definition mq_quiet :: "'v mq_st \<Rightarrow> bool" where
  "mq_quiet s \<longleftrightarrow> mqf_pointerReq s = [] \<and> \<not> mq_wait s \<and> mqf_pointerRsp s = []"

definition mq_unread :: "'v mq_st \<Rightarrow> bool" where
  "mq_unread s \<longleftrightarrow> (\<forall>r \<in> set (mqf_metaReq s). \<not> is_read r) \<and> mqf_metaRsp s = []"

definition mq_asked :: "u16 \<Rightarrow> 'v mq_st \<Rightarrow> bool" where
  "mq_asked k s \<longleftrightarrow> (\<exists>r. mqf_pointerReq s = [r] \<and> mpr_key r = k \<and> \<not> mq_wait s \<and> mqf_pointerRsp s = [])
     \<or> (mqf_pointerReq s = [] \<and> mq_wait s \<and> mpr_key (mq_request s) = k \<and> mqf_pointerRsp s = [])
     \<or> (mqf_pointerReq s = [] \<and> \<not> mq_wait s \<and> mqf_pointerRsp s = [mq_vptr s k])"

definition mq_reads :: "u16 \<Rightarrow> 'v mq_st \<Rightarrow> bool" where
  "mq_reads i s \<longleftrightarrow> (\<exists>ws r. mqf_metaReq s = ws @ [r] \<and> (\<forall>w \<in> set ws. \<not> is_read w) \<and> is_read r \<and> mmr_idx r = i \<and> mqf_metaRsp s = [])
     \<or> (mqf_metaReq s = [] \<and> mqf_metaRsp s = [mq_vmeta s i])"

definition mq_fsm_ok :: "'v mq_st \<Rightarrow> bool" where
  "mq_fsm_ok s \<longleftrightarrow>
    (case mq_rt_state s of
       STATE_MAIN \<Rightarrow> mq_quiet s \<and> mq_unread s
     | STATE_PUSH \<Rightarrow> mq_asked (mi_key (mq_insert s)) s \<and> mq_unread s
     | STATE_PUSH_2 \<Rightarrow> mq_quiet s \<and> mq_unread s
     | STATE_POP \<Rightarrow> mq_asked (mp_key (mq_popRequest s)) s \<and> mq_unread s
     | STATE_POP_2 \<Rightarrow> mq_quiet s \<and> mq_ptrMeta s = mq_vptr s (mp_key (mq_popRequest s))
         \<and> mpe_valid (mq_vptr s (mp_key (mq_popRequest s))) \<and> mq_reads (mpe_head (mq_vptr s (mp_key (mq_popRequest s)))) s)"

definition mq_inv :: "nat \<Rightarrow> (u16 \<Rightarrow> u16 list) \<Rightarrow> (u16 \<Rightarrow> 'v list) \<Rightarrow> 'v mq_st \<Rightarrow> bool" where
  "mq_inv N c q s \<longleftrightarrow> mq_cells N s c \<and> mq_fsm_ok s \<and> (\<forall>k. mq_holds (mq_vmeta s) (mq_vptr s k) (c k) (q k))"

subsection \<open>The tables are only an implementation of their virtual content\<close>

lemma mq_meta_apply_read [simp]: "is_read r \<Longrightarrow> mq_meta_apply r m = m"
  by (simp add: mq_meta_apply_def is_read_def)

lemma fold_no_reads: "mqf_metaReq s = ws @ [r] \<Longrightarrow> is_read r \<Longrightarrow> mq_rt_state s \<noteq> STATE_PUSH_2
    \<Longrightarrow> mq_vmeta s = fold mq_meta_apply ws (mq_meta_tab s)"
  by (simp add: mq_vmeta_def)

lemma pointer_table_fields [simp]:
  "mq_rt_state (mq_pointer_table s) = mq_rt_state s" "mq_newMetaIdx (mq_pointer_table s) = mq_newMetaIdx s"
  "mq_insert (mq_pointer_table s) = mq_insert s" "mq_popRequest (mq_pointer_table s) = mq_popRequest s"
  "mq_ptrMeta (mq_pointer_table s) = mq_ptrMeta s" "mqf_push (mq_pointer_table s) = mqf_push s"
  "mqf_pop_req (mq_pointer_table s) = mqf_pop_req s" "mqf_pop_rsp (mq_pointer_table s) = mqf_pop_rsp s"
  "mqf_metaReq (mq_pointer_table s) = mqf_metaReq s" "mqf_metaRsp (mq_pointer_table s) = mqf_metaRsp s"
  "mqf_freeList (mq_pointer_table s) = mqf_freeList s" "mqf_release (mq_pointer_table s) = mqf_release s"
  "mq_freeListCounter (mq_pointer_table s) = mq_freeListCounter s" "mq_meta_tab (mq_pointer_table s) = mq_meta_tab s"
  by (simp_all add: mq_pointer_table_def mq_grant_def Let_def)

lemma pointer_table_vptr [simp]: "mq_vptr (mq_pointer_table s) = mq_vptr s"
proof (cases "mqf_pointerUpd s")
  case Nil
  then have "mqf_pointerUpd (mq_pointer_table s) = []" "mq_ptr_table (mq_pointer_table s) = mq_ptr_table s"
    by (simp_all add: mq_pointer_table_def mq_grant_def Let_def)
  then show ?thesis using Nil by (simp add: mq_vptr_def)
next
  case (Cons u us)
  then show ?thesis by (simp add: mq_vptr_def mq_pointer_table_def)
qed

lemma vptr_empty: "mqf_pointerUpd s = [] \<Longrightarrow> mq_rt_state s \<noteq> STATE_PUSH_2 \<Longrightarrow> mq_vptr s = mq_ptr_table s"
  by (simp add: mq_vptr_def)

lemma pointer_table_asked:
  assumes "mq_asked k s" and "mq_rt_state s \<noteq> STATE_PUSH_2"
  shows "mq_asked k (mq_pointer_table s)"
proof (cases "mqf_pointerUpd s")
  case Nil
  note v = vptr_empty[OF Nil assms(2)]
  from assms(1) consider (req) r where "mqf_pointerReq s = [r]" "mpr_key r = k" "\<not> mq_wait s" "mqf_pointerRsp s = []"
    | (wait) "mqf_pointerReq s = []" "mq_wait s" "mpr_key (mq_request s) = k" "mqf_pointerRsp s = []"
    | (rsp) "mqf_pointerReq s = []" "\<not> mq_wait s" "mqf_pointerRsp s = [mq_vptr s k]"
    by (auto simp: mq_asked_def)
  then show ?thesis
  proof cases
    case req
    show ?thesis
    proof (cases "mpr_lock r \<and> mq_isLocked s")
      case True
      then show ?thesis using req Nil by (simp add: mq_asked_def mq_pointer_table_def)
    next
      case False
      then have "mqf_pointerReq (mq_pointer_table s) = []" "\<not> mq_wait (mq_pointer_table s)"
        "mqf_pointerRsp (mq_pointer_table s) = [mq_ptr_table s k]"
        using req Nil by (cases "mpr_lock r"; simp add: mq_pointer_table_def mq_grant_def)+
      then show ?thesis using v by (simp add: mq_asked_def)
    qed
  next
    case wait
    then show ?thesis using Nil v assms(2)
      by (cases "mq_isLocked s") (simp_all add: mq_asked_def mq_pointer_table_def mq_grant_def mq_vptr_def)
  next
    case rsp
    then have "mq_pointer_table s = s" using Nil by (simp add: mq_pointer_table_def)
    then show ?thesis using assms(1) by simp
  qed
next
  case (Cons u us)
  then have "mqf_pointerReq (mq_pointer_table s) = mqf_pointerReq s" "mq_wait (mq_pointer_table s) = mq_wait s"
    "mq_request (mq_pointer_table s) = mq_request s" "mqf_pointerRsp (mq_pointer_table s) = mqf_pointerRsp s"
    by (simp_all add: mq_pointer_table_def Let_def)
  then show ?thesis using assms(1) by (simp add: mq_asked_def)
qed

lemma pointer_table_quiet: "mq_quiet s \<Longrightarrow> mq_quiet (mq_pointer_table s)"
  by (auto simp: mq_quiet_def mq_pointer_table_def Let_def)

lemma pointer_table_meta [simp]:
  "mq_vmeta (mq_pointer_table s) = mq_vmeta s" "mq_unread (mq_pointer_table s) = mq_unread s"
  "mq_reads i (mq_pointer_table s) = mq_reads i s" "mq_free (mq_pointer_table s) = mq_free s"
  by (simp_all add: mq_vmeta_def mq_unread_def mq_reads_def mq_free_def)

lemma mq_inv_pointers: "mq_inv N c q s \<Longrightarrow> mq_inv N c q (mq_pointer_table s)"
  by (cases "mq_rt_state s") (simp_all add: mq_inv_def mq_cells_def mq_fsm_ok_def pointer_table_quiet pointer_table_asked)

lemma meta_table_fields [simp]:
  "mq_rt_state (mq_meta_table s) = mq_rt_state s" "mq_newMetaIdx (mq_meta_table s) = mq_newMetaIdx s"
  "mq_insert (mq_meta_table s) = mq_insert s" "mq_popRequest (mq_meta_table s) = mq_popRequest s"
  "mq_ptrMeta (mq_meta_table s) = mq_ptrMeta s" "mqf_push (mq_meta_table s) = mqf_push s"
  "mqf_pop_req (mq_meta_table s) = mqf_pop_req s" "mqf_pop_rsp (mq_meta_table s) = mqf_pop_rsp s"
  "mqf_freeList (mq_meta_table s) = mqf_freeList s" "mqf_release (mq_meta_table s) = mqf_release s"
  "mq_freeListCounter (mq_meta_table s) = mq_freeListCounter s" "mq_ptr_table (mq_meta_table s) = mq_ptr_table s"
  "mqf_pointerReq (mq_meta_table s) = mqf_pointerReq s" "mqf_pointerUpd (mq_meta_table s) = mqf_pointerUpd s"
  "mqf_pointerRsp (mq_meta_table s) = mqf_pointerRsp s" "mq_wait (mq_meta_table s) = mq_wait s"
  "mq_request (mq_meta_table s) = mq_request s"
  by (simp_all add: mq_meta_table_def Let_def)

lemma meta_table_virtual [simp]:
  "mq_vmeta (mq_meta_table s) = mq_vmeta s" "mq_vptr (mq_meta_table s) = mq_vptr s" "mq_quiet (mq_meta_table s) = mq_quiet s"
  "mq_asked k (mq_meta_table s) = mq_asked k s" "mq_free (mq_meta_table s) = mq_free s"
proof -
  show "mq_vmeta (mq_meta_table s) = mq_vmeta s"
    by (cases "mqf_metaReq s") (simp_all add: mq_vmeta_def, simp_all add: mq_meta_table_def Let_def)
  show v: "mq_vptr (mq_meta_table s) = mq_vptr s" by (simp add: mq_vptr_def)
  show "mq_quiet (mq_meta_table s) = mq_quiet s" "mq_free (mq_meta_table s) = mq_free s"
    by (simp_all add: mq_quiet_def mq_free_def)
  show "mq_asked k (mq_meta_table s) = mq_asked k s" by (simp add: mq_asked_def v)
qed

lemma meta_table_unread: "mq_unread s \<Longrightarrow> mq_unread (mq_meta_table s)"
  by (cases "mqf_metaReq s") (auto simp: mq_unread_def mq_meta_table_def Let_def is_read_def)

lemma meta_table_reads:
  assumes "mq_reads i s" and "mq_rt_state s \<noteq> STATE_PUSH_2"
  shows "mq_reads i (mq_meta_table s)"
proof (cases "mqf_metaReq s = []")
  case True
  then have "mq_meta_table s = s" by (simp add: mq_meta_table_def)
  then show ?thesis using assms(1) by simp
next
  case False
  then obtain ws r where r: "mqf_metaReq s = ws @ [r]" "\<forall>w \<in> set ws. \<not> is_read w" "is_read r" "mmr_idx r = i" "mqf_metaRsp s = []"
    using assms(1) by (auto simp: mq_reads_def)
  show ?thesis
  proof (cases ws)
    case Nil
    then have "mqf_metaReq (mq_meta_table s) = []" "mqf_metaRsp (mq_meta_table s) = [mq_meta_tab s i]"
      using r by (simp_all add: mq_meta_table_def is_read_def)
    then show ?thesis using fold_no_reads[OF r(1,3) assms(2)] Nil by (simp add: mq_reads_def)
  next
    case (Cons w ws')
    then have "mqf_metaReq (mq_meta_table s) = ws' @ [r]" "mqf_metaRsp (mq_meta_table s) = []"
      using r by (simp_all add: mq_meta_table_def is_read_def)
    then show ?thesis using r Cons by (auto simp: mq_reads_def)
  qed
qed

lemma mq_inv_metas: "mq_inv N c q s \<Longrightarrow> mq_inv N c q (mq_meta_table s)"
  by (cases "mq_rt_state s") (auto simp: mq_inv_def mq_cells_def mq_fsm_ok_def meta_table_unread intro: meta_table_reads)

lemma word_less_Suc: "unat (x :: u16) + 1 < 65536 \<Longrightarrow> i < x + 1 \<longleftrightarrow> i < x \<or> i = x"
  by (auto simp: word_less_nat_alt unat_add_mod word_unat_eq_iff)

lemma mq_inv_freelist:
  assumes inv: "mq_inv N c q s" and N: "N < 65536"
  shows "mq_inv N c q (mq_freelist_handler N full s)"
proof -
  define t where "t = mq_freelist_handler N full s"
  have fields: "mq_rt_state t = mq_rt_state s" "mq_newMetaIdx t = mq_newMetaIdx s" "mq_insert t = mq_insert s"
    "mq_popRequest t = mq_popRequest s" "mq_ptrMeta t = mq_ptrMeta s" "mqf_metaReq t = mqf_metaReq s" "mqf_metaRsp t = mqf_metaRsp s"
    "mqf_pointerReq t = mqf_pointerReq s" "mqf_pointerUpd t = mqf_pointerUpd s" "mqf_pointerRsp t = mqf_pointerRsp s"
    "mq_wait t = mq_wait s" "mq_request t = mq_request s" "mq_ptr_table t = mq_ptr_table s" "mq_meta_tab t = mq_meta_tab s"
    by (simp_all add: t_def mq_freelist_handler_def)
  then have v: "mq_vptr t = mq_vptr s" "mq_vmeta t = mq_vmeta s" by (simp_all add: mq_vptr_def mq_vmeta_def)
  then have "mq_fsm_ok t = mq_fsm_ok s"
    by (cases "mq_rt_state s") (simp_all add: mq_fsm_ok_def mq_quiet_def mq_unread_def mq_asked_def mq_reads_def fields)
  moreover have "mq_cells N t c"
  proof -
    have cells: "mq_cells N s c" using inv by (simp add: mq_inv_def)
    have same: "mqf_release s = [] \<Longrightarrow> \<not> (unat (mq_freeListCounter s) < N \<and> \<not> full) \<Longrightarrow> t = s"
      by (simp add: t_def mq_freelist_handler_def)
    consider (rel) "mqf_release s \<noteq> []" | (new) "mqf_release s = []" "unat (mq_freeListCounter s) < N" "\<not> full"
      | (none) "t = s" using same by blast
    then show ?thesis
    proof cases
      case rel
      then have "mq_free t = mq_free s" "mq_freeListCounter t = mq_freeListCounter s"
        by (simp_all add: mq_free_def t_def mq_freelist_handler_def)
      then show ?thesis using cells by (simp add: mq_cells_def)
    next
      case new
      then have t: "mq_free t = mqf_freeList s @ [mq_freeListCounter s] @ (if mq_rt_state s = STATE_PUSH then [mq_newMetaIdx s] else [])"
        "mq_freeListCounter t = mq_freeListCounter s + 1"
        by (simp_all add: mq_free_def t_def mq_freelist_handler_def)
      have f: "mq_free s = mqf_freeList s @ (if mq_rt_state s = STATE_PUSH then [mq_newMetaIdx s] else [])"
        using new by (simp add: mq_free_def)
      have lt: "i < mq_freeListCounter t \<longleftrightarrow> i < mq_freeListCounter s \<or> i = mq_freeListCounter s" for i
        unfolding t(2) by (rule word_less_Suc) (use new N in simp)
      have "unat (mq_freeListCounter t) \<le> N" using new N by (simp add: t(2) unat_add_mod)
      moreover have "set (mq_free t) = insert (mq_freeListCounter s) (set (mq_free s))" by (auto simp: t f)
      moreover have "distinct (mq_free t)" using cells by (auto simp: t f mq_cells_def)
      ultimately show ?thesis using cells by (auto simp: mq_cells_def lt)
    next
      case none
      then show ?thesis using cells by simp
    qed
  qed
  ultimately show ?thesis using inv v by (simp add: mq_inv_def flip: t_def)
qed

subsection \<open>The process takes requests in order\<close>

text \<open>What takes effect when the process is called.\<close>

definition mq_commit :: "'v mq_st \<Rightarrow> 'v qop list" where
  "mq_commit s =
    (if mq_rt_state s = STATE_PUSH \<and> mqf_pointerRsp s \<noteq> [] then [push_op (mq_insert s)]
     else if mq_rt_state s = STATE_POP \<and> mqf_pointerRsp s \<noteq> [] \<and> \<not> mpe_valid (hd (mqf_pointerRsp s)) then [pop_op (mq_popRequest s)]
     else if mq_rt_state s = STATE_POP_2 \<and> mqf_metaRsp s \<noteq> [] then [pop_op (mq_popRequest s)]
     else [])"

definition mq_stepped :: "nat \<Rightarrow> (u16 \<Rightarrow> 'v list) \<Rightarrow> 'v mq_st \<Rightarrow> 'v mq_st \<Rightarrow> bool" where
  "mq_stepped N q s t \<longleftrightarrow> (\<exists>c' q'. mq_inv N c' q' t \<and> fold q_step (mq_commit s) (q, mqf_pop_rsp s) = (q', mqf_pop_rsp t))"

lemma mq_inv_main:
  assumes inv: "mq_inv N c q s" and st: "mq_rt_state s = STATE_MAIN"
  shows "mq_stepped N q s (mq_process_requests u s)"
proof -
  define t where "t = mq_process_requests u s"
  have quiet: "mq_quiet s" "mq_unread s" using inv st by (simp_all add: mq_inv_def mq_fsm_ok_def)
  have same: "\<not> (mqf_push s \<noteq> [] \<and> mqf_freeList s \<noteq> []) \<Longrightarrow> mqf_pop_req s = [] \<Longrightarrow> t = s"
    using st by (auto simp: t_def mq_process_requests_def)
  consider (push) i is' f fs where "mqf_push s = i # is'" "mqf_freeList s = f # fs"
    | (pop) r rs where "\<not> (mqf_push s \<noteq> [] \<and> mqf_freeList s \<noteq> [])" "mqf_pop_req s = r # rs"
    | (idle) "t = s"
    using same by (metis neq_Nil_conv)
  then have "mq_inv N c q t \<and> mqf_pop_rsp t = mqf_pop_rsp s"
  proof cases
    case push
    then have t: "t = s\<lparr>mq_newMetaIdx := f, mqf_freeList := fs, mq_insert := i, mqf_push := is',
        mqf_pointerReq := [\<lparr>mpr_key = mi_key i, mpr_lock = True\<rparr>], mq_rt_state := STATE_PUSH\<rparr>"
      using st quiet by (simp add: t_def mq_process_requests_def Let_def mq_quiet_def)
    then have "mq_vptr t = mq_vptr s" "mq_vmeta t = mq_vmeta s" using st by (simp_all add: mq_vptr_def mq_vmeta_def)
    moreover have "mq_fsm_ok t" using quiet t by (simp add: mq_fsm_ok_def mq_asked_def mq_quiet_def mq_unread_def)
    moreover have "mq_cells N s c" using inv by (simp add: mq_inv_def)
    then have "mq_cells N t c" using push st by (simp add: mq_cells_def t mq_free_def)
    ultimately show ?thesis using inv t by (simp add: mq_inv_def)
  next
    case pop
    then have t: "t = s\<lparr>mq_popRequest := r, mqf_pop_req := rs, mqf_pointerReq := [mqPointerReq_of (mp_key r)], mq_rt_state := STATE_POP\<rparr>"
      using st quiet by (auto simp: t_def mq_process_requests_def Let_def mq_quiet_def)
    then have "mq_vptr t = mq_vptr s" "mq_vmeta t = mq_vmeta s" using st by (simp_all add: mq_vptr_def mq_vmeta_def)
    moreover have "mq_fsm_ok t" using quiet t by (simp add: mq_fsm_ok_def mq_asked_def mq_quiet_def mq_unread_def mqPointerReq_of_def)
    moreover have "mq_cells N t c" using inv st by (simp add: mq_inv_def mq_cells_def t mq_free_def)
    ultimately show ?thesis using inv t by (simp add: mq_inv_def)
  next
    case idle
    then show ?thesis using inv by simp
  qed
  moreover have "mq_commit s = []" using st by (simp add: mq_commit_def)
  ultimately show ?thesis by (auto simp: mq_stepped_def simp flip: t_def)
qed

lemma mq_inv_push2:
  assumes inv: "mq_inv N c q s" and st: "mq_rt_state s = STATE_PUSH_2"
  shows "mq_stepped N q s (mq_process_requests u s)"
proof -
  define t where "t = mq_process_requests u s"
  have t: "t = s\<lparr>mqf_metaReq := mqf_metaReq s @ [mqMetaReq_write (mq_newMetaIdx s) (mqMetaEntry_of (mq_insert s))],
       mqf_pointerUpd := mqf_pointerUpd s @ [\<lparr>mpu_key = mi_key (mq_insert s), mpu_entry = mq_ptrMeta s\<rparr>], mq_rt_state := STATE_MAIN\<rparr>"
    using st by (simp add: t_def mq_process_requests_def)
  then have "mq_vptr t = mq_vptr s" "mq_vmeta t = mq_vmeta s" using st by (simp_all add: mq_vptr_def mq_vmeta_def)
  moreover have "mq_fsm_ok t" using inv st t
    by (auto simp: mq_inv_def mq_fsm_ok_def mq_quiet_def mq_unread_def is_read_def mqMetaReq_write_def)
  moreover have "mq_cells N t c" using inv st by (simp add: mq_inv_def mq_cells_def t mq_free_def)
  ultimately have "mq_inv N c q t" using inv by (simp add: mq_inv_def)
  moreover have "mq_commit s = []" "mqf_pop_rsp t = mqf_pop_rsp s" using st t by (simp_all add: mq_commit_def)
  ultimately show ?thesis by (auto simp: mq_stepped_def simp flip: t_def)
qed

lemma mq_inv_pop:
  assumes inv: "mq_inv N c q s" and st: "mq_rt_state s = STATE_POP"
  shows "mq_stepped N q s (mq_process_requests u s)"
proof -
  define t where "t = mq_process_requests u s"
  define k where "k = mp_key (mq_popRequest s)"
  have asked: "mq_asked k s" "mq_unread s" using inv st by (simp_all add: mq_inv_def mq_fsm_ok_def k_def)
  show ?thesis
  proof (cases "mqf_pointerRsp s")
    case Nil
    then have "t = s" "mq_commit s = []" using st by (simp_all add: t_def mq_process_requests_def mq_commit_def)
    then show ?thesis using inv by (auto simp: mq_stepped_def simp flip: t_def)
  next
    case (Cons p ps)
    then have p: "p = mq_vptr s k" "ps = []" "mqf_pointerReq s = []" "\<not> mq_wait s" using asked(1) by (auto simp: mq_asked_def)
    show ?thesis
    proof (cases "mpe_valid p")
      case True
      then have t: "t = s\<lparr>mqf_pointerRsp := [], mq_ptrMeta := p, mqf_metaReq := mqf_metaReq s @ [mqMetaReq_read u (mpe_head p)],
          mq_rt_state := STATE_POP_2\<rparr>"
        using st Cons p by (simp add: t_def mq_process_requests_def Let_def)
      have "mq_vptr t = mq_vptr s" "mq_vmeta t = mq_vmeta s"
        using st t by (simp_all add: mq_vptr_def mq_vmeta_def is_read_def mqMetaReq_read_def)
      moreover from this have "mq_fsm_ok t" using asked t p True
        by (auto simp: mq_fsm_ok_def mq_quiet_def mq_unread_def mq_reads_def is_read_def mqMetaReq_read_def k_def)
      moreover have "mq_cells N t c" using inv st by (simp add: mq_inv_def mq_cells_def t mq_free_def)
      ultimately have "mq_inv N c q t" using inv by (simp add: mq_inv_def)
      moreover have "mq_commit s = []" "mqf_pop_rsp t = mqf_pop_rsp s" using st t True Cons by (simp_all add: mq_commit_def)
      ultimately show ?thesis by (auto simp: mq_stepped_def simp flip: t_def)
    next
      case False
      then have t: "t = s\<lparr>mqf_pointerRsp := [], mq_ptrMeta := p, mq_rt_state := STATE_MAIN\<rparr>"
        using st Cons p by (simp add: t_def mq_process_requests_def Let_def)
      then have "mq_vptr t = mq_vptr s" "mq_vmeta t = mq_vmeta s" using st by (simp_all add: mq_vptr_def mq_vmeta_def)
      moreover have "mq_fsm_ok t" using asked(2) t p by (simp add: mq_fsm_ok_def mq_quiet_def mq_unread_def)
      moreover have "mq_cells N t c" using inv st by (simp add: mq_inv_def mq_cells_def t mq_free_def)
      ultimately have "mq_inv N c q t" using inv by (simp add: mq_inv_def)
      moreover have "q k = []" using inv False p(1) unfolding mq_inv_def mq_holds_def by metis
      then have "fold q_step (mq_commit s) (q, mqf_pop_rsp s) = (q, mqf_pop_rsp t)"
        using st t False Cons by (auto simp: mq_commit_def pop_op_def k_def)
      ultimately show ?thesis by (auto simp: mq_stepped_def simp flip: t_def)
    qed
  qed
qed

text \<open>A push: the first cell of a queue, or a cell after its tail.\<close>

lemma mq_link_entry [simp]:
  "mq_link (mqMetaEntry_of e) = \<lparr>ln_valid = True, ln_isTail = True, ln_next = 0\<rparr>"
  "mq_link (e'\<lparr>mqe_next := n, mqe_isTail := b\<rparr>) = (mq_link e')\<lparr>ln_isTail := b, ln_next := n\<rparr>"
  by (simp_all add: mq_link_def mqMetaEntry_of_def)

lemma mq_holds_cong: "\<forall>i \<in> set is. m' i = m i \<Longrightarrow> mq_holds m' p is vs = mq_holds m p is vs"
  using chain_cong[of "is" "mq_link \<circ> m'" "mq_link \<circ> m" "mpe_head p"] by (simp add: mq_holds_def cong: map_cong)

lemma mq_holds_first:
  assumes "\<not> mpe_valid p" and "mq_holds m p is vs"
  shows "mq_holds (m(n := mqMetaEntry_of e)) (p\<lparr>mpe_valid := True, mpe_head := n, mpe_tail := n\<rparr>) [n] (vs @ [mi_value e])"
  using assms by (simp add: mq_holds_def) (simp add: mqMetaEntry_of_def)

lemma mq_holds_snoc:
  assumes "mpe_valid p" and h: "mq_holds m p is vs" and d: "distinct is" "n \<notin> set is"
    and m': "m' = m(mpe_tail p := (m (mpe_tail p))\<lparr>mqe_next := n, mqe_isTail := False\<rparr>, n := mqMetaEntry_of e)"
  shows "mq_holds m' (p\<lparr>mpe_tail := n\<rparr>) (is @ [n]) (vs @ [mi_value e])"
proof -
  have c: "chain (mq_link \<circ> m) (mpe_head p) is" "mpe_tail p = last is" "map (mqe_value \<circ> m) is = vs"
    using assms(1) h by (simp_all add: mq_holds_def)
  then have ne: "last is \<in> set is" using chain_head by fastforce
  then have "n \<noteq> last is" using d(2) by auto
  then have "chain (mq_link \<circ> m') (mpe_head p) (is @ [n])"
    by (intro chain_append[OF c(1) d, where e = "\<lparr>ln_valid = True, ln_isTail = True, ln_next = 0\<rparr>"])
      (use d(2) in \<open>auto simp: m' c(2)\<close>)
  moreover have "map (mqe_value \<circ> m') is = map (mqe_value \<circ> m) is" using d(2) by (auto simp: m')
  ultimately show ?thesis using assms(1) c by (simp add: mq_holds_def) (simp add: m' mqMetaEntry_of_def)
qed

lemma mq_cells_disjoint: "mq_cells N s c \<Longrightarrow> k \<noteq> k' \<Longrightarrow> i \<in> set (c k) \<Longrightarrow> i \<notin> set (c k')"
  unfolding mq_cells_def by blast

lemma mq_cells_push:
  assumes "mq_cells N s c" and "mq_rt_state s = STATE_PUSH" and "mq_rt_state t \<noteq> STATE_PUSH"
    and "mqf_freeList t = mqf_freeList s" and "mqf_release t = mqf_release s" and "mq_freeListCounter t = mq_freeListCounter s"
  shows "mq_cells N t (c(k := c k @ [mq_newMetaIdx s]))" and "mq_newMetaIdx s \<notin> set (c j)"
proof -
  have f: "mq_free s = mq_free t @ [mq_newMetaIdx s]" using assms(2-5) by (simp add: mq_free_def)
  show "mq_newMetaIdx s \<notin> set (c j)" using assms(1) by (auto simp: mq_cells_def f)
  show "mq_cells N t (c(k := c k @ [mq_newMetaIdx s]))"
    using assms(1,6) by (auto simp: mq_cells_def f)
qed

lemma mq_inv_push:
  assumes inv: "mq_inv N c q s" and st: "mq_rt_state s = STATE_PUSH"
  shows "mq_stepped N q s (mq_process_requests u s)"
proof -
  define t where "t = mq_process_requests u s"
  define k where "k = mi_key (mq_insert s)"
  define n where "n = mq_newMetaIdx s"
  have asked: "mq_asked k s" "mq_unread s" using inv st by (simp_all add: mq_inv_def mq_fsm_ok_def k_def)
  show ?thesis
  proof (cases "mqf_pointerRsp s")
    case Nil
    then have "t = s" "mq_commit s = []" using st by (simp_all add: t_def mq_process_requests_def mq_commit_def)
    then show ?thesis using inv by (auto simp: mq_stepped_def simp flip: t_def)
  next
    case (Cons p ps)
    then have p: "p = mq_vptr s k" "ps = []" "mqf_pointerReq s = []" "\<not> mq_wait s" using asked(1) by (auto simp: mq_asked_def)
    have t: "t = mq_do_push u p (s\<lparr>mqf_pointerRsp := []\<rparr>)" using st Cons p by (simp add: t_def mq_process_requests_def)
    have same: "mq_rt_state t \<noteq> STATE_PUSH" "mqf_freeList t = mqf_freeList s" "mqf_release t = mqf_release s"
      "mq_freeListCounter t = mq_freeListCounter s" "mqf_pop_rsp t = mqf_pop_rsp s" "mq_fsm_ok t"
      using asked(2) p by (auto simp: t mq_do_push_def Let_def mq_fsm_ok_def mq_quiet_def mq_unread_def is_read_def
          mqMetaReq_write_def mqMetaReq_append_def)
    have holds: "mq_holds (mq_vmeta s) (mq_vptr s j) (c j) (q j)" for j using inv by (simp add: mq_inv_def)
    have cells: "mq_cells N s c" using inv by (simp add: mq_inv_def)
    have fresh: "n \<notin> set (c j)" for j using mq_cells_push(2)[OF cells st same(1-4)] by (simp add: n_def)
    have "mq_holds (mq_vmeta t) (mq_vptr t j) ((c(k := c k @ [n])) j) ((q(k := q k @ [mi_value (mq_insert s)])) j)" for j
    proof (cases "mpe_valid p")
      case False
      define p' where "p' = p\<lparr>mpe_valid := True, mpe_head := n, mpe_tail := n\<rparr>"
      have v: "mq_vptr t = (mq_vptr s)(k := p')" "mq_vmeta t = (mq_vmeta s)(n := mqMetaEntry_of (mq_insert s))"
        using False st by (simp_all add: t mq_do_push_def Let_def mq_vptr_def mq_vmeta_def mqMetaReq_write_def mq_meta_apply_def k_def n_def p'_def)
      have "c k = []" using holds[of k] False p(1) by (simp add: mq_holds_def)
      then show ?thesis
        using mq_holds_first[OF False, of "mq_vmeta s" "c k" "q k" n "mq_insert s"] holds[of j] holds[of k] p(1) fresh[of j]
          mq_holds_cong[of "c j" "mq_vmeta t" "mq_vmeta s" "mq_vptr s j" "q j"]
        by (cases "j = k") (auto simp: v p'_def)
    next
      case True
      define p' where "p' = p\<lparr>mpe_tail := n\<rparr>"
      have v: "mq_vptr t = (mq_vptr s)(k := p')"
        "mq_vmeta t = (mq_vmeta s)(mpe_tail p := (mq_vmeta s (mpe_tail p))\<lparr>mqe_next := n, mqe_isTail := False\<rparr>,
            n := mqMetaEntry_of (mq_insert s))"
        using True st by (simp_all add: t mq_do_push_def mq_vptr_def mq_vmeta_def mqMetaReq_write_def mqMetaReq_append_def
            mqMetaEntry_next_def mq_meta_apply_def k_def n_def p'_def)
      show ?thesis
      proof (cases "j = k")
        case eq: True
        have "distinct (c k)" using cells by (simp add: mq_cells_def)
        then show ?thesis using mq_holds_snoc[OF True _ _ fresh v(2)] holds[of k] eq p(1) by (simp add: v(1) p'_def)
      next
        case ne: False
        have "mpe_tail p \<in> set (c k)"
          using holds[of k] True p(1) chain_head by (fastforce simp: mq_holds_def)
        then have "mpe_tail p \<notin> set (c j)" using mq_cells_disjoint[OF cells, of k j] ne by blast
        then have "\<forall>i \<in> set (c j). mq_vmeta t i = mq_vmeta s i" using fresh[of j] by (auto simp: v(2))
        then show ?thesis using holds[of j] ne mq_holds_cong by (fastforce simp: v(1))
      qed
    qed
    moreover have "mq_cells N t (c(k := c k @ [n]))" using mq_cells_push(1)[OF cells st same(1-4)] by (simp add: n_def)
    ultimately have "mq_inv N (c(k := c k @ [n])) (q(k := q k @ [mi_value (mq_insert s)])) t"
      using same(6) by (simp add: mq_inv_def)
    moreover have "fold q_step (mq_commit s) (q, mqf_pop_rsp s) = (q(k := q k @ [mi_value (mq_insert s)]), mqf_pop_rsp t)"
      using st Cons same(5) by (simp add: mq_commit_def push_op_def k_def)
    ultimately show ?thesis by (auto simp: mq_stepped_def simp flip: t_def)
  qed
qed

lemma mq_holds_pop:
  assumes "mpe_valid p" and "mq_holds m p is vs" and "e = m (mpe_head p)"
  shows "\<exists>is'. is = mpe_head p # is' \<and> mqe_valid e \<and> vs = mqe_value e # tl vs
    \<and> mq_holds m (p\<lparr>mpe_valid := \<not> mqe_isTail e, mpe_head := mqe_next e\<rparr>) is' (tl vs)"
proof -
  have c: "chain (mq_link \<circ> m) (mpe_head p) is" "mpe_tail p = last is" "map (mqe_value \<circ> m) is = vs"
    using assms(1,2) by (simp_all add: mq_holds_def)
  obtain is' where i: "is = mpe_head p # is'" using chain_head[OF c(1)] by blast
  have "mqe_valid e" using chain_valid[OF c(1), of "mpe_head p"] by (simp add: i assms(3) mq_link_def)
  moreover have "mqe_isTail e \<longleftrightarrow> is' = []" "is' \<noteq> [] \<longrightarrow> chain (mq_link \<circ> m) (mqe_next e) is'"
    using chain_rest[OF c(1)[unfolded i]] by (simp_all add: assms(3) mq_link_def)
  moreover have "vs = mqe_value e # map (mqe_value \<circ> m) is'" using c(3) by (simp add: i assms(3) flip: c(3))
  ultimately show ?thesis using i c(2) by (intro exI[of _ is']) (auto simp: mq_holds_def)
qed

lemma mq_cells_pop:
  assumes "mq_cells N s c" and "c k = h # is'" and "mq_rt_state s = STATE_POP_2" and "mq_rt_state t = STATE_MAIN"
    and "mqf_freeList t = mqf_freeList s" and "mqf_release t = mqf_release s @ [h]" and "mq_freeListCounter t = mq_freeListCounter s"
  shows "mq_cells N t (c(k := is'))"
proof -
  have f: "mq_free t = mq_free s @ [h]" using assms(3-6) by (simp add: mq_free_def)
  have h: "h \<notin> set (mq_free s)" "h < mq_freeListCounter s" "h \<notin> set is'" "distinct is'"
    using assms(1,2) unfolding mq_cells_def by (metis list.set_intros(1), metis list.set_intros(1), metis distinct.simps(2), metis distinct.simps(2))
  define c' where "c' = c(k := is')"
  have sub: "set (c' j) \<subseteq> set (c j)" for j using assms(2) by (auto simp: c'_def)
  have nh: "h \<notin> set (c' j)" for j
    using mq_cells_disjoint[OF assms(1), of k j h] assms(2) h(3) by (auto simp: c'_def)
  have c: "distinct (mq_free s)" "\<forall>i \<in> set (mq_free s). i < mq_freeListCounter s" "unat (mq_freeListCounter s) \<le> N"
    "\<And>j. distinct (c j)" "\<And>j i. i \<in> set (c j) \<Longrightarrow> i < mq_freeListCounter s \<and> i \<notin> set (mq_free s)"
    using assms(1) by (simp_all add: mq_cells_def)
  have "distinct (c' j)" for j using h(4) c(4) by (simp add: c'_def)
  moreover have "set (c' j) \<inter> set (c' j') = {}" if "j \<noteq> j'" for j j'
    using sub[of j] sub[of j'] mq_cells_disjoint[OF assms(1) that] by blast
  moreover have "\<forall>i \<in> set (c' j). i < mq_freeListCounter t \<and> i \<notin> set (mq_free t)" for j
    using sub[of j] nh[of j] c(5) by (auto simp: f assms(7))
  moreover have "distinct (mq_free t)" "\<forall>i \<in> set (mq_free t). i < mq_freeListCounter t" "unat (mq_freeListCounter t) \<le> N"
    using c(1-3) h(1,2) by (auto simp: f assms(7))
  ultimately show ?thesis by (simp add: mq_cells_def flip: c'_def)
qed

lemma mq_inv_pop2:
  assumes inv: "mq_inv N c q s" and st: "mq_rt_state s = STATE_POP_2"
  shows "mq_stepped N q s (mq_process_requests u s)"
proof -
  define t where "t = mq_process_requests u s"
  define k where "k = mp_key (mq_popRequest s)"
  define p where "p = mq_vptr s k"
  have ok: "mq_quiet s" "mq_ptrMeta s = p" "mpe_valid p" "mq_reads (mpe_head p) s"
    using inv st by (simp_all add: mq_inv_def mq_fsm_ok_def k_def p_def)
  have holds: "mq_holds (mq_vmeta s) (mq_vptr s j) (c j) (q j)" for j using inv by (simp add: mq_inv_def)
  have cells: "mq_cells N s c" using inv by (simp add: mq_inv_def)
  show ?thesis
  proof (cases "mqf_metaRsp s")
    case Nil
    then have "t = s" "mq_commit s = []" using st by (simp_all add: t_def mq_process_requests_def mq_commit_def)
    then show ?thesis using inv by (auto simp: mq_stepped_def simp flip: t_def)
  next
    case (Cons e es)
    then have e: "e = mq_vmeta s (mpe_head p)" "es = []" "mqf_metaReq s = []" using ok(4) by (auto simp: mq_reads_def)
    obtain is' where i: "c k = mpe_head p # is'" "mqe_valid e" "q k = mqe_value e # tl (q k)"
      "mq_holds (mq_vmeta s) (p\<lparr>mpe_valid := \<not> mqe_isTail e, mpe_head := mqe_next e\<rparr>) is' (tl (q k))"
      using mq_holds_pop[OF ok(3) holds[of k, folded p_def] e(1)] by blast
    have t: "t = mq_do_pop e (s\<lparr>mqf_metaRsp := []\<rparr>)" using st Cons e by (simp add: t_def mq_process_requests_def)
    have take1: "take 1 (q k) = [mqe_value e]" using i(3) by (metis One_nat_def take_Suc_Cons take0)
    have fsm: "mq_fsm_ok t" using ok(1) e i(2)
      by (simp add: t mq_do_pop_def Let_def mq_fsm_ok_def mq_quiet_def mq_unread_def)
    have rsp: "mqf_pop_rsp t = mqf_pop_rsp s @ [mqe_value e]" "mq_commit s = [pop_op (mq_popRequest s)]"
      using i(2) st Cons by (simp_all add: t mq_do_pop_def Let_def mq_commit_def)
    show ?thesis
    proof (cases "mp_op (mq_popRequest s) = POP")
      case True
      define p' where "p' = p\<lparr>mpe_valid := \<not> mqe_isTail e, mpe_head := mqe_next e\<rparr>"
      have v: "mq_vptr t = (mq_vptr s)(k := p')" "mq_vmeta t = mq_vmeta s"
        using True st i(2) ok(2) e(3) by (simp_all add: t mq_do_pop_def Let_def mq_vptr_def mq_vmeta_def k_def p'_def)
      have "mq_cells N t (c(k := is'))"
        by (rule mq_cells_pop[OF cells i(1) st]) (use True i(2) ok(2) in \<open>simp_all add: t mq_do_pop_def Let_def\<close>)
      moreover have "mq_holds (mq_vmeta t) (mq_vptr t j) ((c(k := is')) j) ((q(k := tl (q k))) j)" for j
        using holds[of j] i(4) by (simp add: v p'_def)
      ultimately have "mq_inv N (c(k := is')) (q(k := tl (q k))) t" using fsm by (simp add: mq_inv_def)
      moreover have "fold q_step (mq_commit s) (q, mqf_pop_rsp s) = (q(k := tl (q k)), mqf_pop_rsp t)"
        using True take1 by (simp add: rsp pop_op_def k_def)
      ultimately show ?thesis by (auto simp: mq_stepped_def simp flip: t_def)
    next
      case False
      have v: "mq_vptr t = mq_vptr s" "mq_vmeta t = mq_vmeta s"
        using False st i(2) e(3) by (simp_all add: t mq_do_pop_def Let_def mq_vptr_def mq_vmeta_def)
      moreover have "mq_cells N t c" using cells st False i(2) by (simp add: mq_cells_def t mq_do_pop_def Let_def mq_free_def)
      ultimately have "mq_inv N c q t" using fsm inv by (simp add: mq_inv_def)
      moreover have "fold q_step (mq_commit s) (q, mqf_pop_rsp s) = (q, mqf_pop_rsp t)"
        using False take1 by (simp add: rsp pop_op_def k_def)
      ultimately show ?thesis by (auto simp: mq_stepped_def simp flip: t_def)
    qed
  qed
qed

lemma mq_inv_process: "mq_inv N c q s \<Longrightarrow> mq_stepped N q s (mq_process_requests u s)"
  by (cases "mq_rt_state s") (simp_all add: mq_inv_main mq_inv_push mq_inv_push2 mq_inv_pop mq_inv_pop2)

text \<open>The requests that have taken effect, are under way and wait are those that were asked, in order.\<close>

lemma mq_commit_orders:
  assumes "t = mq_process_requests u s"
  shows "filter is_enq (mq_commit s) @ map push_op (mq_pushing t @ mqf_push t) = map push_op (mq_pushing s @ mqf_push s)"
    and "filter (\<lambda>x. \<not> is_enq x) (mq_commit s) @ map pop_op (mq_popping t @ mqf_pop_req t) = map pop_op (mq_popping s @ mqf_pop_req s)"
  subgoal by (cases "mq_rt_state s"; cases "mqf_push s") (simp_all add: assms mq_process_requests_def mq_commit_def mq_pushing_def mq_do_push_def
        mq_do_pop_def Let_def)
  subgoal by (cases "mq_rt_state s"; cases "mqf_pop_req s") (simp_all add: assms mq_process_requests_def mq_commit_def mq_popping_def mq_do_push_def
        mq_do_pop_def Let_def)
  done

lemma mq_orders_other:
  "(\<forall>u. e \<noteq> Process u) \<Longrightarrow> mq_pushing (mq_exec N e s) @ mqf_push (mq_exec N e s) = mq_pushing s @ mqf_push s @ asked_push e
    \<and> mq_popping (mq_exec N e s) @ mqf_pop_req (mq_exec N e s) = mq_popping s @ mqf_pop_req s @ asked_pop e
    \<and> mqf_pop_rsp (mq_exec N e s) = mqf_pop_rsp s"
  by (cases e) (simp_all add: mq_pushing_def mq_popping_def mq_freelist_handler_def)

lemma mq_inv_other:
  assumes "mq_inv N c q s" and "\<forall>u. e \<noteq> Process u" and "N < 65536"
  shows "mq_inv N c q (mq_exec N e s)"
proof (cases e)
  case (Ask_Push r)
  then show ?thesis using assms(1)
    by (cases "mq_rt_state s") (simp_all add: mq_inv_def mq_cells_def mq_free_def mq_fsm_ok_def mq_quiet_def mq_unread_def
        mq_asked_def mq_reads_def mq_vptr_def mq_vmeta_def)
next
  case (Ask_Pop r)
  then show ?thesis using assms(1)
    by (cases "mq_rt_state s") (simp_all add: mq_inv_def mq_cells_def mq_free_def mq_fsm_ok_def mq_quiet_def mq_unread_def
        mq_asked_def mq_reads_def mq_vptr_def mq_vmeta_def)
qed (use assms mq_inv_freelist mq_inv_pointers mq_inv_metas in auto)

definition mq_linear :: "nat \<Rightarrow> 'v mqInsertReq list \<Rightarrow> mqPopReq list \<Rightarrow> 'v mq_st \<Rightarrow> 'v qop list \<Rightarrow> bool" where
  "mq_linear N ps rs s ops \<longleftrightarrow> (\<exists>c. mq_inv N c (fst (q_run ops)) s) \<and> mqf_pop_rsp s = snd (q_run ops)
     \<and> map push_op ps = filter is_enq ops @ map push_op (mq_pushing s @ mqf_push s)
     \<and> map pop_op rs = filter (\<lambda>x. \<not> is_enq x) ops @ map pop_op (mq_popping s @ mqf_pop_req s)"

lemma mq_linear_init: "mq_linear N [] [] (mq_init v) []"
proof -
  have "mq_inv N (\<lambda>_. []) (\<lambda>_. []) (mq_init v)"
    by (simp add: mq_inv_def mq_cells_def mq_free_def mq_fsm_ok_def mq_quiet_def mq_unread_def mq_holds_def
        mq_vptr_def mq_vmeta_def mq_init_def)
  then show ?thesis by (auto simp: mq_linear_def mq_init_def q_run_def mq_pushing_def mq_popping_def)
qed

lemma mq_linear_step:
  assumes lin: "mq_linear N ps rs s ops" and N: "N < 65536"
  shows "\<exists>ops'. mq_linear N (ps @ asked_push e) (rs @ asked_pop e) (mq_exec N e s) ops'"
proof (cases "\<exists>u. e = Process u")
  case True
  then obtain u where e: "e = Process u" by blast
  define t where "t = mq_process_requests u s"
  obtain c where "mq_inv N c (fst (q_run ops)) s" using lin by (auto simp: mq_linear_def)
  then obtain c' q' where q: "mq_inv N c' q' t" "fold q_step (mq_commit s) (fst (q_run ops), mqf_pop_rsp s) = (q', mqf_pop_rsp t)"
    using mq_inv_process unfolding t_def mq_stepped_def by blast
  have "q_run (ops @ mq_commit s) = fold q_step (mq_commit s) (fst (q_run ops), mqf_pop_rsp s)"
    using lin by (simp add: q_run_def mq_linear_def)
  then have "q_run (ops @ mq_commit s) = (q', mqf_pop_rsp t)" using q(2) by simp
  then have "mq_linear N ps rs t (ops @ mq_commit s)"
    using lin q(1) mq_commit_orders[OF t_def] by (auto simp: mq_linear_def)
  then show ?thesis using e by (auto simp: t_def)
next
  case False
  then have "mq_pushing (mq_exec N e s) @ mqf_push (mq_exec N e s) = (mq_pushing s @ mqf_push s) @ asked_push e"
    "mq_popping (mq_exec N e s) @ mqf_pop_req (mq_exec N e s) = (mq_popping s @ mqf_pop_req s) @ asked_pop e"
    "mqf_pop_rsp (mq_exec N e s) = mqf_pop_rsp s" using mq_orders_other[of e N s] by simp_all
  moreover have "mq_inv N c q s \<Longrightarrow> mq_inv N c q (mq_exec N e s)" for c q using mq_inv_other False N by blast
  ultimately have "mq_linear N (ps @ asked_push e) (rs @ asked_pop e) (mq_exec N e s) ops"
    using lin unfolding mq_linear_def map_append by (metis append.assoc map_append)
  then show ?thesis by blast
qed

text \<open>C26. In every run of the four processes, in any interleaving, the pushes and the pops take effect one at a time, each kind in
  the order in which it was asked, and the answers are those that a family of FIFO queues gives: a pop takes the
  oldest value of its queue, a front shows it, and an empty queue is not answered.\<close>

theorem multi_queue_linearizes:
  assumes "N < 65536" and "s = fold (mq_exec N) es (mq_init v)"
  shows "\<exists>ops. mqf_pop_rsp s = snd (q_run ops)
    \<and> map push_op (concat (map asked_push es)) = filter is_enq ops @ map push_op (mq_pushing s @ mqf_push s)
    \<and> map pop_op (concat (map asked_pop es)) = filter (\<lambda>x. \<not> is_enq x) ops @ map pop_op (mq_popping s @ mqf_pop_req s)"
proof -
  have "\<exists>ops. mq_linear N (concat (map asked_push es)) (concat (map asked_pop es)) (fold (mq_exec N) es (mq_init v)) ops"
  proof (induction es rule: rev_induct)
    case Nil
    show ?case using mq_linear_init[of N v] by auto
  next
    case (snoc e es)
    then show ?case using mq_linear_step[OF _ assms(1)] by fastforce
  qed
  then show ?thesis using assms(2) by (auto simp: mq_linear_def)
qed

text \<open>One value pushed and taken again, with a call of every process in each round.\<close>

definition mq_round :: "nat mq_event list" where
  "mq_round = [Free_List False, Pointers, Metas, Process \<lparr>mqe_value = 0, mqe_next = 0, mqe_valid = False, mqe_isTail = False\<rparr>]"

definition mq_demo :: "nat mq_event list" where
  "mq_demo = Ask_Push \<lparr>mi_key = 5, mi_value = 42\<rparr> # Ask_Pop \<lparr>mp_op = POP, mp_key = 5\<rparr> # concat (replicate 5 mq_round)"

lemma mq_demo_answer: "mqf_pop_rsp (fold (mq_exec 2048) mq_demo (mq_init 0)) = [42]"
  by code_simp

lemma multi_queue_linearizes_witness:
  "\<exists>ops. [42 :: nat] = snd (q_run ops) \<and> filter is_enq ops = [Enq 5 42] \<and> filter (\<lambda>x. \<not> is_enq x) ops = [Deq 5]"
proof -
  define s where "s = fold (mq_exec 2048) mq_demo (mq_init 0)"
  have rest: "mq_pushing s = []" "mqf_push s = []" "mq_popping s = []" "mqf_pop_req s = []"
    unfolding s_def mq_pushing_def mq_popping_def by code_simp+
  have asked: "concat (map asked_push mq_demo) = [\<lparr>mi_key = 5, mi_value = 42\<rparr>]"
    "concat (map asked_pop mq_demo) = [\<lparr>mp_op = POP, mp_key = 5\<rparr>]" by code_simp+
  show ?thesis
    using multi_queue_linearizes[of 2048 s mq_demo 0, OF _ s_def] mq_demo_answer rest asked
    by (auto simp: push_op_def pop_op_def simp flip: s_def)
qed

subsection \<open>Every request ends\<close>

text \<open>The lock is held by the push under way, or its release is on the way.\<close>

definition mq_lock_ok :: "'v mq_st \<Rightarrow> bool" where
  "mq_lock_ok s \<longleftrightarrow>
    (mq_isLocked s \<longrightarrow> (\<exists>u \<in> set (mqf_pointerUpd s). mpu_key u = mq_lockedKey s)
       \<or> (mq_lockedKey s = mi_key (mq_insert s)
          \<and> (mq_rt_state s = STATE_PUSH_2 \<or> mq_rt_state s = STATE_PUSH \<and> mqf_pointerRsp s \<noteq> [])))
    \<and> (mq_rt_state s = STATE_POP \<longrightarrow> \<not> mq_wait s \<and> (\<forall>r \<in> set (mqf_pointerReq s). \<not> mpr_lock r))"

definition mq_live :: "nat \<Rightarrow> 'v mq_st \<Rightarrow> bool" where
  "mq_live N s \<longleftrightarrow> (\<exists>c q. mq_inv N c q s) \<and> mq_lock_ok s"

lemma mq_lock_pointers:
  assumes "mq_lock_ok s" and "mq_fsm_ok s"
  shows "mq_lock_ok (mq_pointer_table s)"
proof (cases "mqf_pointerUpd s")
  case (Cons u us)
  then have "mq_isLocked (mq_pointer_table s) \<longleftrightarrow> mq_isLocked s \<and> mq_lockedKey s \<noteq> mpu_key u"
    "mq_lockedKey (mq_pointer_table s) = mq_lockedKey s" "mqf_pointerUpd (mq_pointer_table s) = us"
    "mqf_pointerRsp (mq_pointer_table s) = mqf_pointerRsp s" "mq_wait (mq_pointer_table s) = mq_wait s"
    "mqf_pointerReq (mq_pointer_table s) = mqf_pointerReq s"
    by (auto simp: mq_pointer_table_def Let_def)
  then show ?thesis using assms(1) Cons by (auto simp: mq_lock_ok_def)
next
  case Nil
  show ?thesis
  proof (cases "mq_rt_state s = STATE_PUSH \<or> mq_rt_state s = STATE_POP")
    case False
    then have "mq_quiet s" using assms(2) by (cases "mq_rt_state s") (simp_all add: mq_fsm_ok_def)
    then have "mq_pointer_table s = s" using Nil by (simp add: mq_pointer_table_def mq_quiet_def)
    then show ?thesis using assms(1) by simp
  next
    case True
    define k where "k = (if mq_rt_state s = STATE_PUSH then mi_key (mq_insert s) else mp_key (mq_popRequest s))"
    have "mq_asked k s" using assms(2) True by (auto simp: mq_fsm_ok_def k_def)
    then consider (req) r where "mqf_pointerReq s = [r]" "mpr_key r = k" "\<not> mq_wait s" "mqf_pointerRsp s = []"
      | (wait) "mqf_pointerReq s = []" "mq_wait s" "mpr_key (mq_request s) = k" "mqf_pointerRsp s = []"
      | (rsp) "mqf_pointerReq s = []" "\<not> mq_wait s" "mqf_pointerRsp s = [mq_vptr s k]"
      by (auto simp: mq_asked_def)
    then show ?thesis
    proof cases
      case rsp
      then have "mq_pointer_table s = s" using Nil by (simp add: mq_pointer_table_def)
      then show ?thesis using assms(1) by simp
    next
      case req
      then show ?thesis using assms(1) Nil True
        by (auto simp: mq_lock_ok_def mq_pointer_table_def mq_grant_def Let_def k_def)
    next
      case wait
      then show ?thesis using assms(1) Nil True
        by (auto simp: mq_lock_ok_def mq_pointer_table_def mq_grant_def Let_def k_def)
    qed
  qed
qed

lemma mq_lock_process:
  assumes "mq_lock_ok s" and "mq_fsm_ok s"
  shows "mq_lock_ok (mq_process_requests u s)"
proof (cases "mq_rt_state s")
  case STATE_MAIN
  then show ?thesis using assms
    by (auto simp: mq_lock_ok_def mq_process_requests_def Let_def mq_fsm_ok_def mq_quiet_def mqPointerReq_of_def)
next
  case STATE_PUSH
  then show ?thesis using assms(1)
    by (cases "mqf_pointerRsp s = []") (auto simp: mq_lock_ok_def mq_process_requests_def mq_do_push_def Let_def)
next
  case STATE_PUSH_2
  then show ?thesis using assms(1) by (auto simp: mq_lock_ok_def mq_process_requests_def)
next
  case STATE_POP
  then show ?thesis using assms(1)
    by (cases "mqf_pointerRsp s = []") (auto simp: mq_lock_ok_def mq_process_requests_def Let_def)
next
  case STATE_POP_2
  then show ?thesis using assms(1)
    by (cases "mqf_metaRsp s = []") (auto simp: mq_lock_ok_def mq_process_requests_def mq_do_pop_def Let_def)
qed

lemma mq_live_exec:
  assumes "mq_live N s" and "N < 65536"
  shows "mq_live N (mq_exec N e s)"
proof -
  obtain c q where inv: "mq_inv N c q s" and lock: "mq_lock_ok s" using assms(1) by (auto simp: mq_live_def)
  then have fsm: "mq_fsm_ok s" by (simp add: mq_inv_def)
  have "\<exists>c q. mq_inv N c q (mq_process_requests u s)" for u
    using mq_inv_process[OF inv] unfolding mq_stepped_def by blast
  then have "\<exists>c q. mq_inv N c q (mq_exec N e s)"
    using mq_inv_other[OF inv _ assms(2), of e] by (cases "\<exists>u. e = Process u") (force, metis)
  moreover have "mq_lock_ok (mq_exec N e s)"
  proof (cases e)
    case Pointers
    then show ?thesis using mq_lock_pointers[OF lock fsm] by simp
  next
    case (Process u)
    then show ?thesis using mq_lock_process[OF lock fsm] by simp
  qed (use lock in \<open>simp_all add: mq_lock_ok_def mq_freelist_handler_def mq_meta_table_def Let_def\<close>)
  ultimately show ?thesis by (simp add: mq_live_def)
qed

interpretation mq: reactive "mq_exec N" "mq_live N" "\<lambda>_. N < 65536" for N
  by unfold_locales (rule mq_live_exec)

lemma multi_queue_exec:
  "multi_queue N full u s = fold (mq_exec N) [Free_List full, Pointers, Metas, Process u] s"
  by (simp add: multi_queue_def)

definition mq_ask_rank :: "'v mq_st \<Rightarrow> nat" where
  "mq_ask_rank s = length (mqf_pointerUpd s) + (if mqf_pointerRsp s \<noteq> [] then 0 else if mq_wait s then 1 else 2)"

definition mq_rank :: "'v mq_st \<Rightarrow> nat" where
  "mq_rank s =
    (case mq_rt_state s of
       STATE_MAIN \<Rightarrow> 0
     | STATE_PUSH \<Rightarrow> 4 + mq_ask_rank s
     | STATE_PUSH_2 \<Rightarrow> 1
     | STATE_POP \<Rightarrow> 4 + mq_ask_rank s + length (mqf_metaReq s)
     | STATE_POP_2 \<Rightarrow> 1 + length (mqf_metaReq s))"

lemma mq_ask_call:
  assumes "mq_asked k s" and "mq_lock_ok s" and "mq_rt_state s = STATE_PUSH \<or> mq_rt_state s = STATE_POP" and "t = mq_pointer_table s"
  shows "mqf_pointerRsp t \<noteq> [] \<or> mq_ask_rank t < mq_ask_rank s"
proof (cases "mqf_pointerUpd s")
  case (Cons u us)
  then show ?thesis by (simp add: assms(4) mq_ask_rank_def mq_pointer_table_def Let_def)
next
  case Nil
  consider (req) r where "mqf_pointerReq s = [r]" "\<not> mq_wait s" "mqf_pointerRsp s = []"
    | (wait) "mqf_pointerReq s = []" "mq_wait s" "mqf_pointerRsp s = []" | (rsp) "mqf_pointerRsp s \<noteq> []"
    using assms(1) by (auto simp: mq_asked_def)
  then show ?thesis
  proof cases
    case rsp
    then show ?thesis by (simp add: assms(4) mq_pointer_table_def mq_grant_def Let_def)
  next
    case req
    then show ?thesis using Nil by (simp add: assms(4) mq_ask_rank_def mq_pointer_table_def mq_grant_def Let_def)
  next
    case wait
    then have "\<not> mq_isLocked s" using assms(2,3) Nil by (auto simp: mq_lock_ok_def)
    then show ?thesis using wait Nil by (simp add: assms(4) mq_pointer_table_def mq_grant_def)
  qed
qed

lemma mq_rank_call:
  assumes "mq_live N s" and "mq_rt_state s \<noteq> STATE_MAIN" and "N < 65536"
  shows "mq_rank (multi_queue N full u s) < mq_rank s"
proof -
  define s1 where "s1 = mq_freelist_handler N full s"
  define s2 where "s2 = mq_pointer_table s1"
  define s3 where "s3 = mq_meta_table s2"
  have call: "multi_queue N full u s = mq_process_requests u s3" by (simp add: multi_queue_def s1_def s2_def s3_def)
  have live: "mq_live N s1" using mq_live_exec[OF assms(1,3), of "Free_List full"] by (simp add: s1_def)
  then have fsm: "mq_fsm_ok s1" "mq_lock_ok s1" by (auto simp: mq_live_def mq_inv_def)
  have s1: "mq_rank s1 = mq_rank s" "mq_rt_state s1 = mq_rt_state s" using assms(2)
    by (cases "mq_rt_state s"; simp add: s1_def mq_rank_def mq_ask_rank_def mq_freelist_handler_def)+
  have ask: "mq_ask_rank s3 = mq_ask_rank s2" "mqf_pointerRsp s3 = mqf_pointerRsp s2" "length (mqf_metaReq s3) \<le> length (mqf_metaReq s1)"
    by (simp_all add: s3_def s2_def mq_ask_rank_def) (simp add: mq_meta_table_def Let_def)
  have st: "mq_rt_state s3 = mq_rt_state s1" by (simp add: s3_def s2_def)
  have "mq_rank (mq_process_requests u s3) < mq_rank s1"
  proof (cases "mq_rt_state s1")
    case STATE_PUSH
    then have "mqf_pointerRsp s2 \<noteq> [] \<or> mq_ask_rank s2 < mq_ask_rank s1"
      using fsm mq_ask_call[OF _ fsm(2) _ s2_def] by (auto simp: mq_fsm_ok_def)
    moreover have "mqf_pointerRsp s3 \<noteq> [] \<Longrightarrow> mq_rank (mq_process_requests u s3) \<le> 1"
      using STATE_PUSH st by (simp add: mq_process_requests_def mq_do_push_def Let_def mq_rank_def)
    moreover have "mqf_pointerRsp s3 = [] \<Longrightarrow> mq_process_requests u s3 = s3" using STATE_PUSH st by (simp add: mq_process_requests_def)
    ultimately show ?thesis using STATE_PUSH st ask by (cases "mqf_pointerRsp s3 = []") (auto simp: mq_rank_def)
  next
    case STATE_POP
    then have "mqf_pointerRsp s2 \<noteq> [] \<or> mq_ask_rank s2 < mq_ask_rank s1"
      using fsm mq_ask_call[OF _ fsm(2) _ s2_def] by (auto simp: mq_fsm_ok_def)
    moreover have "mqf_pointerRsp s3 \<noteq> [] \<Longrightarrow> mq_rank (mq_process_requests u s3) \<le> 2 + length (mqf_metaReq s3)"
      using STATE_POP st by (simp add: mq_process_requests_def Let_def mq_rank_def)
    moreover have "mqf_pointerRsp s3 = [] \<Longrightarrow> mq_process_requests u s3 = s3" using STATE_POP st by (simp add: mq_process_requests_def)
    ultimately show ?thesis using STATE_POP st ask by (cases "mqf_pointerRsp s3 = []") (auto simp: mq_rank_def)
  next
    case STATE_PUSH_2
    then show ?thesis using st by (simp add: mq_process_requests_def mq_rank_def)
  next
    case STATE_POP_2
    then obtain i where "mq_reads i s1" using fsm(1) by (auto simp: mq_fsm_ok_def)
    then have "mq_reads i s2" by (simp add: s2_def)
    then have "mqf_metaRsp s3 \<noteq> [] \<or> length (mqf_metaReq s3) < length (mqf_metaReq s1)"
      by (auto simp: mq_reads_def s3_def s2_def) (auto simp: mq_meta_table_def Let_def)
    moreover have "mqf_metaRsp s3 \<noteq> [] \<Longrightarrow> mq_rank (mq_process_requests u s3) = 0"
      using STATE_POP_2 st by (simp add: mq_process_requests_def mq_do_pop_def Let_def mq_rank_def)
    moreover have "mqf_metaRsp s3 = [] \<Longrightarrow> mq_process_requests u s3 = s3" using STATE_POP_2 st by (simp add: mq_process_requests_def)
    ultimately show ?thesis using STATE_POP_2 st by (cases "mqf_metaRsp s3 = []") (auto simp: mq_rank_def)
  qed (use s1 assms(2) in simp)
  then show ?thesis using call s1(1) by simp
qed

lemma mq_live_call: "mq_live N s \<Longrightarrow> N < 65536 \<Longrightarrow> mq_live N (multi_queue N full u s)"
  unfolding multi_queue_exec by (rule mq.inv_run) auto

interpretation mqt: terminating "multi_queue N full u" "\<lambda>s. mq_rt_state s \<noteq> STATE_MAIN" mq_rank "\<lambda>s. mq_live N s \<and> N < 65536"
  for N full u
  by unfold_locales (simp_all add: mq_live_call mq_rank_call)

text \<open>Whatever has happened before, the request under way ends after finitely many calls of the component.\<close>

lemma multi_queue_progress:
  assumes "N < 65536" and "s = fold (mq_exec N) es (mq_init v)"
  shows "\<exists>n \<le> mq_rank s. mq_rt_state ((multi_queue N full u ^^ n) s) = STATE_MAIN"
proof -
  have "mq_live N (mq_init v)"
    using mq_linear_init[of N v] by (auto simp: mq_live_def mq_linear_def mq_lock_ok_def mq_init_def)
  then have "mq_live N s" using mq.inv_run[of N "mq_init v" es] assms by simp
  then show ?thesis using mqt.eventually_done[of N s full u] assms(1) by simp
qed

end
