(* ===== verification/Retransmitter.thy ===== *)
theory Retransmitter
  imports Linked_Cells
begin

text \<open>
  The retransmitter of the RoCE engine (\<^verbatim>\<open>ib_transport_protocol/retransmitter/retransmitter.cpp\<close>): for every
  queue pair a linked list of the requests that have been sent and not acknowledged. Four processes, as in the multi
  queue: \<open>freelist_handler\<close>, \<open>retrans_pointer_table\<close>, \<open>retrans_meta_table\<close> and \<open>process_retransmissions\<close>, which
  appends requests, releases the acknowledged ones and sends again. A member that a constructor leaves
  unassigned has the value of the argument \<open>u\<close>.
\<close>

subsection \<open>Messages\<close>

datatype ibOpCode =
    RC_RDMA_WRITE_FIRST | RC_RDMA_WRITE_MIDDLE | RC_RDMA_WRITE_LAST | RC_RDMA_WRITE_LAST_WITH_IMD | RC_RDMA_WRITE_ONLY
  | RC_RDMA_WRITE_ONLY_WIT_IMD | RC_RDMA_READ_REQUEST | RC_RDMA_READ_RESP_FIRST | RC_RDMA_READ_RESP_MIDDLE
  | RC_RDMA_READ_RESP_LAST | RC_RDMA_READ_RESP_ONLY | RC_ACK | RC_RDMA_PART_ONLY | RC_RDMA_PART_FIRST
  | RC_RDMA_PART_MIDDLE | RC_RDMA_PART_LAST | RC_RDMA_READ_POINTER_REQUEST | RC_RDMA_READ_CONSISTENT_REQUEST

record retransEvent =
  rev_op_code :: ibOpCode
  rev_qpn :: "24 word"
  rev_localAddr :: "48 word"
  rev_remoteAddr :: "48 word"
  rev_length :: u32
  rev_psn :: "24 word"
  rev_validPsn :: bool
  rev_isNak :: bool

definition retransEvent_of :: "ibOpCode \<Rightarrow> 24 word \<Rightarrow> 48 word \<Rightarrow> 48 word \<Rightarrow> u32 \<Rightarrow> 24 word \<Rightarrow> retransEvent" where
  "retransEvent_of op qp la ra l p = \<lparr>rev_op_code = op, rev_qpn = qp, rev_localAddr = la, rev_remoteAddr = ra, rev_length = l,
     rev_psn = p, rev_validPsn = True, rev_isNak = False\<rparr>"

record retransRelease =
  rel_qpn :: u16
  rel_latest_acked_req :: "24 word"

record retransmission =
  rex_qpn :: u16
  rex_psn :: "24 word"

record retransEntry =
  ren_qpn :: u16
  ren_psn :: "24 word"
  ren_opCode :: ibOpCode
  ren_localAddr :: "48 word"
  ren_remoteAddr :: "48 word"
  ren_length :: u32

record retransPointerEntry =
  rpe_head :: u16
  rpe_tail :: u16
  rpe_valid :: bool

record pointerUpdate =
  pup_qpn :: u16
  pup_entry :: retransPointerEntry

record retransMetaEntry =
  rme_psn :: "24 word"
  rme_next :: u16
  rme_opCode :: ibOpCode
  rme_localAddr :: "48 word"
  rme_remoteAddr :: "48 word"
  rme_length :: u32
  rme_valid :: bool
  rme_isTail :: bool

definition retransMetaEntry_of :: "retransEntry \<Rightarrow> retransMetaEntry" where
  "retransMetaEntry_of e = \<lparr>rme_psn = ren_psn e, rme_next = 0, rme_opCode = ren_opCode e, rme_localAddr = ren_localAddr e,
     rme_remoteAddr = ren_remoteAddr e, rme_length = ren_length e, rme_valid = True, rme_isTail = True\<rparr>"

definition retransMetaEntry_next :: "retransMetaEntry \<Rightarrow> u16 \<Rightarrow> retransMetaEntry" where
  "retransMetaEntry_next u n = u\<lparr>rme_next := n\<rparr>"

record retransMetaReq =
  rmr_idx :: u16
  rmr_entry :: retransMetaEntry
  rmr_write :: bool
  rmr_append :: bool

definition retransMetaReq_read :: "retransMetaEntry \<Rightarrow> u16 \<Rightarrow> retransMetaReq" where
  "retransMetaReq_read u i = \<lparr>rmr_idx = i, rmr_entry = u, rmr_write = False, rmr_append = False\<rparr>"

definition retransMetaReq_append :: "retransMetaEntry \<Rightarrow> u16 \<Rightarrow> u16 \<Rightarrow> retransMetaReq" where
  "retransMetaReq_append u i n = \<lparr>rmr_idx = i, rmr_entry = retransMetaEntry_next u n, rmr_write = False, rmr_append = True\<rparr>"

definition retransMetaReq_write :: "u16 \<Rightarrow> retransMetaEntry \<Rightarrow> retransMetaReq" where
  "retransMetaReq_write i e = \<lparr>rmr_idx = i, rmr_entry = e, rmr_write = True, rmr_append = False\<rparr>"

record pointerReq =
  prq_qpn :: u16
  prq_lock :: bool

definition pointerReq_of :: "u16 \<Rightarrow> pointerReq" where
  "pointerReq_of q = \<lparr>prq_qpn = q, prq_lock = False\<rparr>"

subsection \<open>The processes\<close>

definition META_TABLE_SIZE :: nat where "META_TABLE_SIZE = 2000"

datatype rx_fsm = RT_MAIN | INSERT | INSERT_2 | RELEASE_0 | RELEASE_1 | RETRANS_0 | RETRANS_1 | RETRANS_2
  | TIMER_RETRANS | TIMER_RETRANS_2

record rtr_st =
  rtr_ptr_table :: "u16 \<Rightarrow> retransPointerEntry"
  pt_lockedQP :: u16
  pt_isLocked :: bool
  pt_wait :: bool
  pt_req :: pointerReq
  rtr_freeListCounter :: u16
  rtr_meta_table :: "u16 \<Rightarrow> retransMetaEntry"
  rtr_state :: rx_fsm
  rtr_release :: retransRelease
  rtr_curr :: u16
  rtr_newMetaIdx :: u16
  rtr_insert :: retransEntry
  rtr_retrans :: retransmission
  rtr_meta :: retransMetaEntry
  rtr_ptrMeta :: retransPointerEntry
  rtrf_release_upd :: "retransRelease fifo"
  rtrf_rx_req :: "retransmission fifo"
  rtrf_timer_req :: "retransmission fifo"
  rtrf_insertRequest :: "retransEntry fifo"
  rtrf_event :: "retransEvent fifo"
  rtrf_pointerReq :: "pointerReq fifo"
  rtrf_pointerUpd :: "pointerUpdate fifo"
  rtrf_pointerRsp :: "retransPointerEntry fifo"
  rtrf_metaReq :: "retransMetaReq fifo"
  rtrf_metaRsp :: "retransMetaEntry fifo"
  rtrf_freeList :: "u16 fifo"
  rtrf_release :: "u16 fifo"

definition pt_grant :: "pointerReq \<Rightarrow> rtr_st \<Rightarrow> rtr_st" where
  "pt_grant r s = s\<lparr>rtrf_pointerRsp := rtrf_pointerRsp s @ [rtr_ptr_table s (prq_qpn r)], pt_isLocked := True, pt_lockedQP := prq_qpn r\<rparr>"

definition retrans_pointer_table :: "rtr_st \<Rightarrow> rtr_st" where
  "retrans_pointer_table s =
    (if rtrf_pointerUpd s \<noteq> [] then
       (let u = hd (rtrf_pointerUpd s) in
        s\<lparr>rtrf_pointerUpd := tl (rtrf_pointerUpd s), rtr_ptr_table := (rtr_ptr_table s)(pup_qpn u := pup_entry u),
          pt_isLocked := (if pt_lockedQP s = pup_qpn u then False else pt_isLocked s)\<rparr>)
     else if rtrf_pointerReq s \<noteq> [] \<and> \<not> pt_wait s then
       (let r = hd (rtrf_pointerReq s); s = s\<lparr>rtrf_pointerReq := tl (rtrf_pointerReq s), pt_req := r\<rparr> in
        if prq_lock r \<and> pt_isLocked s then s\<lparr>pt_wait := True\<rparr>
        else if prq_lock r then pt_grant r s
        else s\<lparr>rtrf_pointerRsp := rtrf_pointerRsp s @ [rtr_ptr_table s (prq_qpn r)]\<rparr>)
     else if pt_wait s then
       (if \<not> pt_isLocked s then (pt_grant (pt_req s) s)\<lparr>pt_wait := False\<rparr> else s)
     else s)"

definition freelist_handler :: "bool \<Rightarrow> rtr_st \<Rightarrow> rtr_st" where
  "freelist_handler full s =
    (if rtrf_release s \<noteq> [] then
       s\<lparr>rtrf_freeList := rtrf_freeList s @ [hd (rtrf_release s)], rtrf_release := tl (rtrf_release s)\<rparr>
     else if unat (rtr_freeListCounter s) < META_TABLE_SIZE \<and> \<not> full then
       s\<lparr>rtrf_freeList := rtrf_freeList s @ [rtr_freeListCounter s], rtr_freeListCounter := rtr_freeListCounter s + 1\<rparr>
     else s)"

definition rtr_meta_apply :: "retransMetaReq \<Rightarrow> (u16 \<Rightarrow> retransMetaEntry) \<Rightarrow> u16 \<Rightarrow> retransMetaEntry" where
  "rtr_meta_apply r m =
    (if rmr_write r then m(rmr_idx r := rmr_entry r)
     else if rmr_append r then m(rmr_idx r := (m (rmr_idx r))\<lparr>rme_next := rme_next (rmr_entry r), rme_isTail := False\<rparr>)
     else m)"

definition retrans_meta_table :: "rtr_st \<Rightarrow> rtr_st" where
  "retrans_meta_table s =
    (if rtrf_metaReq s \<noteq> [] then
       (let r = hd (rtrf_metaReq s) in
        s\<lparr>rtrf_metaReq := tl (rtrf_metaReq s), rtr_meta_table := rtr_meta_apply r (rtr_meta_table s),
          rtrf_metaRsp := (if rmr_write r \<or> rmr_append r then rtrf_metaRsp s
                           else rtrf_metaRsp s @ [rtr_meta_table s (rmr_idx r)])\<rparr>)
     else s)"

text \<open>The requests of the process, and the event that sends an entry again.\<close>

definition rtr_ask_meta :: "retransMetaReq \<Rightarrow> rtr_st \<Rightarrow> rtr_st" where
  "rtr_ask_meta r s = s\<lparr>rtrf_metaReq := rtrf_metaReq s @ [r]\<rparr>"

definition rtr_ask_ptr :: "pointerReq \<Rightarrow> rtr_st \<Rightarrow> rtr_st" where
  "rtr_ask_ptr r s = s\<lparr>rtrf_pointerReq := rtrf_pointerReq s @ [r]\<rparr>"

definition rtr_put_ptr :: "u16 \<Rightarrow> retransPointerEntry \<Rightarrow> rtr_st \<Rightarrow> rtr_st" where
  "rtr_put_ptr q p s = s\<lparr>rtr_ptrMeta := p, rtrf_pointerUpd := rtrf_pointerUpd s @ [\<lparr>pup_qpn = q, pup_entry = p\<rparr>]\<rparr>"

definition event_of :: "u16 \<Rightarrow> retransMetaEntry \<Rightarrow> retransEvent" where
  "event_of q m = retransEvent_of (rme_opCode m) (ucast q) (rme_localAddr m) (rme_remoteAddr m) (rme_length m) (rme_psn m)"

definition rtr_send :: "retransMetaEntry \<Rightarrow> rtr_st \<Rightarrow> rtr_st" where
  "rtr_send m s = s\<lparr>rtrf_event := rtrf_event s @ [event_of (rex_qpn (rtr_retrans s)) m]\<rparr>"

definition rtr_main :: "rtr_st \<Rightarrow> rtr_st" where
  "rtr_main s =
    (if rtrf_release_upd s \<noteq> [] then
       (let r = hd (rtrf_release_upd s) in
        rtr_ask_ptr \<lparr>prq_qpn = rel_qpn r, prq_lock = True\<rparr>
          (s\<lparr>rtr_release := r, rtrf_release_upd := tl (rtrf_release_upd s), rtr_state := RELEASE_0\<rparr>))
     else if rtrf_insertRequest s \<noteq> [] \<and> rtrf_freeList s \<noteq> [] then
       (let i = hd (rtrf_insertRequest s) in
        rtr_ask_ptr \<lparr>prq_qpn = ren_qpn i, prq_lock = True\<rparr>
          (s\<lparr>rtr_newMetaIdx := hd (rtrf_freeList s), rtrf_freeList := tl (rtrf_freeList s), rtr_insert := i,
             rtrf_insertRequest := tl (rtrf_insertRequest s), rtr_state := INSERT\<rparr>))
     else if rtrf_rx_req s \<noteq> [] then
       rtr_ask_ptr (pointerReq_of (rel_qpn (rtr_release s)))
         (s\<lparr>rtr_retrans := hd (rtrf_rx_req s), rtrf_rx_req := tl (rtrf_rx_req s), rtr_state := RETRANS_0\<rparr>)
     else if rtrf_timer_req s \<noteq> [] then
       (let t = hd (rtrf_timer_req s) in
        rtr_ask_ptr (pointerReq_of (rex_qpn t))
          (s\<lparr>rtr_retrans := t, rtrf_timer_req := tl (rtrf_timer_req s), rtr_state := TIMER_RETRANS\<rparr>))
     else s)"

definition rtr_insert_at :: "retransMetaEntry \<Rightarrow> retransPointerEntry \<Rightarrow> rtr_st \<Rightarrow> rtr_st" where
  "rtr_insert_at u p s =
    (if \<not> rpe_valid p then
       rtr_put_ptr (ren_qpn (rtr_insert s)) (p\<lparr>rpe_valid := True, rpe_head := rtr_newMetaIdx s, rpe_tail := rtr_newMetaIdx s\<rparr>)
         (rtr_ask_meta (retransMetaReq_write (rtr_newMetaIdx s) (retransMetaEntry_of (rtr_insert s))) (s\<lparr>rtr_state := RT_MAIN\<rparr>))
     else
       (rtr_ask_meta (retransMetaReq_append u (rpe_tail p) (rtr_newMetaIdx s)) s)
         \<lparr>rtr_ptrMeta := p\<lparr>rpe_tail := rtr_newMetaIdx s\<rparr>, rtr_state := INSERT_2\<rparr>)"

text \<open>One entry read on the way to the acknowledged one.\<close>

definition rtr_release_at :: "retransMetaEntry \<Rightarrow> retransMetaEntry \<Rightarrow> rtr_st \<Rightarrow> rtr_st" where
  "rtr_release_at u m s =
    (let q = rel_qpn (rtr_release s);
         s = (if \<not> rme_valid m \<or> rme_psn m = rel_latest_acked_req (rtr_release s) then
                rtr_put_ptr q ((rtr_ptrMeta s)\<lparr>rpe_head := rme_next m, rpe_valid := \<not> rme_isTail m\<rparr>) (s\<lparr>rtr_state := RT_MAIN\<rparr>)
              else
                (if rme_isTail m then
                   rtr_put_ptr q ((rtr_ptrMeta s)\<lparr>rpe_valid := False, rpe_head := rtr_curr s\<rparr>) (s\<lparr>rtr_state := RT_MAIN\<rparr>)
                 else rtr_ask_meta (retransMetaReq_read u (rme_next m)) s)\<lparr>rtr_curr := rme_next m\<rparr>) in
     if rme_valid m then s\<lparr>rtrf_release := rtrf_release s @ [rtr_curr s]\<rparr> else s)"

definition rtr_follow :: "retransMetaEntry \<Rightarrow> retransMetaEntry \<Rightarrow> rtr_st \<Rightarrow> rtr_st" where
  "rtr_follow u m s =
    (if \<not> rme_isTail m then rtr_ask_meta (retransMetaReq_read u (rme_next m)) s else s\<lparr>rtr_state := RT_MAIN\<rparr>)"

definition process_retransmissions :: "retransMetaEntry \<Rightarrow> rtr_st \<Rightarrow> rtr_st" where
  "process_retransmissions u s =
    (let p = hd (rtrf_pointerRsp s); m = hd (rtrf_metaRsp s);
         sp = s\<lparr>rtrf_pointerRsp := tl (rtrf_pointerRsp s), rtr_ptrMeta := p\<rparr>;
         sm = s\<lparr>rtrf_metaRsp := tl (rtrf_metaRsp s), rtr_meta := m\<rparr> in
     case rtr_state s of
       RT_MAIN \<Rightarrow> rtr_main s
     | INSERT \<Rightarrow> (if rtrf_pointerRsp s \<noteq> [] then rtr_insert_at u p sp else s)
     | INSERT_2 \<Rightarrow>
         rtr_put_ptr (ren_qpn (rtr_insert s)) (rtr_ptrMeta s)
           (rtr_ask_meta (retransMetaReq_write (rtr_newMetaIdx s) (retransMetaEntry_of (rtr_insert s))) (s\<lparr>rtr_state := RT_MAIN\<rparr>))
     | RELEASE_0 \<Rightarrow>
         (if rtrf_pointerRsp s \<noteq> [] then
            (if rpe_valid p then
               (rtr_ask_meta (retransMetaReq_read u (rpe_head p)) sp)\<lparr>rtr_curr := rpe_head p, rtr_state := RELEASE_1\<rparr>
             else rtr_put_ptr (rel_qpn (rtr_release s)) p (sp\<lparr>rtr_state := RT_MAIN\<rparr>))
          else s)
     | RELEASE_1 \<Rightarrow> (if rtrf_metaRsp s \<noteq> [] then rtr_release_at u m sm else s)
     | RETRANS_0 \<Rightarrow>
         (if rtrf_pointerRsp s \<noteq> [] then
            (if rpe_valid p then
               (rtr_ask_meta (retransMetaReq_read u (rpe_head p)) sp)\<lparr>rtr_curr := rpe_head p, rtr_state := RETRANS_1\<rparr>
             else sp\<lparr>rtr_state := RT_MAIN\<rparr>)
          else s)
     | RETRANS_1 \<Rightarrow>
         (if rtrf_metaRsp s \<noteq> [] then
            (if rme_valid m then
               (let t = rtr_follow u m sm in
                if rme_psn m = rex_psn (rtr_retrans s) then
                  (let t = rtr_send m t in if \<not> rme_isTail m then t\<lparr>rtr_state := RETRANS_2\<rparr> else t)
                else t)
             else sm\<lparr>rtr_state := RT_MAIN\<rparr>)
          else s)
     | RETRANS_2 \<Rightarrow>
         (if rtrf_metaRsp s \<noteq> [] then
            (if rme_valid m then rtr_send m (rtr_follow u m sm) else sm\<lparr>rtr_state := RT_MAIN\<rparr>)
          else s)
     | TIMER_RETRANS \<Rightarrow>
         (if rtrf_pointerRsp s \<noteq> [] then
            (if rpe_valid p then (rtr_ask_meta (retransMetaReq_read u (rpe_head p)) sp)\<lparr>rtr_state := TIMER_RETRANS_2\<rparr>
             else sp\<lparr>rtr_state := RT_MAIN\<rparr>)
          else s)
     | TIMER_RETRANS_2 \<Rightarrow>
         (if rtrf_metaRsp s \<noteq> [] then (if rme_valid m then rtr_send m sm else sm)\<lparr>rtr_state := RT_MAIN\<rparr> else s))"

definition retransmitter :: "bool \<Rightarrow> retransMetaEntry \<Rightarrow> rtr_st \<Rightarrow> rtr_st" where
  "retransmitter full u = process_retransmissions u \<circ> retrans_meta_table \<circ> retrans_pointer_table \<circ> freelist_handler full"

subsection \<open>Walking along a list\<close>

definition rtr_link :: "retransMetaEntry \<Rightarrow> link" where
  "rtr_link e = \<lparr>ln_valid = rme_valid e, ln_isTail = rme_isTail e, ln_next = rme_next e\<rparr>"

text \<open>A pass calls the tables and the process once.\<close>

definition rtr_pass :: "retransMetaEntry \<Rightarrow> rtr_st \<Rightarrow> rtr_st" where
  "rtr_pass u = process_retransmissions u \<circ> retrans_meta_table \<circ> retrans_pointer_table"

text \<open>Nothing is under way between the processes.\<close>

definition rtr_quiet :: "rtr_st \<Rightarrow> bool" where
  "rtr_quiet s \<longleftrightarrow> rtrf_pointerReq s = [] \<and> rtrf_pointerUpd s = [] \<and> rtrf_pointerRsp s = [] \<and> \<not> pt_wait s \<and> rtrf_metaReq s = []
     \<and> rtrf_metaRsp s = []"

text \<open>The process is about to get the entry \<open>i\<close>.\<close>

definition rtr_walks :: "rx_fsm \<Rightarrow> retransMetaEntry \<Rightarrow> u16 \<Rightarrow> rtr_st \<Rightarrow> bool" where
  "rtr_walks st u i s \<longleftrightarrow> rtr_state s = st \<and> rtr_quiet (s\<lparr>rtrf_metaReq := []\<rparr>) \<and> rtrf_metaReq s = [retransMetaReq_read u i]"

lemma rtr_pass_walk:
  assumes "rtr_walks st u i s"
  shows "rtr_pass u s = process_retransmissions u (s\<lparr>rtrf_metaReq := [], rtrf_metaRsp := [rtr_meta_table s i]\<rparr>)"
  using assms by (simp add: rtr_walks_def rtr_quiet_def rtr_pass_def retrans_pointer_table_def retrans_meta_table_def
      retransMetaReq_read_def rtr_meta_apply_def)

lemma rtr_step_walk:
  assumes "rtr_walks st u i s" and "chain (rtr_link \<circ> rtr_meta_table s) i (i # is)" and "m = rtr_meta_table s i"
  shows "rme_valid m" and "rme_isTail m \<longleftrightarrow> is = []" and "is \<noteq> [] \<Longrightarrow> chain (rtr_link \<circ> rtr_meta_table s) (rme_next m) is"
  using assms(2) chain_rest[OF assms(2)] by (auto simp: assms(3) rtr_link_def)

subsection \<open>Sending again\<close>

lemma retrans2_walk:
  assumes "rtr_walks RETRANS_2 u i s" and "chain (rtr_link \<circ> rtr_meta_table s) i is"
  shows "\<exists>t. (rtr_pass u ^^ length is) s = t \<and> rtr_state t = RT_MAIN
    \<and> rtrf_event t = rtrf_event s @ map (event_of (rex_qpn (rtr_retrans s)) \<circ> rtr_meta_table s) is"
  using assms
proof (induction "is" arbitrary: s i)
  case (Cons j "is")
  then have j: "j = i" by simp
  define m where "m = rtr_meta_table s i"
  note f = rtr_step_walk[OF Cons.prems(1) Cons.prems(2)[unfolded j] m_def]
  note q = Cons.prems(1)[unfolded rtr_walks_def rtr_quiet_def]
  define t where "t = rtr_pass u s"
  have t: "t = rtr_send m (rtr_follow u m (s\<lparr>rtrf_metaReq := [], rtrf_metaRsp := [], rtr_meta := m\<rparr>))"
    using rtr_pass_walk[OF Cons.prems(1)] q f(1) by (simp add: t_def process_retransmissions_def m_def Let_def)
  show ?case
  proof (cases "is = []")
    case True
    then show ?thesis using t f(2) j q by (simp add: rtr_send_def rtr_follow_def m_def flip: t_def)
  next
    case False
    then have w: "rtr_walks RETRANS_2 u (rme_next m) t" using t f(2) q
      by (simp add: rtr_walks_def rtr_quiet_def rtr_send_def rtr_follow_def rtr_ask_meta_def)
    have same: "rtr_meta_table t = rtr_meta_table s" "rtr_retrans t = rtr_retrans s"
      "rtrf_event t = rtrf_event s @ [event_of (rex_qpn (rtr_retrans s)) m]"
      using t f(2) False by (simp_all add: rtr_send_def rtr_follow_def rtr_ask_meta_def)
    have c: "chain (rtr_link \<circ> rtr_meta_table t) (rme_next m) is" using f(3)[OF False] same(1) by simp
    show ?thesis using Cons.IH[OF w c] same j
      by (simp add: funpow_Suc_right m_def del: funpow.simps flip: t_def)
  qed
qed simp

lemma retrans1_walk:
  assumes "rtr_walks RETRANS_1 u i s" and "chain (rtr_link \<circ> rtr_meta_table s) i is"
  shows "\<exists>t. (rtr_pass u ^^ length is) s = t \<and> rtr_state t = RT_MAIN
    \<and> rtrf_event t = rtrf_event s @ map (event_of (rex_qpn (rtr_retrans s)) \<circ> rtr_meta_table s)
        (dropWhile (\<lambda>j. rme_psn (rtr_meta_table s j) \<noteq> rex_psn (rtr_retrans s)) is)"
  using assms
proof (induction "is" arbitrary: s i)
  case (Cons j "is")
  then have j: "j = i" by simp
  define m where "m = rtr_meta_table s i"
  note f = rtr_step_walk[OF Cons.prems(1) Cons.prems(2)[unfolded j] m_def]
  note q = Cons.prems(1)[unfolded rtr_walks_def rtr_quiet_def]
  define here where "here \<longleftrightarrow> rme_psn m = rex_psn (rtr_retrans s)"
  define t where "t = rtr_pass u s"
  have t: "t = (let t = rtr_follow u m (s\<lparr>rtrf_metaReq := [], rtrf_metaRsp := [], rtr_meta := m\<rparr>) in
      if here then (let t = rtr_send m t in if \<not> rme_isTail m then t\<lparr>rtr_state := RETRANS_2\<rparr> else t) else t)"
    using rtr_pass_walk[OF Cons.prems(1)] q f(1)
    by (simp add: t_def process_retransmissions_def m_def here_def rtr_follow_def rtr_ask_meta_def Let_def)
  have run: "(rtr_pass u ^^ length (j # is)) s = (rtr_pass u ^^ length is) t" by (simp add: funpow_Suc_right t_def del: funpow.simps)
  show ?case
  proof (cases "is = []")
    case True
    then show ?thesis using t f(2) j unfolding run
      by (auto simp: rtr_send_def rtr_follow_def m_def here_def Let_def)
  next
    case False
    have same: "rtr_meta_table t = rtr_meta_table s" "rtr_retrans t = rtr_retrans s"
      "rtrf_event t = rtrf_event s @ (if here then [event_of (rex_qpn (rtr_retrans s)) m] else [])"
      using t f(2) False by (simp_all add: rtr_send_def rtr_follow_def rtr_ask_meta_def Let_def)
    have w: "rtr_walks (if here then RETRANS_2 else RETRANS_1) u (rme_next m) t" using t f(2) q False
      by (simp add: rtr_walks_def rtr_quiet_def rtr_send_def rtr_follow_def rtr_ask_meta_def Let_def)
    have c: "chain (rtr_link \<circ> rtr_meta_table t) (rme_next m) is" using f(3)[OF False] same(1) by simp
    show ?thesis
    proof (cases here)
      case True
      then show ?thesis using retrans2_walk[OF w[unfolded if_P[OF True]] c] same j unfolding run
        by (simp add: here_def m_def)
    next
      case no: False
      then show ?thesis using Cons.IH[OF w[unfolded if_not_P[OF no]] c] same j unfolding run
        by (simp add: here_def m_def)
    qed
  qed
qed simp

text \<open>The process is idle and has nothing else to do.\<close>

lemma rtr_pass_idle:
  assumes "rtr_quiet s" and "rtr_state s = RT_MAIN"
  shows "rtr_pass u s = rtr_main s"
  using assms by (simp add: rtr_quiet_def rtr_pass_def retrans_pointer_table_def retrans_meta_table_def process_retransmissions_def)

text \<open>A request of the receiver sends the entries from its sequence number to the tail again, in order; but it takes them
  from the list of the queue pair that was last released, and labels them with the queue pair that it names.\<close>

lemma retransmission_of_released_queue:
  assumes "rtr_quiet s" and "rtr_state s = RT_MAIN" and "rtrf_release_upd s = []" and "rtrf_insertRequest s = []"
    and "rtrf_rx_req s = r # rs" and "p = rtr_ptr_table s (rel_qpn (rtr_release s))" and "rpe_valid p"
    and "chain (rtr_link \<circ> rtr_meta_table s) (rpe_head p) is"
  shows "\<exists>t. (rtr_pass u ^^ (length is + 2)) s = t \<and> rtr_state t = RT_MAIN
    \<and> rtrf_event t = rtrf_event s @ map (event_of (rex_qpn r) \<circ> rtr_meta_table s)
        (dropWhile (\<lambda>j. rme_psn (rtr_meta_table s j) \<noteq> rex_psn r) is)"
proof -
  note q = assms(1)[unfolded rtr_quiet_def]
  define s1 where "s1 = rtr_pass u s"
  have s1: "s1 = s\<lparr>rtr_retrans := r, rtrf_rx_req := rs, rtr_state := RETRANS_0,
      rtrf_pointerReq := [pointerReq_of (rel_qpn (rtr_release s))]\<rparr>"
    using rtr_pass_idle[OF assms(1,2)] assms(3-5) q by (simp add: s1_def rtr_main_def rtr_ask_ptr_def)
  define s2 where "s2 = rtr_pass u s1"
  have s2: "s2 = s1\<lparr>rtrf_pointerReq := [], pt_req := pointerReq_of (rel_qpn (rtr_release s)), rtrf_pointerRsp := [], rtr_ptrMeta := p,
      rtrf_metaReq := [retransMetaReq_read u (rpe_head p)], rtr_curr := rpe_head p, rtr_state := RETRANS_1\<rparr>"
    using s1 q assms(6,7) by (simp add: s2_def rtr_pass_def retrans_pointer_table_def retrans_meta_table_def process_retransmissions_def
        pointerReq_of_def rtr_ask_meta_def Let_def)
  have "rtr_walks RETRANS_1 u (rpe_head p) s2" using s2 s1 q by (simp add: rtr_walks_def rtr_quiet_def)
  moreover have "rtr_meta_table s2 = rtr_meta_table s" "rtr_retrans s2 = r" "rtrf_event s2 = rtrf_event s"
    using s2 s1 by simp_all
  moreover have "(rtr_pass u ^^ (length is + 2)) s = (rtr_pass u ^^ length is) s2"
    by (simp only: funpow_add comp_apply s2_def s1_def numeral_2_eq_2 funpow_Suc_right funpow_0)
  ultimately show ?thesis using retrans1_walk[of u "rpe_head p" s2 "is"] assms(8) by simp
qed

subsection \<open>Releasing\<close>

lemma release_walk:
  assumes "rtr_walks RELEASE_1 u i s" and "rtr_curr s = i" and "chain (rtr_link \<circ> rtr_meta_table s) i (is @ [a] @ post)"
    and "\<forall>j \<in> set is. rme_psn (rtr_meta_table s j) \<noteq> rel_latest_acked_req (rtr_release s)"
    and "rme_psn (rtr_meta_table s a) = rel_latest_acked_req (rtr_release s)"
  shows "\<exists>t. (rtr_pass u ^^ (length is + 1)) s = t \<and> rtr_state t = RT_MAIN
    \<and> rtrf_release t = rtrf_release s @ tl (is @ [a]) @ [a]
    \<and> rtrf_pointerUpd t = [\<lparr>pup_qpn = rel_qpn (rtr_release s), pup_entry = (rtr_ptrMeta s)\<lparr>rpe_head := rme_next (rtr_meta_table s a),
         rpe_valid := post \<noteq> []\<rparr>\<rparr>]"
  using assms
proof (induction "is" arbitrary: s i)
  case Nil
  note q = Nil.prems(1)[unfolded rtr_walks_def rtr_quiet_def]
  have i: "i = a" using Nil.prems(3) by auto
  have "chain (rtr_link \<circ> rtr_meta_table s) i (i # post)" using Nil.prems(3) unfolding i by (simp only: append.simps)
  note f = rtr_step_walk(1,2)[OF Nil.prems(1) this refl]
  define m where "m = rtr_meta_table s i"
  have "rtr_pass u s = rtr_release_at u m (s\<lparr>rtrf_metaReq := [], rtrf_metaRsp := [], rtr_meta := m\<rparr>)"
    using rtr_pass_walk[OF Nil.prems(1)] q by (simp add: process_retransmissions_def m_def Let_def)
  then show ?case using Nil.prems(2,5) f i q
    by (simp add: rtr_release_at_def rtr_put_ptr_def m_def)
next
  case (Cons j "is")
  note q = Cons.prems(1)[unfolded rtr_walks_def rtr_quiet_def]
  have j: "j = i" using Cons.prems(3) by simp
  define m where "m = rtr_meta_table s i"
  have f: "rme_valid m" "\<not> rme_isTail m" "chain (rtr_link \<circ> rtr_meta_table s) (rme_next m) (is @ [a] @ post)"
    using rtr_step_walk[OF Cons.prems(1) Cons.prems(3)[unfolded j append_Cons] m_def] by simp_all
  define t where "t = rtr_pass u s"
  have t: "t = s\<lparr>rtrf_metaReq := [retransMetaReq_read u (rme_next m)], rtrf_metaRsp := [], rtr_meta := m, rtr_curr := rme_next m,
      rtrf_release := rtrf_release s @ [rme_next m]\<rparr>"
    using rtr_pass_walk[OF Cons.prems(1)] q f(1,2) Cons.prems(4) j
    by (simp add: t_def process_retransmissions_def rtr_release_at_def rtr_ask_meta_def Let_def m_def)
  have w: "rtr_walks RELEASE_1 u (rme_next m) t" using t q by (simp add: rtr_walks_def rtr_quiet_def)
  have same: "rtr_meta_table t = rtr_meta_table s" "rtr_release t = rtr_release s" "rtr_curr t = rme_next m" "rtr_ptrMeta t = rtr_ptrMeta s"
    "rtrf_release t = rtrf_release s @ [rme_next m]" using t by simp_all
  have hd: "rme_next m = hd (is @ [a])" using f(3) by (cases "is") auto
  then have "tl ((j # is) @ [a]) = rme_next m # tl (is @ [a])" by (cases "is") auto
  moreover have "(rtr_pass u ^^ (length (j # is) + 1)) s = (rtr_pass u ^^ (length is + 1)) t"
    by (simp add: funpow_Suc_right t_def del: funpow.simps)
  moreover have "\<forall>j \<in> set is. rme_psn (rtr_meta_table s j) \<noteq> rel_latest_acked_req (rtr_release s)" using Cons.prems(4) by simp
  ultimately show ?case using Cons.IH[OF w, unfolded same, OF refl f(3) _ Cons.prems(5)] by (simp del: funpow.simps)
qed

text \<open>C27. A release up to the entry \<open>a\<close> takes the entries before it and \<open>a\<close> out of the list, but it gives the wrong cells back:
  the first cell is never freed, and when there is an entry before \<open>a\<close> the cell of \<open>a\<close> is freed twice.\<close>

theorem release_frees_wrong_cells:
  assumes "rtr_quiet s" and "\<not> pt_isLocked s" and "rtr_state s = RT_MAIN" and "rtrf_release_upd s = r # rs"
    and "p = rtr_ptr_table s (rel_qpn r)" and "rpe_valid p" and "chain (rtr_link \<circ> rtr_meta_table s) (rpe_head p) (is @ [a] @ post)"
    and "\<forall>j \<in> set is. rme_psn (rtr_meta_table s j) \<noteq> rel_latest_acked_req r" and "rme_psn (rtr_meta_table s a) = rel_latest_acked_req r"
  shows "\<exists>t. (rtr_pass u ^^ (length is + 3)) s = t \<and> rtr_state t = RT_MAIN
    \<and> rtrf_release t = rtrf_release s @ tl (is @ [a]) @ [a]
    \<and> rtrf_pointerUpd t = [\<lparr>pup_qpn = rel_qpn r, pup_entry = p\<lparr>rpe_head := rme_next (rtr_meta_table s a), rpe_valid := post \<noteq> []\<rparr>\<rparr>]"
proof -
  note q = assms(1)[unfolded rtr_quiet_def]
  define s1 where "s1 = rtr_pass u s"
  have s1: "s1 = s\<lparr>rtr_release := r, rtrf_release_upd := rs, rtr_state := RELEASE_0,
      rtrf_pointerReq := [\<lparr>prq_qpn = rel_qpn r, prq_lock = True\<rparr>]\<rparr>"
    using rtr_pass_idle[OF assms(1,3)] assms(4) q by (simp add: s1_def rtr_main_def rtr_ask_ptr_def)
  define s2 where "s2 = rtr_pass u s1"
  have s2: "s2 = s1\<lparr>rtrf_pointerReq := [], pt_req := \<lparr>prq_qpn = rel_qpn r, prq_lock = True\<rparr>, rtrf_pointerRsp := [], pt_isLocked := True,
      pt_lockedQP := rel_qpn r, rtr_ptrMeta := p, rtrf_metaReq := [retransMetaReq_read u (rpe_head p)], rtr_curr := rpe_head p,
      rtr_state := RELEASE_1\<rparr>"
    using s1 q assms(2,5,6) by (simp add: s2_def rtr_pass_def retrans_pointer_table_def retrans_meta_table_def process_retransmissions_def
        pt_grant_def rtr_ask_meta_def Let_def)
  have w: "rtr_walks RELEASE_1 u (rpe_head p) s2" "rtr_curr s2 = rpe_head p" "rtr_ptrMeta s2 = p" "rtr_release s2 = r"
    "rtr_meta_table s2 = rtr_meta_table s" "rtrf_release s2 = rtrf_release s"
    using s2 s1 q by (simp_all add: rtr_walks_def rtr_quiet_def)
  have run: "(rtr_pass u ^^ (length is + 3)) s = (rtr_pass u ^^ (length is + 1)) s2"
    by (simp add: s2_def s1_def numeral_3_eq_3 funpow_Suc_right del: funpow.simps)
  show ?thesis
    using release_walk[OF w(1,2), of "is" a post, unfolded w(3-6), OF assms(7-9)] unfolding run by blast
qed

text \<open>Two entries in a list, and the one that starts it.\<close>

definition rtr_cell :: "24 word \<Rightarrow> u16 \<Rightarrow> bool \<Rightarrow> retransMetaEntry" where
  "rtr_cell p n t = \<lparr>rme_psn = p, rme_next = n, rme_opCode = RC_RDMA_WRITE_ONLY, rme_localAddr = 0, rme_remoteAddr = 0, rme_length = 64,
     rme_valid = True, rme_isTail = t\<rparr>"

definition rtr_demo :: "u16 \<Rightarrow> rtr_st" where
  "rtr_demo q = \<lparr>rtr_ptr_table = (\<lambda>_. \<lparr>rpe_head = 0, rpe_tail = 0, rpe_valid = False\<rparr>)(q := \<lparr>rpe_head = 0, rpe_tail = 1, rpe_valid = True\<rparr>),
     pt_lockedQP = 0, pt_isLocked = False, pt_wait = False, pt_req = pointerReq_of 0, rtr_freeListCounter = 2,
     rtr_meta_table = (\<lambda>_. rtr_cell 11 0 True)(0 := rtr_cell 10 1 False), rtr_state = RT_MAIN,
     rtr_release = \<lparr>rel_qpn = q, rel_latest_acked_req = 9\<rparr>, rtr_curr = 0, rtr_newMetaIdx = 0,
     rtr_insert = \<lparr>ren_qpn = 0, ren_psn = 0, ren_opCode = RC_ACK, ren_localAddr = 0, ren_remoteAddr = 0, ren_length = 0\<rparr>,
     rtr_retrans = \<lparr>rex_qpn = 0, rex_psn = 0\<rparr>, rtr_meta = rtr_cell 0 0 False,
     rtr_ptrMeta = \<lparr>rpe_head = 0, rpe_tail = 0, rpe_valid = False\<rparr>, rtrf_release_upd = [], rtrf_rx_req = [], rtrf_timer_req = [],
     rtrf_insertRequest = [], rtrf_event = [], rtrf_pointerReq = [], rtrf_pointerUpd = [], rtrf_pointerRsp = [], rtrf_metaReq = [],
     rtrf_metaRsp = [], rtrf_freeList = [], rtrf_release = []\<rparr>"

lemma rtr_demo_chain: "chain (rtr_link \<circ> rtr_meta_table (rtr_demo q)) 0 [0, 1]"
  by (simp add: rtr_demo_def rtr_cell_def rtr_link_def)

lemma release_frees_wrong_cells_witness:
  "rtrf_release ((rtr_pass (rtr_cell 0 0 False) ^^ 4) (rtr_demo 7\<lparr>rtrf_release_upd := [\<lparr>rel_qpn = 7, rel_latest_acked_req = 11\<rparr>]\<rparr>)) = [1, 1]"
proof -
  define s where "s = rtr_demo 7\<lparr>rtrf_release_upd := [\<lparr>rel_qpn = 7, rel_latest_acked_req = 11\<rparr>]\<rparr>"
  have "rtr_quiet s" "\<not> pt_isLocked s" "rtr_state s = RT_MAIN" "rtrf_release_upd s = [\<lparr>rel_qpn = 7, rel_latest_acked_req = 11\<rparr>]"
    "rtr_ptr_table s 7 = \<lparr>rpe_head = 0, rpe_tail = 1, rpe_valid = True\<rparr>" "rtr_meta_table s = rtr_meta_table (rtr_demo 7)"
    "rtrf_release s = []" "rme_psn (rtr_meta_table s 0) = 10" "rme_psn (rtr_meta_table s 1) = 11"
    by (simp_all add: s_def rtr_demo_def rtr_quiet_def rtr_cell_def)
  then have "rtrf_release ((rtr_pass (rtr_cell 0 0 False) ^^ (length [0 :: u16] + 3)) s) = [1, 1]"
    using release_frees_wrong_cells[of s "\<lparr>rel_qpn = 7, rel_latest_acked_req = 11\<rparr>" "[]" "\<lparr>rpe_head = 0, rpe_tail = 1, rpe_valid = True\<rparr>"
        "[0]" 1 "[]" "rtr_cell 0 0 False"] rtr_demo_chain[of 7] by (simp del: funpow.simps list.size)
  then show ?thesis by (simp add: s_def)
qed

lemma retransmission_of_released_queue_witness:
  "rtrf_event ((rtr_pass (rtr_cell 0 0 False) ^^ 4) (rtr_demo 7\<lparr>rtrf_rx_req := [\<lparr>rex_qpn = 3, rex_psn = 11\<rparr>]\<rparr>))
     = [event_of 3 (rtr_cell 11 0 True)]"
proof -
  define s where "s = rtr_demo 7\<lparr>rtrf_rx_req := [\<lparr>rex_qpn = 3, rex_psn = 11\<rparr>]\<rparr>"
  have "rtr_quiet s" "rtr_state s = RT_MAIN" "rtrf_release_upd s = []" "rtrf_insertRequest s = []"
    "rtrf_rx_req s = [\<lparr>rex_qpn = 3, rex_psn = 11\<rparr>]" "rel_qpn (rtr_release s) = 7"
    "rtr_ptr_table s 7 = \<lparr>rpe_head = 0, rpe_tail = 1, rpe_valid = True\<rparr>" "rtr_meta_table s = rtr_meta_table (rtr_demo 7)"
    "rtrf_event s = []" "rtr_meta_table s 0 = rtr_cell 10 1 False" "rtr_meta_table s 1 = rtr_cell 11 0 True"
    by (simp_all add: s_def rtr_demo_def rtr_quiet_def)
  moreover have "rme_psn (rtr_cell p n t) = p" for p n t by (simp add: rtr_cell_def)
  ultimately have "rtrf_event ((rtr_pass (rtr_cell 0 0 False) ^^ (length [0 :: u16, 1] + 2)) s) = [event_of 3 (rtr_cell 11 0 True)]"
    using retransmission_of_released_queue[of s "\<lparr>rex_qpn = 3, rex_psn = 11\<rparr>" "[]" "\<lparr>rpe_head = 0, rpe_tail = 1, rpe_valid = True\<rparr>"
        "[0, 1]" "rtr_cell 0 0 False"] rtr_demo_chain[of 7] by (simp del: funpow.simps list.size)
  then show ?thesis by (simp add: s_def eval_nat_numeral)
qed

end
