(* ===== verification/Kernel_Tx.thy ===== *)
theory Kernel_Tx
  imports Toe_Types
begin

text \<open>
  The sending half of the kernel library \<^verbatim>\<open>communication.hpp\<close>: \<^verbatim>\<open>sendData\<close>, \<^verbatim>\<open>scatter\<close>,
  \<^verbatim>\<open>sendDataSingleCon\<close> and \<^verbatim>\<open>broadcast\<close>, which announce a packet to the TCP stack on the metadata
  stream, wait for the answer and then write the words of the packet.

  The loops are modelled by the steps between two reads of a stream: one step is an iteration up
  to and including the choice of the branch, or one word of the inner loop. A read from an empty
  stream waits, which is a step that changes nothing. \<^verbatim>\<open>int\<close> counters that only count up are
  natural numbers.
\<close>

subsection \<open>Packets of the streams\<close>

record pkt512 =
  p5_data :: "512 word"
  p5_keep :: "64 word"
  p5_last :: bool

definition copy_blocks :: "512 word \<Rightarrow> 512 word" where
  "copy_blocks d = fold (\<lambda>i w. range_set (i * 64 + 63) (i * 64) (range_get (i * 64 + 63) (i * 64) d :: 64 word) w) [0..<8] 0"

definition full_keep :: "64 word" where
  "full_keep = fold (\<lambda>i w. range_set (i * 8 + 7) (i * 8) (0xFF :: 8 word) w) [0..<8] 0"

definition data_pkt :: "512 word \<Rightarrow> bool \<Rightarrow> pkt512" where
  "data_pkt d l = \<lparr>p5_data = copy_blocks d, p5_keep = full_keep, p5_last = l\<rparr>"

definition tx_meta_pkt :: "sid \<Rightarrow> u16 \<Rightarrow> u32" where
  "tx_meta_pkt i len = range_set 31 16 len (range_set 15 0 i 0)"

definition txStatus_of :: "64 word \<Rightarrow> appTxRsp" where
  "txStatus_of w = \<lparr>atr_sessionID = range_get 15 0 w, atr_length = range_get 31 16 w,
     atr_remaining_space = range_get 61 32 w, atr_error = range_get 63 62 w\<rparr>"

subsection \<open>The state of a sender\<close>

datatype ktx_pc = KTX_START | KTX_LOOP | KTX_WORDS | KTX_DONE

text \<open>\<open>ktx_j\<close> is the index of the inner loop, \<open>ktx_buf\<close> the static \<^verbatim>\<open>broadCastBuffer\<close>.\<close>

record ktx_st =
  ktx_pc :: ktx_pc
  ktx_sent :: "64 word"
  ktx_cur :: nat
  ktx_index :: nat
  ktx_j :: nat
  ktx_buf :: "nat \<Rightarrow> 512 word"
  ktx_meta :: "u32 fifo"
  ktx_data :: "pkt512 fifo"
  ktx_status :: "64 word fifo"
  ktx_in :: "512 word fifo"

text \<open>The configuration: the session table, the number of connections, the bytes to send, the words of a packet.\<close>

record ktx_cfg =
  kc_session :: "nat \<Rightarrow> sid"
  kc_useConn :: nat
  kc_expected :: "64 word"
  kc_words :: nat

definition ktx_test :: "ktx_cfg \<Rightarrow> ktx_st \<Rightarrow> ktx_st" where
  "ktx_test c s = s\<lparr>ktx_pc := if ktx_sent s < kc_expected c then KTX_LOOP else KTX_DONE\<rparr>"

definition ktx_announce :: "ktx_cfg \<Rightarrow> ktx_st \<Rightarrow> ktx_st" where
  "ktx_announce c s = s\<lparr>ktx_meta := ktx_meta s @ [tx_meta_pkt (kc_session c (ktx_index s)) (of_nat (kc_words c * 64))]\<rparr>"

definition ktx_request :: "ktx_cfg \<Rightarrow> ktx_st \<Rightarrow> ktx_st" where
  "ktx_request c s =
    (if ktx_sent s < kc_expected c
     then if unat (ktx_sent s) + kc_words c * 64 < unat (kc_expected c)
          then (ktx_announce c s)\<lparr>ktx_cur := kc_words c\<rparr>
          else let rest = unat (kc_expected c) - unat (ktx_sent s) in
            s\<lparr>ktx_meta := ktx_meta s @ [tx_meta_pkt (kc_session c (ktx_index s)) (of_nat rest)], ktx_cur := rest div 64\<rparr>
     else s)"

definition ktx_refused :: "appTxRsp \<Rightarrow> ktx_st \<Rightarrow> ktx_st" where
  "ktx_refused r s = (if atr_error r = 1 then s
     else s\<lparr>ktx_meta := ktx_meta s @ [tx_meta_pkt (atr_sessionID r) (atr_length r)]\<rparr>)"

definition ktx_write :: "512 word \<Rightarrow> ktx_st \<Rightarrow> ktx_st" where
  "ktx_write d s = s\<lparr>ktx_data := ktx_data s @ [data_pkt d (ktx_j s + 1 = ktx_cur s)], ktx_j := ktx_j s + 1\<rparr>"

subsection \<open>sendData, scatter and sendDataSingleCon\<close>

definition snd_accepted :: "ktx_cfg \<Rightarrow> appTxRsp \<Rightarrow> ktx_st \<Rightarrow> ktx_st" where
  "snd_accepted c r s = (ktx_request c (s\<lparr>ktx_sent := ktx_sent s + ucast (atr_length r),
     ktx_index := (if ktx_index s + 1 = kc_useConn c then 0 else ktx_index s + 1)\<rparr>))\<lparr>ktx_pc := KTX_WORDS, ktx_j := 0\<rparr>"

text \<open>\<open>blocking\<close>: the status is read without asking whether there is one.\<close>

definition snd_step :: "bool \<Rightarrow> ktx_cfg \<Rightarrow> ktx_st \<Rightarrow> ktx_st" where
  "snd_step blocking c s = (case ktx_pc s of
     KTX_START \<Rightarrow> ktx_test c (ktx_announce c s)
   | KTX_LOOP \<Rightarrow> (case ktx_status s of
        [] \<Rightarrow> if blocking then s else ktx_test c s
      | w # ws \<Rightarrow> let r = txStatus_of w; s1 = s\<lparr>ktx_status := ws\<rparr> in
          if atr_error r = 0 then snd_accepted c r s1 else ktx_test c (ktx_refused r s1))
   | KTX_WORDS \<Rightarrow>
       if ktx_j s < ktx_cur s
       then (case ktx_in s of [] \<Rightarrow> s | d # ds \<Rightarrow> ktx_write d (s\<lparr>ktx_in := ds\<rparr>))
       else ktx_test c s
   | KTX_DONE \<Rightarrow> s)"

definition sendData :: "ktx_cfg \<Rightarrow> ktx_st \<Rightarrow> ktx_st" where
  "sendData = snd_step True"

definition scatter :: "ktx_cfg \<Rightarrow> ktx_st \<Rightarrow> ktx_st" where
  "scatter = snd_step False"

definition sendDataSingleCon :: "sid \<Rightarrow> ktx_cfg \<Rightarrow> ktx_st \<Rightarrow> ktx_st" where
  "sendDataSingleCon i c = snd_step False (c\<lparr>kc_session := \<lambda>_. i\<rparr>)"

subsection \<open>broadcast\<close>

definition bc_accepted :: "ktx_cfg \<Rightarrow> appTxRsp \<Rightarrow> ktx_st \<Rightarrow> ktx_st" where
  "bc_accepted c r s = (ktx_request c
     (if ktx_index s + 1 = kc_useConn c
      then s\<lparr>ktx_sent := ktx_sent s + ucast (atr_length r), ktx_index := 0\<rparr>
      else s\<lparr>ktx_index := ktx_index s + 1\<rparr>))\<lparr>ktx_pc := KTX_WORDS, ktx_j := 0\<rparr>"

definition bc_store :: "512 word \<Rightarrow> ktx_st \<Rightarrow> ktx_st" where
  "bc_store d s = s\<lparr>ktx_buf := (ktx_buf s)(ktx_j s := d)\<rparr>"

definition broadcast :: "ktx_cfg \<Rightarrow> ktx_st \<Rightarrow> ktx_st" where
  "broadcast c s = (case ktx_pc s of
     KTX_START \<Rightarrow> (ktx_announce c s)\<lparr>ktx_pc := KTX_LOOP\<rparr>
   | KTX_LOOP \<Rightarrow> (case ktx_status s of
        [] \<Rightarrow> ktx_test c s
      | w # ws \<Rightarrow> let r = txStatus_of w; s1 = s\<lparr>ktx_status := ws\<rparr> in
          if atr_error r = 0 then bc_accepted c r s1 else ktx_test c (ktx_refused r s1))
   | KTX_WORDS \<Rightarrow>
       if ktx_j s < ktx_cur s
       then if ktx_index s = 1
            then (case ktx_in s of [] \<Rightarrow> s | d # ds \<Rightarrow> ktx_write d (bc_store d (s\<lparr>ktx_in := ds\<rparr>)))
            else ktx_write (ktx_buf s (ktx_j s)) s
       else ktx_test c s
   | KTX_DONE \<Rightarrow> s)"

definition ktx_init :: "(nat \<Rightarrow> 512 word) \<Rightarrow> 512 word list \<Rightarrow> ktx_st" where
  "ktx_init buf ds = \<lparr>ktx_pc = KTX_START, ktx_sent = 0, ktx_cur = 0, ktx_index = 0, ktx_j = 0, ktx_buf = buf,
     ktx_meta = [], ktx_data = [], ktx_status = [], ktx_in = ds\<rparr>"

subsection \<open>The data words and the codes\<close>

lemma upt8: "[0..<8] = [0, 1, 2, 3, 4, 5, 6, 7 :: nat]"
  by (simp add: upt_rec)

lemma copy_blocks_id [simp]: "copy_blocks d = d"
proof (rule bit_word_eqI)
  fix n assume "n < LENGTH(512)"
  then show "bit (copy_blocks d) n = bit d n"
    unfolding copy_blocks_def upt8 by (simp add: bit_range_set bit_range_get) auto
qed

lemma txStatus_fields [simp]:
  "atr_sessionID (txStatus_of w) = range_get 15 0 w" "atr_length (txStatus_of w) = range_get 31 16 w"
  "atr_error (txStatus_of w) = range_get 63 62 w"
  by (simp_all add: txStatus_of_def)

lemma tx_meta_fields [simp]:
  "(range_get 15 0 (tx_meta_pkt i len) :: sid) = i" "(range_get 31 16 (tx_meta_pkt i len) :: u16) = len"
  by (simp_all add: tx_meta_pkt_def range_get_set_same range_get_set_other)

subsection \<open>The stack that answers\<close>

text \<open>
  The stack answers the requests in their order, each with its session and length, the space it
  has and an error code. \<open>kev_oks\<close> collects the requests it has accepted.
\<close>

definition status_pkt :: "u32 \<Rightarrow> 30 word \<Rightarrow> 2 word \<Rightarrow> 64 word" where
  "status_pkt m sp e = range_set 63 62 e (range_set 61 32 sp (range_set 31 0 m 0))"

lemma status_fields [simp]:
  "(range_get 63 62 (status_pkt m sp e) :: 2 word) = e"
  "(range_get 15 0 (status_pkt m sp e) :: sid) = range_get 15 0 m"
  "(range_get 31 16 (status_pkt m sp e) :: u16) = range_get 31 16 m"
  unfolding status_pkt_def
  by (intro bit_word_eqI; simp add: bit_range_get bit_range_set; force)+

record kenv =
  ke_st :: ktx_st
  ke_answered :: nat
  ke_oks :: "u32 list"

datatype ktx_event = Run_Step | Answer "30 word" "2 word"

fun ktx_exec :: "(ktx_st \<Rightarrow> ktx_st) \<Rightarrow> ktx_event \<Rightarrow> kenv \<Rightarrow> kenv" where
  "ktx_exec f Run_Step k = k\<lparr>ke_st := f (ke_st k)\<rparr>"
| "ktx_exec f (Answer sp e) k =
    (if ke_answered k < length (ktx_meta (ke_st k))
     then let m = ktx_meta (ke_st k) ! ke_answered k in
       k\<lparr>ke_st := (ke_st k)\<lparr>ktx_status := ktx_status (ke_st k) @ [status_pkt m sp e]\<rparr>,
         ke_answered := ke_answered k + 1, ke_oks := (if e = 0 then ke_oks k @ [m] else ke_oks k)\<rparr>
     else k)"

fun ktx_permitted :: "ktx_event \<Rightarrow> bool" where
  "ktx_permitted Run_Step = True"
| "ktx_permitted (Answer sp e) = (e \<noteq> 1)"

definition kenv_init :: "(nat \<Rightarrow> 512 word) \<Rightarrow> 512 word list \<Rightarrow> kenv" where
  "kenv_init buf ds = \<lparr>ke_st = ktx_init buf ds, ke_answered = 0, ke_oks = []\<rparr>"

subsection \<open>One request at a time\<close>

text \<open>
  What the senders have in common. Packet \<open>a\<close> of \<open>n\<close> is announced by \<open>req a\<close> and consists of the
  words \<open>pk a\<close>; \<open>G a\<close> holds of a state that waits for the answer to \<open>req a\<close>, \<open>W a j\<close> of one that
  has written \<open>j\<close> words of the packet. \<open>complete\<close>: there is input for all packets.
\<close>

definition ktx_asks :: "(nat \<Rightarrow> u32) \<Rightarrow> nat \<Rightarrow> kenv \<Rightarrow> bool" where
  "ktx_asks req a k \<longleftrightarrow> ktx_meta (ke_st k) \<noteq> [] \<and>
    (ke_answered k + 1 = length (ktx_meta (ke_st k)) \<and> last (ktx_meta (ke_st k)) = req a \<and> ktx_status (ke_st k) = []
       \<and> length (ke_oks k) = a
     \<or> ke_answered k = length (ktx_meta (ke_st k)) \<and> (\<exists>sp e. ktx_status (ke_st k) = [status_pkt (req a) sp e] \<and> e \<noteq> 1
       \<and> length (ke_oks k) = (if e = 0 then a + 1 else a)))"

text \<open>Or the connection of the request was torn down: the answer is on its way, or has been taken, and nothing is asked again.\<close>

definition ktx_lost :: "(nat \<Rightarrow> u32) \<Rightarrow> nat \<Rightarrow> kenv \<Rightarrow> bool" where
  "ktx_lost req a k \<longleftrightarrow> ke_answered k = length (ktx_meta (ke_st k)) \<and> length (ke_oks k) = a
     \<and> (ktx_status (ke_st k) = [] \<or> (\<exists>sp. ktx_status (ke_st k) = [status_pkt (req a) sp 1]))"

definition ktx_idle :: "nat \<Rightarrow> kenv \<Rightarrow> bool" where
  "ktx_idle n k \<longleftrightarrow> ke_answered k = length (ktx_meta (ke_st k)) \<and> ktx_status (ke_st k) = [] \<and> length (ke_oks k) = n"

lemma asks_cong:
  "ktx_meta t = ktx_meta (ke_st k) \<Longrightarrow> ktx_status t = ktx_status (ke_st k) \<Longrightarrow> ktx_asks req a (k\<lparr>ke_st := t\<rparr>) = ktx_asks req a k"
  "ktx_meta t = ktx_meta (ke_st k) \<Longrightarrow> ktx_status t = ktx_status (ke_st k) \<Longrightarrow> ktx_idle m (k\<lparr>ke_st := t\<rparr>) = ktx_idle m k"
  by (simp_all add: ktx_asks_def ktx_idle_def)

locale sender =
  fixes step :: "ktx_st \<Rightarrow> ktx_st"
    and req :: "nat \<Rightarrow> u32"
    and pk :: "nat \<Rightarrow> pkt512 list"
    and n :: nat
    and G :: "nat \<Rightarrow> ktx_st \<Rightarrow> bool"
    and W :: "nat \<Rightarrow> nat \<Rightarrow> ktx_st \<Rightarrow> bool"
    and complete :: bool
    and good :: bool
    and buf :: "nat \<Rightarrow> 512 word"
    and ds :: "512 word list"
  assumes start: "good \<Longrightarrow> 0 < n \<and> G 0 (step (ktx_init buf ds)) \<and> ktx_pc (step (ktx_init buf ds)) = KTX_LOOP
      \<and> ktx_status (step (ktx_init buf ds)) = [] \<and> ktx_data (step (ktx_init buf ds)) = [] \<and> ktx_meta (step (ktx_init buf ds)) = [req 0]"
    and status_G: "G a (s\<lparr>ktx_status := x\<rparr>) = G a s"
    and status_W: "W a j (s\<lparr>ktx_status := x\<rparr>) = W a j s"
    and wait: "G a s \<Longrightarrow> a < n \<Longrightarrow> ktx_pc s = KTX_LOOP \<Longrightarrow> ktx_status s = [] \<Longrightarrow> step s = s"
    and refuse: "G a s \<Longrightarrow> a < n \<Longrightarrow> ktx_pc s = KTX_LOOP \<Longrightarrow> ktx_status s = [status_pkt (req a) sp e] \<Longrightarrow> e \<noteq> 0 \<Longrightarrow>
      G a (step s) \<and> ktx_pc (step s) = KTX_LOOP \<and> ktx_status (step s) = [] \<and> ktx_data (step s) = ktx_data s
      \<and> ktx_meta (step s) = ktx_meta s @ (if e = 1 then [] else [req a])"
    and accept: "G a s \<Longrightarrow> a < n \<Longrightarrow> ktx_pc s = KTX_LOOP \<Longrightarrow> ktx_status s = [status_pkt (req a) sp 0] \<Longrightarrow>
      W a 0 (step s) \<and> ktx_pc (step s) = KTX_WORDS \<and> ktx_status (step s) = [] \<and> ktx_data (step s) = ktx_data s
      \<and> ktx_meta (step s) = ktx_meta s @ (if a + 1 < n then [req (a + 1)] else [])"
    and word: "W a j s \<Longrightarrow> a < n \<Longrightarrow> ktx_pc s = KTX_WORDS \<Longrightarrow> j < length (pk a) \<Longrightarrow>
      step s = s \<and> \<not> complete \<or>
      W a (j + 1) (step s) \<and> ktx_pc (step s) = KTX_WORDS \<and> ktx_status (step s) = ktx_status s
      \<and> ktx_data (step s) = ktx_data s @ [pk a ! j] \<and> ktx_meta (step s) = ktx_meta s"
    and leave: "W a (length (pk a)) s \<Longrightarrow> a < n \<Longrightarrow> ktx_pc s = KTX_WORDS \<Longrightarrow>
      ktx_pc (step s) = (if a + 1 < n then KTX_LOOP else KTX_DONE) \<and> (a + 1 < n \<longrightarrow> G (a + 1) (step s))
      \<and> ktx_status (step s) = ktx_status s \<and> ktx_data (step s) = ktx_data s \<and> ktx_meta (step s) = ktx_meta s"
    and stop: "ktx_pc s = KTX_DONE \<Longrightarrow> step s = s"
begin

text \<open>The invariant: packets before \<open>a\<close> are out, and the requests up to the one under way are accepted.\<close>

definition told :: "kenv \<Rightarrow> bool" where
  "told k \<longleftrightarrow> ke_oks k = map req [0..<length (ke_oks k)]"

definition at_loop :: "nat \<Rightarrow> kenv \<Rightarrow> bool" where
  "at_loop a k \<longleftrightarrow> a < n \<and> told k \<and> ktx_pc (ke_st k) = KTX_LOOP \<and> ktx_asks req a k \<and> G a (ke_st k)
     \<and> ktx_data (ke_st k) = concat (map pk [0..<a])"

definition at_word :: "nat \<Rightarrow> nat \<Rightarrow> kenv \<Rightarrow> bool" where
  "at_word a j k \<longleftrightarrow> a < n \<and> told k \<and> ktx_pc (ke_st k) = KTX_WORDS \<and> W a j (ke_st k) \<and> j \<le> length (pk a)
     \<and> (if a + 1 < n then ktx_asks req (a + 1) k else ktx_idle n k)
     \<and> ktx_data (ke_st k) = concat (map pk [0..<a]) @ take j (pk a)"

definition at_end :: "kenv \<Rightarrow> bool" where
  "at_end k \<longleftrightarrow> told k \<and> ktx_pc (ke_st k) = KTX_DONE \<and> ktx_idle n k \<and> ktx_data (ke_st k) = concat (map pk [0..<n])"

definition running :: "kenv \<Rightarrow> bool" where
  "running k \<longleftrightarrow> (\<exists>a. at_loop a k) \<or> (\<exists>a j. at_word a j k) \<or> at_end k"

lemma asks_answer:
  assumes "ktx_asks req a k" and "told k" and "e \<noteq> 1"
  shows "ktx_asks req a (ktx_exec step (Answer sp e) k) \<and> told (ktx_exec step (Answer sp e) k)"
proof (cases "ke_answered k < length (ktx_meta (ke_st k))")
  case True
  then have w: "ke_answered k + 1 = length (ktx_meta (ke_st k))" "last (ktx_meta (ke_st k)) = req a" "ktx_status (ke_st k) = []"
    "length (ke_oks k) = a" "ktx_meta (ke_st k) \<noteq> []"
    using assms(1) by (auto simp: ktx_asks_def)
  then have "ktx_meta (ke_st k) ! ke_answered k = req a" by (metis add_diff_cancel_right' last_conv_nth)
  then show ?thesis using True w assms(2,3) by (auto simp: ktx_asks_def told_def Let_def)
qed (use assms in simp)

lemma idle_answer: "ktx_idle m k \<Longrightarrow> ktx_exec step (Answer sp e) k = k"
  by (simp add: ktx_idle_def)

lemma answer_frame:
  "ktx_pc (ke_st (ktx_exec step (Answer sp e) k)) = ktx_pc (ke_st k)"
  "ktx_data (ke_st (ktx_exec step (Answer sp e) k)) = ktx_data (ke_st k)"
  "G a (ke_st (ktx_exec step (Answer sp e) k)) = G a (ke_st k)"
  "W a j (ke_st (ktx_exec step (Answer sp e) k)) = W a j (ke_st k)"
  by (simp_all add: Let_def status_G status_W)

lemma running_answer:
  assumes "running k" and "e \<noteq> 1"
  shows "running (ktx_exec step (Answer sp e) k)"
proof -
  note f = answer_frame[where k = k and sp = sp and e = e]
  consider a where "at_loop a k" | a j where "at_word a j k" | "at_end k" using assms(1) running_def by blast
  then show ?thesis
  proof cases
    case (1 a)
    then have "at_loop a (ktx_exec step (Answer sp e) k)"
      using asks_answer[OF _ _ assms(2), of a k sp] f unfolding at_loop_def by (simp del: ktx_exec.simps)
    then show ?thesis by (auto simp: running_def)
  next
    case (2 a j)
    then have "at_word a j (ktx_exec step (Answer sp e) k)"
      using asks_answer[OF _ _ assms(2), of "a + 1" k sp] idle_answer[of n k sp e] f unfolding at_word_def
      by (cases "a + 1 < n") (simp_all del: ktx_exec.simps)
    then show ?thesis by (auto simp: running_def)
  next
    case 3
    then show ?thesis using idle_answer[of n k sp e] by (simp add: at_end_def running_def)
  qed
qed

text \<open>One step of the sender.\<close>

lemma loop_step:
  assumes "at_loop a k"
  shows "at_loop a (ktx_exec step Run_Step k) \<and> (ktx_status (ke_st k) = [] \<longrightarrow> ktx_exec step Run_Step k = k)
      \<and> (ktx_status (ke_st k) \<noteq> [] \<longrightarrow> ktx_status (ke_st (ktx_exec step Run_Step k)) = [])
    \<or> at_word a 0 (ktx_exec step Run_Step k) \<and> ktx_status (ke_st (ktx_exec step Run_Step k)) = []"
proof -
  define s where "s = ke_st k"
  have a: "a < n" "told k" "ktx_pc s = KTX_LOOP" "G a s" "ktx_data s = concat (map pk [0..<a])" "ktx_asks req a k"
    using assms by (simp_all add: at_loop_def s_def)
  consider "ktx_status s = []" | sp e where "ktx_status s = [status_pkt (req a) sp e]" "e \<noteq> 1" "ke_answered k = length (ktx_meta s)"
      "length (ke_oks k) = (if e = 0 then a + 1 else a)"
    using a(6) unfolding ktx_asks_def s_def by blast
  then show ?thesis
  proof cases
    case 1
    then have "ktx_exec step Run_Step k = k" using wait[OF a(4,1,3)] by (simp add: s_def)
    then show ?thesis using assms 1 by (simp add: s_def)
  next
    case (2 sp e)
    show ?thesis
    proof (cases "e = 0")
      case True
      note * = accept[OF a(4,1,3) 2(1)[unfolded True]]
      have "at_word a 0 (ktx_exec step Run_Step k)"
        using * a 2 True by (simp add: at_word_def ktx_asks_def ktx_idle_def told_def s_def[symmetric])
      then show ?thesis using * by (simp add: s_def)
    next
      case False
      note * = refuse[OF a(4,1,3) 2(1) False]
      have "at_loop a (ktx_exec step Run_Step k)"
        using * a 2 False by (simp add: at_loop_def ktx_asks_def told_def s_def[symmetric])
      then show ?thesis using * 2(1) by (simp add: s_def)
    qed
  qed
qed

lemma word_step:
  assumes "at_word a j k"
  shows "ktx_status (ke_st (ktx_exec step Run_Step k)) = ktx_status (ke_st k) \<and>
    (if j < length (pk a) then ktx_exec step Run_Step k = k \<and> \<not> complete \<or> at_word a (j + 1) (ktx_exec step Run_Step k)
     else if a + 1 < n then at_loop (a + 1) (ktx_exec step Run_Step k) else at_end (ktx_exec step Run_Step k))"
proof -
  define s where "s = ke_st k"
  have a: "a < n" "told k" "ktx_pc s = KTX_WORDS" "W a j s" "j \<le> length (pk a)" "ktx_data s = concat (map pk [0..<a]) @ take j (pk a)"
    "if a + 1 < n then ktx_asks req (a + 1) k else ktx_idle n k"
    using assms unfolding at_word_def s_def by blast+
  show ?thesis
  proof (cases "j < length (pk a)")
    case True
    from word[OF a(4,1,3) True] show ?thesis
    proof
      assume "step s = s \<and> \<not> complete"
      then show ?thesis using True by (simp add: s_def)
    next
      assume w: "W a (j + 1) (step s) \<and> ktx_pc (step s) = KTX_WORDS \<and> ktx_status (step s) = ktx_status s
        \<and> ktx_data (step s) = ktx_data s @ [pk a ! j] \<and> ktx_meta (step s) = ktx_meta s"
      have "at_word a (j + 1) (ktx_exec step Run_Step k)"
        using w a True by (auto simp: at_word_def asks_cong told_def s_def[symmetric] take_Suc_conv_app_nth split: if_splits)
      then show ?thesis using w True by (simp add: s_def)
    qed
  next
    case False
    then have j: "j = length (pk a)" using a(5) by simp
    note * = leave[OF a(4)[unfolded j] a(1,3)]
    show ?thesis
    proof (cases "a + 1 < n")
      case True
      then show ?thesis using * a j by (simp add: at_loop_def asks_cong told_def s_def[symmetric])
    next
      case f: False
      then have n: "n = a + 1" using a(1) by simp
      have "ktx_data s = concat (map pk [0..<a]) @ pk a" using a(6) j by simp
      then have "ktx_data (step s) = concat (map pk [0..<n])" using * n by simp
      then show ?thesis using * a j f by (simp add: at_end_def asks_cong told_def s_def[symmetric])
    qed
  qed
qed

lemma end_step: "at_end k \<Longrightarrow> ktx_exec step Run_Step k = k"
  by (simp add: at_end_def stop)

lemma running_step: "running k \<Longrightarrow> running (ktx_exec step Run_Step k)"
  unfolding running_def by (metis loop_step word_step end_step)

lemma running_exec: "running k \<Longrightarrow> ktx_permitted e \<Longrightarrow> running (ktx_exec step e k)"
  by (cases e) (simp_all add: running_step running_answer del: ktx_exec.simps)

lemma running_run: "running k \<Longrightarrow> \<forall>e \<in> set es. ktx_permitted e \<Longrightarrow> running (fold (ktx_exec step) es k)"
  by (induction es arbitrary: k) (auto intro: running_exec simp del: ktx_exec.simps)

lemma running_result:
  assumes "running k"
  shows "ke_oks k = map req [0..<length (ke_oks k)] \<and> length (ke_oks k) \<le> n
    \<and> (\<exists>rest. ktx_data (ke_st k) @ rest = concat (map pk [0..<length (ke_oks k)]))
    \<and> (ktx_pc (ke_st k) = KTX_DONE \<longrightarrow> length (ke_oks k) = n \<and> ktx_data (ke_st k) = concat (map pk [0..<n]))"
proof -
  have split: "concat (map pk [0..<b]) = concat (map pk [0..<a]) @ concat (map pk [a..<b])" if "a \<le> b" for a b
    using that by (metis bot_nat_0.extremum concat_append map_append upt_add_eq_append le_add_diff_inverse)
  consider a where "at_loop a k" | a j where "at_word a j k" | "at_end k" using assms running_def by blast
  then show ?thesis
  proof cases
    case (1 a)
    then have l: "length (ke_oks k) = a \<or> length (ke_oks k) = a + 1" by (auto simp: at_loop_def ktx_asks_def split: if_splits)
    then have "a \<le> length (ke_oks k)" by auto
    from split[OF this] show ?thesis using 1 l by (auto simp: at_loop_def told_def)
  next
    case (2 a j)
    then have l: "length (ke_oks k) = a + 1 \<or> length (ke_oks k) = a + 2 \<and> a + 2 \<le> n"
      by (auto simp: at_word_def ktx_asks_def ktx_idle_def split: if_splits)
    then have le: "a + 1 \<le> length (ke_oks k)" by auto
    have "concat (map pk [0..<a + 1]) = concat (map pk [0..<a]) @ take j (pk a) @ drop j (pk a)" by simp
    then have "ktx_data (ke_st k) @ drop j (pk a) @ concat (map pk [a + 1..<length (ke_oks k)]) = concat (map pk [0..<length (ke_oks k)])"
      using split[OF le] 2 by (simp add: at_word_def)
    moreover have "ke_oks k = map req [0..<length (ke_oks k)]" "ktx_pc (ke_st k) \<noteq> KTX_DONE" "length (ke_oks k) \<le> n"
      using 2 l by (auto simp: at_word_def told_def)
    ultimately show ?thesis by blast
  qed (auto simp: at_end_def told_def ktx_idle_def)
qed

text \<open>A sender that has lost a connection writes the words that are due and then waits for ever.\<close>

definition lost_loop :: "nat \<Rightarrow> kenv \<Rightarrow> bool" where
  "lost_loop a k \<longleftrightarrow> a < n \<and> told k \<and> ktx_pc (ke_st k) = KTX_LOOP \<and> ktx_lost req a k \<and> G a (ke_st k)
     \<and> ktx_data (ke_st k) = concat (map pk [0..<a])"

definition lost_word :: "nat \<Rightarrow> nat \<Rightarrow> kenv \<Rightarrow> bool" where
  "lost_word a j k \<longleftrightarrow> a + 1 < n \<and> told k \<and> ktx_pc (ke_st k) = KTX_WORDS \<and> W a j (ke_st k) \<and> j \<le> length (pk a)
     \<and> ktx_lost req (a + 1) k \<and> ktx_data (ke_st k) = concat (map pk [0..<a]) @ take j (pk a)"

definition lost :: "kenv \<Rightarrow> bool" where
  "lost k \<longleftrightarrow> (\<exists>a. lost_loop a k) \<or> (\<exists>a j. lost_word a j k)"

lemma asks_torn:
  assumes "ktx_asks req a k" and "told k"
  shows "ktx_asks req a (ktx_exec step (Answer sp 1) k) \<and> told (ktx_exec step (Answer sp 1) k)
    \<or> ktx_lost req a (ktx_exec step (Answer sp 1) k) \<and> told (ktx_exec step (Answer sp 1) k)"
proof (cases "ke_answered k < length (ktx_meta (ke_st k))")
  case True
  then have w: "ke_answered k + 1 = length (ktx_meta (ke_st k))" "last (ktx_meta (ke_st k)) = req a" "ktx_status (ke_st k) = []"
    "length (ke_oks k) = a" "ktx_meta (ke_st k) \<noteq> []"
    using assms(1) by (auto simp: ktx_asks_def)
  then have "ktx_meta (ke_st k) ! ke_answered k = req a" by (metis add_diff_cancel_right' last_conv_nth)
  then show ?thesis using True w assms(2) by (auto simp: ktx_lost_def told_def Let_def)
qed (use assms in simp)

lemma running_torn:
  assumes "running k"
  shows "running (ktx_exec step (Answer sp 1) k) \<or> lost (ktx_exec step (Answer sp 1) k)"
proof -
  let ?k = "ktx_exec step (Answer sp 1) k"
  note f = answer_frame[where k = k and sp = sp and e = 1]
  consider a where "at_loop a k" | a j where "at_word a j k" | "at_end k" using assms(1) running_def by blast
  then show ?thesis
  proof cases
    case (1 a)
    then have "at_loop a ?k \<or> lost_loop a ?k"
      using asks_torn[of a k sp] f unfolding at_loop_def lost_loop_def by (simp del: ktx_exec.simps) blast
    then show ?thesis by (auto simp: running_def lost_def)
  next
    case (2 a j)
    show ?thesis
    proof (cases "a + 1 < n")
      case True
      then have "at_word a j ?k \<or> lost_word a j ?k"
        using 2 asks_torn[of "a + 1" k sp] f unfolding at_word_def lost_word_def by (simp del: ktx_exec.simps) blast
      then show ?thesis unfolding running_def lost_def by blast
    next
      case False
      then have "ktx_exec step (Answer sp 1) k = k" using 2 idle_answer[of n k sp 1] by (simp add: at_word_def del: ktx_exec.simps)
      then show ?thesis using assms by (simp del: ktx_exec.simps)
    qed
  next
    case 3
    then show ?thesis using idle_answer[of n k sp 1] by (simp add: at_end_def running_def)
  qed
qed

lemma lost_answer: "lost k \<Longrightarrow> ktx_exec step (Answer sp e) k = k"
  by (auto simp: lost_def lost_loop_def lost_word_def ktx_lost_def)

lemma lost_cong:
  "ktx_meta t = ktx_meta (ke_st k) \<Longrightarrow> ktx_status t = ktx_status (ke_st k) \<Longrightarrow> ktx_lost req a (k\<lparr>ke_st := t\<rparr>) = ktx_lost req a k"
  by (simp add: ktx_lost_def)

lemma lost_step:
  assumes "lost k"
  shows "lost (ktx_exec step Run_Step k)"
proof -
  define s where "s = ke_st k"
  consider (loop) a where "lost_loop a k" | (word) a j where "lost_word a j k" using assms lost_def by blast
  then show ?thesis
  proof cases
    case (loop a)
    then have a: "a < n" "told k" "ktx_pc s = KTX_LOOP" "G a s" "ktx_data s = concat (map pk [0..<a])" "ktx_lost req a k"
      by (simp_all add: lost_loop_def s_def)
    consider "ktx_status s = []" | sp where "ktx_status s = [status_pkt (req a) sp 1]" using a(6) by (auto simp: ktx_lost_def s_def)
    then show ?thesis
    proof cases
      case 1
      then have "ktx_exec step Run_Step k = k" using wait[OF a(4,1,3)] by (simp add: s_def)
      then show ?thesis using assms by simp
    next
      case (2 sp)
      note * = refuse[OF a(4,1,3) 2 one_neq_zero]
      have "lost_loop a (ktx_exec step Run_Step k)"
        using * a by (simp add: lost_loop_def ktx_lost_def told_def s_def[symmetric])
      then show ?thesis by (auto simp: lost_def)
    qed
  next
    case (word a j)
    then have a: "a + 1 < n" "told k" "ktx_pc s = KTX_WORDS" "W a j s" "j \<le> length (pk a)"
      "ktx_data s = concat (map pk [0..<a]) @ take j (pk a)" "ktx_lost req (a + 1) k"
      by (simp_all add: lost_word_def s_def)
    have an: "a < n" using a(1) by simp
    show ?thesis
    proof (cases "j < length (pk a)")
      case True
      from sender.word[OF sender_axioms a(4) an a(3) True] show ?thesis
      proof
        assume "step s = s \<and> \<not> complete"
        then have "ktx_exec step Run_Step k = k" by (simp add: s_def)
        then show ?thesis using assms by simp
      next
        assume w: "W a (j + 1) (step s) \<and> ktx_pc (step s) = KTX_WORDS \<and> ktx_status (step s) = ktx_status s
          \<and> ktx_data (step s) = ktx_data s @ [pk a ! j] \<and> ktx_meta (step s) = ktx_meta s"
        have "lost_word a (j + 1) (ktx_exec step Run_Step k)"
          using w a True by (auto simp: lost_word_def lost_cong told_def s_def[symmetric] take_Suc_conv_app_nth)
        then show ?thesis unfolding lost_def by blast
      qed
    next
      case False
      then have j: "j = length (pk a)" using a(5) by simp
      note * = leave[OF a(4)[unfolded j] an a(3)]
      have "lost_loop (a + 1) (ktx_exec step Run_Step k)"
        using * a j by (simp add: lost_loop_def lost_cong told_def s_def[symmetric])
      then show ?thesis unfolding lost_def by blast
    qed
  qed
qed

lemma lost_result:
  assumes "lost k"
  shows "ke_oks k = map req [0..<length (ke_oks k)] \<and> length (ke_oks k) \<le> n
    \<and> (\<exists>rest. ktx_data (ke_st k) @ rest = concat (map pk [0..<length (ke_oks k)])) \<and> ktx_pc (ke_st k) \<noteq> KTX_DONE"
proof -
  consider (loop) a where "lost_loop a k" | (word) a j where "lost_word a j k" using assms lost_def by blast
  then show ?thesis
  proof cases
    case (loop a)
    then show ?thesis by (auto simp: lost_loop_def ktx_lost_def told_def)
  next
    case (word a j)
    then have "ktx_data (ke_st k) @ drop j (pk a) = concat (map pk [0..<a + 1])" by (simp add: lost_word_def)
    moreover have l: "length (ke_oks k) = a + 1" using word by (simp add: lost_word_def ktx_lost_def)
    ultimately have "\<exists>rest. ktx_data (ke_st k) @ rest = concat (map pk [0..<length (ke_oks k)])" by metis
    then show ?thesis using word l by (simp add: lost_word_def told_def)
  qed
qed

text \<open>
  Progress: when the outstanding request is accepted before each step, a sender that has its input
  comes to its end.
\<close>

definition ktx_round :: "kenv \<Rightarrow> kenv" where
  "ktx_round k = ktx_exec step Run_Step (ktx_exec step (Answer 0 0) k)"

definition ends :: "(kenv \<Rightarrow> bool) \<Rightarrow> kenv \<Rightarrow> bool" where
  "ends P k \<longleftrightarrow> (\<exists>i. P ((ktx_round ^^ i) k))"

lemma ends_now: "P k \<Longrightarrow> ends P k"
  unfolding ends_def by (intro exI[of _ 0]) simp

lemma ends_later: "ends P (ktx_round k) \<Longrightarrow> ends P k"
  unfolding ends_def by (metis funpow_Suc_right o_apply)

lemma ends_trans: "ends P k \<Longrightarrow> (\<And>t. P t \<Longrightarrow> ends Q t) \<Longrightarrow> ends Q k"
  unfolding ends_def by (metis funpow_add o_apply)

lemma word_answer: "at_word a j k \<Longrightarrow> at_word a j (ktx_exec step (Answer 0 0) k)"
  using asks_answer[of "a + 1" k 0 0] idle_answer[of n k 0 0] answer_frame[where k = k and sp = 0 and e = 0]
  unfolding at_word_def by (cases "a + 1 < n") (simp_all del: ktx_exec.simps)

lemma loop_answer:
  assumes "at_loop a k"
  shows "at_loop a (ktx_exec step (Answer 0 0) k) \<and> ktx_status (ke_st (ktx_exec step (Answer 0 0) k)) \<noteq> []
    \<and> (ktx_status (ke_st k) = [] \<longrightarrow> ktx_status (ke_st (ktx_exec step (Answer 0 0) k)) = [status_pkt (req a) 0 0])"
proof -
  have a: "at_loop a (ktx_exec step (Answer 0 0) k)"
    using assms asks_answer[of a k 0 0] answer_frame[where k = k and sp = 0 and e = 0]
    unfolding at_loop_def by (simp del: ktx_exec.simps)
  have "ktx_asks req a k" using assms by (simp add: at_loop_def)
  then have "ktx_status (ke_st k) \<noteq> [] \<or> ke_answered k < length (ktx_meta (ke_st k)) \<and> ktx_meta (ke_st k) ! ke_answered k = req a
      \<and> ktx_status (ke_st k) = []"
    unfolding ktx_asks_def by (metis add_diff_cancel_right' last_conv_nth less_add_one list.discI)
  then show ?thesis using a by (auto simp: Let_def)
qed

lemma accepted_round:
  assumes "at_loop a k" and "ktx_status (ke_st k) = []"
  shows "at_word a 0 (ktx_round k)"
proof -
  define t where "t = ktx_exec step (Answer 0 0) k"
  have t: "at_loop a t" "ktx_status (ke_st t) = [status_pkt (req a) 0 0]" using loop_answer[OF assms(1)] assms(2) by (simp_all add: t_def)
  then have l: "a < n" "ktx_pc (ke_st t) = KTX_LOOP" "G a (ke_st t)" by (simp_all add: at_loop_def)
  have "ktx_pc (step (ke_st t)) = KTX_WORDS" using accept[OF l(3,1,2) t(2)] by simp
  then have "\<not> at_loop a (ktx_exec step Run_Step t)" by (simp add: at_loop_def)
  then show ?thesis using loop_step[OF t(1)] by (simp add: ktx_round_def t_def)
qed

lemma loop_ends: "at_loop a k \<Longrightarrow> ends (at_word a 0) k"
proof (cases "ktx_status (ke_st k) = []")
  case False
  assume a: "at_loop a k"
  define t where "t = ktx_exec step (Answer 0 0) k"
  have t: "at_loop a t" "ktx_status (ke_st t) \<noteq> []" using loop_answer[OF a] by (simp_all add: t_def)
  have "at_word a 0 (ktx_round k) \<or> at_loop a (ktx_round k) \<and> ktx_status (ke_st (ktx_round k)) = []"
    using loop_step[OF t(1)] t(2) by (auto simp: ktx_round_def t_def)
  then show ?thesis by (metis accepted_round ends_later ends_now)
qed (metis accepted_round ends_later ends_now)

lemma word_ends:
  assumes "complete"
  shows "at_word a j k \<Longrightarrow> ends (if a + 1 < n then at_loop (a + 1) else at_end) k"
proof (induction "length (pk a) - j" arbitrary: j k)
  case 0
  then have "\<not> j < length (pk a)" by simp
  then have "if a + 1 < n then at_loop (a + 1) (ktx_round k) else at_end (ktx_round k)"
    using word_step[OF word_answer[OF 0(2)]] unfolding ktx_round_def by presburger
  then show ?case by (cases "a + 1 < n") (simp_all only: if_True if_False ends_later ends_now)
next
  case (Suc l)
  then have j: "j < length (pk a)" "l = length (pk a) - (j + 1)" by simp_all
  have w: "at_word a (j + 1) (ktx_round k)"
    using conjunct2[OF word_step[OF word_answer[OF Suc(3)]], unfolded if_P[OF j(1)]] assms unfolding ktx_round_def by blast
  show ?case by (rule ends_later[OF Suc(1)[OF j(2) w]])
qed

lemma all_ends:
  assumes "complete"
  shows "at_loop a k \<Longrightarrow> ends at_end k"
proof (induction "n - a" arbitrary: a k)
  case 0
  then show ?case by (simp add: at_loop_def)
next
  case (Suc m)
  have w: "ends (if a + 1 < n then at_loop (a + 1) else at_end) k"
    by (rule ends_trans[OF loop_ends[OF Suc(3)] word_ends[OF assms]])
  show ?case
  proof (cases "a + 1 < n")
    case True
    have "m = n - (a + 1)" using Suc(2) by simp
    from Suc(1)[OF this] show ?thesis using ends_trans[OF w] True by simp
  qed (use w in simp)
qed

lemma running_ends:
  assumes "complete" and "running k"
  shows "ends at_end k"
proof -
  have w: "ends at_end k" if "at_word a j k" for a j
    using ends_trans[OF word_ends[OF assms(1) that]] all_ends[OF assms(1)] ends_now by (metis (full_types))
  then show ?thesis using assms all_ends ends_now unfolding running_def by blast
qed

lemma started: "good \<Longrightarrow> at_loop 0 (ktx_exec step Run_Step (kenv_init buf ds))"
  using start by (simp add: at_loop_def told_def ktx_asks_def kenv_init_def)

lemma run_cases:
  "good \<Longrightarrow> \<forall>e \<in> set es. ktx_permitted e \<Longrightarrow>
   fold (ktx_exec step) es (kenv_init buf ds) = kenv_init buf ds \<or> running (fold (ktx_exec step) es (kenv_init buf ds))"
proof (induction es rule: rev_induct)
  case (snoc e es)
  then consider "fold (ktx_exec step) es (kenv_init buf ds) = kenv_init buf ds" | "running (fold (ktx_exec step) es (kenv_init buf ds))"
    by auto
  then show ?case
  proof cases
    case 1
    have "running (ktx_exec step Run_Step (kenv_init buf ds))" using started[OF snoc(2)] running_def by blast
    then show ?thesis using 1 by (cases e) (simp_all add: kenv_init_def ktx_init_def)
  next
    case 2
    then show ?thesis using running_exec snoc(3) by simp
  qed
qed simp

lemma run_all:
  assumes "good"
  shows "fold (ktx_exec step) es (kenv_init buf ds) = kenv_init buf ds \<or> running (fold (ktx_exec step) es (kenv_init buf ds))
    \<or> lost (fold (ktx_exec step) es (kenv_init buf ds))"
proof (induction es rule: rev_induct)
  case (snoc e es)
  let ?k = "fold (ktx_exec step) es (kenv_init buf ds)"
  have f: "fold (ktx_exec step) (es @ [e]) (kenv_init buf ds) = ktx_exec step e ?k" by simp
  from snoc consider "?k = kenv_init buf ds" | "running ?k" | "lost ?k" by blast
  then show ?case
  proof cases
    case 1
    have "running (ktx_exec step Run_Step (kenv_init buf ds))" using started[OF assms] running_def by blast
    then show ?thesis unfolding f 1 by (cases e) (simp_all add: kenv_init_def ktx_init_def)
  next
    case 2
    then have "running (ktx_exec step e ?k) \<or> lost (ktx_exec step e ?k)"
      using running_exec[of ?k e] running_torn[of ?k] by (cases e) (auto simp del: ktx_exec.simps)
    then show ?thesis unfolding f by blast
  next
    case 3
    then have "lost (ktx_exec step e ?k)" using lost_step[of ?k] lost_answer[of ?k] by (cases e) (simp_all del: ktx_exec.simps)
    then show ?thesis unfolding f by blast
  qed
qed simp

theorem run_result:
  assumes "good" and "fold (ktx_exec step) es (kenv_init buf ds) = k"
  shows "ke_oks k = map req [0..<length (ke_oks k)] \<and> length (ke_oks k) \<le> n
    \<and> (\<exists>rest. ktx_data (ke_st k) @ rest = concat (map pk [0..<length (ke_oks k)]))
    \<and> (ktx_pc (ke_st k) = KTX_DONE \<longrightarrow> length (ke_oks k) = n \<and> ktx_data (ke_st k) = concat (map pk [0..<n]))"
  using run_all[OF assms(1), of es] running_result[of k] lost_result[of k] unfolding assms(2)
  by (auto simp: kenv_init_def ktx_init_def)

lemma rounds_events: "(ktx_round ^^ i) k = fold (ktx_exec step) (concat (replicate i [Answer 0 0, Run_Step])) k"
proof (induction i arbitrary: k)
  case (Suc i)
  have "(ktx_round ^^ Suc i) k = (ktx_round ^^ i) (ktx_round k)" by (simp only: funpow_Suc_right o_apply)
  also have "\<dots> = fold (ktx_exec step) (concat (replicate i [Answer 0 0, Run_Step])) (ktx_round k)" by (rule Suc)
  also have "\<dots> = fold (ktx_exec step) (concat (replicate (Suc i) [Answer 0 0, Run_Step])) k"
    unfolding ktx_round_def by (simp del: ktx_exec.simps)
  finally show ?case .
qed simp

theorem run_ends:
  assumes "good" and "complete" and "\<forall>e \<in> set es. ktx_permitted e"
  shows "\<exists>i. ktx_pc (ke_st (fold (ktx_exec step) (es @ Run_Step # concat (replicate i [Answer 0 0, Run_Step])) (kenv_init buf ds))) = KTX_DONE"
proof -
  define k where "k = fold (ktx_exec step) es (kenv_init buf ds)"
  have "running (ktx_exec step Run_Step k)"
    using run_cases[OF assms(1,3)] started[OF assms(1)] running_exec[of k Run_Step] running_def unfolding k_def[symmetric] by auto
  from running_ends[OF assms(2) this] obtain i where "at_end ((ktx_round ^^ i) (ktx_exec step Run_Step k))" by (auto simp: ends_def)
  then show ?thesis unfolding rounds_events at_end_def k_def by (intro exI[of _ i]) (simp del: ktx_exec.simps)
qed

end

end
