(* ===== verification/Kernel_Send.thy ===== *)
theory Kernel_Send
  imports Kernel_Tx
begin

text \<open>
  What \<^verbatim>\<open>sendData\<close>, \<^verbatim>\<open>scatter\<close> and \<^verbatim>\<open>sendDataSingleCon\<close> announce and send, against a stack that
  may refuse requests: the announced lengths add up to the bytes to send, but the words that follow
  an announcement are counted by the length of the next one.
\<close>

definition kc_bytes :: "ktx_cfg \<Rightarrow> nat" where
  "kc_bytes c = kc_words c * 64"

definition snd_ok :: "ktx_cfg \<Rightarrow> bool" where
  "snd_ok c \<longleftrightarrow> 0 < kc_words c \<and> kc_bytes c < 65536 \<and> 0 < kc_expected c"

text \<open>The number of packets, the bytes announced for packet \<open>a\<close> and the words written for it.\<close>

definition snd_count :: "ktx_cfg \<Rightarrow> nat" where
  "snd_count c = (unat (kc_expected c) + kc_bytes c - 1) div kc_bytes c"

definition snd_bytes :: "ktx_cfg \<Rightarrow> nat \<Rightarrow> nat" where
  "snd_bytes c a = (if a = 0 \<or> a + 1 < snd_count c then kc_bytes c else unat (kc_expected c) - a * kc_bytes c)"

definition snd_words :: "ktx_cfg \<Rightarrow> nat \<Rightarrow> nat" where
  "snd_words c a = (if a + 1 < snd_count c then snd_bytes c (a + 1) div 64 else if a = 0 then 0 else snd_bytes c a div 64)"

definition snd_off :: "ktx_cfg \<Rightarrow> nat \<Rightarrow> nat" where
  "snd_off c a = sum_list (map (snd_words c) [0..<a])"

definition words_of :: "512 word list \<Rightarrow> nat \<Rightarrow> nat \<Rightarrow> pkt512 list" where
  "words_of ds off l = map (\<lambda>j. data_pkt (ds ! (off + j)) (j + 1 = l)) [0..<l]"

definition snd_req :: "ktx_cfg \<Rightarrow> nat \<Rightarrow> u32" where
  "snd_req c a = tx_meta_pkt (kc_session c (a mod kc_useConn c)) (of_nat (snd_bytes c a))"

definition snd_packet :: "ktx_cfg \<Rightarrow> 512 word list \<Rightarrow> nat \<Rightarrow> pkt512 list" where
  "snd_packet c ds a = words_of ds (snd_off c a) (snd_words c a)"

lemma words_of_length [simp]: "length (words_of ds off l) = l"
  by (simp add: words_of_def)

lemma snd_packet_length [simp]: "length (snd_packet c ds a) = snd_words c a"
  by (simp add: snd_packet_def)

lemma snd_count_less:
  assumes "snd_ok c"
  shows "k < snd_count c \<longleftrightarrow> k * kc_bytes c < unat (kc_expected c)"
proof -
  have p: "0 < kc_bytes c" "0 < unat (kc_expected c)" using assms by (simp_all add: snd_ok_def kc_bytes_def word_greater_zero_iff unat_gt_0)
  have "k < snd_count c \<longleftrightarrow> (k + 1) * kc_bytes c \<le> unat (kc_expected c) + kc_bytes c - 1"
    using less_eq_div_iff_mult_less_eq[OF p(1), of "k + 1"] by (simp add: snd_count_def Suc_le_eq)
  also have "\<dots> \<longleftrightarrow> k * kc_bytes c < unat (kc_expected c)" using p by auto
  finally show ?thesis .
qed

lemma snd_count_pos: "snd_ok c \<Longrightarrow> 0 < snd_count c"
  by (simp add: snd_count_less snd_ok_def unat_gt_0 word_greater_zero_iff)

lemma snd_bytes_less: "snd_ok c \<Longrightarrow> a < snd_count c \<Longrightarrow> snd_bytes c a < 65536"
  using snd_count_less[of c "a + 1"] by (auto simp: snd_bytes_def snd_ok_def)

lemma snd_bytes_word [simp]:
  "snd_ok c \<Longrightarrow> a < snd_count c \<Longrightarrow> unat (of_nat (snd_bytes c a) :: u16) = snd_bytes c a"
  using snd_bytes_less by (simp add: unat_of_nat)

text \<open>The bytes counted when \<open>a\<close> requests have been accepted.\<close>

definition snd_total :: "ktx_cfg \<Rightarrow> nat \<Rightarrow> nat" where
  "snd_total c a = sum_list (map (snd_bytes c) [0..<a])"

lemma snd_total_eq: "snd_ok c \<Longrightarrow> a < snd_count c \<Longrightarrow> snd_total c a = a * kc_bytes c"
  by (induction a) (simp_all add: snd_total_def snd_bytes_def)

lemma snd_total_Suc: "snd_total c (Suc a) = snd_total c a + snd_bytes c a"
  by (simp add: snd_total_def)

lemma snd_total_end: "snd_ok c \<Longrightarrow> unat (kc_expected c) \<le> snd_total c (snd_count c)"
  using snd_count_less[of c "snd_count c - 1"] snd_count_less[of c "snd_count c"] snd_count_pos[of c]
  by (cases "snd_count c") (auto simp: snd_total_Suc snd_total_eq snd_bytes_def)

lemma snd_total_bound: "snd_ok c \<Longrightarrow> a \<le> snd_count c \<Longrightarrow> snd_total c a < 2 ^ 64"
proof (cases a)
  case (Suc b)
  assume c: "snd_ok c" "a \<le> snd_count c"
  have "unat (kc_expected c) < 2 ^ 64" using unat_bound[of "kc_expected c"] by simp
  moreover have "b * kc_bytes c < unat (kc_expected c)" "kc_bytes c < 65536"
    using c Suc snd_count_less[OF c(1), of b] by (simp_all add: snd_ok_def)
  moreover have "a * kc_bytes c < unat (kc_expected c)" if "a < snd_count c" using snd_count_less[OF c(1)] that by blast
  ultimately show ?thesis
    using c Suc snd_total_eq[OF c(1), of b] by (auto simp: snd_total_Suc snd_bytes_def)
qed (simp add: snd_total_def)

definition snd_G :: "ktx_cfg \<Rightarrow> 512 word list \<Rightarrow> nat \<Rightarrow> ktx_st \<Rightarrow> bool" where
  "snd_G c ds a s \<longleftrightarrow> snd_ok c \<and> unat (ktx_sent s) = snd_total c a \<and> ktx_index s = a mod kc_useConn c
     \<and> ktx_cur s = (if a = 0 then 0 else snd_words c (a - 1)) \<and> ktx_in s = drop (snd_off c a) ds"

definition snd_W :: "ktx_cfg \<Rightarrow> 512 word list \<Rightarrow> nat \<Rightarrow> nat \<Rightarrow> ktx_st \<Rightarrow> bool" where
  "snd_W c ds a j s \<longleftrightarrow> snd_ok c \<and> unat (ktx_sent s) = snd_total c (a + 1) \<and> ktx_index s = (a + 1) mod kc_useConn c
     \<and> ktx_cur s = snd_words c a \<and> ktx_j s = j \<and> ktx_in s = drop (snd_off c a + j) ds"

lemma snd_loops:
  assumes "snd_G c ds a s" and "a < snd_count c"
  shows "ktx_sent s < kc_expected c"
proof -
  have "snd_ok c" using assms(1) by (simp add: snd_G_def)
  then have "unat (ktx_sent s) < unat (kc_expected c)"
    using assms snd_total_eq[of c a] snd_count_less[of c a] by (simp add: snd_G_def)
  then show ?thesis by (simp add: word_less_nat_alt)
qed

lemma snd_accept_step:
  assumes "snd_G c ds a s" and "a < snd_count c" and "ktx_pc s = KTX_LOOP" and "ktx_status s = [status_pkt (snd_req c a) sp 0]"
  shows "snd_W c ds a 0 (snd_step b c s) \<and> ktx_pc (snd_step b c s) = KTX_WORDS \<and> ktx_status (snd_step b c s) = []
      \<and> ktx_data (snd_step b c s) = ktx_data s
      \<and> ktx_meta (snd_step b c s) = ktx_meta s @ (if a + 1 < snd_count c then [snd_req c (a + 1)] else [])"
proof -
  have ok: "snd_ok c" and g: "unat (ktx_sent s) = snd_total c a" "ktx_index s = a mod kc_useConn c"
      "ktx_cur s = (if a = 0 then 0 else snd_words c (a - 1))" "ktx_in s = drop (snd_off c a) ds"
    using assms(1) by (simp_all add: snd_G_def)
  define sent where "sent = ktx_sent s + ucast (of_nat (snd_bytes c a) :: u16)"
  have sent: "unat sent = snd_total c (a + 1)"
    using g(1) snd_total_bound[OF ok, of "a + 1"] assms(2) ok
    by (simp add: sent_def unat_add_mod word_nat snd_total_Suc mod_less)
  have less: "sent < kc_expected c \<longleftrightarrow> a + 1 < snd_count c"
    using sent snd_total_eq[OF ok, of "a + 1"] snd_count_less[OF ok, of "a + 1"] snd_total_end[OF ok] assms(2)
    by (cases "a + 1 < snd_count c") (auto simp: word_less_nat_alt not_less dest: le_antisym[of "snd_count c"])
  define t where "t = snd_step b c s"
  have t: "t = (ktx_request c (s\<lparr>ktx_status := [], ktx_sent := sent, ktx_index := (a + 1) mod kc_useConn c\<rparr>))\<lparr>ktx_pc := KTX_WORDS, ktx_j := 0\<rparr>"
    using assms(3,4) g(2) by (simp add: t_def snd_step_def snd_accepted_def snd_req_def sent_def mod_Suc Let_def)
  show ?thesis
  proof (cases "a + 1 < snd_count c")
    case True
    have st: "unat sent = (a + 1) * kc_bytes c" using sent snd_total_eq[OF ok True] by simp
    have "unat sent + kc_words c * 64 < unat (kc_expected c) \<longleftrightarrow> a + 1 + 1 < snd_count c"
      using snd_count_less[OF ok, of "a + 1 + 1"] st by (simp add: kc_bytes_def algebra_simps)
    then have "ktx_request c (s\<lparr>ktx_status := [], ktx_sent := sent, ktx_index := (a + 1) mod kc_useConn c\<rparr>)
        = s\<lparr>ktx_status := [], ktx_sent := sent, ktx_index := (a + 1) mod kc_useConn c,
            ktx_meta := ktx_meta s @ [snd_req c (a + 1)], ktx_cur := snd_words c a\<rparr>"
      using True less st
      by (auto simp: ktx_request_def ktx_announce_def snd_req_def snd_bytes_def snd_words_def kc_bytes_def Let_def)
    then show ?thesis using t True sent g ok by (simp add: t_def[symmetric] snd_W_def)
  next
    case False
    then have "ktx_request c (s\<lparr>ktx_status := [], ktx_sent := sent, ktx_index := (a + 1) mod kc_useConn c\<rparr>)
        = s\<lparr>ktx_status := [], ktx_sent := sent, ktx_index := (a + 1) mod kc_useConn c\<rparr>"
      using less by (simp add: ktx_request_def)
    moreover have "ktx_cur s = snd_words c a"
      using g(3) False assms(2) by (cases a) (auto simp: snd_words_def)
    ultimately show ?thesis using t False sent g ok by (simp add: t_def[symmetric] snd_W_def)
  qed
qed

lemma snd_word_step:
  assumes "snd_W c ds a j s" and "ktx_pc s = KTX_WORDS" and "j < snd_words c a" and "a < snd_count c"
  shows "snd_step b c s = s \<and> \<not> snd_off c (snd_count c) \<le> length ds \<or>
    snd_W c ds a (j + 1) (snd_step b c s) \<and> ktx_pc (snd_step b c s) = KTX_WORDS \<and> ktx_status (snd_step b c s) = ktx_status s
      \<and> ktx_data (snd_step b c s) = ktx_data s @ [snd_packet c ds a ! j] \<and> ktx_meta (snd_step b c s) = ktx_meta s"
proof (cases "snd_off c a + j < length ds")
  case True
  then have "drop (snd_off c a + j) ds = ds ! (snd_off c a + j) # drop (snd_off c a + j + 1) ds" by (simp add: Cons_nth_drop_Suc)
  then show ?thesis
    using assms by (simp add: snd_W_def snd_step_def ktx_write_def snd_packet_def words_of_def)
next
  case False
  have "snd_off c (a + 1) \<le> snd_off c (snd_count c)"
    unfolding snd_off_def using assms(4)
    by (metis Suc_eq_plus1 Suc_leI le_add1 le_add_diff_inverse map_append sum_list_append upt_add_eq_append zero_le)
  then have "\<not> snd_off c (snd_count c) \<le> length ds" using False assms(3) by (simp add: snd_off_def)
  moreover have "snd_step b c s = s" using assms False by (simp add: snd_W_def snd_step_def)
  ultimately show ?thesis by simp
qed

lemma snd_start_step:
  assumes "snd_ok c"
  shows "0 < snd_count c \<and> snd_G c ds 0 (snd_step b c (ktx_init buf ds)) \<and> ktx_pc (snd_step b c (ktx_init buf ds)) = KTX_LOOP
      \<and> ktx_status (snd_step b c (ktx_init buf ds)) = [] \<and> ktx_data (snd_step b c (ktx_init buf ds)) = []
      \<and> ktx_meta (snd_step b c (ktx_init buf ds)) = [snd_req c 0]"
  using assms snd_count_pos[OF assms]
  by (simp add: ktx_init_def snd_step_def ktx_test_def ktx_announce_def snd_G_def snd_total_def snd_off_def snd_req_def snd_bytes_def
      kc_bytes_def snd_ok_def)

lemma snd_wait_step:
  "snd_G c ds a s \<Longrightarrow> a < snd_count c \<Longrightarrow> ktx_pc s = KTX_LOOP \<Longrightarrow> ktx_status s = [] \<Longrightarrow> snd_step b c s = s"
  using snd_loops[of c ds a s] by (simp add: snd_step_def ktx_test_def)

lemma snd_refuse_step:
  assumes "snd_G c ds a s" and "a < snd_count c" and "ktx_pc s = KTX_LOOP" and "ktx_status s = [status_pkt (snd_req c a) sp e]"
    and "e \<noteq> 0"
  shows "snd_G c ds a (snd_step b c s) \<and> ktx_pc (snd_step b c s) = KTX_LOOP \<and> ktx_status (snd_step b c s) = []
      \<and> ktx_data (snd_step b c s) = ktx_data s \<and> ktx_meta (snd_step b c s) = ktx_meta s @ (if e = 1 then [] else [snd_req c a])"
  using assms snd_loops[OF assms(1,2)]
  by (simp add: snd_step_def ktx_test_def ktx_refused_def snd_G_def) (simp add: snd_req_def)

lemma snd_leave_step:
  assumes "snd_W c ds a (length (snd_packet c ds a)) s" and "a < snd_count c" and "ktx_pc s = KTX_WORDS"
  shows "ktx_pc (snd_step b c s) = (if a + 1 < snd_count c then KTX_LOOP else KTX_DONE)
      \<and> (a + 1 < snd_count c \<longrightarrow> snd_G c ds (a + 1) (snd_step b c s))
      \<and> ktx_status (snd_step b c s) = ktx_status s \<and> ktx_data (snd_step b c s) = ktx_data s \<and> ktx_meta (snd_step b c s) = ktx_meta s"
proof -
  have ok: "snd_ok c" and t: "unat (ktx_sent s) = snd_total c (a + 1)" using assms(1) by (simp_all add: snd_W_def)
  have "ktx_sent s < kc_expected c \<longleftrightarrow> a + 1 < snd_count c"
    using t snd_total_eq[OF ok, of "a + 1"] snd_count_less[OF ok, of "a + 1"] snd_total_end[OF ok] assms(2)
    by (cases "a + 1 < snd_count c") (auto simp: word_less_nat_alt not_less dest: le_antisym[of "snd_count c"])
  then show ?thesis
    using assms by (simp add: snd_step_def ktx_test_def snd_W_def snd_G_def snd_off_def)
qed

interpretation snd: sender "snd_step b c" "snd_req c" "snd_packet c ds" "snd_count c" "snd_G c ds" "snd_W c ds"
  "snd_off c (snd_count c) \<le> length ds" "snd_ok c" buf ds for b c ds buf
proof
  fix a j s x
  show "snd_G c ds a (s\<lparr>ktx_status := x\<rparr>) = snd_G c ds a s" "snd_W c ds a j (s\<lparr>ktx_status := x\<rparr>) = snd_W c ds a j s"
    by (simp_all add: snd_G_def snd_W_def)
  show "ktx_pc s = KTX_DONE \<Longrightarrow> snd_step b c s = s" by (simp add: snd_step_def)
  show "snd_W c ds a j s \<Longrightarrow> a < snd_count c \<Longrightarrow> ktx_pc s = KTX_WORDS \<Longrightarrow> j < length (snd_packet c ds a) \<Longrightarrow>
    snd_step b c s = s \<and> \<not> snd_off c (snd_count c) \<le> length ds \<or>
    snd_W c ds a (j + 1) (snd_step b c s) \<and> ktx_pc (snd_step b c s) = KTX_WORDS \<and> ktx_status (snd_step b c s) = ktx_status s
      \<and> ktx_data (snd_step b c s) = ktx_data s @ [snd_packet c ds a ! j] \<and> ktx_meta (snd_step b c s) = ktx_meta s"
    using snd_word_step by simp
qed (fact snd_start_step snd_wait_step snd_refuse_step snd_accept_step snd_leave_step)+

subsection \<open>What is announced and what is sent\<close>

lemma snd_run_result:
  assumes "snd_ok c" and "f = sendData c \<or> f = scatter c"
    and "fold (ktx_exec f) es (kenv_init buf ds) = k"
  shows "ke_oks k = map (snd_req c) [0..<length (ke_oks k)] \<and> length (ke_oks k) \<le> snd_count c
    \<and> (\<exists>rest. ktx_data (ke_st k) @ rest = concat (map (snd_packet c ds) [0..<length (ke_oks k)]))
    \<and> (ktx_pc (ke_st k) = KTX_DONE \<longrightarrow>
         length (ke_oks k) = snd_count c \<and> ktx_data (ke_st k) = concat (map (snd_packet c ds) [0..<snd_count c]))"
  using snd.run_result[OF assms(1)] assms(2,3) unfolding sendData_def scatter_def by blast

text \<open>C28. In every run of \<^verbatim>\<open>sendData\<close> and \<^verbatim>\<open>scatter\<close>, with packets of 1 to 1023 words, against a stack that accepts or refuses requests, or
  tears connections down, as it likes, the accepted announcements are those for the packets of the transfer in order, round robin
  over the sessions, each for a whole packet and the last for the rest. What is written after announcement \<open>a\<close> is accepted
  are the next \<open>snd_words c a\<close> words of the input, which is the length of announcement \<open>a + 1\<close> and not of its own (the last
  announcement but for the first has its own): the data stream is a prefix of these words in the order of the
  input, and when the sender is done it is all of them.\<close>

theorem sender_announces:
  assumes "snd_ok c" and "f = sendData c \<or> f = scatter c"
    and "fold (ktx_exec f) es (kenv_init buf ds) = k"
  shows "ke_oks k = map (snd_req c) [0..<length (ke_oks k)] \<and> length (ke_oks k) \<le> snd_count c
    \<and> (\<exists>rest. ktx_data (ke_st k) @ rest = concat (map (snd_packet c ds) [0..<length (ke_oks k)]))
    \<and> (ktx_pc (ke_st k) = KTX_DONE \<longrightarrow>
         length (ke_oks k) = snd_count c \<and> ktx_data (ke_st k) = concat (map (snd_packet c ds) [0..<snd_count c]))"
  by (rule snd_run_result[OF assms])

lemma concat_length: "length (concat (map g [0..<m])) = sum_list (map (length \<circ> g) [0..<m])"
  by (induction m) simp_all

lemma announced_total:
  assumes "snd_ok c"
  shows "m \<le> snd_count c \<Longrightarrow> sum_list (map (\<lambda>r. unat (range_get 31 16 r :: u16)) (map (snd_req c) [0..<m])) = snd_total c m"
proof (induction m)
  case (Suc m)
  then show ?case using snd_bytes_word[OF assms, of m] by (simp add: snd_total_def snd_req_def)
qed (simp add: snd_total_def)

lemma snd_off_before:
  "snd_ok c \<Longrightarrow> a + 2 \<le> snd_count c \<Longrightarrow> snd_off c a = a * kc_words c"
proof (induction a)
  case (Suc a)
  then show ?case by (simp add: snd_off_def snd_words_def snd_bytes_def kc_bytes_def)
qed (simp add: snd_off_def)

lemma snd_exact:
  assumes ok: "snd_ok c"
  shows "snd_off c (snd_count c) * 64 = snd_total c (snd_count c) \<longleftrightarrow> kc_bytes c dvd unat (kc_expected c) \<and> kc_bytes c < unat (kc_expected c)"
proof -
  define B E n where "B = kc_bytes c" and "E = unat (kc_expected c)" and "n = snd_count c"
  have B: "0 < B" "64 dvd B" and E: "0 < E" using ok by (simp_all add: B_def E_def snd_ok_def kc_bytes_def unat_gt_0 word_greater_zero_iff)
  have cnt: "k < n \<longleftrightarrow> k * B < E" for k using snd_count_less[OF ok] by (simp add: n_def B_def E_def)
  show ?thesis
  proof (cases "n = 1")
    case True
    then have "E \<le> B" using cnt[of 1] by simp
    moreover have "snd_off c n = 0" "snd_total c n = B"
      using True by (simp_all add: n_def snd_off_def snd_words_def snd_total_def snd_bytes_def B_def)
    ultimately show ?thesis using B by (simp add: n_def B_def E_def)
  next
    case False
    then obtain m where m: "n = m + 2" using cnt[of 0] E by (cases n; cases "n - 1") auto
    define L where "L = E - (m + 1) * B"
    have L: "(m + 1) * B + L = E" "L \<le> B" "0 < L" using cnt[of "m + 1"] cnt[of "m + 2"] m by (auto simp: L_def)
    have bytes: "snd_bytes c (m + 1) = L" using m by (simp add: snd_bytes_def n_def L_def B_def E_def)
    have off: "snd_off c n = m * kc_words c + 2 * (L div 64)"
      using snd_off_before[OF ok, of m] m bytes by (simp add: n_def snd_off_def snd_words_def)
    have total: "snd_total c n = E"
      using snd_total_eq[OF ok, of "m + 1"] m bytes L(1) by (simp add: n_def snd_total_Suc B_def)
    have off64: "snd_off c n * 64 = m * B + 2 * (L div 64 * 64)" unfolding off by (simp add: B_def kc_bytes_def algebra_simps)
    have "snd_off c n * 64 = E \<longleftrightarrow> L = B"
    proof
      assume "snd_off c n * 64 = E"
      then have "m * B + 2 * (L div 64 * 64) = m * B + B + L" using off64 L(1) by (simp add: distrib_right)
      moreover have "L div 64 * 64 \<le> L" by simp
      ultimately show "L = B" using L(2) by linarith
    next
      assume "L = B"
      then have "L div 64 * 64 = B" using B(2) by simp
      then show "snd_off c n * 64 = E" using off64 L(1) \<open>L = B\<close> by (simp add: distrib_right)
    qed
    also have "\<dots> \<longleftrightarrow> B dvd E"
    proof
      assume "L = B"
      then show "B dvd E" using L(1) by (metis dvd_add dvd_refl dvd_triv_right)
    next
      assume "B dvd E"
      then have "B dvd L" using L(1) by (metis dvd_add_right_iff dvd_triv_right)
      then show "L = B" using L(2,3) by (simp add: dvd_imp_le le_antisym)
    qed
    finally show ?thesis using total L B m cnt[of 1] by (simp add: n_def B_def E_def)
  qed
qed

text \<open>The bytes left for the last packet.\<close>

definition snd_rest :: "ktx_cfg \<Rightarrow> nat" where
  "snd_rest c = unat (kc_expected c) - (snd_count c - 1) * kc_bytes c"

lemma snd_rest_bounds:
  assumes "snd_ok c"
  shows "0 < snd_rest c" and "snd_rest c \<le> kc_bytes c" and "(snd_count c - 1) * kc_bytes c + snd_rest c = unat (kc_expected c)"
proof -
  obtain m where m: "snd_count c = Suc m" using snd_count_pos[OF assms] by (cases "snd_count c") auto
  have "m * kc_bytes c < unat (kc_expected c)" "unat (kc_expected c) \<le> Suc m * kc_bytes c"
    using snd_count_less[OF assms, of m] snd_count_less[OF assms, of "Suc m"] m by (simp_all add: not_less)
  then show "0 < snd_rest c" "snd_rest c \<le> kc_bytes c" "(snd_count c - 1) * kc_bytes c + snd_rest c = unat (kc_expected c)"
    using m by (simp_all add: snd_rest_def)
qed

lemma snd_words_parts:
  assumes "snd_ok c"
  shows "snd_count c = 1 \<Longrightarrow> snd_words c 0 = 0" and "a + 2 < snd_count c \<Longrightarrow> snd_words c a = kc_words c"
    and "snd_count c = m + 2 \<Longrightarrow> snd_words c m = snd_rest c div 64 \<and> snd_words c (m + 1) = snd_rest c div 64"
  by (simp_all add: snd_words_def snd_bytes_def snd_rest_def kc_bytes_def)

text \<open>What is written: whole packets up to the last but two, and then two packets of the length of the last.\<close>

lemma snd_written:
  assumes ok: "snd_ok c" and n: "snd_count c = m + 2"
  shows "concat (map (snd_packet c ds) [0..<snd_count c]) = concat (map (\<lambda>a. words_of ds (a * kc_words c) (kc_words c)) [0..<m])
    @ words_of ds (m * kc_words c) (snd_rest c div 64) @ words_of ds (m * kc_words c + snd_rest c div 64) (snd_rest c div 64)"
proof -
  have off: "snd_off c a = a * kc_words c" if "a \<le> m" for a using snd_off_before[OF ok, of a] that n by simp
  have w: "snd_words c m = snd_rest c div 64" "snd_words c (m + 1) = snd_rest c div 64" using snd_words_parts(3)[OF ok n] by simp_all
  have "snd_off c (m + 1) = m * kc_words c + snd_rest c div 64" using off[of m] w(1) by (simp add: snd_off_def)
  then have ends: "snd_packet c ds m = words_of ds (m * kc_words c) (snd_rest c div 64)"
    "snd_packet c ds (m + 1) = words_of ds (m * kc_words c + snd_rest c div 64) (snd_rest c div 64)"
    using off[of m] w by (simp_all add: snd_packet_def)
  have eq: "map (snd_packet c ds) [0..<m] = map (\<lambda>a. words_of ds (a * kc_words c) (kc_words c)) [0..<m]"
    using off snd_words_parts(2)[OF ok] n by (intro map_cong) (simp_all add: snd_packet_def)
  have "[0..<m + 2] = [0..<m] @ [m, m + 1]" by simp
  then show ?thesis unfolding n by (simp only: map_append concat_append list.map concat.simps ends eq append_Nil2)
qed


text \<open>Every run can be completed when there is input enough: the sender does not get stuck as long as
  the stack goes on to accept.\<close>

lemma sender_completes:
  assumes "snd_ok c" and "snd_off c (snd_count c) \<le> length ds" and "\<forall>e \<in> set es. ktx_permitted e"
  shows "\<exists>i. ktx_pc (ke_st (fold (ktx_exec (sendData c)) (es @ Run_Step # concat (replicate i [Answer 0 0, Run_Step])) (kenv_init buf ds))) = KTX_DONE"
  using snd.run_ends[OF assms] by (simp add: sendData_def)

subsection \<open>Examples\<close>

definition snd_demo :: "64 word \<Rightarrow> ktx_cfg" where
  "snd_demo e = \<lparr>kc_session = (\<lambda>i. of_nat i + 7), kc_useConn = 2, kc_expected = e, kc_words = 2\<rparr>"

lemma snd_demo_ok: "e = 256 \<or> e = 192 \<Longrightarrow> snd_ok (snd_demo e)"
  by (auto simp: snd_ok_def snd_demo_def kc_bytes_def)

lemma snd_demo_done:
  assumes "e = 256 \<or> e = 192"
  shows "\<exists>es. (\<forall>x \<in> set es. ktx_permitted x)
    \<and> ktx_pc (ke_st (fold (ktx_exec (sendData (snd_demo e))) es (kenv_init (\<lambda>_. 0) [1, 2, 3, 4]))) = KTX_DONE"
proof -
  have n: "snd_count (snd_demo e) = 2" using assms by (auto simp: snd_count_def snd_demo_def kc_bytes_def)
  have "snd_off (snd_demo e) (snd_count (snd_demo e)) \<le> length [1, 2, 3, 4 :: 512 word]"
    using assms n by (auto simp: snd_off_def snd_words_def snd_bytes_def snd_demo_def kc_bytes_def upt_rec)
  from sender_completes[OF snd_demo_ok[OF assms] this, of "[]" "\<lambda>_. 0"]
  obtain i where i: "ktx_pc (ke_st (fold (ktx_exec (sendData (snd_demo e))) (Run_Step # concat (replicate i [Answer 0 0, Run_Step]))
    (kenv_init (\<lambda>_. 0) [1, 2, 3, 4]))) = KTX_DONE" by (auto simp del: ktx_exec.simps)
  have "\<forall>x \<in> set (Run_Step # concat (replicate i [Answer 0 0, Run_Step])). ktx_permitted x" by (induction i) auto
  with i show ?thesis by blast
qed

theorem sender_announces_witness:
  "\<exists>es. ktx_pc (ke_st (fold (ktx_exec (sendData (snd_demo 256))) es (kenv_init (\<lambda>_. 0) [1, 2, 3, 4]))) = KTX_DONE
    \<and> ke_oks (fold (ktx_exec (sendData (snd_demo 256))) es (kenv_init (\<lambda>_. 0) [1, 2, 3, 4])) = map (snd_req (snd_demo 256)) [0..<2]"
proof -
  have n: "snd_count (snd_demo 256) = 2" by (simp add: snd_count_def snd_demo_def kc_bytes_def)
  obtain es where es: "\<forall>x \<in> set es. ktx_permitted x"
      "ktx_pc (ke_st (fold (ktx_exec (sendData (snd_demo 256))) es (kenv_init (\<lambda>_. 0) [1, 2, 3, 4]))) = KTX_DONE"
    using snd_demo_done[of 256] by blast
  from sender_announces[OF snd_demo_ok disjI1[OF refl] refl] es(2) n show ?thesis
    by (intro exI[of _ es]) metis
qed


end
