(* ===== verification/Kernel_Gather.thy ===== *)
theory Kernel_Gather
  imports Kernel_Send
begin

text \<open>
  The receiving half of \<^verbatim>\<open>communication.hpp\<close> for several senders: \<^verbatim>\<open>gather_handshake\<close> turns the
  notifications of the stack into read requests, one packet per session in turn, and
  \<^verbatim>\<open>gather_consumeData\<close> takes the packets. The arrays indexed by session are functions on \<open>int\<close>,
  because the index \<^verbatim>\<open>dstPort - basePort\<close> is a signed number that is only compared from above.
\<close>

subsection \<open>The handshake\<close>

definition notification_of :: "128 word \<Rightarrow> appNotification" where
  "notification_of w = \<lparr>an_sessionID = range_get 15 0 w, an_length = range_get 31 16 w, an_ipAddress = range_get 63 32 w,
     an_dstPort = range_get 79 64 w, an_closed = bit w 80\<rparr>"

definition read_pkg :: "sid \<Rightarrow> u16 \<Rightarrow> u32" where
  "read_pkg i len = range_set 31 16 len (range_set 15 0 i 0)"

record gh_cfg =
  gc_expected :: "64 word"
  gc_useConn :: nat
  gc_words :: nat
  gc_basePort :: int

record gh_st =
  gh_avail :: "int \<Rightarrow> 64 word"
  gh_rx :: "int \<Rightarrow> 64 word"
  gh_table :: "int \<Rightarrow> sid"
  gh_total :: "64 word"
  gh_index :: nat
  gh_done :: bool
  gh_notif :: "128 word fifo"
  gh_read :: "u32 fifo"
  gh_next :: "u16 fifo"

definition gh_totalExp :: "gh_cfg \<Rightarrow> 64 word" where
  "gh_totalExp c = gc_expected c * of_nat (gc_useConn c)"

definition gh_notified :: "gh_cfg \<Rightarrow> appNotification \<Rightarrow> gh_st \<Rightarrow> gh_st" where
  "gh_notified c a s =
    (if an_length a \<noteq> 0
     then let i = uint (an_dstPort a) - gc_basePort c in
       if i < int (gc_useConn c)
       then s\<lparr>gh_avail := (gh_avail s)(i := gh_avail s i + ucast (an_length a)), gh_table := (gh_table s)(i := an_sessionID a)\<rparr>
       else s
     else s)"

definition gh_request :: "gh_cfg \<Rightarrow> u16 \<Rightarrow> gh_st \<Rightarrow> gh_st" where
  "gh_request c len s = (let i = int (gh_index s) in
     s\<lparr>gh_read := gh_read s @ [read_pkg (gh_table s i) len], gh_next := gh_next s @ [len],
       gh_rx := (gh_rx s)(i := gh_rx s i + ucast len), gh_avail := (gh_avail s)(i := gh_avail s i - ucast len),
       gh_index := (if gh_index s + 1 = gc_useConn c then 0 else gh_index s + 1), gh_total := gh_total s + ucast len\<rparr>)"

definition gh_serve :: "gh_cfg \<Rightarrow> gh_st \<Rightarrow> gh_st" where
  "gh_serve c s = (let i = int (gh_index s) in
    if 0 < gh_avail s i
    then if gc_words c * 64 \<le> unat (gh_avail s i) then gh_request c (of_nat (gc_words c * 64)) s
      else if unat (gc_expected c) < unat (gh_rx s i) + gc_words c * 64 then gh_request c (ucast (gc_expected c - gh_rx s i)) s
      else s
    else s)"

definition gather_handshake :: "gh_cfg \<Rightarrow> gh_st \<Rightarrow> gh_st" where
  "gather_handshake c s =
    (if gh_done s then s
     else let t = (case gh_notif s of w # ws \<Rightarrow> gh_notified c (notification_of w) (s\<lparr>gh_notif := ws\<rparr>) | [] \<Rightarrow> gh_serve c s) in
       t\<lparr>gh_done := \<not> gh_total t < gh_totalExp c\<rparr>)"

definition gh_init :: "(int \<Rightarrow> sid) \<Rightarrow> gh_st" where
  "gh_init table = \<lparr>gh_avail = (\<lambda>_. 0), gh_rx = (\<lambda>_. 0), gh_table = table, gh_total = 0, gh_index = 0, gh_done = False,
     gh_notif = [], gh_read = [], gh_next = []\<rparr>"

subsection \<open>Taking the packets\<close>

text \<open>
  \<^verbatim>\<open>gather_consumeData\<close> up to a read of a word: \<open>gcn_inside\<close> is the inner loop. The metadata word is read and dropped.
\<close>

record gcn_st =
  gcn_rx :: "64 word"
  gcn_length :: u16
  gcn_inside :: bool
  gcn_done :: bool
  gcn_meta :: "u16 fifo"
  gcn_next :: "u16 fifo"
  gcn_data :: "pkt512 fifo"
  gcn_out :: "512 word fifo"

definition gcn_word :: "64 word \<Rightarrow> gcn_st \<Rightarrow> gcn_st" where
  "gcn_word tot s = (case gcn_data s of
     [] \<Rightarrow> s
   | w # ws \<Rightarrow> let t = s\<lparr>gcn_data := ws, gcn_out := gcn_out s @ [p5_data w]\<rparr> in
      if p5_last w
      then let rx = gcn_rx s + ucast (gcn_length s) in t\<lparr>gcn_inside := False, gcn_rx := rx, gcn_done := \<not> rx < tot\<rparr>
      else t)"

definition consume_step :: "64 word \<Rightarrow> gcn_st \<Rightarrow> gcn_st" where
  "consume_step tot s =
    (if gcn_done s then s
     else if gcn_inside s then gcn_word tot s
     else if gcn_meta s \<noteq> [] \<and> gcn_next s \<noteq> []
       then s\<lparr>gcn_meta := tl (gcn_meta s), gcn_length := hd (gcn_next s), gcn_next := tl (gcn_next s), gcn_inside := True\<rparr>
     else s\<lparr>gcn_done := \<not> gcn_rx s < tot\<rparr>)"

definition gather_consumeData :: "gh_cfg \<Rightarrow> gcn_st \<Rightarrow> gcn_st" where
  "gather_consumeData c = consume_step (gh_totalExp c)"

subsection \<open>Requests in turn\<close>

text \<open>
  The configuration of a transfer of \<open>m\<close> whole packets per session, and the notifications that
  belong to it: those of session \<open>i\<close> name its number and its port, and there are not more bytes than
  the session is expected to send.
\<close>

definition gc_bytes :: "gh_cfg \<Rightarrow> nat" where
  "gc_bytes c = gc_words c * 64"

definition gc_ok :: "gh_cfg \<Rightarrow> nat \<Rightarrow> bool" where
  "gc_ok c m \<longleftrightarrow> 0 < gc_bytes c \<and> gc_bytes c < 65536 \<and> 0 < gc_useConn c \<and> 0 < m
     \<and> unat (gc_expected c) = m * gc_bytes c \<and> m * gc_bytes c * gc_useConn c < 2 ^ 64"

datatype gh_event = Iterate | Notify "128 word"

fun gh_exec :: "gh_cfg \<Rightarrow> gh_event \<Rightarrow> gh_st \<Rightarrow> gh_st" where
  "gh_exec c Iterate s = gather_handshake c s"
| "gh_exec c (Notify w) s = s\<lparr>gh_notif := gh_notif s @ [w]\<rparr>"

fun gh_words :: "gh_event \<Rightarrow> 128 word list" where
  "gh_words (Notify w) = [w]"
| "gh_words Iterate = []"

definition of_session :: "gh_cfg \<Rightarrow> (nat \<Rightarrow> sid) \<Rightarrow> 128 word \<Rightarrow> bool" where
  "of_session c sess w \<longleftrightarrow> (\<exists>i < gc_useConn c. uint (an_dstPort (notification_of w)) = gc_basePort c + int i
     \<and> an_sessionID (notification_of w) = sess i)"

definition notified :: "gh_cfg \<Rightarrow> nat \<Rightarrow> 128 word list \<Rightarrow> nat" where
  "notified c i ws = sum_list (map (\<lambda>w. if uint (an_dstPort (notification_of w)) = gc_basePort c + int i
     then unat (an_length (notification_of w)) else 0) ws)"

lemma notified_append [simp]: "notified c i (ws @ vs) = notified c i ws + notified c i vs"
  by (simp add: notified_def)

lemma notified_Nil [simp]: "notified c i [] = 0"
  by (simp add: notified_def)

lemma notified_Cons: "notified c i (w # ws) = notified c i [w] + notified c i ws"
  by (simp add: notified_def)

text \<open>How many of the first \<open>a\<close> requests are for session \<open>i\<close>.\<close>

definition turns :: "nat \<Rightarrow> nat \<Rightarrow> nat \<Rightarrow> nat" where
  "turns u a i = length (filter (\<lambda>b. b mod u = i) [0..<a])"

lemma turns_0 [simp]: "turns u 0 i = 0"
  by (simp add: turns_def)

lemma turns_Suc [simp]: "turns u (Suc a) i = turns u a i + (if a mod u = i then 1 else 0)"
  by (simp add: turns_def)

lemma turns_eq: "i < u \<Longrightarrow> turns u a i = a div u + (if i < a mod u then 1 else 0)"
proof (induction a)
  case (Suc a)
  then show ?case by (cases "a mod u + 1 = u") (auto simp: div_Suc mod_Suc)
qed simp

lemma turns_now: "0 < u \<Longrightarrow> turns u a (a mod u) = a div u"
  by (simp add: turns_eq)

definition gh_req :: "gh_cfg \<Rightarrow> (nat \<Rightarrow> sid) \<Rightarrow> nat \<Rightarrow> u32" where
  "gh_req c sess a = read_pkg (sess (a mod gc_useConn c)) (of_nat (gc_bytes c))"

text \<open>The books of session \<open>i\<close>: bytes available, bytes requested, the session number.\<close>

definition gh_account :: "gh_cfg \<Rightarrow> (nat \<Rightarrow> sid) \<Rightarrow> nat \<Rightarrow> 128 word list \<Rightarrow> nat \<Rightarrow> 128 word list \<Rightarrow> nat \<Rightarrow> nat \<Rightarrow> nat \<Rightarrow> sid \<Rightarrow> bool" where
  "gh_account c sess m ws a nf i av rx tb \<longleftrightarrow> rx = turns (gc_useConn c) a i * gc_bytes c \<and> av + rx + notified c i nf = notified c i ws
     \<and> notified c i ws \<le> m * gc_bytes c \<and> (0 < av + rx \<longrightarrow> tb = sess i)"

definition gh_inv :: "gh_cfg \<Rightarrow> (nat \<Rightarrow> sid) \<Rightarrow> nat \<Rightarrow> 128 word list \<Rightarrow> nat \<Rightarrow> gh_st \<Rightarrow> bool" where
  "gh_inv c sess m ws a s \<longleftrightarrow> a \<le> m * gc_useConn c \<and> gh_read s = map (gh_req c sess) [0..<a]
     \<and> gh_next s = replicate a (of_nat (gc_bytes c)) \<and> gh_index s = a mod gc_useConn c \<and> unat (gh_total s) = a * gc_bytes c
     \<and> (\<forall>w \<in> set (gh_notif s). of_session c sess w)
     \<and> (\<forall>i < gc_useConn c. gh_account c sess m ws a (gh_notif s) i (unat (gh_avail s (int i))) (unat (gh_rx s (int i))) (gh_table s (int i)))"

lemma gh_bound:
  assumes "gc_ok c m" and "n \<le> m * gc_bytes c"
  shows "n < 2 ^ 64"
proof -
  have "1 \<le> gc_useConn c" using assms(1) by (simp add: gc_ok_def)
  then have "m * gc_bytes c * 1 \<le> m * gc_bytes c * gc_useConn c" by (rule mult_le_mono2)
  moreover have "m * gc_bytes c * gc_useConn c < 2 ^ 64" using assms(1) by (simp add: gc_ok_def)
  ultimately show ?thesis using assms(2) by linarith
qed

lemma gh_totalExp_nat: "gc_ok c m \<Longrightarrow> unat (gh_totalExp c) = m * gc_bytes c * gc_useConn c"
  by (simp add: gh_totalExp_def gc_ok_def unat_word_ariths unat_of_nat mod_mult_right_eq)

lemma gh_less:
  assumes ok: "gc_ok c m" and inv: "gh_inv c sess m ws a s"
  shows "gh_total s < gh_totalExp c \<longleftrightarrow> a \<noteq> m * gc_useConn c"
proof -
  have "gh_total s < gh_totalExp c \<longleftrightarrow> a * gc_bytes c < m * gc_useConn c * gc_bytes c"
    using inv gh_totalExp_nat[OF ok] by (simp add: gh_inv_def word_less_nat_alt mult.commute mult.left_commute)
  then show ?thesis using inv ok by (auto simp: gh_inv_def gc_ok_def)
qed

lemma gh_inv_request:
  assumes ok: "gc_ok c m" and inv: "gh_inv c sess m ws a s" and a: "a < m * gc_useConn c"
    and av: "gc_bytes c \<le> unat (gh_avail s (int (gh_index s)))"
  shows "gh_inv c sess m ws (a + 1) (gh_request c (of_nat (gc_bytes c)) s)"
proof -
  define u B i where "u = gc_useConn c" and "B = gc_bytes c" and "i = a mod u"
  have u: "0 < u" "i < u" and B: "0 < B" "B < 65536" using ok by (simp_all add: gc_ok_def u_def B_def i_def)
  have idx: "gh_index s = i" using inv by (simp add: gh_inv_def i_def u_def)
  have len: "unat (ucast (of_nat B :: u16) :: 64 word) = B" using B(2) by (simp add: word_nat unat_of_nat)
  have acc: "gh_account c sess m ws a (gh_notif s) j (unat (gh_avail s (int j))) (unat (gh_rx s (int j))) (gh_table s (int j))"
    if "j < u" for j using inv that by (simp add: gh_inv_def u_def)
  note i = acc[OF u(2), unfolded gh_account_def]
  have t: "gh_table s (int i) = sess i" using i av B idx by (simp add: B_def)
  have "unat (gh_rx s (int i)) + B < 2 ^ 64" using i av idx by (intro gh_bound[OF ok]) (simp add: B_def)
  then have rx': "unat (gh_rx s (int i) + ucast (of_nat B :: u16)) = unat (gh_rx s (int i)) + B" by (simp add: unat_add_mod len)
  have av': "unat (gh_avail s (int i) - ucast (of_nat B :: u16)) = unat (gh_avail s (int i)) - B"
    using av[folded B_def] idx unat_bound[of "gh_avail s (int i)"] by (simp add: unat_sub_mod len nat_sub_mod)
  have "(a + 1) * B \<le> m * u * B" using a by (intro mult_le_mono1) (simp add: u_def)
  moreover have "m * u * B < 2 ^ 64" using ok by (simp add: gc_ok_def u_def B_def mult.commute mult.left_commute)
  ultimately have "a * B + B < 2 ^ 64" by simp
  then have tot: "unat (gh_total s + ucast (of_nat B :: u16)) = a * B + B"
  proof -
    have "unat (gh_total s) = a * B" using inv by (simp add: gh_inv_def B_def)
    then show ?thesis using \<open>a * B + B < 2 ^ 64\<close> by (simp add: unat_add_mod len)
  qed
  define s' where "s' = gh_request c (of_nat B) s"
  have s': "gh_read s' = gh_read s @ [read_pkg (sess i) (of_nat B)]" "gh_next s' = gh_next s @ [of_nat B]" "gh_index s' = (a + 1) mod u"
    "gh_total s' = gh_total s + ucast (of_nat B :: u16)" "gh_done s' = gh_done s" "gh_notif s' = gh_notif s" "gh_table s' = gh_table s"
    "gh_avail s' = (gh_avail s)(int i := gh_avail s (int i) - ucast (of_nat B :: u16))"
    "gh_rx s' = (gh_rx s)(int i := gh_rx s (int i) + ucast (of_nat B :: u16))"
    using t idx by (simp_all add: s'_def gh_request_def Let_def mod_Suc u_def[symmetric] i_def)
  have new: "gh_account c sess m ws (a + 1) (gh_notif s') j (unat (gh_avail s' (int j))) (unat (gh_rx s' (int j))) (gh_table s' (int j))"
    if "j < u" for j
  proof (cases "j = i")
    case True
    then show ?thesis using i rx' av' av idx t
      by (simp add: s' gh_account_def u_def[symmetric] B_def[symmetric] i_def[symmetric])
  next
    case False
    then show ?thesis using acc[OF that] by (simp add: s' gh_account_def u_def[symmetric] i_def[symmetric])
  qed
  show ?thesis unfolding B_def[symmetric] s'_def[symmetric]
    using inv a tot new
    by (simp add: gh_inv_def s' u_def[symmetric] B_def[symmetric] gh_req_def i_def replicate_append_same add.commute)
qed

lemma gh_serve_cases:
  assumes ok: "gc_ok c m" and inv: "gh_inv c sess m ws a s"
  shows "gh_serve c s = (if gc_bytes c \<le> unat (gh_avail s (int (gh_index s))) then gh_request c (of_nat (gc_bytes c)) s else s)"
proof -
  define i where "i = gh_index s"
  have i: "i < gc_useConn c" using inv ok by (simp add: gh_inv_def i_def gc_ok_def)
  then have acc: "gh_account c sess m ws a (gh_notif s) i (unat (gh_avail s (int i))) (unat (gh_rx s (int i))) (gh_table s (int i))"
    using inv by (simp add: gh_inv_def)
  define q where "q = turns (gc_useConn c) a i"
  have rx: "unat (gh_rx s (int i)) = q * gc_bytes c" "unat (gh_avail s (int i)) + q * gc_bytes c \<le> m * gc_bytes c"
    using acc by (auto simp: gh_account_def q_def)
  have "\<not> unat (gc_expected c) < unat (gh_rx s (int i)) + gc_bytes c" if "0 < unat (gh_avail s (int i))"
  proof -
    have "q * gc_bytes c < m * gc_bytes c" using that rx(2) by linarith
    then have "q + 1 \<le> m" by simp
    then have "(q + 1) * gc_bytes c \<le> m * gc_bytes c" by (rule mult_le_mono1)
    then show ?thesis using rx(1) ok by (simp add: gc_ok_def)
  qed
  moreover have "0 < gc_bytes c" using ok by (simp add: gc_ok_def)
  ultimately show ?thesis
    by (auto simp: gh_serve_def Let_def gc_bytes_def[symmetric] i_def[symmetric] word_greater_zero_iff unat_gt_0)
qed

lemma gh_inv_notified:
  assumes ok: "gc_ok c m" and inv: "gh_inv c sess m ws a s" and n: "gh_notif s = w # nf"
  shows "gh_inv c sess m ws a (gh_notified c (notification_of w) (s\<lparr>gh_notif := nf\<rparr>))"
proof -
  have "of_session c sess w" using inv n by (simp add: gh_inv_def)
  then obtain i where i: "i < gc_useConn c" "uint (an_dstPort (notification_of w)) = gc_basePort c + int i"
    "an_sessionID (notification_of w) = sess i" by (auto simp: of_session_def)
  define l where "l = an_length (notification_of w)"
  have acc: "gh_account c sess m ws a (w # nf) j (unat (gh_avail s (int j))) (unat (gh_rx s (int j))) (gh_table s (int j))"
    if "j < gc_useConn c" for j using inv that n by (simp add: gh_inv_def)
  have one: "notified c j (w # nf) = (if j = i then unat l else 0) + notified c j nf" for j
    using i(2) notified_Cons[of c j w nf] by (auto simp: notified_def l_def)
  have "unat (gh_avail s (int i)) + unat l < 2 ^ 64"
    using acc[OF i(1)] one[of i] by (intro gh_bound[OF ok]) (simp add: gh_account_def)
  moreover have "unat (ucast l :: 64 word) = unat l" using unat_bound[of l] by (simp add: word_nat)
  ultimately have sum: "unat (gh_avail s (int i) + ucast l) = unat (gh_avail s (int i)) + unat l" by (simp add: unat_add_mod)
  define s' where "s' = gh_notified c (notification_of w) (s\<lparr>gh_notif := nf\<rparr>)"
  have s': "gh_read s' = gh_read s" "gh_next s' = gh_next s" "gh_index s' = gh_index s" "gh_total s' = gh_total s" "gh_done s' = gh_done s"
    "gh_notif s' = nf" "gh_rx s' = gh_rx s"
    by (simp_all add: s'_def gh_notified_def Let_def)
  have av: "gh_avail s' (int j) = (if j = i then gh_avail s (int i) + ucast l else gh_avail s (int j))"
    "gh_table s' (int j) = (if j = i \<and> l \<noteq> 0 then sess i else gh_table s (int j))" for j
    using i by (simp_all add: s'_def gh_notified_def Let_def l_def)
  have "gh_account c sess m ws a nf j (unat (gh_avail s' (int j))) (unat (gh_rx s (int j))) (gh_table s' (int j))" if "j < gc_useConn c" for j
  proof -
    have "l \<noteq> 0 \<longleftrightarrow> 0 < unat l" by (simp add: unat_gt_0)
    then show ?thesis using acc[OF that] one[of j] sum by (auto simp: gh_account_def av)
  qed
  then show ?thesis using inv n by (simp add: gh_inv_def s'_def[symmetric] s')
qed

definition gh_ok :: "gh_cfg \<Rightarrow> (nat \<Rightarrow> sid) \<Rightarrow> nat \<Rightarrow> 128 word list \<Rightarrow> nat \<Rightarrow> gh_st \<Rightarrow> bool" where
  "gh_ok c sess m ws a s \<longleftrightarrow> gh_inv c sess m ws a s \<and> (gh_done s \<longleftrightarrow> a = m * gc_useConn c)"

lemma gh_ok_done:
  "gc_ok c m \<Longrightarrow> gh_inv c sess m ws a s \<Longrightarrow> gh_ok c sess m ws a (s\<lparr>gh_done := \<not> gh_total s < gh_totalExp c\<rparr>)"
  using gh_less[of c m sess ws a s] by (simp add: gh_ok_def gh_inv_def)

lemma gh_ok_step:
  assumes ok: "gc_ok c m" and inv: "gh_ok c sess m ws a s"
  shows "gh_ok c sess m ws (a + 1) (gather_handshake c s) \<and> gh_notif s = [] \<or> gh_ok c sess m ws a (gather_handshake c s)
    \<and> (gh_done s \<or> gh_notif s \<noteq> [] \<and> length (gh_notif (gather_handshake c s)) < length (gh_notif s)
       \<or> unat (gh_avail s (int (gh_index s))) < gc_bytes c \<and> gh_notif s = [] \<and> gh_notif (gather_handshake c s) = [])"
proof (cases "gh_done s")
  case True
  then show ?thesis using inv by (simp add: gather_handshake_def)
next
  case False
  then have core: "gh_inv c sess m ws a s" and a: "a < m * gc_useConn c" using inv by (auto simp: gh_ok_def gh_inv_def)
  show ?thesis
  proof (cases "gh_notif s")
    case (Cons w nf)
    have "gh_notif (gh_notified c (notification_of w) (s\<lparr>gh_notif := nf\<rparr>)) = nf" by (simp add: gh_notified_def Let_def)
    then show ?thesis
      using gh_ok_done[OF ok gh_inv_notified[OF ok core Cons]] Cons False by (simp add: gather_handshake_def Let_def)
  next
    case Nil
    have "gh_notif (gh_request c x s) = []" for x using Nil by (simp add: gh_request_def Let_def)
    then show ?thesis
      using gh_ok_done[OF ok gh_inv_request[OF ok core a]] gh_ok_done[OF ok core] gh_serve_cases[OF ok core] Nil False
      by (cases "gc_bytes c \<le> unat (gh_avail s (int (gh_index s)))") (simp_all add: gather_handshake_def Let_def)
  qed
qed

lemma gh_books:
  assumes "gh_ok c sess m ws a s" and "i < gc_useConn c"
  shows "unat (gh_avail s (int i)) + turns (gc_useConn c) a i * gc_bytes c + notified c i (gh_notif s) = notified c i ws"
proof -
  have "gh_account c sess m ws a (gh_notif s) i (unat (gh_avail s (int i))) (unat (gh_rx s (int i))) (gh_table s (int i))"
    using assms by (simp add: gh_ok_def gh_inv_def)
  then show ?thesis unfolding gh_account_def by linarith
qed

lemma gh_ok_notify:
  assumes "gh_ok c sess m ws a s" and "of_session c sess w" and "\<forall>i < gc_useConn c. notified c i (ws @ [w]) \<le> m * gc_bytes c"
  shows "gh_ok c sess m (ws @ [w]) a (gh_exec c (Notify w) s)"
proof -
  have "gh_account c sess m (ws @ [w]) a (gh_notif s @ [w]) i (unat (gh_avail s (int i))) (unat (gh_rx s (int i))) (gh_table s (int i))"
    if "i < gc_useConn c" for i
  proof -
    have "gh_account c sess m ws a (gh_notif s) i (unat (gh_avail s (int i))) (unat (gh_rx s (int i))) (gh_table s (int i))"
      using assms(1) that by (simp add: gh_ok_def gh_inv_def)
    then show ?thesis using assms(3) that unfolding gh_account_def notified_append by simp
  qed
  then show ?thesis using assms(1,2) by (simp add: gh_ok_def gh_inv_def)
qed

lemma gh_ok_init: "gc_ok c m \<Longrightarrow> gh_ok c sess m [] 0 (gh_init table)"
  by (simp add: gh_ok_def gh_inv_def gh_init_def gh_account_def gc_ok_def)

lemma gh_ok_run:
  assumes ok: "gc_ok c m"
  shows "\<forall>w \<in> set (concat (map gh_words es)). of_session c sess w \<Longrightarrow>
    \<forall>i < gc_useConn c. notified c i (concat (map gh_words es)) \<le> m * gc_bytes c \<Longrightarrow>
    \<exists>a. gh_ok c sess m (concat (map gh_words es)) a (fold (gh_exec c) es (gh_init table))"
proof (induction es rule: rev_induct)
  case (snoc e es)
  have "\<forall>i < gc_useConn c. notified c i (concat (map gh_words es)) \<le> m * gc_bytes c" using snoc.prems(2) by auto
  with snoc obtain a where a: "gh_ok c sess m (concat (map gh_words es)) a (fold (gh_exec c) es (gh_init table))" by auto
  show ?case
  proof (cases e)
    case Iterate
    then show ?thesis using gh_ok_step[OF ok a] by auto
  next
    case (Notify w)
    then show ?thesis using gh_ok_notify[OF a, of w] snoc.prems by auto
  qed
qed (use gh_ok_init[OF ok] in auto)

text \<open>C30. When every session sends \<open>m\<close> whole packets, then in every run of \<^verbatim>\<open>gather_handshake\<close>, however the
  notifications are cut and interleaved, the read requests are for one packet of each session in turn, no
  session is asked for more than it has been notified of, and at the end every packet has been asked for.\<close>

theorem gather_in_turn:
  assumes "gc_ok c m" and "\<forall>w \<in> set (concat (map gh_words es)). of_session c sess w"
    and "\<forall>i < gc_useConn c. notified c i (concat (map gh_words es)) \<le> m * gc_bytes c"
    and "fold (gh_exec c) es (gh_init table) = s"
  shows "\<exists>a \<le> m * gc_useConn c. gh_read s = map (gh_req c sess) [0..<a] \<and> gh_next s = replicate a (of_nat (gc_bytes c))
    \<and> (\<forall>i < gc_useConn c. turns (gc_useConn c) a i * gc_bytes c \<le> notified c i (concat (map gh_words es)))
    \<and> (gh_done s \<longleftrightarrow> a = m * gc_useConn c)"
proof -
  obtain a where a: "gh_ok c sess m (concat (map gh_words es)) a s" using gh_ok_run[OF assms(1-3)] assms(4) by blast
  have "turns (gc_useConn c) a i * gc_bytes c \<le> notified c i (concat (map gh_words es))" if "i < gc_useConn c" for i
    using gh_books[OF a that] by linarith
  then show ?thesis using a by (intro exI[of _ a]) (simp add: gh_ok_def gh_inv_def)
qed

text \<open>Once everything has been notified, the handshake comes to its end.\<close>

lemma gather_progress:
  assumes ok: "gc_ok c m" and inv: "gh_ok c sess m ws a s" and all: "\<forall>i < gc_useConn c. notified c i ws = m * gc_bytes c"
    and "\<not> gh_done s"
  shows "length (gh_notif s) \<noteq> 0 \<and> length (gh_notif (gather_handshake c s)) < length (gh_notif s) \<and> gh_ok c sess m ws a (gather_handshake c s)
    \<or> gh_notif s = [] \<and> gh_ok c sess m ws (a + 1) (gather_handshake c s)"
proof (cases "gh_notif s = []")
  case True
  define i where "i = gh_index s"
  have i: "i = a mod gc_useConn c" "i < gc_useConn c" "a < m * gc_useConn c" "0 < gc_useConn c"
    using inv ok assms(4) by (auto simp: gh_ok_def gh_inv_def i_def gc_ok_def)
  then have acc: "unat (gh_avail s (int i)) + (a div gc_useConn c) * gc_bytes c = m * gc_bytes c"
    using gh_books[OF inv i(2)] all True turns_now[OF i(4), of a] by simp
  have "a div gc_useConn c + 1 \<le> m" using i(3,4) by (simp add: Suc_le_eq div_less_iff_less_mult)
  then have "(a div gc_useConn c + 1) * gc_bytes c \<le> m * gc_bytes c" by (rule mult_le_mono1)
  then have "\<not> unat (gh_avail s (int (gh_index s))) < gc_bytes c" using acc by (simp add: i_def)
  then show ?thesis using gh_ok_step[OF ok inv] True assms(4) by auto
next
  case False
  then show ?thesis using gh_ok_step[OF ok inv] assms(4) by auto
qed

lemma gather_completes:
  assumes ok: "gc_ok c m" and "gh_ok c sess m ws a s" and all: "\<forall>i < gc_useConn c. notified c i ws = m * gc_bytes c"
  shows "\<exists>n. gh_done (fold (gh_exec c) (replicate n Iterate) s)"
  using assms(2)
proof (induction "length (gh_notif s) + (m * gc_useConn c - a)" arbitrary: a s rule: less_induct)
  case less
  show ?case
  proof (cases "gh_done s")
    case True
    then have "gh_done (fold (gh_exec c) (replicate 0 Iterate) s)" by simp
    then show ?thesis by blast
  next
    case False
    define t where "t = gather_handshake c s"
    have "a < m * gc_useConn c" using less.prems False by (auto simp: gh_ok_def gh_inv_def)
    moreover have "gh_notif t = []" if "gh_notif s = []"
      using that False by (simp add: t_def gather_handshake_def gh_serve_def gh_request_def Let_def)
    ultimately obtain b where "gh_ok c sess m ws b t"
      "length (gh_notif t) + (m * gc_useConn c - b) < length (gh_notif s) + (m * gc_useConn c - a)"
      using gather_progress[OF ok less.prems all False] unfolding t_def[symmetric] by auto
    from less.hyps[OF this(2,1)] obtain n where "gh_done (fold (gh_exec c) (replicate n Iterate) t)" by blast
    then have "gh_done (fold (gh_exec c) (replicate (Suc n) Iterate) s)" by (simp add: t_def)
    then show ?thesis by blast
  qed
qed

text \<open>The request for the rest of a session is made as soon as any byte of it has been notified: it may ask for more than
  is there, and the count of available bytes then wraps to nearly \<open>2 ^ 64\<close>.\<close>

lemma gather_asks_too_much:
  assumes "\<not> gh_done s" and "gh_notif s = []" and "av = unat (gh_avail s (int (gh_index s)))" and "0 < av" and "av < gc_bytes c"
    and "rest = unat (gc_expected c) - unat (gh_rx s (int (gh_index s)))" and "av < rest" and "rest < gc_bytes c" and "gc_bytes c < 65536"
    and "t = gather_handshake c s"
  shows "gh_read t = gh_read s @ [read_pkg (gh_table s (int (gh_index s))) (of_nat rest)] \<and> unat (of_nat rest :: u16) = rest
    \<and> unat (gh_avail t (int (gh_index s))) = 2 ^ 64 + av - rest"
proof -
  define i where "i = int (gh_index s)"
  have r16: "unat (of_nat rest :: u16) = rest" using assms(8,9) by (simp add: unat_of_nat)
  have le: "gh_rx s i \<le> gc_expected c" using assms(6,7) by (simp add: word_le_nat_alt i_def)
  then have d: "unat (gc_expected c - gh_rx s i) = rest" using assms(6) by (simp add: unat_sub i_def)
  then have w: "ucast (gc_expected c - gh_rx s i) = (of_nat rest :: u16)" by (metis of_nat_unat)
  have "unat (gc_expected c) < unat (gh_rx s i) + gc_words c * 64" using assms(6,8) by (simp add: gc_bytes_def i_def)
  moreover have "\<not> gc_words c * 64 \<le> unat (gh_avail s i)" using assms(3,5) by (simp add: gc_bytes_def i_def)
  moreover have "0 < gh_avail s i" using assms(3,4) by (simp add: i_def unat_gt_0 word_greater_zero_iff)
  ultimately have sv: "gh_serve c s = gh_request c (of_nat rest) s" using w by (simp add: gh_serve_def Let_def i_def)
  have wrap: "unat (gh_avail s i - ucast (of_nat rest :: u16)) = 2 ^ 64 + av - rest"
  proof -
    have "unat (ucast (of_nat rest :: u16) :: 64 word) = rest" using assms(8,9) by (simp add: word_nat unat_of_nat)
    then show ?thesis using assms(3,7) by (simp add: unat_sub_mod i_def)
  qed
  show ?thesis using assms(1,2,10) sv r16 wrap by (simp add: gather_handshake_def gh_request_def Let_def i_def)
qed

definition gc_demo :: gh_cfg where
  "gc_demo = \<lparr>gc_expected = 128, gc_useConn = 2, gc_words = 1, gc_basePort = 5001\<rparr>"

definition gc_note :: "u16 \<Rightarrow> u16 \<Rightarrow> u16 \<Rightarrow> 128 word" where
  "gc_note i len p = range_set 79 64 p (range_set 31 16 len (range_set 15 0 i 0))"

lemma gc_note_fields [simp]:
  "an_sessionID (notification_of (gc_note i len p)) = i" "an_length (notification_of (gc_note i len p)) = len"
  "an_dstPort (notification_of (gc_note i len p)) = p"
  by (simp_all add: notification_of_def gc_note_def range_get_set_same range_get_set_other)

theorem gather_in_turn_witness:
  "\<exists>a. gh_read (fold (gh_exec gc_demo) [Notify (gc_note 7 100 5001), Iterate, Notify (gc_note 8 64 5002), Iterate, Iterate, Iterate]
      (gh_init (\<lambda>_. 0))) = map (gh_req gc_demo (\<lambda>i. of_nat i + 7)) [0..<a]"
proof -
  define es where "es = [Notify (gc_note 7 100 5001), Iterate, Notify (gc_note 8 64 5002), Iterate, Iterate, Iterate]"
  have "gc_ok gc_demo 2" by (simp add: gc_ok_def gc_demo_def gc_bytes_def)
  moreover have "\<forall>w \<in> set (concat (map gh_words es)). of_session gc_demo (\<lambda>i. of_nat i + 7) w"
  proof -
    have "of_session gc_demo (\<lambda>i. of_nat i + 7) (gc_note 7 100 5001)" "of_session gc_demo (\<lambda>i. of_nat i + 7) (gc_note 8 64 5002)"
      unfolding of_session_def by (rule exI[of _ 0], simp add: gc_demo_def) (rule exI[of _ 1], simp add: gc_demo_def)
    then show ?thesis by (simp add: es_def)
  qed
  moreover have "\<forall>i < gc_useConn gc_demo. notified gc_demo i (concat (map gh_words es)) \<le> 2 * gc_bytes gc_demo"
    by (simp add: es_def notified_def gc_demo_def gc_bytes_def)
  ultimately show ?thesis using gather_in_turn[OF _ _ _ refl] unfolding es_def by blast
qed

definition gh_short :: gh_st where
  "gh_short = (gh_init (\<lambda>_. 7))\<lparr>gh_avail := (\<lambda>_. 0)(0 := 32)\<rparr>"

lemma gather_asks_too_much_witness:
  "unat (gh_avail (gather_handshake (gc_demo\<lparr>gc_expected := 48\<rparr>) gh_short) 0) = 2 ^ 64 + 32 - 48"
  using gather_asks_too_much[of gh_short 32 "gc_demo\<lparr>gc_expected := 48\<rparr>" 48, OF _ _ _ _ _ _ _ _ _ refl]
  by (simp add: gh_short_def gh_init_def gc_demo_def gc_bytes_def)

end
