(* ===== verification/Kernel_Broadcast.thy ===== *)
theory Kernel_Broadcast
  imports Kernel_Send
begin

text \<open>
  \<^verbatim>\<open>broadcast\<close>: every packet of the input goes to all sessions, the first time from the input stream
  and then from the buffer. The packet of session \<open>i\<close> in round \<open>r\<close> is number \<open>r * useConn + i\<close>.
\<close>

definition bc_ok :: "ktx_cfg \<Rightarrow> bool" where
  "bc_ok c \<longleftrightarrow> snd_ok c \<and> 2 \<le> kc_useConn c \<and> kc_words c \<le> 256"

text \<open>Bytes of round \<open>r\<close>; of packet \<open>a\<close> as announced; the words written for it; the input read before round \<open>r\<close>.\<close>

definition bc_len :: "ktx_cfg \<Rightarrow> nat \<Rightarrow> nat" where
  "bc_len c r = (if r + 1 < snd_count c then kc_bytes c else unat (kc_expected c) - r * kc_bytes c)"

definition bc_count :: "ktx_cfg \<Rightarrow> nat" where
  "bc_count c = snd_count c * kc_useConn c"

definition bc_bytes :: "ktx_cfg \<Rightarrow> nat \<Rightarrow> nat" where
  "bc_bytes c a = (if a = 0 then kc_bytes c else bc_len c (a div kc_useConn c))"

definition bc_words :: "ktx_cfg \<Rightarrow> nat \<Rightarrow> nat" where
  "bc_words c a = bc_len c (if a + 1 < bc_count c then (a + 1) div kc_useConn c else snd_count c - 1) div 64"

definition bc_read :: "ktx_cfg \<Rightarrow> nat \<Rightarrow> nat" where
  "bc_read c r = sum_list (map (\<lambda>i. bc_len c i div 64) [0..<r])"

definition bc_req :: "ktx_cfg \<Rightarrow> nat \<Rightarrow> u32" where
  "bc_req c a = tx_meta_pkt (kc_session c (a mod kc_useConn c)) (of_nat (bc_bytes c a))"

definition bc_packet :: "ktx_cfg \<Rightarrow> 512 word list \<Rightarrow> nat \<Rightarrow> pkt512 list" where
  "bc_packet c ds a = words_of ds (bc_read c (a div kc_useConn c)) (bc_words c a)"

lemma bc_packet_length [simp]: "length (bc_packet c ds a) = bc_words c a"
  by (simp add: bc_packet_def)

lemma bc_round_less: "bc_ok c \<Longrightarrow> a < bc_count c \<longleftrightarrow> a div kc_useConn c < snd_count c"
  by (simp add: bc_ok_def bc_count_def div_less_iff_less_mult mult.commute)

lemma bc_len_less: "bc_ok c \<Longrightarrow> r < snd_count c \<Longrightarrow> bc_len c r \<le> kc_bytes c"
  using snd_count_less[of c "r + 1"] by (auto simp: bc_len_def bc_ok_def)

lemma bc_bytes_word [simp]:
  "bc_ok c \<Longrightarrow> a < bc_count c \<Longrightarrow> unat (of_nat (bc_bytes c a) :: u16) = bc_bytes c a"
  using bc_len_less[of c "a div kc_useConn c"] bc_round_less[of c a]
  by (auto simp: unat_of_nat bc_bytes_def bc_ok_def snd_ok_def)

definition bc_total :: "ktx_cfg \<Rightarrow> nat \<Rightarrow> nat" where
  "bc_total c a = (if a < bc_count c then a div kc_useConn c * kc_bytes c else unat (kc_expected c))"

lemma bc_total_less: "bc_ok c \<Longrightarrow> bc_total c a < unat (kc_expected c) \<longleftrightarrow> a < bc_count c"
  using snd_count_less[of c "a div kc_useConn c"] bc_round_less[of c a] by (simp add: bc_total_def bc_ok_def)

lemma bc_total_Suc:
  assumes "bc_ok c" and "a < bc_count c"
  shows "bc_total c (a + 1) = (if (a + 1) mod kc_useConn c = 0 then bc_total c a + bc_bytes c a else bc_total c a)"
proof -
  define u where "u = kc_useConn c"
  have u: "2 \<le> u" using assms(1) by (simp add: bc_ok_def u_def)
  have le: "(a div u) * kc_bytes c < unat (kc_expected c)" "a div u < snd_count c"
    using assms bc_total_less[of c a] bc_round_less[of c a] by (simp_all add: bc_total_def u_def)
  show ?thesis
  proof (cases "(a + 1) mod u = 0")
    case True
    then have d: "(a + 1) div u = a div u + 1" by (simp add: div_Suc)
    have "a \<noteq> 0" using True u by (cases "a = 0") auto
    then show ?thesis
      using True d le assms bc_round_less[OF assms(1), of "a + 1"]
      by (simp add: bc_total_def bc_bytes_def bc_len_def u_def algebra_simps)
  next
    case False
    then have "(a + 1) div u = a div u" by (simp add: div_Suc)
    then show ?thesis using False assms bc_round_less[OF assms(1), of "a + 1"] bc_round_less[OF assms(1), of a]
      by (simp add: bc_total_def u_def)
  qed
qed

definition bc_buffered :: "ktx_cfg \<Rightarrow> 512 word list \<Rightarrow> nat \<Rightarrow> nat \<Rightarrow> ktx_st \<Rightarrow> bool" where
  "bc_buffered c ds r l s \<longleftrightarrow> (\<forall>i < l. ktx_buf s i = ds ! (bc_read c r + i))"

definition bc_G :: "ktx_cfg \<Rightarrow> 512 word list \<Rightarrow> nat \<Rightarrow> ktx_st \<Rightarrow> bool" where
  "bc_G c ds a s \<longleftrightarrow> bc_ok c \<and> unat (ktx_sent s) = bc_total c a \<and> ktx_index s = a mod kc_useConn c
     \<and> (a \<noteq> 0 \<longrightarrow> ktx_cur s = bc_words c (a - 1))
     \<and> (a mod kc_useConn c = 0 \<longrightarrow> ktx_in s = drop (bc_read c (a div kc_useConn c)) ds)
     \<and> (a mod kc_useConn c \<noteq> 0 \<longrightarrow> ktx_in s = drop (bc_read c (a div kc_useConn c + 1)) ds
          \<and> bc_buffered c ds (a div kc_useConn c) (bc_len c (a div kc_useConn c) div 64) s)"

definition bc_W :: "ktx_cfg \<Rightarrow> 512 word list \<Rightarrow> nat \<Rightarrow> nat \<Rightarrow> ktx_st \<Rightarrow> bool" where
  "bc_W c ds a j s \<longleftrightarrow> bc_ok c \<and> unat (ktx_sent s) = bc_total c (a + 1) \<and> ktx_index s = (a + 1) mod kc_useConn c
     \<and> ktx_cur s = bc_words c a \<and> ktx_j s = j
     \<and> (a mod kc_useConn c = 0 \<longrightarrow> ktx_in s = drop (bc_read c (a div kc_useConn c) + j) ds \<and> bc_buffered c ds (a div kc_useConn c) j s)
     \<and> (a mod kc_useConn c \<noteq> 0 \<longrightarrow> ktx_in s = drop (bc_read c (a div kc_useConn c + 1)) ds
          \<and> bc_buffered c ds (a div kc_useConn c) (bc_len c (a div kc_useConn c) div 64) s)"

lemma bc_loops: "bc_G c ds a s \<Longrightarrow> a < bc_count c \<Longrightarrow> ktx_sent s < kc_expected c"
  using bc_total_less[of c a] by (simp add: bc_G_def word_less_nat_alt)

lemma bc_start_step:
  assumes "bc_ok c"
  shows "0 < bc_count c \<and> bc_G c ds 0 (broadcast c (ktx_init buf ds)) \<and> ktx_pc (broadcast c (ktx_init buf ds)) = KTX_LOOP
      \<and> ktx_status (broadcast c (ktx_init buf ds)) = [] \<and> ktx_data (broadcast c (ktx_init buf ds)) = []
      \<and> ktx_meta (broadcast c (ktx_init buf ds)) = [bc_req c 0]"
proof -
  have n: "0 < bc_count c" using assms snd_count_pos[of c] by (simp add: bc_ok_def bc_count_def)
  then show ?thesis using assms
    by (simp add: ktx_init_def broadcast_def ktx_announce_def bc_G_def bc_total_def bc_read_def bc_req_def bc_bytes_def kc_bytes_def)
qed

lemma bc_wait_step:
  "bc_G c ds a s \<Longrightarrow> a < bc_count c \<Longrightarrow> ktx_pc s = KTX_LOOP \<Longrightarrow> ktx_status s = [] \<Longrightarrow> broadcast c s = s"
  using bc_loops[of c ds a s] by (simp add: broadcast_def ktx_test_def)

lemma bc_refuse_step:
  assumes "bc_G c ds a s" and "a < bc_count c" and "ktx_pc s = KTX_LOOP" and "ktx_status s = [status_pkt (bc_req c a) sp e]"
    and "e \<noteq> 0"
  shows "bc_G c ds a (broadcast c s) \<and> ktx_pc (broadcast c s) = KTX_LOOP \<and> ktx_status (broadcast c s) = []
      \<and> ktx_data (broadcast c s) = ktx_data s \<and> ktx_meta (broadcast c s) = ktx_meta s @ (if e = 1 then [] else [bc_req c a])"
  using assms bc_loops[OF assms(1,2)]
  by (simp add: broadcast_def ktx_test_def ktx_refused_def bc_G_def bc_buffered_def) (simp add: bc_req_def)

lemma bc_accept_step:
  assumes "bc_G c ds a s" and "a < bc_count c" and "ktx_pc s = KTX_LOOP" and "ktx_status s = [status_pkt (bc_req c a) sp 0]"
  shows "bc_W c ds a 0 (broadcast c s) \<and> ktx_pc (broadcast c s) = KTX_WORDS \<and> ktx_status (broadcast c s) = []
      \<and> ktx_data (broadcast c s) = ktx_data s
      \<and> ktx_meta (broadcast c s) = ktx_meta s @ (if a + 1 < bc_count c then [bc_req c (a + 1)] else [])"
proof -
  define u where "u = kc_useConn c"
  have ok: "bc_ok c" and g: "unat (ktx_sent s) = bc_total c a" "ktx_index s = a mod u" "a \<noteq> 0 \<longrightarrow> ktx_cur s = bc_words c (a - 1)"
    using assms(1) by (simp_all add: bc_G_def u_def)
  have u: "2 \<le> u" using ok by (simp add: bc_ok_def u_def)
  define sent where "sent = (if (a + 1) mod u = 0 then ktx_sent s + ucast (of_nat (bc_bytes c a) :: u16) else ktx_sent s)"
  have bound: "bc_total c (a + 1) < 2 ^ 64"
    using bc_total_less[OF ok, of "a + 1"] unat_bound[of "kc_expected c"] by (auto simp: bc_total_def)
  have sent: "unat sent = bc_total c (a + 1)"
    using g(1) bound bc_total_Suc[OF ok assms(2)] assms(2) ok
    by (auto simp: sent_def unat_add_mod word_nat u_def)
  have less: "sent < kc_expected c \<longleftrightarrow> a + 1 < bc_count c"
    using sent bc_total_less[OF ok, of "a + 1"] by (simp add: word_less_nat_alt)
  define t where "t = broadcast c s"
  define r where "r = s\<lparr>ktx_status := [], ktx_sent := sent, ktx_index := (a + 1) mod u\<rparr>"
  have t: "t = (ktx_request c r)\<lparr>ktx_pc := KTX_WORDS, ktx_j := 0\<rparr>"
    using assms(3,4) g(2) u
    by (auto simp: t_def r_def broadcast_def bc_accepted_def bc_req_def sent_def u_def[symmetric] mod_Suc Let_def)
  have r: "ktx_request c r = (if a + 1 < bc_count c then r\<lparr>ktx_meta := ktx_meta s @ [bc_req c (a + 1)], ktx_cur := bc_words c a\<rparr> else r)"
  proof (cases "a + 1 < bc_count c")
    case True
    define q where "q = (a + 1) div u"
    have st: "unat sent = q * kc_bytes c" using sent True by (simp add: bc_total_def q_def u_def)
    have "unat sent + kc_words c * 64 < unat (kc_expected c) \<longleftrightarrow> q + 1 < snd_count c"
      using snd_count_less[of c "q + 1"] ok st by (simp add: bc_ok_def kc_bytes_def algebra_simps)
    moreover have "bc_bytes c (a + 1) = bc_len c q" "bc_words c a = bc_len c q div 64"
      using True by (simp_all add: bc_bytes_def bc_words_def q_def u_def)
    moreover have "bc_len c q = (if q + 1 < snd_count c then kc_words c * 64 else unat (kc_expected c) - unat sent)"
      using st by (simp add: bc_len_def kc_bytes_def)
    ultimately show ?thesis
      using True less by (simp add: ktx_request_def ktx_announce_def bc_req_def Let_def r_def u_def[symmetric])
  qed (use less in \<open>simp add: ktx_request_def r_def\<close>)
  have cur: "ktx_cur s = bc_words c a" if "\<not> a + 1 < bc_count c"
  proof -
    have a: "a + 1 = bc_count c" using that assms(2) by simp
    have d: "(bc_count c - 1) div u = snd_count c - 1"
    proof -
      obtain m where "snd_count c = Suc m" using snd_count_pos[of c] ok by (cases "snd_count c") (auto simp: bc_ok_def)
      moreover have "Suc m * u - 1 = m * u + (u - 1)" using u by simp
      moreover have "(m * u + (u - 1)) div u = m" by (rule div_nat_eqI) (use u in \<open>auto simp: mult.commute\<close>)
      ultimately show ?thesis by (simp only: bc_count_def u_def[symmetric] diff_Suc_1)
    qed
    have "2 \<le> bc_count c" using u snd_count_pos[of c] ok
      by (cases "snd_count c") (auto simp: bc_count_def bc_ok_def u_def[symmetric])
    then have "a \<noteq> 0" "a div u = snd_count c - 1" using a d unfolding a[symmetric] by simp_all
    then show ?thesis using g(3) a assms(2) by (simp add: bc_words_def u_def)
  qed
  show ?thesis unfolding t_def[symmetric]
    using t r cur sent ok assms(1)
    by (auto simp: r_def bc_W_def bc_G_def bc_buffered_def u_def)
qed

lemma bc_index: "2 \<le> u \<Longrightarrow> (a + 1) mod u = 1 \<longleftrightarrow> a mod u = (0 :: nat)"
  by (simp add: mod_Suc)

lemma bc_words_first: "bc_ok c \<Longrightarrow> a < bc_count c \<Longrightarrow> a mod kc_useConn c = 0 \<Longrightarrow> bc_words c a = bc_len c (a div kc_useConn c) div 64"
proof -
  assume ok: "bc_ok c" and a: "a < bc_count c" and m: "a mod kc_useConn c = 0"
  then have "(a + 1) div kc_useConn c = a div kc_useConn c" by (simp add: div_Suc mod_Suc bc_ok_def)
  then have "a + 1 < bc_count c" using a bc_round_less[OF ok, of "a + 1"] bc_round_less[OF ok, of a] by simp
  then show ?thesis using \<open>(a + 1) div kc_useConn c = a div kc_useConn c\<close> by (simp add: bc_words_def)
qed

lemma bc_words_later:
  assumes "bc_ok c" and "a < bc_count c"
  shows "bc_words c a \<le> bc_len c (a div kc_useConn c) div 64"
proof -
  define r where "r = (if a + 1 < bc_count c then (a + 1) div kc_useConn c else snd_count c - 1)"
  have a: "a div kc_useConn c < snd_count c" using assms bc_round_less by blast
  have "a div kc_useConn c \<le> (a + 1) div kc_useConn c" by (simp add: div_le_mono)
  then have "a div kc_useConn c \<le> r \<and> r < snd_count c"
    using a bc_round_less[OF assms(1), of "a + 1"] by (auto simp: r_def)
  then have r: "r = a div kc_useConn c \<or> a div kc_useConn c < r \<and> r < snd_count c" by auto
  then have "bc_len c r \<le> bc_len c (a div kc_useConn c)"
    using bc_len_less[OF assms(1), of r] by (auto simp: bc_len_def[of c "a div kc_useConn c"])
  then show ?thesis by (simp add: bc_words_def r_def div_le_mono)
qed

lemma bc_word_step:
  assumes "bc_W c ds a j s" and "a < bc_count c" and "ktx_pc s = KTX_WORDS" and "j < bc_words c a"
  shows "broadcast c s = s \<and> \<not> bc_read c (snd_count c) \<le> length ds \<or>
    bc_W c ds a (j + 1) (broadcast c s) \<and> ktx_pc (broadcast c s) = KTX_WORDS \<and> ktx_status (broadcast c s) = ktx_status s
      \<and> ktx_data (broadcast c s) = ktx_data s @ [bc_packet c ds a ! j] \<and> ktx_meta (broadcast c s) = ktx_meta s"
proof -
  define u where "u = kc_useConn c"
  have ok: "bc_ok c" and w: "ktx_index s = (a + 1) mod u" "ktx_cur s = bc_words c a" "ktx_j s = j"
    using assms(1) by (simp_all add: bc_W_def u_def)
  have u: "2 \<le> u" using ok by (simp add: bc_ok_def u_def)
  have p: "bc_packet c ds a ! j = data_pkt (ds ! (bc_read c (a div u) + j)) (j + 1 = bc_words c a)"
    using assms(4) by (simp add: bc_packet_def words_of_def u_def)
  show ?thesis
  proof (cases "a mod u = 0")
    case False
    then have "ktx_buf s j = ds ! (bc_read c (a div u) + j)"
      using assms(1,4) bc_words_later[OF ok assms(2)] by (simp add: bc_W_def bc_buffered_def u_def)
    moreover have "ktx_index s \<noteq> 1" using w(1) False bc_index[OF u, of a] by simp
    ultimately show ?thesis
      using assms w p False by (simp add: broadcast_def ktx_write_def bc_W_def bc_buffered_def u_def)
  next
    case True
    then have i: "ktx_index s = 1" "ktx_in s = drop (bc_read c (a div u) + j) ds" "bc_buffered c ds (a div u) j s"
      using w(1) assms(1) bc_index[OF u, of a] by (simp_all add: bc_W_def u_def)
    show ?thesis
    proof (cases "bc_read c (a div u) + j < length ds")
      case l: True
      then have "ktx_in s = ds ! (bc_read c (a div u) + j) # drop (bc_read c (a div u) + j + 1) ds"
        using i(2) by (simp add: Cons_nth_drop_Suc)
      then have b: "broadcast c s = s\<lparr>ktx_in := drop (bc_read c (a div u) + j + 1) ds, ktx_buf := (ktx_buf s)(j := ds ! (bc_read c (a div u) + j)),
          ktx_data := ktx_data s @ [bc_packet c ds a ! j], ktx_j := j + 1\<rparr>"
        using assms(3,4) w(2,3) i(1) p by (simp add: broadcast_def ktx_write_def bc_store_def)
      have "bc_buffered c ds (a div u) (j + 1) (broadcast c s)"
        using i(3) by (simp add: b bc_buffered_def less_Suc_eq)
      then have "bc_W c ds a (j + 1) (broadcast c s)"
        using assms(1) True by (simp add: b bc_W_def u_def[symmetric])
      then show ?thesis using assms(3) by (simp add: b)
    next
      case l: False
      have "a div u < snd_count c" using assms(2) bc_round_less[OF ok] by (simp add: u_def)
      then have "[0..<snd_count c] = [0..<a div u + 1] @ [a div u + 1..<snd_count c]"
        by (metis Suc_eq_plus1 Suc_leI le_add1 le_add_diff_inverse plus_1_eq_Suc upt_add_eq_append zero_le)
      then have "bc_read c (a div u + 1) \<le> bc_read c (snd_count c)" by (simp add: bc_read_def)
      then have "\<not> bc_read c (snd_count c) \<le> length ds"
        using l assms(4) bc_words_first[OF ok assms(2)] True by (simp add: bc_read_def u_def)
      then show ?thesis using i l assms w by (simp add: broadcast_def)
    qed
  qed
qed

lemma bc_leave_step:
  assumes "bc_W c ds a (length (bc_packet c ds a)) s" and "a < bc_count c" and "ktx_pc s = KTX_WORDS"
  shows "ktx_pc (broadcast c s) = (if a + 1 < bc_count c then KTX_LOOP else KTX_DONE)
      \<and> (a + 1 < bc_count c \<longrightarrow> bc_G c ds (a + 1) (broadcast c s))
      \<and> ktx_status (broadcast c s) = ktx_status s \<and> ktx_data (broadcast c s) = ktx_data s \<and> ktx_meta (broadcast c s) = ktx_meta s"
proof -
  define u where "u = kc_useConn c"
  have ok: "bc_ok c" and t: "unat (ktx_sent s) = bc_total c (a + 1)" using assms(1) by (simp_all add: bc_W_def)
  have u: "2 \<le> u" using ok by (simp add: bc_ok_def u_def)
  have less: "ktx_sent s < kc_expected c \<longleftrightarrow> a + 1 < bc_count c"
    using t bc_total_less[OF ok, of "a + 1"] by (simp add: word_less_nat_alt)
  have b: "broadcast c s = ktx_test c s" using assms by (simp add: broadcast_def bc_W_def)
  have "bc_G c ds (a + 1) s"
  proof (cases "a mod u = 0")
    case True
    then have d: "(a + 1) div u = a div u" "(a + 1) mod u = 1" using u by (simp_all add: div_Suc mod_Suc)
    then show ?thesis
      using assms(1,2) True bc_words_first[OF ok assms(2)] by (simp add: bc_W_def bc_G_def u_def bc_read_def)
  next
    case False
    then show ?thesis using assms(1) u
      by (cases "(a + 1) mod u = 0") (auto simp: bc_W_def bc_G_def u_def div_Suc)
  qed
  then have "bc_G c ds (a + 1) (s\<lparr>ktx_pc := x\<rparr>)" for x by (simp add: bc_G_def bc_buffered_def)
  then show ?thesis using less by (simp add: b ktx_test_def)
qed

interpretation bc: sender "broadcast c" "bc_req c" "bc_packet c ds" "bc_count c" "bc_G c ds" "bc_W c ds"
  "bc_read c (snd_count c) \<le> length ds" "bc_ok c" buf ds for c ds buf
proof
  fix a j s x
  show "bc_G c ds a (s\<lparr>ktx_status := x\<rparr>) = bc_G c ds a s" "bc_W c ds a j (s\<lparr>ktx_status := x\<rparr>) = bc_W c ds a j s"
    by (simp_all add: bc_G_def bc_W_def bc_buffered_def)
  show "ktx_pc s = KTX_DONE \<Longrightarrow> broadcast c s = s" by (simp add: broadcast_def)
  show "bc_W c ds a j s \<Longrightarrow> a < bc_count c \<Longrightarrow> ktx_pc s = KTX_WORDS \<Longrightarrow> j < length (bc_packet c ds a) \<Longrightarrow>
    broadcast c s = s \<and> \<not> bc_read c (snd_count c) \<le> length ds \<or>
    bc_W c ds a (j + 1) (broadcast c s) \<and> ktx_pc (broadcast c s) = KTX_WORDS \<and> ktx_status (broadcast c s) = ktx_status s
      \<and> ktx_data (broadcast c s) = ktx_data s @ [bc_packet c ds a ! j] \<and> ktx_meta (broadcast c s) = ktx_meta s"
    using bc_word_step by simp
qed (fact bc_start_step bc_wait_step bc_refuse_step bc_accept_step bc_leave_step)+

subsection \<open>What the sessions get\<close>

lemma bc_run_result:
  assumes "bc_ok c" and "fold (ktx_exec (broadcast c)) es (kenv_init buf ds) = k"
  shows "ke_oks k = map (bc_req c) [0..<length (ke_oks k)] \<and> length (ke_oks k) \<le> bc_count c
    \<and> (\<exists>rest. ktx_data (ke_st k) @ rest = concat (map (bc_packet c ds) [0..<length (ke_oks k)]))
    \<and> (ktx_pc (ke_st k) = KTX_DONE \<longrightarrow>
         length (ke_oks k) = bc_count c \<and> ktx_data (ke_st k) = concat (map (bc_packet c ds) [0..<bc_count c]))"
  by (rule bc.run_result[OF assms])

lemma bc_completes:
  assumes "bc_ok c" and "bc_read c (snd_count c) \<le> length ds" and "\<forall>e \<in> set es. ktx_permitted e"
  shows "\<exists>i. ktx_pc (ke_st (fold (ktx_exec (broadcast c)) (es @ Run_Step # concat (replicate i [Answer 0 0, Run_Step])) (kenv_init buf ds))) = KTX_DONE"
  by (rule bc.run_ends[OF assms])

text \<open>A transfer of whole packets: every packet has \<open>kc_words c\<close> words.\<close>

lemma bc_whole:
  assumes ok: "bc_ok c" and "unat (kc_expected c) = m * kc_bytes c"
  shows "snd_count c = m" "r < m \<Longrightarrow> bc_len c r = kc_bytes c" "a < bc_count c \<Longrightarrow> bc_words c a = kc_words c"
    "r \<le> m \<Longrightarrow> bc_read c r = r * kc_words c"
proof -
  have "0 < unat (kc_expected c)" using ok by (simp add: bc_ok_def snd_ok_def unat_gt_0 word_greater_zero_iff)
  then have B: "0 < kc_bytes c" "0 < m" using ok assms(2) by (auto simp: bc_ok_def snd_ok_def kc_bytes_def intro: gr0I)
  have cnt: "k < snd_count c \<longleftrightarrow> k < m" for k using snd_count_less[of c k] ok assms(2) B by (simp add: bc_ok_def)
  then show m: "snd_count c = m" by (metis linorder_neqE_nat order_less_irrefl)
  show len: "bc_len c r = kc_bytes c" if "r < m" for r
  proof (cases "r + 1 < m")
    case False
    then have "m = r + 1" using that by simp
    then show ?thesis using assms(2) by (simp add: bc_len_def m)
  qed (simp add: bc_len_def m)
  show "bc_words c a = kc_words c" if "a < bc_count c"
    using len[of "(a + 1) div kc_useConn c"] len[of "m - 1"] bc_round_less[OF ok, of "a + 1"] B m
    by (simp add: bc_words_def kc_bytes_def)
  show "bc_read c r = r * kc_words c" if "r \<le> m"
    using that by (induction r) (simp_all add: bc_read_def len kc_bytes_def)
qed

lemma upt_round: "[0..<Suc q * u] = [0..<q * u] @ map (\<lambda>i. q * u + i) [0..<u]"
proof -
  have "[q * u..<q * u + u] = map (\<lambda>i. q * u + i) [0..<u]" by (rule nth_equalityI) simp_all
  then show ?thesis by (simp only: mult_Suc add.commute[of u] upt_add_eq_append[of 0 "q * u" u])
qed

lemma concat_map_concat: "concat (concat (map (\<lambda>x. map (f x) (g x)) xs)) = concat (map (\<lambda>x. concat (map (f x) (g x))) xs)"
  by (induction xs) simp_all

text \<open>A completed \<^verbatim>\<open>broadcast\<close> of \<open>m\<close> whole packets to two or more sessions has announced each packet to each
  session in turn and has written the same words of the input, packet by packet, once for every session.\<close>

lemma broadcast_result:
  assumes "bc_ok c" and "unat (kc_expected c) = m * kc_bytes c"
    and "fold (ktx_exec (broadcast c)) es (kenv_init buf ds) = k" and "ktx_pc (ke_st k) = KTX_DONE"
  shows "ke_oks k = concat (map (\<lambda>r. map (\<lambda>i. tx_meta_pkt (kc_session c i) (of_nat (kc_bytes c))) [0..<kc_useConn c]) [0..<m])
    \<and> ktx_data (ke_st k) = concat (map (\<lambda>r. concat (replicate (kc_useConn c) (words_of ds (r * kc_words c) (kc_words c)))) [0..<m])"
proof -
  define u where "u = kc_useConn c"
  have u: "0 < u" using assms(1) by (simp add: bc_ok_def u_def)
  note w = bc_whole[OF assms(1,2)]
  have cnt: "bc_count c = m * u" by (simp add: bc_count_def w(1) u_def)
  have split: "[0..<q * u] = concat (map (\<lambda>r. map (\<lambda>i. r * u + i) [0..<u]) [0..<q])" for q
    by (induction q) (simp_all only: upt_round, simp_all)
  have req: "bc_req c (r * u + i) = tx_meta_pkt (kc_session c i) (of_nat (kc_bytes c))" if "r < m" "i < u" for r i
    using that w(2)[of r] by (simp add: bc_req_def bc_bytes_def u_def)
  have pk: "bc_packet c ds (r * u + i) = words_of ds (r * kc_words c) (kc_words c)" if "r < m" "i < u" for r i
  proof -
    have "r * u + i < m * u" using that by (metis div_mult_self3 div_less add.right_neutral not_less0 div_less_iff_less_mult u)
    then show ?thesis using that w(3)[of "r * u + i"] w(4)[of r] by (simp add: bc_packet_def cnt u_def)
  qed
  have "map (\<lambda>r. map (bc_req c) (map (\<lambda>i. r * u + i) [0..<u])) [0..<m] = map (\<lambda>r. map (\<lambda>i. tx_meta_pkt (kc_session c i) (of_nat (kc_bytes c))) [0..<u]) [0..<m]"
    by (simp add: req)
  then have "map (bc_req c) [0..<m * u] = concat (map (\<lambda>r. map (\<lambda>i. tx_meta_pkt (kc_session c i) (of_nat (kc_bytes c))) [0..<u]) [0..<m])"
    unfolding split map_concat map_map comp_def by (rule arg_cong)
  moreover have "map (\<lambda>r. concat (map (\<lambda>i. bc_packet c ds (r * u + i)) [0..<u])) [0..<m]
      = map (\<lambda>r. concat (replicate u (words_of ds (r * kc_words c) (kc_words c)))) [0..<m]"
  proof (rule map_cong[OF refl])
    fix r assume "r \<in> set [0..<m]"
    then have "map (\<lambda>i. bc_packet c ds (r * u + i)) [0..<u] = map (\<lambda>_. words_of ds (r * kc_words c) (kc_words c)) [0..<u]"
      by (simp add: pk)
    then show "concat (map (\<lambda>i. bc_packet c ds (r * u + i)) [0..<u]) = concat (replicate u (words_of ds (r * kc_words c) (kc_words c)))"
      by (simp add: map_replicate_const)
  qed
  then have "concat (map (bc_packet c ds) [0..<m * u]) = concat (map (\<lambda>r. concat (replicate u (words_of ds (r * kc_words c) (kc_words c)))) [0..<m])"
    unfolding split map_concat map_map comp_def concat_map_concat by (rule arg_cong)
  ultimately show ?thesis using bc_run_result[OF assms(1,3)] assms(4) by (metis cnt u_def)
qed

text \<open>With a single connection \<^verbatim>\<open>broadcast\<close> never reads its input: it sends what the buffer happened to hold.\<close>

lemma broadcast_single_connection:
  assumes "kc_useConn c = 1" and "fold (ktx_exec (broadcast c)) es (kenv_init buf ds) = k"
  shows "ktx_in (ke_st k) = ds \<and> (\<forall>w \<in> set (ktx_data (ke_st k)). \<exists>j. p5_data w = buf j)"
proof -
  define inv where "inv = (\<lambda>k :: kenv. ktx_index (ke_st k) = 0 \<and> ktx_in (ke_st k) = ds \<and> ktx_buf (ke_st k) = buf
    \<and> (\<forall>w \<in> set (ktx_data (ke_st k)). \<exists>j. p5_data w = buf j))"
  have step: "inv (ktx_exec (broadcast c) e k)" if "inv k" for e k
  proof (cases e)
    case Run_Step
    then show ?thesis using that assms(1)
      by (auto simp: inv_def broadcast_def ktx_test_def ktx_refused_def bc_accepted_def ktx_request_def ktx_announce_def ktx_write_def
          data_pkt_def Let_def split: ktx_pc.splits list.splits)
  qed (use that in \<open>simp add: inv_def Let_def\<close>)
  have "inv (fold (ktx_exec (broadcast c)) es k)" if "inv k" for k
    using that by (induction es arbitrary: k) (simp_all add: step del: ktx_exec.simps)
  from this[of "kenv_init buf ds"] show ?thesis using assms(2) by (simp add: inv_def kenv_init_def ktx_init_def)
qed

definition bc_demo :: "nat \<Rightarrow> ktx_cfg" where
  "bc_demo u = \<lparr>kc_session = (\<lambda>i. of_nat i + 7), kc_useConn = u, kc_expected = 256, kc_words = 2\<rparr>"

lemma broadcast_single_connection_witness:
  "ktx_in (ke_st (fold (ktx_exec (broadcast (bc_demo 1))) [Run_Step, Answer 0 0, Run_Step, Run_Step] (kenv_init (\<lambda>_. 0) [1, 2, 3, 4]))) = [1, 2, 3, 4]"
  using broadcast_single_connection[of "bc_demo 1" "[Run_Step, Answer 0 0, Run_Step, Run_Step]" "\<lambda>_. 0" "[1, 2, 3, 4]", OF _ refl]
  by (simp add: bc_demo_def del: ktx_exec.simps)

end
