(* ===== verification/Kernel_Reduce.thy ===== *)
theory Kernel_Reduce
  imports Kernel_Gather Kernel_Broadcast
begin

text \<open>
  The data path behind \<^verbatim>\<open>gather\<close>: the packets are taken off the stack (\<^verbatim>\<open>gather_consumeData\<close>), dealt
  out to one buffer per session (\<^verbatim>\<open>split_stream\<close>) and added up lane by lane
  (\<^verbatim>\<open>sum_from_streams\<close>), which together is \<^verbatim>\<open>reduce_sum\<close>. The processes with a fixed number of
  iterations are functions from the words that come in to the words that go out; a loop whose
  input has run dry has written what there was.
\<close>

subsection \<open>split_stream, sum_from_streams, duplicate_stream\<close>

fun split_words :: "nat \<Rightarrow> nat \<Rightarrow> nat \<Rightarrow> 512 word list \<Rightarrow> nat \<Rightarrow> nat \<Rightarrow> (nat \<Rightarrow> 512 word list) \<Rightarrow> (nat \<Rightarrow> 512 word list)" where
  "split_words p u 0 ds i k st = st"
| "split_words p u (Suc n) [] i k st = st"
| "split_words p u (Suc n) (d # ds) i k st =
    (let st = st(i := st i @ [d]); k = k + 1;
         i' = (if k = p then i + 1 else i); k' = (if k = p then 0 else k)
     in split_words p u n ds (if i' = u then 0 else i') k' st)"

definition split_stream :: "64 word \<Rightarrow> nat \<Rightarrow> nat \<Rightarrow> 512 word list \<Rightarrow> (nat \<Rightarrow> 512 word list)" where
  "split_stream totalExpRxByte p u ds = split_words p u (unat (drop_bit 6 totalExpRxByte)) ds 0 0 (\<lambda>_. [])"

definition add_lanes32 :: "512 word \<Rightarrow> 512 word \<Rightarrow> 512 word" where
  "add_lanes32 s d = fold (\<lambda>k w. range_set (k * 32 + 31) (k * 32)
     ((range_get (k * 32 + 31) (k * 32) w :: u32) + range_get (k * 32 + 31) (k * 32) d) w) [0..<16] s"

fun sum_words :: "nat \<Rightarrow> nat \<Rightarrow> (nat \<Rightarrow> 512 word list) \<Rightarrow> 512 word list" where
  "sum_words u 0 st = []"
| "sum_words u (Suc n) st =
    (if list_ex (\<lambda>j. st j = []) [0..<u] then []
     else fold (\<lambda>j sum. add_lanes32 sum (hd (st j))) [0..<u] 0
       # sum_words u n (\<lambda>j. if j < u then tl (st j) else st j))"

definition sum_from_streams :: "64 word \<Rightarrow> nat \<Rightarrow> (nat \<Rightarrow> 512 word list) \<Rightarrow> 512 word list" where
  "sum_from_streams expRxBytePerSession u st = sum_words u (unat (drop_bit 6 expRxBytePerSession)) st"

definition reduce_streams :: "gh_cfg \<Rightarrow> 512 word list \<Rightarrow> 512 word list" where
  "reduce_streams c ds = sum_from_streams (gc_expected c) (gc_useConn c) (split_stream (gh_totalExp c) (gc_words c) (gc_useConn c) ds)"

fun duplicate_words :: "nat \<Rightarrow> 512 word list \<Rightarrow> 512 word list \<times> 512 word list" where
  "duplicate_words 0 ds = ([], [])"
| "duplicate_words (Suc n) [] = ([], [])"
| "duplicate_words (Suc n) (d # ds) = (let (xs, ys) = duplicate_words n ds in (d # xs, d # ys))"

definition duplicate_stream :: "64 word \<Rightarrow> 512 word list \<Rightarrow> 512 word list \<times> 512 word list" where
  "duplicate_stream bytes ds = duplicate_words (unat (drop_bit 6 bytes)) ds"

text \<open>\<^verbatim>\<open>stream2Ptr\<close> and \<^verbatim>\<open>ptr2Stream\<close>: a transfer between a stream and the memory, of whole words.\<close>

fun stream2Ptr_words :: "nat \<Rightarrow> nat \<Rightarrow> 512 word list \<Rightarrow> (nat \<Rightarrow> 512 word) \<Rightarrow> (nat \<Rightarrow> 512 word)" where
  "stream2Ptr_words i 0 ds m = m"
| "stream2Ptr_words i (Suc n) [] m = m"
| "stream2Ptr_words i (Suc n) (d # ds) m = stream2Ptr_words (i + 1) n ds (m(i := d))"

definition stream2Ptr :: "64 word \<Rightarrow> 512 word list \<Rightarrow> (nat \<Rightarrow> 512 word) \<Rightarrow> (nat \<Rightarrow> 512 word)" where
  "stream2Ptr bytes ds m = stream2Ptr_words 0 (unat (ucast (drop_bit 6 bytes) :: u32)) ds m"

definition ptr2Stream :: "(nat \<Rightarrow> 512 word) \<Rightarrow> 64 word \<Rightarrow> 512 word list" where
  "ptr2Stream input bytes = map input [0..<unat (ucast (drop_bit 6 bytes) :: u32)]"

subsection \<open>Dealing out\<close>

lemma split_step:
  "split_words p u (Suc n) (d # ds) i k st = split_words p u n ds (if k + 1 = p then if i + 1 = u then 0 else i + 1 else if i = u then 0 else i)
     (if k + 1 = p then 0 else k + 1) (st(i := st i @ [d]))"
  by (simp add: Let_def fun_upd_def)

lemma split_packet:
  assumes "k + length xs = p" and "xs \<noteq> []" and "i < u"
  shows "split_words p u (length xs + n) (xs @ ds) i k st = split_words p u n ds (if i + 1 = u then 0 else i + 1) 0 (st(i := st i @ xs))"
  using assms
proof (induction xs arbitrary: k st)
  case (Cons x xs)
  show ?case
  proof (cases "xs = []")
    case True
    then show ?thesis using Cons.prems by (simp add: split_step fun_upd_def del: split_words.simps)
  next
    case False
    then have k: "k + 1 < p" "length xs + (k + 1) = p" using Cons.prems by (cases xs; simp)+
    have e: "(st(i := st i @ [x]))(i := (st(i := st i @ [x])) i @ xs) = st(i := st i @ x # xs)" by (rule ext) simp
    show ?thesis using Cons.IH[of "k + 1" "st(i := st i @ [x])", unfolded e] False Cons.prems(3) k
      by (simp add: split_step fun_upd_def del: split_words.simps)
  qed
qed simp

lemma split_packets:
  assumes "0 < p" and "0 < u" and "\<forall>a < n. length (pk a) = p"
  shows "a \<le> n \<Longrightarrow> split_words p u (a * p + l) (concat (map pk [0..<a]) @ ds) 0 0 st
    = split_words p u l ds (a mod u) 0 (\<lambda>j. st j @ concat (map pk (filter (\<lambda>b. b mod u = j) [0..<a])))"
proof (induction a arbitrary: l ds)
  case (Suc a)
  have "length (pk a) = p" using Suc.prems assms(3) by simp
  then have x: "length (pk a) = p" "pk a \<noteq> []" "a mod u < u" using assms(1,2) by auto
  have "split_words p u (Suc a * p + l) (concat (map pk [0..<Suc a]) @ ds) 0 0 st
      = split_words p u (a * p + (p + l)) (concat (map pk [0..<a]) @ (pk a @ ds)) 0 0 st"
    by (simp add: ac_simps)
  also have "\<dots> = split_words p u (p + l) (pk a @ ds) (a mod u) 0 (\<lambda>j. st j @ concat (map pk (filter (\<lambda>b. b mod u = j) [0..<a])))"
    using Suc by simp
  also have "\<dots> = split_words p u l ds (Suc a mod u) 0 (\<lambda>j. st j @ concat (map pk (filter (\<lambda>b. b mod u = j) [0..<Suc a])))"
  proof -
    have "(\<lambda>j. st j @ concat (map pk (filter (\<lambda>b. b mod u = j) [0..<a])))
        (a mod u := (st (a mod u) @ concat (map pk (filter (\<lambda>b. b mod u = a mod u) [0..<a]))) @ pk a)
      = (\<lambda>j. st j @ concat (map pk (filter (\<lambda>b. b mod u = j) [0..<Suc a])))" by (rule ext) simp
    then show ?thesis using split_packet[of 0 "pk a" p "a mod u" u l ds] x by (simp add: mod_Suc)
  qed
  finally show ?case .
qed simp

lemma filter_turns:
  assumes "j < u"
  shows "filter (\<lambda>b. b mod u = j) [0..<q * u] = map (\<lambda>r. r * u + j) [0..<q]"
proof (induction q)
  case (Suc q)
  have "filter (\<lambda>i. i mod u = j) [0..<u] = filter (\<lambda>i. i = j) [0..<u]" by (rule filter_cong) simp_all
  then have "filter (\<lambda>b. b mod u = j) (map (\<lambda>i. q * u + i) [0..<u]) = map (\<lambda>i. q * u + i) (filter (\<lambda>i. i = j) [0..<u])"
    by (simp add: filter_map comp_def)
  moreover have "filter (\<lambda>i. i = j) [0..<u] = [j]"
    using assms by (induction u) (auto simp: less_Suc_eq filter_empty_conv)
  ultimately show ?case using Suc unfolding upt_round by simp
qed simp

subsection \<open>Adding up\<close>

definition lane :: "nat \<Rightarrow> 512 word \<Rightarrow> u32" where
  "lane k w = range_get (k * 32 + 31) (k * 32) w"

lemma lane_set:
  assumes "k < 16" and "i < 16"
  shows "lane k (range_set (i * 32 + 31) (i * 32) v w) = (if k = i then v else lane k w)"
proof (cases "k = i")
  case True
  then show ?thesis using assms by (simp add: lane_def range_get_set_same)
next
  case False
  then have "k * 32 + 31 < i * 32 \<or> i * 32 + 31 < k * 32" by linarith
  then show ?thesis using False by (simp add: lane_def range_get_set_other)
qed

lemma lane_add: "k < 16 \<Longrightarrow> lane k (add_lanes32 s d) = lane k s + lane k d"
proof -
  assume k: "k < 16"
  have "lane k (fold (\<lambda>k w. range_set (k * 32 + 31) (k * 32) ((range_get (k * 32 + 31) (k * 32) w :: u32) + range_get (k * 32 + 31) (k * 32) d) w)
      [0..<n] s) = (if k < n then lane k s + lane k d else lane k s)" if "n \<le> 16" for n
    using that
  proof (induction n)
    case (Suc n)
    then show ?case using k by (auto simp: lane_set less_Suc_eq lane_def[symmetric])
  qed simp
  from this[of 16] show ?thesis using k by (simp add: add_lanes32_def)
qed

lemma lane_sum: "k < 16 \<Longrightarrow> lane k (fold (\<lambda>j sum. add_lanes32 sum (f j)) [0..<u] s) = lane k s + (\<Sum>j < u. lane k (f j))"
  by (induction u) (simp_all add: lane_add add.assoc)

lemma sum_words_nth:
  assumes "\<forall>j < u. n \<le> length (st j)"
  shows "length (sum_words u n st) = n \<and>
    (\<forall>i < n. \<forall>k < 16. lane k (sum_words u n st ! i) = (\<Sum>j < u. lane k (st j ! i)))"
  using assms
proof (induction n arbitrary: st)
  case (Suc n)
  define st' where "st' = (\<lambda>j. if j < u then tl (st j) else st j)"
  have "\<forall>j < u. n \<le> length (st' j)" using Suc.prems by (auto simp: st'_def)
  note ih = Suc.IH[OF this]
  have "st j \<noteq> []" if "j < u" for j using Suc.prems that by (metis Suc_n_not_le_n le0 list.size(3) le_trans not_less_eq_eq)
  then have full: "\<not> list_ex (\<lambda>j. st j = []) [0..<u]" by (simp add: list_ex_iff)
  have first: "lane k (fold (\<lambda>j sum. add_lanes32 sum (hd (st j))) [0..<u] 0) = (\<Sum>j < u. lane k (st j ! 0))" if "k < 16" for k
    using that \<open>\<And>j. j < u \<Longrightarrow> st j \<noteq> []\<close> by (simp add: lane_sum hd_conv_nth) (simp add: lane_def range_get_def)
  have rest: "lane k (sum_words u n st' ! i) = (\<Sum>j < u. lane k (st j ! Suc i))" if "i < n" "k < 16" for i k
    using ih that Suc.prems by (simp add: st'_def nth_tl Suc_le_eq cong: sum.cong_simp) (auto intro!: sum.cong simp: nth_tl)
  show ?case using ih first rest full by (auto simp: st'_def[symmetric] nth_Cons split: nat.splits)
qed simp

subsection \<open>Taking the packets off the stack\<close>

definition one_packet :: "pkt512 list \<Rightarrow> bool" where
  "one_packet ws \<longleftrightarrow> ws \<noteq> [] \<and> p5_last (last ws) \<and> (\<forall>w \<in> set (butlast ws). \<not> p5_last w)"

lemma one_packet_Cons: "one_packet (w # ws) \<longleftrightarrow> (if ws = [] then p5_last w else \<not> p5_last w \<and> one_packet ws)"
  by (auto simp: one_packet_def)

lemma one_packet_words:
  assumes "0 < l"
  shows "one_packet (words_of ds off l)"
proof -
  obtain k where k: "l = Suc k" using assms by (cases l) auto
  have "words_of ds off l = map (\<lambda>j. data_pkt (ds ! (off + j)) False) [0..<k] @ [data_pkt (ds ! (off + k)) True]"
    unfolding words_of_def k by simp
  then show ?thesis by (auto simp: one_packet_def data_pkt_def)
qed

definition gcn_init :: "u16 list \<Rightarrow> u16 list \<Rightarrow> pkt512 list \<Rightarrow> gcn_st" where
  "gcn_init metas nexts ws = \<lparr>gcn_rx = 0, gcn_length = 0, gcn_inside = False, gcn_done = False, gcn_meta = metas, gcn_next = nexts,
     gcn_data = ws, gcn_out = []\<rparr>"

lemma consume_words:
  assumes "one_packet ws"
  shows "gcn_inside s \<Longrightarrow> \<not> gcn_done s \<Longrightarrow> gcn_data s = ws @ rest \<Longrightarrow>
    (gather_consumeData c ^^ length ws) s = s\<lparr>gcn_inside := False, gcn_data := rest, gcn_out := gcn_out s @ map p5_data ws,
      gcn_rx := gcn_rx s + ucast (gcn_length s), gcn_done := \<not> gcn_rx s + ucast (gcn_length s) < gh_totalExp c\<rparr>"
  using assms
proof (induction ws arbitrary: s)
  case (Cons w ws)
  define t where "t = gather_consumeData c s"
  have run: "(gather_consumeData c ^^ length (w # ws)) s = (gather_consumeData c ^^ length ws) t"
    by (simp add: t_def funpow_swap1)
  show ?case
  proof (cases "ws = []")
    case True
    then show ?thesis using Cons.prems by (simp add: gather_consumeData_def consume_step_def gcn_word_def one_packet_Cons Let_def)
  next
    case False
    then have t: "t = s\<lparr>gcn_data := ws @ rest, gcn_out := gcn_out s @ [p5_data w]\<rparr>"
      using Cons.prems by (simp add: t_def gather_consumeData_def consume_step_def gcn_word_def one_packet_Cons Let_def)
    have ih: "(gather_consumeData c ^^ length ws) t = t\<lparr>gcn_inside := False, gcn_data := rest, gcn_out := gcn_out t @ map p5_data ws,
      gcn_rx := gcn_rx t + ucast (gcn_length t), gcn_done := \<not> gcn_rx t + ucast (gcn_length t) < gh_totalExp c\<rparr>"
      by (rule Cons.IH) (use Cons.prems False in \<open>simp_all add: t one_packet_Cons\<close>)
    show ?thesis unfolding run ih by (simp add: t)
  qed
qed (simp add: one_packet_def)

lemma consume_packet:
  assumes "one_packet ws" and "\<not> gcn_inside s" and "\<not> gcn_done s" and "gcn_data s = ws @ rest" and "gcn_meta s = x # ms" and "gcn_next s = l # ls"
  shows "(gather_consumeData c ^^ (length ws + 1)) s = s\<lparr>gcn_meta := ms, gcn_next := ls, gcn_length := l, gcn_data := rest,
    gcn_out := gcn_out s @ map p5_data ws, gcn_rx := gcn_rx s + ucast l, gcn_done := \<not> gcn_rx s + ucast l < gh_totalExp c\<rparr>"
proof -
  define t where "t = s\<lparr>gcn_meta := ms, gcn_length := l, gcn_next := ls, gcn_inside := True\<rparr>"
  have "gather_consumeData c s = t" using assms by (simp add: gather_consumeData_def consume_step_def t_def)
  then have run: "(gather_consumeData c ^^ (length ws + 1)) s = (gather_consumeData c ^^ length ws) t" by (simp add: funpow_swap1)
  have w: "(gather_consumeData c ^^ length ws) t = t\<lparr>gcn_inside := False, gcn_data := rest, gcn_out := gcn_out t @ map p5_data ws,
      gcn_rx := gcn_rx t + ucast (gcn_length t), gcn_done := \<not> gcn_rx t + ucast (gcn_length t) < gh_totalExp c\<rparr>"
    by (rule consume_words[OF assms(1)]) (use assms in \<open>simp_all add: t_def\<close>)
  show ?thesis unfolding run w using assms(2) by (simp add: t_def)
qed

lemma consume_packets:
  assumes "\<forall>ws \<in> set pks. one_packet ws" and "unat (ucast l :: 64 word) = B" and "0 < B"
  shows "\<not> gcn_inside s \<Longrightarrow> \<not> gcn_done s \<Longrightarrow> gcn_data s = concat pks \<Longrightarrow> length (gcn_meta s) = length pks \<Longrightarrow>
    gcn_next s = replicate (length pks) l \<Longrightarrow> unat (gcn_rx s) + length pks * B = unat (gh_totalExp c) \<Longrightarrow> pks \<noteq> [] \<Longrightarrow>
    \<exists>n. gcn_done ((gather_consumeData c ^^ n) s) \<and> gcn_out ((gather_consumeData c ^^ n) s) = gcn_out s @ map p5_data (concat pks)"
  using assms(1)
proof (induction pks arbitrary: s)
  case (Cons ws pks)
  obtain x ms where ms: "gcn_meta s = x # ms" "length ms = length pks" using Cons.prems(4) by (cases "gcn_meta s") auto
  define t where "t = (gather_consumeData c ^^ (length ws + 1)) s"
  have t: "t = s\<lparr>gcn_meta := ms, gcn_next := replicate (length pks) l, gcn_length := l, gcn_data := concat pks,
    gcn_out := gcn_out s @ map p5_data ws, gcn_rx := gcn_rx s + ucast l, gcn_done := \<not> gcn_rx s + ucast l < gh_totalExp c\<rparr>"
    unfolding t_def by (rule consume_packet) (use Cons.prems ms in simp_all)
  have "unat (gcn_rx s) + B \<le> unat (gh_totalExp c)" using Cons.prems(6) by simp
  then have "unat (gcn_rx s) + B < 2 ^ 64" using unat_bound[of "gh_totalExp c"] by simp
  then have rx: "unat (gcn_rx s + ucast l) = unat (gcn_rx s) + B" using assms(2) by (simp add: unat_add_mod)
  show ?case
  proof (cases "pks = []")
    case True
    then have "gcn_done t \<and> gcn_out t = gcn_out s @ map p5_data (concat (ws # pks))"
      using rx Cons.prems(6) by (simp add: t word_less_nat_alt)
    then show ?thesis unfolding t_def by blast
  next
    case False
    then have "0 < length pks * B" using assms(3) by simp
    then have "unat (gcn_rx s) + B < unat (gh_totalExp c)" using Cons.prems(6) by (simp only: list.size(4) add_mult_distrib)
    then have d: "\<not> gcn_done t" using rx by (simp add: t word_less_nat_alt)
    have "\<exists>n. gcn_done ((gather_consumeData c ^^ n) t) \<and> gcn_out ((gather_consumeData c ^^ n) t) = gcn_out t @ map p5_data (concat pks)"
      by (rule Cons.IH) (use Cons.prems False ms rx d in \<open>simp_all add: t\<close>)
    then obtain n where n: "gcn_done ((gather_consumeData c ^^ n) t)" "gcn_out ((gather_consumeData c ^^ n) t) = gcn_out t @ map p5_data (concat pks)"
      by blast
    have "(gather_consumeData c ^^ (n + (length ws + 1))) s = (gather_consumeData c ^^ n) t" unfolding t_def by (simp only: funpow_add o_apply)
    then show ?thesis using n by (intro exI[of _ "n + (length ws + 1)"]) (simp add: t)
  qed
qed simp

subsection \<open>The whole reduction\<close>

text \<open>
  The stack answers the read requests in order: each with a packet of the next bytes of the
  session, as many as asked for.
\<close>

definition stack_step :: "u32 \<Rightarrow> (sid \<Rightarrow> 512 word list) \<times> pkt512 list \<Rightarrow> (sid \<Rightarrow> 512 word list) \<times> pkt512 list" where
  "stack_step q S = (let (D, out) = S; i = range_get 15 0 q :: sid; n = unat (range_get 31 16 q :: u16) div 64 in
     (D(i := drop n (D i)), out @ words_of (D i) 0 n))"

definition stack_answer :: "(sid \<Rightarrow> 512 word list) \<Rightarrow> u32 list \<Rightarrow> pkt512 list" where
  "stack_answer D qs = snd (fold stack_step qs (D, []))"

lemma read_pkg_fields [simp]: "(range_get 15 0 (read_pkg i len) :: sid) = i" "(range_get 31 16 (read_pkg i len) :: u16) = len"
  by (simp_all add: read_pkg_def range_get_set_same range_get_set_other)

lemma words_of_drop: "k + l \<le> length ds \<Longrightarrow> words_of (drop k ds) 0 l = words_of ds k l"
  by (simp add: words_of_def)

lemma stack_answers:
  assumes ok: "gc_ok c m" and inj: "inj_on sess {..<gc_useConn c}" and len: "\<forall>i < gc_useConn c. length (D (sess i)) = m * gc_words c"
  shows "a \<le> m * gc_useConn c \<Longrightarrow> snd (fold stack_step (map (gh_req c sess) [0..<a]) (D, []))
      = concat (map (\<lambda>b. words_of (D (sess (b mod gc_useConn c))) (b div gc_useConn c * gc_words c) (gc_words c)) [0..<a])
    \<and> (\<forall>i < gc_useConn c. fst (fold stack_step (map (gh_req c sess) [0..<a]) (D, [])) (sess i) = drop (turns (gc_useConn c) a i * gc_words c) (D (sess i)))"
proof (induction a)
  case (Suc a)
  define u p i S where "u = gc_useConn c" and "p = gc_words c" and "i = a mod u"
    and "S = fold stack_step (map (gh_req c sess) [0..<a]) (D, [])"
  have i: "0 < u" "i < u" "0 < p" using ok by (simp_all add: gc_ok_def u_def i_def p_def gc_bytes_def)
  have S: "snd S = concat (map (\<lambda>b. words_of (D (sess (b mod u))) (b div u * p) p) [0..<a])"
    "fst S (sess j) = drop (turns u a j * p) (D (sess j))" if "j < u" for j
    using Suc that by (simp_all add: S_def u_def p_def)
  have "unat (of_nat (gc_bytes c) :: u16) = gc_bytes c" using ok by (simp add: gc_ok_def unat_of_nat)
  then have n: "unat (of_nat (gc_bytes c) :: u16) div 64 = p" by (simp only: gc_bytes_def p_def nonzero_mult_div_cancel_right)
  have "a div u < m" using Suc.prems i(1) by (simp add: div_less_iff_less_mult u_def)
  then have "(a div u + 1) * p \<le> m * p" by (intro mult_le_mono1) simp
  then have "words_of (drop (a div u * p) (D (sess i))) 0 p = words_of (D (sess i)) (a div u * p) p"
    using len i(2) by (intro words_of_drop) (simp add: u_def p_def add.commute)
  moreover have "turns u a i = a div u" using turns_now[OF i(1)] by (simp add: i_def)
  ultimately have w: "words_of (fst S (sess i)) 0 p = words_of (D (sess i)) (a div u * p) p" using S(2)[OF i(2)] by simp
  have step: "fold stack_step (map (gh_req c sess) [0..<Suc a]) (D, [])
      = ((fst S)(sess i := drop p (fst S (sess i))), snd S @ words_of (fst S (sess i)) 0 p)"
    using n by (simp add: S_def[symmetric] stack_step_def gh_req_def u_def[symmetric] i_def[symmetric] Let_def case_prod_unfold)
  have "((fst S)(sess i := drop p (fst S (sess i)))) (sess j) = drop (turns u (Suc a) j * p) (D (sess j))" if "j < u" for j
  proof (cases "j = i")
    case True
    then show ?thesis using S(2)[OF i(2)] by (simp add: i_def add.commute)
  next
    case False
    then have "sess j \<noteq> sess i" using inj that i(2) by (auto simp: inj_on_def u_def)
    then show ?thesis using False S(2)[OF that] by (simp add: i_def)
  qed
  then show ?case unfolding step using S(1)[OF i(2)] w by (simp add: u_def[symmetric] p_def[symmetric] i_def)
qed simp

lemma reduce_streams_rounds:
  assumes ok: "gc_ok c m" and len: "\<forall>i < gc_useConn c. length (D i) = m * gc_words c"
  defines "ds \<equiv> concat (map (\<lambda>a. take (gc_words c) (drop (a div gc_useConn c * gc_words c) (D (a mod gc_useConn c)))) [0..<m * gc_useConn c])"
  shows "length (reduce_streams c ds) = m * gc_words c \<and>
    (\<forall>i < m * gc_words c. \<forall>k < 16. lane k (reduce_streams c ds ! i) = (\<Sum>j < gc_useConn c. lane k (D j ! i)))"
proof -
  define u p pk where "u = gc_useConn c" and "p = gc_words c"
    and "pk = (\<lambda>a. take p (drop (a div u * p) (D (a mod u))))"
  have u: "0 < u" "0 < p" using ok by (simp_all add: gc_ok_def u_def p_def gc_bytes_def)
  have pk: "length (pk a) = p" if "a < m * u" for a
  proof -
    have "a div u < m" using that u(1) by (simp add: div_less_iff_less_mult)
    then have "(a div u + 1) * p \<le> m * p" by (intro mult_le_mono1) simp
    then show ?thesis using len u(1) by (simp add: pk_def u_def p_def)
  qed
  have total: "unat (drop_bit 6 (gh_totalExp c)) = m * u * p"
    using gh_totalExp_nat[OF ok] by (simp add: unat_drop_bit_div u_def p_def gc_bytes_def)
  have exp: "unat (drop_bit 6 (gc_expected c)) = m * p"
    using ok by (simp add: unat_drop_bit_div gc_ok_def p_def gc_bytes_def)
  define st where "st = split_stream (gh_totalExp c) p u ds"
  have "st = split_words p u (m * u * p + 0) (concat (map pk [0..<m * u]) @ []) 0 0 (\<lambda>_. [])"
    by (simp add: st_def split_stream_def total ds_def pk_def u_def p_def)
  also have "\<dots> = (\<lambda>j. concat (map pk (filter (\<lambda>b. b mod u = j) [0..<m * u])))"
    using split_packets[OF u(2,1), of "m * u" pk "m * u" 0 "[]" "\<lambda>_. []"] pk by simp
  finally have st: "st j = concat (map (\<lambda>r. pk (r * u + j)) [0..<m])" if "j < u" for j
    using that by (simp add: filter_turns comp_def)
  have slices: "concat (map (\<lambda>r. take p (drop (r * p) xs)) [0..<q]) = take (q * p) xs" for q and xs :: "512 word list"
    by (induction q) (simp_all only: upt_Suc_append[OF le0] map_append concat_append, simp_all add: take_add[symmetric] add.commute)
  have "st j = D j" if "j < u" for j
    using that len slices[of "D j" m] by (simp add: st pk_def u_def p_def)
  then show ?thesis
    using sum_words_nth[of u "m * p" st] len
    by (simp add: reduce_streams_def sum_from_streams_def exp st_def[symmetric] u_def[symmetric] p_def[symmetric])
qed

text \<open>\<^verbatim>\<open>reduce_sum\<close> is a lane-wise sum: when every session sends \<open>m\<close> whole packets, then however the notifications
  come, once the handshake is done the stack's answers to its requests are all consumed, and dealing them out and
  adding them up gives for every word of the sessions' data the sum over the sessions in each 32-bit lane.\<close>

lemma reduce_sum_result:
  assumes "gc_ok c m" and "\<forall>w \<in> set (concat (map gh_words es)). of_session c sess w"
    and "\<forall>i < gc_useConn c. notified c i (concat (map gh_words es)) \<le> m * gc_bytes c"
    and "fold (gh_exec c) es (gh_init table) = s" and "gh_done s"
    and "inj_on sess {..<gc_useConn c}" and "\<forall>i < gc_useConn c. length (D (sess i)) = m * gc_words c"
    and "length metas = length (gh_read s)"
  shows "\<exists>n. let t = (gather_consumeData c ^^ n) (gcn_init metas (gh_next s) (stack_answer D (gh_read s))); r = reduce_streams c (gcn_out t) in
    gcn_done t \<and> length r = m * gc_words c
    \<and> (\<forall>i < m * gc_words c. \<forall>k < 16. lane k (r ! i) = (\<Sum>j < gc_useConn c. lane k (D (sess j) ! i)))"
proof -
  define u p where "u = gc_useConn c" and "p = gc_words c"
  have u: "0 < u" "0 < p" "0 < m" using assms(1) by (simp_all add: gc_ok_def u_def p_def gc_bytes_def)
  obtain a where "gh_ok c sess m (concat (map gh_words es)) a s" using gh_ok_run[OF assms(1-3)] assms(4) by blast
  then have s: "gh_read s = map (gh_req c sess) [0..<m * u]" "gh_next s = replicate (m * u) (of_nat (gc_bytes c))"
    using assms(5) by (auto simp: gh_ok_def gh_inv_def u_def)
  define pks where "pks = map (\<lambda>b. words_of (D (sess (b mod u))) (b div u * p) p) [0..<m * u]"
  have ans: "stack_answer D (gh_read s) = concat pks"
    using stack_answers[OF assms(1,6,7), of "m * u"] by (simp add: stack_answer_def s(1) pks_def u_def p_def)
  define t0 where "t0 = gcn_init metas (gh_next s) (concat pks)"
  have "\<exists>n. gcn_done ((gather_consumeData c ^^ n) t0) \<and> gcn_out ((gather_consumeData c ^^ n) t0) = gcn_out t0 @ map p5_data (concat pks)"
  proof (rule consume_packets)
    show "\<forall>ws \<in> set pks. one_packet ws" using u(2) by (auto simp: pks_def intro: one_packet_words)
    show "unat (ucast (of_nat (gc_bytes c) :: u16) :: 64 word) = gc_bytes c" using assms(1) by (simp add: word_nat unat_of_nat gc_ok_def)
    show "0 < gc_bytes c" using assms(1) by (simp add: gc_ok_def)
    show "unat (gcn_rx t0) + length pks * gc_bytes c = unat (gh_totalExp c)"
      using gh_totalExp_nat[OF assms(1)] by (simp add: t0_def gcn_init_def pks_def u_def)
    show "gcn_next t0 = replicate (length pks) (of_nat (gc_bytes c))" by (simp add: t0_def gcn_init_def pks_def s(2))
    show "length (gcn_meta t0) = length pks" using assms(8) by (simp add: t0_def gcn_init_def pks_def s(1))
    show "pks \<noteq> []" using u by (simp add: pks_def)
  qed (simp_all add: t0_def gcn_init_def)
  then obtain n where n: "gcn_done ((gather_consumeData c ^^ n) t0)" "gcn_out ((gather_consumeData c ^^ n) t0) = map p5_data (concat pks)"
    by (auto simp: t0_def gcn_init_def)
  have slice: "map p5_data (words_of ds off p) = take p (drop off ds)" if "off + p \<le> length ds" for ds off
    using that by (intro nth_equalityI) (simp_all add: words_of_def data_pkt_def)
  have "map p5_data (words_of (D (sess (b mod u))) (b div u * p) p) = take p (drop (b div u * p) (D (sess (b mod u))))" if "b < m * u" for b
  proof (rule slice)
    have "b div u < m" using that u(1) by (simp add: div_less_iff_less_mult)
    then have "(b div u + 1) * p \<le> m * p" by (intro mult_le_mono1) simp
    then show "b div u * p + p \<le> length (D (sess (b mod u)))" using assms(7) u(1) by (simp add: u_def p_def)
  qed
  then have "map (map p5_data) pks = map (\<lambda>b. take p (drop (b div u * p) (D (sess (b mod u))))) [0..<m * u]"
    by (simp add: pks_def)
  then have "map p5_data (concat pks) = concat (map (\<lambda>b. take p (drop (b div u * p) (D (sess (b mod u))))) [0..<m * u])"
    by (simp only: map_concat)
  then show ?thesis
    using n reduce_streams_rounds[OF assms(1), of "D \<circ> sess"] assms(7) ans
    by (intro exI[of _ n]) (simp add: Let_def t0_def u_def p_def)
qed

subsection \<open>An example\<close>

definition demo_sess :: "nat \<Rightarrow> sid" where
  "demo_sess i = of_nat i + 7"

definition demo_data :: "sid \<Rightarrow> 512 word list" where
  "demo_data i = (if i = 7 then [1, 2] else [10, 20])"

lemma demo_ok: "gc_ok gc_demo 2"
  by (simp add: gc_ok_def gc_demo_def gc_bytes_def)

lemma demo_inj: "inj_on demo_sess {..<gc_useConn gc_demo}"
proof (rule inj_onI)
  fix i j assume "i \<in> {..<gc_useConn gc_demo}" "j \<in> {..<gc_useConn gc_demo}" "demo_sess i = demo_sess j"
  then show "i = j" by (cases i; cases j) (auto simp: gc_demo_def demo_sess_def)
qed

lemma demo_len: "\<forall>i < gc_useConn gc_demo. length (demo_data (demo_sess i)) = 2 * gc_words gc_demo"
  by (simp add: gc_demo_def demo_data_def)

lemma demo_handshake:
  "\<exists>es. (\<forall>w \<in> set (concat (map gh_words es)). of_session gc_demo demo_sess w)
    \<and> (\<forall>i < gc_useConn gc_demo. notified gc_demo i (concat (map gh_words es)) \<le> 2 * gc_bytes gc_demo)
    \<and> gh_done (fold (gh_exec gc_demo) es (gh_init (\<lambda>_. 0)))"
proof -
  define es where "es = [Notify (gc_note 7 128 5001), Notify (gc_note 8 128 5002)]"
  define ws where "ws = concat (map gh_words es)"
  have "of_session gc_demo demo_sess (gc_note 7 128 5001)" "of_session gc_demo demo_sess (gc_note 8 128 5002)"
    unfolding of_session_def by (rule exI[of _ 0], simp add: gc_demo_def demo_sess_def) (rule exI[of _ 1], simp add: gc_demo_def demo_sess_def)
  then have of: "\<forall>w \<in> set ws. of_session gc_demo demo_sess w" by (simp add: ws_def es_def)
  have "notified gc_demo 0 ws = 128" "notified gc_demo 1 ws = 128" by (simp_all add: ws_def es_def notified_def gc_demo_def)
  moreover have "i = 0 \<or> i = 1" if "i < gc_useConn gc_demo" for i using that by (auto simp: gc_demo_def)
  ultimately have all: "\<forall>i < gc_useConn gc_demo. notified gc_demo i ws = 2 * gc_bytes gc_demo" by (auto simp: gc_demo_def gc_bytes_def)
  obtain a where "gh_ok gc_demo demo_sess 2 ws a (fold (gh_exec gc_demo) es (gh_init (\<lambda>_. 0)))"
    using gh_ok_run[OF demo_ok, of es demo_sess "\<lambda>_. 0"] of all unfolding ws_def by auto
  from gather_completes[OF demo_ok this all] obtain n where
    n: "gh_done (fold (gh_exec gc_demo) (es @ replicate n Iterate) (gh_init (\<lambda>_. 0)))" by auto
  have "concat (map gh_words (es @ replicate n Iterate)) = ws" by (induction n) (simp_all add: ws_def)
  moreover have "\<forall>i < gc_useConn gc_demo. notified gc_demo i ws \<le> 2 * gc_bytes gc_demo" using all by simp
  ultimately show ?thesis using of n by (intro exI[of _ "es @ replicate n Iterate"]) (simp only: simp_thms)
qed

lemma demo_sum: "(\<Sum>j < gc_useConn gc_demo. lane 0 (demo_data (demo_sess j) ! 1)) = 22"
proof -
  have "lane 0 2 = 2" "lane 0 20 = 20" by (simp_all add: lane_def range_get_def)
  moreover have "{..<2 :: nat} = {0, 1}" by auto
  ultimately show ?thesis by (simp add: gc_demo_def demo_data_def demo_sess_def)
qed

end
