(* ===== verification/Kernel_Session.thy ===== *)
theory Kernel_Session
  imports Kernel_Reduce
begin

text \<open>
  Opening connections and ports (\<^verbatim>\<open>openConnections\<close>, \<^verbatim>\<open>listenPorts\<close>), receiving from one or more senders
  without an order (\<^verbatim>\<open>recvData\<close>), and the kernel \<^verbatim>\<open>hls_send_krnl\<close> that opens its connections and
  broadcasts generated traffic to them.
\<close>

subsection \<open>Connections and ports\<close>

text \<open>The packets of the requests: the upper 16 bits of the 64-bit word are not assigned.\<close>

definition openConnection_pkt :: "64 word \<Rightarrow> u32 \<Rightarrow> u16 \<Rightarrow> 64 word" where
  "openConnection_pkt u ip p = range_set 47 32 p (range_set 31 0 ip u)"

definition open_requests :: "64 word \<Rightarrow> nat \<Rightarrow> (nat \<Rightarrow> int) \<Rightarrow> int \<Rightarrow> 64 word list" where
  "open_requests u useConn ip basePort = map (\<lambda>i. openConnection_pkt u (of_int (ip i)) (of_int (basePort + int i))) [0..<useConn]"

fun open_rsp :: "nat \<Rightarrow> 128 word list \<Rightarrow> nat \<Rightarrow> (nat \<Rightarrow> sid) \<Rightarrow> (nat \<Rightarrow> sid) \<times> nat" where
  "open_rsp 0 sts k ids = (ids, k)"
| "open_rsp (Suc n) [] k ids = (ids, k)"
| "open_rsp (Suc n) (st # sts) k ids =
    (if bit st 16 then open_rsp n sts (k + 1) (ids(k := range_get 15 0 st)) else open_rsp n sts k ids)"

text \<open>The two functions of this name, with one address for all and with one for each; results: the requests, the session table, the number of opened connections.\<close>

definition openConnections_array :: "64 word \<Rightarrow> nat \<Rightarrow> (nat \<Rightarrow> int) \<Rightarrow> int \<Rightarrow> 128 word list \<Rightarrow> (nat \<Rightarrow> sid) \<Rightarrow> 64 word list \<times> (nat \<Rightarrow> sid) \<times> nat" where
  "openConnections_array u useConn ips basePort sts ids = (open_requests u useConn ips basePort, open_rsp useConn sts 0 ids)"

definition openConnections :: "64 word \<Rightarrow> nat \<Rightarrow> int \<Rightarrow> int \<Rightarrow> 128 word list \<Rightarrow> (nat \<Rightarrow> sid) \<Rightarrow> 64 word list \<times> (nat \<Rightarrow> sid) \<times> nat" where
  "openConnections u useConn ip basePort sts ids = (open_requests u useConn (\<lambda>_. ip) basePort, open_rsp useConn sts 0 ids)"

definition listen_port_handler :: "int \<Rightarrow> nat \<Rightarrow> u16 list" where
  "listen_port_handler basePort useConn = map (\<lambda>i. of_int (basePort + int i)) [0..<useConn]"

fun port_statuses :: "nat \<Rightarrow> 8 word list \<Rightarrow> nat \<Rightarrow> nat" where
  "port_statuses 0 sts k = k"
| "port_statuses (Suc n) [] k = k"
| "port_statuses (Suc n) (st # sts) k = port_statuses n sts (if bit st 0 then k + 1 else k)"

definition port_status_handler :: "nat \<Rightarrow> 8 word list \<Rightarrow> int \<Rightarrow> int" where
  "port_status_handler useConn sts success_open_port = (if port_statuses useConn sts 0 = useConn then 1 else success_open_port)"

definition listenPorts :: "int \<Rightarrow> nat \<Rightarrow> 8 word list \<Rightarrow> int \<Rightarrow> u16 list \<times> int" where
  "listenPorts basePort useConn sts success_open_port = (listen_port_handler basePort useConn, port_status_handler useConn sts success_open_port)"

text \<open>The session table lists the sessions of the successful connections in their order, and nothing else is written.\<close>

lemma open_rsp_table:
  assumes "n \<le> length sts"
  shows "open_rsp n sts k ids = (let ok = map (\<lambda>w. range_get 15 0 w :: sid) (filter (\<lambda>w. bit w 16) (take n sts)) in
    (\<lambda>i. if k \<le> i \<and> i < k + length ok then ok ! (i - k) else ids i, k + length ok))"
  using assms
proof (induction n sts k ids rule: open_rsp.induct)
  case (3 n st sts k ids)
  then show ?case by (auto simp: Let_def fun_upd_def fun_eq_iff nth_Cons' Suc_diff_le)
qed (auto simp: Let_def fun_eq_iff)

lemma port_statuses_count: "n \<le> length sts \<Longrightarrow> port_statuses n sts k = k + length (filter (\<lambda>w. bit w 0) (take n sts))"
  by (induction n sts k rule: port_statuses.induct) auto

lemma listenPorts_success:
  "useConn \<le> length sts \<Longrightarrow> snd (listenPorts p useConn sts 0) = 1 \<longleftrightarrow> (\<forall>w \<in> set (take useConn sts). bit w 0)"
proof -
  assume n: "useConn \<le> length sts"
  have "length (filter (\<lambda>w. bit w 0) (take useConn sts)) = length (take useConn sts) \<longleftrightarrow> (\<forall>w \<in> set (take useConn sts). bit w 0)"
    by (metis filter_True length_filter_less less_irrefl)
  moreover have "length (take useConn sts) = useConn" using n by simp
  ultimately have "length (filter (\<lambda>w. bit w 0) (take useConn sts)) = useConn \<longleftrightarrow> (\<forall>w \<in> set (take useConn sts). bit w 0)"
    by (simp only:)
  then show ?thesis using n by (simp add: listenPorts_def port_status_handler_def port_statuses_count)
qed

subsection \<open>recvData\<close>

record rdh_st =
  rdh_rx :: "64 word"
  rdh_done :: bool
  rdh_notif :: "128 word fifo"
  rdh_read :: "u32 fifo"
  rdh_next :: "u16 fifo"

definition rdh_notified :: "appNotification \<Rightarrow> rdh_st \<Rightarrow> rdh_st" where
  "rdh_notified a s = (if an_length a \<noteq> 0
     then s\<lparr>rdh_read := rdh_read s @ [read_pkg (an_sessionID a) (an_length a)], rdh_next := rdh_next s @ [an_length a],
            rdh_rx := rdh_rx s + ucast (an_length a)\<rparr>
     else s)"

definition recvData_handshake :: "64 word \<Rightarrow> rdh_st \<Rightarrow> rdh_st" where
  "recvData_handshake exp s =
    (if rdh_done s then s
     else let t = (case rdh_notif s of w # ws \<Rightarrow> rdh_notified (notification_of w) (s\<lparr>rdh_notif := ws\<rparr>) | [] \<Rightarrow> s) in
       t\<lparr>rdh_done := \<not> rdh_rx t < exp\<rparr>)"

definition recvData_consumeData :: "64 word \<Rightarrow> gcn_st \<Rightarrow> gcn_st" where
  "recvData_consumeData exp = consume_step exp"

text \<open>The version that drops the data.\<close>

definition recvData_consumeData_drop :: "64 word \<Rightarrow> gcn_st \<Rightarrow> gcn_st" where
  "recvData_consumeData_drop exp s = (consume_step exp s)\<lparr>gcn_out := gcn_out s\<rparr>"

text \<open>The two processes of \<^verbatim>\<open>recvData\<close> with \<^verbatim>\<open>nextRxPacketLength\<close> between them, one call of each.\<close>

definition recvData :: "64 word \<Rightarrow> rdh_st \<times> gcn_st \<Rightarrow> rdh_st \<times> gcn_st" where
  "recvData exp S = (let h = recvData_handshake exp (fst S);
     g = recvData_consumeData exp ((snd S)\<lparr>gcn_next := gcn_next (snd S) @ rdh_next h\<rparr>) in (h\<lparr>rdh_next := []\<rparr>, g))"

definition rdh_init :: "128 word list \<Rightarrow> rdh_st" where
  "rdh_init ws = \<lparr>rdh_rx = 0, rdh_done = False, rdh_notif = ws, rdh_read = [], rdh_next = []\<rparr>"

definition note_bytes :: "128 word list \<Rightarrow> nat" where
  "note_bytes ws = sum_list (map (\<lambda>w. unat (an_length (notification_of w))) ws)"

definition note_requests :: "128 word list \<Rightarrow> u32 list" where
  "note_requests ws = map (\<lambda>w. read_pkg (an_sessionID (notification_of w)) (an_length (notification_of w)))
     (filter (\<lambda>w. an_length (notification_of w) \<noteq> 0) ws)"

text \<open>The handshake asks for exactly what it is notified of, until the expected number of bytes is reached.\<close>

lemma recvData_requests:
  assumes "note_bytes ws < 2 ^ 64" and "s = (recvData_handshake exp ^^ n) (rdh_init ws)"
  shows "\<exists>k. rdh_notif s = drop k ws \<and> k \<le> length ws \<and> rdh_read s = note_requests (take k ws) \<and> unat (rdh_rx s) = note_bytes (take k ws)
    \<and> (rdh_done s \<longrightarrow> unat exp \<le> note_bytes (take k ws)) \<and> (\<not> rdh_done s \<longrightarrow> n = 0 \<or> note_bytes (take k ws) < unat exp)
    \<and> (\<not> rdh_done s \<longrightarrow> k = min n (length ws))"
  using assms(2)
proof (induction n arbitrary: s)
  case 0
  then show ?case by (intro exI[of _ 0]) (simp add: rdh_init_def note_requests_def note_bytes_def)
next
  case (Suc n)
  define r where "r = (recvData_handshake exp ^^ n) (rdh_init ws)"
  have s: "s = recvData_handshake exp r" using Suc.prems by (simp add: r_def)
  from Suc.IH[OF r_def] obtain k where k: "rdh_notif r = drop k ws" "k \<le> length ws" "rdh_read r = note_requests (take k ws)"
    "unat (rdh_rx r) = note_bytes (take k ws)" "rdh_done r \<longrightarrow> unat exp \<le> note_bytes (take k ws)" "\<not> rdh_done r \<longrightarrow> k = min n (length ws)"
    by blast
  show ?case
  proof (cases "rdh_done r")
    case True
    then show ?thesis using k s by (intro exI[of _ k]) (simp add: recvData_handshake_def)
  next
    case False
    show ?thesis
    proof (cases "k < length ws")
      case True
      define a where "a = notification_of (ws ! k)"
      have d: "drop k ws = ws ! k # drop (Suc k) ws" "take (Suc k) ws = take k ws @ [ws ! k]"
        using True by (simp_all add: Cons_nth_drop_Suc take_Suc_conv_app_nth)
      have b: "note_bytes (take (Suc k) ws) = note_bytes (take k ws) + unat (an_length a)" by (simp add: d(2) note_bytes_def a_def)
      have "note_bytes (take (Suc k) ws) + note_bytes (drop (Suc k) ws) = note_bytes ws"
        by (metis append_take_drop_id map_append note_bytes_def sum_list_append)
      then have "unat (rdh_rx r + ucast (an_length a)) = note_bytes (take (Suc k) ws)"
        using assms(1) b k(4) unat_bound[of "an_length a"] by (simp add: unat_add_mod word_nat)
      then have "rdh_notif s = drop (Suc k) ws" "rdh_read s = note_requests (take (Suc k) ws)" "unat (rdh_rx s) = note_bytes (take (Suc k) ws)"
        "rdh_done s \<longleftrightarrow> \<not> rdh_rx s < exp"
        using b k(1,3,4) d False by (simp_all add: s recvData_handshake_def rdh_notified_def a_def[symmetric] note_requests_def Let_def)
      then show ?thesis using True k(6) False by (intro exI[of _ "Suc k"]) (simp add: word_less_nat_alt not_less)
    next
      case f: False
      then show ?thesis using k s False by (intro exI[of _ k]) (auto simp: recvData_handshake_def word_less_nat_alt not_less)
    qed
  qed
qed

subsection \<open>The send kernel\<close>

definition traffic_word :: "u32 \<Rightarrow> 512 word" where
  "traffic_word v = fold (\<lambda>k w. range_set (k * 32 + 31) (k * 32) v w) [0..<16] 0"

definition traffic_gen :: "nat \<Rightarrow> nat \<Rightarrow> 512 word list" where
  "traffic_gen pkgWordCount expectedTxPkgCnt =
     concat (map (\<lambda>i. map (\<lambda>j. traffic_word (of_nat (i * pkgWordCount + j))) [0..<pkgWordCount]) [0..<expectedTxPkgCnt])"

text \<open>\<^verbatim>\<open>hls_send_krnl\<close>: the configuration of its broadcast, from the answers to its connection requests, and the state it starts in.\<close>

definition hls_send_cfg :: "int \<Rightarrow> int \<Rightarrow> nat \<Rightarrow> nat \<Rightarrow> 64 word \<Rightarrow> 128 word list \<Rightarrow> (nat \<Rightarrow> sid) \<Rightarrow> ktx_cfg" where
  "hls_send_cfg baseIpAddress basePort useConn pkgWordCount expectedTxPkgCnt sts ids =
     \<lparr>kc_session = fst (snd (openConnections 0 useConn baseIpAddress basePort sts ids)), kc_useConn = useConn,
      kc_expected = expectedTxPkgCnt * of_nat pkgWordCount * 64, kc_words = pkgWordCount\<rparr>"

definition hls_send_init :: "(nat \<Rightarrow> 512 word) \<Rightarrow> nat \<Rightarrow> 64 word \<Rightarrow> kenv" where
  "hls_send_init buf pkgWordCount expectedTxPkgCnt = kenv_init buf (traffic_gen pkgWordCount (unat expectedTxPkgCnt))"

lemma traffic_gen_nth:
  assumes "i < n * p"
  shows "traffic_gen p n ! i = traffic_word (of_nat i)"
proof -
  have "traffic_gen p n = map (\<lambda>i. traffic_word (of_nat i)) [0..<n * p]"
  proof (induction n)
    case (Suc n)
    have "traffic_gen p (Suc n) = traffic_gen p n @ map (\<lambda>j. traffic_word (of_nat (n * p + j))) [0..<p]" by (simp add: traffic_gen_def)
    then show ?case using Suc unfolding upt_round by (simp add: comp_def)
  qed (simp add: traffic_gen_def)
  then show ?thesis using assms by simp
qed

text \<open>C31. For 2 to 8 connections that have all been opened, packets of 1 to 256 words and a transfer of at least one packet and less than \<open>2^64\<close>
  bytes, however the stack answers: when \<^verbatim>\<open>hls_send_krnl\<close> is done, it has announced every packet to every session in the order of
  the connections, and the words of packet \<open>r\<close> carry the numbers \<open>r * pkgWordCount + j\<close> in every lane, once for each session. (With
  one connection the words would be those of a buffer that is never filled: \<open>broadcast_single_connection\<close>.)\<close>

theorem send_kernel:
  assumes "length sts = u" and "\<forall>w \<in> set sts. bit w 16" and "2 \<le> u" and "u \<le> 8" and "0 < p" and "p \<le> 256" and "0 < n" and "unat n * p * 64 < 2 ^ 64"
    and "c = hls_send_cfg ip port u p n sts ids"
    and "k = fold (ktx_exec (broadcast c)) es (hls_send_init buf p n)" and "ktx_pc (ke_st k) = KTX_DONE"
  shows "ke_oks k = concat (replicate (unat n) (map (\<lambda>w. tx_meta_pkt (range_get 15 0 w) (of_nat (p * 64))) sts))
    \<and> ktx_data (ke_st k) = concat (map (\<lambda>r. concat (replicate u
        (map (\<lambda>j. data_pkt (traffic_word (of_nat (r * p + j))) (j + 1 = p)) [0..<p]))) [0..<unat n])"
proof -
  have ids: "kc_session c i = range_get 15 0 (sts ! i)" if "i < u" for i
    using assms(1,2,9) that open_rsp_table[of u sts 0 ids] by (simp add: hls_send_cfg_def openConnections_def Let_def)
  have c: "kc_useConn c = u" "kc_words c = p" "kc_bytes c = p * 64" by (simp_all add: assms(9) hls_send_cfg_def kc_bytes_def)
  have "p * 64 \<le> unat n * p * 64" using assms(7) by (cases "unat n") (simp_all add: unat_eq_0)
  then have e: "unat (kc_expected c) = unat n * kc_bytes c"
    using assms(8) by (simp add: assms(9) hls_send_cfg_def kc_bytes_def unat_word_ariths unat_of_nat mod_mult_right_eq mod_mult_left_eq mult.assoc)
  have "0 < unat n * (p * 64)" using assms(5,7) by (simp add: unat_gt_0 word_greater_zero_iff)
  then have "0 < unat (kc_expected c)" using e c(3) by simp
  then have ok: "bc_ok c" using assms(3,5,6) c by (simp add: bc_ok_def snd_ok_def unat_gt_0 word_greater_zero_iff)
  have run: "fold (ktx_exec (broadcast c)) es (kenv_init buf (traffic_gen p (unat n))) = k" using assms(10) by (simp add: hls_send_init_def)
  have "map (\<lambda>i. tx_meta_pkt (kc_session c i) (of_nat (kc_bytes c))) [0..<u] = map (\<lambda>w. tx_meta_pkt (range_get 15 0 w) (of_nat (p * 64))) sts"
    using ids assms(1) c(3) by (intro nth_equalityI) simp_all
  moreover have "words_of (traffic_gen p (unat n)) (r * p) p = map (\<lambda>j. data_pkt (traffic_word (of_nat (r * p + j))) (j + 1 = p)) [0..<p]"
    if "r < unat n" for r
  proof -
    have "r * p + j < unat n * p" if "j < p" for j
    proof -
      have "(r + 1) * p \<le> unat n * p" using \<open>r < unat n\<close> by (intro mult_le_mono1) simp
      then show ?thesis using that by simp
    qed
    then show ?thesis by (simp add: words_of_def traffic_gen_nth)
  qed
  then have "map (\<lambda>r. concat (replicate u (words_of (traffic_gen p (unat n)) (r * p) p))) [0..<unat n] = map (\<lambda>r. concat (replicate u
        (map (\<lambda>j. data_pkt (traffic_word (of_nat (r * p + j))) (j + 1 = p)) [0..<p]))) [0..<unat n]"
    by simp
  moreover have "ke_oks k = concat (map (\<lambda>r. map (\<lambda>i. tx_meta_pkt (kc_session c i) (of_nat (kc_bytes c))) [0..<u]) [0..<unat n])"
    "ktx_data (ke_st k) = concat (map (\<lambda>r. concat (replicate u (words_of (traffic_gen p (unat n)) (r * p) p))) [0..<unat n])"
    using broadcast_result[OF ok e run assms(11)] by (simp_all only: c(1,2))
  ultimately show ?thesis by (simp only: map_replicate_const length_upt diff_zero)
qed

theorem send_kernel_witness:
  "\<exists>es. ke_oks (fold (ktx_exec (broadcast (hls_send_cfg 0 5001 2 1 2 [0x10007, 0x10008] (\<lambda>_. 0)))) es (hls_send_init (\<lambda>_. 0) 1 2))
    = [tx_meta_pkt 7 64, tx_meta_pkt 8 64, tx_meta_pkt 7 64, tx_meta_pkt 8 64]"
proof -
  define c where "c = hls_send_cfg 0 5001 2 1 2 [0x10007, 0x10008] (\<lambda>_. 0)"
  have c: "kc_useConn c = 2" "kc_words c = 1" "kc_expected c = 128" by (simp_all add: c_def hls_send_cfg_def)
  have ok: "bc_ok c" by (simp add: bc_ok_def snd_ok_def kc_bytes_def c)
  have e: "unat (kc_expected c) = 2 * kc_bytes c" by (simp add: kc_bytes_def c)
  have "bc_read c (snd_count c) \<le> length (traffic_gen 1 2)"
    using bc_whole(1,4)[OF ok e] c by (simp add: traffic_gen_def length_concat comp_def sum_list_triv)
  from bc_completes[OF ok this, of "[]" "\<lambda>_. 0"] obtain i where
    i: "ktx_pc (ke_st (fold (ktx_exec (broadcast c)) (Run_Step # concat (replicate i [Answer 0 0, Run_Step]))
      (hls_send_init (\<lambda>_. 0) 1 2))) = KTX_DONE" by (auto simp: hls_send_init_def simp del: ktx_exec.simps)
  have "bit (0x10007 :: 128 word) 16" "bit (0x10008 :: 128 word) 16" "(range_get 15 0 (0x10007 :: 128 word) :: sid) = 7"
    "(range_get 15 0 (0x10008 :: 128 word) :: sid) = 8" by (simp_all add: range_get_def)
  moreover have "concat (replicate 2 xs) = xs @ xs" for xs :: "u32 list" by (simp add: numeral_2_eq_2)
  ultimately show ?thesis
    using send_kernel[OF _ _ _ _ _ _ _ _ c_def refl i] unfolding c_def[symmetric]
    by (intro exI[of _ "Run_Step # concat (replicate i [Answer 0 0, Run_Step])"]) (simp del: ktx_exec.simps)
qed

subsection \<open>All-reduce\<close>

text \<open>
  \<^verbatim>\<open>allReduce_sum\<close>: the sums go to the output and, as the input of a broadcast to the sessions of
  the table that the handshake has filled, back to the senders.
\<close>

definition allReduce_sum :: "gh_cfg \<Rightarrow> 512 word list \<Rightarrow> 512 word list \<times> 512 word list" where
  "allReduce_sum c ds = duplicate_stream (gc_expected c) (reduce_streams c ds)"

definition allReduce_cfg :: "gh_cfg \<Rightarrow> (int \<Rightarrow> sid) \<Rightarrow> ktx_cfg" where
  "allReduce_cfg c table = \<lparr>kc_session = (\<lambda>i. table (int i)), kc_useConn = gc_useConn c, kc_expected = gc_expected c, kc_words = gc_words c\<rparr>"

lemma duplicate_words_all: "length ds = n \<Longrightarrow> duplicate_words n ds = (ds, ds)"
  by (induction n ds rule: duplicate_words.induct) auto

lemma consume_stable: "gcn_done s \<Longrightarrow> (gather_consumeData c ^^ n) s = s"
  by (induction n) (simp_all add: gather_consumeData_def consume_step_def)

lemma consume_once:
  assumes "gcn_done ((gather_consumeData c ^^ n) s)" and "gcn_done ((gather_consumeData c ^^ k) s)"
  shows "(gather_consumeData c ^^ n) s = (gather_consumeData c ^^ k) s"
proof -
  have "(gather_consumeData c ^^ (k + n)) s = (gather_consumeData c ^^ n) s" "(gather_consumeData c ^^ (n + k)) s = (gather_consumeData c ^^ k) s"
    using assms by (simp_all add: funpow_add consume_stable)
  then show ?thesis by (simp add: add.commute)
qed

text \<open>C32. All-reduce end to end, for two or more connections with a session each, every one of which sends the same number of whole packets of at
  most 256 words and is notified of no more than that: when the handshake is done, whatever the order and the sizes of the notifications, and the
  packets that the stack delivers in the order of the read requests have been consumed, the words given out are the lane-wise sums of the
  sessions' data, and a completed broadcast of them, however the stack answers, has announced and sent every packet of these sums to every
  session.\<close>

theorem all_reduce:
  assumes "gc_ok c m" and "\<forall>w \<in> set (concat (map gh_words es)). of_session c sess w"
    and "\<forall>i < gc_useConn c. notified c i (concat (map gh_words es)) \<le> m * gc_bytes c"
    and "fold (gh_exec c) es (gh_init table) = s" and "gh_done s"
    and "inj_on sess {..<gc_useConn c}" and "\<forall>i < gc_useConn c. length (D (sess i)) = m * gc_words c"
    and "length metas = length (gh_read s)"
    and "t = (gather_consumeData c ^^ n) (gcn_init metas (gh_next s) (stack_answer D (gh_read s)))" and "gcn_done t"
    and "2 \<le> gc_useConn c" and "gc_words c \<le> 256"
    and "k = fold (ktx_exec (broadcast (allReduce_cfg c (gh_table s)))) bs (kenv_init buf (fst (allReduce_sum c (gcn_out t))))"
    and "ktx_pc (ke_st k) = KTX_DONE"
  shows "\<exists>R. snd (allReduce_sum c (gcn_out t)) = R \<and> length R = m * gc_words c
    \<and> (\<forall>i < m * gc_words c. \<forall>l < 16. lane l (R ! i) = (\<Sum>j < gc_useConn c. lane l (D (sess j) ! i)))
    \<and> ke_oks k = concat (replicate m (map (\<lambda>i. tx_meta_pkt (sess i) (of_nat (gc_bytes c))) [0..<gc_useConn c]))
    \<and> ktx_data (ke_st k) = concat (map (\<lambda>r. concat (replicate (gc_useConn c) (words_of R (r * gc_words c) (gc_words c)))) [0..<m])"
proof -
  obtain n' where n': "gcn_done ((gather_consumeData c ^^ n') (gcn_init metas (gh_next s) (stack_answer D (gh_read s))))"
    and r': "let R = reduce_streams c (gcn_out ((gather_consumeData c ^^ n') (gcn_init metas (gh_next s) (stack_answer D (gh_read s))))) in
      length R = m * gc_words c \<and> (\<forall>i < m * gc_words c. \<forall>l < 16. lane l (R ! i) = (\<Sum>j < gc_useConn c. lane l (D (sess j) ! i)))"
    using reduce_sum_result[OF assms(1-8)] unfolding Let_def by blast
  define R where "R = reduce_streams c (gcn_out t)"
  have R: "length R = m * gc_words c" "\<forall>i < m * gc_words c. \<forall>l < 16. lane l (R ! i) = (\<Sum>j < gc_useConn c. lane l (D (sess j) ! i))"
    using r' consume_once[OF n' assms(10)[unfolded assms(9)]] by (simp_all add: R_def assms(9) Let_def)
  have "unat (drop_bit 6 (gc_expected c)) = m * gc_words c"
    using assms(1) by (simp add: unat_drop_bit_div gc_ok_def gc_bytes_def)
  then have dup: "allReduce_sum c (gcn_out t) = (R, R)"
    using R(1) by (simp add: allReduce_sum_def duplicate_stream_def R_def[symmetric] duplicate_words_all)
  define c' where "c' = allReduce_cfg c (gh_table s)"
  have c': "kc_useConn c' = gc_useConn c" "kc_words c' = gc_words c" "kc_bytes c' = gc_bytes c" "kc_expected c' = gc_expected c"
    by (simp_all add: c'_def allReduce_cfg_def kc_bytes_def gc_bytes_def)
  have e: "unat (kc_expected c') = m * kc_bytes c'" using assms(1) by (simp add: c' gc_ok_def)
  have "0 < m * gc_bytes c" using assms(1) by (simp add: gc_ok_def)
  then have "0 < unat (gc_expected c)" using e by (simp only: c')
  then have ok: "bc_ok c'"
    using assms(1,11,12) by (simp add: bc_ok_def snd_ok_def c' gc_ok_def gc_bytes_def unat_gt_0 word_greater_zero_iff)
  obtain a where a: "gh_ok c sess m (concat (map gh_words es)) a s" using gh_ok_run[OF assms(1-3)] assms(4) by blast
  have sess: "kc_session c' i = sess i" if "i < gc_useConn c" for i
  proof -
    have "gh_account c sess m (concat (map gh_words es)) a (gh_notif s) i (unat (gh_avail s (int i))) (unat (gh_rx s (int i))) (gh_table s (int i))"
      using a that by (simp add: gh_ok_def gh_inv_def)
    moreover have "a = m * gc_useConn c" using a assms(5) by (simp add: gh_ok_def)
    moreover have "turns (gc_useConn c) (m * gc_useConn c) i * gc_bytes c = m * gc_bytes c" using that by (simp add: turns_eq)
    ultimately have "gh_table s (int i) = sess i" using \<open>0 < m * gc_bytes c\<close> by (simp add: gh_account_def)
    then show ?thesis by (simp add: c'_def allReduce_cfg_def)
  qed
  have "map (\<lambda>i. tx_meta_pkt (kc_session c' i) (of_nat (gc_bytes c))) [0..<gc_useConn c] = map (\<lambda>i. tx_meta_pkt (sess i) (of_nat (gc_bytes c))) [0..<gc_useConn c]"
    by (simp add: sess)
  moreover have "fold (ktx_exec (broadcast c')) bs (kenv_init buf R) = k" using assms(13) by (simp only: c'_def dup fst_conv)
  from broadcast_result[OF ok e this assms(14)]
  have "ke_oks k = concat (map (\<lambda>r. map (\<lambda>i. tx_meta_pkt (kc_session c' i) (of_nat (gc_bytes c))) [0..<gc_useConn c]) [0..<m])"
    "ktx_data (ke_st k) = concat (map (\<lambda>r. concat (replicate (gc_useConn c) (words_of R (r * gc_words c) (gc_words c)))) [0..<m])"
    by (simp_all only: c')
  ultimately have "ke_oks k = concat (replicate m (map (\<lambda>i. tx_meta_pkt (sess i) (of_nat (gc_bytes c))) [0..<gc_useConn c]))"
    "ktx_data (ke_st k) = concat (map (\<lambda>r. concat (replicate (gc_useConn c) (words_of R (r * gc_words c) (gc_words c)))) [0..<m])"
    by (simp_all only: map_replicate_const length_upt diff_zero)
  then show ?thesis using R dup by (intro exI[of _ R]) (simp only: snd_conv simp_thms)
qed

theorem all_reduce_witness:
  "\<exists>(s :: gh_st) ds bs. lane 0 (snd (allReduce_sum gc_demo ds) ! 1) = 22
    \<and> ke_oks (fold (ktx_exec (broadcast (allReduce_cfg gc_demo (gh_table s)))) bs (kenv_init (\<lambda>_. 0) (fst (allReduce_sum gc_demo ds))))
      = [tx_meta_pkt 7 64, tx_meta_pkt 8 64, tx_meta_pkt 7 64, tx_meta_pkt 8 64]"
proof -
  obtain es where es: "\<forall>w \<in> set (concat (map gh_words es)). of_session gc_demo demo_sess w"
    "\<forall>i < gc_useConn gc_demo. notified gc_demo i (concat (map gh_words es)) \<le> 2 * gc_bytes gc_demo"
    "gh_done (fold (gh_exec gc_demo) es (gh_init (\<lambda>_. 0)))" using demo_handshake by blast
  define s where "s = fold (gh_exec gc_demo) es (gh_init (\<lambda>_. 0))"
  define metas :: "u16 list" where "metas = replicate (length (gh_read s)) 0"
  have ml: "length metas = length (gh_read s)" by (simp add: metas_def)
  define init where "init = gcn_init metas (gh_next s) (stack_answer demo_data (gh_read s))"
  obtain n where n: "gcn_done ((gather_consumeData gc_demo ^^ n) init)"
    "length (reduce_streams gc_demo (gcn_out ((gather_consumeData gc_demo ^^ n) init))) = 2 * gc_words gc_demo"
    using reduce_sum_result[OF demo_ok es(1,2) s_def[symmetric] es(3)[folded s_def] demo_inj demo_len ml]
    unfolding Let_def init_def by blast
  define ds where "ds = gcn_out ((gather_consumeData gc_demo ^^ n) init)"
  define c where "c = allReduce_cfg gc_demo (gh_table s)"
  have c: "kc_useConn c = 2" "kc_words c = 1" "kc_expected c = 128" by (simp_all add: c_def allReduce_cfg_def gc_demo_def)
  have ok: "bc_ok c" by (simp add: bc_ok_def snd_ok_def kc_bytes_def c)
  have e: "unat (kc_expected c) = 2 * kc_bytes c" by (simp add: kc_bytes_def c)
  have "fst (allReduce_sum gc_demo ds) = reduce_streams gc_demo ds"
  proof -
    have "unat (drop_bit 6 (gc_expected gc_demo)) = 2 * gc_words gc_demo" by (simp add: unat_drop_bit_div gc_demo_def)
    then show ?thesis using n(2) by (simp add: allReduce_sum_def duplicate_stream_def duplicate_words_all ds_def)
  qed
  then have "bc_read c (snd_count c) \<le> length (fst (allReduce_sum gc_demo ds))"
    using bc_whole(1,4)[OF ok e] c n(2) by (simp add: ds_def gc_demo_def)
  from bc_completes[OF ok this, of "[]" "\<lambda>_. 0"] obtain i where
    i: "ktx_pc (ke_st (fold (ktx_exec (broadcast c)) (Run_Step # concat (replicate i [Answer 0 0, Run_Step]))
      (kenv_init (\<lambda>_. 0) (fst (allReduce_sum gc_demo ds))))) = KTX_DONE" by (auto simp del: ktx_exec.simps)
  have u: "2 \<le> gc_useConn gc_demo" "gc_words gc_demo \<le> 256" by (simp_all add: gc_demo_def)
  obtain R where R: "snd (allReduce_sum gc_demo ds) = R"
    "\<forall>i < 2 * gc_words gc_demo. \<forall>l < 16. lane l (R ! i) = (\<Sum>j < gc_useConn gc_demo. lane l (demo_data (demo_sess j) ! i))"
    "ke_oks (fold (ktx_exec (broadcast c)) (Run_Step # concat (replicate i [Answer 0 0, Run_Step])) (kenv_init (\<lambda>_. 0) (fst (allReduce_sum gc_demo ds))))
      = concat (replicate 2 (map (\<lambda>i. tx_meta_pkt (demo_sess i) (of_nat (gc_bytes gc_demo))) [0..<gc_useConn gc_demo]))"
    using all_reduce[OF demo_ok es(1,2) s_def[symmetric] es(3)[folded s_def] demo_inj demo_len ml
        refl n(1)[unfolded init_def] u refl i[unfolded c_def ds_def init_def]]
    unfolding c_def ds_def init_def by blast
  have "1 < 2 * gc_words gc_demo" "(0 :: nat) < 16" by (simp_all add: gc_demo_def)
  then have "lane 0 (snd (allReduce_sum gc_demo ds) ! 1) = 22" using R(1,2) demo_sum by metis
  moreover have "concat (replicate 2 xs) = xs @ xs" for xs :: "u32 list" by (simp add: numeral_2_eq_2)
  then have "concat (replicate 2 (map (\<lambda>i. tx_meta_pkt (demo_sess i) (of_nat (gc_bytes gc_demo))) [0..<gc_useConn gc_demo]))
    = [tx_meta_pkt 7 64, tx_meta_pkt 8 64, tx_meta_pkt 7 64, tx_meta_pkt 8 64]"
    by (simp add: gc_demo_def gc_bytes_def demo_sess_def upt_rec)
  ultimately show ?thesis using R(3) unfolding c_def by metis
qed

end
