(* ===== verification/Header_Gen.thy ===== *)
theory Header_Gen
  imports Tx_Header
begin

text \<open>
  The processes that put a header in front of a packet, \<^verbatim>\<open>generate_udp\<close> (\<^verbatim>\<open>udp/udp.cpp\<close>) and
  \<^verbatim>\<open>ipv4_generate_ipv4\<close> (\<^verbatim>\<open>ipv4/ipv4.cpp\<close>), have the same states and differ in the header. What they share is
  written once, over the type of the header: the packet that comes in has room for the part of the header that does
  not fill a word (\<open>lshiftWordByOctet\<close> has made it), and leaves with the header in front.
\<close>

subsection \<open>The states of the two processes\<close>

datatype gen_fsm = GEN_META | GEN_HEADER | GEN_PARTIAL_HEADER | GEN_BODY

record (overloaded) ('m, 'h) gen_st =
  gen_state :: gen_fsm
  gen_header :: "'h packetHeader"
  genf_meta :: "'m fifo"
  genf_in :: "net_axis fifo"
  genf_out :: "net_axis fifo"

text \<open>\<open>META\<close>: the header is filled from the metadata.\<close>

definition gen_meta :: "nat \<Rightarrow> ('m \<Rightarrow> 'h word \<Rightarrow> 'h word) \<Rightarrow> ('m, 'h::len) gen_st \<Rightarrow> ('m, 'h) gen_st" where
  "gen_meta W fill s =
    (if genf_meta s \<noteq> [] then
       (let h = ph_clear (gen_header s) in
        s\<lparr>genf_meta := tl (genf_meta s), gen_header := h\<lparr>ph_header := fill (hd (genf_meta s)) (ph_header h)\<rparr>,
          gen_state := (if 8 * W \<le> LENGTH('h) then GEN_HEADER else GEN_PARTIAL_HEADER)\<rparr>)
     else s)"

text \<open>\<open>HEADER\<close>: a word of the header alone; \<open>u\<close> is the uninitialised word it is put in.\<close>

definition gen_word :: "nat \<Rightarrow> lane list \<Rightarrow> ('m, 'h::len) gen_st \<Rightarrow> ('m, 'h) gen_st" where
  "gen_word W u s =
    (case consumeWord W u (gen_header s) of (rem, ls, h) \<Rightarrow>
       s\<lparr>gen_header := h, gen_state := (if unat rem < W then GEN_PARTIAL_HEADER else GEN_HEADER),
         genf_out := genf_out s @ [\<lparr>ax_lanes = keep_low 32 ls, ax_last = False\<rparr>]\<rparr>)"

text \<open>\<open>PARTIAL_HEADER\<close>: the rest of the header goes into the first word of the packet.\<close>

definition gen_partial :: "nat \<Rightarrow> ('m, 'h::len) gen_st \<Rightarrow> ('m, 'h) gen_st" where
  "gen_partial W s =
    (if genf_in s \<noteq> [] then
       (let w = hd (genf_in s) in
        case consumeWord W (ax_lanes w) (gen_header s) of (_, ls, h) \<Rightarrow>
        s\<lparr>genf_in := tl (genf_in s), gen_header := h, genf_out := genf_out s @ [w\<lparr>ax_lanes := ls\<rparr>],
          gen_state := (if ax_last w then GEN_META else GEN_BODY)\<rparr>)
     else s)"

definition gen_body :: "('m, 'h::len) gen_st \<Rightarrow> ('m, 'h) gen_st" where
  "gen_body s =
    (if genf_in s \<noteq> [] then
       (let w = hd (genf_in s) in
        s\<lparr>genf_in := tl (genf_in s), genf_out := genf_out s @ [w],
          gen_state := (if ax_last w then GEN_META else GEN_BODY)\<rparr>)
     else s)"

definition gen_step :: "nat \<Rightarrow> ('m \<Rightarrow> 'h word \<Rightarrow> 'h word) \<Rightarrow> lane list \<Rightarrow> ('m, 'h::len) gen_st \<Rightarrow> ('m, 'h) gen_st" where
  "gen_step W fill u s =
    (case gen_state s of
       GEN_META \<Rightarrow> gen_meta W fill s
     | GEN_HEADER \<Rightarrow> gen_word W u s
     | GEN_PARTIAL_HEADER \<Rightarrow> gen_partial W s
     | GEN_BODY \<Rightarrow> gen_body s)"

text \<open>A step does something when it is not waiting for a stream.\<close>

definition gen_can :: "('m, 'h::len) gen_st \<Rightarrow> bool" where
  "gen_can s \<longleftrightarrow> (case gen_state s of GEN_META \<Rightarrow> genf_meta s \<noteq> [] | GEN_HEADER \<Rightarrow> True | _ \<Rightarrow> genf_in s \<noteq> [])"

lemma gen_idle: "\<not> gen_can s \<Longrightarrow> gen_step W fill u s = s"
  by (auto simp: gen_can_def gen_step_def gen_meta_def gen_partial_def gen_body_def split: gen_fsm.splits)

text \<open>More in its streams, in or out, changes nothing in what a step does.\<close>

lemma gen_more_in:
  "gen_can s \<Longrightarrow> gen_step W fill u (s\<lparr>genf_meta := genf_meta s @ ms, genf_in := genf_in s @ ws\<rparr>)
     = (gen_step W fill u s)\<lparr>genf_meta := genf_meta (gen_step W fill u s) @ ms, genf_in := genf_in (gen_step W fill u s) @ ws\<rparr>"
  by (auto simp: gen_can_def gen_step_def gen_meta_def gen_word_def gen_partial_def gen_body_def Let_def
      split: gen_fsm.splits prod.splits)

lemma gen_more_can: "gen_can s \<Longrightarrow> gen_can (s\<lparr>genf_meta := genf_meta s @ ms, genf_in := genf_in s @ ws\<rparr>)"
  by (auto simp: gen_can_def split: gen_fsm.splits)

subsection \<open>The header goes out\<close>

lemma gen_body_phase:
  assumes "gen_state s = GEN_BODY" and "packet W ws bs" and "genf_in s = ws @ rest"
  shows "(gen_step W fill u ^^ length ws) s = s\<lparr>genf_in := rest, genf_out := genf_out s @ ws, gen_state := GEN_META\<rparr>"
  using assms
proof (induction ws arbitrary: s bs)
  case (Cons w ws)
  define t where "t = gen_step W fill u s"
  have t: "t = s\<lparr>genf_in := ws @ rest, genf_out := genf_out s @ [w], gen_state := (if ax_last w then GEN_META else GEN_BODY)\<rparr>"
    using Cons.prems by (simp add: t_def gen_step_def gen_body_def Let_def)
  have run: "(gen_step W fill u ^^ length (w # ws)) s = (gen_step W fill u ^^ length ws) t"
    by (simp add: funpow_Suc_right t_def del: funpow.simps)
  show ?case
  proof (cases "ws = []")
    case True
    then show ?thesis using run t Cons.prems(2) by (simp add: packet_single)
  next
    case False
    then have p: "\<not> ax_last w" "packet W ws (drop W bs)" using Cons.prems(2) by (simp_all add: packet_cons)
    have "(gen_step W fill u ^^ length ws) t = t\<lparr>genf_in := rest, genf_out := genf_out t @ ws, gen_state := GEN_META\<rparr>"
      by (rule Cons.IH[OF _ p(2)]) (use t p(1) in simp_all)
    then show ?thesis using run t p(1) by simp
  qed
qed simp

lemma gen_header_step:
  fixes s :: "('m, 'h::len) gen_st"
  assumes "gen_state s = GEN_HEADER" and "LENGTH('h) = 8 * n" and "n < 256" and "0 < W" and "W \<le> 32"
    and "unat (ph_idx (gen_header s)) = i" and "W * i + W \<le> n" and "length u = W"
  shows "gen_step W fill u s = s\<lparr>gen_header := (gen_header s)\<lparr>ph_idx := ph_idx (gen_header s) + 1\<rparr>,
     gen_state := (if n - (W * i + W) < W then GEN_PARTIAL_HEADER else GEN_HEADER),
     genf_out := genf_out s @ [header_word W i (ph_header (gen_header s)) False]\<rparr>"
proof -
  obtain rem ls where c: "consumeWord W u (gen_header s) = (rem, ls, (gen_header s)\<lparr>ph_idx := ph_idx (gen_header s) + 1\<rparr>)"
    "unat rem = n - (W * i + W)" "keep_low 32 ls = ax_lanes (header_word W i (ph_header (gen_header s)) False)"
    using consume_word[of n "gen_header s" i W u False] assms by auto
  then show ?thesis using assms(1) by (simp add: gen_step_def gen_word_def Let_def header_word_def)
qed

lemma gen_header_phase:
  fixes s :: "('m, 'h::len) gen_st"
  assumes "gen_state s = GEN_HEADER" and "LENGTH('h) = 8 * n" and "n < 256" and "0 < W" and "W \<le> 32"
    and "ph_idx (gen_header s) = 0" and "0 < j" and "W * j \<le> n" and "length u = W"
  shows "\<exists>x. (gen_step W fill u ^^ j) s = s\<lparr>gen_header := (gen_header s)\<lparr>ph_idx := x\<rparr>,
     gen_state := (if n - W * j < W then GEN_PARTIAL_HEADER else GEN_HEADER),
     genf_out := genf_out s @ map (\<lambda>i. header_word W i (ph_header (gen_header s)) False) [0..<j]\<rparr> \<and> unat x = j"
  using assms(7,8)
proof (induction j)
  case (Suc j)
  have le: "W * j + W \<le> n" using Suc.prems(2) by simp
  obtain x where x: "(gen_step W fill u ^^ j) s = s\<lparr>gen_header := (gen_header s)\<lparr>ph_idx := x\<rparr>, gen_state := GEN_HEADER,
      genf_out := genf_out s @ map (\<lambda>i. header_word W i (ph_header (gen_header s)) False) [0..<j]\<rparr>" "unat x = j"
  proof (cases "j = 0")
    case True
    then show ?thesis using that[of 0] assms(1,6) by simp
  next
    case False
    then have j: "0 < j" "W * j \<le> n" "\<not> n - W * j < W" using le by simp_all
    show ?thesis using Suc.IH[OF j(1,2)] j(3) that by auto
  qed
  have "W * 1 + W * j \<le> 255" using le assms(3) by simp
  then have "j < 256" using assms(4) by (cases W) auto
  then have "unat (x + 1) = Suc j" using x(2) by (simp add: unat_add_mod)
  then show ?case using gen_header_step[of "(gen_step W fill u ^^ j) s" n W j u fill] x assms le
    by (intro exI[of _ "x + 1"]) (simp add: add.commute)
qed simp

definition gen_done :: "nat \<Rightarrow> ('m, 'h::len) gen_st \<Rightarrow> 'm list \<Rightarrow> net_axis list \<Rightarrow> byte list \<Rightarrow> 'h word \<Rightarrow> ('m, 'h) gen_st \<Rightarrow> bool" where
  "gen_done W s ms rest bs x t \<longleftrightarrow> gen_state t = GEN_META \<and> genf_meta t = ms \<and> genf_in t = rest \<and> ph_header (gen_header t) = x
     \<and> (\<exists>out. genf_out t = genf_out s @ out \<and> packet W out bs)"

lemma gen_partial_phase:
  fixes s :: "('m, 'h::len) gen_st"
  assumes "gen_state s = GEN_PARTIAL_HEADER" and "LENGTH('h) = 8 * n" and "unat (ph_idx (gen_header s)) = n div W"
    and "0 < W" and "packet W ws (replicate (n mod W) 0 @ bs)" and "genf_in s = ws @ rest"
    and "x = ph_header (gen_header s)"
  shows "\<exists>out t. (gen_step W fill u ^^ length ws) s = t \<and> gen_state t = GEN_META \<and> genf_meta t = genf_meta s \<and> genf_in t = rest
     \<and> ph_header (gen_header t) = x \<and> genf_out t = genf_out s @ out \<and> packet W out (drop (W * (n div W)) (header_bytes x) @ bs)"
proof -
  obtain w ws' where ws: "ws = w # ws'" using packet_nonempty[OF assms(5)] by (cases ws) auto
  have len: "length (ax_lanes w) = W" using packet_lanes assms(5) ws by blast
  define cs where "cs = drop (W * (n div W)) (header_bytes x)"
  have hb: "length (header_bytes x) = n" using assms(2) by simp
  have cs: "length cs = n mod W" unfolding cs_def length_drop hb by (rule minus_mult_div_eq_mod)
  define w' where "w' = (if n mod W = 0 then w else w\<lparr>ax_lanes := zip (cs @ drop (length cs) (map fst (ax_lanes w))) (map snd (ax_lanes w))\<rparr>)"
  have lt: "n < W * (n div W) + W" using assms(4) by (metis add.commute dividend_less_times_div)
  have eq: "n div W * (8 * W) = 8 * (W * (n div W))" "(n div W + 1) * (8 * W) = 8 * (W * (n div W) + W)" by (simp_all add: algebra_simps)
  have "\<exists>rem h'. consumeWord W (ax_lanes w) (gen_header s) = (rem, ax_lanes w', h') \<and> ph_header h' = x"
  proof (cases "n mod W = 0")
    case True
    then have e: "W * (n div W) = n" using mult_div_mod_eq[of W n] by simp
    show ?thesis using True assms(2,4,7) by (simp add: consumeWord_def Let_def assms(3) eq e w'_def)
  next
    case False
    then have "W * (n div W) < n" using mult_div_mod_eq[of W n] by linarith
    then show ?thesis using consume_rest[OF assms(2,3) lt _ len] False
      by (simp add: w'_def cs cs_def minus_mult_div_eq_mod assms(2) flip: assms(7))
  qed
  then obtain rem h' where c: "consumeWord W (ax_lanes w) (gen_header s) = (rem, ax_lanes w', h')" "ph_header h' = x" by blast
  define t where "t = gen_step W fill u s"
  have last: "ax_last w' = ax_last w" by (simp add: w'_def)
  have t: "t = s\<lparr>genf_in := ws' @ rest, gen_header := h', genf_out := genf_out s @ [w'],
      gen_state := (if ax_last w then GEN_META else GEN_BODY)\<rparr>"
    using assms(1,6) ws c(1) last by (simp add: t_def gen_step_def gen_partial_def Let_def)
  have p: "packet W (w' # ws') (cs @ bs)"
  proof (cases "n mod W = 0")
    case True
    then show ?thesis using assms(5) cs ws by (simp add: w'_def)
  next
    case False
    have le: "length cs \<le> W" using cs assms(4) by (simp add: less_imp_le)
    have ne: "cs \<noteq> []" using cs False by auto
    show ?thesis using packet_replace[OF assms(5)[unfolded ws] _ le ne] False cs by (simp add: w'_def)
  qed
  have run: "(gen_step W fill u ^^ length ws) s = (gen_step W fill u ^^ length ws') t"
    by (simp add: ws funpow_Suc_right t_def del: funpow.simps)
  show ?thesis
  proof (cases "ws' = []")
    case True
    then have "ax_last w" using packet_last[OF p] last by simp
    then show ?thesis using True run t p c(2) by (simp add: cs_def)
  next
    case False
    then have "\<not> ax_last w" "packet W ws' (drop W (cs @ bs))" using p last by (simp_all add: packet_cons)
    then have "(gen_step W fill u ^^ length ws') t = t\<lparr>genf_in := rest, genf_out := genf_out t @ ws', gen_state := GEN_META\<rparr>"
      by (intro gen_body_phase) (simp_all add: t)
    then show ?thesis using run t p c(2) \<open>\<not> ax_last w\<close> by (simp add: cs_def)
  qed
qed

text \<open>One packet with its header.\<close>

lemma gen_packet:
  fixes s :: "('m, 'h::len) gen_st"
  assumes "gen_state s = GEN_META" and "genf_meta s = m # ms" and "LENGTH('h) = 8 * n" and "n < 256" and "0 < W"
    and "n < W \<or> W \<le> 32" and "length u = W" and "packet W ws (replicate (n mod W) 0 @ bs)" and "genf_in s = ws @ rest"
    and "x = fill m (ph_header (gen_header s))"
  shows "\<exists>k. gen_done W s ms rest (header_bytes x @ bs) x ((gen_step W fill u ^^ k) s)"
proof -
  define h where "h = (ph_clear (gen_header s))\<lparr>ph_header := x\<rparr>"
  define t where "t = gen_step W fill u s"
  have t: "t = s\<lparr>genf_meta := ms, gen_header := h, gen_state := (if W \<le> n then GEN_HEADER else GEN_PARTIAL_HEADER)\<rparr>"
    using assms(1-3,10) by (simp add: t_def gen_step_def gen_meta_def Let_def h_def ph_clear_def)
  have hb: "length (header_bytes x) = n" using assms(3) by simp
  have h: "ph_idx h = 0" "ph_header h = x" by (simp_all add: h_def ph_clear_def)
  obtain y where y: "(gen_step W fill u ^^ (n div W)) t = s\<lparr>genf_meta := ms, gen_header := h\<lparr>ph_idx := y\<rparr>,
      gen_state := GEN_PARTIAL_HEADER, genf_out := genf_out s @ map (\<lambda>i. header_word W i x False) [0..<n div W]\<rparr>"
    "unat y = n div W"
  proof (cases "W \<le> n")
    case True
    have pos: "0 < n div W" using True assms(5) by (simp add: div_greater_zero_iff)
    have "n - W * (n div W) < W" using assms(5) by (simp add: minus_mult_div_eq_mod)
    then show ?thesis using gen_header_phase[of t n W "n div W" u fill] that True assms(3-7) t h pos by auto
  next
    case False
    then show ?thesis using that[of 0] t h by (simp add: h_def ph_clear_def)
  qed
  define v where "v = (gen_step W fill u ^^ (n div W)) t"
  have v: "gen_state v = GEN_PARTIAL_HEADER" "unat (ph_idx (gen_header v)) = n div W" "genf_in v = ws @ rest"
    "x = ph_header (gen_header v)" "genf_meta v = ms" using y assms(9) h by (simp_all add: v_def)
  obtain out z where z: "(gen_step W fill u ^^ length ws) v = z" "gen_state z = GEN_META" "genf_meta z = ms" "genf_in z = rest"
    "ph_header (gen_header z) = x" "genf_out z = genf_out v @ out" "packet W out (drop (W * (n div W)) (header_bytes x) @ bs)"
    using gen_partial_phase[OF v(1) assms(3) v(2) assms(5,8) v(3,4), of fill u] v(5) by blast
  let ?hs = "map (\<lambda>i. header_word W i x False) [0..<n div W]"
  have "fulls W ?hs (take (W * (n div W)) (header_bytes x))"
    using header_words[of W 0 "n div W" x] hb by simp
  from fulls_packet[OF this z(7)]
  have "packet W (?hs @ out) (header_bytes x @ bs)" by (simp add: take_drop_append)
  moreover have "genf_out z = genf_out s @ ?hs @ out" using z(6) y(1) by (simp add: v_def)
  ultimately have "gen_done W s ms rest (header_bytes x @ bs) x z" using z by (auto simp: gen_done_def)
  moreover have "z = (gen_step W fill u ^^ (length ws + n div W)) t" by (simp add: v_def funpow_add flip: z(1))
  then have "z = (gen_step W fill u ^^ Suc (length ws + n div W)) s" by (simp add: funpow_Suc_right t_def del: funpow.simps)
  ultimately show ?thesis by blast
qed

end
