(* ===== verification/Dataflow.thy ===== *)
theory Dataflow
  imports Main
begin

text \<open>
  Processes that run side by side and meet only in streams. A dataflow region of the code calls its processes one
  after the other, the hardware runs them all at once. When a process that can move still can after another one
  has moved, and the two moves commute, the order does not matter: every fair schedule ends in the state that any
  one run to the end reaches. The components show the law for their processes and so need to follow a packet
  through one process after the other only.
\<close>

text \<open>A schedule is fair when it falls into rounds in each of which every process has a turn.\<close>

definition fair :: "'p list list \<Rightarrow> bool" where
  "fair rounds \<longleftrightarrow> (\<forall>qs \<in> set rounds. \<forall>p. p \<in> set qs)"

lemma calls_as_rounds: "(fold f ps ^^ k) s = fold f (concat (replicate k ps)) s"
  by (induction k arbitrary: s) (simp_all add: funpow_Suc_right del: funpow.simps(2))

lemma calls_fair: "\<forall>p. p \<in> set ps \<Longrightarrow> fair (replicate k ps)"
  by (simp add: fair_def)

lemma run_replicate: "fold f (replicate k p) s = (f p ^^ k) s"
  by (induction k arbitrary: s) (simp_all add: funpow_swap1)

text \<open>
  One process of a network on its own. The network holds the state \<open>get s\<close> of the process; a step \<open>f\<close> of it is followed by
  \<open>deliver\<close>, which hands what was written to the readers and leaves the process \<open>clear\<close> of it. Then \<open>k\<close> steps in the network are
  \<open>k\<close> steps of the process, delivered at the end: \<open>join\<close> puts what was written before in front of what is written after.
\<close>

lemma run_stage:
  assumes act: "\<And>s. act s = deliver (f (get s)) s"
    and clear: "\<And>p s. get (deliver p s) = clear p"
    and join: "\<And>p q s. deliver q (deliver p s) = deliver (join p q) s"
    and outputs: "\<And>p. f p = join p (f (clear p))"
    and start: "deliver (get s) s = s"
  shows "(act ^^ k) s = deliver ((f ^^ k) (get s)) s"
proof (induction k)
  case (Suc k)
  let ?p = "(f ^^ k) (get s)"
  have "(act ^^ Suc k) s = act (deliver ?p s)" by (simp add: Suc)
  also have "\<dots> = deliver (f (clear ?p)) (deliver ?p s)" by (simp only: act clear)
  also have "\<dots> = deliver (f ?p) s" by (simp only: join outputs[of ?p, symmetric])
  finally show ?case by simp
qed (simp add: start)

locale dataflow =
  fixes inv :: "'s \<Rightarrow> bool" and can :: "'p \<Rightarrow> 's \<Rightarrow> bool" and act :: "'p \<Rightarrow> 's \<Rightarrow> 's"
  assumes stays: "inv s \<Longrightarrow> inv (act p s)"
    and idle: "inv s \<Longrightarrow> \<not> can p s \<Longrightarrow> act p s = s"
    and keeps: "inv s \<Longrightarrow> p \<noteq> q \<Longrightarrow> can p s \<Longrightarrow> can q s \<Longrightarrow> can p (act q s)"
    and commutes: "inv s \<Longrightarrow> p \<noteq> q \<Longrightarrow> can p s \<Longrightarrow> can q s \<Longrightarrow> act p (act q s) = act q (act p s)"
begin

definition quiet :: "'s \<Rightarrow> bool" where
  "quiet s \<longleftrightarrow> (\<forall>p. \<not> can p s)"

text \<open>A run in which every step moves something.\<close>

fun moves :: "'p list \<Rightarrow> 's \<Rightarrow> bool" where
  "moves [] s \<longleftrightarrow> True"
| "moves (p # ps) s \<longleftrightarrow> can p s \<and> moves ps (act p s)"

lemma moves_of_run:
  assumes "inv s"
  shows "\<exists>ps. moves ps s \<and> fold act ps s = fold act qs s \<and> length ps \<le> length qs"
  using assms
proof (induction qs arbitrary: s)
  case Nil
  show ?case by (rule exI[of _ "[]"]) simp
next
  case (Cons q qs)
  obtain ps where ps: "moves ps (act q s)" "fold act ps (act q s) = fold act qs (act q s)" "length ps \<le> length qs"
    using Cons.IH[OF stays[OF Cons.prems]] by blast
  show ?case
  proof (cases "can q s")
    case True
    then show ?thesis using ps by (intro exI[of _ "q # ps"]) simp
  next
    case False
    show ?thesis using ps unfolding idle[OF Cons.prems False] by (intro exI[of _ ps]) (simp add: idle[OF Cons.prems False])
  qed
qed

text \<open>A move that is possible at the start may be made first.\<close>

lemma move_first:
  assumes "inv s" and "moves ps s" and "quiet (fold act ps s)" and "can q s"
  shows "\<exists>rs. moves rs (act q s) \<and> fold act rs (act q s) = fold act ps s \<and> Suc (length rs) = length ps"
  using assms
proof (induction ps arbitrary: s)
  case (Cons p ps)
  show ?case
  proof (cases "p = q")
    case False
    have p: "can p s" "moves ps (act p s)" using Cons.prems(2) by simp_all
    have ne: "q \<noteq> p" "p \<noteq> q" using False by simp_all
    have "can q (act p s)" by (rule keeps[OF Cons.prems(1) ne(1) Cons.prems(4) p(1)])
    then obtain rs where "moves rs (act q (act p s))" "fold act rs (act q (act p s)) = fold act ps (act p s)"
      "Suc (length rs) = length ps" using Cons.IH[OF stays[OF Cons.prems(1)] p(2)] Cons.prems(3) by auto
    moreover have "can p (act q s)" by (rule keeps[OF Cons.prems(1) ne(2) p(1) Cons.prems(4)])
    moreover have "act p (act q s) = act q (act p s)" by (rule commutes[OF Cons.prems(1) ne(2) p(1) Cons.prems(4)])
    ultimately show ?thesis by (intro exI[of _ "p # rs"]) simp
  qed (use Cons.prems in auto)
qed (simp add: quiet_def)

text \<open>Whatever steps are made, the same end is reached from there, sooner when a step moved something.\<close>

lemma any_steps:
  assumes "inv s" and "moves ps s" and "quiet (fold act ps s)"
  shows "\<exists>rs. moves rs (fold act qs s) \<and> fold act rs (fold act qs s) = fold act ps s \<and> length rs \<le> length ps
     \<and> (length rs = length ps \<longrightarrow> (\<forall>q \<in> set qs. \<not> can q s))"
  using assms
proof (induction qs arbitrary: s ps)
  case (Cons q qs)
  show ?case
  proof (cases "can q s")
    case True
    obtain zs where zs: "moves zs (act q s)" "fold act zs (act q s) = fold act ps s" "Suc (length zs) = length ps"
      using move_first[OF Cons.prems True] by blast
    obtain rs where "moves rs (fold act qs (act q s))" "fold act rs (fold act qs (act q s)) = fold act zs (act q s)"
      "length rs \<le> length zs"
      using Cons.IH[OF stays[OF Cons.prems(1)] zs(1)] zs(2) Cons.prems(3) by auto
    then show ?thesis using zs by (intro exI[of _ rs]) simp
  next
    case False
    then show ?thesis using Cons.IH[OF Cons.prems] idle[OF Cons.prems(1) False] by auto
  qed
qed auto

lemma inv_run: "inv s \<Longrightarrow> inv (fold act qs s)"
  by (induction qs arbitrary: s) (simp_all add: stays)

lemma fair_runs_agree:
  assumes "inv s" and "moves ps s" and "quiet (fold act ps s)" and "fair rounds" and "length ps \<le> length rounds"
  shows "fold act (concat rounds) s = fold act ps s"
  using assms
proof (induction rounds arbitrary: s ps)
  case (Cons qs rounds)
  have qs: "\<forall>p. p \<in> set qs" "fair rounds" using Cons.prems(4) by (auto simp: fair_def)
  obtain rs where rs: "moves rs (fold act qs s)" "fold act rs (fold act qs s) = fold act ps s" "length rs \<le> length ps"
    "length rs = length ps \<longrightarrow> (\<forall>q \<in> set qs. \<not> can q s)"
    using any_steps[OF Cons.prems(1-3)] by blast
  have "length rs \<le> length rounds"
  proof (cases "length rs = length ps")
    case True
    then have "ps = []" using Cons.prems(2) rs(4) qs(1) by (cases ps) auto
    then show ?thesis using True by simp
  qed (use rs(3) Cons.prems(5) in simp)
  then have "fold act (concat rounds) (fold act qs s) = fold act rs (fold act qs s)"
    using Cons.IH[OF inv_run[OF Cons.prems(1)] rs(1) _ qs(2)] rs(2) Cons.prems(3) by simp
  then show ?case using rs(2) by simp
qed simp

text \<open>The state any one run ends in when it leaves nothing to do is the state all fair schedules end in.\<close>

lemma all_schedules_agree:
  assumes "inv s" and "quiet (fold act qs s)"
  shows "\<exists>k. \<forall>rounds. fair rounds \<longrightarrow> k \<le> length rounds \<longrightarrow> fold act (concat rounds) s = fold act qs s"
proof -
  obtain ps where ps: "moves ps s" "fold act ps s = fold act qs s" using moves_of_run[OF assms(1)] by blast
  have "quiet (fold act ps s)" using ps(2) assms(2) by simp
  then show ?thesis using fair_runs_agree[OF assms(1) ps(1)] ps(2) by metis
qed

end

text \<open>The states a list of inputs leads through, each input taking the network from one state to the next.\<close>

fun through :: "('x \<Rightarrow> 's \<Rightarrow> 's \<Rightarrow> bool) \<Rightarrow> 'x list \<Rightarrow> 's \<Rightarrow> 's \<Rightarrow> bool" where
  "through R [] s t \<longleftrightarrow> s = t"
| "through R (x # xs) s t \<longleftrightarrow> (\<exists>u. R x s u \<and> through R xs u t)"

text \<open>
  A network with an input: what is put there does not disturb the steps that are possible. Then inputs that wait one behind
  the other are worked off as if each were put into the network at rest.
\<close>

locale fed_dataflow = dataflow inv can act for inv :: "'s \<Rightarrow> bool" and can :: "'p \<Rightarrow> 's \<Rightarrow> bool" and act :: "'p \<Rightarrow> 's \<Rightarrow> 's" +
  fixes put :: "'x \<Rightarrow> 's \<Rightarrow> 's"
  assumes put_inv: "inv s \<Longrightarrow> inv (put x s)"
    and put_can: "can p s \<Longrightarrow> can p (put x s)"
    and put_act: "can p s \<Longrightarrow> act p (put x s) = put x (act p s)"
begin

lemma put_moves: "moves ps s \<Longrightarrow> fold act ps (put x s) = put x (fold act ps s) \<and> moves ps (put x s)"
  by (induction ps arbitrary: s) (simp_all add: put_act put_can)

lemma puts_moves: "moves ps s \<Longrightarrow> fold act ps (fold put xs s) = fold put xs (fold act ps s)"
proof (induction xs arbitrary: s)
  case (Cons x xs)
  then show ?case using put_moves[OF Cons.prems, of x] Cons.IH[of "put x s"] by simp
qed simp

lemma puts_inv: "inv s \<Longrightarrow> inv (fold put xs s)"
  by (induction xs arbitrary: s) (simp_all add: put_inv)

lemma feed_run:
  assumes "\<And>s x. rest s \<Longrightarrow> ok x \<Longrightarrow> \<exists>qs. R x s (fold act qs (put (g x) s)) \<and> rest (fold act qs (put (g x) s))"
    and "\<And>s. rest s \<Longrightarrow> inv s" and "rest s" and "\<forall>x \<in> set xs. ok x"
  shows "\<exists>qs. through R xs s (fold act qs (fold put (map g xs) s)) \<and> rest (fold act qs (fold put (map g xs) s))"
  using assms(3,4)
proof (induction xs arbitrary: s)
  case Nil
  then show ?case by (intro exI[of _ "[]"]) simp
next
  case (Cons x xs)
  have x: "ok x" "\<forall>y \<in> set xs. ok y" using Cons.prems(2) by simp_all
  obtain qs where qs: "R x s (fold act qs (put (g x) s))" "rest (fold act qs (put (g x) s))"
    using assms(1)[OF Cons.prems(1) x(1)] by blast
  obtain ps where ps: "moves ps (put (g x) s)" "fold act ps (put (g x) s) = fold act qs (put (g x) s)"
    using moves_of_run[OF put_inv[OF assms(2)[OF Cons.prems(1)]]] by blast
  let ?u = "fold act qs (put (g x) s)"
  obtain rs where rs: "through R xs ?u (fold act rs (fold put (map g xs) ?u))" "rest (fold act rs (fold put (map g xs) ?u))"
    using Cons.IH[OF qs(2) x(2)] by blast
  have "fold act (ps @ rs) (fold put (map g (x # xs)) s) = fold act rs (fold put (map g xs) ?u)"
    using puts_moves[OF ps(1), of "map g xs"] ps(2) by simp
  then show ?case using qs(1) rs by (intro exI[of _ "ps @ rs"]) auto
qed

lemma feed_sequence:
  assumes "\<And>s x. rest s \<Longrightarrow> ok x \<Longrightarrow> \<exists>qs. R x s (fold act qs (put (g x) s)) \<and> rest (fold act qs (put (g x) s))"
    and "\<And>s. rest s \<Longrightarrow> inv s" and "\<And>s. rest s \<Longrightarrow> quiet s" and "rest s" and "\<forall>x \<in> set xs. ok x"
  shows "\<exists>k t. through R xs s t \<and> (\<forall>rounds. fair rounds \<longrightarrow> k \<le> length rounds \<longrightarrow> fold act (concat rounds) (fold put (map g xs) s) = t)"
proof -
  obtain qs where qs: "through R xs s (fold act qs (fold put (map g xs) s))" "rest (fold act qs (fold put (map g xs) s))"
    using feed_run[where rest = rest and ok = ok and R = R and g = g, OF assms(1,2,4,5)] by blast
  show ?thesis
    using all_schedules_agree[OF puts_inv[OF assms(2)[OF assms(4)]] assms(3)[OF qs(2)]] qs(1) by blast
qed

end

end
