(* ===== verification/Udp.thy ===== *)
theory Udp
  imports Word_Shift Header_Gen Dataflow
begin

text \<open>
  UDP (\<^verbatim>\<open>udp/udp.cpp\<close>, \<^verbatim>\<open>udp/udp.hpp\<close>): the six processes of the module, and the module as the network of them.
  \<open>W\<close> is the number of byte lanes of the streams.
\<close>

subsection \<open>Metadata and header\<close>

record ipv4Meta =
  ipm_their_address :: u32
  ipm_length :: u16

text \<open>The second constructor, for the addresses of 128 bits that \<^verbatim>\<open>ipUdpMeta\<close> holds.\<close>

definition ipv4Meta_wide :: "128 word \<Rightarrow> u16 \<Rightarrow> ipv4Meta" where
  "ipv4Meta_wide addr len = \<lparr>ipm_their_address = range_get 127 96 addr, ipm_length = len\<rparr>"

record ipUdpMeta =
  ium_their_address :: "128 word"
  ium_their_port :: u16
  ium_my_port :: u16
  ium_length :: u16

record udpMeta =
  udm_their_port :: u16
  udm_my_port :: u16
  udm_length :: u16
  udm_valid :: bool

definition udp_setSrcPort :: "u16 \<Rightarrow> 64 word \<Rightarrow> 64 word" where "udp_setSrcPort p = range_set 15 0 (reverse16 p)"
definition udp_getSrcPort :: "64 word \<Rightarrow> u16" where "udp_getSrcPort h = reverse16 (range_get 15 0 h)"
definition udp_setDstPort :: "u16 \<Rightarrow> 64 word \<Rightarrow> 64 word" where "udp_setDstPort p = range_set 31 16 (reverse16 p)"
definition udp_getDstPort :: "64 word \<Rightarrow> u16" where "udp_getDstPort h = reverse16 (range_get 31 16 h)"
definition udp_setLength :: "u16 \<Rightarrow> 64 word \<Rightarrow> 64 word" where "udp_setLength l = range_set 47 32 (reverse16 l)"
definition udp_getLength :: "64 word \<Rightarrow> u16" where "udp_getLength h = reverse16 (range_get 47 32 h)"

subsection \<open>The receiving side\<close>

record pu_st =
  pu_header :: "64 packetHeader"
  pu_metaWritten :: bool
  puf_in :: "net_axis fifo"
  puf_meta :: "udpMeta fifo"
  puf_out :: "net_axis fifo"

definition pu_meta :: "u16 \<Rightarrow> 64 word \<Rightarrow> udpMeta" where
  "pu_meta port h = \<lparr>udm_their_port = udp_getSrcPort h, udm_my_port = udp_getDstPort h, udm_length = udp_getLength h,
     udm_valid = (udp_getDstPort h = port)\<rparr>"

definition process_udp :: "nat \<Rightarrow> u16 \<Rightarrow> pu_st \<Rightarrow> pu_st" where
  "process_udp W regListenPort s =
    (if puf_in s \<noteq> [] then
       (let w = hd (puf_in s); h = parseWord W (ax_lanes w) (pu_header s);
            s = s\<lparr>puf_in := tl (puf_in s), pu_header := h\<rparr>;
            s = (if pu_metaWritten s \<and> udp_getDstPort (ph_header h) = regListenPort \<and> 8 * W \<le> 64
                 then s\<lparr>puf_out := puf_out s @ [w]\<rparr> else s);
            s = (if ph_ready h then
                   (let dstPort = udp_getDstPort (ph_header h);
                        s = (if dstPort = regListenPort \<and> 64 < 8 * W then s\<lparr>puf_out := puf_out s @ [w]\<rparr> else s) in
                    if \<not> pu_metaWritten s
                    then s\<lparr>puf_meta := puf_meta s @ [pu_meta regListenPort (ph_header h)], pu_metaWritten := True\<rparr>
                    else s)
                 else s) in
        if ax_last w then s\<lparr>pu_metaWritten := False, pu_header := ph_clear h\<rparr> else s)
     else s)"

text \<open>\<^verbatim>\<open>udp_rshiftWordByOctet\<close> is the text of \<open>rshiftWordByOctet\<close> a second time.\<close>

definition udp_rshiftWordByOctet :: "nat \<Rightarrow> nat \<Rightarrow> rw_st \<Rightarrow> rw_st" where
  "udp_rshiftWordByOctet = rshiftWordByOctet"

record mrm_st =
  mrmf_ip :: "ipv4Meta fifo"
  mrmf_udp :: "udpMeta fifo"
  mrmf_out :: "ipUdpMeta fifo"

definition merge_rx_meta :: "mrm_st \<Rightarrow> mrm_st" where
  "merge_rx_meta s =
    (if mrmf_ip s \<noteq> [] \<and> mrmf_udp s \<noteq> [] then
       (let meta0 = hd (mrmf_ip s); meta1 = hd (mrmf_udp s) in
        s\<lparr>mrmf_ip := tl (mrmf_ip s), mrmf_udp := tl (mrmf_udp s),
          mrmf_out := mrmf_out s @ (if udm_valid meta1
            then [\<lparr>ium_their_address = ucast (ipm_their_address meta0), ium_their_port = udm_their_port meta1,
                   ium_my_port = udm_my_port meta1, ium_length = udm_length meta1\<rparr>]
            else [])\<rparr>)
     else s)"

subsection \<open>The sending side\<close>

record stm_st =
  stmf_in :: "ipUdpMeta fifo"
  stmf_ip :: "ipv4Meta fifo"
  stmf_udp :: "udpMeta fifo"

definition split_tx_meta :: "stm_st \<Rightarrow> stm_st" where
  "split_tx_meta s =
    (if stmf_in s \<noteq> [] then
       (let meta = hd (stmf_in s); tempLen = ium_length meta + 8 in
        s\<lparr>stmf_in := tl (stmf_in s),
          stmf_ip := stmf_ip s @ [ipv4Meta_wide (ium_their_address meta) tempLen],
          stmf_udp := stmf_udp s @ [\<lparr>udm_their_port = ium_their_port meta, udm_my_port = ium_my_port meta,
            udm_length = tempLen, udm_valid = True\<rparr>]\<rparr>)
     else s)"

text \<open>\<^verbatim>\<open>udp_lshiftWordByOctet\<close> is the text of \<open>lshiftWordByOctet\<close> a second time.\<close>

definition udp_lshiftWordByOctet :: "nat \<Rightarrow> nat \<Rightarrow> lw_st \<Rightarrow> lw_st" where
  "udp_lshiftWordByOctet = lshiftWordByOctet"

definition udp_fill :: "udpMeta \<Rightarrow> 64 word \<Rightarrow> 64 word" where
  "udp_fill meta h = udp_setLength (udm_length meta) (udp_setSrcPort (udm_my_port meta) (udp_setDstPort (udm_their_port meta) h))"

definition generate_udp :: "nat \<Rightarrow> lane list \<Rightarrow> (udpMeta, 64) gen_st \<Rightarrow> (udpMeta, 64) gen_st" where
  "generate_udp W u = gen_step W udp_fill u"

subsection \<open>The module\<close>

text \<open>
  The processes with their streams. Every stream belongs to the process that reads it, and what a process has written
  goes to the reader after its step; the streams that leave the module stay with the writer: the metadata and the
  data received are \<open>mrmf_out\<close> and \<open>rwf_out\<close>, the metadata for IP and the packets sent \<open>stmf_ip\<close> and \<open>genf_out\<close>.
\<close>

record udp_st =
  us_pu :: pu_st
  us_rw :: rw_st
  us_mrm :: mrm_st
  us_stm :: stm_st
  us_lw :: lw_st
  us_gen :: "(udpMeta, 64) gen_st"

datatype udp_proc = ProcessUdp | UdpRshift | MergeRxMeta | SplitTxMeta | UdpLshift | GenerateUdp

definition pu_deliver :: "pu_st \<Rightarrow> udp_st \<Rightarrow> udp_st" where
  "pu_deliver p s = s\<lparr>us_pu := p\<lparr>puf_out := [], puf_meta := []\<rparr>,
     us_rw := (us_rw s)\<lparr>rwf_in := rwf_in (us_rw s) @ puf_out p\<rparr>,
     us_mrm := (us_mrm s)\<lparr>mrmf_udp := mrmf_udp (us_mrm s) @ puf_meta p\<rparr>\<rparr>"

definition stm_deliver :: "stm_st \<Rightarrow> udp_st \<Rightarrow> udp_st" where
  "stm_deliver p s = s\<lparr>us_stm := p\<lparr>stmf_udp := []\<rparr>,
     us_gen := (us_gen s)\<lparr>genf_meta := genf_meta (us_gen s) @ stmf_udp p\<rparr>\<rparr>"

definition lw_deliver :: "lw_st \<Rightarrow> udp_st \<Rightarrow> udp_st" where
  "lw_deliver p s = s\<lparr>us_lw := p\<lparr>lwf_out := []\<rparr>, us_gen := (us_gen s)\<lparr>genf_in := genf_in (us_gen s) @ lwf_out p\<rparr>\<rparr>"

definition udp_act :: "nat \<Rightarrow> u16 \<Rightarrow> lane list \<Rightarrow> udp_proc \<Rightarrow> udp_st \<Rightarrow> udp_st" where
  "udp_act W reg_listen_port u p s =
    (case p of
       ProcessUdp \<Rightarrow> pu_deliver (process_udp W reg_listen_port (us_pu s)) s
     | UdpRshift \<Rightarrow> s\<lparr>us_rw := udp_rshiftWordByOctet W (8 mod W) (us_rw s)\<rparr>
     | MergeRxMeta \<Rightarrow> s\<lparr>us_mrm := merge_rx_meta (us_mrm s)\<rparr>
     | SplitTxMeta \<Rightarrow> stm_deliver (split_tx_meta (us_stm s)) s
     | UdpLshift \<Rightarrow> lw_deliver (udp_lshiftWordByOctet W (8 mod W) (us_lw s)) s
     | GenerateUdp \<Rightarrow> s\<lparr>us_gen := generate_udp W u (us_gen s)\<rparr>)"

text \<open>One call of the module runs each process once, in the order of the code.\<close>

definition udp :: "nat \<Rightarrow> u16 \<Rightarrow> lane list \<Rightarrow> udp_st \<Rightarrow> udp_st" where
  "udp W reg_listen_port u =
     fold (udp_act W reg_listen_port u) [ProcessUdp, UdpRshift, MergeRxMeta, SplitTxMeta, UdpLshift, GenerateUdp]"

subsection \<open>The order of the processes does not matter\<close>

definition pu_can :: "pu_st \<Rightarrow> bool" where
  "pu_can s \<longleftrightarrow> puf_in s \<noteq> [] \<or> puf_out s \<noteq> [] \<or> puf_meta s \<noteq> []"

definition rw_can :: "rw_st \<Rightarrow> bool" where
  "rw_can s \<longleftrightarrow> rw_remainder s \<or> rwf_in s \<noteq> []"

definition mrm_can :: "mrm_st \<Rightarrow> bool" where
  "mrm_can s \<longleftrightarrow> mrmf_ip s \<noteq> [] \<and> mrmf_udp s \<noteq> []"

definition stm_can :: "stm_st \<Rightarrow> bool" where
  "stm_can s \<longleftrightarrow> stmf_in s \<noteq> [] \<or> stmf_udp s \<noteq> []"

definition lw_can :: "lw_st \<Rightarrow> bool" where
  "lw_can s \<longleftrightarrow> lw_writeRemainder s \<or> lwf_in s \<noteq> [] \<or> lwf_out s \<noteq> []"

definition udp_can :: "udp_proc \<Rightarrow> udp_st \<Rightarrow> bool" where
  "udp_can p s = (case p of ProcessUdp \<Rightarrow> pu_can (us_pu s) | UdpRshift \<Rightarrow> rw_can (us_rw s) | MergeRxMeta \<Rightarrow> mrm_can (us_mrm s)
     | SplitTxMeta \<Rightarrow> stm_can (us_stm s) | UdpLshift \<Rightarrow> lw_can (us_lw s) | GenerateUdp \<Rightarrow> gen_can (us_gen s))"

lemma rw_idle: "\<not> rw_can s \<Longrightarrow> rshiftWordByOctet W off s = s"
  by (simp add: rw_can_def rshiftWordByOctet_def)

lemma rw_more:
  "rw_can s \<Longrightarrow> rshiftWordByOctet W off (s\<lparr>rwf_in := rwf_in s @ ws\<rparr>)
     = (rshiftWordByOctet W off s)\<lparr>rwf_in := rwf_in (rshiftWordByOctet W off s) @ ws\<rparr>"
  by (auto simp: rw_can_def rshiftWordByOctet_def Let_def)

lemma mrm_more:
  "mrm_can s \<Longrightarrow> merge_rx_meta (s\<lparr>mrmf_udp := mrmf_udp s @ ms\<rparr>)
     = (merge_rx_meta s)\<lparr>mrmf_udp := mrmf_udp (merge_rx_meta s) @ ms\<rparr>"
  by (simp add: mrm_can_def merge_rx_meta_def Let_def)

lemma gen_more_meta:
  "gen_can s \<Longrightarrow> gen_step W fill u (s\<lparr>genf_meta := genf_meta s @ ms\<rparr>)
     = (gen_step W fill u s)\<lparr>genf_meta := genf_meta (gen_step W fill u s) @ ms\<rparr>"
  using gen_more_in[of s W fill u "[]" ms] by simp

lemma gen_more_data:
  "gen_can s \<Longrightarrow> gen_step W fill u (s\<lparr>genf_in := genf_in s @ ws\<rparr>)
     = (gen_step W fill u s)\<lparr>genf_in := genf_in (gen_step W fill u s) @ ws\<rparr>"
  using gen_more_in[of s W fill u ws "[]"] by simp

lemma more_can:
  "rw_can s \<Longrightarrow> rw_can (s\<lparr>rwf_in := rwf_in s @ ws\<rparr>)"
  "mrm_can m \<Longrightarrow> mrm_can (m\<lparr>mrmf_udp := mrmf_udp m @ us\<rparr>)"
  "gen_can (g :: ('m, 'h::len) gen_st) \<Longrightarrow> gen_can (g\<lparr>genf_meta := genf_meta g @ ms\<rparr>)"
  "gen_can (g :: ('m, 'h::len) gen_st) \<Longrightarrow> gen_can (g\<lparr>genf_in := genf_in g @ ws\<rparr>)"
  using gen_more_can[of g "[]" ms] gen_more_can[of g ws "[]"] by (auto simp: rw_can_def mrm_can_def)

lemmas udp_network = udp_act_def udp_can_def pu_deliver_def stm_deliver_def lw_deliver_def udp_rshiftWordByOctet_def
  udp_lshiftWordByOctet_def generate_udp_def

lemma udp_idle: "\<not> udp_can p s \<Longrightarrow> udp_act W port u p s = s"
proof (cases p)
  case ProcessUdp
  assume "\<not> udp_can p s"
  then have "process_udp W port (us_pu s) = us_pu s" "puf_out (us_pu s) = []" "puf_meta (us_pu s) = []"
    using ProcessUdp by (simp_all add: udp_network pu_can_def process_udp_def)
  then show ?thesis using ProcessUdp by (simp add: udp_network)
next
  case SplitTxMeta
  assume "\<not> udp_can p s"
  then have "split_tx_meta (us_stm s) = us_stm s" "stmf_udp (us_stm s) = []"
    using SplitTxMeta by (simp_all add: udp_network stm_can_def split_tx_meta_def)
  then show ?thesis using SplitTxMeta by (simp add: udp_network)
next
  case UdpLshift
  assume "\<not> udp_can p s"
  then have "lshiftWordByOctet W (8 mod W) (us_lw s) = us_lw s" "lwf_out (us_lw s) = []"
    using UdpLshift by (simp_all add: udp_network lw_can_def lshiftWordByOctet_def)
  then show ?thesis using UdpLshift by (simp add: udp_network)
qed (auto simp: udp_network rw_idle gen_idle merge_rx_meta_def mrm_can_def)

interpretation uds: dataflow "\<lambda>_. True" udp_can "udp_act W port u" for W port u
proof
  fix p q and s :: udp_st
  show "\<not> udp_can p s \<Longrightarrow> udp_act W port u p s = s" by (rule udp_idle)
  assume a: "p \<noteq> q" "udp_can p s" "udp_can q s"
  show "udp_can p (udp_act W port u q s)"
    using a by (cases p; cases q) (simp_all add: udp_network more_can)
  show "udp_act W port u p (udp_act W port u q s) = udp_act W port u q (udp_act W port u p s)"
    using a by (cases p; cases q) (simp_all add: udp_network rw_more mrm_more gen_more_meta gen_more_data)
qed

end
