(* ===== verification/Udp_Trip.thy ===== *)
theory Udp_Trip
  imports Udp
begin

text \<open>
  What the UDP module does with a datagram: the processes one after the other, and from there, by the law of the
  network, the module under every schedule.
\<close>

subsection \<open>The header is read\<close>

definition pu_idle :: "pu_st \<Rightarrow> bool" where
  "pu_idle s \<longleftrightarrow> \<not> pu_metaWritten s \<and> \<not> ph_ready (pu_header s) \<and> ph_idx (pu_header s) = 0"

lemma pu_rest:
  assumes "packet W ws bs" and "puf_in s = ws @ rest" and "pu_metaWritten s" and "ph_ready (pu_header s)"
    and "x = ph_header (pu_header s)" and "t = (process_udp W port ^^ length ws) s"
  shows "pu_idle t \<and> puf_in t = rest \<and> puf_meta t = puf_meta s
    \<and> puf_out t = puf_out s @ (if udp_getDstPort x = port then ws else [])"
  using assms
proof (induction ws arbitrary: s bs)
  case (Cons w ws)
  define u where "u = process_udp W port s"
  have u: "puf_in u = ws @ rest" "puf_meta u = puf_meta s" "pu_metaWritten u = (\<not> ax_last w)"
    "puf_out u = puf_out s @ (if udp_getDstPort x = port then [w] else [])"
    "pu_header u = (if ax_last w then ph_clear (pu_header s) else pu_header s)"
    using Cons.prems(2-5) by (auto simp: u_def process_udp_def Let_def parse_ready not_le)
  have run: "t = (process_udp W port ^^ length ws) u"
    using Cons.prems(6) by (simp add: funpow_Suc_right u_def del: funpow.simps)
  show ?case
  proof (cases "ws = []")
    case True
    then have "ax_last w" using Cons.prems(1) by (simp add: packet_single)
    then show ?thesis using True u run by (simp add: pu_idle_def ph_clear_def)
  next
    case False
    then have p: "\<not> ax_last w" "packet W ws (drop W bs)" using Cons.prems(1) by (simp_all add: packet_cons)
    then show ?thesis using Cons.IH[OF p(2) u(1) _ _ _ run] u Cons.prems(4,5) by simp
  qed
qed simp

text \<open>Of a datagram for the port the words are handed on, on 64 bits without the first; of any other one none is.\<close>

lemma pu_packet:
  assumes "8 \<le> W" and "packet W ws bs" and "8 \<le> length bs" and "puf_in s = ws @ rest" and "pu_idle s"
    and "header_bytes (x :: 64 word) = take 8 bs" and "t = (process_udp W port ^^ length ws) s"
  shows "pu_idle t \<and> puf_in t = rest \<and> puf_meta t = puf_meta s @ [pu_meta port x]
    \<and> puf_out t = puf_out s @ (if udp_getDstPort x = port then drop (8 div W) ws else [])"
proof -
  obtain w ws' where ws: "ws = w # ws'" using packet_nonempty[OF assms(2)] by (cases ws) auto
  define h where "h = parseWord W (ax_lanes w) (pu_header s)"
  have "parsed W 0 bs (pu_header s)" using assms(5) by (simp add: parsed_def pu_idle_def)
  moreover have "word_of W 8 0 bs (ax_lanes w)"
    using word_of_less[OF packet_nth(1)[OF assms(2), of 0] assms(3)] ws by simp
  ultimately have h: "ph_ready h" "header_bytes (ph_header h) = take 8 bs"
    using parse_end[of W 0 bs "pu_header s" 8 "ax_lanes w"] assms(1,3) by (simp_all add: h_def)
  have x: "ph_header h = x" by (rule header_bytes_inj[of 8]) (simp_all add: h(2) assms(6))
  define u where "u = process_udp W port s"
  have u: "puf_in u = ws' @ rest" "pu_metaWritten u = (\<not> ax_last w)" "pu_header u = (if ax_last w then ph_clear h else h)"
    "puf_meta u = puf_meta s @ [pu_meta port x]"
    "puf_out u = puf_out s @ (if udp_getDstPort x = port \<and> 8 < W then [w] else [])"
    using assms(4,5) ws h(1) x by (auto simp: u_def process_udp_def Let_def pu_idle_def simp flip: h_def)
  have run: "t = (process_udp W port ^^ length ws') u"
    by (simp add: assms(7) ws funpow_Suc_right u_def del: funpow.simps)
  have skip: "drop (8 div W) ws = (if 8 < W then [w] else []) @ ws'" using assms(1) ws by (cases "W = 8") simp_all
  show ?thesis
  proof (cases "ws' = []")
    case True
    then have "ax_last w" using assms(2) ws by (simp add: packet_single)
    then show ?thesis using True run u skip by (simp add: pu_idle_def ph_clear_def)
  next
    case False
    then have p: "\<not> ax_last w" "packet W ws' (drop W bs)" using assms(2) ws by (simp_all add: packet_cons)
    then show ?thesis using pu_rest[OF p(2) u(1) _ _ _ run] u h(1) x skip by simp
  qed
qed

subsection \<open>Steps of one process in the network\<close>

lemma pu_outputs:
  "process_udp W port s = (process_udp W port (s\<lparr>puf_out := [], puf_meta := []\<rparr>))\<lparr>puf_out := puf_out s @ puf_out (process_udp W port (s\<lparr>puf_out := [], puf_meta := []\<rparr>)), puf_meta := puf_meta s @ puf_meta (process_udp W port (s\<lparr>puf_out := [], puf_meta := []\<rparr>))\<rparr>"
  by (simp add: process_udp_def Let_def)

lemma run_process_udp:
  assumes "puf_out (us_pu s) = []" and "puf_meta (us_pu s) = []"
  shows "(udp_act W port u ProcessUdp ^^ k) s = pu_deliver ((process_udp W port ^^ k) (us_pu s)) s"
proof (rule run_stage[where clear = "\<lambda>p. p\<lparr>puf_out := [], puf_meta := []\<rparr>"
      and join = "\<lambda>p q. q\<lparr>puf_out := puf_out p @ puf_out q, puf_meta := puf_meta p @ puf_meta q\<rparr>"])
  show "process_udp W port p = (process_udp W port (p\<lparr>puf_out := [], puf_meta := []\<rparr>))\<lparr>puf_out := puf_out p @ puf_out (process_udp W port (p\<lparr>puf_out := [], puf_meta := []\<rparr>)), puf_meta := puf_meta p @ puf_meta (process_udp W port (p\<lparr>puf_out := [], puf_meta := []\<rparr>))\<rparr>" for p by (rule pu_outputs)
  have "(us_pu s)\<lparr>puf_out := [], puf_meta := []\<rparr> = us_pu s" using assms by simp
  then show "pu_deliver (us_pu s) s = s" using assms by (simp add: pu_deliver_def)
qed (simp_all add: udp_act_def pu_deliver_def Let_def)

lemma lw_outputs:
  "lshiftWordByOctet W off s = (lshiftWordByOctet W off (s\<lparr>lwf_out := []\<rparr>))\<lparr>lwf_out := lwf_out s @ lwf_out (lshiftWordByOctet W off (s\<lparr>lwf_out := []\<rparr>))\<rparr>"
  by (simp add: lshiftWordByOctet_def Let_def)

lemma run_udp_lshift:
  assumes "lwf_out (us_lw s) = []"
  shows "(udp_act W port u UdpLshift ^^ k) s = lw_deliver ((udp_lshiftWordByOctet W (8 mod W) ^^ k) (us_lw s)) s"
proof (rule run_stage[where clear = "\<lambda>p. p\<lparr>lwf_out := []\<rparr>" and join = "\<lambda>p q. q\<lparr>lwf_out := lwf_out p @ lwf_out q\<rparr>"])
  show "udp_lshiftWordByOctet W (8 mod W) p = (udp_lshiftWordByOctet W (8 mod W) (p\<lparr>lwf_out := []\<rparr>))\<lparr>lwf_out := lwf_out p @ lwf_out (udp_lshiftWordByOctet W (8 mod W) (p\<lparr>lwf_out := []\<rparr>))\<rparr>" for p unfolding udp_lshiftWordByOctet_def by (rule lw_outputs)
  have "(us_lw s)\<lparr>lwf_out := []\<rparr> = us_lw s" using assms by simp
  then show "lw_deliver (us_lw s) s = s" using assms by (simp add: lw_deliver_def)
qed (simp_all add: udp_act_def lw_deliver_def)

lemma run_udp_rshift:
  "(udp_act W port u UdpRshift ^^ k) s = s\<lparr>us_rw := (udp_rshiftWordByOctet W (8 mod W) ^^ k) (us_rw s)\<rparr>"
  by (induction k) (simp_all add: udp_act_def)

lemma run_generate_udp:
  "(udp_act W port u GenerateUdp ^^ k) s = s\<lparr>us_gen := (generate_udp W u ^^ k) (us_gen s)\<rparr>"
  by (induction k) (simp_all add: udp_act_def)

subsection \<open>The module at rest\<close>

definition udp_rx_rest :: "nat \<Rightarrow> udp_st \<Rightarrow> bool" where
  "udp_rx_rest W s \<longleftrightarrow> pu_idle (us_pu s) \<and> puf_in (us_pu s) = [] \<and> puf_out (us_pu s) = [] \<and> puf_meta (us_pu s) = []
     \<and> \<not> rw_remainder (us_rw s) \<and> rw_firstWord (us_rw s) = (8 mod W \<noteq> 0) \<and> rwf_in (us_rw s) = [] \<and> mrmf_ip (us_mrm s) = []
     \<and> mrmf_udp (us_mrm s) = []"

definition udp_tx_rest :: "udp_st \<Rightarrow> bool" where
  "udp_tx_rest s \<longleftrightarrow> stmf_in (us_stm s) = [] \<and> stmf_udp (us_stm s) = [] \<and> \<not> lw_writeRemainder (us_lw s) \<and> lw_firstWord (us_lw s)
     \<and> lwf_in (us_lw s) = [] \<and> lwf_out (us_lw s) = [] \<and> gen_state (us_gen s) = GEN_META \<and> genf_meta (us_gen s) = []
     \<and> genf_in (us_gen s) = []"

lemma rest_quiet: "udp_rx_rest W s \<Longrightarrow> udp_tx_rest s \<Longrightarrow> uds.quiet s"
  unfolding uds.quiet_def
  by (intro allI, case_tac p) (simp_all add: udp_can_def udp_rx_rest_def udp_tx_rest_def pu_can_def rw_can_def mrm_can_def
      stm_can_def lw_can_def gen_can_def)

text \<open>Datagrams to send are put on the streams of a module, and packets that arrive, with their metadata from IP.\<close>

definition udp_put :: "ipUdpMeta list \<Rightarrow> net_axis list \<Rightarrow> udp_st \<Rightarrow> udp_st" where
  "udp_put ms ws s = s\<lparr>us_stm := (us_stm s)\<lparr>stmf_in := stmf_in (us_stm s) @ ms\<rparr>,
     us_lw := (us_lw s)\<lparr>lwf_in := lwf_in (us_lw s) @ ws\<rparr>\<rparr>"

definition udp_arrive :: "ipv4Meta list \<Rightarrow> net_axis list \<Rightarrow> udp_st \<Rightarrow> udp_st" where
  "udp_arrive ims ws s = s\<lparr>us_mrm := (us_mrm s)\<lparr>mrmf_ip := mrmf_ip (us_mrm s) @ ims\<rparr>,
     us_pu := (us_pu s)\<lparr>puf_in := puf_in (us_pu s) @ ws\<rparr>\<rparr>"

text \<open>The header a datagram with the metadata \<open>m\<close> goes out with; \<open>h\<close> is the header sent before.\<close>

definition udp_header :: "ipUdpMeta \<Rightarrow> 64 word \<Rightarrow> 64 word" where
  "udp_header m h = udp_fill \<lparr>udm_their_port = ium_their_port m, udm_my_port = ium_my_port m, udm_length = ium_length m + 8,
     udm_valid = True\<rparr> h"

lemma udp_header_fields:
  "udp_getSrcPort (udp_header m h) = ium_my_port m" "udp_getDstPort (udp_header m h) = ium_their_port m"
  "udp_getLength (udp_header m h) = ium_length m + 8"
  by (simp_all add: udp_header_def udp_fill_def udp_getSrcPort_def udp_getDstPort_def udp_getLength_def udp_setSrcPort_def
      udp_setDstPort_def udp_setLength_def range_get_set_same range_get_set_other)

definition udp_sent :: "nat \<Rightarrow> ipUdpMeta \<Rightarrow> byte list \<Rightarrow> udp_st \<Rightarrow> udp_st \<Rightarrow> bool" where
  "udp_sent W m bs s t \<longleftrightarrow> udp_rx_rest W t \<and> udp_tx_rest t
     \<and> stmf_ip (us_stm t) = stmf_ip (us_stm s) @ [ipv4Meta_wide (ium_their_address m) (ium_length m + 8)]
     \<and> (\<exists>out. genf_out (us_gen t) = genf_out (us_gen s) @ out
          \<and> packet W out (header_bytes (udp_header m (ph_header (gen_header (us_gen s)))) @ bs))"

lemma udp_send_run:
  assumes "8 \<le> W" and "length u = W" and "udp_rx_rest W s" and "udp_tx_rest s" and "packet W ws bs"
  shows "\<exists>ps. udp_sent W m bs s (fold (udp_act W port u) ps (udp_put [m] ws s))"
proof -
  have r: "stmf_in (us_stm s) = []" "stmf_udp (us_stm s) = []" "\<not> lw_writeRemainder (us_lw s)" "lw_firstWord (us_lw s)"
    "lwf_in (us_lw s) = []" "lwf_out (us_lw s) = []" "gen_state (us_gen s) = GEN_META" "genf_meta (us_gen s) = []"
    "genf_in (us_gen s) = []" using assms(4) by (simp_all add: udp_tx_rest_def)
  define um where "um = \<lparr>udm_their_port = ium_their_port m, udm_my_port = ium_my_port m, udm_length = ium_length m + 8,
     udm_valid = True\<rparr>"
  define l where "l = (us_lw s)\<lparr>lwf_in := ws\<rparr>"
  have lt: "8 mod W < W" "8 mod W \<le> 32" using assms(1) by (simp_all add: mod_le_divisor le_trans[OF mod_less_eq_dividend])
  obtain k out where k: "packet W out (replicate (8 mod W) 0 @ bs)"
    "lw_done l [] out ((lshiftWordByOctet W (8 mod W) ^^ k) l)"
    using lshift_prepends[OF assms(5) lt, of l "[]"] r by (auto simp: l_def)
  define l' where "l' = (lshiftWordByOctet W (8 mod W) ^^ k) l"
  have l': "\<not> lw_writeRemainder l'" "lw_firstWord l'" "lwf_in l' = []" "lwf_out l' = out"
    using k(2) r by (simp_all add: lw_done_def l'_def l_def)
  define g where "g = (us_gen s)\<lparr>genf_meta := [um], genf_in := out\<rparr>"
  obtain j where j: "gen_done W g [] [] (header_bytes (udp_fill um (ph_header (gen_header g))) @ bs)
      (udp_fill um (ph_header (gen_header g))) ((gen_step W udp_fill u ^^ j) g)"
    using gen_packet[of g um "[]" 8 W u out bs "[]", OF _ _ _ _ _ _ assms(2) k(1) _ refl] r assms(1) by (force simp: g_def)
  define s1 where "s1 = udp_act W port u SplitTxMeta (udp_put [m] ws s)"
  have s1: "s1 = s\<lparr>us_stm := \<lparr>stmf_in = [], stmf_ip = stmf_ip (us_stm s) @ [ipv4Meta_wide (ium_their_address m) (ium_length m + 8)],
      stmf_udp = []\<rparr>,
      us_lw := l, us_gen := (us_gen s)\<lparr>genf_meta := [um]\<rparr>\<rparr>"
    using r by (simp add: s1_def udp_act_def udp_put_def stm_deliver_def split_tx_meta_def Let_def l_def um_def)
  define s2 where "s2 = (udp_act W port u UdpLshift ^^ k) s1"
  have s2: "s2 = s1\<lparr>us_lw := l'\<lparr>lwf_out := []\<rparr>, us_gen := g\<rparr>"
    using run_udp_lshift[where s = s1 and W = W and port = port and u = u and k = k] r l'(4)
    by (simp add: s2_def s1 l_def lw_deliver_def udp_lshiftWordByOctet_def g_def flip: l'_def[unfolded l_def])
  define t where "t = (udp_act W port u GenerateUdp ^^ j) s2"
  have t: "t = s2\<lparr>us_gen := (gen_step W udp_fill u ^^ j) g\<rparr>"
    using run_generate_udp[where k = j and W = W and port = port and u = u and s = s2] by (simp add: t_def s2 generate_udp_def)
  have "fold (udp_act W port u) (SplitTxMeta # replicate k UdpLshift @ replicate j GenerateUdp) (udp_put [m] ws s) = t"
    by (simp add: run_replicate t_def s2_def s1_def)
  moreover have "udp_sent W m bs s t"
    using assms(3) r j l' by (simp add: udp_sent_def t s2 s1 udp_rx_rest_def udp_tx_rest_def gen_done_def g_def um_def udp_header_def)
  ultimately show ?thesis by blast
qed

subsection \<open>A datagram arrives\<close>

text \<open>What is received of a datagram with the header \<open>x\<close> and the payload \<open>bs\<close>: nothing when it is for another port.\<close>

definition udp_received :: "nat \<Rightarrow> u16 \<Rightarrow> ipv4Meta \<Rightarrow> 64 word \<Rightarrow> byte list \<Rightarrow> udp_st \<Rightarrow> udp_st \<Rightarrow> bool" where
  "udp_received W port im x bs s t \<longleftrightarrow> udp_rx_rest W t \<and> udp_tx_rest t
     \<and> (if udp_getDstPort x = port
        then mrmf_out (us_mrm t) = mrmf_out (us_mrm s) @ [\<lparr>ium_their_address = ucast (ipm_their_address im),
               ium_their_port = udp_getSrcPort x, ium_my_port = port, ium_length = udp_getLength x\<rparr>]
             \<and> (\<exists>out. rwf_out (us_rw t) = rwf_out (us_rw s) @ out \<and> packet W out bs)
        else mrmf_out (us_mrm t) = mrmf_out (us_mrm s) \<and> rwf_out (us_rw t) = rwf_out (us_rw s))"

lemma rw_datagram:
  assumes "8 \<le> W" and "packet W ws bs" and "8 < length bs" and "\<not> rw_remainder r" and "rw_firstWord r = (8 mod W \<noteq> 0)"
    and "rwf_in r = drop (8 div W) ws"
  shows "\<exists>k out. packet W out (drop 8 bs) \<and> rw_done (8 mod W) r [] out ((rshiftWordByOctet W (8 mod W) ^^ k) r)"
proof (cases "W = 8")
  case True
  have "Suc 0 < length ws" by (rule packet_longer[OF assms(2)]) (use True assms(3) in simp)
  from packet_drop[OF assms(2) this] have "packet W (drop 1 ws) (drop 8 bs)" using True by simp
  then show ?thesis using rshift_drops[of W "drop 1 ws" "drop 8 bs" 0 r "[]"] True assms(3-6) by (auto simp: packet_nonempty)
next
  case False
  then have "8 < W" using assms(1) by simp
  then show ?thesis using rshift_drops[of W ws bs 8 r "[]"] assms by auto
qed

lemma udp_receive_run:
  assumes "8 \<le> W" and "udp_rx_rest W s" and "udp_tx_rest s" and "packet W ws (header_bytes x @ bs)" and "bs \<noteq> []"
  shows "\<exists>ps. udp_received W port im x bs s (fold (udp_act W port u) ps (udp_arrive [im] ws s))"
proof -
  have r: "pu_idle (us_pu s)" "puf_in (us_pu s) = []" "puf_out (us_pu s) = []" "puf_meta (us_pu s) = []"
    "\<not> rw_remainder (us_rw s)" "rw_firstWord (us_rw s) = (8 mod W \<noteq> 0)" "rwf_in (us_rw s) = []" "mrmf_ip (us_mrm s) = []"
    "mrmf_udp (us_mrm s) = []" using assms(2) by (simp_all add: udp_rx_rest_def)
  define a where "a = udp_arrive [im] ws s"
  define p where "p = (process_udp W port ^^ length ws) (us_pu a)"
  have p: "pu_idle p" "puf_in p = []" "puf_meta p = [pu_meta port x]"
    "puf_out p = (if udp_getDstPort x = port then drop (8 div W) ws else [])"
    using pu_packet[OF assms(1,4), of "us_pu a" "[]" x p port] r by (simp_all add: a_def udp_arrive_def p_def pu_idle_def)
  define s1 where "s1 = (udp_act W port u ProcessUdp ^^ length ws) a"
  have s1: "s1 = pu_deliver p a"
    using run_process_udp[where s = a and W = W and port = port and u = u and k = "length ws"] r
    by (simp add: s1_def p_def a_def udp_arrive_def)
  obtain k q where q: "(rshiftWordByOctet W (8 mod W) ^^ k) (us_rw s1) = q" "\<not> rw_remainder q" "rw_firstWord q = (8 mod W \<noteq> 0)"
    "rwf_in q = []" "if udp_getDstPort x = port then \<exists>out. rwf_out q = rwf_out (us_rw s) @ out \<and> packet W out bs
       else rwf_out q = rwf_out (us_rw s)"
  proof (cases "udp_getDstPort x = port")
    case True
    have "8 < length (header_bytes x @ bs)" using assms(5) by simp
    from rw_datagram[OF assms(1,4) this, of "us_rw s1"] obtain k out where "packet W out bs"
      "rw_done (8 mod W) (us_rw s1) [] out ((rshiftWordByOctet W (8 mod W) ^^ k) (us_rw s1))"
      using True r p by (auto simp: s1 a_def pu_deliver_def udp_arrive_def)
    then show ?thesis using that[of k] True r by (auto simp: rw_done_def s1 a_def pu_deliver_def udp_arrive_def)
  next
    case False
    then show ?thesis using that[of 0] r p by (simp add: s1 a_def pu_deliver_def udp_arrive_def)
  qed
  define s2 where "s2 = (udp_act W port u UdpRshift ^^ k) s1"
  have s2: "s2 = s1\<lparr>us_rw := q\<rparr>"
    using run_udp_rshift[where k = k and W = W and port = port and u = u and s = s1] q(1)
    by (simp add: s2_def udp_rshiftWordByOctet_def)
  define t where "t = udp_act W port u MergeRxMeta s2"
  have "fold (udp_act W port u) (replicate (length ws) ProcessUdp @ replicate k UdpRshift @ [MergeRxMeta]) (udp_arrive [im] ws s) = t"
    by (simp add: run_replicate t_def s2_def s1_def a_def)
  moreover have "udp_received W port im x bs s t"
    using assms(3) r p q
    by (auto simp: udp_received_def t_def udp_act_def s2 s1 a_def pu_deliver_def udp_arrive_def udp_rx_rest_def udp_tx_rest_def
        merge_rx_meta_def pu_meta_def Let_def pu_idle_def)
  ultimately show ?thesis by blast
qed

subsection \<open>Every schedule\<close>

definition udp_run :: "nat \<Rightarrow> u16 \<Rightarrow> lane list \<Rightarrow> udp_proc list list \<Rightarrow> udp_st \<Rightarrow> udp_st" where
  "udp_run W port u rounds = fold (udp_act W port u) (concat rounds)"

text \<open>The calls of the module are one of the schedules.\<close>

lemma udp_calls:
  "(udp W port u ^^ k) s = udp_run W port u (replicate k [ProcessUdp, UdpRshift, MergeRxMeta, SplitTxMeta, UdpLshift, GenerateUdp]) s"
  unfolding udp_def udp_run_def by (rule calls_as_rounds)

lemma udp_calls_fair: "fair (replicate k [ProcessUdp, UdpRshift, MergeRxMeta, SplitTxMeta, UdpLshift, GenerateUdp])"
  by (intro calls_fair allI, case_tac p) simp_all

lemma udp_settles:
  assumes "udp_rx_rest W (fold (udp_act W port u) ps s)" and "udp_tx_rest (fold (udp_act W port u) ps s)"
  shows "\<exists>k. \<forall>rounds. fair rounds \<longrightarrow> k \<le> length rounds \<longrightarrow> udp_run W port u rounds s = fold (udp_act W port u) ps s"
  unfolding udp_run_def by (rule uds.all_schedules_agree[OF TrueI]) (rule rest_quiet[OF assms])

lemma udp_sends:
  assumes "8 \<le> W" and "length u = W" and "udp_rx_rest W s" and "udp_tx_rest s" and "packet W ws bs"
  shows "\<exists>k t. udp_sent W m bs s t
    \<and> (\<forall>rounds. fair rounds \<longrightarrow> k \<le> length rounds \<longrightarrow> udp_run W port u rounds (udp_put [m] ws s) = t)"
proof -
  obtain ps where ps: "udp_sent W m bs s (fold (udp_act W port u) ps (udp_put [m] ws s))"
    using udp_send_run[OF assms] by blast
  then show ?thesis using udp_settles[of W port u ps "udp_put [m] ws s"] unfolding udp_sent_def by blast
qed

lemma udp_receives:
  assumes "8 \<le> W" and "udp_rx_rest W s" and "udp_tx_rest s" and "packet W ws (header_bytes x @ bs)" and "bs \<noteq> []"
  shows "\<exists>k t. udp_received W port im x bs s t
    \<and> (\<forall>rounds. fair rounds \<longrightarrow> k \<le> length rounds \<longrightarrow> udp_run W port u rounds (udp_arrive [im] ws s) = t)"
proof -
  obtain ps where ps: "udp_received W port im x bs s (fold (udp_act W port u) ps (udp_arrive [im] ws s))"
    using udp_receive_run[OF assms] by blast
  then show ?thesis using udp_settles[of W port u ps "udp_arrive [im] ws s"] unfolding udp_received_def by blast
qed

text \<open>The metadata of a datagram received cannot be used to answer it: the address is in the low 32 bits of the field, and
  the sending side takes the high ones, so the answer goes to the address 0.\<close>

lemma udp_answer_address_lost:
  assumes "8 \<le> W" and "length u = W" and "udp_rx_rest W s" and "udp_tx_rest s" and "packet W ws bs"
    and "mrmf_ip r = [im]" and "mrmf_udp r = [um]" and "udm_valid um" and "mrmf_out r = []" and "mrmf_out (merge_rx_meta r) = [m]"
  shows "\<exists>k. \<forall>rounds. fair rounds \<and> k \<le> length rounds \<longrightarrow>
    stmf_ip (us_stm (udp_run W port u rounds (udp_put [m] ws s))) = stmf_ip (us_stm s) @
      [\<lparr>ipm_their_address = 0, ipm_length = udm_length um + 8\<rparr>]"
proof -
  have m: "m = \<lparr>ium_their_address = ucast (ipm_their_address im), ium_their_port = udm_their_port um, ium_my_port = udm_my_port um,
      ium_length = udm_length um\<rparr>"
    using assms(6-10) by (simp add: merge_rx_meta_def Let_def)
  have "range_get 127 96 (ucast a :: 128 word) = (0 :: u32)" for a :: u32
    by (intro bit_word_eqI) (auto simp: bit_range_get bit_simps dest: bit_imp_le_length)
  then have "ipv4Meta_wide (ium_their_address m) (ium_length m + 8) = \<lparr>ipm_their_address = 0, ipm_length = udm_length um + 8\<rparr>"
    by (simp add: ipv4Meta_wide_def m)
  then show ?thesis using udp_sends[OF assms(1-5), of m port] unfolding udp_sent_def by (metis (no_types))
qed

definition shift_demo :: "nat \<Rightarrow> rw_st" where
  "shift_demo off = \<lparr>rw_remainder = False, rw_firstWord = (off \<noteq> 0), rw_prev = \<lparr>ax_lanes = [], ax_last = False\<rparr>, rwf_in = [], rwf_out = []\<rparr>"

definition lshift_demo :: lw_st where
  "lshift_demo = \<lparr>lw_firstWord = True, lw_writeRemainder = False, lw_prev = \<lparr>ax_lanes = [], ax_last = False\<rparr>, lwf_in = [], lwf_out = []\<rparr>"

definition gen_demo :: "'h::len word \<Rightarrow> ('m, 'h) gen_st" where
  "gen_demo h = \<lparr>gen_state = GEN_META, gen_header = \<lparr>ph_ready = False, ph_idx = 0, ph_header = h\<rparr>, genf_meta = [], genf_in = [], genf_out = []\<rparr>"

text \<open>The module after reset, and a datagram of one byte on 64 bits.\<close>

definition udp_demo :: "nat \<Rightarrow> udp_st" where
  "udp_demo W = \<lparr>us_pu = \<lparr>pu_header = \<lparr>ph_ready = False, ph_idx = 0, ph_header = 0\<rparr>, pu_metaWritten = False, puf_in = [], puf_meta = [], puf_out = []\<rparr>,
     us_rw = shift_demo (8 mod W), us_mrm = \<lparr>mrmf_ip = [], mrmf_udp = [], mrmf_out = []\<rparr>, us_stm = \<lparr>stmf_in = [], stmf_ip = [], stmf_udp = []\<rparr>,
     us_lw = lshift_demo, us_gen = gen_demo 0\<rparr>"

definition udp_demo_word :: net_axis where
  "udp_demo_word = \<lparr>ax_lanes = (1, True) # replicate 7 (0, False), ax_last = True\<rparr>"

lemma udp_demo_rest: "udp_rx_rest W (udp_demo W)" "udp_tx_rest (udp_demo W)"
  by (simp_all add: udp_rx_rest_def udp_tx_rest_def udp_demo_def pu_idle_def shift_demo_def lshift_demo_def gen_demo_def)

lemma udp_demo_packet: "packet 8 [udp_demo_word] [1]"
  by (simp add: udp_demo_word_def packet_single)

lemma udp_answer_address_lost_witness:
  "\<exists>k. \<forall>rounds. fair rounds \<and> k \<le> length rounds \<longrightarrow>
    stmf_ip (us_stm (udp_run 8 7 (replicate 8 (0, False)) rounds (udp_put [\<lparr>ium_their_address = 0x0A000001, ium_their_port = 5,
      ium_my_port = 7, ium_length = 9\<rparr>] [udp_demo_word] (udp_demo 8)))) = [\<lparr>ipm_their_address = 0, ipm_length = 17\<rparr>]"
  using udp_answer_address_lost[where W = 8 and u = "replicate 8 (0, False)" and s = "udp_demo 8" and ws = "[udp_demo_word]"
      and bs = "[1]" and port = 7
      and r = "\<lparr>mrmf_ip = [\<lparr>ipm_their_address = 0x0A000001, ipm_length = 29\<rparr>], mrmf_udp = [\<lparr>udm_their_port = 5, udm_my_port = 7,
        udm_length = 9, udm_valid = True\<rparr>], mrmf_out = []\<rparr>"
      and im = "\<lparr>ipm_their_address = 0x0A000001, ipm_length = 29\<rparr>"
      and um = "\<lparr>udm_their_port = 5, udm_my_port = 7, udm_length = 9, udm_valid = True\<rparr>"
      and m = "\<lparr>ium_their_address = 0x0A000001, ium_their_port = 5, ium_my_port = 7, ium_length = 9\<rparr>"]
    udp_demo_rest[of 8] udp_demo_packet
  by (simp add: merge_rx_meta_def Let_def udp_demo_def)

end
