(* ===== verification/Ipv4.thy ===== *)
theory Ipv4
  imports Udp_Trip Rx_Ip
begin

text \<open>
  The IPv4 module (\<^verbatim>\<open>ipv4/ipv4.cpp\<close>): the four processes, the module as the network of them, and what it does
  with a packet under every schedule. \<open>W\<close> is the number of byte lanes of the streams.
\<close>

subsection \<open>The processes\<close>

definition ipv4_meta :: "160 word \<Rightarrow> ipv4Meta" where
  "ipv4_meta h = \<lparr>ipm_their_address = ip_getSrcAddr h, ipm_length = ip_getLength h\<rparr>"

definition process_ipv4 :: "nat \<Rightarrow> ipv4Meta pi_st \<Rightarrow> ipv4Meta pi_st" where
  "process_ipv4 W = read_ipv4_header W ipv4_meta"

text \<open>The next two are in the code the text of \<open>drop_optional_ip_header\<close> and \<open>lshiftWordByOctet\<close> a second time.\<close>

definition ipv4_drop_optional_ip_header :: "nat \<Rightarrow> doh_st \<Rightarrow> doh_st" where
  "ipv4_drop_optional_ip_header = drop_optional_ip_header"

definition ipv4_lshiftWordByOctet :: "nat \<Rightarrow> nat \<Rightarrow> lw_st \<Rightarrow> lw_st" where
  "ipv4_lshiftWordByOctet = lshiftWordByOctet"

definition ipv4_fill :: "u32 \<Rightarrow> 8 word \<Rightarrow> ipv4Meta \<Rightarrow> 160 word \<Rightarrow> 160 word" where
  "ipv4_fill local_ipv4_address protocol meta h =
     ip_setProtocol protocol (ip_setSrcAddr local_ipv4_address (ip_setDstAddr (ipm_their_address meta)
       (ip_setLength (ipm_length meta + 20) h)))"

definition ipv4_generate_ipv4 :: "nat \<Rightarrow> u32 \<Rightarrow> 8 word \<Rightarrow> lane list \<Rightarrow> (ipv4Meta, 160) gen_st \<Rightarrow> (ipv4Meta, 160) gen_st" where
  "ipv4_generate_ipv4 W local_ipv4_address protocol u = gen_step W (ipv4_fill local_ipv4_address protocol) u"

subsection \<open>The module\<close>

record ipv4_st =
  vs_pi :: "ipv4Meta pi_st"
  vs_doh :: doh_st
  vs_lw :: lw_st
  vs_gen :: "(ipv4Meta, 160) gen_st"

datatype ipv4_proc = ProcessIpv4 | DropOptions | Ipv4Lshift | GenerateIpv4

definition doh_feed :: "4 word list \<Rightarrow> net_axis list \<Rightarrow> doh_st \<Rightarrow> doh_st" where
  "doh_feed ns ws s = s\<lparr>dohf_length := dohf_length s @ ns, dohf_in := dohf_in s @ ws\<rparr>"

definition pi_deliver :: "ipv4Meta pi_st \<Rightarrow> ipv4_st \<Rightarrow> ipv4_st" where
  "pi_deliver p s = s\<lparr>vs_pi := p\<lparr>pif_dropLength := [], pif_out := []\<rparr>,
     vs_doh := doh_feed (pif_dropLength p) (pif_out p) (vs_doh s)\<rparr>"

definition ipv4_lw_deliver :: "lw_st \<Rightarrow> ipv4_st \<Rightarrow> ipv4_st" where
  "ipv4_lw_deliver p s = s\<lparr>vs_lw := p\<lparr>lwf_out := []\<rparr>, vs_gen := (vs_gen s)\<lparr>genf_in := genf_in (vs_gen s) @ lwf_out p\<rparr>\<rparr>"

definition ipv4_act :: "nat \<Rightarrow> u32 \<Rightarrow> 8 word \<Rightarrow> lane list \<Rightarrow> ipv4_proc \<Rightarrow> ipv4_st \<Rightarrow> ipv4_st" where
  "ipv4_act W local_ipv4_address protocol u p s =
    (case p of
       ProcessIpv4 \<Rightarrow> pi_deliver (process_ipv4 W (vs_pi s)) s
     | DropOptions \<Rightarrow> s\<lparr>vs_doh := ipv4_drop_optional_ip_header W (vs_doh s)\<rparr>
     | Ipv4Lshift \<Rightarrow> ipv4_lw_deliver (ipv4_lshiftWordByOctet W (20 mod W) (vs_lw s)) s
     | GenerateIpv4 \<Rightarrow> s\<lparr>vs_gen := ipv4_generate_ipv4 W local_ipv4_address protocol u (vs_gen s)\<rparr>)"

definition ipv4 :: "nat \<Rightarrow> u32 \<Rightarrow> 8 word \<Rightarrow> lane list \<Rightarrow> ipv4_st \<Rightarrow> ipv4_st" where
  "ipv4 W local_ipv4_address protocol u =
     fold (ipv4_act W local_ipv4_address protocol u) [ProcessIpv4, DropOptions, Ipv4Lshift, GenerateIpv4]"

subsection \<open>The order of the processes does not matter\<close>

definition pi_can :: "'m pi_st \<Rightarrow> bool" where
  "pi_can s \<longleftrightarrow> pif_in s \<noteq> [] \<or> pif_dropLength s \<noteq> [] \<or> pif_out s \<noteq> []"

definition doh_can :: "doh_st \<Rightarrow> bool" where
  "doh_can s \<longleftrightarrow> (case doh_state s of DOH_META \<Rightarrow> dohf_length s \<noteq> [] \<and> dohf_in s \<noteq> [] | LAST \<Rightarrow> True | LAST_FIVE \<Rightarrow> True
     | _ \<Rightarrow> dohf_in s \<noteq> [])"

definition ipv4_can :: "ipv4_proc \<Rightarrow> ipv4_st \<Rightarrow> bool" where
  "ipv4_can p s = (case p of ProcessIpv4 \<Rightarrow> pi_can (vs_pi s) | DropOptions \<Rightarrow> doh_can (vs_doh s)
     | Ipv4Lshift \<Rightarrow> lw_can (vs_lw s) | GenerateIpv4 \<Rightarrow> gen_can (vs_gen s))"

lemma doh_idle: "\<not> doh_can s \<Longrightarrow> drop_optional_ip_header W s = s"
  by (auto simp: doh_can_def drop_optional_ip_header_def doh_meta_def doh_shift_def split: doh_fsm.splits)

lemma doh_feed_fields [simp]:
  "doh_state (doh_feed ns ws s) = doh_state s" "doh_prev (doh_feed ns ws s) = doh_prev s"
  "doh_length (doh_feed ns ws s) = doh_length s" "dohf_out (doh_feed ns ws s) = dohf_out s"
  "dohf_length (doh_feed ns ws s) = dohf_length s @ ns" "dohf_in (doh_feed ns ws s) = dohf_in s @ ws"
  by (simp_all add: doh_feed_def)

lemma doh_feed_meta:
  "dohf_length s \<noteq> [] \<Longrightarrow> dohf_in s \<noteq> [] \<Longrightarrow> doh_meta W (doh_feed ns ws s) = doh_feed ns ws (doh_meta W s)"
  by (simp add: doh_meta_def Let_def doh_feed_def)

lemma doh_feed_shift: "dohf_in s \<noteq> [] \<Longrightarrow> doh_shift k l (doh_feed ns ws s) = doh_feed ns ws (doh_shift k l s)"
  by (simp add: doh_shift_def Let_def doh_feed_def)

lemma doh_feed_last: "doh_last k (doh_feed ns ws s) = doh_feed ns ws (doh_last k s)"
  by (simp add: doh_last_def doh_feed_def)

lemma doh_more:
  "doh_can s \<Longrightarrow> drop_optional_ip_header W (doh_feed ns ws s) = doh_feed ns ws (drop_optional_ip_header W s)"
  by (cases "doh_state s") (simp_all add: doh_can_def drop_optional_ip_header_def doh_feed_meta doh_feed_shift doh_feed_last,
      simp_all add: doh_feed_def Let_def)

lemma doh_more_can: "doh_can s \<Longrightarrow> doh_can (doh_feed ns ws s)"
  by (auto simp: doh_can_def split: doh_fsm.splits)

lemmas ipv4_network = ipv4_act_def ipv4_can_def pi_deliver_def ipv4_lw_deliver_def ipv4_drop_optional_ip_header_def
  ipv4_lshiftWordByOctet_def ipv4_generate_ipv4_def

lemma ipv4_idle: "\<not> ipv4_can p s \<Longrightarrow> ipv4_act W a prot u p s = s"
proof (cases p)
  case ProcessIpv4
  assume "\<not> ipv4_can p s"
  then have "process_ipv4 W (vs_pi s) = vs_pi s" "pif_out (vs_pi s) = []" "pif_dropLength (vs_pi s) = []"
    using ProcessIpv4 by (simp_all add: ipv4_network pi_can_def process_ipv4_def read_ipv4_header_def)
  then show ?thesis using ProcessIpv4 by (simp add: ipv4_network doh_feed_def)
next
  case Ipv4Lshift
  assume "\<not> ipv4_can p s"
  then have "lshiftWordByOctet W (20 mod W) (vs_lw s) = vs_lw s" "lwf_out (vs_lw s) = []"
    using Ipv4Lshift by (simp_all add: ipv4_network lw_can_def lshiftWordByOctet_def)
  then show ?thesis using Ipv4Lshift by (simp add: ipv4_network)
qed (simp_all add: ipv4_network doh_idle gen_idle)

interpretation ips: dataflow "\<lambda>_. True" ipv4_can "ipv4_act W a prot u" for W a prot u
proof
  fix p q and s :: ipv4_st
  show "\<not> ipv4_can p s \<Longrightarrow> ipv4_act W a prot u p s = s" by (rule ipv4_idle)
  assume c: "p \<noteq> q" "ipv4_can p s" "ipv4_can q s"
  show "ipv4_can p (ipv4_act W a prot u q s)"
    using c by (cases p; cases q) (simp_all add: ipv4_network doh_more_can more_can)
  show "ipv4_act W a prot u p (ipv4_act W a prot u q s) = ipv4_act W a prot u q (ipv4_act W a prot u p s)"
    using c by (cases p; cases q) (simp_all add: ipv4_network doh_more gen_more_data)
qed

end
