(* ===== verification/Ipv4_Trip.thy ===== *)
theory Ipv4_Trip
  imports Ipv4
begin

text \<open>
  A packet through the IPv4 module, and a datagram from the UDP module of one board through the IPv4 modules of both to
  the UDP module of the other, under every schedule of the four.
\<close>

subsection \<open>Steps of one process in the network\<close>

lemma pi_outputs:
  "read_ipv4_header W f s = (read_ipv4_header W f (s\<lparr>pif_dropLength := [], pif_out := []\<rparr>))\<lparr>pif_dropLength := pif_dropLength s @ pif_dropLength (read_ipv4_header W f (s\<lparr>pif_dropLength := [], pif_out := []\<rparr>)), pif_out := pif_out s @ pif_out (read_ipv4_header W f (s\<lparr>pif_dropLength := [], pif_out := []\<rparr>))\<rparr>"
  by (simp add: read_ipv4_header_def Let_def)

lemma doh_feed_feed: "doh_feed ns ws (doh_feed ms vs s) = doh_feed (ms @ ns) (vs @ ws) s"
  by (simp add: doh_feed_def)

lemma run_process_ipv4:
  assumes "pif_dropLength (vs_pi s) = []" and "pif_out (vs_pi s) = []"
  shows "(ipv4_act W a prot u ProcessIpv4 ^^ k) s = pi_deliver ((process_ipv4 W ^^ k) (vs_pi s)) s"
proof (rule run_stage[where clear = "\<lambda>p. p\<lparr>pif_dropLength := [], pif_out := []\<rparr>"
      and join = "\<lambda>p q. q\<lparr>pif_dropLength := pif_dropLength p @ pif_dropLength q, pif_out := pif_out p @ pif_out q\<rparr>"])
  show "process_ipv4 W p = (process_ipv4 W (p\<lparr>pif_dropLength := [], pif_out := []\<rparr>))\<lparr>pif_dropLength := pif_dropLength p @ pif_dropLength (process_ipv4 W (p\<lparr>pif_dropLength := [], pif_out := []\<rparr>)), pif_out := pif_out p @ pif_out (process_ipv4 W (p\<lparr>pif_dropLength := [], pif_out := []\<rparr>))\<rparr>" for p
    unfolding process_ipv4_def by (rule pi_outputs)
  have "(vs_pi s)\<lparr>pif_dropLength := [], pif_out := []\<rparr> = vs_pi s" using assms by simp
  then show "pi_deliver (vs_pi s) s = s" using assms by (simp add: pi_deliver_def doh_feed_def)
qed (simp_all add: ipv4_act_def pi_deliver_def doh_feed_feed)

lemma run_ipv4_lshift:
  assumes "lwf_out (vs_lw s) = []"
  shows "(ipv4_act W a prot u Ipv4Lshift ^^ k) s = ipv4_lw_deliver ((ipv4_lshiftWordByOctet W (20 mod W) ^^ k) (vs_lw s)) s"
proof (rule run_stage[where clear = "\<lambda>p. p\<lparr>lwf_out := []\<rparr>" and join = "\<lambda>p q. q\<lparr>lwf_out := lwf_out p @ lwf_out q\<rparr>"])
  show "ipv4_lshiftWordByOctet W (20 mod W) p = (ipv4_lshiftWordByOctet W (20 mod W) (p\<lparr>lwf_out := []\<rparr>))\<lparr>lwf_out := lwf_out p @ lwf_out (ipv4_lshiftWordByOctet W (20 mod W) (p\<lparr>lwf_out := []\<rparr>))\<rparr>" for p unfolding ipv4_lshiftWordByOctet_def by (rule lw_outputs)
  have "(vs_lw s)\<lparr>lwf_out := []\<rparr> = vs_lw s" using assms by simp
  then show "ipv4_lw_deliver (vs_lw s) s = s" using assms by (simp add: ipv4_lw_deliver_def)
qed (simp_all add: ipv4_act_def ipv4_lw_deliver_def)

lemma run_drop_options:
  "(ipv4_act W a prot u DropOptions ^^ k) s = s\<lparr>vs_doh := (drop_optional_ip_header W ^^ k) (vs_doh s)\<rparr>"
  by (induction k) (simp_all add: ipv4_act_def ipv4_drop_optional_ip_header_def)

lemma run_generate_ipv4:
  "(ipv4_act W a prot u GenerateIpv4 ^^ k) s = s\<lparr>vs_gen := (gen_step W (ipv4_fill a prot) u ^^ k) (vs_gen s)\<rparr>"
  by (induction k) (simp_all add: ipv4_act_def ipv4_generate_ipv4_def)

subsection \<open>The module at rest\<close>

text \<open>The header of the sending side has the version and length that its constructor sets.\<close>

definition ipv4_rest :: "ipv4_st \<Rightarrow> bool" where
  "ipv4_rest s \<longleftrightarrow> pi_idle (vs_pi s) \<and> pif_in (vs_pi s) = [] \<and> pif_dropLength (vs_pi s) = [] \<and> pif_out (vs_pi s) = []
     \<and> doh_state (vs_doh s) = DOH_META \<and> dohf_length (vs_doh s) = [] \<and> dohf_in (vs_doh s) = []
     \<and> \<not> lw_writeRemainder (vs_lw s) \<and> lw_firstWord (vs_lw s) \<and> lwf_in (vs_lw s) = [] \<and> lwf_out (vs_lw s) = []
     \<and> gen_state (vs_gen s) = GEN_META \<and> genf_meta (vs_gen s) = [] \<and> genf_in (vs_gen s) = []
     \<and> ip_getHeaderLength (ph_header (gen_header (vs_gen s))) = 5"

lemma ipv4_rest_quiet: "ipv4_rest s \<Longrightarrow> ips.quiet s"
  unfolding ips.quiet_def
  by (intro allI, case_tac p) (simp_all add: ipv4_can_def ipv4_rest_def pi_can_def doh_can_def lw_can_def gen_can_def)

definition ipv4_put :: "ipv4Meta list \<Rightarrow> net_axis list \<Rightarrow> ipv4_st \<Rightarrow> ipv4_st" where
  "ipv4_put ms ws s = s\<lparr>vs_gen := (vs_gen s)\<lparr>genf_meta := genf_meta (vs_gen s) @ ms\<rparr>,
     vs_lw := (vs_lw s)\<lparr>lwf_in := lwf_in (vs_lw s) @ ws\<rparr>\<rparr>"

definition ipv4_arrive :: "net_axis list \<Rightarrow> ipv4_st \<Rightarrow> ipv4_st" where
  "ipv4_arrive ws s = s\<lparr>vs_pi := (vs_pi s)\<lparr>pif_in := pif_in (vs_pi s) @ ws\<rparr>\<rparr>"

definition ipv4_run :: "nat \<Rightarrow> u32 \<Rightarrow> 8 word \<Rightarrow> lane list \<Rightarrow> ipv4_proc list list \<Rightarrow> ipv4_st \<Rightarrow> ipv4_st" where
  "ipv4_run W a prot u rounds = fold (ipv4_act W a prot u) (concat rounds)"

lemma ipv4_calls:
  "(ipv4 W a prot u ^^ k) s = ipv4_run W a prot u (replicate k [ProcessIpv4, DropOptions, Ipv4Lshift, GenerateIpv4]) s"
  unfolding ipv4_def ipv4_run_def by (rule calls_as_rounds)

lemma ipv4_calls_fair: "fair (replicate k [ProcessIpv4, DropOptions, Ipv4Lshift, GenerateIpv4])"
  by (intro calls_fair allI, case_tac p) simp_all

lemma ipv4_settles:
  assumes "ipv4_rest (fold (ipv4_act W a prot u) ps s)"
  shows "\<exists>k. \<forall>rounds. fair rounds \<longrightarrow> k \<le> length rounds \<longrightarrow> ipv4_run W a prot u rounds s = fold (ipv4_act W a prot u) ps s"
  unfolding ipv4_run_def by (rule ips.all_schedules_agree[OF TrueI]) (rule ipv4_rest_quiet[OF assms])

lemma ipv4_fill_fields:
  "ip_getSrcAddr (ipv4_fill a prot m h) = a" "ip_getLength (ipv4_fill a prot m h) = ipm_length m + 20"
  "ip_getDstAddr (ipv4_fill a prot m h) = ipm_their_address m" "ip_getProtocol (ipv4_fill a prot m h) = prot"
  "ip_getHeaderLength (ipv4_fill a prot m h) = ip_getHeaderLength h"
  by (simp_all add: ipv4_fill_def get_fields set_fields range_get_set_same range_get_set_other)

subsection \<open>A packet goes out\<close>

definition ipv4_sent :: "nat \<Rightarrow> u32 \<Rightarrow> 8 word \<Rightarrow> ipv4Meta \<Rightarrow> byte list \<Rightarrow> ipv4_st \<Rightarrow> ipv4_st \<Rightarrow> bool" where
  "ipv4_sent W a prot m bs s t \<longleftrightarrow> ipv4_rest t
     \<and> (\<exists>out. genf_out (vs_gen t) = genf_out (vs_gen s) @ out
          \<and> packet W out (header_bytes (ipv4_fill a prot m (ph_header (gen_header (vs_gen s)))) @ bs))"

lemma ipv4_sends:
  assumes "W \<in> {8, 16, 32, 64}" and "length u = W" and "ipv4_rest s" and "packet W ws bs"
  shows "\<exists>k t. ipv4_sent W a prot m bs s t
    \<and> (\<forall>rounds. fair rounds \<longrightarrow> k \<le> length rounds \<longrightarrow> ipv4_run W a prot u rounds (ipv4_put [m] ws s) = t)"
proof -
  have r: "\<not> lw_writeRemainder (vs_lw s)" "lw_firstWord (vs_lw s)" "lwf_in (vs_lw s) = []" "lwf_out (vs_lw s) = []"
    "gen_state (vs_gen s) = GEN_META" "genf_meta (vs_gen s) = []" "genf_in (vs_gen s) = []"
    "ip_getHeaderLength (ph_header (gen_header (vs_gen s))) = 5" using assms(3) by (simp_all add: ipv4_rest_def)
  define l where "l = (vs_lw s)\<lparr>lwf_in := ws\<rparr>"
  have lt: "20 mod W < W" "20 mod W \<le> 32" using assms(1) by auto
  obtain k out where k: "packet W out (replicate (20 mod W) 0 @ bs)"
    "lw_done l [] out ((lshiftWordByOctet W (20 mod W) ^^ k) l)"
    using lshift_prepends[OF assms(4) lt, of l "[]"] r by (auto simp: l_def)
  define l' where "l' = (lshiftWordByOctet W (20 mod W) ^^ k) l"
  have l': "\<not> lw_writeRemainder l'" "lw_firstWord l'" "lwf_in l' = []" "lwf_out l' = out"
    using k(2) r by (simp_all add: lw_done_def l'_def l_def)
  define g where "g = (vs_gen s)\<lparr>genf_meta := [m], genf_in := out\<rparr>"
  have W: "0 < W" "20 < W \<or> W \<le> 32" using assms(1) by auto
  obtain j where j: "gen_done W g [] [] (header_bytes (ipv4_fill a prot m (ph_header (gen_header g))) @ bs)
      (ipv4_fill a prot m (ph_header (gen_header g))) ((gen_step W (ipv4_fill a prot) u ^^ j) g)"
    using gen_packet[of g m "[]" 20 W u out bs "[]", OF _ _ _ _ W assms(2) k(1) _ refl] r by (force simp: g_def)
  define s1 where "s1 = (ipv4_act W a prot u Ipv4Lshift ^^ k) (ipv4_put [m] ws s)"
  have s1: "s1 = s\<lparr>vs_lw := l'\<lparr>lwf_out := []\<rparr>, vs_gen := g\<rparr>"
    using run_ipv4_lshift[where s = "ipv4_put [m] ws s" and W = W and a = a and prot = prot and u = u and k = k] r l'(4)
    by (simp add: s1_def ipv4_put_def l_def ipv4_lw_deliver_def ipv4_lshiftWordByOctet_def g_def flip: l'_def[unfolded l_def])
  define t where "t = (ipv4_act W a prot u GenerateIpv4 ^^ j) s1"
  have t: "t = s1\<lparr>vs_gen := (gen_step W (ipv4_fill a prot) u ^^ j) g\<rparr>"
    using run_generate_ipv4[where k = j and W = W and a = a and prot = prot and u = u and s = s1] by (simp add: t_def s1)
  have run: "fold (ipv4_act W a prot u) (replicate k Ipv4Lshift @ replicate j GenerateIpv4) (ipv4_put [m] ws s) = t"
    by (simp add: run_replicate t_def s1_def)
  have sent: "ipv4_sent W a prot m bs s t"
    using assms(3) r j l' by (simp add: ipv4_sent_def t s1 ipv4_rest_def gen_done_def g_def ipv4_fill_fields)
  then have "ipv4_rest t" by (simp add: ipv4_sent_def)
  then show ?thesis using ipv4_settles[of W a prot u _ "ipv4_put [m] ws s"] run sent by metis
qed

subsection \<open>A packet arrives\<close>

definition ipv4_received :: "nat \<Rightarrow> 160 word \<Rightarrow> byte list \<Rightarrow> ipv4_st \<Rightarrow> ipv4_st \<Rightarrow> bool" where
  "ipv4_received W x bs s t \<longleftrightarrow> ipv4_rest t \<and> pif_meta (vs_pi t) = pif_meta (vs_pi s) @ [ipv4_meta x]
     \<and> (\<exists>out. dohf_out (vs_doh t) = dohf_out (vs_doh s) @ out \<and> packet W out bs)"

lemma ipv4_receives:
  assumes "W \<in> {8, 16, 32, 64}" and "ipv4_rest s" and "packet W ws (header_bytes x @ bs)" and "ip_getHeaderLength x = 5"
    and "bs \<noteq> []" and "W \<le> 16 \<longrightarrow> W + W * (19 div W) < 20 + length bs" and "dohf_out (vs_doh s) = []"
  shows "\<exists>k t. ipv4_received W x bs s t
    \<and> (\<forall>rounds. fair rounds \<longrightarrow> k \<le> length rounds \<longrightarrow> ipv4_run W a prot u rounds (ipv4_arrive ws s) = t)"
proof -
  have r: "pi_idle (vs_pi s)" "pif_in (vs_pi s) = []" "pif_dropLength (vs_pi s) = []" "pif_out (vs_pi s) = []"
    "doh_state (vs_doh s) = DOH_META" "dohf_length (vs_doh s) = []" "dohf_in (vs_doh s) = []"
    using assms(2) by (simp_all add: ipv4_rest_def)
  define p where "p = (vs_pi s)\<lparr>pif_in := ws\<rparr>"
  define p' where "p' = (read_ipv4_header W ipv4_meta ^^ length ws) p"
  have len: "20 < length (header_bytes x @ bs) \<and> (W \<le> 16 \<longrightarrow> W + W * (19 div W) < length (header_bytes x @ bs))"
    using assms(5,6) by simp
  have ip: "pi_idle p'" "pif_in p' = []" "pif_meta p' = pif_meta p @ [ipv4_meta x]"
    and ex: "\<exists>c out. doh_done ((vs_doh s)\<lparr>dohf_length := []\<rparr>) [] out
        ((drop_optional_ip_header W ^^ c) ((vs_doh s)\<lparr>dohf_length := pif_dropLength p', dohf_in := pif_out p'\<rparr>))
      \<and> packet W out (drop 20 (header_bytes x @ bs))"
    using ip_header_off[OF assms(1,3) len _ assms(4) _ _ _ _ r(5) assms(7), of p "[]" p' ipv4_meta] r
    by (simp_all add: p_def p'_def pi_idle_def)
  obtain c out where c: "doh_done ((vs_doh s)\<lparr>dohf_length := []\<rparr>) [] out
        ((drop_optional_ip_header W ^^ c) ((vs_doh s)\<lparr>dohf_length := pif_dropLength p', dohf_in := pif_out p'\<rparr>))"
    "packet W out bs" using ex by auto
  define s1 where "s1 = (ipv4_act W a prot u ProcessIpv4 ^^ length ws) (ipv4_arrive ws s)"
  have s1: "s1 = s\<lparr>vs_pi := p'\<lparr>pif_dropLength := [], pif_out := []\<rparr>,
      vs_doh := (vs_doh s)\<lparr>dohf_length := pif_dropLength p', dohf_in := pif_out p'\<rparr>\<rparr>"
    using run_process_ipv4[where s = "ipv4_arrive ws s" and W = W and a = a and prot = prot and u = u and k = "length ws"] r
    by (simp add: s1_def ipv4_arrive_def pi_deliver_def doh_feed_def process_ipv4_def p'_def p_def)
  define t where "t = (ipv4_act W a prot u DropOptions ^^ c) s1"
  have t: "t = s1\<lparr>vs_doh := (drop_optional_ip_header W ^^ c) (vs_doh s1)\<rparr>"
    using run_drop_options[where k = c and W = W and a = a and prot = prot and u = u and s = s1] by (simp add: t_def)
  have run: "fold (ipv4_act W a prot u) (replicate (length ws) ProcessIpv4 @ replicate c DropOptions) (ipv4_arrive ws s) = t"
    by (simp add: run_replicate t_def s1_def)
  have got: "ipv4_received W x bs s t"
    using assms(2) r ip c by (simp add: ipv4_received_def t s1 ipv4_rest_def doh_done_def pi_idle_def p_def)
  then have "ipv4_rest t" by (simp add: ipv4_received_def)
  then show ?thesis using ipv4_settles[of W a prot u _ "ipv4_arrive ws s"] run got by metis
qed

subsection \<open>UDP over IPv4\<close>

text \<open>A module at rest that has nothing left on the streams that leave it.\<close>

definition udp_fresh :: "nat \<Rightarrow> udp_st \<Rightarrow> bool" where
  "udp_fresh W s \<longleftrightarrow> udp_rx_rest W s \<and> udp_tx_rest s \<and> stmf_ip (us_stm s) = [] \<and> genf_out (us_gen s) = [] \<and> mrmf_out (us_mrm s) = []
     \<and> rwf_out (us_rw s) = []"

definition ipv4_fresh :: "ipv4_st \<Rightarrow> bool" where
  "ipv4_fresh s \<longleftrightarrow> ipv4_rest s \<and> pif_meta (vs_pi s) = [] \<and> dohf_out (vs_doh s) = [] \<and> genf_out (vs_gen s) = []"

text \<open>The four modules a datagram goes through, each run by a schedule of its own: the end of the last one.\<close>

definition over_ipv4 :: "nat \<Rightarrow> lane list \<Rightarrow> u32 \<Rightarrow> 8 word \<Rightarrow> u16 \<Rightarrow> udp_proc list list \<Rightarrow> ipv4_proc list list \<Rightarrow> ipv4_proc list list
    \<Rightarrow> udp_proc list list \<Rightarrow> udp_st \<Rightarrow> ipv4_st \<Rightarrow> ipv4_st \<Rightarrow> udp_st \<Rightarrow> ipUdpMeta \<Rightarrow> net_axis list \<Rightarrow> udp_st" where
  "over_ipv4 W u a prot port r1 r2 r3 r4 s1 v1 v2 s2 m ws =
    (let t1 = udp_run W port u r1 (udp_put [m] ws s1);
         t2 = ipv4_run W a prot u r2 (ipv4_put (stmf_ip (us_stm t1)) (genf_out (us_gen t1)) v1);
         t3 = ipv4_run W a prot u r3 (ipv4_arrive (genf_out (vs_gen t2)) v2) in
     udp_run W port u r4 (udp_arrive (pif_meta (vs_pi t3)) (dohf_out (vs_doh t3)) s2))"

lemma over_ipv4_result:
  assumes "W \<in> {8, 16, 32, 64}" and "length u = W" and "packet W ws bs" and "W = 16 \<longrightarrow> 4 < length bs"
    and "udp_fresh W s1" and "ipv4_fresh v1" and "ipv4_fresh v2" and "udp_fresh W s2"
  shows "\<exists>k x t. udp_received W port (ipv4_meta x) (udp_header m (ph_header (gen_header (us_gen s1)))) bs s2 t
    \<and> ip_getSrcAddr x = a
    \<and> (\<forall>r1 r2 r3 r4. fair r1 \<longrightarrow> fair r2 \<longrightarrow> fair r3 \<longrightarrow> fair r4 \<longrightarrow> k \<le> length r1 \<longrightarrow> k \<le> length r2 \<longrightarrow> k \<le> length r3 \<longrightarrow> k \<le> length r4
         \<longrightarrow> over_ipv4 W u a prot port r1 r2 r3 r4 s1 v1 v2 s2 m ws = t)"
proof -
  have W: "8 \<le> W" using assms(1) by auto
  have f1: "udp_rx_rest W s1" "udp_tx_rest s1" "stmf_ip (us_stm s1) = []" "genf_out (us_gen s1) = []"
    and f2: "ipv4_rest v1" "genf_out (vs_gen v1) = []" and f3: "ipv4_rest v2" "pif_meta (vs_pi v2) = []" "dohf_out (vs_doh v2) = []"
    and f4: "udp_rx_rest W s2" "udp_tx_rest s2" using assms(5-8) by (simp_all add: udp_fresh_def ipv4_fresh_def)
  define h where "h = udp_header m (ph_header (gen_header (us_gen s1)))"
  define im where "im = ipv4Meta_wide (ium_their_address m) (ium_length m + 8)"
  define x where "x = ipv4_fill a prot im (ph_header (gen_header (vs_gen v1)))"
  have ne: "bs \<noteq> []" using packet_nonempty[OF assms(3)] by simp
  obtain k1 t1 where k1: "udp_sent W m bs s1 t1"
    "\<And>r. fair r \<Longrightarrow> k1 \<le> length r \<Longrightarrow> udp_run W port u r (udp_put [m] ws s1) = t1"
    using udp_sends[OF W assms(2) f1(1,2) assms(3)] by metis
  have t1: "stmf_ip (us_stm t1) = [im]" "packet W (genf_out (us_gen t1)) (header_bytes h @ bs)"
    using k1(1) f1(3,4) by (auto simp: udp_sent_def im_def h_def)
  obtain k2 t2 where k2: "ipv4_sent W a prot im (header_bytes h @ bs) v1 t2"
    "\<And>r. fair r \<Longrightarrow> k2 \<le> length r \<Longrightarrow> ipv4_run W a prot u r (ipv4_put [im] (genf_out (us_gen t1)) v1) = t2"
    using ipv4_sends[OF assms(1,2) f2(1) t1(2)] by metis
  have t2: "packet W (genf_out (vs_gen t2)) (header_bytes x @ (header_bytes h @ bs))"
    using k2(1) f2(2) by (auto simp: ipv4_sent_def x_def)
  have five: "ip_getHeaderLength x = 5" using f2(1) by (simp add: x_def ipv4_fill_fields ipv4_rest_def)
  have long: "W \<le> 16 \<longrightarrow> W + W * (19 div W) < 20 + length (header_bytes h @ bs)"
    using assms(1,4) ne by (auto simp: neq_Nil_conv)
  obtain k3 t3 where k3: "ipv4_received W x (header_bytes h @ bs) v2 t3"
    "\<And>r. fair r \<Longrightarrow> k3 \<le> length r \<Longrightarrow> ipv4_run W a prot u r (ipv4_arrive (genf_out (vs_gen t2)) v2) = t3"
    using ipv4_receives[OF assms(1) f3(1) t2 five _ long f3(3)] ne by (metis append_is_Nil_conv)
  have t3: "pif_meta (vs_pi t3) = [ipv4_meta x]" "packet W (dohf_out (vs_doh t3)) (header_bytes h @ bs)"
    using k3(1) f3(2,3) by (auto simp: ipv4_received_def)
  obtain k4 t4 where k4: "udp_received W port (ipv4_meta x) h bs s2 t4"
    "\<And>r. fair r \<Longrightarrow> k4 \<le> length r \<Longrightarrow> udp_run W port u r (udp_arrive [ipv4_meta x] (dohf_out (vs_doh t3)) s2) = t4"
    using udp_receives[OF W f4 t3(2) ne] by metis
  have "over_ipv4 W u a prot port r1 r2 r3 r4 s1 v1 v2 s2 m ws = t4"
    if "fair r1" "fair r2" "fair r3" "fair r4" "max (max k1 k2) (max k3 k4) \<le> length r1" "max (max k1 k2) (max k3 k4) \<le> length r2"
      "max (max k1 k2) (max k3 k4) \<le> length r3" "max (max k1 k2) (max k3 k4) \<le> length r4" for r1 r2 r3 r4
    using that by (simp add: over_ipv4_def Let_def k1(2) k2(2) k3(2) k4(2) t1(1) t3(1))
  then show ?thesis using k4(1) by (intro exI[of _ "max (max k1 k2) (max k3 k4)"] exI[of _ x] exI[of _ t4])
      (simp add: h_def x_def ipv4_fill_fields)
qed

text \<open>C33. UDP over IPv4 on 64, 128, 256 or 512 bits, for a datagram with at least one byte of payload, and on 128 bits with more than four: given
  to the idle UDP module of one board and sent through its idle IPv4 module, it arrives through the idle IPv4 module of another board at the UDP
  module with the same payload, the ports exchanged, the address of the sender and a length that counts the header, when the port
  is the one that is listened on; otherwise nothing of it is handed on. Each of the four modules gets what the one before it has written when
  that has come to rest; within a module the processes may be scheduled in any fair way. (On 128 bits the shifter of the
  IPv4 module gets stuck on a datagram of up to four bytes.)\<close>

theorem udp_over_ipv4:
  assumes "W \<in> {8, 16, 32, 64}" and "length u = W" and "packet W ws bs" and "W = 16 \<longrightarrow> 4 < length bs"
    and "udp_fresh W s1" and "ipv4_fresh v1" and "ipv4_fresh v2" and "udp_fresh W s2"
  shows "\<exists>k. \<forall>r1 r2 r3 r4. fair r1 \<and> fair r2 \<and> fair r3 \<and> fair r4 \<and> k \<le> length r1 \<and> k \<le> length r2 \<and> k \<le> length r3 \<and> k \<le> length r4 \<longrightarrow>
    (let t = over_ipv4 W u a prot port r1 r2 r3 r4 s1 v1 v2 s2 m ws in
     if ium_their_port m = port
     then mrmf_out (us_mrm t) = [\<lparr>ium_their_address = ucast a, ium_their_port = ium_my_port m, ium_my_port = port,
            ium_length = ium_length m + 8\<rparr>] \<and> packet W (rwf_out (us_rw t)) bs
     else mrmf_out (us_mrm t) = [] \<and> rwf_out (us_rw t) = [])"
proof -
  obtain k x t where k: "udp_received W port (ipv4_meta x) (udp_header m (ph_header (gen_header (us_gen s1)))) bs s2 t"
    "ip_getSrcAddr x = a"
    "\<And>r1 r2 r3 r4. fair r1 \<Longrightarrow> fair r2 \<Longrightarrow> fair r3 \<Longrightarrow> fair r4 \<Longrightarrow> k \<le> length r1 \<Longrightarrow> k \<le> length r2 \<Longrightarrow> k \<le> length r3 \<Longrightarrow> k \<le> length r4
      \<Longrightarrow> over_ipv4 W u a prot port r1 r2 r3 r4 s1 v1 v2 s2 m ws = t"
    using over_ipv4_result[OF assms] by metis
  have "mrmf_out (us_mrm s2) = []" "rwf_out (us_rw s2) = []" using assms(8) by (simp_all add: udp_fresh_def)
  then show ?thesis using k(1,2) by (intro exI[of _ k])
      (auto simp: k(3) Let_def udp_received_def udp_header_fields ipv4_meta_def)
qed

definition ipv4_demo :: ipv4_st where
  "ipv4_demo = \<lparr>vs_pi = \<lparr>pi_header = \<lparr>ph_ready = False, ph_idx = 0, ph_header = 0\<rparr>, pi_headerWordsDropped = 0, pi_metaWritten = False,
       pif_in = [], pif_dropLength = [], pif_meta = [], pif_out = []\<rparr>,
     vs_doh = doh_demo, vs_lw = lshift_demo, vs_gen = gen_demo 0x45\<rparr>"

lemma demo_fresh: "udp_fresh W (udp_demo W)" "ipv4_fresh ipv4_demo"
proof -
  show "udp_fresh W (udp_demo W)" using udp_demo_rest[of W] by (simp add: udp_fresh_def udp_demo_def shift_demo_def gen_demo_def)
  show "ipv4_fresh ipv4_demo"
    by (simp add: ipv4_fresh_def ipv4_rest_def ipv4_demo_def pi_idle_def doh_demo_def lshift_demo_def gen_demo_def
        ip_getHeaderLength_def range_get_def take_bit_eq_mod)
qed

theorem udp_over_ipv4_witness:
  "\<exists>k. \<forall>r1 r2 r3 r4. fair r1 \<and> fair r2 \<and> fair r3 \<and> fair r4 \<and> k \<le> length r1 \<and> k \<le> length r2 \<and> k \<le> length r3 \<and> k \<le> length r4 \<longrightarrow>
    (let t = over_ipv4 8 (replicate 8 (0, False)) 0x0A000001 17 7 r1 r2 r3 r4 (udp_demo 8) ipv4_demo ipv4_demo (udp_demo 8)
       \<lparr>ium_their_address = 0, ium_their_port = 7, ium_my_port = 5, ium_length = 1\<rparr> [udp_demo_word] in
     mrmf_out (us_mrm t) = [\<lparr>ium_their_address = 0x0A000001, ium_their_port = 5, ium_my_port = 7, ium_length = 9\<rparr>]
       \<and> packet 8 (rwf_out (us_rw t)) [1])"
  using udp_over_ipv4[where W = 8 and u = "replicate 8 (0, False)" and ws = "[udp_demo_word]" and bs = "[1]" and a = "0x0A000001"
      and prot = 17 and port = 7 and m = "\<lparr>ium_their_address = 0, ium_their_port = 7, ium_my_port = 5, ium_length = 1\<rparr>",
      OF _ _ udp_demo_packet _ demo_fresh(1) demo_fresh(2) demo_fresh(2) demo_fresh(1)] by simp

end
