(* ===== verification/Header_Read.thy ===== *)
theory Header_Read
  imports Packet_Header
begin

text \<open>
  The processes that read a header while a packet passes: \<^verbatim>\<open>extract_ip_address\<close> (\<^verbatim>\<open>mac_ip_encode/mac_ip_encode.cpp\<close>),
  \<^verbatim>\<open>detect_eth_protocol\<close> and \<^verbatim>\<open>extract_ip_meta\<close> (\<^verbatim>\<open>ip_handler/ip_handler.cpp\<close>). They have one body: every word
  goes on, and when the header is complete something made of it is written, once for each packet.
\<close>

record (overloaded) ('m, 'h) rh_st =
  rh_header :: "'h packetHeader"
  rh_metaWritten :: bool
  rhf_in :: "net_axis fifo"
  rhf_out :: "net_axis fifo"
  rhf_meta :: "'m fifo"

definition read_header :: "nat \<Rightarrow> ('h word \<Rightarrow> 'm) \<Rightarrow> ('m, 'h::len) rh_st \<Rightarrow> ('m, 'h) rh_st" where
  "read_header W meta s =
    (if rhf_in s \<noteq> [] then
       (let w = hd (rhf_in s); h = parseWord W (ax_lanes w) (rh_header s);
            s = s\<lparr>rhf_in := tl (rhf_in s), rh_header := h, rhf_out := rhf_out s @ [w]\<rparr>;
            s = (if ph_ready h \<and> \<not> rh_metaWritten s
                 then s\<lparr>rhf_meta := rhf_meta s @ [meta (ph_header h)], rh_metaWritten := True\<rparr> else s) in
        if ax_last w then s\<lparr>rh_metaWritten := False, rh_header := ph_clear h\<rparr> else s)
     else s)"

definition rh_idle :: "('m, 'h::len) rh_st \<Rightarrow> bool" where
  "rh_idle s \<longleftrightarrow> \<not> rh_metaWritten s \<and> \<not> ph_ready (rh_header s) \<and> ph_idx (rh_header s) = 0"

lemma rh_rest:
  assumes "packet W ws bs" and "rhf_in s = ws @ rest" and "rh_metaWritten s" and "ph_ready (rh_header s)"
    and "t = (read_header W f ^^ length ws) s"
  shows "rh_idle t \<and> rhf_in t = rest \<and> rhf_meta t = rhf_meta s \<and> rhf_out t = rhf_out s @ ws"
  using assms
proof (induction ws arbitrary: s bs)
  case (Cons w ws)
  define u where "u = read_header W f s"
  have u: "rhf_in u = ws @ rest" "rhf_meta u = rhf_meta s" "rh_metaWritten u = (\<not> ax_last w)" "rhf_out u = rhf_out s @ [w]"
    "rh_header u = (if ax_last w then ph_clear (rh_header s) else rh_header s)"
    using Cons.prems(2-4) by (simp_all add: u_def read_header_def Let_def parse_ready)
  have run: "t = (read_header W f ^^ length ws) u"
    using Cons.prems(5) by (simp add: funpow_Suc_right u_def del: funpow.simps)
  show ?case
  proof (cases "ws = []")
    case True
    then have "ax_last w" using Cons.prems(1) by (simp add: packet_single)
    then show ?thesis using True u run by (simp add: rh_idle_def ph_clear_def)
  next
    case False
    then have p: "\<not> ax_last w" "packet W ws (drop W bs)" using Cons.prems(1) by (simp_all add: packet_cons)
    then show ?thesis using Cons.IH[OF p(2) u(1) _ _ run] u Cons.prems(4) by simp
  qed
qed simp

text \<open>A packet whose header is in its first word passes unchanged, and what is made of its header is written once.\<close>

lemma rh_packet:
  fixes x :: "'h::len word"
  assumes "LENGTH('h) = 8 * n" and "0 < n" and "n \<le> W" and "packet W ws bs" and "n \<le> length bs" and "header_bytes x = take n bs"
    and "rhf_in s = ws @ rest" and "rh_idle s" and "t = (read_header W f ^^ length ws) s"
  shows "rh_idle t \<and> rhf_in t = rest \<and> rhf_meta t = rhf_meta s @ [f x] \<and> rhf_out t = rhf_out s @ ws"
proof -
  obtain w ws' where ws: "ws = w # ws'" using packet_nonempty[OF assms(4)] by (cases ws) auto
  define h where "h = parseWord W (ax_lanes w) (rh_header s)"
  have "parsed W 0 bs (rh_header s)" using assms(8) by (simp add: parsed_def rh_idle_def)
  moreover have "word_of W n 0 bs (ax_lanes w)"
    using word_of_less[OF packet_nth(1)[OF assms(4), of 0] assms(5)] ws by simp
  ultimately have h: "ph_ready h" "header_bytes (ph_header h) = take n bs"
    using parse_end[of W 0 bs "rh_header s" n "ax_lanes w"] assms(1-3,5) by (simp_all add: h_def)
  have x: "ph_header h = x" by (rule header_bytes_inj[OF assms(1)]) (simp add: h(2) assms(6))
  define u where "u = read_header W f s"
  have u: "rhf_in u = ws' @ rest" "rh_metaWritten u = (\<not> ax_last w)" "rh_header u = (if ax_last w then ph_clear h else h)"
    "rhf_meta u = rhf_meta s @ [f x]" "rhf_out u = rhf_out s @ [w]"
    using assms(7,8) ws h(1) x by (auto simp: u_def read_header_def Let_def rh_idle_def simp flip: h_def)
  have run: "t = (read_header W f ^^ length ws') u"
    by (simp add: assms(9) ws funpow_Suc_right u_def del: funpow.simps)
  show ?thesis
  proof (cases "ws' = []")
    case True
    then have "ax_last w" using assms(4) ws by (simp add: packet_single)
    then show ?thesis using True run u ws by (simp add: rh_idle_def ph_clear_def)
  next
    case False
    then have p: "\<not> ax_last w" "packet W ws' (drop W bs)" using assms(4) ws by (simp_all add: packet_cons)
    then show ?thesis using rh_rest[OF p(2) u(1) _ _ run] u h(1) ws by simp
  qed
qed

lemma rh_outputs:
  "read_header W f s = (read_header W f (s\<lparr>rhf_out := [], rhf_meta := []\<rparr>))\<lparr>
     rhf_out := rhf_out s @ rhf_out (read_header W f (s\<lparr>rhf_out := [], rhf_meta := []\<rparr>)),
     rhf_meta := rhf_meta s @ rhf_meta (read_header W f (s\<lparr>rhf_out := [], rhf_meta := []\<rparr>))\<rparr>"
  by (simp add: read_header_def Let_def)

lemma rh_outputs_data:
  "read_header W f s = (read_header W f (s\<lparr>rhf_out := []\<rparr>))\<lparr>rhf_out := rhf_out s @ rhf_out (read_header W f (s\<lparr>rhf_out := []\<rparr>))\<rparr>"
  by (simp add: read_header_def Let_def)

lemma rh_more:
  "rhf_in s \<noteq> [] \<Longrightarrow> read_header W f (s\<lparr>rhf_in := rhf_in s @ ws\<rparr>) = (read_header W f s)\<lparr>rhf_in := rhf_in (read_header W f s) @ ws\<rparr>"
  by (simp add: read_header_def Let_def)

end
