(* ===== verification/Mac_Encode.thy ===== *)
theory Mac_Encode
  imports Segment_Check Udp Header_Read
begin

text \<open>
  The encoder in front of the network (\<^verbatim>\<open>mac_ip_encode/mac_ip_encode.cpp\<close>): it fills in the checksum of the IPv4 header, asks the
  ARP table for the address of the next hop and puts the Ethernet header in front of the packet. The seven processes, and
  the module as the network of them, at the width of 512 bits that the checksum is written for (\<^verbatim>\<open>ipv4/ipv4_utils.cpp\<close>).
\<close>

subsection \<open>The Ethernet header\<close>

type_synonym mac = "48 word"

definition eth_setDstAddress :: "mac \<Rightarrow> 112 word \<Rightarrow> 112 word" where "eth_setDstAddress a = range_set 47 0 a"
definition eth_setSrcAddress :: "mac \<Rightarrow> 112 word \<Rightarrow> 112 word" where "eth_setSrcAddress a = range_set 95 48 a"
definition eth_setEthertype :: "u16 \<Rightarrow> 112 word \<Rightarrow> 112 word" where "eth_setEthertype t = range_set 111 96 (reverse16 t)"
definition eth_getEthertype :: "112 word \<Rightarrow> u16" where "eth_getEthertype h = reverse16 (range_get 111 96 h)"

subsection \<open>The next hop\<close>

definition next_hop :: "u32 \<Rightarrow> u32 \<Rightarrow> u32 \<Rightarrow> u32" where
  "next_hop regSubNetMask regDefaultGateway dstIpAddress =
    (if and dstIpAddress regSubNetMask = and regDefaultGateway regSubNetMask then dstIpAddress else regDefaultGateway)"

definition extract_ip_address :: "nat \<Rightarrow> u32 \<Rightarrow> u32 \<Rightarrow> (u32, 160) rh_st \<Rightarrow> (u32, 160) rh_st" where
  "extract_ip_address W regSubNetMask regDefaultGateway =
     read_header W (\<lambda>h. next_hop regSubNetMask regDefaultGateway (ip_getDstAddr h))"

subsection \<open>The sums of the header\<close>

text \<open>\<open>i\<close> is the number of the pair of lanes; the header has \<open>ihl\<close> words of 32 bits. The checksum field is pair 5.\<close>

fun header_sums :: "bool \<Rightarrow> 4 word \<Rightarrow> nat \<Rightarrow> lane list \<Rightarrow> subSums \<Rightarrow> subSums" where
  "header_sums skip ihl i ((b0, _) # (b1, _) # ls) (s # ss) =
    (if (\<not> skip \<or> i \<noteq> 5) \<and> i div 2 < unat ihl then sub_add s (lane_word b0 b1) else s) # header_sums skip ihl (Suc i) ls ss"
| "header_sums _ _ _ _ ss = ss"

record cics_st =
  cics_ip_sums :: subSums
  cics_ipHeaderLen :: "4 word"
  cics_firstWord :: bool
  cicsf_in :: "net_axis fifo"
  cicsf_out :: "net_axis fifo"
  cicsf_sums :: "subSums fifo"

definition compute_ipv4_checksum :: "bool \<Rightarrow> cics_st \<Rightarrow> cics_st" where
  "compute_ipv4_checksum skipChecksum s =
    (if cicsf_in s \<noteq> [] then
       (let w = hd (cicsf_in s); s = s\<lparr>cicsf_in := tl (cicsf_in s), cicsf_out := cicsf_out s @ [w]\<rparr>;
            s = (if cics_firstWord s then
                   (let ihl = ucast (fst (ax_lanes w ! 0)); xs = header_sums skipChecksum ihl 0 (ax_lanes w) (cics_ip_sums s) in
                    s\<lparr>cics_ipHeaderLen := ihl, cics_ip_sums := xs, cicsf_sums := cicsf_sums s @ [xs], cics_firstWord := False\<rparr>)
                 else s) in
        if ax_last w then s\<lparr>cics_ip_sums := replicate 32 0, cics_firstWord := True\<rparr> else s)
     else s)"

text \<open>The copies of the code for the two modules, with the same text.\<close>

definition mac_compute_ipv4_checksum :: "bool \<Rightarrow> cics_st \<Rightarrow> cics_st" where
  "mac_compute_ipv4_checksum = compute_ipv4_checksum"

definition mac_finalize_ipv4_checksum :: "subSums fifo \<times> u16 fifo \<Rightarrow> subSums fifo \<times> u16 fifo" where
  "mac_finalize_ipv4_checksum = finalize_ipv4_checksum"

definition mac_lshiftWordByOctet :: "nat \<Rightarrow> nat \<Rightarrow> lw_st \<Rightarrow> lw_st" where
  "mac_lshiftWordByOctet = lshiftWordByOctet"

subsection \<open>The checksum goes into the header\<close>

record isc_st =
  isc_wordCount :: "4 word"
  isc_checksum :: u16
  iscf_in :: "net_axis fifo"
  iscf_checksum :: "u16 fifo"
  iscf_out :: "net_axis fifo"

text \<open>\<^verbatim>\<open>data(8 * k + 15, 8 * k) = reverse(c)\<close>.\<close>

definition put_u16 :: "nat \<Rightarrow> u16 \<Rightarrow> net_axis \<Rightarrow> net_axis" where
  "put_u16 k c w = (let r = reverse16 c in set_byte (k + 1) (range_get 15 8 r) (set_byte k (range_get 7 0 r) w))"

definition insert_ip_checksum :: "nat \<Rightarrow> isc_st \<Rightarrow> isc_st" where
  "insert_ip_checksum W s =
    (if isc_wordCount s = 0 then
       (if iscf_in s \<noteq> [] \<and> iscf_checksum s \<noteq> [] then
          (let w = hd (iscf_in s); c = hd (iscf_checksum s); w = (if 64 < 8 * W then put_u16 10 c w else w) in
           s\<lparr>iscf_in := tl (iscf_in s), iscf_checksum := tl (iscf_checksum s), isc_checksum := c, iscf_out := iscf_out s @ [w],
             isc_wordCount := (if ax_last w then 0 else isc_wordCount s + 1)\<rparr>)
        else s)
     else if isc_wordCount s = 1 then
       (if iscf_in s \<noteq> [] then
          (let w = hd (iscf_in s); w = (if 8 * W = 64 then put_u16 2 (isc_checksum s) w else w) in
           s\<lparr>iscf_in := tl (iscf_in s), iscf_out := iscf_out s @ [w],
             isc_wordCount := (if ax_last w then 0 else isc_wordCount s + 1)\<rparr>)
        else s)
     else
       (if iscf_in s \<noteq> [] then
          (let w = hd (iscf_in s) in
           s\<lparr>iscf_in := tl (iscf_in s), iscf_out := iscf_out s @ [w], isc_wordCount := (if ax_last w then 0 else isc_wordCount s)\<rparr>)
        else s))"

subsection \<open>The answer of the ARP table\<close>

record arpTableReply =
  atr_macAddress :: mac
  atr_hit :: bool

datatype har_fsm = HAR_ARP | HAR_FWD | HAR_DROP

record har_st =
  har_state :: har_fsm
  harf_arp :: "arpTableReply fifo"
  harf_in :: "net_axis fifo"
  harf_header :: "112 packetHeader fifo"
  harf_out :: "net_axis fifo"

text \<open>\<open>v\<close> is the header variable before it is filled.\<close>

definition har_fill :: "mac \<Rightarrow> mac \<Rightarrow> 112 packetHeader \<Rightarrow> 112 packetHeader" where
  "har_fill dst src v = (ph_clear v)\<lparr>ph_header := eth_setEthertype 0x0800 (eth_setSrcAddress src (eth_setDstAddress dst (ph_header v)))\<rparr>"

definition handle_arp_reply :: "mac \<Rightarrow> 112 packetHeader \<Rightarrow> har_st \<Rightarrow> har_st" where
  "handle_arp_reply myMacAddress v s =
    (case har_state s of
       HAR_ARP \<Rightarrow>
         (if harf_arp s \<noteq> [] \<and> harf_in s \<noteq> [] then
            (let reply = hd (harf_arp s); w = hd (harf_in s); s = s\<lparr>harf_arp := tl (harf_arp s), harf_in := tl (harf_in s)\<rparr> in
             if atr_hit reply then
               s\<lparr>harf_header := harf_header s @ [har_fill (atr_macAddress reply) myMacAddress v], harf_out := harf_out s @ [w],
                 har_state := (if ax_last w then HAR_ARP else HAR_FWD)\<rparr>
             else s\<lparr>har_state := (if ax_last w then HAR_ARP else HAR_DROP)\<rparr>)
          else s)
     | HAR_FWD \<Rightarrow>
         (if harf_in s \<noteq> [] then
            (let w = hd (harf_in s) in
             s\<lparr>harf_in := tl (harf_in s), harf_out := harf_out s @ [w], har_state := (if ax_last w then HAR_ARP else HAR_FWD)\<rparr>)
          else s)
     | HAR_DROP \<Rightarrow>
         (if harf_in s \<noteq> [] then
            s\<lparr>harf_in := tl (harf_in s), har_state := (if ax_last (hd (harf_in s)) then HAR_ARP else HAR_DROP)\<rparr>
          else s))"

subsection \<open>The Ethernet header goes in front\<close>

datatype ieh_fsm = IEH_HEADER | IEH_PARTIAL_HEADER | IEH_BODY

record ieh_st =
  ieh_state :: ieh_fsm
  ieh_header :: "112 packetHeader"
  iehf_header :: "112 packetHeader fifo"
  iehf_in :: "net_axis fifo"
  iehf_out :: "net_axis fifo"

definition ieh_start :: "nat \<Rightarrow> ieh_fsm" where
  "ieh_start W = (if 8 * W \<le> 112 then IEH_HEADER else IEH_PARTIAL_HEADER)"

definition insert_ethernet_header :: "nat \<Rightarrow> lane list \<Rightarrow> ieh_st \<Rightarrow> ieh_st" where
  "insert_ethernet_header W u s =
    (case ieh_state s of
       IEH_HEADER \<Rightarrow>
         (if iehf_header s \<noteq> [] then
            (case consumeWord W u (hd (iehf_header s)) of (_, ls, h) \<Rightarrow>
               s\<lparr>iehf_header := tl (iehf_header s), ieh_header := h, ieh_state := IEH_PARTIAL_HEADER,
                 iehf_out := iehf_out s @ [\<lparr>ax_lanes = map (\<lambda>(b, _). (b, True)) ls, ax_last = False\<rparr>]\<rparr>)
          else s)
     | IEH_PARTIAL_HEADER \<Rightarrow>
         (if (iehf_header s \<noteq> [] \<or> 8 * W \<le> 112) \<and> iehf_in s \<noteq> [] then
            (let s = (if 112 < 8 * W then s\<lparr>ieh_header := hd (iehf_header s), iehf_header := tl (iehf_header s)\<rparr> else s);
                 w = hd (iehf_in s) in
             case consumeWord W (ax_lanes w) (ieh_header s) of (_, ls, h) \<Rightarrow>
               s\<lparr>iehf_in := tl (iehf_in s), ieh_header := h, iehf_out := iehf_out s @ [w\<lparr>ax_lanes := ls\<rparr>],
                 ieh_state := (if ax_last w then ieh_start W else IEH_BODY)\<rparr>)
          else s)
     | IEH_BODY \<Rightarrow>
         (if iehf_in s \<noteq> [] then
            (let w = hd (iehf_in s) in
             s\<lparr>iehf_in := tl (iehf_in s), iehf_out := iehf_out s @ [w], ieh_state := (if ax_last w then ieh_start W else IEH_BODY)\<rparr>)
          else s))"

subsection \<open>The module\<close>

text \<open>\<open>mcs_sums\<close> is the stream of sums, which the finalizer takes to checksums.\<close>

record mac_st =
  mcs_xi :: "(u32, 160) rh_st"
  mcs_cics :: cics_st
  mcs_sums :: "subSums fifo"
  mcs_isc :: isc_st
  mcs_har :: har_st
  mcs_lw :: lw_st
  mcs_ieh :: ieh_st

datatype mac_proc = ExtractIpAddress | MacChecksum | MacFinalize | InsertIpChecksum | HandleArpReply | MacLshift | InsertEthernet

record mac_cfg =
  mcc_mac :: mac
  mcc_mask :: u32
  mcc_gateway :: u32
  mcc_u :: "lane list"
  mcc_v :: "112 packetHeader"

text \<open>Words for the readers.\<close>

definition cics_feed :: "net_axis list \<Rightarrow> cics_st \<Rightarrow> cics_st" where
  "cics_feed ws s = s\<lparr>cicsf_in := cicsf_in s @ ws\<rparr>"

definition isc_feed :: "net_axis list \<Rightarrow> u16 list \<Rightarrow> isc_st \<Rightarrow> isc_st" where
  "isc_feed ws cs s = s\<lparr>iscf_in := iscf_in s @ ws, iscf_checksum := iscf_checksum s @ cs\<rparr>"

definition har_feed :: "net_axis list \<Rightarrow> har_st \<Rightarrow> har_st" where
  "har_feed ws s = s\<lparr>harf_in := harf_in s @ ws\<rparr>"

definition lw_feed :: "net_axis list \<Rightarrow> lw_st \<Rightarrow> lw_st" where
  "lw_feed ws s = s\<lparr>lwf_in := lwf_in s @ ws\<rparr>"

definition ieh_feed :: "112 packetHeader list \<Rightarrow> net_axis list \<Rightarrow> ieh_st \<Rightarrow> ieh_st" where
  "ieh_feed hs ws s = s\<lparr>iehf_header := iehf_header s @ hs, iehf_in := iehf_in s @ ws\<rparr>"

definition xi_deliver :: "(u32, 160) rh_st \<Rightarrow> mac_st \<Rightarrow> mac_st" where
  "xi_deliver p s = s\<lparr>mcs_xi := p\<lparr>rhf_out := []\<rparr>, mcs_cics := cics_feed (rhf_out p) (mcs_cics s)\<rparr>"

definition cics_deliver :: "cics_st \<Rightarrow> mac_st \<Rightarrow> mac_st" where
  "cics_deliver p s = s\<lparr>mcs_cics := p\<lparr>cicsf_out := [], cicsf_sums := []\<rparr>, mcs_sums := mcs_sums s @ cicsf_sums p,
     mcs_isc := isc_feed (cicsf_out p) [] (mcs_isc s)\<rparr>"

definition isc_deliver :: "isc_st \<Rightarrow> mac_st \<Rightarrow> mac_st" where
  "isc_deliver p s = s\<lparr>mcs_isc := p\<lparr>iscf_out := []\<rparr>, mcs_har := har_feed (iscf_out p) (mcs_har s)\<rparr>"

definition har_deliver :: "har_st \<Rightarrow> mac_st \<Rightarrow> mac_st" where
  "har_deliver p s = s\<lparr>mcs_har := p\<lparr>harf_header := [], harf_out := []\<rparr>, mcs_lw := lw_feed (harf_out p) (mcs_lw s),
     mcs_ieh := ieh_feed (harf_header p) [] (mcs_ieh s)\<rparr>"

definition mlw_deliver :: "lw_st \<Rightarrow> mac_st \<Rightarrow> mac_st" where
  "mlw_deliver p s = s\<lparr>mcs_lw := p\<lparr>lwf_out := []\<rparr>, mcs_ieh := ieh_feed [] (lwf_out p) (mcs_ieh s)\<rparr>"

definition mac_act :: "mac_cfg \<Rightarrow> mac_proc \<Rightarrow> mac_st \<Rightarrow> mac_st" where
  "mac_act c p s =
    (case p of
       ExtractIpAddress \<Rightarrow> xi_deliver (extract_ip_address 64 (mcc_mask c) (mcc_gateway c) (mcs_xi s)) s
     | MacChecksum \<Rightarrow> cics_deliver (mac_compute_ipv4_checksum True (mcs_cics s)) s
     | MacFinalize \<Rightarrow> (case mac_finalize_ipv4_checksum (mcs_sums s, []) of (inp, out) \<Rightarrow>
         s\<lparr>mcs_sums := inp, mcs_isc := isc_feed [] out (mcs_isc s)\<rparr>)
     | InsertIpChecksum \<Rightarrow> isc_deliver (insert_ip_checksum 64 (mcs_isc s)) s
     | HandleArpReply \<Rightarrow> har_deliver (handle_arp_reply (mcc_mac c) (mcc_v c) (mcs_har s)) s
     | MacLshift \<Rightarrow> mlw_deliver (mac_lshiftWordByOctet 64 14 (mcs_lw s)) s
     | InsertEthernet \<Rightarrow> s\<lparr>mcs_ieh := insert_ethernet_header 64 (mcc_u c) (mcs_ieh s)\<rparr>)"

definition mac_ip_encode :: "mac_cfg \<Rightarrow> mac_st \<Rightarrow> mac_st" where
  "mac_ip_encode c =
     fold (mac_act c) [ExtractIpAddress, MacChecksum, MacFinalize, InsertIpChecksum, HandleArpReply, MacLshift, InsertEthernet]"

subsection \<open>The order of the processes does not matter\<close>

definition mac_can :: "mac_proc \<Rightarrow> mac_st \<Rightarrow> bool" where
  "mac_can p s =
    (case p of
       ExtractIpAddress \<Rightarrow> rhf_in (mcs_xi s) \<noteq> []
     | MacChecksum \<Rightarrow> cicsf_in (mcs_cics s) \<noteq> []
     | MacFinalize \<Rightarrow> mcs_sums s \<noteq> []
     | InsertIpChecksum \<Rightarrow> iscf_in (mcs_isc s) \<noteq> [] \<and> (isc_wordCount (mcs_isc s) = 0 \<longrightarrow> iscf_checksum (mcs_isc s) \<noteq> [])
     | HandleArpReply \<Rightarrow> harf_in (mcs_har s) \<noteq> [] \<and> (har_state (mcs_har s) = HAR_ARP \<longrightarrow> harf_arp (mcs_har s) \<noteq> [])
     | MacLshift \<Rightarrow> lw_writeRemainder (mcs_lw s) \<or> lwf_in (mcs_lw s) \<noteq> []
     | InsertEthernet \<Rightarrow> (case ieh_state (mcs_ieh s) of IEH_HEADER \<Rightarrow> iehf_header (mcs_ieh s) \<noteq> []
         | IEH_PARTIAL_HEADER \<Rightarrow> iehf_header (mcs_ieh s) \<noteq> [] \<and> iehf_in (mcs_ieh s) \<noteq> []
         | IEH_BODY \<Rightarrow> iehf_in (mcs_ieh s) \<noteq> []))"

text \<open>Everything that was written has been handed over.\<close>

definition mac_inv :: "mac_st \<Rightarrow> bool" where
  "mac_inv s \<longleftrightarrow> rhf_out (mcs_xi s) = [] \<and> cicsf_out (mcs_cics s) = [] \<and> cicsf_sums (mcs_cics s) = [] \<and> iscf_out (mcs_isc s) = []
     \<and> harf_header (mcs_har s) = [] \<and> harf_out (mcs_har s) = [] \<and> lwf_out (mcs_lw s) = []"

lemma feed_fields [simp]:
  "cicsf_in (cics_feed ws c) = cicsf_in c @ ws" "cicsf_out (cics_feed ws c) = cicsf_out c" "cicsf_sums (cics_feed ws c) = cicsf_sums c"
  "iscf_in (isc_feed ws cs i) = iscf_in i @ ws" "iscf_checksum (isc_feed ws cs i) = iscf_checksum i @ cs"
  "iscf_out (isc_feed ws cs i) = iscf_out i" "isc_wordCount (isc_feed ws cs i) = isc_wordCount i"
  "harf_in (har_feed ws h) = harf_in h @ ws" "harf_arp (har_feed ws h) = harf_arp h" "harf_out (har_feed ws h) = harf_out h"
  "harf_header (har_feed ws h) = harf_header h" "har_state (har_feed ws h) = har_state h"
  "lwf_in (lw_feed ws l) = lwf_in l @ ws" "lwf_out (lw_feed ws l) = lwf_out l" "lw_writeRemainder (lw_feed ws l) = lw_writeRemainder l"
  "iehf_in (ieh_feed hs ws e) = iehf_in e @ ws" "iehf_header (ieh_feed hs ws e) = iehf_header e @ hs"
  "ieh_state (ieh_feed hs ws e) = ieh_state e" "iehf_out (ieh_feed hs ws e) = iehf_out e"
  by (simp_all add: cics_feed_def isc_feed_def har_feed_def lw_feed_def ieh_feed_def)

text \<open>Words that arrive behind those a process is going to read do not change its step.\<close>

lemma cics_more:
  "cicsf_in s \<noteq> [] \<Longrightarrow> compute_ipv4_checksum k (cics_feed ws s) = cics_feed ws (compute_ipv4_checksum k s)"
  by (simp add: compute_ipv4_checksum_def Let_def cics_feed_def)

lemma finalize_more:
  "xs \<noteq> [] \<Longrightarrow> finalize_ipv4_checksum (xs @ ys, out) = (fst (finalize_ipv4_checksum (xs, out)) @ ys, snd (finalize_ipv4_checksum (xs, out)))"
  by (simp add: finalize_ipv4_checksum_def)

lemma isc_more:
  "iscf_in s \<noteq> [] \<Longrightarrow> isc_wordCount s = 0 \<longrightarrow> iscf_checksum s \<noteq> []
     \<Longrightarrow> insert_ip_checksum W (isc_feed ws cs s) = isc_feed ws cs (insert_ip_checksum W s)"
  by (auto simp: insert_ip_checksum_def Let_def isc_feed_def)

lemma har_more:
  "harf_in s \<noteq> [] \<Longrightarrow> har_state s = HAR_ARP \<longrightarrow> harf_arp s \<noteq> []
     \<Longrightarrow> handle_arp_reply m v (har_feed ws s) = har_feed ws (handle_arp_reply m v s)"
  by (cases "har_state s") (simp_all add: handle_arp_reply_def Let_def har_feed_def)

lemma lw_more:
  "lw_writeRemainder s \<or> lwf_in s \<noteq> [] \<Longrightarrow> lshiftWordByOctet W off (lw_feed ws s) = lw_feed ws (lshiftWordByOctet W off s)"
  by (auto simp: lshiftWordByOctet_def Let_def lw_feed_def)

lemma ieh_more:
  "112 < 8 * W \<Longrightarrow> (case ieh_state s of IEH_HEADER \<Rightarrow> iehf_header s \<noteq> [] | IEH_PARTIAL_HEADER \<Rightarrow> iehf_header s \<noteq> [] \<and> iehf_in s \<noteq> []
     | IEH_BODY \<Rightarrow> iehf_in s \<noteq> [])
     \<Longrightarrow> insert_ethernet_header W u (ieh_feed hs ws s) = ieh_feed hs ws (insert_ethernet_header W u s)"
  by (cases "ieh_state s") (simp_all add: insert_ethernet_header_def Let_def ieh_feed_def case_prod_unfold)

lemma feed_join [simp]:
  "cics_feed vs (cics_feed ws c) = cics_feed (ws @ vs) c" "isc_feed vs bs (isc_feed ws cs i) = isc_feed (ws @ vs) (cs @ bs) i"
  "har_feed vs (har_feed ws h) = har_feed (ws @ vs) h" "lw_feed vs (lw_feed ws l) = lw_feed (ws @ vs) l"
  "ieh_feed gs vs (ieh_feed hs ws e) = ieh_feed (hs @ gs) (ws @ vs) e"
  by (simp_all add: cics_feed_def isc_feed_def har_feed_def lw_feed_def ieh_feed_def)

lemma feed_clear:
  "(cics_feed ws c)\<lparr>cicsf_out := [], cicsf_sums := []\<rparr> = cics_feed ws (c\<lparr>cicsf_out := [], cicsf_sums := []\<rparr>)"
  "(isc_feed ws cs i)\<lparr>iscf_out := []\<rparr> = isc_feed ws cs (i\<lparr>iscf_out := []\<rparr>)"
  "(har_feed ws h)\<lparr>harf_header := [], harf_out := []\<rparr> = har_feed ws (h\<lparr>harf_header := [], harf_out := []\<rparr>)"
  "(lw_feed ws l)\<lparr>lwf_out := []\<rparr> = lw_feed ws (l\<lparr>lwf_out := []\<rparr>)"
  by (simp_all add: cics_feed_def isc_feed_def har_feed_def lw_feed_def)

lemmas mac_deliver = xi_deliver_def cics_deliver_def isc_deliver_def har_deliver_def mlw_deliver_def
lemmas mac_copies = mac_compute_ipv4_checksum_def mac_finalize_ipv4_checksum_def mac_lshiftWordByOctet_def
lemmas mac_more = cics_more finalize_more isc_more har_more lw_more ieh_more
lemmas mac_network = mac_act_def mac_can_def mac_deliver mac_copies

lemma feed_nothing [simp]:
  "cics_feed [] c = c" "isc_feed [] [] i = i" "har_feed [] h = h" "lw_feed [] l = l" "ieh_feed [] [] e = e"
  by (simp_all add: cics_feed_def isc_feed_def har_feed_def lw_feed_def ieh_feed_def)

lemma mac_idle: "mac_inv s \<Longrightarrow> \<not> mac_can p s \<Longrightarrow> mac_act c p s = s"
proof (cases p)
  case MacFinalize
  assume "\<not> mac_can p s"
  then show ?thesis using MacFinalize by (simp add: mac_network finalize_ipv4_checksum_def)
next
  case InsertEthernet
  assume "\<not> mac_can p s"
  then have "insert_ethernet_header 64 u (mcs_ieh s) = mcs_ieh s" for u
    using InsertEthernet by (cases "ieh_state (mcs_ieh s)") (auto simp: mac_can_def insert_ethernet_header_def)
  then show ?thesis using InsertEthernet by (simp add: mac_act_def)
next
  case HandleArpReply
  assume "\<not> mac_can p s" "mac_inv s"
  then have "handle_arp_reply m v (mcs_har s) = mcs_har s" for m v
    using HandleArpReply by (cases "har_state (mcs_har s)") (auto simp: mac_can_def handle_arp_reply_def)
  then show ?thesis using HandleArpReply \<open>mac_inv s\<close> by (simp add: mac_network mac_inv_def)
next
  case InsertIpChecksum
  assume "\<not> mac_can p s" "mac_inv s"
  then have "insert_ip_checksum 64 (mcs_isc s) = mcs_isc s" using InsertIpChecksum by (auto simp: mac_can_def insert_ip_checksum_def)
  then show ?thesis using InsertIpChecksum \<open>mac_inv s\<close> by (simp add: mac_network mac_inv_def)
qed (simp_all add: mac_network mac_inv_def extract_ip_address_def read_header_def compute_ipv4_checksum_def lshiftWordByOctet_def)

interpretation mcs: dataflow mac_inv mac_can "mac_act c" for c
proof
  fix p q and s :: mac_st
  assume inv: "mac_inv s"
  show "mac_inv (mac_act c p s)" using inv by (cases p) (simp_all add: mac_network mac_inv_def split: prod.splits)
  show "\<not> mac_can p s \<Longrightarrow> mac_act c p s = s" using inv by (rule mac_idle)
  assume a: "p \<noteq> q" "mac_can p s" "mac_can q s"
  show "mac_can p (mac_act c q s)"
    using a by (cases p; cases q) (simp_all add: mac_network case_prod_unfold split: ieh_fsm.splits, blast?)
  show "mac_act c p (mac_act c q s) = mac_act c q (mac_act c p s)"
    using a by (cases p; cases q) (simp_all add: mac_network mac_more feed_clear case_prod_unfold)
qed

end
