(* ===== verification/Ip_Handler.thy ===== *)
theory Ip_Handler
  imports Mac_Encode
begin

text \<open>
  The dispatcher behind the network (\<^verbatim>\<open>ip_handler/ip_handler.cpp\<close>): it takes the Ethernet header off a frame, checks the IPv4 header
  and hands the packet to the module for its protocol. The twelve processes, and the module as the network of them, at
  the width of 512 bits.
\<close>

subsection \<open>By Ethernet type\<close>

definition ARP :: u16 where "ARP = 0x0806"
definition IPv4 :: u16 where "IPv4 = 0x0800"
definition IPv6 :: u16 where "IPv6 = 0x86DD"
definition ICMP :: "8 word" where "ICMP = 0x01"
definition ICMPv6 :: "8 word" where "ICMPv6 = 0x3a"
definition UDP :: "8 word" where "UDP = 0x11"
definition TCP :: "8 word" where "TCP = 0x06"

definition detect_eth_protocol :: "nat \<Rightarrow> (u16, 112) rh_st \<Rightarrow> (u16, 112) rh_st" where
  "detect_eth_protocol W = read_header W eth_getEthertype"

record rep_st =
  rep_fsmState :: bool
  rep_etherType :: u16
  repf_type :: "u16 fifo"
  repf_in :: "net_axis fifo"
  repf_arp :: "net_axis fifo"
  repf_ip :: "net_axis fifo"
  repf_ipv6 :: "net_axis fifo"

definition rep_write :: "bool \<Rightarrow> net_axis \<Rightarrow> rep_st \<Rightarrow> rep_st" where
  "rep_write ip w s =
    (if rep_etherType s = ARP then s\<lparr>repf_arp := repf_arp s @ [w]\<rparr>
     else if rep_etherType s = IPv4 \<and> ip then s\<lparr>repf_ip := repf_ip s @ [w]\<rparr>
     else if rep_etherType s = IPv6 \<and> ip then s\<lparr>repf_ipv6 := repf_ipv6 s @ [w]\<rparr>
     else s)"

definition route_by_eth_protocol :: "nat \<Rightarrow> rep_st \<Rightarrow> rep_st" where
  "route_by_eth_protocol W s =
    (if \<not> rep_fsmState s then
       (if repf_type s \<noteq> [] \<and> repf_in s \<noteq> [] then
          (let w = hd (repf_in s);
               s = s\<lparr>rep_etherType := hd (repf_type s), repf_type := tl (repf_type s), repf_in := tl (repf_in s)\<rparr> in
           (rep_write (64 < 8 * W) w s)\<lparr>rep_fsmState := (\<not> ax_last w)\<rparr>)
        else s)
     else
       (if repf_in s \<noteq> [] then
          (let w = hd (repf_in s) in (rep_write True w (s\<lparr>repf_in := tl (repf_in s)\<rparr>))\<lparr>rep_fsmState := (\<not> ax_last w)\<rparr>)
        else s))"

text \<open>Copies for this module, with the same text as the originals.\<close>

definition ip_handler_rshiftWordByOctet :: "nat \<Rightarrow> nat \<Rightarrow> rw_st \<Rightarrow> rw_st" where
  "ip_handler_rshiftWordByOctet = rshiftWordByOctet"

definition ip_handler_compute_ipv4_checksum :: "bool \<Rightarrow> cics_st \<Rightarrow> cics_st" where
  "ip_handler_compute_ipv4_checksum = compute_ipv4_checksum"

definition ip_handler_check_ipv4_checksum :: "subSums fifo \<times> bool fifo \<Rightarrow> subSums fifo \<times> bool fifo" where
  "ip_handler_check_ipv4_checksum = toe_check_ipv4_checksum"

subsection \<open>The IPv4 header is checked\<close>

definition ip_accepts :: "u32 \<Rightarrow> u32 \<Rightarrow> bool" where
  "ip_accepts myIpAddress dst \<longleftrightarrow> dst = myIpAddress \<or> dst = 0xFFFFFFFF"

text \<open>The two streams written together, the protocol and whether the packet is for this board.\<close>

definition extract_ip_meta :: "nat \<Rightarrow> u32 \<Rightarrow> (8 word \<times> bool, 160) rh_st \<Rightarrow> (8 word \<times> bool, 160) rh_st" where
  "extract_ip_meta W myIpAddress = read_header W (\<lambda>h. (ip_getProtocol h, ip_accepts myIpAddress (ip_getDstAddr h)))"

datatype iid_fsm = GET_VALID | IID_FWD | IID_DROP

record iid_st =
  iid_state :: iid_fsm
  iidf_in :: "net_axis fifo"
  iidf_checksum :: "bool fifo"
  iidf_address :: "bool fifo"
  iidf_out :: "net_axis fifo"
  iidf_valid :: "bool fifo"

definition ip_invalid_dropper :: "iid_st \<Rightarrow> iid_st" where
  "ip_invalid_dropper s =
    (case iid_state s of
       GET_VALID \<Rightarrow>
         (if iidf_checksum s \<noteq> [] \<and> iidf_address s \<noteq> [] then
            (let ok = (hd (iidf_checksum s) \<and> hd (iidf_address s)) in
             s\<lparr>iidf_checksum := tl (iidf_checksum s), iidf_address := tl (iidf_address s), iidf_valid := iidf_valid s @ [ok],
               iid_state := (if ok then IID_FWD else IID_DROP)\<rparr>)
          else s)
     | IID_FWD \<Rightarrow>
         (if iidf_in s \<noteq> [] then
            (let w = hd (iidf_in s) in
             s\<lparr>iidf_in := tl (iidf_in s), iidf_out := iidf_out s @ [w], iid_state := (if ax_last w then GET_VALID else IID_FWD)\<rparr>)
          else s)
     | IID_DROP \<Rightarrow>
         (if iidf_in s \<noteq> [] then
            s\<lparr>iidf_in := tl (iidf_in s), iid_state := (if ax_last (hd (iidf_in s)) then GET_VALID else IID_DROP)\<rparr>
          else s))"

text \<open>The overload for 512 bits.\<close>

record cl_st =
  cl_rest :: bool
  clf_in :: "net_axis fifo"
  clf_out :: "net_axis fifo"

definition total_length :: "net_axis \<Rightarrow> u16" where
  "total_length w = range_set 15 8 (fst (ax_lanes w ! 2)) (range_set 7 0 (fst (ax_lanes w ! 3)) 0)"

definition cut_length :: "cl_st \<Rightarrow> cl_st" where
  "cut_length s =
    (if clf_in s \<noteq> [] then
       (let w = hd (clf_in s); s = s\<lparr>clf_in := tl (clf_in s)\<rparr> in
        if \<not> cl_rest s then
          (if ax_last w then s\<lparr>clf_out := clf_out s @ [set_keep (lenToKeep (ucast (total_length w))) w]\<rparr>
           else s\<lparr>clf_out := clf_out s @ [w], cl_rest := True\<rparr>)
        else s\<lparr>clf_out := clf_out s @ [w], cl_rest := (\<not> ax_last w)\<rparr>)
     else s)"

subsection \<open>By protocol\<close>

record dip_st =
  dip_pkg :: bool
  dip_ipProtocol :: "8 word"
  dipf_protocol :: "8 word fifo"
  dipf_valid :: "bool fifo"
  dipf_in :: "net_axis fifo"
  dipf_icmp :: "net_axis fifo"
  dipf_udp :: "net_axis fifo"
  dipf_tcp :: "net_axis fifo"

definition detect_ipv4_protocol :: "dip_st \<Rightarrow> dip_st" where
  "detect_ipv4_protocol s =
    (if \<not> dip_pkg s then
       (if dipf_protocol s \<noteq> [] \<and> dipf_valid s \<noteq> [] then
          s\<lparr>dip_ipProtocol := hd (dipf_protocol s), dipf_protocol := tl (dipf_protocol s), dipf_valid := tl (dipf_valid s),
            dip_pkg := hd (dipf_valid s)\<rparr>
        else s)
     else
       (if dipf_in s \<noteq> [] then
          (let w = hd (dipf_in s); s = s\<lparr>dipf_in := tl (dipf_in s), dip_pkg := (\<not> ax_last w)\<rparr> in
           if dip_ipProtocol s = ICMP then s\<lparr>dipf_icmp := dipf_icmp s @ [w]\<rparr>
           else if dip_ipProtocol s = UDP then s\<lparr>dipf_udp := dipf_udp s @ [w]\<rparr>
           else if dip_ipProtocol s = TCP then s\<lparr>dipf_tcp := dipf_tcp s @ [w]\<rparr>
           else s)
        else s))"

record di6_st =
  di6_state :: bool
  di6_nextHeader :: "8 word"
  di6f_in :: "net_axis fifo"
  di6f_icmpv6 :: "net_axis fifo"
  di6f_udp :: "net_axis fifo"

definition detect_ipv6_protocol :: "di6_st \<Rightarrow> di6_st" where
  "detect_ipv6_protocol s =
    (if di6f_in s \<noteq> [] then
       (let w = hd (di6f_in s); s = s\<lparr>di6f_in := tl (di6f_in s)\<rparr>;
            s = (if \<not> di6_state s then s\<lparr>di6_nextHeader := fst (ax_lanes w ! 6)\<rparr> else s);
            s = (if di6_nextHeader s = ICMPv6 then s\<lparr>di6f_icmpv6 := di6f_icmpv6 s @ [w]\<rparr>
                 else if di6_nextHeader s = UDP then s\<lparr>di6f_udp := di6f_udp s @ [w]\<rparr> else s) in
        s\<lparr>di6_state := (\<not> ax_last w)\<rparr>)
     else s)"

definition ip_handler_duplicate_stream :: "net_axis fifo \<times> net_axis fifo \<times> net_axis fifo \<Rightarrow> net_axis fifo \<times> net_axis fifo \<times> net_axis fifo" where
  "ip_handler_duplicate_stream = (\<lambda>(inp, out0, out1).
     if inp \<noteq> [] then (tl inp, out0 @ [hd inp], out1 @ [hd inp]) else (inp, out0, out1))"

subsection \<open>The module\<close>

text \<open>The streams that leave it are \<open>repf_arp\<close>, \<open>di6f_icmpv6\<close>, \<open>di6f_udp\<close>, \<open>dipf_icmp\<close>, \<open>dipf_tcp\<close> and the last two of the record.\<close>

record ih_st =
  ih_eth :: "(u16, 112) rh_st"
  ih_rep :: rep_st
  ih_rs4 :: rw_st
  ih_rs6 :: rw_st
  ih_meta :: "(8 word \<times> bool, 160) rh_st"
  ih_cics :: cics_st
  ih_sums :: "subSums fifo"
  ih_iid :: iid_st
  ih_cl :: cl_st
  ih_dip :: dip_st
  ih_di6 :: di6_st
  ih_udp :: "net_axis fifo"
  ih_m_udp :: "net_axis fifo"
  ih_m_roce :: "net_axis fifo"

datatype ih_proc = DetectEth | RouteEth | Rshift4 | Rshift6 | ExtractMeta | IhChecksum | IhCheck | InvalidDropper | CutLength
  | DetectIpv4 | DetectIpv6 | DuplicateUdp

definition rep_feed :: "u16 list \<Rightarrow> net_axis list \<Rightarrow> rep_st \<Rightarrow> rep_st" where
  "rep_feed ts ws s = s\<lparr>repf_type := repf_type s @ ts, repf_in := repf_in s @ ws\<rparr>"

definition rw_feed :: "net_axis list \<Rightarrow> rw_st \<Rightarrow> rw_st" where
  "rw_feed ws s = s\<lparr>rwf_in := rwf_in s @ ws\<rparr>"

definition rh_feed :: "net_axis list \<Rightarrow> ('m, 'h::len) rh_st \<Rightarrow> ('m, 'h) rh_st" where
  "rh_feed ws s = s\<lparr>rhf_in := rhf_in s @ ws\<rparr>"

definition iid_feed :: "net_axis list \<Rightarrow> bool list \<Rightarrow> bool list \<Rightarrow> iid_st \<Rightarrow> iid_st" where
  "iid_feed ws cs as s = s\<lparr>iidf_in := iidf_in s @ ws, iidf_checksum := iidf_checksum s @ cs, iidf_address := iidf_address s @ as\<rparr>"

definition cl_feed :: "net_axis list \<Rightarrow> cl_st \<Rightarrow> cl_st" where
  "cl_feed ws s = s\<lparr>clf_in := clf_in s @ ws\<rparr>"

definition dip_feed :: "8 word list \<Rightarrow> bool list \<Rightarrow> net_axis list \<Rightarrow> dip_st \<Rightarrow> dip_st" where
  "dip_feed ps vs ws s = s\<lparr>dipf_protocol := dipf_protocol s @ ps, dipf_valid := dipf_valid s @ vs, dipf_in := dipf_in s @ ws\<rparr>"

definition di6_feed :: "net_axis list \<Rightarrow> di6_st \<Rightarrow> di6_st" where
  "di6_feed ws s = s\<lparr>di6f_in := di6f_in s @ ws\<rparr>"

definition eth_deliver :: "(u16, 112) rh_st \<Rightarrow> ih_st \<Rightarrow> ih_st" where
  "eth_deliver p s = s\<lparr>ih_eth := p\<lparr>rhf_out := [], rhf_meta := []\<rparr>, ih_rep := rep_feed (rhf_meta p) (rhf_out p) (ih_rep s)\<rparr>"

definition rep_deliver :: "rep_st \<Rightarrow> ih_st \<Rightarrow> ih_st" where
  "rep_deliver p s = s\<lparr>ih_rep := p\<lparr>repf_ip := [], repf_ipv6 := []\<rparr>, ih_rs4 := rw_feed (repf_ip p) (ih_rs4 s),
     ih_rs6 := rw_feed (repf_ipv6 p) (ih_rs6 s)\<rparr>"

definition rs4_deliver :: "rw_st \<Rightarrow> ih_st \<Rightarrow> ih_st" where
  "rs4_deliver p s = s\<lparr>ih_rs4 := p\<lparr>rwf_out := []\<rparr>, ih_meta := rh_feed (rwf_out p) (ih_meta s)\<rparr>"

definition rs6_deliver :: "rw_st \<Rightarrow> ih_st \<Rightarrow> ih_st" where
  "rs6_deliver p s = s\<lparr>ih_rs6 := p\<lparr>rwf_out := []\<rparr>, ih_di6 := di6_feed (rwf_out p) (ih_di6 s)\<rparr>"

definition meta_deliver :: "(8 word \<times> bool, 160) rh_st \<Rightarrow> ih_st \<Rightarrow> ih_st" where
  "meta_deliver p s = s\<lparr>ih_meta := p\<lparr>rhf_out := [], rhf_meta := []\<rparr>, ih_cics := cics_feed (rhf_out p) (ih_cics s),
     ih_dip := dip_feed (map fst (rhf_meta p)) [] [] (ih_dip s), ih_iid := iid_feed [] [] (map snd (rhf_meta p)) (ih_iid s)\<rparr>"

definition ihc_deliver :: "cics_st \<Rightarrow> ih_st \<Rightarrow> ih_st" where
  "ihc_deliver p s = s\<lparr>ih_cics := p\<lparr>cicsf_out := [], cicsf_sums := []\<rparr>, ih_sums := ih_sums s @ cicsf_sums p,
     ih_iid := iid_feed (cicsf_out p) [] [] (ih_iid s)\<rparr>"

definition iid_deliver :: "iid_st \<Rightarrow> ih_st \<Rightarrow> ih_st" where
  "iid_deliver p s = s\<lparr>ih_iid := p\<lparr>iidf_out := [], iidf_valid := []\<rparr>, ih_cl := cl_feed (iidf_out p) (ih_cl s),
     ih_dip := dip_feed [] (iidf_valid p) [] (ih_dip s)\<rparr>"

definition cl_deliver :: "cl_st \<Rightarrow> ih_st \<Rightarrow> ih_st" where
  "cl_deliver p s = s\<lparr>ih_cl := p\<lparr>clf_out := []\<rparr>, ih_dip := dip_feed [] [] (clf_out p) (ih_dip s)\<rparr>"

definition dip_deliver :: "dip_st \<Rightarrow> ih_st \<Rightarrow> ih_st" where
  "dip_deliver p s = s\<lparr>ih_dip := p\<lparr>dipf_udp := []\<rparr>, ih_udp := ih_udp s @ dipf_udp p\<rparr>"

definition ih_act :: "u32 \<Rightarrow> ih_proc \<Rightarrow> ih_st \<Rightarrow> ih_st" where
  "ih_act myIpAddress p s =
    (case p of
       DetectEth \<Rightarrow> eth_deliver (detect_eth_protocol 64 (ih_eth s)) s
     | RouteEth \<Rightarrow> rep_deliver (route_by_eth_protocol 64 (ih_rep s)) s
     | Rshift4 \<Rightarrow> rs4_deliver (ip_handler_rshiftWordByOctet 64 14 (ih_rs4 s)) s
     | Rshift6 \<Rightarrow> rs6_deliver (ip_handler_rshiftWordByOctet 64 14 (ih_rs6 s)) s
     | ExtractMeta \<Rightarrow> meta_deliver (extract_ip_meta 64 myIpAddress (ih_meta s)) s
     | IhChecksum \<Rightarrow> ihc_deliver (ip_handler_compute_ipv4_checksum False (ih_cics s)) s
     | IhCheck \<Rightarrow> (case ip_handler_check_ipv4_checksum (ih_sums s, []) of (inp, out) \<Rightarrow>
         s\<lparr>ih_sums := inp, ih_iid := iid_feed [] out [] (ih_iid s)\<rparr>)
     | InvalidDropper \<Rightarrow> iid_deliver (ip_invalid_dropper (ih_iid s)) s
     | CutLength \<Rightarrow> cl_deliver (cut_length (ih_cl s)) s
     | DetectIpv4 \<Rightarrow> dip_deliver (detect_ipv4_protocol (ih_dip s)) s
     | DetectIpv6 \<Rightarrow> s\<lparr>ih_di6 := detect_ipv6_protocol (ih_di6 s)\<rparr>
     | DuplicateUdp \<Rightarrow> (case ip_handler_duplicate_stream (ih_udp s, ih_m_udp s, ih_m_roce s) of (inp, out0, out1) \<Rightarrow>
         s\<lparr>ih_udp := inp, ih_m_udp := out0, ih_m_roce := out1\<rparr>))"

definition ip_handler :: "u32 \<Rightarrow> ih_st \<Rightarrow> ih_st" where
  "ip_handler myIpAddress =
     fold (ih_act myIpAddress) [DetectEth, RouteEth, Rshift4, Rshift6, ExtractMeta, IhChecksum, IhCheck, InvalidDropper, CutLength,
       DetectIpv4, DetectIpv6, DuplicateUdp]"

subsection \<open>The order of the processes does not matter\<close>

definition ih_can :: "ih_proc \<Rightarrow> ih_st \<Rightarrow> bool" where
  "ih_can p s =
    (case p of
       DetectEth \<Rightarrow> rhf_in (ih_eth s) \<noteq> []
     | RouteEth \<Rightarrow> repf_in (ih_rep s) \<noteq> [] \<and> (rep_fsmState (ih_rep s) \<or> repf_type (ih_rep s) \<noteq> [])
     | Rshift4 \<Rightarrow> rw_can (ih_rs4 s)
     | Rshift6 \<Rightarrow> rw_can (ih_rs6 s)
     | ExtractMeta \<Rightarrow> rhf_in (ih_meta s) \<noteq> []
     | IhChecksum \<Rightarrow> cicsf_in (ih_cics s) \<noteq> []
     | IhCheck \<Rightarrow> ih_sums s \<noteq> []
     | InvalidDropper \<Rightarrow> (if iid_state (ih_iid s) = GET_VALID then iidf_checksum (ih_iid s) \<noteq> [] \<and> iidf_address (ih_iid s) \<noteq> []
         else iidf_in (ih_iid s) \<noteq> [])
     | CutLength \<Rightarrow> clf_in (ih_cl s) \<noteq> []
     | DetectIpv4 \<Rightarrow> (if dip_pkg (ih_dip s) then dipf_in (ih_dip s) \<noteq> [] else dipf_protocol (ih_dip s) \<noteq> [] \<and> dipf_valid (ih_dip s) \<noteq> [])
     | DetectIpv6 \<Rightarrow> di6f_in (ih_di6 s) \<noteq> []
     | DuplicateUdp \<Rightarrow> ih_udp s \<noteq> [])"

definition ih_inv :: "ih_st \<Rightarrow> bool" where
  "ih_inv s \<longleftrightarrow> rhf_out (ih_eth s) = [] \<and> rhf_meta (ih_eth s) = [] \<and> repf_ip (ih_rep s) = [] \<and> repf_ipv6 (ih_rep s) = []
     \<and> rwf_out (ih_rs4 s) = [] \<and> rwf_out (ih_rs6 s) = [] \<and> rhf_out (ih_meta s) = [] \<and> rhf_meta (ih_meta s) = []
     \<and> cicsf_out (ih_cics s) = [] \<and> cicsf_sums (ih_cics s) = [] \<and> iidf_out (ih_iid s) = [] \<and> iidf_valid (ih_iid s) = []
     \<and> clf_out (ih_cl s) = [] \<and> dipf_udp (ih_dip s) = []"

lemma ih_feed_fields [simp]:
  "repf_type (rep_feed ts ws r) = repf_type r @ ts" "repf_in (rep_feed ts ws r) = repf_in r @ ws" "repf_ip (rep_feed ts ws r) = repf_ip r"
  "repf_ipv6 (rep_feed ts ws r) = repf_ipv6 r" "rep_fsmState (rep_feed ts ws r) = rep_fsmState r" "repf_arp (rep_feed ts ws r) = repf_arp r"
  "rwf_in (rw_feed ws x) = rwf_in x @ ws" "rwf_out (rw_feed ws x) = rwf_out x"
  "rw_remainder (rw_feed ws x) = rw_remainder x" "rw_firstWord (rw_feed ws x) = rw_firstWord x"
  "iidf_in (iid_feed ws cs as i) = iidf_in i @ ws" "iidf_checksum (iid_feed ws cs as i) = iidf_checksum i @ cs"
  "iidf_address (iid_feed ws cs as i) = iidf_address i @ as" "iidf_out (iid_feed ws cs as i) = iidf_out i"
  "iidf_valid (iid_feed ws cs as i) = iidf_valid i" "iid_state (iid_feed ws cs as i) = iid_state i"
  "clf_in (cl_feed ws l) = clf_in l @ ws" "clf_out (cl_feed ws l) = clf_out l" "cl_rest (cl_feed ws l) = cl_rest l"
  "dipf_protocol (dip_feed ps vs ws d) = dipf_protocol d @ ps" "dipf_valid (dip_feed ps vs ws d) = dipf_valid d @ vs"
  "dipf_in (dip_feed ps vs ws d) = dipf_in d @ ws" "dipf_udp (dip_feed ps vs ws d) = dipf_udp d" "dip_pkg (dip_feed ps vs ws d) = dip_pkg d"
  "dipf_icmp (dip_feed ps vs ws d) = dipf_icmp d" "dipf_tcp (dip_feed ps vs ws d) = dipf_tcp d"
  "di6f_in (di6_feed ws e) = di6f_in e @ ws" "di6_state (di6_feed ws e) = di6_state e" "di6f_icmpv6 (di6_feed ws e) = di6f_icmpv6 e"
  "di6f_udp (di6_feed ws e) = di6f_udp e"
  by (simp_all add: rep_feed_def rw_feed_def iid_feed_def cl_feed_def dip_feed_def di6_feed_def)

lemma rh_feed_fields [simp]:
  "rhf_in (rh_feed ws (h :: ('m, 'h::len) rh_st)) = rhf_in h @ ws" "rhf_out (rh_feed ws h) = rhf_out h"
  "rhf_meta (rh_feed ws h) = rhf_meta h" "rh_idle (rh_feed ws h) = rh_idle h"
  by (simp_all add: rh_feed_def rh_idle_def)

lemma ih_feed_join [simp]:
  "rep_feed ts vs (rep_feed us ws r) = rep_feed (us @ ts) (ws @ vs) r" "rw_feed vs (rw_feed ws x) = rw_feed (ws @ vs) x"
  "iid_feed vs bs cs (iid_feed ws ds es i) = iid_feed (ws @ vs) (ds @ bs) (es @ cs) i" "cl_feed vs (cl_feed ws l) = cl_feed (ws @ vs) l"
  "dip_feed ps bs vs (dip_feed qs cs ws d) = dip_feed (qs @ ps) (cs @ bs) (ws @ vs) d" "di6_feed vs (di6_feed ws e) = di6_feed (ws @ vs) e"
  by (simp_all add: rep_feed_def rw_feed_def iid_feed_def cl_feed_def dip_feed_def di6_feed_def)

lemma rh_feed_join [simp]: "rh_feed vs (rh_feed ws (h :: ('m, 'h::len) rh_st)) = rh_feed (ws @ vs) h"
  by (simp add: rh_feed_def)

lemma ih_feed_nothing [simp]:
  "rep_feed [] [] r = r" "rw_feed [] x = x" "iid_feed [] [] [] i = i" "cl_feed [] l = l" "dip_feed [] [] [] d = d" "di6_feed [] e = e"
  by (simp_all add: rep_feed_def rw_feed_def iid_feed_def cl_feed_def dip_feed_def di6_feed_def)

lemma rh_feed_nothing [simp]: "rh_feed [] (h :: ('m, 'h::len) rh_st) = h"
  by (simp add: rh_feed_def)

lemma ih_feed_clear:
  "(rep_feed ts ws r)\<lparr>repf_ip := [], repf_ipv6 := []\<rparr> = rep_feed ts ws (r\<lparr>repf_ip := [], repf_ipv6 := []\<rparr>)"
  "(rw_feed ws x)\<lparr>rwf_out := []\<rparr> = rw_feed ws (x\<lparr>rwf_out := []\<rparr>)"
  "(iid_feed ws cs as i)\<lparr>iidf_out := [], iidf_valid := []\<rparr> = iid_feed ws cs as (i\<lparr>iidf_out := [], iidf_valid := []\<rparr>)"
  "(cl_feed ws l)\<lparr>clf_out := []\<rparr> = cl_feed ws (l\<lparr>clf_out := []\<rparr>)"
  "(dip_feed ps vs ws d)\<lparr>dipf_udp := []\<rparr> = dip_feed ps vs ws (d\<lparr>dipf_udp := []\<rparr>)"
  by (simp_all add: rep_feed_def rw_feed_def iid_feed_def cl_feed_def dip_feed_def)

lemma rh_feed_clear:
  "(rh_feed ws (h :: ('m, 'h::len) rh_st))\<lparr>rhf_out := [], rhf_meta := []\<rparr> = rh_feed ws (h\<lparr>rhf_out := [], rhf_meta := []\<rparr>)"
  by (simp add: rh_feed_def)

text \<open>Words that arrive behind those a process is going to read do not change its step.\<close>

lemma rep_more:
  "repf_in s \<noteq> [] \<Longrightarrow> rep_fsmState s \<or> repf_type s \<noteq> []
     \<Longrightarrow> route_by_eth_protocol W (rep_feed ts ws s) = rep_feed ts ws (route_by_eth_protocol W s)"
  by (auto simp: route_by_eth_protocol_def rep_write_def Let_def rep_feed_def)

lemma rw_more_feed: "rw_can s \<Longrightarrow> rshiftWordByOctet W off (rw_feed ws s) = rw_feed ws (rshiftWordByOctet W off s)"
  unfolding rw_feed_def by (rule rw_more)

lemma rw_feed_can: "rw_can s \<Longrightarrow> rw_can (rw_feed ws s)"
  by (auto simp: rw_can_def rw_feed_def)

lemma rh_more_feed:
  "rhf_in s \<noteq> [] \<Longrightarrow> read_header W f (rh_feed ws (s :: ('m, 'h::len) rh_st)) = rh_feed ws (read_header W f s)"
  unfolding rh_feed_def by (rule rh_more)

lemma iid_more:
  "(if iid_state s = GET_VALID then iidf_checksum s \<noteq> [] \<and> iidf_address s \<noteq> [] else iidf_in s \<noteq> [])
     \<Longrightarrow> ip_invalid_dropper (iid_feed ws cs as s) = iid_feed ws cs as (ip_invalid_dropper s)"
  by (cases "iid_state s") (simp_all add: ip_invalid_dropper_def Let_def iid_feed_def)

lemma cl_more: "clf_in s \<noteq> [] \<Longrightarrow> cut_length (cl_feed ws s) = cl_feed ws (cut_length s)"
  by (simp add: cut_length_def Let_def cl_feed_def)

lemma dip_more:
  "(if dip_pkg s then dipf_in s \<noteq> [] else dipf_protocol s \<noteq> [] \<and> dipf_valid s \<noteq> [])
     \<Longrightarrow> detect_ipv4_protocol (dip_feed ps vs ws s) = dip_feed ps vs ws (detect_ipv4_protocol s)"
  by (simp add: detect_ipv4_protocol_def Let_def dip_feed_def split: if_splits)

lemma di6_more: "di6f_in s \<noteq> [] \<Longrightarrow> detect_ipv6_protocol (di6_feed ws s) = di6_feed ws (detect_ipv6_protocol s)"
  by (simp add: detect_ipv6_protocol_def Let_def di6_feed_def)

lemma check_more:
  "xs \<noteq> [] \<Longrightarrow> toe_check_ipv4_checksum (xs @ ys, out)
     = (fst (toe_check_ipv4_checksum (xs, out)) @ ys, snd (toe_check_ipv4_checksum (xs, out)))"
  by (simp add: toe_check_ipv4_checksum_def)

lemma duplicate_more:
  "xs \<noteq> [] \<Longrightarrow> ip_handler_duplicate_stream (xs @ ys, o1, o2)
     = (fst (ip_handler_duplicate_stream (xs, o1, o2)) @ ys, snd (ip_handler_duplicate_stream (xs, o1, o2)))"
  by (simp add: ip_handler_duplicate_stream_def)

lemmas ih_deliver = eth_deliver_def rep_deliver_def rs4_deliver_def rs6_deliver_def meta_deliver_def ihc_deliver_def iid_deliver_def
  cl_deliver_def dip_deliver_def
lemmas ih_copies = ip_handler_rshiftWordByOctet_def ip_handler_compute_ipv4_checksum_def ip_handler_check_ipv4_checksum_def
  detect_eth_protocol_def extract_ip_meta_def
lemmas ih_more = rep_more rw_more_feed rh_more_feed iid_more cl_more dip_more di6_more check_more duplicate_more cics_more
lemmas ih_network = ih_act_def ih_can_def ih_deliver ih_copies

lemma ih_idle: "ih_inv s \<Longrightarrow> \<not> ih_can p s \<Longrightarrow> ih_act a p s = s"
proof (cases p)
  case RouteEth
  assume "\<not> ih_can p s" "ih_inv s"
  then have "route_by_eth_protocol 64 (ih_rep s) = ih_rep s" using RouteEth by (auto simp: ih_can_def route_by_eth_protocol_def)
  then show ?thesis using RouteEth \<open>ih_inv s\<close> by (simp add: ih_network ih_inv_def)
next
  case InvalidDropper
  assume "\<not> ih_can p s" "ih_inv s"
  then have "ip_invalid_dropper (ih_iid s) = ih_iid s"
    using InvalidDropper by (cases "iid_state (ih_iid s)") (auto simp: ih_can_def ip_invalid_dropper_def)
  then show ?thesis using InvalidDropper \<open>ih_inv s\<close> by (simp add: ih_network ih_inv_def)
next
  case DetectIpv4
  assume "\<not> ih_can p s" "ih_inv s"
  then have "detect_ipv4_protocol (ih_dip s) = ih_dip s"
    using DetectIpv4 by (auto simp: ih_can_def detect_ipv4_protocol_def split: if_splits)
  then show ?thesis using DetectIpv4 \<open>ih_inv s\<close> by (simp add: ih_network ih_inv_def)
next
  case Rshift4
  assume "\<not> ih_can p s" "ih_inv s"
  then show ?thesis using Rshift4 rw_idle[of "ih_rs4 s"] by (simp add: ih_network ih_inv_def)
next
  case Rshift6
  assume "\<not> ih_can p s" "ih_inv s"
  then show ?thesis using Rshift6 rw_idle[of "ih_rs6 s"] by (simp add: ih_network ih_inv_def)
qed (simp_all add: ih_network ih_inv_def read_header_def compute_ipv4_checksum_def toe_check_ipv4_checksum_def cut_length_def
    detect_ipv6_protocol_def ip_handler_duplicate_stream_def)

lemma ih_inv_act: "ih_inv s \<Longrightarrow> ih_inv (ih_act a p s)"
  by (cases p) (simp_all add: ih_network ih_inv_def split: prod.splits)

lemma ih_keeps:
  assumes "p \<noteq> q" and "ih_can p s" and "ih_can q s"
  shows "ih_can p (ih_act a q s)"
  using assms by (cases q; cases p) (simp_all add: ih_network rw_feed_can case_prod_unfold split: if_splits, blast?)

lemmas ih_clear = ih_feed_clear rh_feed_clear feed_clear

lemma ih_commutes:
  assumes "p \<noteq> q" and "ih_can p s" and "ih_can q s"
  shows "ih_act a p (ih_act a q s) = ih_act a q (ih_act a p s)"
proof (cases p)
  case DetectEth then show ?thesis using assms by (cases q) (simp_all add: ih_network ih_more ih_clear case_prod_unfold)
next
  case RouteEth then show ?thesis using assms by (cases q) (simp_all add: ih_network ih_more ih_clear case_prod_unfold)
next
  case Rshift4 then show ?thesis using assms by (cases q) (simp_all add: ih_network ih_more ih_clear case_prod_unfold)
next
  case Rshift6 then show ?thesis using assms by (cases q) (simp_all add: ih_network ih_more ih_clear case_prod_unfold)
next
  case ExtractMeta then show ?thesis using assms by (cases q) (simp_all add: ih_network ih_more ih_clear case_prod_unfold)
next
  case IhChecksum then show ?thesis using assms by (cases q) (simp_all add: ih_network ih_more ih_clear case_prod_unfold)
next
  case IhCheck then show ?thesis using assms by (cases q) (simp_all add: ih_network ih_more ih_clear case_prod_unfold)
next
  case InvalidDropper then show ?thesis using assms by (cases q) (simp_all add: ih_network ih_more ih_clear case_prod_unfold)
next
  case CutLength then show ?thesis using assms by (cases q) (simp_all add: ih_network ih_more ih_clear case_prod_unfold)
next
  case DetectIpv4 then show ?thesis using assms by (cases q) (simp_all add: ih_network ih_more ih_clear case_prod_unfold)
next
  case DetectIpv6 then show ?thesis using assms by (cases q) (simp_all add: ih_network ih_more ih_clear case_prod_unfold)
next
  case DuplicateUdp then show ?thesis using assms by (cases q) (simp_all add: ih_network ih_more ih_clear case_prod_unfold)
qed

interpretation ihs: dataflow ih_inv ih_can "ih_act a" for a
proof
  fix p q and s :: ih_st
  show "ih_inv s \<Longrightarrow> ih_inv (ih_act a p s)" by (rule ih_inv_act)
  show "ih_inv s \<Longrightarrow> \<not> ih_can p s \<Longrightarrow> ih_act a p s = s" by (rule ih_idle)
  show "p \<noteq> q \<Longrightarrow> ih_can p s \<Longrightarrow> ih_can q s \<Longrightarrow> ih_can p (ih_act a q s)" by (rule ih_keeps)
  show "p \<noteq> q \<Longrightarrow> ih_can p s \<Longrightarrow> ih_can q s \<Longrightarrow> ih_act a p (ih_act a q s) = ih_act a q (ih_act a p s)" by (rule ih_commutes)
qed

end
