(* ===== verification/Mac_Trip.thy ===== *)
theory Mac_Trip
  imports Mac_Encode Udp_Trip
begin

text \<open>
  A packet through the encoder: the processes one after the other, and from there the module under every schedule. What
  leaves is the Ethernet frame of the packet with the Internet checksum of its header filled in.
\<close>

subsection \<open>The sums of the header\<close>

text \<open>The lanes that are counted: those of the header, without the bytes of the checksum when they are skipped.\<close>

definition header_lanes :: "bool \<Rightarrow> 4 word \<Rightarrow> nat \<Rightarrow> lane list \<Rightarrow> lane list" where
  "header_lanes skip ihl n ls =
     map (\<lambda>(j, b, _). (if skip \<and> (j = 10 \<or> j = 11) then 0 else b, j < 4 * unat ihl)) (enumerate n ls)"

lemma sub_add_zero: "unat s \<le> 65535 \<Longrightarrow> sub_add s (lane_word 0 0) = s"
  using sub_add_nat[of s "lane_word 0 0"] lane_word_nat[of 0 0] by (auto simp: canon_small intro: unsigned_word_eqI)

lemma header_sums_lanes:
  "sums_ok ss \<Longrightarrow> length ls = 2 * length ss \<Longrightarrow> header_sums skip ihl i ls ss = add_lanes (header_lanes skip ihl (2 * i) ls) ss"
proof (induction skip ihl i ls ss rule: header_sums.induct)
  case (1 skip ihl i b0 k0 b1 k1 ls s ss)
  have IH: "header_sums skip ihl (Suc i) ls ss = add_lanes (header_lanes skip ihl (2 * Suc i) ls) ss"
    by (rule "1.IH") (use "1.prems" in simp_all)
  have two: "2 * i = 10 \<longleftrightarrow> i = 5" "Suc (2 * i) = 11 \<longleftrightarrow> i = 5" "2 * i \<noteq> 11" "Suc (2 * i) \<noteq> 10" by presburger+
  have lt: "i div 2 < unat ihl \<longleftrightarrow> 2 * i < 4 * unat ihl" "Suc (2 * i) < 4 * unat ihl \<longleftrightarrow> 2 * i < 4 * unat ihl" by presburger+
  show ?case using "1.prems"(1) by (auto simp: header_lanes_def IH[unfolded header_lanes_def] two lt sub_add_zero)
qed (auto simp: header_lanes_def)

definition header_of :: "nat \<Rightarrow> byte list \<Rightarrow> byte list" where
  "header_of h bs = take (4 * h) bs"

definition without_checksum :: "byte list \<Rightarrow> byte list" where
  "without_checksum bs = bs[10 := 0, 11 := 0]"

lemma without_checksum_length [simp]: "length (without_checksum bs) = length bs"
  by (simp add: without_checksum_def)

lemma header_sums_total:
  assumes "packet 64 (w # ws) bs" and "4 * unat ihl \<le> length bs"
  shows "length (header_sums skip ihl 0 (ax_lanes w) (replicate 32 0)) = 32
    \<and> sums_ok (header_sums skip ihl 0 (ax_lanes w) (replicate 32 0))
    \<and> canon (total (header_sums skip ihl 0 (ax_lanes w) (replicate 32 0)))
      = canon (sum_list (be_words (header_of (unat ihl) (if skip then without_checksum bs else bs))))"
proof -
  define cs where "cs = header_of (unat ihl) (if skip then without_checksum bs else bs)"
  have len: "length (ax_lanes w) = 64" using assms(1) by (rule packet_lanes)
  have ihl: "4 * unat ihl \<le> 60" using unat_bound[of ihl] by simp
  have cs: "length cs = 4 * unat ihl" using assms(2) by (simp add: cs_def header_of_def)
  have byte: "fst (ax_lanes w ! j) = bs ! j" if "j < 64" "j < length bs" for j
    using packet_nth(1)[OF assms(1), of 0] that by (simp add: word_of_def)
  have ok: "sums_ok (replicate 32 0)" "total (replicate 32 0) = 0" by (simp_all add: sums_ok_def total_def sum_list_replicate)
  let ?ls = "header_lanes skip ihl 0 (ax_lanes w)"
  have take: "take (length cs) ?ls = map (\<lambda>b. (b, True)) cs"
  proof (rule nth_equalityI)
    fix j assume "j < length (take (length cs) ?ls)"
    then have j: "j < 4 * unat ihl" "j < 64" "j < length bs" using cs ihl assms(2) by simp_all
    then show "take (length cs) ?ls ! j = map (\<lambda>b. (b, True)) cs ! j"
      using byte[of j] cs len by (auto simp: header_lanes_def case_prod_unfold nth_enumerate_eq cs_def header_of_def without_checksum_def
          nth_list_update)
  qed (use cs len ihl in \<open>simp add: header_lanes_def\<close>)
  have drop: "\<forall>l \<in> set (drop (length cs) ?ls). \<not> snd l"
    by (auto simp: header_lanes_def cs drop_map[symmetric] in_set_conv_nth nth_enumerate_eq split: prod.splits)
  show ?thesis
    using add_lanes_total[of ?ls "replicate 32 0" cs, OF _ ok(1) take _ drop] header_sums_lanes[OF ok(1), of "ax_lanes w" skip ihl 0]
      len cs ihl ok(2) by (simp add: header_lanes_def cs_def)
qed

lemma cics_rest:
  assumes "packet 64 ws bs" and "cicsf_in s = ws @ rest" and "\<not> cics_firstWord s"
  shows "(compute_ipv4_checksum k ^^ length ws) s = s\<lparr>cicsf_in := rest, cicsf_out := cicsf_out s @ ws, cics_firstWord := True,
     cics_ip_sums := replicate 32 0\<rparr>"
  using assms
proof (induction ws arbitrary: s bs)
  case (Cons w ws)
  define u where "u = compute_ipv4_checksum k s"
  have u: "u = (let t = s\<lparr>cicsf_in := ws @ rest, cicsf_out := cicsf_out s @ [w]\<rparr> in
      if ax_last w then t\<lparr>cics_firstWord := True, cics_ip_sums := replicate 32 0\<rparr> else t)"
    using Cons.prems by (simp add: u_def compute_ipv4_checksum_def Let_def)
  have run: "(compute_ipv4_checksum k ^^ length (w # ws)) s = (compute_ipv4_checksum k ^^ length ws) u"
    by (simp add: funpow_Suc_right u_def del: funpow.simps)
  show ?case
  proof (cases "ws = []")
    case True
    then have "ax_last w" using Cons.prems(1) by (simp add: packet_single)
    then show ?thesis using True u unfolding run by simp
  next
    case False
    then have p: "\<not> ax_last w" "packet 64 ws (drop 64 bs)" using Cons.prems(1) by (simp_all add: packet_cons)
    then have u: "u = s\<lparr>cicsf_in := ws @ rest, cicsf_out := cicsf_out s @ [w]\<rparr>" using u by simp
    show ?thesis unfolding run using Cons.IH[OF p(2), of u] Cons.prems(3) u by simp
  qed
qed simp

lemma cics_packet:
  assumes "packet 64 ws bs" and "cicsf_in s = ws @ rest" and "cics_firstWord s" and "cics_ip_sums s = replicate 32 0"
    and "unat (ucast (bs ! 0) :: 4 word) = h" and "4 * h \<le> length bs"
  shows "\<exists>xs ihl. (compute_ipv4_checksum k ^^ length ws) s = s\<lparr>cicsf_in := rest, cicsf_out := cicsf_out s @ ws,
      cicsf_sums := cicsf_sums s @ [xs], cics_ipHeaderLen := ihl\<rparr>
    \<and> length xs = 32 \<and> sums_ok xs
    \<and> canon (total xs) = canon (sum_list (be_words (header_of h (if k then without_checksum bs else bs))))"
proof -
  obtain w ws' where ws: "ws = w # ws'" using packet_nonempty[OF assms(1)] by (cases ws) auto
  have "fst (ax_lanes w ! 0) = bs ! 0"
    using packet_nth(1)[OF assms(1), of 0] packet_nonempty[OF assms(1)] ws by (simp add: word_of_def)
  then have ihl: "unat (ucast (fst (ax_lanes w ! 0)) :: 4 word) = h" using assms(5) by simp
  define i where "i = (ucast (fst (ax_lanes w ! 0)) :: 4 word)"
  define xs where "xs = header_sums k i 0 (ax_lanes w) (replicate 32 0)"
  have xs: "length xs = 32" "sums_ok xs" "canon (total xs) = canon (sum_list (be_words (header_of h (if k then without_checksum bs else bs))))"
    using header_sums_total[of w ws' bs i k] assms(1,6) ws ihl by (simp_all add: xs_def i_def)
  define u where "u = compute_ipv4_checksum k s"
  have u: "u = (let t = s\<lparr>cicsf_in := ws' @ rest, cicsf_out := cicsf_out s @ [w], cics_ipHeaderLen := i, cics_ip_sums := xs,
        cicsf_sums := cicsf_sums s @ [xs], cics_firstWord := False\<rparr> in
      if ax_last w then t\<lparr>cics_firstWord := True, cics_ip_sums := replicate 32 0\<rparr> else t)"
    using assms(2-4) ws by (simp add: u_def compute_ipv4_checksum_def Let_def xs_def i_def)
  have same: "s\<lparr>cics_ip_sums := replicate 32 0, cics_firstWord := True\<rparr> = s" using assms(3,4) by simp
  have run: "(compute_ipv4_checksum k ^^ length ws) s = (compute_ipv4_checksum k ^^ length ws') u"
    by (simp add: ws funpow_Suc_right u_def del: funpow.simps)
  have "(compute_ipv4_checksum k ^^ length ws) s = s\<lparr>cicsf_in := rest, cicsf_out := cicsf_out s @ ws,
      cicsf_sums := cicsf_sums s @ [xs], cics_ipHeaderLen := i\<rparr>"
  proof (cases "ws' = []")
    case True
    then have "ax_last w" using assms(1) ws by (simp add: packet_single)
    then have "u = (s\<lparr>cics_ip_sums := replicate 32 0, cics_firstWord := True\<rparr>)\<lparr>cicsf_in := rest, cicsf_out := cicsf_out s @ [w],
      cicsf_sums := cicsf_sums s @ [xs], cics_ipHeaderLen := i\<rparr>" using u True by simp
    then show ?thesis using True ws run unfolding same by simp
  next
    case False
    then have p: "\<not> ax_last w" "packet 64 ws' (drop 64 bs)" using assms(1) ws by (simp_all add: packet_cons)
    have u': "cicsf_in u = ws' @ rest" "\<not> cics_firstWord u" using u p(1) by simp_all
    have "(compute_ipv4_checksum k ^^ length ws') u = (s\<lparr>cics_ip_sums := replicate 32 0, cics_firstWord := True\<rparr>)\<lparr>cicsf_in := rest,
      cicsf_out := cicsf_out s @ ws, cicsf_sums := cicsf_sums s @ [xs], cics_ipHeaderLen := i\<rparr>"
      using cics_rest[OF p(2) u', of k] u p(1) ws by simp
    then show ?thesis using run unfolding same by simp
  qed
  then show ?thesis using xs by blast
qed

subsection \<open>The checksum goes into the header\<close>

text \<open>The packet with the Internet checksum of its header of \<open>h\<close> words in place.\<close>

definition ip_checksum :: "nat \<Rightarrow> byte list \<Rightarrow> u16" where
  "ip_checksum h bs = internet_checksum (header_of h (without_checksum bs))"

definition checksummed :: "nat \<Rightarrow> byte list \<Rightarrow> byte list" where
  "checksummed h bs = bs[10 := range_get 15 8 (ip_checksum h bs), 11 := range_get 7 0 (ip_checksum h bs)]"

lemma checksummed_length [simp]: "length (checksummed h bs) = length bs"
  by (simp add: checksummed_def)

lemma put_u16_bytes: "put_u16 k c w = set_byte (k + 1) (range_get 7 0 c) (set_byte k (range_get 15 8 c) w)"
proof -
  have "(range_get 7 0 (reverse16 c) :: byte) = range_get 15 8 c" "(range_get 15 8 (reverse16 c) :: byte) = range_get 7 0 c"
    by (rule bit_word_eqI, auto simp: reverse16_def bit_range_get bit_range_set)+
  then show ?thesis by (simp add: put_u16_def Let_def)
qed

lemma put_u16_packet:
  assumes "packet W (w # ws) bs" and "k + 1 < W" and "k + 1 < length bs"
  shows "packet W (put_u16 k c w # ws) (bs[k := range_get 15 8 c, k + 1 := range_get 7 0 c])" "ax_last (put_u16 k c w) = ax_last w"
proof -
  have "packet W (set_byte k (range_get 15 8 c) w # ws) (bs[k := range_get 15 8 c])"
    by (rule set_byte_first) (use assms in simp_all)
  then have "packet W (set_byte (k + 1) (range_get 7 0 c) (set_byte k (range_get 15 8 c) w) # ws)
      (bs[k := range_get 15 8 c, k + 1 := range_get 7 0 c])"
    by (rule set_byte_first) (use assms in simp_all)
  then show "packet W (put_u16 k c w # ws) (bs[k := range_get 15 8 c, k + 1 := range_get 7 0 c])" by (simp only: put_u16_bytes)
  show "ax_last (put_u16 k c w) = ax_last w" by (simp add: put_u16_def set_byte_def Let_def)
qed

definition isc_done :: "isc_st \<Rightarrow> u16 list \<Rightarrow> net_axis list \<Rightarrow> net_axis list \<Rightarrow> isc_st \<Rightarrow> bool" where
  "isc_done s cs rest out t \<longleftrightarrow> isc_wordCount t = 0 \<and> iscf_checksum t = cs \<and> iscf_in t = rest \<and> iscf_out t = iscf_out s @ out"

lemma isc_rest:
  assumes "packet 64 ws bs" and "iscf_in s = ws @ rest" and "isc_wordCount s = 1 \<or> isc_wordCount s = 2"
  shows "isc_done s (iscf_checksum s) rest ws ((insert_ip_checksum 64 ^^ length ws) s)"
  using assms
proof (induction ws arbitrary: s bs)
  case (Cons w ws)
  define u where "u = insert_ip_checksum 64 s"
  have u: "iscf_in u = ws @ rest" "iscf_out u = iscf_out s @ [w]" "iscf_checksum u = iscf_checksum s"
    "isc_wordCount u = (if ax_last w then 0 else 2)"
    using Cons.prems(2,3) by (auto simp: u_def insert_ip_checksum_def Let_def)
  have run: "(insert_ip_checksum 64 ^^ length (w # ws)) s = (insert_ip_checksum 64 ^^ length ws) u"
    by (simp add: funpow_Suc_right u_def del: funpow.simps)
  show ?case
  proof (cases "ws = []")
    case True
    then have "ax_last w" using Cons.prems(1) by (simp add: packet_single)
    then show ?thesis using True u unfolding run by (simp add: isc_done_def)
  next
    case False
    then have p: "\<not> ax_last w" "packet 64 ws (drop 64 bs)" using Cons.prems(1) by (simp_all add: packet_cons)
    show ?thesis unfolding run using Cons.IH[OF p(2) u(1)] u p(1) by (simp add: isc_done_def)
  qed
qed simp

lemma isc_packet:
  assumes "packet 64 ws bs" and "iscf_in s = ws @ rest" and "isc_wordCount s = 0" and "iscf_checksum s = c # cs" and "12 \<le> length bs"
  shows "\<exists>out. isc_done s cs rest out ((insert_ip_checksum 64 ^^ length ws) s)
    \<and> packet 64 out (bs[10 := range_get 15 8 c, 11 := range_get 7 0 c])"
proof -
  obtain w ws' where ws: "ws = w # ws'" using packet_nonempty[OF assms(1)] by (cases ws) auto
  define v where "v = put_u16 10 c w"
  have v: "packet 64 (v # ws') (bs[10 := range_get 15 8 c, 11 := range_get 7 0 c])" "ax_last v = ax_last w"
    using put_u16_packet[of 64 w ws' bs 10 c] assms(1,5) ws by (simp_all add: v_def)
  define u where "u = insert_ip_checksum 64 s"
  have u: "iscf_in u = ws' @ rest" "iscf_out u = iscf_out s @ [v]" "iscf_checksum u = cs" "isc_wordCount u = (if ax_last w then 0 else 1)"
    using assms(2-4) ws v(2) by (simp_all add: u_def insert_ip_checksum_def Let_def v_def)
  have run: "(insert_ip_checksum 64 ^^ length ws) s = (insert_ip_checksum 64 ^^ length ws') u"
    by (simp add: ws funpow_Suc_right u_def del: funpow.simps)
  have "isc_done s cs rest (v # ws') ((insert_ip_checksum 64 ^^ length ws) s)"
  proof (cases "ws' = []")
    case True
    then have "ax_last w" using assms(1) ws by (simp add: packet_single)
    then show ?thesis using True u unfolding run by (simp add: isc_done_def)
  next
    case False
    then have p: "\<not> ax_last w" "packet 64 ws' (drop 64 bs)" using assms(1) ws by (simp_all add: packet_cons)
    show ?thesis unfolding run using isc_rest[OF p(2) u(1)] u p(1) by (simp add: isc_done_def)
  qed
  then show ?thesis using v(1) by blast
qed

subsection \<open>The answer of the ARP table\<close>

lemma har_rest:
  assumes "packet W ws bs" and "harf_in s = ws @ rest" and "har_state s = HAR_FWD \<or> har_state s = HAR_DROP"
  shows "(handle_arp_reply m v ^^ length ws) s = s\<lparr>harf_in := rest, har_state := HAR_ARP,
     harf_out := harf_out s @ (if har_state s = HAR_FWD then ws else [])\<rparr>"
  using assms
proof (induction ws arbitrary: s bs)
  case (Cons w ws)
  define u where "u = handle_arp_reply m v s"
  have u: "u = s\<lparr>harf_in := ws @ rest, harf_out := harf_out s @ (if har_state s = HAR_FWD then [w] else []),
      har_state := (if ax_last w then HAR_ARP else har_state s)\<rparr>"
    using Cons.prems(2,3) by (auto simp: u_def handle_arp_reply_def Let_def)
  have run: "(handle_arp_reply m v ^^ length (w # ws)) s = (handle_arp_reply m v ^^ length ws) u"
    by (simp add: funpow_Suc_right u_def del: funpow.simps)
  show ?case
  proof (cases "ws = []")
    case True
    then have "ax_last w" using Cons.prems(1) by (simp add: packet_single)
    then show ?thesis using True u unfolding run by simp
  next
    case False
    then have p: "\<not> ax_last w" "packet W ws (drop W bs)" using Cons.prems(1) by (simp_all add: packet_cons)
    show ?thesis unfolding run using Cons.IH[OF p(2), of u] u p(1) Cons.prems(3) by auto
  qed
qed simp

lemma har_packet:
  assumes "packet W ws bs" and "harf_in s = ws @ rest" and "har_state s = HAR_ARP" and "harf_arp s = r # rs"
  shows "(handle_arp_reply m v ^^ length ws) s = s\<lparr>harf_arp := rs, harf_in := rest,
     harf_header := harf_header s @ (if atr_hit r then [har_fill (atr_macAddress r) m v] else []),
     harf_out := harf_out s @ (if atr_hit r then ws else [])\<rparr>"
proof -
  obtain w ws' where ws: "ws = w # ws'" using packet_nonempty[OF assms(1)] by (cases ws) auto
  define u where "u = handle_arp_reply m v s"
  have u: "u = s\<lparr>harf_arp := rs, harf_in := ws' @ rest, harf_header := harf_header s @ (if atr_hit r then [har_fill (atr_macAddress r) m v] else []),
      harf_out := harf_out s @ (if atr_hit r then [w] else []),
      har_state := (if ax_last w then HAR_ARP else if atr_hit r then HAR_FWD else HAR_DROP)\<rparr>"
    using assms(2-4) ws by (auto simp: u_def handle_arp_reply_def Let_def)
  have run: "(handle_arp_reply m v ^^ length ws) s = (handle_arp_reply m v ^^ length ws') u"
    by (simp add: ws funpow_Suc_right u_def del: funpow.simps)
  have same: "s\<lparr>har_state := HAR_ARP\<rparr> = s" using assms(3) by simp
  show ?thesis
  proof (cases "ws' = []")
    case True
    then have "ax_last w" using assms(1) ws by (simp add: packet_single)
    then show ?thesis using True u ws assms(3) unfolding run by simp
  next
    case False
    then have p: "\<not> ax_last w" "packet W ws' (drop W bs)" using assms(1) ws by (simp_all add: packet_cons)
    have "(handle_arp_reply m v ^^ length ws') u = (s\<lparr>har_state := HAR_ARP\<rparr>)\<lparr>harf_arp := rs, harf_in := rest,
      harf_header := harf_header s @ (if atr_hit r then [har_fill (atr_macAddress r) m v] else []),
      harf_out := harf_out s @ (if atr_hit r then ws else [])\<rparr>"
      using har_rest[OF p(2), of u rest m v] u p(1) ws by simp
    then show ?thesis unfolding run same .
  qed
qed

subsection \<open>The Ethernet header\<close>

definition eth_header :: "mac \<Rightarrow> mac \<Rightarrow> 112 word" where
  "eth_header dst src = eth_setEthertype 0x0800 (eth_setSrcAddress src (eth_setDstAddress dst 0))"

lemma har_fill_header: "har_fill dst src v = \<lparr>ph_ready = False, ph_idx = 0, ph_header = eth_header dst src\<rparr>"
proof -
  have "eth_setEthertype t (eth_setSrcAddress src (eth_setDstAddress dst h)) = eth_setEthertype t (eth_setSrcAddress src (eth_setDstAddress dst 0))"
    for t and h :: "112 word"
    by (intro bit_word_eqI) (simp add: eth_setEthertype_def eth_setSrcAddress_def eth_setDstAddress_def bit_range_set)
  then have "ph_header (har_fill dst src v) = eth_header dst src" by (simp add: har_fill_def eth_header_def)
  moreover have "\<not> ph_ready (har_fill dst src v)" "ph_idx (har_fill dst src v) = 0" by (simp_all add: har_fill_def ph_clear_def)
  ultimately show ?thesis by simp
qed

definition ieh_done :: "ieh_st \<Rightarrow> 112 packetHeader list \<Rightarrow> net_axis list \<Rightarrow> net_axis list \<Rightarrow> ieh_st \<Rightarrow> bool" where
  "ieh_done s hs rest out t \<longleftrightarrow> ieh_state t = IEH_PARTIAL_HEADER \<and> iehf_header t = hs \<and> iehf_in t = rest \<and> iehf_out t = iehf_out s @ out"

lemma ieh_rest:
  assumes "packet 64 ws bs" and "iehf_in s = ws @ rest" and "ieh_state s = IEH_BODY"
  shows "ieh_done s (iehf_header s) rest ws ((insert_ethernet_header 64 u ^^ length ws) s)"
  using assms
proof (induction ws arbitrary: s bs)
  case (Cons w ws)
  define t where "t = insert_ethernet_header 64 u s"
  have t: "iehf_in t = ws @ rest" "iehf_out t = iehf_out s @ [w]" "iehf_header t = iehf_header s"
    "ieh_state t = (if ax_last w then IEH_PARTIAL_HEADER else IEH_BODY)"
    using Cons.prems(2,3) by (auto simp: t_def insert_ethernet_header_def Let_def ieh_start_def)
  have run: "(insert_ethernet_header 64 u ^^ length (w # ws)) s = (insert_ethernet_header 64 u ^^ length ws) t"
    by (simp add: funpow_Suc_right t_def del: funpow.simps)
  show ?case
  proof (cases "ws = []")
    case True
    then have "ax_last w" using Cons.prems(1) by (simp add: packet_single)
    then show ?thesis using True t unfolding run by (simp add: ieh_done_def)
  next
    case False
    then have p: "\<not> ax_last w" "packet 64 ws (drop 64 bs)" using Cons.prems(1) by (simp_all add: packet_cons)
    show ?thesis unfolding run using Cons.IH[OF p(2) t(1)] t p(1) by (simp add: ieh_done_def)
  qed
qed simp

lemma ieh_packet:
  assumes "packet 64 ws (replicate 14 0 @ bs)" and "iehf_in s = ws @ rest" and "ieh_state s = IEH_PARTIAL_HEADER"
    and "iehf_header s = e # es" and "ph_idx e = 0"
  shows "\<exists>out. ieh_done s es rest out ((insert_ethernet_header 64 u ^^ length ws) s) \<and> packet 64 out (header_bytes (ph_header e) @ bs)"
proof -
  obtain w ws' where ws: "ws = w # ws'" using packet_nonempty[OF assms(1)] by (cases ws) auto
  have len: "length (ax_lanes w) = 64" using packet_lanes assms(1) ws by blast
  define cs where "cs = header_bytes (ph_header e)"
  have cs: "length cs = 14" by (simp add: cs_def)
  define v where "v = w\<lparr>ax_lanes := zip (cs @ drop (length cs) (map fst (ax_lanes w))) (map snd (ax_lanes w))\<rparr>"
  have p: "packet 64 (v # ws') (cs @ bs)"
    unfolding v_def by (rule packet_replace[of 64 w ws' "replicate 14 0"]) (use assms(1) ws cs in auto)
  obtain h where c: "consumeWord 64 (ax_lanes w) e = (0, ax_lanes v, h)"
    using consume_rest[of 14 e 0 64 "ax_lanes w"] len cs assms(5) by (simp add: v_def cs_def)
  have last: "ax_last v = ax_last w" by (simp add: v_def)
  define t where "t = insert_ethernet_header 64 u s"
  have t: "iehf_in t = ws' @ rest" "iehf_out t = iehf_out s @ [v]" "iehf_header t = es"
    "ieh_state t = (if ax_last w then IEH_PARTIAL_HEADER else IEH_BODY)"
    using assms(2-4) ws c last by (simp_all add: t_def insert_ethernet_header_def Let_def ieh_start_def v_def)
  have run: "(insert_ethernet_header 64 u ^^ length ws) s = (insert_ethernet_header 64 u ^^ length ws') t"
    by (simp add: ws funpow_Suc_right t_def del: funpow.simps)
  have "ieh_done s es rest (v # ws') ((insert_ethernet_header 64 u ^^ length ws) s)"
  proof (cases "ws' = []")
    case True
    then have "ax_last w" using p last by (simp add: packet_single)
    then show ?thesis using True t unfolding run by (simp add: ieh_done_def)
  next
    case False
    then have q: "\<not> ax_last w" "packet 64 ws' (drop 64 (cs @ bs))" using p last by (simp_all add: packet_cons)
    show ?thesis unfolding run using ieh_rest[OF q(2) t(1)] t q(1) by (simp add: ieh_done_def)
  qed
  then show ?thesis using p unfolding cs_def by blast
qed

subsection \<open>The module at rest\<close>

definition mac_rest :: "mac_st \<Rightarrow> bool" where
  "mac_rest s \<longleftrightarrow> mac_inv s \<and> rh_idle (mcs_xi s) \<and> rhf_in (mcs_xi s) = []
     \<and> cicsf_in (mcs_cics s) = [] \<and> cics_firstWord (mcs_cics s) \<and> cics_ip_sums (mcs_cics s) = replicate 32 0 \<and> mcs_sums s = []
     \<and> isc_wordCount (mcs_isc s) = 0 \<and> iscf_in (mcs_isc s) = [] \<and> iscf_checksum (mcs_isc s) = []
     \<and> har_state (mcs_har s) = HAR_ARP \<and> harf_in (mcs_har s) = [] \<and> harf_arp (mcs_har s) = []
     \<and> \<not> lw_writeRemainder (mcs_lw s) \<and> lw_firstWord (mcs_lw s) \<and> lwf_in (mcs_lw s) = []
     \<and> ieh_state (mcs_ieh s) = IEH_PARTIAL_HEADER \<and> iehf_header (mcs_ieh s) = [] \<and> iehf_in (mcs_ieh s) = []"

lemma mac_rest_quiet: "mac_rest s \<Longrightarrow> mcs.quiet s"
  unfolding mcs.quiet_def by (intro allI, case_tac p) (simp_all add: mac_can_def mac_rest_def)

definition mac_put :: "arpTableReply list \<Rightarrow> net_axis list \<Rightarrow> mac_st \<Rightarrow> mac_st" where
  "mac_put rs ws s = s\<lparr>mcs_xi := (mcs_xi s)\<lparr>rhf_in := rhf_in (mcs_xi s) @ ws\<rparr>,
     mcs_har := (mcs_har s)\<lparr>harf_arp := harf_arp (mcs_har s) @ rs\<rparr>\<rparr>"

definition mac_run :: "mac_cfg \<Rightarrow> mac_proc list list \<Rightarrow> mac_st \<Rightarrow> mac_st" where
  "mac_run c rounds = fold (mac_act c) (concat rounds)"

lemma mac_calls:
  "(mac_ip_encode c ^^ k) s = mac_run c (replicate k [ExtractIpAddress, MacChecksum, MacFinalize, InsertIpChecksum, HandleArpReply,
     MacLshift, InsertEthernet]) s"
  unfolding mac_ip_encode_def mac_run_def by (rule calls_as_rounds)

lemma mac_calls_fair: "fair (replicate k [ExtractIpAddress, MacChecksum, MacFinalize, InsertIpChecksum, HandleArpReply,
     MacLshift, InsertEthernet])"
  by (intro calls_fair allI, case_tac p) simp_all

subsection \<open>Steps of one process in the network\<close>

lemma run_extract:
  assumes "rhf_out (mcs_xi s) = []"
  shows "(mac_act c ExtractIpAddress ^^ k) s = xi_deliver ((extract_ip_address 64 (mcc_mask c) (mcc_gateway c) ^^ k) (mcs_xi s)) s"
proof (rule run_stage[where clear = "\<lambda>p. p\<lparr>rhf_out := []\<rparr>" and join = "\<lambda>p q. q\<lparr>rhf_out := rhf_out p @ rhf_out q\<rparr>"])
  have "(mcs_xi s)\<lparr>rhf_out := []\<rparr> = mcs_xi s" using assms by simp
  then show "xi_deliver (mcs_xi s) s = s" using assms by (simp add: xi_deliver_def)
qed (unfold extract_ip_address_def, simp_all add: mac_act_def extract_ip_address_def xi_deliver_def rh_outputs_data[symmetric])

lemma run_mac_checksum:
  assumes "cicsf_out (mcs_cics s) = []" and "cicsf_sums (mcs_cics s) = []"
  shows "(mac_act c MacChecksum ^^ k) s = cics_deliver ((compute_ipv4_checksum True ^^ k) (mcs_cics s)) s"
proof (rule run_stage[where clear = "\<lambda>p. p\<lparr>cicsf_out := [], cicsf_sums := []\<rparr>"
      and join = "\<lambda>p q. q\<lparr>cicsf_out := cicsf_out p @ cicsf_out q, cicsf_sums := cicsf_sums p @ cicsf_sums q\<rparr>"])
  have "(mcs_cics s)\<lparr>cicsf_out := [], cicsf_sums := []\<rparr> = mcs_cics s" using assms by simp
  then show "cics_deliver (mcs_cics s) s = s" using assms by (simp add: cics_deliver_def)
qed (simp_all add: mac_act_def cics_deliver_def mac_copies compute_ipv4_checksum_def Let_def)

lemma run_insert_checksum:
  assumes "iscf_out (mcs_isc s) = []"
  shows "(mac_act c InsertIpChecksum ^^ k) s = isc_deliver ((insert_ip_checksum 64 ^^ k) (mcs_isc s)) s"
proof (rule run_stage[where clear = "\<lambda>p. p\<lparr>iscf_out := []\<rparr>" and join = "\<lambda>p q. q\<lparr>iscf_out := iscf_out p @ iscf_out q\<rparr>"])
  have "(mcs_isc s)\<lparr>iscf_out := []\<rparr> = mcs_isc s" using assms by simp
  then show "isc_deliver (mcs_isc s) s = s" using assms by (simp add: isc_deliver_def)
qed (simp_all add: mac_act_def isc_deliver_def insert_ip_checksum_def Let_def)

lemma run_handle_arp:
  assumes "harf_header (mcs_har s) = []" and "harf_out (mcs_har s) = []"
  shows "(mac_act c HandleArpReply ^^ k) s = har_deliver ((handle_arp_reply (mcc_mac c) (mcc_v c) ^^ k) (mcs_har s)) s"
proof (rule run_stage[where clear = "\<lambda>p. p\<lparr>harf_header := [], harf_out := []\<rparr>"
      and join = "\<lambda>p q. q\<lparr>harf_header := harf_header p @ harf_header q, harf_out := harf_out p @ harf_out q\<rparr>"])
  have "(mcs_har s)\<lparr>harf_header := [], harf_out := []\<rparr> = mcs_har s" using assms by simp
  then show "har_deliver (mcs_har s) s = s" using assms by (simp add: har_deliver_def)
  show "handle_arp_reply m v p = (handle_arp_reply m v (p\<lparr>harf_header := [], harf_out := []\<rparr>))\<lparr>
      harf_header := harf_header p @ harf_header (handle_arp_reply m v (p\<lparr>harf_header := [], harf_out := []\<rparr>)),
      harf_out := harf_out p @ harf_out (handle_arp_reply m v (p\<lparr>harf_header := [], harf_out := []\<rparr>))\<rparr>" for m v p
    by (cases "har_state p") (simp_all add: handle_arp_reply_def Let_def)
qed (simp_all add: mac_act_def har_deliver_def)

lemma run_mac_lshift:
  assumes "lwf_out (mcs_lw s) = []"
  shows "(mac_act c MacLshift ^^ k) s = mlw_deliver ((lshiftWordByOctet 64 14 ^^ k) (mcs_lw s)) s"
proof (rule run_stage[where clear = "\<lambda>p. p\<lparr>lwf_out := []\<rparr>" and join = "\<lambda>p q. q\<lparr>lwf_out := lwf_out p @ lwf_out q\<rparr>"])
  show "lshiftWordByOctet 64 14 p = (lshiftWordByOctet 64 14 (p\<lparr>lwf_out := []\<rparr>))\<lparr>lwf_out := lwf_out p @ lwf_out (lshiftWordByOctet 64 14 (p\<lparr>lwf_out := []\<rparr>))\<rparr>"
    for p by (rule lw_outputs)
  have "(mcs_lw s)\<lparr>lwf_out := []\<rparr> = mcs_lw s" using assms by simp
  then show "mlw_deliver (mcs_lw s) s = s" using assms by (simp add: mlw_deliver_def)
qed (simp_all add: mac_act_def mlw_deliver_def mac_copies)

lemma run_insert_ethernet:
  "(mac_act c InsertEthernet ^^ k) s = s\<lparr>mcs_ieh := (insert_ethernet_header 64 (mcc_u c) ^^ k) (mcs_ieh s)\<rparr>"
  by (induction k) (simp_all add: mac_act_def)

subsection \<open>A packet is sent\<close>

definition mac_sent :: "mac_cfg \<Rightarrow> arpTableReply \<Rightarrow> 160 word \<Rightarrow> byte list \<Rightarrow> mac_st \<Rightarrow> mac_st \<Rightarrow> bool" where
  "mac_sent c r x bs s t \<longleftrightarrow> mac_rest t
     \<and> rhf_meta (mcs_xi t) = rhf_meta (mcs_xi s) @ [next_hop (mcc_mask c) (mcc_gateway c) (ip_getDstAddr x)]
     \<and> (if atr_hit r
        then \<exists>out. iehf_out (mcs_ieh t) = iehf_out (mcs_ieh s) @ out
               \<and> packet 64 out (header_bytes (eth_header (atr_macAddress r) (mcc_mac c)) @ checksummed (unat (ip_getHeaderLength x)) bs)
        else iehf_out (mcs_ieh t) = iehf_out (mcs_ieh s))"

text \<open>The first nibble of the packet is the length of the header.\<close>

lemma header_length_byte:
  assumes "header_bytes (x :: 160 word) = take 20 bs" and "20 \<le> length bs"
  shows "ucast (bs ! 0) = ip_getHeaderLength x"
proof -
  have "bs ! 0 = header_bytes x ! 0" using assms by simp
  also have "\<dots> = ucast x" by (simp add: header_bytes_nth)
  finally show ?thesis by (auto intro!: bit_word_eqI simp: ip_getHeaderLength_def bit_range_get bit_simps)
qed

lemma mac_send_run:
  assumes "mac_rest s" and "packet 64 ws bs" and "20 \<le> length bs" and "header_bytes (x :: 160 word) = take 20 bs"
    and "4 * unat (ip_getHeaderLength x) \<le> length bs"
  shows "\<exists>ps. mac_sent c r x bs s (fold (mac_act c) ps (mac_put [r] ws s))"
proof -
  define n where "n = length ws"
  define h where "h = unat (ip_getHeaderLength x)"
  have inv: "rhf_out (mcs_xi s) = []" "cicsf_out (mcs_cics s) = []" "cicsf_sums (mcs_cics s) = []" "iscf_out (mcs_isc s) = []"
    "harf_header (mcs_har s) = []" "harf_out (mcs_har s) = []" "lwf_out (mcs_lw s) = []"
    and r: "rh_idle (mcs_xi s)" "rhf_in (mcs_xi s) = []" "cicsf_in (mcs_cics s) = []" "cics_firstWord (mcs_cics s)"
    "cics_ip_sums (mcs_cics s) = replicate 32 0" "mcs_sums s = []" "isc_wordCount (mcs_isc s) = 0" "iscf_in (mcs_isc s) = []"
    "iscf_checksum (mcs_isc s) = []" "har_state (mcs_har s) = HAR_ARP" "harf_in (mcs_har s) = []" "harf_arp (mcs_har s) = []"
    "\<not> lw_writeRemainder (mcs_lw s)" "lw_firstWord (mcs_lw s)" "lwf_in (mcs_lw s) = []" "ieh_state (mcs_ieh s) = IEH_PARTIAL_HEADER"
    "iehf_header (mcs_ieh s) = []" "iehf_in (mcs_ieh s) = []"
    using assms(1) by (simp_all add: mac_rest_def mac_inv_def)
  define s0 where "s0 = mac_put [r] ws s"
  \<comment> \<open>the header is read\<close>
  define xi where "xi = (extract_ip_address 64 (mcc_mask c) (mcc_gateway c) ^^ n) (mcs_xi s0)"
  have "rhf_in (mcs_xi s0) = ws @ []" "rh_idle (mcs_xi s0)" using r by (simp_all add: s0_def mac_put_def rh_idle_def)
  from rh_packet[OF _ _ _ assms(2,3,4) this xi_def[unfolded extract_ip_address_def n_def]]
  have xi: "rh_idle xi" "rhf_in xi = []" "rhf_out xi = ws"
    "rhf_meta xi = rhf_meta (mcs_xi s) @ [next_hop (mcc_mask c) (mcc_gateway c) (ip_getDstAddr x)]"
    using inv by (simp_all add: s0_def mac_put_def)
  define s1 where "s1 = (mac_act c ExtractIpAddress ^^ n) s0"
  have s1: "s1 = xi_deliver xi s0" using run_extract[where s = s0 and c = c and k = n] inv by (simp add: s1_def xi_def s0_def mac_put_def)
  \<comment> \<open>the sums\<close>
  have ne: "ws \<noteq> []" "bs \<noteq> []" using packet_nonempty[OF assms(2)] by simp_all
  have b0: "unat (ucast (bs ! 0) :: 4 word) = h" using header_length_byte[OF assms(4,3)] by (simp add: h_def)
  define ci where "ci = (compute_ipv4_checksum True ^^ n) (mcs_cics s1)"
  have c1: "cicsf_in (mcs_cics s1) = ws @ []" "cics_firstWord (mcs_cics s1)" "cics_ip_sums (mcs_cics s1) = replicate 32 0"
    "cicsf_out (mcs_cics s1) = []" "cicsf_sums (mcs_cics s1) = []"
    using r inv xi(3) by (simp_all add: s1 xi_deliver_def s0_def mac_put_def cics_feed_def)
  obtain xs i where xs: "ci = (mcs_cics s1)\<lparr>cicsf_in := [], cicsf_out := ws, cicsf_sums := [xs], cics_ipHeaderLen := i\<rparr>"
    "length xs = 32" "sums_ok xs" "canon (total xs) = canon (sum_list (be_words (header_of h (without_checksum bs))))"
    using cics_packet[OF assms(2) c1(1-3) b0 _, of True] assms(5) c1(4,5) by (auto simp: ci_def n_def h_def)
  define s2 where "s2 = (mac_act c MacChecksum ^^ n) s1"
  have s2: "s2 = cics_deliver ci s1" using run_mac_checksum[where s = s1 and c = c and k = n] c1(4,5) by (simp add: s2_def ci_def)
  \<comment> \<open>the checksum\<close>
  define s3 where "s3 = mac_act c MacFinalize s2"
  have fin: "(range_get 15 0 (NOT (sum_tree xs)) :: u16) = ip_checksum h bs"
    using checksum_of_sums[of xs "header_of h (without_checksum bs)"] xs(2-4) by (simp add: tree_width_def ip_checksum_def)
  have s3: "s3 = s2\<lparr>mcs_sums := [], mcs_isc := isc_feed ws [ip_checksum h bs] (mcs_isc s)\<rparr>"
    using r fin by (simp add: s3_def s2 mac_act_def mac_copies finalize_ipv4_checksum_def cics_deliver_def s1 xi_deliver_def s0_def mac_put_def xs(1))
  define ck where "ck = (insert_ip_checksum 64 ^^ n) (mcs_isc s3)"
  have i3: "iscf_in (mcs_isc s3) = ws @ []" "isc_wordCount (mcs_isc s3) = 0" "iscf_checksum (mcs_isc s3) = ip_checksum h bs # []"
    "iscf_out (mcs_isc s3) = []" using r inv by (simp_all add: s3)
  obtain vs where vs: "isc_done (mcs_isc s3) [] [] vs ck" "packet 64 vs (checksummed h bs)"
    using isc_packet[OF assms(2) i3(1-3)] assms(3) by (auto simp: ck_def n_def checksummed_def)
  define s4 where "s4 = (mac_act c InsertIpChecksum ^^ n) s3"
  have s4: "s4 = isc_deliver ck s3" using run_insert_checksum[where s = s3 and c = c and k = n] i3(4) by (simp add: s4_def ck_def)
  have ck: "isc_wordCount ck = 0" "iscf_checksum ck = []" "iscf_in ck = []" "iscf_out ck = vs" using vs(1) i3(4) by (simp_all add: isc_done_def)
  \<comment> \<open>the answer of the ARP table\<close>
  define ha where "ha = (handle_arp_reply (mcc_mac c) (mcc_v c) ^^ length vs) (mcs_har s4)"
  have h4: "harf_in (mcs_har s4) = vs @ []" "har_state (mcs_har s4) = HAR_ARP" "harf_arp (mcs_har s4) = r # []" "harf_header (mcs_har s4) = []"
    "harf_out (mcs_har s4) = []"
    using r inv ck(4) by (simp_all add: s4 isc_deliver_def s3 s2 cics_deliver_def s1 xi_deliver_def s0_def mac_put_def har_feed_def)
  have ha: "harf_arp ha = []" "harf_in ha = []" "har_state ha = HAR_ARP"
    "harf_header ha = (if atr_hit r then [har_fill (atr_macAddress r) (mcc_mac c) (mcc_v c)] else [])" "harf_out ha = (if atr_hit r then vs else [])"
    using har_packet[OF vs(2) h4(1-3), of "mcc_mac c" "mcc_v c"] h4(2,4,5) by (simp_all add: ha_def)
  define s5 where "s5 = (mac_act c HandleArpReply ^^ length vs) s4"
  have s5: "s5 = har_deliver ha s4" using run_handle_arp[where s = s4 and c = c and k = "length vs"] h4(4,5) by (simp add: s5_def ha_def)
  have parts: "mcs_xi s5 = xi\<lparr>rhf_out := []\<rparr>" "mcs_cics s5 = ci\<lparr>cicsf_out := [], cicsf_sums := []\<rparr>" "mcs_sums s5 = []"
    "mcs_isc s5 = ck\<lparr>iscf_out := []\<rparr>" "mcs_har s5 = ha\<lparr>harf_header := [], harf_out := []\<rparr>"
    "mcs_lw s5 = lw_feed (harf_out ha) (mcs_lw s)" "mcs_ieh s5 = ieh_feed (harf_header ha) [] (mcs_ieh s)"
    by (simp_all add: s5 har_deliver_def s4 isc_deliver_def s3 s2 cics_deliver_def s1 xi_deliver_def s0_def mac_put_def)
  define ps where "ps = replicate n ExtractIpAddress @ replicate n MacChecksum @ [MacFinalize] @ replicate n InsertIpChecksum
     @ replicate (length vs) HandleArpReply"
  have run5: "fold (mac_act c) ps (mac_put [r] ws s) = s5"
    by (simp add: ps_def run_replicate s5_def s4_def s3_def s2_def s1_def s0_def)
  have rest5: "rh_idle (xi\<lparr>rhf_out := []\<rparr>)" "cics_firstWord ci" "cics_ip_sums ci = replicate 32 0" "cicsf_in ci = []"
    using xi(1) xs(1) c1(2,3) by (simp_all add: rh_idle_def)
  show ?thesis
  proof (cases "atr_hit r")
    case False
    then have "mac_sent c r x bs s s5"
      using inv r rest5 xi ck ha parts by (simp add: mac_sent_def mac_rest_def mac_inv_def)
    then show ?thesis using run5 by blast
  next
    case True
    define l where "l = mcs_lw s5"
    have l: "\<not> lw_writeRemainder l" "lw_firstWord l" "lwf_in l = vs @ []" "lwf_out l = []"
      using parts(6) ha(5) True r inv by (simp_all add: l_def lw_feed_def)
    obtain k out where k: "packet 64 out (replicate 14 0 @ checksummed h bs)" "lw_done l [] out ((lshiftWordByOctet 64 14 ^^ k) l)"
      using lshift_prepends[OF vs(2) _ _ l(1-3), of 14] by auto
    define l' where "l' = (lshiftWordByOctet 64 14 ^^ k) l"
    have l': "\<not> lw_writeRemainder l'" "lw_firstWord l'" "lwf_in l' = []" "lwf_out l' = out" using k(2) l(4) by (simp_all add: lw_done_def l'_def)
    define s6 where "s6 = (mac_act c MacLshift ^^ k) s5"
    have s6: "s6 = mlw_deliver l' s5" using run_mac_lshift[where s = s5 and c = c and k = k] l(4) by (simp add: s6_def l'_def l_def)
    define e where "e = har_fill (atr_macAddress r) (mcc_mac c) (mcc_v c)"
    have e: "ph_idx e = 0" "ph_header e = eth_header (atr_macAddress r) (mcc_mac c)" by (simp_all add: e_def har_fill_header)
    have e6: "iehf_in (mcs_ieh s6) = out @ []" "ieh_state (mcs_ieh s6) = IEH_PARTIAL_HEADER" "iehf_header (mcs_ieh s6) = e # []"
      "iehf_out (mcs_ieh s6) = iehf_out (mcs_ieh s)"
      using parts(7) ha(4) True r l'(4) by (simp_all add: s6 mlw_deliver_def e_def)
    obtain fs where fs: "ieh_done (mcs_ieh s6) [] [] fs ((insert_ethernet_header 64 (mcc_u c) ^^ length out) (mcs_ieh s6))"
      "packet 64 fs (header_bytes (eth_header (atr_macAddress r) (mcc_mac c)) @ checksummed h bs)"
      using ieh_packet[OF k(1) e6(1-3) e(1), of "mcc_u c"] e(2) by auto
    define t where "t = (mac_act c InsertEthernet ^^ length out) s6"
    have t: "t = s6\<lparr>mcs_ieh := (insert_ethernet_header 64 (mcc_u c) ^^ length out) (mcs_ieh s6)\<rparr>"
      using run_insert_ethernet[where k = "length out" and c = c and s = s6] by (simp add: t_def)
    have "mac_sent c r x bs s t"
      using inv r rest5 xi ck ha parts l' fs e6(4) True
      by (simp add: mac_sent_def mac_rest_def mac_inv_def t s6 mlw_deliver_def ieh_done_def h_def)
    moreover have "fold (mac_act c) (ps @ replicate k MacLshift @ replicate (length out) InsertEthernet) (mac_put [r] ws s) = t"
      by (simp add: run5 run_replicate t_def s6_def)
    ultimately show ?thesis by blast
  qed
qed

lemma mac_sends:
  assumes "mac_rest s" and "packet 64 ws bs" and "20 \<le> length bs" and "header_bytes (x :: 160 word) = take 20 bs"
    and "4 * unat (ip_getHeaderLength x) \<le> length bs"
  shows "\<exists>k t. mac_sent c r x bs s t \<and> (\<forall>rounds. fair rounds \<longrightarrow> k \<le> length rounds \<longrightarrow> mac_run c rounds (mac_put [r] ws s) = t)"
proof -
  obtain ps where ps: "mac_sent c r x bs s (fold (mac_act c) ps (mac_put [r] ws s))" using mac_send_run[OF assms] by blast
  have "mac_inv (mac_put [r] ws s)" using assms(1) by (simp add: mac_rest_def mac_inv_def mac_put_def)
  moreover have "mcs.quiet (fold (mac_act c) ps (mac_put [r] ws s))" using ps by (intro mac_rest_quiet) (simp add: mac_sent_def)
  ultimately show ?thesis using mcs.all_schedules_agree ps unfolding mac_run_def by blast
qed

end
