(* ===== verification/Ip_Dispatch.thy ===== *)
theory Ip_Dispatch
  imports Ip_Handler Mac_Trip
begin

text \<open>
  A packet through each process of the dispatcher (\<^verbatim>\<open>ip_handler/ip_handler.cpp\<close>) on its own, and the fields of the headers
  as bytes of the frame.
\<close>

subsection \<open>Fields as bytes\<close>

definition be16 :: "nat \<Rightarrow> byte list \<Rightarrow> u16" where
  "be16 i bs = word_rcat [bs ! i, bs ! (i + 1)]"

definition le32 :: "nat \<Rightarrow> byte list \<Rightarrow> u32" where
  "le32 i bs = word_rcat [bs ! (i + 3), bs ! (i + 2), bs ! (i + 1), bs ! i]"

lemma bit_rcat:
  "bit (word_rcat (rev bs) :: 'h::len word) n \<longleftrightarrow> n < LENGTH('h) \<and> n div 8 < length bs \<and> bit (bs ! (n div 8) :: byte) (n mod 8)"
  using bit_horner_sum_uint_exp_iff[of bs n] by (simp add: word_rcat_def bit_word_of_int_iff)

lemma bit_be16: "bit (be16 i bs) n \<longleftrightarrow> (if n < 8 then bit (bs ! (i + 1)) n else n < 16 \<and> bit (bs ! i) (n - 8))"
proof -
  have "n < 16 \<Longrightarrow> \<not> n < 8 \<Longrightarrow> n div 8 = 1 \<and> n mod 8 = n - 8" by presburger
  then show ?thesis using bit_rcat[of "[bs ! (i + 1), bs ! i]" n, where 'h = 16] by (auto simp: be16_def)
qed

lemma bit_le32: "n < 32 \<Longrightarrow> bit (le32 i bs) n \<longleftrightarrow> bit (bs ! (i + n div 8)) (n mod 8)"
proof -
  assume n: "n < 32"
  then have "n div 8 < 4" by simp
  then have "n div 8 \<in> {0, 1, 2, 3}" by auto
  then show ?thesis using n bit_rcat[of "[bs ! i, bs ! (i + 1), bs ! (i + 2), bs ! (i + 3)]" n, where 'h = 32]
    by (auto simp: le32_def numeral_3_eq_3 numeral_2_eq_2)
qed

lemma bit_header_byte:
  assumes "header_bytes (x :: 'h::len word) = take n bs" and "i < n" and "n \<le> length bs"
  shows "bit (bs ! i) k \<longleftrightarrow> k < 8 \<and> bit x (8 * i + k)"
proof -
  have "n = LENGTH('h) div 8" using arg_cong[OF assms(1), of length] assms(3) by simp
  moreover have "bs ! i = header_bytes x ! i" using assms by simp
  ultimately show ?thesis using assms(2) by (simp add: header_bytes_nth bit_simps)
qed

lemma ethertype_bytes:
  assumes "header_bytes (x :: 112 word) = take 14 bs" and "14 \<le> length bs"
  shows "eth_getEthertype x = be16 12 bs"
proof (rule bit_word_eqI)
  fix n assume "n < LENGTH(16)"
  then have n: "n < 16" "\<not> n < 8 \<Longrightarrow> n - 8 < 8" by simp_all
  have "bit (eth_getEthertype x) n \<longleftrightarrow> (if n < 8 then bit x (104 + n) else bit x (96 + (n - 8)))"
    using n by (auto simp: eth_getEthertype_def reverse16_def bit_range_get bit_range_set ac_simps)
  then show "bit (eth_getEthertype x) n = bit (be16 12 bs) n"
    using n bit_header_byte[OF assms(1) _ assms(2), of 12 "n - 8"] bit_header_byte[OF assms(1) _ assms(2), of 13 n]
    by (cases "n < 8") (simp_all add: bit_be16)
qed

lemma protocol_byte:
  assumes "header_bytes (x :: 160 word) = take 20 bs" and "20 \<le> length bs"
  shows "ip_getProtocol x = bs ! 9"
proof (rule bit_word_eqI)
  fix n assume "n < LENGTH(8)"
  then show "bit (ip_getProtocol x) n = bit (bs ! 9) n"
    using bit_header_byte[OF assms(1) _ assms(2), of 9 n] by (simp add: ip_getProtocol_def bit_range_get ac_simps)
qed

lemma dst_bytes:
  assumes "header_bytes (x :: 160 word) = take 20 bs" and "20 \<le> length bs"
  shows "ip_getDstAddr x = le32 16 bs"
proof (rule bit_word_eqI)
  fix n assume "n < LENGTH(32)"
  then have n: "n < 32" "8 * (16 + n div 8) + n mod 8 = n + 128" by simp_all
  then have "bit (bs ! (16 + n div 8)) (n mod 8) \<longleftrightarrow> bit x (n + 128)"
    using bit_header_byte[OF assms(1) _ assms(2), of "16 + n div 8" "n mod 8"] by simp
  then show "bit (ip_getDstAddr x) n = bit (le32 16 bs) n" using n by (simp add: bit_le32 ip_getDstAddr_def bit_range_get)
qed

lemma total_length_bytes:
  assumes "packet 64 (w # ws) bs" and "4 \<le> length bs"
  shows "total_length w = be16 2 bs"
proof (rule bit_word_eqI)
  fix n assume "n < LENGTH(16)"
  moreover from this have "\<not> n < 8 \<Longrightarrow> n - 8 < 8" by simp
  moreover have "fst (ax_lanes w ! 2) = bs ! 2" "fst (ax_lanes w ! 3) = bs ! 3"
    using packet_nth(1)[OF assms(1), of 0] assms(2) by (simp_all add: word_of_def)
  ultimately show "bit (total_length w) n = bit (be16 2 bs) n"
    by (cases "n < 8") (simp_all add: total_length_def bit_range_set bit_be16)
qed

text \<open>The header of a packet exists as a word.\<close>

lemma header_word:
  assumes "LENGTH('h) = 8 * n" and "n \<le> length bs"
  shows "header_bytes (word_rcat (rev (take n bs)) :: 'h::len word) = take n bs"
proof (rule nth_equalityI)
  fix i assume "i < length (header_bytes (word_rcat (rev (take n bs)) :: 'h word))"
  then have i: "i < n" using assms(1) by simp
  show "header_bytes (word_rcat (rev (take n bs)) :: 'h word) ! i = take n bs ! i"
  proof (rule bit_word_eqI)
    fix k assume k: "k < LENGTH(8)"
    then have "(8 * i + k) div 8 = i" "(8 * i + k) mod 8 = k" "8 * i + k < 8 * n" using i by simp_all
    then show "bit (header_bytes (word_rcat (rev (take n bs)) :: 'h word) ! i) k = bit (take n bs ! i) k"
      using i k assms by (simp add: header_bytes_nth bit_simps bit_rcat)
  qed
qed (use assms in simp)

subsection \<open>By Ethernet type\<close>

definition rep_typed :: "u16 \<Rightarrow> u16 list \<Rightarrow> net_axis list \<Rightarrow> net_axis list \<Rightarrow> rep_st \<Rightarrow> rep_st" where
  "rep_typed t ts rest ws s = s\<lparr>rep_etherType := t, repf_type := ts, repf_in := rest,
     repf_arp := repf_arp s @ (if t = ARP then ws else []), repf_ip := repf_ip s @ (if t = IPv4 then ws else []),
     repf_ipv6 := repf_ipv6 s @ (if t = IPv6 then ws else [])\<rparr>"

lemma rep_typed_simps [simp]:
  "repf_in (rep_typed t ts rest ws s) = rest" "repf_type (rep_typed t ts rest ws s) = ts" "rep_etherType (rep_typed t ts rest ws s) = t"
  "rep_fsmState (rep_typed t ts rest ws s) = rep_fsmState s"
  by (simp_all add: rep_typed_def)

lemma rep_typed_join:
  "u = rep_typed t ts r xs (s\<lparr>rep_fsmState := b\<rparr>) \<Longrightarrow> v = rep_typed t ts q ys (u\<lparr>rep_fsmState := c\<rparr>)
     \<Longrightarrow> v = rep_typed t ts q (xs @ ys) (s\<lparr>rep_fsmState := c\<rparr>)"
  by (simp add: rep_typed_def)

lemma rep_write_typed:
  "rep_etherType s = t \<Longrightarrow> rep_write True w s = rep_typed t (repf_type s) (repf_in s) [w] s"
  by (auto simp: rep_write_def rep_typed_def ARP_def IPv4_def IPv6_def)

lemma rep_packet:
  assumes "packet 64 ws bs" and "repf_in s = ws @ rest" and "\<not> rep_fsmState s" and "repf_type s = t # ts"
  shows "(route_by_eth_protocol 64 ^^ length ws) s = rep_typed t ts rest ws s"
proof -
  have step: "route_by_eth_protocol 64 s = rep_typed t ts r [w] (s\<lparr>rep_fsmState := \<not> ax_last w\<rparr>)"
    if "repf_in s = w # r" and "if rep_fsmState s then rep_etherType s = t \<and> repf_type s = ts else repf_type s = t # ts" for s w r
    using that by (cases "rep_fsmState s")
      (simp_all add: route_by_eth_protocol_def Let_def rep_write_typed, simp_all add: rep_typed_def)
  let ?R = "\<lambda>xs s u. u = rep_typed t ts (repf_in u) xs (s\<lparr>rep_fsmState := \<not> ax_last (last xs)\<rparr>)"
  have "?R ws s ((route_by_eth_protocol 64 ^^ length ws) s) \<and> repf_in ((route_by_eth_protocol 64 ^^ length ws) s) = rest
      \<and> ax_last (last ws)"
    by (rule packet_run[where inp = repf_in and P = "\<lambda>s. rep_fsmState s \<and> rep_etherType s = t \<and> repf_type s = ts" and R = ?R,
          OF assms(1,2)]) (use assms in \<open>auto simp: step rep_typed_join\<close>)
  then have "(route_by_eth_protocol 64 ^^ length ws) s = rep_typed t ts rest ws (s\<lparr>rep_fsmState := False\<rparr>)" by metis
  moreover have "s\<lparr>rep_fsmState := False\<rparr> = s" using assms(3) by simp
  ultimately show ?thesis by (simp only:)
qed

subsection \<open>Invalid packets\<close>

definition iid_through :: "bool \<Rightarrow> net_axis list \<Rightarrow> net_axis list \<Rightarrow> iid_fsm \<Rightarrow> iid_st \<Rightarrow> iid_st" where
  "iid_through ok rest ws q s = s\<lparr>iidf_in := rest, iidf_out := iidf_out s @ (if ok then ws else []), iid_state := q\<rparr>"

lemma iid_through_simps [simp]: "iidf_in (iid_through ok rest ws q s) = rest" "iid_state (iid_through ok rest ws q s) = q"
  by (simp_all add: iid_through_def)

lemma iid_through_join:
  "u = iid_through ok r xs q s \<Longrightarrow> v = iid_through ok r' ys q' u \<Longrightarrow> v = iid_through ok r' (xs @ ys) q' s"
  by (simp add: iid_through_def)

lemma iid_rest_run:
  assumes "packet 64 ws bs" and "iidf_in s = ws @ rest" and "iid_state s = (if ok then IID_FWD else IID_DROP)"
  shows "(ip_invalid_dropper ^^ length ws) s = iid_through ok rest ws GET_VALID s"
proof -
  let ?q = "if ok then IID_FWD else IID_DROP"
  let ?R = "\<lambda>xs s u. u = iid_through ok (iidf_in u) xs (if ax_last (last xs) then GET_VALID else ?q) s"
  have step: "ip_invalid_dropper s = iid_through ok r [w] (if ax_last w then GET_VALID else ?q) s"
    if "iidf_in s = w # r" "iid_state s = ?q" for s w r
    using that by (cases ok) (simp_all add: ip_invalid_dropper_def Let_def iid_through_def)
  have "?R ws s ((ip_invalid_dropper ^^ length ws) s) \<and> iidf_in ((ip_invalid_dropper ^^ length ws) s) = rest \<and> ax_last (last ws)"
    by (rule packet_rest_run[where inp = iidf_in and P = "\<lambda>s. iid_state s = ?q" and R = ?R, OF assms])
      (auto simp: step intro: iid_through_join)
  then show ?thesis by metis
qed

lemma iid_packet:
  assumes "packet 64 ws bs" and "iidf_in s = ws @ rest" and "iid_state s = GET_VALID" and "iidf_checksum s = c # cs"
    and "iidf_address s = d # ds"
  shows "(ip_invalid_dropper ^^ Suc (length ws)) s = s\<lparr>iidf_in := rest, iidf_checksum := cs, iidf_address := ds,
     iidf_valid := iidf_valid s @ [c \<and> d], iidf_out := iidf_out s @ (if c \<and> d then ws else [])\<rparr>"
proof -
  define u where "u = ip_invalid_dropper s"
  have u: "u = s\<lparr>iidf_checksum := cs, iidf_address := ds, iidf_valid := iidf_valid s @ [c \<and> d],
      iid_state := (if c \<and> d then IID_FWD else IID_DROP)\<rparr>"
    using assms(3-5) by (simp add: u_def ip_invalid_dropper_def Let_def)
  have "(ip_invalid_dropper ^^ Suc (length ws)) s = (ip_invalid_dropper ^^ length ws) u"
    by (simp add: funpow_Suc_right u_def del: funpow.simps)
  also have "\<dots> = iid_through (c \<and> d) rest ws GET_VALID u"
    by (rule iid_rest_run[OF assms(1)]) (use u assms(2) in simp_all)
  finally show ?thesis using u assms(3) by (simp add: iid_through_def)
qed

subsection \<open>The padding of a short frame\<close>

text \<open>A packet of one word is cut to its total length. A longer one is passed on as it is.\<close>

definition trimmed :: "byte list \<Rightarrow> byte list" where
  "trimmed ip = (if length ip \<le> 64 then take (unat (be16 2 ip)) ip else ip)"

definition cl_done :: "cl_st \<Rightarrow> net_axis list \<Rightarrow> net_axis list \<Rightarrow> cl_st \<Rightarrow> bool" where
  "cl_done s rest out t \<longleftrightarrow> \<not> cl_rest t \<and> clf_in t = rest \<and> clf_out t = clf_out s @ out"

lemma cl_rest_run:
  assumes "packet 64 ws bs" and "clf_in s = ws @ rest" and "cl_rest s"
  shows "cl_done s rest ws ((cut_length ^^ length ws) s)"
proof -
  let ?R = "\<lambda>xs s u. clf_out u = clf_out s @ xs \<and> cl_rest u = (\<not> ax_last (last xs))"
  have "?R ws s ((cut_length ^^ length ws) s) \<and> clf_in ((cut_length ^^ length ws) s) = rest \<and> ax_last (last ws)"
    by (rule packet_rest_run[where inp = clf_in and P = cl_rest and R = ?R, OF assms]) (auto simp: cut_length_def Let_def)
  then show ?thesis by (simp add: cl_done_def)
qed

lemma cl_packet:
  assumes "packet 64 ws ip" and "clf_in s = ws @ rest" and "\<not> cl_rest s" and "4 \<le> length ip"
    and "0 < unat (be16 2 ip)" and "unat (be16 2 ip) \<le> length ip"
  shows "\<exists>out. cl_done s rest out ((cut_length ^^ length ws) s) \<and> packet 64 out (trimmed ip)"
proof -
  obtain w ws' where ws: "ws = w # ws'" using packet_nonempty[OF assms(1)] by (cases ws) auto
  have short: "ws' = [] \<longleftrightarrow> length ip \<le> 64" using packet_short[of 64 w ws' ip] assms(1) ws by simp
  define u where "u = cut_length s"
  have run: "(cut_length ^^ length ws) s = (cut_length ^^ length ws') u"
    by (simp add: ws funpow_Suc_right u_def del: funpow.simps)
  show ?thesis
  proof (cases "ws' = []")
    case True
    define r where "r = unat (be16 2 ip)"
    have r: "0 < r" "r \<le> length ip" "r \<le> 64" using assms(5,6) short True by (simp_all add: r_def)
    have last: "ax_last w" using assms(1) ws True by (simp add: packet_single)
    have "total_length w = be16 2 ip" using total_length_bytes[of w ws' ip] assms(1,4) ws by simp
    then have keep: "lenToKeep (ucast (total_length w)) = mask r"
    proof -
      have "unat (ucast (be16 2 ip) :: 6 word) = r mod 64" by (simp add: r_def unat_cast)
      then show ?thesis using r \<open>total_length w = be16 2 ip\<close>
        by (cases "r = 64") (auto simp: lenToKeep_mask unat_eq_zero[symmetric])
    qed
    have p: "packet 64 [(set_keep (mask r) w)\<lparr>ax_last := True\<rparr>] (take r ip)"
      by (rule cut_first[of 64 w ws' ip]) (use assms(1) ws r in simp_all)
    have "(set_keep (mask r) w)\<lparr>ax_last := True\<rparr> = set_keep (mask r) w" using last by (simp add: set_keep_def)
    then have "packet 64 [set_keep (mask r) w] (trimmed ip)" using p short True by (simp add: trimmed_def r_def)
    moreover have "cl_done s rest [set_keep (mask r) w] ((cut_length ^^ length ws) s)"
      unfolding run using True last assms(2,3) ws keep by (simp add: u_def cl_done_def cut_length_def Let_def)
    ultimately show ?thesis by blast
  next
    case False
    then have p: "\<not> ax_last w" "packet 64 ws' (drop 64 ip)" using assms(1) ws by (simp_all add: packet_cons)
    have u: "clf_in u = ws' @ rest" "clf_out u = clf_out s @ [w]" "cl_rest u"
      using p(1) assms(2,3) ws by (simp_all add: u_def cut_length_def Let_def)
    have "cl_done s rest ws ((cut_length ^^ length ws) s)"
      unfolding run using cl_rest_run[OF p(2) u(1,3)] u(2) ws by (simp add: cl_done_def)
    moreover have "trimmed ip = ip" using short False by (simp add: trimmed_def)
    ultimately show ?thesis using assms(1) by auto
  qed
qed

subsection \<open>By protocol\<close>

definition dip_sent :: "8 word \<Rightarrow> net_axis list \<Rightarrow> net_axis list \<Rightarrow> dip_st \<Rightarrow> dip_st" where
  "dip_sent p rest ws s = s\<lparr>dipf_in := rest, dipf_icmp := dipf_icmp s @ (if p = ICMP then ws else []),
     dipf_udp := dipf_udp s @ (if p = UDP then ws else []), dipf_tcp := dipf_tcp s @ (if p = TCP then ws else [])\<rparr>"

lemma dip_sent_simps [simp]:
  "dipf_in (dip_sent p rest ws s) = rest" "dip_ipProtocol (dip_sent p rest ws s) = dip_ipProtocol s" "dip_pkg (dip_sent p rest ws s) = dip_pkg s"
  by (simp_all add: dip_sent_def)

lemma dip_sent_join:
  "u = dip_sent p r xs (s\<lparr>dip_pkg := b\<rparr>) \<Longrightarrow> v = dip_sent p q ys (u\<lparr>dip_pkg := c\<rparr>) \<Longrightarrow> v = dip_sent p q (xs @ ys) (s\<lparr>dip_pkg := c\<rparr>)"
  by (simp add: dip_sent_def)

lemma dip_rest_run:
  assumes "packet 64 ws bs" and "dipf_in s = ws @ rest" and "dip_pkg s" and "dip_ipProtocol s = p"
  shows "(detect_ipv4_protocol ^^ length ws) s = dip_sent p rest ws (s\<lparr>dip_pkg := False\<rparr>)"
proof -
  let ?R = "\<lambda>xs s u. u = dip_sent p (dipf_in u) xs (s\<lparr>dip_pkg := \<not> ax_last (last xs)\<rparr>)"
  have step: "detect_ipv4_protocol s = dip_sent p r [w] (s\<lparr>dip_pkg := \<not> ax_last w\<rparr>)"
    if "dipf_in s = w # r" "dip_pkg s" "dip_ipProtocol s = p" for s w r
    using that by (auto simp: detect_ipv4_protocol_def Let_def dip_sent_def ICMP_def UDP_def TCP_def)
  have "?R ws s ((detect_ipv4_protocol ^^ length ws) s) \<and> dipf_in ((detect_ipv4_protocol ^^ length ws) s) = rest \<and> ax_last (last ws)"
    by (rule packet_rest_run[where inp = dipf_in and P = "\<lambda>s. dip_pkg s \<and> dip_ipProtocol s = p" and R = ?R, OF assms(1,2)])
      (use assms in \<open>auto simp: step intro: dip_sent_join\<close>)
  then show ?thesis by metis
qed

lemma dip_take:
  assumes "\<not> dip_pkg s" and "dipf_protocol s = p # ps" and "dipf_valid s = v # vs"
  shows "detect_ipv4_protocol s = s\<lparr>dip_ipProtocol := p, dipf_protocol := ps, dipf_valid := vs, dip_pkg := v\<rparr>"
  using assms by (simp add: detect_ipv4_protocol_def)

lemma dip_packet:
  assumes "packet 64 ws bs" and "dipf_in s = ws @ rest" and "\<not> dip_pkg s" and "dipf_protocol s = p # ps" and "dipf_valid s = True # vs"
  shows "(detect_ipv4_protocol ^^ Suc (length ws)) s = dip_sent p rest ws (s\<lparr>dip_ipProtocol := p, dipf_protocol := ps, dipf_valid := vs\<rparr>)"
proof -
  define u where "u = detect_ipv4_protocol s"
  have u: "u = s\<lparr>dip_ipProtocol := p, dipf_protocol := ps, dipf_valid := vs, dip_pkg := True\<rparr>"
    using dip_take[OF assms(3-5)] by (simp add: u_def)
  have "(detect_ipv4_protocol ^^ Suc (length ws)) s = (detect_ipv4_protocol ^^ length ws) u"
    by (simp add: funpow_Suc_right u_def del: funpow.simps)
  also have "\<dots> = dip_sent p rest ws (u\<lparr>dip_pkg := False\<rparr>)"
    using dip_rest_run[OF assms(1), of u rest p] u assms(2) by simp
  also have "u\<lparr>dip_pkg := False\<rparr> = s\<lparr>dip_ipProtocol := p, dipf_protocol := ps, dipf_valid := vs\<rparr>" using u assms(3) by simp
  finally show ?thesis .
qed

lemma duplicate_run: "(ip_handler_duplicate_stream ^^ length xs) (xs @ ys, o1, o2) = (ys, o1 @ xs, o2 @ xs)"
proof (induction xs arbitrary: o1 o2)
  case (Cons x xs)
  have "ip_handler_duplicate_stream ((x # xs) @ ys, o1, o2) = (xs @ ys, o1 @ [x], o2 @ [x])"
    by (simp add: ip_handler_duplicate_stream_def)
  then show ?case using Cons.IH[of "o1 @ [x]" "o2 @ [x]"] by (simp add: funpow_Suc_right del: funpow.simps)
qed simp

definition di6_sent :: "8 word \<Rightarrow> net_axis list \<Rightarrow> net_axis list \<Rightarrow> di6_st \<Rightarrow> di6_st" where
  "di6_sent p rest ws s = s\<lparr>di6_nextHeader := p, di6f_in := rest, di6f_icmpv6 := di6f_icmpv6 s @ (if p = ICMPv6 then ws else []),
     di6f_udp := di6f_udp s @ (if p = UDP then ws else [])\<rparr>"

lemma di6_sent_simps [simp]:
  "di6f_in (di6_sent p rest ws s) = rest" "di6_nextHeader (di6_sent p rest ws s) = p" "di6_state (di6_sent p rest ws s) = di6_state s"
  by (simp_all add: di6_sent_def)

lemma di6_sent_join:
  "u = di6_sent p r xs (s\<lparr>di6_state := b\<rparr>) \<Longrightarrow> v = di6_sent p q ys (u\<lparr>di6_state := c\<rparr>) \<Longrightarrow> v = di6_sent p q (xs @ ys) (s\<lparr>di6_state := c\<rparr>)"
  by (simp add: di6_sent_def)

lemma di6_word:
  assumes "di6f_in s = w # rest"
  shows "detect_ipv6_protocol s = di6_sent (if di6_state s then di6_nextHeader s else fst (ax_lanes w ! 6)) rest [w] (s\<lparr>di6_state := \<not> ax_last w\<rparr>)"
  using assms by (auto simp: detect_ipv6_protocol_def Let_def di6_sent_def ICMPv6_def UDP_def)

lemma di6_packet:
  assumes "packet 64 ws ip" and "di6f_in s = ws @ rest" and "\<not> di6_state s" and "6 < length ip"
  shows "(detect_ipv6_protocol ^^ length ws) s = di6_sent (ip ! 6) rest ws s"
proof -
  have lane: "fst (ax_lanes w ! 6) = ip ! 6" if "ws = w # r" for w r
    using packet_nth(1)[OF assms(1), of 0] assms(4) that by (simp add: word_of_def)
  let ?R = "\<lambda>xs s u. u = di6_sent (ip ! 6) (di6f_in u) xs (s\<lparr>di6_state := \<not> ax_last (last xs)\<rparr>)"
  have "?R ws s ((detect_ipv6_protocol ^^ length ws) s) \<and> di6f_in ((detect_ipv6_protocol ^^ length ws) s) = rest \<and> ax_last (last ws)"
    by (rule packet_run[where inp = di6f_in and P = "\<lambda>s. di6_state s \<and> di6_nextHeader s = ip ! 6" and R = ?R, OF assms(1,2)])
      (use assms in \<open>auto simp: di6_word lane intro: di6_sent_join\<close>)
  then have "(detect_ipv6_protocol ^^ length ws) s = di6_sent (ip ! 6) rest ws (s\<lparr>di6_state := False\<rparr>)" by metis
  moreover have "s\<lparr>di6_state := False\<rparr> = s" using assms(3) by simp
  ultimately show ?thesis by (simp only:)
qed

end
