(* ===== verification/Ip_Handler_Trip.thy ===== *)
theory Ip_Handler_Trip
  imports Ip_Dispatch
begin

text \<open>
  A frame through the dispatcher: one process after the other, and from there under every schedule. What the module promises
  is a function of the bytes of the frame.
\<close>

subsection \<open>What the module promises\<close>

datatype ih_out = ArpOut | IcmpOut | UdpOut | RoceOut | TcpOut | Icmpv6Out | Udpv6Out

fun ih_stream :: "ih_out \<Rightarrow> ih_st \<Rightarrow> net_axis list" where
  "ih_stream ArpOut s = repf_arp (ih_rep s)"
| "ih_stream IcmpOut s = dipf_icmp (ih_dip s)"
| "ih_stream UdpOut s = ih_m_udp s"
| "ih_stream RoceOut s = ih_m_roce s"
| "ih_stream TcpOut s = dipf_tcp (ih_dip s)"
| "ih_stream Icmpv6Out s = di6f_icmpv6 (ih_di6 s)"
| "ih_stream Udpv6Out s = di6f_udp (ih_di6 s)"

definition ip_valid :: "byte list \<Rightarrow> bool" where
  "ip_valid ip \<longleftrightarrow> ones_sum (be_words (header_of (unat (ucast (ip ! 0) :: 4 word)) ip)) = 65535"

definition ipv4_outs :: "8 word \<Rightarrow> ih_out list" where
  "ipv4_outs p = (if p = 1 then [IcmpOut] else if p = 17 then [UdpOut, RoceOut] else if p = 6 then [TcpOut] else [])"

definition ipv6_outs :: "8 word \<Rightarrow> ih_out list" where
  "ipv6_outs p = (if p = 58 then [Icmpv6Out] else if p = 17 then [Udpv6Out] else [])"

text \<open>Where the frame goes, and what of it.\<close>

definition dispatch :: "u32 \<Rightarrow> byte list \<Rightarrow> ih_out list \<times> byte list" where
  "dispatch a bs =
    (let ip = drop 14 bs in
     if be16 12 bs = 0x0806 then ([ArpOut], bs)
     else if be16 12 bs = 0x0800 then
       (if ip_valid ip \<and> ip_accepts a (le32 16 ip) then ipv4_outs (ip ! 9) else [], trimmed ip)
     else if be16 12 bs = 0x86DD then (ipv6_outs (ip ! 6), ip)
     else ([], []))"

text \<open>A frame that is long enough for its headers; an IPv4 packet is not shorter than it says.\<close>

definition frame_ok :: "byte list \<Rightarrow> bool" where
  "frame_ok bs \<longleftrightarrow> 34 \<le> length bs \<and> (be16 12 bs = 0x0800 \<longrightarrow>
     (let ip = drop 14 bs in 4 * unat (ucast (ip ! 0) :: 4 word) \<le> length ip \<and> 0 < unat (be16 2 ip) \<and> unat (be16 2 ip) \<le> length ip))"

subsection \<open>The module at rest\<close>

definition rh_rested :: "('m, 'h::len) rh_st \<Rightarrow> bool" where
  "rh_rested h \<longleftrightarrow> rh_idle h \<and> rhf_in h = [] \<and> rhf_out h = [] \<and> rhf_meta h = []"

definition rw_rested :: "rw_st \<Rightarrow> bool" where
  "rw_rested x \<longleftrightarrow> \<not> rw_remainder x \<and> rw_firstWord x \<and> rwf_in x = [] \<and> rwf_out x = []"

definition rep_rested :: "rep_st \<Rightarrow> bool" where
  "rep_rested r \<longleftrightarrow> \<not> rep_fsmState r \<and> repf_type r = [] \<and> repf_in r = [] \<and> repf_ip r = [] \<and> repf_ipv6 r = []"

definition cics_rested :: "cics_st \<Rightarrow> bool" where
  "cics_rested c \<longleftrightarrow> cics_firstWord c \<and> cics_ip_sums c = replicate 32 0 \<and> cicsf_in c = [] \<and> cicsf_out c = [] \<and> cicsf_sums c = []"

definition iid_rested :: "iid_st \<Rightarrow> bool" where
  "iid_rested i \<longleftrightarrow> iid_state i = GET_VALID \<and> iidf_in i = [] \<and> iidf_checksum i = [] \<and> iidf_address i = [] \<and> iidf_out i = [] \<and> iidf_valid i = []"

definition cl_rested :: "cl_st \<Rightarrow> bool" where
  "cl_rested l \<longleftrightarrow> \<not> cl_rest l \<and> clf_in l = [] \<and> clf_out l = []"

definition dip_rested :: "dip_st \<Rightarrow> bool" where
  "dip_rested d \<longleftrightarrow> \<not> dip_pkg d \<and> dipf_protocol d = [] \<and> dipf_valid d = [] \<and> dipf_in d = [] \<and> dipf_udp d = []"

definition di6_rested :: "di6_st \<Rightarrow> bool" where
  "di6_rested e \<longleftrightarrow> \<not> di6_state e \<and> di6f_in e = []"

definition ih_rest :: "ih_st \<Rightarrow> bool" where
  "ih_rest s \<longleftrightarrow> rh_rested (ih_eth s) \<and> rep_rested (ih_rep s) \<and> rw_rested (ih_rs4 s) \<and> rw_rested (ih_rs6 s) \<and> rh_rested (ih_meta s)
     \<and> cics_rested (ih_cics s) \<and> ih_sums s = [] \<and> iid_rested (ih_iid s) \<and> cl_rested (ih_cl s) \<and> dip_rested (ih_dip s)
     \<and> di6_rested (ih_di6 s) \<and> ih_udp s = []"

lemmas ih_rested = ih_rest_def rh_rested_def rep_rested_def rw_rested_def cics_rested_def iid_rested_def cl_rested_def dip_rested_def
  di6_rested_def

lemma ih_rest_inv: "ih_rest s \<Longrightarrow> ih_inv s"
  by (simp add: ih_rested ih_inv_def)

lemma ih_rest_quiet: "ih_rest s \<Longrightarrow> ihs.quiet s"
  unfolding ihs.quiet_def by (intro allI, case_tac p) (simp_all add: ih_can_def ih_rested rw_can_def)

text \<open>A run from one state to another.\<close>

definition ih_reaches :: "u32 \<Rightarrow> ih_st \<Rightarrow> ih_st \<Rightarrow> bool" where
  "ih_reaches a s t \<longleftrightarrow> (\<exists>ps. fold (ih_act a) ps s = t)"

lemma ih_reaches_trans: "ih_reaches a s t \<Longrightarrow> ih_reaches a t u \<Longrightarrow> ih_reaches a s u"
  unfolding ih_reaches_def by (metis fold_append comp_apply)

lemma ih_reaches_runs: "(ih_act a p ^^ k) s = t \<Longrightarrow> ih_reaches a s t"
  unfolding ih_reaches_def by (metis run_replicate)

subsection \<open>Steps of one process in the network\<close>

lemma run_detect_eth:
  assumes "rhf_out (ih_eth s) = []" and "rhf_meta (ih_eth s) = []"
  shows "(ih_act a DetectEth ^^ k) s = eth_deliver ((detect_eth_protocol 64 ^^ k) (ih_eth s)) s"
proof (rule run_stage[where clear = "\<lambda>p. p\<lparr>rhf_out := [], rhf_meta := []\<rparr>"
      and join = "\<lambda>p q. q\<lparr>rhf_out := rhf_out p @ rhf_out q, rhf_meta := rhf_meta p @ rhf_meta q\<rparr>"])
  have "(ih_eth s)\<lparr>rhf_out := [], rhf_meta := []\<rparr> = ih_eth s" using assms by simp
  then show "eth_deliver (ih_eth s) s = s" using assms by (simp add: eth_deliver_def)
qed (simp_all add: ih_network rh_outputs[symmetric])

lemma run_route:
  assumes "repf_ip (ih_rep s) = []" and "repf_ipv6 (ih_rep s) = []"
  shows "(ih_act a RouteEth ^^ k) s = rep_deliver ((route_by_eth_protocol 64 ^^ k) (ih_rep s)) s"
proof (rule run_stage[where clear = "\<lambda>p. p\<lparr>repf_ip := [], repf_ipv6 := []\<rparr>"
      and join = "\<lambda>p q. q\<lparr>repf_ip := repf_ip p @ repf_ip q, repf_ipv6 := repf_ipv6 p @ repf_ipv6 q\<rparr>"])
  have "(ih_rep s)\<lparr>repf_ip := [], repf_ipv6 := []\<rparr> = ih_rep s" using assms by simp
  then show "rep_deliver (ih_rep s) s = s" using assms by (simp add: rep_deliver_def)
qed (simp_all add: ih_network route_by_eth_protocol_def rep_write_def Let_def)

lemma rw_outputs:
  "rshiftWordByOctet W off p = (rshiftWordByOctet W off (p\<lparr>rwf_out := []\<rparr>))\<lparr>rwf_out := rwf_out p @ rwf_out (rshiftWordByOctet W off (p\<lparr>rwf_out := []\<rparr>))\<rparr>"
  by (simp add: rshiftWordByOctet_def Let_def)

lemma run_rshift4:
  assumes "rwf_out (ih_rs4 s) = []"
  shows "(ih_act a Rshift4 ^^ k) s = rs4_deliver ((rshiftWordByOctet 64 14 ^^ k) (ih_rs4 s)) s"
proof (rule run_stage[where clear = "\<lambda>p. p\<lparr>rwf_out := []\<rparr>" and join = "\<lambda>p q. q\<lparr>rwf_out := rwf_out p @ rwf_out q\<rparr>"])
  have "(ih_rs4 s)\<lparr>rwf_out := []\<rparr> = ih_rs4 s" using assms by simp
  then show "rs4_deliver (ih_rs4 s) s = s" using assms by (simp add: rs4_deliver_def)
qed (simp_all add: ih_network rw_outputs[symmetric])

lemma run_rshift6:
  assumes "rwf_out (ih_rs6 s) = []"
  shows "(ih_act a Rshift6 ^^ k) s = rs6_deliver ((rshiftWordByOctet 64 14 ^^ k) (ih_rs6 s)) s"
proof (rule run_stage[where clear = "\<lambda>p. p\<lparr>rwf_out := []\<rparr>" and join = "\<lambda>p q. q\<lparr>rwf_out := rwf_out p @ rwf_out q\<rparr>"])
  have "(ih_rs6 s)\<lparr>rwf_out := []\<rparr> = ih_rs6 s" using assms by simp
  then show "rs6_deliver (ih_rs6 s) s = s" using assms by (simp add: rs6_deliver_def)
qed (simp_all add: ih_network rw_outputs[symmetric])

lemma run_extract_meta:
  assumes "rhf_out (ih_meta s) = []" and "rhf_meta (ih_meta s) = []"
  shows "(ih_act a ExtractMeta ^^ k) s = meta_deliver ((extract_ip_meta 64 a ^^ k) (ih_meta s)) s"
proof (rule run_stage[where clear = "\<lambda>p. p\<lparr>rhf_out := [], rhf_meta := []\<rparr>"
      and join = "\<lambda>p q. q\<lparr>rhf_out := rhf_out p @ rhf_out q, rhf_meta := rhf_meta p @ rhf_meta q\<rparr>"])
  have "(ih_meta s)\<lparr>rhf_out := [], rhf_meta := []\<rparr> = ih_meta s" using assms by simp
  then show "meta_deliver (ih_meta s) s = s" using assms by (simp add: meta_deliver_def)
qed (simp_all add: ih_network rh_outputs[symmetric])

lemma run_ih_checksum:
  assumes "cicsf_out (ih_cics s) = []" and "cicsf_sums (ih_cics s) = []"
  shows "(ih_act a IhChecksum ^^ k) s = ihc_deliver ((compute_ipv4_checksum False ^^ k) (ih_cics s)) s"
proof (rule run_stage[where clear = "\<lambda>p. p\<lparr>cicsf_out := [], cicsf_sums := []\<rparr>"
      and join = "\<lambda>p q. q\<lparr>cicsf_out := cicsf_out p @ cicsf_out q, cicsf_sums := cicsf_sums p @ cicsf_sums q\<rparr>"])
  have "(ih_cics s)\<lparr>cicsf_out := [], cicsf_sums := []\<rparr> = ih_cics s" using assms by simp
  then show "ihc_deliver (ih_cics s) s = s" using assms by (simp add: ihc_deliver_def)
qed (simp_all add: ih_network compute_ipv4_checksum_def Let_def)

lemma run_dropper:
  assumes "iidf_out (ih_iid s) = []" and "iidf_valid (ih_iid s) = []"
  shows "(ih_act a InvalidDropper ^^ k) s = iid_deliver ((ip_invalid_dropper ^^ k) (ih_iid s)) s"
proof (rule run_stage[where clear = "\<lambda>p. p\<lparr>iidf_out := [], iidf_valid := []\<rparr>"
      and join = "\<lambda>p q. q\<lparr>iidf_out := iidf_out p @ iidf_out q, iidf_valid := iidf_valid p @ iidf_valid q\<rparr>"])
  have "(ih_iid s)\<lparr>iidf_out := [], iidf_valid := []\<rparr> = ih_iid s" using assms by simp
  then show "iid_deliver (ih_iid s) s = s" using assms by (simp add: iid_deliver_def)
  show "ip_invalid_dropper p = (ip_invalid_dropper (p\<lparr>iidf_out := [], iidf_valid := []\<rparr>))\<lparr>
      iidf_out := iidf_out p @ iidf_out (ip_invalid_dropper (p\<lparr>iidf_out := [], iidf_valid := []\<rparr>)),
      iidf_valid := iidf_valid p @ iidf_valid (ip_invalid_dropper (p\<lparr>iidf_out := [], iidf_valid := []\<rparr>))\<rparr>" for p
    by (cases "iid_state p") (simp_all add: ip_invalid_dropper_def Let_def)
qed (simp_all add: ih_network)

lemma run_cut_length:
  assumes "clf_out (ih_cl s) = []"
  shows "(ih_act a CutLength ^^ k) s = cl_deliver ((cut_length ^^ k) (ih_cl s)) s"
proof (rule run_stage[where clear = "\<lambda>p. p\<lparr>clf_out := []\<rparr>" and join = "\<lambda>p q. q\<lparr>clf_out := clf_out p @ clf_out q\<rparr>"])
  have "(ih_cl s)\<lparr>clf_out := []\<rparr> = ih_cl s" using assms by simp
  then show "cl_deliver (ih_cl s) s = s" using assms by (simp add: cl_deliver_def)
qed (simp_all add: ih_network cut_length_def Let_def)

lemma run_detect_ipv4:
  assumes "dipf_udp (ih_dip s) = []"
  shows "(ih_act a DetectIpv4 ^^ k) s = dip_deliver ((detect_ipv4_protocol ^^ k) (ih_dip s)) s"
proof (rule run_stage[where clear = "\<lambda>p. p\<lparr>dipf_udp := []\<rparr>" and join = "\<lambda>p q. q\<lparr>dipf_udp := dipf_udp p @ dipf_udp q\<rparr>"])
  have "(ih_dip s)\<lparr>dipf_udp := []\<rparr> = ih_dip s" using assms by simp
  then show "dip_deliver (ih_dip s) s = s" using assms by (simp add: dip_deliver_def)
qed (simp_all add: ih_network detect_ipv4_protocol_def Let_def)

lemma run_detect_ipv6: "(ih_act a DetectIpv6 ^^ k) s = s\<lparr>ih_di6 := (detect_ipv6_protocol ^^ k) (ih_di6 s)\<rparr>"
  by (induction k) (simp_all add: ih_act_def)

lemma run_duplicate:
  "(ih_act a DuplicateUdp ^^ k) s = (case (ip_handler_duplicate_stream ^^ k) (ih_udp s, ih_m_udp s, ih_m_roce s) of (inp, out0, out1) \<Rightarrow>
     s\<lparr>ih_udp := inp, ih_m_udp := out0, ih_m_roce := out1\<rparr>)"
  by (induction k) (simp_all add: ih_act_def split: prod.splits)

subsection \<open>A frame through the processes\<close>

text \<open>From the module at rest with words in front of one process to the module at rest with words in front of a later one.\<close>

definition ih_same :: "ih_st \<Rightarrow> ih_st \<Rightarrow> bool" where
  "ih_same s t \<longleftrightarrow> (\<forall>q. ih_stream q t = ih_stream q s)"

lemma ih_streams: "(\<forall>q. P q) \<longleftrightarrow> P ArpOut \<and> P IcmpOut \<and> P UdpOut \<and> P RoceOut \<and> P TcpOut \<and> P Icmpv6Out \<and> P Udpv6Out"
proof
  assume "P ArpOut \<and> P IcmpOut \<and> P UdpOut \<and> P RoceOut \<and> P TcpOut \<and> P Icmpv6Out \<and> P Udpv6Out"
  then show "\<forall>q. P q" by (auto intro: ih_out.induct)
qed simp

lemma stage_eth:
  assumes "ih_rest s" and "packet 64 ws bs" and "14 \<le> length bs"
  shows "\<exists>t. ih_rest t \<and> (\<forall>q. ih_stream q t = ih_stream q s @ (if q = ArpOut \<and> be16 12 bs = ARP then ws else []))
    \<and> ih_reaches a (s\<lparr>ih_eth := rh_feed ws (ih_eth s)\<rparr>)
        (t\<lparr>ih_rs4 := rw_feed (if be16 12 bs = IPv4 then ws else []) (ih_rs4 t), ih_rs6 := rw_feed (if be16 12 bs = IPv6 then ws else []) (ih_rs6 t)\<rparr>)"
proof -
  define n where "n = length ws"
  define s0 where "s0 = s\<lparr>ih_eth := rh_feed ws (ih_eth s)\<rparr>"
  obtain x :: "112 word" where x: "header_bytes x = take 14 bs" using header_word[of 14 bs, where 'h = 112] assms(3) by auto
  have type: "eth_getEthertype x = be16 12 bs" by (rule ethertype_bytes[OF x assms(3)])
  define e where "e = (detect_eth_protocol 64 ^^ n) (ih_eth s0)"
  have "rhf_in (ih_eth s0) = ws @ []" "rh_idle (ih_eth s0)" using assms(1) by (simp_all add: s0_def ih_rested)
  from rh_packet[OF _ _ _ assms(2,3) x this e_def[unfolded detect_eth_protocol_def n_def]]
  have e: "rh_idle e" "rhf_in e = []" "rhf_meta e = [be16 12 bs]" "rhf_out e = ws" using assms(1) by (simp_all add: s0_def ih_rested type)
  define r where "r = rep_feed [be16 12 bs] ws (ih_rep s)"
  define p where "p = (route_by_eth_protocol 64 ^^ n) r"
  have p: "p = rep_typed (be16 12 bs) [] [] ws r"
    unfolding p_def n_def by (rule rep_packet[OF assms(2)]) (use assms(1) in \<open>simp_all add: r_def ih_rested\<close>)
  define t where "t = s\<lparr>ih_eth := e\<lparr>rhf_out := [], rhf_meta := []\<rparr>, ih_rep := p\<lparr>repf_ip := [], repf_ipv6 := []\<rparr>\<rparr>"
  have "(ih_act a DetectEth ^^ n) s0 = eth_deliver e s0"
    using run_detect_eth[where s = s0 and a = a and k = n] assms(1) by (simp add: e_def s0_def ih_rested)
  moreover define s1 where "s1 = eth_deliver e s0"
  moreover have "(ih_act a RouteEth ^^ n) s1 = rep_deliver p s1"
    using run_route[where s = s1 and a = a and k = n] assms(1) e by (simp add: s1_def p_def r_def eth_deliver_def s0_def ih_rested)
  moreover have "rep_deliver p s1 = t\<lparr>ih_rs4 := rw_feed (if be16 12 bs = IPv4 then ws else []) (ih_rs4 t),
      ih_rs6 := rw_feed (if be16 12 bs = IPv6 then ws else []) (ih_rs6 t)\<rparr>"
    using assms(1) by (simp add: s1_def t_def eth_deliver_def rep_deliver_def s0_def p rep_typed_def r_def ih_rested)
  ultimately have "ih_reaches a s0 (t\<lparr>ih_rs4 := rw_feed (if be16 12 bs = IPv4 then ws else []) (ih_rs4 t),
      ih_rs6 := rw_feed (if be16 12 bs = IPv6 then ws else []) (ih_rs6 t)\<rparr>)"
    by (metis ih_reaches_trans ih_reaches_runs)
  moreover have "ih_rest t" using assms(1) e by (simp add: t_def ih_rested p rep_typed_def r_def rh_idle_def)
  moreover have "\<forall>q. ih_stream q t = ih_stream q s @ (if q = ArpOut \<and> be16 12 bs = ARP then ws else [])"
    by (simp add: ih_streams t_def p rep_typed_def r_def)
  ultimately show ?thesis unfolding s0_def by blast
qed

lemma stage_shift4:
  assumes "ih_rest s" and "packet 64 ws bs" and "14 < length bs"
  shows "\<exists>t vs. ih_rest t \<and> ih_same s t \<and> packet 64 vs (drop 14 bs)
    \<and> ih_reaches a (s\<lparr>ih_rs4 := rw_feed ws (ih_rs4 s)\<rparr>) (t\<lparr>ih_meta := rh_feed vs (ih_meta t)\<rparr>)"
proof -
  define s0 where "s0 = s\<lparr>ih_rs4 := rw_feed ws (ih_rs4 s)\<rparr>"
  have "\<not> rw_remainder (ih_rs4 s0)" "rw_firstWord (ih_rs4 s0) = ((14::nat) \<noteq> 0)" "rwf_in (ih_rs4 s0) = ws @ []"
    using assms(1) by (simp_all add: s0_def ih_rested)
  from rshift_drops[OF assms(2) _ assms(3) this]
  obtain k vs where k: "packet 64 vs (drop 14 bs)" "rw_done 14 (ih_rs4 s0) [] vs ((rshiftWordByOctet 64 14 ^^ k) (ih_rs4 s0))" by auto
  define x where "x = (rshiftWordByOctet 64 14 ^^ k) (ih_rs4 s0)"
  have x: "\<not> rw_remainder x" "rw_firstWord x" "rwf_in x = []" "rwf_out x = vs" using k(2) assms(1) by (simp_all add: x_def rw_done_def s0_def ih_rested)
  define t where "t = s\<lparr>ih_rs4 := x\<lparr>rwf_out := []\<rparr>\<rparr>"
  have "(ih_act a Rshift4 ^^ k) s0 = rs4_deliver x s0"
    using run_rshift4[where s = s0 and a = a and k = k] assms(1) by (simp add: x_def s0_def ih_rested)
  also have "\<dots> = t\<lparr>ih_meta := rh_feed vs (ih_meta t)\<rparr>" by (simp add: t_def s0_def rs4_deliver_def x)
  finally have "ih_reaches a s0 (t\<lparr>ih_meta := rh_feed vs (ih_meta t)\<rparr>)" by (rule ih_reaches_runs)
  moreover have "ih_rest t" "ih_same s t" using assms(1) x by (simp_all add: t_def ih_rested ih_same_def ih_streams)
  ultimately show ?thesis using k(1) unfolding s0_def by blast
qed

lemma stage_meta:
  assumes "ih_rest s" and "packet 64 ws ip" and "20 \<le> length ip"
  shows "\<exists>t. ih_rest t \<and> ih_same s t \<and> ih_reaches a (s\<lparr>ih_meta := rh_feed ws (ih_meta s)\<rparr>)
     (t\<lparr>ih_cics := cics_feed ws (ih_cics t), ih_dip := dip_feed [ip ! 9] [] [] (ih_dip t),
        ih_iid := iid_feed [] [] [ip_accepts a (le32 16 ip)] (ih_iid t)\<rparr>)"
proof -
  define n where "n = length ws"
  define s0 where "s0 = s\<lparr>ih_meta := rh_feed ws (ih_meta s)\<rparr>"
  obtain x :: "160 word" where x: "header_bytes x = take 20 ip" using header_word[of 20 ip, where 'h = 160] assms(3) by auto
  define e where "e = (extract_ip_meta 64 a ^^ n) (ih_meta s0)"
  have "rhf_in (ih_meta s0) = ws @ []" "rh_idle (ih_meta s0)" using assms(1) by (simp_all add: s0_def ih_rested)
  from rh_packet[OF _ _ _ assms(2,3) x this e_def[unfolded extract_ip_meta_def n_def]]
  have e: "rh_idle e" "rhf_in e = []" "rhf_meta e = [(ip ! 9, ip_accepts a (le32 16 ip))]" "rhf_out e = ws"
    using assms(1) protocol_byte[OF x assms(3)] dst_bytes[OF x assms(3)] by (simp_all add: s0_def ih_rested)
  define t where "t = s\<lparr>ih_meta := e\<lparr>rhf_out := [], rhf_meta := []\<rparr>\<rparr>"
  have "(ih_act a ExtractMeta ^^ n) s0 = meta_deliver e s0"
    using run_extract_meta[where s = s0 and a = a and k = n] assms(1) by (simp add: e_def s0_def ih_rested)
  also have "\<dots> = t\<lparr>ih_cics := cics_feed ws (ih_cics t), ih_dip := dip_feed [ip ! 9] [] [] (ih_dip t),
        ih_iid := iid_feed [] [] [ip_accepts a (le32 16 ip)] (ih_iid t)\<rparr>"
    by (simp add: t_def s0_def meta_deliver_def e)
  finally have "ih_reaches a s0 \<dots>" by (rule ih_reaches_runs)
  moreover have "ih_rest t" "ih_same s t" using assms(1) e by (simp_all add: t_def ih_rested ih_same_def ih_streams rh_idle_def)
  ultimately show ?thesis unfolding s0_def by blast
qed

lemma stage_check:
  assumes "ih_rest s" and "packet 64 ws ip" and "4 * unat (ucast (ip ! 0) :: 4 word) \<le> length ip"
  shows "\<exists>t. ih_rest t \<and> ih_same s t
    \<and> ih_reaches a (s\<lparr>ih_cics := cics_feed ws (ih_cics s), ih_dip := dip_feed ps [] [] (ih_dip s), ih_iid := iid_feed [] [] ds (ih_iid s)\<rparr>)
        (t\<lparr>ih_dip := dip_feed ps [] [] (ih_dip t), ih_iid := iid_feed ws [ip_valid ip] ds (ih_iid t)\<rparr>)"
proof -
  define n where "n = length ws"
  define s0 where "s0 = s\<lparr>ih_cics := cics_feed ws (ih_cics s), ih_dip := dip_feed ps [] [] (ih_dip s), ih_iid := iid_feed [] [] ds (ih_iid s)\<rparr>"
  define c where "c = (compute_ipv4_checksum False ^^ n) (ih_cics s0)"
  have c0: "cicsf_in (ih_cics s0) = ws @ []" "cics_firstWord (ih_cics s0)" "cics_ip_sums (ih_cics s0) = replicate 32 0"
    using assms(1) by (simp_all add: s0_def ih_rested cics_feed_def)
  obtain xs i where xs: "c = (ih_cics s0)\<lparr>cicsf_in := [], cicsf_out := ws, cicsf_sums := [xs], cics_ipHeaderLen := i\<rparr>"
    "length xs = 32" "sums_ok xs" "canon (total xs) = canon (sum_list (be_words (header_of (unat (ucast (ip ! 0) :: 4 word)) ip)))"
    using cics_packet[OF assms(2) c0 refl assms(3), of False] assms(1) by (auto simp: c_def n_def s0_def ih_rested cics_feed_def)
  define t where "t = s\<lparr>ih_cics := c\<lparr>cicsf_out := [], cicsf_sums := []\<rparr>\<rparr>"
  define s1 where "s1 = ihc_deliver c s0"
  have "(ih_act a IhChecksum ^^ n) s0 = s1"
    using run_ih_checksum[where s = s0 and a = a and k = n] assms(1) by (simp add: s1_def c_def s0_def ih_rested cics_feed_def)
  moreover have "(ih_act a IhCheck ^^ 1) s1 = t\<lparr>ih_dip := dip_feed ps [] [] (ih_dip t), ih_iid := iid_feed ws [ip_valid ip] ds (ih_iid t)\<rparr>"
    using assms(1) check_of_sums[OF _ xs(3,4)] xs(2)
    by (simp add: ih_act_def s1_def ihc_deliver_def s0_def t_def xs(1) ih_rested ih_copies cics_feed_def ip_valid_def tree_width_def)
  ultimately have "ih_reaches a s0 (t\<lparr>ih_dip := dip_feed ps [] [] (ih_dip t), ih_iid := iid_feed ws [ip_valid ip] ds (ih_iid t)\<rparr>)"
    by (metis ih_reaches_trans ih_reaches_runs)
  moreover have "ih_rest t" "ih_same s t" using assms(1) by (simp_all add: t_def ih_rested ih_same_def ih_streams xs(1) s0_def cics_feed_def)
  ultimately show ?thesis unfolding s0_def by blast
qed

lemma stage_dropper:
  assumes "ih_rest s" and "packet 64 ws ip"
  shows "\<exists>t. ih_rest t \<and> ih_same s t
    \<and> ih_reaches a (s\<lparr>ih_dip := dip_feed ps [] [] (ih_dip s), ih_iid := iid_feed ws [c] [d] (ih_iid s)\<rparr>)
        (t\<lparr>ih_dip := dip_feed ps [c \<and> d] [] (ih_dip t), ih_cl := cl_feed (if c \<and> d then ws else []) (ih_cl t)\<rparr>)"
proof -
  define n where "n = Suc (length ws)"
  define s0 where "s0 = s\<lparr>ih_dip := dip_feed ps [] [] (ih_dip s), ih_iid := iid_feed ws [c] [d] (ih_iid s)\<rparr>"
  define i where "i = (ip_invalid_dropper ^^ n) (ih_iid s0)"
  have "i = (ih_iid s0)\<lparr>iidf_in := [], iidf_checksum := [], iidf_address := [], iidf_valid := iidf_valid (ih_iid s0) @ [c \<and> d],
     iidf_out := iidf_out (ih_iid s0) @ (if c \<and> d then ws else [])\<rparr>"
    unfolding i_def n_def by (rule iid_packet[OF assms(2)]) (use assms(1) in \<open>simp_all add: s0_def ih_rested\<close>)
  then have i: "iid_state i = GET_VALID" "iidf_in i = []" "iidf_checksum i = []" "iidf_address i = []" "iidf_valid i = [c \<and> d]"
    "iidf_out i = (if c \<and> d then ws else [])" using assms(1) by (simp_all add: s0_def ih_rested)
  define t where "t = s\<lparr>ih_iid := i\<lparr>iidf_out := [], iidf_valid := []\<rparr>\<rparr>"
  have "(ih_act a InvalidDropper ^^ n) s0 = iid_deliver i s0"
    using run_dropper[where s = s0 and a = a and k = n] assms(1) by (simp add: i_def s0_def ih_rested)
  also have "\<dots> = t\<lparr>ih_dip := dip_feed ps [c \<and> d] [] (ih_dip t), ih_cl := cl_feed (if c \<and> d then ws else []) (ih_cl t)\<rparr>"
    by (simp add: t_def s0_def iid_deliver_def i)
  finally have "ih_reaches a s0 \<dots>" by (rule ih_reaches_runs)
  moreover have "ih_rest t" "ih_same s t" using assms(1) i by (simp_all add: t_def ih_rested ih_same_def ih_streams)
  ultimately show ?thesis unfolding s0_def by blast
qed

lemma stage_refused:
  assumes "ih_rest s"
  shows "\<exists>t. ih_rest t \<and> ih_same s t \<and> ih_reaches a (s\<lparr>ih_dip := dip_feed [p] [False] [] (ih_dip s)\<rparr>) t"
proof -
  define t where "t = s\<lparr>ih_dip := (ih_dip s)\<lparr>dip_ipProtocol := p\<rparr>\<rparr>"
  have "detect_ipv4_protocol (dip_feed [p] [False] [] (ih_dip s)) = (ih_dip s)\<lparr>dip_ipProtocol := p\<rparr>"
    using assms by (cases "ih_dip s") (simp add: ih_rested dip_feed_def detect_ipv4_protocol_def)
  moreover have "(ih_dip s)\<lparr>dip_ipProtocol := p, dipf_udp := []\<rparr> = (ih_dip s)\<lparr>dip_ipProtocol := p\<rparr>"
    using assms by (cases "ih_dip s") (simp add: ih_rested)
  ultimately have "(ih_act a DetectIpv4 ^^ 1) (s\<lparr>ih_dip := dip_feed [p] [False] [] (ih_dip s)\<rparr>) = t"
    using assms by (simp add: ih_act_def dip_deliver_def t_def ih_rested)
  moreover have "ih_rest t" "ih_same s t" using assms by (simp_all add: t_def ih_rested ih_same_def ih_streams)
  ultimately show ?thesis using ih_reaches_runs by blast
qed

lemma stage_cut:
  assumes "ih_rest s" and "packet 64 ws ip" and "4 \<le> length ip" and "0 < unat (be16 2 ip)" and "unat (be16 2 ip) \<le> length ip"
  shows "\<exists>t vs. ih_rest t \<and> ih_same s t \<and> packet 64 vs (trimmed ip)
    \<and> ih_reaches a (s\<lparr>ih_dip := dip_feed ps bs [] (ih_dip s), ih_cl := cl_feed ws (ih_cl s)\<rparr>) (t\<lparr>ih_dip := dip_feed ps bs vs (ih_dip t)\<rparr>)"
proof -
  define n where "n = length ws"
  define s0 where "s0 = s\<lparr>ih_dip := dip_feed ps bs [] (ih_dip s), ih_cl := cl_feed ws (ih_cl s)\<rparr>"
  define l where "l = (cut_length ^^ n) (ih_cl s0)"
  have c0: "clf_in (ih_cl s0) = ws @ []" "\<not> cl_rest (ih_cl s0)" using assms(1) by (simp_all add: s0_def ih_rested)
  obtain vs where vs: "cl_done (ih_cl s0) [] vs l" "packet 64 vs (trimmed ip)"
    using cl_packet[OF assms(2) c0 assms(3-5)] unfolding l_def n_def by blast
  have l: "\<not> cl_rest l" "clf_in l = []" "clf_out l = vs" using vs(1) assms(1) by (simp_all add: cl_done_def s0_def ih_rested)
  define t where "t = s\<lparr>ih_cl := l\<lparr>clf_out := []\<rparr>\<rparr>"
  have "(ih_act a CutLength ^^ n) s0 = cl_deliver l s0"
    using run_cut_length[where s = s0 and a = a and k = n] assms(1) by (simp add: l_def s0_def ih_rested)
  also have "\<dots> = t\<lparr>ih_dip := dip_feed ps bs vs (ih_dip t)\<rparr>" by (simp add: t_def s0_def cl_deliver_def l)
  finally have "ih_reaches a s0 \<dots>" by (rule ih_reaches_runs)
  moreover have "ih_rest t" "ih_same s t" using assms(1) l by (simp_all add: t_def ih_rested ih_same_def ih_streams)
  ultimately show ?thesis using vs(2) unfolding s0_def by blast
qed

lemma stage_protocol:
  assumes "ih_rest s" and "packet 64 ws bs"
  shows "\<exists>t. ih_rest t \<and> (\<forall>q. ih_stream q t = ih_stream q s @ (if q \<in> set (ipv4_outs p) then ws else []))
    \<and> ih_reaches a (s\<lparr>ih_dip := dip_feed [p] [True] ws (ih_dip s)\<rparr>) t"
proof -
  define n where "n = Suc (length ws)"
  define s0 where "s0 = s\<lparr>ih_dip := dip_feed [p] [True] ws (ih_dip s)\<rparr>"
  define us where "us = (if p = UDP then ws else [])"
  define d where "d = (detect_ipv4_protocol ^^ n) (ih_dip s0)"
  have d: "d = dip_sent p [] ws ((ih_dip s0)\<lparr>dip_ipProtocol := p, dipf_protocol := [], dipf_valid := []\<rparr>)"
    unfolding d_def n_def by (rule dip_packet[OF assms(2)]) (use assms(1) in \<open>simp_all add: s0_def ih_rested\<close>)
  define s1 where "s1 = dip_deliver d s0"
  have "(ih_act a DetectIpv4 ^^ n) s0 = s1"
    using run_detect_ipv4[where s = s0 and a = a and k = n] assms(1) by (simp add: d_def s1_def s0_def ih_rested)
  moreover define t where "t = s1\<lparr>ih_udp := [], ih_m_udp := ih_m_udp s @ us, ih_m_roce := ih_m_roce s @ us\<rparr>"
  have s1: "ih_udp s1 = us @ []" "ih_m_udp s1 = ih_m_udp s" "ih_m_roce s1 = ih_m_roce s"
    using assms(1) by (simp_all add: s1_def dip_deliver_def d dip_sent_def s0_def us_def ih_rested)
  have "(ih_act a DuplicateUdp ^^ length us) s1 = t"
    using duplicate_run[of us "[]" "ih_m_udp s" "ih_m_roce s"] by (simp add: run_duplicate s1 t_def)
  ultimately have "ih_reaches a s0 t" by (metis ih_reaches_trans ih_reaches_runs)
  moreover have "ih_rest t" using assms(1) by (simp add: t_def s1_def dip_deliver_def d dip_sent_def s0_def ih_rested)
  moreover have "\<forall>q. ih_stream q t = ih_stream q s @ (if q \<in> set (ipv4_outs p) then ws else [])"
    by (auto simp: ih_streams t_def s1_def dip_deliver_def d dip_sent_def s0_def us_def ipv4_outs_def ICMP_def UDP_def TCP_def)
  ultimately show ?thesis unfolding s0_def by blast
qed

lemma stage_ipv6:
  assumes "ih_rest s" and "packet 64 ws bs" and "20 < length bs"
  shows "\<exists>t vs. ih_rest t \<and> packet 64 vs (drop 14 bs)
    \<and> (\<forall>q. ih_stream q t = ih_stream q s @ (if q \<in> set (ipv6_outs (drop 14 bs ! 6)) then vs else []))
    \<and> ih_reaches a (s\<lparr>ih_rs6 := rw_feed ws (ih_rs6 s)\<rparr>) t"
proof -
  define s0 where "s0 = s\<lparr>ih_rs6 := rw_feed ws (ih_rs6 s)\<rparr>"
  have "\<not> rw_remainder (ih_rs6 s0)" "rw_firstWord (ih_rs6 s0) = ((14::nat) \<noteq> 0)" "rwf_in (ih_rs6 s0) = ws @ []"
    using assms(1) by (simp_all add: s0_def ih_rested)
  from rshift_drops[OF assms(2) _ _ this] assms(3)
  obtain k vs where k: "packet 64 vs (drop 14 bs)" "rw_done 14 (ih_rs6 s0) [] vs ((rshiftWordByOctet 64 14 ^^ k) (ih_rs6 s0))" by auto
  define x where "x = (rshiftWordByOctet 64 14 ^^ k) (ih_rs6 s0)"
  have x: "\<not> rw_remainder x" "rw_firstWord x" "rwf_in x = []" "rwf_out x = vs" using k(2) assms(1) by (simp_all add: x_def rw_done_def s0_def ih_rested)
  define s1 where "s1 = rs6_deliver x s0"
  define e where "e = (detect_ipv6_protocol ^^ length vs) (ih_di6 s1)"
  have e: "e = di6_sent (drop 14 bs ! 6) [] vs (ih_di6 s1)"
    unfolding e_def by (rule di6_packet[OF k(1)]) (use assms in \<open>simp_all add: s1_def rs6_deliver_def s0_def x ih_rested\<close>)
  define t where "t = s1\<lparr>ih_di6 := e\<rparr>"
  have "(ih_act a Rshift6 ^^ k) s0 = s1"
    using run_rshift6[where s = s0 and a = a and k = k] assms(1) by (simp add: x_def s1_def s0_def ih_rested)
  moreover have "(ih_act a DetectIpv6 ^^ length vs) s1 = t" by (simp add: run_detect_ipv6 t_def e_def)
  ultimately have "ih_reaches a s0 t" by (metis ih_reaches_trans ih_reaches_runs)
  moreover have "ih_rest t" using assms(1) x by (simp add: t_def s1_def rs6_deliver_def e di6_sent_def s0_def ih_rested)
  moreover have "\<forall>q. ih_stream q t = ih_stream q s @ (if q \<in> set (ipv6_outs (drop 14 bs ! 6)) then vs else [])"
    by (auto simp: ih_streams t_def s1_def rs6_deliver_def e di6_sent_def s0_def x ipv6_outs_def ICMPv6_def UDP_def)
  ultimately show ?thesis using k(1) unfolding s0_def by blast
qed

subsection \<open>The module does what it promises\<close>

definition ih_put :: "net_axis list \<Rightarrow> ih_st \<Rightarrow> ih_st" where
  "ih_put ws s = s\<lparr>ih_eth := rh_feed ws (ih_eth s)\<rparr>"

definition ih_run :: "u32 \<Rightarrow> ih_proc list list \<Rightarrow> ih_st \<Rightarrow> ih_st" where
  "ih_run a rounds = fold (ih_act a) (concat rounds)"

definition ih_dispatched :: "u32 \<Rightarrow> byte list \<Rightarrow> ih_st \<Rightarrow> ih_st \<Rightarrow> bool" where
  "ih_dispatched a bs s t \<longleftrightarrow> ih_rest t \<and> (case dispatch a bs of (outs, p) \<Rightarrow>
     \<forall>q. \<exists>ws. ih_stream q t = ih_stream q s @ ws \<and> (if q \<in> set outs then packet 64 ws p else ws = []))"

lemma ipv4_dispatched:
  assumes "ih_rest s" and "packet 64 ws bs" and "frame_ok bs" and "be16 12 bs = 0x0800"
  shows "\<exists>t. ih_reaches a (s\<lparr>ih_rs4 := rw_feed ws (ih_rs4 s)\<rparr>) t \<and> ih_dispatched a bs s t"
proof -
  define ip where "ip = drop 14 bs"
  define ok where "ok \<longleftrightarrow> ip_valid ip \<and> ip_accepts a (le32 16 ip)"
  have len: "14 < length bs" "20 \<le> length ip" "4 \<le> length ip" "4 * unat (ucast (ip ! 0) :: 4 word) \<le> length ip"
    "0 < unat (be16 2 ip)" "unat (be16 2 ip) \<le> length ip"
  proof -
    have "34 \<le> length bs" using assms(3) by (simp add: frame_ok_def)
    then show "14 < length bs" "20 \<le> length ip" "4 \<le> length ip" by (simp_all add: ip_def)
    show "4 * unat (ucast (ip ! 0) :: 4 word) \<le> length ip" "0 < unat (be16 2 ip)" "unat (be16 2 ip) \<le> length ip"
      using assms(3,4) unfolding frame_ok_def ip_def Let_def by blast+
  qed
  obtain t1 vs where t1: "ih_rest t1" "ih_same s t1" "packet 64 vs ip"
    "ih_reaches a (s\<lparr>ih_rs4 := rw_feed ws (ih_rs4 s)\<rparr>) (t1\<lparr>ih_meta := rh_feed vs (ih_meta t1)\<rparr>)"
    using stage_shift4[OF assms(1,2) len(1), of a] unfolding ip_def by blast
  obtain t2 where t2: "ih_rest t2" "ih_same t1 t2" "ih_reaches a (t1\<lparr>ih_meta := rh_feed vs (ih_meta t1)\<rparr>)
     (t2\<lparr>ih_cics := cics_feed vs (ih_cics t2), ih_dip := dip_feed [ip ! 9] [] [] (ih_dip t2),
        ih_iid := iid_feed [] [] [ip_accepts a (le32 16 ip)] (ih_iid t2)\<rparr>)"
    using stage_meta[OF t1(1,3) len(2), of a] by blast
  obtain t3 where t3: "ih_rest t3" "ih_same t2 t3" "ih_reaches a (t2\<lparr>ih_cics := cics_feed vs (ih_cics t2), ih_dip := dip_feed [ip ! 9] [] [] (ih_dip t2),
        ih_iid := iid_feed [] [] [ip_accepts a (le32 16 ip)] (ih_iid t2)\<rparr>)
     (t3\<lparr>ih_dip := dip_feed [ip ! 9] [] [] (ih_dip t3), ih_iid := iid_feed vs [ip_valid ip] [ip_accepts a (le32 16 ip)] (ih_iid t3)\<rparr>)"
    using stage_check[OF t2(1) t1(3) len(4), where a = a and ps = "[ip ! 9]" and ds = "[ip_accepts a (le32 16 ip)]"] by blast
  obtain t4 where t4: "ih_rest t4" "ih_same t3 t4" "ih_reaches a
     (t3\<lparr>ih_dip := dip_feed [ip ! 9] [] [] (ih_dip t3), ih_iid := iid_feed vs [ip_valid ip] [ip_accepts a (le32 16 ip)] (ih_iid t3)\<rparr>)
     (t4\<lparr>ih_dip := dip_feed [ip ! 9] [ok] [] (ih_dip t4), ih_cl := cl_feed (if ok then vs else []) (ih_cl t4)\<rparr>)"
    using stage_dropper[OF t3(1) t1(3), where a = a and ps = "[ip ! 9]" and c = "ip_valid ip" and d = "ip_accepts a (le32 16 ip)"] unfolding ok_def by blast
  have same: "ih_same s t4" using t1(2) t2(2) t3(2) t4(2) by (simp add: ih_same_def)
  have reach: "ih_reaches a (s\<lparr>ih_rs4 := rw_feed ws (ih_rs4 s)\<rparr>)
     (t4\<lparr>ih_dip := dip_feed [ip ! 9] [ok] [] (ih_dip t4), ih_cl := cl_feed (if ok then vs else []) (ih_cl t4)\<rparr>)"
    by (rule ih_reaches_trans[OF t1(4) ih_reaches_trans[OF t2(3) ih_reaches_trans[OF t3(3) t4(3)]]])
  have spec: "dispatch a bs = (if ok then ipv4_outs (ip ! 9) else [], trimmed ip)"
    using assms(4) by (simp add: dispatch_def Let_def ok_def ip_def)
  show ?thesis
  proof (cases ok)
    case False
    obtain t where t: "ih_rest t" "ih_same t4 t" "ih_reaches a (t4\<lparr>ih_dip := dip_feed [ip ! 9] [False] [] (ih_dip t4)\<rparr>) t"
      using stage_refused[OF t4(1)] by blast
    then have "ih_dispatched a bs s t" using same False by (simp add: ih_dispatched_def spec ih_same_def)
    then show ?thesis using ih_reaches_trans[OF reach, of t] t(3) False by auto
  next
    case True
    obtain t5 us where t5: "ih_rest t5" "ih_same t4 t5" "packet 64 us (trimmed ip)"
      "ih_reaches a (t4\<lparr>ih_dip := dip_feed [ip ! 9] [True] [] (ih_dip t4), ih_cl := cl_feed vs (ih_cl t4)\<rparr>)
         (t5\<lparr>ih_dip := dip_feed [ip ! 9] [True] us (ih_dip t5)\<rparr>)"
      using stage_cut[OF t4(1) t1(3) len(3,5,6), where a = a and ps = "[ip ! 9]" and bs = "[True]"] by blast
    obtain t where t: "ih_rest t" "\<forall>q. ih_stream q t = ih_stream q t5 @ (if q \<in> set (ipv4_outs (ip ! 9)) then us else [])"
      "ih_reaches a (t5\<lparr>ih_dip := dip_feed [ip ! 9] [True] us (ih_dip t5)\<rparr>) t"
      using stage_protocol[OF t5(1,3)] by blast
    have "ih_dispatched a bs s t" using same t(1,2) t5(2,3) True by (auto simp: ih_dispatched_def spec ih_same_def)
    moreover have "ih_reaches a (s\<lparr>ih_rs4 := rw_feed ws (ih_rs4 s)\<rparr>) t"
      using ih_reaches_trans[OF reach[unfolded if_P[OF True]]] ih_reaches_trans[OF t5(4) t(3)] True by simp
    ultimately show ?thesis by blast
  qed
qed

lemma frame_dispatched:
  assumes "ih_rest s" and "packet 64 ws bs" and "frame_ok bs"
  shows "\<exists>t. ih_reaches a (ih_put ws s) t \<and> ih_dispatched a bs s t"
proof -
  have len: "14 \<le> length bs" "20 < length bs" using assms(3) by (simp_all add: frame_ok_def)
  let ?e = "be16 12 bs"
  obtain u where u: "ih_rest u" "\<forall>q. ih_stream q u = ih_stream q s @ (if q = ArpOut \<and> ?e = ARP then ws else [])"
    "ih_reaches a (ih_put ws s) (u\<lparr>ih_rs4 := rw_feed (if ?e = IPv4 then ws else []) (ih_rs4 u), ih_rs6 := rw_feed (if ?e = IPv6 then ws else []) (ih_rs6 u)\<rparr>)"
    using stage_eth[OF assms(1,2) len(1)] unfolding ih_put_def by blast
  consider "?e = IPv4" | "?e = IPv6" | "?e \<noteq> IPv4" "?e \<noteq> IPv6" by blast
  then show ?thesis
  proof cases
    case 1
    obtain t where t: "ih_reaches a (u\<lparr>ih_rs4 := rw_feed ws (ih_rs4 u)\<rparr>) t" "ih_dispatched a bs u t"
      using ipv4_dispatched[OF u(1) assms(2,3)] 1 unfolding IPv4_def by blast
    have "ih_same s u" using u(2) 1 by (simp add: ih_same_def IPv4_def ARP_def)
    then have "ih_dispatched a bs s t" using t(2) by (simp add: ih_dispatched_def ih_same_def)
    then show ?thesis using ih_reaches_trans[OF u(3), of t] t(1) 1 by (auto simp: IPv4_def IPv6_def)
  next
    case 2
    obtain t vs where t: "ih_rest t" "packet 64 vs (drop 14 bs)"
      "\<forall>q. ih_stream q t = ih_stream q u @ (if q \<in> set (ipv6_outs (drop 14 bs ! 6)) then vs else [])"
      "ih_reaches a (u\<lparr>ih_rs6 := rw_feed ws (ih_rs6 u)\<rparr>) t"
      using stage_ipv6[OF u(1) assms(2) len(2)] by blast
    have "ih_dispatched a bs s t" using t(1-3) u(2) 2 by (auto simp: ih_dispatched_def dispatch_def Let_def IPv6_def ARP_def)
    then show ?thesis using ih_reaches_trans[OF u(3), of t] t(4) 2 by (auto simp: IPv4_def IPv6_def)
  next
    case 3
    then have "ih_dispatched a bs s u" using u(1,2) assms(2)
      by (auto simp: ih_dispatched_def dispatch_def Let_def IPv6_def IPv4_def ARP_def)
    then show ?thesis using u(3) 3 by auto
  qed
qed

interpretation ihf: fed_dataflow ih_inv ih_can "ih_act a" ih_put for a
proof
  fix ws :: "net_axis list" and p and s :: ih_st
  show "ih_inv s \<Longrightarrow> ih_inv (ih_put ws s)" by (simp add: ih_put_def ih_inv_def)
  show "ih_can p s \<Longrightarrow> ih_can p (ih_put ws s)" by (cases p) (simp_all add: ih_put_def ih_can_def)
  show "ih_can p s \<Longrightarrow> ih_act a p (ih_put ws s) = ih_put ws (ih_act a p s)"
    by (cases p) (simp_all add: ih_put_def ih_network ih_more ih_clear case_prod_unfold)
qed

text \<open>Frames that wait in front of the module one behind the other come out as if each came to the module at rest.\<close>

lemma ih_settles:
  assumes "ih_rest s" and "\<forall>(ws, bs) \<in> set fs. packet 64 ws bs \<and> frame_ok bs"
  shows "\<exists>k t. through (\<lambda>f. ih_dispatched a (snd f)) fs s t
    \<and> (\<forall>rounds. fair rounds \<longrightarrow> k \<le> length rounds \<longrightarrow> ih_run a rounds (fold ih_put (map fst fs) s) = t)"
proof -
  have one: "\<exists>qs. ih_dispatched a (snd f) s (fold (ih_act a) qs (ih_put (fst f) s)) \<and> ih_rest (fold (ih_act a) qs (ih_put (fst f) s))"
    if rest: "ih_rest s" and ok: "packet 64 (fst f) (snd f) \<and> frame_ok (snd f)" for f s
  proof -
    obtain qs where qs: "ih_dispatched a (snd f) s (fold (ih_act a) qs (ih_put (fst f) s))"
      using frame_dispatched[OF rest, of "fst f" "snd f" a] ok unfolding ih_reaches_def by blast
    then have "ih_rest (fold (ih_act a) qs (ih_put (fst f) s))" by (simp add: ih_dispatched_def)
    then show ?thesis using qs by blast
  qed
  show ?thesis
    using ihf.feed_sequence[where rest = ih_rest and ok = "\<lambda>f. packet 64 (fst f) (snd f) \<and> frame_ok (snd f)" and g = fst
        and R = "\<lambda>f. ih_dispatched a (snd f)" and a = a and xs = fs and s = s] one ih_rest_inv ih_rest_quiet assms
    unfolding ih_run_def by (auto simp: case_prod_unfold)
qed

lemma ih_calls:
  "(ip_handler a ^^ k) s = ih_run a (replicate k [DetectEth, RouteEth, Rshift4, Rshift6, ExtractMeta, IhChecksum, IhCheck, InvalidDropper,
     CutLength, DetectIpv4, DetectIpv6, DuplicateUdp]) s"
  unfolding ip_handler_def ih_run_def by (rule calls_as_rounds)

lemma ih_calls_fair: "fair (replicate k [DetectEth, RouteEth, Rshift4, Rshift6, ExtractMeta, IhChecksum, IhCheck, InvalidDropper,
     CutLength, DetectIpv4, DetectIpv6, DuplicateUdp])"
  by (intro calls_fair allI, case_tac p) simp_all

end
