(* ===== verification/Frame_Trip.thy ===== *)
theory Frame_Trip
  imports Ip_Handler_Trip
begin

text \<open>
  What the two modules at the network side promise: the dispatcher for any frames that come in, and the encoder of one board
  together with the dispatcher of another for a packet that is sent.
\<close>

subsection \<open>Frames that come in\<close>

lemma through_streams:
  assumes "through (\<lambda>f. ih_dispatched a (snd f)) fs s t"
  shows "\<exists>vss. ih_stream q t = ih_stream q s @ concat vss
    \<and> list_all2 (packet 64) vss (map (\<lambda>f. snd (dispatch a (snd f))) (filter (\<lambda>f. q \<in> set (fst (dispatch a (snd f)))) fs))"
  using assms
proof (induction fs arbitrary: s)
  case Nil
  then show ?case by (intro exI[of _ "[]"]) simp
next
  case (Cons f fs)
  obtain u where u: "ih_dispatched a (snd f) s u" "through (\<lambda>f. ih_dispatched a (snd f)) fs u t" using Cons.prems by auto
  obtain vss where vss: "ih_stream q t = ih_stream q u @ concat vss"
    "list_all2 (packet 64) vss (map (\<lambda>f. snd (dispatch a (snd f))) (filter (\<lambda>f. q \<in> set (fst (dispatch a (snd f)))) fs))"
    using Cons.IH[OF u(2)] by blast
  obtain ws where ws: "ih_stream q u = ih_stream q s @ ws"
    "if q \<in> set (fst (dispatch a (snd f))) then packet 64 ws (snd (dispatch a (snd f))) else ws = []"
    using u(1) by (auto simp: ih_dispatched_def case_prod_unfold)
  show ?case
  proof (cases "q \<in> set (fst (dispatch a (snd f)))")
    case True
    then show ?thesis using vss ws by (intro exI[of _ "ws # vss"]) simp
  next
    case False
    then show ?thesis using vss ws by (intro exI[of _ vss]) simp
  qed
qed

text \<open>C34. The dispatcher, for frames of at least 34 bytes in which an IPv4 packet claims no longer header and no greater total length, other than 0, than
  its frame has: frames that come in one behind the other leave on the streams of their protocols, each on the streams that
  its Ethernet type and protocol call for and on no other, in order and with the bytes of its packet: an ARP frame whole, an IPv4 packet
  without the Ethernet header and, in one word, without the padding, when its header checksum is right and it is addressed to this board or
  to all, an IPv6 packet without the Ethernet header. Everything else among them is dropped and leaves nothing behind. This holds
  however the twelve processes are scheduled.\<close>

theorem ip_handler_dispatches:
  assumes "ih_rest s" and "\<forall>(ws, bs) \<in> set fs. packet 64 ws bs \<and> frame_ok bs"
  shows "\<exists>k. \<forall>rounds. fair rounds \<and> k \<le> length rounds \<longrightarrow>
    (\<forall>q. \<exists>vss. ih_stream q (ih_run a rounds (fold ih_put (map fst fs) s)) = ih_stream q s @ concat vss
       \<and> list_all2 (packet 64) vss [p. (ws, bs) \<leftarrow> fs, (outs, p) \<leftarrow> [dispatch a bs], q \<in> set outs])"
proof -
  obtain k t where k: "through (\<lambda>f. ih_dispatched a (snd f)) fs s t"
    "\<And>rounds. fair rounds \<Longrightarrow> k \<le> length rounds \<Longrightarrow> ih_run a rounds (fold ih_put (map fst fs) s) = t"
    using ih_settles[OF assms] by blast
  have spec: "[p. (ws, bs) \<leftarrow> fs, (outs, p) \<leftarrow> [dispatch a bs], q \<in> set outs]
      = map (\<lambda>f. snd (dispatch a (snd f))) (filter (\<lambda>f. q \<in> set (fst (dispatch a (snd f)))) fs)" for q
    by (induction fs) (auto simp: case_prod_unfold)
  show ?thesis unfolding spec using through_streams[OF k(1)] by (intro exI[of _ k]) (simp add: k(2))
qed

subsection \<open>A packet from board to board\<close>

definition mac_fresh :: "mac_st \<Rightarrow> bool" where
  "mac_fresh s \<longleftrightarrow> mac_rest s \<and> rhf_meta (mcs_xi s) = [] \<and> iehf_out (mcs_ieh s) = []"

definition ih_fresh :: "ih_st \<Rightarrow> bool" where
  "ih_fresh s \<longleftrightarrow> ih_rest s \<and> (\<forall>q. ih_stream q s = [])"

text \<open>A packet as the modules above the encoder make it: it is as long as it says and has a header of at least five words.\<close>

definition packet_ok :: "byte list \<Rightarrow> bool" where
  "packet_ok ip \<longleftrightarrow> 20 \<le> length ip \<and> 5 \<le> unat (ucast (ip ! 0) :: 4 word) \<and> 4 * unat (ucast (ip ! 0) :: 4 word) \<le> length ip
     \<and> 0 < unat (be16 2 ip) \<and> unat (be16 2 ip) \<le> length ip"

lemma checksummed_valid:
  assumes "6 \<le> 2 * h" and "4 * h \<le> length ip"
  shows "ones_sum (be_words (header_of h (checksummed h ip))) = 65535"
proof -
  define c where "c = ip_checksum h ip"
  have at: "xs[10 := b, 11 := d] = take 10 xs @ [b, d] @ drop 12 xs" if "12 \<le> length xs" for xs :: "byte list" and b d
    by (rule nth_equalityI) (use that in \<open>auto simp: nth_append nth_list_update nth_Cons split: nat.splits intro!: arg_cong[where f = "nth xs"]\<close>)
  have upd: "header_of h (xs[10 := b, 11 := d]) = (header_of h xs)[10 := b, 11 := d]" for xs b d
    by (simp add: header_of_def take_update_swap)
  have len: "12 \<le> length (header_of h ip)" using assms by (simp add: header_of_def)
  have "c = internet_checksum (take 10 (header_of h ip) @ [0, 0] @ drop 12 (header_of h ip))"
    by (simp add: c_def ip_checksum_def without_checksum_def upd at[OF len])
  moreover have "header_of h (checksummed h ip) = take 10 (header_of h ip) @ [range_get 15 8 c, range_get 7 0 c] @ drop 12 (header_of h ip)"
    by (simp add: checksummed_def upd at[OF len] flip: c_def)
  ultimately show ?thesis using checksummed_sum[of _ "take 10 (header_of h ip)" "drop 12 (header_of h ip)"] len by simp
qed

lemma sent_frame:
  assumes "packet_ok ip" and "h = unat (ucast (ip ! 0) :: 4 word)" and "bs = header_bytes (eth_header dst src) @ checksummed h ip"
  shows "frame_ok bs" "dispatch a bs = (if ip_accepts a (le32 16 ip) then ipv4_outs (ip ! 9) else [], trimmed (checksummed h ip))"
proof -
  have len: "length (header_bytes (eth_header dst src)) = 14" by simp
  have ip: "drop 14 bs = checksummed h ip" by (simp add: assms(3))
  have nth: "checksummed h ip ! i = ip ! i" if "i \<noteq> 10" "i \<noteq> 11" for i using that by (simp add: checksummed_def)
  have keep: "be16 2 (checksummed h ip) = be16 2 ip" "le32 16 (checksummed h ip) = le32 16 ip"
    by (simp_all add: be16_def le32_def nth)
  have type: "be16 12 bs = 0x0800"
  proof -
    have "eth_getEthertype (eth_header dst src) = be16 12 bs" by (rule ethertype_bytes) (simp_all add: assms(3))
    moreover have "eth_getEthertype (eth_header dst src) = 0x0800"
      by (simp add: eth_getEthertype_def eth_header_def eth_setEthertype_def range_get_set_same)
    ultimately show ?thesis by simp
  qed
  show "frame_ok bs" using assms(1) type len by (simp add: frame_ok_def Let_def ip keep nth packet_ok_def) (simp add: assms(3))
  have "ip_valid (checksummed h ip)"
  proof -
    have "checksummed h ip ! 0 = ip ! 0" by (rule nth) simp_all
    then show ?thesis using checksummed_valid[of h ip] assms(1) by (simp add: ip_valid_def packet_ok_def flip: assms(2))
  qed
  then show "dispatch a bs = (if ip_accepts a (le32 16 ip) then ipv4_outs (ip ! 9) else [], trimmed (checksummed h ip))"
    using type by (simp add: dispatch_def Let_def ip keep nth)
qed

text \<open>The header of the frame on the wire: destination, source, and the type of IPv4.\<close>

lemma eth_header_bytes: "header_bytes (eth_header dst src) = header_bytes dst @ header_bytes src @ [0x08, 0x00]"
proof -
  have ty: "header_bytes (reverse16 0x0800) = [0x08, 0x00]" by code_simp
  have d: "header_bytes (eth_setDstAddress dst 0) = header_bytes dst @ drop 6 (header_bytes (0 :: 112 word))"
    unfolding eth_setDstAddress_def by (subst header_bytes_set[where n = 14 and k = 6 and m = 0]) simp_all
  have s: "header_bytes (eth_setSrcAddress src h) = take 6 (header_bytes h) @ header_bytes src @ drop 12 (header_bytes h)" for h
    unfolding eth_setSrcAddress_def by (subst header_bytes_set[where n = 14 and k = 6 and m = 6]) simp_all
  have t: "header_bytes (eth_setEthertype 0x0800 h) = take 12 (header_bytes h) @ header_bytes (reverse16 0x0800)" for h
    unfolding eth_setEthertype_def by (subst header_bytes_set[where n = 14 and k = 2 and m = 12]) simp_all
  show ?thesis unfolding eth_header_def t s d ty by simp
qed

text \<open>C35. From board to board: a packet of at least 20 bytes, with a header of at least five words and no greater total length than it has, is given
  to the encoder of one board. When the ARP table answers with a hardware address, the encoder sends one frame: this address as the
  destination, the address of the board as the source, the type of IPv4 and the packet with the checksum of its header filled in. The
  dispatcher of another board hands the packet on exactly on the streams of its protocol when it is
  addressed to that board or to all; the address that the ARP table is asked for is that of the next hop. Without an answer nothing is
  sent. Both modules start idle, the dispatcher gets what the encoder has written when that has come to rest, and the processes of each may be
  scheduled in any fair way.\<close>

theorem frame_delivered:
  assumes "mac_fresh s1" and "ih_fresh s2" and "packet 64 ws ip" and "packet_ok ip" and "h = unat (ucast (ip ! 0) :: 4 word)"
  shows "\<exists>k. \<forall>r1 r2. fair r1 \<and> fair r2 \<and> k \<le> length r1 \<and> k \<le> length r2 \<longrightarrow>
    (let t1 = mac_run c r1 (mac_put [r] ws s1); t2 = ih_run a r2 (ih_put (iehf_out (mcs_ieh t1)) s2) in
     rhf_meta (mcs_xi t1) = [next_hop (mcc_mask c) (mcc_gateway c) (le32 16 ip)]
     \<and> (if atr_hit r then
          packet 64 (iehf_out (mcs_ieh t1))
            (header_bytes (atr_macAddress r) @ header_bytes (mcc_mac c) @ [0x08, 0x00] @ checksummed h ip)
          \<and> (\<forall>q. if ip_accepts a (le32 16 ip) \<and> q \<in> set (ipv4_outs (ip ! 9)) then packet 64 (ih_stream q t2) (trimmed (checksummed h ip))
                 else ih_stream q t2 = [])
        else iehf_out (mcs_ieh t1) = []))"
proof -
  have len: "20 \<le> length ip" using assms(4) by (simp add: packet_ok_def)
  obtain x :: "160 word" where x: "header_bytes x = take 20 ip" using header_word[of 20 ip, where 'h = 160] len by auto
  have hl: "unat (ip_getHeaderLength x) = h" using header_length_byte[OF x len] assms(5) by simp
  have short: "4 * unat (ip_getHeaderLength x) \<le> length ip" using assms(4,5) hl by (simp add: packet_ok_def)
  have dst: "ip_getDstAddr x = le32 16 ip" by (rule dst_bytes[OF x len])
  obtain k1 t1 where k1: "mac_sent c r x ip s1 t1" "\<And>q. fair q \<Longrightarrow> k1 \<le> length q \<Longrightarrow> mac_run c q (mac_put [r] ws s1) = t1"
    using mac_sends[OF _ assms(3) len x short, of s1 c r] assms(1) unfolding mac_fresh_def by blast
  have meta: "rhf_meta (mcs_xi t1) = [next_hop (mcc_mask c) (mcc_gateway c) (le32 16 ip)]"
    using k1(1) assms(1) dst by (simp add: mac_sent_def mac_fresh_def)
  show ?thesis
  proof (cases "atr_hit r")
    case False
    then have "iehf_out (mcs_ieh t1) = []" using k1(1) assms(1) by (simp add: mac_sent_def mac_fresh_def)
    then show ?thesis using meta False by (intro exI[of _ k1]) (simp add: Let_def k1(2))
  next
    case True
    define bs where "bs = header_bytes (eth_header (atr_macAddress r) (mcc_mac c)) @ checksummed h ip"
    have sent: "bs = header_bytes (atr_macAddress r) @ header_bytes (mcc_mac c) @ [0x08, 0x00] @ checksummed h ip"
      by (simp add: bs_def eth_header_bytes)
    have out: "packet 64 (iehf_out (mcs_ieh t1)) bs" using k1(1) assms(1) True hl by (auto simp: mac_sent_def mac_fresh_def bs_def)
    note fr = sent_frame[OF assms(4,5) bs_def]
    obtain k2 t2 where k2: "ih_dispatched a bs s2 t2"
      "\<And>q. fair q \<Longrightarrow> k2 \<le> length q \<Longrightarrow> ih_run a q (ih_put (iehf_out (mcs_ieh t1)) s2) = t2"
      using ih_settles[of s2 "[(iehf_out (mcs_ieh t1), bs)]" a] assms(2) out fr(1) unfolding ih_fresh_def by auto
    have "if ip_accepts a (le32 16 ip) \<and> q \<in> set (ipv4_outs (ip ! 9)) then packet 64 (ih_stream q t2) (trimmed (checksummed h ip))
        else ih_stream q t2 = []" for q
      using k2(1) assms(2) by (auto simp: ih_dispatched_def fr(2) ih_fresh_def split: if_splits)
    then show ?thesis using meta True out[unfolded sent] by (intro exI[of _ "max k1 k2"]) (simp add: Let_def k1(2) k2(2))
  qed
qed

subsection \<open>Examples\<close>

text \<open>The modules after reset, an ARP frame, and an IPv4 packet with a datagram of one byte.\<close>

definition rh_demo :: "('m, 'h::len) rh_st" where
  "rh_demo = \<lparr>rh_header = \<lparr>ph_ready = False, ph_idx = 0, ph_header = 0\<rparr>, rh_metaWritten = False, rhf_in = [], rhf_out = [], rhf_meta = []\<rparr>"

definition cics_demo :: cics_st where
  "cics_demo = \<lparr>cics_ip_sums = replicate 32 0, cics_ipHeaderLen = 0, cics_firstWord = True, cicsf_in = [], cicsf_out = [], cicsf_sums = []\<rparr>"

definition mac_demo :: mac_st where
  "mac_demo = \<lparr>mcs_xi = rh_demo, mcs_cics = cics_demo, mcs_sums = [],
     mcs_isc = \<lparr>isc_wordCount = 0, isc_checksum = 0, iscf_in = [], iscf_checksum = [], iscf_out = []\<rparr>,
     mcs_har = \<lparr>har_state = HAR_ARP, harf_arp = [], harf_in = [], harf_header = [], harf_out = []\<rparr>, mcs_lw = lshift_demo,
     mcs_ieh = \<lparr>ieh_state = IEH_PARTIAL_HEADER, ieh_header = \<lparr>ph_ready = False, ph_idx = 0, ph_header = 0\<rparr>, iehf_header = [], iehf_in = [],
       iehf_out = []\<rparr>\<rparr>"

definition ih_demo :: ih_st where
  "ih_demo = \<lparr>ih_eth = rh_demo, ih_rep = \<lparr>rep_fsmState = False, rep_etherType = 0, repf_type = [], repf_in = [], repf_arp = [], repf_ip = [],
       repf_ipv6 = []\<rparr>, ih_rs4 = shift_demo 14, ih_rs6 = shift_demo 14, ih_meta = rh_demo, ih_cics = cics_demo, ih_sums = [],
     ih_iid = \<lparr>iid_state = GET_VALID, iidf_in = [], iidf_checksum = [], iidf_address = [], iidf_out = [], iidf_valid = []\<rparr>,
     ih_cl = \<lparr>cl_rest = False, clf_in = [], clf_out = []\<rparr>,
     ih_dip = \<lparr>dip_pkg = False, dip_ipProtocol = 0, dipf_protocol = [], dipf_valid = [], dipf_in = [], dipf_icmp = [], dipf_udp = [], dipf_tcp = []\<rparr>,
     ih_di6 = \<lparr>di6_state = False, di6_nextHeader = 0, di6f_in = [], di6f_icmpv6 = [], di6f_udp = []\<rparr>,
     ih_udp = [], ih_m_udp = [], ih_m_roce = []\<rparr>"

lemma demos_fresh: "mac_fresh mac_demo" "ih_fresh ih_demo"
proof -
  show "mac_fresh mac_demo"
    by (simp add: mac_fresh_def mac_rest_def mac_inv_def mac_demo_def rh_demo_def rh_idle_def cics_demo_def lshift_demo_def)
  show "ih_fresh ih_demo"
    by (simp add: ih_fresh_def ih_streams ih_rested ih_demo_def rh_demo_def rh_idle_def cics_demo_def shift_demo_def)
qed

definition arp_frame :: "byte list" where
  "arp_frame = [255, 255, 255, 255, 255, 255, 2, 0, 0, 0, 0, 1, 8, 6] @ replicate 46 0"

definition udp_packet :: "byte list" where
  "udp_packet = [0x45, 0, 0, 29, 0, 0, 0, 0, 64, 17, 0, 0, 10, 0, 0, 1, 10, 0, 0, 2, 0, 5, 0, 7, 0, 9, 0, 0, 1]"

lemma demo_bytes: "be16 12 arp_frame = 0x0806" "be16 2 udp_packet = 29" "le32 16 udp_packet = 0x0200000A" "udp_packet ! 9 = 17"
  "unat (ucast (udp_packet ! 0) :: 4 word) = 5" "length udp_packet = 29"
  by (simp_all add: be16_def le32_def arp_frame_def udp_packet_def word_rcat_def)

lemma frame_demo_ok: "frame_ok arp_frame" "packet_ok udp_packet"
proof -
  show "frame_ok arp_frame" using demo_bytes(1) by (simp add: frame_ok_def) (simp add: arp_frame_def)
  show "packet_ok udp_packet" by (simp add: packet_ok_def demo_bytes)
qed

theorem ip_handler_dispatches_witness:
  "\<exists>k. \<forall>rounds. fair rounds \<and> k \<le> length rounds \<longrightarrow>
    (\<forall>q. \<exists>vss. ih_stream q (ih_run 0 rounds (fold ih_put [words_of_bytes 64 arp_frame, words_of_bytes 64 arp_frame] ih_demo)) = concat vss
       \<and> list_all2 (packet 64) vss (if q = ArpOut then [arp_frame, arp_frame] else []))"
proof -
  have p: "packet 64 (words_of_bytes 64 arp_frame) arp_frame" by (rule words_of_bytes_packet) (simp_all add: arp_frame_def)
  have d: "dispatch 0 arp_frame = ([ArpOut], arp_frame)" by (simp add: dispatch_def demo_bytes)
  have "[p. (ws, bs) \<leftarrow> [(words_of_bytes 64 arp_frame, arp_frame), (words_of_bytes 64 arp_frame, arp_frame)],
      (outs, p) \<leftarrow> [dispatch 0 bs], q \<in> set outs] = (if q = ArpOut then [arp_frame, arp_frame] else [])" for q by (simp add: d)
  then show ?thesis
    using ip_handler_dispatches[of ih_demo "[(words_of_bytes 64 arp_frame, arp_frame), (words_of_bytes 64 arp_frame, arp_frame)]" 0]
      demos_fresh(2) frame_demo_ok(1) p unfolding ih_fresh_def by simp
qed

theorem frame_delivered_witness:
  "\<exists>k. \<forall>r1 r2. fair r1 \<and> fair r2 \<and> k \<le> length r1 \<and> k \<le> length r2 \<longrightarrow>
    (let c = \<lparr>mcc_mac = 1, mcc_mask = 0x00FFFFFF, mcc_gateway = 0x0100000A, mcc_u = [], mcc_v = \<lparr>ph_ready = False, ph_idx = 0, ph_header = 0\<rparr>\<rparr>;
         t1 = mac_run c r1 (mac_put [\<lparr>atr_macAddress = 2, atr_hit = True\<rparr>] (words_of_bytes 64 udp_packet) mac_demo);
         t2 = ih_run 0x0200000A r2 (ih_put (iehf_out (mcs_ieh t1)) ih_demo) in
     rhf_meta (mcs_xi t1) = [0x0200000A]
     \<and> packet 64 (iehf_out (mcs_ieh t1)) ([2, 0, 0, 0, 0, 0] @ [1, 0, 0, 0, 0, 0] @ [0x08, 0x00] @ checksummed 5 udp_packet)
     \<and> (\<forall>q. if q = UdpOut \<or> q = RoceOut then packet 64 (ih_stream q t2) (checksummed 5 udp_packet) else ih_stream q t2 = []))"
proof -
  have p: "packet 64 (words_of_bytes 64 udp_packet) udp_packet" by (rule words_of_bytes_packet) (simp_all add: udp_packet_def)
  have t: "trimmed (checksummed 5 udp_packet) = checksummed 5 udp_packet"
  proof -
    have "be16 2 (checksummed 5 udp_packet) = be16 2 udp_packet" by (simp add: be16_def checksummed_def)
    then show ?thesis by (simp add: trimmed_def demo_bytes)
  qed
  have mac: "header_bytes (1 :: mac) = [1, 0, 0, 0, 0, 0]" "header_bytes (2 :: mac) = [2, 0, 0, 0, 0, 0]" by code_simp+
  have hop: "next_hop 0x00FFFFFF 0x0100000A (0x0200000A :: u32) = 0x0200000A" by (simp add: next_hop_def)
  show ?thesis
    using frame_delivered[OF demos_fresh p frame_demo_ok(2) demo_bytes(5)[symmetric], where c = "\<lparr>mcc_mac = 1, mcc_mask = 0x00FFFFFF, mcc_gateway = 0x0100000A,
        mcc_u = [], mcc_v = \<lparr>ph_ready = False, ph_idx = 0, ph_header = 0\<rparr>\<rparr>" and r = "\<lparr>atr_macAddress = 2, atr_hit = True\<rparr>" and a = "0x0200000A"]
    unfolding demo_bytes t by (simp add: hop mac ip_accepts_def ipv4_outs_def Let_def)
qed

end
