(* ===== verification/Arp_Server.thy ===== *)
theory Arp_Server
  imports Mac_Encode
begin

text \<open>
  The ARP server (\<^verbatim>\<open>arp_server_subnet/arp_server_subnet.cpp\<close>): it answers requests for the address of this board, looks hardware
  addresses up for the encoder and for the user and asks the network for those it does not know. The three processes, the server as the
  network of them, and what its table may hold, for any order in which frames, questions and calls come. \<^verbatim>\<open>arpTableReply\<close> is declared
  again in its header with the same text as in that of the encoder.
\<close>

subsection \<open>The header\<close>

definition ARP_OP_REQUEST :: u16 where "ARP_OP_REQUEST = 0x0100"
definition ARP_OP_REPLY :: u16 where "ARP_OP_REPLY = 0x0200"
definition BROADCAST_MAC :: mac where "BROADCAST_MAC = 0xFFFFFFFFFFFF"

record arpTableEntry =
  ate_ipAddress :: u32
  ate_macAddress :: mac
  ate_valid :: bool

record arpReplyMeta =
  arm_srcMacAddr :: mac
  arm_senderHwAddr :: mac
  arm_senderProtoAddr :: u32

type_synonym arp = "336 word"

definition arp_init :: "arp \<Rightarrow> arp" where
  "arp_init h = range_set 158 152 (4 :: byte) (range_set 151 144 (6 :: byte) (range_set 143 128 (0x0008 :: u16)
     (range_set 127 112 (0x0100 :: u16) (range_set 111 96 (0x0608 :: u16) h))))"

definition arp_setDstMacAddr :: "mac \<Rightarrow> arp \<Rightarrow> arp" where "arp_setDstMacAddr a = range_set 47 0 a"
definition arp_setSrcMacAddr :: "mac \<Rightarrow> arp \<Rightarrow> arp" where "arp_setSrcMacAddr a = range_set 95 48 a"
definition arp_getSrcMacAddr :: "arp \<Rightarrow> mac" where "arp_getSrcMacAddr = range_get 95 48"
definition arp_setSenderHwAddr :: "mac \<Rightarrow> arp \<Rightarrow> arp" where "arp_setSenderHwAddr a = range_set 223 176 a"
definition arp_getSenderHwAddr :: "arp \<Rightarrow> mac" where "arp_getSenderHwAddr = range_get 223 176"
definition arp_setSenderProtoAddr :: "u32 \<Rightarrow> arp \<Rightarrow> arp" where "arp_setSenderProtoAddr a = range_set 255 224 a"
definition arp_getSenderProtoAddr :: "arp \<Rightarrow> u32" where "arp_getSenderProtoAddr = range_get 255 224"
definition arp_setTargetHwAddr :: "mac \<Rightarrow> arp \<Rightarrow> arp" where "arp_setTargetHwAddr a = range_set 303 256 a"
definition arp_setTargetProtoAddr :: "u32 \<Rightarrow> arp \<Rightarrow> arp" where "arp_setTargetProtoAddr a = range_set 335 304 a"
definition arp_getTargetProtoAddr :: "arp \<Rightarrow> u32" where "arp_getTargetProtoAddr = range_get 335 304"
definition arp_setRequest :: "arp \<Rightarrow> arp" where "arp_setRequest = range_set 175 160 ARP_OP_REQUEST"
definition arp_isRequest :: "arp \<Rightarrow> bool" where "arp_isRequest h \<longleftrightarrow> range_get 175 160 h = ARP_OP_REQUEST"
definition arp_setReply :: "arp \<Rightarrow> arp" where "arp_setReply = range_set 175 160 ARP_OP_REPLY"
definition arp_isReply :: "arp \<Rightarrow> bool" where "arp_isReply h \<longleftrightarrow> range_get 175 160 h = ARP_OP_REPLY"

subsection \<open>Frames that come in\<close>

record pag_st =
  pag_header :: "336 packetHeader"
  pag_requestCounter :: u16
  pag_replyCounter :: u16
  pag_regRequestCount :: u16
  pag_regReplyCount :: u16
  pagf_in :: "net_axis fifo"
  pagf_reply :: "arpReplyMeta fifo"
  pagf_insert :: "arpTableEntry fifo"

definition pag_take :: "u32 \<Rightarrow> arp \<Rightarrow> pag_st \<Rightarrow> pag_st" where
  "pag_take myIpAddress x s =
    (if arp_getTargetProtoAddr x = myIpAddress then
       (if arp_isRequest x then
          s\<lparr>pagf_reply := pagf_reply s @ [\<lparr>arm_srcMacAddr = arp_getSrcMacAddr x, arm_senderHwAddr = arp_getSenderHwAddr x,
              arm_senderProtoAddr = arp_getSenderProtoAddr x\<rparr>],
            pag_requestCounter := pag_requestCounter s + 1, pag_regRequestCount := pag_requestCounter s + 1\<rparr>
        else if arp_isReply x then
          s\<lparr>pagf_insert := pagf_insert s @ [\<lparr>ate_ipAddress = arp_getSenderProtoAddr x, ate_macAddress = arp_getSenderHwAddr x,
              ate_valid = True\<rparr>],
            pag_replyCounter := pag_replyCounter s + 1, pag_regReplyCount := pag_replyCounter s + 1\<rparr>
        else s)
     else s)"

definition process_arp_pkg :: "nat \<Rightarrow> u32 \<Rightarrow> pag_st \<Rightarrow> pag_st" where
  "process_arp_pkg W myIpAddress s =
    (if pagf_in s \<noteq> [] then
       (let w = hd (pagf_in s); h = parseWord W (ax_lanes w) (pag_header s); s = s\<lparr>pagf_in := tl (pagf_in s), pag_header := h\<rparr> in
        if ax_last w then (pag_take myIpAddress (ph_header h) s)\<lparr>pag_header := ph_clear h\<rparr> else s)
     else s)"

subsection \<open>Frames that go out\<close>

datatype gap_fsm = GAP_IDLE | GAP_HEADER | GAP_PARTIAL_HEADER

record gap_st =
  gap_state :: gap_fsm
  gap_header :: "336 packetHeader"
  gap_replyMeta :: arpReplyMeta
  gap_inputIP :: u32
  gap_remainingLength :: byte
  gapf_reply :: "arpReplyMeta fifo"
  gapf_request :: "u32 fifo"
  gapf_out :: "net_axis fifo"

definition arp_reply :: "mac \<Rightarrow> u32 \<Rightarrow> arpReplyMeta \<Rightarrow> arp \<Rightarrow> arp" where
  "arp_reply myMacAddress myIpAddress m h =
    arp_setTargetProtoAddr (arm_senderProtoAddr m) (arp_setTargetHwAddr (arm_senderHwAddr m) (arp_setSenderProtoAddr myIpAddress
      (arp_setSenderHwAddr myMacAddress (arp_setReply (arp_setSrcMacAddr myMacAddress (arp_setDstMacAddr (arm_srcMacAddr m) h))))))"

definition arp_request :: "mac \<Rightarrow> u32 \<Rightarrow> u32 \<Rightarrow> arp \<Rightarrow> arp" where
  "arp_request myMacAddress myIpAddress ip h =
    arp_setTargetProtoAddr ip (arp_setTargetHwAddr 0 (arp_setSenderProtoAddr myIpAddress
      (arp_setSenderHwAddr myMacAddress (arp_setRequest (arp_setSrcMacAddr myMacAddress (arp_setDstMacAddr BROADCAST_MAC h))))))"

text \<open>The word is cleared before the header is put in: the guard is for a macro with three underscores at its end.\<close>

definition gap_word :: "nat \<Rightarrow> lane list" where
  "gap_word W = replicate W (0, False)"

definition gap_idle :: "mac \<Rightarrow> u32 \<Rightarrow> gap_st \<Rightarrow> gap_st" where
  "gap_idle myMacAddress myIpAddress s =
    (let h = ph_clear (gap_header s) in
     if gapf_reply s \<noteq> [] then
       s\<lparr>gapf_reply := tl (gapf_reply s), gap_replyMeta := hd (gapf_reply s), gap_state := GAP_HEADER,
         gap_header := h\<lparr>ph_header := arp_reply myMacAddress myIpAddress (hd (gapf_reply s)) (ph_header h)\<rparr>\<rparr>
     else if gapf_request s \<noteq> [] then
       s\<lparr>gapf_request := tl (gapf_request s), gap_inputIP := hd (gapf_request s), gap_state := GAP_HEADER,
         gap_header := h\<lparr>ph_header := arp_request myMacAddress myIpAddress (hd (gapf_request s)) (ph_header h)\<rparr>\<rparr>
     else s\<lparr>gap_header := h\<rparr>)"

definition generate_arp_pkg :: "nat \<Rightarrow> mac \<Rightarrow> u32 \<Rightarrow> gap_st \<Rightarrow> gap_st" where
  "generate_arp_pkg W myMacAddress myIpAddress s =
    (case gap_state s of
       GAP_IDLE \<Rightarrow> gap_idle myMacAddress myIpAddress s
     | GAP_HEADER \<Rightarrow>
         (case consumeWord W (gap_word W) (gap_header s) of (r, ls, h) \<Rightarrow>
            (let s = s\<lparr>gap_remainingLength := r, gap_header := h\<rparr> in
             if 336 < 8 * W then
               s\<lparr>gapf_out := gapf_out s @ [set_keep (lenToKeep 42) \<lparr>ax_lanes = ls, ax_last = True\<rparr>], gap_state := GAP_IDLE\<rparr>
             else s\<lparr>gapf_out := gapf_out s @ [\<lparr>ax_lanes = map (\<lambda>(b, _). (b, True)) ls, ax_last = False\<rparr>],
                    gap_state := (if unat r < W then GAP_PARTIAL_HEADER else GAP_HEADER)\<rparr>))
     | GAP_PARTIAL_HEADER \<Rightarrow>
         (case consumeWord W (gap_word W) (gap_header s) of (_, ls, h) \<Rightarrow>
            s\<lparr>gap_header := h, gap_state := GAP_IDLE,
              gapf_out := gapf_out s @ [set_keep (lenToKeep (ucast (gap_remainingLength s))) \<lparr>ax_lanes = ls, ax_last = True\<rparr>]\<rparr>))"

subsection \<open>The table\<close>

record at_st =
  at_arpTable :: "byte \<Rightarrow> arpTableEntry"
  atf_insert :: "arpTableEntry fifo"
  atf_mac_req :: "u32 fifo"
  atf_host_req :: "u32 fifo"
  atf_mac_rsp :: "arpTableReply fifo"
  atf_host_rsp :: "arpTableReply fifo"
  atf_request :: "u32 fifo"

text \<open>The table is read and written at the last octet of the address, which is the highest byte of its number.\<close>

definition arp_index :: "u32 \<Rightarrow> byte" where
  "arp_index ip = range_get 31 24 ip"

definition at_reply :: "arpTableEntry \<Rightarrow> arpTableReply" where
  "at_reply e = \<lparr>atr_macAddress = ate_macAddress e, atr_hit = ate_valid e\<rparr>"

definition at_ask :: "u32 \<Rightarrow> at_st \<Rightarrow> at_st" where
  "at_ask ip s = (if ate_valid (at_arpTable s (arp_index ip)) then s else s\<lparr>atf_request := atf_request s @ [ip]\<rparr>)"

definition arp_table :: "at_st \<Rightarrow> at_st" where
  "arp_table s =
    (if atf_insert s \<noteq> [] then
       (let e = hd (atf_insert s) in
        s\<lparr>atf_insert := tl (atf_insert s), at_arpTable := (at_arpTable s)(arp_index (ate_ipAddress e) := e)\<rparr>)
     else if atf_mac_req s \<noteq> [] then
       (let ip = hd (atf_mac_req s); s = at_ask ip (s\<lparr>atf_mac_req := tl (atf_mac_req s)\<rparr>) in
        s\<lparr>atf_mac_rsp := atf_mac_rsp s @ [at_reply (at_arpTable s (arp_index ip))]\<rparr>)
     else if atf_host_req s \<noteq> [] then
       (let ip = hd (atf_host_req s); s = at_ask ip (s\<lparr>atf_host_req := tl (atf_host_req s)\<rparr>) in
        s\<lparr>atf_host_rsp := atf_host_rsp s @ [at_reply (at_arpTable s (arp_index ip))]\<rparr>)
     else s)"

subsection \<open>The server\<close>

record arp_st =
  as_pag :: pag_st
  as_gap :: gap_st
  as_at :: at_st

datatype arp_proc = ProcessArp | GenerateArp | ArpTable

record arp_cfg =
  arc_mac :: mac
  arc_ip :: u32

definition pag_deliver :: "pag_st \<Rightarrow> arp_st \<Rightarrow> arp_st" where
  "pag_deliver p s = s\<lparr>as_pag := p\<lparr>pagf_reply := [], pagf_insert := []\<rparr>,
     as_gap := (as_gap s)\<lparr>gapf_reply := gapf_reply (as_gap s) @ pagf_reply p\<rparr>,
     as_at := (as_at s)\<lparr>atf_insert := atf_insert (as_at s) @ pagf_insert p\<rparr>\<rparr>"

definition at_deliver :: "at_st \<Rightarrow> arp_st \<Rightarrow> arp_st" where
  "at_deliver p s = s\<lparr>as_at := p\<lparr>atf_request := []\<rparr>,
     as_gap := (as_gap s)\<lparr>gapf_request := gapf_request (as_gap s) @ atf_request p\<rparr>\<rparr>"

definition arp_act :: "nat \<Rightarrow> arp_cfg \<Rightarrow> arp_proc \<Rightarrow> arp_st \<Rightarrow> arp_st" where
  "arp_act W c p s =
    (case p of
       ProcessArp \<Rightarrow> pag_deliver (process_arp_pkg W (arc_ip c) (as_pag s)) s
     | GenerateArp \<Rightarrow> s\<lparr>as_gap := generate_arp_pkg W (arc_mac c) (arc_ip c) (as_gap s)\<rparr>
     | ArpTable \<Rightarrow> at_deliver (arp_table (as_at s)) s)"

definition arp_server_subnet :: "nat \<Rightarrow> arp_cfg \<Rightarrow> arp_st \<Rightarrow> arp_st" where
  "arp_server_subnet W c = fold (arp_act W c) [ProcessArp, GenerateArp, ArpTable]"

text \<open>What comes from outside: a frame, a question of the encoder, a question of the user.\<close>

definition arp_frame_in :: "net_axis list \<Rightarrow> arp_st \<Rightarrow> arp_st" where
  "arp_frame_in ws s = s\<lparr>as_pag := (as_pag s)\<lparr>pagf_in := pagf_in (as_pag s) @ ws\<rparr>\<rparr>"

definition arp_mac_in :: "u32 \<Rightarrow> arp_st \<Rightarrow> arp_st" where
  "arp_mac_in ip s = s\<lparr>as_at := (as_at s)\<lparr>atf_mac_req := atf_mac_req (as_at s) @ [ip]\<rparr>\<rparr>"

definition arp_host_in :: "u32 \<Rightarrow> arp_st \<Rightarrow> arp_st" where
  "arp_host_in ip s = s\<lparr>as_at := (as_at s)\<lparr>atf_host_req := atf_host_req (as_at s) @ [ip]\<rparr>\<rparr>"

subsection \<open>A header read from a packet\<close>

lemma parse_words:
  fixes h :: "'h::len packetHeader"
  assumes "LENGTH('h) = 8 * n" and "0 < n" and "n < 65536" and "0 < W" and "packet W ws bs" and "n \<le> length bs"
    and "\<not> ph_ready h" and "ph_idx h = 0" and "i \<le> length ws"
  shows "(W * i < n \<longrightarrow> parsed W i bs (fold (\<lambda>w. parseWord W (ax_lanes w)) (take i ws) h))
    \<and> (n \<le> W * i \<longrightarrow> ph_ready (fold (\<lambda>w. parseWord W (ax_lanes w)) (take i ws) h)
         \<and> header_bytes (ph_header (fold (\<lambda>w. parseWord W (ax_lanes w)) (take i ws) h)) = take n bs)"
  using assms(9)
proof (induction i)
  case 0
  then show ?case using assms(2,7,8) by (simp add: parsed_def)
next
  case (Suc i)
  define p where "p = fold (\<lambda>w. parseWord W (ax_lanes w)) (take i ws) h"
  have i: "i < length ws" using Suc.prems by simp
  have p': "fold (\<lambda>w. parseWord W (ax_lanes w)) (take (Suc i) ws) h = parseWord W (ax_lanes (ws ! i)) p"
    using i by (simp add: take_Suc_conv_app_nth p_def)
  have IH: "W * i < n \<longrightarrow> parsed W i bs p" "n \<le> W * i \<longrightarrow> ph_ready p \<and> header_bytes (ph_header p) = take n bs"
    using Suc.IH i by (simp_all add: p_def)
  have w: "word_of W n i bs (ax_lanes (ws ! i))" by (rule word_of_less[OF packet_nth(1)[OF assms(5) i] assms(6)])
  show ?case
  proof (cases "W * i < n")
    case True
    have "i \<le> W * i" using assms(4) by simp
    then have "i + 1 < 65536" using True assms(3) by linarith
    then show ?thesis
      unfolding p' using parse_more[OF _ w assms(1), of p] parse_end[OF _ w assms(1), of p] IH(1) True assms(4,6) by (auto simp: add.commute)
  next
    case False
    then show ?thesis unfolding p' using IH(2) by (simp add: parse_ready)
  qed
qed

lemma parse_packet:
  fixes h :: "'h::len packetHeader"
  assumes "LENGTH('h) = 8 * n" and "0 < n" and "n < 65536" and "0 < W" and "packet W ws bs" and "n \<le> length bs"
    and "\<not> ph_ready h" and "ph_idx h = 0"
  shows "header_bytes (ph_header (fold (\<lambda>w. parseWord W (ax_lanes w)) ws h)) = take n bs"
proof -
  have "length bs \<le> W * length ws" using packet_nth(3)[OF assms(5), of "length ws - 1"] packet_nonempty[OF assms(5)]
    by (cases ws) (auto simp: add.commute)
  then show ?thesis using parse_words[OF assms, of "length ws"] assms(6) by simp
qed

end
