(* ===== verification/Arp_Learn.thy ===== *)
theory Arp_Learn
  imports Arp_Server
begin

text \<open>
  What the ARP server may answer: for any order in which frames, questions and steps of its three processes come, an answer with a
  hardware address goes back to an ARP reply to this board that came in before.
\<close>

subsection \<open>Events and what they say\<close>

datatype arp_event = Arp_Frame "net_axis list" | Lookup_Mac u32 | Lookup_Host u32 | Arp_Step arp_proc

fun arp_exec :: "nat \<Rightarrow> arp_cfg \<Rightarrow> arp_event \<Rightarrow> arp_st \<Rightarrow> arp_st" where
  "arp_exec W c (Arp_Frame ws) s = arp_frame_in ws s"
| "arp_exec W c (Lookup_Mac ip) s = arp_mac_in ip s"
| "arp_exec W c (Lookup_Host ip) s = arp_host_in ip s"
| "arp_exec W c (Arp_Step p) s = arp_act W c p s"

definition arp_frames :: "arp_event list \<Rightarrow> net_axis list list" where
  "arp_frames es = [ws. Arp_Frame ws \<leftarrow> es]"

definition mac_asked :: "arp_event list \<Rightarrow> u32 list" where
  "mac_asked es = [ip. Lookup_Mac ip \<leftarrow> es]"

definition host_asked :: "arp_event list \<Rightarrow> u32 list" where
  "host_asked es = [ip. Lookup_Host ip \<leftarrow> es]"

definition arp_frame_ok :: "nat \<Rightarrow> arp_event \<Rightarrow> bool" where
  "arp_frame_ok W e \<longleftrightarrow> (\<forall>ws. e = Arp_Frame ws \<longrightarrow> (\<exists>bs. packet W ws bs \<and> 42 \<le> length bs))"

text \<open>A frame that is an ARP reply to the address \<open>my\<close>, and what it says.\<close>

definition reply_says :: "u32 \<Rightarrow> byte list \<Rightarrow> u32 \<Rightarrow> mac \<Rightarrow> bool" where
  "reply_says my bs ip m \<longleftrightarrow> (\<exists>h :: arp. header_bytes h = take 42 bs \<and> arp_isReply h \<and> arp_getTargetProtoAddr h = my
     \<and> arp_getSenderProtoAddr h = ip \<and> arp_getSenderHwAddr h = m)"

definition taught :: "nat \<Rightarrow> u32 \<Rightarrow> arp_event list \<Rightarrow> u32 \<Rightarrow> mac \<Rightarrow> bool" where
  "taught W my es ip m \<longleftrightarrow> (\<exists>ws bs. Arp_Frame ws \<in> set es \<and> packet W ws bs \<and> reply_says my bs ip m)"

definition heard :: "nat \<Rightarrow> u32 \<Rightarrow> arp_event list \<Rightarrow> byte \<Rightarrow> mac \<Rightarrow> bool" where
  "heard W my es j m \<longleftrightarrow> (\<exists>ip. arp_index ip = j \<and> taught W my es ip m)"

lemma log_simps [simp]:
  "arp_frames [] = []" "mac_asked [] = []" "host_asked [] = []"
  "arp_frames (es @ [e]) = arp_frames es @ (case e of Arp_Frame ws \<Rightarrow> [ws] | _ \<Rightarrow> [])"
  "mac_asked (es @ [e]) = mac_asked es @ (case e of Lookup_Mac ip \<Rightarrow> [ip] | _ \<Rightarrow> [])"
  "host_asked (es @ [e]) = host_asked es @ (case e of Lookup_Host ip \<Rightarrow> [ip] | _ \<Rightarrow> [])"
  by (simp_all add: arp_frames_def mac_asked_def host_asked_def split: arp_event.split)

lemma frames_set: "ws \<in> set (arp_frames es) \<longleftrightarrow> Arp_Frame ws \<in> set es"
  by (force simp: arp_frames_def split: arp_event.splits)

lemma taught_mono: "taught W my es ip m \<Longrightarrow> taught W my (es @ [e]) ip m"
  by (auto simp: taught_def)

lemma heard_mono: "heard W my es j m \<Longrightarrow> heard W my (es @ [e]) j m"
  unfolding heard_def by (blast intro: taught_mono)

lemmas log_mono = taught_mono heard_mono

subsection \<open>What the state holds of the events\<close>

text \<open>The frames that wait, the first of them read up to its word \<open>i\<close>.\<close>

definition reading :: "nat \<Rightarrow> net_axis list list \<Rightarrow> pag_st \<Rightarrow> bool" where
  "reading W fs s \<longleftrightarrow> (\<exists>i h. pagf_in s = drop i (concat fs) \<and> (i = 0 \<or> fs \<noteq> [] \<and> i < length (hd fs))
     \<and> \<not> ph_ready h \<and> ph_idx h = 0 \<and> pag_header s = fold (\<lambda>w. parseWord W (ax_lanes w)) (take i (concat fs)) h)"

definition answered :: "nat \<Rightarrow> u32 \<Rightarrow> arp_event list \<Rightarrow> u32 list \<Rightarrow> u32 list \<Rightarrow> arpTableReply list \<Rightarrow> bool" where
  "answered W my es asked waits rsp \<longleftrightarrow> length rsp \<le> length asked \<and> waits = drop (length rsp) asked
     \<and> (\<forall>i < length rsp. atr_hit (rsp ! i) \<longrightarrow> heard W my es (arp_index (asked ! i)) (atr_macAddress (rsp ! i)))"

definition arp_log_inv :: "nat \<Rightarrow> u32 \<Rightarrow> arp_event list \<times> arp_st \<Rightarrow> bool" where
  "arp_log_inv W my es_s \<longleftrightarrow> (case es_s of (es, s) \<Rightarrow>
     (\<exists>d fs. arp_frames es = d @ fs \<and> reading W fs (as_pag s))
     \<and> (\<forall>ws \<in> set (arp_frames es). \<exists>bs. packet W ws bs \<and> 42 \<le> length bs)
     \<and> pagf_reply (as_pag s) = [] \<and> pagf_insert (as_pag s) = [] \<and> atf_request (as_at s) = []
     \<and> (\<forall>e \<in> set (atf_insert (as_at s)). taught W my es (ate_ipAddress e) (ate_macAddress e))
     \<and> (\<forall>j. ate_valid (at_arpTable (as_at s) j) \<longrightarrow> heard W my es j (ate_macAddress (at_arpTable (as_at s) j)))
     \<and> answered W my es (mac_asked es) (atf_mac_req (as_at s)) (atf_mac_rsp (as_at s))
     \<and> answered W my es (host_asked es) (atf_host_req (as_at s)) (atf_host_rsp (as_at s)))"

definition arp_log_step :: "nat \<Rightarrow> arp_cfg \<Rightarrow> arp_event \<Rightarrow> arp_event list \<times> arp_st \<Rightarrow> arp_event list \<times> arp_st" where
  "arp_log_step W c e es_s = (fst es_s @ [e], arp_exec W c e (snd es_s))"

lemma log_run: "fold (arp_log_step W c) es (es0, s) = (es0 @ es, fold (arp_exec W c) es s)"
  by (induction es arbitrary: es0 s) (simp_all add: arp_log_step_def)

lemma answered_more: "answered W my es asked waits rsp \<Longrightarrow> answered W my (es @ [e]) asked waits rsp"
  unfolding answered_def by (blast intro: log_mono)

lemma answered_ask: "answered W my es asked waits rsp \<Longrightarrow> answered W my (es @ [e]) (asked @ [ip]) (waits @ [ip]) rsp"
  unfolding answered_def by (auto simp: nth_append intro: log_mono)

lemma answered_reply:
  assumes "answered W my es asked waits rsp" and "waits \<noteq> []"
    and "atr_hit r \<Longrightarrow> heard W my es (arp_index (hd waits)) (atr_macAddress r)"
  shows "answered W my (es @ [e]) asked (tl waits) (rsp @ [r])"
proof -
  have lt: "length rsp < length asked" and hd: "hd waits = asked ! length rsp"
    using assms(1,2) by (auto simp: answered_def hd_drop_conv_nth)
  have "heard W my (es @ [e]) (arp_index (asked ! i)) (atr_macAddress ((rsp @ [r]) ! i))"
    if "i < length (rsp @ [r])" "atr_hit ((rsp @ [r]) ! i)" for i
  proof (cases "i = length rsp")
    case True
    then show ?thesis using assms(3) that hd by (auto intro: log_mono)
  next
    case False
    then have "i < length rsp" using that(1) by simp
    then show ?thesis using assms(1) that(2) by (simp add: answered_def nth_append) (blast intro: log_mono)
  qed
  moreover have "tl waits = drop (length (rsp @ [r])) asked" using assms(1) by (simp add: answered_def tl_drop drop_Suc)
  ultimately show ?thesis using lt by (simp add: answered_def)
qed

subsection \<open>A frame is read\<close>

lemma reading_more: "reading W fs s \<Longrightarrow> reading W (fs @ [ws]) (s\<lparr>pagf_in := pagf_in s @ ws\<rparr>)"
proof -
  assume "reading W fs s"
  then obtain i h where i: "pagf_in s = drop i (concat fs)" "i = 0 \<or> fs \<noteq> [] \<and> i < length (hd fs)" "\<not> ph_ready h" "ph_idx h = 0"
    "pag_header s = fold (\<lambda>w. parseWord W (ax_lanes w)) (take i (concat fs)) h" unfolding reading_def by blast
  have "i \<le> length (concat fs)" using i(2) by (cases fs) auto
  then show ?thesis using i unfolding reading_def by (intro exI[of _ i] exI[of _ h]) auto
qed

lemma reading_step:
  assumes "reading W (ws # fs) s" and "packet W ws bs" and "42 \<le> length bs" and "0 < W"
  shows "(\<exists>x. process_arp_pkg W my s = s\<lparr>pagf_in := tl (pagf_in s), pag_header := x\<rparr> \<and> reading W (ws # fs) (process_arp_pkg W my s))
    \<or> (\<exists>x. header_bytes (ph_header x) = take 42 bs \<and> reading W fs (process_arp_pkg W my s)
         \<and> process_arp_pkg W my s = (pag_take my (ph_header x) (s\<lparr>pagf_in := tl (pagf_in s), pag_header := x\<rparr>))\<lparr>pag_header := ph_clear x\<rparr>)"
proof -
  let ?p = "\<lambda>w. parseWord W (ax_lanes w)"
  obtain i h where i: "pagf_in s = drop i (ws @ concat fs)" "i < length ws" "\<not> ph_ready h" "ph_idx h = 0"
    "pag_header s = fold ?p (take i ws) h" using assms(1) packet_nonempty[OF assms(2)] unfolding reading_def by force
  define x where "x = fold ?p (take (Suc i) ws) h"
  have x: "x = parseWord W (ax_lanes (ws ! i)) (pag_header s)" using i(2,5) by (simp add: x_def take_Suc_conv_app_nth)
  have ne: "pagf_in s \<noteq> []" and hd: "hd (pagf_in s) = ws ! i" and tl: "tl (pagf_in s) = drop (Suc i) (ws @ concat fs)"
    using i(1,2) by (auto simp: hd_drop_conv_nth nth_append drop_Suc tl_drop)
  show ?thesis
  proof (cases "ax_last (ws ! i)")
    case False
    then have "Suc i < length ws" using packet_nth(2)[OF assms(2) i(2)] i(2) by auto
    then have "reading W (ws # fs) (s\<lparr>pagf_in := tl (pagf_in s), pag_header := x\<rparr>)"
      unfolding reading_def using i tl by (intro exI[of _ "Suc i"] exI[of _ h]) (simp add: x_def)
    then show ?thesis using False ne hd by (intro disjI1 exI[of _ x]) (simp add: process_arp_pkg_def Let_def x)
  next
    case True
    then have last: "Suc i = length ws" using packet_nth(2)[OF assms(2) i(2)] by auto
    have "header_bytes (ph_header (fold ?p ws h)) = take 42 bs"
      by (rule parse_packet) (use assms i in simp_all)
    then have hb: "header_bytes (ph_header x) = take 42 bs" using last by (simp add: x_def)
    have new: "process_arp_pkg W my s = (pag_take my (ph_header x) (s\<lparr>pagf_in := tl (pagf_in s), pag_header := x\<rparr>))\<lparr>pag_header := ph_clear x\<rparr>"
      using True ne hd by (simp add: process_arp_pkg_def Let_def x)
    have out: "pagf_in (process_arp_pkg W my s) = tl (pagf_in s)" "pag_header (process_arp_pkg W my s) = ph_clear x"
      by (simp_all add: new pag_take_def)
    have "reading W fs (process_arp_pkg W my s)"
      unfolding reading_def out tl last using i(2) last by (intro exI[of _ 0] exI[of _ "ph_clear x"]) (simp add: ph_clear_def)
    then show ?thesis using hb new by blast
  qed
qed

subsection \<open>The steps\<close>

lemma inv_frame:
  assumes "arp_log_inv W my (es, s)" and "arp_frame_ok W (Arp_Frame ws)"
  shows "arp_log_inv W my (es @ [Arp_Frame ws], arp_frame_in ws s)"
proof -
  obtain d fs where fs: "arp_frames es = d @ fs" "reading W fs (as_pag s)" using assms(1) unfolding arp_log_inv_def by blast
  have "arp_frames (es @ [Arp_Frame ws]) = d @ (fs @ [ws])" using fs(1) by simp
  moreover have "reading W (fs @ [ws]) (as_pag (arp_frame_in ws s))" using reading_more[OF fs(2)] by (simp add: arp_frame_in_def)
  ultimately have "\<exists>d fs. arp_frames (es @ [Arp_Frame ws]) = d @ fs \<and> reading W fs (as_pag (arp_frame_in ws s))" by blast
  moreover have "\<forall>vs \<in> set (arp_frames (es @ [Arp_Frame ws])). \<exists>bs. packet W vs bs \<and> 42 \<le> length bs"
    using assms by (auto simp: arp_log_inv_def arp_frame_ok_def)
  ultimately show ?thesis using assms(1) unfolding arp_log_inv_def by (auto simp: arp_frame_in_def intro: log_mono answered_more)
qed

lemma inv_mac: "arp_log_inv W my (es, s) \<Longrightarrow> arp_log_inv W my (es @ [Lookup_Mac ip], arp_mac_in ip s)"
  unfolding arp_log_inv_def by (auto simp: arp_mac_in_def intro: log_mono answered_more answered_ask)

lemma inv_host: "arp_log_inv W my (es, s) \<Longrightarrow> arp_log_inv W my (es @ [Lookup_Host ip], arp_host_in ip s)"
  unfolding arp_log_inv_def by (auto simp: arp_host_in_def intro: log_mono answered_more answered_ask)

text \<open>A step of the process that reads the frames.\<close>

lemma inv_process:
  assumes "arp_log_inv W my (es, s)" and "\<forall>ws. e \<noteq> Arp_Frame ws" "\<forall>ip. e \<noteq> Lookup_Mac ip" "\<forall>ip. e \<noteq> Lookup_Host ip" and "0 < W"
  shows "arp_log_inv W my (es @ [e], pag_deliver (process_arp_pkg W my (as_pag s)) s)"
proof -
  let ?p = "process_arp_pkg W my (as_pag s)"
  obtain d fs where fs: "arp_frames es = d @ fs" "reading W fs (as_pag s)" using assms(1) unfolding arp_log_inv_def by blast
  have same: "arp_frames (es @ [e]) = arp_frames es" "mac_asked (es @ [e]) = mac_asked es" "host_asked (es @ [e]) = host_asked es"
    using assms(2-4) by (simp_all split: arp_event.split)
  have out: "pagf_reply (as_pag s) = []" "pagf_insert (as_pag s) = []" using assms(1) by (simp_all add: arp_log_inv_def)
  have clear: "reading W gs (p\<lparr>pagf_reply := [], pagf_insert := []\<rparr>) = reading W gs p" for gs p by (simp add: reading_def)
  have goal: ?thesis if "arp_frames es = d' @ fs'" "reading W fs' ?p"
    "\<forall>i \<in> set (pagf_insert ?p). taught W my es (ate_ipAddress i) (ate_macAddress i)" for d' fs'
    using assms(1) that unfolding arp_log_inv_def prod.case same
    by (intro conjI exI[of _ d'] exI[of _ fs']) (auto simp: pag_deliver_def clear intro: log_mono answered_more)
  show ?thesis
  proof (cases fs)
    case Nil
    then have "?p = as_pag s" using fs(2) by (auto simp: reading_def process_arp_pkg_def)
    then show ?thesis using goal[OF fs(1)] fs(2) out by simp
  next
    case (Cons ws gs)
    have "ws \<in> set (arp_frames es)" using fs(1) Cons by simp
    then obtain bs where bs: "packet W ws bs" "42 \<le> length bs" "Arp_Frame ws \<in> set es"
      using assms(1) frames_set unfolding arp_log_inv_def by blast
    from reading_step[OF fs(2)[unfolded Cons] bs(1,2) assms(5), of my] show ?thesis
    proof (elim disjE exE conjE)
      fix x assume x: "?p = (as_pag s)\<lparr>pagf_in := tl (pagf_in (as_pag s)), pag_header := x\<rparr>" "reading W (ws # gs) ?p"
      have "pagf_insert ?p = []" by (simp add: x(1) out)
      then show ?thesis using goal[of d "ws # gs"] fs(1) Cons x(2) by simp
    next
      fix x assume x: "header_bytes (ph_header x) = take 42 bs" "reading W gs ?p"
        "?p = (pag_take my (ph_header x) ((as_pag s)\<lparr>pagf_in := tl (pagf_in (as_pag s)), pag_header := x\<rparr>))\<lparr>pag_header := ph_clear x\<rparr>"
      have "taught W my es (arp_getSenderProtoAddr (ph_header x)) (arp_getSenderHwAddr (ph_header x))"
        if "arp_isReply (ph_header x)" "arp_getTargetProtoAddr (ph_header x) = my"
        unfolding taught_def reply_says_def using bs x(1) that by blast
      then have "\<forall>i \<in> set (pagf_insert ?p). taught W my es (ate_ipAddress i) (ate_macAddress i)"
        unfolding x(3) pag_take_def using out by simp
      moreover have "arp_frames es = (d @ [ws]) @ gs" using fs(1) Cons by simp
      ultimately show ?thesis using goal x(2) by blast
    qed
  qed
qed

text \<open>A step of the table.\<close>

lemma inv_table:
  assumes "arp_log_inv W my (es, s)" and "\<forall>ws. e \<noteq> Arp_Frame ws" "\<forall>ip. e \<noteq> Lookup_Mac ip" "\<forall>ip. e \<noteq> Lookup_Host ip"
  shows "arp_log_inv W my (es @ [e], at_deliver (arp_table (as_at s)) s)"
proof -
  let ?a = "as_at s"
  have same: "arp_frames (es @ [e]) = arp_frames es" "mac_asked (es @ [e]) = mac_asked es" "host_asked (es @ [e]) = host_asked es"
    using assms(2-4) by (simp_all split: arp_event.split)
  have tab: "heard W my es (arp_index ip) (ate_macAddress (at_arpTable ?a (arp_index ip)))"
    if "ate_valid (at_arpTable ?a (arp_index ip))" for ip using assms(1) that by (simp add: arp_log_inv_def)
  have ask: "at_arpTable (at_ask ip a) = at_arpTable a" "atf_insert (at_ask ip a) = atf_insert a"
    "atf_mac_rsp (at_ask ip a) = atf_mac_rsp a" "atf_host_rsp (at_ask ip a) = atf_host_rsp a"
    "atf_mac_req (at_ask ip a) = atf_mac_req a" "atf_host_req (at_ask ip a) = atf_host_req a" for ip a
    by (simp_all add: at_ask_def)
  consider (insert) "atf_insert ?a \<noteq> []" | (mac) "atf_insert ?a = []" "atf_mac_req ?a \<noteq> []"
    | (host) "atf_insert ?a = []" "atf_mac_req ?a = []" "atf_host_req ?a \<noteq> []"
    | (idle) "atf_insert ?a = []" "atf_mac_req ?a = []" "atf_host_req ?a = []" by blast
  then show ?thesis
  proof cases
    case insert
    then have e: "heard W my es (arp_index (ate_ipAddress (hd (atf_insert ?a)))) (ate_macAddress (hd (atf_insert ?a)))"
      using assms(1) unfolding heard_def arp_log_inv_def by auto
    show ?thesis using assms(1) insert e unfolding arp_log_inv_def prod.case same
      by (auto simp: at_deliver_def arp_table_def Let_def intro: log_mono answered_more dest: in_set_tl)
  next
    case mac
    have "answered W my (es @ [e]) (mac_asked es) (tl (atf_mac_req ?a))
       (atf_mac_rsp ?a @ [at_reply (at_arpTable ?a (arp_index (hd (atf_mac_req ?a))))])"
      by (rule answered_reply) (use assms(1) mac tab in \<open>auto simp: arp_log_inv_def at_reply_def\<close>)
    then show ?thesis using assms(1) mac unfolding arp_log_inv_def prod.case same
      by (auto simp: at_deliver_def arp_table_def Let_def ask intro: log_mono answered_more)
  next
    case host
    have "answered W my (es @ [e]) (host_asked es) (tl (atf_host_req ?a))
       (atf_host_rsp ?a @ [at_reply (at_arpTable ?a (arp_index (hd (atf_host_req ?a))))])"
      by (rule answered_reply) (use assms(1) host tab in \<open>auto simp: arp_log_inv_def at_reply_def\<close>)
    then show ?thesis using assms(1) host unfolding arp_log_inv_def prod.case same
      by (auto simp: at_deliver_def arp_table_def Let_def ask intro: log_mono answered_more)
  next
    case idle
    then show ?thesis using assms(1) unfolding arp_log_inv_def prod.case same
      by (auto simp: at_deliver_def arp_table_def Let_def intro: log_mono answered_more)
  qed
qed

lemma inv_generate: "arp_log_inv W my (es, s) \<Longrightarrow> arp_log_inv W my (es @ [Arp_Step GenerateArp], s\<lparr>as_gap := g\<rparr>)"
  unfolding arp_log_inv_def by (auto intro: log_mono answered_more)

interpretation arp_log: reactive "arp_log_step W c" "\<lambda>x. arp_log_inv W (arc_ip c) x \<and> 0 < W" "arp_frame_ok W" for W c
proof
  fix x e
  assume "arp_log_inv W (arc_ip c) x \<and> 0 < W" and e: "arp_frame_ok W e"
  then obtain es s where x: "x = (es, s)" "arp_log_inv W (arc_ip c) (es, s)" "0 < W" by (cases x) auto
  have "arp_log_inv W (arc_ip c) (es @ [e], arp_exec W c e s)"
  proof (cases e)
    case (Arp_Frame ws)
    then show ?thesis using inv_frame[OF x(2)] e by simp
  next
    case (Lookup_Mac ip)
    then show ?thesis using inv_mac[OF x(2)] by simp
  next
    case (Lookup_Host ip)
    then show ?thesis using inv_host[OF x(2)] by simp
  next
    case (Arp_Step p)
    then show ?thesis using inv_process[OF x(2) _ _ _ x(3), of e] inv_table[OF x(2), of e] inv_generate[OF x(2)]
      by (cases p) (simp_all add: arp_act_def)
  qed
  then show "arp_log_inv W (arc_ip c) (arp_log_step W c e x) \<and> 0 < W" using x by (simp add: arp_log_step_def)
qed

subsection \<open>After reset\<close>

definition arp_reset :: "arp_st \<Rightarrow> bool" where
  "arp_reset s \<longleftrightarrow> pagf_in (as_pag s) = [] \<and> pagf_reply (as_pag s) = [] \<and> pagf_insert (as_pag s) = []
     \<and> \<not> ph_ready (pag_header (as_pag s)) \<and> ph_idx (pag_header (as_pag s)) = 0 \<and> (\<forall>j. \<not> ate_valid (at_arpTable (as_at s) j))
     \<and> atf_insert (as_at s) = [] \<and> atf_mac_req (as_at s) = [] \<and> atf_host_req (as_at s) = [] \<and> atf_mac_rsp (as_at s) = []
     \<and> atf_host_rsp (as_at s) = [] \<and> atf_request (as_at s) = []"

lemma reset_inv: "arp_reset s \<Longrightarrow> arp_log_inv W my ([], s)"
  by (auto simp: arp_reset_def arp_log_inv_def answered_def reading_def intro!: exI[of _ "pag_header (as_pag s)"])

end
