(* ===== verification/Arp_Trip.thy ===== *)
theory Arp_Trip
  imports Arp_Learn Ip_Dispatch
begin

text \<open>
  How an address is resolved between two boards: the bytes of the frames that the ARP server sends, what another server does with
  them, and the exchange that fills the table. At any time only one of the three processes has something to do for such an exchange, so
  the order of their steps does not matter.
\<close>

subsection \<open>The frames\<close>

text \<open>An ARP frame for Ethernet and IPv4 (RFC 826). The words hold addresses in network order, lowest byte first.\<close>

definition arp_bytes :: "mac \<Rightarrow> byte \<Rightarrow> mac \<Rightarrow> u32 \<Rightarrow> mac \<Rightarrow> u32 \<Rightarrow> byte list" where
  "arp_bytes dst op sha spa tha tpa = header_bytes dst @ header_bytes sha @ [8, 6, 0, 1, 8, 0, 6, 4, 0, op]
     @ header_bytes sha @ header_bytes spa @ header_bytes tha @ header_bytes tpa"

text \<open>The fields that the constructor fills in.\<close>

definition arp_typed :: "arp \<Rightarrow> bool" where
  "arp_typed h \<longleftrightarrow> take 8 (drop 12 (header_bytes h)) = [8, 6, 0, 1, 8, 0, 6, 4]"

lemma arp_field_bytes:
  fixes x :: arp and a :: u32 and m :: mac and p :: u16 and b :: byte
  shows "header_bytes (range_set 335 304 a x) = take 38 (header_bytes x) @ header_bytes a"
    and "header_bytes (range_set 303 256 m x) = take 32 (header_bytes x) @ header_bytes m @ drop 38 (header_bytes x)"
    and "header_bytes (range_set 255 224 a x) = take 28 (header_bytes x) @ header_bytes a @ drop 32 (header_bytes x)"
    and "header_bytes (range_set 223 176 m x) = take 22 (header_bytes x) @ header_bytes m @ drop 28 (header_bytes x)"
    and "header_bytes (range_set 175 160 p x) = take 20 (header_bytes x) @ header_bytes p @ drop 22 (header_bytes x)"
    and "header_bytes (range_set 159 152 b x) = take 19 (header_bytes x) @ header_bytes b @ drop 20 (header_bytes x)"
    and "header_bytes (range_set 151 144 b x) = take 18 (header_bytes x) @ header_bytes b @ drop 19 (header_bytes x)"
    and "header_bytes (range_set 143 128 p x) = take 16 (header_bytes x) @ header_bytes p @ drop 18 (header_bytes x)"
    and "header_bytes (range_set 127 112 p x) = take 14 (header_bytes x) @ header_bytes p @ drop 16 (header_bytes x)"
    and "header_bytes (range_set 111 96 p x) = take 12 (header_bytes x) @ header_bytes p @ drop 14 (header_bytes x)"
    and "header_bytes (range_set 95 48 m x) = take 6 (header_bytes x) @ header_bytes m @ drop 12 (header_bytes x)"
    and "header_bytes (range_set 47 0 m x) = header_bytes m @ drop 6 (header_bytes x)"
  by (simp_all add: header_bytes_set[where 'h = 336 and n = 42])

text \<open>The constructor leaves the top bit of the length of a protocol address as it is.\<close>

lemma arp_init_typed:
  assumes "\<not> bit h 159"
  shows "arp_typed (arp_init h)"
proof -
  have "range_set 158 152 (4 :: byte) x = range_set 159 152 (4 :: byte) x" if "\<not> bit x 159" for x :: arp
  proof (rule bit_word_eqI)
    fix n :: nat
    have r: "n \<le> 158 \<longleftrightarrow> n \<le> 159" if "n \<noteq> 159" using that by arith
    have b: "\<not> bit (4 :: byte) 7" by (simp add: bit_numeral_rec)
    show "bit (range_set 158 152 (4 :: byte) x) n = bit (range_set 159 152 (4 :: byte) x) n"
      using that b by (cases "n = 159") (simp_all add: bit_range_set r)
  qed
  moreover have "\<not> bit (range_set 151 144 (6 :: byte) (range_set 143 128 (0x0008 :: u16)
     (range_set 127 112 (0x0100 :: u16) (range_set 111 96 (0x0608 :: u16) h)))) 159" using assms by (simp add: bit_range_set)
  ultimately show ?thesis
    by (simp add: arp_typed_def arp_init_def arp_field_bytes) (simp add: header_bytes_def upt_rec)
qed

lemmas arp_set = arp_setDstMacAddr_def arp_setSrcMacAddr_def arp_setSenderHwAddr_def arp_setSenderProtoAddr_def arp_setTargetHwAddr_def
  arp_setTargetProtoAddr_def arp_setRequest_def arp_setReply_def

lemmas arp_get = arp_getSrcMacAddr_def arp_getSenderHwAddr_def arp_getSenderProtoAddr_def arp_getTargetProtoAddr_def arp_isRequest_def
  arp_isReply_def

lemma op_bytes: "header_bytes ARP_OP_REQUEST = [0, 1]" "header_bytes ARP_OP_REPLY = [0, 2]"
  by code_simp+

lemma arp_frame_fields:
  fixes h :: arp
  assumes "arp_typed h"
  shows "header_bytes (arp_setTargetProtoAddr tpa (arp_setTargetHwAddr tha (arp_setSenderProtoAddr spa (arp_setSenderHwAddr sha
     (range_set 175 160 (op :: u16) (arp_setSrcMacAddr sha (arp_setDstMacAddr dst h)))))))
     = header_bytes dst @ header_bytes sha @ [8, 6, 0, 1, 8, 0, 6, 4] @ header_bytes op
       @ header_bytes sha @ header_bytes spa @ header_bytes tha @ header_bytes tpa"
proof -
  have "take 8 (drop 12 (header_bytes h)) = [8, 6, 0, 1, 8, 0, 6, 4]" using assms by (simp add: arp_typed_def)
  then show ?thesis unfolding arp_set by (simp add: arp_field_bytes)
qed

lemma arp_reply_bytes: "arp_typed h \<Longrightarrow> header_bytes (arp_reply my myIp m h) = arp_bytes (arm_srcMacAddr m) 2 my myIp (arm_senderHwAddr m) (arm_senderProtoAddr m)"
  using arp_frame_fields[where op = ARP_OP_REPLY] by (simp add: arp_reply_def arp_bytes_def op_bytes arp_setReply_def)

lemma arp_request_bytes: "arp_typed h \<Longrightarrow> header_bytes (arp_request my myIp ip h) = arp_bytes BROADCAST_MAC 1 my myIp 0 ip"
  using arp_frame_fields[where op = ARP_OP_REQUEST] by (simp add: arp_request_def arp_bytes_def op_bytes arp_setRequest_def)

lemma arp_typed_kept: "arp_typed h \<Longrightarrow> arp_typed (arp_reply my myIp m h)" "arp_typed h \<Longrightarrow> arp_typed (arp_request my myIp ip h)"
proof -
  have "take 8 (drop 12 (arp_bytes dst op sha spa tha tpa)) = [8, 6, 0, 1, 8, 0, 6, 4]" for dst op sha spa tha tpa
    by (simp add: arp_bytes_def)
  then show "arp_typed h \<Longrightarrow> arp_typed (arp_reply my myIp m h)" "arp_typed h \<Longrightarrow> arp_typed (arp_request my myIp ip h)"
    using arp_reply_bytes arp_request_bytes by (simp_all add: arp_typed_def)
qed

subsection \<open>One thing at a time\<close>

text \<open>A process has something to do; the generator also when it clears its header.\<close>

fun arp_can :: "arp_proc \<Rightarrow> arp_st \<Rightarrow> bool" where
  "arp_can ProcessArp s \<longleftrightarrow> pagf_in (as_pag s) \<noteq> []"
| "arp_can GenerateArp s \<longleftrightarrow> gap_state (as_gap s) \<noteq> GAP_IDLE \<or> ph_clear (gap_header (as_gap s)) \<noteq> gap_header (as_gap s)
     \<or> gapf_reply (as_gap s) \<noteq> [] \<or> gapf_request (as_gap s) \<noteq> []"
| "arp_can ArpTable s \<longleftrightarrow> atf_insert (as_at s) \<noteq> [] \<or> atf_mac_req (as_at s) \<noteq> [] \<or> atf_host_req (as_at s) \<noteq> []"

definition arp_load :: "arp_st \<Rightarrow> nat" where
  "arp_load s = length (pagf_in (as_pag s)) + length (gapf_reply (as_gap s)) + length (gapf_request (as_gap s))
     + of_bool (gap_state (as_gap s) \<noteq> GAP_IDLE \<or> ph_clear (gap_header (as_gap s)) \<noteq> gap_header (as_gap s))
     + length (atf_insert (as_at s)) + length (atf_mac_req (as_at s)) + length (atf_host_req (as_at s))"

definition arp_single :: "arp_st \<Rightarrow> bool" where
  "arp_single s \<longleftrightarrow> arp_load s \<le> 1 \<and> pagf_reply (as_pag s) = [] \<and> pagf_insert (as_pag s) = [] \<and> atf_request (as_at s) = []"

lemma arp_one_can: "arp_single s \<Longrightarrow> p \<noteq> q \<Longrightarrow> \<not> (arp_can p s \<and> arp_can q s)"
  by (cases p; cases q) (auto simp: arp_single_def arp_load_def neq_Nil_conv split: if_splits)

lemma clear_clear [simp]: "ph_clear (ph_clear h) = ph_clear h"
  by (simp add: ph_clear_def)

lemma arp_act_idle: "arp_single s \<Longrightarrow> \<not> arp_can p s \<Longrightarrow> arp_act W c p s = s"
  by (cases p) (simp_all add: arp_act_def process_arp_pkg_def pag_deliver_def generate_arp_pkg_def gap_idle_def arp_table_def at_deliver_def
      arp_single_def Let_def)

lemma arp_single_act: "arp_single s \<Longrightarrow> arp_single (arp_act W c p s)"
proof (cases p)
  case ProcessArp
  assume "arp_single s"
  then show ?thesis using ProcessArp
    by (auto simp: arp_single_def arp_load_def arp_act_def pag_deliver_def process_arp_pkg_def pag_take_def Let_def neq_Nil_conv)
next
  case GenerateArp
  assume "arp_single s"
  then show ?thesis using GenerateArp
    by (cases "gap_state (as_gap s)") (auto simp: arp_single_def arp_load_def arp_act_def generate_arp_pkg_def gap_idle_def Let_def
        neq_Nil_conv split: prod.splits)
next
  case ArpTable
  assume "arp_single s"
  then show ?thesis using ArpTable
    by (auto simp: arp_single_def arp_load_def arp_act_def at_deliver_def arp_table_def at_ask_def Let_def neq_Nil_conv)
qed

interpretation ars: dataflow arp_single arp_can "arp_act W c" for W c
  by unfold_locales (use arp_single_act arp_act_idle arp_one_can in blast)+

subsection \<open>A frame goes out\<close>

lemma arp_frame_out:
  assumes "gap_state s = GAP_HEADER" and "ph_clear (gap_header s) = gap_header s" and "gapf_reply s = []" and "gapf_request s = []"
  shows "\<exists>w r. packet 64 [w] (header_bytes (ph_header (gap_header s)))
    \<and> (generate_arp_pkg 64 my myIp ^^ 2) s = s\<lparr>gap_remainingLength := r, gap_state := GAP_IDLE, gapf_out := gapf_out s @ [w]\<rparr>"
proof -
  define bs where "bs = header_bytes (ph_header (gap_header s))"
  have len: "length bs = 42" by (simp add: bs_def)
  define w where "w = set_keep (lenToKeep 42) \<lparr>ax_lanes = zip (bs @ replicate 22 0) (replicate 64 False), ax_last = True\<rparr>"
  have clear: "\<not> ph_ready (gap_header s)" "ph_idx (gap_header s) = 0" using assms(2) by (cases "gap_header s", simp add: ph_clear_def)+
  have u: "map fst (gap_word 64) = replicate 64 0" "map snd (gap_word 64) = replicate 64 False" "length (gap_word 64) = 64"
    by (simp_all add: gap_word_def map_replicate)
  have c: "consumeWord 64 (gap_word 64) (gap_header s) = (0, zip (bs @ replicate 22 0) (replicate 64 False), (gap_header s)\<lparr>ph_idx := 1\<rparr>)"
    using consume_rest[of 42 "gap_header s" 0 64 "gap_word 64"] clear u by (simp add: bs_def)
  have keep: "lenToKeep 42 = mask 42" by (simp add: lenToKeep_mask)
  define v where "v = \<lparr>ax_lanes = map (\<lambda>b. (b, True)) (bs @ replicate 22 0), ax_last = True\<rparr>"
  have "packet 64 [v] (bs @ replicate 22 0)" unfolding packet_single using len by (simp add: v_def)
  then have "packet 64 [(set_keep (mask 42) v)\<lparr>ax_last := True\<rparr>] (take 42 (bs @ replicate 22 0))"
    by (rule cut_first) (use len in simp_all)
  moreover have "(set_keep (mask 42) v)\<lparr>ax_last := True\<rparr> = w"
    unfolding w_def v_def set_keep_def keep using len
    by (simp add: list_eq_iff_nth_eq case_prod_unfold nth_enumerate_eq nth_append)
  ultimately have "packet 64 [w] bs" using len by simp
  moreover have "(ph_clear ((gap_header s)\<lparr>ph_idx := 1\<rparr>)) = gap_header s" using clear by (simp add: ph_clear_def)
  then have "(generate_arp_pkg 64 my myIp ^^ 2) s = s\<lparr>gap_remainingLength := 0, gap_state := GAP_IDLE, gapf_out := gapf_out s @ [w]\<rparr>"
    using assms by (simp add: numeral_2_eq_2 generate_arp_pkg_def c gap_idle_def Let_def w_def)
  ultimately show ?thesis by (auto simp: bs_def)
qed

subsection \<open>A field read from bytes\<close>

lemma header_bytes_get:
  fixes h :: "'h::len word"
  assumes "LENGTH('h) = 8 * n" and "LENGTH('b) = 8 * k" and "lo = 8 * m" and "hi + 1 = 8 * (m + k)" and "m + k \<le> n"
  shows "header_bytes (range_get hi lo h :: 'b::len word) = take k (drop m (header_bytes h))"
proof (rule nth_equalityI)
  show "length (header_bytes (range_get hi lo h :: 'b word)) = length (take k (drop m (header_bytes h)))" using assms by simp
  fix i assume "i < length (header_bytes (range_get hi lo h :: 'b word))"
  then have i: "i < k" using assms(2) by simp
  show "header_bytes (range_get hi lo h :: 'b word) ! i = take k (drop m (header_bytes h)) ! i"
  proof (rule bit_word_eqI)
    fix j :: nat assume "j < LENGTH(8)"
    then have j: "j < 8" by simp
    have "8 * i + j < LENGTH('b)" "8 * i + j \<le> hi - lo" "8 * i + j + lo < LENGTH('h)" "8 * i + j + lo = 8 * (m + i) + j"
      using i j assms by arith+
    then show "bit (header_bytes (range_get hi lo h :: 'b word) ! i) j = bit (take k (drop m (header_bytes h)) ! i) j"
      using i j assms(1,2,5) by (simp add: header_bytes_nth bit_simps bit_range_get algebra_simps)
  qed
qed

lemma arp_bytes_fields:
  assumes "header_bytes (h :: arp) = arp_bytes dst op sha spa tha tpa"
  shows "arp_getSrcMacAddr h = sha" "arp_getSenderHwAddr h = sha" "arp_getSenderProtoAddr h = spa" "arp_getTargetProtoAddr h = tpa"
    "arp_isRequest h \<longleftrightarrow> op = 1" "arp_isReply h \<longleftrightarrow> op = 2"
proof -
  note get = header_bytes_get[where 'h = 336 and n = 42 and h = h]
  have "header_bytes (arp_getSrcMacAddr h) = header_bytes sha" "header_bytes (arp_getSenderHwAddr h) = header_bytes sha"
    unfolding arp_get
    by (subst get[where k = 6 and m = 6], simp_all add: assms arp_bytes_def) (subst get[where k = 6 and m = 22], simp_all add: assms arp_bytes_def)
  then show "arp_getSrcMacAddr h = sha" "arp_getSenderHwAddr h = sha" by (auto intro: header_bytes_inj[of 6])
  have "header_bytes (arp_getSenderProtoAddr h) = header_bytes spa" "header_bytes (arp_getTargetProtoAddr h) = header_bytes tpa"
    unfolding arp_get
    by (subst get[where k = 4 and m = 28], simp_all add: assms arp_bytes_def) (subst get[where k = 4 and m = 38], simp_all add: assms arp_bytes_def)
  then show "arp_getSenderProtoAddr h = spa" "arp_getTargetProtoAddr h = tpa" by (auto intro: header_bytes_inj[of 4])
  have op: "header_bytes (range_get 175 160 h :: u16) = [0, op]"
    by (subst get[where k = 2 and m = 20]) (simp_all add: assms arp_bytes_def)
  have "range_get 175 160 h = p \<longleftrightarrow> header_bytes (range_get 175 160 h :: u16) = header_bytes p" for p :: u16
    by (auto intro: header_bytes_inj[of 2])
  then show "arp_isRequest h \<longleftrightarrow> op = 1" "arp_isReply h \<longleftrightarrow> op = 2" by (simp_all add: arp_get op op_bytes)
qed

subsection \<open>A question and a frame\<close>

definition arp_rest :: "arp_st \<Rightarrow> bool" where
  "arp_rest s \<longleftrightarrow> arp_single s \<and> arp_load s = 0 \<and> arp_typed (ph_header (gap_header (as_gap s)))
     \<and> \<not> ph_ready (pag_header (as_pag s)) \<and> ph_idx (pag_header (as_pag s)) = 0"

lemma arp_rested: "arp_rest s \<longleftrightarrow> pagf_in (as_pag s) = [] \<and> gapf_reply (as_gap s) = [] \<and> gapf_request (as_gap s) = []
     \<and> gap_state (as_gap s) = GAP_IDLE \<and> ph_clear (gap_header (as_gap s)) = gap_header (as_gap s)
     \<and> atf_insert (as_at s) = [] \<and> atf_mac_req (as_at s) = [] \<and> atf_host_req (as_at s) = []
     \<and> pagf_reply (as_pag s) = [] \<and> pagf_insert (as_pag s) = [] \<and> atf_request (as_at s) = []
     \<and> arp_typed (ph_header (gap_header (as_gap s))) \<and> \<not> ph_ready (pag_header (as_pag s)) \<and> ph_idx (pag_header (as_pag s)) = 0"
  by (auto simp: arp_rest_def arp_single_def arp_load_def)

lemma arp_rest_quiet: "arp_rest s \<Longrightarrow> ars.quiet s"
  unfolding ars.quiet_def by (rule allI, case_tac p) (simp_all add: arp_rested)

text \<open>What is sent: a frame with these bytes, or nothing.\<close>

definition arp_sent :: "byte list option \<Rightarrow> arp_st \<Rightarrow> arp_st \<Rightarrow> bool" where
  "arp_sent bs s t \<longleftrightarrow> (case bs of None \<Rightarrow> gapf_out (as_gap t) = gapf_out (as_gap s)
     | Some b \<Rightarrow> \<exists>w. gapf_out (as_gap t) = gapf_out (as_gap s) @ [w] \<and> packet 64 [w] b)"

text \<open>The generator sends what is asked of it when nothing else waits.\<close>

definition gap_asked :: "arp_cfg \<Rightarrow> arp_st \<Rightarrow> byte list \<Rightarrow> arp_st \<Rightarrow> bool" where
  "gap_asked c s b t \<longleftrightarrow> (\<exists>m. b = arp_bytes (arm_srcMacAddr m) 2 (arc_mac c) (arc_ip c) (arm_senderHwAddr m) (arm_senderProtoAddr m)
       \<and> t = s\<lparr>as_gap := (as_gap s)\<lparr>gapf_reply := [m]\<rparr>\<rparr>)
     \<or> (\<exists>ip. b = arp_bytes BROADCAST_MAC 1 (arc_mac c) (arc_ip c) 0 ip \<and> t = s\<lparr>as_gap := (as_gap s)\<lparr>gapf_request := [ip]\<rparr>\<rparr>)"

lemma gap_sends:
  assumes "arp_rest s" and "gap_asked c s b t"
  shows "\<exists>u. (arp_act 64 c GenerateArp ^^ 3) t = u \<and> arp_rest u \<and> as_at u = as_at s \<and> arp_sent (Some b) s u"
proof -
  let ?g = "generate_arp_pkg 64 (arc_mac c) (arc_ip c)"
  have act: "(arp_act 64 c GenerateArp ^^ k) x = x\<lparr>as_gap := (?g ^^ k) (as_gap x)\<rparr>" for k x
    by (induction k) (simp_all add: arp_act_def)
  have rest: "gap_state (as_gap s) = GAP_IDLE" "ph_clear (gap_header (as_gap s)) = gap_header (as_gap s)" "gapf_reply (as_gap s) = []"
    "gapf_request (as_gap s) = []" "arp_typed (ph_header (gap_header (as_gap s)))" using assms(1) by (simp_all add: arp_rested)
  have hold: "ph_clear ((gap_header (as_gap s))\<lparr>ph_header := x\<rparr>) = (gap_header (as_gap s))\<lparr>ph_header := x\<rparr>" for x
    using rest(2) by (cases "gap_header (as_gap s)") (simp add: ph_clear_def)
  have "\<exists>x. ?g (as_gap t) = x \<and> gap_state x = GAP_HEADER \<and> ph_clear (gap_header x) = gap_header x \<and> gapf_reply x = [] \<and> gapf_request x = []
      \<and> header_bytes (ph_header (gap_header x)) = b \<and> arp_typed (ph_header (gap_header x)) \<and> gapf_out x = gapf_out (as_gap s)"
    using assms(2) rest arp_reply_bytes[OF rest(5)] arp_request_bytes[OF rest(5)] arp_typed_kept[OF rest(5)]
    by (auto simp: gap_asked_def generate_arp_pkg_def gap_idle_def Let_def hold)
  then obtain x where x: "?g (as_gap t) = x" "gap_state x = GAP_HEADER" "ph_clear (gap_header x) = gap_header x" "gapf_reply x = []"
    "gapf_request x = []" "header_bytes (ph_header (gap_header x)) = b" "arp_typed (ph_header (gap_header x))" "gapf_out x = gapf_out (as_gap s)"
    by blast
  obtain w r where w: "packet 64 [w] b" "(?g ^^ 2) x = x\<lparr>gap_remainingLength := r, gap_state := GAP_IDLE, gapf_out := gapf_out x @ [w]\<rparr>"
    using arp_frame_out[OF x(2-5)] x(6) by blast
  have "(?g ^^ 3) (as_gap t) = x\<lparr>gap_remainingLength := r, gap_state := GAP_IDLE, gapf_out := gapf_out x @ [w]\<rparr>"
    using x(1) w(2) by (simp add: numeral_3_eq_3 numeral_2_eq_2)
  then show ?thesis
    using assms x w(1) unfolding act by (auto simp: arp_rested arp_sent_def gap_asked_def)
qed

text \<open>A question of the encoder, and a frame.\<close>

definition arp_looked_up :: "arp_cfg \<Rightarrow> u32 \<Rightarrow> arp_st \<Rightarrow> arp_st \<Rightarrow> bool" where
  "arp_looked_up c ip s t \<longleftrightarrow> arp_rest t \<and> at_arpTable (as_at t) = at_arpTable (as_at s) \<and> atf_host_rsp (as_at t) = atf_host_rsp (as_at s)
     \<and> atf_mac_rsp (as_at t) = atf_mac_rsp (as_at s) @ [at_reply (at_arpTable (as_at s) (arp_index ip))]
     \<and> arp_sent (if ate_valid (at_arpTable (as_at s) (arp_index ip)) then None
          else Some (arp_bytes BROADCAST_MAC 1 (arc_mac c) (arc_ip c) 0 ip)) s t"

definition arp_received :: "arp_cfg \<Rightarrow> byte list \<Rightarrow> arp_st \<Rightarrow> arp_st \<Rightarrow> bool" where
  "arp_received c bs s t \<longleftrightarrow> arp_rest t \<and> atf_mac_rsp (as_at t) = atf_mac_rsp (as_at s) \<and> atf_host_rsp (as_at t) = atf_host_rsp (as_at s)
     \<and> (\<forall>h :: arp. header_bytes h = take 42 bs \<longrightarrow>
          arp_sent (if arp_getTargetProtoAddr h = arc_ip c \<and> arp_isRequest h
               then Some (arp_bytes (arp_getSrcMacAddr h) 2 (arc_mac c) (arc_ip c) (arp_getSenderHwAddr h) (arp_getSenderProtoAddr h))
               else None) s t
          \<and> at_arpTable (as_at t) = (if arp_getTargetProtoAddr h = arc_ip c \<and> \<not> arp_isRequest h \<and> arp_isReply h
               then (at_arpTable (as_at s))(arp_index (arp_getSenderProtoAddr h) :=
                 \<lparr>ate_ipAddress = arp_getSenderProtoAddr h, ate_macAddress = arp_getSenderHwAddr h, ate_valid = True\<rparr>)
               else at_arpTable (as_at s)))"

lemma lookup_run:
  assumes "arp_rest s"
  shows "\<exists>ps. arp_looked_up c ip s (fold (arp_act 64 c) ps (arp_mac_in ip s))"
proof -
  have req: "atf_insert (as_at s) = []" "atf_mac_req (as_at s) = []" "atf_request (as_at s) = []" "gapf_request (as_gap s) = []"
    using assms by (simp_all add: arp_rested)
  define t where "t = s\<lparr>as_at := (as_at s)\<lparr>atf_mac_rsp := atf_mac_rsp (as_at s) @ [at_reply (at_arpTable (as_at s) (arp_index ip))]\<rparr>\<rparr>"
  have t: "arp_rest t" using assms by (simp add: t_def arp_rested)
  show ?thesis
  proof (cases "ate_valid (at_arpTable (as_at s) (arp_index ip))")
    case True
    then have "arp_act 64 c ArpTable (arp_mac_in ip s) = t"
      using req by (simp add: arp_act_def arp_mac_in_def arp_table_def at_ask_def at_deliver_def Let_def t_def)
    then have "arp_looked_up c ip s (fold (arp_act 64 c) [ArpTable] (arp_mac_in ip s))"
      using t True by (simp add: arp_looked_up_def arp_sent_def) (simp add: t_def)
    then show ?thesis by blast
  next
    case False
    then have "arp_act 64 c ArpTable (arp_mac_in ip s) = t\<lparr>as_gap := (as_gap t)\<lparr>gapf_request := [ip]\<rparr>\<rparr>"
      using req by (simp add: arp_act_def arp_mac_in_def arp_table_def at_ask_def at_deliver_def Let_def t_def)
    moreover have "gap_asked c t (arp_bytes BROADCAST_MAC 1 (arc_mac c) (arc_ip c) 0 ip) (t\<lparr>as_gap := (as_gap t)\<lparr>gapf_request := [ip]\<rparr>\<rparr>)"
      by (auto simp: gap_asked_def)
    from gap_sends[OF t this] have "arp_looked_up c ip s ((arp_act 64 c GenerateArp ^^ 3) (t\<lparr>as_gap := (as_gap t)\<lparr>gapf_request := [ip]\<rparr>\<rparr>))"
      using False by (auto simp: arp_looked_up_def arp_sent_def t_def)
    ultimately have "arp_looked_up c ip s (fold (arp_act 64 c) (ArpTable # replicate 3 GenerateArp) (arp_mac_in ip s))"
      by (simp add: run_replicate del: replicate.simps)
    then show ?thesis by blast
  qed
qed

lemma frame_run:
  assumes "arp_rest s" and "packet 64 [w] bs" and "42 \<le> length bs"
  shows "\<exists>ps. arp_received c bs s (fold (arp_act 64 c) ps (arp_frame_in [w] s))"
proof -
  let ?h = "parseWord 64 (ax_lanes w) (pag_header (as_pag s))"
  have rest: "pagf_in (as_pag s) = []" "pagf_reply (as_pag s) = []" "pagf_insert (as_pag s) = []" "\<not> ph_ready (pag_header (as_pag s))"
    "ph_idx (pag_header (as_pag s)) = 0" "atf_insert (as_at s) = []" "gapf_reply (as_gap s) = []"
    using assms(1) by (simp_all add: arp_rested)
  have last: "ax_last w" using assms(2) packet_single by blast
  have hb: "header_bytes (ph_header ?h) = take 42 bs"
    using parse_packet[OF _ _ _ _ assms(2), of 42 "pag_header (as_pag s)"] assms(3) rest by simp
  have the_h: "h = ph_header ?h" if "header_bytes h = take 42 bs" for h :: arp
    by (rule header_bytes_inj[of 42]) (use that hb in simp_all)
  define x where "x = ph_header ?h"
  define t where "t = s\<lparr>as_pag := pag_take (arc_ip c) x ((as_pag s)\<lparr>pag_header := ph_clear ?h\<rparr>)\<lparr>pagf_reply := [], pagf_insert := []\<rparr>\<rparr>"
  have t: "arp_rest t" using assms(1) by (simp add: t_def arp_rested pag_take_def ph_clear_def)
  have step: "arp_act 64 c ProcessArp (arp_frame_in [w] s) = pag_deliver (pag_take (arc_ip c) x ((as_pag s)\<lparr>pag_header := ph_clear ?h\<rparr>)) s"
    using rest last by (simp add: arp_act_def arp_frame_in_def process_arp_pkg_def Let_def x_def pag_take_def pag_deliver_def)
  consider (ask) "arp_getTargetProtoAddr x = arc_ip c" "arp_isRequest x"
    | (tell) "arp_getTargetProtoAddr x = arc_ip c" "\<not> arp_isRequest x" "arp_isReply x"
    | (other) "\<not> (arp_getTargetProtoAddr x = arc_ip c \<and> (arp_isRequest x \<or> arp_isReply x))" by blast
  then show ?thesis
  proof cases
    case ask
    let ?m = "\<lparr>arm_srcMacAddr = arp_getSrcMacAddr x, arm_senderHwAddr = arp_getSenderHwAddr x, arm_senderProtoAddr = arp_getSenderProtoAddr x\<rparr>"
    let ?b = "arp_bytes (arp_getSrcMacAddr x) 2 (arc_mac c) (arc_ip c) (arp_getSenderHwAddr x) (arp_getSenderProtoAddr x)"
    let ?u = "t\<lparr>as_gap := (as_gap t)\<lparr>gapf_reply := [?m]\<rparr>\<rparr>"
    have "arp_act 64 c ProcessArp (arp_frame_in [w] s) = ?u"
      unfolding step using ask rest by (simp add: pag_deliver_def t_def pag_take_def)
    moreover have "gap_asked c t ?b ?u" by (force simp: gap_asked_def)
    from gap_sends[OF t this] have "arp_received c bs s ((arp_act 64 c GenerateArp ^^ 3) ?u)"
      using ask by (auto simp: arp_received_def arp_sent_def t_def dest!: the_h simp flip: x_def)
    ultimately have "arp_received c bs s (fold (arp_act 64 c) (ProcessArp # replicate 3 GenerateArp) (arp_frame_in [w] s))"
      by (simp add: run_replicate del: replicate.simps)
    then show ?thesis by blast
  next
    case tell
    let ?e = "\<lparr>ate_ipAddress = arp_getSenderProtoAddr x, ate_macAddress = arp_getSenderHwAddr x, ate_valid = True\<rparr>"
    let ?u = "t\<lparr>as_at := (as_at t)\<lparr>at_arpTable := (at_arpTable (as_at t))(arp_index (arp_getSenderProtoAddr x) := ?e)\<rparr>\<rparr>"
    have "arp_act 64 c ArpTable (arp_act 64 c ProcessArp (arp_frame_in [w] s)) = ?u"
      unfolding step using tell rest t
      by (simp add: pag_deliver_def t_def pag_take_def arp_act_def arp_table_def at_deliver_def Let_def arp_rested)
    moreover have "arp_received c bs s ?u"
      using tell t by (auto simp: arp_received_def arp_sent_def arp_rested t_def dest!: the_h simp flip: x_def)
    ultimately have "arp_received c bs s (fold (arp_act 64 c) [ProcessArp, ArpTable] (arp_frame_in [w] s))" by simp
    then show ?thesis by blast
  next
    case other
    have "arp_act 64 c ProcessArp (arp_frame_in [w] s) = t"
      unfolding step using other rest by (auto simp: pag_deliver_def t_def pag_take_def)
    moreover have "arp_received c bs s t"
      using other t by (auto simp: arp_received_def arp_sent_def arp_rested t_def dest!: the_h simp flip: x_def)
    ultimately have "arp_received c bs s (fold (arp_act 64 c) [ProcessArp] (arp_frame_in [w] s))" by simp
    then show ?thesis by blast
  qed
qed

subsection \<open>For all schedules\<close>

definition arp_run :: "arp_cfg \<Rightarrow> arp_proc list list \<Rightarrow> arp_st \<Rightarrow> arp_st" where
  "arp_run c rounds = fold (arp_act 64 c) (concat rounds)"

lemma arp_calls: "(arp_server_subnet 64 c ^^ k) s = arp_run c (replicate k [ProcessArp, GenerateArp, ArpTable]) s"
  unfolding arp_server_subnet_def arp_run_def by (rule calls_as_rounds)

lemma arp_calls_fair: "fair (replicate k [ProcessArp, GenerateArp, ArpTable])"
  by (intro calls_fair allI, case_tac p) simp_all

lemma lookup_settles:
  assumes "arp_rest s"
  shows "\<exists>k t. arp_looked_up c ip s t \<and> (\<forall>rounds. fair rounds \<longrightarrow> k \<le> length rounds \<longrightarrow> arp_run c rounds (arp_mac_in ip s) = t)"
proof -
  obtain ps where ps: "arp_looked_up c ip s (fold (arp_act 64 c) ps (arp_mac_in ip s))" using lookup_run[OF assms] by blast
  have "arp_single (arp_mac_in ip s)" using assms by (auto simp: arp_rest_def arp_single_def arp_load_def arp_mac_in_def)
  moreover have "ars.quiet (fold (arp_act 64 c) ps (arp_mac_in ip s))" using ps by (intro arp_rest_quiet) (simp add: arp_looked_up_def)
  ultimately show ?thesis using ars.all_schedules_agree ps unfolding arp_run_def by blast
qed

lemma frame_settles:
  assumes "arp_rest s" and "packet 64 [w] bs" and "42 \<le> length bs"
  shows "\<exists>k t. arp_received c bs s t \<and> (\<forall>rounds. fair rounds \<longrightarrow> k \<le> length rounds \<longrightarrow> arp_run c rounds (arp_frame_in [w] s) = t)"
proof -
  obtain ps where ps: "arp_received c bs s (fold (arp_act 64 c) ps (arp_frame_in [w] s))" using frame_run[OF assms] by blast
  have "arp_single (arp_frame_in [w] s)" using assms(1) by (auto simp: arp_rest_def arp_single_def arp_load_def arp_frame_in_def)
  moreover have "ars.quiet (fold (arp_act 64 c) ps (arp_frame_in [w] s))" using ps by (intro arp_rest_quiet) (simp add: arp_received_def)
  ultimately show ?thesis using ars.all_schedules_agree ps unfolding arp_run_def by blast
qed

text \<open>What a server does with the frames of another.\<close>

lemma arp_header_ex: "42 \<le> length bs \<Longrightarrow> \<exists>h :: arp. header_bytes h = take 42 bs"
  using header_word[of 42 bs, where 'h = 336] by auto

lemma received_frame:
  assumes "arp_received c (arp_bytes dst op sha spa tha tpa) s t"
  shows "arp_sent (if tpa = arc_ip c \<and> op = 1 then Some (arp_bytes sha 2 (arc_mac c) (arc_ip c) sha spa) else None) s t"
    and "at_arpTable (as_at t) = (if tpa = arc_ip c \<and> op = 2
       then (at_arpTable (as_at s))(arp_index spa := \<lparr>ate_ipAddress = spa, ate_macAddress = sha, ate_valid = True\<rparr>) else at_arpTable (as_at s))"
proof -
  let ?b = "arp_bytes dst op sha spa tha tpa"
  have len: "length ?b = 42" by (simp add: arp_bytes_def)
  obtain h :: arp where h: "header_bytes h = ?b" using arp_header_ex[of ?b] len by auto
  note f = arp_bytes_fields[OF h]
  have "header_bytes h = take 42 ?b" using h len by simp
  then show "arp_sent (if tpa = arc_ip c \<and> op = 1 then Some (arp_bytes sha 2 (arc_mac c) (arc_ip c) sha spa) else None) s t"
    "at_arpTable (as_at t) = (if tpa = arc_ip c \<and> op = 2
       then (at_arpTable (as_at s))(arp_index spa := \<lparr>ate_ipAddress = spa, ate_macAddress = sha, ate_valid = True\<rparr>) else at_arpTable (as_at s))"
    using assms unfolding arp_received_def by (auto simp: f)
qed

subsection \<open>What the server promises\<close>

text \<open>C36. What the ARP server may answer: whatever the order in which frames, questions of the encoder and of the user, and steps of the three
  processes come after reset, the answers follow the questions in order, and each one that carries a hardware address carries the one that an
  ARP reply to this board named, in a frame that had come in by then, for an address with the same last octet as the one that was asked for.\<close>

theorem arp_hits_learned:
  assumes "arp_reset s" and "0 < W" and "\<forall>e \<in> set es. arp_frame_ok W e" and "t = fold (arp_exec W c) es s"
  shows "answered W (arc_ip c) es (mac_asked es) (atf_mac_req (as_at t)) (atf_mac_rsp (as_at t))
    \<and> answered W (arc_ip c) es (host_asked es) (atf_host_req (as_at t)) (atf_host_rsp (as_at t))"
proof -
  have "arp_log_inv W (arc_ip c) (fold (arp_log_step W c) es ([], s))"
    using arp_log.inv_run[of W c "([], s)" es] reset_inv[OF assms(1)] assms(2,3) by blast
  then show ?thesis by (simp add: log_run arp_log_inv_def assms(4))
qed

text \<open>C37. How an address is resolved: when board A is asked for the hardware address of board B and has no entry for it, it says so and
  broadcasts an ARP request; B answers it with a reply to A, and does not change its own table; A takes the address of B from the
  reply into its table and sends nothing; asked once more, it answers with the hardware address of B and sends nothing. The frames are
  those of RFC 826, byte for byte, and this holds however the processes of the two boards are scheduled.\<close>

theorem arp_resolves:
  assumes "arp_rest a" and "arp_rest b" and "gapf_out (as_gap a) = []" and "gapf_out (as_gap b) = []"
    and "\<not> ate_valid (at_arpTable (as_at a) (arp_index (arc_ip cb)))"
  shows "\<exists>k. \<forall>r1 r2 r3 r4. (\<forall>r \<in> {r1, r2, r3, r4}. fair r \<and> k \<le> length r) \<longrightarrow>
    (let a1 = arp_run ca r1 (arp_mac_in (arc_ip cb) a); b1 = arp_run cb r2 (arp_frame_in (gapf_out (as_gap a1)) b);
         a2 = arp_run ca r3 (arp_frame_in (gapf_out (as_gap b1)) a1); a3 = arp_run ca r4 (arp_mac_in (arc_ip cb) a2) in
     packet 64 (gapf_out (as_gap a1)) (arp_bytes BROADCAST_MAC 1 (arc_mac ca) (arc_ip ca) 0 (arc_ip cb))
     \<and> packet 64 (gapf_out (as_gap b1)) (arp_bytes (arc_mac ca) 2 (arc_mac cb) (arc_ip cb) (arc_mac ca) (arc_ip ca))
     \<and> at_arpTable (as_at b1) = at_arpTable (as_at b)
     \<and> at_arpTable (as_at a3) = (at_arpTable (as_at a))(arp_index (arc_ip cb) :=
          \<lparr>ate_ipAddress = arc_ip cb, ate_macAddress = arc_mac cb, ate_valid = True\<rparr>)
     \<and> map atr_hit (atf_mac_rsp (as_at a3)) = map atr_hit (atf_mac_rsp (as_at a)) @ [False, True]
     \<and> last (atf_mac_rsp (as_at a3)) = \<lparr>atr_macAddress = arc_mac cb, atr_hit = True\<rparr>
     \<and> gapf_out (as_gap a3) = gapf_out (as_gap a1))"
proof -
  let ?q = "arp_bytes BROADCAST_MAC 1 (arc_mac ca) (arc_ip ca) 0 (arc_ip cb)"
  let ?p = "arp_bytes (arc_mac ca) 2 (arc_mac cb) (arc_ip cb) (arc_mac ca) (arc_ip ca)"
  have len: "42 \<le> length ?q" "42 \<le> length ?p" by (simp_all add: arp_bytes_def)
  obtain k1 a1 where a1: "arp_looked_up ca (arc_ip cb) a a1"
    "\<And>r. fair r \<Longrightarrow> k1 \<le> length r \<Longrightarrow> arp_run ca r (arp_mac_in (arc_ip cb) a) = a1" using lookup_settles[OF assms(1)] by blast
  obtain w where w: "gapf_out (as_gap a1) = [w]" "packet 64 [w] ?q" using a1(1) assms(3,5) by (auto simp: arp_looked_up_def arp_sent_def)
  obtain k2 b1 where b1: "arp_received cb ?q b b1" "\<And>r. fair r \<Longrightarrow> k2 \<le> length r \<Longrightarrow> arp_run cb r (arp_frame_in [w] b) = b1"
    using frame_settles[OF assms(2) w(2) len(1), of cb] by blast
  obtain v where v: "gapf_out (as_gap b1) = [v]" "packet 64 [v] ?p" using received_frame(1)[OF b1(1)] assms(4) by (auto simp: arp_sent_def)
  have a1_rest: "arp_rest a1" using a1(1) by (simp add: arp_looked_up_def)
  obtain k3 a2 where a2: "arp_received ca ?p a1 a2" "\<And>r. fair r \<Longrightarrow> k3 \<le> length r \<Longrightarrow> arp_run ca r (arp_frame_in [v] a1) = a2"
    using frame_settles[OF a1_rest v(2) len(2), of ca] by blast
  have a2_rest: "arp_rest a2" using a2(1) by (simp add: arp_received_def)
  obtain k4 a3 where a3: "arp_looked_up ca (arc_ip cb) a2 a3"
    "\<And>r. fair r \<Longrightarrow> k4 \<le> length r \<Longrightarrow> arp_run ca r (arp_mac_in (arc_ip cb) a2) = a3" using lookup_settles[OF a2_rest] by blast
  note f = received_frame[OF b1(1)] received_frame[OF a2(1)]
  have tab: "at_arpTable (as_at b1) = at_arpTable (as_at b)" "at_arpTable (as_at a2) = (at_arpTable (as_at a))(arp_index (arc_ip cb) :=
      \<lparr>ate_ipAddress = arc_ip cb, ate_macAddress = arc_mac cb, ate_valid = True\<rparr>)" "at_arpTable (as_at a3) = at_arpTable (as_at a2)"
    using f(2,4) a1(1) a3(1) by (simp_all add: arp_looked_up_def)
  have rsp: "atf_mac_rsp (as_at a3) = atf_mac_rsp (as_at a) @ [at_reply (at_arpTable (as_at a) (arp_index (arc_ip cb))),
      \<lparr>atr_macAddress = arc_mac cb, atr_hit = True\<rparr>]"
    using a1(1) a2(1) a3(1) tab(2) by (simp add: arp_looked_up_def arp_received_def at_reply_def)
  have out: "gapf_out (as_gap a3) = gapf_out (as_gap a1)" using f(3) a3(1) tab(2) by (simp add: arp_looked_up_def arp_sent_def)
  show ?thesis
    by (intro exI[of _ "max (max k1 k2) (max k3 k4)"] allI impI)
      (simp add: Let_def a1(2) b1(2) a2(2) a3(2) w v tab rsp out assms(5) at_reply_def)
qed

subsection \<open>Examples\<close>

text \<open>The server after reset: the constructor has filled the header of the generator in.\<close>

definition arp_demo :: arp_st where
  "arp_demo = \<lparr>as_pag = \<lparr>pag_header = \<lparr>ph_ready = False, ph_idx = 0, ph_header = arp_init 0\<rparr>, pag_requestCounter = 0, pag_replyCounter = 0,
       pag_regRequestCount = 0, pag_regReplyCount = 0, pagf_in = [], pagf_reply = [], pagf_insert = []\<rparr>,
     as_gap = \<lparr>gap_state = GAP_IDLE, gap_header = \<lparr>ph_ready = False, ph_idx = 0, ph_header = arp_init 0\<rparr>,
       gap_replyMeta = \<lparr>arm_srcMacAddr = 0, arm_senderHwAddr = 0, arm_senderProtoAddr = 0\<rparr>, gap_inputIP = 0, gap_remainingLength = 0,
       gapf_reply = [], gapf_request = [], gapf_out = []\<rparr>,
     as_at = \<lparr>at_arpTable = (\<lambda>_. \<lparr>ate_ipAddress = 0, ate_macAddress = 0, ate_valid = False\<rparr>), atf_insert = [], atf_mac_req = [],
       atf_host_req = [], atf_mac_rsp = [], atf_host_rsp = [], atf_request = []\<rparr>\<rparr>"

lemma arp_demo_fresh: "arp_reset arp_demo" "arp_rest arp_demo" "gapf_out (as_gap arp_demo) = []"
  "\<not> ate_valid (at_arpTable (as_at arp_demo) j)"
proof -
  have "arp_typed (arp_init 0)" by (rule arp_init_typed) simp
  then show "arp_reset arp_demo" "arp_rest arp_demo" "gapf_out (as_gap arp_demo) = []" "\<not> ate_valid (at_arpTable (as_at arp_demo) j)"
    by (simp_all add: arp_reset_def arp_rested arp_demo_def ph_clear_def)
qed

theorem arp_hits_learned_witness:
  "let es = [Lookup_Mac 0x0200000A, Arp_Frame (words_of_bytes 64 (arp_bytes 1 2 5 0x0200000A 1 0x0100000A)), Arp_Step ArpTable,
       Arp_Step ProcessArp, Lookup_Host 0x0200000A, Arp_Step ArpTable, Arp_Step ArpTable];
     t = fold (arp_exec 64 \<lparr>arc_mac = 1, arc_ip = 0x0100000A\<rparr>) es arp_demo in
   answered 64 0x0100000A es [0x0200000A] (atf_mac_req (as_at t)) (atf_mac_rsp (as_at t))
     \<and> answered 64 0x0100000A es [0x0200000A] (atf_host_req (as_at t)) (atf_host_rsp (as_at t))"
proof -
  let ?b = "arp_bytes 1 2 5 0x0200000A 1 0x0100000A"
  let ?es = "[Lookup_Mac 0x0200000A, Arp_Frame (words_of_bytes 64 ?b), Arp_Step ArpTable, Arp_Step ProcessArp, Lookup_Host 0x0200000A,
     Arp_Step ArpTable, Arp_Step ArpTable]"
  have len: "length ?b = 42" by (simp add: arp_bytes_def)
  then have "packet 64 (words_of_bytes 64 ?b) ?b" by (intro words_of_bytes_packet) auto
  then have ok: "\<forall>e \<in> set ?es. arp_frame_ok 64 e" using len by (auto simp: arp_frame_ok_def)
  have asked: "mac_asked ?es = [0x0200000A]" "host_asked ?es = [0x0200000A]" by (simp_all add: mac_asked_def host_asked_def)
  show ?thesis
    using arp_hits_learned[OF arp_demo_fresh(1) _ ok refl, where c = "\<lparr>arc_mac = 1, arc_ip = 0x0100000A\<rparr>"]
    unfolding asked Let_def by (simp del: fold.simps)
qed

lemma bound_mono:
  assumes "\<exists>k. \<forall>a b c d. P k a b c d \<longrightarrow> Q a b c d" and "\<And>a b c d. Q a b c d \<Longrightarrow> Q' a b c d"
  shows "\<exists>k. \<forall>a b c d. P k a b c d \<longrightarrow> Q' a b c d"
  using assms by blast

theorem arp_resolves_witness:
  "\<exists>k. \<forall>r1 r2 r3 r4. (\<forall>r \<in> {r1, r2, r3, r4}. fair r \<and> k \<le> length r) \<longrightarrow>
    (let ca = \<lparr>arc_mac = 3, arc_ip = 0x0100000A\<rparr>; cb = \<lparr>arc_mac = 5, arc_ip = 0x0200000A\<rparr>;
         a1 = arp_run ca r1 (arp_mac_in 0x0200000A arp_demo); b1 = arp_run cb r2 (arp_frame_in (gapf_out (as_gap a1)) arp_demo);
         a2 = arp_run ca r3 (arp_frame_in (gapf_out (as_gap b1)) a1); a3 = arp_run ca r4 (arp_mac_in 0x0200000A a2) in
     map atr_hit (atf_mac_rsp (as_at a3)) = [False, True] \<and> last (atf_mac_rsp (as_at a3)) = \<lparr>atr_macAddress = 5, atr_hit = True\<rparr>)"
proof -
  let ?ca = "\<lparr>arc_mac = 3, arc_ip = 0x0100000A\<rparr>" and ?cb = "\<lparr>arc_mac = 5, arc_ip = 0x0200000A\<rparr>"
  have rsp: "atf_mac_rsp (as_at arp_demo) = []" by (simp add: arp_demo_def)
  show ?thesis
    by (rule bound_mono[OF arp_resolves[OF arp_demo_fresh(2) arp_demo_fresh(2) arp_demo_fresh(3) arp_demo_fresh(3) arp_demo_fresh(4),
        where ca = ?ca and cb = ?cb]]) (simp add: Let_def rsp)
qed

end
