(* ===== verification/Icmp.thy ===== *)
theory Icmp
  imports Checksum Dataflow
begin

text \<open>
  The ICMP server (\<^verbatim>\<open>icmp_server/icmp_server.cpp\<close>), on a stream of 64 bits: it answers echo requests and makes messages of packets
  that could not be delivered. The five processes and the server as the network of them. \<^verbatim>\<open>data\<close> alone, without \<^verbatim>\<open>keep\<close>, is the list of
  its eight bytes, lowest first. Whether a stream is full is an argument of the processes that ask.
\<close>

definition ECHO_REQUEST :: byte where "ECHO_REQUEST = 8"
definition ECHO_REPLY :: byte where "ECHO_REPLY = 0"

text \<open>The bits \<open>16 * i + 15\<close> to \<open>16 * i\<close> of \<^verbatim>\<open>data\<close>, and bytes with \<^verbatim>\<open>keep\<close> all set.\<close>

definition data16 :: "nat \<Rightarrow> byte list \<Rightarrow> u16" where
  "data16 i d = word_rcat [d ! (2 * i + 1), d ! (2 * i)]"

definition kept :: "byte list \<Rightarrow> lane list" where
  "kept = map (\<lambda>b. (b, True))"

abbreviation ax_data :: "net_axis \<Rightarrow> byte list" where
  "ax_data w \<equiv> map fst (ax_lanes w)"

subsection \<open>Echo requests\<close>

record cic_st =
  cic_sums :: subSums
  cic_wordCount :: u16
  cic_prevWord :: net_axis
  cic_writeLastOne :: bool
  cic_computeCs :: bool
  cic_state :: "2 word"
  cic_icmpChecksum :: "17 word"
  cic_icmpType :: byte
  cic_icmpCode :: byte
  cicf_in :: "net_axis fifo"
  cicf_out :: "net_axis fifo"
  cicf_valid :: "bool fifo"
  cicf_checksum :: "u16 fifo"

text \<open>The third word of a packet holds the address of the receiver and the first half of the ICMP header.\<close>

definition cic_third :: "net_axis \<Rightarrow> cic_st \<Rightarrow> cic_st" where
  "cic_third w s =
    (let p = ax_lanes (cic_prevWord s); l = ax_lanes w in
     s\<lparr>cic_icmpType := fst (l ! 4), cic_icmpCode := fst (l ! 5),
       cic_icmpChecksum := 0x10000 OR ucast (data16 3 (ax_data w)),
       cicf_out := cicf_out s @ [\<lparr>ax_lanes = kept (map fst (take 4 p) @ map fst (take 4 l)), ax_last = False\<rparr>],
       cic_sums := take 2 (cic_sums s) @ add_lanes (kept (map fst (drop 4 l))) (drop 2 (cic_sums s)),
       cic_prevWord := w\<lparr>ax_lanes := zip (map fst (drop 4 p) @ ECHO_REPLY # map fst (drop 5 l)) (map snd l)\<rparr>\<rparr>)"

definition cic_word :: "net_axis \<Rightarrow> cic_st \<Rightarrow> cic_st" where
  "cic_word w s =
    (let s = (if cic_wordCount s = 0 then s\<lparr>cic_sums := [0, 0, 0, 0], cic_prevWord := w\<rparr>
              else if cic_wordCount s = 1 then s\<lparr>cicf_out := cicf_out s @ [cic_prevWord s], cic_prevWord := w\<rparr>
              else if cic_wordCount s = 2 then cic_third w s
              else s\<lparr>cic_sums := add_lanes (ax_lanes w) (cic_sums s), cicf_out := cicf_out s @ [cic_prevWord s], cic_prevWord := w\<rparr>) in
     if ax_last w then s\<lparr>cic_wordCount := 0, cic_writeLastOne := True, cic_computeCs := True\<rparr>
     else s\<lparr>cic_wordCount := cic_wordCount s + 1\<rparr>)"

text \<open>The sum is folded and complemented, and the checksum of the reply computed from that of the request.\<close>

definition cic_compute :: "cic_st \<Rightarrow> cic_st" where
  "cic_compute s =
    (let c = cic_sums s;
         s = (if cic_state s = 0 then
                s\<lparr>cic_sums := c[0 := sub_add (c ! 0) (c ! 2), 1 := sub_add (c ! 1) (c ! 3)], cic_icmpChecksum := NOT (cic_icmpChecksum s)\<rparr>
              else if cic_state s = 1 then
                s\<lparr>cic_sums := c[0 := sub_add (c ! 0) (c ! 1)],
                  cic_icmpChecksum := (let x = cic_icmpChecksum s - ucast ECHO_REQUEST in (x - drop_bit 16 x) AND 0xFFFF)\<rparr>
              else if cic_state s = 2 then
                s\<lparr>cic_sums := c[0 := NOT (c ! 0)], cic_icmpChecksum := NOT (cic_icmpChecksum s)\<rparr>
              else if (range_get 15 0 (c ! 0) :: u16) = 0 \<and> cic_icmpType s = ECHO_REQUEST \<and> cic_icmpCode s = 0 then
                s\<lparr>cicf_valid := cicf_valid s @ [True], cicf_checksum := cicf_checksum s @ [ucast (cic_icmpChecksum s)], cic_computeCs := False\<rparr>
              else s\<lparr>cicf_valid := cicf_valid s @ [False], cic_computeCs := False\<rparr>) in
     s\<lparr>cic_state := cic_state s + 1\<rparr>)"

definition check_icmp_checksum :: "cic_st \<Rightarrow> cic_st" where
  "check_icmp_checksum s =
    (if cic_writeLastOne s then s\<lparr>cicf_out := cicf_out s @ [cic_prevWord s], cic_writeLastOne := False\<rparr>
     else if cic_computeCs s then cic_compute s
     else if cicf_in s \<noteq> [] then cic_word (hd (cicf_in s)) (s\<lparr>cicf_in := tl (cicf_in s)\<rparr>)
     else s)"

text \<open>\<open>u\<close> is the \<^verbatim>\<open>last\<close> of a word that was not read.\<close>

record drp_st =
  drp_isFirstWord :: bool
  drp_drop :: bool
  drpf_in :: "net_axis fifo"
  drpf_valid :: "bool fifo"
  drpf_out :: "net_axis fifo"

definition icmp_dropper :: "bool \<Rightarrow> drp_st \<Rightarrow> drp_st" where
  "icmp_dropper u s =
    (if drpf_in s \<noteq> [] then
       (let w = hd (drpf_in s); read = (drp_isFirstWord s \<longrightarrow> drpf_valid s \<noteq> []);
            s = (if drp_isFirstWord s then
                   (if drpf_valid s \<noteq> [] then
                      (if hd (drpf_valid s) then s\<lparr>drpf_out := drpf_out s @ [w]\<rparr> else s\<lparr>drp_drop := True\<rparr>)
                        \<lparr>drpf_in := tl (drpf_in s), drpf_valid := tl (drpf_valid s), drp_isFirstWord := False\<rparr>
                    else s)
                 else if drp_drop s then s\<lparr>drpf_in := tl (drpf_in s)\<rparr>
                 else s\<lparr>drpf_in := tl (drpf_in s), drpf_out := drpf_out s @ [w]\<rparr>) in
        if (if read then ax_last w else u) then s\<lparr>drp_drop := False, drp_isFirstWord := True\<rparr> else s)
     else s)"

subsection \<open>Messages about packets\<close>

datatype upu_fsm = UDP_IDLE | UDP_IP | UDP_STREAM | UDP_CS

record upu_st =
  upu_state :: upu_fsm
  upu_checksum :: "20 word"
  upu_ipWordCounter :: "3 word"
  upu_streamSource :: bool
  upuf_udp :: "net_axis fifo"
  upuf_ttl :: "net_axis fifo"
  upuf_data :: "net_axis fifo"
  upuf_header :: "byte list fifo"
  upuf_checksum :: "u16 fifo"

definition data_sum :: "byte list \<Rightarrow> 20 word" where
  "data_sum d = ucast (data16 3 d) + ucast (data16 2 d) + ucast (data16 1 d) + ucast (data16 0 d)"

definition icmp_start :: "bool \<Rightarrow> byte list" where
  "icmp_start ttl = (if ttl then [0x0B, 0, 0, 0, 0, 0, 0, 0] else [3, 3, 0, 0, 0, 0, 0, 0])"

definition upu_input :: "upu_st \<Rightarrow> net_axis fifo" where
  "upu_input s = (if upu_streamSource s then upuf_ttl s else upuf_udp s)"

definition upu_read :: "upu_st \<Rightarrow> upu_st" where
  "upu_read s = (let w = hd (upu_input s) in
     (if upu_streamSource s then s\<lparr>upuf_ttl := tl (upuf_ttl s)\<rparr> else s\<lparr>upuf_udp := tl (upuf_udp s)\<rparr>)
       \<lparr>upu_checksum := upu_checksum s + data_sum (ax_data w), upuf_data := upuf_data s @ [w]\<rparr>)"

definition fold20 :: "20 word \<Rightarrow> 20 word" where
  "fold20 x = (x AND 0xFFFF) + drop_bit 16 x"

text \<open>\<open>fd\<close>, \<open>fh\<close>, \<open>fc\<close>: the streams of data, headers and checksums are full.\<close>

definition udpPortUnreachable :: "bool \<Rightarrow> bool \<Rightarrow> bool \<Rightarrow> upu_st \<Rightarrow> upu_st" where
  "udpPortUnreachable fd fh fc s =
    (case upu_state s of
       UDP_IDLE \<Rightarrow>
         (if (upuf_udp s \<noteq> [] \<or> upuf_ttl s \<noteq> []) \<and> \<not> fd then
            (let ttl = (upuf_udp s = []) in
             s\<lparr>upu_ipWordCounter := 0, upu_streamSource := ttl, upu_checksum := data_sum (icmp_start ttl),
               upuf_data := upuf_data s @ [\<lparr>ax_lanes = kept (icmp_start ttl), ax_last = False\<rparr>], upu_state := UDP_IP\<rparr>)
          else s)
     | UDP_IP \<Rightarrow>
         (if upu_input s \<noteq> [] \<and> \<not> fd \<and> \<not> fh then
            (upu_read s)\<lparr>upuf_header := upuf_header s @ [ax_data (hd (upu_input s))],
              upu_state := (if upu_ipWordCounter s = 2 then UDP_STREAM else UDP_IP),
              upu_ipWordCounter := (if upu_ipWordCounter s = 2 then 2 else upu_ipWordCounter s + 1)\<rparr>
          else s)
     | UDP_STREAM \<Rightarrow>
         (if upu_input s \<noteq> [] \<and> \<not> fd then
            (upu_read s)\<lparr>upu_state := (if ax_last (hd (upu_input s)) then UDP_CS else UDP_STREAM)\<rparr>
          else s)
     | UDP_CS \<Rightarrow>
         (if \<not> fc then
            (let x = NOT (fold20 (fold20 (upu_checksum s))) in
             s\<lparr>upu_checksum := x, upuf_checksum := upuf_checksum s @ [range_get 15 0 x], upu_state := UDP_IDLE\<rparr>)
          else s))"

datatype aip_fsm = AIP_IDLE | AIP_IP | AIP_MERGE | AIP_STREAM | AIP_RESIDUE

record aip_st =
  aip_state :: aip_fsm
  aip_tempWord :: net_axis
  aip_sourceIP :: "byte list"
  aipf_data :: "net_axis fifo"
  aipf_header :: "byte list fifo"
  aipf_out :: "net_axis fifo"

text \<open>The total length of the packet and 28 bytes more, in network order.\<close>

definition longer_length :: "byte list \<Rightarrow> byte list" where
  "longer_length d = (let l = (word_rcat [d ! 2, d ! 3] :: u16) + 28 in d[2 := range_get 15 8 l, 3 := range_get 7 0 l])"

definition aip_start :: "byte list \<Rightarrow> aip_st \<Rightarrow> aip_st" where
  "aip_start d s = (let w = \<lparr>ax_lanes = kept d, ax_last = False\<rparr> in
     s\<lparr>aipf_header := tl (aipf_header s), aip_tempWord := w, aipf_out := aipf_out s @ [w]\<rparr>)"

definition udpAddIpHeader :: "bool \<Rightarrow> aip_st \<Rightarrow> aip_st" where
  "udpAddIpHeader full s =
    (case aip_state s of
       AIP_IDLE \<Rightarrow>
         (if aipf_header s \<noteq> [] \<and> \<not> full then (aip_start (longer_length (hd (aipf_header s))) s)\<lparr>aip_state := AIP_IP\<rparr> else s)
     | AIP_IP \<Rightarrow>
         (if aipf_header s \<noteq> [] \<and> \<not> full then
            (let d = hd (aipf_header s) in
             (aip_start ([0x80, 1] @ take 2 (drop 2 d) @ [1, 1, 1, 1]) s)\<lparr>aip_sourceIP := drop 4 d, aip_state := AIP_MERGE\<rparr>)
          else s)
     | AIP_MERGE \<Rightarrow>
         (if aipf_header s \<noteq> [] \<and> aipf_data s \<noteq> [] \<and> \<not> full then
            (let w = hd (aipf_data s) in
             s\<lparr>aipf_header := tl (aipf_header s), aipf_data := tl (aipf_data s), aip_tempWord := w,
               aipf_out := aipf_out s @ [\<lparr>ax_lanes = kept (aip_sourceIP s @ take 4 (ax_data w)), ax_last = False\<rparr>],
               aip_state := AIP_STREAM\<rparr>)
          else s)
     | AIP_STREAM \<Rightarrow>
         (if aipf_data s \<noteq> [] \<and> \<not> full then
            (let w = hd (aipf_data s); done = (ax_last w \<and> (\<forall>l \<in> set (drop 4 (ax_lanes w)). \<not> snd l)) in
             s\<lparr>aipf_data := tl (aipf_data s), aip_tempWord := w,
               aipf_out := aipf_out s @ [\<lparr>ax_lanes = kept (drop 4 (ax_data (aip_tempWord s)))
                 @ (if done then take 4 (ax_lanes w) else kept (take 4 (ax_data w))), ax_last = done\<rparr>],
               aip_state := (if done then AIP_IDLE else if ax_last w then AIP_RESIDUE else AIP_STREAM)\<rparr>)
          else s)
     | AIP_RESIDUE \<Rightarrow>
         (if \<not> full then
            s\<lparr>aipf_out := aipf_out s @ [\<lparr>ax_lanes = drop 4 (ax_lanes (aip_tempWord s)) @ replicate 4 (0, False), ax_last = True\<rparr>],
              aip_state := AIP_IDLE\<rparr>
          else s))"

subsection \<open>The checksums go in\<close>

record ins_st =
  ins_wordCount :: u16
  ins_streamSource :: bool
  insf_in :: "bool \<Rightarrow> net_axis fifo"
  insf_checksum :: "bool \<Rightarrow> u16 fifo"
  insf_out :: "net_axis fifo"

definition ins_put :: "u16 \<Rightarrow> net_axis \<Rightarrow> net_axis" where
  "ins_put c w = set_byte 7 (range_get 15 8 c) (set_byte 6 (range_get 7 0 c) w)"

definition icmp_insertChecksum :: "ins_st \<Rightarrow> ins_st" where
  "icmp_insertChecksum s =
    (let i = ins_streamSource s; w = hd (insf_in s i) in
     if ins_wordCount s = 0 then
       (if insf_in s False \<noteq> [] \<or> insf_in s True \<noteq> [] then
          (let i = (insf_in s False = []) in
           s\<lparr>ins_streamSource := i, insf_in := (insf_in s)(i := tl (insf_in s i)), insf_out := insf_out s @ [hd (insf_in s i)],
             ins_wordCount := 1\<rparr>)
        else s)
     else if ins_wordCount s = 2 then
       (if insf_in s i \<noteq> [] \<and> insf_checksum s i \<noteq> [] then
          s\<lparr>insf_in := (insf_in s)(i := tl (insf_in s i)), insf_checksum := (insf_checksum s)(i := tl (insf_checksum s i)),
            insf_out := insf_out s @ [ins_put (hd (insf_checksum s i)) w], ins_wordCount := 3\<rparr>
        else s)
     else
       (if insf_in s i \<noteq> [] then
          s\<lparr>insf_in := (insf_in s)(i := tl (insf_in s i)), insf_out := insf_out s @ [w],
            ins_wordCount := (if ax_last w then 0 else ins_wordCount s + 1)\<rparr>
        else s))"

subsection \<open>The server\<close>

record icmp_st =
  is_cic :: cic_st
  is_upu :: upu_st
  is_aip :: aip_st
  is_drp :: drp_st
  is_ins :: ins_st

datatype icmp_proc = CheckIcmp | PortUnreachable | AddIpHeader | IcmpDropper | InsertIcmp

text \<open>What the processes cannot know: which streams are full, the \<^verbatim>\<open>last\<close> of a word not read.\<close>

record icmp_env =
  ie_full_data :: bool
  ie_full_header :: bool
  ie_full_checksum :: bool
  ie_full_out :: bool
  ie_last :: bool

definition ins_feed :: "bool \<Rightarrow> net_axis list \<Rightarrow> u16 list \<Rightarrow> ins_st \<Rightarrow> ins_st" where
  "ins_feed i ws cs p = p\<lparr>insf_in := (insf_in p)(i := insf_in p i @ ws), insf_checksum := (insf_checksum p)(i := insf_checksum p i @ cs)\<rparr>"

definition drp_feed :: "net_axis list \<Rightarrow> bool list \<Rightarrow> drp_st \<Rightarrow> drp_st" where
  "drp_feed ws vs p = p\<lparr>drpf_in := drpf_in p @ ws, drpf_valid := drpf_valid p @ vs\<rparr>"

definition cic_deliver :: "cic_st \<Rightarrow> icmp_st \<Rightarrow> icmp_st" where
  "cic_deliver p s = s\<lparr>is_cic := p\<lparr>cicf_out := [], cicf_valid := [], cicf_checksum := []\<rparr>,
     is_drp := drp_feed (cicf_out p) (cicf_valid p) (is_drp s), is_ins := ins_feed False [] (cicf_checksum p) (is_ins s)\<rparr>"

definition upu_deliver :: "upu_st \<Rightarrow> icmp_st \<Rightarrow> icmp_st" where
  "upu_deliver p s = s\<lparr>is_upu := p\<lparr>upuf_data := [], upuf_header := [], upuf_checksum := []\<rparr>,
     is_aip := (is_aip s)\<lparr>aipf_data := aipf_data (is_aip s) @ upuf_data p, aipf_header := aipf_header (is_aip s) @ upuf_header p\<rparr>,
     is_ins := ins_feed True [] (upuf_checksum p) (is_ins s)\<rparr>"

definition aip_deliver :: "aip_st \<Rightarrow> icmp_st \<Rightarrow> icmp_st" where
  "aip_deliver p s = s\<lparr>is_aip := p\<lparr>aipf_out := []\<rparr>, is_ins := ins_feed True (aipf_out p) [] (is_ins s)\<rparr>"

definition drp_deliver :: "drp_st \<Rightarrow> icmp_st \<Rightarrow> icmp_st" where
  "drp_deliver p s = s\<lparr>is_drp := p\<lparr>drpf_out := []\<rparr>, is_ins := ins_feed False (drpf_out p) [] (is_ins s)\<rparr>"

definition icmp_act :: "icmp_env \<Rightarrow> icmp_proc \<Rightarrow> icmp_st \<Rightarrow> icmp_st" where
  "icmp_act e p s =
    (case p of
       CheckIcmp \<Rightarrow> cic_deliver (check_icmp_checksum (is_cic s)) s
     | PortUnreachable \<Rightarrow> upu_deliver (udpPortUnreachable (ie_full_data e) (ie_full_header e) (ie_full_checksum e) (is_upu s)) s
     | AddIpHeader \<Rightarrow> aip_deliver (udpAddIpHeader (ie_full_out e) (is_aip s)) s
     | IcmpDropper \<Rightarrow> drp_deliver (icmp_dropper (ie_last e) (is_drp s)) s
     | InsertIcmp \<Rightarrow> s\<lparr>is_ins := icmp_insertChecksum (is_ins s)\<rparr>)"

definition icmp_server :: "icmp_env \<Rightarrow> icmp_st \<Rightarrow> icmp_st" where
  "icmp_server e = fold (icmp_act e) [CheckIcmp, PortUnreachable, AddIpHeader, IcmpDropper, InsertIcmp]"

end
