(* ===== verification/Icmp_Echo.thy ===== *)
theory Icmp_Echo
  imports Icmp Packet_Header
begin

text \<open>
  An echo request through the ICMP server: the sum over the message, the answer it is turned into with its checksum, and the processes
  that drop what is not a valid request and put the checksum in.
\<close>

subsection \<open>The checksum of the answer\<close>

definition echo_checksum :: "u16 \<Rightarrow> u16" where
  "echo_checksum c = of_nat (ones_add (unat c) 8)"

lemma echo_checksum_steps:
  fixes c :: u16
  assumes "x = NOT (0x10000 OR (ucast c :: 17 word))" and "y = x - ucast ECHO_REQUEST" and "z = (y - drop_bit 16 y) AND 0xFFFF"
  shows "(ucast (NOT z) :: u16) = echo_checksum c"
proof -
  define n where "n = 65535 - unat c"
  have c: "unat c = 65535 - n" "n \<le> 65535" using unat_bound[of c] by (simp_all add: n_def)
  have "x = ucast (NOT c)" unfolding assms(1) by (intro bit_word_eqI) (auto simp: bit_simps less_Suc_eq numeral_eq_Suc)
  then have x: "unat x = n" by (simp add: unat_cast unat_complement n_def)
  have e: "unat (ucast ECHO_REQUEST :: 17 word) = 8" by (simp add: ECHO_REQUEST_def)
  have sub: "unat (a - b) = (if unat b \<le> unat a then unat a - unat b else 131072 + unat a - unat b)" for a b :: "17 word"
    using unat_bound[of a] unat_bound[of b] by (simp add: unat_sub_mod nat_sub_mod)
  have y: "unat y = (if 8 \<le> n then n - 8 else n + 131064)" unfolding assms(2) sub x e by simp
  have d: "unat (drop_bit 16 y) = (if 8 \<le> n then 0 else 1)" using c(2) by (auto simp: unat_drop_bit_div y)
  have "unat (y - drop_bit 16 y) = (if 8 \<le> n then n - 8 else n + 131063)" unfolding sub y d by simp
  moreover have "(n + 131063) mod 65536 = n + 65527" if "\<not> 8 \<le> n"
  proof -
    have "n + 131063 = n + 65527 + 65536" by simp
    then show ?thesis using that by (simp only: mod_add_self2) simp
  qed
  ultimately have z: "unat z = (if 8 \<le> n then n - 8 else n + 65527)" unfolding assms(3) low16 using c(2) by auto
  have "(ucast (NOT z) :: u16) = NOT (ucast z)" by (intro bit_word_eqI) (simp add: bit_simps)
  then have "unat (ucast (NOT z) :: u16) = 65535 - unat z" using z c(2) by (simp add: unat_complement unat_cast split: if_splits)
  moreover have "unat (echo_checksum c) = 65535 - unat z"
    using c(2) by (auto simp: echo_checksum_def ones_add_def z c(1) unat_of_nat)
  ultimately show ?thesis by (simp add: word_unat_eq_iff)
qed

subsection \<open>The message is summed\<close>

definition cic_ready :: "cic_st \<Rightarrow> bool" where
  "cic_ready s \<longleftrightarrow> cic_wordCount s = 0 \<and> \<not> cic_writeLastOne s \<and> \<not> cic_computeCs s \<and> cic_state s = 0"

text \<open>The words from the fourth on.\<close>

lemma cic_body:
  assumes "packet 8 ws bs" and "cicf_in s = ws @ rest" and "\<not> cic_writeLastOne s" and "\<not> cic_computeCs s" and "3 \<le> unat (cic_wordCount s)"
    and "unat (cic_wordCount s) + length ws < 65536" and "length (cic_sums s) = 4" and "sums_ok (cic_sums s)"
  shows "\<exists>xs. (check_icmp_checksum ^^ length ws) s = s\<lparr>cicf_in := rest, cicf_out := cicf_out s @ butlast (cic_prevWord s # ws),
       cic_prevWord := last ws, cic_sums := xs, cic_wordCount := 0, cic_writeLastOne := True, cic_computeCs := True\<rparr>
     \<and> length xs = 4 \<and> sums_ok xs \<and> canon (total xs) = canon (total (cic_sums s) + sum_list (be_words bs))"
  using assms
proof (induction ws arbitrary: s bs)
  case (Cons w ws)
  let ?xs = "add_lanes (ax_lanes w) (cic_sums s)" and ?t = "check_icmp_checksum s"
  have p: "packet (2 * length (cic_sums s)) (w # ws) bs" using Cons.prems(1,7) by simp
  note add = add_word_total[OF p Cons.prems(8)]
  have not: "cic_wordCount s \<noteq> 0" "cic_wordCount s \<noteq> 1" "cic_wordCount s \<noteq> 2" using Cons.prems(5) by auto
  have step: "?t = (let t = s\<lparr>cicf_in := ws @ rest, cic_sums := ?xs, cicf_out := cicf_out s @ [cic_prevWord s], cic_prevWord := w\<rparr> in
      if ax_last w then t\<lparr>cic_wordCount := 0, cic_writeLastOne := True, cic_computeCs := True\<rparr>
      else t\<lparr>cic_wordCount := cic_wordCount s + 1\<rparr>)"
    using Cons.prems(2-4) not by (simp add: check_icmp_checksum_def cic_word_def Let_def)
  show ?case
  proof (cases "ws = []")
    case True
    then have "ax_last w" "length bs \<le> 8" using Cons.prems(1) by (simp_all add: packet_single)
    then show ?thesis using True add Cons.prems(7) by (intro exI[of _ ?xs]) (simp add: step Let_def)
  next
    case False
    have q: "\<not> ax_last w" "8 < length bs" "packet 8 ws (drop 8 bs)" using Cons.prems(1) False by (simp_all add: packet_cons)
    have wc: "unat (cic_wordCount s + 1) = unat (cic_wordCount s) + 1" using Cons.prems(6) by (simp add: unat_add_mod)
    have t: "?t = s\<lparr>cicf_in := ws @ rest, cic_sums := ?xs, cicf_out := cicf_out s @ [cic_prevWord s], cic_prevWord := w,
        cic_wordCount := cic_wordCount s + 1\<rparr>" using q(1) by (simp add: step Let_def)
    obtain xs where xs: "(check_icmp_checksum ^^ length ws) ?t = ?t\<lparr>cicf_in := rest, cicf_out := cicf_out ?t @ butlast (cic_prevWord ?t # ws),
       cic_prevWord := last ws, cic_sums := xs, cic_wordCount := 0, cic_writeLastOne := True, cic_computeCs := True\<rparr>"
      "length xs = 4" "sums_ok xs" "canon (total xs) = canon (total (cic_sums ?t) + sum_list (be_words (drop 8 bs)))"
      using Cons.IH[of "drop 8 bs" ?t] q(3) Cons.prems(3-8) add wc by (auto simp: t)
    have "sum_list (be_words bs) = sum_list (be_words (take 8 bs)) + sum_list (be_words (drop 8 bs))"
      using be_words_append[of "take 8 bs" "drop 8 bs"] q(2) by simp
    moreover have "total (cic_sums ?t) = total ?xs" by (simp add: t)
    ultimately have "canon (total xs) = canon (total (cic_sums s) + sum_list (be_words bs))"
      using xs(4) add(3) Cons.prems(7) canon_add[of "total ?xs"] canon_add[of "total (cic_sums s) + sum_list (be_words (take 8 bs))"]
      by (simp add: add.assoc)
    then show ?thesis using xs(1-3) False
      by (intro exI[of _ xs]) (simp add: funpow_Suc_right t del: funpow.simps)
  qed
qed simp

text \<open>The last word goes out and the sum is folded.\<close>

lemma list4: "length xs = 4 \<Longrightarrow> \<exists>a b c d. xs = [a, b, c, d]"
  by (auto simp: length_Suc_conv numeral_eq_Suc)

lemma cic_end:
  assumes "cic_writeLastOne s" and "cic_computeCs s" and "cic_state s = 0" and "length (cic_sums s) = 4" and "sums_ok (cic_sums s)"
    and "cic_icmpChecksum s = 0x10000 OR ucast c"
    and "v \<longleftrightarrow> canon (total (cic_sums s)) = 65535 \<and> cic_icmpType s = 8 \<and> cic_icmpCode s = 0"
  shows "\<exists>xs x. (check_icmp_checksum ^^ 5) s = s\<lparr>cicf_out := cicf_out s @ [cic_prevWord s], cic_writeLastOne := False,
     cic_computeCs := False, cic_state := 0, cic_sums := xs, cic_icmpChecksum := x, cicf_valid := cicf_valid s @ [v],
     cicf_checksum := cicf_checksum s @ (if v then [echo_checksum c] else [])\<rparr>"
proof -
  obtain a b d e where sums: "cic_sums s = [a, b, d, e]" using list4[OF assms(4)] by blast
  have ok: "unat a \<le> 65535" "unat b \<le> 65535" "unat d \<le> 65535" "unat e \<le> 65535" using assms(5) by (simp_all add: sums)
  define x where "x = NOT (cic_icmpChecksum s)"
  define y where "y = x - ucast ECHO_REQUEST"
  define z where "z = (y - drop_bit 16 y) AND 0xFFFF"
  define u where "u = sub_add (sub_add a d) (sub_add b e)"
  have c: "(ucast (NOT z) :: u16) = echo_checksum c" by (rule echo_checksum_steps[OF x_def[unfolded assms(6)] y_def z_def])
  have ad: "unat (sub_add a d) = canon (unat a + unat d)" "unat (sub_add b e) = canon (unat b + unat e)" using ok by (simp_all add: sub_add_nat)
  have "unat u = canon (canon (unat a + unat d) + canon (unat b + unat e))" unfolding u_def using ad canon_le by (simp add: sub_add_nat)
  then have u: "unat u = canon (total (cic_sums s))" by (simp only: canon_add canon_add') (simp add: sums ac_simps)
  have "(range_get 15 0 (NOT u) :: u16) = 0 \<longleftrightarrow> canon (total (cic_sums s)) = 65535"
  proof -
    have "(range_get 15 0 (NOT u) :: u16) = 0 \<longleftrightarrow> unat (NOT (ucast u :: u16)) = 0" by (simp add: complement_low unat_eq_zero)
    also have "\<dots> \<longleftrightarrow> canon (total (cic_sums s)) = 65535"
      using canon_le[of "total (cic_sums s)"] by (simp add: unat_complement unat_cast u)
    finally show ?thesis .
  qed
  then have v: "v \<longleftrightarrow> (range_get 15 0 (NOT u) :: u16) = 0 \<and> cic_icmpType s = ECHO_REQUEST \<and> cic_icmpCode s = 0"
    using assms(7) by (simp add: ECHO_REQUEST_def)
  let ?f = check_icmp_checksum
  let ?s1 = "s\<lparr>cicf_out := cicf_out s @ [cic_prevWord s], cic_writeLastOne := False\<rparr>"
  let ?s2 = "?s1\<lparr>cic_sums := [sub_add a d, sub_add b e, d, e], cic_icmpChecksum := x, cic_state := 1\<rparr>"
  let ?s3 = "?s1\<lparr>cic_sums := [u, sub_add b e, d, e], cic_icmpChecksum := z, cic_state := 2\<rparr>"
  let ?s4 = "?s1\<lparr>cic_sums := [NOT u, sub_add b e, d, e], cic_icmpChecksum := NOT z, cic_state := 3\<rparr>"
  let ?s5 = "?s4\<lparr>cic_computeCs := False, cic_state := 0, cicf_valid := cicf_valid s @ [v],
     cicf_checksum := cicf_checksum s @ (if v then [echo_checksum c] else [])\<rparr>"
  have "?f s = ?s1" using assms(1) by (simp add: check_icmp_checksum_def)
  moreover have "?f ?s1 = ?s2" using assms(2,3) by (simp add: check_icmp_checksum_def cic_compute_def sums x_def)
  moreover have "?f ?s2 = ?s3" using assms(2) by (simp add: check_icmp_checksum_def cic_compute_def u_def y_def z_def Let_def)
  moreover have "?f ?s3 = ?s4" using assms(2) by (simp add: check_icmp_checksum_def cic_compute_def)
  moreover have "?f ?s4 = ?s5" using assms(2) by (simp add: check_icmp_checksum_def cic_compute_def v c)
  moreover have "(?f ^^ 5) s = ?f (?f (?f (?f (?f s))))" by (simp add: numeral_eq_Suc)
  ultimately have "(?f ^^ 5) s = ?s5" by (simp only:)
  then show ?thesis by (intro exI[of _ "[NOT u, sub_add b e, d, e]"] exI[of _ "NOT z"]) simp
qed

subsection \<open>The answer\<close>

text \<open>The message after the IPv4 header of 20 bytes is an echo request with the right checksum.\<close>

definition echo_request :: "byte list \<Rightarrow> bool" where
  "echo_request bs \<longleftrightarrow> ones_sum (be_words (drop 20 bs)) = 65535 \<and> bs ! 20 = 8 \<and> bs ! 21 = 0"

text \<open>The addresses are exchanged, the type is that of a reply; then the checksum goes in.\<close>

definition echoed :: "byte list \<Rightarrow> byte list" where
  "echoed bs = take 12 bs @ take 4 (drop 16 bs) @ take 4 (drop 12 bs) @ [ECHO_REPLY] @ drop 21 bs"

definition msg_checksum :: "byte list \<Rightarrow> u16" where
  "msg_checksum bs = word_rcat [bs ! 23, bs ! 22]"

definition put_msg_checksum :: "u16 \<Rightarrow> byte list \<Rightarrow> byte list" where
  "put_msg_checksum c bs = bs[22 := range_get 7 0 c, 23 := range_get 15 8 c]"

definition echo_answer :: "byte list \<Rightarrow> byte list" where
  "echo_answer bs = put_msg_checksum (echo_checksum (msg_checksum bs)) (echoed bs)"

definition message_ok :: "byte list \<Rightarrow> bool" where
  "message_ok bs \<longleftrightarrow> 25 \<le> length bs \<and> length bs < 65536"

text \<open>Taking a packet of at least four words apart.\<close>

lemma four_words:
  assumes "packet 8 ws bs" and "25 \<le> length bs"
  obtains w0 w1 w2 vs where "ws = w0 # w1 # w2 # vs" "w0 = \<lparr>ax_lanes = kept (take 8 bs), ax_last = False\<rparr>"
    "w1 = \<lparr>ax_lanes = kept (take 8 (drop 8 bs)), ax_last = False\<rparr>" "w2 = \<lparr>ax_lanes = kept (take 8 (drop 16 bs)), ax_last = False\<rparr>"
    "packet 8 vs (drop 24 bs)"
proof -
  have split: "\<exists>w vs'. vs = w # vs' \<and> w = \<lparr>ax_lanes = kept (take 8 cs), ax_last = False\<rparr> \<and> packet 8 vs' (drop 8 cs)"
    if vs: "packet 8 vs cs" and len: "8 < length cs" for vs cs
  proof -
    obtain w vs' where w: "vs = w # vs'" using packet_nonempty[OF vs] by (cases vs) auto
    then have "vs' \<noteq> []" using vs len by (auto simp: packet_single)
    then show ?thesis using vs w packet_cons[of vs' 8 w cs] by (cases w) (simp add: kept_def)
  qed
  have l: "8 < length bs" "8 < length (drop 8 bs)" "8 < length (drop 8 (drop 8 bs))" using assms(2) by simp_all
  obtain w0 vs0 where 0: "ws = w0 # vs0" "w0 = \<lparr>ax_lanes = kept (take 8 bs), ax_last = False\<rparr>" "packet 8 vs0 (drop 8 bs)"
    using split[OF assms(1) l(1)] by blast
  obtain w1 vs1 where 1: "vs0 = w1 # vs1" "w1 = \<lparr>ax_lanes = kept (take 8 (drop 8 bs)), ax_last = False\<rparr>" "packet 8 vs1 (drop 8 (drop 8 bs))"
    using split[OF 0(3) l(2)] by blast
  obtain w2 vs2 where 2: "vs1 = w2 # vs2" "w2 = \<lparr>ax_lanes = kept (take 8 (drop 8 (drop 8 bs))), ax_last = False\<rparr>"
    "packet 8 vs2 (drop 8 (drop 8 (drop 8 bs)))" using split[OF 1(3) l(3)] by blast
  have d: "drop 8 (drop 8 bs) = drop 16 bs" "drop 8 (drop 16 bs) = drop 24 bs" by simp_all
  show ?thesis using that[OF _ 0(2) 1(2)] 0(1) 1(1) 2 unfolding d by blast
qed

lemma message_parts:
  assumes "25 \<le> length bs"
  obtains p m src dst t y c0 c1 qs where "bs = p @ m @ src @ dst @ [t, y, c0, c1] @ qs"
    "length p = 8" "length m = 4" "length src = 4" "length dst = 4"
proof -
  have "length (take 4 (drop 20 bs)) = 4" using assms by simp
  then obtain t y c0 c1 where h: "take 4 (drop 20 bs) = [t, y, c0, c1]" using list4 by blast
  have e: "take 4 (drop 20 bs) @ drop 24 bs = drop 20 bs" "take 4 (drop 16 bs) @ drop 20 bs = drop 16 bs"
    "take 4 (drop 12 bs) @ drop 16 bs = drop 12 bs" "take 4 (drop 8 bs) @ drop 12 bs = drop 8 bs"
    using append_take_drop_id[of 4 "drop 20 bs"] append_take_drop_id[of 4 "drop 16 bs"] append_take_drop_id[of 4 "drop 12 bs"]
      append_take_drop_id[of 4 "drop 8 bs"] by simp_all
  show ?thesis
  proof (rule that)
    show "bs = take 8 bs @ take 4 (drop 8 bs) @ take 4 (drop 12 bs) @ take 4 (drop 16 bs) @ [t, y, c0, c1] @ drop 24 bs"
      by (simp only: h[symmetric] e append_take_drop_id)
  qed (use assms in simp_all)
qed

lemma packet_kept:
  assumes "packet 8 ws bs" and "length as = 8"
  shows "packet 8 (\<lparr>ax_lanes = kept as, ax_last = False\<rparr> # ws) (as @ bs)"
  using assms packet_nonempty[OF assms(1)] by (subst packet_cons) (auto simp: kept_def)

lemma packet_words: "packet 8 ws bs \<Longrightarrow> length ws \<le> length bs"
proof -
  assume p: "packet 8 ws bs"
  then have ne: "ws \<noteq> []" by (simp add: packet_nonempty)
  then have "8 * (length ws - 1) < length bs" using packet_nth(4)[OF p, of "length ws - 1"] by simp
  then show ?thesis by linarith
qed

lemma cic_packet:
  assumes "packet 8 ws bs" and "message_ok bs" and "cic_ready s" and "cicf_in s = ws @ rest"
  shows "\<exists>t out. (check_icmp_checksum ^^ (length ws + 5)) s = t \<and> cic_ready t \<and> cicf_in t = rest
    \<and> cicf_out t = cicf_out s @ out \<and> packet 8 out (echoed bs) \<and> cicf_valid t = cicf_valid s @ [echo_request bs]
    \<and> cicf_checksum t = cicf_checksum s @ (if echo_request bs then [echo_checksum (msg_checksum bs)] else [])"
proof -
  let ?f = check_icmp_checksum
  have len: "25 \<le> length bs" "length bs < 65536" using assms(2) by (simp_all add: message_ok_def)
  obtain p m src dst ty co c0 c1 qs where bs: "bs = p @ m @ src @ dst @ [ty, co, c0, c1] @ qs"
    "length p = 8" "length m = 4" "length src = 4" "length dst = 4" using message_parts[OF len(1)] by blast
  have d: "take 8 bs = p" "take 8 (drop 8 bs) = m @ src" "take 8 (drop 16 bs) = dst @ [ty, co, c0, c1]" "drop 24 bs = qs"
    using bs(2-5) by (simp_all add: bs(1))
  obtain w0 w1 w2 vs where ws: "ws = w0 # w1 # w2 # vs" "w0 = \<lparr>ax_lanes = kept p, ax_last = False\<rparr>"
    "w1 = \<lparr>ax_lanes = kept (m @ src), ax_last = False\<rparr>" "w2 = \<lparr>ax_lanes = kept (dst @ [ty, co, c0, c1]), ax_last = False\<rparr>"
    "packet 8 vs qs" using four_words[OF assms(1) len(1)] unfolding d by metis
  define xs where "xs = add_lanes (kept [ty, co, c0, c1]) [0, 0]"
  define x1 where "x1 = \<lparr>ax_lanes = kept (m @ dst), ax_last = False\<rparr>"
  define x2 where "x2 = \<lparr>ax_lanes = kept (src @ [ECHO_REPLY, co, c0, c1]), ax_last = False\<rparr>"
  define t where "t = s\<lparr>cicf_in := vs @ rest, cicf_out := cicf_out s @ [w0, x1], cic_prevWord := x2, cic_wordCount := 3,
     cic_sums := [0, 0] @ xs, cic_icmpType := ty, cic_icmpCode := co, cic_icmpChecksum := 0x10000 OR ucast (msg_checksum bs)\<rparr>"
  have ready: "cic_wordCount s = 0" "\<not> cic_writeLastOne s" "\<not> cic_computeCs s" "cic_state s = 0" using assms(3) by (simp_all add: cic_ready_def)
  have word: "?f s' = cic_word w (s'\<lparr>cicf_in := r\<rparr>)" if "\<not> cic_writeLastOne s'" "\<not> cic_computeCs s'" "cicf_in s' = w # r" for s' w r
    using that by (simp add: check_icmp_checksum_def)
  have cs: "data16 3 (dst @ [ty, co, c0, c1]) = msg_checksum bs"
    using bs(2-5) by (simp add: data16_def msg_checksum_def bs(1) nth_append)
  have kept: "zip src (map (\<lambda>x. True) dst) = map (\<lambda>b. (b, True)) src" using bs(4,5) by (simp add: list_eq_iff_nth_eq)
  have "?f s = s\<lparr>cicf_in := w1 # w2 # vs @ rest, cic_sums := [0, 0, 0, 0], cic_prevWord := w0, cic_wordCount := 1\<rparr>"
    using word[OF ready(2,3)] assms(4) ready(1) by (simp add: ws(1) cic_word_def Let_def) (simp add: ws(2))
  moreover have "?f \<dots> = s\<lparr>cicf_in := w2 # vs @ rest, cicf_out := cicf_out s @ [w0], cic_sums := [0, 0, 0, 0], cic_prevWord := w1, cic_wordCount := 2\<rparr>"
    using ready by (subst word) (simp_all add: cic_word_def Let_def, simp add: ws(3))
  moreover have "?f \<dots> = t"
    using ready bs(2-5)
    by (subst word) (simp_all add: cic_word_def cic_third_def Let_def, simp add: t_def xs_def x1_def x2_def ws(3,4) kept_def nth_append comp_def cs kept)
  ultimately have three: "(?f ^^ 3) s = t" by (simp add: numeral_3_eq_3)
  have xs: "length xs = 2" "sums_ok xs" "canon (total xs) = canon (sum_list (be_words [ty, co, c0, c1]))"
    using add_lanes_total[of "kept [ty, co, c0, c1]" "[0, 0]" "[ty, co, c0, c1]"] by (simp_all add: xs_def kept_def)
  have few: "3 + length vs < 65536" using packet_words[OF ws(5)] len(2) bs(2-5) by (simp add: bs(1))
  obtain ys where ys: "(?f ^^ length vs) t = t\<lparr>cicf_in := rest, cicf_out := cicf_out t @ butlast (cic_prevWord t # vs),
      cic_prevWord := last vs, cic_sums := ys, cic_wordCount := 0, cic_writeLastOne := True, cic_computeCs := True\<rparr>"
    "length ys = 4" "sums_ok ys" "canon (total ys) = canon (total (cic_sums t) + sum_list (be_words qs))"
    using cic_body[OF ws(5), of t rest] ready xs(1,2) few by (auto simp: t_def)
  define u where "u = (?f ^^ length vs) t"
  have u: "cic_writeLastOne u" "cic_computeCs u" "cic_state u = 0" "cic_sums u = ys" "cic_icmpChecksum u = 0x10000 OR ucast (msg_checksum bs)"
    "cic_icmpType u = ty" "cic_icmpCode u = co" "cic_prevWord u = last vs" "cicf_in u = rest" "cic_wordCount u = 0"
    "cicf_out u = cicf_out s @ [w0, x1] @ butlast (x2 # vs)" "cicf_valid u = cicf_valid s" "cicf_checksum u = cicf_checksum s"
    using ready unfolding u_def ys(1) by (simp_all add: t_def)
  have sum: "canon (total ys) = ones_sum (be_words (drop 20 bs))"
  proof -
    have "canon (total ys) = canon (canon (total xs) + sum_list (be_words qs))" using ys(4) by (simp add: t_def canon_add)
    also have "\<dots> = canon (sum_list (be_words ([ty, co, c0, c1] @ qs)))" unfolding xs(3) by (simp add: canon_add add.assoc)
    also have "[ty, co, c0, c1] @ qs = drop 20 bs" using bs(2-5) by (simp add: bs(1))
    finally show ?thesis using be_words_bound by (simp add: ones_sum_canon)
  qed
  have v: "echo_request bs \<longleftrightarrow> canon (total (cic_sums u)) = 65535 \<and> cic_icmpType u = 8 \<and> cic_icmpCode u = 0"
    using bs(2-5) by (simp add: echo_request_def u sum bs(1) nth_append)
  obtain zs x where z: "(?f ^^ 5) u = u\<lparr>cicf_out := cicf_out u @ [cic_prevWord u], cic_writeLastOne := False,
     cic_computeCs := False, cic_state := 0, cic_sums := zs, cic_icmpChecksum := x, cicf_valid := cicf_valid u @ [echo_request bs],
     cicf_checksum := cicf_checksum u @ (if echo_request bs then [echo_checksum (msg_checksum bs)] else [])\<rparr>"
    using cic_end[OF u(1-3) _ _ u(5) v] ys(2,3) u(4) by auto
  have run: "(?f ^^ (length ws + 5)) s = (?f ^^ 5) u"
  proof -
    have "length ws + 5 = 5 + (length vs + 3)" by (simp add: ws(1))
    then have "(?f ^^ (length ws + 5)) s = (?f ^^ 5) ((?f ^^ length vs) ((?f ^^ 3) s))" by (simp only: funpow_add comp_apply)
    then show ?thesis by (simp only: three u_def)
  qed
  have out: "packet 8 (w0 # x1 # x2 # vs) (echoed bs)"
  proof -
    have "echoed bs = p @ (m @ dst) @ (src @ [ECHO_REPLY, co, c0, c1]) @ qs" using bs(2-5) by (simp add: echoed_def bs(1))
    then show ?thesis unfolding ws(2) x1_def x2_def using ws(5) bs(2-5) by (simp only:) (intro packet_kept, simp_all)
  qed
  have "butlast (x2 # vs) @ [last vs] = x2 # vs" using packet_nonempty[OF ws(5)] by simp
  then show ?thesis
    unfolding run z by (rule_tac exI, rule_tac exI[of _ "w0 # x1 # x2 # vs"], rule_tac conjI[OF refl]) (simp add: cic_ready_def u out)
qed

subsection \<open>The packet is dropped or passes\<close>

definition drp_ready :: "drp_st \<Rightarrow> bool" where
  "drp_ready s \<longleftrightarrow> drp_isFirstWord s \<and> \<not> drp_drop s"

lemma drp_rest_run:
  assumes "packet 8 ws bs" and "drpf_in s = ws @ rest" and "\<not> drp_isFirstWord s"
  shows "(icmp_dropper u ^^ length ws) s = s\<lparr>drpf_in := rest, drpf_out := drpf_out s @ (if drp_drop s then [] else ws),
     drp_isFirstWord := True, drp_drop := False\<rparr>"
  using assms
proof (induction ws arbitrary: s bs)
  case (Cons w ws)
  let ?t = "icmp_dropper u s"
  have t: "?t = (let t = s\<lparr>drpf_in := ws @ rest, drpf_out := drpf_out s @ (if drp_drop s then [] else [w])\<rparr> in
      if ax_last w then t\<lparr>drp_drop := False, drp_isFirstWord := True\<rparr> else t)"
    using Cons.prems(2,3) by (simp add: icmp_dropper_def Let_def)
  show ?case
  proof (cases "ws = []")
    case True
    then have "ax_last w" using Cons.prems(1) by (simp add: packet_single)
    then show ?thesis using True by (simp add: t Let_def)
  next
    case False
    then have q: "\<not> ax_last w" "packet 8 ws (drop 8 bs)" using Cons.prems(1) by (simp_all add: packet_cons)
    have t': "?t = s\<lparr>drpf_in := ws @ rest, drpf_out := drpf_out s @ (if drp_drop s then [] else [w])\<rparr>" using q(1) by (simp add: t)
    have "(icmp_dropper u ^^ length ws) ?t = ?t\<lparr>drpf_in := rest, drpf_out := drpf_out ?t @ (if drp_drop ?t then [] else ws),
     drp_isFirstWord := True, drp_drop := False\<rparr>" by (rule Cons.IH[OF q(2)]) (use Cons.prems in \<open>simp_all add: t'\<close>)
    then show ?thesis by (simp add: funpow_Suc_right t' del: funpow.simps)
  qed
qed simp

lemma drp_packet:
  assumes "packet 8 ws bs" and "8 < length bs" and "drpf_in s = ws @ rest" and "drp_ready s" and "drpf_valid s = v # vs"
  shows "(icmp_dropper u ^^ length ws) s = s\<lparr>drpf_in := rest, drpf_valid := vs, drpf_out := drpf_out s @ (if v then ws else [])\<rparr>"
proof -
  obtain w ws' where ws: "ws = w # ws'" using packet_nonempty[OF assms(1)] by (cases ws) auto
  then have "ws' \<noteq> []" using assms(1,2) by (auto simp: packet_single)
  then have w: "\<not> ax_last w" "packet 8 ws' (drop 8 bs)" using assms(1) ws by (simp_all add: packet_cons)
  let ?t = "s\<lparr>drpf_in := ws' @ rest, drpf_valid := vs, drpf_out := drpf_out s @ (if v then [w] else []), drp_isFirstWord := False,
     drp_drop := \<not> v\<rparr>"
  have t: "icmp_dropper u s = ?t" using assms(3-5) w(1) by (auto simp: icmp_dropper_def Let_def ws drp_ready_def)
  have "(icmp_dropper u ^^ length ws') ?t = ?t\<lparr>drpf_in := rest, drpf_out := drpf_out ?t @ (if drp_drop ?t then [] else ws'),
     drp_isFirstWord := True, drp_drop := False\<rparr>" by (rule drp_rest_run[OF w(2)]) simp_all
  then show ?thesis using assms(4) by (simp add: ws funpow_Suc_right t drp_ready_def del: funpow.simps)
qed

subsection \<open>The checksum goes in\<close>

lemma ins_rest_run:
  assumes "packet 8 ws bs" and "insf_in s (ins_streamSource s) = ws @ rest" and "3 \<le> unat (ins_wordCount s)"
    and "unat (ins_wordCount s) + length ws < 65536"
  shows "(icmp_insertChecksum ^^ length ws) s = s\<lparr>insf_in := (insf_in s)(ins_streamSource s := rest), insf_out := insf_out s @ ws, ins_wordCount := 0\<rparr>"
  using assms
proof (induction ws arbitrary: s bs)
  case (Cons w ws)
  have "ins_wordCount s \<noteq> 0" "ins_wordCount s \<noteq> 2" using Cons.prems(3) by auto
  then have t: "icmp_insertChecksum s = s\<lparr>insf_in := (insf_in s)(ins_streamSource s := ws @ rest), insf_out := insf_out s @ [w],
      ins_wordCount := (if ax_last w then 0 else ins_wordCount s + 1)\<rparr>" using Cons.prems(2) by (simp add: icmp_insertChecksum_def Let_def)
  show ?case
  proof (cases "ws = []")
    case True
    then have "ax_last w" using Cons.prems(1) by (simp add: packet_single)
    then show ?thesis using True by (simp add: t fun_upd_def)
  next
    case False
    then have q: "\<not> ax_last w" "packet 8 ws (drop 8 bs)" using Cons.prems(1) by (simp_all add: packet_cons)
    let ?t = "icmp_insertChecksum s"
    have wc: "unat (ins_wordCount s + 1) = unat (ins_wordCount s) + 1" using Cons.prems(4) by (simp add: unat_add_mod)
    have "(icmp_insertChecksum ^^ length ws) ?t = ?t\<lparr>insf_in := (insf_in ?t)(ins_streamSource ?t := rest), insf_out := insf_out ?t @ ws, ins_wordCount := 0\<rparr>"
      by (rule Cons.IH[OF q(2)]) (use Cons.prems(3,4) q(1) wc in \<open>simp_all add: t\<close>)
    then show ?thesis using q(1) by (simp add: funpow_Suc_right t fun_upd_def[symmetric] del: funpow.simps)
  qed
qed simp

lemma ins_packet:
  assumes "packet 8 ws bs" and "message_ok bs" and "ins_wordCount s = 0" and "insf_in s False = ws @ rest" and "insf_checksum s False = c # cs"
  shows "\<exists>out. (icmp_insertChecksum ^^ length ws) s = s\<lparr>ins_streamSource := False, insf_in := (insf_in s)(False := rest),
      insf_checksum := (insf_checksum s)(False := cs), insf_out := insf_out s @ out\<rparr> \<and> packet 8 out (put_msg_checksum c bs)"
proof -
  let ?f = icmp_insertChecksum
  have len: "25 \<le> length bs" "length bs < 65536" using assms(2) by (simp_all add: message_ok_def)
  obtain p m src dst ty co c0 c1 qs where bs: "bs = p @ m @ src @ dst @ [ty, co, c0, c1] @ qs"
    "length p = 8" "length m = 4" "length src = 4" "length dst = 4" using message_parts[OF len(1)] by blast
  have d: "take 8 bs = p" "take 8 (drop 8 bs) = m @ src" "take 8 (drop 16 bs) = dst @ [ty, co, c0, c1]" "drop 24 bs = qs"
    using bs(2-5) by (simp_all add: bs(1))
  obtain w0 w1 w2 vs where ws: "ws = w0 # w1 # w2 # vs" "w0 = \<lparr>ax_lanes = kept p, ax_last = False\<rparr>"
    "w1 = \<lparr>ax_lanes = kept (m @ src), ax_last = False\<rparr>" "w2 = \<lparr>ax_lanes = kept (dst @ [ty, co, c0, c1]), ax_last = False\<rparr>"
    "packet 8 vs qs" using four_words[OF assms(1) len(1)] unfolding d by metis
  define x where "x = \<lparr>ax_lanes = kept (dst @ [ty, co, range_get 7 0 c, range_get 15 8 c]), ax_last = False\<rparr>"
  have x: "ins_put c w2 = x" using bs(5) by (simp add: ins_put_def set_byte_def ws(4) x_def kept_def nth_append list_update_append)
  define t where "t = s\<lparr>ins_streamSource := False, insf_in := (insf_in s)(False := vs @ rest), insf_checksum := (insf_checksum s)(False := cs),
      insf_out := insf_out s @ [w0, w1, x], ins_wordCount := 3\<rparr>"
  have "?f s = s\<lparr>ins_streamSource := False, insf_in := (insf_in s)(False := w1 # w2 # vs @ rest), insf_out := insf_out s @ [w0], ins_wordCount := 1\<rparr>"
    using assms(3,4) by (simp add: icmp_insertChecksum_def Let_def ws(1))
  moreover have "?f \<dots> = s\<lparr>ins_streamSource := False, insf_in := (insf_in s)(False := w2 # vs @ rest), insf_out := insf_out s @ [w0, w1], ins_wordCount := 2\<rparr>"
    by (simp add: icmp_insertChecksum_def Let_def) (simp add: ws(3))
  moreover have "?f \<dots> = t" using assms(5) by (simp add: icmp_insertChecksum_def Let_def x t_def)
  ultimately have three: "(?f ^^ 3) s = t" by (simp add: numeral_3_eq_3)
  have few: "3 + length vs < 65536" using packet_words[OF ws(5)] len(2) bs(2-5) by (simp add: bs(1))
  have "(?f ^^ length vs) t = t\<lparr>insf_in := (insf_in t)(ins_streamSource t := rest), insf_out := insf_out t @ vs, ins_wordCount := 0\<rparr>"
    by (rule ins_rest_run[OF ws(5)]) (use few in \<open>simp_all add: t_def\<close>)
  moreover have "(?f ^^ length ws) s = (?f ^^ length vs) t"
  proof -
    have "length ws = length vs + 3" by (simp add: ws(1))
    then show ?thesis by (simp only: funpow_add comp_apply three)
  qed
  moreover have "packet 8 (w0 # w1 # x # vs) (put_msg_checksum c bs)"
  proof -
    have "put_msg_checksum c bs = p @ (m @ src) @ (dst @ [ty, co, range_get 7 0 c, range_get 15 8 c]) @ qs"
      using bs(2-5) by (simp add: put_msg_checksum_def bs(1) list_update_append)
    then show ?thesis unfolding ws(2,3) x_def using ws(5) bs(2-5) by (simp only:) (intro packet_kept, simp_all)
  qed
  ultimately show ?thesis using assms(3) by (intro exI[of _ "w0 # w1 # x # vs"]) (simp add: t_def)
qed

text \<open>
  A packet of three words is too short for a message, and its last word is not looked at: the process stays in the middle of a packet, sends
  the next packet as it is and keeps its checksum for the one after that.
\<close>

lemma ins_short_packet:
  assumes "ins_wordCount s = 0" and "insf_in s False = w0 # w1 # w2 # ws @ rest" and "insf_checksum s False = c # cs"
    and "\<not> ax_last w1" and "packet 8 ws bs" and "length ws < 65533"
  shows "insf_out ((icmp_insertChecksum ^^ (length ws + 3)) s) = insf_out s @ [w0, w1, ins_put c w2] @ ws
    \<and> insf_checksum ((icmp_insertChecksum ^^ (length ws + 3)) s) False = cs"
proof -
  let ?f = icmp_insertChecksum
  define t where "t = s\<lparr>ins_streamSource := False, insf_in := (insf_in s)(False := ws @ rest), insf_checksum := (insf_checksum s)(False := cs),
      insf_out := insf_out s @ [w0, w1, ins_put c w2], ins_wordCount := 3\<rparr>"
  have "?f s = s\<lparr>ins_streamSource := False, insf_in := (insf_in s)(False := w1 # w2 # ws @ rest), insf_out := insf_out s @ [w0], ins_wordCount := 1\<rparr>"
    using assms(1,2) by (simp add: icmp_insertChecksum_def Let_def)
  moreover have "?f \<dots> = s\<lparr>ins_streamSource := False, insf_in := (insf_in s)(False := w2 # ws @ rest), insf_out := insf_out s @ [w0, w1], ins_wordCount := 2\<rparr>"
    using assms(4) by (simp add: icmp_insertChecksum_def Let_def)
  moreover have "?f \<dots> = t" using assms(3) by (simp add: icmp_insertChecksum_def Let_def t_def)
  ultimately have three: "(?f ^^ 3) s = t" by (simp add: numeral_3_eq_3)
  have "(?f ^^ length ws) t = t\<lparr>insf_in := (insf_in t)(ins_streamSource t := rest), insf_out := insf_out t @ ws, ins_wordCount := 0\<rparr>"
    by (rule ins_rest_run[OF assms(5)]) (use assms(6) in \<open>simp_all add: t_def\<close>)
  then show ?thesis by (simp only: funpow_add comp_apply three) (simp add: t_def)
qed

subsection \<open>The answer is valid\<close>

lemma canon_full: "canon n = 65535 \<longleftrightarrow> 0 < n \<and> 65535 dvd n"
proof (cases "n = 0")
  case False
  then obtain k where k: "n = Suc k" by (cases n) auto
  have "canon n = 65535 \<longleftrightarrow> k mod 65535 = 65534" by (simp add: canon_def k)
  also have "\<dots> \<longleftrightarrow> Suc k mod 65535 = 0" by (simp add: mod_Suc)
  finally show ?thesis by (simp add: k dvd_eq_mod_eq_0)
qed (simp add: canon_def)

lemma ones_sum_be: "ones_sum (be_words bs) = canon (sum_list (be_words bs))"
  using be_words_bound by (simp add: ones_sum_canon)

lemma ones_sum_full: "ones_sum (be_words bs) = 65535 \<longleftrightarrow> 0 < sum_list (be_words bs) \<and> 65535 dvd sum_list (be_words bs)"
  by (simp add: ones_sum_be canon_full)

lemma low_high: "unat (range_get 7 0 (c :: u16) :: byte) + 256 * unat (range_get 15 8 c :: byte) = unat c"
proof -
  have "(range_get 7 0 c :: byte) = ucast c" "(range_get 15 8 c :: byte) = ucast (drop_bit 8 c)"
    by (intro bit_word_eqI; auto simp: bit_range_get bit_simps add.commute)+
  moreover have "unat c div 256 < 256" using unat_bound[of c] by (simp add: less_mult_imp_div_less)
  ultimately show ?thesis by (simp add: unat_cast unat_drop_bit_div)
qed

lemma msg_checksum_nat: "unat (word_rcat [c1, c0 :: byte] :: u16) = unat c0 + 256 * unat c1"
proof -
  have i: "uint c0 + uint c1 * 256 = int (unat c0 + 256 * unat c1)" by simp
  have "(word_rcat [c1, c0] :: u16) = word_of_int (uint c0 + uint c1 * 256)" by (simp add: word_rcat_def)
  then have "(word_rcat [c1, c0] :: u16) = of_nat (unat c0 + 256 * unat c1)" unfolding i by (simp only: of_int_of_nat_eq)
  then show ?thesis using unat_bound[of c0] unat_bound[of c1] by (simp only: unat_of_nat) simp
qed

lemma answer_parts:
  assumes "bs = p @ m @ src @ dst @ [ty, co, c0, c1] @ qs" and "length p = 8" and "length m = 4" and "length src = 4" and "length dst = 4"
  shows "echo_answer bs = p @ m @ dst @ src @ [ECHO_REPLY, co, range_get 7 0 (echo_checksum (msg_checksum bs)), range_get 15 8 (echo_checksum (msg_checksum bs))] @ qs"
  using assms(2-5) unfolding echo_answer_def echoed_def put_msg_checksum_def by (simp add: assms(1) list_update_append)

lemma answer_valid:
  assumes "echo_request bs" and "message_ok bs"
  shows "ones_sum (be_words (drop 20 (echo_answer bs))) = 65535"
proof -
  obtain p m src dst ty co c0 c1 qs where bs: "bs = p @ m @ src @ dst @ [ty, co, c0, c1] @ qs"
    "length p = 8" "length m = 4" "length src = 4" "length dst = 4" using message_parts[of bs] assms(2) unfolding message_ok_def by blast
  define c where "c = echo_checksum (msg_checksum bs)"
  define d0 d1 where "d0 = unat (range_get 7 0 c :: byte)" and "d1 = unat (range_get 15 8 c :: byte)"
  define Q where "Q = sum_list (be_words qs)"
  have type: "ty = 8" "co = 0" using assms(1) bs(2-5) by (simp_all add: echo_request_def bs(1) nth_append)
  have S: "drop 20 bs = [ty, co, c0, c1] @ qs" using bs(2-5) by (simp add: bs(1))
  have full: "65535 dvd 2048 + (256 * unat c0 + unat c1) + Q"
    using assms(1) unfolding echo_request_def ones_sum_full S by (simp add: type Q_def add.assoc)
  have n: "unat (msg_checksum bs) = unat c0 + 256 * unat c1"
    using bs(2-5) by (simp add: msg_checksum_def bs(1) nth_append msg_checksum_nat)
  have "ones_add (unat (msg_checksum bs)) 8 < 65536" using unat_bound[of "msg_checksum bs"] by (simp add: ones_add_def) arith
  then have d: "d0 + 256 * d1 = ones_add (unat (msg_checksum bs)) 8"
    unfolding d0_def d1_def low_high by (simp add: c_def echo_checksum_def unat_of_nat)
  then obtain k where k: "d0 + 256 * d1 + 65535 * k = unat c0 + 256 * unat c1 + 8" "0 < d0 + 256 * d1"
    unfolding n ones_add_def by (cases "unat c0 + 256 * unat c1 + 8 < 65536") (auto intro: that[of 0] that[of 1])
  have "256 * d0 + d1 + Q + 65535 * (256 * k + d1) = (2048 + (256 * unat c0 + unat c1) + Q) + 65535 * unat c1"
    using k(1) by (simp add: algebra_simps)
  then have "65535 dvd (256 * d0 + d1 + Q + 65535 * (256 * k + d1))" by (simp only:) (rule dvd_add[OF full], simp)
  then have "65535 dvd (256 * d0 + d1 + Q)" by (simp only: dvd_add_left_iff dvd_triv_left)
  moreover have "0 < 256 * d0 + d1 + Q" using k(2) by auto
  moreover have "sum_list (be_words (drop 20 (echo_answer bs))) = 256 * d0 + d1 + Q"
    using bs(2-5) by (simp add: answer_parts[OF bs] type ECHO_REPLY_def Q_def d0_def d1_def c_def)
  ultimately show ?thesis by (simp add: ones_sum_full)
qed

lemma answer_header: "message_ok bs \<Longrightarrow> ones_sum (be_words (take 20 (echo_answer bs))) = ones_sum (be_words (take 20 bs))"
proof -
  assume "message_ok bs"
  then obtain p m src dst ty co c0 c1 qs where bs: "bs = p @ m @ src @ dst @ [ty, co, c0, c1] @ qs"
    "length p = 8" "length m = 4" "length src = 4" "length dst = 4" using message_parts[of bs] unfolding message_ok_def by blast
  have "take 20 (echo_answer bs) = p @ m @ dst @ src" "take 20 bs = p @ m @ src @ dst" using bs(2-5) by (simp_all add: answer_parts[OF bs]) (simp add: bs(1))
  then show ?thesis unfolding ones_sum_be using bs(2-5) by (simp add: be_words_append ac_simps)
qed

end
