(* ===== verification/Icmp_Trip.thy ===== *)
theory Icmp_Trip
  imports Icmp_Echo Segment_Check
begin

text \<open>
  The ICMP server while no message about an undelivered packet is to be made: what it sends for the packets that come in, under every
  schedule of its processes.
\<close>

subsection \<open>The processes side by side\<close>

text \<open>Nothing waits at the processes that make messages about packets.\<close>

definition icmp_inv :: "icmp_st \<Rightarrow> bool" where
  "icmp_inv s \<longleftrightarrow> cicf_out (is_cic s) = [] \<and> cicf_valid (is_cic s) = [] \<and> cicf_checksum (is_cic s) = [] \<and> drpf_out (is_drp s) = []
     \<and> (drp_isFirstWord (is_drp s) \<longrightarrow> \<not> drp_drop (is_drp s))
     \<and> upu_state (is_upu s) = UDP_IDLE \<and> upuf_udp (is_upu s) = [] \<and> upuf_ttl (is_upu s) = [] \<and> upuf_data (is_upu s) = []
     \<and> upuf_header (is_upu s) = [] \<and> upuf_checksum (is_upu s) = []
     \<and> aip_state (is_aip s) = AIP_IDLE \<and> aipf_header (is_aip s) = [] \<and> aipf_out (is_aip s) = []
     \<and> insf_in (is_ins s) True = [] \<and> \<not> ins_streamSource (is_ins s)"

definition cic_can :: "cic_st \<Rightarrow> bool" where
  "cic_can s \<longleftrightarrow> cic_writeLastOne s \<or> cic_computeCs s \<or> cicf_in s \<noteq> []"

definition drp_can :: "drp_st \<Rightarrow> bool" where
  "drp_can s \<longleftrightarrow> drpf_in s \<noteq> [] \<and> (drp_isFirstWord s \<longrightarrow> drpf_valid s \<noteq> [])"

definition ins_can :: "ins_st \<Rightarrow> bool" where
  "ins_can s \<longleftrightarrow> insf_in s False \<noteq> [] \<and> (ins_wordCount s = 2 \<longrightarrow> insf_checksum s False \<noteq> [])"

fun icmp_can :: "icmp_proc \<Rightarrow> icmp_st \<Rightarrow> bool" where
  "icmp_can CheckIcmp s \<longleftrightarrow> cic_can (is_cic s)"
| "icmp_can IcmpDropper s \<longleftrightarrow> drp_can (is_drp s)"
| "icmp_can InsertIcmp s \<longleftrightarrow> ins_can (is_ins s)"
| "icmp_can _ s \<longleftrightarrow> False"

text \<open>A packet that comes in.\<close>

definition cic_feed :: "net_axis list \<Rightarrow> cic_st \<Rightarrow> cic_st" where
  "cic_feed ws p = p\<lparr>cicf_in := cicf_in p @ ws\<rparr>"

definition icmp_put :: "net_axis list \<Rightarrow> icmp_st \<Rightarrow> icmp_st" where
  "icmp_put ws s = s\<lparr>is_cic := cic_feed ws (is_cic s)\<rparr>"

lemma feed_can: "drp_can p \<Longrightarrow> drp_can (drp_feed ws vs p)" "ins_can q \<Longrightarrow> ins_can (ins_feed False xs cs q)" "cic_can r \<Longrightarrow> cic_can (cic_feed ys r)"
  by (auto simp: drp_can_def drp_feed_def ins_can_def ins_feed_def cic_can_def cic_feed_def)

lemma feed_nil [simp]: "drp_feed [] [] p = p" "ins_feed i [] [] q = q"
  by (simp_all add: drp_feed_def ins_feed_def)

lemma feed_feed [simp]: "drp_feed ws vs (drp_feed ws' vs' p) = drp_feed (ws' @ ws) (vs' @ vs) p"
  "ins_feed i xs cs (ins_feed i xs' cs' q) = ins_feed i (xs' @ xs) (cs' @ cs) q"
  by (simp_all add: drp_feed_def ins_feed_def)

lemma cic_more: "cic_can s \<Longrightarrow> check_icmp_checksum (cic_feed ws s) = cic_feed ws (check_icmp_checksum s)"
  by (cases "cic_writeLastOne s"; cases "cic_computeCs s"; cases "cicf_in s")
    (simp_all add: cic_can_def check_icmp_checksum_def cic_compute_def cic_word_def cic_third_def Let_def cic_feed_def)

lemma drp_more: "drp_can s \<Longrightarrow> icmp_dropper u (drp_feed ws vs s) = drp_feed ws vs (icmp_dropper u s)"
  by (auto simp: drp_can_def icmp_dropper_def Let_def drp_feed_def)

lemma ins_more: "ins_can s \<Longrightarrow> \<not> ins_streamSource s \<Longrightarrow> icmp_insertChecksum (ins_feed False ws cs s) = ins_feed False ws cs (icmp_insertChecksum s)"
  by (auto simp: ins_can_def icmp_insertChecksum_def Let_def ins_feed_def fun_eq_iff)

lemmas icmp_network = icmp_act_def cic_deliver_def drp_deliver_def upu_deliver_def aip_deliver_def

lemma icmp_quiet_side: "icmp_inv s \<Longrightarrow> udpPortUnreachable a b c (is_upu s) = is_upu s \<and> udpAddIpHeader d (is_aip s) = is_aip s"
  by (simp add: icmp_inv_def udpPortUnreachable_def udpAddIpHeader_def)

lemma icmp_idle: "icmp_inv s \<Longrightarrow> \<not> icmp_can p s \<Longrightarrow> icmp_act e p s = s"
  using icmp_quiet_side[of s]
  by (cases p) (auto simp: icmp_network icmp_inv_def check_icmp_checksum_def cic_can_def drp_can_def icmp_dropper_def Let_def ins_can_def
      icmp_insertChecksum_def)

lemma icmp_inv_act: "icmp_inv s \<Longrightarrow> icmp_inv (icmp_act e p s)"
proof (cases p)
  case InsertIcmp
  assume "icmp_inv s"
  then show ?thesis using InsertIcmp by (auto simp: icmp_network icmp_inv_def icmp_insertChecksum_def Let_def)
next
  case IcmpDropper
  assume "icmp_inv s"
  then show ?thesis using IcmpDropper by (auto simp: icmp_network icmp_inv_def icmp_dropper_def Let_def ins_feed_def)
qed (use icmp_quiet_side[of s] in \<open>auto simp: icmp_network icmp_inv_def ins_feed_def drp_feed_def\<close>)

lemma icmp_keeps:
  assumes "icmp_inv s" and "p \<noteq> q" and "icmp_can p s" and "icmp_can q s"
  shows "icmp_can p (icmp_act e q s)"
  using assms by (cases q; cases p) (simp_all add: icmp_network feed_can)

lemma icmp_commutes:
  assumes "icmp_inv s" and "p \<noteq> q" and "icmp_can p s" and "icmp_can q s"
  shows "icmp_act e p (icmp_act e q s) = icmp_act e q (icmp_act e p s)"
proof -
  have clear: "(drp_feed ws vs d)\<lparr>drpf_out := []\<rparr> = drp_feed ws vs (d\<lparr>drpf_out := []\<rparr>)" "drpf_out (drp_feed ws vs d) = drpf_out d" for ws vs d
    by (simp_all add: drp_feed_def)
  have ins: "\<not> ins_streamSource (is_ins s)" using assms(1) by (simp add: icmp_inv_def)
  have feed: "ins_feed False [] cs (ins_feed False ws [] i) = ins_feed False ws [] (ins_feed False [] cs i)" for ws cs i
    by (simp add: ins_feed_def)
  show ?thesis using assms(2-4) ins
    by (cases p; cases q) (simp_all add: icmp_network drp_more ins_more clear feed_can del: feed_feed, simp_all add: feed)
qed

interpretation icf: fed_dataflow icmp_inv icmp_can "icmp_act e" icmp_put for e
proof
  fix p q ws and s :: icmp_st
  show "icmp_inv s \<Longrightarrow> icmp_inv (icmp_act e p s)" by (rule icmp_inv_act)
  show "icmp_inv s \<Longrightarrow> \<not> icmp_can p s \<Longrightarrow> icmp_act e p s = s" by (rule icmp_idle)
  show "icmp_inv s \<Longrightarrow> p \<noteq> q \<Longrightarrow> icmp_can p s \<Longrightarrow> icmp_can q s \<Longrightarrow> icmp_can p (icmp_act e q s)" by (rule icmp_keeps)
  show "icmp_inv s \<Longrightarrow> p \<noteq> q \<Longrightarrow> icmp_can p s \<Longrightarrow> icmp_can q s \<Longrightarrow> icmp_act e p (icmp_act e q s) = icmp_act e q (icmp_act e p s)"
    by (rule icmp_commutes)
  show "icmp_inv s \<Longrightarrow> icmp_inv (icmp_put ws s)" by (simp add: icmp_inv_def icmp_put_def cic_feed_def)
  show "icmp_can p s \<Longrightarrow> icmp_can p (icmp_put ws s)" by (cases p) (simp_all add: icmp_put_def feed_can)
  have clear: "(cic_feed ws r)\<lparr>cicf_out := [], cicf_valid := [], cicf_checksum := []\<rparr>
      = cic_feed ws (r\<lparr>cicf_out := [], cicf_valid := [], cicf_checksum := []\<rparr>)" "cicf_out (cic_feed ws r) = cicf_out r"
      "cicf_valid (cic_feed ws r) = cicf_valid r" "cicf_checksum (cic_feed ws r) = cicf_checksum r" for r
    by (simp_all add: cic_feed_def)
  show "icmp_can p s \<Longrightarrow> icmp_act e p (icmp_put ws s) = icmp_put ws (icmp_act e p s)"
    by (cases p) (simp_all add: icmp_put_def icmp_network cic_more clear)
qed

subsection \<open>A packet through the server\<close>

definition icmp_rest :: "icmp_st \<Rightarrow> bool" where
  "icmp_rest s \<longleftrightarrow> icmp_inv s \<and> cic_ready (is_cic s) \<and> cicf_in (is_cic s) = [] \<and> drp_ready (is_drp s) \<and> drpf_in (is_drp s) = []
     \<and> drpf_valid (is_drp s) = [] \<and> ins_wordCount (is_ins s) = 0 \<and> insf_in (is_ins s) False = [] \<and> insf_checksum (is_ins s) False = []"

lemma icmp_rest_quiet: "icmp_rest s \<Longrightarrow> icf.quiet s"
  unfolding icf.quiet_def
  by (rule allI, case_tac p) (simp_all add: icmp_rest_def cic_can_def cic_ready_def drp_can_def ins_can_def)

lemma run_check:
  assumes "icmp_inv s"
  shows "(icmp_act e CheckIcmp ^^ k) s = cic_deliver ((check_icmp_checksum ^^ k) (is_cic s)) s"
proof (rule run_stage[where clear = "\<lambda>p. p\<lparr>cicf_out := [], cicf_valid := [], cicf_checksum := []\<rparr>"
      and join = "\<lambda>p q. q\<lparr>cicf_out := cicf_out p @ cicf_out q, cicf_valid := cicf_valid p @ cicf_valid q, cicf_checksum := cicf_checksum p @ cicf_checksum q\<rparr>"])
  have "(is_cic s)\<lparr>cicf_out := [], cicf_valid := [], cicf_checksum := []\<rparr> = is_cic s" using assms by (simp add: icmp_inv_def)
  then show "cic_deliver (is_cic s) s = s" using assms by (simp add: cic_deliver_def icmp_inv_def)
  fix p :: cic_st
  let ?c = "p\<lparr>cicf_out := [], cicf_valid := [], cicf_checksum := []\<rparr>"
  show "check_icmp_checksum p = (check_icmp_checksum ?c)\<lparr>cicf_out := cicf_out p @ cicf_out (check_icmp_checksum ?c),
      cicf_valid := cicf_valid p @ cicf_valid (check_icmp_checksum ?c), cicf_checksum := cicf_checksum p @ cicf_checksum (check_icmp_checksum ?c)\<rparr>"
    by (cases "cic_writeLastOne p"; cases "cic_computeCs p"; cases "cicf_in p")
      (simp_all add: check_icmp_checksum_def cic_compute_def cic_word_def cic_third_def Let_def)
qed (simp_all add: icmp_network)

lemma run_icmp_dropper:
  assumes "icmp_inv s"
  shows "(icmp_act e IcmpDropper ^^ k) s = drp_deliver ((icmp_dropper (ie_last e) ^^ k) (is_drp s)) s"
proof (rule run_stage[where clear = "\<lambda>p. p\<lparr>drpf_out := []\<rparr>" and join = "\<lambda>p q. q\<lparr>drpf_out := drpf_out p @ drpf_out q\<rparr>"])
  have "(is_drp s)\<lparr>drpf_out := []\<rparr> = is_drp s" using assms by (simp add: icmp_inv_def)
  then show "drp_deliver (is_drp s) s = s" using assms by (simp add: drp_deliver_def icmp_inv_def)
qed (auto simp: icmp_network icmp_dropper_def Let_def)

lemma run_icmp_insert: "(icmp_act e InsertIcmp ^^ k) s = s\<lparr>is_ins := (icmp_insertChecksum ^^ k) (is_ins s)\<rparr>"
  by (induction k) (simp_all add: icmp_act_def)

text \<open>What leaves the server for a packet.\<close>

definition icmp_answered :: "byte list \<Rightarrow> icmp_st \<Rightarrow> icmp_st \<Rightarrow> bool" where
  "icmp_answered bs s t \<longleftrightarrow> icmp_rest t \<and> (\<exists>vs. insf_out (is_ins t) = insf_out (is_ins s) @ vs
     \<and> (if echo_request bs then packet 8 vs (echo_answer bs) else vs = []))"

lemma icmp_packet:
  assumes "icmp_rest s" and "packet 8 ws bs" and "message_ok bs"
  shows "\<exists>qs. icmp_answered bs s (fold (icmp_act e) qs (icmp_put ws s))"
proof -
  let ?v = "echo_request bs" and ?c = "echo_checksum (msg_checksum bs)"
  have inv: "icmp_inv s" using assms(1) by (simp add: icmp_rest_def)
  have len: "25 \<le> length bs" using assms(3) by (simp add: message_ok_def)
  have elen: "length (echoed bs) = length bs" using len by (simp add: echoed_def)
  have put: "is_cic (icmp_put ws s) = cic_feed ws (is_cic s)" "icmp_inv (icmp_put ws s)" using inv
    by (simp_all add: icmp_put_def icmp_inv_def cic_feed_def)
  have ready: "cic_ready (cic_feed ws (is_cic s))" "cicf_in (cic_feed ws (is_cic s)) = ws @ []"
    using assms(1) by (simp_all add: icmp_rest_def cic_ready_def cic_feed_def)
  obtain t out where t: "(check_icmp_checksum ^^ (length ws + 5)) (cic_feed ws (is_cic s)) = t" "cic_ready t" "cicf_in t = []"
    "cicf_out t = out" "packet 8 out (echoed bs)" "cicf_valid t = [?v]" "cicf_checksum t = (if ?v then [?c] else [])"
    using cic_packet[OF assms(2,3) ready] inv by (auto simp: icmp_inv_def cic_feed_def)
  define s1 where "s1 = cic_deliver t (icmp_put ws s)"
  have r1: "(icmp_act e CheckIcmp ^^ (length ws + 5)) (icmp_put ws s) = s1" unfolding s1_def run_check[OF put(2)] put(1) t(1) ..
  have i1: "icmp_inv s1" using inv by (simp add: s1_def cic_deliver_def icmp_put_def icmp_inv_def drp_feed_def ins_feed_def)
  have d1: "is_drp s1 = (is_drp s)\<lparr>drpf_in := out @ [], drpf_valid := [?v]\<rparr>"
    using assms(1) t by (simp add: s1_def cic_deliver_def icmp_put_def drp_feed_def icmp_rest_def)
  have "(icmp_dropper (ie_last e) ^^ length out) (is_drp s1) = (is_drp s1)\<lparr>drpf_in := [], drpf_valid := [], drpf_out := drpf_out (is_drp s1) @ (if ?v then out else [])\<rparr>"
    by (rule drp_packet[OF t(5)]) (use assms(1) elen len in \<open>simp_all add: d1 drp_ready_def icmp_rest_def\<close>)
  moreover have "(is_drp s)\<lparr>drpf_in := [], drpf_valid := []\<rparr> = is_drp s" "drpf_out (is_drp s) = []"
    using assms(1) by (simp_all add: icmp_rest_def icmp_inv_def)
  ultimately have d2: "(icmp_dropper (ie_last e) ^^ length out) (is_drp s1) = (is_drp s)\<lparr>drpf_out := if ?v then out else []\<rparr>"
    by (simp add: d1)
  define s2 where "s2 = drp_deliver ((is_drp s)\<lparr>drpf_out := if ?v then out else []\<rparr>) s1"
  have r2: "(icmp_act e IcmpDropper ^^ length out) s1 = s2" unfolding s2_def run_icmp_dropper[OF i1] d2 ..
  have ins2: "is_ins s2 = ins_feed False (if ?v then out else []) (if ?v then [?c] else []) (is_ins s)"
    by (simp add: s2_def s1_def drp_deliver_def cic_deliver_def icmp_put_def t(7))
  have clear: "(is_drp s)\<lparr>drpf_out := []\<rparr> = is_drp s" using inv by (simp add: icmp_inv_def)
  have rest2: "icmp_rest (s2\<lparr>is_ins := i\<rparr>)" if "ins_wordCount i = 0" "insf_in i False = []" "insf_checksum i False = []" "insf_in i True = []" "\<not> ins_streamSource i" for i
    using that assms(1) t(2,3) by (simp add: s2_def s1_def drp_deliver_def cic_deliver_def icmp_put_def icmp_rest_def icmp_inv_def cic_ready_def drp_ready_def)
  have run: "fold (icmp_act e) (replicate (length ws + 5) CheckIcmp @ replicate (length out) IcmpDropper @ replicate n InsertIcmp) (icmp_put ws s)
      = s2\<lparr>is_ins := (icmp_insertChecksum ^^ n) (is_ins s2)\<rparr>" for n
    by (simp add: run_replicate r1 r2 run_icmp_insert del: replicate.simps)
  show ?thesis
  proof (cases ?v)
    case False
    then have "is_ins s2 = is_ins s" by (simp add: ins2)
    then have "icmp_answered bs s (s2\<lparr>is_ins := (icmp_insertChecksum ^^ 0) (is_ins s2)\<rparr>)"
      using assms(1) False rest2[of "is_ins s"] by (simp add: icmp_answered_def icmp_rest_def icmp_inv_def)
    then show ?thesis using run[of 0] by metis
  next
    case True
    have ok: "message_ok (echoed bs)" using assms(3) by (simp add: message_ok_def elen)
    have "ins_wordCount (is_ins s2) = 0" "insf_in (is_ins s2) False = out @ []" "insf_checksum (is_ins s2) False = [?c]"
      using assms(1) True by (simp_all add: ins2 ins_feed_def icmp_rest_def)
    from ins_packet[OF t(5) ok this] obtain vs where vs: "(icmp_insertChecksum ^^ length out) (is_ins s2) = (is_ins s2)\<lparr>ins_streamSource := False,
        insf_in := (insf_in (is_ins s2))(False := []), insf_checksum := (insf_checksum (is_ins s2))(False := []),
        insf_out := insf_out (is_ins s2) @ vs\<rparr>" "packet 8 vs (echo_answer bs)" unfolding echo_answer_def by blast
    have "icmp_answered bs s (s2\<lparr>is_ins := (icmp_insertChecksum ^^ length out) (is_ins s2)\<rparr>)"
      unfolding icmp_answered_def vs(1)
      by (intro conjI exI[of _ vs] rest2) (use assms(1) True vs(2) in \<open>simp_all add: ins2 ins_feed_def icmp_rest_def icmp_inv_def\<close>)
    then show ?thesis using run[of "length out"] by metis
  qed
qed

subsection \<open>What the server promises\<close>

definition icmp_run :: "icmp_env \<Rightarrow> icmp_proc list list \<Rightarrow> icmp_st \<Rightarrow> icmp_st" where
  "icmp_run e rounds = fold (icmp_act e) (concat rounds)"

lemma icmp_calls:
  "(icmp_server e ^^ k) s = icmp_run e (replicate k [CheckIcmp, PortUnreachable, AddIpHeader, IcmpDropper, InsertIcmp]) s"
  unfolding icmp_server_def icmp_run_def by (rule calls_as_rounds)

lemma icmp_calls_fair: "fair (replicate k [CheckIcmp, PortUnreachable, AddIpHeader, IcmpDropper, InsertIcmp])"
  by (intro calls_fair allI, case_tac p) simp_all

definition valid_answer :: "byte list \<Rightarrow> net_axis list \<Rightarrow> bool" where
  "valid_answer bs vs \<longleftrightarrow> packet 8 vs (echo_answer bs) \<and> ones_sum (be_words (drop 20 (echo_answer bs))) = 65535
     \<and> ones_sum (be_words (take 20 (echo_answer bs))) = ones_sum (be_words (take 20 bs))"

lemma through_answers:
  assumes "through (\<lambda>f. icmp_answered (snd f)) fs s t" and "\<forall>f \<in> set fs. message_ok (snd f)"
  shows "\<exists>vss. insf_out (is_ins t) = insf_out (is_ins s) @ concat vss \<and> list_all2 valid_answer (filter echo_request (map snd fs)) vss"
  using assms
proof (induction fs arbitrary: s)
  case Nil
  then show ?case by (intro exI[of _ "[]"]) simp
next
  case (Cons f fs)
  obtain u where u: "icmp_answered (snd f) s u" "through (\<lambda>f. icmp_answered (snd f)) fs u t" using Cons.prems(1) by auto
  obtain vss where vss: "insf_out (is_ins t) = insf_out (is_ins u) @ concat vss" "list_all2 valid_answer (filter echo_request (map snd fs)) vss"
    using Cons.IH[OF u(2)] Cons.prems(2) by auto
  obtain vs where vs: "insf_out (is_ins u) = insf_out (is_ins s) @ vs" "if echo_request (snd f) then packet 8 vs (echo_answer (snd f)) else vs = []"
    using u(1) unfolding icmp_answered_def by blast
  have ok: "message_ok (snd f)" using Cons.prems(2) by simp
  show ?case
  proof (cases "echo_request (snd f)")
    case True
    then have "valid_answer (snd f) vs" using vs(2) answer_valid[OF True ok] answer_header[OF ok] by (simp add: valid_answer_def)
    then show ?thesis using vss vs(1) True by (intro exI[of _ "vs # vss"]) simp
  next
    case False
    then show ?thesis using vss vs by (intro exI[of _ vss]) simp
  qed
qed

text \<open>C38. The ICMP server answers pings, while no message about an undelivered packet is to be made: of any packets of 25 to 65535 bytes that come in
  one behind the other, exactly those that hold an echo request with the
  right checksum are answered, in order, with the same packet to its sender: the addresses exchanged, the type that of a reply. The checksum
  of the answer, which is computed from that of the request without another pass over the data, is right, and that of the IPv4 header stays
  right. Everything else among them is dropped. This holds however the five processes are scheduled. (After a packet of 24 bytes that
  passes the test the next answer is sent without its checksum: \<open>ins_short_packet\<close>.)\<close>

theorem icmp_echo:
  assumes "icmp_rest s" and "\<forall>(ws, bs) \<in> set fs. packet 8 ws bs \<and> message_ok bs"
  shows "\<exists>k. \<forall>rounds. fair rounds \<and> k \<le> length rounds \<longrightarrow>
    (\<exists>vss. insf_out (is_ins (icmp_run e rounds (fold icmp_put (map fst fs) s))) = insf_out (is_ins s) @ concat vss
       \<and> list_all2 valid_answer (filter echo_request (map snd fs)) vss)"
proof -
  have one: "\<exists>qs. icmp_answered (snd f) s (fold (icmp_act e) qs (icmp_put (fst f) s)) \<and> icmp_rest (fold (icmp_act e) qs (icmp_put (fst f) s))"
    if rest: "icmp_rest s" and ok: "packet 8 (fst f) (snd f) \<and> message_ok (snd f)" for f s
  proof -
    obtain qs where qs: "icmp_answered (snd f) s (fold (icmp_act e) qs (icmp_put (fst f) s))" using icmp_packet[OF rest, of "fst f" "snd f" e] ok by blast
    then have "icmp_rest (fold (icmp_act e) qs (icmp_put (fst f) s))" by (simp add: icmp_answered_def)
    then show ?thesis using qs by blast
  qed
  have inv: "\<And>s. icmp_rest s \<Longrightarrow> icmp_inv s" by (simp add: icmp_rest_def)
  have ok: "\<forall>f \<in> set fs. packet 8 (fst f) (snd f) \<and> message_ok (snd f)" using assms(2) by auto
  obtain k t where k: "through (\<lambda>f. icmp_answered (snd f)) fs s t"
    "\<And>rounds. fair rounds \<Longrightarrow> k \<le> length rounds \<Longrightarrow> fold (icmp_act e) (concat rounds) (fold icmp_put (map fst fs) s) = t"
    using icf.feed_sequence[where rest = icmp_rest and ok = "\<lambda>f. packet 8 (fst f) (snd f) \<and> message_ok (snd f)" and g = fst
        and R = "\<lambda>f. icmp_answered (snd f)" and s = s and xs = fs and e = e, OF one inv icmp_rest_quiet assms(1) ok] by blast
  have "\<forall>f \<in> set fs. message_ok (snd f)" using assms(2) by auto
  from through_answers[OF k(1) this] show ?thesis by (intro exI[of _ k]) (simp add: icmp_run_def k(2))
qed

subsection \<open>Examples\<close>

text \<open>The server after reset, and a ping with four bytes of data.\<close>

definition icmp_demo :: icmp_st where
  "icmp_demo = \<lparr>is_cic = \<lparr>cic_sums = [0, 0, 0, 0], cic_wordCount = 0, cic_prevWord = \<lparr>ax_lanes = [], ax_last = False\<rparr>, cic_writeLastOne = False,
       cic_computeCs = False, cic_state = 0, cic_icmpChecksum = 0, cic_icmpType = 0, cic_icmpCode = 0, cicf_in = [], cicf_out = [],
       cicf_valid = [], cicf_checksum = []\<rparr>,
     is_upu = \<lparr>upu_state = UDP_IDLE, upu_checksum = 0, upu_ipWordCounter = 0, upu_streamSource = False, upuf_udp = [], upuf_ttl = [],
       upuf_data = [], upuf_header = [], upuf_checksum = []\<rparr>,
     is_aip = \<lparr>aip_state = AIP_IDLE, aip_tempWord = \<lparr>ax_lanes = [], ax_last = False\<rparr>, aip_sourceIP = [], aipf_data = [], aipf_header = [],
       aipf_out = []\<rparr>,
     is_drp = \<lparr>drp_isFirstWord = True, drp_drop = False, drpf_in = [], drpf_valid = [], drpf_out = []\<rparr>,
     is_ins = \<lparr>ins_wordCount = 0, ins_streamSource = False, insf_in = (\<lambda>_. []), insf_checksum = (\<lambda>_. []), insf_out = []\<rparr>\<rparr>"

lemma icmp_demo_rest: "icmp_rest icmp_demo"
  by (simp add: icmp_rest_def icmp_inv_def icmp_demo_def cic_ready_def drp_ready_def)

definition ping :: "byte list" where
  "ping = [0x45, 0, 0, 32, 0, 0, 0, 0, 64, 1, 0x66, 0xD8, 10, 0, 0, 1, 10, 0, 0, 2, 8, 0, 0xB0, 0xF5, 0x12, 0x34, 0, 1, 0x10, 0x20, 0x24, 0xB5]"

lemma ping_ok: "message_ok ping" "echo_request ping"
  by (simp_all add: message_ok_def ping_def echo_request_def ones_sum_def ones_add_def)

definition e0 :: icmp_env where
  "e0 = \<lparr>ie_full_data = False, ie_full_header = False, ie_full_checksum = False, ie_full_out = False, ie_last = False\<rparr>"

lemma ping_answer: "echo_answer ping = [0x45, 0, 0, 32, 0, 0, 0, 0, 64, 1, 0x66, 0xD8, 10, 0, 0, 2, 10, 0, 0, 1, 0, 0, 0xB8, 0xF5,
   0x12, 0x34, 0, 1, 0x10, 0x20, 0x24, 0xB5]"
proof -
  have "(word_rcat [0xF5, 0xB0 :: byte] :: u16) = 0xF5B0" by (simp add: word_rcat_def)
  moreover have "echo_checksum 0xF5B0 = 0xF5B8" by (simp add: echo_checksum_def ones_add_def)
  moreover have "(range_get 7 0 (0xF5B8 :: u16) :: byte) = 0xB8" "(range_get 15 8 (0xF5B8 :: u16) :: byte) = 0xF5" by (simp_all add: range_get_def)
  ultimately show ?thesis by (simp add: echo_answer_def put_msg_checksum_def msg_checksum_def echoed_def ping_def ECHO_REPLY_def)
qed

theorem icmp_echo_witness:
  "\<exists>k. \<forall>rounds. fair rounds \<and> k \<le> length rounds \<longrightarrow>
    packet 8 (insf_out (is_ins (icmp_run e0 rounds (icmp_put (words_of_bytes 8 ping) icmp_demo))))
      [0x45, 0, 0, 32, 0, 0, 0, 0, 64, 1, 0x66, 0xD8, 10, 0, 0, 2, 10, 0, 0, 1, 0, 0, 0xB8, 0xF5, 0x12, 0x34, 0, 1, 0x10, 0x20, 0x24, 0xB5]"
proof -
  have p: "packet 8 (words_of_bytes 8 ping) ping" by (rule words_of_bytes_packet) (simp_all add: ping_def)
  have out: "insf_out (is_ins icmp_demo) = []" by (simp add: icmp_demo_def)
  have ok: "\<forall>(ws, bs) \<in> set [(words_of_bytes 8 ping, ping)]. packet 8 ws bs \<and> message_ok bs" using p ping_ok(1) by simp
  have f: "filter echo_request (map snd [(words_of_bytes 8 ping, ping)]) = [ping]" using ping_ok(2) by simp
  have one: "packet 8 (concat vss) (echo_answer ping)" if "list_all2 valid_answer [ping] vss" for vss
    using that unfolding list_all2_Cons1 valid_answer_def by auto
  obtain k where k: "\<And>rounds. fair rounds \<Longrightarrow> k \<le> length rounds \<Longrightarrow>
    \<exists>vss. insf_out (is_ins (icmp_run e0 rounds (fold icmp_put (map fst [(words_of_bytes 8 ping, ping)]) icmp_demo)))
       = insf_out (is_ins icmp_demo) @ concat vss
       \<and> list_all2 valid_answer (filter echo_request (map snd [(words_of_bytes 8 ping, ping)])) vss"
    using icmp_echo[OF icmp_demo_rest ok, of e0] by blast
  show ?thesis unfolding ping_answer[symmetric]
  proof (intro exI[of _ k] allI impI)
    fix rounds :: "icmp_proc list list"
    assume r: "fair rounds \<and> k \<le> length rounds"
    obtain vss where "insf_out (is_ins (icmp_run e0 rounds (fold icmp_put (map fst [(words_of_bytes 8 ping, ping)]) icmp_demo))) = concat vss"
      "list_all2 valid_answer [ping] vss" using k[of rounds] r unfolding f out append_Nil by blast
    then show "packet 8 (insf_out (is_ins (icmp_run e0 rounds (icmp_put (words_of_bytes 8 ping) icmp_demo)))) (echo_answer ping)"
      using one[of vss] by (simp only: fold.simps list.map fst_conv comp_def id_def)
  qed
qed

end
