(* ===== verification/Toe_Control.thy ===== *)
theory Toe_Control
  imports Rx_Fsm Tx_App Timers State_Table
begin

text \<open>
  The connection states under all their users: \<^verbatim>\<open>toe.cpp\<close> connects the state table with the TCP state machine of the receive engine,
  with \<^verbatim>\<open>tx_app_if\<close>, which opens and closes connections, with \<^verbatim>\<open>tasi_metaLoader\<close>, which only looks, and with the timers, which release
  sessions. The rest of the engine and the application are an environment that may do anything to the streams it shares with
  these processes, as long as it leaves the streams between them and their static variables alone.
\<close>

subsection \<open>The composition\<close>

record toc_st =
  toc_stt :: stt_state
  toc_fsm :: fsm_st
  toc_txa :: txa_st
  toc_tim :: timers_state

datatype toc_proc =
    TocStateTable
  | TocTimers
  | TocFsm fsm_cfg rxTxSarReply
  | TocTxMerge
  | TocTxStatus
  | TocTxStream nat net_axis
  | TocTxIf u32
  | TocTxTable

definition stt_deliver :: "stt_state \<Rightarrow> toc_st \<Rightarrow> toc_st" where
  "stt_deliver p s = s\<lparr>toc_stt := p\<lparr>stf_rxUpdRsp := [], stf_txUpdRsp := [], stf_txRsp := []\<rparr>,
     toc_fsm := (toc_fsm s)\<lparr>fsf_stateRsp := fsf_stateRsp (toc_fsm s) @ stf_rxUpdRsp p\<rparr>,
     toc_txa := (toc_txa s)\<lparr>taf_stateUpdRsp := taf_stateUpdRsp (toc_txa s) @ stf_txUpdRsp p,
       taf_stateRsp := taf_stateRsp (toc_txa s) @ stf_txRsp p\<rparr>\<rparr>"

definition fsm_deliver :: "fsm_st \<Rightarrow> toc_st \<Rightarrow> toc_st" where
  "fsm_deliver p s = s\<lparr>toc_fsm := p\<lparr>fsf_stateReq := [], fsf_clearRetransmit := [], fsf_clearProbe := [], fsf_setClose := [],
       fsf_openStatus := []\<rparr>,
     toc_stt := (toc_stt s)\<lparr>stf_rxUpdReq := stf_rxUpdReq (toc_stt s) @ fsf_stateReq p\<rparr>,
     toc_txa := (toc_txa s)\<lparr>taf_established := taf_established (toc_txa s) @ fsf_openStatus p\<rparr>,
     toc_tim := (toc_tim s)\<lparr>tm_rt := (tm_rt (toc_tim s))\<lparr>rtf_clear := rtf_clear (tm_rt (toc_tim s)) @ fsf_clearRetransmit p\<rparr>,
       tm_pt := (tm_pt (toc_tim s))\<lparr>ptf_clear := ptf_clear (tm_pt (toc_tim s)) @ fsf_clearProbe p\<rparr>,
       tm_ct := (tm_ct (toc_tim s))\<lparr>ctf_set := ctf_set (tm_ct (toc_tim s)) @ fsf_setClose p\<rparr>\<rparr>\<rparr>"

definition txa_deliver :: "txa_st \<Rightarrow> toc_st \<Rightarrow> toc_st" where
  "txa_deliver p s = s\<lparr>toc_txa := p\<lparr>taf_stateUpd := [], taf_stateReq := []\<rparr>,
     toc_stt := (toc_stt s)\<lparr>stf_txUpdReq := stf_txUpdReq (toc_stt s) @ taf_stateUpd p,
       stf_txReq := stf_txReq (toc_stt s) @ taf_stateReq p\<rparr>\<rparr>"

definition tim_deliver :: "timers_state \<Rightarrow> toc_st \<Rightarrow> toc_st" where
  "tim_deliver p s = s\<lparr>toc_tim := p\<lparr>tmf_release := [], tm_rt := (tm_rt p)\<lparr>rtf_txAppNotification := []\<rparr>\<rparr>,
     toc_stt := (toc_stt s)\<lparr>stf_timerRelease := stf_timerRelease (toc_stt s) @ tmf_release p\<rparr>,
     toc_txa := (toc_txa s)\<lparr>taf_rtNote := taf_rtNote (toc_txa s) @ rtf_txAppNotification (tm_rt p)\<rparr>\<rparr>"

definition toc_act :: "toc_proc \<Rightarrow> toc_st \<Rightarrow> toc_st" where
  "toc_act p s =
    (case p of
       TocStateTable \<Rightarrow> stt_deliver (state_table (toc_stt s)) s
     | TocTimers \<Rightarrow> tim_deliver (timerWrapper (toc_tim s)) s
     | TocFsm c u \<Rightarrow> fsm_deliver (rxTcpFSM c u (toc_fsm s)) s
     | TocTxMerge \<Rightarrow> txa_deliver (txEventMerger (toc_txa s)) s
     | TocTxStatus \<Rightarrow> txa_deliver (txAppStatusHandler (toc_txa s)) s
     | TocTxStream W u \<Rightarrow> txa_deliver (tx_app_stream_if W u (toc_txa s)) s
     | TocTxIf ip \<Rightarrow> txa_deliver (tx_app_if ip (toc_txa s)) s
     | TocTxTable \<Rightarrow> txa_deliver (tx_app_table (toc_txa s)) s)"

text \<open>What the environment leaves alone. The timers it may set in any way.\<close>

definition toc_env :: "toc_st \<Rightarrow> toc_st \<Rightarrow> bool" where
  "toc_env s s' \<longleftrightarrow> (\<exists>r. toc_stt s' = (toc_stt s)\<lparr>stf_release := r\<rparr>)
     \<and> fsm_state (toc_fsm s') = fsm_state (toc_fsm s) \<and> fsm_meta (toc_fsm s') = fsm_meta (toc_fsm s)
     \<and> fsm_txSarRequest (toc_fsm s') = fsm_txSarRequest (toc_fsm s)
     \<and> fsf_stateReq (toc_fsm s') = fsf_stateReq (toc_fsm s) \<and> fsf_stateRsp (toc_fsm s') = fsf_stateRsp (toc_fsm s)
     \<and> tai_close (toc_txa s') = tai_close (toc_txa s) \<and> tai_closeSessionID (toc_txa s') = tai_closeSessionID (toc_txa s)
     \<and> taf_stateUpd (toc_txa s') = taf_stateUpd (toc_txa s) \<and> taf_stateUpdRsp (toc_txa s') = taf_stateUpdRsp (toc_txa s)"

inductive toc_step :: "toc_st \<Rightarrow> toc_st \<Rightarrow> bool" where
  process: "toc_step s (toc_act p s)"
| environment: "toc_env s s' \<Longrightarrow> toc_step s s'"

inductive_cases toc_stepE: "toc_step s s'"

definition toc_fresh :: "toc_st \<Rightarrow> bool" where
  "toc_fresh s \<longleftrightarrow> toc_stt s = stt_init \<and> fsm_state (toc_fsm s) = LOAD \<and> fsf_stateReq (toc_fsm s) = [] \<and> fsf_stateRsp (toc_fsm s) = []
     \<and> \<not> tai_close (toc_txa s) \<and> taf_stateUpd (toc_txa s) = [] \<and> taf_stateUpdRsp (toc_txa s) = []"

subsection \<open>A client of the state table\<close>

text \<open>
  What a client has under way, on the abstract state table: its lock \<open>l\<close>, its requests \<open>Q\<close>, the answers \<open>rsp\<close>, and the session \<open>w\<close>
  whose answer it waits for. A lock is held for the one write that follows the read, which is along an edge \<open>E\<close> from the state that was
  read; \<open>B\<close> are the writes without a read. So a write always finds the state that the read has seen.
\<close>

definition line :: "(sessionState \<Rightarrow> sessionState \<Rightarrow> bool) \<Rightarrow> (stateQuery \<Rightarrow> bool) \<Rightarrow> (sid \<Rightarrow> sessionState) \<Rightarrow> sid option
    \<Rightarrow> stateQuery list \<Rightarrow> bool" where
  "line E B tab l Q \<longleftrightarrow> (case l of None \<Rightarrow> \<forall>q \<in> set Q. B q
     | Some j \<Rightarrow> \<exists>st qs. Q = stateQuery_of j st True # qs \<and> E (tab j) st \<and> (\<forall>q \<in> set qs. B q))"

definition client :: "(sessionState \<Rightarrow> sessionState \<Rightarrow> bool) \<Rightarrow> (stateQuery \<Rightarrow> bool) \<Rightarrow> (sid \<Rightarrow> sessionState) \<Rightarrow> sid option
    \<Rightarrow> stateQuery list \<Rightarrow> sessionState list \<Rightarrow> sid option \<Rightarrow> bool" where
  "client E B tab l Q rsp w \<longleftrightarrow> (case w of None \<Rightarrow> line E B tab l Q \<and> rsp = []
     | Some i \<Rightarrow> (\<exists>P. Q = P @ [stateQuery_rd i] \<and> line E B tab l P \<and> rsp = []) \<or> (Q = [] \<and> l = Some i \<and> rsp = [tab i]))"

lemma query_fields [simp]: "sq_write (stateQuery_of i st b) = b" "sq_sessionID (stateQuery_of i st b) = i"
  "sq_state (stateQuery_of i st b) = st" "\<not> sq_write (stateQuery_rd i)" "sq_sessionID (stateQuery_rd i) = i"
  "stateQuery_of i st b = stateQuery_of j st' b' \<longleftrightarrow> i = j \<and> st = st' \<and> b = b'"
  by (simp_all add: stateQuery_of_def stateQuery_rd_def)

lemma client_ask: "client E B tab l Q rsp None \<Longrightarrow> client E B tab l (Q @ [stateQuery_rd i]) rsp (Some i)"
  by (simp add: client_def)

lemma client_answer:
  assumes "client E B tab l Q rsp (Some i)" and "rsp \<noteq> []"
  shows "l = Some i \<and> Q = [] \<and> rsp = [tab i] \<and> (E (tab i) st \<longrightarrow> client E B tab l (Q @ [stateQuery_of i st True]) (tl rsp) None)"
  using assms by (auto simp: client_def line_def)

lemma client_blind: "client E B tab l Q rsp None \<Longrightarrow> B q \<Longrightarrow> client E B tab l (Q @ [q]) rsp None"
  by (auto simp: client_def line_def split: option.splits)

lemma client_other: "client E B tab l Q rsp w \<Longrightarrow> l \<noteq> Some j \<Longrightarrow> client E B (tab(j := v)) l Q rsp w"
  by (auto simp: client_def line_def split: option.splits)

lemma client_read:
  assumes "client E B tab l (q # qs) rsp w" and "\<not> sq_write q" and B: "\<And>q. B q \<Longrightarrow> sq_write q"
  shows "client E B tab (Some (sq_sessionID q)) qs (rsp @ [tab (sq_sessionID q)]) w"
proof (cases w)
  case None
  then show ?thesis using assms by (auto simp: client_def line_def split: option.splits)
next
  case (Some i)
  then obtain P where P: "q # qs = P @ [stateQuery_rd i]" "line E B tab l P" "rsp = []" using assms(1) by (auto simp: client_def)
  have "P = []" using P assms(2) B by (cases P) (auto simp: line_def split: option.splits)
  then show ?thesis using P Some by (simp add: client_def)
qed

lemma client_write:
  assumes "client E B tab l (q # qs) rsp w" and "sq_write q" and B: "\<And>q. B q \<Longrightarrow> sq_write q"
  shows "client E B (tab(sq_sessionID q := sq_state q)) None qs rsp w \<and> rsp = []
    \<and> (l = Some (sq_sessionID q) \<and> E (tab (sq_sessionID q)) (sq_state q) \<or> l = None \<and> B q)"
proof -
  have line: "line E B (tab(sq_sessionID q := sq_state q)) None ps
      \<and> (l = Some (sq_sessionID q) \<and> E (tab (sq_sessionID q)) (sq_state q) \<or> l = None \<and> B q)" if "line E B tab l (q # ps)" for ps
    using that by (auto simp: line_def split: option.splits)
  show ?thesis
  proof (cases w)
    case None
    then show ?thesis using assms(1) line by (auto simp: client_def)
  next
    case (Some i)
    then obtain P where P: "q # qs = P @ [stateQuery_rd i]" "line E B tab l P" "rsp = []" using assms(1) by (auto simp: client_def)
    then obtain ps where "P = q # ps" "qs = ps @ [stateQuery_rd i]" using assms(2) by (cases P) auto
    then show ?thesis using line[of ps] P Some by (auto simp: client_def)
  qed
qed


subsection \<open>The invariant\<close>

definition rx_edge :: "sessionState \<Rightarrow> sessionState \<Rightarrow> bool" where
  "rx_edge st st' \<longleftrightarrow> st' = st \<or> tcp_edge st st'"

definition app_edge :: "sessionState \<Rightarrow> sessionState \<Rightarrow> bool" where
  "app_edge st st' \<longleftrightarrow> st' = (if st \<in> {ESTABLISHED, FIN_WAIT_2, FIN_WAIT_1} then FIN_WAIT_1 else st)"

definition opens :: "stateQuery \<Rightarrow> bool" where
  "opens q \<longleftrightarrow> sq_write q \<and> sq_state q = SYN_SENT"

definition fsm_waits :: "fsm_st \<Rightarrow> sid option" where
  "fsm_waits s = (if fsm_state s = TRANSITION then Some (mf_sessionID (fsm_meta s)) else None)"

definition tai_waits :: "txa_st \<Rightarrow> sid option" where
  "tai_waits s = (if tai_close s then Some (tai_closeSessionID s) else None)"

definition toc_inv :: "astt \<Rightarrow> fsm_st \<Rightarrow> txa_st \<Rightarrow> bool" where
  "toc_inv a f t \<longleftrightarrow>
     client rx_edge (\<lambda>_. False) (ast_table a) (ast_rxLock a) (ast_rxQ a @ fsf_stateReq f) (fsf_stateRsp f @ ast_rxRsp a) (fsm_waits f)
   \<and> client app_edge opens (ast_table a) (ast_txLock a) (ast_txQ a @ taf_stateUpd t) (taf_stateUpdRsp t @ ast_txRsp a) (tai_waits t)
   \<and> (\<forall>i. ast_rxLock a = Some i \<longrightarrow> ast_txLock a \<noteq> Some i) \<and> (\<forall>i. ast_table a i \<noteq> FIN_WAIT_2)"

text \<open>Over a step of the table, a session may go from one state to another in these ways.\<close>

definition session_edge :: "sessionState \<Rightarrow> sessionState \<Rightarrow> bool" where
  "session_edge st st' \<longleftrightarrow> st' = st \<or> tcp_edge st st' \<or> st' = SYN_SENT \<or> st' = CLOSED \<or> st \<in> {ESTABLISHED, FIN_WAIT_1} \<and> st' = FIN_WAIT_1"

lemma edge_FIN_WAIT_2: "session_edge st st' \<Longrightarrow> st \<noteq> FIN_WAIT_2 \<Longrightarrow> st' \<noteq> FIN_WAIT_2"
  by (cases st) (auto simp: session_edge_def)

lemma toc_inv_table:
  assumes "toc_inv a f t" and "astt_step a b"
  shows "toc_inv b f t \<and> session_edge (ast_table a i) (ast_table b i)"
  using assms(2)
proof (cases rule: astt_step.cases)
  case (rx_write q qs)
  let ?v = "sq_state q" and ?j = "sq_sessionID q"
  have c: "client rx_edge (\<lambda>_. False) (ast_table a) (ast_rxLock a) (q # qs @ fsf_stateReq f) (fsf_stateRsp f @ ast_rxRsp a) (fsm_waits f)"
    using assms(1) rx_write by (simp add: toc_inv_def)
  note w = client_write[OF c rx_write(3)]
  have e: "session_edge (ast_table a ?j) ?v" using w by (auto simp: rx_edge_def session_edge_def)
  have "ast_table a ?j \<noteq> FIN_WAIT_2" using assms(1) by (simp add: toc_inv_def)
  note n = edge_FIN_WAIT_2[OF e this]
  show ?thesis using assms(1) w e n client_other[of _ _ _ "ast_txLock a" _ _ _ ?j ?v] rx_write
    by (auto simp: toc_inv_def session_edge_def)
next
  case (tx_write q qs)
  let ?v = "sq_state q" and ?j = "sq_sessionID q"
  have c: "client app_edge opens (ast_table a) (ast_txLock a) (q # qs @ taf_stateUpd t) (taf_stateUpdRsp t @ ast_txRsp a) (tai_waits t)"
    using assms(1) tx_write by (simp add: toc_inv_def)
  have ow: "\<And>q. opens q \<Longrightarrow> sq_write q" by (simp add: opens_def)
  note w = client_write[OF c tx_write(3) ow]
  have f2: "ast_table a ?j \<noteq> FIN_WAIT_2" using assms(1) by (simp add: toc_inv_def)
  have e: "session_edge (ast_table a ?j) ?v" using w f2 by (auto simp: app_edge_def session_edge_def opens_def split: if_splits)
  note n = edge_FIN_WAIT_2[OF e f2]
  have o: "client rx_edge (\<lambda>_. False) ((ast_table a)(?j := ?v)) (ast_rxLock a) (ast_rxQ a @ fsf_stateReq f) (fsf_stateRsp f @ ast_rxRsp a) (fsm_waits f)"
    using assms(1) tx_write by (intro client_other) (simp_all add: toc_inv_def)
  have t: "session_edge (ast_table a i) (((ast_table a)(?j := ?v)) i)" "\<forall>i. ((ast_table a)(?j := ?v)) i \<noteq> FIN_WAIT_2"
    using e n assms(1) by (simp_all add: toc_inv_def, simp add: session_edge_def)
  show ?thesis using conjunct1[OF w] o t by (simp add: toc_inv_def tx_write(1))
next
  case (rx_read q qs)
  then show ?thesis
    using assms(1) client_read[of rx_edge "\<lambda>_. False" "ast_table a" "ast_rxLock a" q "qs @ fsf_stateReq f" "fsf_stateRsp f @ ast_rxRsp a" "fsm_waits f"]
    by (simp add: toc_inv_def session_edge_def)
next
  case (tx_read q qs)
  then show ?thesis
    using assms(1) client_read[of app_edge opens "ast_table a" "ast_txLock a" q "qs @ taf_stateUpd t" "taf_stateUpdRsp t @ ast_txRsp a" "tai_waits t"]
    by (auto simp: toc_inv_def session_edge_def opens_def)
next
  case (close j qs)
  then show ?thesis using assms(1) client_other[of _ _ "ast_table a" _ _ _ _ j CLOSED]
    by (auto simp: toc_inv_def session_edge_def)
qed (use assms(1) in \<open>simp_all add: toc_inv_def session_edge_def\<close>)

text \<open>
  Why the state of session \<open>i\<close> changes, in terms of the oldest requests \<open>R\<close>, \<open>A\<close>, \<open>C\<close> of the receive state machine, the application
  interface and the timers and of the locks that the first two hold:
  \<^item> the receive state machine, holding the lock of \<open>i\<close>, writes a successor of the old state in the TCP diagram;
  \<^item> the application interface, holding the lock of \<open>i\<close>, closes an established session;
  \<^item> the application interface opens \<open>i\<close>. It has not read the old state, which may be any;
  \<^item> the timers release \<open>i\<close>, whatever its state, while neither of the two holds it.
\<close>

definition cause :: "stateQuery list \<Rightarrow> stateQuery list \<Rightarrow> sid list \<Rightarrow> sid option \<Rightarrow> sid option \<Rightarrow> sid \<Rightarrow> sessionState \<Rightarrow> sessionState \<Rightarrow> bool" where
  "cause R A C rl al i st st' \<longleftrightarrow>
     ((\<exists>qs. R = stateQuery_of i st' True # qs) \<and> rl = Some i \<and> tcp_edge st st')
   \<or> ((\<exists>qs. A = stateQuery_of i FIN_WAIT_1 True # qs) \<and> al = Some i \<and> st = ESTABLISHED \<and> st' = FIN_WAIT_1)
   \<or> ((\<exists>qs. A = stateQuery_of i SYN_SENT True # qs) \<and> al = None \<and> rl \<noteq> Some i \<and> st' = SYN_SENT)
   \<or> ((\<exists>js. C = i # js) \<and> rl \<noteq> Some i \<and> al \<noteq> Some i \<and> st' = CLOSED)"

lemma write_query: "sq_write q \<Longrightarrow> q = stateQuery_of (sq_sessionID q) (sq_state q) True"
  by (cases q) (simp add: stateQuery_of_def)

lemma table_cause:
  assumes "toc_inv a f t" and "astt_step a b" and "ast_table b i \<noteq> ast_table a i"
  shows "cause (ast_rxQ a @ fsf_stateReq f) (ast_txQ a @ taf_stateUpd t) (ast_closeQ a) (ast_rxLock a) (ast_txLock a) i
    (ast_table a i) (ast_table b i)"
  using assms(2)
proof (cases rule: astt_step.cases)
  case (rx_write q qs)
  have c: "client rx_edge (\<lambda>_. False) (ast_table a) (ast_rxLock a) (q # qs @ fsf_stateReq f) (fsf_stateRsp f @ ast_rxRsp a) (fsm_waits f)"
    using assms(1) rx_write by (simp add: toc_inv_def)
  have i: "i = sq_sessionID q" "ast_table b i = sq_state q" using rx_write(1) assms(3) by (auto split: if_splits)
  have "ast_rxLock a = Some i \<and> tcp_edge (ast_table a i) (ast_table b i)"
    using client_write[OF c rx_write(3)] assms(3) i(2)[unfolded i(1)] by (auto simp: i(1) rx_edge_def)
  then show ?thesis using write_query[OF rx_write(3)] rx_write(2) i by (simp add: cause_def)
next
  case (tx_write q qs)
  have c: "client app_edge opens (ast_table a) (ast_txLock a) (q # qs @ taf_stateUpd t) (taf_stateUpdRsp t @ ast_txRsp a) (tai_waits t)"
    using assms(1) tx_write by (simp add: toc_inv_def)
  have i: "i = sq_sessionID q" "ast_table b i = sq_state q" using tx_write(1) assms(3) by (auto split: if_splits)
  have "\<And>q. opens q \<Longrightarrow> sq_write q" by (simp add: opens_def)
  note w = conjunct2[OF conjunct2[OF client_write[OF c tx_write(3) this]]]
  have f2: "ast_table a i \<noteq> FIN_WAIT_2" using assms(1) by (simp add: toc_inv_def)
  from w show ?thesis
  proof
    assume l: "ast_txLock a = Some (sq_sessionID q) \<and> app_edge (ast_table a (sq_sessionID q)) (sq_state q)"
    then have "app_edge (ast_table a i) (ast_table b i)" unfolding i(2) unfolding i(1) by blast
    then have "ast_table a i = ESTABLISHED" "ast_table b i = FIN_WAIT_1" using assms(3) f2 by (auto simp: app_edge_def split: if_splits)
    then show ?thesis using write_query[OF tx_write(3)] tx_write(2) i l by (simp add: cause_def)
  next
    assume l: "ast_txLock a = None \<and> opens q"
    then have "ast_table b i = SYN_SENT" using i by (simp add: opens_def)
    then show ?thesis using write_query[OF tx_write(3)] tx_write(2,4) i l by (simp add: cause_def)
  qed
next
  case (close j qs)
  then have "i = j" "ast_table b i = CLOSED" using assms(3) by (auto split: if_splits)
  then show ?thesis using close by (simp add: cause_def)
qed (use assms(3) in simp_all)


subsection \<open>The processes keep it\<close>

lemma put_frames [simp]:
  "fsf_stateRsp (put_state q s) = fsf_stateRsp s" "fsm_state (put_state q s) = fsm_state s"
  "fsf_stateRsp (put_rxSar q1 s) = fsf_stateRsp s" "fsm_state (put_rxSar q1 s) = fsm_state s"
  "fsf_stateRsp (put_txSar q2 s) = fsf_stateRsp s" "fsm_state (put_txSar q2 s) = fsm_state s"
  "fsf_stateRsp (put_clearRetransmit i b s) = fsf_stateRsp s" "fsm_state (put_clearRetransmit i b s) = fsm_state s"
  "fsf_stateRsp (put_clearProbe i s) = fsf_stateRsp s" "fsm_state (put_clearProbe i s) = fsm_state s"
  "fsf_stateRsp (put_setClose i s) = fsf_stateRsp s" "fsm_state (put_setClose i s) = fsm_state s"
  "fsf_stateRsp (put_openStatus q3 s) = fsf_stateRsp s" "fsm_state (put_openStatus q3 s) = fsm_state s"
  "fsf_stateRsp (put_event e s) = fsf_stateRsp s" "fsm_state (put_event e s) = fsm_state s"
  "fsf_stateRsp (put_drop b s) = fsf_stateRsp s" "fsm_state (put_drop b s) = fsm_state s"
  "fsf_stateRsp (put_writeCmd q4 s) = fsf_stateRsp s" "fsm_state (put_writeCmd q4 s) = fsm_state s"
  "fsf_stateRsp (put_notification q5 s) = fsf_stateRsp s" "fsm_state (put_notification q5 s) = fsm_state s"
  by (simp_all add: put_defs)

lemma ack_part_frames [simp]:
  "fsf_stateRsp (fsm_ackState f st tx s) = fsf_stateRsp s" "fsm_state (fsm_ackState f st tx s) = fsm_state s"
  "fsf_stateRsp (fsm_payloadOoo f rx s) = fsf_stateRsp s" "fsm_state (fsm_payloadOoo f rx s) = fsm_state s"
  "fsf_stateRsp (fsm_payloadBypass c f rx s) = fsf_stateRsp s" "fsm_state (fsm_payloadBypass c f rx s) = fsm_state s"
  "fsf_stateRsp (fsm_ackEvent c f rx tx s) = fsf_stateRsp s" "fsm_state (fsm_ackEvent c f rx tx s) = fsm_state s"
  by (simp_all add: fsm_ackState_def fsm_payloadOoo_def fsm_payloadBypass_def fsm_ackEvent_def Let_def split: sessionState.splits)

lemma fsm_frames:
  "fsf_stateRsp (fsm_ack c f st rx tx s) = fsf_stateRsp s" "fsm_state (fsm_ack c f st rx tx s) = fsm_state s"
  "fsf_stateRsp (fsm_syn f st rx tx s) = fsf_stateRsp s" "fsm_state (fsm_syn f st rx tx s) = fsm_state s"
  "fsf_stateRsp (fsm_synAck f st tx s) = fsf_stateRsp s" "fsm_state (fsm_synAck f st tx s) = fsm_state s"
  "fsf_stateRsp (fsm_fin c f st rx tx s) = fsf_stateRsp s" "fsm_state (fsm_fin c f st rx tx s) = fsm_state s"
  "fsf_stateRsp (fsm_other f st rx tx s) = fsf_stateRsp s" "fsm_state (fsm_other f st rx tx s) = fsm_state s"
  by (simp_all add: fsm_ack_def fsm_syn_def fsm_synAck_def fsm_fin_def fsm_finAccept_def fsm_other_def Let_def)


text \<open>What a call of the state machine does to its side of the state table.\<close>

lemma fsm_call:
  obtains (idle) "fsm_waits (rxTcpFSM c u s) = fsm_waits s" "fsf_stateRsp (rxTcpFSM c u s) = fsf_stateRsp s"
      "fsf_stateReq (rxTcpFSM c u s) = fsf_stateReq s"
  | (ask) i where "fsm_waits s = None" "fsm_waits (rxTcpFSM c u s) = Some i" "fsf_stateRsp (rxTcpFSM c u s) = fsf_stateRsp s"
      "fsf_stateReq (rxTcpFSM c u s) = fsf_stateReq s @ [stateQuery_rd i]"
  | (answer) i st where "fsm_waits s = Some i" "fsf_stateRsp s \<noteq> []" "fsm_waits (rxTcpFSM c u s) = None"
      "fsf_stateRsp (rxTcpFSM c u s) = tl (fsf_stateRsp s)" "rx_edge (hd (fsf_stateRsp s)) st"
      "fsf_stateReq (rxTcpFSM c u s) = fsf_stateReq s @ [stateQuery_of i st True]"
proof (cases "fsm_state s")
  case LOAD
  show thesis
  proof (cases "fsf_meta s = []")
    case True
    then show thesis using LOAD by (intro idle) (simp_all add: rxTcpFSM_def fsm_load_def)
  next
    case False
    then show thesis using LOAD
      by (intro ask[of "mf_sessionID (hd (fsf_meta s))"]) (simp_all add: rxTcpFSM_def fsm_load_def fsm_waits_def Let_def put_defs)
  qed
next
  case TRANSITION
  show thesis
  proof (cases "fsm_ready s")
    case False
    then show thesis using TRANSITION by (intro idle) (simp_all add: rxTcpFSM_def)
  next
    case True
    have w: "fsm_writes (fsm_meta s) (hd (fsf_stateRsp s)) s (rxTcpFSM c u s)" by (rule fsm_unlocks[OF TRANSITION True])
    have "fsm_state (rxTcpFSM c u s) = LOAD \<and> fsf_stateRsp (rxTcpFSM c u s) = tl (fsf_stateRsp s)"
      using TRANSITION True by (simp add: rxTcpFSM_def fsm_transition_def Let_def fsm_frames)
    then show thesis using w answer TRANSITION True by (auto simp: fsm_writes_def fsm_waits_def rx_edge_def fsm_ready_def)
  qed
qed


lemma tai_lookup_frame [simp]:
  "tai_close (tai_lookup ip t) = tai_close t" "tai_closeSessionID (tai_lookup ip t) = tai_closeSessionID t"
  "taf_stateUpd (tai_lookup ip t) = taf_stateUpd t" "taf_stateUpdRsp (tai_lookup ip t) = taf_stateUpdRsp t"
  by (simp_all add: tai_lookup_def Let_def)

lemma tai_call:
  obtains (idle) "tai_waits (tx_app_if ip t) = tai_waits t" "taf_stateUpdRsp (tx_app_if ip t) = taf_stateUpdRsp t"
      "taf_stateUpd (tx_app_if ip t) = taf_stateUpd t"
  | (blind) q where "opens q" "tai_waits t = None" "tai_waits (tx_app_if ip t) = None" "taf_stateUpdRsp (tx_app_if ip t) = taf_stateUpdRsp t"
      "taf_stateUpd (tx_app_if ip t) = taf_stateUpd t @ [q]"
  | (ask) i where "tai_waits t = None" "tai_waits (tx_app_if ip t) = Some i" "taf_stateUpdRsp (tx_app_if ip t) = taf_stateUpdRsp t"
      "taf_stateUpd (tx_app_if ip t) = taf_stateUpd t @ [stateQuery_rd i]"
  | (answer) i st where "tai_waits t = Some i" "taf_stateUpdRsp t \<noteq> []" "tai_waits (tx_app_if ip t) = None"
      "taf_stateUpdRsp (tx_app_if ip t) = tl (taf_stateUpdRsp t)" "app_edge (hd (taf_stateUpdRsp t)) st"
      "taf_stateUpd (tx_app_if ip t) = taf_stateUpd t @ [stateQuery_of i st True]"
proof (cases "tai_close t")
  case False
  define u where "u = tai_lookup ip t"
  have call: "tx_app_if ip t = tai_idle u" using False by (simp add: tx_app_if_def u_def Let_def)
  have u: "tai_waits t = None" "\<not> tai_close u" "taf_stateUpd u = taf_stateUpd t" "taf_stateUpdRsp u = taf_stateUpdRsp t"
    using False by (simp_all add: tai_waits_def u_def)
  consider (hit) "taf_lookupRsp u \<noteq> []" "slr_hit (hd (taf_lookupRsp u))" | (close) "taf_lookupRsp u = []" "taf_established u = []"
      "taf_rtNote u = []" "taf_closeReq u \<noteq> []"
    | (other) "tai_waits (tai_idle u) = None" "taf_stateUpdRsp (tai_idle u) = taf_stateUpdRsp u" "taf_stateUpd (tai_idle u) = taf_stateUpd u"
    using u(2) by (cases "taf_lookupRsp u = []"; cases "slr_hit (hd (taf_lookupRsp u))"; cases "taf_established u = []"; cases "taf_rtNote u = []";
        cases "taf_closeReq u = []") (simp_all add: tai_idle_def tai_waits_def Let_def)
  then show thesis
  proof cases
    case hit
    then show thesis using u
      by (intro blind[of "stateQuery_of (slr_sessionID (hd (taf_lookupRsp u))) SYN_SENT True"])
        (simp_all add: call tai_idle_def tai_waits_def Let_def opens_def)
  next
    case close
    then show thesis using u by (intro ask[of "hd (taf_closeReq u)"]) (simp_all add: call tai_idle_def tai_waits_def)
  next
    case other
    then show thesis using u by (intro idle) (simp_all add: call)
  qed
next
  case True
  define u where "u = tai_lookup ip t"
  have call: "tx_app_if ip t = tai_closing u" using True by (simp add: tx_app_if_def u_def Let_def)
  have u: "tai_waits t = Some (tai_closeSessionID u)" "tai_waits u = tai_waits t" "taf_stateUpd u = taf_stateUpd t" "taf_stateUpdRsp u = taf_stateUpdRsp t"
    using True by (simp_all add: tai_waits_def u_def)
  show thesis
  proof (cases "taf_stateUpdRsp t = []")
    case True
    then show thesis using u by (intro idle) (simp_all add: call tai_closing_def)
  next
    case False
    let ?st = "hd (taf_stateUpdRsp t)"
    show thesis using False u
      by (intro answer[of "tai_closeSessionID u" "if ?st \<in> {ESTABLISHED, FIN_WAIT_2, FIN_WAIT_1} then FIN_WAIT_1 else ?st"])
        (simp_all add: call tai_closing_def tai_waits_def app_edge_def Let_def)
  qed
qed

lemma txa_frames:
  "tai_waits (txEventMerger t) = tai_waits t" "taf_stateUpd (txEventMerger t) = taf_stateUpd t"
  "taf_stateUpdRsp (txEventMerger t) = taf_stateUpdRsp t"
  "tai_waits (tx_app_table t) = tai_waits t" "taf_stateUpd (tx_app_table t) = taf_stateUpd t"
  "taf_stateUpdRsp (tx_app_table t) = taf_stateUpdRsp t"
  by (simp_all add: txEventMerger_def tx_app_table_def tai_waits_def Let_def)

lemma tash_push_frame: "tai_waits (tash_push t) = tai_waits t" "taf_stateUpd (tash_push t) = taf_stateUpd t"
  "taf_stateUpdRsp (tash_push t) = taf_stateUpdRsp t"
  by (simp_all add: tash_push_def tai_waits_def)

lemma status_frames: "tai_waits (txAppStatusHandler t) = tai_waits t" "taf_stateUpd (txAppStatusHandler t) = taf_stateUpd t"
  "taf_stateUpdRsp (txAppStatusHandler t) = taf_stateUpdRsp t"
  by (cases "tash_state t"; simp add: txAppStatusHandler_def tash_push_frame Let_def; simp add: tai_waits_def)+

lemma loader_frames: "tai_waits (tasi_metaLoader t) = tai_waits t" "taf_stateUpd (tasi_metaLoader t) = taf_stateUpd t"
  "taf_stateUpdRsp (tasi_metaLoader t) = taf_stateUpdRsp t"
  by (cases "tai_state t"; simp add: tasi_metaLoader_def tasi_decide_def tasi_accept_def tasi_respond_def tasi_push_def tai_waits_def Let_def)+

lemma duplicate_frames: "tai_waits (txa_duplicate t) = tai_waits t" "taf_stateUpd (txa_duplicate t) = taf_stateUpd t"
  "taf_stateUpdRsp (txa_duplicate t) = taf_stateUpdRsp t"
  by (simp_all add: txa_duplicate_def tai_waits_def split_beta Let_def)

lemma stream_if_frames: "tai_waits (tx_app_stream_if W u t) = tai_waits t" "taf_stateUpd (tx_app_stream_if W u t) = taf_stateUpd t"
  "taf_stateUpdRsp (tx_app_stream_if W u t) = taf_stateUpdRsp t"
proof -
  have "tai_waits (s\<lparr>txa_push := p\<rparr>) = tai_waits s" for s p by (simp add: tai_waits_def)
  then show "tai_waits (tx_app_stream_if W u t) = tai_waits t" "taf_stateUpd (tx_app_stream_if W u t) = taf_stateUpd t"
    "taf_stateUpdRsp (tx_app_stream_if W u t) = taf_stateUpdRsp t"
    by (simp_all add: tx_app_stream_if_def Let_def duplicate_frames loader_frames)
qed

lemmas txa_all_frames = txa_frames status_frames stream_if_frames

subsection \<open>Every run\<close>

definition toc_ok :: "toc_st \<Rightarrow> bool" where
  "toc_ok s \<longleftrightarrow> toc_inv (stt_abs (toc_stt s)) (toc_fsm s) (toc_txa s)"

text \<open>Handing over what was written changes nothing that the invariant looks at.\<close>

lemma stt_deliver_ok: "toc_ok (stt_deliver p s) = toc_inv (stt_abs p) (toc_fsm s) (toc_txa s)"
  by (simp add: toc_ok_def stt_deliver_def toc_inv_def stt_abs_def fsm_waits_def tai_waits_def)

lemma fsm_deliver_ok: "toc_ok (fsm_deliver p s) = toc_inv (stt_abs (toc_stt s)) p (toc_txa s)"
  by (simp add: toc_ok_def fsm_deliver_def toc_inv_def stt_abs_def fsm_waits_def tai_waits_def)

lemma txa_deliver_ok: "toc_ok (txa_deliver p s) = toc_inv (stt_abs (toc_stt s)) (toc_fsm s) p"
  by (simp add: toc_ok_def txa_deliver_def toc_inv_def stt_abs_def fsm_waits_def tai_waits_def)

lemma tim_deliver_ok: "toc_ok (tim_deliver p s) = toc_ok s"
  by (simp add: toc_ok_def tim_deliver_def toc_inv_def stt_abs_def fsm_waits_def tai_waits_def)

lemma inv_fsm: "toc_inv a f t \<Longrightarrow> toc_inv a (rxTcpFSM c u f) t"
proof (cases rule: fsm_call[of c u f])
  case (ask i)
  assume inv: "toc_inv a f t"
  then show ?thesis using ask client_ask[where i = i] by (simp add: toc_inv_def flip: append_assoc)
next
  case (answer i st)
  assume inv: "toc_inv a f t"
  then have c: "client rx_edge (\<lambda>_. False) (ast_table a) (ast_rxLock a) (ast_rxQ a @ fsf_stateReq f) (fsf_stateRsp f @ ast_rxRsp a) (Some i)"
    using answer(1) by (simp add: toc_inv_def)
  have r: "fsf_stateRsp f = [ast_table a i]" "ast_rxRsp a = []"
    using client_answer[OF c] answer(2) by (simp_all add: append_eq_Cons_conv)
  have n: "client rx_edge (\<lambda>_. False) (ast_table a) (ast_rxLock a) ((ast_rxQ a @ fsf_stateReq f) @ [stateQuery_of i st True]) [] None"
    using client_answer[OF c, of st] answer(5) unfolding r by auto
  have "tl (fsf_stateRsp f) = []" by (simp add: r)
  then show ?thesis using inv n unfolding toc_inv_def answer(3,4,6) r(2) append_assoc append_Nil2 by simp
qed (simp_all add: toc_inv_def)

lemma inv_tai: "toc_inv a f t \<Longrightarrow> toc_inv a f (tx_app_if ip t)"
proof (cases rule: tai_call[of ip t])
  case (ask i)
  assume inv: "toc_inv a f t"
  then show ?thesis using ask client_ask[where i = i] by (simp add: toc_inv_def flip: append_assoc)
next
  case (blind q)
  assume inv: "toc_inv a f t"
  then show ?thesis using blind client_blind[where q = q] by (simp add: toc_inv_def flip: append_assoc)
next
  case (answer i st)
  assume inv: "toc_inv a f t"
  then have c: "client app_edge opens (ast_table a) (ast_txLock a) (ast_txQ a @ taf_stateUpd t) (taf_stateUpdRsp t @ ast_txRsp a) (Some i)"
    using answer(1) by (simp add: toc_inv_def)
  have r: "taf_stateUpdRsp t = [ast_table a i]" "ast_txRsp a = []"
    using client_answer[OF c] answer(2) by (simp_all add: append_eq_Cons_conv)
  have n: "client app_edge opens (ast_table a) (ast_txLock a) ((ast_txQ a @ taf_stateUpd t) @ [stateQuery_of i st True]) [] None"
    using client_answer[OF c, of st] answer(5) unfolding r by auto
  have "tl (taf_stateUpdRsp t) = []" by (simp add: r)
  then show ?thesis using inv n unfolding toc_inv_def answer(3,4,6) r(2) append_assoc append_Nil2 by simp
qed (simp_all add: toc_inv_def)

lemma inv_txa_frame: "tai_waits t' = tai_waits t \<Longrightarrow> taf_stateUpd t' = taf_stateUpd t \<Longrightarrow> taf_stateUpdRsp t' = taf_stateUpdRsp t \<Longrightarrow>
    toc_inv a f t' = toc_inv a f t"
  by (simp add: toc_inv_def)

lemma inv_txa_rest:
  "toc_inv a f (txEventMerger t) = toc_inv a f t" "toc_inv a f (txAppStatusHandler t) = toc_inv a f t"
  "toc_inv a f (tx_app_stream_if W u t) = toc_inv a f t" "toc_inv a f (tx_app_table t) = toc_inv a f t"
  by (rule inv_txa_frame; simp add: txa_all_frames)+

lemma toc_ok_act: "toc_ok s \<Longrightarrow> toc_ok (toc_act p s)"
proof (cases p)
  case TocStateTable
  assume "toc_ok s"
  then have inv: "toc_inv (stt_abs (toc_stt s)) (toc_fsm s) (toc_txa s)" by (simp add: toc_ok_def)
  show ?thesis
    using state_table_sim[of "toc_stt s"] inv toc_inv_table[OF inv] by (auto simp: TocStateTable toc_act_def stt_deliver_ok)
next
  case (TocFsm c u)
  then show "toc_ok s \<Longrightarrow> ?thesis" by (simp add: toc_act_def fsm_deliver_ok inv_fsm toc_ok_def[of s])
next
  case (TocTxIf ip)
  then show "toc_ok s \<Longrightarrow> ?thesis" by (simp add: toc_act_def txa_deliver_ok inv_tai toc_ok_def[of s])
qed (simp_all add: toc_act_def txa_deliver_ok tim_deliver_ok inv_txa_rest toc_ok_def[of s])

lemma toc_ok_env:
  assumes "toc_ok s" and "toc_env s s'"
  shows "toc_ok s'"
proof -
  obtain r where "toc_stt s' = (toc_stt s)\<lparr>stf_release := r\<rparr>" using assms(2) by (auto simp: toc_env_def)
  then have "stt_abs (toc_stt s') = (stt_abs (toc_stt s))\<lparr>ast_release := r\<rparr>" by (simp add: stt_abs_def)
  moreover have "fsm_waits (toc_fsm s') = fsm_waits (toc_fsm s)" "tai_waits (toc_txa s') = tai_waits (toc_txa s)"
    using assms(2) by (simp_all add: toc_env_def fsm_waits_def tai_waits_def)
  ultimately show ?thesis using assms by (simp add: toc_ok_def toc_inv_def toc_env_def del: abs_queues abs_locks)
qed

lemma toc_ok_step: "toc_step s s' \<Longrightarrow> toc_ok s \<Longrightarrow> toc_ok s'"
  by (erule toc_stepE) (auto intro: toc_ok_act toc_ok_env)

lemma toc_ok_fresh: "toc_fresh s \<Longrightarrow> toc_ok s"
  by (simp add: toc_fresh_def toc_ok_def toc_inv_def stt_abs_def stt_init_def client_def line_def fsm_waits_def tai_waits_def)

lemma toc_ok_run: "toc_step\<^sup>*\<^sup>* s0 s \<Longrightarrow> toc_fresh s0 \<Longrightarrow> toc_ok s"
  by (induction rule: rtranclp_induct) (auto intro: toc_ok_fresh toc_ok_step)


text \<open>A read followed by a write is one transaction: whoever holds the lock of a session has its state as the answer, or the write
  that gives the lock back under way.\<close>

definition transacts :: "(sessionState \<Rightarrow> sessionState \<Rightarrow> bool) \<Rightarrow> sid \<Rightarrow> sessionState \<Rightarrow> stateQuery list \<Rightarrow> sessionState list \<Rightarrow> sid option \<Rightarrow> bool" where
  "transacts E i st Q rsp w \<longleftrightarrow> (w = Some i \<and> rsp = [st] \<and> Q = []) \<or> (\<exists>st' qs. Q = stateQuery_of i st' True # qs \<and> E st st')"

lemma client_holds: "client E B tab (Some i) Q rsp w \<Longrightarrow> transacts E i (tab i) Q rsp w"
  by (auto simp: client_def line_def transacts_def split: option.splits)

lemma client_current: "client E B tab l Q rsp w \<Longrightarrow> rsp = [] \<or> (\<exists>i. w = Some i \<and> l = Some i \<and> rsp = [tab i])"
  by (auto simp: client_def split: option.splits)

text \<open>The requests that a client has submitted, oldest first; a latched one is the oldest.\<close>

definition rx_requests :: "toc_st \<Rightarrow> stateQuery list" where
  "rx_requests s = ast_rxQ (stt_abs (toc_stt s)) @ fsf_stateReq (toc_fsm s)"

definition app_requests :: "toc_st \<Rightarrow> stateQuery list" where
  "app_requests s = ast_txQ (stt_abs (toc_stt s)) @ taf_stateUpd (toc_txa s)"

definition serial :: "toc_st \<Rightarrow> bool" where
  "serial s \<longleftrightarrow>
     (\<forall>i. rxLocks (toc_stt s) i \<longrightarrow> transacts rx_edge i (stt_table (toc_stt s) i) (rx_requests s)
        (fsf_stateRsp (toc_fsm s) @ stf_rxUpdRsp (toc_stt s)) (fsm_waits (toc_fsm s)))
   \<and> (\<forall>i. txLocks (toc_stt s) i \<longrightarrow> transacts app_edge i (stt_table (toc_stt s) i) (app_requests s)
        (taf_stateUpdRsp (toc_txa s) @ stf_txUpdRsp (toc_stt s)) (tai_waits (toc_txa s)))
   \<and> (fsf_stateRsp (toc_fsm s) \<noteq> [] \<longrightarrow> (\<exists>i. fsm_waits (toc_fsm s) = Some i \<and> rxLocks (toc_stt s) i
        \<and> fsf_stateRsp (toc_fsm s) = [stt_table (toc_stt s) i]))
   \<and> (taf_stateUpdRsp (toc_txa s) \<noteq> [] \<longrightarrow> (\<exists>i. tai_waits (toc_txa s) = Some i \<and> txLocks (toc_stt s) i
        \<and> taf_stateUpdRsp (toc_txa s) = [stt_table (toc_stt s) i]))"

lemma abs_fields: "ast_table (stt_abs p) = stt_table p" "ast_rxRsp (stt_abs p) = stf_rxUpdRsp p" "ast_txRsp (stt_abs p) = stf_txUpdRsp p"
  by (simp_all add: stt_abs_def)

lemma abs_lock_fields:
  "ast_rxLock (stt_abs p) = (if stt_rxSessionLocked p then Some (stt_rxSessionID p) else None)"
  "ast_txLock (stt_abs p) = (if stt_txSessionLocked p then Some (stt_txSessionID p) else None)"
  by (simp_all add: stt_abs_def)

lemma toc_ok_serial:
  assumes "toc_ok s"
  shows "serial s"
proof -
  have rx: "client rx_edge (\<lambda>_. False) (stt_table (toc_stt s)) (ast_rxLock (stt_abs (toc_stt s))) (rx_requests s)
      (fsf_stateRsp (toc_fsm s) @ stf_rxUpdRsp (toc_stt s)) (fsm_waits (toc_fsm s))"
    and tx: "client app_edge opens (stt_table (toc_stt s)) (ast_txLock (stt_abs (toc_stt s))) (app_requests s)
      (taf_stateUpdRsp (toc_txa s) @ stf_txUpdRsp (toc_stt s)) (tai_waits (toc_txa s))"
    using assms by (simp_all add: toc_ok_def toc_inv_def rx_requests_def app_requests_def abs_fields del: abs_queues)
  show ?thesis unfolding serial_def
  proof (intro conjI allI impI)
    fix i assume "rxLocks (toc_stt s) i"
    then have l: "ast_rxLock (stt_abs (toc_stt s)) = Some i" by simp
    show "transacts rx_edge i (stt_table (toc_stt s) i) (rx_requests s) (fsf_stateRsp (toc_fsm s) @ stf_rxUpdRsp (toc_stt s)) (fsm_waits (toc_fsm s))"
      by (rule client_holds[OF rx[unfolded l]])
  next
    fix i assume "txLocks (toc_stt s) i"
    then have l: "ast_txLock (stt_abs (toc_stt s)) = Some i" by simp
    show "transacts app_edge i (stt_table (toc_stt s) i) (app_requests s) (taf_stateUpdRsp (toc_txa s) @ stf_txUpdRsp (toc_stt s)) (tai_waits (toc_txa s))"
      by (rule client_holds[OF tx[unfolded l]])
  next
    assume "fsf_stateRsp (toc_fsm s) \<noteq> []"
    then show "\<exists>i. fsm_waits (toc_fsm s) = Some i \<and> rxLocks (toc_stt s) i \<and> fsf_stateRsp (toc_fsm s) = [stt_table (toc_stt s) i]"
      using client_current[OF rx] by (auto simp: append_eq_Cons_conv)
  next
    assume "taf_stateUpdRsp (toc_txa s) \<noteq> []"
    then show "\<exists>i. tai_waits (toc_txa s) = Some i \<and> txLocks (toc_stt s) i \<and> taf_stateUpdRsp (toc_txa s) = [stt_table (toc_stt s) i]"
      using client_current[OF tx] by (auto simp: append_eq_Cons_conv)
  qed
qed

definition release_requests :: "toc_st \<Rightarrow> sid list" where
  "release_requests s = ast_closeQ (stt_abs (toc_stt s))"

definition session_cause :: "toc_st \<Rightarrow> sid \<Rightarrow> sessionState \<Rightarrow> sessionState \<Rightarrow> bool" where
  "session_cause s = cause (rx_requests s) (app_requests s) (release_requests s)
     (if stt_rxSessionLocked (toc_stt s) then Some (stt_rxSessionID (toc_stt s)) else None)
     (if stt_txSessionLocked (toc_stt s) then Some (stt_txSessionID (toc_stt s)) else None)"

lemma table_step:
  assumes "toc_ok s" and "toc_step s s'" and change: "stt_table (toc_stt s') i \<noteq> stt_table (toc_stt s) i"
  shows "session_cause s i (stt_table (toc_stt s) i) (stt_table (toc_stt s') i)"
  using assms(2)
proof (rule toc_stepE)
  have ok: "toc_inv (stt_abs (toc_stt s)) (toc_fsm s) (toc_txa s)" using assms(1) by (simp add: toc_ok_def)
  fix p assume s': "s' = toc_act p s"
  have p: "p = TocStateTable"
    using change by (cases p) (simp_all add: s' toc_act_def fsm_deliver_def txa_deliver_def tim_deliver_def)
  have t: "stt_table (toc_stt s') = ast_table (stt_abs (state_table (toc_stt s)))"
    by (simp add: s' p toc_act_def stt_deliver_def abs_fields)
  have "stt_abs (state_table (toc_stt s)) \<noteq> stt_abs (toc_stt s)" using change t by (metis abs_fields(1))
  then have "astt_step (stt_abs (toc_stt s)) (stt_abs (state_table (toc_stt s)))" using state_table_sim[of "toc_stt s"] by metis
  from table_cause[OF ok this, of i] show ?thesis
    using change unfolding session_cause_def rx_requests_def app_requests_def release_requests_def t abs_fields abs_lock_fields by blast
qed (use change in \<open>auto simp: toc_env_def\<close>)

text \<open>C2. In every run of the state table with the receive state machine, the application interface and the timers, under any
  interleaving of their calls and whatever the rest of the engine does, the state of a session changes in four ways only: the
  receive state machine writes a successor of it in the TCP diagram, or the application interface closes the session, which is
  established, both with the lock of the session, which this write gives back; or the application interface opens
  it, which makes it SYN-SENT, or the timers release it, which makes it CLOSED. These last two write without having read the state, whatever it
  is, but not while the receive state machine holds the session. FIN-WAIT-2 is never entered. The receive
  state machine and the application interface act on the state that the table still has, and while one of them holds a session, it
  has this state as its answer or the write that returns the lock is its oldest request.\<close>

theorem session_states:
  assumes "toc_fresh s0" and "toc_step\<^sup>*\<^sup>* s0 s" and "toc_step s s'"
  shows "(stt_table (toc_stt s') i \<noteq> stt_table (toc_stt s) i \<longrightarrow>
      session_cause s i (stt_table (toc_stt s) i) (stt_table (toc_stt s') i))
    \<and> stt_table (toc_stt s) i \<noteq> FIN_WAIT_2 \<and> serial s"
proof -
  have ok: "toc_ok s" by (rule toc_ok_run[OF assms(2,1)])
  then have "stt_table (toc_stt s) i \<noteq> FIN_WAIT_2" by (simp add: toc_ok_def toc_inv_def abs_fields)
  then show ?thesis using table_step[OF ok assms(3)] toc_ok_serial[OF ok] by blast
qed

subsection \<open>Example\<close>

text \<open>A SYN arrives for session 7.\<close>

definition toc_demo :: toc_st where
  "toc_demo = \<lparr>toc_stt = stt_init,
     toc_fsm = (fsm_ex (meta_ex 500 0 0 False True) CLOSED (rx_ex 0))\<lparr>fsm_state := LOAD, fsf_stateRsp := [],
       fsf_meta := [fsmMeta_ex (meta_ex 500 0 0 False True)]\<rparr>,
     toc_txa = txa_ex mw_ex, toc_tim = \<lparr>tm_rt = rt_init, tm_pt = pt_init, tm_ct = ct_init, tmf_release = [], tmf_event = []\<rparr>\<rparr>"

definition toc_run :: "toc_proc list \<Rightarrow> toc_st" where
  "toc_run ps = fold toc_act ps toc_demo"

lemma toc_run_reached: "toc_step\<^sup>*\<^sup>* toc_demo (toc_run ps)"
proof (induction ps rule: rev_induct)
  case (snoc p ps)
  then show ?case using toc_step.process[of "toc_run ps" p] by (auto simp: toc_run_def intro: rtranclp.rtrancl_into_rtrancl)
qed (simp add: toc_run_def)

lemma toc_demo_fresh: "toc_fresh toc_demo"
  by (simp add: toc_fresh_def toc_demo_def fsm_ex_def txa_ex_def)

theorem session_states_witness:
  "(let s = toc_run [TocFsm cfg_ex tx_ex, TocStateTable, TocFsm cfg_ex tx_ex]; s' = toc_act TocStateTable s in
    session_cause s 7 CLOSED SYN_RECEIVED \<and> serial s \<and> stt_table (toc_stt s) 7 = CLOSED \<and> stt_table (toc_stt s') 7 = SYN_RECEIVED)"
proof -
  let ?s = "toc_run [TocFsm cfg_ex tx_ex, TocStateTable, TocFsm cfg_ex tx_ex]"
  have "stt_table (toc_stt ?s) 7 = CLOSED" "stt_table (toc_stt (toc_act TocStateTable ?s)) 7 = SYN_RECEIVED"
    by (simp_all add: toc_run_def toc_act_def toc_demo_def stt_deliver_def fsm_deliver_def rxTcpFSM_def fsm_load_def fsm_transition_def
        fsm_ready_def fsm_syn_def put_defs state_table_def stt_rxServe_def rxLocks_def txLocks_def stt_init_def fsm_ex_def
        fsmMeta_ex_def meta_ex_def control_bits_def Let_def)
  then show ?thesis
    using session_states[OF toc_demo_fresh toc_run_reached toc_step.process[of ?s TocStateTable], of 7] by (simp add: Let_def)
qed

end
