(* ===== verification/Rx_App.thy ===== *)
theory Rx_App
  imports Sar_Tables Axis_Words Mem_Split "HOL-Library.Sublist"
begin

text \<open>
  The receive side of the application interface: \<^verbatim>\<open>toe/rx_app_stream_if/rx_app_stream_if.cpp\<close>, through which the application reads,
  \<^verbatim>\<open>toe/rx_app_if/rx_app_if.cpp\<close>, through which it listens, and \<^verbatim>\<open>rxAppMemDataRead\<close> of \<^verbatim>\<open>toe.cpp\<close> in the variant without receive
  buffer (\<^verbatim>\<open>RX_DDR_BYPASS\<close>). Then the reads together with the receive SAR table.
\<close>

subsection \<open>Reading\<close>

record rasi_st =
  rasi_readLength :: u16
  rasi_fsmState :: bool
  rasf_req :: "appReadRequest fifo"
  rasf_sarRsp :: "rxSarAppd fifo"
  rasf_meta :: "sid fifo"
  rasf_sarReq :: "rxSarAppd fifo"
  rasf_readCmd :: "mmCmd fifo"
  rasf_token :: "bool fifo"

text \<open>\<open>bypass\<close> is \<^verbatim>\<open>RX_DDR_BYPASS\<close>: a token for one packet instead of a command for the memory.\<close>

definition rx_app_stream_if :: "bool \<Rightarrow> rasi_st \<Rightarrow> rasi_st" where
  "rx_app_stream_if bypass s =
    (if \<not> rasi_fsmState s then
       (if rasf_req s \<noteq> [] then
          (let r = hd (rasf_req s); s = s\<lparr>rasf_req := tl (rasf_req s)\<rparr> in
           if arr_length r \<noteq> 0 then
             s\<lparr>rasf_sarReq := rasf_sarReq s @ [rxSarAppd_rd (arr_sessionID r)], rasi_readLength := arr_length r, rasi_fsmState := True\<rparr>
           else s)
        else s)
     else
       (if rasf_sarRsp s \<noteq> [] then
          (let r = hd (rasf_sarRsp s); i = rsa_sessionID r;
               s = s\<lparr>rasf_sarRsp := tl (rasf_sarRsp s), rasf_meta := rasf_meta s @ [i]\<rparr>;
               s = (if bypass then s\<lparr>rasf_token := rasf_token s @ [True]\<rparr>
                    else s\<lparr>rasf_readCmd := rasf_readCmd s @ [mmCmd_of (pkgAddr i (ucast (rsa_appd r))) (rasi_readLength s)]\<rparr>) in
           s\<lparr>rasf_sarReq := rasf_sarReq s @ [rxSarAppd_wr i (rsa_appd r + ucast (rasi_readLength s))], rasi_fsmState := False\<rparr>)
        else s))"

record ramd_st =
  ramd_fsmState :: bool
  ramf_token :: "bool fifo"
  ramf_in :: "net_axis fifo"
  ramf_out :: "net_axis fifo"

definition rxAppMemDataRead :: "ramd_st \<Rightarrow> ramd_st" where
  "rxAppMemDataRead s =
    (if \<not> ramd_fsmState s then
       (if ramf_token s \<noteq> [] then s\<lparr>ramf_token := tl (ramf_token s), ramd_fsmState := True\<rparr> else s)
     else
       (if ramf_in s \<noteq> [] then
          s\<lparr>ramf_in := tl (ramf_in s), ramf_out := ramf_out s @ [hd (ramf_in s)], ramd_fsmState := \<not> ax_last (hd (ramf_in s))\<rparr>
        else s))"

subsection \<open>Listening\<close>

record rai_st =
  rai_wait :: bool
  raif_listenReq :: "u16 fifo"
  raif_tableRsp :: "bool fifo"
  raif_listenRsp :: "bool fifo"
  raif_tableReq :: "u16 fifo"

definition rx_app_if :: "rai_st \<Rightarrow> rai_st" where
  "rx_app_if s =
    (if raif_listenReq s \<noteq> [] \<and> \<not> rai_wait s then
       s\<lparr>raif_listenReq := tl (raif_listenReq s), raif_tableReq := raif_tableReq s @ [hd (raif_listenReq s)], rai_wait := True\<rparr>
     else if raif_tableRsp s \<noteq> [] \<and> rai_wait s then
       s\<lparr>raif_tableRsp := tl (raif_tableRsp s), raif_listenRsp := raif_listenRsp s @ [hd (raif_tableRsp s)], rai_wait := False\<rparr>
     else s)"

subsection \<open>Reads and the receive SAR table\<close>

record rar_st =
  rar_if :: rasi_st
  rar_sar :: rxsar_state
  rar_data :: ramd_st

text \<open>The calls, and what the application, the memory and the two engines put in.\<close>

datatype rar_event =
    Rar_if
  | Rar_table
  | Rar_data
  | Rar_request appReadRequest
  | Rar_word net_axis
  | Rar_rxEng rxSarRecvd
  | Rar_txEng sid

definition rasi_deliver :: "rasi_st \<Rightarrow> rar_st \<Rightarrow> rar_st" where
  "rasi_deliver p s = s\<lparr>rar_if := p\<lparr>rasf_sarReq := [], rasf_token := []\<rparr>,
     rar_sar := (rar_sar s)\<lparr>rxf_rxAppReq := rxf_rxAppReq (rar_sar s) @ rasf_sarReq p\<rparr>,
     rar_data := (rar_data s)\<lparr>ramf_token := ramf_token (rar_data s) @ rasf_token p\<rparr>\<rparr>"

definition rxsar_deliver :: "rxsar_state \<Rightarrow> rar_st \<Rightarrow> rar_st" where
  "rxsar_deliver p s = s\<lparr>rar_sar := p\<lparr>rxf_rxAppRsp := []\<rparr>,
     rar_if := (rar_if s)\<lparr>rasf_sarRsp := rasf_sarRsp (rar_if s) @ rxf_rxAppRsp p\<rparr>\<rparr>"

fun rar_exec :: "rar_event \<Rightarrow> rar_st \<Rightarrow> rar_st" where
  "rar_exec Rar_if s = rasi_deliver (rx_app_stream_if True (rar_if s)) s"
| "rar_exec Rar_table s = rxsar_deliver (rx_sar_table (rar_sar s)) s"
| "rar_exec Rar_data s = s\<lparr>rar_data := rxAppMemDataRead (rar_data s)\<rparr>"
| "rar_exec (Rar_request r) s = s\<lparr>rar_if := (rar_if s)\<lparr>rasf_req := rasf_req (rar_if s) @ [r]\<rparr>\<rparr>"
| "rar_exec (Rar_word w) s = s\<lparr>rar_data := (rar_data s)\<lparr>ramf_in := ramf_in (rar_data s) @ [w]\<rparr>\<rparr>"
| "rar_exec (Rar_rxEng q) s = s\<lparr>rar_sar := (rar_sar s)\<lparr>rxf_rxEngReq := rxf_rxEngReq (rar_sar s) @ [q]\<rparr>\<rparr>"
| "rar_exec (Rar_txEng i) s = s\<lparr>rar_sar := (rar_sar s)\<lparr>rxf_txEngReq := rxf_txEngReq (rar_sar s) @ [i]\<rparr>\<rparr>"


subsection \<open>What is conserved\<close>

definition rar_reads :: "rar_st \<Rightarrow> rxSarAppd list" where
  "rar_reads s = rxf_rxAppReq (rar_sar s)"

text \<open>At most one read of the pointer is under way, behind the writes of earlier requests.\<close>

definition rar_phase :: "rar_st \<Rightarrow> bool" where
  "rar_phase s \<longleftrightarrow> rasf_sarReq (rar_if s) = [] \<and> rasf_token (rar_if s) = [] \<and> rxf_rxAppRsp (rar_sar s) = []
     \<and> (rasi_fsmState (rar_if s) \<longrightarrow>
          (\<exists>P j. rar_reads s = P @ [rxSarAppd_rd j] \<and> (\<forall>q \<in> set P. rsa_write q) \<and> rasf_sarRsp (rar_if s) = [])
          \<or> (\<exists>j a. rar_reads s = [] \<and> rasf_sarRsp (rar_if s) = [rxSarAppd_wr j a]))
     \<and> (\<not> rasi_fsmState (rar_if s) \<longrightarrow> (\<forall>q \<in> set (rar_reads s). rsa_write q) \<and> rasf_sarRsp (rar_if s) = [])"

definition rar_current :: "rar_st \<Rightarrow> sid" where
  "rar_current s = (if rasf_sarRsp (rar_if s) = [] then rsa_sessionID (last (rar_reads s)) else rsa_sessionID (hd (rasf_sarRsp (rar_if s))))"

definition asked :: "appReadRequest list \<Rightarrow> appReadRequest list" where
  "asked = filter (\<lambda>r. arr_length r \<noteq> 0)"

text \<open>The sessions named to the application, then the one being served, then those of the requests that wait.\<close>

definition rar_sids :: "rar_st \<Rightarrow> sid list" where
  "rar_sids s = rasf_meta (rar_if s) @ (if rasi_fsmState (rar_if s) then [rar_current s] else [])
     @ map arr_sessionID (asked (rasf_req (rar_if s)))"

text \<open>The pointer of a session once the writes on the way have been made, and what the requests that are not served yet will add.\<close>

definition pointer_after :: "sid \<Rightarrow> rxSarAppd list \<Rightarrow> win \<Rightarrow> win" where
  "pointer_after i qs a = fold (\<lambda>q v. if rsa_write q \<and> rsa_sessionID q = i then rsa_appd q else v) qs a"

definition asked_bytes :: "sid \<Rightarrow> appReadRequest list \<Rightarrow> win" where
  "asked_bytes i rs = sum_list (map (\<lambda>r. ucast (arr_length r)) (filter (\<lambda>r. arr_sessionID r = i) rs))"

definition rar_pointer :: "sid \<Rightarrow> rar_st \<Rightarrow> win" where
  "rar_pointer i s = pointer_after i (rar_reads s) (rse_appd (rxs_table (rar_sar s) i))
     + (if rasi_fsmState (rar_if s) \<and> rar_current s = i then ucast (rasi_readLength (rar_if s)) else 0)
     + asked_bytes i (rasf_req (rar_if s))"

text \<open>The receive engine does not open session \<open>i\<close> again, and the pointer read for it is still that of the table.\<close>

definition reopens :: "sid \<Rightarrow> rxSarRecvd \<Rightarrow> bool" where
  "reopens i q \<longleftrightarrow> rsv_write q \<and> rsv_init q \<and> rsv_sessionID q = i"

definition rar_stable :: "sid \<Rightarrow> rar_st \<Rightarrow> bool" where
  "rar_stable i s \<longleftrightarrow> rar_phase s \<and> (\<forall>q \<in> set (rxf_rxEngReq (rar_sar s)). \<not> reopens i q)
     \<and> (\<forall>a. rasf_sarRsp (rar_if s) = [rxSarAppd_wr i a] \<longrightarrow> a = rse_appd (rxs_table (rar_sar s) i))"

fun rar_keeps :: "sid \<Rightarrow> rar_event \<Rightarrow> bool" where
  "rar_keeps i (Rar_rxEng q) \<longleftrightarrow> \<not> reopens i q"
| "rar_keeps i e \<longleftrightarrow> True"

definition requests :: "rar_event list \<Rightarrow> appReadRequest list" where
  "requests es = concat (map (\<lambda>e. case e of Rar_request r \<Rightarrow> [r] | _ \<Rightarrow> []) es)"

definition arrived :: "rar_event list \<Rightarrow> net_axis list" where
  "arrived es = concat (map (\<lambda>e. case e of Rar_word w \<Rightarrow> [w] | _ \<Rightarrow> []) es)"

lemma appd_fields [simp]: "rsa_write (rxSarAppd_wr i a)" "rsa_sessionID (rxSarAppd_wr i a) = i" "rsa_appd (rxSarAppd_wr i a) = a"
  "\<not> rsa_write (rxSarAppd_rd i)" "rsa_sessionID (rxSarAppd_rd i) = i"
  "rxSarAppd_wr i a = rxSarAppd_wr j b \<longleftrightarrow> i = j \<and> a = b" "rxSarAppd_rd i = rxSarAppd_rd j \<longleftrightarrow> i = j"
  by (simp_all add: rxSarAppd_wr_def rxSarAppd_rd_def)

lemma asked_simps [simp]: "asked [] = []" "asked (r # rs) = (if arr_length r \<noteq> 0 then r # asked rs else asked rs)" "asked (xs @ ys) = asked xs @ asked ys"
  by (simp_all add: asked_def)

lemma asked_bytes_simps [simp]: "asked_bytes i [] = 0"
  "asked_bytes i (r # rs) = (if arr_sessionID r = i then ucast (arr_length r) else 0) + asked_bytes i rs"
  "asked_bytes i (xs @ ys) = asked_bytes i xs + asked_bytes i ys"
  by (simp_all add: asked_bytes_def)

lemma pointer_after_simps [simp]: "pointer_after i [] a = a"
  "pointer_after i (q # qs) a = pointer_after i qs (if rsa_write q \<and> rsa_sessionID q = i then rsa_appd q else a)"
  "pointer_after i (ps @ qs) a = pointer_after i qs (pointer_after i ps a)"
  by (simp_all add: pointer_after_def)

text \<open>What they depend on.\<close>

lemma rar_cong:
  assumes "rar_if t = rar_if s" and "rar_reads t = rar_reads s" and "rxf_rxAppRsp (rar_sar t) = rxf_rxAppRsp (rar_sar s)"
  shows "rar_phase t = rar_phase s" "rar_sids t = rar_sids s"
    and "rse_appd (rxs_table (rar_sar t) i) = rse_appd (rxs_table (rar_sar s) i) \<Longrightarrow> rar_pointer i t = rar_pointer i s"
    and "rse_appd (rxs_table (rar_sar t) i) = rse_appd (rxs_table (rar_sar s) i) \<Longrightarrow>
      \<forall>q \<in> set (rxf_rxEngReq (rar_sar t)). \<not> reopens i q \<Longrightarrow> rar_stable i s \<Longrightarrow> rar_stable i t"
proof -
  have c: "rar_current t = rar_current s" by (simp add: rar_current_def assms)
  show p: "rar_phase t = rar_phase s" by (simp only: rar_phase_def assms)
  show "rar_sids t = rar_sids s" by (simp only: rar_sids_def assms c)
  show "rse_appd (rxs_table (rar_sar t) i) = rse_appd (rxs_table (rar_sar s) i) \<Longrightarrow> rar_pointer i t = rar_pointer i s"
    by (simp only: rar_pointer_def assms c)
  show "rse_appd (rxs_table (rar_sar t) i) = rse_appd (rxs_table (rar_sar s) i) \<Longrightarrow>
      \<forall>q \<in> set (rxf_rxEngReq (rar_sar t)). \<not> reopens i q \<Longrightarrow> rar_stable i s \<Longrightarrow> rar_stable i t"
    by (simp only: rar_stable_def assms p) simp
qed

definition rar_same :: "sid \<Rightarrow> rar_st \<Rightarrow> rar_st \<Rightarrow> bool" where
  "rar_same i s t \<longleftrightarrow> rar_phase t \<and> rar_sids t = rar_sids s \<and> (rar_stable i s \<longrightarrow> rar_stable i t \<and> rar_pointer i t = rar_pointer i s)"

lemma rar_sameI:
  assumes "rar_phase s" and "rar_if t = rar_if s" and "rar_reads t = rar_reads s" and "rxf_rxAppRsp (rar_sar t) = rxf_rxAppRsp (rar_sar s)"
    and "rar_stable i s \<Longrightarrow> rse_appd (rxs_table (rar_sar t) i) = rse_appd (rxs_table (rar_sar s) i)
      \<and> (\<forall>q \<in> set (rxf_rxEngReq (rar_sar t)). \<not> reopens i q)"
  shows "rar_same i s t"
  using assms(1,5) rar_cong[OF assms(2-4)] by (simp add: rar_same_def)

text \<open>One step of each process.\<close>

lemma if_step:
  assumes "rar_phase s"
  shows "rar_same i s (rar_exec Rar_if s)"
proof (cases "rasi_fsmState (rar_if s)")
  case False
  show ?thesis
  proof (cases "rasf_req (rar_if s)")
    case Nil
    then have "rar_exec Rar_if s = s" using False assms by (simp add: rx_app_stream_if_def rasi_deliver_def rar_phase_def)
    then show ?thesis using assms by (simp add: rar_same_def)
  next
    case (Cons r rs)
    then show ?thesis using False assms
      by (cases "arr_length r = 0") (simp_all add: rar_same_def rx_app_stream_if_def rasi_deliver_def rar_phase_def rar_reads_def rar_sids_def
          rar_stable_def rar_pointer_def rar_current_def Let_def)
  qed
next
  case True
  show ?thesis
  proof (cases "rasf_sarRsp (rar_if s) = []")
    case rsp: True
    then have "rar_exec Rar_if s = s" using True assms by (simp add: rx_app_stream_if_def rasi_deliver_def rar_phase_def)
    then show ?thesis using assms by (simp add: rar_same_def)
  next
    case rsp: False
    then obtain j a where "rasf_sarRsp (rar_if s) = [rxSarAppd_wr j a]" "rar_reads s = []" using True assms by (auto simp: rar_phase_def)
    then show ?thesis using True assms
      by (simp add: rar_same_def rx_app_stream_if_def rasi_deliver_def rar_phase_def rar_reads_def rar_sids_def rar_stable_def rar_pointer_def rar_current_def Let_def)
  qed
qed


lemma rar_sar_delivered: "rar_phase s \<Longrightarrow> rxf_rxAppRsp (rar_sar s) = []"
  by (simp add: rar_phase_def)

lemma table_step_keeps:
  assumes "rar_phase s"
  shows "rar_same i s (rar_exec Rar_table s)"
proof -
  let ?t = "rar_sar s"
  note none = rar_sar_delivered[OF assms]
  consider (tx) "rxf_txEngReq ?t \<noteq> []" | (app) q qs where "rxf_txEngReq ?t = []" "rxf_rxAppReq ?t = q # qs"
    | (rx) q qs where "rxf_txEngReq ?t = []" "rxf_rxAppReq ?t = []" "rxf_rxEngReq ?t = q # qs"
    | (idle) "rxf_txEngReq ?t = []" "rxf_rxAppReq ?t = []" "rxf_rxEngReq ?t = []"
    by (metis list.exhaust)
  then show ?thesis
  proof cases
    case tx
    then show ?thesis
      by (intro rar_sameI[OF assms]) (simp_all add: rx_sar_table_def rxsar_deliver_def rar_reads_def none rar_stable_def)
  next
    case (app q qs)
    show ?thesis
    proof (cases "rsa_write q")
      case True
      show ?thesis
      proof (cases "rasi_fsmState (rar_if s)")
        case fsm: True
        then obtain P j where P: "q # qs = P @ [rxSarAppd_rd j]" "\<forall>q \<in> set P. rsa_write q" "rasf_sarRsp (rar_if s) = []"
          using assms app by (auto simp: rar_phase_def rar_reads_def)
        then obtain P' where P': "qs = P' @ [rxSarAppd_rd j]" "\<forall>q \<in> set P'. rsa_write q" using True by (cases P) auto
        show ?thesis using assms app True P(3) P' fsm
          by (simp add: rar_same_def rx_sar_table_def rxsar_deliver_def rar_phase_def rar_reads_def rar_sids_def rar_stable_def rar_pointer_def rar_current_def Let_def)
      next
        case fsm: False
        then show ?thesis using assms app True
          by (simp add: rar_same_def rx_sar_table_def rxsar_deliver_def rar_phase_def rar_reads_def rar_sids_def rar_stable_def rar_pointer_def Let_def)
      qed
    next
      case False
      then have fsm: "rasi_fsmState (rar_if s)" "rasf_sarRsp (rar_if s) = []"
        using assms app by (auto simp: rar_phase_def rar_reads_def split: if_splits)
      then obtain P j where P: "q # qs = P @ [rxSarAppd_rd j]" "\<forall>q \<in> set P. rsa_write q" using assms app by (auto simp: rar_phase_def rar_reads_def)
      then have "q = rxSarAppd_rd j" "qs = []" using False by (cases P; auto)+
      then show ?thesis using assms app False fsm none
        by (simp add: rar_same_def rx_sar_table_def rxsar_deliver_def rar_phase_def rar_reads_def rar_sids_def rar_stable_def rar_pointer_def rar_current_def Let_def)
    qed
  next
    case (rx q qs)
    have keep: "rse_appd (rxSar_write q e) = rse_appd e" if "\<not> rsv_init q" for e using that by (simp add: rxSar_write_def)
    show ?thesis using rx
      by (intro rar_sameI[OF assms]) (auto simp: rx_sar_table_def rxsar_deliver_def rar_reads_def none rar_stable_def Let_def reopens_def keep)
  next
    case idle
    then show ?thesis
      by (intro rar_sameI[OF assms]) (simp_all add: rx_sar_table_def rxsar_deliver_def rar_reads_def none rar_stable_def)
  qed
qed

lemma env_step:
  assumes "rar_phase s"
  shows "rar_same i s (rar_exec Rar_data s)" "rar_same i s (rar_exec (Rar_word w) s)" "rar_same i s (rar_exec (Rar_txEng j) s)"
  by (rule rar_sameI[OF assms]; simp add: rar_reads_def rar_stable_def)+

lemma rxEng_step:
  assumes "rar_phase s"
  shows "rar_phase (rar_exec (Rar_rxEng q) s) \<and> rar_sids (rar_exec (Rar_rxEng q) s) = rar_sids s"
    "\<not> reopens i q \<Longrightarrow> rar_same i s (rar_exec (Rar_rxEng q) s)"
  using assms rar_cong[of "rar_exec (Rar_rxEng q) s" s]
  by (simp add: rar_reads_def, intro rar_sameI[OF assms]) (auto simp: rar_reads_def rar_stable_def)

lemma request_step:
  assumes "rar_phase s"
  shows "rar_phase (rar_exec (Rar_request r) s)" "rar_sids (rar_exec (Rar_request r) s) = rar_sids s @ map arr_sessionID (asked [r])"
    "rar_stable i s \<Longrightarrow> rar_stable i (rar_exec (Rar_request r) s) \<and> rar_pointer i (rar_exec (Rar_request r) s) = rar_pointer i s + asked_bytes i [r]"
proof -
  let ?t = "rar_exec (Rar_request r) s"
  have f: "rasf_sarReq (rar_if ?t) = rasf_sarReq (rar_if s)" "rasf_token (rar_if ?t) = rasf_token (rar_if s)" "rar_sar ?t = rar_sar s"
    "rasi_fsmState (rar_if ?t) = rasi_fsmState (rar_if s)" "rasf_sarRsp (rar_if ?t) = rasf_sarRsp (rar_if s)" "rar_reads ?t = rar_reads s"
    "rasf_req (rar_if ?t) = rasf_req (rar_if s) @ [r]" "rasf_meta (rar_if ?t) = rasf_meta (rar_if s)"
    "rasi_readLength (rar_if ?t) = rasi_readLength (rar_if s)"
    by (simp_all add: rar_reads_def)
  have c: "rar_current ?t = rar_current s" by (simp only: rar_current_def f)
  have p: "rar_phase ?t = rar_phase s" by (simp only: rar_phase_def f)
  show "rar_phase ?t" using assms p by simp
  show "rar_sids ?t = rar_sids s @ map arr_sessionID (asked [r])" unfolding rar_sids_def f c by simp
  show "rar_stable i ?t \<and> rar_pointer i ?t = rar_pointer i s + asked_bytes i [r]" if "rar_stable i s"
    using that unfolding rar_stable_def rar_pointer_def f c p by simp
qed


subsection \<open>All runs\<close>

text \<open>A token is written for every session named, and a packet goes out for every token.\<close>

definition rar_counted :: "rar_st \<Rightarrow> bool" where
  "rar_counted s \<longleftrightarrow> length (filter ax_last (ramf_out (rar_data s))) + of_bool (ramd_fsmState (rar_data s)) + length (ramf_token (rar_data s))
       = length (rasf_meta (rar_if s))
     \<and> (\<not> ramd_fsmState (rar_data s) \<longrightarrow> ramf_out (rar_data s) = [] \<or> ax_last (last (ramf_out (rar_data s))))"

lemma counted_step:
  assumes "rar_phase s" and "rar_counted s"
  shows "rar_counted (rar_exec e s)"
proof (cases e)
  case Rar_if
  have "rasf_token (rar_if s) = []" using assms(1) by (simp add: rar_phase_def)
  then show ?thesis using assms(2) Rar_if by (simp add: rx_app_stream_if_def rasi_deliver_def rar_counted_def Let_def)
next
  case Rar_data
  then show ?thesis using assms(2) by (cases "ramf_in (rar_data s)"; cases "ramf_token (rar_data s)") (auto simp: rxAppMemDataRead_def rar_counted_def)
next
  case Rar_table
  then show ?thesis using assms(2) by (simp add: rxsar_deliver_def rar_counted_def)
qed (use assms(2) in \<open>simp_all add: rar_counted_def\<close>)

lemma phase_step: "rar_phase s \<Longrightarrow> rar_phase (rar_exec e s)"
  by (cases e) (use if_step table_step_keeps env_step rxEng_step request_step in \<open>fastforce simp: rar_same_def simp del: rar_exec.simps\<close>)+

interpretation rar: reactive rar_exec "\<lambda>s. rar_phase s \<and> rar_counted s" "\<lambda>_. True"
  by unfold_locales (simp add: phase_step counted_step)

lemma stable_step: "rar_stable i s \<Longrightarrow> rar_keeps i e \<Longrightarrow> rar_stable i (rar_exec e s) \<and> rar_pointer i (rar_exec e s) = rar_pointer i s + asked_bytes i (requests [e])"
proof -
  assume st: "rar_stable i s" and e: "rar_keeps i e"
  have p: "rar_phase s" using st by (simp add: rar_stable_def)
  show ?thesis
    by (cases e) (use st e if_step[OF p] table_step_keeps[OF p] env_step[OF p] rxEng_step[OF p] request_step[OF p] in
        \<open>simp_all add: rar_same_def requests_def del: rar_exec.simps\<close>)
qed

interpretation rar_ptr: reactive rar_exec "rar_stable i" "rar_keeps i" for i
  by unfold_locales (simp add: stable_step)

lemma sids_step: "rar_phase s \<Longrightarrow> rar_sids (rar_exec e s) = rar_sids s @ map arr_sessionID (asked (requests [e]))"
  by (cases e) (use if_step table_step_keeps env_step rxEng_step request_step in
      \<open>force simp: rar_same_def requests_def simp del: rar_exec.simps\<close>)+

lemma words_step: "ramf_out (rar_data (rar_exec e s)) @ ramf_in (rar_data (rar_exec e s)) = ramf_out (rar_data s) @ ramf_in (rar_data s) @ arrived [e]"
  by (cases e) (simp_all add: rasi_deliver_def rxsar_deliver_def rxAppMemDataRead_def arrived_def)

lemma logs_Cons: "requests (e # es) = requests [e] @ requests es" "arrived (e # es) = arrived [e] @ arrived es"
  by (simp_all add: requests_def arrived_def)

lemma sids_run: "rar_phase s \<Longrightarrow> rar_sids (fold rar_exec es s) = rar_sids s @ map arr_sessionID (asked (requests es))"
proof (induction es arbitrary: s)
  case (Cons e es)
  then show ?case using phase_step[OF Cons.prems, of e] sids_step[OF Cons.prems, of e] by (simp add: logs_Cons(1)[of e es] del: rar_exec.simps)
qed (simp add: requests_def)

lemma words_run: "ramf_out (rar_data (fold rar_exec es s)) @ ramf_in (rar_data (fold rar_exec es s)) = ramf_out (rar_data s) @ ramf_in (rar_data s) @ arrived es"
proof (induction es arbitrary: s)
  case (Cons e es)
  then show ?case using words_step[of e s] by (simp add: logs_Cons(2)[of e es] del: rar_exec.simps)
qed (simp add: arrived_def)

lemma pointer_run:
  "rar_stable i s \<Longrightarrow> \<forall>e \<in> set es. rar_keeps i e \<Longrightarrow> rar_pointer i (fold rar_exec es s) = rar_pointer i s + asked_bytes i (requests es)"
proof (induction es arbitrary: s)
  case (Cons e es)
  then show ?case using stable_step[of i s e] by (simp add: logs_Cons(1)[of e es] add.assoc del: rar_exec.simps)
qed (simp add: requests_def)

subsection \<open>What the application gets\<close>

definition rar_fresh :: "rar_st \<Rightarrow> bool" where
  "rar_fresh s \<longleftrightarrow> \<not> rasi_fsmState (rar_if s) \<and> rasf_req (rar_if s) = [] \<and> rasf_sarRsp (rar_if s) = [] \<and> rasf_meta (rar_if s) = []
     \<and> rasf_sarReq (rar_if s) = [] \<and> rasf_token (rar_if s) = [] \<and> rxf_rxAppReq (rar_sar s) = [] \<and> rxf_rxAppRsp (rar_sar s) = []
     \<and> rxf_rxEngReq (rar_sar s) = [] \<and> \<not> ramd_fsmState (rar_data s) \<and> ramf_token (rar_data s) = [] \<and> ramf_in (rar_data s) = []
     \<and> ramf_out (rar_data s) = []"

text \<open>The requests are served: nothing waits in the interface, at the table or at the reader.\<close>

definition rar_served :: "rar_st \<Rightarrow> bool" where
  "rar_served s \<longleftrightarrow> \<not> rasi_fsmState (rar_if s) \<and> rasf_req (rar_if s) = [] \<and> rxf_rxAppReq (rar_sar s) = []
     \<and> \<not> ramd_fsmState (rar_data s) \<and> ramf_token (rar_data s) = []"

text \<open>C39. What reads of the application return when the receive buffer is bypassed, in every run and under any interleaving with the two
  engines: the sessions named to it are those it has asked for, in order, without the requests of length 0, and the words it gets are those
  that have arrived, in order, up to one packet for each session named. When the requests are served they have taken exactly as many packets
  as there were requests, the oldest first, whatever sessions and lengths they named, while the pointer of each session that was not
  opened anew has moved by the lengths that were asked for. So only an application that asks in the order of the notifications, for all of
  each, gets what it asks for.\<close>

theorem app_reads:
  assumes "rar_fresh s0" and "s = fold rar_exec es s0"
  shows "prefix (rasf_meta (rar_if s)) (map arr_sessionID (asked (requests es)))
    \<and> prefix (ramf_out (rar_data s)) (arrived es)
    \<and> length (filter ax_last (ramf_out (rar_data s))) \<le> length (rasf_meta (rar_if s))
    \<and> (rar_served s \<longrightarrow> length (filter ax_last (ramf_out (rar_data s))) = length (asked (requests es))
         \<and> (ramf_out (rar_data s) = [] \<or> ax_last (last (ramf_out (rar_data s))))
         \<and> rasf_meta (rar_if s) = map arr_sessionID (asked (requests es))
         \<and> (\<forall>i. (\<forall>e \<in> set es. rar_keeps i e) \<longrightarrow>
              rse_appd (rxs_table (rar_sar s) i) = rse_appd (rxs_table (rar_sar s0) i) + asked_bytes i (requests es)))"
proof -
  have ph: "rar_phase s0" "rar_counted s0" using assms(1) by (simp_all add: rar_fresh_def rar_phase_def rar_reads_def rar_counted_def)
  have inv: "rar_phase s" "rar_counted s" using rar.inv_run[of s0 es] ph assms(2) by simp_all
  have sids: "rar_sids s = map arr_sessionID (asked (requests es))"
    using sids_run[OF ph(1), of es] assms by (simp add: rar_sids_def rar_fresh_def)
  have words: "ramf_out (rar_data s) @ ramf_in (rar_data s) = arrived es" using words_run[of es s0] assms by (simp add: rar_fresh_def)
  have ptr: "rse_appd (rxs_table (rar_sar s) i) = rse_appd (rxs_table (rar_sar s0) i) + asked_bytes i (requests es)"
    if "rar_served s" "\<forall>e \<in> set es. rar_keeps i e" for i
  proof -
    have "rar_stable i s0" using assms(1) ph(1) by (simp add: rar_stable_def rar_fresh_def)
    from pointer_run[OF this that(2)] show ?thesis using that(1) assms by (simp add: rar_pointer_def rar_served_def rar_fresh_def rar_reads_def)
  qed
  have "prefix (rasf_meta (rar_if s)) (map arr_sessionID (asked (requests es)))" unfolding sids[symmetric] rar_sids_def by (rule prefixI) simp
  moreover have "prefix (ramf_out (rar_data s)) (arrived es)" by (rule prefixI[OF words[symmetric]])
  moreover have "rasf_meta (rar_if s) = map arr_sessionID (asked (requests es))" if "rar_served s"
    using sids that by (simp add: rar_sids_def rar_served_def)
  ultimately show ?thesis using inv(2) ptr by (auto simp: rar_counted_def rar_served_def)
qed


text \<open>Packets of the sessions 1 and 2 have arrived in this order; a read for session 2 gets the one of session 1.\<close>

definition rar_demo :: rar_st where
  "rar_demo = \<lparr>rar_if = \<lparr>rasi_readLength = 0, rasi_fsmState = False, rasf_req = [], rasf_sarRsp = [], rasf_meta = [], rasf_sarReq = [],
       rasf_readCmd = [], rasf_token = []\<rparr>,
     rar_sar = \<lparr>rxs_table = (\<lambda>_. \<lparr>rse_recvd = 100, rse_appd = 90, rse_win_shift = 2, rse_head = 100, rse_offset = 0, rse_gap = False\<rparr>),
       rxf_txEngReq = [], rxf_rxAppReq = [], rxf_rxEngReq = [], rxf_rxEngRsp = [], rxf_rxAppRsp = [], rxf_txEngRsp = []\<rparr>,
     rar_data = \<lparr>ramd_fsmState = False, ramf_token = [], ramf_in = [], ramf_out = []\<rparr>\<rparr>"

definition one_word :: "nat \<Rightarrow> net_axis" where
  "one_word n = \<lparr>ax_lanes = [(of_nat n, True)], ax_last = True\<rparr>"

definition rar_script :: "rar_event list" where
  "rar_script = [Rar_word (one_word 1), Rar_word (one_word 2), Rar_request \<lparr>arr_sessionID = 2, arr_length = 1\<rparr>, Rar_if, Rar_table, Rar_if,
     Rar_table, Rar_data, Rar_data]"

theorem app_reads_witness:
  "(let s = fold rar_exec rar_script rar_demo in
    rasf_meta (rar_if s) = [2] \<and> ramf_out (rar_data s) = [one_word 1] \<and> rse_appd (rxs_table (rar_sar s) 2) = 91)"
proof -
  define s where "s = fold rar_exec rar_script rar_demo"
  have served: "rar_served s"
    by (simp add: s_def rar_served_def rar_script_def rar_demo_def rx_app_stream_if_def rasi_deliver_def rx_sar_table_def rxsar_deliver_def
        rxAppMemDataRead_def one_word_def Let_def)
  have fresh: "rar_fresh rar_demo" by (simp add: rar_fresh_def rar_demo_def)
  have logs: "requests rar_script = [\<lparr>arr_sessionID = 2, arr_length = 1\<rparr>]" "arrived rar_script = [one_word 1, one_word 2]"
    by (simp_all add: rar_script_def requests_def arrived_def)
  have keeps: "\<forall>e \<in> set rar_script. rar_keeps 2 e" by (simp add: rar_script_def)
  note r = app_reads[OF fresh s_def, unfolded logs]
  have out: "length (filter ax_last (ramf_out (rar_data s))) = 1" using r served by simp
  have "prefix (ramf_out (rar_data s)) [one_word 1, one_word 2]" using r by blast
  then have "ramf_out (rar_data s) = [one_word 1]" using out by (auto simp: prefix_Cons one_word_def split: if_splits)
  moreover have "rse_appd (rxs_table (rar_sar rar_demo) 2) = 90" by (simp add: rar_demo_def)
  moreover have "rse_appd (rxs_table (rar_sar s) 2) = rse_appd (rxs_table (rar_sar rar_demo) 2) + asked_bytes 2 [\<lparr>arr_sessionID = 2, arr_length = 1\<rparr>]"
    using r served keeps by blast
  ultimately show ?thesis using r served unfolding s_def[symmetric] Let_def by simp
qed

end
