(* ===== verification/Spec2Isabelle.thy ===== *)
theory Spec2Isabelle
  imports State_Table Sar_Tables Timers Event_Engine Port_Table Rx_Reassembly Session_Lookup Tx_Meta Tx_App Rx_Stages
    Word_Shift Rx_Options Segment_Check Multi_Queue Retransmitter Kernel_Session Ipv4_Trip Frame_Trip Arp_Trip Icmp_Trip Toe_Control Rx_App
begin

text \<open>
  A verification library for the 100 Gbit/s TCP/IP stack of the repository and for the kernels that use it: the hardware
  modules under \<^verbatim>\<open>src/fpga-network-stack/hls\<close>, written in C++ for high-level synthesis, and the library for user kernels
  \<^verbatim>\<open>src/kernel/common/include/communication.hpp\<close>. File names below without a directory are relative to \<^verbatim>\<open>hls\<close>.

  \<^bold>\<open>The program.\<close> A module is a set of processes, each a C++ function that is called in every clock cycle, keeps its state in
  static variables and talks to the others through FIFO streams only. A frame from the network enters \<^verbatim>\<open>ip_handler\<close>, which takes
  off the Ethernet header, checks the IPv4 header and hands the packet to the module for its protocol. Packets to the network
  pass \<^verbatim>\<open>mac_ip_encode\<close>, which fills in the IPv4 checksum, asks the ARP table for the next hop and puts the Ethernet header in
  front. Between the two and the user are \<^verbatim>\<open>udp\<close> and \<^verbatim>\<open>ipv4\<close>, the TCP offload engine \<^verbatim>\<open>toe\<close> and the InfiniBand transport. In the TCP
  engine a receive engine and a transmit engine share the session tables (connection state, receive and transmit windows, ports,
  session numbers behind a cuckoo hash table) with the timers and the two application interfaces; an event engine merges
  what asks for a segment to be sent. A user kernel opens connections and moves data with the functions of \<^verbatim>\<open>communication.hpp\<close>.

  \<^bold>\<open>How the code is modelled.\<close> A process is a function on a record of its static variables and of the streams it reads and
  writes; it makes one call. A stream is a list, written at the end; that it may be full or empty is an argument or a test on
  the list, as in the code. A module is the record of its processes, in which the reader owns a stream: a \<open>_deliver\<close>
  definition hands over what a process has written, \<open>_act\<close> is a step of one process and the function with the name of the
  module is one call of all of them in the order of the code. An \<^verbatim>\<open>ap_uint<n>\<close> is an \<open>n word\<close> and wraps where the
  code assigns; wider intermediate results, which \<^verbatim>\<open>ap_uint\<close> keeps exact, are numbers or wider words. Structs are records, enumerations
  datatypes, arrays indexed by a session number functions. A variable that the code reads before it is assigned is an
  argument that the theorems leave open. A word of a stream (\<^verbatim>\<open>net_axis<WIDTH>\<close>) is a list of byte lanes with their keep bits;
  \<open>packet W ws bs\<close> says that the words \<open>ws\<close> of \<open>W\<close> lanes are a packet of the bytes \<open>bs\<close>. Where the code has one function several
  times under different names, the copies are defined to be the first one.

  The configuration is the one that the build files set: \<^verbatim>\<open>TCP_NODELAY\<close>, \<^verbatim>\<open>WINDOW_SCALE\<close> (18-bit windows), \<^verbatim>\<open>FAST_RETRANSMIT\<close>
  on, 1000 sessions, segments of 4096 bytes; \<^verbatim>\<open>RX_DDR_BYPASS\<close> is modelled on and off. Stream processes are for any width that the code
  is written for, or for 512 bits where the code is (the checksum of the IPv4 header).

  \<^bold>\<open>The theories.\<close>
  \<^item> Foundations. \<open>Toe_Prelude\<close>: FIFOs, bit ranges, machine numbers, and the interfaces of the library as locales: \<open>reactive\<close> (an
    invariant kept by every event holds in every run), \<open>terminating\<close> and \<open>countdown\<close> (a rank that every call lowers). \<open>Toe_Types\<close>: the
    structs of \<^verbatim>\<open>toe/toe_internals.hpp\<close> and \<^verbatim>\<open>toe/toe.hpp\<close>. \<open>Axis_Words\<close>: stream words, keep bits and packets (\<^verbatim>\<open>axi_utils\<close>).
    \<open>Stream_Utils\<close>, \<open>Word_Shift\<close>: stream helpers and the shifters by whole octets. \<open>Packet_Header\<close>: headers collected from a
    stream and laid out on one (\<^verbatim>\<open>packet.hpp\<close>). \<open>Dataflow\<close>: the locale \<open>dataflow\<close>, for processes that only meet in streams every fair schedule
    reaches the same end, and \<open>fed_dataflow\<close>, inputs that wait are worked off one by one.
  \<^item> The tables of the TCP engine. \<open>State_Table\<close>: locks per session for three clients, refines an abstract table of locked
    entries. \<open>Sar_Tables\<close>: the windows. \<open>Port_Table\<close>: listening and ephemeral ports. \<open>Hash_Table\<close>: the cuckoo table refines a partial
    map (locale \<open>kv_store\<close>). \<open>Session_Lookup\<close>: session numbers are given out once. \<open>Timers\<close>: retransmit, probe and close timer and when they fire.
    \<open>Event_Engine\<close>: the merge of events and the delay of acknowledgements.
  \<^item> The receive path. \<open>Rx_Header\<close>, \<open>Rx_Ip\<close>, \<open>Rx_Options\<close>: from the IPv4 packet to metadata and payload. \<open>Rx_Stages\<close>: the option
    parser against a search of bytes, droppers, notifications. \<open>Rx_Fsm\<close>: the metadata handler and the TCP state machine. \<open>Rx_Reassembly\<close>: what the state machine
    does with payload over several segments. \<open>Mem_Split\<close>: ring buffers and split accesses. \<open>Toe_Control\<close>: the state table with all its
    users, as \<^verbatim>\<open>toe.cpp\<close> connects them, in an arbitrary environment. \<open>Rx_App\<close>: what the reads of the application return.
  \<^item> The transmit path. \<open>Tx_App\<close>: the application interface and the buffer it fills. \<open>Tx_Meta\<close>: segmentation and retransmission.
    \<open>Tx_Stitch\<close>, \<open>Tx_Header\<close>: payload and headers. \<open>Checksum\<close>: the sums are the Internet checksum. \<open>Header_Round_Trip\<close>,
    \<open>Segment_Check\<close>: what the transmit engine sends is what the receive engine reads and accepts.
  \<^item> UDP and IPv4. \<open>Header_Gen\<close>: the header generators; \<open>Udp\<close>, \<open>Ipv4\<close>: the modules as networks; \<open>Udp_Trip\<close>, \<open>Ipv4_Trip\<close>: a datagram from
    board to board.
  \<^item> Ethernet. \<open>Header_Read\<close>: the processes that read a header in passing; \<open>Mac_Encode\<close>, \<open>Mac_Trip\<close>: \<^verbatim>\<open>mac_ip_encode\<close>; \<open>Ip_Handler\<close>,
    \<open>Ip_Dispatch\<close>, \<open>Ip_Handler_Trip\<close>: \<^verbatim>\<open>ip_handler\<close> refines a function on the bytes of the frame; \<open>Frame_Trip\<close>: the two together.
    \<open>Arp_Server\<close>, \<open>Arp_Learn\<close>, \<open>Arp_Trip\<close>: the ARP server, what its table can hold, and two boards that resolve an address.
  \<^item> ICMP. \<open>Icmp\<close>: the server; \<open>Icmp_Echo\<close>, \<open>Icmp_Trip\<close>: the answer to an echo request, its checksum, and any sequence of packets.
  \<^item> InfiniBand transport. \<open>Linked_Cells\<close>, \<open>Multi_Queue\<close>: the queues in one table of cells are linearizable; \<open>Retransmitter\<close>.
  \<^item> The kernel library. \<open>Kernel_Tx\<close>, \<open>Kernel_Send\<close>, \<open>Kernel_Broadcast\<close>: sending (locale \<open>sender\<close>); \<open>Kernel_Gather\<close>, \<open>Kernel_Reduce\<close>:
    receiving from many and summing; \<open>Kernel_Session\<close>: connections, the send kernel, and all-reduce from end to end.

  \<^bold>\<open>What the lemmas show.\<close> For every component an invariant or a functional description of each process (\<open>_packet\<close>, \<open>_step\<close>, \<open>_inv_\<close>
  lemmas), lifted to all runs or all schedules through the interpretation of a locale in the theory of the component, and from
  there the properties, which are marked \<open>C1\<close>, \<open>C2\<close> and so on. Properties about a run quantify over any interleaving of the calls and of
  the environment. Where the code does something that it does not mean to, the property states what it does.

  \<^bold>\<open>Bounds.\<close> There is no fuel. Loops that may not end are calls of a process, and a theorem gives the number of calls within
  which they do; theorems over schedules give a number of rounds after which every fair schedule has reached the end. The tables are
  of the size of the code.

  \<^bold>\<open>Not modelled.\<close> The top functions (\<^verbatim>\<open>_top\<close>) that only convert the stream type, and the wiring of the rest of the TCP engine in \<^verbatim>\<open>toe.cpp\<close>
  as one network: its arbiters decide by the order of arrival, so that its schedules do not agree, and the properties quantify over
  interleavings for each component instead. The depths of FIFOs inside a module: streams hold any number of words.
  The reader of the application data in the variant with a receive buffer. IPv6, DHCP and the padding of short frames, the legacy UDP
  module and the ARP server it came with, the RoCE packet processing beyond its queues, the functions of the kernel library that only
  drain unused streams, the kernels for measurements, and the host programs with their vendored libraries.
\<close>

end
